(* ===== verification/Kernel_Prelude.thy ===== *)
theory Kernel_Prelude
  imports Main "HOL-Library.Word"
begin

text \<open>
  Shared vocabulary of the development: the C integer types at their width, the ways in which
  kernel code stops (\<open>fault\<close>), the result type of code that may stop, bounds-checked byte
  buffers, circular views of lists, and the lemmas on powers of two and masks that the index
  arithmetic of the ring, the dynamic array and the bitmap rests on.
\<close>

unbundle bit_operations_syntax

section \<open>Integers of the C code\<close>

text \<open>\<^verbatim>\<open>types.h\<close>: \<open>uint8_t\<close>, \<open>uint16_t\<close>, \<open>uint32_t\<close>, \<open>uint64_t\<close> on the 32-bit target.\<close>

type_synonym u8 = "8 word"
type_synonym u16 = "16 word"
type_synonym u32 = "32 word"
type_synonym u64 = "64 word"
type_synonym i32 = "32 word"
type_synonym bytes = "8 word list"

section \<open>Faults and results\<close>

text \<open>
  \<open>Panic\<close> is a call of \<open>PANIC\<close>, \<open>Assertion\<close> a failed \<open>ASSERT\<close>, \<open>Out_Of_Bounds\<close> an access
  outside the object the code works on and \<open>Undefined\<close> an operation C leaves undefined (such
  as \<open>__builtin_clz(0)\<close>). \<open>Waiting\<close> is code still polling a device when the recorded inputs
  of the device end. None of them returns to the caller.
\<close>

datatype fault = Panic string | Assertion string | Out_Of_Bounds | Undefined string | Waiting

type_synonym 'a res = "fault + 'a"

fun rbind :: "'a res \<Rightarrow> ('a \<Rightarrow> 'b res) \<Rightarrow> 'b res" where
  "rbind (Inl e) f = Inl e"
| "rbind (Inr x) f = f x"

definition rguard :: "bool \<Rightarrow> fault \<Rightarrow> unit res" where
  "rguard b e = (if b then Inr () else Inl e)"

lemma rguard_simps [simp]: "rguard True e = Inr ()" "rguard False e = Inl e"
  by (simp_all add: rguard_def)

lemma rbind_eq_Inr: "rbind m f = Inr y \<longleftrightarrow> (\<exists>x. m = Inr x \<and> f x = Inr y)"
  by (cases m) auto

lemma rguard_eq_Inr [simp]: "rguard b e = Inr u \<longleftrightarrow> b"
  by (simp add: rguard_def)

text \<open>Code with a loop that may run forever: \<open>None\<close> is no return.\<close>

type_synonym 'a lres = "'a res option"

definition lbind :: "'a lres \<Rightarrow> ('a \<Rightarrow> 'b lres) \<Rightarrow> 'b lres" where
  "lbind x f = (case x of None \<Rightarrow> None | Some (Inl e) \<Rightarrow> Some (Inl e) | Some (Inr v) \<Rightarrow> f v)"

lemma lbind_simps [simp]: "lbind None f = None" "lbind (Some (Inl e)) f = Some (Inl e)" "lbind (Some (Inr v)) f = f v"
  by (simp_all add: lbind_def)

lemma lbind_mono [partial_function_mono]:
  fixes B :: "('a \<Rightarrow> 'b option) \<Rightarrow> 'c lres"
  assumes "mono_option B" "\<And>y. mono_option (\<lambda>f. C y f)"
  shows "mono_option (\<lambda>f. lbind (B f) (\<lambda>y. C y f))"
proof (rule monotoneI)
  fix f g :: "'a \<Rightarrow> 'b option" assume fg: "fun_ord option_ord f g"
  have b: "option_ord (B f) (B g)" using assms(1) fg by (rule monotoneD [of _ _ _ f g])
  have c: "option_ord (C y f) (C y g)" for y using assms(2) fg by (rule monotoneD [of _ _ _ f g])
  show "option_ord (lbind (B f) (\<lambda>y. C y f)) (lbind (B g) (\<lambda>y. C y g))"
  proof (cases "B f")
    case (Some r)
    then have g: "B g = Some r" using b by (simp add: flat_ord_def)
    show ?thesis using c Some g by (cases r) (simp_all add: flat_ord_def)
  qed (simp add: flat_ord_def)
qed

lemma lbind_eq_Some_Inr: "lbind m f = Some (Inr y) \<longleftrightarrow> (\<exists>x. m = Some (Inr x) \<and> f x = Some (Inr y))"
  by (auto simp: lbind_def split: option.splits sum.splits)

text \<open>The loop \<open>for (i = lo; i < lo + n; i++)\<close> with a body that may stop.\<close>

fun rfor :: "(nat \<Rightarrow> 's \<Rightarrow> 's res) \<Rightarrow> nat \<Rightarrow> nat \<Rightarrow> 's \<Rightarrow> 's res" where
  "rfor f lo 0 s = Inr s"
| "rfor f lo (Suc n) s = rbind (f lo s) (rfor f (Suc lo) n)"

lemma rfor_inv:
  assumes "P lo s" "lo + n = hi"
    and "\<And>i t. lo \<le> i \<Longrightarrow> i < hi \<Longrightarrow> P i t \<Longrightarrow> \<exists>t'. f i t = Inr t' \<and> P (Suc i) t'"
  shows "\<exists>t. rfor f lo n s = Inr t \<and> P hi t"
  using assms
proof (induction n arbitrary: lo s)
  case (Suc n)
  obtain s1 where s1: "f lo s = Inr s1" "P (Suc lo) s1"
    using Suc.prems(3) [of lo s] Suc.prems(1,2) by auto
  have "\<exists>t. rfor f (Suc lo) n s1 = Inr t \<and> P hi t"
    by (rule Suc.IH) (use s1 Suc.prems in auto)
  then show ?case by (simp add: s1)
qed simp

lemma rfor_inv_sound:
  assumes "rfor f lo n s = Inr t" "P lo s"
    and "\<And>i t t'. lo \<le> i \<Longrightarrow> i < lo + n \<Longrightarrow> P i t \<Longrightarrow> f i t = Inr t' \<Longrightarrow> P (Suc i) t'"
  shows "P (lo + n) t"
  using assms
proof (induction n arbitrary: lo s)
  case (Suc n)
  obtain s1 where s1: "f lo s = Inr s1" "rfor f (Suc lo) n s1 = Inr t"
    using Suc.prems(1) by (auto simp: rbind_eq_Inr)
  have "P (Suc lo + n) t"
    by (rule Suc.IH [OF s1(2)]) (use s1 Suc.prems(2) in \<open>auto intro: Suc.prems(3)\<close>)
  then show ?case by simp
qed simp

lemma unat_of_nat_32: "i < 2 ^ 32 \<Longrightarrow> unat (of_nat i :: u32) = i"
  by (simp add: unat_of_nat)

section \<open>Byte buffers\<close>

text \<open>
  An allocated object is the list of its bytes. A copy that leaves either object is the fault
  \<open>Out_Of_Bounds\<close>.
\<close>

definition buf_read :: "bytes \<Rightarrow> nat \<Rightarrow> nat \<Rightarrow> bytes res" where
  "buf_read b off n = (if off + n \<le> length b then Inr (take n (drop off b)) else Inl Out_Of_Bounds)"

definition buf_write :: "bytes \<Rightarrow> nat \<Rightarrow> bytes \<Rightarrow> bytes res" where
  "buf_write b off x =
     (if off + length x \<le> length b then Inr (take off b @ x @ drop (off + length x) b)
      else Inl Out_Of_Bounds)"

text \<open>\<open>memcpy(dst + doff, src + soff, n)\<close> between two different objects.\<close>

definition buf_copy :: "bytes \<Rightarrow> nat \<Rightarrow> bytes \<Rightarrow> nat \<Rightarrow> nat \<Rightarrow> bytes res" where
  "buf_copy dst doff src soff n = rbind (buf_read src soff n) (buf_write dst doff)"

lemma buf_read_ok [simp]: "off + n \<le> length b \<Longrightarrow> buf_read b off n = Inr (take n (drop off b))"
  by (simp add: buf_read_def)

lemma buf_write_ok [simp]:
  "off + length x \<le> length b \<Longrightarrow> buf_write b off x = Inr (take off b @ x @ drop (off + length x) b)"
  by (simp add: buf_write_def)

lemma buf_copy_ok:
  "soff + n \<le> length src \<Longrightarrow> doff + n \<le> length dst \<Longrightarrow>
   buf_copy dst doff src soff n =
     Inr (take doff dst @ take n (drop soff src) @ drop (doff + n) dst)"
  by (simp add: buf_copy_def)

lemma buf_copy_length: "buf_copy dst doff src soff n = Inr b \<Longrightarrow> length b = length dst"
  by (auto simp: buf_copy_def buf_read_def buf_write_def split: if_splits)

section \<open>Slots: a buffer as an array of equal elements\<close>

definition slot :: "nat \<Rightarrow> bytes \<Rightarrow> nat \<Rightarrow> bytes" where
  "slot es b i = take es (drop (i * es) b)"

definition slots :: "nat \<Rightarrow> nat \<Rightarrow> bytes \<Rightarrow> bytes list" where
  "slots es n b = map (slot es b) [0..<n]"

lemma length_slots [simp]: "length (slots es n b) = n"
  by (simp add: slots_def)

lemma nth_slots [simp]: "i < n \<Longrightarrow> slots es n b ! i = slot es b i"
  by (simp add: slots_def)

lemma slot_fits: "i < n \<Longrightarrow> n * es \<le> m \<Longrightarrow> i * es + es \<le> (m::nat)"
proof -
  assume "i < n" and m: "n * es \<le> m"
  then have "Suc i * es \<le> n * es" by (intro mult_le_mono1) simp
  with m show ?thesis by simp
qed

lemma length_slot [simp]: "i < n \<Longrightarrow> n * es \<le> length b \<Longrightarrow> length (slot es b i) = es"
  using slot_fits [of i n es "length b"] by (simp add: slot_def)

lemma slot_write:
  assumes "i < n" "j < n" "n * es \<le> length b" "length x = es"
  shows "slot es (take (i * es) b @ x @ drop (i * es + es) b) j = (if i = j then x else slot es b j)"
proof -
  note fi = slot_fits [OF assms(1,3)] and fj = slot_fits [OF assms(2,3)]
  consider "i = j" | "j < i" | "i < j" by linarith
  then show ?thesis
  proof cases
    case 1
    with fi assms(4) show ?thesis by (simp add: slot_def)
  next
    case 2
    then have "j * es + es \<le> i * es"
      using mult_le_mono1 [of "Suc j" i es] by simp
    with 2 fi show ?thesis by (simp add: slot_def drop_take)
  next
    case 3
    then have le: "i * es + es \<le> j * es"
      using mult_le_mono1 [of "Suc i" j es] by simp
    then have "j * es - (i * es + es) + (i * es + es) = j * es" by simp
    with 3 le fi assms(4) show ?thesis by (simp add: slot_def add.commute)
  qed
qed

lemma slots_write:
  assumes "i < n" "n * es \<le> length b" "length x = es"
  shows "slots es n (take (i * es) b @ x @ drop (i * es + es) b) = (slots es n b)[i := x]"
  by (rule nth_equalityI) (use assms in \<open>auto simp: slot_write nth_list_update\<close>)

section \<open>Circular views\<close>

text \<open>\<open>cyc xs s n\<close>: the \<open>n\<close> elements of the circular array \<open>xs\<close> from index \<open>s\<close> on.\<close>

definition cyc :: "'a list \<Rightarrow> nat \<Rightarrow> nat \<Rightarrow> 'a list" where
  "cyc xs s n = map (\<lambda>i. xs ! ((s + i) mod length xs)) [0..<n]"

lemma length_cyc [simp]: "length (cyc xs s n) = n"
  by (simp add: cyc_def)

lemma nth_cyc [simp]: "i < n \<Longrightarrow> cyc xs s n ! i = xs ! ((s + i) mod length xs)"
  by (simp add: cyc_def)

lemma cyc_0 [simp]: "cyc xs s 0 = []"
  by (simp add: cyc_def)

lemma cyc_mod [simp]: "cyc xs (s mod length xs) n = cyc xs s n"
  by (simp add: cyc_def mod_add_left_eq)

lemma cyc_Suc: "cyc xs s (Suc n) = xs ! (s mod length xs) # cyc xs (Suc s) n"
  by (rule nth_equalityI) (auto simp: nth_Cons simp del: upt_Suc split: nat.splits)

lemma cyc_Suc_snoc: "cyc xs s (Suc n) = cyc xs s n @ [xs ! ((s + n) mod length xs)]"
  by (simp add: cyc_def)

lemma mod_add_neq:
  fixes i j k s :: nat
  assumes "i < j" "j < k"
  shows "(s + i) mod k \<noteq> (s + j) mod k"
proof
  assume "(s + i) mod k = (s + j) mod k"
  then have "k dvd (s + j) - (s + i)"
    by (metis mod_eq_dvd_iff_nat add_le_mono le_refl less_imp_le assms(1))
  with assms show False by (auto dest: dvd_imp_le)
qed

lemma cyc_update_outside:
  assumes "n \<le> j" "j < length xs"
  shows "cyc (xs[(s + j) mod length xs := x]) s n = cyc xs s n"
  using assms mod_add_neq [of _ j "length xs" s]
  by (auto simp: cyc_def intro!: nth_list_update_neq) (metis order_less_le_trans)

lemma cyc_push:
  assumes "n < length xs"
  shows "cyc (xs[(s + n) mod length xs := x]) s (Suc n) = cyc xs s n @ [x]"
proof -
  have "(s + n) mod length xs < length xs" using assms by (cases xs) auto
  with assms show ?thesis by (simp add: cyc_Suc_snoc cyc_update_outside)
qed

section \<open>Powers of two and masks\<close>

text \<open>The test the code itself makes: \<open>size \<noteq> 0 \<and> (size & (size - 1)) = 0\<close>.\<close>

definition pow2w :: "u32 \<Rightarrow> bool" where
  "pow2w s \<longleftrightarrow> s \<noteq> 0 \<and> s AND (s - 1) = 0"

lemma nat_and_pred_pow2: "0 < (n::nat) \<Longrightarrow> n AND (n - 1) = 0 \<Longrightarrow> \<exists>k. n = 2 ^ k"
proof (induction n rule: less_induct)
  case (less n)
  show ?case
  proof (cases "even n")
    case True
    then obtain m where m: "n = 2 * m" by blast
    with less.prems(1) have m0: "0 < m" by simp
    have "drop_bit 1 (n AND (n - 1)) = drop_bit 1 n AND drop_bit 1 (n - 1)"
      by (rule drop_bit_and)
    moreover have "drop_bit 1 n = m" using m by (simp add: drop_bit_eq_div)
    moreover have "drop_bit 1 (n - 1) = m - 1" using m by (simp add: drop_bit_eq_div)
    ultimately have "m AND (m - 1) = drop_bit 1 0" using less.prems(2) by metis
    then have "m AND (m - 1) = 0" by simp
    with less.IH [of m] m m0 obtain k where "m = 2 ^ k" by auto
    with m have "n = 2 ^ Suc k" by simp
    then show ?thesis by blast
  next
    case False
    then have "n AND (n - 1) = n - 1"
    proof -
      from False obtain q where q: "n = 2 * q + 1" by (blast elim: oddE)
      then show ?thesis by (simp add: and_rec [of "Suc (2 * q)" "2 * q"])
    qed
    with less.prems have "n = 2 ^ 0" by simp
    then show ?thesis by blast
  qed
qed

lemma unat_less_2p32: "unat (x :: u32) < 2 ^ 32"
proof -
  have "unat x < 2 ^ LENGTH(32)" by (rule unsigned_less)
  then show ?thesis by simp
qed

lemma unat_2p: "k < 32 \<Longrightarrow> unat (2 ^ k :: u32) = 2 ^ k"
proof -
  assume "k < 32"
  then have "(2 ^ k :: nat) < 2 ^ 32" by (rule power_strict_increasing) simp
  moreover have "unat (of_nat (2 ^ k) :: u32) = 2 ^ k mod 2 ^ LENGTH(32)" by (rule unat_of_nat)
  ultimately show ?thesis by simp
qed

lemma pow2w_iff: "pow2w s \<longleftrightarrow> (\<exists>k < 32. s = 2 ^ k)"
proof
  assume s: "pow2w s"
  then have "0 < unat s" by (simp add: pow2w_def unat_gt_0)
  moreover have "unat s AND (unat s - 1) = 0"
    using s by (metis pow2w_def unsigned_and_eq unat_0 unat_minus_one)
  ultimately obtain k where k: "unat s = 2 ^ k" using nat_and_pred_pow2 by blast
  have "unat s < 2 ^ 32" by (rule unat_less_2p32)
  with k have "k < 32" by (metis nat_power_less_imp_less zero_less_numeral)
  moreover from k \<open>k < 32\<close> have "s = 2 ^ k" by (simp add: word_unat_eq_iff unat_2p)
  ultimately show "\<exists>k < 32. s = 2 ^ k" by blast
next
  assume "\<exists>k < 32. s = 2 ^ k"
  then obtain k where k: "k < 32" "s = 2 ^ k" by blast
  have "s AND (s - 1) = 0"
    by (rule bit_word_eqI) (auto simp: k bit_simps bit_exp_iff
        simp flip: mask_eq_decr_exp)
  moreover have "s \<noteq> 0" using k by simp
  ultimately show "pow2w s" by (simp add: pow2w_def)
qed

lemma unat_and_pow2:
  assumes "pow2w s"
  shows "unat (x AND (s - 1)) = unat x mod unat s"
proof -
  from assms obtain k where k: "k < 32" "s = 2 ^ k" by (auto simp: pow2w_iff)
  then have "x AND (s - 1) = take_bit k x" by (simp add: take_bit_eq_mask mask_eq_decr_exp)
  moreover have "unat (take_bit k x) = take_bit k (unat x)" by (rule unsigned_take_bit_eq)
  moreover have "unat s = 2 ^ k" using k by (simp add: unat_2p)
  ultimately show ?thesis by (simp only: take_bit_eq_mod)
qed

lemma unat_pow2_dvd: "pow2w s \<Longrightarrow> unat s dvd 2 ^ 32"
proof -
  assume "pow2w s"
  then obtain k where k: "k < 32" "s = 2 ^ k" by (auto simp: pow2w_iff)
  then have "unat s = 2 ^ k" by (simp add: unat_2p)
  with k(1) show ?thesis using le_imp_power_dvd [of k 32 "2::nat"] by (simp del: power_numeral)
qed

lemma unat_pow2_pos [simp]: "pow2w s \<Longrightarrow> 0 < unat s"
  by (simp add: pow2w_def unat_gt_0)

lemma unat_succ_and_pow2:
  assumes "pow2w s"
  shows "unat ((x + 1) AND (s - 1)) = Suc (unat x) mod unat s"
proof -
  have "unat (x + 1) = Suc (unat x) mod 2 ^ 32" by (simp add: unat_word_ariths)
  with assms show ?thesis by (simp add: unat_and_pow2 mod_mod_cancel unat_pow2_dvd del: power_numeral)
qed

lemma unat_diff_wrap: "unat (x - y :: u32) = (unat x + (2 ^ 32 - unat y)) mod 2 ^ 32"
proof -
  have "unat x < 2 ^ 32" "unat y < 2 ^ 32" by (rule unat_less_2p32)+
  then show ?thesis
    by (cases "unat y \<le> unat x") (simp_all add: unat_sub_if_size word_size mod_if)
qed

lemma unat_diff_and_pow2:
  assumes "pow2w s"
  shows "unat ((x - y) AND (s - 1)) = (unat x + (2 ^ 32 - unat y)) mod unat s"
  using assms by (simp add: unat_and_pow2 unat_diff_wrap mod_mod_cancel unat_pow2_dvd del: power_numeral)

section \<open>Block and bit indices of 32-bit words\<close>

lemma unat_drop5: "unat (drop_bit 5 (i :: u32)) = unat i div 32"
  using unat_drop_bit_eq [of 5 i] by (simp only: drop_bit_eq_div) simp

lemma unat_div32: "unat (i div 32 :: u32) = unat i div 32"
  by (simp add: unat_div)

lemma unat_and_31: "unat (i AND 31 :: u32) = unat i mod 32"
  using unat_and_pow2 [of 32 i] by (simp add: pow2w_def)

lemma unat_and_not_31: "unat (i AND NOT 31 :: u32) = unat i - unat i mod 32"
proof -
  have m: "(31 :: u32) = mask 5" by (simp add: mask_eq_decr_exp)
  have "i AND NOT 31 = push_bit 5 (drop_bit 5 i)"
    unfolding m by (rule bit_word_eqI) (auto simp only: bit_simps le_add_diff_inverse comp_apply not_less)
  then have s: "(i AND NOT 31) + take_bit 5 i = i" by (simp add: bits_ident)
  have t: "unat (take_bit 5 i) = unat i mod 32"
    using unsigned_take_bit_eq [of 5 i, where 'a = nat] by (simp add: take_bit_eq_mod)
  have "i AND NOT 31 = i - take_bit 5 i" using s by (metis add_diff_cancel_right')
  moreover have "unat (take_bit 5 i) \<le> unat i" using t by simp
  ultimately show ?thesis by (simp add: unat_sub word_le_nat_alt t)
qed

lemma unat_and_minus_32: "unat (i AND - 32 :: u32) = unat i - unat i mod 32"
  using unat_and_not_31 [of i] by simp

lemma unat_succ_less: "(i :: u32) < n \<Longrightarrow> unat (i + 1) = Suc (unat i)"
proof -
  assume "i < n"
  then have "Suc (unat i) < 2 ^ 32"
    using unat_less_2p32 [of n] by (simp add: word_less_nat_alt)
  then show ?thesis by (simp add: unat_word_ariths)
qed

lemma unat_add32_less: "(i :: u32) < n AND NOT 31 \<Longrightarrow> unat (i + 32) = unat i + 32"
proof -
  assume a: "i < n AND NOT 31"
  have "unat n < 2 ^ 32" by (rule unat_less_2p32)
  then have q: "unat n div 32 \<le> 134217727" by simp
  have "unat n - unat n mod 32 = 32 * (unat n div 32)"
    by (simp add: minus_mod_eq_mult_div)
  with a have "unat i < 32 * (unat n div 32)"
    by (simp add: word_less_nat_alt unat_and_minus_32)
  with q have "unat i + 32 < 2 ^ 32" by simp
  then show ?thesis by (simp add: unat_word_ariths)
qed

lemma unat_add32_less': "(i :: u32) < n AND - 32 \<Longrightarrow> unat (i + 32) = unat i + 32"
  using unat_add32_less [of i n] by simp

section \<open>Page frames: bits 12 to 31 of an address\<close>

lemma unat_drop12: "unat (drop_bit 12 (a :: u32)) = unat a div 4096"
  using unat_drop_bit_eq [of 12 a] by (simp only: drop_bit_eq_div) simp

lemma unat_drop12_less: "unat (drop_bit 12 (a :: u32)) < 2 ^ 20"
  unfolding unat_drop12 using unat_less_2p32 [of a] by simp

lemma unat_frame_addr: "unat (i :: u32) < 2 ^ 20 \<Longrightarrow> unat (i * 4096) = unat i * 4096"
  by (simp add: unat_word_ariths)

lemma drop12_frame_addr:
  assumes "unat (i :: u32) < 2 ^ 20"
  shows "drop_bit 12 (i * 4096) = i"
proof -
  have "unat (drop_bit 12 (i * 4096)) = unat i"
    unfolding unat_drop12 unat_frame_addr [OF assms] by simp
  then show ?thesis by (simp only: word_unat_eq_iff)
qed

text \<open>\<open>__builtin_ctz\<close> and \<open>__builtin_clz\<close> of a non-zero word.\<close>

definition ctz32 :: "u32 \<Rightarrow> nat" where
  "ctz32 w = length (takeWhile (\<lambda>i. \<not> bit w i) [0..<32])"

definition clz32 :: "u32 \<Rightarrow> nat" where
  "clz32 w = length (takeWhile (\<lambda>i. \<not> bit w (31 - i)) [0..<32])"

lemma length_takeWhile_less':
  assumes "\<not> (\<forall>x \<in> set xs. P x)"
  shows "length (takeWhile P xs) < length xs"
proof -
  have "length xs = length (takeWhile P xs) + length (dropWhile P xs)"
    by (metis length_append takeWhile_dropWhile_id)
  moreover have "dropWhile P xs \<noteq> []" using assms by simp
  ultimately show ?thesis by simp
qed

lemma ctz32_props:
  assumes "w \<noteq> 0"
  shows "ctz32 w < 32" "bit w (ctz32 w)" "\<forall>i < ctz32 w. \<not> bit w i"
proof -
  obtain n where n: "bit w n" using assms by (auto simp: bit_eq_iff)
  then have n32: "n < 32" using bit_imp_le_length by fastforce
  let ?l = "takeWhile (\<lambda>i. \<not> bit w i) [0..<32]"
  have ne: "\<not> (\<forall>x \<in> set [0..<32]. \<not> bit w x)" using n n32 by auto
  then have lt: "length ?l < length [0..<32::nat]"
    by (rule length_takeWhile_less')
  then show "ctz32 w < 32" by (simp add: ctz32_def)
  from nth_length_takeWhile [OF lt] lt show "bit w (ctz32 w)" by (simp add: ctz32_def)
  show "\<forall>i < ctz32 w. \<not> bit w i"
  proof (intro allI impI)
    fix i assume i: "i < ctz32 w"
    then have "?l ! i \<in> set ?l" by (simp add: ctz32_def)
    moreover have "?l ! i = i" using i lt by (simp add: ctz32_def takeWhile_nth)
    ultimately show "\<not> bit w i" using set_takeWhileD by metis
  qed
qed

section \<open>Shifts, masks and casts at other widths\<close>

lemma unat_drop: "unat (drop_bit n (w :: 'a::len word)) = unat w div 2 ^ n"
  using unat_drop_bit_eq [of n w] by (simp only: drop_bit_eq_div)

lemma unat_and_mask: "unat (w AND mask n :: 'a::len word) = unat w mod 2 ^ n"
  using unsigned_take_bit_eq [of n w, where 'a = nat]
  by (simp add: take_bit_eq_mask [symmetric] take_bit_eq_mod)

lemma unat_push: "unat (push_bit n (w :: 'a::len word)) = unat w * 2 ^ n mod 2 ^ LENGTH('a)"
  using unsigned_push_bit_eq [of n w, where 'a = nat] by (simp only: take_bit_eq_mod push_bit_eq_mult)

lemma unat_ucast: "unat (ucast (w :: 'a::len word) :: 'b::len word) = unat w mod 2 ^ LENGTH('b)"
  by (simp add: unsigned_ucast_eq take_bit_eq_mod)

lemma unat_less_exp: "unat (w :: 'a::len word) < 2 ^ LENGTH('a)"
  by (rule unsigned_less)

section \<open>Little-endian integers in byte buffers\<close>

definition put16 :: "u16 \<Rightarrow> bytes" where
  "put16 w = [ucast w, ucast (drop_bit 8 w)]"

definition put32 :: "u32 \<Rightarrow> bytes" where
  "put32 w = [ucast w, ucast (drop_bit 8 w), ucast (drop_bit 16 w), ucast (drop_bit 24 w)]"

definition get16 :: "bytes \<Rightarrow> nat \<Rightarrow> u16" where
  "get16 b i = ucast (b ! i) OR push_bit 8 (ucast (b ! (i + 1)))"

definition get32 :: "bytes \<Rightarrow> nat \<Rightarrow> u32" where
  "get32 b i = ucast (b ! i) OR push_bit 8 (ucast (b ! (i + 1))) OR push_bit 16 (ucast (b ! (i + 2)))
     OR push_bit 24 (ucast (b ! (i + 3)))"

lemma length_put [simp]: "length (put16 v) = 2" "length (put32 w) = 4"
  by (simp_all add: put16_def put32_def)

lemma bytes_of_16: "ucast (ucast w :: u8) OR push_bit 8 (ucast (ucast (drop_bit 8 w) :: u8)) = (w :: u16)"
  (is "?l = ?r")
proof (rule bit_word_eqI)
  fix n assume "n < LENGTH(16)"
  then consider "n < 8" | "8 \<le> n" "n < 16" by fastforce
  then show "bit ?l n = bit ?r n" by cases (simp_all add: bit_simps less_diff_conv2)
qed

lemma bit_byte_of_32:
  "n < 32 \<Longrightarrow> bit (push_bit k (ucast (ucast (drop_bit k w) :: u8)) :: u32) n \<longleftrightarrow> k \<le> n \<and> n < k + 8 \<and> bit (w :: u32) n"
  by (cases "k \<le> n") (auto simp: bit_simps)

lemma bytes_of_32: "ucast (ucast w :: u8) OR push_bit 8 (ucast (ucast (drop_bit 8 w) :: u8))
   OR push_bit 16 (ucast (ucast (drop_bit 16 w) :: u8)) OR push_bit 24 (ucast (ucast (drop_bit 24 w) :: u8)) = (w :: u32)"
  (is "?l = ?r")
proof (rule bit_word_eqI)
  fix n assume "n < LENGTH(32)"
  then have n: "n < 32" by simp
  note b = bit_byte_of_32 [OF n]
  show "bit ?l n = bit ?r n" using b [of 0 w] n by (auto simp: bit_or_iff b)
qed

lemma get_put [simp]: "get16 (put16 v) 0 = v" "get32 (put32 w) 0 = w"
proof -
  have n: "[a, b, c, d] ! 0 = a" "[a, b, c, d] ! (0 + 1) = b" "[a, b, c, d] ! (0 + 2) = c" "[a, b, c, d] ! (0 + 3) = d"
    "[a, b] ! 0 = a" "[a, b] ! (0 + 1) = b" for a b c d :: u8 by simp_all
  show "get16 (put16 v) 0 = v" unfolding get16_def put16_def n by (rule bytes_of_16)
  show "get32 (put32 w) 0 = w" unfolding get32_def put32_def n by (rule bytes_of_32)
qed

lemma nth_append_right_add: "length a \<le> i \<Longrightarrow> (a @ b) ! (i + k) = b ! (i - length a + k)"
  by (simp add: nth_append)

lemma get_append:
  "i + 2 \<le> length a \<Longrightarrow> get16 (a @ b) i = get16 a i" "length a \<le> i \<Longrightarrow> get16 (a @ b) i = get16 b (i - length a)"
  "i + 4 \<le> length a \<Longrightarrow> get32 (a @ b) i = get32 a i" "length a \<le> i \<Longrightarrow> get32 (a @ b) i = get32 b (i - length a)"
  using nth_append_right_add [of a i b 0]
  by (simp_all only: get16_def get32_def nth_append_left nth_append_right_add add_0_right)

end
