(* ===== verification/Bitmap_Alloc.thy ===== *)
theory Bitmap_Alloc
  imports Kernel_Prelude
begin

text \<open>
  The bitmap of \<^verbatim>\<open>src/src/lib/bitmap.c\<close> and \<^verbatim>\<open>bitmap.h\<close>: an array of 32-bit
  blocks, bit \<open>i\<close> being bit \<open>i mod 32\<close> of block \<open>i div 32\<close>.  The physical memory
  manager keeps the free frames in one and the task table the free identifiers.

  Each C loop is a recursive function whose measure is the distance to its bound:
  \<open>bm_scan_bits\<close> is the bit-wise loop (the first one of each routine stops at a block
  boundary, the third does not), \<open>bm_scan_words\<close> the block-wise loop with
  \<open>__builtin_ctz\<close>.  Reads and writes beyond the buffer are the fault \<open>Out_Of_Bounds\<close>.
  The lemmas show that the block-wise searches return the least index, that the
  interval fills change exactly the interval, and that \<open>bitmap_alloc_interval\<close> is a
  first-fit allocator that terminates.
\<close>

unbundle bit_operations_syntax

section \<open>State and single bits\<close>

record bitmap_t =
  bm_buff :: "u32 list"
  bm_bits :: u32
  bm_blocks :: u32

text \<open>\<open>got\<close> tells whether \<open>malloc\<close> returned a block; the code clears it without a test.\<close>

definition bitmap_init :: "bool \<Rightarrow> u32 \<Rightarrow> bitmap_t res" where
  "bitmap_init got n =
    (let blocks = drop_bit 5 (n + 31) in
     if got \<or> blocks = 0
     then Inr \<lparr> bm_buff = replicate (unat blocks) 0, bm_bits = n, bm_blocks = blocks \<rparr>
     else Inl (Undefined ''memset of NULL''))"

definition bitmap_init_from_buff :: "u32 list \<Rightarrow> u32 \<Rightarrow> bitmap_t res" where
  "bitmap_init_from_buff mem n =
    (let blocks = drop_bit 5 (n + 31) in
     if unat blocks \<le> length mem
     then Inr \<lparr> bm_buff = replicate (unat blocks) 0 @ drop (unat blocks) mem,
                bm_bits = n, bm_blocks = blocks \<rparr>
     else Inl Out_Of_Bounds)"

definition bm_block :: "bitmap_t \<Rightarrow> u32 \<Rightarrow> u32 res" where
  "bm_block b i =
    (let k = unat (drop_bit 5 i) in
     if k < length (bm_buff b) then Inr (bm_buff b ! k) else Inl Out_Of_Bounds)"

definition bm_set_block :: "bitmap_t \<Rightarrow> u32 \<Rightarrow> u32 \<Rightarrow> bitmap_t res" where
  "bm_set_block b i w =
    (let k = unat (drop_bit 5 i) in
     if k < length (bm_buff b) then Inr (b\<lparr> bm_buff := (bm_buff b)[k := w] \<rparr>)
     else Inl Out_Of_Bounds)"

definition bm_mask :: "u32 \<Rightarrow> u32" where
  "bm_mask i = push_bit (unat (i AND 31)) 1"

definition bitmap_set_bit :: "bitmap_t \<Rightarrow> u32 \<Rightarrow> bitmap_t res" where
  "bitmap_set_bit b i = rbind (bm_block b i) (\<lambda>w. bm_set_block b i (w OR bm_mask i))"

definition bitmap_clear_bit :: "bitmap_t \<Rightarrow> u32 \<Rightarrow> bitmap_t res" where
  "bitmap_clear_bit b i = rbind (bm_block b i) (\<lambda>w. bm_set_block b i (w AND NOT (bm_mask i)))"

definition bitmap_test_bit :: "bitmap_t \<Rightarrow> u32 \<Rightarrow> bool res" where
  "bitmap_test_bit b i = rbind (bm_block b i) (\<lambda>w. Inr (w AND bm_mask i \<noteq> 0))"

section \<open>Searches\<close>

text \<open>
  \<open>bitmap_find_first_zero\<close> and \<open>bitmap_find_first_one\<close> differ in the polarity \<open>v\<close> only.
  A loop yields whether the routine returned inside it, and the index.
\<close>

function bm_scan_bits :: "bool \<Rightarrow> bool \<Rightarrow> bitmap_t \<Rightarrow> u32 \<Rightarrow> (bool \<times> u32) res" where
  "bm_scan_bits v al b s =
    (if (al \<longrightarrow> s AND 31 \<noteq> 0) \<and> s < bm_bits b then
       case bitmap_test_bit b s of
         Inl e \<Rightarrow> Inl e
       | Inr t \<Rightarrow> if t = v then Inr (True, s) else bm_scan_bits v al b (s + 1)
     else Inr (False, s))"
  by pat_completeness auto

termination
  by (relation "measure (\<lambda>(v, al, b, s). unat (bm_bits b) - unat s)")
     (auto simp: unat_succ_less word_less_nat_alt)

function bm_scan_words :: "bool \<Rightarrow> bitmap_t \<Rightarrow> u32 \<Rightarrow> (bool \<times> u32) res" where
  "bm_scan_words v b s =
    (if s < (bm_bits b AND NOT 31) then
       case bm_block b s of
         Inl e \<Rightarrow> Inl e
       | Inr w \<Rightarrow> (let w' = (if v then w else NOT w) in
                 if w' \<noteq> 0 then Inr (True, s + of_nat (ctz32 w'))
                 else bm_scan_words v b (s + 32))
     else Inr (False, s))"
  by pat_completeness auto

termination
  by (relation "measure (\<lambda>(v, b, s). unat (bm_bits b AND NOT 31) - unat s)")
     (auto simp: unat_add32_less' word_less_nat_alt dest: unat_add32_less')

declare bm_scan_bits.simps [simp del] bm_scan_words.simps [simp del]

definition bm_find :: "bool \<Rightarrow> bitmap_t \<Rightarrow> u32 \<Rightarrow> u32 res" where
  "bm_find v b s =
    rbind (bm_scan_bits v True b s) (\<lambda>(f1, s1). if f1 then Inr s1 else
    rbind (bm_scan_words v b s1) (\<lambda>(f2, s2). if f2 then Inr s2 else
    rbind (bm_scan_bits v False b s2) (\<lambda>(f3, s3). if f3 then Inr s3 else
    Inr (bm_bits b))))"

definition bitmap_find_first_zero :: "bitmap_t \<Rightarrow> u32 \<Rightarrow> u32 res" where
  "bitmap_find_first_zero b s = bm_find False b s"

definition bitmap_find_first_one :: "bitmap_t \<Rightarrow> u32 \<Rightarrow> u32 res" where
  "bitmap_find_first_one b s = bm_find True b s"

section \<open>Interval fills\<close>

function bm_fill_bits :: "bool \<Rightarrow> bool \<Rightarrow> bitmap_t \<Rightarrow> u32 \<Rightarrow> u32 \<Rightarrow> (bitmap_t \<times> u32) res" where
  "bm_fill_bits v al b s e =
    (if (al \<longrightarrow> s AND 31 \<noteq> 0) \<and> s < e then
       case (if v then bitmap_set_bit b s else bitmap_clear_bit b s) of
         Inl x \<Rightarrow> Inl x
       | Inr b' \<Rightarrow> bm_fill_bits v al b' (s + 1) e
     else Inr (b, s))"
  by pat_completeness auto

termination
  by (relation "measure (\<lambda>(v, al, b, s, e). unat e - unat s)")
     (auto simp: unat_succ_less word_less_nat_alt)

function bm_fill_words :: "bool \<Rightarrow> bitmap_t \<Rightarrow> u32 \<Rightarrow> u32 \<Rightarrow> (bitmap_t \<times> u32) res" where
  "bm_fill_words v b s e =
    (if s < (e AND NOT 31) then
       case bm_set_block b s (if v then - 1 else 0) of
         Inl x \<Rightarrow> Inl x
       | Inr b' \<Rightarrow> bm_fill_words v b' (s + 32) e
     else Inr (b, s))"
  by pat_completeness auto

termination
  by (relation "measure (\<lambda>(v, b, s, e). unat (e AND NOT 31) - unat s)")
     (auto simp: unat_add32_less' word_less_nat_alt dest: unat_add32_less')

declare bm_fill_bits.simps [simp del] bm_fill_words.simps [simp del]

definition bm_fill :: "bool \<Rightarrow> bitmap_t \<Rightarrow> u32 \<Rightarrow> u32 \<Rightarrow> bitmap_t res" where
  "bm_fill v b s e =
    rbind (bm_fill_bits v True b s e) (\<lambda>(b1, s1).
    rbind (bm_fill_words v b1 s1 e) (\<lambda>(b2, s2).
    rbind (bm_fill_bits v False b2 s2 e) (\<lambda>(b3, s3). Inr b3)))"

definition bitmap_set_interval :: "bitmap_t \<Rightarrow> u32 \<Rightarrow> u32 \<Rightarrow> bitmap_t res" where
  "bitmap_set_interval b s e = bm_fill True b s e"

definition bitmap_clear_interval :: "bitmap_t \<Rightarrow> u32 \<Rightarrow> u32 \<Rightarrow> bitmap_t res" where
  "bitmap_clear_interval b s e = bm_fill False b s e"

section \<open>The bit view\<close>

definition bm_bit :: "bitmap_t \<Rightarrow> nat \<Rightarrow> bool" where
  "bm_bit b i = bit (bm_buff b ! (i div 32)) (i mod 32)"

definition bm_put :: "bool \<Rightarrow> bitmap_t \<Rightarrow> nat \<Rightarrow> bitmap_t" where
  "bm_put v b i = b\<lparr> bm_buff := (bm_buff b)[i div 32 :=
     (if v then set_bit else unset_bit) (i mod 32) (bm_buff b ! (i div 32))] \<rparr>"

definition bm_inv :: "bitmap_t \<Rightarrow> bool" where
  "bm_inv b = (unat (bm_bits b) \<le> 32 * length (bm_buff b))"

lemma bm_bit_put:
  assumes "i div 32 < length (bm_buff b)"
  shows "bm_bit (bm_put v b i) j = (if i = j then v else bm_bit b j)"
proof (cases "i div 32 = j div 32")
  case True
  have "i mod 32 = j mod 32 \<longleftrightarrow> i = j"
    using True by (metis div_mult_mod_eq)
  then show ?thesis
    using True assms by (auto simp: bm_bit_def bm_put_def bit_set_bit_iff bit_unset_bit_iff)
next
  case False
  then show ?thesis using assms by (auto simp: bm_bit_def bm_put_def)
qed

lemma bm_put_simps [simp]:
  "length (bm_buff (bm_put v b i)) = length (bm_buff b)"
  "bm_bits (bm_put v b i) = bm_bits b" "bm_blocks (bm_put v b i) = bm_blocks b"
  by (simp_all add: bm_put_def)

lemma bitmap_test_bit_eq:
  "bitmap_test_bit b i = (if unat i div 32 < length (bm_buff b)
     then Inr (bm_bit b (unat i)) else Inl Out_Of_Bounds)"
  by (simp only: bitmap_test_bit_def bm_block_def Let_def bm_mask_def unat_drop5 unat_and_31)
     (simp add: bm_bit_def bit_iff_and_push_bit_not_eq_0)

lemma bitmap_set_bit_eq:
  "bitmap_set_bit b i = (if unat i div 32 < length (bm_buff b)
     then Inr (bm_put True b (unat i)) else Inl Out_Of_Bounds)"
  by (simp only: bitmap_set_bit_def bm_block_def bm_set_block_def Let_def bm_mask_def
        unat_drop5 unat_and_31)
     (simp add: bm_put_def set_bit_eq_or)

lemma bitmap_clear_bit_eq:
  "bitmap_clear_bit b i = (if unat i div 32 < length (bm_buff b)
     then Inr (bm_put False b (unat i)) else Inl Out_Of_Bounds)"
  by (simp only: bitmap_clear_bit_def bm_block_def bm_set_block_def Let_def bm_mask_def
        unat_drop5 unat_and_31)
     (simp add: bm_put_def unset_bit_eq_and_not)

lemma bm_put_bit:
  "(if v then bitmap_set_bit b i else bitmap_clear_bit b i) =
     (if unat i div 32 < length (bm_buff b) then Inr (bm_put v b (unat i)) else Inl Out_Of_Bounds)"
  by (cases v) (simp_all add: bitmap_set_bit_eq bitmap_clear_bit_eq)

section \<open>Fills change exactly the interval\<close>

definition bm_filled :: "bool \<Rightarrow> bitmap_t \<Rightarrow> nat \<Rightarrow> nat \<Rightarrow> bitmap_t \<Rightarrow> bool" where
  "bm_filled v b s e b' =
     (bm_bits b' = bm_bits b \<and> bm_blocks b' = bm_blocks b \<and>
      length (bm_buff b') = length (bm_buff b) \<and>
      (\<forall>i. bm_bit b' i = (if s \<le> i \<and> i < e then v else bm_bit b i)))"

lemma bm_filled_refl: "e \<le> s \<Longrightarrow> bm_filled v b s e b"
  by (auto simp: bm_filled_def)

lemma bm_filled_trans:
  "bm_filled v b s m b' \<Longrightarrow> bm_filled v b' m e b'' \<Longrightarrow> s \<le> m \<Longrightarrow> m \<le> e \<Longrightarrow> bm_filled v b s e b''"
  by (auto simp: bm_filled_def)

lemma bm_filled_max: "bm_filled v b s (max s e) b' = bm_filled v b s e b'"
proof -
  have "(s \<le> i \<and> i < max s e) = (s \<le> i \<and> i < e)" for i by (simp add: less_max_iff_disj) linarith
  then show ?thesis by (simp only: bm_filled_def)
qed

lemma bm_filled_inv: "bm_filled v b s e b' \<Longrightarrow> bm_inv b' = bm_inv b"
  by (simp add: bm_filled_def bm_inv_def)

lemma bm_fill_bits_ok:
  assumes "unat e \<le> 32 * length (bm_buff b)"
  shows "\<exists>b' s'. bm_fill_bits v al b s e = Inr (b', s') \<and> bm_filled v b (unat s) (unat s') b' \<and>
     unat s \<le> unat s' \<and> unat s' \<le> max (unat s) (unat e) \<and>
     (unat e \<le> unat s' \<or> al \<and> unat s' mod 32 = 0)"
  using assms
proof (induction v al b s e rule: bm_fill_bits.induct)
  case (1 v al b s e)
  show ?case
  proof (cases "(al \<longrightarrow> s AND 31 \<noteq> 0) \<and> s < e")
    case True
    then have le: "unat s < unat e" by (simp add: word_less_nat_alt)
    with 1(2) have rng: "unat s div 32 < length (bm_buff b)" by (simp add: less_mult_imp_div_less mult.commute)
    let ?b = "bm_put v b (unat s)"
    from True have s1: "unat (s + 1) = Suc (unat s)" using unat_succ_less by blast
    have "\<exists>b' s'. bm_fill_bits v al ?b (s + 1) e = Inr (b', s') \<and>
        bm_filled v ?b (unat (s + 1)) (unat s') b' \<and> unat (s + 1) \<le> unat s' \<and>
        unat s' \<le> max (unat (s + 1)) (unat e) \<and>
        (unat e \<le> unat s' \<or> al \<and> unat s' mod 32 = 0)"
      by (rule 1(1) [OF True]) (use 1(2) rng in \<open>simp_all only: bm_put_bit if_True bm_put_simps\<close>)
    then obtain b' s' where r: "bm_fill_bits v al ?b (s + 1) e = Inr (b', s')"
      "bm_filled v ?b (Suc (unat s)) (unat s') b'" "Suc (unat s) \<le> unat s'"
      "unat s' \<le> max (Suc (unat s)) (unat e)" "unat e \<le> unat s' \<or> al \<and> unat s' mod 32 = 0"
      unfolding s1 by (elim exE conjE) (rule that)
    have "bm_filled v b (unat s) (Suc (unat s)) ?b"
      using rng by (auto simp: bm_filled_def bm_bit_put)
    from bm_filled_trans [OF this r(2)] r(3)
    have "bm_filled v b (unat s) (unat s') b'" by simp
    moreover have "bm_fill_bits v al b s e = Inr (b', s')"
      by (subst bm_fill_bits.simps)
         (simp only: if_P [OF True] bm_put_bit if_P [OF rng] sum.case r(1))
    ultimately show ?thesis using r le by auto
  next
    case False
    then have "bm_fill_bits v al b s e = Inr (b, s)"
      by (subst bm_fill_bits.simps) (rule if_not_P)
    moreover have "unat e \<le> unat s \<or> al \<and> unat s mod 32 = 0"
      using False unat_and_31 [of s] by (auto simp: word_less_nat_alt)
    ultimately show ?thesis by (auto intro: bm_filled_refl)
  qed
qed

lemma bit_full_word [simp]: "bit (- 1 :: u32) (i mod 32)"
  by (simp add: bit_minus_1_iff)

lemma bm_set_block_ok:
  assumes "unat s mod 32 = 0" "unat s div 32 < length (bm_buff b)"
  shows "\<exists>b'. bm_set_block b s (if v then - 1 else 0) = Inr b' \<and>
    bm_filled v b (unat s) (unat s + 32) b'"
proof -
  let ?k = "unat s div 32"
  let ?b = "b\<lparr> bm_buff := (bm_buff b)[?k := (if v then - 1 else 0)] \<rparr>"
  have k: "unat s = 32 * ?k" using assms(1) by auto
  have "bm_bit ?b i = (if unat s \<le> i \<and> i < unat s + 32 then v else bm_bit b i)" for i
  proof (cases "i div 32 = ?k")
    case True
    have "unat s \<le> i \<and> i < unat s + 32" using True k by (metis dividend_less_div_times
      add.commute mult.commute times_div_less_eq_dividend zero_less_numeral)
    then show ?thesis using True assms(2) by (simp add: bm_bit_def)
  next
    case False
    then have n: "\<not> (unat s \<le> i \<and> i < unat s + 32)" using k
      by (metis div_nat_eqI add.commute mult.commute mult_Suc)
    show ?thesis unfolding if_not_P [OF n] using False by (simp add: bm_bit_def)
  qed
  then have "bm_filled v b (unat s) (unat s + 32) ?b" by (simp add: bm_filled_def)
  then show ?thesis
    using assms(2) by (simp only: bm_set_block_def Let_def unat_drop5 if_True sum.inject simp_thms ex_simps)
qed

lemma aligned_block_le:
  assumes "(s :: nat) mod 32 = 0" "s < e - e mod 32"
  shows "s + 32 \<le> e"
proof -
  have "s = 32 * (s div 32)" using assms(1) by auto
  moreover have "e - e mod 32 = 32 * (e div 32)" by (simp add: minus_mod_eq_mult_div)
  ultimately have "s div 32 < e div 32" "s + 32 = 32 * Suc (s div 32)"
    using assms(2) by simp_all
  then have "s + 32 \<le> 32 * (e div 32)" by (metis Suc_leI mult_le_mono2)
  also have "\<dots> \<le> e" by simp
  finally show ?thesis .
qed

lemma bm_fill_words_ok:
  assumes "unat e \<le> 32 * length (bm_buff b)" "unat s mod 32 = 0 \<or> unat e \<le> unat s"
  shows "\<exists>b' s'. bm_fill_words v b s e = Inr (b', s') \<and> bm_filled v b (unat s) (unat s') b' \<and>
     unat s \<le> unat s' \<and> unat s' \<le> max (unat s) (unat e)"
  using assms
proof (induction v b s e rule: bm_fill_words.induct)
  case (1 v b s e)
  show ?case
  proof (cases "s < e AND NOT 31")
    case True
    have lt: "unat s < unat e - unat e mod 32"
      using True by (simp add: word_less_nat_alt unat_and_minus_32)
    have s1: "unat (s + 32) = unat s + 32" using unat_add32_less [OF True] .
    from 1(3) lt have al: "unat s mod 32 = 0" by auto
    from 1(2) lt have rng: "unat s div 32 < length (bm_buff b)"
      by (simp add: less_mult_imp_div_less mult.commute)
    have le: "unat s + 32 \<le> unat e" using al lt by (rule aligned_block_le)
    obtain b1 where b1: "bm_set_block b s (if v then - 1 else 0) = Inr b1"
      "bm_filled v b (unat s) (unat s + 32) b1"
      using bm_set_block_ok [OF al rng] by blast
    have "\<exists>b' s'. bm_fill_words v b1 (s + 32) e = Inr (b', s') \<and>
        bm_filled v b1 (unat (s + 32)) (unat s') b' \<and> unat (s + 32) \<le> unat s' \<and>
        unat s' \<le> max (unat (s + 32)) (unat e)"
      by (rule 1(1) [OF True b1(1)]) (use 1(2) b1(2) al s1 in \<open>simp_all add: bm_filled_def\<close>)
    then obtain b' s' where r: "bm_fill_words v b1 (s + 32) e = Inr (b', s')"
      "bm_filled v b1 (unat s + 32) (unat s') b'" "unat s + 32 \<le> unat s'"
      "unat s' \<le> max (unat s + 32) (unat e)"
      unfolding s1 by (elim exE conjE) (rule that)
    have "bm_filled v b (unat s) (unat s') b'" using bm_filled_trans [OF b1(2) r(2)] r(3) by simp
    moreover have "bm_fill_words v b s e = Inr (b', s')"
      by (subst bm_fill_words.simps) (simp only: True if_True b1(1) sum.case r(1))
    ultimately show ?thesis using r le by auto
  next
    case False
    then have "bm_fill_words v b s e = Inr (b, s)"
      by (subst bm_fill_words.simps) (simp only: if_False)
    then show ?thesis by (auto intro: bm_filled_refl)
  qed
qed

lemma bm_fill_ok:
  assumes "unat e \<le> 32 * length (bm_buff b)"
  shows "\<exists>b'. bm_fill v b s e = Inr b' \<and> bm_filled v b (unat s) (unat e) b'"
proof -
  obtain b1 s1 where 1: "bm_fill_bits v True b s e = Inr (b1, s1)"
    "bm_filled v b (unat s) (unat s1) b1" "unat s \<le> unat s1" "unat s1 \<le> max (unat s) (unat e)"
    "unat e \<le> unat s1 \<or> unat s1 mod 32 = 0"
    using bm_fill_bits_ok [OF assms, of v True s] by (elim exE conjE) (rule that, simp_all)
  have a1: "unat e \<le> 32 * length (bm_buff b1)" using assms 1(2) by (simp add: bm_filled_def)
  obtain b2 s2 where 2: "bm_fill_words v b1 s1 e = Inr (b2, s2)"
    "bm_filled v b1 (unat s1) (unat s2) b2" "unat s1 \<le> unat s2" "unat s2 \<le> max (unat s1) (unat e)"
    using bm_fill_words_ok [OF a1, of s1 v] 1(5) by blast
  have a2: "unat e \<le> 32 * length (bm_buff b2)" using a1 2(2) by (simp add: bm_filled_def)
  obtain b3 s3 where 3: "bm_fill_bits v False b2 s2 e = Inr (b3, s3)"
    "bm_filled v b2 (unat s2) (unat s3) b3" "unat s2 \<le> unat s3" "unat s3 \<le> max (unat s2) (unat e)"
    "unat e \<le> unat s3"
    using bm_fill_bits_ok [OF a2, of v False s2] by (elim exE conjE) (rule that, simp_all)
  have mx: "unat s3 = max (unat s) (unat e)" using 1(3,4) 2(3,4) 3(3,4,5) by linarith
  have "bm_filled v b (unat s) (unat s2) b2"
    by (rule bm_filled_trans [OF 1(2) 2(2) 1(3) 2(3)])
  then have "bm_filled v b (unat s) (unat s3) b3"
    by (rule bm_filled_trans [OF _ 3(2) _ 3(3)]) (use 1(3) 2(3) in linarith)
  then have "bm_filled v b (unat s) (unat e) b3" unfolding mx bm_filled_max .
  moreover have "bm_fill v b s e = Inr b3" by (simp add: bm_fill_def 1 2 3)
  ultimately show ?thesis by blast
qed

section \<open>Searches return the least index\<close>

definition bm_none :: "bool \<Rightarrow> bitmap_t \<Rightarrow> nat \<Rightarrow> nat \<Rightarrow> bool" where
  "bm_none v b s r = (\<forall>i. s \<le> i \<and> i < r \<longrightarrow> bm_bit b i \<noteq> v)"

definition bm_first :: "bool \<Rightarrow> bitmap_t \<Rightarrow> nat \<Rightarrow> nat \<Rightarrow> bool" where
  "bm_first v b s r =
     (r \<le> unat (bm_bits b) \<and> bm_none v b s r \<and>
      (r < unat (bm_bits b) \<longrightarrow> s \<le> r \<and> bm_bit b r = v))"

lemma bm_none_refl: "r \<le> s \<Longrightarrow> bm_none v b s r"
  by (auto simp: bm_none_def)

lemma bm_none_trans: "bm_none v b s m \<Longrightarrow> bm_none v b m r \<Longrightarrow> bm_none v b s r"
  unfolding bm_none_def by (metis not_le)

lemma bm_none_step: "bm_bit b s \<noteq> v \<Longrightarrow> bm_none v b s (Suc s)"
  by (auto simp: bm_none_def le_antisym less_Suc_eq_le dest: le_antisym)

lemma bm_scan_bits_sound:
  assumes "bm_scan_bits v al b s = Inr (f, r)"
  shows "unat s \<le> unat r \<and> bm_none v b (unat s) (unat r) \<and>
    (if f then unat r < unat (bm_bits b) \<and> bm_bit b (unat r) = v
     else unat (bm_bits b) \<le> unat r \<or> al \<and> unat r mod 32 = 0)"
  using assms
proof (induction v al b s rule: bm_scan_bits.induct)
  case (1 v al b s)
  show ?case
  proof (cases "(al \<longrightarrow> s AND 31 \<noteq> 0) \<and> s < bm_bits b")
    case True
    from 1(2) obtain t where t: "bitmap_test_bit b s = Inr t"
      by (subst (asm) bm_scan_bits.simps) (auto simp only: if_P [OF True] split: sum.splits)
    then have tb: "t = bm_bit b (unat s)" by (simp add: bitmap_test_bit_eq split: if_splits)
    have eq: "(if t = v then Inr (True, s) else bm_scan_bits v al b (s + 1)) = Inr (f, r)"
      using 1(2) by (subst (asm) bm_scan_bits.simps) (simp only: if_P [OF True] t sum.case)
    show ?thesis
    proof (cases "t = v")
      case True
      with eq tb \<open>(al \<longrightarrow> s AND 31 \<noteq> 0) \<and> s < bm_bits b\<close> show ?thesis
        by (simp add: bm_none_refl word_less_nat_alt)
    next
      case False
      have s1: "unat (s + 1) = Suc (unat s)" using True unat_succ_less by blast
      have "bm_none v b (unat s) (Suc (unat s))" using False tb by (simp add: bm_none_step)
      moreover have "bm_scan_bits v al b (s + 1) = Inr (f, r)" using eq False by simp
      ultimately show ?thesis using 1(1) [OF True t False] unfolding s1
        using bm_none_trans by auto
    qed
  next
    case False
    then have "bm_scan_bits v al b s = Inr (False, s)"
      by (subst bm_scan_bits.simps) (rule if_not_P)
    with 1(2) have "r = s" "\<not> f" by auto
    then show ?thesis using False unat_and_31 [of s]
      by (auto simp: word_less_nat_alt bm_none_refl)
  qed
qed

lemma bm_word_bit:
  assumes "s mod 32 = 0" "j < 32"
  shows "bm_bit b (s + j) = bit (bm_buff b ! (s div 32)) j"
proof -
  have "(s + j) div 32 = s div 32" "(s + j) mod 32 = j"
    using assms by (auto simp: mod_add_eq [symmetric] div_add1_eq)
  then show ?thesis by (simp add: bm_bit_def)
qed

lemma bm_scan_words_sound:
  assumes "bm_scan_words v b s = Inr (f, r)" "unat s mod 32 = 0 \<or> unat (bm_bits b) \<le> unat s"
  shows "unat s \<le> unat r \<and> bm_none v b (unat s) (unat r) \<and>
    (f \<longrightarrow> unat r < unat (bm_bits b) \<and> bm_bit b (unat r) = v)"
  using assms
proof (induction v b s rule: bm_scan_words.induct)
  case (1 v b s)
  show ?case
  proof (cases "s < bm_bits b AND NOT 31")
    case True
    let ?n = "unat (bm_bits b)"
    have lt: "unat s < ?n - ?n mod 32"
      using True by (simp add: word_less_nat_alt unat_and_minus_32)
    with 1(3) have al: "unat s mod 32 = 0" by auto
    from al lt have le: "unat s + 32 \<le> ?n"  by (rule aligned_block_le)
    from 1(2) obtain w where w: "bm_block b s = Inr w"
      by (subst (asm) bm_scan_words.simps) (auto simp only: if_P [OF True] split: sum.splits)
    then have wb: "w = bm_buff b ! (unat s div 32)"
      by (simp only: bm_block_def Let_def unat_drop5) (simp split: if_splits)
    define w' where "w' = (if v then w else NOT w)"
    have w'_bit: "bit w' j = (bm_bit b (unat s + j) = v)" if "j < 32" for j
      using that bm_word_bit [OF al that, of b] by (simp add: w'_def wb bit_not_iff)
    have eq: "(if w' \<noteq> 0 then Inr (True, s + of_nat (ctz32 w'))
        else bm_scan_words v b (s + 32)) = Inr (f, r)"
      using 1(2) by (subst (asm) bm_scan_words.simps)
        (simp only: if_P [OF True] w sum.case Let_def w'_def)
    show ?thesis
    proof (cases "w' = 0")
      case False
      note z = ctz32_props [OF False]
      have fr: "f" "r = s + of_nat (ctz32 w')" using eq False by auto
      have ur: "unat r = unat s + ctz32 w'"
      proof -
        have "unat (of_nat (ctz32 w') :: u32) = ctz32 w'"
          using z(1) by (simp add: unat_of_nat)
        moreover have "unat s + ctz32 w' < 2 ^ 32"
          using le z(1) unat_less_2p32 [of "bm_bits b"] by simp
        ultimately show ?thesis unfolding fr by (simp add: unat_word_ariths)
      qed
      have "bm_none v b (unat s) (unat r)"
        unfolding bm_none_def ur
      proof (intro allI impI)
        fix i assume i: "unat s \<le> i \<and> i < unat s + ctz32 w'"
        then have "i - unat s < ctz32 w'" by linarith
        then show "bm_bit b i \<noteq> v" using z(1,3) w'_bit [of "i - unat s"] i by auto
      qed
      moreover have "bm_bit b (unat r) = v" using z(1,2) w'_bit ur by simp
      ultimately show ?thesis using ur le z(1) by simp
    next
      case w0: True
      have s1: "unat (s + 32) = unat s + 32" using unat_add32_less [OF True] .
      have "bm_none v b (unat s) (unat s + 32)"
        unfolding bm_none_def
      proof (intro allI impI)
        fix i assume i: "unat s \<le> i \<and> i < unat s + 32"
        then have "i - unat s < 32" by linarith
        then show "bm_bit b i \<noteq> v" using w0 w'_bit [of "i - unat s"] i by auto
      qed
      moreover have "bm_scan_words v b (s + 32) = Inr (f, r)" using eq w0 by simp
      moreover have "unat (s + 32) mod 32 = 0" using al s1 by simp
      moreover have "\<not> (if v then w else NOT w) \<noteq> 0" using w0 by (simp add: w'_def)
      ultimately show ?thesis using 1(1) [OF True w refl] unfolding s1
        by (metis (no_types, lifting) add_leE bm_none_trans)
    qed
  next
    case False
    then have "bm_scan_words v b s = Inr (False, s)"
      by (subst bm_scan_words.simps) (rule if_not_P)
    with 1(2) show ?thesis by (auto simp: bm_none_refl)
  qed
qed

lemma bm_find_sound:
  assumes "bm_find v b s = Inr r"
  shows "bm_first v b (unat s) (unat r)"
proof -
  let ?n = "unat (bm_bits b)"
  obtain f1 s1 where 1: "bm_scan_bits v True b s = Inr (f1, s1)"
    using assms by (auto simp: bm_find_def rbind_eq_Inr)
  note S1 = bm_scan_bits_sound [OF 1]
  show ?thesis
  proof (cases f1)
    case True
    then have "r = s1" using assms by (simp add: bm_find_def 1)
    then show ?thesis using S1 True by (simp add: bm_first_def)
  next
    case f1: False
    obtain f2 s2 where 2: "bm_scan_words v b s1 = Inr (f2, s2)"
      using assms f1 by (auto simp: bm_find_def 1 rbind_eq_Inr)
    have S2: "unat s1 \<le> unat s2" "bm_none v b (unat s1) (unat s2)"
      "f2 \<longrightarrow> unat s2 < ?n \<and> bm_bit b (unat s2) = v"
      using bm_scan_words_sound [OF 2] S1 f1 by auto
    have n2: "bm_none v b (unat s) (unat s2)" using S1 S2(2) bm_none_trans by blast
    show ?thesis
    proof (cases f2)
      case True
      then have "r = s2" using assms f1 by (simp add: bm_find_def 1 2)
      then show ?thesis using S1 S2 True n2 by (simp add: bm_first_def)
    next
      case f2: False
      obtain f3 s3 where 3: "bm_scan_bits v False b s2 = Inr (f3, s3)"
        using assms f1 f2 by (auto simp: bm_find_def 1 2 rbind_eq_Inr)
      note S3 = bm_scan_bits_sound [OF 3]
      have n3: "bm_none v b (unat s) (unat s3)" using S3 n2 bm_none_trans by blast
      show ?thesis
      proof (cases f3)
        case True
        then have "r = s3" using assms f1 f2 by (simp add: bm_find_def 1 2 3)
        then show ?thesis using S1 S2 S3 True n3 by (simp add: bm_first_def)
      next
        case False
        then have "r = bm_bits b" using assms f1 f2 by (simp add: bm_find_def 1 2 3)
        moreover have "bm_none v b (unat s) ?n"
          using n3 S3 False by (auto simp: bm_none_def)
        ultimately show ?thesis by (simp add: bm_first_def)
      qed
    qed
  qed
qed

text \<open>Under the invariant no read leaves the buffer.\<close>

lemma if_exI: "(P \<Longrightarrow> \<exists>x. f = g x) \<Longrightarrow> (\<not> P \<Longrightarrow> \<exists>x. h = g x) \<Longrightarrow> \<exists>x. (if P then f else h) = g x"
  by simp

lemma bm_scan_bits_total: "bm_inv b \<Longrightarrow> \<exists>x. bm_scan_bits v al b s = Inr x"
proof (induction v al b s rule: bm_scan_bits.induct)
  case (1 v al b s)
  show ?case
  proof (cases "(al \<longrightarrow> s AND 31 \<noteq> 0) \<and> s < bm_bits b")
    case True
    then have "unat s div 32 < length (bm_buff b)" using 1(2)
      by (simp add: bm_inv_def word_less_nat_alt less_mult_imp_div_less mult.commute)
    then have t: "bitmap_test_bit b s = Inr (bm_bit b (unat s))" by (simp add: bitmap_test_bit_eq)
    show ?thesis
      by (subst bm_scan_bits.simps)
         (use 1(1) [OF True t _ 1(2)] in \<open>auto simp only: if_P [OF True] t sum.case split: if_splits\<close>)
  next
    case False
    then have "bm_scan_bits v al b s = Inr (False, s)"
      by (subst bm_scan_bits.simps) (rule if_not_P)
    then show ?thesis by blast
  qed
qed

lemma bm_scan_words_total: "bm_inv b \<Longrightarrow> \<exists>x. bm_scan_words v b s = Inr x"
proof (induction v b s rule: bm_scan_words.induct)
  case (1 v b s)
  show ?case
  proof (cases "s < bm_bits b AND NOT 31")
    case True
    have "unat s < unat (bm_bits b)"
      using True by (simp add: word_less_nat_alt unat_and_minus_32)
    then have k: "unat s div 32 < length (bm_buff b)" using 1(2)
      by (simp add: bm_inv_def less_mult_imp_div_less mult.commute)
    then have w: "bm_block b s = Inr (bm_buff b ! (unat s div 32))"
      by (simp only: bm_block_def Let_def unat_drop5 if_True)
    show ?thesis
      by (subst bm_scan_words.simps)
         (simp only: if_P [OF True] w sum.case Let_def, rule if_exI, rule exI, rule refl,
          rule 1(1) [OF True w refl _ 1(2)], assumption)
  next
    case False
    then have "bm_scan_words v b s = Inr (False, s)"
      by (subst bm_scan_words.simps) (rule if_not_P)
    then show ?thesis by blast
  qed
qed

lemma bm_find_total: "bm_inv b \<Longrightarrow> \<exists>r. bm_find v b s = Inr r"
proof -
  assume inv: "bm_inv b"
  obtain f1 s1 where 1: "bm_scan_bits v True b s = Inr (f1, s1)"
    using bm_scan_bits_total [OF inv, of v True s] by auto
  obtain f2 s2 where 2: "bm_scan_words v b s1 = Inr (f2, s2)"
    using bm_scan_words_total [OF inv, of v s1] by auto
  obtain f3 s3 where 3: "bm_scan_bits v False b s2 = Inr (f3, s3)"
    using bm_scan_bits_total [OF inv, of v False s2] by auto
  show ?thesis by (simp add: bm_find_def 1 2 3)
qed

section \<open>First-fit allocation of an interval\<close>

lemma bm_first_progress:
  assumes "bm_first False b s z" "bm_first True b z e" "s < unat (bm_bits b)"
  shows "s < e" "z \<le> e" "s \<le> z"
proof -
  have "s < e \<and> z \<le> e \<and> s \<le> z"
  proof (cases "z < unat (bm_bits b)")
    case True
    with assms have "s \<le> z" "\<not> bm_bit b z" "e < unat (bm_bits b) \<longrightarrow> z \<le> e \<and> bm_bit b e"
      "e \<le> unat (bm_bits b)"
      by (auto simp: bm_first_def)
    then show ?thesis using True by (cases "e < unat (bm_bits b)") (auto simp: le_less)
  qed (use assms in \<open>auto simp: bm_first_def\<close>)
  then show "s < e" "z \<le> e" "s \<le> z" by auto
qed

function bitmap_alloc_interval :: "bitmap_t \<Rightarrow> u32 \<Rightarrow> u32 \<Rightarrow> (bitmap_t \<times> u32) res" where
  "bitmap_alloc_interval b s n =
    (if s < bm_bits b then
       case bitmap_find_first_zero b s of Inl x \<Rightarrow> Inl x | Inr z \<Rightarrow>
       case bitmap_find_first_one b z of Inl x \<Rightarrow> Inl x | Inr e \<Rightarrow>
         if n \<le> e - z
         then rbind (bitmap_set_interval b z (z + n)) (\<lambda>b'. Inr (b', z))
         else bitmap_alloc_interval b e n
     else Inr (b, bm_bits b))"
  by pat_completeness auto

termination
proof (relation "measure (\<lambda>(b, s, n). unat (bm_bits b) - unat s)")
  fix b s n z e
  assume s: "s < bm_bits b" and z: "bitmap_find_first_zero b s = Inr z"
    and e: "bitmap_find_first_one b z = Inr e"
  have "unat s < unat e"
    by (rule bm_first_progress [of b _ "unat z"])
       (use s z e in \<open>auto simp: bitmap_find_first_zero_def bitmap_find_first_one_def word_less_nat_alt
          intro: bm_find_sound\<close>)
  then show "((b, e, n), b, s, n) \<in> measure (\<lambda>(b, s, n). unat (bm_bits b) - unat s)"
    using s by (simp add: word_less_nat_alt)
qed simp

declare bitmap_alloc_interval.simps [simp del]

text \<open>What the allocator promises: the lowest run of \<open>n\<close> clear bits at or after \<open>s\<close>.\<close>

definition bm_first_fit :: "bitmap_t \<Rightarrow> nat \<Rightarrow> nat \<Rightarrow> bitmap_t \<Rightarrow> nat \<Rightarrow> bool" where
  "bm_first_fit b s n b' r =
     (let bits = unat (bm_bits b) in
      if r < bits
      then s \<le> r \<and> r + n \<le> bits \<and> bm_none True b r (r + n) \<and> bm_filled True b r (r + n) b' \<and>
           (\<forall>p. s \<le> p \<and> p < r \<longrightarrow> \<not> bm_none True b p (p + n))
      else r = bits \<and> b' = b \<and>
           (\<forall>p. s \<le> p \<and> p + n \<le> bits \<longrightarrow> \<not> bm_none True b p (p + n)))"

lemma bm_gap_short:
  assumes "bm_first False b s z" "bm_first True b z e" "s < unat (bm_bits b)"
    and "e - z < n" "s \<le> p" "p < e" "p + n \<le> unat (bm_bits b)"
  shows "\<not> bm_none True b p (p + n)"
proof (cases "p < z")
  case True
  then have "bm_bit b p" using assms by (auto simp: bm_first_def bm_none_def)
  then show ?thesis using assms by (auto simp: bm_none_def)
next
  case False
  then have "e < p + n" using assms by linarith
  moreover have "bm_bit b e" using assms calculation by (auto simp: bm_first_def)
  ultimately show ?thesis using assms(6) by (auto simp: bm_none_def intro!: exI [of _ e])
qed

lemma bm_first_fit_skip:
  assumes "bm_first_fit b e n b' r" "e \<le> unat (bm_bits b)" "0 < n" "s < e"
    and gap: "\<And>p. s \<le> p \<Longrightarrow> p < e \<Longrightarrow> p + n \<le> unat (bm_bits b) \<Longrightarrow> \<not> bm_none True b p (p + n)"
  shows "bm_first_fit b s n b' r"
proof (cases "r < unat (bm_bits b)")
  case True
  then have "\<not> bm_none True b p (p + n)" if "s \<le> p" "p < r" for p
    using that assms(1) gap [of p] by (cases "p < e") (auto simp: bm_first_fit_def Let_def)
  then show ?thesis using assms True by (auto simp: bm_first_fit_def Let_def)
next
  case False
  then have "\<not> bm_none True b p (p + n)" if "s \<le> p" "p + n \<le> unat (bm_bits b)" for p
    using that assms(1) gap [of p] by (cases "p < e") (auto simp: bm_first_fit_def Let_def)
  then show ?thesis using assms(1) False by (auto simp: bm_first_fit_def Let_def)
qed

lemma bitmap_alloc_interval_ok:
  assumes "bm_inv b" "0 < n"
  shows "\<exists>b' r. bitmap_alloc_interval b s n = Inr (b', r) \<and> bm_first_fit b (unat s) (unat n) b' (unat r)"
  using assms
proof (induction b s n rule: bitmap_alloc_interval.induct)
  case (1 b s n)
  let ?N = "unat (bm_bits b)"
  show ?case
  proof (cases "s < bm_bits b")
    case True
    then have sN: "unat s < ?N" by (simp add: word_less_nat_alt)
    have n0: "0 < unat n" using 1(3) by (simp add: word_less_nat_alt)
    obtain z where z: "bitmap_find_first_zero b s = Inr z"
      using bm_find_total [OF 1(2)] by (auto simp: bitmap_find_first_zero_def)
    obtain e where e: "bitmap_find_first_one b z = Inr e"
      using bm_find_total [OF 1(2)] by (auto simp: bitmap_find_first_one_def)
    have fz: "bm_first False b (unat s) (unat z)" and fe: "bm_first True b (unat z) (unat e)"
      using z e by (auto simp: bitmap_find_first_zero_def bitmap_find_first_one_def
          intro: bm_find_sound)
    note pr = bm_first_progress [OF fz fe sN]
    have eN: "unat e \<le> ?N" using fe by (simp add: bm_first_def)
    have sub: "unat (e - z) = unat e - unat z" using pr by (simp add: unat_sub word_le_nat_alt)
    show ?thesis
    proof (cases "n \<le> e - z")
      case fits: True
      then have le: "unat z + unat n \<le> unat e" using sub pr by (simp add: word_le_nat_alt)
      then have zn: "unat (z + n) = unat z + unat n"
        using unat_less_2p32 [of e] by (simp add: unat_word_ariths)
      have "unat (z + n) \<le> 32 * length (bm_buff b)" using 1(2) le eN zn by (simp add: bm_inv_def)
      then obtain b' where b': "bitmap_set_interval b z (z + n) = Inr b'"
        "bm_filled True b (unat z) (unat z + unat n) b'"
        using bm_fill_ok [of "z + n" b True z] zn by (auto simp: bitmap_set_interval_def)
      have zN: "unat z < ?N" using le eN n0 by linarith
      have "bm_none True b (unat z) (unat z + unat n)"
        using fe le by (auto simp: bm_first_def bm_none_def)
      moreover have "\<not> bm_none True b p (p + unat n)" if "unat s \<le> p" "p < unat z" for p
        using that fz n0 by (auto simp: bm_first_def bm_none_def)
      ultimately have "bm_first_fit b (unat s) (unat n) b' (unat z)"
        using b'(2) zN pr le eN by (simp add: bm_first_fit_def Let_def)
      moreover have "bitmap_alloc_interval b s n = Inr (b', z)"
        by (subst bitmap_alloc_interval.simps) (simp add: True z e fits b')
      ultimately show ?thesis by blast
    next
      case short: False
      then have sh: "unat e - unat z < unat n" using sub by (simp add: word_le_nat_alt)
      obtain b' r where r: "bitmap_alloc_interval b e n = Inr (b', r)"
        "bm_first_fit b (unat e) (unat n) b' (unat r)"
        using 1(1) [OF True z e short 1(2,3)] by blast
      have "bm_first_fit b (unat s) (unat n) b' (unat r)"
        by (rule bm_first_fit_skip [OF r(2) eN n0 pr(1) bm_gap_short [OF fz fe sN sh]])
      moreover have "bitmap_alloc_interval b s n = Inr (b', r)"
        by (subst bitmap_alloc_interval.simps) (simp add: True z e short r)
      ultimately show ?thesis by blast
    qed
  next
    case False
    then have "bitmap_alloc_interval b s n = Inr (b, bm_bits b)"
      by (subst bitmap_alloc_interval.simps) simp
    moreover have "0 < unat n" using 1(3) by (simp add: word_less_nat_alt)
    ultimately show ?thesis using False
      by (auto simp: bm_first_fit_def word_less_nat_alt)
  qed
qed

lemma bitmap_init_ok:
  assumes "got" "unat n + 31 < 2 ^ 32"
  shows "\<exists>b. bitmap_init got n = Inr b \<and> bm_inv b \<and> bm_bits b = n \<and>
    length (bm_buff b) = unat (bm_blocks b) \<and> (\<forall>i < unat n. \<not> bm_bit b i)"
proof -
  have b: "unat (drop_bit 5 (n + 31)) = (unat n + 31) div 32"
    unfolding unat_drop5 using assms(2) by (simp add: unat_word_ariths)
  have "i div 32 < (unat n + 31) div 32" if "i < unat n" for i
    using that by linarith
  moreover have "unat n \<le> 32 * ((unat n + 31) div 32)" by linarith
  ultimately show ?thesis
    using assms(1) by (simp only: bitmap_init_def Let_def if_P simp_thms)
      (simp add: b bm_inv_def bm_bit_def del: drop_bit_numeral_bit0 drop_bit_numeral_bit1)
qed

section \<open>Properties\<close>

definition bm_ex :: bitmap_t where
  "bm_ex = \<lparr> bm_buff = [0xFFFFFFFF, 0x0F], bm_bits = 40, bm_blocks = 2 \<rparr>"

lemma bm_ex_inv: "bm_inv bm_ex"
  by (simp add: bm_ex_def bm_inv_def)

text \<open>the block-wise searches never leave the buffer and return the least index at or after
  the start whose bit is clear (set), or the number of bits when there is none.\<close>

lemma bitmap_find_least:
  assumes "bm_inv b"
  shows "(\<exists>r. bitmap_find_first_zero b s = Inr r \<and> bm_first False b (unat s) (unat r)) \<and>
    (\<exists>r. bitmap_find_first_one b s = Inr r \<and> bm_first True b (unat s) (unat r))"
  unfolding bitmap_find_first_zero_def bitmap_find_first_one_def
  using bm_find_total [OF assms] bm_find_sound by blast

lemma bitmap_find_least_witness:
  "(\<exists>r. bitmap_find_first_zero bm_ex 3 = Inr r \<and> bm_first False bm_ex (unat (3 :: u32)) (unat r)) \<and>
   (\<exists>r. bitmap_find_first_one bm_ex 3 = Inr r \<and> bm_first True bm_ex (unat (3 :: u32)) (unat r))"
  by (rule bitmap_find_least) (rule bm_ex_inv)

text \<open>setting or clearing an interval that fits in the buffer changes exactly the bits of the
  interval, although whole blocks are written at a time.\<close>

lemma bitmap_interval_exact:
  assumes "unat e \<le> 32 * length (bm_buff b)"
  shows "(\<exists>b'. bitmap_set_interval b s e = Inr b' \<and> bm_filled True b (unat s) (unat e) b') \<and>
    (\<exists>b'. bitmap_clear_interval b s e = Inr b' \<and> bm_filled False b (unat s) (unat e) b')"
  unfolding bitmap_set_interval_def bitmap_clear_interval_def
  using bm_fill_ok [OF assms] by blast

lemma bitmap_interval_exact_witness:
  "(\<exists>b'. bitmap_set_interval bm_ex 5 38 = Inr b' \<and> bm_filled True bm_ex (unat (5 :: u32)) (unat (38 :: u32)) b') \<and>
   (\<exists>b'. bitmap_clear_interval bm_ex 5 38 = Inr b' \<and> bm_filled False bm_ex (unat (5 :: u32)) (unat (38 :: u32)) b')"
  by (rule bitmap_interval_exact) (simp add: bm_ex_def)

text \<open>C9: \<open>bitmap_alloc_interval\<close> terminates and is a first-fit allocator: it sets and returns the
  lowest run of clear bits of the wanted length at or after the start, or changes nothing and
  returns the number of bits when there is no such run.\<close>

lemma bitmap_alloc_first_fit:
  assumes "bm_inv b" "0 < n"
  shows "\<exists>b' r. bitmap_alloc_interval b s n = Inr (b', r) \<and> bm_inv b' \<and>
    (let bits = unat (bm_bits b); p = unat r; k = unat n in
     if p < bits
     then unat s \<le> p \<and> p + k \<le> bits \<and> (\<forall>i. p \<le> i \<and> i < p + k \<longrightarrow> \<not> bm_bit b i) \<and>
          (\<forall>i. bm_bit b' i = (p \<le> i \<and> i < p + k \<or> bm_bit b i)) \<and>
          (\<forall>q. unat s \<le> q \<and> q < p \<longrightarrow> (\<exists>i. q \<le> i \<and> i < q + k \<and> bm_bit b i))
     else p = bits \<and> b' = b \<and>
          (\<forall>q. unat s \<le> q \<and> q + k \<le> bits \<longrightarrow> (\<exists>i. q \<le> i \<and> i < q + k \<and> bm_bit b i)))"
proof -
  obtain b' r where a: "bitmap_alloc_interval b s n = Inr (b', r)"
    and f: "bm_first_fit b (unat s) (unat n) b' (unat r)"
    using bitmap_alloc_interval_ok [OF assms] by blast
  have "bm_inv b'" using f assms(1) by (auto simp: bm_first_fit_def Let_def bm_filled_inv split: if_splits)
  then show ?thesis using a f
    by (intro exI [of _ b'] exI [of _ r])
       (auto simp: bm_first_fit_def Let_def bm_none_def bm_filled_def split: if_splits)
qed

lemma bitmap_alloc_first_fit_witness:
  "\<exists>b' r. bitmap_alloc_interval bm_ex 0 3 = Inr (b', r) \<and> bm_inv b' \<and>
    (let bits = unat (bm_bits bm_ex); p = unat r; k = unat (3 :: u32) in
     if p < bits
     then unat (0 :: u32) \<le> p \<and> p + k \<le> bits \<and> (\<forall>i. p \<le> i \<and> i < p + k \<longrightarrow> \<not> bm_bit bm_ex i) \<and>
          (\<forall>i. bm_bit b' i = (p \<le> i \<and> i < p + k \<or> bm_bit bm_ex i)) \<and>
          (\<forall>q. unat (0 :: u32) \<le> q \<and> q < p \<longrightarrow> (\<exists>i. q \<le> i \<and> i < q + k \<and> bm_bit bm_ex i))
     else p = bits \<and> b' = bm_ex \<and>
          (\<forall>q. unat (0 :: u32) \<le> q \<and> q + k \<le> bits \<longrightarrow> (\<exists>i. q \<le> i \<and> i < q + k \<and> bm_bit bm_ex i)))"
  by (rule bitmap_alloc_first_fit) (simp_all add: bm_ex_inv)

end
