(* ===== verification/Pmm.thy ===== *)
theory Pmm
  imports Bitmap_Alloc
begin

text \<open>
  The physical memory manager of \<^verbatim>\<open>src/src/arch/pmm.c\<close>: a bitmap of the frames in use and,
  for each frame, the number of page-table entries that refer to it.  Each routine runs under
  the task lock, so it is one step; the locks themselves are not part of the state.

  The specification is a map from frame numbers to reference counts.  The locale
  \<open>frame_pool\<close> states what the paging code relies on (a fresh frame has no reference, sharing
  adds one, freeing removes one); it is interpreted on \<open>pmm_alloc_frame\<close>,
  \<open>pmm_free_frame\<close> and \<open>pmm_set_alloced\<close>.
\<close>

unbundle bit_operations_syntax

section \<open>Constants of ram.h\<close>

definition RAM_VIRTUAL_START :: u32 where "RAM_VIRTUAL_START = 0xC0000000"
definition KHEAP_START :: u32 where "KHEAP_START = RAM_VIRTUAL_START + 4 * 0x100000"
definition KHEAP_END :: u32 where "KHEAP_END = RAM_VIRTUAL_START + 64 * 0x100000"
definition KERNEL_END :: u32 where "KERNEL_END = KHEAP_END"
definition TOTAL_RAM :: u32 where "TOTAL_RAM = 0xFFFFFFFF"
definition PAGE_SIZE :: u32 where "PAGE_SIZE = 4096"
definition PAGES_COUNT :: u32 where "PAGES_COUNT = TOTAL_RAM div PAGE_SIZE"

definition ram_kernel_to_virt :: "u32 \<Rightarrow> u32 res" where
  "ram_kernel_to_virt phys =
    rbind (rguard (phys \<le> KERNEL_END - RAM_VIRTUAL_START)
       (Assertion ''phys_addr <= (KERNEL_END - RAM_VIRTUAL_START)''))
      (\<lambda>_. Inr (phys + RAM_VIRTUAL_START))"

definition ram_kernel_to_phys :: "u32 \<Rightarrow> u32 res" where
  "ram_kernel_to_phys virt =
    rbind (rguard (RAM_VIRTUAL_START \<le> virt) (Assertion ''virt_addr >= RAM_VIRTUAL_START''))
      (\<lambda>_. Inr (virt - RAM_VIRTUAL_START))"

section \<open>State and operations\<close>

record pmm_t =
  pmm_bitmap :: bitmap_t
  pmm_access_count :: "u32 list"
  pmm_alloc_frame_start_addr :: u32

definition get_page_num :: "u32 \<Rightarrow> u32" where
  "get_page_num phys = drop_bit 12 phys"

text \<open>\<open>got\<close> and \<open>got'\<close>: the two \<open>malloc\<close> calls, for the bitmap and for the counters.\<close>

definition pmm_init :: "bool \<Rightarrow> bool \<Rightarrow> pmm_t res" where
  "pmm_init got got' =
    rbind (bitmap_init got PAGES_COUNT) (\<lambda>b.
    rbind (bitmap_clear_interval b 0 (bm_bits b)) (\<lambda>b.
    rbind (rguard got' (Undefined ''memset of NULL'')) (\<lambda>_.
    rbind (ram_kernel_to_phys KERNEL_END) (\<lambda>top.
    Inr \<lparr> pmm_bitmap = b, pmm_access_count = replicate (unat PAGES_COUNT) 0,
          pmm_alloc_frame_start_addr = get_page_num (top + 4 * 0x400) \<rparr>))))"

text \<open>\<open>pmm_access_count[index] = f(pmm_access_count[index])\<close>.\<close>

definition pmm_count_upd :: "(u32 \<Rightarrow> u32) \<Rightarrow> u32 \<Rightarrow> pmm_t \<Rightarrow> pmm_t res" where
  "pmm_count_upd f index s =
    (let c = pmm_access_count s; k = unat index in
     if k < length c then Inr (s\<lparr> pmm_access_count := c[k := f (c ! k)] \<rparr>) else Inl Out_Of_Bounds)"

definition pmm_alloc_frame :: "pmm_t \<Rightarrow> (u32 \<times> pmm_t) res" where
  "pmm_alloc_frame s =
    rbind (bitmap_alloc_interval (pmm_bitmap s) (pmm_alloc_frame_start_addr s) 1) (\<lambda>(b, index).
    rbind (rguard (\<not> bm_bits b \<le> index) (Panic ''BAD PMM FRAME ALLOC'')) (\<lambda>_.
    rbind (pmm_count_upd (\<lambda>c. c + 1) index (s\<lparr> pmm_bitmap := b \<rparr>)) (\<lambda>s'.
    Inr (index * PAGE_SIZE, s'))))"

definition pmm_free_frame :: "u32 \<Rightarrow> pmm_t \<Rightarrow> (bool \<times> pmm_t) res" where
  "pmm_free_frame phys s =
    (let index = get_page_num phys in
     rbind (pmm_count_upd (\<lambda>c. c - 1) index s) (\<lambda>s'.
     if pmm_access_count s' ! unat index \<noteq> 0 then Inr (False, s')
     else
       rbind (rguard (KERNEL_END - RAM_VIRTUAL_START \<le> phys)
          (Assertion ''phys_addr >= (KERNEL_END - RAM_VIRTUAL_START)'')) (\<lambda>_.
       rbind (bitmap_test_bit (pmm_bitmap s') index) (\<lambda>t.
       rbind (rguard t (Panic ''BAD PMM FRAME FREE'')) (\<lambda>_.
       rbind (bitmap_clear_bit (pmm_bitmap s') index) (\<lambda>b.
       Inr (True, s'\<lparr> pmm_bitmap := b \<rparr>)))))))"

definition pmm_set_alloced :: "u32 \<Rightarrow> pmm_t \<Rightarrow> pmm_t res" where
  "pmm_set_alloced phys s =
    (let index = get_page_num phys in
     rbind (rguard (\<not> bm_bits (pmm_bitmap s) \<le> index) (Panic ''BAD PMM FRAME SET ALLOCED'')) (\<lambda>_.
     rbind (pmm_count_upd (\<lambda>c. c + 1) index s) (\<lambda>s'.
     rbind (bitmap_set_bit (pmm_bitmap s') index) (\<lambda>b.
     Inr (s'\<lparr> pmm_bitmap := b \<rparr>)))))"

definition pmm_get_counter :: "u32 \<Rightarrow> pmm_t \<Rightarrow> u32 res" where
  "pmm_get_counter phys s =
    (let index = get_page_num phys in
     rbind (rguard (\<not> bm_bits (pmm_bitmap s) \<le> index) (Panic ''BAD PMM GET COUNTER'')) (\<lambda>_.
     if unat index < length (pmm_access_count s) then Inr (pmm_access_count s ! unat index)
     else Inl Out_Of_Bounds))"

definition pmm_test_frame :: "u32 \<Rightarrow> pmm_t \<Rightarrow> bool res" where
  "pmm_test_frame phys s =
    (let index = get_page_num phys in
     rbind (rguard (\<not> bm_bits (pmm_bitmap s) \<le> index) (Panic ''BAD PMM TEST FRAME'')) (\<lambda>_.
     bitmap_test_bit (pmm_bitmap s) index))"

section \<open>The interface the paging code uses\<close>

text \<open>
  \<open>cnt s i\<close> is the number of references to frame \<open>i\<close>; \<open>size\<close> bounds the frame numbers,
  \<open>first\<close> is the lowest frame handed out and \<open>base\<close> the lowest that may return to the pool.
\<close>

definition frame_of :: "u32 \<Rightarrow> nat" where
  "frame_of a = unat a div 4096"

fun alloc_many :: "('s \<Rightarrow> (u32 \<times> 's) res) \<Rightarrow> nat \<Rightarrow> 's \<Rightarrow> (u32 list \<times> 's) res" where
  "alloc_many al 0 s = Inr ([], s)"
| "alloc_many al (Suc n) s =
    rbind (al s) (\<lambda>(a, s'). rbind (alloc_many al n s') (\<lambda>(as, s''). Inr (a # as, s'')))"

locale frame_pool =
  fixes inv :: "'s \<Rightarrow> bool"
    and cnt :: "'s \<Rightarrow> nat \<Rightarrow> nat"
    and size first :: "'s \<Rightarrow> nat"
    and base :: nat
    and alloc :: "'s \<Rightarrow> (u32 \<times> 's) res"
    and free :: "u32 \<Rightarrow> 's \<Rightarrow> (bool \<times> 's) res"
    and share :: "u32 \<Rightarrow> 's \<Rightarrow> 's res"
  assumes inv_first: "inv s \<Longrightarrow> base \<le> first s"
    and alloc_ok: "inv s \<Longrightarrow> alloc s = Inr (a, s') \<Longrightarrow>
      inv s' \<and> unat a = 4096 * frame_of a \<and> frame_of a < size s \<and> first s \<le> frame_of a \<and>
      cnt s (frame_of a) = 0 \<and> cnt s' = (cnt s)(frame_of a := 1) \<and>
      size s' = size s \<and> first s' = first s"
    and alloc_full: "inv s \<Longrightarrow> alloc s = Inl e \<Longrightarrow> first s \<le> i \<Longrightarrow> i < size s \<Longrightarrow> 0 < cnt s i"
    and share_ok: "inv s \<Longrightarrow> frame_of a < size s \<Longrightarrow> cnt s (frame_of a) + 1 < 2 ^ 32 \<Longrightarrow>
      \<exists>s'. share a s = Inr s' \<and> inv s' \<and> cnt s' = (cnt s)(frame_of a := cnt s (frame_of a) + 1) \<and>
        size s' = size s \<and> first s' = first s"
    and free_ok: "inv s \<Longrightarrow> frame_of a < size s \<Longrightarrow> 0 < cnt s (frame_of a) \<Longrightarrow>
      4096 * base \<le> unat a \<or> 1 < cnt s (frame_of a) \<Longrightarrow>
      \<exists>s'. free a s = Inr (cnt s (frame_of a) = 1, s') \<and> inv s' \<and>
        cnt s' = (cnt s)(frame_of a := cnt s (frame_of a) - 1) \<and>
        size s' = size s \<and> first s' = first s"
begin

lemma alloc_total:
  assumes "inv s" "first s \<le> i" "i < size s" "cnt s i = 0"
  shows "\<exists>a s'. alloc s = Inr (a, s')"
  using assms alloc_full [of s _ i] by (cases "alloc s") auto

lemma alloc_then_free:
  assumes "inv s" "alloc s = Inr (a, s')"
  shows "\<exists>s''. free a s' = Inr (True, s'') \<and> inv s'' \<and> cnt s'' = cnt s"
proof -
  note A = alloc_ok [OF assms]
  have b: "4096 * base \<le> unat a" using A inv_first [OF assms(1)] by simp
  have "frame_of a < size s'" "cnt s' (frame_of a) = 1" using A by auto
  then obtain s'' where f: "free a s' = Inr (True, s'')" "inv s''"
    "cnt s'' = (cnt s')(frame_of a := cnt s' (frame_of a) - 1)"
    using free_ok [of s' a] A b by auto
  moreover have "cnt s'' = cnt s" using f A by (auto simp: fun_eq_iff)
  ultimately show ?thesis by blast
qed

lemma share_then_free:
  assumes "inv s" "frame_of a < size s" "0 < cnt s (frame_of a)" "cnt s (frame_of a) + 1 < 2 ^ 32"
  shows "\<exists>s' s''. share a s = Inr s' \<and> free a s' = Inr (False, s'') \<and> inv s'' \<and> cnt s'' = cnt s"
proof -
  obtain s' where s': "share a s = Inr s'" "inv s'"
    "cnt s' = (cnt s)(frame_of a := cnt s (frame_of a) + 1)" "size s' = size s"
    using share_ok [OF assms(1,2,4)] by blast
  obtain s'' where s'': "free a s' = Inr (cnt s' (frame_of a) = 1, s'')" "inv s''"
    "cnt s'' = (cnt s')(frame_of a := cnt s' (frame_of a) - 1)"
    using free_ok [of s' a] s' assms by auto
  moreover have "cnt s'' = cnt s" using s' s'' by (auto simp: fun_eq_iff)
  ultimately show ?thesis using s' assms(3) by (intro exI [of _ s'] exI [of _ s'']) auto
qed

text \<open>Frames in use are never handed out again.\<close>

lemma alloc_many_distinct:
  assumes "inv s" "alloc_many alloc n s = Inr (as, s')"
  shows "inv s' \<and> length as = n \<and> distinct (map frame_of as) \<and>
    (\<forall>i. cnt s' i = (if i \<in> frame_of ` set as then 1 else cnt s i)) \<and>
    (\<forall>a \<in> set as. cnt s (frame_of a) = 0)"
  using assms
proof (induction n arbitrary: s as)
  case (Suc n)
  obtain a s1 where a: "alloc s = Inr (a, s1)"
    using Suc.prems(2) by (auto simp: rbind_eq_Inr)
  obtain bs where bs: "alloc_many alloc n s1 = Inr (bs, s')" "as = a # bs"
    using Suc.prems(2) by (auto simp: a rbind_eq_Inr)
  note A = alloc_ok [OF Suc.prems(1) a]
  have I: "inv s' \<and> length bs = n \<and> distinct (map frame_of bs) \<and>
    (\<forall>i. cnt s' i = (if i \<in> frame_of ` set bs then 1 else cnt s1 i)) \<and>
    (\<forall>b \<in> set bs. cnt s1 (frame_of b) = 0)"
    by (rule Suc.IH) (use A bs in auto)
  then have "frame_of a \<notin> frame_of ` set bs" using A by auto
  moreover have "\<forall>b \<in> set bs. cnt s (frame_of b) = 0"
  proof
    fix b assume "b \<in> set bs"
    then have "cnt s1 (frame_of b) = 0" using I by blast
    then show "cnt s (frame_of b) = 0" using A by (auto split: if_splits)
  qed
  ultimately show ?case using I A bs(2) by auto
qed auto

end

section \<open>The frame counters as a frame pool\<close>

definition pmm_cnt :: "pmm_t \<Rightarrow> nat \<Rightarrow> nat" where
  "pmm_cnt s i = (if i < length (pmm_access_count s) then unat (pmm_access_count s ! i) else 0)"

definition pmm_size :: "pmm_t \<Rightarrow> nat" where
  "pmm_size s = unat (bm_bits (pmm_bitmap s))"

definition pmm_first :: "pmm_t \<Rightarrow> nat" where
  "pmm_first s = unat (pmm_alloc_frame_start_addr s)"

definition pmm_inv :: "pmm_t \<Rightarrow> bool" where
  "pmm_inv s =
     (bm_inv (pmm_bitmap s) \<and> pmm_size s \<le> 2 ^ 20 \<and> length (pmm_access_count s) = pmm_size s \<and>
      16384 \<le> pmm_first s \<and>
      (\<forall>i < pmm_size s. bm_bit (pmm_bitmap s) i = (pmm_cnt s i \<noteq> 0)))"

lemma pmm_count_upd_ok:
  "unat k < length (pmm_access_count s) \<Longrightarrow>
   pmm_count_upd f k s = Inr (s\<lparr> pmm_access_count :=
     (pmm_access_count s)[unat k := f (pmm_access_count s ! unat k)] \<rparr>)"
  by (simp add: pmm_count_upd_def Let_def)

lemma pmm_cnt_upd:
  "k < length (pmm_access_count s) \<Longrightarrow>
   pmm_cnt (s\<lparr> pmm_access_count := (pmm_access_count s)[k := w], pmm_bitmap := b \<rparr>)
     = (pmm_cnt s)(k := unat w)"
  by (auto simp: pmm_cnt_def fun_eq_iff nth_list_update)

lemma bm_none_single: "bm_none True b r (Suc r) = (\<not> bm_bit b r)"
  by (auto simp: bm_none_def le_less_Suc_eq)

lemma pmm_alloc_interval:
  assumes "pmm_inv s"
  shows "\<exists>b r. bitmap_alloc_interval (pmm_bitmap s) (pmm_alloc_frame_start_addr s) 1 = Inr (b, r) \<and>
    bm_first_fit (pmm_bitmap s) (pmm_first s) 1 b (unat r)"
  using bitmap_alloc_interval_ok [of "pmm_bitmap s" 1 "pmm_alloc_frame_start_addr s"] assms
  by (auto simp: pmm_inv_def pmm_first_def)

lemma pmm_alloc_frame_ok:
  assumes inv: "pmm_inv s" and al: "pmm_alloc_frame s = Inr (a, s')"
  shows "pmm_inv s' \<and> unat a = 4096 * frame_of a \<and> frame_of a < pmm_size s \<and>
    pmm_first s \<le> frame_of a \<and> pmm_cnt s (frame_of a) = 0 \<and>
    pmm_cnt s' = (pmm_cnt s)(frame_of a := 1) \<and>
    pmm_size s' = pmm_size s \<and> pmm_first s' = pmm_first s"
proof -
  obtain b r where br: "bitmap_alloc_interval (pmm_bitmap s) (pmm_alloc_frame_start_addr s) 1 = Inr (b, r)"
    "bm_first_fit (pmm_bitmap s) (pmm_first s) 1 b (unat r)"
    using pmm_alloc_interval [OF inv] by blast
  have rb: "\<not> bm_bits b \<le> r"
    and cu: "\<exists>t. pmm_count_upd (\<lambda>c. c + 1) r (s\<lparr> pmm_bitmap := b \<rparr>) = Inr t \<and> s' = t \<and> a = r * PAGE_SIZE"
    using al by (auto simp: pmm_alloc_frame_def br rbind_eq_Inr)
  have bits: "bm_bits b = bm_bits (pmm_bitmap s)"
    using br(2) by (auto simp: bm_first_fit_def Let_def bm_filled_def split: if_splits)
  have rs: "unat r < pmm_size s" using rb by (simp add: bits pmm_size_def word_le_nat_alt)
  then have ff: "pmm_first s \<le> unat r" "\<not> bm_bit (pmm_bitmap s) (unat r)"
    "bm_filled True (pmm_bitmap s) (unat r) (Suc (unat r)) b"
    using br(2) by (auto simp: bm_first_fit_def Let_def bm_none_single pmm_size_def)
  have r20: "unat r < 2 ^ 20" using rs inv by (simp add: pmm_inv_def)
  have a: "a = r * 4096" using cu by (auto simp: PAGE_SIZE_def)
  have fr: "frame_of a = unat r" by (simp add: frame_of_def a unat_frame_addr [OF r20])
  have c0: "pmm_cnt s (unat r) = 0" using ff(2) rs inv by (simp add: pmm_inv_def)
  then have w0: "pmm_access_count s ! unat r = 0"
    using rs inv by (simp add: pmm_cnt_def pmm_inv_def unat_eq_0)
  have len: "unat r < length (pmm_access_count s)" using rs inv by (simp add: pmm_inv_def)
  have s': "s' = s\<lparr> pmm_access_count := (pmm_access_count s)[unat r := 1], pmm_bitmap := b \<rparr>"
    using cu len w0 by (auto simp: pmm_count_upd_ok)
  have cnt: "pmm_cnt s' = (pmm_cnt s)(unat r := 1)"
    unfolding s' by (simp only: pmm_cnt_upd [OF len] unat_1)
  have sz: "pmm_size s' = pmm_size s" "pmm_first s' = pmm_first s"
    by (simp_all add: s' pmm_size_def pmm_first_def bits)
  have "bm_bit b i = (pmm_cnt s' i \<noteq> 0)" if "i < pmm_size s" for i
  proof -
    have "bm_bit b i = (i = unat r \<or> bm_bit (pmm_bitmap s) i)"
      using ff(3) by (auto simp: bm_filled_def)
    then show ?thesis using that inv cnt by (auto simp: pmm_inv_def)
  qed
  moreover have "bm_inv b" using bm_filled_inv [OF ff(3)] inv by (simp add: pmm_inv_def)
  ultimately have "pmm_inv s'"
    using inv sz unfolding pmm_inv_def by (simp add: s')
  then show ?thesis using fr a rs ff(1) c0 cnt sz by (simp add: unat_frame_addr [OF r20])
qed

lemma pmm_alloc_frame_full:
  assumes inv: "pmm_inv s" and al: "pmm_alloc_frame s = Inl e" and i: "pmm_first s \<le> i" "i < pmm_size s"
  shows "0 < pmm_cnt s i"
proof -
  obtain b r where br: "bitmap_alloc_interval (pmm_bitmap s) (pmm_alloc_frame_start_addr s) 1 = Inr (b, r)"
    "bm_first_fit (pmm_bitmap s) (pmm_first s) 1 b (unat r)"
    using pmm_alloc_interval [OF inv] by blast
  have bits: "bm_bits b = bm_bits (pmm_bitmap s)"
    using br(2) by (auto simp: bm_first_fit_def Let_def bm_filled_def split: if_splits)
  have "bm_bits b \<le> r"
  proof (rule ccontr)
    assume n: "\<not> bm_bits b \<le> r"
    then have "unat r < length (pmm_access_count s)"
      using inv by (simp add: bits pmm_inv_def pmm_size_def word_le_nat_alt)
    then show False using al n by (simp add: pmm_alloc_frame_def br pmm_count_upd_ok)
  qed
  then have "\<not> bm_none True (pmm_bitmap s) i (Suc i)"
    using br(2) i by (simp add: bm_first_fit_def Let_def bits pmm_size_def word_le_nat_alt)
  then show ?thesis using inv i by (simp add: bm_none_single pmm_inv_def)
qed

lemma unat_get_page_num: "unat (get_page_num a) = frame_of a"
  by (simp only: get_page_num_def frame_of_def unat_drop12)

lemma pmm_set_alloced_ok:
  assumes inv: "pmm_inv s" and fr: "frame_of a < pmm_size s" and cb: "pmm_cnt s (frame_of a) + 1 < 2 ^ 32"
  shows "\<exists>s'. pmm_set_alloced a s = Inr s' \<and> pmm_inv s' \<and>
    pmm_cnt s' = (pmm_cnt s)(frame_of a := pmm_cnt s (frame_of a) + 1) \<and>
    pmm_size s' = pmm_size s \<and> pmm_first s' = pmm_first s"
proof -
  let ?k = "get_page_num a" and ?f = "frame_of a" and ?b = "bm_put True (pmm_bitmap s) (frame_of a)"
  have len: "unat ?k < length (pmm_access_count s)"
    using fr inv by (simp add: unat_get_page_num pmm_inv_def)
  have rng: "?f div 32 < length (bm_buff (pmm_bitmap s))"
    using fr inv by (simp add: pmm_inv_def bm_inv_def pmm_size_def less_mult_imp_div_less mult.commute)
  define w where "w = pmm_access_count s ! ?f + 1"
  have uw: "unat w = pmm_cnt s ?f + 1"
    using cb len by (simp add: w_def unat_get_page_num pmm_cnt_def unat_word_ariths)
  define s' where "s' = s\<lparr> pmm_access_count := (pmm_access_count s)[?f := w], pmm_bitmap := ?b \<rparr>"
  have g: "\<not> bm_bits (pmm_bitmap s) \<le> ?k"
    using fr by (simp add: word_le_nat_alt unat_get_page_num pmm_size_def)
  have ex: "pmm_set_alloced a s = Inr s'"
    using len rng by (simp add: pmm_set_alloced_def Let_def g pmm_count_upd_ok bitmap_set_bit_eq
        unat_get_page_num s'_def w_def)
  have cnt: "pmm_cnt s' = (pmm_cnt s)(?f := pmm_cnt s ?f + 1)"
    using pmm_cnt_upd [of ?f s, where w = w and b = ?b] len uw by (simp add: s'_def unat_get_page_num)
  have sz: "pmm_size s' = pmm_size s" "pmm_first s' = pmm_first s"
    by (simp_all add: s'_def pmm_size_def pmm_first_def)
  have "bm_bit ?b i = (pmm_cnt s' i \<noteq> 0)" if "i < pmm_size s" for i
    using that inv rng by (simp add: cnt bm_bit_put pmm_inv_def)
  moreover have "bm_inv ?b" using inv by (simp add: pmm_inv_def bm_inv_def)
  ultimately have "pmm_inv s'" using inv sz unfolding pmm_inv_def by (simp add: s'_def)
  then show ?thesis using ex cnt sz by blast
qed

lemma pmm_free_frame_ok:
  assumes inv: "pmm_inv s" and fr: "frame_of a < pmm_size s" and c0: "0 < pmm_cnt s (frame_of a)"
    and hi: "4096 * 16384 \<le> unat a \<or> 1 < pmm_cnt s (frame_of a)"
  shows "\<exists>s'. pmm_free_frame a s = Inr (pmm_cnt s (frame_of a) = 1, s') \<and> pmm_inv s' \<and>
    pmm_cnt s' = (pmm_cnt s)(frame_of a := pmm_cnt s (frame_of a) - 1) \<and>
    pmm_size s' = pmm_size s \<and> pmm_first s' = pmm_first s"
proof -
  let ?k = "get_page_num a" and ?f = "frame_of a"
  have len: "?f < length (pmm_access_count s)" using fr inv by (simp add: pmm_inv_def)
  have rng: "?f div 32 < length (bm_buff (pmm_bitmap s))"
    using fr inv by (simp add: pmm_inv_def bm_inv_def pmm_size_def less_mult_imp_div_less mult.commute)
  have bit: "bm_bit (pmm_bitmap s) ?f" using c0 fr inv by (simp add: pmm_inv_def)
  define w where "w = pmm_access_count s ! ?f - 1"
  have uw: "unat w = pmm_cnt s ?f - 1"
  proof -
    have "pmm_access_count s ! ?f \<noteq> 0" using c0 len by (auto simp: pmm_cnt_def)
    then have "1 \<le> pmm_access_count s ! ?f" by (simp add: word_le_nat_alt unat_gt_0 Suc_le_eq)
    then show ?thesis using len by (simp add: w_def pmm_cnt_def unat_sub)
  qed
  have w0: "w \<noteq> 0 \<longleftrightarrow> pmm_cnt s ?f \<noteq> 1" using uw c0 by (auto simp: unat_eq_0 [symmetric])
  define b where "b = (if w = 0 then bm_put False (pmm_bitmap s) ?f else pmm_bitmap s)"
  define s' where "s' = s\<lparr> pmm_access_count := (pmm_access_count s)[?f := w], pmm_bitmap := b \<rparr>"
  have as: "w = 0 \<Longrightarrow> KERNEL_END - RAM_VIRTUAL_START \<le> a"
    using hi w0 by (auto simp: KERNEL_END_def KHEAP_END_def RAM_VIRTUAL_START_def word_le_nat_alt)
  have cu: "pmm_count_upd (\<lambda>c. c - 1) ?k s =
      Inr (s\<lparr> pmm_access_count := (pmm_access_count s)[?f := w] \<rparr>)"
    using len by (simp add: pmm_count_upd_ok unat_get_page_num w_def)
  have ex: "pmm_free_frame a s = Inr (pmm_cnt s ?f = 1, s')"
    using as bit w0 len rng
    by (auto simp: pmm_free_frame_def Let_def cu unat_get_page_num bitmap_test_bit_eq
        bitmap_clear_bit_eq s'_def b_def)
  have cnt: "pmm_cnt s' = (pmm_cnt s)(?f := pmm_cnt s ?f - 1)"
    using pmm_cnt_upd [of ?f s, where w = w and b = b] len uw by (simp add: s'_def)
  have bits: "bm_bits b = bm_bits (pmm_bitmap s)" by (simp add: b_def)
  have sz: "pmm_size s' = pmm_size s" "pmm_first s' = pmm_first s"
    by (simp_all add: s'_def pmm_size_def pmm_first_def bits)
  have "bm_bit b i = (pmm_cnt s' i \<noteq> 0)" if "i < pmm_size s" for i
    using that inv rng uw c0 w0 bit by (auto simp: cnt b_def bm_bit_put pmm_inv_def)
  moreover have "bm_inv b" using inv by (simp add: pmm_inv_def bm_inv_def b_def)
  ultimately have "pmm_inv s'" using inv sz unfolding pmm_inv_def by (simp add: s'_def)
  then show ?thesis using ex cnt sz by blast
qed

interpretation fp: frame_pool pmm_inv pmm_cnt pmm_size pmm_first 16384
  pmm_alloc_frame pmm_free_frame pmm_set_alloced
proof
  fix s assume "pmm_inv s" then show "16384 \<le> pmm_first s" by (simp add: pmm_inv_def)
qed (rule pmm_alloc_frame_ok pmm_alloc_frame_full pmm_set_alloced_ok pmm_free_frame_ok; assumption)+

lemma pmm_init_ok: "\<exists>s. pmm_init True True = Inr s \<and> pmm_inv s \<and>
  pmm_size s = 1048575 \<and> pmm_first s = 16385 \<and> (\<forall>i. pmm_cnt s i = 0)"
proof -
  have n: "unat PAGES_COUNT = 1048575" by (simp add: PAGES_COUNT_def TOTAL_RAM_def PAGE_SIZE_def)
  then obtain b where b: "bitmap_init True PAGES_COUNT = Inr b" "bm_inv b" "bm_bits b = PAGES_COUNT"
    using bitmap_init_ok [of True PAGES_COUNT] by auto
  have "unat (bm_bits b) \<le> 32 * length (bm_buff b)" using b(2) by (simp add: bm_inv_def)
  then obtain b' where b': "bm_fill False b 0 (bm_bits b) = Inr b'"
    "bm_filled False b 0 1048575 b'"
    using bm_fill_ok [of "bm_bits b" b False 0] b(3) n by auto
  have fi: "bm_fill False b 0 PAGES_COUNT = Inr b'" using b'(1) b(3) by simp
  let ?s = "\<lparr> pmm_bitmap = b', pmm_access_count = replicate (unat PAGES_COUNT) 0,
      pmm_alloc_frame_start_addr = 16385 \<rparr>"
  have st: "get_page_num (KERNEL_END - RAM_VIRTUAL_START + 4096) = 16385"
    by (simp add: get_page_num_def KERNEL_END_def KHEAP_END_def RAM_VIRTUAL_START_def)
  have le: "RAM_VIRTUAL_START \<le> KERNEL_END"
    by (simp add: KERNEL_END_def KHEAP_END_def RAM_VIRTUAL_START_def)
  have "pmm_init True True = Inr ?s"
    using st le by (simp add: pmm_init_def b fi bitmap_clear_interval_def ram_kernel_to_phys_def)
  moreover have "pmm_cnt ?s i = 0" for i by (simp add: pmm_cnt_def)
  moreover have "pmm_size ?s = 1048575"
    using b' b(3) n by (simp add: pmm_size_def bm_filled_def)
  moreover have "pmm_first ?s = 16385" by (simp add: pmm_first_def)
  moreover have "bm_inv b'" using b(2) bm_filled_inv [OF b'(2)] by simp
  moreover have "\<not> bm_bit b' i" if "i < 1048575" for i
    using b'(2) that by (simp add: bm_filled_def)
  ultimately have "pmm_init True True = Inr ?s \<and> pmm_inv ?s \<and>
    pmm_size ?s = 1048575 \<and> pmm_first ?s = 16385 \<and> (\<forall>i. pmm_cnt ?s i = 0)"
    by (simp add: pmm_inv_def n)
  then show ?thesis by (rule exI)
qed

section \<open>Properties\<close>

text \<open>The state \<open>pmm_init\<close> leaves.\<close>

definition pmm0 :: pmm_t where
  "pmm0 = (case pmm_init True True of Inr s \<Rightarrow> s | Inl e \<Rightarrow> undefined)"

lemma pmm0_facts: "pmm_inv pmm0" "pmm_size pmm0 = 1048575" "pmm_first pmm0 = 16385" "pmm_cnt pmm0 i = 0"
  using pmm_init_ok by (auto simp: pmm0_def)

text \<open>a frame allocation succeeds while some frame above the kernel is unused; it returns the
  page-aligned address of an unused frame above the kernel's memory, whose counter becomes 1, and
  no other counter changes.\<close>

lemma pmm_alloc_frame_fresh:
  assumes "pmm_inv s" "pmm_first s \<le> i" "i < pmm_size s" "pmm_cnt s i = 0"
  shows "\<exists>a s'. pmm_alloc_frame s = Inr (a, s') \<and> pmm_inv s' \<and> unat a mod 4096 = 0 \<and>
    unat (KERNEL_END - RAM_VIRTUAL_START) \<le> unat a \<and> pmm_cnt s (frame_of a) = 0 \<and>
    pmm_cnt s' = (pmm_cnt s)(frame_of a := 1)"
proof -
  obtain a s' where a: "pmm_alloc_frame s = Inr (a, s')" using fp.alloc_total [OF assms] by blast
  note A = pmm_alloc_frame_ok [OF assms(1) a]
  have "16384 \<le> frame_of a" using A assms(1) by (simp add: pmm_inv_def)
  then have "unat (KERNEL_END - RAM_VIRTUAL_START) \<le> unat a"
    using A by (simp add: KERNEL_END_def KHEAP_END_def RAM_VIRTUAL_START_def)
  then show ?thesis using a A by (intro exI [of _ a] exI [of _ s']) auto
qed

lemma pmm_alloc_frame_fresh_witness:
  "\<exists>a s'. pmm_alloc_frame pmm0 = Inr (a, s') \<and> pmm_inv s' \<and> unat a mod 4096 = 0 \<and>
    unat (KERNEL_END - RAM_VIRTUAL_START) \<le> unat a \<and> pmm_cnt pmm0 (frame_of a) = 0 \<and>
    pmm_cnt s' = (pmm_cnt pmm0)(frame_of a := 1)"
  by (rule pmm_alloc_frame_fresh [of _ 20000]) (simp_all add: pmm0_facts)

text \<open>the frames of successive allocations are pairwise distinct and none was in use before.\<close>

lemma pmm_allocs_distinct:
  assumes "pmm_inv s" "alloc_many pmm_alloc_frame n s = Inr (as, s')"
  shows "length as = n \<and> distinct (map frame_of as) \<and> (\<forall>a \<in> set as. pmm_cnt s (frame_of a) = 0) \<and>
    (\<forall>i. pmm_cnt s' i = (if i \<in> frame_of ` set as then 1 else pmm_cnt s i)) \<and> pmm_inv s'"
  using fp.alloc_many_distinct [OF assms] by blast

definition pmm_two :: "u32 list \<times> pmm_t" where
  "pmm_two = (case alloc_many pmm_alloc_frame 2 pmm0 of Inr r \<Rightarrow> r | Inl e \<Rightarrow> undefined)"

lemma pmm_two_run: "alloc_many pmm_alloc_frame 2 pmm0 = Inr (fst pmm_two, snd pmm_two)"
proof -
  obtain a s1 where a: "pmm_alloc_frame pmm0 = Inr (a, s1)"
    using fp.alloc_total [OF pmm0_facts(1), of 20000] by (auto simp: pmm0_facts)
  note A = pmm_alloc_frame_ok [OF pmm0_facts(1) a]
  define i :: nat where "i = (if frame_of a = 20000 then 20001 else 20000)"
  then have "i = 20000 \<or> i = 20001" "i \<noteq> frame_of a" by auto
  then obtain b s2 where "pmm_alloc_frame s1 = Inr (b, s2)"
    using fp.alloc_total [of s1 i] A pmm0_facts by auto
  then show ?thesis by (simp add: pmm_two_def numeral_2_eq_2 a)
qed

lemma pmm_allocs_distinct_witness:
  "\<exists>as s'. alloc_many pmm_alloc_frame 2 pmm0 = Inr (as, s') \<and>
   length as = 2 \<and> distinct (map frame_of as) \<and> (\<forall>a \<in> set as. pmm_cnt pmm0 (frame_of a) = 0) \<and>
   (\<forall>i. pmm_cnt s' i = (if i \<in> frame_of ` set as then 1 else pmm_cnt pmm0 i)) \<and> pmm_inv s'"
  by (intro exI, rule conjI [OF pmm_two_run pmm_allocs_distinct]) (rule pmm0_facts(1), rule pmm_two_run)

text \<open>freeing a frame in use removes one reference; it reports \<open>true\<close> and returns the frame to
  the pool exactly when that was the last one.\<close>

lemma pmm_free_frame_last:
  assumes "pmm_inv s" "frame_of a < pmm_size s" "0 < pmm_cnt s (frame_of a)"
    and "unat (KERNEL_END - RAM_VIRTUAL_START) \<le> unat a \<or> 1 < pmm_cnt s (frame_of a)"
  shows "\<exists>s'. pmm_free_frame a s = Inr (pmm_cnt s (frame_of a) = 1, s') \<and> pmm_inv s' \<and>
    pmm_cnt s' = (pmm_cnt s)(frame_of a := pmm_cnt s (frame_of a) - 1) \<and>
    bm_bit (pmm_bitmap s') (frame_of a) = (1 < pmm_cnt s (frame_of a))"
proof -
  have "4096 * 16384 \<le> unat a \<or> 1 < pmm_cnt s (frame_of a)"
    using assms(4) by (simp add: KERNEL_END_def KHEAP_END_def RAM_VIRTUAL_START_def)
  then obtain s' where s': "pmm_free_frame a s = Inr (pmm_cnt s (frame_of a) = 1, s')" "pmm_inv s'"
    "pmm_cnt s' = (pmm_cnt s)(frame_of a := pmm_cnt s (frame_of a) - 1)" "pmm_size s' = pmm_size s"
    using pmm_free_frame_ok [OF assms(1-3)] by blast
  then have "bm_bit (pmm_bitmap s') (frame_of a) = (1 < pmm_cnt s (frame_of a))"
    using assms(2) by (auto simp: pmm_inv_def)
  then show ?thesis using s' by blast
qed

lemma pmm_free_frame_last_witness:
  "\<exists>s'. pmm_free_frame (hd (fst pmm_two)) (snd pmm_two) =
      Inr (pmm_cnt (snd pmm_two) (frame_of (hd (fst pmm_two))) = 1, s') \<and> pmm_inv s' \<and>
    pmm_cnt s' = (pmm_cnt (snd pmm_two))(frame_of (hd (fst pmm_two)) :=
      pmm_cnt (snd pmm_two) (frame_of (hd (fst pmm_two))) - 1) \<and>
    bm_bit (pmm_bitmap s') (frame_of (hd (fst pmm_two))) =
      (1 < pmm_cnt (snd pmm_two) (frame_of (hd (fst pmm_two))))"
proof -
  note D = fp.alloc_many_distinct [OF pmm0_facts(1) pmm_two_run]
  let ?a = "hd (fst pmm_two)" and ?s = "snd pmm_two"
  have a: "?a \<in> set (fst pmm_two)" using D by (cases "fst pmm_two") auto
  then have c: "pmm_cnt ?s (frame_of ?a) = 1" using D by auto
  then have sz: "frame_of ?a < pmm_size ?s"
    using D by (auto simp: pmm_cnt_def pmm_inv_def split: if_splits)
  obtain b s1 where b: "pmm_alloc_frame pmm0 = Inr (b, s1)"
    using pmm_two_run by (auto simp: numeral_2_eq_2 rbind_eq_Inr)
  then have "?a = b" using pmm_two_run
    by (clarsimp simp: numeral_2_eq_2 rbind_eq_Inr) (metis fst_conv list.sel(1))
  then have "unat (KERNEL_END - RAM_VIRTUAL_START) \<le> unat ?a"
    using pmm_alloc_frame_ok [OF pmm0_facts(1) b] pmm0_facts(3)
    by (simp add: KERNEL_END_def KHEAP_END_def RAM_VIRTUAL_START_def)
  then show ?thesis using D c sz by (intro pmm_free_frame_last) auto
qed

end
