(* ===== verification/Paging.thy ===== *)
theory Paging
  imports Pmm
begin

text \<open>
  Two-level page tables, \<^verbatim>\<open>src/src/arch/paging.c\<close> and \<^verbatim>\<open>paging.h\<close>.  A page
  directory and its tables are containers of 1024 entries in the kernel heap; the state holds
  them by virtual address, beside the frame pool and the bytes of physical memory that data
  pages occupy.  \<open>vm_pool\<close> lists the aligned blocks \<open>alligned_malloc\<close> returns next,
  with the bytes found in them.  The TLB is not part of the state: each update of an entry is
  followed by \<open>invlpg\<close> of its page.

  The abstract view is the page walk \<open>pg_entry\<close>: a partial map from page numbers to entries.
  The lemmas give the effect of every operation on this map, on the reference counts of the
  frames, and on the tables themselves.
\<close>

unbundle bit_operations_syntax

section \<open>State\<close>

record vm_t =
  vm_pmm :: pmm_t
  vm_mem :: "u32 \<Rightarrow> u32 list option"
  vm_pool :: "(u32 \<times> u32 list) list"
  vm_ram :: "u32 \<Rightarrow> u8"

record page_dict_t =
  page_dir :: u32

definition PAGE_PRESENT :: u32 where "PAGE_PRESENT = 1"
definition PAGE_RW :: u32 where "PAGE_RW = 2"
definition PAGE_USER :: u32 where "PAGE_USER = 4"
definition PAGE_WRITETHROUGH :: u32 where "PAGE_WRITETHROUGH = 8"
definition PAGE_CACHE_DISABLE :: u32 where "PAGE_CACHE_DISABLE = 16"
definition PAGE_WRITE_COMBINE :: u32 where "PAGE_WRITE_COMBINE = 128"
definition PAGE_KERNEL_FLAGS :: u32 where "PAGE_KERNEL_FLAGS = PAGE_PRESENT OR PAGE_RW"
definition PAGE_USER_FLAGS :: u32 where "PAGE_USER_FLAGS = PAGE_PRESENT OR PAGE_USER OR PAGE_RW"

definition PD_INDEX :: "u32 \<Rightarrow> nat" where "PD_INDEX va = unat (drop_bit 22 va AND 1023)"
definition PT_INDEX :: "u32 \<Rightarrow> nat" where "PT_INDEX va = unat (drop_bit 12 va AND 1023)"
definition OFFSET :: "u32 \<Rightarrow> u32" where "OFFSET va = va AND 4095"
definition PAGE_ADDR :: "u32 \<Rightarrow> u32" where "PAGE_ADDR e = e AND NOT 4095"
definition PAGE_FLAGS :: "u32 \<Rightarrow> u32" where "PAGE_FLAGS e = e AND 4095"

definition present :: "u32 \<Rightarrow> bool" where "present e = (e AND PAGE_PRESENT \<noteq> 0)"

definition page_get_num :: "u32 \<Rightarrow> u32" where
  "page_get_num n = drop_bit 12 (n + 4095)"

definition page_alligned_left :: "u32 \<Rightarrow> u32" where
  "page_alligned_left addr = addr AND NOT 4095"

section \<open>Containers\<close>

definition pc_read :: "u32 \<Rightarrow> nat \<Rightarrow> vm_t \<Rightarrow> u32 res" where
  "pc_read c i st = (case vm_mem st c of
      Some d \<Rightarrow> if i < length d then Inr (d ! i) else Inl Out_Of_Bounds
    | None \<Rightarrow> Inl Out_Of_Bounds)"

definition pc_write :: "u32 \<Rightarrow> nat \<Rightarrow> u32 \<Rightarrow> vm_t \<Rightarrow> vm_t res" where
  "pc_write c i e st = (case vm_mem st c of
      Some d \<Rightarrow> if i < length d then Inr (st\<lparr> vm_mem := (vm_mem st)(c \<mapsto> d[i := e]) \<rparr>)
                else Inl Out_Of_Bounds
    | None \<Rightarrow> Inl Out_Of_Bounds)"

definition zero_page :: "u32 list" where "zero_page = replicate 1024 0"

definition page_container_create :: "bool \<Rightarrow> vm_t \<Rightarrow> (u32 \<times> vm_t) res" where
  "page_container_create clean st = (case vm_pool st of
      [] \<Rightarrow> if clean then Inl (Undefined ''memset of NULL'') else Inr (0, st)
    | (v, g) # rest \<Rightarrow>
        Inr (v, st\<lparr> vm_mem := (vm_mem st)(v \<mapsto> (if clean then zero_page else g)),
                   vm_pool := rest \<rparr>))"

definition page_container_copy :: "u32 \<Rightarrow> u32 \<Rightarrow> vm_t \<Rightarrow> vm_t res" where
  "page_container_copy dst src st = (case (vm_mem st dst, vm_mem st src) of
      (Some d, Some s) \<Rightarrow> Inr (st\<lparr> vm_mem := (vm_mem st)(dst \<mapsto> s) \<rparr>)
    | _ \<Rightarrow> Inl Out_Of_Bounds)"

definition page_container_destroy :: "u32 \<Rightarrow> vm_t \<Rightarrow> vm_t" where
  "page_container_destroy c st = st\<lparr> vm_mem := (vm_mem st)(c := None) \<rparr>"

text \<open>A call into the physical memory manager.\<close>

definition with_pmm :: "(pmm_t \<Rightarrow> pmm_t res) \<Rightarrow> vm_t \<Rightarrow> vm_t res" where
  "with_pmm f st = rbind (f (vm_pmm st)) (\<lambda>p. Inr (st\<lparr> vm_pmm := p \<rparr>))"

definition pmm_drop_frame :: "u32 \<Rightarrow> pmm_t \<Rightarrow> pmm_t res" where
  "pmm_drop_frame a p = rbind (pmm_free_frame a p) (\<lambda>r. Inr (snd r))"

text \<open>The loop over the present entries of a table.\<close>

definition pt_each :: "(u32 \<Rightarrow> pmm_t \<Rightarrow> pmm_t res) \<Rightarrow> u32 \<Rightarrow> nat \<Rightarrow> vm_t \<Rightarrow> vm_t res" where
  "pt_each f c j st = rbind (pc_read c j st) (\<lambda>e.
     if present e then with_pmm (f (PAGE_ADDR e)) st else Inr st)"

definition page_table_set_copied :: "u32 \<Rightarrow> vm_t \<Rightarrow> vm_t res" where
  "page_table_set_copied c st = rfor (pt_each pmm_set_alloced c) 0 1024 st"

definition page_table_destroy :: "u32 \<Rightarrow> vm_t \<Rightarrow> vm_t res" where
  "page_table_destroy c st =
    rbind (rfor (pt_each pmm_drop_frame c) 0 1024 st) (\<lambda>st. Inr (page_container_destroy c st))"

definition page_table_copy :: "u32 \<Rightarrow> u32 \<Rightarrow> vm_t \<Rightarrow> vm_t res" where
  "page_table_copy dst src st =
    rbind (page_container_copy dst src st) (\<lambda>st.
    rfor (pt_each pmm_set_alloced dst) 0 1024 st)"

section \<open>Directories\<close>

text \<open>\<open>got\<close>: the \<open>malloc\<close> of the directory object; its field is written without a test.\<close>

definition page_dict_create :: "bool \<Rightarrow> vm_t \<Rightarrow> (page_dict_t \<times> vm_t) res" where
  "page_dict_create got st =
    rbind (page_container_create True st) (\<lambda>(c, st).
    rbind (rguard got (Undefined ''write to NULL'')) (\<lambda>_. Inr (\<lparr> page_dir = c \<rparr>, st)))"

definition get_or_create_table :: "page_dict_t \<Rightarrow> nat \<Rightarrow> u32 \<Rightarrow> vm_t \<Rightarrow> (u32 \<times> vm_t) res" where
  "get_or_create_table pd pd_id flags st =
    rbind (pc_read (page_dir pd) pd_id st) (\<lambda>entry.
    if present entry then rbind (ram_kernel_to_virt (PAGE_ADDR entry)) (\<lambda>v. Inr (v, st))
    else
      rbind (page_container_create True st) (\<lambda>(new_table, st).
      rbind (ram_kernel_to_phys new_table) (\<lambda>ph.
      rbind (pc_write (page_dir pd) pd_id (ph OR flags OR PAGE_PRESENT OR PAGE_RW) st) (\<lambda>st.
      Inr (new_table, st)))))"

definition page_dict_map_page :: "page_dict_t \<Rightarrow> u32 \<Rightarrow> u32 \<Rightarrow> vm_t \<Rightarrow> vm_t res" where
  "page_dict_map_page pd virt flags st =
    rbind (get_or_create_table pd (PD_INDEX virt) flags st) (\<lambda>(page_table, st).
    rbind (pmm_alloc_frame (vm_pmm st)) (\<lambda>(frame_phys, p).
    pc_write page_table (PT_INDEX virt) (frame_phys OR flags OR PAGE_PRESENT OR PAGE_RW)
      (st\<lparr> vm_pmm := p \<rparr>)))"

definition page_dict_map_interval :: "page_dict_t \<Rightarrow> u32 \<Rightarrow> u32 \<Rightarrow> u32 \<Rightarrow> vm_t \<Rightarrow> vm_t res" where
  "page_dict_map_interval pd virt_start sz flags st =
    (let virt_aligned = page_alligned_left virt_start;
         offset = virt_start - virt_aligned;
         page_count = page_get_num (offset + sz)
     in rfor (\<lambda>i. page_dict_map_page pd (virt_aligned + of_nat i * PAGE_SIZE) flags)
          0 (unat page_count) st)"

definition page_dict_map_page_to_phys ::
  "page_dict_t \<Rightarrow> u32 \<Rightarrow> u32 \<Rightarrow> u32 \<Rightarrow> vm_t \<Rightarrow> vm_t res" where
  "page_dict_map_page_to_phys pd virt phys flags st =
    rbind (get_or_create_table pd (PD_INDEX virt) flags st) (\<lambda>(page_table, st).
    rbind (with_pmm (pmm_set_alloced phys) st) (\<lambda>st.
    pc_write page_table (PT_INDEX virt) (phys OR flags OR PAGE_PRESENT) st))"

definition page_dict_map_interval_to_phys ::
  "page_dict_t \<Rightarrow> u32 \<Rightarrow> u32 \<Rightarrow> u32 \<Rightarrow> u32 \<Rightarrow> vm_t \<Rightarrow> vm_t res" where
  "page_dict_map_interval_to_phys pd virt_start phys_start sz flags st =
    (let phys_aligned = page_alligned_left phys_start;
         offset = phys_start - phys_aligned;
         page_count = page_get_num (offset + sz);
         virt_aligned = page_alligned_left virt_start
     in if offset \<noteq> virt_start - virt_aligned then Inl (Panic ''BAD ADDRS OFFSET'')
        else rfor (\<lambda>i. page_dict_map_page_to_phys pd (virt_aligned + of_nat i * PAGE_SIZE)
                    (phys_aligned + of_nat i * PAGE_SIZE) flags) 0 (unat page_count) st)"

definition page_dict_unmap_page :: "page_dict_t \<Rightarrow> u32 \<Rightarrow> vm_t \<Rightarrow> vm_t res" where
  "page_dict_unmap_page pd virt st =
    rbind (pc_read (page_dir pd) (PD_INDEX virt) st) (\<lambda>entry.
    rbind (rguard (present entry) (Panic ''BAD UNMAP PAGE'')) (\<lambda>_.
    rbind (ram_kernel_to_virt (PAGE_ADDR entry)) (\<lambda>pt.
    rbind (pc_read pt (PT_INDEX virt) st) (\<lambda>page_entry.
    if \<not> present page_entry then Inr st
    else rbind (with_pmm (pmm_drop_frame (PAGE_ADDR page_entry)) st) (\<lambda>st.
         pc_write pt (PT_INDEX virt) 0 st)))))"

definition page_dict_unmap_interval :: "page_dict_t \<Rightarrow> u32 \<Rightarrow> u32 \<Rightarrow> vm_t \<Rightarrow> vm_t res" where
  "page_dict_unmap_interval pd virt_start sz st =
    (let virt_aligned = page_alligned_left virt_start;
         offset = virt_start - virt_aligned;
         page_count = page_get_num (offset + sz)
     in rfor (\<lambda>i. page_dict_unmap_page pd (virt_aligned + of_nat i * PAGE_SIZE))
          0 (unat page_count) st)"

definition page_dict_destroy :: "page_dict_t \<Rightarrow> vm_t \<Rightarrow> vm_t res" where
  "page_dict_destroy pd st =
    rbind (rfor (\<lambda>pd_idx st.
        rbind (pc_read (page_dir pd) pd_idx st) (\<lambda>entry.
        if \<not> present entry then Inr st
        else rbind (ram_kernel_to_virt (PAGE_ADDR entry)) (\<lambda>pt. page_table_destroy pt st)))
      0 1024 st) (\<lambda>st. Inr (page_container_destroy (page_dir pd) st))"

definition page_dict_copy_entry :: "page_dict_t \<Rightarrow> page_dict_t \<Rightarrow> nat \<Rightarrow> vm_t \<Rightarrow> vm_t res" where
  "page_dict_copy_entry dst src pd_idx st =
    rbind (pc_read (page_dir src) pd_idx st) (\<lambda>entry.
    if \<not> present entry then Inr st
    else
      rbind (ram_kernel_to_virt (PAGE_ADDR entry)) (\<lambda>src_table.
      rbind (page_container_create False st) (\<lambda>(new_table, st).
      rbind (page_table_copy new_table src_table st) (\<lambda>st.
      rbind (ram_kernel_to_phys new_table) (\<lambda>ph.
      pc_write (page_dir dst) pd_idx (ph OR PAGE_FLAGS entry) st)))))"

definition page_dict_copy :: "page_dict_t \<Rightarrow> page_dict_t \<Rightarrow> vm_t \<Rightarrow> vm_t res" where
  "page_dict_copy dst src st = rfor (page_dict_copy_entry dst src) 0 1024 st"

definition page_dict_vaddr_to_phys :: "page_dict_t \<Rightarrow> u32 \<Rightarrow> vm_t \<Rightarrow> u32 res" where
  "page_dict_vaddr_to_phys pd virt st =
    rbind (pc_read (page_dir pd) (PD_INDEX virt) st) (\<lambda>dir_entry.
    rbind (rguard (present dir_entry) (Assertion ''dir_entry & PAGE_PRESENT'')) (\<lambda>_.
    rbind (ram_kernel_to_virt (PAGE_ADDR dir_entry)) (\<lambda>pt.
    rbind (pc_read pt (PT_INDEX virt) st) (\<lambda>pt_entry.
    rbind (rguard (present pt_entry) (Assertion ''pt_entry & PAGE_PRESENT'')) (\<lambda>_.
    Inr (PAGE_ADDR pt_entry + OFFSET virt))))))"

definition page_dict_switch :: "page_dict_t \<Rightarrow> u32 res" where
  "page_dict_switch pd = ram_kernel_to_phys (page_dir pd)"

section \<open>Address arithmetic\<close>

lemma mask12: "(4095 :: u32) = mask 12"
  by (simp add: mask_eq_decr_exp)

lemma PD_INDEX_page: "PD_INDEX va = frame_of va div 1024"
proof -
  have "unat (drop_bit 22 va) = unat va div 2 ^ 22"
    using unat_drop_bit_eq [of 22 va] by (simp only: drop_bit_eq_div)
  moreover have "unat va div 2 ^ 22 < 1024" using unat_less_2p32 [of va] by simp
  moreover have "unat (x AND 1023 :: u32) = unat x mod 1024" for x
    using unat_and_pow2 [of 1024 x] by (simp add: pow2w_def)
  ultimately show ?thesis by (simp only: PD_INDEX_def frame_of_def) (simp flip: div_mult2_eq)
qed

lemma PT_INDEX_page: "PT_INDEX va = frame_of va mod 1024"
proof -
  have "unat (x AND 1023 :: u32) = unat x mod 1024" for x
    using unat_and_pow2 [of 1024 x] by (simp add: pow2w_def)
  then show ?thesis by (simp only: PT_INDEX_def frame_of_def unat_drop12)
qed

lemma frame_of_less: "frame_of a < 2 ^ 20"
  using unat_less_2p32 [of a] by (simp add: frame_of_def)

lemma PD_INDEX_less: "PD_INDEX va < 1024" and PT_INDEX_less: "PT_INDEX va < 1024"
  using frame_of_less [of va] by (simp_all add: PD_INDEX_page PT_INDEX_page)

lemma page_index_split: "1024 * PD_INDEX va + PT_INDEX va = frame_of va"
  by (simp add: PD_INDEX_page PT_INDEX_page)

definition aligned_page :: "u32 \<Rightarrow> bool" where "aligned_page a = (a AND 4095 = 0)"

definition flag_bits :: "u32 \<Rightarrow> bool" where "flag_bits f = (f AND NOT 4095 = 0)"

lemma aligned_page_addr: "aligned_page a \<Longrightarrow> PAGE_ADDR a = a"
proof -
  assume a: "aligned_page a"
  have "a = (a AND 4095) OR (a AND NOT 4095)" by (simp only: flip: bit.conj_disj_distrib) simp
  with a show ?thesis by (simp only: aligned_page_def PAGE_ADDR_def) simp
qed

lemma PAGE_ADDR_or: "PAGE_ADDR (a OR b) = PAGE_ADDR a OR PAGE_ADDR b"
  by (simp only: PAGE_ADDR_def bit.conj_disj_distrib2)

lemma PAGE_ADDR_flags: "flag_bits f \<Longrightarrow> PAGE_ADDR f = 0"
  by (simp only: flag_bits_def PAGE_ADDR_def)

lemma flag_bits_consts: "flag_bits PAGE_PRESENT" "flag_bits PAGE_RW" "flag_bits PAGE_KERNEL_FLAGS"
  "flag_bits PAGE_USER_FLAGS"
  by (simp_all add: flag_bits_def PAGE_PRESENT_def PAGE_RW_def PAGE_KERNEL_FLAGS_def
      PAGE_USER_FLAGS_def PAGE_USER_def)

lemma present_or: "present (a OR b) = (present a \<or> present b)"
  by (auto simp: present_def bit.conj_disj_distrib2 or_eq_0_iff)

lemma present_PRESENT: "present PAGE_PRESENT"
  by (simp add: present_def PAGE_PRESENT_def)

lemma entry_addr:
  assumes "aligned_page a" "flag_bits f"
  shows "PAGE_ADDR (a OR f OR PAGE_PRESENT OR PAGE_RW) = a" "PAGE_ADDR (a OR f OR PAGE_PRESENT) = a"
    "present (a OR f OR PAGE_PRESENT OR PAGE_RW)" "present (a OR f OR PAGE_PRESENT)"
  using assms by (simp_all only: PAGE_ADDR_or aligned_page_addr PAGE_ADDR_flags flag_bits_consts
      or.right_neutral present_or present_PRESENT simp_thms)

lemma unat_PAGE_ADDR: "unat (PAGE_ADDR e) = 4096 * frame_of e"
proof -
  have "PAGE_ADDR e = push_bit 12 (drop_bit 12 e)"
    unfolding PAGE_ADDR_def mask12
    by (rule bit_word_eqI) (auto simp only: bit_simps le_add_diff_inverse comp_apply not_less)
  then have "PAGE_ADDR e + take_bit 12 e = e" by (simp only: bits_ident)
  then have "PAGE_ADDR e = e - take_bit 12 e" by (metis add_diff_cancel_right')
  moreover have t: "unat (take_bit 12 e) = unat e mod 4096"
    using unsigned_take_bit_eq [of 12 e, where 'a = nat] by (simp add: take_bit_eq_mod)
  moreover have "unat (take_bit 12 e) \<le> unat e" using t by simp
  ultimately show ?thesis
    by (simp add: unat_sub word_le_nat_alt t frame_of_def minus_mod_eq_mult_div)
qed

lemma frame_of_PAGE_ADDR [simp]: "frame_of (PAGE_ADDR e) = frame_of e"
  using unat_PAGE_ADDR [of e] by (simp add: frame_of_def [of "PAGE_ADDR e"])

lemma aligned_page_iff: "aligned_page a \<longleftrightarrow> unat a = 4096 * frame_of a"
proof -
  have "unat (a AND 4095 :: u32) = unat a mod 4096"
    using unat_and_pow2 [of 4096 a] by (simp add: pow2w_def)
  then have "aligned_page a \<longleftrightarrow> unat a mod 4096 = 0"
    by (simp add: aligned_page_def flip: unat_eq_0)
  moreover have "unat a mod 4096 = 0 \<longleftrightarrow> unat a = 4096 * (unat a div 4096)"
    using mult_div_mod_eq [of 4096 "unat a"] by linarith
  ultimately show ?thesis by (simp only: frame_of_def)
qed

section \<open>The page walk and well-formed directories\<close>

type_synonym containers = "u32 \<Rightarrow> u32 list option"

definition tbl_of :: "u32 \<Rightarrow> u32" where
  "tbl_of e = PAGE_ADDR e + RAM_VIRTUAL_START"

definition pick :: "u32 list option \<Rightarrow> nat \<Rightarrow> u32 option" where
  "pick c i = (case c of Some d \<Rightarrow> if present (d ! i) then Some (d ! i) else None | None \<Rightarrow> None)"

definition dir_lookup :: "page_dict_t \<Rightarrow> containers \<Rightarrow> nat \<Rightarrow> u32 option" where
  "dir_lookup pd mem i = pick (mem (page_dir pd)) i"

definition pg_entry :: "page_dict_t \<Rightarrow> containers \<Rightarrow> nat \<Rightarrow> u32 option" where
  "pg_entry pd mem n =
    (if n < 2 ^ 20 then
       case dir_lookup pd mem (n div 1024) of
         Some e \<Rightarrow> pick (mem (tbl_of e)) (n mod 1024)
       | None \<Rightarrow> None
     else None)"

definition full_container :: "u32 list option \<Rightarrow> bool" where
  "full_container c = (\<exists>d. c = Some d \<and> length d = 1024)"

definition tbl_wf :: "page_dict_t \<Rightarrow> containers \<Rightarrow> u32 \<Rightarrow> bool" where
  "tbl_wf pd mem e = (PAGE_ADDR e \<le> KERNEL_END - RAM_VIRTUAL_START \<and> tbl_of e \<noteq> page_dir pd \<and>
     full_container (mem (tbl_of e)))"

definition pd_wf :: "page_dict_t \<Rightarrow> containers \<Rightarrow> bool" where
  "pd_wf pd mem =
    (full_container (mem (page_dir pd)) \<and>
     (\<forall>i < 1024. \<forall>e. dir_lookup pd mem i = Some e \<longrightarrow> tbl_wf pd mem e) \<and>
     (\<forall>i < 1024. \<forall>j < 1024. \<forall>e e'. i \<noteq> j \<longrightarrow> dir_lookup pd mem i = Some e \<longrightarrow>
        dir_lookup pd mem j = Some e' \<longrightarrow> tbl_of e \<noteq> tbl_of e'))"

definition conts :: "page_dict_t \<Rightarrow> containers \<Rightarrow> u32 set" where
  "conts pd mem = insert (page_dir pd) {tbl_of e | e i. i < 1024 \<and> dir_lookup pd mem i = Some e}"

definition block_ok :: "u32 \<Rightarrow> bool" where
  "block_ok v = (aligned_page v \<and> RAM_VIRTUAL_START \<le> v \<and> v \<le> KERNEL_END)"

definition pool_ok :: "vm_t \<Rightarrow> bool" where
  "pool_ok st = (distinct (map fst (vm_pool st)) \<and>
     (\<forall>(v, g) \<in> set (vm_pool st). block_ok v \<and> vm_mem st v = None \<and> length g = 1024))"

lemma pool_okD: "pool_ok st \<Longrightarrow> (v, g) \<in> set (vm_pool st) \<Longrightarrow>
  block_ok v \<and> vm_mem st v = None \<and> length g = 1024"
  by (auto simp: pool_ok_def)

definition pool_addrs :: "vm_t \<Rightarrow> u32 set" where
  "pool_addrs st = fst ` set (vm_pool st)"

text \<open>What an operation on \<open>pd\<close> leaves alone: every container of another directory.\<close>

definition vm_framed :: "page_dict_t \<Rightarrow> vm_t \<Rightarrow> vm_t \<Rightarrow> bool" where
  "vm_framed pd st st' =
    ((\<forall>c. c \<notin> conts pd (vm_mem st) \<longrightarrow> c \<notin> pool_addrs st \<longrightarrow> vm_mem st' c = vm_mem st c) \<and>
     conts pd (vm_mem st') \<subseteq> conts pd (vm_mem st) \<union> pool_addrs st \<and>
     pool_addrs st' \<subseteq> pool_addrs st)"

lemma vm_framed_refl: "vm_framed pd st st"
  by (simp add: vm_framed_def)

lemma vm_framed_trans: "vm_framed pd a b \<Longrightarrow> vm_framed pd b c \<Longrightarrow> vm_framed pd a c"
proof -
  assume ab: "vm_framed pd a b" and bc: "vm_framed pd b c"
  have sub: "conts pd (vm_mem b) \<subseteq> conts pd (vm_mem a) \<union> pool_addrs a" "pool_addrs b \<subseteq> pool_addrs a"
    using ab by (simp_all add: vm_framed_def)
  have "vm_mem c x = vm_mem a x" if "x \<notin> conts pd (vm_mem a)" "x \<notin> pool_addrs a" for x
  proof -
    have "x \<notin> conts pd (vm_mem b)" "x \<notin> pool_addrs b" using that sub by auto
    then have "vm_mem c x = vm_mem b x" using bc by (simp add: vm_framed_def)
    then show ?thesis using that ab by (simp add: vm_framed_def)
  qed
  moreover have "conts pd (vm_mem c) \<subseteq> conts pd (vm_mem a) \<union> pool_addrs a"
    using bc sub by (auto simp: vm_framed_def)
  moreover have "pool_addrs c \<subseteq> pool_addrs a" using bc sub by (auto simp: vm_framed_def)
  ultimately show ?thesis by (simp add: vm_framed_def)
qed

lemma pick_update:
  "length d = 1024 \<Longrightarrow> i < 1024 \<Longrightarrow> j < 1024 \<Longrightarrow>
   pick (Some (d[i := e])) j = (if i = j then (if present e then Some e else None) else pick (Some d) j)"
  by (simp add: pick_def)

lemma nth_zero_page: "i < n \<Longrightarrow> replicate n (0 :: u32) ! i = 0"
  by simp

lemma length_zero_page [simp]: "length zero_page = 1024"
  unfolding zero_page_def by (rule length_replicate)

lemma pick_zeros [simp]: "i < 1024 \<Longrightarrow> pick (Some zero_page) i = None"
  unfolding pick_def option.case zero_page_def by (simp only: nth_zero_page) (simp add: present_def)

lemma pd_wf_dir: "pd_wf pd mem \<Longrightarrow> \<exists>d. mem (page_dir pd) = Some d \<and> length d = 1024"
  by (simp add: pd_wf_def full_container_def)

lemma pd_wf_tbl: "pd_wf pd mem \<Longrightarrow> i < 1024 \<Longrightarrow> dir_lookup pd mem i = Some e \<Longrightarrow> tbl_wf pd mem e"
  by (simp add: pd_wf_def)

lemma pd_wf_inj:
  "pd_wf pd mem \<Longrightarrow> i < 1024 \<Longrightarrow> j < 1024 \<Longrightarrow> dir_lookup pd mem i = Some e \<Longrightarrow>
   dir_lookup pd mem j = Some e' \<Longrightarrow> tbl_of e = tbl_of e' \<Longrightarrow> i = j"
  unfolding pd_wf_def by blast

lemma pc_read_ok: "vm_mem st c = Some d \<Longrightarrow> i < length d \<Longrightarrow> pc_read c i st = Inr (d ! i)"
  by (simp add: pc_read_def)

lemma pc_write_ok: "vm_mem st c = Some d \<Longrightarrow> i < length d \<Longrightarrow>
   pc_write c i e st = Inr (st\<lparr> vm_mem := (vm_mem st)(c \<mapsto> d[i := e]) \<rparr>)"
  by (simp add: pc_write_def)

lemma tbl_virt: "tbl_wf pd mem e \<Longrightarrow> ram_kernel_to_virt (PAGE_ADDR e) = Inr (tbl_of e)"
  by (simp add: tbl_wf_def ram_kernel_to_virt_def tbl_of_def)

lemma dir_read:
  assumes "pd_wf pd (vm_mem st)" "i < 1024"
  shows "\<exists>e. pc_read (page_dir pd) i st = Inr e \<and>
    dir_lookup pd (vm_mem st) i = (if present e then Some e else None)"
  using assms pd_wf_dir [OF assms(1)] by (auto simp: pc_read_ok dir_lookup_def pick_def)

text \<open>Writing an entry of a table of \<open>pd\<close>.\<close>

lemma pt_write:
  assumes wf: "pd_wf pd (vm_mem st)" and i: "i < 1024" and e: "dir_lookup pd (vm_mem st) i = Some e"
    and j: "j < 1024"
  shows "\<exists>st'. pc_write (tbl_of e) j x st = Inr st' \<and> pd_wf pd (vm_mem st') \<and>
    pg_entry pd (vm_mem st') =
      (pg_entry pd (vm_mem st))(1024 * i + j := (if present x then Some x else None)) \<and>
    (pool_ok st \<longrightarrow> pool_ok st') \<and> vm_framed pd st st' \<and>
    vm_pmm st' = vm_pmm st \<and> vm_ram st' = vm_ram st \<and> vm_pool st' = vm_pool st"
proof -
  let ?m = "vm_mem st"
  have tw: "tbl_wf pd ?m e" by (rule pd_wf_tbl [OF wf i e])
  then obtain t where t: "?m (tbl_of e) = Some t" "length t = 1024" and ne: "tbl_of e \<noteq> page_dir pd"
    by (auto simp: tbl_wf_def full_container_def)
  define m' where "m' = ?m(tbl_of e \<mapsto> t[j := x])"
  define st' where "st' = st\<lparr> vm_mem := m' \<rparr>"
  have m'_at: "m' (tbl_of e) = Some (t[j := x])" "\<And>c. c \<noteq> tbl_of e \<Longrightarrow> m' c = ?m c"
    by (simp_all add: m'_def)
  have dl: "dir_lookup pd m' = dir_lookup pd ?m" using ne by (simp add: dir_lookup_def m'_def fun_eq_iff)
  have wf': "pd_wf pd m'"
    using wf t(2) ne unfolding pd_wf_def dl tbl_wf_def
    by (auto simp: m'_def full_container_def)
  have "pg_entry pd m' n = ((pg_entry pd ?m)(1024 * i + j := (if present x then Some x else None))) n" for n
  proof (cases "n < 2 ^ 20 \<and> n div 1024 = i")
    case True
    then have "n = 1024 * i + n mod 1024" by auto
    then have "n mod 1024 = j \<longleftrightarrow> n = 1024 * i + j" using j by (metis add_left_imp_eq)
    moreover have "pg_entry pd m' n = (if n mod 1024 = j then (if present x then Some x else None)
        else pick (Some t) (n mod 1024))"
      using True t(2) j e by (simp add: pg_entry_def dl m'_at(1) pick_update eq_commute [of j])
    moreover have "pg_entry pd ?m n = pick (Some t) (n mod 1024)"
      using True t(1) e by (simp add: pg_entry_def)
    ultimately show ?thesis by simp
  next
    case False
    have n: "n \<noteq> 1024 * i + j" using False i j by auto
    have "tbl_of e' \<noteq> tbl_of e" if "n < 2 ^ 20" "dir_lookup pd ?m (n div 1024) = Some e'" for e'
    proof -
      have "n div 1024 < 1024" using that(1) by simp
      then show ?thesis using pd_wf_inj [OF wf _ i that(2) e] that(1) False by blast
    qed
    then show ?thesis using n
      by (auto simp: pg_entry_def dl m'_at split: option.splits)
  qed
  then have pe: "pg_entry pd m' = (pg_entry pd ?m)(1024 * i + j := (if present x then Some x else None))"
    by (simp only: fun_eq_iff) simp
  have "tbl_of e \<in> conts pd ?m" using i e by (auto simp: conts_def)
  moreover have "conts pd m' = conts pd ?m" by (simp add: conts_def dl)
  ultimately have "vm_framed pd st st'" by (auto simp: vm_framed_def st'_def m'_def pool_addrs_def)
  moreover have "pool_ok st \<Longrightarrow> pool_ok st'"
    using t(1) unfolding pool_ok_def st'_def m'_def by (auto split: prod.splits)
  moreover have "pc_write (tbl_of e) j x st = Inr st'"
    using t j by (simp add: pc_write_ok st'_def m'_def)
  ultimately show ?thesis using wf' pe by (auto simp: st'_def)
qed

lemma block_phys:
  assumes "block_ok v"
  shows "ram_kernel_to_phys v = Inr (v - RAM_VIRTUAL_START)"
    and "aligned_page (v - RAM_VIRTUAL_START)"
    and "v - RAM_VIRTUAL_START \<le> KERNEL_END - RAM_VIRTUAL_START"
proof -
  have a: "unat v = 4096 * frame_of v" and ge: "RAM_VIRTUAL_START \<le> v" and le: "v \<le> KERNEL_END"
    using assms by (simp_all add: block_ok_def aligned_page_iff)
  then show "ram_kernel_to_phys v = Inr (v - RAM_VIRTUAL_START)" by (simp add: ram_kernel_to_phys_def)
  have u: "unat RAM_VIRTUAL_START = 4096 * 786432" by (simp add: RAM_VIRTUAL_START_def)
  then have "unat (v - RAM_VIRTUAL_START) = 4096 * (frame_of v - 786432)"
    using a ge by (simp add: unat_sub diff_mult_distrib2)
  then show "aligned_page (v - RAM_VIRTUAL_START)"
    unfolding aligned_page_iff frame_of_def by simp
  have "unat (v - RAM_VIRTUAL_START) \<le> unat (KERNEL_END - RAM_VIRTUAL_START)"
    using ge le by (simp add: unat_sub word_le_nat_alt)
  then show "v - RAM_VIRTUAL_START \<le> KERNEL_END - RAM_VIRTUAL_START" by (simp add: word_le_nat_alt)
qed

lemma page_div: "n < 2 ^ 20 \<Longrightarrow> n div 1024 < (1024 :: nat)"
  by simp

text \<open>Entering a table that no directory entry refers to into an empty slot of the directory.\<close>

lemma dir_install:
  assumes wf: "pd_wf pd mem" and i: "i < 1024" and d: "mem (page_dir pd) = Some d" "length d = 1024"
    and none: "dir_lookup pd mem i = None"
    and new: "present x" "PAGE_ADDR x \<le> KERNEL_END - RAM_VIRTUAL_START"
    and t: "mem (tbl_of x) = Some t" "length t = 1024"
    and fresh: "tbl_of x \<notin> conts pd mem"
  defines "mem' \<equiv> mem(page_dir pd \<mapsto> d[i := x])"
  shows "pd_wf pd mem'"
    and "\<And>j. j < 1024 \<Longrightarrow> dir_lookup pd mem' j = (if j = i then Some x else dir_lookup pd mem j)"
    and "\<And>n. pg_entry pd mem' n =
        (if n < 2 ^ 20 \<and> n div 1024 = i then pick (Some t) (n mod 1024) else pg_entry pd mem n)"
    and "conts pd mem' = insert (tbl_of x) (conts pd mem)"
proof -
  show dl: "dir_lookup pd mem' j = (if j = i then Some x else dir_lookup pd mem j)" if "j < 1024" for j
    using that i d new(1) by (simp add: dir_lookup_def mem'_def pick_update)
  have at: "mem' c = mem c" if "c \<noteq> page_dir pd" for c using that by (simp add: mem'_def)
  have ne: "tbl_of x \<noteq> page_dir pd" using fresh by (auto simp: conts_def)
  have inj: "tbl_of x \<noteq> tbl_of e" if "j < 1024" "dir_lookup pd mem j = Some e" for j e
    using fresh that by (auto simp: conts_def)
  have tne: "tbl_of e \<noteq> page_dir pd" if "j < 1024" "dir_lookup pd mem j = Some e" for j e
    using pd_wf_tbl [OF wf that] by (simp add: tbl_wf_def)
  have "tbl_wf pd mem' e" if "j < 1024" "dir_lookup pd mem' j = Some e" for j e
  proof (cases "j = i")
    case True
    then have "e = x" using that dl by simp
    then show ?thesis using new ne t at by (simp add: tbl_wf_def full_container_def)
  next
    case False
    then have "dir_lookup pd mem j = Some e" using that dl by simp
    then show ?thesis using pd_wf_tbl [OF wf that(1)] at by (simp add: tbl_wf_def)
  qed
  moreover have "tbl_of e \<noteq> tbl_of e'"
    if "j < 1024" "k < 1024" "j \<noteq> k" "dir_lookup pd mem' j = Some e" "dir_lookup pd mem' k = Some e'" for j k e e'
  proof (cases "j = i \<or> k = i")
    case True
    then show ?thesis using that dl inj by (metis option.inject)
  next
    case False
    then show ?thesis using that dl pd_wf_inj [OF wf that(1,2)] by auto
  qed
  moreover have "full_container (mem' (page_dir pd))" using d by (simp add: mem'_def full_container_def)
  ultimately show "pd_wf pd mem'" unfolding pd_wf_def by blast
  show "pg_entry pd mem' n =
    (if n < 2 ^ 20 \<and> n div 1024 = i then pick (Some t) (n mod 1024) else pg_entry pd mem n)" for n
  proof (cases "n < 2 ^ 20")
    case True
    then have q: "n div 1024 < 1024" by simp
    have "pg_entry pd mem' n = (case dir_lookup pd mem (n div 1024) of None \<Rightarrow> None
        | Some e \<Rightarrow> pick (mem (tbl_of e)) (n mod 1024))" if "n div 1024 \<noteq> i"
      using True q that dl [OF q] at tne [OF q]
      by (auto simp: pg_entry_def split: option.splits)
    moreover have "pg_entry pd mem' n = pick (Some t) (n mod 1024)" if "n div 1024 = i"
      using True that dl [OF q] at [OF ne] t(1) by (simp add: pg_entry_def)
    ultimately show ?thesis using True by (simp add: pg_entry_def)
  qed (simp add: pg_entry_def)
  show "conts pd mem' = insert (tbl_of x) (conts pd mem)"
  proof (intro equalityI subsetI)
    fix c assume "c \<in> conts pd mem'"
    then show "c \<in> insert (tbl_of x) (conts pd mem)"
      unfolding conts_def using dl by (auto split: if_splits)
  next
    fix c assume "c \<in> insert (tbl_of x) (conts pd mem)"
    then consider "c = page_dir pd" | "c = tbl_of x"
      | e j where "c = tbl_of e" "j < 1024" "dir_lookup pd mem j = Some e"
      by (auto simp: conts_def)
    then show "c \<in> conts pd mem'"
    proof cases
      case 2
      then show ?thesis using dl [OF i] i by (auto simp: conts_def)
    next
      case 3
      then have "dir_lookup pd mem' j = Some e" using dl none by auto
      then show ?thesis using 3 by (auto simp: conts_def)
    qed (simp add: conts_def)
  qed
qed

lemma pool_ok_pop:
  assumes pool: "pool_ok st" and p: "vm_pool st = (v, g) # rest"
    and mem: "\<And>c. c \<noteq> v \<Longrightarrow> vm_mem st c = None \<Longrightarrow> mem' c = None"
  shows "pool_ok (st\<lparr> vm_mem := mem', vm_pool := rest \<rparr>)"
proof -
  have "block_ok a \<and> mem' a = None \<and> length b = 1024" if "(a, b) \<in> set rest" for a b
  proof -
    have "a \<noteq> v" using that pool p by (force simp: pool_ok_def)
    then show ?thesis using pool_okD [OF pool, of a b] that p mem by simp
  qed
  then show ?thesis using pool p by (auto simp: pool_ok_def)
qed

lemma get_or_create_table_ok:
  assumes wf: "pd_wf pd (vm_mem st)" and pool: "pool_ok st" and i: "i < 1024" and fl: "flag_bits flags"
    and run: "get_or_create_table pd i flags st = Inr (tv, st')"
  shows "pd_wf pd (vm_mem st') \<and> pool_ok st' \<and> vm_pmm st' = vm_pmm st \<and> vm_ram st' = vm_ram st \<and>
    pg_entry pd (vm_mem st') = pg_entry pd (vm_mem st) \<and> vm_framed pd st st' \<and>
    (\<exists>e. dir_lookup pd (vm_mem st') i = Some e \<and> tbl_of e = tv)"
proof -
  obtain entry where rd: "pc_read (page_dir pd) i st = Inr entry"
    and dl: "dir_lookup pd (vm_mem st) i = (if present entry then Some entry else None)"
    using dir_read [OF wf i] by blast
  show ?thesis
  proof (cases "present entry")
    case True
    then have e: "dir_lookup pd (vm_mem st) i = Some entry" using dl by simp
    then have "ram_kernel_to_virt (PAGE_ADDR entry) = Inr (tbl_of entry)"
      using pd_wf_tbl [OF wf i] tbl_virt by blast
    then have "st' = st" "tv = tbl_of entry"
      using run True by (auto simp: get_or_create_table_def rd)
    then show ?thesis using wf pool e vm_framed_refl by auto
  next
    case False
    then have none: "dir_lookup pd (vm_mem st) i = None" using dl by simp
    obtain v g rest where p: "vm_pool st = (v, g) # rest"
      using run False by (cases "vm_pool st") (auto simp: get_or_create_table_def rd page_container_create_def)
    have v: "block_ok v" "vm_mem st v = None" using pool_okD [OF pool, of v g] p by auto
    obtain d where d: "vm_mem st (page_dir pd) = Some d" "length d = 1024" using pd_wf_dir [OF wf] by blast
    have vne: "v \<noteq> page_dir pd" using d v by auto
    define x where "x = (v - RAM_VIRTUAL_START) OR flags OR PAGE_PRESENT OR PAGE_RW"
    note bp = block_phys [OF v(1)]
    have x: "present x" "PAGE_ADDR x = v - RAM_VIRTUAL_START"
      using entry_addr [OF bp(2) fl] by (simp_all add: x_def)
    then have tx: "tbl_of x = v" by (simp add: tbl_of_def)
    define m1 where "m1 = (vm_mem st)(v \<mapsto> zero_page)"
    have m1_at: "m1 c = vm_mem st c" if "c \<noteq> v" for c using that by (simp add: m1_def)
    have fresh: "v \<notin> conts pd (vm_mem st)"
      using vne v(2) wf by (auto simp: conts_def pd_wf_def tbl_wf_def full_container_def)
    have dl1: "dir_lookup pd m1 = dir_lookup pd (vm_mem st)" using vne by (simp add: dir_lookup_def m1_def fun_eq_iff)
    have tne: "tbl_of e \<noteq> v" if "j < 1024" "dir_lookup pd (vm_mem st) j = Some e" for j e
      using fresh that by (auto simp: conts_def)
    have wf1: "pd_wf pd m1" using wf vne unfolding pd_wf_def dl1 tbl_wf_def
      by (auto simp: m1_def full_container_def)
    have pe1: "pg_entry pd m1 = pg_entry pd (vm_mem st)"
    proof
      fix n
      have "tbl_of e \<noteq> v" if "n < 2 ^ 20" "dir_lookup pd (vm_mem st) (n div 1024) = Some e" for e
        using tne [OF page_div [OF that(1)] that(2)] .
      then show "pg_entry pd m1 n = pg_entry pd (vm_mem st) n"
        by (auto simp: pg_entry_def dl1 m1_at split: option.splits)
    qed
    have co1: "conts pd m1 = conts pd (vm_mem st)" by (simp add: conts_def dl1)
    have st': "st' = st\<lparr> vm_mem := m1(page_dir pd \<mapsto> d[i := x]), vm_pool := rest \<rparr>" "tv = v"
      using run False d i vne
      by (auto simp: get_or_create_table_def rd page_container_create_def p bp(1) pc_write_def m1_def x_def)
    note I = dir_install [OF wf1 i _ d(2) _ x(1), of zero_page]
    have I: "pd_wf pd (vm_mem st')" "dir_lookup pd (vm_mem st') i = Some x"
      "\<And>n. pg_entry pd (vm_mem st') n = (if n < 2 ^ 20 \<and> n div 1024 = i
          then pick (Some zero_page) (n mod 1024) else pg_entry pd m1 n)"
      "conts pd (vm_mem st') = insert v (conts pd (vm_mem st))"
      using I x(2) bp(3) d(1) vne dl1 none fresh co1 tx i by (auto simp: st' m1_def)
    have "pg_entry pd m1 n = None" if "n < 2 ^ 20" "n div 1024 = i" for n
      using that none by (simp add: pg_entry_def dl1)
    then have "pg_entry pd (vm_mem st') = pg_entry pd (vm_mem st)"
      by (auto simp: fun_eq_iff I(3) pe1)
    moreover have "pool_ok st'" unfolding st'
      by (rule pool_ok_pop [OF pool p]) (use d(1) in \<open>auto simp: m1_def\<close>)
    moreover have "vm_framed pd st st'" using I(4) p
      by (auto simp: vm_framed_def pool_addrs_def st' m1_def conts_def)
    ultimately show ?thesis using I(1,2) tx by (auto simp: st')
  qed
qed

section \<open>Mapping and unmapping one page\<close>

definition vm_ok :: "page_dict_t \<Rightarrow> vm_t \<Rightarrow> bool" where
  "vm_ok pd st = (pd_wf pd (vm_mem st) \<and> pool_ok st \<and> pmm_inv (vm_pmm st))"

definition vm_walk :: "page_dict_t \<Rightarrow> vm_t \<Rightarrow> nat \<Rightarrow> u32 option" where
  "vm_walk pd st = pg_entry pd (vm_mem st)"

abbreviation vm_cnt :: "vm_t \<Rightarrow> nat \<Rightarrow> nat" where
  "vm_cnt st \<equiv> pmm_cnt (vm_pmm st)"

abbreviation vm_size :: "vm_t \<Rightarrow> nat" where
  "vm_size st \<equiv> pmm_size (vm_pmm st)"

lemma vm_framed_pmm [simp]: "vm_framed pd st (st'\<lparr> vm_pmm := p \<rparr>) = vm_framed pd st st'"
  "vm_framed pd (st\<lparr> vm_pmm := p \<rparr>) st' = vm_framed pd st st'"
  by (simp_all add: vm_framed_def pool_addrs_def)

lemma pool_ok_pmm [simp]: "pool_ok (st\<lparr> vm_pmm := p \<rparr>) = pool_ok st"
  by (simp add: pool_ok_def)

lemma page_dict_map_page_ok:
  assumes ok: "vm_ok pd st" and fl: "flag_bits flags" and run: "page_dict_map_page pd va flags st = Inr st'"
  shows "\<exists>fr. vm_ok pd st' \<and> vm_framed pd st st' \<and> vm_ram st' = vm_ram st \<and> aligned_page fr \<and>
    frame_of fr < vm_size st \<and> pmm_first (vm_pmm st) \<le> frame_of fr \<and> vm_cnt st (frame_of fr) = 0 \<and>
    vm_cnt st' = (vm_cnt st)(frame_of fr := 1) \<and> vm_size st' = vm_size st \<and>
    vm_walk pd st' = (vm_walk pd st)(frame_of va \<mapsto> fr OR flags OR PAGE_PRESENT OR PAGE_RW)"
proof -
  obtain tv st1 where g: "get_or_create_table pd (PD_INDEX va) flags st = Inr (tv, st1)"
    using run by (auto simp: page_dict_map_page_def rbind_eq_Inr)
  obtain fr p where a: "pmm_alloc_frame (vm_pmm st1) = Inr (fr, p)"
    using run by (auto simp: page_dict_map_page_def g rbind_eq_Inr)
  let ?st2 = "st1\<lparr> vm_pmm := p \<rparr>" and ?x = "fr OR flags OR PAGE_PRESENT OR PAGE_RW"
  have w: "pc_write tv (PT_INDEX va) ?x ?st2 = Inr st'"
    using run by (simp add: page_dict_map_page_def g a)
  have wf: "pd_wf pd (vm_mem st)" and pool: "pool_ok st" and pinv: "pmm_inv (vm_pmm st)"
    using ok by (simp_all add: vm_ok_def)
  have G: "pd_wf pd (vm_mem ?st2)" "pool_ok ?st2" "vm_pmm st1 = vm_pmm st" "vm_ram ?st2 = vm_ram st"
    "pg_entry pd (vm_mem ?st2) = pg_entry pd (vm_mem st)" "vm_framed pd st ?st2"
    using get_or_create_table_ok [OF wf pool PD_INDEX_less fl g] by auto
  obtain e where e: "dir_lookup pd (vm_mem ?st2) (PD_INDEX va) = Some e" "tbl_of e = tv"
    using get_or_create_table_ok [OF wf pool PD_INDEX_less fl g] by auto
  have A: "pmm_inv p" "unat fr = 4096 * frame_of fr" "frame_of fr < vm_size st"
    "pmm_first (vm_pmm st) \<le> frame_of fr" "vm_cnt st (frame_of fr) = 0"
    "pmm_cnt p = (vm_cnt st)(frame_of fr := 1)" "pmm_size p = vm_size st"
    using pmm_alloc_frame_ok [OF pinv] a G(3) by auto
  have al: "aligned_page fr" using A(2) by (simp add: aligned_page_iff)
  note P = pt_write [OF G(1) PD_INDEX_less e(1) PT_INDEX_less, of va ?x]
  have pr: "present ?x" by (rule entry_addr [OF al fl])
  have "pd_wf pd (vm_mem st') \<and> pg_entry pd (vm_mem st') = (pg_entry pd (vm_mem st))(frame_of va \<mapsto> ?x) \<and>
      pool_ok st' \<and> vm_framed pd ?st2 st' \<and> vm_pmm st' = p \<and> vm_ram st' = vm_ram st"
    using P w pr G(2,4,5) unfolding e(2) page_index_split by auto
  then show ?thesis using A al G(6) vm_framed_trans [of pd st ?st2 st']
    by (intro exI [of _ fr]) (simp add: vm_ok_def vm_walk_def)
qed

lemma page_dict_map_page_to_phys_ok:
  assumes ok: "vm_ok pd st" and fl: "flag_bits flags" and al: "aligned_page fr"
    and cb: "vm_cnt st (frame_of fr) + 1 < 2 ^ 32" and sz: "frame_of fr < vm_size st"
    and run: "page_dict_map_page_to_phys pd va fr flags st = Inr st'"
  shows "vm_ok pd st' \<and> vm_framed pd st st' \<and> vm_ram st' = vm_ram st \<and>
    vm_cnt st' = (vm_cnt st)(frame_of fr := vm_cnt st (frame_of fr) + 1) \<and> vm_size st' = vm_size st \<and>
    vm_walk pd st' = (vm_walk pd st)(frame_of va \<mapsto> fr OR flags OR PAGE_PRESENT)"
proof -
  obtain tv st1 where g: "get_or_create_table pd (PD_INDEX va) flags st = Inr (tv, st1)"
    using run by (auto simp: page_dict_map_page_to_phys_def rbind_eq_Inr)
  have wf: "pd_wf pd (vm_mem st)" and pool: "pool_ok st" and pinv: "pmm_inv (vm_pmm st)"
    using ok by (simp_all add: vm_ok_def)
  have pm: "vm_pmm st1 = vm_pmm st" using get_or_create_table_ok [OF wf pool PD_INDEX_less fl g] by blast
  obtain p where p: "pmm_set_alloced fr (vm_pmm st1) = Inr p" "pmm_inv p"
    "pmm_cnt p = (vm_cnt st)(frame_of fr := vm_cnt st (frame_of fr) + 1)" "pmm_size p = vm_size st"
    using pmm_set_alloced_ok [OF pinv sz cb] pm by auto
  let ?st2 = "st1\<lparr> vm_pmm := p \<rparr>" and ?x = "fr OR flags OR PAGE_PRESENT"
  have w: "pc_write tv (PT_INDEX va) ?x ?st2 = Inr st'"
    using run by (simp add: page_dict_map_page_to_phys_def g p(1) with_pmm_def)
  have G: "pd_wf pd (vm_mem ?st2)" "pool_ok ?st2" "vm_ram ?st2 = vm_ram st"
    "pg_entry pd (vm_mem ?st2) = pg_entry pd (vm_mem st)" "vm_framed pd st ?st2"
    using get_or_create_table_ok [OF wf pool PD_INDEX_less fl g] by auto
  obtain e where e: "dir_lookup pd (vm_mem ?st2) (PD_INDEX va) = Some e" "tbl_of e = tv"
    using get_or_create_table_ok [OF wf pool PD_INDEX_less fl g] by auto
  note P = pt_write [OF G(1) PD_INDEX_less e(1) PT_INDEX_less, of va ?x]
  have pr: "present ?x" by (rule entry_addr [OF al fl])
  have "pd_wf pd (vm_mem st') \<and> pg_entry pd (vm_mem st') = (pg_entry pd (vm_mem st))(frame_of va \<mapsto> ?x) \<and>
      pool_ok st' \<and> vm_framed pd ?st2 st' \<and> vm_pmm st' = p \<and> vm_ram st' = vm_ram st"
    using P w pr G(2,3,4) unfolding e(2) page_index_split by auto
  then show ?thesis using p G(5) vm_framed_trans [of pd st ?st2 st']
    by (simp add: vm_ok_def vm_walk_def)
qed

lemma vm_walk_split: "vm_walk pd st (frame_of va) = (case dir_lookup pd (vm_mem st) (PD_INDEX va) of
   Some e \<Rightarrow> pick (vm_mem st (tbl_of e)) (PT_INDEX va) | None \<Rightarrow> None)"
  using frame_of_less [of va] by (simp add: vm_walk_def pg_entry_def PD_INDEX_page PT_INDEX_page cong: option.case_cong)

text \<open>The walk the CPU and the kernel's own translation make.\<close>

lemma walk_read:
  assumes wf: "pd_wf pd (vm_mem st)" and e: "dir_lookup pd (vm_mem st) (PD_INDEX va) = Some e"
  shows "\<exists>x. pc_read (tbl_of e) (PT_INDEX va) st = Inr x \<and>
    vm_walk pd st (frame_of va) = (if present x then Some x else None)"
proof -
  obtain t where "vm_mem st (tbl_of e) = Some t" "length t = 1024"
    using pd_wf_tbl [OF wf PD_INDEX_less e] by (auto simp: tbl_wf_def full_container_def)
  then show ?thesis using e PT_INDEX_less [of va]
    by (simp add: vm_walk_split pc_read_ok pick_def)
qed

lemma page_dict_vaddr_to_phys_ok:
  assumes wf: "pd_wf pd (vm_mem st)"
  shows "page_dict_vaddr_to_phys pd va st = (case vm_walk pd st (frame_of va) of
     Some x \<Rightarrow> Inr (PAGE_ADDR x + OFFSET va)
   | None \<Rightarrow> Inl (Assertion (if dir_lookup pd (vm_mem st) (PD_INDEX va) = None
        then ''dir_entry & PAGE_PRESENT'' else ''pt_entry & PAGE_PRESENT'')))"
proof -
  obtain e where rd: "pc_read (page_dir pd) (PD_INDEX va) st = Inr e"
    and dl: "dir_lookup pd (vm_mem st) (PD_INDEX va) = (if present e then Some e else None)"
    using dir_read [OF wf PD_INDEX_less] by blast
  show ?thesis
  proof (cases "present e")
    case True
    then have d: "dir_lookup pd (vm_mem st) (PD_INDEX va) = Some e" using dl by simp
    obtain x where x: "pc_read (tbl_of e) (PT_INDEX va) st = Inr x"
      "vm_walk pd st (frame_of va) = (if present x then Some x else None)"
      using walk_read [OF wf d] by blast
    show ?thesis using True d x tbl_virt [OF pd_wf_tbl [OF wf PD_INDEX_less d]]
      by (simp add: page_dict_vaddr_to_phys_def rd)
  next
    case False
    then show ?thesis using dl by (simp add: page_dict_vaddr_to_phys_def rd vm_walk_split)
  qed
qed

section \<open>Reference counting\<close>

text \<open>
  \<open>map_refs m f\<close> counts the pages that \<open>m\<close> maps to frame \<open>f\<close>. The books balance when the
  counter of each frame is the number of entries that refer to it, plus the references
  \<open>ext\<close> of the other address spaces.
\<close>

definition map_refs :: "(nat \<Rightarrow> u32 option) \<Rightarrow> nat \<Rightarrow> nat" where
  "map_refs m f = card {n. \<exists>e. m n = Some e \<and> frame_of e = f}"

definition vm_balanced :: "page_dict_t \<Rightarrow> (nat \<Rightarrow> nat) \<Rightarrow> vm_t \<Rightarrow> bool" where
  "vm_balanced pd ext st = (\<forall>f. vm_cnt st f = ext f + map_refs (vm_walk pd st) f)"

lemma map_refs_upd:
  assumes "finite (dom m)" "m n = None"
  shows "map_refs (m(n \<mapsto> e)) f = map_refs m f + (if frame_of e = f then 1 else 0)"
proof -
  have fin: "finite {k. \<exists>x. m k = Some x \<and> frame_of x = f}"
    by (rule finite_subset [OF _ assms(1)]) auto
  have "{k. \<exists>x. (m(n \<mapsto> e)) k = Some x \<and> frame_of x = f} =
      {k. \<exists>x. m k = Some x \<and> frame_of x = f} \<union> (if frame_of e = f then {n} else {})"
    using assms(2) by (auto split: if_splits)
  moreover have "n \<notin> {k. \<exists>x. m k = Some x \<and> frame_of x = f}" using assms(2) by simp
  ultimately show ?thesis using fin by (simp add: map_refs_def)
qed

lemma map_refs_del:
  assumes "finite (dom m)" "m n = Some e"
  shows "map_refs m f = map_refs (m(n := None)) f + (if frame_of e = f then 1 else 0)"
  using map_refs_upd [of "m(n := None)" n e f] assms by (simp add: fun_upd_idem)

lemma finite_vm_walk: "finite (dom (vm_walk pd st))"
proof (rule finite_subset)
  show "dom (vm_walk pd st) \<subseteq> {..< 2 ^ 20}"
    by (auto simp: vm_walk_def pg_entry_def split: if_splits)
qed simp

lemma frame_of_or_flags:
  assumes "aligned_page a" "flag_bits f"
  shows "frame_of (a OR f OR PAGE_PRESENT OR PAGE_RW) = frame_of a"
    "frame_of (a OR f OR PAGE_PRESENT) = frame_of a"
  using entry_addr(1,2) [OF assms] frame_of_PAGE_ADDR by metis+

lemma map_page_balanced:
  assumes "vm_ok pd st" "flag_bits flags" "page_dict_map_page pd va flags st = Inr st'"
    and "vm_balanced pd ext st" "vm_walk pd st (frame_of va) = None"
  shows "vm_balanced pd ext st'"
proof -
  obtain fr where "aligned_page fr" "vm_cnt st (frame_of fr) = 0"
    "vm_cnt st' = (vm_cnt st)(frame_of fr := 1)"
    "vm_walk pd st' = (vm_walk pd st)(frame_of va \<mapsto> fr OR flags OR PAGE_PRESENT OR PAGE_RW)"
    using page_dict_map_page_ok [OF assms(1,2,3)] by blast
  then show ?thesis
    using assms(2,4) by (auto simp: vm_balanced_def map_refs_upd [OF finite_vm_walk assms(5)] frame_of_or_flags)
qed

lemma vm_balanced_used:
  assumes "vm_balanced pd ext st" "vm_walk pd st n = Some x" "pmm_inv (vm_pmm st)"
  shows "0 < vm_cnt st (frame_of x)" "frame_of x < vm_size st"
proof -
  show c: "0 < vm_cnt st (frame_of x)"
    using assms(1) map_refs_del [OF finite_vm_walk assms(2), of "frame_of x"]
    by (simp add: vm_balanced_def)
  then show "frame_of x < vm_size st"
    using assms(3) by (auto simp: pmm_cnt_def pmm_inv_def split: if_splits)
qed

lemma page_dict_unmap_page_ok:
  assumes ok: "vm_ok pd st" and bal: "vm_balanced pd ext st"
    and d: "dir_lookup pd (vm_mem st) (PD_INDEX va) \<noteq> None"
    and hi: "\<And>x. vm_walk pd st (frame_of va) = Some x \<Longrightarrow> 16384 \<le> frame_of x \<or> 1 < vm_cnt st (frame_of x)"
  shows "\<exists>st'. page_dict_unmap_page pd va st = Inr st' \<and> vm_ok pd st' \<and> vm_balanced pd ext st' \<and>
    vm_framed pd st st' \<and> vm_ram st' = vm_ram st \<and> vm_size st' = vm_size st \<and>
    dir_lookup pd (vm_mem st') = dir_lookup pd (vm_mem st) \<and>
    vm_walk pd st' = (vm_walk pd st)(frame_of va := None)"
proof -
  have wf: "pd_wf pd (vm_mem st)" and pool: "pool_ok st" and pinv: "pmm_inv (vm_pmm st)"
    using ok by (simp_all add: vm_ok_def)
  obtain e where e: "dir_lookup pd (vm_mem st) (PD_INDEX va) = Some e" using d by blast
  then have rd: "pc_read (page_dir pd) (PD_INDEX va) st = Inr e" "present e"
    using dir_read [OF wf PD_INDEX_less, of va] by (auto split: if_splits)
  note tw = pd_wf_tbl [OF wf PD_INDEX_less e]
  obtain x where x: "pc_read (tbl_of e) (PT_INDEX va) st = Inr x"
    "vm_walk pd st (frame_of va) = (if present x then Some x else None)"
    using walk_read [OF wf e] by blast
  show ?thesis
  proof (cases "present x")
    case False
    then have "page_dict_unmap_page pd va st = Inr st"
      by (simp add: page_dict_unmap_page_def rd tbl_virt [OF tw] x(1))
    moreover have "vm_walk pd st = (vm_walk pd st)(frame_of va := None)"
      using x(2) False by (simp add: fun_eq_iff)
    ultimately show ?thesis using ok bal vm_framed_refl by blast
  next
    case True
    then have wx: "vm_walk pd st (frame_of va) = Some x" using x(2) by simp
    let ?f = "frame_of x"
    note us = vm_balanced_used [OF bal wx pinv]
    have "4096 * 16384 \<le> unat (PAGE_ADDR x) \<or> 1 < vm_cnt st (frame_of (PAGE_ADDR x))"
      using hi [OF wx] by (simp add: unat_PAGE_ADDR)
    then obtain p where p: "pmm_free_frame (PAGE_ADDR x) (vm_pmm st) = Inr (vm_cnt st ?f = 1, p)"
      "pmm_inv p" "pmm_cnt p = (vm_cnt st)(?f := vm_cnt st ?f - 1)" "pmm_size p = vm_size st"
      using pmm_free_frame_ok [OF pinv, of "PAGE_ADDR x"] us by auto
    let ?st1 = "st\<lparr> vm_pmm := p \<rparr>"
    have wf1: "pd_wf pd (vm_mem ?st1)" and e1: "dir_lookup pd (vm_mem ?st1) (PD_INDEX va) = Some e"
      using wf e by simp_all
    obtain st' where st': "pc_write (tbl_of e) (PT_INDEX va) 0 ?st1 = Inr st'" "pd_wf pd (vm_mem st')"
      "pg_entry pd (vm_mem st') = (pg_entry pd (vm_mem st))(frame_of va := None)"
      "pool_ok st'" "vm_framed pd st st'" "vm_pmm st' = p" "vm_ram st' = vm_ram st"
      using pt_write [OF wf1 PD_INDEX_less e1 PT_INDEX_less, of va 0] pool
      unfolding page_index_split by (auto simp: present_def)
    have "page_dict_unmap_page pd va st = Inr st'"
      by (simp add: page_dict_unmap_page_def rd tbl_virt [OF tw] x(1) True with_pmm_def
          pmm_drop_frame_def p(1) st'(1))
    moreover have wk: "vm_walk pd st' = (vm_walk pd st)(frame_of va := None)"
      using st'(3) by (simp add: vm_walk_def)
    moreover have "vm_balanced pd ext st'"
      using bal us unfolding vm_balanced_def wk st'(6) p(3)
      by (simp add: map_refs_del [OF finite_vm_walk wx])
    moreover have "dir_lookup pd (vm_mem st') = dir_lookup pd (vm_mem st)"
      using st'(1) tw by (auto simp: pc_write_def dir_lookup_def tbl_wf_def fun_eq_iff split: option.splits if_splits)
    ultimately show ?thesis using st' p by (auto simp: vm_ok_def)
  qed
qed

section \<open>The operations succeed while there is memory\<close>

lemma get_or_create_table_total:
  assumes wf: "pd_wf pd (vm_mem st)" and pool: "pool_ok st" and i: "i < 1024"
    and mem: "vm_pool st \<noteq> [] \<or> dir_lookup pd (vm_mem st) i \<noteq> None"
  shows "\<exists>r. get_or_create_table pd i flags st = Inr r"
proof -
  obtain e where rd: "pc_read (page_dir pd) i st = Inr e"
    and dl: "dir_lookup pd (vm_mem st) i = (if present e then Some e else None)"
    using dir_read [OF wf i] by blast
  show ?thesis
  proof (cases "present e")
    case True
    then show ?thesis using dl tbl_virt [OF pd_wf_tbl [OF wf i]]
      by (simp add: get_or_create_table_def rd)
  next
    case False
    then obtain v g rest where p: "vm_pool st = (v, g) # rest"
      using mem dl by (cases "vm_pool st") auto
    have "block_ok v" "vm_mem st v = None" using pool_okD [OF pool, of v g] p by auto
    moreover obtain d where "vm_mem st (page_dir pd) = Some d" "length d = 1024"
      using pd_wf_dir [OF wf] by blast
    ultimately show ?thesis using False i
      by (auto simp: get_or_create_table_def rd page_container_create_def p block_phys(1) pc_write_def)
  qed
qed

lemma page_dict_map_page_total:
  assumes ok: "vm_ok pd st" and fl: "flag_bits flags"
    and mem: "vm_pool st \<noteq> [] \<or> dir_lookup pd (vm_mem st) (PD_INDEX va) \<noteq> None"
    and fr: "pmm_first (vm_pmm st) \<le> f" "f < vm_size st" "vm_cnt st f = 0"
  shows "\<exists>st'. page_dict_map_page pd va flags st = Inr st'"
proof -
  have wf: "pd_wf pd (vm_mem st)" and pool: "pool_ok st" and pinv: "pmm_inv (vm_pmm st)"
    using ok by (simp_all add: vm_ok_def)
  obtain tv st1 where g: "get_or_create_table pd (PD_INDEX va) flags st = Inr (tv, st1)"
    using get_or_create_table_total [OF wf pool PD_INDEX_less mem, of flags] by auto
  note G = get_or_create_table_ok [OF wf pool PD_INDEX_less fl g]
  obtain fa p where a: "pmm_alloc_frame (vm_pmm st1) = Inr (fa, p)"
    using fp.alloc_total [OF pinv fr] G by auto
  obtain e where e: "dir_lookup pd (vm_mem st1) (PD_INDEX va) = Some e" "tbl_of e = tv"
    using G by blast
  have "pd_wf pd (vm_mem (st1\<lparr> vm_pmm := p \<rparr>))" using G by simp
  from pt_write [OF this PD_INDEX_less _ PT_INDEX_less, of va e va] e
  show ?thesis by (auto simp: page_dict_map_page_def g a)
qed

section \<open>Mapping an interval\<close>

lemma frame_of_step:
  assumes "aligned_page a" "frame_of a + i < 2 ^ 20"
  shows "frame_of (a + of_nat i * 4096) = frame_of a + i" "aligned_page (a + of_nat i * 4096)"
proof -
  have u: "unat a = 4096 * frame_of a" using assms(1) by (simp add: aligned_page_iff)
  have i: "unat (of_nat i :: u32) = i" using assms(2) by (simp add: unat_of_nat)
  then have "unat (of_nat i * 4096 :: u32) = i * 4096"
    using assms(2) by (simp add: unat_word_ariths)
  then have s: "unat (a + of_nat i * 4096) = 4096 * (frame_of a + i)"
    using u assms(2) by (simp add: unat_word_ariths)
  then show f: "frame_of (a + of_nat i * 4096) = frame_of a + i" by (simp add: frame_of_def)
  show "aligned_page (a + of_nat i * 4096)" using s f by (simp add: aligned_page_iff)
qed

lemma page_alligned_left_ok:
  "aligned_page (page_alligned_left a)" "frame_of (page_alligned_left a) = frame_of a"
  "unat (a - page_alligned_left a) = unat a mod 4096"
proof -
  have e: "page_alligned_left a = PAGE_ADDR a" by (simp only: page_alligned_left_def PAGE_ADDR_def)
  show "frame_of (page_alligned_left a) = frame_of a" by (simp add: e)
  show "aligned_page (page_alligned_left a)" unfolding e aligned_page_iff by (simp add: unat_PAGE_ADDR)
  have "unat (PAGE_ADDR a) = unat a - unat a mod 4096"
    by (simp add: unat_PAGE_ADDR frame_of_def minus_mod_eq_mult_div)
  then show "unat (a - page_alligned_left a) = unat a mod 4096"
    unfolding e by (simp add: unat_sub word_le_nat_alt)
qed

text \<open>The pages that cover \<open>size\<close> bytes from \<open>start\<close>.\<close>

definition span_pages :: "u32 \<Rightarrow> u32 \<Rightarrow> nat" where
  "span_pages start sz = (unat start mod 4096 + unat sz + 4095) div 4096"

lemma page_count_eq:
  assumes "unat start mod 4096 + unat sz + 4095 < 2 ^ 32"
  shows "unat (page_get_num (start - page_alligned_left start + sz)) = span_pages start sz"
proof -
  have "unat (start - page_alligned_left start + sz) = unat start mod 4096 + unat sz"
    using assms by (simp add: unat_word_ariths page_alligned_left_ok)
  then have "unat (start - page_alligned_left start + sz + 4095) = unat start mod 4096 + unat sz + 4095"
    using assms by (simp add: unat_word_ariths)
  then show ?thesis unfolding page_get_num_def unat_drop12 span_pages_def by simp
qed

definition user_entry :: "u32 \<Rightarrow> u32 \<Rightarrow> bool" where
  "user_entry flags x = (\<exists>fr. aligned_page fr \<and> x = fr OR flags OR PAGE_PRESENT OR PAGE_RW)"

lemma page_dict_map_interval_ok:
  assumes ok: "vm_ok pd st" and fl: "flag_bits flags"
    and nw: "unat start mod 4096 + unat sz + 4095 < 2 ^ 32" "frame_of start + span_pages start sz \<le> 2 ^ 20"
    and bal: "vm_balanced pd ext st"
    and free: "\<And>n. frame_of start \<le> n \<Longrightarrow> n < frame_of start + span_pages start sz \<Longrightarrow> vm_walk pd st n = None"
    and run: "page_dict_map_interval pd start sz flags st = Inr st'"
  shows "vm_ok pd st' \<and> vm_balanced pd ext st' \<and> vm_framed pd st st' \<and>
    (\<forall>n. if frame_of start \<le> n \<and> n < frame_of start + span_pages start sz
         then \<exists>x. vm_walk pd st' n = Some x \<and> user_entry flags x \<and>
           16384 \<le> frame_of x \<and> vm_cnt st (frame_of x) = 0
         else vm_walk pd st' n = vm_walk pd st n)"
proof -
  let ?p = "frame_of start" and ?k = "span_pages start sz"
  define P where "P i t = (vm_ok pd t \<and> vm_balanced pd ext t \<and> vm_framed pd st t \<and>
    (\<forall>f. vm_cnt st f \<le> vm_cnt t f) \<and>
    (\<forall>n. if ?p \<le> n \<and> n < ?p + i
         then \<exists>x. vm_walk pd t n = Some x \<and> user_entry flags x \<and>
           16384 \<le> frame_of x \<and> vm_cnt st (frame_of x) = 0
         else vm_walk pd t n = vm_walk pd st n))" for i t
  have step: "P (Suc i) t'" if i: "i < ?k" and t: "P i t"
    and r: "page_dict_map_page pd (page_alligned_left start + of_nat i * PAGE_SIZE) flags t = Inr t'" for i t t'
  proof -
    let ?va = "page_alligned_left start + of_nat i * PAGE_SIZE"
    have f: "frame_of ?va = ?p + i"
      using frame_of_step(1) [of "page_alligned_left start" i] i nw(2)
      by (simp add: page_alligned_left_ok PAGE_SIZE_def)
    have tok: "vm_ok pd t" and tb: "vm_balanced pd ext t"
      and tw: "vm_walk pd t (?p + i) = None" using t free [of "?p + i"] i by (auto simp: P_def)
    obtain fr where M: "vm_ok pd t'" "vm_framed pd t t'" "aligned_page fr" "vm_cnt t (frame_of fr) = 0"
      "pmm_first (vm_pmm t) \<le> frame_of fr"
      "vm_cnt t' = (vm_cnt t)(frame_of fr := 1)"
      "vm_walk pd t' = (vm_walk pd t)(?p + i \<mapsto> fr OR flags OR PAGE_PRESENT OR PAGE_RW)"
      using page_dict_map_page_ok [OF tok fl r] unfolding f by blast
    have B: "vm_balanced pd ext t'" using map_page_balanced [OF tok fl r tb] tw by (simp add: f)
    have c0: "vm_cnt st (frame_of fr) = 0" using t M(4) by (metis P_def le_zero_eq)
    have hi: "16384 \<le> frame_of fr" using M(5) tok by (simp add: vm_ok_def pmm_inv_def)
    have "user_entry flags (fr OR flags OR PAGE_PRESENT OR PAGE_RW)"
      using M(3) by (auto simp: user_entry_def)
    then have new: "\<exists>x. vm_walk pd t' (?p + i) = Some x \<and> user_entry flags x \<and>
           16384 \<le> frame_of x \<and> vm_cnt st (frame_of x) = 0"
      using M(7) c0 hi frame_of_or_flags(1) [OF M(3) fl] by simp
    have old: "vm_walk pd t' n = vm_walk pd t n" if "n \<noteq> ?p + i" for n using that M(7) by simp
    have "if ?p \<le> n \<and> n < ?p + Suc i
         then \<exists>x. vm_walk pd t' n = Some x \<and> user_entry flags x \<and>
           16384 \<le> frame_of x \<and> vm_cnt st (frame_of x) = 0
         else vm_walk pd t' n = vm_walk pd st n" for n
    proof (cases "n = ?p + i")
      case True
      then show ?thesis using new by simp
    next
      case False
      have "if ?p \<le> n \<and> n < ?p + i
         then \<exists>x. vm_walk pd t n = Some x \<and> user_entry flags x \<and>
           16384 \<le> frame_of x \<and> vm_cnt st (frame_of x) = 0
         else vm_walk pd t n = vm_walk pd st n" using t unfolding P_def by blast
      then show ?thesis using old [OF False] False by (auto split: if_splits)
    qed
    moreover have "\<forall>f. vm_cnt st f \<le> vm_cnt t' f" using t M(6) c0 by (simp add: P_def)
    moreover have "vm_framed pd st t'" using t M(2) vm_framed_trans by (simp only: P_def) blast
    ultimately show ?thesis using M(1) B by (simp only: P_def) blast
  qed
  have "P (0 + ?k) st'"
  proof (rule rfor_inv_sound [where P = P])
    show "rfor (\<lambda>i. page_dict_map_page pd (page_alligned_left start + of_nat i * PAGE_SIZE) flags)
        0 ?k st = Inr st'"
      using run by (simp add: page_dict_map_interval_def Let_def page_count_eq [OF nw(1)])
    show "P 0 st" using ok bal vm_framed_refl by (auto simp: P_def)
  qed (use step in auto)
  then show ?thesis by (simp add: P_def)
qed

section \<open>Copying an address space\<close>

definition tab_refs :: "u32 list option \<Rightarrow> nat \<Rightarrow> nat \<Rightarrow> nat" where
  "tab_refs c j f = card {k. k < j \<and> (\<exists>e. pick c k = Some e \<and> frame_of e = f)}"

lemma tab_refs_0 [simp]: "tab_refs c 0 f = 0"
  by (simp add: tab_refs_def)

lemma tab_refs_Suc: "tab_refs c (Suc j) f = tab_refs c j f +
    (case pick c j of Some e \<Rightarrow> if frame_of e = f then 1 else 0 | None \<Rightarrow> 0)"
proof -
  have "{k. k < Suc j \<and> (\<exists>e. pick c k = Some e \<and> frame_of e = f)} =
      {k. k < j \<and> (\<exists>e. pick c k = Some e \<and> frame_of e = f)} \<union>
      (case pick c j of Some e \<Rightarrow> if frame_of e = f then {j} else {} | None \<Rightarrow> {})"
    by (auto simp: less_Suc_eq split: option.splits if_splits)
  then show ?thesis by (auto simp: tab_refs_def split: option.splits)
qed

lemma tab_refs_le: "tab_refs c j f \<le> j"
proof -
  have "tab_refs c j f \<le> card {..< j}" unfolding tab_refs_def by (rule card_mono) auto
  then show ?thesis by simp
qed

lemma tab_refs_mono: "i \<le> j \<Longrightarrow> tab_refs c i f \<le> tab_refs c j f"
  unfolding tab_refs_def by (rule card_mono) auto

lemma table_share:
  assumes d: "vm_mem st c = Some d" "length d = 1024" and inv: "pmm_inv (vm_pmm st)"
    and room: "\<And>f. vm_cnt st f + 1024 < 2 ^ 32"
    and rng: "\<And>k e. k < 1024 \<Longrightarrow> pick (Some d) k = Some e \<Longrightarrow> frame_of e < vm_size st"
  shows "\<exists>p. rfor (pt_each pmm_set_alloced c) 0 1024 st = Inr (st\<lparr> vm_pmm := p \<rparr>) \<and> pmm_inv p \<and>
    pmm_size p = vm_size st \<and> (\<forall>f. pmm_cnt p f = vm_cnt st f + tab_refs (Some d) 1024 f)"
proof -
  define P where "P j t = (\<exists>p. t = st\<lparr> vm_pmm := p \<rparr> \<and> pmm_inv p \<and> pmm_size p = vm_size st \<and>
    (\<forall>f. pmm_cnt p f = vm_cnt st f + tab_refs (Some d) j f))" for j t
  have "\<exists>t. rfor (pt_each pmm_set_alloced c) 0 1024 st = Inr t \<and> P 1024 t"
  proof (rule rfor_inv)
    show "P 0 st" using inv by (auto simp: P_def intro!: exI [of _ "vm_pmm st"])
  next
    fix j t assume j: "j < 1024" and "P j t"
    then obtain p where p: "t = st\<lparr> vm_pmm := p \<rparr>" "pmm_inv p" "pmm_size p = vm_size st"
      "\<And>f. pmm_cnt p f = vm_cnt st f + tab_refs (Some d) j f" by (auto simp: P_def)
    have rd: "pc_read c j (st\<lparr> vm_pmm := p \<rparr>) = Inr (d ! j)" using d j by (simp add: pc_read_ok)
    show "\<exists>t'. pt_each pmm_set_alloced c j t = Inr t' \<and> P (Suc j) t'"
    proof (cases "present (d ! j)")
      case False
      then have "pick (Some d) j = None" by (simp add: pick_def)
      then have "P (Suc j) t" using p by (auto simp: P_def tab_refs_Suc)
      then show ?thesis using False by (simp add: pt_each_def rd p(1))
    next
      case True
      let ?e = "d ! j"
      have pk: "pick (Some d) j = Some ?e" using True by (simp add: pick_def)
      have "tab_refs (Some d) j (frame_of ?e) \<le> j" by (rule tab_refs_le)
      then have "pmm_cnt p (frame_of ?e) + 1 < 2 ^ 32" using p(4) room [of "frame_of ?e"] j by simp
      then obtain p' where p': "pmm_set_alloced (PAGE_ADDR ?e) p = Inr p'" "pmm_inv p'"
        "pmm_cnt p' = (pmm_cnt p)(frame_of ?e := pmm_cnt p (frame_of ?e) + 1)" "pmm_size p' = pmm_size p"
        using pmm_set_alloced_ok [OF p(2), of "PAGE_ADDR ?e"] rng [OF j pk] p(3) by auto
      have "P (Suc j) (st\<lparr> vm_pmm := p' \<rparr>)"
        unfolding P_def by (rule exI [of _ p']) (use p p' pk in \<open>simp add: tab_refs_Suc\<close>)
      then show ?thesis using True p'(1) by (simp add: pt_each_def rd with_pmm_def p(1))
    qed
  qed simp
  then show ?thesis by (auto simp: P_def)
qed

lemma table_drop:
  assumes d: "vm_mem st c = Some d" "length d = 1024" and inv: "pmm_inv (vm_pmm st)"
    and enough: "\<And>f. tab_refs (Some d) 1024 f \<le> vm_cnt st f"
    and hi: "\<And>f. f < 16384 \<Longrightarrow> tab_refs (Some d) 1024 f = 0 \<or> tab_refs (Some d) 1024 f < vm_cnt st f"
  shows "\<exists>p. rfor (pt_each pmm_drop_frame c) 0 1024 st = Inr (st\<lparr> vm_pmm := p \<rparr>) \<and> pmm_inv p \<and>
    pmm_size p = vm_size st \<and> (\<forall>f. pmm_cnt p f = vm_cnt st f - tab_refs (Some d) 1024 f)"
proof -
  define P where "P j t = (\<exists>p. t = st\<lparr> vm_pmm := p \<rparr> \<and> pmm_inv p \<and> pmm_size p = vm_size st \<and>
    (\<forall>f. pmm_cnt p f = vm_cnt st f - tab_refs (Some d) j f))" for j t
  have "\<exists>t. rfor (pt_each pmm_drop_frame c) 0 1024 st = Inr t \<and> P 1024 t"
  proof (rule rfor_inv)
    show "P 0 st" using inv by (auto simp: P_def intro!: exI [of _ "vm_pmm st"])
  next
    fix j t assume j: "j < 1024" and "P j t"
    then obtain p where p: "t = st\<lparr> vm_pmm := p \<rparr>" "pmm_inv p" "pmm_size p = vm_size st"
      "\<And>f. pmm_cnt p f = vm_cnt st f - tab_refs (Some d) j f" by (auto simp: P_def)
    have rd: "pc_read c j (st\<lparr> vm_pmm := p \<rparr>) = Inr (d ! j)" using d j by (simp add: pc_read_ok)
    show "\<exists>t'. pt_each pmm_drop_frame c j t = Inr t' \<and> P (Suc j) t'"
    proof (cases "present (d ! j)")
      case False
      then have "pick (Some d) j = None" by (simp add: pick_def)
      then have "P (Suc j) t" using p by (auto simp: P_def tab_refs_Suc)
      then show ?thesis using False by (simp add: pt_each_def rd p(1))
    next
      case True
      let ?e = "d ! j" and ?f = "frame_of (d ! j)"
      have pk: "pick (Some d) j = Some ?e" using True by (simp add: pick_def)
      have sm: "Suc (tab_refs (Some d) j ?f) \<le> tab_refs (Some d) 1024 ?f"
        using tab_refs_mono [of "Suc j" 1024 "Some d" ?f] j pk by (simp add: tab_refs_Suc)
      have c0: "0 < pmm_cnt p ?f" using p(4) [of ?f] enough [of ?f] sm by linarith
      have fs: "?f < pmm_size p"
        using c0 p(2) by (auto simp: pmm_cnt_def pmm_inv_def split: if_splits)
      have "16384 \<le> ?f \<or> 1 < pmm_cnt p ?f" using p(4) [of ?f] hi [of ?f] sm by linarith
      then have h: "4096 * 16384 \<le> unat (PAGE_ADDR ?e) \<or> 1 < pmm_cnt p (frame_of (PAGE_ADDR ?e))"
        by (simp add: unat_PAGE_ADDR)
      obtain p' where p': "pmm_free_frame (PAGE_ADDR ?e) p = Inr (pmm_cnt p ?f = 1, p')" "pmm_inv p'"
        "pmm_cnt p' = (pmm_cnt p)(?f := pmm_cnt p ?f - 1)" "pmm_size p' = pmm_size p"
        using pmm_free_frame_ok [OF p(2) _ _ h] c0 fs by auto
      have "P (Suc j) (st\<lparr> vm_pmm := p' \<rparr>)"
        unfolding P_def by (rule exI [of _ p']) (use p p' pk in \<open>simp add: tab_refs_Suc\<close>)
      then show ?thesis using True p'(1)
        by (simp add: pt_each_def rd with_pmm_def pmm_drop_frame_def p(1))
    qed
  qed simp
  then show ?thesis by (auto simp: P_def)
qed

definition walk_upto :: "(nat \<Rightarrow> u32 option) \<Rightarrow> nat \<Rightarrow> nat \<Rightarrow> u32 option" where
  "walk_upto m i n = (if n div 1024 < i then m n else None)"

lemma map_refs_upto_Suc:
  assumes fin: "finite (dom m)" and row: "\<And>k. k < 1024 \<Longrightarrow> m (1024 * i + k) = pick c k"
  shows "map_refs (walk_upto m (Suc i)) f = map_refs (walk_upto m i) f + tab_refs c 1024 f"
proof -
  let ?A = "{n. \<exists>e. walk_upto m i n = Some e \<and> frame_of e = f}"
  let ?K = "{k. k < 1024 \<and> (\<exists>e. pick c k = Some e \<and> frame_of e = f)}"
  have eq: "{n. \<exists>e. walk_upto m (Suc i) n = Some e \<and> frame_of e = f} = ?A \<union> (\<lambda>k. 1024 * i + k) ` ?K"
  proof (intro equalityI subsetI)
    fix n assume "n \<in> {n. \<exists>e. walk_upto m (Suc i) n = Some e \<and> frame_of e = f}"
    then obtain e where e: "walk_upto m (Suc i) n = Some e" "frame_of e = f" by auto
    then have q: "n div 1024 < Suc i" "m n = Some e" by (auto simp: walk_upto_def split: if_splits)
    show "n \<in> ?A \<union> (\<lambda>k. 1024 * i + k) ` ?K"
    proof (cases "n div 1024 < i")
      case True
      then show ?thesis using q e by (auto simp: walk_upto_def)
    next
      case False
      then have "n div 1024 = i" using q by simp
      then have n: "n = 1024 * i + n mod 1024" by auto
      then have "pick c (n mod 1024) = Some e" using row [of "n mod 1024"] q(2) by simp
      then have "n mod 1024 \<in> ?K" using e(2) by simp
      then show ?thesis using n by blast
    qed
  next
    fix n assume "n \<in> ?A \<union> (\<lambda>k. 1024 * i + k) ` ?K"
    then show "n \<in> {n. \<exists>e. walk_upto m (Suc i) n = Some e \<and> frame_of e = f}"
      using row by (auto simp: walk_upto_def split: if_splits)
  qed
  have "finite ?A" by (rule finite_subset [OF _ fin]) (auto simp: walk_upto_def split: if_splits)
  moreover have "?A \<inter> (\<lambda>k. 1024 * i + k) ` ?K = {}" by (auto simp: walk_upto_def split: if_splits)
  moreover have "card ((\<lambda>k. 1024 * i + k) ` ?K) = tab_refs c 1024 f"
    unfolding tab_refs_def by (rule card_image) (simp add: inj_on_def)
  moreover have "finite ?K" by simp
  ultimately show ?thesis unfolding map_refs_def eq by (subst card_Un_disjoint) auto
qed

lemma pd_wf_other:
  assumes wf: "pd_wf pd mem" and eq: "\<forall>c \<in> conts pd mem. mem' c = mem c"
  shows "pd_wf pd mem'" "dir_lookup pd mem' = dir_lookup pd mem" "pg_entry pd mem' = pg_entry pd mem"
    "conts pd mem' = conts pd mem"
proof -
  have d: "mem' (page_dir pd) = mem (page_dir pd)" using eq by (simp add: conts_def)
  then show dl: "dir_lookup pd mem' = dir_lookup pd mem" by (simp add: dir_lookup_def fun_eq_iff)
  have t: "mem' (tbl_of e) = mem (tbl_of e)" if "i < 1024" "dir_lookup pd mem i = Some e" for i e
    by (rule bspec [OF eq]) (use that in \<open>auto simp: conts_def\<close>)
  show "pd_wf pd mem'" using wf t unfolding pd_wf_def dl tbl_wf_def d by auto
  show "pg_entry pd mem' = pg_entry pd mem"
  proof
    fix n
    have "mem' (tbl_of e) = mem (tbl_of e)" if "n < 2 ^ 20" "dir_lookup pd mem (n div 1024) = Some e" for e
      using t [OF page_div [OF that(1)] that(2)] .
    then show "pg_entry pd mem' n = pg_entry pd mem n"
      by (auto simp: pg_entry_def dl split: option.splits)
  qed
  show "conts pd mem' = conts pd mem" by (simp add: conts_def dl)
qed

lemma conts_mem: "pd_wf pd mem \<Longrightarrow> c \<in> conts pd mem \<Longrightarrow> mem c \<noteq> None"
  using pd_wf_dir [of pd mem] pd_wf_tbl [of pd mem]
  by (fastforce simp: conts_def tbl_wf_def full_container_def)

definition copy_inv :: "page_dict_t \<Rightarrow> page_dict_t \<Rightarrow> vm_t \<Rightarrow> nat \<Rightarrow> vm_t \<Rightarrow> bool" where
  "copy_inv dst src st0 i t =
    (vm_ok src t \<and> vm_ok dst t \<and> conts src (vm_mem t) \<inter> conts dst (vm_mem t) = {} \<and>
     vm_walk src t = vm_walk src st0 \<and> dir_lookup src (vm_mem t) = dir_lookup src (vm_mem st0) \<and>
     vm_walk dst t = walk_upto (vm_walk src st0) i \<and>
     (\<forall>j < 1024. i \<le> j \<longrightarrow> dir_lookup dst (vm_mem t) j = None) \<and>
     (\<forall>f. vm_cnt t f = vm_cnt st0 f + map_refs (walk_upto (vm_walk src st0) i) f) \<and>
     vm_size t = vm_size st0 \<and> vm_ram t = vm_ram st0 \<and> 1024 - i \<le> length (vm_pool t))"

lemma map_refs_upto_le: "map_refs (walk_upto (vm_walk pd st) i) f \<le> 2 ^ 20"
proof -
  have "map_refs (walk_upto (vm_walk pd st) i) f \<le> card {..< 2 ^ 20 :: nat}"
    unfolding map_refs_def
    by (rule card_mono) (auto simp: walk_upto_def vm_walk_def pg_entry_def split: if_splits)
  then show ?thesis by simp
qed

lemma walk_row: "k < 1024 \<Longrightarrow> i < 1024 \<Longrightarrow> vm_walk pd st (1024 * i + k) =
    (case dir_lookup pd (vm_mem st) i of Some e \<Rightarrow> pick (vm_mem st (tbl_of e)) k | None \<Rightarrow> None)"
  by (simp add: vm_walk_def pg_entry_def cong: option.case_cong)

lemma walk_upto_empty_row:
  assumes "i < 1024" "dir_lookup pd (vm_mem st) i = None"
  shows "walk_upto (vm_walk pd st) (Suc i) = walk_upto (vm_walk pd st) i"
proof
  fix n
  have "vm_walk pd st n = None" if "n div 1024 = i"
    using that assms by (simp add: vm_walk_def pg_entry_def)
  then show "walk_upto (vm_walk pd st) (Suc i) n = walk_upto (vm_walk pd st) i n"
    by (auto simp: walk_upto_def less_Suc_eq)
qed

lemma copy_entry_word:
  assumes "block_ok v" "present e"
  defines "x \<equiv> (v - RAM_VIRTUAL_START) OR PAGE_FLAGS e"
  shows "present x" "tbl_of x = v" "PAGE_ADDR x \<le> KERNEL_END - RAM_VIRTUAL_START"
proof -
  have fl: "flag_bits (PAGE_FLAGS e)" unfolding flag_bits_def PAGE_FLAGS_def
    by (simp only: and.assoc bit.conj_cancel_right and_zero_eq)
  have "present (PAGE_FLAGS e)"
    using assms(2) by (simp add: present_def PAGE_FLAGS_def PAGE_PRESENT_def and.assoc)
  then show "present x" by (simp add: x_def present_or)
  have a: "PAGE_ADDR x = v - RAM_VIRTUAL_START"
    unfolding x_def PAGE_ADDR_or PAGE_ADDR_flags [OF fl] aligned_page_addr [OF block_phys(2) [OF assms(1)]]
    by simp
  then show "tbl_of x = v" by (simp add: tbl_of_def)
  show "PAGE_ADDR x \<le> KERNEL_END - RAM_VIRTUAL_START" unfolding a by (rule block_phys(3) [OF assms(1)])
qed

lemma page_dict_copy_step:
  assumes ok: "vm_ok src st0" and P: "copy_inv dst src st0 i t" and i: "i < 1024"
    and room: "\<And>f. vm_cnt st0 f + 2 ^ 20 + 1024 < 2 ^ 32"
    and rng: "\<And>n e. vm_walk src st0 n = Some e \<Longrightarrow> frame_of e < vm_size st0"
  shows "\<exists>t'. page_dict_copy_entry dst src i t = Inr t' \<and> copy_inv dst src st0 (Suc i) t'"
proof -
  let ?m = "vm_mem t" and ?W = "vm_walk src st0"
  have wfs: "pd_wf src ?m" and wfd: "pd_wf dst ?m" and pool: "pool_ok t" and pinv: "pmm_inv (vm_pmm t)"
    and dis: "conts src ?m \<inter> conts dst ?m = {}" and ws: "vm_walk src t = ?W"
    and ds: "dir_lookup src ?m = dir_lookup src (vm_mem st0)" and wd: "vm_walk dst t = walk_upto ?W i"
    and dn: "\<And>j. j < 1024 \<Longrightarrow> i \<le> j \<Longrightarrow> dir_lookup dst ?m j = None"
    and cn: "\<And>f. vm_cnt t f = vm_cnt st0 f + map_refs (walk_upto ?W i) f"
    and sz: "vm_size t = vm_size st0" and rm: "vm_ram t = vm_ram st0" and pl: "1024 - i \<le> length (vm_pool t)"
    using P by (auto simp: copy_inv_def vm_ok_def)
  obtain e where rd: "pc_read (page_dir src) i t = Inr e"
    and dl: "dir_lookup src ?m i = (if present e then Some e else None)"
    using dir_read [OF wfs i] by blast
  show ?thesis
  proof (cases "present e")
    case False
    then have n: "dir_lookup src (vm_mem st0) i = None" using dl ds by simp
    have "copy_inv dst src st0 (Suc i) t"
      using P unfolding copy_inv_def walk_upto_empty_row [OF i n] by auto
    then show ?thesis using False by (simp add: page_dict_copy_entry_def rd)
  next
    case True
    then have de: "dir_lookup src ?m i = Some e" using dl by simp
    note tw = pd_wf_tbl [OF wfs i de]
    obtain s where s: "?m (tbl_of e) = Some s" "length s = 1024"
      using tw by (auto simp: tbl_wf_def full_container_def)
    obtain v g rest where vp: "vm_pool t = (v, g) # rest" using pl i by (cases "vm_pool t") auto
    have v: "block_ok v" "?m v = None" using pool_okD [OF pool, of v g] vp by auto
    have vs: "v \<notin> conts src ?m" and vd: "v \<notin> conts dst ?m"
      using conts_mem [OF wfs, of v] conts_mem [OF wfd, of v] v(2) by auto
    define m1 where "m1 = ?m(v \<mapsto> s)"
    let ?t1 = "t\<lparr> vm_mem := m1, vm_pool := rest \<rparr>"
    have m1_src: "\<forall>c \<in> conts src ?m. m1 c = ?m c" using vs by (auto simp: m1_def)
    have m1_dst: "\<forall>c \<in> conts dst ?m. m1 c = ?m c" using vd by (auto simp: m1_def)
    note S1 = pd_wf_other [where mem' = m1, OF wfs m1_src] and D1 = pd_wf_other [where mem' = m1, OF wfd m1_dst]
    have ne: "v \<noteq> tbl_of e" using s v by auto
    have cc: "page_container_copy v (tbl_of e) (t\<lparr> vm_mem := ?m(v \<mapsto> g), vm_pool := rest \<rparr>) = Inr ?t1"
      using s ne by (simp add: page_container_copy_def m1_def)
    have row: "?W (1024 * i + k) = pick (Some s) k" if "k < 1024" for k
      using walk_row [OF that i, of src t] de s(1) ws by simp
    have "vm_cnt ?t1 f + 1024 < 2 ^ 32" for f
      using cn [of f] room [of f] map_refs_upto_le [of src st0 i f] by simp
    moreover have "frame_of x < vm_size ?t1" if "k < 1024" "pick (Some s) k = Some x" for k x
      using rng [of "1024 * i + k" x] row that sz by simp
    ultimately obtain p where p: "rfor (pt_each pmm_set_alloced v) 0 1024 ?t1 = Inr (?t1\<lparr> vm_pmm := p \<rparr>)"
      "pmm_inv p" "pmm_size p = vm_size t" "\<And>f. pmm_cnt p f = vm_cnt t f + tab_refs (Some s) 1024 f"
      using table_share [of ?t1 v s] s(2) pinv by (auto simp: m1_def)
    define x where "x = (v - RAM_VIRTUAL_START) OR PAGE_FLAGS e"
    note X = copy_entry_word [OF v(1) True, folded x_def]
    obtain d where d: "?m (page_dir dst) = Some d" "length d = 1024" using pd_wf_dir [OF wfd] by blast
    have d1: "m1 (page_dir dst) = Some d" using d(1) m1_dst by (simp add: conts_def)
    define m2 where "m2 = m1(page_dir dst \<mapsto> d[i := x])"
    define t' where "t' = t\<lparr> vm_mem := m2, vm_pool := rest, vm_pmm := p \<rparr>"
    have fresh: "tbl_of x \<notin> conts dst m1" unfolding X(2) D1(4) by (rule vd)
    have dnone: "dir_lookup dst m1 i = None" unfolding D1(2) using dn i by simp
    have m1v: "m1 (tbl_of x) = Some s" by (simp add: X(2) m1_def)
    note I = dir_install [OF D1(1) i d1 d(2) dnone X(1,3) m1v s(2) fresh, folded m2_def]
    have m2_src: "\<forall>c \<in> conts src m1. m2 c = m1 c"
    proof
      fix c assume that: "c \<in> conts src m1"
      have "page_dir dst \<in> conts dst ?m" by (simp add: conts_def)
      then have "c \<noteq> page_dir dst" using that dis S1(4) by auto
      then show "m2 c = m1 c" by (simp add: m2_def)
    qed
    note S2 = pd_wf_other [where mem' = m2, OF S1(1) m2_src]
    have run: "page_dict_copy_entry dst src i t = Inr t'"
      using cc p(1) d1 d(2) i True
      by (simp add: page_dict_copy_entry_def rd tbl_virt [OF tw] page_container_create_def vp
          page_table_copy_def block_phys(1) [OF v(1)] pc_write_def t'_def m2_def x_def)
    have walkd: "vm_walk dst t' = walk_upto ?W (Suc i)"
    proof
      fix n
      have "vm_walk dst t n = walk_upto ?W i n" by (simp add: wd)
      moreover have "?W n = pick (Some s) (n mod 1024)" if "n div 1024 = i"
      proof -
        have "n = 1024 * i + n mod 1024" using that by auto
        then show ?thesis using row [of "n mod 1024"] by simp
      qed
      moreover have "?W n = None" if "\<not> n < 2 ^ 20" using that by (simp add: vm_walk_def pg_entry_def)
      ultimately show "vm_walk dst t' n = walk_upto ?W (Suc i) n"
        using I(3) [of n] D1(3) by (auto simp: vm_walk_def t'_def walk_upto_def less_Suc_eq)
    qed
    have cnt': "vm_cnt t' f = vm_cnt st0 f + map_refs (walk_upto ?W (Suc i)) f" for f
      using map_refs_upto_Suc [OF finite_vm_walk row] p(4) [of f] cn [of f] by (simp add: t'_def)
    have pool': "pool_ok t'"
      unfolding t'_def by (simp, rule pool_ok_pop [OF pool vp]) (use d in \<open>auto simp: m2_def m1_def\<close>)
    have dis': "conts src m2 \<inter> conts dst m2 = {}"
      using dis vs unfolding S2(4) S1(4) I(4) D1(4) X(2) by auto
    have "copy_inv dst src st0 (Suc i) t'"
      unfolding copy_inv_def
    proof (intro conjI allI impI)
      show "vm_ok src t'" "vm_ok dst t'" using S2(1) I(1) pool' p(2) by (simp_all add: vm_ok_def t'_def)
      show "conts src (vm_mem t') \<inter> conts dst (vm_mem t') = {}" using dis' by (simp add: t'_def)
      show "vm_walk src t' = ?W" using ws S1(3) S2(3) by (simp add: vm_walk_def t'_def)
      show "dir_lookup src (vm_mem t') = dir_lookup src (vm_mem st0)" using ds S1(2) S2(2) by (simp add: t'_def)
      show "dir_lookup dst (vm_mem t') j = None" if "j < 1024" "Suc i \<le> j" for j
        using I(2) [OF that(1)] that D1(2) dn [of j] by (simp add: t'_def)
      show "1024 - Suc i \<le> length (vm_pool t')" using pl vp by (simp add: t'_def)
    qed (simp_all add: walkd cnt', simp_all add: t'_def p(3) sz rm)
    then show ?thesis using run by blast
  qed
qed

lemma walk_upto_all: "walk_upto (vm_walk pd st) 1024 = vm_walk pd st"
  by (auto simp: walk_upto_def vm_walk_def pg_entry_def fun_eq_iff)

lemma walk_upto_zero: "walk_upto m 0 = (\<lambda>_. None)"
  by (simp add: walk_upto_def fun_eq_iff)

lemma map_refs_empty [simp]: "map_refs (\<lambda>_. None) f = 0"
  by (simp add: map_refs_def)

lemma page_dict_copy_ok:
  assumes src: "vm_ok src st" and dst: "vm_ok dst st" "\<forall>j < 1024. dir_lookup dst (vm_mem st) j = None"
    and dis: "conts src (vm_mem st) \<inter> conts dst (vm_mem st) = {}"
    and room: "\<And>f. vm_cnt st f + 2 ^ 20 + 1024 < 2 ^ 32"
    and rng: "\<And>n e. vm_walk src st n = Some e \<Longrightarrow> frame_of e < vm_size st"
    and pool: "1024 \<le> length (vm_pool st)"
  shows "\<exists>st'. page_dict_copy dst src st = Inr st' \<and> vm_ok src st' \<and> vm_ok dst st' \<and>
    conts src (vm_mem st') \<inter> conts dst (vm_mem st') = {} \<and>
    vm_walk src st' = vm_walk src st \<and> vm_walk dst st' = vm_walk src st \<and>
    (\<forall>f. vm_cnt st' f = vm_cnt st f + map_refs (vm_walk src st) f) \<and>
    vm_size st' = vm_size st \<and> vm_ram st' = vm_ram st"
proof -
  have "vm_walk dst st = (\<lambda>_. None)"
    using dst(2) page_div by (auto simp: vm_walk_def pg_entry_def fun_eq_iff)
  then have "copy_inv dst src st 0 st"
    using src dst dis pool by (simp add: copy_inv_def walk_upto_zero)
  then have "\<exists>t. rfor (page_dict_copy_entry dst src) 0 1024 st = Inr t \<and> copy_inv dst src st 1024 t"
    by (rule rfor_inv) (use page_dict_copy_step [OF src _ _ room rng] in auto)
  then show ?thesis by (auto simp: page_dict_copy_def copy_inv_def walk_upto_all)
qed

section \<open>Destroying an address space\<close>

definition destroy_inv :: "page_dict_t \<Rightarrow> vm_t \<Rightarrow> nat \<Rightarrow> vm_t \<Rightarrow> bool" where
  "destroy_inv pd st0 i t =
    (pmm_inv (vm_pmm t) \<and> vm_size t = vm_size st0 \<and>
     (\<forall>c. vm_mem t c = (if \<exists>j < i. \<exists>e. dir_lookup pd (vm_mem st0) j = Some e \<and> c = tbl_of e
                      then None else vm_mem st0 c)) \<and>
     (\<forall>f. vm_cnt t f = vm_cnt st0 f - map_refs (walk_upto (vm_walk pd st0) i) f))"

lemma map_refs_upto_mono: "i \<le> j \<Longrightarrow> map_refs (walk_upto (vm_walk pd st) i) f \<le> map_refs (walk_upto (vm_walk pd st) j) f"
  unfolding map_refs_def
proof (rule card_mono)
  show "finite {n. \<exists>e. walk_upto (vm_walk pd st) j n = Some e \<and> frame_of e = f}"
    by (rule finite_subset [OF _ finite_vm_walk [of pd st]]) (auto simp: walk_upto_def split: if_splits)
qed (auto simp: walk_upto_def split: if_splits)

lemma page_dict_destroy_step:
  assumes ok: "vm_ok pd st" and P: "destroy_inv pd st i t" and i: "i < 1024"
    and enough: "\<And>f. map_refs (vm_walk pd st) f \<le> vm_cnt st f"
    and hi: "\<And>f. f < 16384 \<Longrightarrow> map_refs (vm_walk pd st) f = 0 \<or> map_refs (vm_walk pd st) f < vm_cnt st f"
  shows "\<exists>t'. (rbind (pc_read (page_dir pd) i t) (\<lambda>entry.
      if \<not> present entry then Inr t
      else rbind (ram_kernel_to_virt (PAGE_ADDR entry)) (\<lambda>pt. page_table_destroy pt t))) = Inr t' \<and>
    destroy_inv pd st (Suc i) t'"
proof -
  let ?W = "vm_walk pd st"
  have wf: "pd_wf pd (vm_mem st)" using ok by (simp add: vm_ok_def)
  have pinv: "pmm_inv (vm_pmm t)" and sz: "vm_size t = vm_size st"
    and mem: "\<And>c. vm_mem t c = (if \<exists>j < i. \<exists>e. dir_lookup pd (vm_mem st) j = Some e \<and> c = tbl_of e
                      then None else vm_mem st c)"
    and cn: "\<And>f. vm_cnt t f = vm_cnt st f - map_refs (walk_upto ?W i) f"
    using P unfolding destroy_inv_def by blast+
  have pdm: "vm_mem t (page_dir pd) = vm_mem st (page_dir pd)"
  proof -
    have "\<not> (\<exists>j < i. \<exists>e. dir_lookup pd (vm_mem st) j = Some e \<and> page_dir pd = tbl_of e)"
    proof
      assume "\<exists>j < i. \<exists>e. dir_lookup pd (vm_mem st) j = Some e \<and> page_dir pd = tbl_of e"
      then obtain j e where j: "j < i" "dir_lookup pd (vm_mem st) j = Some e" "page_dir pd = tbl_of e"
        by blast
      have "j < 1024" using j(1) i by simp
      from pd_wf_tbl [OF wf this j(2)] j(3) show False by (simp add: tbl_wf_def)
    qed
    then show ?thesis unfolding mem [of "page_dir pd"] by (rule if_not_P)
  qed
  obtain d where d: "vm_mem st (page_dir pd) = Some d" "length d = 1024" using pd_wf_dir [OF wf] by blast
  have rd: "pc_read (page_dir pd) i t = Inr (d ! i)" using d i pdm by (simp add: pc_read_ok)
  show ?thesis
  proof (cases "present (d ! i)")
    case False
    then have n: "dir_lookup pd (vm_mem st) i = None" using d by (simp add: dir_lookup_def pick_def)
    have "(\<exists>j < Suc i. \<exists>e. dir_lookup pd (vm_mem st) j = Some e \<and> c = tbl_of e) =
        (\<exists>j < i. \<exists>e. dir_lookup pd (vm_mem st) j = Some e \<and> c = tbl_of e)" for c
      using n by (auto simp: less_Suc_eq)
    then have "destroy_inv pd st (Suc i) t"
      using P unfolding destroy_inv_def walk_upto_empty_row [OF i n] by simp
    then show ?thesis using False by (simp add: rd)
  next
    case True
    let ?e = "d ! i"
    have de: "dir_lookup pd (vm_mem st) i = Some ?e" using d True by (simp add: dir_lookup_def pick_def)
    note tw = pd_wf_tbl [OF wf i de]
    obtain s where s: "vm_mem st (tbl_of ?e) = Some s" "length s = 1024"
      using tw by (auto simp: tbl_wf_def full_container_def)
    have "\<not> (\<exists>j < i. \<exists>e. dir_lookup pd (vm_mem st) j = Some e \<and> tbl_of ?e = tbl_of e)"
    proof
      assume "\<exists>j < i. \<exists>e. dir_lookup pd (vm_mem st) j = Some e \<and> tbl_of ?e = tbl_of e"
      then obtain j e where "j < i" "dir_lookup pd (vm_mem st) j = Some e" "tbl_of ?e = tbl_of e" by blast
      then show False using pd_wf_inj [OF wf i _ de, of j e] i by auto
    qed
    then have ts: "vm_mem t (tbl_of ?e) = Some s"
      unfolding mem [of "tbl_of ?e"] s(1) [symmetric] by (rule if_not_P)
    have row: "?W (1024 * i + k) = pick (Some s) k" if "k < 1024" for k
      using walk_row [OF that i, of pd st] de s(1) by simp
    note S = map_refs_upto_Suc [OF finite_vm_walk row]
    have le: "map_refs (walk_upto ?W (Suc i)) f \<le> map_refs ?W f" for f
      using map_refs_upto_mono [of "Suc i" 1024 pd st f] i by (simp add: walk_upto_all)
    have "tab_refs (Some s) 1024 f \<le> vm_cnt t f" for f
      using S [of f] le [of f] enough [of f] cn [of f] by linarith
    moreover have "tab_refs (Some s) 1024 f = 0 \<or> tab_refs (Some s) 1024 f < vm_cnt t f" if "f < 16384" for f
      using S [of f] le [of f] hi [OF that] cn [of f] by linarith
    ultimately obtain p where p: "rfor (pt_each pmm_drop_frame (tbl_of ?e)) 0 1024 t = Inr (t\<lparr> vm_pmm := p \<rparr>)"
      "pmm_inv p" "pmm_size p = vm_size t" "\<And>f. pmm_cnt p f = vm_cnt t f - tab_refs (Some s) 1024 f"
      using table_drop [OF ts s(2) pinv] by blast
    define t' where "t' = page_container_destroy (tbl_of ?e) (t\<lparr> vm_pmm := p \<rparr>)"
    have "(\<exists>j < Suc i. \<exists>e. dir_lookup pd (vm_mem st) j = Some e \<and> c = tbl_of e) =
        (c = tbl_of ?e \<or> (\<exists>j < i. \<exists>e. dir_lookup pd (vm_mem st) j = Some e \<and> c = tbl_of e))" for c
      using de by (auto simp: less_Suc_eq)
    then have "destroy_inv pd st (Suc i) t'"
      unfolding destroy_inv_def t'_def page_container_destroy_def
      using p sz cn S mem by auto
    then show ?thesis using True
      by (simp add: rd tbl_virt [OF tw] page_table_destroy_def p(1) t'_def)
  qed
qed

lemma page_dict_destroy_ok:
  assumes ok: "vm_ok pd st"
    and enough: "\<And>f. map_refs (vm_walk pd st) f \<le> vm_cnt st f"
    and hi: "\<And>f. f < 16384 \<Longrightarrow> map_refs (vm_walk pd st) f = 0 \<or> map_refs (vm_walk pd st) f < vm_cnt st f"
  shows "\<exists>st'. page_dict_destroy pd st = Inr st' \<and> pmm_inv (vm_pmm st') \<and>
    (\<forall>f. vm_cnt st' f = vm_cnt st f - map_refs (vm_walk pd st) f) \<and>
    (\<forall>c. vm_mem st' c = (if c \<in> conts pd (vm_mem st) then None else vm_mem st c))"
proof -
  have "destroy_inv pd st 0 st" using ok by (simp add: destroy_inv_def walk_upto_zero vm_ok_def)
  then have "\<exists>t. rfor (\<lambda>pd_idx st. rbind (pc_read (page_dir pd) pd_idx st) (\<lambda>entry.
        if \<not> present entry then Inr st
        else rbind (ram_kernel_to_virt (PAGE_ADDR entry)) (\<lambda>pt. page_table_destroy pt st))) 0 1024 st = Inr t \<and>
      destroy_inv pd st 1024 t"
    by (rule rfor_inv) (use page_dict_destroy_step [OF ok _ _ enough hi] in auto)
  then obtain t where t: "rfor (\<lambda>pd_idx st. rbind (pc_read (page_dir pd) pd_idx st) (\<lambda>entry.
        if \<not> present entry then Inr st
        else rbind (ram_kernel_to_virt (PAGE_ADDR entry)) (\<lambda>pt. page_table_destroy pt st))) 0 1024 st = Inr t"
    "destroy_inv pd st 1024 t" by blast
  have "page_dict_destroy pd st = Inr (page_container_destroy (page_dir pd) t)"
    by (simp only: page_dict_destroy_def t(1) rbind.simps)
  then show ?thesis using t(2)
    by (auto simp: destroy_inv_def page_container_destroy_def walk_upto_all conts_def)
qed

section \<open>Mapping an interval to given frames, unmapping an interval\<close>

lemma page_dict_map_interval_to_phys_ok:
  assumes ok: "vm_ok pd st" and fl: "flag_bits flags"
    and nw: "unat phys mod 4096 + unat sz + 4095 < 2 ^ 32"
      "frame_of virt + span_pages phys sz \<le> 2 ^ 20" "frame_of phys + span_pages phys sz \<le> vm_size st"
    and off: "unat virt mod 4096 = unat phys mod 4096"
    and room: "\<And>f. vm_cnt st f + 2 ^ 20 < 2 ^ 32"
    and run: "page_dict_map_interval_to_phys pd virt phys sz flags st = Inr st'"
  shows "vm_ok pd st' \<and> vm_framed pd st st' \<and> vm_size st' = vm_size st \<and>
    (\<forall>f. vm_cnt st' f = vm_cnt st f +
       (if frame_of phys \<le> f \<and> f < frame_of phys + span_pages phys sz then 1 else 0)) \<and>
    (\<forall>n. if frame_of virt \<le> n \<and> n < frame_of virt + span_pages phys sz
         then \<exists>x. vm_walk pd st' n = Some x \<and> frame_of x = frame_of phys + (n - frame_of virt)
         else vm_walk pd st' n = vm_walk pd st n)"
proof -
  let ?v = "frame_of virt" and ?p = "frame_of phys" and ?k = "span_pages phys sz"
  have s20: "vm_size st \<le> 2 ^ 20" using ok by (simp add: vm_ok_def pmm_inv_def)
  define P where "P i t = (vm_ok pd t \<and> vm_framed pd st t \<and> vm_size t = vm_size st \<and>
    (\<forall>f. vm_cnt t f = vm_cnt st f + (if ?p \<le> f \<and> f < ?p + i then 1 else 0)) \<and>
    (\<forall>n. if ?v \<le> n \<and> n < ?v + i
         then \<exists>x. vm_walk pd t n = Some x \<and> frame_of x = ?p + (n - ?v)
         else vm_walk pd t n = vm_walk pd st n))" for i t
  have step: "P (Suc i) t'" if i: "i < ?k" and t: "P i t"
    and r: "page_dict_map_page_to_phys pd (page_alligned_left virt + of_nat i * PAGE_SIZE)
      (page_alligned_left phys + of_nat i * PAGE_SIZE) flags t = Inr t'" for i t t'
  proof -
    let ?va = "page_alligned_left virt + of_nat i * PAGE_SIZE"
      and ?pa = "page_alligned_left phys + of_nat i * PAGE_SIZE"
    have fv: "frame_of ?va = ?v + i"
      using frame_of_step(1) [of "page_alligned_left virt" i] i nw(2)
      by (simp add: page_alligned_left_ok PAGE_SIZE_def)
    have fp: "frame_of ?pa = ?p + i" "aligned_page ?pa"
      using frame_of_step [of "page_alligned_left phys" i] i nw(3) s20
      by (simp_all add: page_alligned_left_ok PAGE_SIZE_def)
    have tok: "vm_ok pd t" and tsz: "vm_size t = vm_size st" and fr: "vm_framed pd st t"
      and tc: "\<And>f. vm_cnt t f = vm_cnt st f + (if ?p \<le> f \<and> f < ?p + i then 1 else 0)"
      and tw: "\<And>n. if ?v \<le> n \<and> n < ?v + i
         then \<exists>x. vm_walk pd t n = Some x \<and> frame_of x = ?p + (n - ?v)
         else vm_walk pd t n = vm_walk pd st n"
      using t unfolding P_def by blast+
    have "vm_cnt t (frame_of ?pa) + 1 < 2 ^ 32" using room [of "?p + i"] by (simp add: fp tc)
    moreover have "frame_of ?pa < vm_size t" using i nw(3) by (simp add: fp tsz)
    ultimately have M: "vm_ok pd t'" "vm_framed pd t t'" "vm_size t' = vm_size t"
      "vm_cnt t' = (vm_cnt t)(?p + i := vm_cnt t (?p + i) + 1)"
      "vm_walk pd t' = (vm_walk pd t)(?v + i \<mapsto> ?pa OR flags OR PAGE_PRESENT)"
      using page_dict_map_page_to_phys_ok [OF tok fl fp(2) _ _ r] unfolding fv fp(1) by auto
    have "if ?v \<le> n \<and> n < ?v + Suc i
         then \<exists>x. vm_walk pd t' n = Some x \<and> frame_of x = ?p + (n - ?v)
         else vm_walk pd t' n = vm_walk pd st n" for n
    proof (cases "n = ?v + i")
      case True
      then show ?thesis using M(5) frame_of_or_flags(2) [OF fp(2) fl] fp(1) by simp
    next
      case False
      then show ?thesis using M(5) tw [of n] by (auto split: if_splits)
    qed
    moreover have "vm_cnt t' f = vm_cnt st f + (if ?p \<le> f \<and> f < ?p + Suc i then 1 else 0)" for f
      using M(4) tc [of f] by (auto simp: less_Suc_eq)
    moreover have "vm_size t' = vm_size st" using M(3) tsz by simp
    ultimately show ?thesis using M(1) vm_framed_trans [OF fr M(2)] unfolding P_def by blast
  qed
  have o: "phys - page_alligned_left phys = virt - page_alligned_left virt"
    by (simp add: word_unat_eq_iff page_alligned_left_ok off)
  have "P (0 + ?k) st'"
  proof (rule rfor_inv_sound [where P = P])
    show "rfor (\<lambda>i. page_dict_map_page_to_phys pd (page_alligned_left virt + of_nat i * PAGE_SIZE)
        (page_alligned_left phys + of_nat i * PAGE_SIZE) flags) 0 ?k st = Inr st'"
      using run by (simp add: page_dict_map_interval_to_phys_def Let_def o
          page_count_eq [OF nw(1), unfolded o])
    show "P 0 st" using ok vm_framed_refl by (auto simp: P_def)
  qed (use step in auto)
  then show ?thesis unfolding P_def add_0 .
qed

lemma page_dict_unmap_interval_ok:
  assumes ok: "vm_ok pd st" and bal: "vm_balanced pd ext st"
    and nw: "unat start mod 4096 + unat sz + 4095 < 2 ^ 32" "frame_of start + span_pages start sz \<le> 2 ^ 20"
    and tbl: "\<And>n. frame_of start \<le> n \<Longrightarrow> n < frame_of start + span_pages start sz \<Longrightarrow>
        dir_lookup pd (vm_mem st) (n div 1024) \<noteq> None"
    and hi: "\<And>n x. frame_of start \<le> n \<Longrightarrow> n < frame_of start + span_pages start sz \<Longrightarrow>
        vm_walk pd st n = Some x \<Longrightarrow> 16384 \<le> frame_of x"
  shows "\<exists>st'. page_dict_unmap_interval pd start sz st = Inr st' \<and> vm_ok pd st' \<and>
    vm_balanced pd ext st' \<and> vm_framed pd st st' \<and>
    vm_walk pd st' = (\<lambda>n. if frame_of start \<le> n \<and> n < frame_of start + span_pages start sz
       then None else vm_walk pd st n)"
proof -
  let ?p = "frame_of start" and ?k = "span_pages start sz"
  define P where "P i t = (vm_ok pd t \<and> vm_balanced pd ext t \<and> vm_framed pd st t \<and>
    dir_lookup pd (vm_mem t) = dir_lookup pd (vm_mem st) \<and>
    vm_walk pd t = (\<lambda>n. if ?p \<le> n \<and> n < ?p + i then None else vm_walk pd st n))" for i t
  have "\<exists>t. rfor (\<lambda>i. page_dict_unmap_page pd (page_alligned_left start + of_nat i * PAGE_SIZE)) 0 ?k st = Inr t \<and>
      P ?k t"
  proof (rule rfor_inv)
    show "P 0 st" using ok bal vm_framed_refl by (auto simp: P_def fun_eq_iff)
  next
    fix i t assume i: "i < ?k" and t: "P i t"
    let ?va = "page_alligned_left start + of_nat i * PAGE_SIZE"
    have f: "frame_of ?va = ?p + i"
      using frame_of_step(1) [of "page_alligned_left start" i] i nw(2)
      by (simp add: page_alligned_left_ok PAGE_SIZE_def)
    have T: "vm_ok pd t" "vm_balanced pd ext t" "vm_framed pd st t"
      "dir_lookup pd (vm_mem t) = dir_lookup pd (vm_mem st)"
      "vm_walk pd t = (\<lambda>n. if ?p \<le> n \<and> n < ?p + i then None else vm_walk pd st n)"
      using t by (simp_all add: P_def)
    have "dir_lookup pd (vm_mem t) (PD_INDEX ?va) \<noteq> None"
      using tbl [of "?p + i"] i by (simp add: T(4) PD_INDEX_page f)
    then obtain t' where U: "page_dict_unmap_page pd ?va t = Inr t'" "vm_ok pd t'" "vm_balanced pd ext t'"
      "vm_framed pd t t'" "dir_lookup pd (vm_mem t') = dir_lookup pd (vm_mem t)"
      "vm_walk pd t' = (vm_walk pd t)(?p + i := None)"
      using page_dict_unmap_page_ok [OF T(1,2), of ?va] hi [of "?p + i"] i T(5) unfolding f by auto
    have "P (Suc i) t'"
      using U T vm_framed_trans [OF T(3) U(4)] by (auto simp: P_def fun_eq_iff)
    then show "\<exists>t'. page_dict_unmap_page pd ?va t = Inr t' \<and> P (Suc i) t'" using U(1) by blast
  qed simp
  then show ?thesis
    by (auto simp: page_dict_unmap_interval_def Let_def page_count_eq [OF nw(1)] P_def)
qed

section \<open>A concrete address space\<close>

text \<open>
  One page, at \<open>0x40000000\<close>, mapped to the first frame above the kernel; a second, empty
  directory; 1024 free blocks in the kernel heap.
\<close>

definition pmm1 :: pmm_t where
  "pmm1 = (case pmm_set_alloced 0x4001000 pmm0 of Inr s \<Rightarrow> s | Inl e \<Rightarrow> undefined)"

definition pd_ex :: page_dict_t where "pd_ex = \<lparr> page_dir = 0xC0400000 \<rparr>"
definition pd_ex2 :: page_dict_t where "pd_ex2 = \<lparr> page_dir = 0xC0402000 \<rparr>"

definition vm_ex :: vm_t where
  "vm_ex = \<lparr> vm_pmm = pmm1,
     vm_mem = [0xC0400000 \<mapsto> zero_page[256 := 0x401007], 0xC0401000 \<mapsto> zero_page[0 := 0x4001007],
               0xC0402000 \<mapsto> zero_page],
     vm_pool = map (\<lambda>i. (0xC0403000 + of_nat i * 4096, zero_page)) [0..<1024],
     vm_ram = (\<lambda>_. 0) \<rparr>"

lemma pmm1_facts: "pmm_inv pmm1" "pmm_size pmm1 = 1048575" "pmm_first pmm1 = 16385"
  "pmm_cnt pmm1 f = (if f = 16385 then 1 else 0)"
proof -
  have fr: "frame_of 0x4001000 = 16385" by (simp add: frame_of_def)
  obtain s where "pmm_set_alloced 0x4001000 pmm0 = Inr s" "pmm_inv s"
    "pmm_cnt s = (pmm_cnt pmm0)(16385 := pmm_cnt pmm0 16385 + 1)"
    "pmm_size s = pmm_size pmm0" "pmm_first s = pmm_first pmm0"
    using pmm_set_alloced_ok [OF pmm0_facts(1), of "0x4001000"] by (auto simp: fr pmm0_facts)
  then show "pmm_inv pmm1" "pmm_size pmm1 = 1048575" "pmm_first pmm1 = 16385"
    "pmm_cnt pmm1 f = (if f = 16385 then 1 else 0)"
    by (auto simp: pmm1_def pmm0_facts)
qed

lemma present_ex: "present 0x401007" "present 0x4001007" "tbl_of 0x401007 = 0xC0401000"
  "PAGE_ADDR 0x401007 = 0x401000"
  by (simp_all add: present_def PAGE_PRESENT_def tbl_of_def PAGE_ADDR_def RAM_VIRTUAL_START_def)

lemma vm_ex_dir:
  "i < 1024 \<Longrightarrow> dir_lookup pd_ex (vm_mem vm_ex) i = (if i = 256 then Some 0x401007 else None)"
  "i < 1024 \<Longrightarrow> dir_lookup pd_ex2 (vm_mem vm_ex) i = None"
  using pick_update [of zero_page 256 i "0x401007"]
  by (auto simp: dir_lookup_def vm_ex_def pd_ex_def pd_ex2_def present_ex)

lemma vm_ex_conts: "conts pd_ex (vm_mem vm_ex) = {0xC0400000, 0xC0401000}"
  "conts pd_ex2 (vm_mem vm_ex) = {0xC0402000}"
proof -
  have "{tbl_of e | e i. i < 1024 \<and> dir_lookup pd_ex (vm_mem vm_ex) i = Some e} = {0xC0401000}"
  proof (intro equalityI subsetI)
    fix c assume "c \<in> {tbl_of e | e i. i < 1024 \<and> dir_lookup pd_ex (vm_mem vm_ex) i = Some e}"
    then obtain e i where "c = tbl_of e" "i < 1024" "dir_lookup pd_ex (vm_mem vm_ex) i = Some e" by blast
    then show "c \<in> {0xC0401000}" using vm_ex_dir(1) [of i] by (auto simp: present_ex split: if_splits)
  next
    fix c :: u32 assume "c \<in> {0xC0401000}"
    moreover have "dir_lookup pd_ex (vm_mem vm_ex) 256 = Some 0x401007" using vm_ex_dir(1) [of 256] by simp
    ultimately show "c \<in> {tbl_of e | e i. i < 1024 \<and> dir_lookup pd_ex (vm_mem vm_ex) i = Some e}"
      using present_ex(3) by (intro CollectI exI [of _ "0x401007"] exI [of _ "256 :: nat"]) simp
  qed
  then show "conts pd_ex (vm_mem vm_ex) = {0xC0400000, 0xC0401000}"
    by (simp add: conts_def pd_ex_def)
  have "{tbl_of e | e i. i < 1024 \<and> dir_lookup pd_ex2 (vm_mem vm_ex) i = Some e} = {}"
    using vm_ex_dir(2) by auto
  then show "conts pd_ex2 (vm_mem vm_ex) = {0xC0402000}"
    unfolding conts_def by (simp only:) (simp add: pd_ex2_def)
qed

lemma vm_ex_pool: "pool_ok vm_ex" "length (vm_pool vm_ex) = 1024"
proof -
  let ?v = "\<lambda>i::nat. 0xC0403000 + of_nat i * 4096 :: u32"
  have u: "unat (?v i) = 0xC0403000 + i * 4096" if "i < 1024" for i
  proof -
    have "unat (of_nat i :: u32) = i" using that by (simp add: unat_of_nat)
    then have "unat (of_nat i * 4096 :: u32) = i * 4096" using that by (simp add: unat_word_ariths)
    then show ?thesis using that by (simp add: unat_word_ariths)
  qed
  have "inj_on ?v {0..<1024}"
  proof (rule inj_onI)
    fix i j :: nat assume ij: "i \<in> {0..<1024}" "j \<in> {0..<1024}" "?v i = ?v j"
    then have "unat (?v i) = unat (?v j)" by (simp only:)
    moreover have "unat (?v i) = 0xC0403000 + i * 4096" by (rule u) (use ij in simp)
    moreover have "unat (?v j) = 0xC0403000 + j * 4096" by (rule u) (use ij in simp)
    ultimately show "i = j" by linarith
  qed
  moreover have "block_ok (?v i)" if i: "i < 1024" for i
  proof -
    have "frame_of (?v i) = 0xC0403 + i" unfolding frame_of_def u [OF i] by simp
    then have "aligned_page (?v i)" unfolding aligned_page_iff u [OF i] by simp
    moreover have "RAM_VIRTUAL_START \<le> ?v i" "?v i \<le> KERNEL_END"
      using u [OF i] i by (simp_all add: word_le_nat_alt RAM_VIRTUAL_START_def KERNEL_END_def KHEAP_END_def)
    ultimately show ?thesis by (simp add: block_ok_def)
  qed
  moreover have "vm_mem vm_ex (?v i) = None" if i: "i < 1024" for i
  proof -
    have "?v i \<noteq> 0xC0400000" "?v i \<noteq> 0xC0401000" "?v i \<noteq> 0xC0402000"
      using u [OF i] i by (auto simp: word_unat_eq_iff)
    then show ?thesis by (simp add: vm_ex_def)
  qed
  ultimately show "pool_ok vm_ex" by (auto simp: pool_ok_def vm_ex_def comp_def distinct_map)
  show "length (vm_pool vm_ex) = 1024" by (simp add: vm_ex_def)
qed

lemma vm_ex_ok: "vm_ok pd_ex vm_ex" "vm_ok pd_ex2 vm_ex"
proof -
  have "0x401000 \<le> KERNEL_END - RAM_VIRTUAL_START"
    by (simp add: KERNEL_END_def KHEAP_END_def RAM_VIRTUAL_START_def)
  then have "tbl_wf pd_ex (vm_mem vm_ex) 0x401007"
    by (simp add: tbl_wf_def present_ex pd_ex_def full_container_def vm_ex_def)
  then have "pd_wf pd_ex (vm_mem vm_ex)"
    using vm_ex_dir(1) by (auto simp: pd_wf_def full_container_def pd_ex_def vm_ex_def split: if_splits)
  then show "vm_ok pd_ex vm_ex" using vm_ex_pool pmm1_facts by (simp add: vm_ok_def) (simp add: vm_ex_def pmm1_facts)
  have "pd_wf pd_ex2 (vm_mem vm_ex)"
    using vm_ex_dir(2) by (auto simp: pd_wf_def full_container_def pd_ex2_def vm_ex_def)
  then show "vm_ok pd_ex2 vm_ex" using vm_ex_pool by (simp add: vm_ok_def) (simp add: vm_ex_def pmm1_facts)
qed

lemma vm_ex_walk: "vm_walk pd_ex vm_ex = [262144 \<mapsto> 0x4001007]"
proof
  fix n
  show "vm_walk pd_ex vm_ex n = [262144 \<mapsto> 0x4001007] n"
  proof (cases "n < 2 ^ 20")
    case True
    have "pick (vm_mem vm_ex 0xC0401000) (n mod 1024) = (if n mod 1024 = 0 then Some 0x4001007 else None)"
      using pick_update [of zero_page 0 "n mod 1024" "0x4001007"] by (simp add: vm_ex_def present_ex)
    moreover have "n div 1024 = 256 \<and> n mod 1024 = 0 \<longleftrightarrow> n = 262144"
      using div_mult_mod_eq [of n 1024] by auto
    ultimately show ?thesis using True vm_ex_dir(1) [OF page_div [OF True]]
      by (auto simp: vm_walk_def pg_entry_def present_ex)
  qed (auto simp: vm_walk_def pg_entry_def)
qed

lemma vm_ex_cnt: "vm_cnt vm_ex f = (if f = 16385 then 1 else 0)" "vm_size vm_ex = 1048575"
  "pmm_first (vm_pmm vm_ex) = 16385"
  by (simp_all add: vm_ex_def pmm1_facts)

lemma vm_ex_refs: "map_refs (vm_walk pd_ex vm_ex) f = (if f = 16385 then 1 else 0)"
proof -
  have "map_refs (\<lambda>_. None) f = 0" by simp
  then show ?thesis unfolding vm_ex_walk
    using map_refs_upd [of Map.empty 262144 "0x4001007" f] by (simp add: frame_of_def)
qed

lemma vm_ex_balanced: "vm_balanced pd_ex (\<lambda>_. 0) vm_ex"
  by (simp add: vm_balanced_def vm_ex_refs vm_ex_cnt)

section \<open>Properties\<close>

text \<open>C1: mapping an unmapped page succeeds while there is a free block and a free frame; the page
  then refers to a frame nobody used, with the flags asked for; every other page, the tables of
  the other directories and the bytes of memory are unchanged, and the counters still equal the
  numbers of entries that refer to the frames.\<close>

lemma page_dict_map_page_correct:
  assumes ok: "vm_ok pd st" and bal: "vm_balanced pd ext st" and fl: "flag_bits flags"
    and um: "vm_walk pd st (frame_of va) = None" and pool: "vm_pool st \<noteq> []"
    and fr: "pmm_first (vm_pmm st) \<le> f" "f < vm_size st" "vm_cnt st f = 0"
  shows "\<exists>st' a. page_dict_map_page pd va flags st = Inr st' \<and> vm_ok pd st' \<and> vm_balanced pd ext st' \<and>
    vm_framed pd st st' \<and> vm_ram st' = vm_ram st \<and>
    aligned_page a \<and> vm_cnt st (frame_of a) = 0 \<and> vm_cnt st' = (vm_cnt st)(frame_of a := 1) \<and>
    vm_walk pd st' = (vm_walk pd st)(frame_of va \<mapsto> a OR flags OR PAGE_PRESENT OR PAGE_RW)"
proof -
  obtain st' where st': "page_dict_map_page pd va flags st = Inr st'"
    using page_dict_map_page_total [OF ok fl _ fr, of va] pool by blast
  show ?thesis using page_dict_map_page_ok [OF ok fl st'] map_page_balanced [OF ok fl st' bal um] st'
    by (elim exE conjE) (intro exI conjI, assumption+)
qed

lemma page_dict_map_page_correct_witness:
  "\<exists>st' a. page_dict_map_page pd_ex 0x8000 4 vm_ex = Inr st' \<and> vm_ok pd_ex st' \<and>
    vm_balanced pd_ex (\<lambda>_. 0) st' \<and> vm_framed pd_ex vm_ex st' \<and> vm_ram st' = vm_ram vm_ex \<and>
    aligned_page a \<and> vm_cnt vm_ex (frame_of a) = 0 \<and> vm_cnt st' = (vm_cnt vm_ex)(frame_of a := 1) \<and>
    vm_walk pd_ex st' = (vm_walk pd_ex vm_ex)(frame_of 0x8000 \<mapsto> a OR 4 OR PAGE_PRESENT OR PAGE_RW)"
  by (rule page_dict_map_page_correct [where f = 20000])
     (use vm_ex_ok vm_ex_balanced vm_ex_pool(2) in
      \<open>auto simp: vm_ex_walk vm_ex_cnt flag_bits_def frame_of_def\<close>)

text \<open>C4: unmapping a page removes exactly its entry and exactly one reference to its frame.\<close>

lemma page_dict_unmap_page_correct:
  assumes "vm_ok pd st" "vm_balanced pd ext st" "vm_walk pd st (frame_of va) = Some x" "16384 \<le> frame_of x"
  shows "\<exists>st'. page_dict_unmap_page pd va st = Inr st' \<and> vm_ok pd st' \<and> vm_balanced pd ext st' \<and>
    vm_framed pd st st' \<and> vm_walk pd st' = (vm_walk pd st)(frame_of va := None) \<and>
    vm_cnt st' = (vm_cnt st)(frame_of x := vm_cnt st (frame_of x) - 1)"
proof -
  have "dir_lookup pd (vm_mem st) (PD_INDEX va) \<noteq> None"
    using assms(3) by (auto simp: vm_walk_split split: option.splits)
  then obtain st' where st': "page_dict_unmap_page pd va st = Inr st'" "vm_ok pd st'"
    "vm_balanced pd ext st'" "vm_framed pd st st'" "vm_walk pd st' = (vm_walk pd st)(frame_of va := None)"
    using page_dict_unmap_page_ok [OF assms(1,2), of va] assms(3,4) by auto
  have "vm_cnt st' f = (if f = frame_of x then vm_cnt st f - 1 else vm_cnt st f)" for f
    using map_refs_del [OF finite_vm_walk assms(3), of f] assms(2) st'(3,5)
    by (auto simp: vm_balanced_def)
  then have "vm_cnt st' = (vm_cnt st)(frame_of x := vm_cnt st (frame_of x) - 1)" by (auto simp: fun_eq_iff)
  then show ?thesis using st' by blast
qed

lemma page_dict_unmap_page_correct_witness:
  "\<exists>st'. page_dict_unmap_page pd_ex 0x40000000 vm_ex = Inr st' \<and> vm_ok pd_ex st' \<and>
    vm_balanced pd_ex (\<lambda>_. 0) st' \<and> vm_framed pd_ex vm_ex st' \<and>
    vm_walk pd_ex st' = (vm_walk pd_ex vm_ex)(frame_of 0x40000000 := None) \<and>
    vm_cnt st' = (vm_cnt vm_ex)(frame_of 0x4001007 := vm_cnt vm_ex (frame_of 0x4001007) - 1)"
  by (rule page_dict_unmap_page_correct)
     (use vm_ex_ok vm_ex_balanced in \<open>auto simp: vm_ex_walk frame_of_def\<close>)

text \<open>mapping an interval maps every page that overlaps it to a frame nobody used, changes no
  other page and keeps the counters equal to the numbers of references.\<close>

lemma page_dict_map_interval_correct:
  assumes "vm_ok pd st" "vm_balanced pd ext st" "flag_bits flags"
    and "unat start mod 4096 + unat sz + 4095 < 2 ^ 32" "frame_of start + span_pages start sz \<le> 2 ^ 20"
    and "\<forall>n. frame_of start \<le> n \<and> n < frame_of start + span_pages start sz \<longrightarrow> vm_walk pd st n = None"
    and "page_dict_map_interval pd start sz flags st = Inr st'"
  shows "vm_ok pd st' \<and> vm_balanced pd ext st' \<and> vm_framed pd st st' \<and>
    (\<forall>n. if frame_of start \<le> n \<and> n < frame_of start + span_pages start sz
         then \<exists>x. vm_walk pd st' n = Some x \<and> user_entry flags x \<and> 16384 \<le> frame_of x \<and>
                  vm_cnt st (frame_of x) = 0
         else vm_walk pd st' n = vm_walk pd st n)"
  using page_dict_map_interval_ok [OF assms(1,3,4,5,2) _ assms(7)] assms(6) by blast

definition vm_ex_iv :: vm_t where
  "vm_ex_iv = (case page_dict_map_interval pd_ex 0x8000 1 4 vm_ex of Inr s \<Rightarrow> s | Inl e \<Rightarrow> undefined)"

lemma span_ex: "span_pages 0x8000 1 = 1" "frame_of 0x8000 = 8"
  by (simp_all add: span_pages_def frame_of_def)

lemma vm_ex_iv_run: "page_dict_map_interval pd_ex 0x8000 1 4 vm_ex = Inr vm_ex_iv"
proof -
  have c: "unat (page_get_num (0x8000 - page_alligned_left 0x8000 + 1)) = Suc 0"
    using page_count_eq [of "0x8000" 1] by (simp add: span_ex)
  have "\<exists>s. page_dict_map_page pd_ex (page_alligned_left 0x8000) 4 vm_ex = Inr s"
    by (rule page_dict_map_page_total [where f = 20000])
       (use vm_ex_ok vm_ex_pool(2) in \<open>auto simp: vm_ex_cnt flag_bits_def\<close>)
  then have "\<exists>s. page_dict_map_interval pd_ex 0x8000 1 4 vm_ex = Inr s"
    unfolding page_dict_map_interval_def Let_def c by auto
  then show ?thesis by (auto simp: vm_ex_iv_def)
qed

lemma page_dict_map_interval_correct_witness:
  "vm_ok pd_ex vm_ex_iv \<and> vm_balanced pd_ex (\<lambda>_. 0) vm_ex_iv \<and> vm_framed pd_ex vm_ex vm_ex_iv \<and>
    (\<forall>n. if frame_of 0x8000 \<le> n \<and> n < frame_of 0x8000 + span_pages 0x8000 1
         then \<exists>x. vm_walk pd_ex vm_ex_iv n = Some x \<and> user_entry 4 x \<and> 16384 \<le> frame_of x \<and>
                  vm_cnt vm_ex (frame_of x) = 0
         else vm_walk pd_ex vm_ex_iv n = vm_walk pd_ex vm_ex n)"
  by (rule page_dict_map_interval_correct)
     (use vm_ex_ok vm_ex_balanced vm_ex_iv_run in \<open>auto simp: span_ex vm_ex_walk flag_bits_def\<close>)

text \<open>C2: copying an address space into an empty directory gives the copy the same translations in
  tables of its own and adds, for every frame, one reference per page of the source mapped to it.\<close>

lemma page_dict_copy_correct:
  assumes "vm_ok src st" "vm_ok dst st" "\<forall>j < 1024. dir_lookup dst (vm_mem st) j = None"
    and "conts src (vm_mem st) \<inter> conts dst (vm_mem st) = {}"
    and "\<forall>f. vm_cnt st f + 2 ^ 20 + 1024 < 2 ^ 32"
    and "\<forall>n e. vm_walk src st n = Some e \<longrightarrow> frame_of e < vm_size st"
    and "1024 \<le> length (vm_pool st)"
  shows "\<exists>st'. page_dict_copy dst src st = Inr st' \<and> vm_ok src st' \<and> vm_ok dst st' \<and>
    conts src (vm_mem st') \<inter> conts dst (vm_mem st') = {} \<and>
    vm_walk src st' = vm_walk src st \<and> vm_walk dst st' = vm_walk src st \<and>
    (\<forall>f. vm_cnt st' f = vm_cnt st f + map_refs (vm_walk src st) f)"
  using page_dict_copy_ok [OF assms(1-4) _ _ assms(7)] assms(5,6) by blast

lemma page_dict_copy_correct_witness:
  "\<exists>st'. page_dict_copy pd_ex2 pd_ex vm_ex = Inr st' \<and> vm_ok pd_ex st' \<and> vm_ok pd_ex2 st' \<and>
    conts pd_ex (vm_mem st') \<inter> conts pd_ex2 (vm_mem st') = {} \<and>
    vm_walk pd_ex st' = vm_walk pd_ex vm_ex \<and> vm_walk pd_ex2 st' = vm_walk pd_ex vm_ex \<and>
    (\<forall>f. vm_cnt st' f = vm_cnt vm_ex f + map_refs (vm_walk pd_ex vm_ex) f)"
  by (rule page_dict_copy_correct)
     (use vm_ex_ok vm_ex_pool(2) in
      \<open>auto simp: vm_ex_dir vm_ex_conts vm_ex_walk vm_ex_cnt frame_of_def split: if_splits\<close>)

text \<open>C3: destroying an address space drops one reference per mapped page, frees its tables and its
  directory and leaves every other container alone.\<close>

lemma page_dict_destroy_correct:
  assumes "vm_ok pd st" "vm_balanced pd ext st"
    and "\<forall>f < 16384. map_refs (vm_walk pd st) f = 0 \<or> 0 < ext f"
  shows "\<exists>st'. page_dict_destroy pd st = Inr st' \<and> pmm_inv (vm_pmm st') \<and> vm_cnt st' = ext \<and>
    (\<forall>c. vm_mem st' c = (if c \<in> conts pd (vm_mem st) then None else vm_mem st c))"
proof -
  have e: "vm_cnt st f = ext f + map_refs (vm_walk pd st) f" for f
    using assms(2) by (simp add: vm_balanced_def)
  obtain st' where st': "page_dict_destroy pd st = Inr st'" "pmm_inv (vm_pmm st')"
    "\<And>f. vm_cnt st' f = vm_cnt st f - map_refs (vm_walk pd st) f"
    "\<forall>c. vm_mem st' c = (if c \<in> conts pd (vm_mem st) then None else vm_mem st c)"
    using page_dict_destroy_ok [OF assms(1)] e assms(3) by force
  then have "vm_cnt st' = ext" by (simp add: fun_eq_iff e)
  then show ?thesis using st' by blast
qed

lemma page_dict_destroy_correct_witness:
  "\<exists>st'. page_dict_destroy pd_ex vm_ex = Inr st' \<and> pmm_inv (vm_pmm st') \<and> vm_cnt st' = (\<lambda>_. 0) \<and>
    (\<forall>c. vm_mem st' c = (if c \<in> conts pd_ex (vm_mem vm_ex) then None else vm_mem vm_ex c))"
  by (rule page_dict_destroy_correct)
     (use vm_ex_ok vm_ex_balanced in \<open>auto simp: vm_ex_refs\<close>)

end
