(* ===== verification/Vmm.thy ===== *)
theory Vmm
  imports Paging
begin

text \<open>
  The virtual memory manager \<^verbatim>\<open>src/src/arch/vmm.c\<close> and the memory system calls of
  \<^verbatim>\<open>src/src/syscall/sys_mem.c\<close>.  \<open>mm_t\<close> holds the fields of the current task that they
  use, \<open>vmm_t\<close> the globals \<open>kernel_page_dict\<close> and \<open>mmio_next_virt\<close>.  Accesses to user
  memory go through the page walk of the CPU; a missing entry is the page fault, whose handler
  \<open>page_fault_top_handler\<close> panics.
\<close>

unbundle bit_operations_syntax

section \<open>User memory\<close>

definition mmu :: "page_dict_t \<Rightarrow> u32 \<Rightarrow> vm_t \<Rightarrow> u32 res" where
  "mmu pd va st = (case vm_walk pd st (frame_of va) of
      Some x \<Rightarrow> Inr (PAGE_ADDR x + OFFSET va)
    | None \<Rightarrow> Inl (Panic ''PAGE FAULT''))"

definition mem_load :: "page_dict_t \<Rightarrow> u32 \<Rightarrow> vm_t \<Rightarrow> u8 res" where
  "mem_load pd va st = rbind (mmu pd va st) (\<lambda>pa. Inr (vm_ram st pa))"

definition mem_store :: "page_dict_t \<Rightarrow> u32 \<Rightarrow> u8 \<Rightarrow> vm_t \<Rightarrow> vm_t res" where
  "mem_store pd va b st =
    rbind (mmu pd va st) (\<lambda>pa. Inr (st\<lparr> vm_ram := (vm_ram st)(pa := b) \<rparr>))"

definition user_memset :: "page_dict_t \<Rightarrow> u32 \<Rightarrow> u8 \<Rightarrow> u32 \<Rightarrow> vm_t \<Rightarrow> vm_t res" where
  "user_memset pd va b n st = rfor (\<lambda>i. mem_store pd (va + of_nat i) b) 0 (unat n) st"

definition user_memcpy :: "page_dict_t \<Rightarrow> u32 \<Rightarrow> bytes \<Rightarrow> vm_t \<Rightarrow> vm_t res" where
  "user_memcpy pd va bs st = rfor (\<lambda>i. mem_store pd (va + of_nat i) (bs ! i)) 0 (length bs) st"

text \<open>A dword of the little-endian target.\<close>

definition dword_bytes :: "u32 \<Rightarrow> bytes" where
  "dword_bytes w = [ucast w, ucast (drop_bit 8 w), ucast (drop_bit 16 w), ucast (drop_bit 24 w)]"

section \<open>vmm.c\<close>

record vmm_t =
  kernel_page_dict :: page_dict_t
  mmio_next_virt :: u32

record mm_t =
  mm_dict :: page_dict_t
  brk :: u32
  brk_start :: u32
  brk_end :: u32
  task_mmap_next :: u32

definition KERNEL_ENTRY_START :: u32 where "KERNEL_ENTRY_START = RAM_VIRTUAL_START + 0x10000"
definition VIDEO_MEMORY_START :: u32 where "VIDEO_MEMORY_START = RAM_VIRTUAL_START + 0xB8000"
definition VIDEO_MEMORY_END :: u32 where "VIDEO_MEMORY_END = VIDEO_MEMORY_START + 4 * 0x400"
definition MMIO_VIRT_BASE :: u32 where "MMIO_VIRT_BASE = 0xF0000000"
definition USER_STACK_TOP :: u32 where "USER_STACK_TOP = 0xBFFFF000"
definition USER_HEAP_LIMIT :: u32 where "USER_HEAP_LIMIT = 0x40000000"
definition USER_MMAP_START :: u32 where "USER_MMAP_START = 0x40000000"
definition USER_MMAP_LIMIT :: u32 where "USER_MMAP_LIMIT = 0xB0000000"

definition vmm_init :: "bool \<Rightarrow> vm_t \<Rightarrow> (vmm_t \<times> vm_t) res" where
  "vmm_init got st =
    rbind (page_dict_create got st) (\<lambda>(pd, st).
    rbind (page_dict_map_interval_to_phys pd KERNEL_ENTRY_START (KERNEL_ENTRY_START - RAM_VIRTUAL_START)
       (VIDEO_MEMORY_START - KERNEL_ENTRY_START) PAGE_KERNEL_FLAGS st) (\<lambda>st.
    rbind (page_dict_map_interval_to_phys pd VIDEO_MEMORY_START (VIDEO_MEMORY_START - RAM_VIRTUAL_START)
       (VIDEO_MEMORY_END - VIDEO_MEMORY_START) PAGE_KERNEL_FLAGS st) (\<lambda>st.
    rbind (page_dict_map_interval_to_phys pd KHEAP_START (KHEAP_START - RAM_VIRTUAL_START)
       (KHEAP_END - KHEAP_START) PAGE_KERNEL_FLAGS st) (\<lambda>st.
    rbind (page_dict_switch pd) (\<lambda>_.
    Inr (\<lparr> kernel_page_dict = pd, mmio_next_virt = MMIO_VIRT_BASE \<rparr>, st))))))"

definition vmm_vaddr_to_phys :: "mm_t \<Rightarrow> u32 \<Rightarrow> vm_t \<Rightarrow> u32 res" where
  "vmm_vaddr_to_phys t va st = page_dict_vaddr_to_phys (mm_dict t) va st"

definition vmm_map_special :: "u32 \<Rightarrow> u32 \<Rightarrow> u32 \<Rightarrow> vmm_t \<Rightarrow> vm_t \<Rightarrow> (u32 \<times> vmm_t \<times> vm_t) res" where
  "vmm_map_special phys sz flags k st =
    (let phys_aligned = page_alligned_left phys;
         offset = phys - phys_aligned;
         page_count = page_get_num (offset + sz);
         virt_aligned = mmio_next_virt k;
         k' = k\<lparr> mmio_next_virt := virt_aligned + page_count * PAGE_SIZE \<rparr>
     in rbind (page_dict_map_interval_to_phys (kernel_page_dict k) virt_aligned phys_aligned
          (page_count * PAGE_SIZE) flags st) (\<lambda>st. Inr (virt_aligned + offset, k', st)))"

definition vmm_map_mmio :: "u32 \<Rightarrow> u32 \<Rightarrow> vmm_t \<Rightarrow> vm_t \<Rightarrow> (u32 \<times> vmm_t \<times> vm_t) res" where
  "vmm_map_mmio phys sz = vmm_map_special phys sz
     (PAGE_PRESENT OR PAGE_RW OR PAGE_CACHE_DISABLE OR PAGE_WRITETHROUGH)"

definition vmm_map_framebuffer :: "u32 \<Rightarrow> u32 \<Rightarrow> vmm_t \<Rightarrow> vm_t \<Rightarrow> (u32 \<times> vmm_t \<times> vm_t) res" where
  "vmm_map_framebuffer phys sz = vmm_map_special phys sz (PAGE_PRESENT OR PAGE_RW OR PAGE_WRITE_COMBINE)"

definition vmm_map_rw :: "u32 \<Rightarrow> u32 \<Rightarrow> vmm_t \<Rightarrow> vm_t \<Rightarrow> (u32 \<times> vmm_t \<times> vm_t) res" where
  "vmm_map_rw phys sz = vmm_map_special phys sz (PAGE_PRESENT OR PAGE_RW)"

definition vmm_map_page :: "mm_t \<Rightarrow> u32 \<Rightarrow> u32 \<Rightarrow> vm_t \<Rightarrow> vm_t res" where
  "vmm_map_page t va flags st = page_dict_map_page (mm_dict t) va flags st"

definition vmm_unmap_page :: "mm_t \<Rightarrow> u32 \<Rightarrow> vm_t \<Rightarrow> vm_t res" where
  "vmm_unmap_page t va st = page_dict_unmap_page (mm_dict t) va st"

definition vmm_map_interval :: "mm_t \<Rightarrow> u32 \<Rightarrow> u32 \<Rightarrow> u32 \<Rightarrow> vm_t \<Rightarrow> vm_t res" where
  "vmm_map_interval t start sz flags st = page_dict_map_interval (mm_dict t) start sz flags st"

definition vmm_unmap_interval :: "mm_t \<Rightarrow> u32 \<Rightarrow> u32 \<Rightarrow> vm_t \<Rightarrow> vm_t res" where
  "vmm_unmap_interval t start sz st = page_dict_unmap_interval (mm_dict t) start sz st"

definition vmm_zmap_interval :: "mm_t \<Rightarrow> u32 \<Rightarrow> u32 \<Rightarrow> u32 \<Rightarrow> vm_t \<Rightarrow> vm_t res" where
  "vmm_zmap_interval t start sz flags st =
    rbind (vmm_map_interval t start sz flags st) (\<lambda>st. user_memset (mm_dict t) start 0 sz st)"

definition vmm_create_process_kernel_page_dict :: "bool \<Rightarrow> vmm_t \<Rightarrow> vm_t \<Rightarrow> (page_dict_t \<times> vm_t) res" where
  "vmm_create_process_kernel_page_dict got k st =
    rbind (page_dict_create got st) (\<lambda>(pd, st).
    rbind (page_dict_copy pd (kernel_page_dict k) st) (\<lambda>st. Inr (pd, st)))"

text \<open>
  The initial stack of a process: the strings of \<open>argv\<close> from the top down, the vector of
  their addresses, \<open>argv\<close>, \<open>argc\<close> and a null return address.  \<open>got\<close>: the \<open>malloc\<close> of the
  vector.  Result 0 means failure.
\<close>

definition stack_sysvals :: "bytes list \<Rightarrow> u32" where
  "stack_sysvals argv = foldl (\<lambda>s a. s + (of_nat (length a) + 1)) (4 * (of_nat (length argv) + 5)) argv"

fun stack_strings :: "page_dict_t \<Rightarrow> bytes list \<Rightarrow> u32 \<Rightarrow> u32 list \<Rightarrow> vm_t \<Rightarrow> (u32 \<times> u32 list \<times> vm_t) res" where
  "stack_strings pd [] sp addrs st = Inr (sp, addrs, st)"
| "stack_strings pd (a # as) sp addrs st =
    (let sp' = sp - (of_nat (length a) + 1) in
     rbind (user_memcpy pd sp' (a @ [0]) st) (\<lambda>st.
     stack_strings pd as sp' (addrs @ [sp']) st))"

definition vmm_user_stack_create ::
  "bool \<Rightarrow> page_dict_t \<Rightarrow> bytes list \<Rightarrow> u32 \<Rightarrow> vm_t \<Rightarrow> (u32 \<times> vm_t) res" where
  "vmm_user_stack_create got pd argv user_stack_size st =
    rbind (rguard (0x400 \<le> user_stack_size) (Assertion ''user_stack_size >= KB'')) (\<lambda>_.
    (let total_size = stack_sysvals argv + user_stack_size in
     rbind (page_dict_map_interval pd (USER_STACK_TOP - total_size) total_size PAGE_USER_FLAGS st) (\<lambda>st.
     rbind (page_dict_switch pd) (\<lambda>_.
     if \<not> got then Inr (0, st)
     else
       rbind (stack_strings pd argv USER_STACK_TOP [] st) (\<lambda>(sp, addrs, st).
       let argv_addrs_size = 4 * (of_nat (length argv) + 1);
           sp = (sp AND NOT 3) - argv_addrs_size
       in rbind (user_memcpy pd sp (concat (map dword_bytes (addrs @ [0]))) st) (\<lambda>st.
          rbind (user_memcpy pd (sp - 4) (dword_bytes sp) st) (\<lambda>st.
          rbind (user_memcpy pd (sp - 8) (dword_bytes (of_nat (length argv))) st) (\<lambda>st.
          rbind (user_memcpy pd (sp - 12) (dword_bytes 0) st) (\<lambda>st.
          Inr (sp - 12, st))))))))))"

section \<open>sys_mem.c\<close>

text \<open>The system calls return a 32-bit register value; \<open>-1\<close> is \<open>0xFFFFFFFF\<close>.\<close>

definition page_up :: "u32 \<Rightarrow> u32" where
  "page_up a = (a + PAGE_SIZE - 1) AND NOT (PAGE_SIZE - 1)"

definition sys_brk :: "u32 \<Rightarrow> mm_t \<Rightarrow> vm_t \<Rightarrow> (u32 \<times> mm_t \<times> vm_t) res" where
  "sys_brk new_brk t st =
    (if new_brk = 0 then Inr (brk t, t, st)
     else
       let new_end = page_up new_brk in
       if new_brk < brk_start t \<or> USER_HEAP_LIMIT < new_end then Inr (brk t, t, st)
       else
         rbind (if new_brk < brk t \<and> PAGE_SIZE \<le> brk_end t - new_end
                then rbind (vmm_unmap_interval t new_end (brk_end t - new_end) st) (\<lambda>st.
                     Inr (t\<lparr> brk_end := new_end \<rparr>, st))
                else Inr (t, st)) (\<lambda>(t, st).
         rbind (if brk_end t < new_end
                then rbind (vmm_zmap_interval t (brk_end t) (new_end - brk_end t) PAGE_USER_FLAGS st) (\<lambda>st.
                     Inr (t\<lparr> brk_end := new_end \<rparr>, st))
                else Inr (t, st)) (\<lambda>(t, st).
         Inr (new_brk, t\<lparr> brk := new_brk \<rparr>, st))))"

definition MAP_ANONYMOUS :: u32 where "MAP_ANONYMOUS = 0x20"

definition sys_mmap2 :: "u32 \<Rightarrow> u32 \<Rightarrow> u32 \<Rightarrow> u32 \<Rightarrow> u32 \<Rightarrow> u32 \<Rightarrow> mm_t \<Rightarrow> vm_t \<Rightarrow> (u32 \<times> mm_t \<times> vm_t) res" where
  "sys_mmap2 addr len prot flags fd offset t st =
    (if flags AND MAP_ANONYMOUS = 0 then Inr (- 1, t, st)
     else if fd \<noteq> - 1 \<and> fd \<noteq> 0 then Inr (- 1, t, st)
     else if len = 0 \<or> 256 * 1024 * 1024 < len then Inr (- 1, t, st)
     else
       let len = page_up len;
           base = (if task_mmap_next t = 0 then USER_MMAP_START else task_mmap_next t);
           (addr, t) = (if addr = 0 then (base, t\<lparr> task_mmap_next := base + len \<rparr>) else (addr, t))
       in if addr < USER_MMAP_START \<or> USER_MMAP_LIMIT < addr + len then Inr (- 1, t, st)
          else rbind (vmm_zmap_interval t addr len PAGE_USER_FLAGS st) (\<lambda>st. Inr (addr, t, st)))"

definition sys_munmap :: "u32 \<Rightarrow> u32 \<Rightarrow> mm_t \<Rightarrow> vm_t \<Rightarrow> (u32 \<times> mm_t \<times> vm_t) res" where
  "sys_munmap addr len t st =
    (if addr AND (PAGE_SIZE - 1) \<noteq> 0 then Inr (- 1, t, st)
     else rbind (page_dict_unmap_interval (mm_dict t) addr (page_up len) st) (\<lambda>st. Inr (0, t, st)))"

section \<open>Zeroed memory\<close>

lemma mem_store_simps:
  assumes "mem_store pd va b st = Inr st'"
  shows "vm_walk pd' st' = vm_walk pd' st" "vm_mem st' = vm_mem st" "vm_pmm st' = vm_pmm st"
    "vm_pool st' = vm_pool st"
  using assms by (auto simp: mem_store_def rbind_eq_Inr vm_walk_def)

lemma user_memset_frame:
  assumes "user_memset pd va b n st = Inr st'"
  shows "vm_mem st' = vm_mem st \<and> vm_pmm st' = vm_pmm st \<and> vm_pool st' = vm_pool st"
proof -
  define P where "P = (\<lambda>(i::nat) (t::vm_t). vm_mem t = vm_mem st \<and> vm_pmm t = vm_pmm st \<and> vm_pool t = vm_pool st)"
  have "P (0 + unat n) st'"
    by (rule rfor_inv_sound [where P = P])
       (use assms mem_store_simps in \<open>auto simp: user_memset_def P_def\<close>)
  then show ?thesis by (simp add: P_def)
qed

lemma vm_ok_ram: "vm_mem st' = vm_mem st \<Longrightarrow> vm_pmm st' = vm_pmm st \<Longrightarrow> vm_pool st' = vm_pool st \<Longrightarrow>
  vm_ok pd st' = vm_ok pd st \<and> vm_walk pd st' = vm_walk pd st \<and>
  vm_balanced pd ext st' = vm_balanced pd ext st \<and> vm_framed pd st0 st' = vm_framed pd st0 st"
  by (simp add: vm_ok_def vm_walk_def vm_balanced_def pool_ok_def vm_framed_def pool_addrs_def)

text \<open>Stores of equal bytes cannot disturb each other, whatever pages share a frame.\<close>

lemma user_memset_ok:
  assumes "user_memset pd va b n st = Inr st'" "i < unat n"
  shows "mem_load pd (va + of_nat i) st' = Inr b"
proof -
  define P where "P k t = (vm_walk pd t = vm_walk pd st \<and>
    (\<forall>j < k. mem_load pd (va + of_nat j) t = Inr b))" for k t
  have "P (0 + unat n) st'"
  proof (rule rfor_inv_sound [where P = P])
    show "rfor (\<lambda>i. mem_store pd (va + of_nat i) b) 0 (unat n) st = Inr st'"
      using assms(1) by (simp add: user_memset_def)
    show "P 0 st" by (simp add: P_def)
  next
    fix k t t' assume P: "P k t" and w: "mem_store pd (va + of_nat k) b t = Inr t'"
    have wk: "vm_walk pd t' = vm_walk pd t" by (rule mem_store_simps [OF w])
    obtain pa where pa: "mmu pd (va + of_nat k) t = Inr pa" "t' = t\<lparr> vm_ram := (vm_ram t)(pa := b) \<rparr>"
      using w by (auto simp: mem_store_def rbind_eq_Inr)
    have m: "mmu pd a t' = mmu pd a t" for a by (simp add: mmu_def wk)
    have r: "vm_ram t' = (vm_ram t)(pa := b)" by (simp add: pa(2))
    have "mem_load pd (va + of_nat j) t' = Inr b" if "j < Suc k" for j
    proof (cases "j = k")
      case True
      then show ?thesis by (simp add: mem_load_def m pa(1) r)
    next
      case False
      then have "mem_load pd (va + of_nat j) t = Inr b" using P that by (simp add: P_def)
      then show ?thesis by (auto simp: mem_load_def m r rbind_eq_Inr)
    qed
    then show "P (Suc k) t'" using P wk by (simp add: P_def)
  qed
  then show ?thesis using assms(2) by (simp add: P_def)
qed

section \<open>brk\<close>

lemma page_up_addr: "page_up a = PAGE_ADDR (a + 4095)"
  by (simp add: page_up_def PAGE_ADDR_def PAGE_SIZE_def algebra_simps)

lemma unat_page_up:
  assumes "unat a + 4095 < 2 ^ 32"
  shows "unat (page_up a) = 4096 * ((unat a + 4095) div 4096)"
  using assms by (simp add: page_up_addr unat_PAGE_ADDR frame_of_def unat_word_ariths)

text \<open>
  The break of a task: the pages from \<open>page_up brk_start\<close> to \<open>brk_end\<close> are mapped, none between
  \<open>brk_end\<close> and the limit is, and \<open>brk_end\<close> is the break rounded up.
\<close>

definition brk_inv :: "mm_t \<Rightarrow> vm_t \<Rightarrow> bool" where
  "brk_inv t st = (aligned_page (brk_start t) \<and> brk_start t \<le> brk t \<and> brk_end t = page_up (brk t) \<and>
     unat (brk t) + 4095 < 2 ^ 32 \<and> brk_end t \<le> USER_HEAP_LIMIT \<and>
     (\<forall>n. frame_of (brk_start t) \<le> n \<and> n < frame_of (brk_end t) \<longrightarrow>
        (\<exists>x. vm_walk (mm_dict t) st n = Some x \<and> 16384 \<le> frame_of x)) \<and>
     (\<forall>n. frame_of (brk_end t) \<le> n \<and> n < 262144 \<longrightarrow> vm_walk (mm_dict t) st n = None))"

lemma aligned_page_up: "aligned_page (page_up a)"
  unfolding aligned_page_iff page_up_addr by (simp add: unat_PAGE_ADDR)

lemma span_of_aligned:
  assumes "aligned_page a" "aligned_page b" "a \<le> b"
  shows "unat a mod 4096 = 0" "span_pages a (b - a) = frame_of b - frame_of a"
    "frame_of a \<le> frame_of b" "unat (b - a) = 4096 * (frame_of b - frame_of a)"
proof -
  have u: "unat a = 4096 * frame_of a" "unat b = 4096 * frame_of b"
    using assms by (simp_all add: aligned_page_iff)
  then show le: "frame_of a \<le> frame_of b" using assms(3) by (simp add: word_le_nat_alt)
  show m: "unat a mod 4096 = 0" using u(1) by simp
  show d: "unat (b - a) = 4096 * (frame_of b - frame_of a)"
    using u assms(3) by (simp add: unat_sub diff_mult_distrib2)
  then show "span_pages a (b - a) = frame_of b - frame_of a" by (simp add: span_pages_def m)
qed

lemma vmm_zmap_interval_ok:
  assumes ok: "vm_ok (mm_dict t) st" and bal: "vm_balanced (mm_dict t) ext st"
    and al: "aligned_page a" "aligned_page b" "a \<le> b" "frame_of b \<le> 2 ^ 19"
    and free: "\<And>n. frame_of a \<le> n \<Longrightarrow> n < frame_of b \<Longrightarrow> vm_walk (mm_dict t) st n = None"
    and run: "vmm_zmap_interval t a (b - a) PAGE_USER_FLAGS st = Inr st'"
  shows "vm_ok (mm_dict t) st' \<and> vm_balanced (mm_dict t) ext st' \<and> vm_framed (mm_dict t) st st' \<and>
    (\<forall>n. if frame_of a \<le> n \<and> n < frame_of b
         then \<exists>x. vm_walk (mm_dict t) st' n = Some x \<and> user_entry PAGE_USER_FLAGS x \<and>
                  16384 \<le> frame_of x \<and> vm_cnt st (frame_of x) = 0
         else vm_walk (mm_dict t) st' n = vm_walk (mm_dict t) st n) \<and>
    (\<forall>i < unat (b - a). mem_load (mm_dict t) (a + of_nat i) st' = Inr 0)"
proof -
  note sp = span_of_aligned [OF al(1-3)]
  obtain st1 where m: "page_dict_map_interval (mm_dict t) a (b - a) PAGE_USER_FLAGS st = Inr st1"
    and z: "user_memset (mm_dict t) a 0 (b - a) st1 = Inr st'"
    using run by (auto simp: vmm_zmap_interval_def vmm_map_interval_def rbind_eq_Inr)
  have nw: "unat a mod 4096 + unat (b - a) + 4095 < 2 ^ 32" "frame_of a + span_pages a (b - a) \<le> 2 ^ 20"
    using sp al(4) by simp_all
  have e: "frame_of a + span_pages a (b - a) = frame_of b" using sp by simp
  note M = page_dict_map_interval_ok [OF ok flag_bits_consts(4) nw bal _ m, unfolded e, OF free]
  note R = vm_ok_ram [OF conjunct1 [OF user_memset_frame [OF z]]
      conjunct1 [OF conjunct2 [OF user_memset_frame [OF z]]]
      conjunct2 [OF conjunct2 [OF user_memset_frame [OF z]]]]
  show ?thesis using M R user_memset_ok [OF z] by auto
qed

lemma vm_walk_dir: "vm_walk pd st n = Some x \<Longrightarrow> dir_lookup pd (vm_mem st) (n div 1024) \<noteq> None"
  by (auto simp: vm_walk_def pg_entry_def split: if_splits option.splits)

lemma aligned_order:
  assumes "aligned_page a" "aligned_page b"
  shows "a \<le> b \<longleftrightarrow> frame_of a \<le> frame_of b" "a < b \<longleftrightarrow> frame_of a < frame_of b"
  using assms by (simp_all add: aligned_page_iff word_le_nat_alt word_less_nat_alt)

lemma page_up_mono: "unat b + 4095 < 2 ^ 32 \<Longrightarrow> a \<le> b \<Longrightarrow> page_up a \<le> page_up b"
  using unat_page_up [of a] unat_page_up [of b]
  by (simp add: word_le_nat_alt div_le_mono)

lemma frame_of_heap_limit: "a \<le> USER_HEAP_LIMIT \<Longrightarrow> frame_of a \<le> 262144"
  using div_le_mono [of "unat a" "0x40000000" 4096]
  by (simp add: USER_HEAP_LIMIT_def word_le_nat_alt frame_of_def)

lemma brk_shrink:
  assumes ok: "vm_ok (mm_dict t) st" and bal: "vm_balanced (mm_dict t) ext st" and inv: "brk_inv t st"
    and nb: "brk_start t \<le> nb" "nb < brk t"
  shows "\<exists>t' st'. (if nb < brk t \<and> PAGE_SIZE \<le> brk_end t - page_up nb
                then rbind (vmm_unmap_interval t (page_up nb) (brk_end t - page_up nb) st) (\<lambda>st.
                     Inr (t\<lparr> brk_end := page_up nb \<rparr>, st))
                else Inr (t, st)) = Inr (t', st') \<and> t' = t\<lparr> brk_end := page_up nb \<rparr> \<and>
    brk_inv (t\<lparr> brk_end := page_up nb, brk := nb \<rparr>) st' \<and> vm_ok (mm_dict t) st' \<and>
    vm_balanced (mm_dict t) ext st'"
proof -
  let ?e = "page_up nb" and ?pd = "mm_dict t"
  have B: "aligned_page (brk_start t)" "brk_end t = page_up (brk t)" "unat (brk t) + 4095 < 2 ^ 32"
    "brk_end t \<le> USER_HEAP_LIMIT"
    using inv unfolding brk_inv_def by blast+
  have nbs: "unat nb + 4095 < 2 ^ 32" using nb(2) B(3) by (simp add: word_less_nat_alt)
  have al: "aligned_page ?e" "aligned_page (brk_end t)" using B(2) by (simp_all add: aligned_page_up)
  have le: "?e \<le> brk_end t" using page_up_mono [OF B(3), of nb] nb(2) B(2) by simp
  note sp = span_of_aligned [OF al le]
  have "nb \<le> ?e" using unat_page_up [OF nbs] by (simp add: word_le_nat_alt)
  then have ge: "brk_start t \<le> ?e" using nb(1) by simp
  then have fge: "frame_of (brk_start t) \<le> frame_of ?e" using aligned_order [OF B(1) al(1)] by simp
  have lim: "frame_of (brk_end t) \<le> 262144" by (rule frame_of_heap_limit [OF B(4)])
  have mapped: "\<exists>x. vm_walk ?pd st n = Some x \<and> 16384 \<le> frame_of x"
    if "frame_of (brk_start t) \<le> n" "n < frame_of (brk_end t)" for n
    using inv that by (simp add: brk_inv_def)
  have free: "vm_walk ?pd st n = None" if "frame_of (brk_end t) \<le> n" "n < 262144" for n
    using inv that by (simp add: brk_inv_def)
  show ?thesis
  proof (cases "frame_of ?e = frame_of (brk_end t)")
    case True
    then have eq: "?e = brk_end t" using al by (simp add: aligned_page_iff word_unat_eq_iff)
    then have "\<not> PAGE_SIZE \<le> brk_end t - ?e" by (simp add: PAGE_SIZE_def)
    moreover have "brk_inv (t\<lparr> brk_end := ?e, brk := nb \<rparr>) st"
      using inv nb nbs eq B(4) by (auto simp: brk_inv_def)
    ultimately show ?thesis using ok bal eq by auto
  next
    case False
    then have g: "PAGE_SIZE \<le> brk_end t - ?e" using sp by (simp add: PAGE_SIZE_def word_le_nat_alt)
    have nw: "unat ?e mod 4096 + unat (brk_end t - ?e) + 4095 < 2 ^ 32"
      "frame_of ?e + span_pages ?e (brk_end t - ?e) \<le> 2 ^ 20"
      using sp lim by simp_all
    have e: "frame_of ?e + span_pages ?e (brk_end t - ?e) = frame_of (brk_end t)" using sp by simp
    have m: "\<exists>x. vm_walk ?pd st n = Some x \<and> 16384 \<le> frame_of x"
      if "frame_of ?e \<le> n" "n < frame_of (brk_end t)" for n
      using mapped [of n] that fge by simp
    obtain st' where st': "page_dict_unmap_interval ?pd ?e (brk_end t - ?e) st = Inr st'" "vm_ok ?pd st'"
      "vm_balanced ?pd ext st'"
      "vm_walk ?pd st' = (\<lambda>n. if frame_of ?e \<le> n \<and> n < frame_of (brk_end t) then None else vm_walk ?pd st n)"
      using page_dict_unmap_interval_ok [OF ok bal nw, unfolded e] m vm_walk_dir by force
    have "brk_inv (t\<lparr> brk_end := ?e, brk := nb \<rparr>) st'"
      unfolding brk_inv_def
    proof (simp, intro conjI allI impI)
      show "aligned_page (brk_start t)" "brk_start t \<le> nb" by fact+
      show "unat nb < 4294963201" using nbs by simp
      show "?e \<le> USER_HEAP_LIMIT" using le B(4) by simp
    next
      fix n assume n: "frame_of (brk_start t) \<le> n \<and> n < frame_of ?e"
      then show "\<exists>x. vm_walk ?pd st' n = Some x \<and> 16384 \<le> frame_of x"
        using mapped [of n] sp(3) by (auto simp: st'(4))
    next
      fix n assume n: "frame_of ?e \<le> n \<and> n < 262144"
      then show "vm_walk ?pd st' n = None" using free [of n] by (auto simp: st'(4))
    qed
    then show ?thesis using g nb st' by (simp add: vmm_unmap_interval_def)
  qed
qed

lemma sys_brk_ok:
  assumes ok: "vm_ok (mm_dict t) st" and bal: "vm_balanced (mm_dict t) ext st" and inv: "brk_inv t st"
    and nb: "unat nb + 4095 < 2 ^ 32"
    and run: "sys_brk nb t st = Inr (r, t', st')"
  shows "r = brk t' \<and> mm_dict t' = mm_dict t \<and> brk_start t' = brk_start t \<and>
    vm_ok (mm_dict t) st' \<and> vm_balanced (mm_dict t) ext st' \<and> brk_inv t' st' \<and>
    brk t' = (if nb \<noteq> 0 \<and> brk_start t \<le> nb \<and> page_up nb \<le> USER_HEAP_LIMIT then nb else brk t) \<and>
    (brk_end t \<le> brk_end t' \<longrightarrow> (\<forall>i < unat (brk_end t' - brk_end t).
        mem_load (mm_dict t) (brk_end t + of_nat i) st' = Inr 0))"
proof (cases "nb = 0 \<or> nb < brk_start t \<or> USER_HEAP_LIMIT < page_up nb")
  case True
  then have "r = brk t" "t' = t" "st' = st" using run by (auto simp: sys_brk_def Let_def split: if_splits)
  then show ?thesis using True ok bal inv by (auto simp: not_le)
next
  case False
  let ?pd = "mm_dict t" and ?e = "page_up nb"
  have nb1: "brk_start t \<le> nb" "?e \<le> USER_HEAP_LIMIT" using False by auto
  have B: "aligned_page (brk_start t)" "brk_start t \<le> brk t" "brk_end t = page_up (brk t)"
    "unat (brk t) + 4095 < 2 ^ 32" "brk_end t \<le> USER_HEAP_LIMIT"
    using inv unfolding brk_inv_def by blast+
  have al: "aligned_page ?e" "aligned_page (brk_end t)" using B(3) by (simp_all add: aligned_page_up)
  have body: "rbind (if nb < brk t \<and> PAGE_SIZE \<le> brk_end t - ?e
                then rbind (vmm_unmap_interval t ?e (brk_end t - ?e) st) (\<lambda>st.
                     Inr (t\<lparr> brk_end := ?e \<rparr>, st))
                else Inr (t, st)) (\<lambda>(t, st).
         rbind (if brk_end t < ?e
                then rbind (vmm_zmap_interval t (brk_end t) (?e - brk_end t) PAGE_USER_FLAGS st) (\<lambda>st.
                     Inr (t\<lparr> brk_end := ?e \<rparr>, st))
                else Inr (t, st)) (\<lambda>(t, st). Inr (nb, t\<lparr> brk := nb \<rparr>, st))) = Inr (r, t', st')"
    using run False by (simp add: sys_brk_def Let_def)
  show ?thesis
  proof (cases "nb < brk t")
    case lt: True
    obtain t1 st1 where s: "(if nb < brk t \<and> PAGE_SIZE \<le> brk_end t - ?e
                then rbind (vmm_unmap_interval t ?e (brk_end t - ?e) st) (\<lambda>st.
                     Inr (t\<lparr> brk_end := ?e \<rparr>, st))
                else Inr (t, st)) = Inr (t1, st1)" "t1 = t\<lparr> brk_end := ?e \<rparr>"
      "brk_inv (t\<lparr> brk_end := ?e, brk := nb \<rparr>) st1" "vm_ok ?pd st1" "vm_balanced ?pd ext st1"
      using brk_shrink [OF ok bal inv nb1(1) lt] by blast
    have "r = nb" "t' = t\<lparr> brk_end := ?e, brk := nb \<rparr>" "st' = st1"
      using body unfolding s(1) by (auto simp: s(2))
    moreover have "?e \<le> brk_end t" using page_up_mono [OF B(4), of nb] lt B(3) by simp
    then have "brk_end t \<le> ?e \<Longrightarrow> ?e - brk_end t = 0" by simp
    ultimately show ?thesis using s nb1 False by auto
  next
    case ge: False
    then have le: "brk_end t \<le> ?e" using page_up_mono [OF nb, of "brk t"] B(3) by simp
    note sp = span_of_aligned [OF al(2,1) le]
    have lim: "frame_of ?e \<le> 262144" by (rule frame_of_heap_limit [OF nb1(2)])
    show ?thesis
    proof (cases "brk_end t < ?e")
      case False
      then have eq: "brk_end t = ?e" using le by simp
      then have "r = nb" "t' = t\<lparr> brk := nb \<rparr>" "st' = st" using body ge by auto
      then show ?thesis using ok bal inv nb nb1 eq \<open>\<not> (nb = 0 \<or> _)\<close> by (auto simp: brk_inv_def)
    next
      case g: True
      have z: "vmm_zmap_interval t (brk_end t) (?e - brk_end t) PAGE_USER_FLAGS st = Inr st'"
        and rt: "r = nb" "t' = t\<lparr> brk_end := ?e, brk := nb \<rparr>"
        using body ge g by (auto simp: rbind_eq_Inr)
      have free: "vm_walk ?pd st n = None" if "frame_of (brk_end t) \<le> n" "n < 262144" for n
        using inv that by (simp add: brk_inv_def)
      have mapped: "\<exists>x. vm_walk ?pd st n = Some x \<and> 16384 \<le> frame_of x"
        if "frame_of (brk_start t) \<le> n" "n < frame_of (brk_end t)" for n
        using inv that by (simp add: brk_inv_def)
      have "frame_of ?e \<le> 2 ^ 19" using lim by simp
      note Z = vmm_zmap_interval_ok [OF ok bal al(2,1) le this _ z]
      have Z: "vm_ok ?pd st'" "vm_balanced ?pd ext st'"
        "\<And>n. if frame_of (brk_end t) \<le> n \<and> n < frame_of ?e
         then \<exists>x. vm_walk ?pd st' n = Some x \<and> user_entry PAGE_USER_FLAGS x \<and>
                  16384 \<le> frame_of x \<and> vm_cnt st (frame_of x) = 0
         else vm_walk ?pd st' n = vm_walk ?pd st n"
        "\<forall>i < unat (?e - brk_end t). mem_load ?pd (brk_end t + of_nat i) st' = Inr 0"
        using Z free lim by auto
      have "brk_inv t' st'"
        unfolding brk_inv_def rt
      proof (simp, intro conjI allI impI)
        show "aligned_page (brk_start t)" "brk_start t \<le> nb" "?e \<le> USER_HEAP_LIMIT" by fact+
        show "unat nb < 4294963201" using nb by simp
      next
        fix n assume n: "frame_of (brk_start t) \<le> n \<and> n < frame_of ?e"
        then show "\<exists>x. vm_walk ?pd st' n = Some x \<and> 16384 \<le> frame_of x"
          using mapped [of n] Z(3) [of n] by (cases "n < frame_of (brk_end t)") auto
      next
        fix n assume n: "frame_of ?e \<le> n \<and> n < 262144"
        then show "vm_walk ?pd st' n = None"
          using free [of n] Z(3) [of n] sp(3) by auto
      qed
      then show ?thesis using Z rt nb1 \<open>\<not> (nb = 0 \<or> _)\<close> by auto
    qed
  qed
qed

text \<open>
  Without the bound the rounding wraps: a break in the last page of the address space passes
  the check against the limit and is accepted although nothing is mapped.
\<close>

lemma sys_brk_wraps:
  assumes "0xFFFFF000 < nb" "brk_start t \<le> nb" "brk t \<le> nb"
  shows "sys_brk nb t st = Inr (nb, t\<lparr> brk := nb \<rparr>, st)"
proof -
  have "unat nb < 2 ^ 32" by (rule unat_less_2p32)
  then have "unat (nb + 4095) = unat nb + 4095 - 2 ^ 32"
    using assms(1) by (simp add: unat_word_ariths word_less_nat_alt mod_if)
  then have "frame_of (nb + 4095) = 0"
    using unat_less_2p32 [of nb] by (simp add: frame_of_def)
  then have "page_up nb = 0"
    by (simp add: page_up_addr unat_PAGE_ADDR flip: unat_eq_0)
  moreover have "nb \<noteq> 0" using assms(1) by (auto simp: word_less_nat_alt)
  ultimately show ?thesis using assms(2,3) by (simp add: sys_brk_def leD)
qed

section \<open>Anonymous mappings and device windows\<close>

lemma sys_mmap2_ok:
  assumes ok: "vm_ok (mm_dict t) st" and bal: "vm_balanced (mm_dict t) ext st"
    and args: "flags AND MAP_ANONYMOUS \<noteq> 0" "fd = - 1 \<or> fd = 0" "len \<noteq> 0" "len \<le> 256 * 1024 * 1024"
    and nx: "aligned_page (task_mmap_next t)" "USER_MMAP_START \<le> task_mmap_next t"
      "unat (task_mmap_next t) + unat (page_up len) \<le> unat USER_MMAP_LIMIT"
    and free: "\<And>n. frame_of (task_mmap_next t) \<le> n \<Longrightarrow> n < frame_of USER_MMAP_LIMIT \<Longrightarrow>
        vm_walk (mm_dict t) st n = None"
    and run: "sys_mmap2 0 len prot flags fd offset t st = Inr (r, t', st')"
  shows "r = task_mmap_next t \<and> t' = t\<lparr> task_mmap_next := task_mmap_next t + page_up len \<rparr> \<and>
    vm_ok (mm_dict t) st' \<and> vm_balanced (mm_dict t) ext st' \<and>
    (\<forall>n. frame_of (task_mmap_next t') \<le> n \<and> n < frame_of USER_MMAP_LIMIT \<longrightarrow>
        vm_walk (mm_dict t) st' n = None) \<and>
    (\<forall>i < unat len. mem_load (mm_dict t) (r + of_nat i) st' = Inr 0)"
proof -
  let ?a = "task_mmap_next t" and ?l = "page_up len" and ?pd = "mm_dict t"
  have len: "unat len \<le> 0x10000000" using args(4) by (simp add: word_le_nat_alt)
  have ul: "unat ?l = 4096 * ((unat len + 4095) div 4096)" using len by (simp add: unat_page_up)
  have uab: "unat (?a + ?l) = unat ?a + unat ?l"
    using nx(3) by (simp add: unat_word_ariths USER_MMAP_LIMIT_def)
  then have le: "?a \<le> ?a + ?l" by (simp add: word_le_nat_alt)
  have ua: "unat ?a = 4096 * frame_of ?a" using nx(1) by (simp add: aligned_page_iff)
  have fb: "frame_of (?a + ?l) = frame_of ?a + (unat len + 4095) div 4096"
    unfolding frame_of_def [of "?a + ?l"] uab ul ua by simp
  have al: "aligned_page (?a + ?l)" unfolding aligned_page_iff fb uab ul ua by simp
  have d: "?a + ?l - ?a = ?l" by simp
  have lim: "frame_of (?a + ?l) \<le> frame_of USER_MMAP_LIMIT"
    using nx(3) uab by (simp add: frame_of_def div_le_mono)
  have l19: "frame_of USER_MMAP_LIMIT = 720896" by (simp add: frame_of_def USER_MMAP_LIMIT_def)
  have nz: "?a \<noteq> 0" using nx(2) by (auto simp: USER_MMAP_START_def)
  have chk: "\<not> (?a < USER_MMAP_START \<or> USER_MMAP_LIMIT < ?a + ?l)"
    using nx(2,3) uab by (auto simp: word_less_nat_alt word_le_nat_alt)
  have z: "vmm_zmap_interval t ?a (?a + ?l - ?a) PAGE_USER_FLAGS st = Inr st'"
    and rt: "r = ?a" "t' = t\<lparr> task_mmap_next := ?a + ?l \<rparr>"
    using run args chk nz by (auto simp: sys_mmap2_def Let_def rbind_eq_Inr leD
        vmm_zmap_interval_def vmm_map_interval_def)
  have s: "frame_of ?a \<le> frame_of (?a + ?l)" by (simp add: fb)
  have sp: "unat ?a mod 4096 = 0" "span_pages ?a ?l = frame_of (?a + ?l) - frame_of ?a"
    using span_of_aligned [OF nx(1) al le] d by simp_all
  obtain st1 where m: "page_dict_map_interval ?pd ?a ?l PAGE_USER_FLAGS st = Inr st1"
    and mz: "user_memset ?pd ?a 0 ?l st1 = Inr st'"
    using z unfolding d by (auto simp: vmm_zmap_interval_def vmm_map_interval_def rbind_eq_Inr)
  have nw: "unat ?a mod 4096 + unat ?l + 4095 < 2 ^ 32" "frame_of ?a + span_pages ?a ?l \<le> 2 ^ 20"
    using sp s lim l19 nx(3) by (simp_all add: USER_MMAP_LIMIT_def)
  have e: "frame_of ?a + span_pages ?a ?l = frame_of (?a + ?l)" using sp s by simp
  have fr: "vm_walk ?pd st n = None" if "frame_of ?a \<le> n" "n < frame_of (?a + ?l)" for n
    using free that lim by simp
  note M = page_dict_map_interval_ok [OF ok flag_bits_consts(4) nw bal _ m, unfolded e, OF fr]
  note F = user_memset_frame [OF mz]
  have R: "vm_ok ?pd st' = vm_ok ?pd st1" "vm_walk ?pd st' = vm_walk ?pd st1"
    "vm_balanced ?pd ext st' = vm_balanced ?pd ext st1"
    using vm_ok_ram [of st' st1 ?pd ext st] F by auto
  have "vm_walk ?pd st' n = None" if n: "frame_of (?a + ?l) \<le> n" "n < frame_of USER_MMAP_LIMIT" for n
  proof -
    have "vm_walk ?pd st1 n = vm_walk ?pd st n" using M n by (auto dest: spec [of _ n])
    then show ?thesis using free [of n] n s by (simp add: R(2))
  qed
  moreover have "unat len \<le> unat ?l" unfolding ul by simp
  then have "\<forall>i < unat len. mem_load ?pd (?a + of_nat i) st' = Inr 0"
    using user_memset_ok [OF mz] by auto
  ultimately show ?thesis using M R rt by auto
qed

text \<open>The pointer a device mapping returns is translated to the physical address asked for.\<close>

lemma vmm_map_special_ok:
  assumes ok: "vm_ok (kernel_page_dict k) st" and fl: "flag_bits flags"
    and al: "aligned_page (mmio_next_virt k)"
    and nw: "unat phys mod 4096 + unat sz + 8190 < 2 ^ 32"
      "frame_of (mmio_next_virt k) + span_pages phys sz \<le> 2 ^ 20"
      "frame_of phys + span_pages phys sz \<le> vm_size st"
    and room: "\<And>f. vm_cnt st f + 2 ^ 20 < 2 ^ 32" and pos: "0 < sz"
    and run: "vmm_map_special phys sz flags k st = Inr (va, k', st')"
  shows "vm_ok (kernel_page_dict k) st' \<and>
    page_dict_vaddr_to_phys (kernel_page_dict k) va st' = Inr phys"
proof -
  let ?pd = "kernel_page_dict k" and ?v = "mmio_next_virt k" and ?p = "page_alligned_left phys"
  define c where "c = page_get_num (phys - ?p + sz)"
  have uc: "unat c = span_pages phys sz" unfolding c_def by (rule page_count_eq) (use nw(1) in simp)
  have c0: "0 < span_pages phys sz"
    using pos by (simp add: span_pages_def word_less_nat_alt)
  have cl: "4096 * span_pages phys sz \<le> unat phys mod 4096 + unat sz + 4095"
    by (simp add: span_pages_def)
  then have ucp: "unat (c * PAGE_SIZE) = 4096 * span_pages phys sz"
    using nw(1) uc by (simp add: PAGE_SIZE_def unat_word_ariths)
  have pm: "unat ?p mod 4096 = 0" "frame_of ?p = frame_of phys"
    using page_alligned_left_ok(1,2) [of phys] by (simp_all add: aligned_page_iff)
  have spn: "span_pages ?p (c * PAGE_SIZE) = span_pages phys sz"
    unfolding span_pages_def [of ?p] ucp pm(1) by simp
  have vm: "unat ?v = 4096 * frame_of ?v" using al by (simp add: aligned_page_iff)
  then have vm0: "unat ?v mod 4096 = 0" by simp
  have m: "page_dict_map_interval_to_phys ?pd ?v ?p (c * PAGE_SIZE) flags st = Inr st'"
    and va: "va = ?v + (phys - ?p)"
    using run by (auto simp: vmm_map_special_def Let_def c_def rbind_eq_Inr)
  have M: "vm_ok ?pd st'" "\<exists>x. vm_walk ?pd st' (frame_of ?v) = Some x \<and> frame_of x = frame_of phys"
    using page_dict_map_interval_to_phys_ok [OF ok fl _ _ _ _ room m, unfolded spn pm(2)] nw cl ucp pm(1) vm0 c0
    by (auto dest: spec [of _ "frame_of ?v"])
  then obtain x where x: "vm_walk ?pd st' (frame_of ?v) = Some x" "frame_of x = frame_of phys" by blast
  have uo: "unat (phys - ?p) = unat phys mod 4096" by (rule page_alligned_left_ok)
  have "frame_of ?v < 2 ^ 20" by (rule frame_of_less)
  then have uva: "unat va = 4096 * frame_of ?v + unat phys mod 4096"
    unfolding va using uo vm by (simp add: unat_word_ariths)
  then have fva: "frame_of va = frame_of ?v" by (simp add: frame_of_def [of va])
  have "unat (OFFSET va) = unat va mod 4096"
    using unat_and_pow2 [of 4096 va] by (simp add: pow2w_def OFFSET_def)
  then have ov: "unat (OFFSET va) = unat phys mod 4096" by (simp add: uva)
  have "unat (PAGE_ADDR x + OFFSET va) = unat phys"
    using unat_less_2p32 [of phys] unfolding unat_word_ariths ov unat_PAGE_ADDR x(2)
    by (simp add: frame_of_def)
  then have "PAGE_ADDR x + OFFSET va = phys" by (simp only: word_unat_eq_iff)
  then show ?thesis using M(1) x(1) page_dict_vaddr_to_phys_ok [of ?pd st' va]
    by (simp add: fva vm_ok_def)
qed

lemma unat_and_not_3: "unat (w AND NOT 3 :: u32) = unat w - unat w mod 4"
proof -
  have m: "(3 :: u32) = mask 2" by (simp add: mask_eq_decr_exp)
  have "w AND NOT 3 = push_bit 2 (drop_bit 2 w)"
    unfolding m by (rule bit_word_eqI) (auto simp only: bit_simps le_add_diff_inverse comp_apply not_less)
  then have "(w AND NOT 3) + take_bit 2 w = w" by (simp only: bits_ident)
  then have "w AND NOT 3 = w - take_bit 2 w" by (metis add_diff_cancel_right')
  moreover have t: "unat (take_bit 2 w) = unat w mod 4"
    using unsigned_take_bit_eq [of 2 w, where 'a = nat] by (simp add: take_bit_eq_mod)
  ultimately show ?thesis by (simp add: unat_sub word_le_nat_alt t)
qed

section \<open>The initial stack fits\<close>

text \<open>The strings, the vector and the three words take at most the bytes reserved for them.\<close>

definition stack_bytes :: "bytes list \<Rightarrow> nat" where
  "stack_bytes argv = sum_list (map (\<lambda>a. length a + 1) argv)"

lemma stack_sysvals_eq: "stack_sysvals argv = of_nat (4 * (length argv + 5) + stack_bytes argv)"
proof -
  have "foldl (\<lambda>s a. s + (of_nat (length a) + 1)) w argv = w + of_nat (stack_bytes argv)" for w :: u32
    by (induction argv arbitrary: w) (simp_all add: stack_bytes_def algebra_simps)
  then show ?thesis by (simp add: stack_sysvals_def algebra_simps)
qed

lemma stack_strings_sp:
  "stack_strings pd argv sp addrs st = Inr (sp', addrs', st') \<Longrightarrow>
   sp' = sp - of_nat (stack_bytes argv) \<and> length addrs' = length addrs + length argv"
proof (induction argv arbitrary: sp addrs st)
  case (Cons a as)
  obtain st1 where "stack_strings pd as (sp - (of_nat (length a) + 1)) (addrs @ [sp - (of_nat (length a) + 1)]) st1
      = Inr (sp', addrs', st')"
    using Cons.prems by (auto simp: Let_def rbind_eq_Inr)
  from Cons.IH [OF this] show ?case by (simp add: stack_bytes_def algebra_simps)
qed (simp add: stack_bytes_def)

lemma vmm_user_stack_create_ok:
  assumes run: "vmm_user_stack_create True pd argv usz st = Inr (sp, st')"
    and small: "4 * (length argv + 5) + stack_bytes argv + unat usz < 2 ^ 31"
  shows "unat sp mod 4 = 0 \<and> unat sp \<le> unat USER_STACK_TOP - 16 \<and>
    unat (USER_STACK_TOP - (stack_sysvals argv + usz)) + unat usz \<le> unat sp"
proof -
  obtain sp1 addrs st1 st2 where s: "stack_strings pd argv USER_STACK_TOP [] st1 = Inr (sp1, addrs, st2)"
    and sp: "sp = (sp1 AND NOT 3) - 4 * (of_nat (length argv) + 1) - 12"
    using run by (auto simp: vmm_user_stack_create_def Let_def rbind_eq_Inr split: prod.splits)
  let ?n = "length argv" and ?b = "stack_bytes argv"
  have top: "unat USER_STACK_TOP = 3221221376" by (simp add: USER_STACK_TOP_def)
  have us1: "unat sp1 = 3221221376 - ?b"
  proof -
    have e: "sp1 = USER_STACK_TOP - of_nat ?b" using stack_strings_sp [OF s] by simp
    have "unat (of_nat ?b :: u32) = ?b" using small by (simp add: unat_of_nat)
    then show ?thesis unfolding e using small by (simp add: unat_sub word_le_nat_alt top)
  qed
  have ua: "unat (sp1 AND NOT 3) = unat sp1 - unat sp1 mod 4" by (rule unat_and_not_3)
  have un: "unat (4 * (of_nat ?n + 1) :: u32) = 4 * (?n + 1)"
  proof -
    have "(4 * (of_nat ?n + 1) :: u32) = of_nat (4 * (?n + 1))" by simp
    also have "unat (of_nat (4 * (?n + 1)) :: u32) = 4 * (?n + 1)"
      unfolding unat_of_nat using small by (intro mod_less) simp
    finally show ?thesis .
  qed
  have big: "4 * (?n + 1) + 12 \<le> unat sp1 - unat sp1 mod 4" using us1 small by simp
  have u1: "unat ((sp1 AND NOT 3) - 4 * (of_nat ?n + 1)) = unat sp1 - unat sp1 mod 4 - 4 * (?n + 1)"
    using big ua un by (simp add: unat_sub word_le_nat_alt)
  have usp: "unat sp = unat sp1 - unat sp1 mod 4 - 4 * (?n + 1) - 12"
  proof -
    define x where "x = (sp1 AND NOT 3) - 4 * (of_nat ?n + 1)"
    have "unat x = unat sp1 - unat sp1 mod 4 - 4 * (?n + 1)" unfolding x_def by (rule u1)
    then show ?thesis unfolding sp x_def [symmetric] using big by (simp add: unat_sub word_le_nat_alt)
  qed
  have tot: "unat (stack_sysvals argv + usz) = 4 * (?n + 5) + ?b + unat usz"
    using small by (simp add: stack_sysvals_eq unat_word_ariths unat_of_nat)
  have start: "unat (USER_STACK_TOP - (stack_sysvals argv + usz)) = 3221221376 - (4 * (?n + 5) + ?b + unat usz)"
    using tot small by (simp add: unat_sub word_le_nat_alt top)
  have "unat sp = 4 * (unat sp1 div 4 - (?n + 4))"
    unfolding usp minus_mod_eq_mult_div by (simp add: diff_mult_distrib2)
  then have "unat sp mod 4 = 0" by simp
  moreover have "unat sp \<le> 3221221376 - 16" unfolding usp using us1 by simp
  moreover have "3221221376 - (4 * (?n + 5) + ?b + unat usz) + unat usz \<le> unat sp"
  proof -
    define r where "r = unat sp1 mod 4"
    have "r < 4" by (simp add: r_def)
    then show ?thesis unfolding usp r_def [symmetric] us1 using small by simp
  qed
  ultimately show ?thesis unfolding start top by simp
qed

section \<open>Stores to mapped memory succeed\<close>

lemma stores_total:
  assumes "\<And>i. i < n \<Longrightarrow> vm_walk pd st (frame_of (va + of_nat i)) \<noteq> None"
  shows "\<exists>st'. rfor (\<lambda>i. mem_store pd (va + of_nat i) (g i)) 0 n st = Inr st' \<and>
    vm_walk pd st' = vm_walk pd st"
proof (rule rfor_inv [where P = "\<lambda>_ t. vm_walk pd t = vm_walk pd st"])
  fix i t assume i: "i < n" and t: "vm_walk pd t = vm_walk pd st"
  then obtain x where "vm_walk pd t (frame_of (va + of_nat i)) = Some x" using assms by force
  then have "mmu pd (va + of_nat i) t = Inr (PAGE_ADDR x + OFFSET (va + of_nat i))" by (simp add: mmu_def)
  then show "\<exists>t'. mem_store pd (va + of_nat i) (g i) t = Inr t' \<and> vm_walk pd t' = vm_walk pd st"
    using t by (simp add: mem_store_def vm_walk_def)
qed simp_all

lemmas user_memcpy_total = stores_total [where g = "(!) bs" and n = "length bs" for bs, folded user_memcpy_def]

lemma user_memset_total:
  assumes "\<And>i. i < unat n \<Longrightarrow> vm_walk pd st (frame_of (va + of_nat i)) \<noteq> None"
  shows "\<exists>st'. user_memset pd va b n st = Inr st'"
  using stores_total [of "unat n" pd st va "\<lambda>_. b"] assms by (auto simp: user_memset_def)

lemma frame_of_add:
  assumes "unat a = 4096 * p + r" "r + i < 4096" "p < 2 ^ 20"
  shows "frame_of (a + of_nat i) = p"
proof -
  have "unat (of_nat i :: u32) = i" using assms(2) by (simp add: unat_of_nat)
  then have "unat (a + of_nat i) = 4096 * p + (r + i)" using assms by (simp add: unat_word_ariths)
  then show ?thesis using assms(2) by (simp add: frame_of_def)
qed

text \<open>Mapping one unmapped page and clearing it.\<close>

lemma map_one_page:
  assumes ok: "vm_ok pd st" and pool: "vm_pool st \<noteq> []" and fl: "flag_bits flags"
    and fr: "pmm_first (vm_pmm st) \<le> f" "f < vm_size st" "vm_cnt st f = 0"
    and sp: "unat start mod 4096 + unat sz + 4095 < 2 ^ 32" "span_pages start sz = 1"
  shows "\<exists>st'. page_dict_map_interval pd start sz flags st = Inr st' \<and> vm_walk pd st' (frame_of start) \<noteq> None"
proof -
  have c: "unat (page_get_num (start - page_alligned_left start + sz)) = Suc 0"
    unfolding page_count_eq [OF sp(1)] sp(2) by simp
  obtain st' where m: "page_dict_map_page pd (page_alligned_left start) flags st = Inr st'"
    using page_dict_map_page_total [OF ok fl _ fr] pool by blast
  have "vm_walk pd st' (frame_of start) \<noteq> None"
    using page_dict_map_page_ok [OF ok fl m] by (auto simp: page_alligned_left_ok)
  moreover have "page_dict_map_interval pd start sz flags st = Inr st'"
    unfolding page_dict_map_interval_def Let_def c by (simp add: m)
  ultimately show ?thesis by blast
qed

lemma zmap_one_page:
  assumes "vm_ok (mm_dict t) st" "vm_pool st \<noteq> []"
    and fr: "pmm_first (vm_pmm st) \<le> f" "f < vm_size st" "vm_cnt st f = 0"
    and a: "unat a = 4096 * p" "p < 2 ^ 20"
  shows "\<exists>st'. vmm_zmap_interval t a 4096 PAGE_USER_FLAGS st = Inr st'"
proof -
  have sp: "unat a mod 4096 + unat (4096 :: u32) + 4095 < 2 ^ 32" "span_pages a 4096 = 1"
    by (simp_all add: a span_pages_def)
  obtain s1 where s1: "page_dict_map_interval (mm_dict t) a 4096 PAGE_USER_FLAGS st = Inr s1"
    "vm_walk (mm_dict t) s1 (frame_of a) \<noteq> None"
    using map_one_page [OF assms(1,2) flag_bits_consts(4) fr sp] by blast
  have "frame_of (a + of_nat i) = frame_of a" if "i < 4096" for i
    using frame_of_add [of a p 0 i] a that by (simp add: frame_of_def)
  then have "\<exists>st'. user_memset (mm_dict t) a 0 4096 s1 = Inr st'"
    by (intro user_memset_total) (use s1(2) in simp)
  then show ?thesis by (simp add: vmm_zmap_interval_def vmm_map_interval_def s1(1))
qed

lemma map_one_to_phys:
  assumes ok: "vm_ok pd st" and pool: "vm_pool st \<noteq> []" and fl: "flag_bits flags"
    and ph: "aligned_page ph" "frame_of ph < vm_size st" "vm_cnt st (frame_of ph) + 1 < 2 ^ 32"
    and va: "aligned_page va"
  shows "\<exists>st'. page_dict_map_interval_to_phys pd va ph 4096 flags st = Inr st'"
proof -
  have wf: "pd_wf pd (vm_mem st)" and po: "pool_ok st" and pi: "pmm_inv (vm_pmm st)"
    using ok by (simp_all add: vm_ok_def)
  have m0: "unat ph mod 4096 = 0" "unat va mod 4096 = 0" using ph(1) va by (simp_all add: aligned_page_iff)
  have o: "ph - page_alligned_left ph = 0" "va - page_alligned_left va = 0"
    by (simp_all add: page_alligned_left_ok m0 flip: unat_eq_0)
  then have e: "page_alligned_left ph = ph" "page_alligned_left va = va" by simp_all
  obtain tv st1 where g: "get_or_create_table pd (PD_INDEX va) flags st = Inr (tv, st1)"
    using get_or_create_table_total [OF wf po PD_INDEX_less, of va flags] pool by auto
  note G = get_or_create_table_ok [OF wf po PD_INDEX_less fl g]
  obtain p where p: "pmm_set_alloced ph (vm_pmm st1) = Inr p"
    using pmm_set_alloced_ok [OF pi ph(2,3)] G by auto
  obtain d where d: "dir_lookup pd (vm_mem st1) (PD_INDEX va) = Some d" "tbl_of d = tv" using G by blast
  have "pd_wf pd (vm_mem (st1\<lparr> vm_pmm := p \<rparr>))" using G by simp
  from pt_write [OF this PD_INDEX_less _ PT_INDEX_less, of va d va] d
  have "\<exists>st'. page_dict_map_page_to_phys pd va ph flags st = Inr st'"
    by (auto simp: page_dict_map_page_to_phys_def g p with_pmm_def)
  moreover have "unat (page_get_num 4096) = Suc 0" by (simp add: page_get_num_def)
  ultimately show ?thesis by (auto simp: page_dict_map_interval_to_phys_def Let_def o e)
qed

section \<open>Properties\<close>

definition mm_ex :: mm_t where
  "mm_ex = \<lparr> mm_dict = pd_ex, brk = 0x8000, brk_start = 0x8000, brk_end = 0x8000,
             task_mmap_next = 0x40001000 \<rparr>"

lemma mm_ex_sel [simp]: "mm_dict mm_ex = pd_ex" "brk mm_ex = 0x8000" "brk_start mm_ex = 0x8000"
  "brk_end mm_ex = 0x8000" "task_mmap_next mm_ex = 0x40001000"
  by (simp_all add: mm_ex_def)

lemma mm_ex_brk: "brk_inv mm_ex vm_ex"
  by (auto simp: brk_inv_def aligned_page_def page_up_def PAGE_SIZE_def USER_HEAP_LIMIT_def vm_ex_walk)

lemma vm_ex_zmap: "unat a = 4096 * p \<Longrightarrow> p < 2 ^ 20 \<Longrightarrow>
    \<exists>st'. vmm_zmap_interval mm_ex a 4096 PAGE_USER_FLAGS vm_ex = Inr st'"
  by (rule zmap_one_page [where f = 20000]) (use vm_ex_ok vm_ex_pool(2) in \<open>auto simp: vm_ex_cnt\<close>)


definition brk_run :: "u32 \<times> mm_t \<times> vm_t" where
  "brk_run = (case sys_brk 0x8001 mm_ex vm_ex of Inr r \<Rightarrow> r | Inl e \<Rightarrow> undefined)"

lemma brk_run_eq: "sys_brk 0x8001 mm_ex vm_ex = Inr (fst brk_run, fst (snd brk_run), snd (snd brk_run))"
proof -
  have "\<exists>st'. vmm_zmap_interval mm_ex 0x8000 4096 PAGE_USER_FLAGS vm_ex = Inr st'"
    by (rule vm_ex_zmap [of _ 8]) simp_all
  then have "\<exists>r. sys_brk 0x8001 mm_ex vm_ex = Inr r"
    by (auto simp: sys_brk_def Let_def page_up_def PAGE_SIZE_def USER_HEAP_LIMIT_def)
  then show ?thesis by (auto simp: brk_run_def)
qed


text \<open>C6: the exception is real: any request above \<open>0xFFFFF000\<close> passes the limit check because the
  rounding wraps to 0, and is accepted as the new break with nothing mapped, beyond the limit.\<close>

lemma sys_brk_limit_bypass:
  assumes "0xFFFFF000 < nb" "brk_start t \<le> nb" "brk t \<le> nb"
  shows "sys_brk nb t st = Inr (nb, t\<lparr> brk := nb \<rparr>, st) \<and> USER_HEAP_LIMIT < nb"
proof -
  have "USER_HEAP_LIMIT < (0xFFFFF000 :: u32)" by (simp add: USER_HEAP_LIMIT_def)
  then show ?thesis using sys_brk_wraps [OF assms] assms(1) by simp
qed

lemma sys_brk_limit_bypass_witness:
  "sys_brk 0xFFFFFFFF mm_ex vm_ex = Inr (0xFFFFFFFF, mm_ex\<lparr> brk := 0xFFFFFFFF \<rparr>, vm_ex) \<and>
   USER_HEAP_LIMIT < 0xFFFFFFFF"
  by (rule sys_brk_limit_bypass) simp_all


definition mmap_run :: "u32 \<times> mm_t \<times> vm_t" where
  "mmap_run = (case sys_mmap2 0 100 3 0x22 0 0 mm_ex vm_ex of Inr r \<Rightarrow> r | Inl e \<Rightarrow> undefined)"

lemma mmap_run_eq:
  "sys_mmap2 0 100 3 0x22 0 0 mm_ex vm_ex = Inr (fst mmap_run, fst (snd mmap_run), snd (snd mmap_run))"
proof -
  have "\<exists>st'. vmm_zmap_interval mm_ex 0x40001000 4096 PAGE_USER_FLAGS vm_ex = Inr st'"
    by (rule vm_ex_zmap [of _ 262145]) simp_all
  then have "\<exists>r. sys_mmap2 0 100 3 0x22 0 0 mm_ex vm_ex = Inr r"
    by (auto simp: sys_mmap2_def Let_def page_up_def PAGE_SIZE_def MAP_ANONYMOUS_def USER_MMAP_START_def
        USER_MMAP_LIMIT_def vmm_zmap_interval_def vmm_map_interval_def)
  then show ?thesis by (auto simp: mmap_run_def)
qed


text \<open>the pointer a device mapping returns translates to the physical address asked for.\<close>

lemma vmm_map_special_translates:
  assumes "vm_ok (kernel_page_dict k) st" "flag_bits flags" "aligned_page (mmio_next_virt k)"
    and "unat phys mod 4096 + unat sz + 8190 < 2 ^ 32"
      "frame_of (mmio_next_virt k) + span_pages phys sz \<le> 2 ^ 20"
      "frame_of phys + span_pages phys sz \<le> vm_size st"
    and "\<forall>f. vm_cnt st f + 2 ^ 20 < 2 ^ 32" and "0 < sz"
    and "vmm_map_special phys sz flags k st = Inr (va, k', st')"
  shows "vm_ok (kernel_page_dict k) st' \<and>
    page_dict_vaddr_to_phys (kernel_page_dict k) va st' = Inr phys"
  using vmm_map_special_ok [OF assms(1-6) _ assms(8,9)] assms(7) by blast

definition kern_ex :: vmm_t where
  "kern_ex = \<lparr> kernel_page_dict = pd_ex, mmio_next_virt = MMIO_VIRT_BASE \<rparr>"

definition mmio_run :: "u32 \<times> vmm_t \<times> vm_t" where
  "mmio_run = (case vmm_map_special 0xFD000010 32 PAGE_KERNEL_FLAGS kern_ex vm_ex of
     Inr r \<Rightarrow> r | Inl e \<Rightarrow> undefined)"

lemma mmio_run_eq: "vmm_map_special 0xFD000010 32 PAGE_KERNEL_FLAGS kern_ex vm_ex =
  Inr (fst mmio_run, fst (snd mmio_run), snd (snd mmio_run))"
proof -
  have "\<exists>st'. page_dict_map_interval_to_phys pd_ex MMIO_VIRT_BASE 0xFD000000 4096 PAGE_KERNEL_FLAGS vm_ex = Inr st'"
    by (rule map_one_to_phys)
       (use vm_ex_ok vm_ex_pool(2) in
        \<open>auto simp: flag_bits_consts aligned_page_def frame_of_def vm_ex_cnt MMIO_VIRT_BASE_def\<close>)
  then have "\<exists>r. vmm_map_special 0xFD000010 32 PAGE_KERNEL_FLAGS kern_ex vm_ex = Inr r"
    by (auto simp: vmm_map_special_def kern_ex_def page_alligned_left_def page_get_num_def PAGE_SIZE_def)
  then show ?thesis by (auto simp: mmio_run_def)
qed

lemma vmm_map_special_translates_witness:
  "vm_ok (kernel_page_dict kern_ex) (snd (snd mmio_run)) \<and>
   page_dict_vaddr_to_phys (kernel_page_dict kern_ex) (fst mmio_run) (snd (snd mmio_run)) = Inr 0xFD000010"
  by (rule vmm_map_special_translates [OF _ _ _ _ _ _ _ _ mmio_run_eq])
     (use vm_ex_ok in \<open>auto simp: kern_ex_def flag_bits_consts MMIO_VIRT_BASE_def aligned_page_def
        frame_of_def span_pages_def vm_ex_cnt\<close>)

text \<open>C10: the initial stack of a process is word-aligned, and the strings, the argument vector and
  the call frame fit in the space reserved for them, so all of the requested stack is free.\<close>

lemma vmm_user_stack_fits:
  assumes "vmm_user_stack_create True pd argv usz st = Inr (sp, st')"
    and "4 * (length argv + 5) + stack_bytes argv + unat usz < 2 ^ 31"
  shows "unat sp mod 4 = 0 \<and> unat sp \<le> unat USER_STACK_TOP - 16 \<and>
    unat (USER_STACK_TOP - (stack_sysvals argv + usz)) + unat usz \<le> unat sp"
  using vmm_user_stack_create_ok [OF assms] .

definition stack_run :: "u32 \<times> vm_t" where
  "stack_run = (case vmm_user_stack_create True pd_ex [[97]] 0x400 vm_ex of Inr r \<Rightarrow> r | Inl e \<Rightarrow> undefined)"

lemma stack_page: "r + i < 4096 \<Longrightarrow> unat a = 0xBFFFE000 + r \<Longrightarrow> frame_of (a + of_nat i) = 0xBFFFE"
  using frame_of_add [of a "0xBFFFE" r i] by simp

lemma stack_run_eq: "vmm_user_stack_create True pd_ex [[97]] 0x400 vm_ex = Inr (fst stack_run, snd stack_run)"
proof -
  have sv: "stack_sysvals [[97]] = 26" by (simp add: stack_sysvals_def)
  have sp: "unat (0xBFFFEBE6 :: u32) mod 4096 + unat (1050 :: u32) + 4095 < 2 ^ 32"
    "span_pages 0xBFFFEBE6 1050 = 1" by (simp_all add: span_pages_def)
  obtain s1 where s1: "page_dict_map_interval pd_ex 0xBFFFEBE6 1050 PAGE_USER_FLAGS vm_ex = Inr s1"
    "vm_walk pd_ex s1 (frame_of 0xBFFFEBE6) \<noteq> None"
  proof -
    have "vm_pool vm_ex \<noteq> []" using vm_ex_pool(2) by auto
    then show ?thesis
      using that map_one_page [OF vm_ex_ok(1) _ flag_bits_consts(4) _ _ _ sp, of 20000]
      by (auto simp: vm_ex_cnt)
  qed
  then have w1: "vm_walk pd_ex s1 0xBFFFE \<noteq> None" by (simp add: frame_of_def)
  have copy: "\<exists>t. user_memcpy pd_ex a bs s = Inr t \<and> vm_walk pd_ex t 0xBFFFE \<noteq> None"
    if "vm_walk pd_ex s 0xBFFFE \<noteq> None" "unat a = 0xBFFFE000 + r" "r + length bs \<le> 4096" for s a bs r
  proof -
    have "vm_walk pd_ex s (frame_of (a + of_nat i)) \<noteq> None" if "i < length bs" for i
      using stack_page [of r i a] that \<open>unat a = _\<close> \<open>r + length bs \<le> 4096\<close> \<open>vm_walk pd_ex s 0xBFFFE \<noteq> None\<close> by simp
    then show ?thesis using user_memcpy_total [of bs pd_ex s a] that(1) by auto
  qed
  obtain s2 where s2: "user_memcpy pd_ex 0xBFFFEFFE [97, 0] s1 = Inr s2" "vm_walk pd_ex s2 0xBFFFE \<noteq> None"
    using copy [OF w1, of "0xBFFFEFFE" "0xFFE" "[97, 0]"] by auto
  obtain s3 where s3: "user_memcpy pd_ex 0xBFFFEFF4 (concat (map dword_bytes [0xBFFFEFFE, 0])) s2 = Inr s3"
    "vm_walk pd_ex s3 0xBFFFE \<noteq> None"
    using copy [OF s2(2), of "0xBFFFEFF4" "0xFF4" "concat (map dword_bytes [0xBFFFEFFE, 0])"]
    by (auto simp: dword_bytes_def)
  obtain s4 where s4: "user_memcpy pd_ex 0xBFFFEFF0 (dword_bytes 0xBFFFEFF4) s3 = Inr s4"
    "vm_walk pd_ex s4 0xBFFFE \<noteq> None"
    using copy [OF s3(2), of "0xBFFFEFF0" "0xFF0" "dword_bytes 0xBFFFEFF4"] by (auto simp: dword_bytes_def)
  obtain s5 where s5: "user_memcpy pd_ex 0xBFFFEFEC (dword_bytes 1) s4 = Inr s5"
    "vm_walk pd_ex s5 0xBFFFE \<noteq> None"
    using copy [OF s4(2), of "0xBFFFEFEC" "0xFEC" "dword_bytes 1"] by (auto simp: dword_bytes_def)
  obtain s6 where s6: "user_memcpy pd_ex 0xBFFFEFE8 (dword_bytes 0) s5 = Inr s6"
    using copy [OF s5(2), of "0xBFFFEFE8" "0xFE8" "dword_bytes 0"] by (auto simp: dword_bytes_def)
  have "page_dict_switch pd_ex = Inr 0x400000"
    by (simp add: page_dict_switch_def ram_kernel_to_phys_def pd_ex_def RAM_VIRTUAL_START_def)
  then have "vmm_user_stack_create True pd_ex [[97]] 0x400 vm_ex = Inr (0xBFFFEFE8, s6)"
    using s1(1) s2(1) s3(1) s4(1) s5(1) s6
    by (simp add: vmm_user_stack_create_def Let_def sv USER_STACK_TOP_def)
  then show ?thesis by (simp add: stack_run_def)
qed

lemma vmm_user_stack_fits_witness:
  "unat (fst stack_run) mod 4 = 0 \<and> unat (fst stack_run) \<le> unat USER_STACK_TOP - 16 \<and>
    unat (USER_STACK_TOP - (stack_sysvals [[97]] + 0x400)) + unat (0x400 :: u32) \<le> unat (fst stack_run)"
  by (rule vmm_user_stack_fits [OF stack_run_eq]) (simp add: stack_bytes_def)

end
