(* ===== verification/Port_Io.thy ===== *)
theory Port_Io
  imports Kernel_Prelude
begin

text \<open>
  Port input and output, \<^verbatim>\<open>src/src/kernel/system.c\<close>.  \<open>io_in\<close> lists the values the devices
  answer to the successive reads and \<open>io_log\<close> records every access, so that what a driver
  does is its result together with the log.  Code that still polls when the inputs end is the
  fault \<open>Waiting\<close>.
\<close>

unbundle bit_operations_syntax

datatype io_ev =
  In8 u16 u8 | Out8 u16 u8 | In16 u16 u16 | Out16 u16 u16 | In32 u16 u32 | Out32 u16 u32

record io_t =
  io_in :: "u32 list"
  io_log :: "io_ev list"

definition outb :: "u16 \<Rightarrow> u8 \<Rightarrow> io_t \<Rightarrow> io_t" where
  "outb port v io = io\<lparr> io_log := io_log io @ [Out8 port v] \<rparr>"

definition outw :: "u16 \<Rightarrow> u16 \<Rightarrow> io_t \<Rightarrow> io_t" where
  "outw port v io = io\<lparr> io_log := io_log io @ [Out16 port v] \<rparr>"

definition outl :: "u16 \<Rightarrow> u32 \<Rightarrow> io_t \<Rightarrow> io_t" where
  "outl port v io = io\<lparr> io_log := io_log io @ [Out32 port v] \<rparr>"

definition inb :: "u16 \<Rightarrow> io_t \<Rightarrow> (u8 \<times> io_t) res" where
  "inb port io = (case io_in io of
      [] \<Rightarrow> Inl Waiting
    | v # vs \<Rightarrow> Inr (ucast v, io\<lparr> io_in := vs, io_log := io_log io @ [In8 port (ucast v)] \<rparr>))"

definition inw :: "u16 \<Rightarrow> io_t \<Rightarrow> (u16 \<times> io_t) res" where
  "inw port io = (case io_in io of
      [] \<Rightarrow> Inl Waiting
    | v # vs \<Rightarrow> Inr (ucast v, io\<lparr> io_in := vs, io_log := io_log io @ [In16 port (ucast v)] \<rparr>))"

definition inl :: "u16 \<Rightarrow> io_t \<Rightarrow> (u32 \<times> io_t) res" where
  "inl port io = (case io_in io of
      [] \<Rightarrow> Inl Waiting
    | v # vs \<Rightarrow> Inr (v, io\<lparr> io_in := vs, io_log := io_log io @ [In32 port v] \<rparr>))"

lemma io_out_simps [simp]:
  "io_in (outb p v io) = io_in io" "io_log (outb p v io) = io_log io @ [Out8 p v]"
  "io_in (outw p w io) = io_in io" "io_log (outw p w io) = io_log io @ [Out16 p w]"
  "io_in (outl p x io) = io_in io" "io_log (outl p x io) = io_log io @ [Out32 p x]"
  by (simp_all add: outb_def outw_def outl_def)

lemma io_in_cons:
  "io_in io = v # vs \<Longrightarrow>
   inb p io = Inr (ucast v, \<lparr> io_in = vs, io_log = io_log io @ [In8 p (ucast v)] \<rparr>)"
  "io_in io = v # vs \<Longrightarrow>
   inw p io = Inr (ucast v, \<lparr> io_in = vs, io_log = io_log io @ [In16 p (ucast v)] \<rparr>)"
  "io_in io = v # vs \<Longrightarrow>
   inl p io = Inr (v, \<lparr> io_in = vs, io_log = io_log io @ [In32 p v] \<rparr>)"
  by (cases io; simp add: inb_def inw_def inl_def)+

lemma inb_shorter: "inb p io = Inr (v, io') \<Longrightarrow> length (io_in io') < length (io_in io)"
  by (auto simp: inb_def split: list.splits)

text \<open>\<open>n\<close> reads whose values are dropped, used as a delay.\<close>

fun inb_skip :: "u16 \<Rightarrow> nat \<Rightarrow> io_t \<Rightarrow> io_t res" where
  "inb_skip p 0 io = Inr io"
| "inb_skip p (Suc n) io = rbind (inb p io) (\<lambda>(_, io). inb_skip p n io)"

lemma inb_skip_ok:
  assumes "n \<le> length (io_in io)"
  shows "\<exists>io'. inb_skip p n io = Inr io' \<and> io_in io' = drop n (io_in io) \<and>
    io_log io' = io_log io @ map (\<lambda>v. In8 p (ucast v)) (take n (io_in io))"
  using assms
proof (induction n arbitrary: io)
  case (Suc n)
  then obtain v vs where v: "io_in io = v # vs" by (cases "io_in io") auto
  let ?io = "\<lparr> io_in = vs, io_log = io_log io @ [In8 p (ucast v)] \<rparr>"
  have "\<exists>io'. inb_skip p n ?io = Inr io' \<and> io_in io' = drop n (io_in ?io) \<and>
    io_log io' = io_log ?io @ map (\<lambda>v. In8 p (ucast v)) (take n (io_in ?io))"
    by (rule Suc.IH) (use Suc.prems v in simp)
  then show ?case by (auto simp: v io_in_cons)
qed simp

end
