(* ===== verification/Date_Time.thy ===== *)
theory Date_Time
  imports Port_Io
begin

text \<open>
  \<^verbatim>\<open>src/src/lib/datetime.c\<close>: the CMOS clock, the packed dates of FAT directory entries and
  the time stamp in seconds.  The lemmas give the round trip through the packed format, the
  correctness of the leap-day arithmetic of the time stamp against a day-by-day calendar, and
  the protocol with the clock.
\<close>

unbundle bit_operations_syntax

section \<open>Data and operations\<close>

record datetime_t =
  year :: u16
  month :: u8
  day :: u8
  hour :: u8
  minute :: u8
  second :: u8

record datetime_fat_t =
  date :: u16
  time :: u16

definition pref_months :: "u16 list" where
  "pref_months = [0, 31, 59, 90, 120, 151, 181, 212, 243, 273, 304, 334]"

definition cmos_read :: "u8 \<Rightarrow> io_t \<Rightarrow> (u8 \<times> io_t) res" where
  "cmos_read reg io = inb 0x71 (outb 0x70 (reg OR 0x80) io)"

lemma cmos_read_shorter: "cmos_read reg io = Inr (v, io') \<Longrightarrow> length (io_in io') < length (io_in io)"
  using inb_shorter by (fastforce simp: cmos_read_def)

function cmos_wait_update :: "io_t \<Rightarrow> io_t res" where
  "cmos_wait_update io = (case cmos_read 0x0A io of
      Inl e \<Rightarrow> Inl e
    | Inr (v, io') \<Rightarrow> if v AND 0x80 \<noteq> 0 then cmos_wait_update io' else Inr io')"
  by pat_completeness auto

termination
  by (relation "measure (\<lambda>io. length (io_in io))") (auto dest: cmos_read_shorter)

declare cmos_wait_update.simps [simp del]

definition bcd_to_bin :: "u8 \<Rightarrow> u8" where
  "bcd_to_bin bcd = (bcd AND 0x0F) + drop_bit 4 bcd * 10"

definition datetime_get :: "io_t \<Rightarrow> (datetime_t \<times> io_t) res" where
  "datetime_get io =
    rbind (cmos_wait_update io) (\<lambda>io.
    rbind (cmos_read 0x00 io) (\<lambda>(sec, io).
    rbind (cmos_read 0x02 io) (\<lambda>(mi, io).
    rbind (cmos_read 0x04 io) (\<lambda>(hrs, io).
    rbind (cmos_read 0x07 io) (\<lambda>(da, io).
    rbind (cmos_read 0x08 io) (\<lambda>(mon, io).
    rbind (cmos_read 0x09 io) (\<lambda>(yr, io).
    rbind (cmos_read 0x0B io) (\<lambda>(regB, io).
      let f = (if regB AND 0x04 = 0 then bcd_to_bin else (\<lambda>x. x))
      in Inr (\<lparr> year = 2000 + ucast (f yr), month = f mon, day = f da,
               hour = f hrs, minute = f mi, second = f sec \<rparr>, io)))))))))"

text \<open>The C arithmetic is done in 32-bit \<open>int\<close> and cut to 16 bits by the assignment.\<close>

definition datetime_fat_from_datetime :: "datetime_t \<Rightarrow> datetime_fat_t" where
  "datetime_fat_from_datetime d =
    \<lparr> date = ucast (push_bit 9 (ucast (year d) - 1980) + push_bit 5 (ucast (month d)) + ucast (day d) :: u32),
      time = ucast (push_bit 11 (ucast (hour d)) + push_bit 5 (ucast (minute d)) +
                    ucast (second d) div 2 :: u32) \<rparr>"

definition datetime_datetime_from_fat :: "datetime_fat_t \<Rightarrow> datetime_t" where
  "datetime_datetime_from_fat f =
    \<lparr> year = 1980 + (drop_bit 9 (date f) AND 0x7F),
      month = ucast (drop_bit 5 (date f) AND 0x0F),
      day = ucast (date f AND 0x1F),
      hour = ucast (drop_bit 11 (time f) AND 0x1F),
      minute = ucast (drop_bit 5 (time f) AND 0x3F),
      second = ucast ((time f AND 0x1F) * 2) \<rparr>"

definition datetime_timestamp_from_datetime :: "datetime_t \<Rightarrow> u32 res" where
  "datetime_timestamp_from_datetime d =
    (if month d = 0 \<or> 12 < month d then Inl Out_Of_Bounds
     else
       let pref = ucast (pref_months ! (unat (month d) - 1)) :: u32;
           r = ucast (second d) + ucast (minute d) * 60 + ucast (hour d) * 3600 + ucast (day d) * 86400
               + pref * 86400;
           y = year d - 1980;
           is_leap = (y AND 3 = 0);
           r = (if is_leap \<and> 2 < month d then r + 86400 else r);
           r = r + ucast y * 365 * 86400
       in Inr (r + (ucast (y div 4) + (if is_leap then 0 else 1)) * 86400))"

section \<open>Round trip through the packed format\<close>

lemma masks: "(0x7F :: u16) = mask 7" "(0x0F :: u16) = mask 4" "(0x1F :: u16) = mask 5" "(0x3F :: u16) = mask 6"
  by (simp_all add: mask_eq_decr_exp)

lemma unat_ucast_8_32 [simp]: "unat (ucast (b :: u8) :: u32) = unat b"
  using unat_less_exp [of b] by (simp add: unat_ucast)

lemma unat_ucast_16_32 [simp]: "unat (ucast (b :: u16) :: u32) = unat b"
  using unat_less_exp [of b] by (simp add: unat_ucast)

definition fat_range :: "datetime_t \<Rightarrow> bool" where
  "fat_range d = (1980 \<le> year d \<and> year d < 2108 \<and> month d < 16 \<and> day d < 32 \<and>
     hour d < 32 \<and> minute d < 64 \<and> second d < 64)"

lemma fat_date_unat:
  assumes "fat_range d"
  shows "unat (date (datetime_fat_from_datetime d)) =
      (unat (year d) - 1980) * 512 + unat (month d) * 32 + unat (day d)"
    "unat (time (datetime_fat_from_datetime d)) =
      unat (hour d) * 2048 + unat (minute d) * 32 + unat (second d) div 2"
proof -
  have b: "1980 \<le> unat (year d)" "unat (year d) < 2108" "unat (month d) < 16" "unat (day d) < 32"
    "unat (hour d) < 32" "unat (minute d) < 64" "unat (second d) < 64"
    using assms by (simp_all add: fat_range_def word_le_nat_alt word_less_nat_alt)
  have y: "unat (ucast (year d) - 1980 :: u32) = unat (year d) - 1980"
    using b(1) by (simp add: unat_sub word_le_nat_alt)
  have p: "unat (push_bit 9 (ucast (year d) - 1980) :: u32) = (unat (year d) - 1980) * 512"
    "unat (push_bit 5 (ucast (month d)) :: u32) = unat (month d) * 32"
    "unat (push_bit 11 (ucast (hour d)) :: u32) = unat (hour d) * 2048"
    "unat (push_bit 5 (ucast (minute d)) :: u32) = unat (minute d) * 32"
    using b y by (simp_all only: unat_push) simp_all
  have "unat (push_bit 9 (ucast (year d) - 1980) + push_bit 5 (ucast (month d)) + ucast (day d) :: u32)
      = (unat (year d) - 1980) * 512 + unat (month d) * 32 + unat (day d)"
    using b by (simp only: unat_word_ariths p unat_ucast_8_32) simp
  then show "unat (date (datetime_fat_from_datetime d)) =
      (unat (year d) - 1980) * 512 + unat (month d) * 32 + unat (day d)"
    using b by (simp only: datetime_fat_from_datetime_def datetime_fat_t.simps unat_ucast) simp
  have "unat (ucast (second d) div 2 :: u32) = unat (second d) div 2" by (simp add: unat_div)
  then have "unat (push_bit 11 (ucast (hour d)) + push_bit 5 (ucast (minute d)) + ucast (second d) div 2 :: u32)
      = unat (hour d) * 2048 + unat (minute d) * 32 + unat (second d) div 2"
    using b by (simp only: unat_word_ariths p) simp
  then show "unat (time (datetime_fat_from_datetime d)) =
      unat (hour d) * 2048 + unat (minute d) * 32 + unat (second d) div 2"
    using b by (simp only: datetime_fat_from_datetime_def datetime_fat_t.simps unat_ucast) simp
qed

lemma radix32: "c < (32 :: nat) \<Longrightarrow> (q * 32 + c) div 32 = q" "c < (32 :: nat) \<Longrightarrow> (q * 32 + c) mod 32 = c"
  by simp_all

lemma fields:
  assumes "b < n" "c < (32 :: nat)"
  shows "(a * (32 * n) + b * 32 + c) div (32 * n) = a" "(a * (32 * n) + b * 32 + c) div 32 mod n = b"
    "(a * (32 * n) + b * 32 + c) mod 32 = c"
proof -
  have e: "a * (32 * n) + b * 32 + c = (a * n + b) * 32 + c" by (simp add: algebra_simps)
  show "(a * (32 * n) + b * 32 + c) div 32 mod n = b"
    unfolding e radix32(1) [OF assms(2)] using assms(1) by simp
  show "(a * (32 * n) + b * 32 + c) mod 32 = c" unfolding e by (rule radix32(2) [OF assms(2)])
  show "(a * (32 * n) + b * 32 + c) div (32 * n) = a"
    unfolding e div_mult2_eq radix32(1) [OF assms(2)] using assms(1) by simp
qed

lemma datetime_fat_roundtrip:
  assumes "fat_range d"
  shows "datetime_datetime_from_fat (datetime_fat_from_datetime d) = d\<lparr> second := second d - second d mod 2 \<rparr>"
proof -
  let ?f = "datetime_fat_from_datetime d"
  have b: "1980 \<le> unat (year d)" "unat (year d) < 2108" "unat (month d) < 16" "unat (day d) < 32"
    "unat (hour d) < 32" "unat (minute d) < 64" "unat (second d) < 64"
    using assms by (simp_all add: fat_range_def word_le_nat_alt word_less_nat_alt)
  have b8: "unat (second d) div 2 < 32" by (rule less_mult_imp_div_less) (use b(7) in simp)
  note u = fat_date_unat [OF assms]
  note F2 = fields [OF b(3,4), of "unat (year d) - 1980", simplified]
  note F3 = fields [OF b(6) b8, of "unat (hour d)", simplified]
  have "unat (drop_bit 9 (date ?f) AND 0x7F) = unat (year d) - 1980"
    unfolding masks unat_and_mask unat_drop u using F2 b by simp
  then have "unat (1980 + (drop_bit 9 (date ?f) AND 0x7F)) = unat (year d)"
    using b by (simp add: unat_word_ariths)
  then have 1: "1980 + (drop_bit 9 (date ?f) AND 0x7F) = year d" by (simp only: word_unat_eq_iff)
  have "unat (ucast (drop_bit 5 (date ?f) AND 0x0F) :: u8) = unat (month d)"
    unfolding masks unat_ucast unat_and_mask unat_drop u using F2 b by simp
  then have 2: "ucast (drop_bit 5 (date ?f) AND 0x0F) = month d" by (simp only: word_unat_eq_iff)
  have "unat (ucast (date ?f AND 0x1F) :: u8) = unat (day d)"
    unfolding masks unat_ucast unat_and_mask u using F2 b by simp
  then have 3: "ucast (date ?f AND 0x1F) = day d" by (simp only: word_unat_eq_iff)
  have "unat (ucast (drop_bit 11 (time ?f) AND 0x1F) :: u8) = unat (hour d)"
    unfolding masks unat_ucast unat_and_mask unat_drop u using F3 b by simp
  then have 4: "ucast (drop_bit 11 (time ?f) AND 0x1F) = hour d" by (simp only: word_unat_eq_iff)
  have "unat (ucast (drop_bit 5 (time ?f) AND 0x3F) :: u8) = unat (minute d)"
    unfolding masks unat_ucast unat_and_mask unat_drop u using F3 b by simp
  then have 5: "ucast (drop_bit 5 (time ?f) AND 0x3F) = minute d" by (simp only: word_unat_eq_iff)
  have t: "unat ((time ?f AND 0x1F) * 2) = unat (second d) div 2 * 2"
  proof -
    have "unat (time ?f AND 0x1F) = unat (second d) div 2"
      unfolding masks unat_and_mask u using F3 b by simp
    then show ?thesis using b by (simp add: unat_word_ariths)
  qed
  have "unat (second d - second d mod 2) = unat (second d) div 2 * 2"
  proof -
    have m: "unat (second d mod 2) = unat (second d) mod 2" by (simp add: unat_mod)
    then have "unat (second d mod 2) \<le> unat (second d)" by simp
    then have "unat (second d - second d mod 2) = unat (second d) - unat (second d) mod 2"
      by (simp only: unat_sub word_le_nat_alt m)
    then show ?thesis by (simp only: minus_mod_eq_div_mult)
  qed
  then have "unat (ucast ((time ?f AND 0x1F) * 2) :: u8) = unat (second d - second d mod 2)"
    unfolding unat_ucast t using b by simp
  then have 6: "ucast ((time ?f AND 0x1F) * 2) = second d - second d mod 2"
    by (simp only: word_unat_eq_iff)
  show ?thesis
    unfolding datetime_datetime_from_fat_def 1 2 3 4 5 6 by simp
qed

section \<open>The time stamp against a calendar\<close>

text \<open>The Gregorian calendar, advanced one day at a time.\<close>

definition leap_year :: "nat \<Rightarrow> bool" where
  "leap_year y = (y mod 4 = 0 \<and> (y mod 100 \<noteq> 0 \<or> y mod 400 = 0))"

definition month_days :: "nat \<Rightarrow> nat \<Rightarrow> nat" where
  "month_days y m = (if m = 2 then (if leap_year y then 29 else 28)
     else if m = 4 \<or> m = 6 \<or> m = 9 \<or> m = 11 then 30 else 31)"

definition valid_date :: "datetime_t \<Rightarrow> bool" where
  "valid_date d = (1980 \<le> unat (year d) \<and> unat (year d) < 2100 \<and> 1 \<le> unat (month d) \<and> unat (month d) \<le> 12 \<and>
     1 \<le> unat (day d) \<and> unat (day d) \<le> month_days (unat (year d)) (unat (month d)))"

definition next_day :: "datetime_t \<Rightarrow> datetime_t" where
  "next_day d =
    (if unat (day d) < month_days (unat (year d)) (unat (month d)) then d\<lparr> day := day d + 1 \<rparr>
     else if unat (month d) < 12 then d\<lparr> day := 1, month := month d + 1 \<rparr>
     else d\<lparr> day := 1, month := 1, year := year d + 1 \<rparr>)"

definition stamp :: "nat \<Rightarrow> nat \<Rightarrow> nat \<Rightarrow> nat" where
  "stamp y m d = d + unat (pref_months ! (m - 1)) + (if y mod 4 = 0 \<and> 2 < m then 1 else 0) + 365 * y
     + y div 4 + (if y mod 4 = 0 then 0 else 1)"

lemma leap_year_range: "1980 \<le> y \<Longrightarrow> y < 2100 \<Longrightarrow> leap_year y = ((y - 1980) mod 4 = 0)"
proof -
  assume y: "1980 \<le> y" "y < 2100"
  have "y mod 100 = 0 \<Longrightarrow> y = 2000"
  proof -
    assume "y mod 100 = 0"
    then obtain k where "y = 100 * k" by auto
    with y show "y = 2000" by simp
  qed
  moreover have "y mod 4 = (y - 1980) mod 4"
  proof -
    obtain k where "y = 4 * 495 + k" using y(1) le_Suc_ex by force
    then show ?thesis by (simp only: mod_mult_self4) simp
  qed
  moreover have "y = 2000 \<Longrightarrow> y mod 400 = 0" by simp
  ultimately show ?thesis unfolding leap_year_def by metis
qed

lemma month_cases: "1 \<le> m \<Longrightarrow> m \<le> 12 \<Longrightarrow>
  m = 1 \<or> m = 2 \<or> m = 3 \<or> m = 4 \<or> m = 5 \<or> m = 6 \<or> m = 7 \<or> m = 8 \<or> m = 9 \<or> m = 10 \<or> m = 11 \<or> m = (12 :: nat)"
  by presburger

lemma stamp_next_month:
  assumes "1 \<le> m" "m < 12" "1980 \<le> y" "y < 2100"
  shows "stamp (y - 1980) (m + 1) 1 = stamp (y - 1980) m (month_days y m) + 1"
  using month_cases [of m] assms(1,2) leap_year_range [OF assms(3,4)]
  by (auto simp: stamp_def month_days_def pref_months_def)

lemma stamp_next_year:
  assumes "1980 \<le> y" "y < 2100"
  shows "stamp (y + 1 - 1980) 1 1 = stamp (y - 1980) 12 31 + 1"
proof -
  obtain k where k: "y = 1980 + k" using assms(1) le_Suc_ex by blast
  have "Suc k div 4 + (if Suc k mod 4 = 0 then 0 else 1) = k div 4 + 1"
    by (cases "Suc k mod 4 = 0") (simp_all add: div_Suc)
  then show ?thesis by (auto simp: k stamp_def pref_months_def)
qed

lemma timestamp_sum:
  "(of_nat s :: u32) + of_nat mi * 60 + of_nat h * 3600 + of_nat dd * 86400
    + of_nat (unat (pref_months ! (m - 1))) * 86400 + (if y mod 4 = 0 \<and> 2 < m then 86400 else 0)
    + of_nat y * 365 * 86400 + (of_nat (y div 4) + (if y mod 4 = 0 then 0 else 1)) * 86400
   = of_nat (s + mi * 60 + h * 3600 + 86400 * stamp y m dd)"
  by (simp add: stamp_def algebra_simps)

lemma datetime_timestamp_eq:
  assumes "valid_date d"
  shows "datetime_timestamp_from_datetime d = Inr (of_nat (unat (second d) + unat (minute d) * 60 +
    unat (hour d) * 3600 + 86400 * stamp (unat (year d) - 1980) (unat (month d)) (unat (day d))))"
proof -
  have v: "1980 \<le> unat (year d)" "1 \<le> unat (month d)" "unat (month d) \<le> 12"
    using assms by (simp_all add: valid_date_def)
  let ?y = "year d - 1980"
  have uy: "unat ?y = unat (year d) - 1980" using v(1) by (simp add: unat_sub word_le_nat_alt)
  have i: "\<not> (month d = 0 \<or> 12 < month d)" using v by (auto simp: word_less_nat_alt)
  have leap: "?y AND 3 = 0 \<longleftrightarrow> (unat (year d) - 1980) mod 4 = 0"
  proof -
    have "(3 :: u16) = mask 2" by (simp add: mask_eq_decr_exp)
    then have "unat (?y AND 3) = (unat (year d) - 1980) mod 4" by (simp only: unat_and_mask uy) simp
    then show ?thesis by (simp flip: unat_eq_0)
  qed
  have gt: "2 < month d \<longleftrightarrow> 2 < unat (month d)" by (simp add: word_less_nat_alt)
  have q: "unat (?y div 4) = (unat (year d) - 1980) div 4" by (simp add: unat_div uy)
  have uc: "(ucast w :: u32) = of_nat (unat w)" for w :: "'a::len word" by (simp only: word_unat_eq_iff unat_ucast unat_of_nat)
  have "datetime_timestamp_from_datetime d = Inr (
      of_nat (unat (second d)) + of_nat (unat (minute d)) * 60 + of_nat (unat (hour d)) * 3600
      + of_nat (unat (day d)) * 86400 + of_nat (unat (pref_months ! (unat (month d) - 1))) * 86400
      + (if (unat (year d) - 1980) mod 4 = 0 \<and> 2 < unat (month d) then 86400 else 0)
      + of_nat (unat (year d) - 1980) * 365 * 86400
      + (of_nat ((unat (year d) - 1980) div 4) + (if (unat (year d) - 1980) mod 4 = 0 then 0 else 1)) * 86400)"
    using v unfolding datetime_timestamp_from_datetime_def Let_def if_not_P [OF i] leap gt uc uy q
    by simp
  also have "\<dots> = Inr (of_nat (unat (second d) + unat (minute d) * 60 +
    unat (hour d) * 3600 + 86400 * stamp (unat (year d) - 1980) (unat (month d)) (unat (day d))))"
    by (rule arg_cong [where f = Inr]) (rule timestamp_sum)
  finally show ?thesis .
qed

lemma valid_next_day:
  assumes "valid_date d" "unat (year (next_day d)) < 2100"
  shows "valid_date (next_day d)"
    and "stamp (unat (year (next_day d)) - 1980) (unat (month (next_day d))) (unat (day (next_day d)))
      = stamp (unat (year d) - 1980) (unat (month d)) (unat (day d)) + 1"
    and "second (next_day d) = second d" "minute (next_day d) = minute d" "hour (next_day d) = hour d"
proof -
  let ?y = "unat (year d)" and ?m = "unat (month d)" and ?d = "unat (day d)"
  have v: "1980 \<le> ?y" "?y < 2100" "1 \<le> ?m" "?m \<le> 12" "1 \<le> ?d" "?d \<le> month_days ?y ?m"
    using assms(1) by (simp_all add: valid_date_def)
  have md: "month_days y m \<le> 31" "28 \<le> month_days y m" for y m by (simp_all add: month_days_def)
  have sd: "unat (day d + 1) = ?d + 1" if "?d < month_days ?y ?m"
    using that md(1) [of ?y ?m] by (simp add: unat_word_ariths)
  have sm: "unat (month d + 1) = ?m + 1" using v by (simp add: unat_word_ariths)
  have sy: "unat (year d + 1) = ?y + 1" using v by (simp add: unat_word_ariths)
  consider (day) "?d < month_days ?y ?m" | (month) "?d = month_days ?y ?m" "?m < 12"
    | (year) "?d = month_days ?y ?m" "?m = 12" using v by linarith
  note c = this
  show "valid_date (next_day d)"
    by (rule c) (use v assms(2) sd sm sy md in \<open>auto simp: valid_date_def next_day_def intro: order.trans [OF _ md(2)]\<close>)
  show "stamp (unat (year (next_day d)) - 1980) (unat (month (next_day d))) (unat (day (next_day d)))
      = stamp (?y - 1980) ?m ?d + 1"
  proof (rule c)
    assume a: "?d = month_days ?y ?m" "?m < 12"
    then show ?thesis using stamp_next_month [of ?m ?y] v by (simp add: next_day_def sm)
  next
    assume a: "?d = month_days ?y ?m" "?m = 12"
    then show ?thesis using stamp_next_year [of ?y] v by (simp add: next_day_def sy month_days_def)
  qed (simp add: next_day_def sd, simp add: stamp_def)
  show "second (next_day d) = second d" "minute (next_day d) = minute d" "hour (next_day d) = hour d"
    by (simp_all add: next_day_def)
qed

section \<open>The protocol with the clock\<close>

lemma cmos_wait_busy:
  "io_in io = v # vs \<Longrightarrow> ucast v AND (0x80 :: u8) \<noteq> 0 \<Longrightarrow>
   cmos_wait_update io = cmos_wait_update \<lparr> io_in = vs, io_log = io_log io @ [Out8 0x70 0x8A, In8 0x71 (ucast v)] \<rparr>"
  by (subst cmos_wait_update.simps) (simp add: cmos_read_def io_in_cons)

lemma cmos_wait_ready:
  "io_in io = v # vs \<Longrightarrow> ucast v AND (0x80 :: u8) = 0 \<Longrightarrow>
   cmos_wait_update io = Inr \<lparr> io_in = vs, io_log = io_log io @ [Out8 0x70 0x8A, In8 0x71 (ucast v)] \<rparr>"
  by (subst cmos_wait_update.simps) (simp add: cmos_read_def io_in_cons)

lemma cmos_wait_polls:
  assumes "list_all (\<lambda>v. ucast v AND (0x80 :: u8) \<noteq> 0) bs" "ucast r AND (0x80 :: u8) = 0"
    "io_in io = bs @ r # vs"
  shows "cmos_wait_update io = Inr \<lparr> io_in = vs,
    io_log = io_log io @ concat (map (\<lambda>v. [Out8 0x70 0x8A, In8 0x71 (ucast v)]) (bs @ [r])) \<rparr>"
  using assms
proof (induction bs arbitrary: io)
  case Nil
  then show ?case by (simp add: cmos_wait_ready)
next
  case (Cons b bs)
  then show ?case by (simp add: cmos_wait_busy)
qed

lemma cmos_wait_stuck:
  assumes "list_all (\<lambda>v. ucast v AND (0x80 :: u8) \<noteq> 0) (io_in io)"
  shows "cmos_wait_update io = Inl Waiting"
  using assms
proof (induction "io_in io" arbitrary: io)
  case Nil
  then show ?case by (subst cmos_wait_update.simps) (simp add: cmos_read_def inb_def)
next
  case (Cons b bs)
  then show ?case by (simp add: cmos_wait_busy [OF Cons.hyps(2) [symmetric]] flip: Cons.hyps(2))
qed

definition bcd_enc :: "nat \<Rightarrow> u8" where
  "bcd_enc n = of_nat (n div 10 * 16 + n mod 10)"

lemma bcd_to_bin_enc: "n < 100 \<Longrightarrow> bcd_to_bin (bcd_enc n) = of_nat n"
proof -
  assume n: "n < 100"
  then have "n div 10 < 10" by simp
  moreover have "n mod 10 < 10" by simp
  ultimately have u: "unat (bcd_enc n) = n div 10 * 16 + n mod 10"
    by (simp only: bcd_enc_def unat_of_nat) simp
  have "unat (bcd_to_bin (bcd_enc n)) = n"
  proof -
    have m: "(0x0F :: u8) = mask 4" by (simp add: mask_eq_decr_exp)
    have "unat (bcd_enc n AND 0x0F) = n mod 10"
      unfolding m unat_and_mask u by simp
    moreover have "unat (drop_bit 4 (bcd_enc n)) = n div 10" unfolding unat_drop u by simp
    ultimately show ?thesis using n by (simp add: bcd_to_bin_def unat_word_ariths)
  qed
  then show ?thesis by (simp add: word_unat_eq_iff unat_of_nat) (use n in simp)
qed

text \<open>The clock answers \<open>bs\<close> while it updates, then the status \<open>r\<close>, the six fields in BCD and the
  format register.\<close>

definition clock_input :: "u32 list \<Rightarrow> u32 \<Rightarrow> nat list \<Rightarrow> u32 list" where
  "clock_input bs r fs = bs @ r # map (\<lambda>n. ucast (bcd_enc n)) fs @ [0x02]"

lemma datetime_get_polls:
  assumes "list_all (\<lambda>v. ucast v AND (0x80 :: u8) \<noteq> 0) bs" "ucast r AND (0x80 :: u8) = 0"
    "io_in io = clock_input bs r [s, mi, h, da, mo, yr] @ rest"
    "s < 60" "mi < 60" "h < 24" "da < 32" "mo < 13" "yr < 100"
  shows "\<exists>io'. datetime_get io = Inr (\<lparr> year = of_nat (2000 + yr), month = of_nat mo, day = of_nat da,
      hour = of_nat h, minute = of_nat mi, second = of_nat s \<rparr>, io') \<and> io_in io' = rest"
proof -
  have w: "cmos_wait_update io = Inr \<lparr> io_in = map (\<lambda>n. ucast (bcd_enc n)) [s, mi, h, da, mo, yr] @ [0x02] @ rest,
    io_log = io_log io @ concat (map (\<lambda>v. [Out8 0x70 0x8A, In8 0x71 (ucast v)]) (bs @ [r])) \<rparr>"
    by (rule cmos_wait_polls [OF assms(1,2)]) (simp add: assms(3) clock_input_def)
  have u: "ucast (ucast (b :: u8) :: u32) = b" for b
    using unat_less_exp [of b] by (simp add: word_unat_eq_iff unat_ucast)
  have y: "(ucast (of_nat yr :: u8) :: u16) = of_nat yr"
    using assms(9) by (simp add: word_unat_eq_iff unat_ucast unat_of_nat)
  have b: "bcd_to_bin (bcd_enc s) = of_nat s" "bcd_to_bin (bcd_enc mi) = of_nat mi"
    "bcd_to_bin (bcd_enc h) = of_nat h" "bcd_to_bin (bcd_enc da) = of_nat da"
    "bcd_to_bin (bcd_enc mo) = of_nat mo" "bcd_to_bin (bcd_enc yr) = of_nat yr"
    using assms by (simp_all add: bcd_to_bin_enc)
  show ?thesis
    by (simp add: datetime_get_def w cmos_read_def io_in_cons u b y)
qed

section \<open>Properties\<close>

text \<open>Packing a date into the two 16-bit words of a FAT directory entry and unpacking it again
  gives the same date for every year from 1980 to 2107, with the seconds rounded down to an even
  number.\<close>

lemma datetime_fat_pack_unpack:
  assumes "fat_range d"
  shows "datetime_datetime_from_fat (datetime_fat_from_datetime d) = d\<lparr> second := second d - second d mod 2 \<rparr>"
  by (rule datetime_fat_roundtrip [OF assms])

lemma datetime_fat_pack_unpack_witness:
  "datetime_datetime_from_fat (datetime_fat_from_datetime
     \<lparr> year = 2024, month = 2, day = 29, hour = 23, minute = 59, second = 59 \<rparr>) =
   \<lparr> year = 2024, month = 2, day = 29, hour = 23, minute = 59, second = 58 \<rparr>"
  by (subst datetime_fat_pack_unpack) (simp_all add: fat_range_def)

text \<open>C12: From 1980 to 2099 the time stamp counts seconds of the Gregorian calendar: the stamp of the
  same time on the next day, across ends of months, leap days and ends of years, is 86400 seconds
  later.\<close>

lemma datetime_timestamp_next_day:
  assumes "valid_date d" "unat (year (next_day d)) < 2100"
  shows "\<exists>t. datetime_timestamp_from_datetime d = Inr t \<and>
    datetime_timestamp_from_datetime (next_day d) = Inr (t + 86400)"
  using valid_next_day [OF assms]
  by (simp add: datetime_timestamp_eq [OF assms(1)] datetime_timestamp_eq [OF valid_next_day(1) [OF assms]]
    algebra_simps)

lemma datetime_timestamp_next_day_witness:
  "\<exists>t. datetime_timestamp_from_datetime
      \<lparr> year = 2024, month = 2, day = 28, hour = 1, minute = 2, second = 3 \<rparr> = Inr t \<and>
    datetime_timestamp_from_datetime
      \<lparr> year = 2024, month = 2, day = 29, hour = 1, minute = 2, second = 3 \<rparr> = Inr (t + 86400)"
  using datetime_timestamp_next_day
    [of "\<lparr> year = 2024, month = 2, day = 28, hour = 1, minute = 2, second = 3 \<rparr>"]
  by (simp add: valid_date_def next_day_def month_days_def leap_year_def)

text \<open>However many polls find the clock updating, \<open>datetime_get\<close> returns, and what it returns is the
  date whose fields the clock then answers in BCD; it consumes exactly these answers.\<close>

lemma datetime_get_bcd:
  assumes "list_all (\<lambda>v. ucast v AND (0x80 :: u8) \<noteq> 0) bs" "ucast r AND (0x80 :: u8) = 0"
    "io_in io = clock_input bs r [s, mi, h, da, mo, yr] @ rest"
    "s < 60" "mi < 60" "h < 24" "da < 32" "mo < 13" "yr < 100"
  shows "\<exists>io'. datetime_get io = Inr (\<lparr> year = of_nat (2000 + yr), month = of_nat mo, day = of_nat da,
      hour = of_nat h, minute = of_nat mi, second = of_nat s \<rparr>, io') \<and> io_in io' = rest"
  by (rule datetime_get_polls [OF assms])

lemma datetime_get_bcd_witness:
  "\<exists>io'. datetime_get \<lparr> io_in = clock_input [0x80, 0xA6] 0x26 [7, 30, 23, 9, 11, 25] @ [5], io_log = [] \<rparr> =
     Inr (\<lparr> year = of_nat (2000 + 25), month = of_nat 11, day = of_nat 9,
      hour = of_nat 23, minute = of_nat 30, second = of_nat 7 \<rparr>, io') \<and> io_in io' = [5]"
  by (rule datetime_get_bcd) simp_all

end
