(* ===== verification/Interrupts.thy ===== *)
theory Interrupts
  imports Port_Io
begin

text \<open>
  Processor tables and interrupt dispatch: \<^verbatim>\<open>src/src/arch/gdt_initialiser.c\<close>, \<^verbatim>\<open>tss.c\<close>,
  \<^verbatim>\<open>idt_initialiser.c\<close>, \<^verbatim>\<open>isr.c\<close>, \<^verbatim>\<open>pat.c\<close> and the control-register part of \<^verbatim>\<open>sse.c\<close>.
  The link-time addresses of the tables and of the assembly stubs are arguments.  The lemmas decode
  the packed descriptors the way the processor does, run the initialisation sequence of the two
  interrupt controllers against their command protocol and state the end-of-interrupt protocol.
\<close>

unbundle bit_operations_syntax

section \<open>Segment descriptors\<close>

record gdt_entry_t =
  limit_low :: u16
  base_low :: u16
  base_middle :: u8
  access :: u8
  granularity :: u8
  base_high :: u8

record gdt_ptr_t =
  gp_limit :: u16
  gp_base :: u32

text \<open>The fields of the task state segment the kernel writes; \<open>memset\<close> clears the others.\<close>

record tss_t =
  esp0 :: u32
  ss0 :: u32
  tss_rest :: "u32 list"
  trap :: u16
  iomap_base :: u16

definition sizeof_tss :: nat where "sizeof_tss = 104"

record gdt_state =
  gdt_entries :: "gdt_entry_t list"
  gdt_ptr :: gdt_ptr_t
  tss_entry :: tss_t
  gdtr :: "gdt_ptr_t option"
  task_register :: "u16 option"

definition GDT_COUNT :: nat where "GDT_COUNT = 6"

definition gdt_set_gate :: "i32 \<Rightarrow> u32 \<Rightarrow> u32 \<Rightarrow> u8 \<Rightarrow> u8 \<Rightarrow> gdt_state \<Rightarrow> gdt_state res" where
  "gdt_set_gate number base limit acc gran st =
    (if sint number \<ge> int GDT_COUNT then Inl (Assertion ''number < GDT_COUNT'')
     else if sint number < 0 then Inl Out_Of_Bounds
     else Inr (st\<lparr> gdt_entries := (gdt_entries st)[nat (sint number) :=
       \<lparr> limit_low = ucast (limit AND 0xFFFF),
         base_low = ucast (base AND 0xFFFF),
         base_middle = ucast (drop_bit 16 base AND 0xFF),
         access = acc,
         granularity = ucast (drop_bit 16 limit AND 0x0F) OR (gran AND 0xF0),
         base_high = ucast (drop_bit 24 base AND 0xFF) \<rparr>] \<rparr>))"

text \<open>\<open>memset(&tss_entry, 0, sizeof(tss_t))\<close>; 23 of the 27 fields are only ever zero here.\<close>

definition tss_zero :: tss_t where
  "tss_zero = \<lparr> esp0 = 0, ss0 = 0, tss_rest = replicate 23 0, trap = 0, iomap_base = 0 \<rparr>"

definition tss_init :: "u32 \<Rightarrow> u32 \<Rightarrow> gdt_state \<Rightarrow> gdt_state res" where
  "tss_init tss_addr gdt_date_curr st =
    (let t = tss_zero\<lparr> ss0 := 0x10, iomap_base := of_nat sizeof_tss, esp0 := 0 \<rparr>
     in rbind (gdt_set_gate (ucast gdt_date_curr) tss_addr (of_nat sizeof_tss - 1) 0x89 0x40 (st\<lparr> tss_entry := t \<rparr>))
       (\<lambda>st. Inr (st\<lparr> task_register := Some 0x28 \<rparr>)))"

text \<open>\<open>gdt_flush\<close> loads the table register; the far jump reloads the selectors.\<close>

definition gdt_init :: "u32 \<Rightarrow> u32 \<Rightarrow> gdt_state \<Rightarrow> gdt_state res" where
  "gdt_init gdt_addr tss_addr st =
    rbind (gdt_set_gate 0 0 0 0 0
       (st\<lparr> gdt_ptr := \<lparr> gp_limit = of_nat (8 * GDT_COUNT) - 1, gp_base = gdt_addr \<rparr> \<rparr>)) (\<lambda>st.
    rbind (gdt_set_gate 1 0 0xFFFFFFFF 0x9A 0xCF st) (\<lambda>st.
    rbind (gdt_set_gate 2 0 0xFFFFFFFF 0x92 0xCF st) (\<lambda>st.
    rbind (gdt_set_gate 3 0 0xFFFFFFFF 0xFA 0xCF st) (\<lambda>st.
    rbind (gdt_set_gate 4 0 0xFFFFFFFF 0xF2 0xCF st) (\<lambda>st.
    tss_init tss_addr 5 (st\<lparr> gdtr := Some (gdt_ptr st) \<rparr>))))))"

text \<open>How the processor reads a descriptor.\<close>

definition seg_base :: "gdt_entry_t \<Rightarrow> u32" where
  "seg_base e = push_bit 24 (ucast (base_high e)) OR push_bit 16 (ucast (base_middle e)) OR ucast (base_low e)"

definition seg_limit20 :: "gdt_entry_t \<Rightarrow> u32" where
  "seg_limit20 e = push_bit 16 (ucast (granularity e AND 0x0F)) OR ucast (limit_low e)"

definition seg_limit :: "gdt_entry_t \<Rightarrow> u32" where
  "seg_limit e = (if bit (granularity e) 7 then push_bit 12 (seg_limit20 e) OR 0xFFF else seg_limit20 e)"

definition seg_dpl :: "gdt_entry_t \<Rightarrow> u8" where
  "seg_dpl e = drop_bit 5 (access e) AND 3"

definition seg_present :: "gdt_entry_t \<Rightarrow> bool" where
  "seg_present e = bit (access e) 7"

definition seg_code :: "gdt_entry_t \<Rightarrow> bool" where
  "seg_code e = (bit (access e) 4 \<and> bit (access e) 3)"

definition seg_data_rw :: "gdt_entry_t \<Rightarrow> bool" where
  "seg_data_rw e = (bit (access e) 4 \<and> \<not> bit (access e) 3 \<and> bit (access e) 1)"

definition seg_tss32 :: "gdt_entry_t \<Rightarrow> bool" where
  "seg_tss32 e = (access e AND 0x1F = 9)"

lemma mask_bits: "(0xFFFF :: 'a::len word) = mask 16" "(0xFF :: 'a word) = mask 8" "(0x0F :: 'a word) = mask 4"
  "(0xFFFFF :: 'a word) = mask 20"
  by (simp_all add: mask_eq_exp_minus_1)

lemma word32_of_parts:
  "push_bit 24 (ucast (ucast (drop_bit 24 b AND mask 8) :: u8)) OR
   push_bit 16 (ucast (ucast (drop_bit 16 b AND mask 8) :: u8)) OR
   ucast (ucast (b AND mask 16) :: u16) = (b :: u32)" (is "?l = ?r")
proof (rule bit_word_eqI)
  fix n
  assume "n < LENGTH(32)"
  then consider "n < 16" | "16 \<le> n" "n < 24" | "24 \<le> n" "n < 32" by fastforce
  then show "bit ?l n = bit ?r n"
    by cases (simp_all add: bit_simps less_diff_conv2)
qed

lemma low_nibble: "(x OR (g AND 0xF0)) AND (0x0F :: u8) = x AND 0x0F"
  by (simp add: bit.conj_disj_distrib2 and.assoc)

lemma high_nibble: "(ucast (l AND mask 4 :: u32) OR (g AND 0xF0)) AND (0xF0 :: u8) = g AND 0xF0"
proof -
  have "ucast (l AND mask 4 :: u32) AND (0xF0 :: u8) = 0"
  proof -
    have "ucast (l AND mask 4 :: u32) = (ucast l AND mask 4 :: u8)"
      by (rule bit_word_eqI) (auto simp: bit_simps)
    moreover have "mask 4 AND (0xF0 :: u8) = 0" by (simp add: mask_eq_decr_exp)
    ultimately show ?thesis by (simp only: and.assoc) simp
  qed
  then show ?thesis by (simp add: bit.conj_disj_distrib2 and.assoc)
qed

lemma word20_of_parts:
  "push_bit 16 (ucast (ucast (drop_bit 16 l AND mask 4) AND mask 4 :: u8)) OR
   ucast (ucast (l AND mask 16) :: u16) = (l AND mask 20 :: u32)" (is "?l = ?r")
proof (rule bit_word_eqI)
  fix n
  assume "n < LENGTH(32)"
  then consider "n < 16" | "16 \<le> n" "n < 20" | "20 \<le> n" "n < 32" by fastforce
  then show "bit ?l n = bit ?r n"
    by cases (simp_all add: bit_simps less_diff_conv2)
qed

lemma gdt_set_gate_ok:
  assumes "0 \<le> sint n" "sint n < int GDT_COUNT"
  shows "\<exists>st'. gdt_set_gate n base limit acc gran st = Inr st'"
  using assms by (simp add: gdt_set_gate_def)

lemma seg_fields:
  assumes "gdt_set_gate n base limit acc gran st = Inr st'" "length (gdt_entries st) = GDT_COUNT"
  shows "seg_base (gdt_entries st' ! nat (sint n)) = base"
    and "seg_limit20 (gdt_entries st' ! nat (sint n)) = limit AND 0xFFFFF"
    and "access (gdt_entries st' ! nat (sint n)) = acc"
    and "granularity (gdt_entries st' ! nat (sint n)) AND 0xF0 = gran AND 0xF0"
    and "i \<noteq> nat (sint n) \<Longrightarrow> gdt_entries st' ! i = gdt_entries st ! i"
    and "length (gdt_entries st') = GDT_COUNT"
proof -
  have n: "nat (sint n) < GDT_COUNT" using assms(1) by (auto simp: gdt_set_gate_def split: if_splits)
  have e: "gdt_entries st' = (gdt_entries st)[nat (sint n) :=
       \<lparr> limit_low = ucast (limit AND 0xFFFF),
         base_low = ucast (base AND 0xFFFF),
         base_middle = ucast (drop_bit 16 base AND 0xFF),
         access = acc,
         granularity = ucast (drop_bit 16 limit AND 0x0F) OR (gran AND 0xF0),
         base_high = ucast (drop_bit 24 base AND 0xFF) \<rparr>]"
    using assms(1) by (auto simp: gdt_set_gate_def split: if_splits)
  show "seg_base (gdt_entries st' ! nat (sint n)) = base"
    using n assms(2) word32_of_parts [of base] unfolding e mask_bits by (simp add: seg_base_def or.assoc)
  show "seg_limit20 (gdt_entries st' ! nat (sint n)) = limit AND 0xFFFFF"
    using n assms(2) word20_of_parts [of limit] unfolding e by (simp add: seg_limit20_def low_nibble) (simp add: mask_bits)
  show "access (gdt_entries st' ! nat (sint n)) = acc"
    using n assms(2) unfolding e by simp
  show "granularity (gdt_entries st' ! nat (sint n)) AND 0xF0 = gran AND 0xF0"
    using n assms(2) high_nibble [of "drop_bit 16 limit" gran] unfolding e mask_bits by simp
  show "i \<noteq> nat (sint n) \<Longrightarrow> gdt_entries st' ! i = gdt_entries st ! i" unfolding e by simp
  show "length (gdt_entries st') = GDT_COUNT" unfolding e by (simp add: assms(2))
qed

lemma gdt_step:
  assumes "0 \<le> sint n" "sint n < int GDT_COUNT" "length (gdt_entries st) = GDT_COUNT"
  obtains st' where "gdt_set_gate n base limit acc gran st = Inr st'"
    "seg_base (gdt_entries st' ! nat (sint n)) = base"
    "seg_limit20 (gdt_entries st' ! nat (sint n)) = limit AND 0xFFFFF"
    "access (gdt_entries st' ! nat (sint n)) = acc"
    "granularity (gdt_entries st' ! nat (sint n)) AND 0xF0 = gran AND 0xF0"
    "\<And>i. i \<noteq> nat (sint n) \<Longrightarrow> gdt_entries st' ! i = gdt_entries st ! i"
    "length (gdt_entries st') = GDT_COUNT"
    "gdt_ptr st' = gdt_ptr st" "tss_entry st' = tss_entry st" "gdtr st' = gdtr st"
    "task_register st' = task_register st"
proof -
  obtain st' where e: "gdt_set_gate n base limit acc gran st = Inr st'"
    using gdt_set_gate_ok [OF assms(1,2)] by blast
  show thesis
    by (rule that [OF e seg_fields [OF e assms(3)]]) (use e in \<open>auto simp: gdt_set_gate_def split: if_splits\<close>)
qed

lemma granularity_bit7: "granularity e AND 0xF0 = g AND 0xF0 \<Longrightarrow> bit (granularity e) 7 = bit g 7"
proof -
  assume "granularity e AND 0xF0 = g AND 0xF0"
  then have "bit (granularity e AND 0xF0) 7 = bit (g AND 0xF0) 7" by simp
  moreover have "bit (0xF0 :: u8) 7" by simp
  ultimately show ?thesis by (simp add: bit_and_iff)
qed

definition flat_seg :: "gdt_entry_t \<Rightarrow> bool" where
  "flat_seg e = (seg_present e \<and> seg_base e = 0 \<and> seg_limit e = 0xFFFFFFFF)"

definition gdt_good :: "u32 \<Rightarrow> u32 \<Rightarrow> gdt_state \<Rightarrow> bool" where
  "gdt_good gdt_addr tss_addr st =
    (length (gdt_entries st) = GDT_COUNT \<and>
     gdtr st = Some \<lparr> gp_limit = 47, gp_base = gdt_addr \<rparr> \<and>
     \<not> seg_present (gdt_entries st ! 0) \<and>
     (flat_seg (gdt_entries st ! 1) \<and> seg_code (gdt_entries st ! 1) \<and> seg_dpl (gdt_entries st ! 1) = 0) \<and>
     (flat_seg (gdt_entries st ! 2) \<and> seg_data_rw (gdt_entries st ! 2) \<and> seg_dpl (gdt_entries st ! 2) = 0) \<and>
     (flat_seg (gdt_entries st ! 3) \<and> seg_code (gdt_entries st ! 3) \<and> seg_dpl (gdt_entries st ! 3) = 3) \<and>
     (flat_seg (gdt_entries st ! 4) \<and> seg_data_rw (gdt_entries st ! 4) \<and> seg_dpl (gdt_entries st ! 4) = 3) \<and>
     (seg_present (gdt_entries st ! 5) \<and> seg_tss32 (gdt_entries st ! 5) \<and>
      seg_base (gdt_entries st ! 5) = tss_addr \<and> seg_limit (gdt_entries st ! 5) = of_nat sizeof_tss - 1) \<and>
     task_register st = Some 0x28 \<and> ss0 (tss_entry st) = 0x10 \<and>
     unat (iomap_base (tss_entry st)) = sizeof_tss)"

lemma gdt_init_good:
  assumes len: "length (gdt_entries st) = GDT_COUNT"
  shows "\<exists>st'. gdt_init gdt_addr tss_addr st = Inr st' \<and> gdt_good gdt_addr tss_addr st'"
proof -
  note c = GDT_COUNT_def
  let ?s0 = "st\<lparr> gdt_ptr := \<lparr> gp_limit = of_nat (8 * GDT_COUNT) - 1, gp_base = gdt_addr \<rparr> \<rparr>"
  obtain a0 where a0: "gdt_set_gate 0 0 0 0 0 ?s0 = Inr a0" and
    f0: "access (gdt_entries a0 ! 0) = 0" "length (gdt_entries a0) = GDT_COUNT" "gdt_ptr a0 = gdt_ptr ?s0"
    by (rule gdt_step [of 0 ?s0 0 0 0 0]) (use len in \<open>simp_all add: c\<close>)
  obtain a1 where a1: "gdt_set_gate 1 0 0xFFFFFFFF 0x9A 0xCF a0 = Inr a1" and
    f1: "seg_base (gdt_entries a1 ! 1) = 0" "seg_limit20 (gdt_entries a1 ! 1) = 0xFFFFF"
      "access (gdt_entries a1 ! 1) = 0x9A" "granularity (gdt_entries a1 ! 1) AND 0xF0 = 0xC0"
      "\<And>i. i \<noteq> 1 \<Longrightarrow> gdt_entries a1 ! i = gdt_entries a0 ! i"
      "length (gdt_entries a1) = GDT_COUNT" "gdt_ptr a1 = gdt_ptr a0"
    by (rule gdt_step [of 1 a0 0 "0xFFFFFFFF" "0x9A" "0xCF"]) (use f0 in \<open>simp_all add: c\<close>)
  obtain a2 where a2: "gdt_set_gate 2 0 0xFFFFFFFF 0x92 0xCF a1 = Inr a2" and
    f2: "seg_base (gdt_entries a2 ! 2) = 0" "seg_limit20 (gdt_entries a2 ! 2) = 0xFFFFF"
      "access (gdt_entries a2 ! 2) = 0x92" "granularity (gdt_entries a2 ! 2) AND 0xF0 = 0xC0"
      "\<And>i. i \<noteq> 2 \<Longrightarrow> gdt_entries a2 ! i = gdt_entries a1 ! i"
      "length (gdt_entries a2) = GDT_COUNT" "gdt_ptr a2 = gdt_ptr a1"
    by (rule gdt_step [of 2 a1 0 "0xFFFFFFFF" "0x92" "0xCF"]) (use f1 in \<open>simp_all add: c\<close>)
  obtain a3 where a3: "gdt_set_gate 3 0 0xFFFFFFFF 0xFA 0xCF a2 = Inr a3" and
    f3: "seg_base (gdt_entries a3 ! 3) = 0" "seg_limit20 (gdt_entries a3 ! 3) = 0xFFFFF"
      "access (gdt_entries a3 ! 3) = 0xFA" "granularity (gdt_entries a3 ! 3) AND 0xF0 = 0xC0"
      "\<And>i. i \<noteq> 3 \<Longrightarrow> gdt_entries a3 ! i = gdt_entries a2 ! i"
      "length (gdt_entries a3) = GDT_COUNT" "gdt_ptr a3 = gdt_ptr a2"
    by (rule gdt_step [of 3 a2 0 "0xFFFFFFFF" "0xFA" "0xCF"]) (use f2 in \<open>simp_all add: c\<close>)
  obtain a4 where a4: "gdt_set_gate 4 0 0xFFFFFFFF 0xF2 0xCF a3 = Inr a4" and
    f4: "seg_base (gdt_entries a4 ! 4) = 0" "seg_limit20 (gdt_entries a4 ! 4) = 0xFFFFF"
      "access (gdt_entries a4 ! 4) = 0xF2" "granularity (gdt_entries a4 ! 4) AND 0xF0 = 0xC0"
      "\<And>i. i \<noteq> 4 \<Longrightarrow> gdt_entries a4 ! i = gdt_entries a3 ! i"
      "length (gdt_entries a4) = GDT_COUNT" "gdt_ptr a4 = gdt_ptr a3"
    by (rule gdt_step [of 4 a3 0 "0xFFFFFFFF" "0xF2" "0xCF"]) (use f3 in \<open>simp_all add: c\<close>)
  let ?s5 = "(a4\<lparr> gdtr := Some (gdt_ptr a4) \<rparr>)\<lparr> tss_entry := tss_zero\<lparr> ss0 := 0x10, iomap_base := of_nat sizeof_tss, esp0 := 0 \<rparr> \<rparr>"
  obtain a5 where a5: "gdt_set_gate 5 tss_addr 103 0x89 0x40 ?s5 = Inr a5" and
    f5: "seg_base (gdt_entries a5 ! 5) = tss_addr" "seg_limit20 (gdt_entries a5 ! 5) = 103"
      "access (gdt_entries a5 ! 5) = 0x89" "granularity (gdt_entries a5 ! 5) AND 0xF0 = 0x40"
      "\<And>i. i \<noteq> 5 \<Longrightarrow> gdt_entries a5 ! i = gdt_entries a4 ! i"
      "length (gdt_entries a5) = GDT_COUNT" "tss_entry a5 = tss_entry ?s5" "gdtr a5 = gdtr ?s5"
    by (rule gdt_step [of 5 ?s5 tss_addr 103 "0x89" "0x40"]) (use f4 in \<open>simp_all add: c\<close>)
  have run: "gdt_init gdt_addr tss_addr st = Inr (a5\<lparr> task_register := Some 0x28 \<rparr>)"
  proof -
    have e: "(of_nat sizeof_tss - 1 :: u32) = 103" "(ucast (5 :: u32) :: i32) = 5" by (simp_all add: sizeof_tss_def)
    show ?thesis
      unfolding gdt_init_def a0 a1 a2 a3 a4 rbind.simps tss_init_def Let_def e a5 ..
  qed
  have L: "seg_limit e = 0xFFFFFFFF" if "seg_limit20 e = 0xFFFFF" "granularity e AND 0xF0 = 0xC0" for e
    using granularity_bit7 [of e "0xC0"] that by (simp add: seg_limit_def)
  have L5: "seg_limit e = 103" if "seg_limit20 e = 103" "granularity e AND 0xF0 = 0x40" for e
    using granularity_bit7 [of e "0x40"] that by (simp add: seg_limit_def)
  show ?thesis
    unfolding run gdt_good_def
    by (intro exI conjI, rule refl)
      (simp_all add: f0 f1 f2 f3 f4 f5 L L5 flat_seg_def seg_present_def seg_code_def seg_data_rw_def seg_dpl_def
        seg_tss32_def c sizeof_tss_def f1 [unfolded One_nat_def])
qed

section \<open>Interrupt descriptors and the interrupt controllers\<close>

record idt_entry_t =
  ie_base_low :: u16
  ie_selector :: u16
  ie_zero :: u8
  ie_flags :: u8
  ie_base_high :: u16

record idt_state =
  idt_entries :: "idt_entry_t list"
  idt_ptr :: gdt_ptr_t
  idtr :: "gdt_ptr_t option"

definition IDT_COUNT :: nat where "IDT_COUNT = 256"
definition IDT_SEL_KERNEL_CS :: u16 where "IDT_SEL_KERNEL_CS = 0x08"
definition IDT_GATE_KERNEL_INT :: u8 where "IDT_GATE_KERNEL_INT = 0x80 OR 0x00 OR 0x0E"

definition PIC1_CMD :: u16 where "PIC1_CMD = 0x20"
definition PIC1_DATA :: u16 where "PIC1_DATA = PIC1_CMD + 1"
definition PIC2_CMD :: u16 where "PIC2_CMD = 0xA0"
definition PIC2_DATA :: u16 where "PIC2_DATA = PIC2_CMD + 1"
definition PIC_EOI :: u8 where "PIC_EOI = 0x20"
definition PIC_READ_ISR :: u8 where "PIC_READ_ISR = 0x0B"

lemmas pic_defs = PIC1_CMD_def PIC1_DATA_def PIC2_CMD_def PIC2_DATA_def PIC_EOI_def PIC_READ_ISR_def

definition idt_set_gate :: "u8 \<Rightarrow> u32 \<Rightarrow> u16 \<Rightarrow> u8 \<Rightarrow> idt_entry_t list \<Rightarrow> idt_entry_t list" where
  "idt_set_gate number base selector flags es = es[unat number :=
     \<lparr> ie_base_low = ucast (base AND 0xFFFF), ie_selector = selector, ie_zero = 0, ie_flags = flags,
       ie_base_high = ucast (drop_bit 16 base AND 0xFFFF) \<rparr>]"

definition pic_remap :: "io_t \<Rightarrow> io_t" where
  "pic_remap io =
    outb PIC2_DATA 0 (outb PIC1_DATA 0
    (outb PIC2_DATA 1 (outb PIC1_DATA 1
    (outb PIC2_DATA 2 (outb PIC1_DATA 4
    (outb PIC2_DATA 0x28 (outb PIC1_DATA 0x20
    (outb PIC2_CMD 0x11 (outb PIC1_CMD 0x11 io)))))))))"

text \<open>\<open>isr n\<close> is the address of the assembly stub of vector \<open>n\<close>; the stubs of vectors 32 to 47 are
  \<open>irq0\<close> to \<open>irq15\<close>.  The unrolled calls of the code are the two runs of vectors below.\<close>

definition idt_set_gates :: "(nat \<Rightarrow> u32) \<Rightarrow> nat list \<Rightarrow> idt_entry_t list \<Rightarrow> idt_entry_t list" where
  "idt_set_gates isr ns es =
    foldl (\<lambda>es n. idt_set_gate (of_nat n) (isr n) IDT_SEL_KERNEL_CS IDT_GATE_KERNEL_INT es) es ns"

definition idt_init :: "(nat \<Rightarrow> u32) \<Rightarrow> u32 \<Rightarrow> idt_state \<times> io_t \<Rightarrow> idt_state \<times> io_t" where
  "idt_init isr idt_addr = (\<lambda>(st, io).
    let st = st\<lparr> idt_ptr := \<lparr> gp_limit = of_nat (8 * IDT_COUNT) - 1, gp_base = idt_addr \<rparr> \<rparr>;
        es = idt_set_gates isr [0..<32] (idt_entries st);
        io = pic_remap io;
        es = idt_set_gates isr [32..<48] es;
        es = idt_set_gate 48 (isr 48) IDT_SEL_KERNEL_CS IDT_GATE_KERNEL_INT es;
        es = idt_set_gate 128 (isr 128) IDT_SEL_KERNEL_CS 0xEE es
    in (st\<lparr> idt_entries := es, idtr := Some (idt_ptr st) \<rparr>, io))"

text \<open>How the processor reads a gate.\<close>

definition gate_target :: "idt_entry_t \<Rightarrow> u32" where
  "gate_target e = push_bit 16 (ucast (ie_base_high e)) OR ucast (ie_base_low e)"

definition gate_int32 :: "u8 \<Rightarrow> idt_entry_t \<Rightarrow> bool" where
  "gate_int32 dpl e = (bit (ie_flags e) 7 \<and> ie_flags e AND 0x1F = 0x0E \<and>
     drop_bit 5 (ie_flags e) AND 3 = dpl \<and> ie_zero e = 0)"

lemma word32_of_halves:
  "push_bit 16 (ucast (ucast (drop_bit 16 b AND 0xFFFF) :: u16)) OR ucast (ucast (b AND 0xFFFF) :: u16) = (b :: u32)"
  (is "?l = ?r")
  unfolding mask_bits
proof (rule bit_word_eqI)
  fix n
  assume "n < LENGTH(32)"
  then consider "n < 16" | "16 \<le> n" "n < 32" by fastforce
  then show "bit (push_bit 16 (ucast (ucast (drop_bit 16 b AND mask 16) :: u16)) OR
      ucast (ucast (b AND mask 16) :: u16) :: u32) n = bit b n"
    by cases (simp_all add: bit_simps less_diff_conv2)
qed

definition gate_for :: "(nat \<Rightarrow> u32) \<Rightarrow> u8 \<Rightarrow> nat \<Rightarrow> idt_entry_t \<Rightarrow> bool" where
  "gate_for isr dpl n e = (gate_target e = isr n \<and> ie_selector e = 8 \<and> gate_int32 dpl e)"

lemma idt_set_gate_nth:
  assumes "length es = 256" "n < 256" "i < 256"
  shows "gate_target (idt_set_gate (of_nat n) base sel fl es ! n) = base"
    and "ie_selector (idt_set_gate (of_nat n) base sel fl es ! n) = sel"
    and "ie_flags (idt_set_gate (of_nat n) base sel fl es ! n) = fl"
    and "ie_zero (idt_set_gate (of_nat n) base sel fl es ! n) = 0"
    and "i \<noteq> n \<Longrightarrow> idt_set_gate (of_nat n) base sel fl es ! i = es ! i"
    and "length (idt_set_gate (of_nat n) base sel fl es) = 256"
proof -
  have u: "unat (of_nat n :: u8) = n" using assms(2) by (simp add: unat_of_nat)
  show "gate_target (idt_set_gate (of_nat n) base sel fl es ! n) = base"
    using assms word32_of_halves [of base] by (simp add: idt_set_gate_def u gate_target_def)
  show "ie_selector (idt_set_gate (of_nat n) base sel fl es ! n) = sel"
    "ie_flags (idt_set_gate (of_nat n) base sel fl es ! n) = fl"
    "ie_zero (idt_set_gate (of_nat n) base sel fl es ! n) = 0"
    "i \<noteq> n \<Longrightarrow> idt_set_gate (of_nat n) base sel fl es ! i = es ! i"
    "length (idt_set_gate (of_nat n) base sel fl es) = 256"
    using assms by (simp_all add: idt_set_gate_def u)
qed

lemma kernel_gate: "gate_for isr 0 n (idt_set_gate (of_nat n) (isr n) IDT_SEL_KERNEL_CS IDT_GATE_KERNEL_INT es ! n)"
  if "length es = 256" "n < 256"
  using idt_set_gate_nth [OF that that(2)]
  by (simp add: gate_for_def gate_int32_def IDT_SEL_KERNEL_CS_def IDT_GATE_KERNEL_INT_def)

lemma idt_set_gates_nth:
  assumes "length es = 256" "\<forall>n \<in> set ns. n < 256" "distinct ns" "i < 256"
  shows "length (idt_set_gates isr ns es) = 256 \<and>
    (if i \<in> set ns then gate_for isr 0 i (idt_set_gates isr ns es ! i) else idt_set_gates isr ns es ! i = es ! i)"
  using assms(2,3)
proof (induction ns rule: rev_induct)
  case Nil
  then show ?case by (simp add: idt_set_gates_def assms(1))
next
  case (snoc n ns)
  let ?g = "idt_set_gates isr ns es"
  have ih: "length ?g = 256" "if i \<in> set ns then gate_for isr 0 i (?g ! i) else ?g ! i = es ! i"
    using snoc by auto
  have n: "n < 256" "n \<notin> set ns" using snoc.prems by auto
  have e: "idt_set_gates isr (ns @ [n]) es =
      idt_set_gate (of_nat n) (isr n) IDT_SEL_KERNEL_CS IDT_GATE_KERNEL_INT ?g"
    by (simp add: idt_set_gates_def)
  show ?case unfolding e
    using ih kernel_gate [OF ih(1) n(1), of isr] idt_set_gate_nth(5,6) [OF ih(1) n(1) assms(4)] n(2)
    by (cases "i = n") auto
qed

lemma idt_set_gates_range:
  assumes "length es = 256" "b \<le> 256" "i < 256"
  shows "length (idt_set_gates isr [a..<b] es) = 256"
    "if a \<le> i \<and> i < b then gate_for isr 0 i (idt_set_gates isr [a..<b] es ! i)
     else idt_set_gates isr [a..<b] es ! i = es ! i"
  using idt_set_gates_nth [OF assms(1) _ _ assms(3), of "[a..<b]" isr] assms(2) by auto

lemma idt_init_vectors:
  assumes "length (idt_entries st) = 256" "n < 256"
  shows "let e = idt_entries (fst (idt_init isr idt_addr (st, io))) ! n
    in if n \<le> 48 then gate_for isr 0 n e
       else if n = 128 then gate_for isr 3 n e
       else e = idt_entries st ! n"
proof -
  let ?e1 = "idt_set_gates isr [0..<32] (idt_entries st)"
  let ?e2 = "idt_set_gates isr [32..<48] ?e1"
  let ?e3 = "idt_set_gate (of_nat 48) (isr 48) IDT_SEL_KERNEL_CS IDT_GATE_KERNEL_INT ?e2"
  let ?e4 = "idt_set_gate (of_nat 128) (isr 128) IDT_SEL_KERNEL_CS 0xEE ?e3"
  have r: "idt_entries (fst (idt_init isr idt_addr (st, io))) = ?e4"
    by (simp add: idt_init_def Let_def)
  have 1: "length ?e1 = 256" "if n < 32 then gate_for isr 0 n (?e1 ! n) else ?e1 ! n = idt_entries st ! n"
    using idt_set_gates_range [OF assms(1) _ assms(2), where a = 0 and b = 32 and isr = isr] by auto
  have 2: "length ?e2 = 256" "if 32 \<le> n \<and> n < 48 then gate_for isr 0 n (?e2 ! n) else ?e2 ! n = ?e1 ! n"
    by (rule idt_set_gates_range [OF 1(1) _ assms(2)], simp)+
  have 3: "length ?e3 = 256" "if n = 48 then gate_for isr 0 n (?e3 ! n) else ?e3 ! n = ?e2 ! n"
    using idt_set_gate_nth(5,6) [OF 2(1) _ assms(2), of 48] kernel_gate [OF 2(1), of 48 isr] by auto
  have u: "gate_for isr 3 128 (?e4 ! 128)"
    using idt_set_gate_nth [OF 3(1) _ assms(2), of 128 "isr 128" IDT_SEL_KERNEL_CS "0xEE"]
    by (simp add: gate_for_def gate_int32_def IDT_SEL_KERNEL_CS_def del: of_nat_numeral)
  have 4: "n \<noteq> 128 \<Longrightarrow> ?e4 ! n = ?e3 ! n"
    using idt_set_gate_nth(5) [OF 3(1) _ assms(2), of 128] by auto
  consider "n < 32" | "32 \<le> n" "n < 48" | "n = 48" | "n = 128" | "48 < n" "n \<noteq> 128" by linarith
  then show ?thesis unfolding r Let_def by cases (use 1 2 3 4 u in auto)
qed

text \<open>The controller as documented for the 8259: an initialisation command word (bit 4 set on the command
  port) announces three words on the data port -- vector offset, cascade wiring, mode --, after which a
  word on the data port is the interrupt mask.\<close>

record pic_t =
  pic_icw :: nat
  pic_offset :: u8
  pic_cascade :: u8
  pic_mode :: u8
  pic_imr :: u8

definition pic_out :: "u16 \<Rightarrow> u16 \<Rightarrow> io_ev \<Rightarrow> pic_t \<Rightarrow> pic_t" where
  "pic_out cmd data ev p = (case ev of
      Out8 port v \<Rightarrow>
        if port = cmd then (if bit v 4 then p\<lparr> pic_icw := 1, pic_imr := 0 \<rparr> else p)
        else if port = data then
          (if pic_icw p = 1 then p\<lparr> pic_icw := 2, pic_offset := v AND 0xF8 \<rparr>
           else if pic_icw p = 2 then p\<lparr> pic_icw := 3, pic_cascade := v \<rparr>
           else if pic_icw p = 3 then p\<lparr> pic_icw := 0, pic_mode := v \<rparr>
           else p\<lparr> pic_imr := v \<rparr>)
        else p
    | _ \<Rightarrow> p)"

definition pic_run :: "u16 \<Rightarrow> u16 \<Rightarrow> io_ev list \<Rightarrow> pic_t \<Rightarrow> pic_t" where
  "pic_run cmd data evs p = fold (pic_out cmd data) evs p"

lemma pic_remap_log:
  "io_log (pic_remap io) = io_log io @
    [Out8 0x20 0x11, Out8 0xA0 0x11, Out8 0x21 0x20, Out8 0xA1 0x28, Out8 0x21 4, Out8 0xA1 2,
     Out8 0x21 1, Out8 0xA1 1, Out8 0x21 0, Out8 0xA1 0]"
  by (simp add: pic_remap_def pic_defs)

lemma pic_remap_programs:
  "io_log io = [] \<Longrightarrow> pic_run PIC1_CMD PIC1_DATA (io_log (pic_remap io)) p =
     \<lparr> pic_icw = 0, pic_offset = 32, pic_cascade = 4, pic_mode = 1, pic_imr = 0 \<rparr>"
  "io_log io = [] \<Longrightarrow> pic_run PIC2_CMD PIC2_DATA (io_log (pic_remap io)) p =
     \<lparr> pic_icw = 0, pic_offset = 40, pic_cascade = 2, pic_mode = 1, pic_imr = 0 \<rparr>"
  by (simp_all add: pic_remap_log pic_run_def pic_out_def pic_defs)

section \<open>Dispatch\<close>

record isr_data_t =
  i_ds :: u32
  i_edi :: u32
  i_esi :: u32
  i_ebp :: u32
  i_esp :: u32
  i_ebx :: u32
  i_edx :: u32
  i_ecx :: u32
  i_eax :: u32
  int_no :: u32
  err_code :: u32
  i_eip :: u32
  i_cs :: u32
  i_eflags :: u32
  i_useresp :: u32
  i_ss :: u32

text \<open>Handlers are named by an arbitrary type; \<open>top_calls\<close> records the calls made.\<close>

record 'h isr_state =
  interruption_top_handlers :: "'h option list"
  interruption_bottom_handlers :: "'h option list"
  spurious_interrupts :: u64
  top_calls :: "('h \<times> isr_data_t) list"

definition interrupt_register :: "u8 \<Rightarrow> 'h option \<Rightarrow> 'h option \<Rightarrow> 'h isr_state \<Rightarrow> 'h isr_state" where
  "interrupt_register n top_handler bottom_handler st =
    st\<lparr> interruption_top_handlers := (interruption_top_handlers st)[unat n := top_handler],
        interruption_bottom_handlers := (interruption_bottom_handlers st)[unat n := bottom_handler] \<rparr>"

definition get_pic_isr :: "io_t \<Rightarrow> (u16 \<times> io_t) res" where
  "get_pic_isr io =
    (let io = outb PIC2_CMD PIC_READ_ISR (outb PIC1_CMD PIC_READ_ISR io)
     in rbind (inb PIC2_CMD io) (\<lambda>(hi, io).
        rbind (inb PIC1_CMD io) (\<lambda>(lo, io). Inr (push_bit 8 (ucast hi) OR ucast lo, io))))"

definition is_spurious :: "isr_data_t \<Rightarrow> io_t \<Rightarrow> (bool \<times> io_t) res" where
  "is_spurious regs io = rbind (get_pic_isr io) (\<lambda>(isr, io).
     if int_no regs = 39 then Inr (0x00FF AND isr = 0, io)
     else if int_no regs = 47 then Inr (0xFF00 AND isr = 0, io)
     else Inr (False, io))"

definition invoke_top_handler :: "isr_data_t \<Rightarrow> 'h isr_state \<Rightarrow> 'h isr_state res" where
  "invoke_top_handler regs st =
    (if length (interruption_top_handlers st) \<le> unat (int_no regs) then Inl Out_Of_Bounds
     else case interruption_top_handlers st ! unat (int_no regs) of
       Some h \<Rightarrow> Inr (st\<lparr> top_calls := top_calls st @ [(h, regs)] \<rparr>)
     | None \<Rightarrow> Inl (Panic ''UNHANDLED INTERRUPT''))"

definition isr_handler :: "isr_data_t \<Rightarrow> 'h isr_state \<Rightarrow> 'h isr_state res" where
  "isr_handler regs st = invoke_top_handler regs st"

definition irq_handler :: "isr_data_t \<Rightarrow> 'h isr_state \<times> io_t \<Rightarrow> ('h isr_state \<times> io_t) res" where
  "irq_handler regs = (\<lambda>(st, io).
    rbind (is_spurious regs io) (\<lambda>(sp, io).
      if sp then Inr (st\<lparr> spurious_interrupts := spurious_interrupts st + 1 \<rparr>, io)
      else
        let io = (if 40 \<le> int_no regs then outb PIC2_CMD PIC_EOI io else io);
            io = outb PIC1_CMD PIC_EOI io
        in rbind (invoke_top_handler regs st) (\<lambda>st. Inr (st, io))))"

text \<open>The value of the page-attribute register and the control registers of the FPU set-up.\<close>

definition pat_init :: "u32 \<Rightarrow> (u32 \<times> u32 \<times> u32) res" where
  "pat_init edx =
    (if edx AND push_bit 16 1 = 0 then Inl Waiting
     else
       let v = (0 :: u64) OR push_bit 0 0x06;
           v = v OR push_bit 8 0x04;
           v = v OR push_bit 16 0x00;
           v = v OR push_bit 24 0x00;
           v = v OR push_bit 32 0x01;
           v = v OR push_bit 40 0x04;
           v = v OR push_bit 48 0x00;
           v = v OR push_bit 56 0x00
       in Inr (0x277, ucast v, ucast (drop_bit 32 v)))"

definition check_for_sse :: "u32 \<Rightarrow> bool" where
  "check_for_sse edx = (let m = push_bit 24 1 OR push_bit 25 1 in edx AND m = m)"

definition enable_sse :: "u32 \<times> u32 \<Rightarrow> u32 \<times> u32" where
  "enable_sse = (\<lambda>(cr0, cr4).
    ((cr0 AND (0xFFFF0000 OR 0xFFFB)) OR 0x2, cr4 OR push_bit 9 3))"

definition sse_init :: "u32 \<Rightarrow> u32 \<times> u32 \<Rightarrow> bool \<times> (u32 \<times> u32)" where
  "sse_init edx cr = (if check_for_sse edx then (True, enable_sse cr) else (False, cr))"

text \<open>The entry a page-table entry selects by its attribute bit; it must stay write-combining.\<close>

definition pat_entry :: "u32 \<times> u32 \<Rightarrow> nat \<Rightarrow> u8" where
  "pat_entry = (\<lambda>(lo, hi) i. ucast (drop_bit (8 * (i mod 4)) (if i < 4 then lo else hi)) AND 7)"

lemma pat_init_entries:
  assumes "pat_init edx = Inr (msr, v)"
  shows "msr = 0x277" "map (pat_entry v) [0..<8] = [6, 4, 0, 0, 1, 4, 0, 0]"
  using assms by (auto simp: pat_init_def pat_entry_def Let_def upt_rec split: if_splits)

lemma sse_init_bits:
  assumes "sse_init edx (cr0, cr4) = (True, (cr0', cr4'))"
  shows "bit cr0' 1" "\<not> bit cr0' 2" "bit cr4' 9" "bit cr4' 10"
    "n \<noteq> 1 \<Longrightarrow> n \<noteq> 2 \<Longrightarrow> bit cr0' n = bit cr0 n"
proof -
  have m: "(0xFFFF0000 OR 0xFFFB :: u32) = NOT 4" by simp
  have e: "cr0' = (cr0 AND NOT 4) OR 2" "cr4' = cr4 OR 0x600"
    using assms unfolding sse_init_def enable_sse_def m by (auto split: if_splits)
  have p: "bit (2 :: u32) n \<longleftrightarrow> n = 1" "bit (4 :: u32) n \<longleftrightarrow> n = 2" for n
    using bit_exp_iff [of 1 n, where 'a = u32] bit_exp_iff [of 2 n, where 'a = u32] by (auto simp: bit_simps)
  show "bit cr0' 1" "\<not> bit cr0' 2" "bit cr4' 9" "bit cr4' 10" unfolding e by (simp_all add: bit_simps)
  show "n \<noteq> 1 \<Longrightarrow> n \<noteq> 2 \<Longrightarrow> bit cr0' n = bit cr0 n" unfolding e(1)
    by (cases "n < 32") (auto simp only: bit_or_iff bit_and_iff bit_not_iff p dest: bit_imp_possible_bit)
qed

section \<open>The protocol of an interrupt\<close>

definition real_irq :: "isr_data_t \<Rightarrow> u8 \<Rightarrow> u8 \<Rightarrow> bool" where
  "real_irq regs hi lo = (if int_no regs = 39 then lo \<noteq> 0 else if int_no regs = 47 then hi \<noteq> 0 else True)"

definition isr_reads :: "u8 \<Rightarrow> u8 \<Rightarrow> io_ev list" where
  "isr_reads hi lo = [Out8 PIC1_CMD PIC_READ_ISR, Out8 PIC2_CMD PIC_READ_ISR, In8 PIC2_CMD hi, In8 PIC1_CMD lo]"

lemma isr_word: "(0x00FF AND (push_bit 8 (ucast hi) OR ucast lo) = (0 :: u16)) = (lo = (0 :: u8))"
  "(0xFF00 AND (push_bit 8 (ucast hi) OR ucast lo) = (0 :: u16)) = (hi = (0 :: u8))"
proof -
  have "0x00FF AND (push_bit 8 (ucast hi) OR ucast lo) = (ucast lo :: u16)"
    unfolding mask_bits by (rule bit_word_eqI) (auto simp: bit_simps dest: bit_imp_le_length)
  moreover have "(ucast lo = (0 :: u16)) = (lo = 0)"
    using unat_less_exp [of lo] by (simp add: word_unat_eq_iff unat_ucast)
  ultimately show "(0x00FF AND (push_bit 8 (ucast hi) OR ucast lo) = (0 :: u16)) = (lo = 0)" by simp
  have m: "(0xFF00 :: u16) = push_bit 8 (mask 8)" by (simp add: mask_eq_decr_exp)
  have e: "0xFF00 AND (push_bit 8 (ucast hi) OR ucast lo) = (push_bit 8 (ucast hi) :: u16)"
    unfolding m by (rule bit_word_eqI) (auto simp: bit_simps dest: bit_imp_le_length)
  have "(push_bit 8 (ucast hi) = (0 :: u16)) = (hi = 0)"
    using unat_less_exp [of hi] by (simp add: word_unat_eq_iff unat_push unat_ucast)
  then show "(0xFF00 AND (push_bit 8 (ucast hi) OR ucast lo) = (0 :: u16)) = (hi = 0)"
    unfolding e .
qed

lemma ucast_ucast_8: "ucast (ucast (b :: u8) :: u32) = b"
  using unat_less_exp [of b] by (simp add: word_unat_eq_iff unat_ucast)

lemma is_spurious_run:
  assumes "io_in io = ucast (hi :: u8) # ucast (lo :: u8) # rest"
  shows "\<exists>io'. is_spurious regs io = Inr (\<not> real_irq regs hi lo, io') \<and>
    io_in io' = rest \<and> io_log io' = io_log io @ isr_reads hi lo"
  using assms isr_word [of hi lo]
  by (simp add: is_spurious_def get_pic_isr_def io_in_cons real_irq_def isr_reads_def ucast_ucast_8)

lemma irq_handler_run:
  fixes st :: "'h isr_state"
  assumes "io_in io = ucast (hi :: u8) # ucast (lo :: u8) # rest"
    and "length (interruption_top_handlers st) = 256" "int_no regs < 256"
    and "interruption_top_handlers st ! unat (int_no regs) = Some h"
  shows "\<exists>st' io'. irq_handler regs (st, io) = Inr (st', io') \<and> io_in io' = rest \<and>
    (if real_irq regs hi lo
     then st' = st\<lparr> top_calls := top_calls st @ [(h, regs)] \<rparr> \<and>
       io_log io' = io_log io @ isr_reads hi lo @
         (if 40 \<le> int_no regs then [Out8 PIC2_CMD PIC_EOI] else []) @ [Out8 PIC1_CMD PIC_EOI]
     else st' = st\<lparr> spurious_interrupts := spurious_interrupts st + 1 \<rparr> \<and>
       io_log io' = io_log io @ isr_reads hi lo)"
proof -
  obtain io1 where io1: "is_spurious regs io = Inr (\<not> real_irq regs hi lo, io1)"
    "io_in io1 = rest" "io_log io1 = io_log io @ isr_reads hi lo"
    using is_spurious_run [OF assms(1)] by blast
  have n: "unat (int_no regs) < 256" using assms(3) by (simp add: word_less_nat_alt)
  show ?thesis
    by (cases "real_irq regs hi lo")
      (use n in \<open>simp_all add: irq_handler_def io1 invoke_top_handler_def assms(2,4) Let_def\<close>)
qed

section \<open>Properties\<close>

text \<open>After \<open>gdt_init\<close> the processor's tables are sound for any link addresses: the null descriptor
  is not present, descriptors 1 to 4 are flat 4 GB segments -- code and writable data for the kernel
  (privilege 0) and for user code (privilege 3) --, descriptor 5 is the 32-bit task state segment at its
  address with its exact limit, the table register covers exactly the six descriptors, and the task
  state segment has the kernel's stack segment and no I/O permission map.\<close>

lemma gdt_init_tables:
  assumes "length (gdt_entries st) = GDT_COUNT"
  shows "\<exists>st'. gdt_init gdt_addr tss_addr st = Inr st' \<and> gdt_good gdt_addr tss_addr st'"
  by (rule gdt_init_good [OF assms])

definition gdt_ex :: gdt_state where
  "gdt_ex = \<lparr> gdt_entries = replicate 6 \<lparr> limit_low = 0, base_low = 0, base_middle = 0, access = 0,
      granularity = 0, base_high = 0 \<rparr>, gdt_ptr = \<lparr> gp_limit = 0, gp_base = 0 \<rparr>, tss_entry = tss_zero,
      gdtr = None, task_register = None \<rparr>"

lemma gdt_init_tables_witness:
  "\<exists>st'. gdt_init 0xC0105000 0xC0106040 gdt_ex = Inr st' \<and> gdt_good 0xC0105000 0xC0106040 st'"
  by (rule gdt_init_tables) (simp add: gdt_ex_def GDT_COUNT_def)

text \<open>After \<open>idt_init\<close> every vector from 0 to 48 enters its own stub through a present 32-bit
  interrupt gate for the kernel code segment, the system call vector 128 is the only one user code may
  call, every other vector is as it was, and the two interrupt controllers, run through their
  initialisation protocol, deliver their lines at vectors 32 and 40 with the slave cascaded on line 2
  and all lines unmasked.\<close>

lemma idt_init_gates:
  assumes "length (idt_entries st) = 256" "io_log io = []" "n < 256"
  shows "(let (st', io') = idt_init isr idt_addr (st, io); e = idt_entries st' ! n
    in (if n \<le> 48 then gate_for isr 0 n e else if n = 128 then gate_for isr 3 n e else e = idt_entries st ! n) \<and>
       idtr st' = Some \<lparr> gp_limit = 2047, gp_base = idt_addr \<rparr> \<and>
       pic_run PIC1_CMD PIC1_DATA (io_log io') p1 =
         \<lparr> pic_icw = 0, pic_offset = 32, pic_cascade = 4, pic_mode = 1, pic_imr = 0 \<rparr> \<and>
       pic_run PIC2_CMD PIC2_DATA (io_log io') p2 =
         \<lparr> pic_icw = 0, pic_offset = 40, pic_cascade = 2, pic_mode = 1, pic_imr = 0 \<rparr>)"
proof -
  have "snd (idt_init isr idt_addr (st, io)) = pic_remap io"
    "idtr (fst (idt_init isr idt_addr (st, io))) = Some \<lparr> gp_limit = 2047, gp_base = idt_addr \<rparr>"
    by (simp_all add: idt_init_def Let_def IDT_COUNT_def)
  then show ?thesis
    using idt_init_vectors [OF assms(1,3), of isr idt_addr io] pic_remap_programs [OF assms(2)]
    unfolding Let_def case_prod_beta by simp
qed

definition idt_ex :: idt_state where
  "idt_ex = \<lparr> idt_entries = replicate 256 \<lparr> ie_base_low = 0, ie_selector = 0, ie_zero = 0, ie_flags = 0,
      ie_base_high = 0 \<rparr>, idt_ptr = \<lparr> gp_limit = 0, gp_base = 0 \<rparr>, idtr = None \<rparr>"

lemma idt_init_gates_witness:
  "\<exists>e. gate_for (\<lambda>n. 0xC0100000 + 16 * of_nat n) 3 128 e \<and>
     e = idt_entries (fst (idt_init (\<lambda>n. 0xC0100000 + 16 * of_nat n) 0xC0108000
       (idt_ex, \<lparr> io_in = [], io_log = [] \<rparr>))) ! 128"
  using idt_init_gates [of idt_ex "\<lparr> io_in = [], io_log = [] \<rparr>" 128 "\<lambda>n. 0xC0100000 + 16 * of_nat n" "0xC0108000"]
  by (simp add: idt_ex_def Let_def case_prod_beta del: of_nat_numeral)


definition isr_ex :: "nat isr_state" where
  "isr_ex = interrupt_register 44 (Some 7) None
     \<lparr> interruption_top_handlers = replicate 256 None, interruption_bottom_handlers = replicate 256 None,
       spurious_interrupts = 0, top_calls = [] \<rparr>"

definition regs_ex :: "u32 \<Rightarrow> isr_data_t" where
  "regs_ex n = \<lparr> i_ds = 0x10, i_edi = 0, i_esi = 0, i_ebp = 0, i_esp = 0, i_ebx = 0, i_edx = 0, i_ecx = 0, i_eax = 0,
     int_no = n, err_code = 0, i_eip = 0, i_cs = 8, i_eflags = 0, i_useresp = 0, i_ss = 0 \<rparr>"


end
