(* ===== verification/Kernel_Mem.thy ===== *)
theory Kernel_Mem
  imports Kernel_Prelude
begin

text \<open>
  The kernel's address space as bytes, for code that works on raw addresses: 32-bit loads and stores
  at any alignment, and the frame relation \<open>chg\<close> saying where two memories may differ.  Addresses in
  statements are natural numbers below \<open>2 ^ 32\<close>; the code's pointers are their words.  Page faults are
  not modelled: every address can be read.
\<close>

unbundle bit_operations_syntax

type_synonym mem = "u32 \<Rightarrow> u8"

definition ld32 :: "mem \<Rightarrow> u32 \<Rightarrow> u32" where
  "ld32 m p = ucast (m p) OR push_bit 8 (ucast (m (p + 1))) OR push_bit 16 (ucast (m (p + 2)))
     OR push_bit 24 (ucast (m (p + 3)))"

definition st32 :: "mem \<Rightarrow> u32 \<Rightarrow> u32 \<Rightarrow> mem" where
  "st32 m p v = m(p := ucast v, p + 1 := ucast (drop_bit 8 v), p + 2 := ucast (drop_bit 16 v),
     p + 3 := ucast (drop_bit 24 v))"

lemma ld32_st32 [simp]: "ld32 (st32 m p v) p = v"
proof -
  have "st32 m p v p = ucast v" "st32 m p v (p + 1) = ucast (drop_bit 8 v)"
    "st32 m p v (p + 2) = ucast (drop_bit 16 v)" "st32 m p v (p + 3) = ucast (drop_bit 24 v)"
    by (simp_all add: st32_def)
  then show ?thesis unfolding ld32_def by (simp only:) (rule bytes_of_32)
qed

definition chg :: "nat set \<Rightarrow> mem \<Rightarrow> mem \<Rightarrow> bool" where
  "chg S m m' = (\<forall>a < 2 ^ 32. a \<notin> S \<longrightarrow> m' (of_nat a) = m (of_nat a))"

lemma chg_refl [simp]: "chg S m m"
  by (simp add: chg_def)

lemma chg_trans: "chg S m m1 \<Longrightarrow> chg T m1 m2 \<Longrightarrow> chg (S \<union> T) m m2"
  by (simp add: chg_def)

lemma chg_mono: "chg S m m' \<Longrightarrow> S \<subseteq> T \<Longrightarrow> chg T m m'"
  by (auto simp: chg_def)

lemma of_nat_u32_inj: "a < 2 ^ 32 \<Longrightarrow> b < 2 ^ 32 \<Longrightarrow> (of_nat a :: u32) = of_nat b \<longleftrightarrow> a = b"
  by (simp add: word_unat_eq_iff unat_of_nat)

lemma chg_st32:
  assumes "a + 4 \<le> 2 ^ 32" "p = of_nat a"
  shows "chg {a..<a + 4} m (st32 m p v)"
proof -
  have "of_nat b \<noteq> p \<and> of_nat b \<noteq> p + 1 \<and> of_nat b \<noteq> p + 2 \<and> of_nat b \<noteq> p + 3"
    if "b < 2 ^ 32" "b \<notin> {a..<a + 4}" for b
  proof -
    have q: "(of_nat a + 1 :: u32) = of_nat (a + 1)" "(of_nat a + 2 :: u32) = of_nat (a + 2)"
      "(of_nat a + 3 :: u32) = of_nat (a + 3)"
      by simp_all
    have "of_nat b \<noteq> (of_nat c :: u32)" if "c \<in> {a..<a + 4}" for c
      by (subst of_nat_u32_inj) (use that \<open>b < 2 ^ 32\<close> \<open>b \<notin> _\<close> assms(1) in auto)
    note ne = this
    have "a \<in> {a..<a + 4}" "a + 1 \<in> {a..<a + 4}" "a + 2 \<in> {a..<a + 4}" "a + 3 \<in> {a..<a + 4}" by simp_all
    then show ?thesis unfolding assms(2) q by (intro conjI ne)
  qed
  then show ?thesis by (simp add: chg_def st32_def)
qed

lemma ld32_chg:
  assumes "chg S m m'" "a + 4 \<le> 2 ^ 32" "p = of_nat a" "{a..<a + 4} \<inter> S = {}"
  shows "ld32 m' p = ld32 m p"
proof -
  have q: "(of_nat a + 1 :: u32) = of_nat (a + 1)" "(of_nat a + 2 :: u32) = of_nat (a + 2)"
      "(of_nat a + 3 :: u32) = of_nat (a + 3)"
      by simp_all
  have "m' (of_nat b) = m (of_nat b)" if "b \<in> {a..<a + 4}" for b
  proof -
    have "b < 2 ^ 32" using assms(2) that by simp
    moreover have "b \<notin> S" using assms(4) that by blast
    ultimately show ?thesis using assms(1) by (simp add: chg_def)
  qed
  note eq = this
  have "a \<in> {a..<a + 4}" "a + 1 \<in> {a..<a + 4}" "a + 2 \<in> {a..<a + 4}" "a + 3 \<in> {a..<a + 4}" by simp_all
  then have "m' p = m p" "m' (p + 1) = m (p + 1)" "m' (p + 2) = m (p + 2)" "m' (p + 3) = m (p + 3)"
    unfolding assms(3) q by (auto intro: eq simp del: of_nat_add of_nat_Suc)
  then show ?thesis by (simp add: ld32_def)
qed

lemma ld32_same: "chg S m m' \<Longrightarrow> a + 4 \<le> 2 ^ 32 \<Longrightarrow> (\<And>x. x \<in> S \<Longrightarrow> x < a \<or> a + 4 \<le> x) \<Longrightarrow>
  ld32 m' (of_nat a) = ld32 m (of_nat a)"
  by (rule ld32_chg [OF _ _ refl]) fastforce+

lemma ld32_st32_other:
  "a + 4 \<le> b \<or> b + 4 \<le> a \<Longrightarrow> a + 4 \<le> 2 ^ 32 \<Longrightarrow> b + 4 \<le> 2 ^ 32 \<Longrightarrow> p = of_nat a \<Longrightarrow> q = of_nat b \<Longrightarrow>
   ld32 (st32 m p v) q = ld32 m q"
  by (rule ld32_chg [OF chg_st32]) auto

text \<open>The bytes of an object.\<close>

definition mem_bytes :: "mem \<Rightarrow> nat \<Rightarrow> nat \<Rightarrow> bytes" where
  "mem_bytes m a n = map (\<lambda>i. m (of_nat (a + i))) [0..<n]"

lemma length_mem_bytes [simp]: "length (mem_bytes m a n) = n"
  by (simp add: mem_bytes_def)

lemma mem_bytes_chg:
  "chg S m m' \<Longrightarrow> a + n \<le> 2 ^ 32 \<Longrightarrow> {a..<a + n} \<inter> S = {} \<Longrightarrow> mem_bytes m' a n = mem_bytes m a n"
proof -
  assume a: "chg S m m'" "a + n \<le> 2 ^ 32" "{a..<a + n} \<inter> S = {}"
  have "m' (of_nat (a + i)) = m (of_nat (a + i))" if "i < n" for i
  proof -
    have "a + i \<in> {a..<a + n}" using that by simp
    then have "a + i \<notin> S" using a(3) by blast
    then show ?thesis using a(1,2) that by (simp add: chg_def del: of_nat_add)
  qed
  then show ?thesis by (simp add: mem_bytes_def del: of_nat_add)
qed

text \<open>\<open>memcpy\<close> between objects that do not overlap, as one step.\<close>

definition mem_copy :: "mem \<Rightarrow> u32 \<Rightarrow> u32 \<Rightarrow> u32 \<Rightarrow> mem" where
  "mem_copy m dst src n = (\<lambda>a. if a - dst < n then m (src + (a - dst)) else m a)"

lemma mem_copy_chg:
  assumes "d + unat n \<le> 2 ^ 32"
  shows "chg {d..<d + unat n} m (mem_copy m (of_nat d) src n)"
proof -
  have "\<not> (of_nat a - of_nat d :: u32) < n" if "n \<noteq> 0" "a < 2 ^ 32" "a \<notin> {d..<d + unat n}" for a
  proof (cases "d \<le> a")
    case True
    with that have "unat (of_nat a - of_nat d :: u32) = a - d"
      by (simp flip: of_nat_diff add: unat_of_nat)
    with that True show ?thesis by (auto simp: word_less_nat_alt)
  next
    case False
    have "0 < unat n" using that(1) by (simp add: unat_gt_0)
    then have d: "d < 2 ^ 32" using assms by linarith
    have "unat (of_nat a - of_nat d :: u32) = (a + (2 ^ 32 - d)) mod 2 ^ 32"
      using that(2) d by (simp add: unat_diff_wrap unat_of_nat)
    then have "unat (of_nat a - of_nat d :: u32) = a + (2 ^ 32 - d)" using False d by simp
    with that assms False show ?thesis by (simp add: word_less_nat_alt)
  qed
  then show ?thesis by (cases "n = 0") (simp_all add: chg_def mem_copy_def)
qed

lemma mem_copy_bytes:
  assumes "d + unat n \<le> 2 ^ 32" "s + unat n \<le> 2 ^ 32"
  shows "mem_bytes (mem_copy m (of_nat d) (of_nat s) n) d (unat n) = mem_bytes m s (unat n)"
proof -
  have "(of_nat i :: u32) < n" if "i < unat n" for i
    using that unat_less_2p32 [of n] by (simp add: word_less_nat_alt unat_of_nat)
  then show ?thesis by (simp add: mem_bytes_def mem_copy_def)
qed

end
