(* ===== verification/Heap.thy ===== *)
theory Heap
  imports Kernel_Mem Pmm
begin

text \<open>
  \<^verbatim>\<open>src/src/kernel/heap.c\<close>: the kernel's allocator, a segregated-list heap on raw memory.  The state
  is the memory with the 30 bucket roots; blocks are headers and footers in that memory, free blocks
  are linked through their headers.  The abstraction is the list of blocks that tile the heap and one
  list of free blocks per bucket.  The task lock of every entry point makes each call atomic and is
  not part of the state.
\<close>

unbundle bit_operations_syntax

section \<open>Operations\<close>

definition HEAP_DATA_BLOCK_MAGIC :: u32 where "HEAP_DATA_BLOCK_MAGIC = 0x600DB10C"
definition HEAP_VOID_BLOCK_MAGIC :: u32 where "HEAP_VOID_BLOCK_MAGIC = 0xDEFEC8ED"
definition HEAP_VOID_BUCKET_COUNT :: nat where "HEAP_VOID_BUCKET_COUNT = 30"
definition LEFT_EDGE_SIZE :: u32 where "LEFT_EDGE_SIZE = 16"
definition RIGHT_EDGE_SIZE :: u32 where "RIGHT_EDGE_SIZE = 8"
definition SERVICE_FIELDS_SIZE :: u32 where "SERVICE_FIELDS_SIZE = LEFT_EDGE_SIZE + RIGHT_EDGE_SIZE"

record heap_t =
  hmem :: mem
  heap_void_bucket_root :: "u32 list"

text \<open>Fields of the packed block structures at their offsets.\<close>

definition hd_signature :: "mem \<Rightarrow> u32 \<Rightarrow> u32" where "hd_signature m p = ld32 m p"
definition hd_size :: "mem \<Rightarrow> u32 \<Rightarrow> u32" where "hd_size m p = ld32 m (p + 4)"
definition hd_left :: "mem \<Rightarrow> u32 \<Rightarrow> u32" where "hd_left m p = ld32 m (p + 8)"
definition hd_right :: "mem \<Rightarrow> u32 \<Rightarrow> u32" where "hd_right m p = ld32 m (p + 12)"
definition end_size :: "mem \<Rightarrow> u32 \<Rightarrow> u32" where "end_size m p = ld32 m p"
definition end_signature :: "mem \<Rightarrow> u32 \<Rightarrow> u32" where "end_signature m p = ld32 m (p + 4)"

definition get_void_block_size_index :: "u32 \<Rightarrow> nat" where
  "get_void_block_size_index sz = (if sz \<le> 1 then 0 else 32 - clz32 (sz - 1))"

definition get_data_ptr :: "u32 \<Rightarrow> u32" where
  "get_data_ptr block_start_addr = block_start_addr + LEFT_EDGE_SIZE"

definition get_block_start :: "mem \<Rightarrow> u32 \<Rightarrow> u32" where
  "get_block_start m block_end_addr =
    block_end_addr - SERVICE_FIELDS_SIZE - end_size m (block_end_addr - RIGHT_EDGE_SIZE)"

definition get_block_end :: "mem \<Rightarrow> u32 \<Rightarrow> u32" where
  "get_block_end m block_start_addr = block_start_addr + SERVICE_FIELDS_SIZE + hd_size m block_start_addr"

definition create_data_block :: "mem \<Rightarrow> u32 \<Rightarrow> u32 \<Rightarrow> mem" where
  "create_data_block m start_addr sz =
    (let m = st32 m start_addr HEAP_DATA_BLOCK_MAGIC;
         m = st32 m (start_addr + 4) sz;
         e = get_data_ptr start_addr + sz;
         m = st32 m e sz
     in st32 m (e + 4) HEAP_DATA_BLOCK_MAGIC)"

definition create_void_block_default :: "mem \<Rightarrow> u32 \<Rightarrow> u32 \<Rightarrow> mem" where
  "create_void_block_default m start_addr sz =
    (let m = st32 m start_addr HEAP_VOID_BLOCK_MAGIC;
         m = st32 m (start_addr + 4) sz;
         m = st32 m (start_addr + 8) 0;
         m = st32 m (start_addr + 12) 0;
         e = get_data_ptr start_addr + sz;
         m = st32 m e sz
     in st32 m (e + 4) HEAP_VOID_BLOCK_MAGIC)"

definition heap_block_erase :: "mem \<Rightarrow> u32 \<Rightarrow> mem" where
  "heap_block_erase m start_addr =
    (let m = st32 m start_addr 0 in st32 m (start_addr + hd_size m start_addr + LEFT_EDGE_SIZE) 0)"

definition heap_void_bucket_erase :: "nat \<Rightarrow> u32 \<Rightarrow> heap_t \<Rightarrow> heap_t res" where
  "heap_void_bucket_erase root cur h =
    (if length (heap_void_bucket_root h) \<le> root then Inl Out_Of_Bounds else
     let right = hd_right (hmem h) cur;
         left = hd_left (hmem h) cur;
         roots = (if heap_void_bucket_root h ! root = cur
                  then (heap_void_bucket_root h)[root := hd_right (hmem h) (heap_void_bucket_root h ! root)]
                  else heap_void_bucket_root h);
         m = (if left \<noteq> 0 then st32 (hmem h) (left + 12) right else hmem h);
         m = (if right \<noteq> 0 then st32 m (right + 8) left else m)
     in Inr \<lparr> hmem = heap_block_erase m cur, heap_void_bucket_root = roots \<rparr>)"

definition heap_void_bucket_add_begin :: "nat \<Rightarrow> u32 \<Rightarrow> heap_t \<Rightarrow> heap_t res" where
  "heap_void_bucket_add_begin root new h =
    (if length (heap_void_bucket_root h) \<le> root then Inl Out_Of_Bounds else
     let m = st32 (hmem h) (new + 12) (heap_void_bucket_root h ! root);
         roots = (heap_void_bucket_root h)[root := new];
         m = (if hd_right m new \<noteq> 0 then st32 m (hd_right m new + 8) new else m)
     in Inr \<lparr> hmem = m, heap_void_bucket_root = roots \<rparr>)"

text \<open>\<open>create_void_block_default\<close> followed by the insertion into the bucket of its sz.\<close>

definition heap_add_void :: "u32 \<Rightarrow> u32 \<Rightarrow> heap_t \<Rightarrow> heap_t res" where
  "heap_add_void start_addr sz h =
    (let m = create_void_block_default (hmem h) start_addr sz
     in heap_void_bucket_add_begin (get_void_block_size_index (hd_size m start_addr)) start_addr (h\<lparr> hmem := m \<rparr>))"

definition heap_void_block_try_merge :: "u32 \<Rightarrow> heap_t \<Rightarrow> heap_t res" where
  "heap_void_block_try_merge start_addr h =
    (let new_end_addr = get_block_end (hmem h) start_addr
     in rbind
       (if end_signature (hmem h) (start_addr - RIGHT_EDGE_SIZE) = HEAP_VOID_BLOCK_MAGIC then
          let left_start_addr = get_block_start (hmem h) start_addr
          in rbind (heap_void_bucket_erase (get_void_block_size_index (hd_size (hmem h) left_start_addr)) left_start_addr h)
               (\<lambda>h. Inr (True, left_start_addr, h))
        else Inr (False, start_addr, h)) (\<lambda>(found, new_start_addr, h).
     let right_start_block = get_block_end (hmem h) start_addr
     in rbind
       (if hd_signature (hmem h) right_start_block = HEAP_VOID_BLOCK_MAGIC then
          rbind (heap_void_bucket_erase (get_void_block_size_index (hd_size (hmem h) right_start_block)) right_start_block h)
            (\<lambda>h. Inr (True, get_block_end (hmem h) right_start_block, h))
        else Inr (found, new_end_addr, h)) (\<lambda>(found, new_end_addr, h).
     if found then
       rbind (heap_void_bucket_erase (get_void_block_size_index (hd_size (hmem h) start_addr)) start_addr h)
         (heap_add_void new_start_addr (new_end_addr - new_start_addr - SERVICE_FIELDS_SIZE))
     else Inr h)))"

definition heap_init :: "mem \<Rightarrow> heap_t res" where
  "heap_init m =
    (let heap_end_block = KHEAP_END - SERVICE_FIELDS_SIZE;
         m = create_data_block m KHEAP_START 0;
         m = create_data_block m heap_end_block 0;
         void_block_start = get_block_end m KHEAP_START
     in heap_add_void void_block_start (heap_end_block - void_block_start - SERVICE_FIELDS_SIZE)
          \<lparr> hmem = m, heap_void_bucket_root = replicate HEAP_VOID_BUCKET_COUNT 0 \<rparr>)"

text \<open>The search loop of \<open>try_malloc_from_bucket\<close>: the first node large enough; \<open>0\<close> if none.\<close>

partial_function (option) find_in_bucket :: "mem \<Rightarrow> u32 \<Rightarrow> u32 \<Rightarrow> u32 option" where
  [code]: "find_in_bucket m n sz =
    (if n = 0 then Some 0
     else if sz \<le> hd_size m n then Some n
     else find_in_bucket m (hd_right m n) sz)"

text \<open>What it does with the node found.\<close>

definition take_void_block :: "u32 \<Rightarrow> nat \<Rightarrow> u32 \<Rightarrow> heap_t \<Rightarrow> (u32 \<times> heap_t) res" where
  "take_void_block n index sz h =
    (let void_size_left = hd_size (hmem h) n - sz - SERVICE_FIELDS_SIZE
     in if sint void_size_left \<le> 0 then
          let sz = hd_size (hmem h) n
          in rbind (heap_void_bucket_erase index n h) (\<lambda>h.
             Inr (get_data_ptr n, h\<lparr> hmem := create_data_block (hmem h) n sz \<rparr>))
        else
          rbind (heap_void_bucket_erase index n h) (\<lambda>h.
          let h = h\<lparr> hmem := create_data_block (hmem h) n sz \<rparr>;
              new = get_block_end (hmem h) n
          in rbind (heap_add_void new void_size_left h) (\<lambda>h. Inr (get_data_ptr n, h))))"

text \<open>A result \<open>None\<close> is a loop that never ends.\<close>

definition try_malloc_from_bucket :: "u32 \<Rightarrow> nat \<Rightarrow> u32 \<Rightarrow> heap_t \<Rightarrow> (u32 \<times> heap_t) lres" where
  "try_malloc_from_bucket n index sz h = (case find_in_bucket (hmem h) n sz of
      None \<Rightarrow> None
    | Some k \<Rightarrow> if k = 0 then Some (Inr (0, h)) else Some (take_void_block k index sz h))"

fun malloc_scan :: "nat list \<Rightarrow> u32 \<Rightarrow> heap_t \<Rightarrow> (u32 \<times> heap_t) lres" where
  "malloc_scan [] sz h = Some (Inl (Panic ''BAD MALLOC''))"
| "malloc_scan (i # is) sz h =
    lbind (try_malloc_from_bucket (heap_void_bucket_root h ! i) i sz h) (\<lambda>(ptr, h).
      if ptr \<noteq> 0 then Some (Inr (ptr, h)) else malloc_scan is sz h)"

definition malloc :: "u32 \<Rightarrow> heap_t \<Rightarrow> (u32 \<times> heap_t) lres" where
  "malloc sz h =
    (if sz = 0 then Some (Inr (0, h))
     else
       let index = get_void_block_size_index sz
       in if HEAP_VOID_BUCKET_COUNT \<le> index then Some (Inl (Panic ''BAD MALLOC SIZE''))
          else malloc_scan ([index..<HEAP_VOID_BUCKET_COUNT] @ (if 0 < index then [index - 1] else [])) sz h)"

definition free :: "u32 \<Rightarrow> heap_t \<Rightarrow> heap_t res" where
  "free ptr h =
    (if ptr = 0 then Inr h
     else
       let start = ptr - LEFT_EDGE_SIZE
       in if hd_signature (hmem h) start \<noteq> HEAP_DATA_BLOCK_MAGIC then
            (if hd_signature (hmem h) start = HEAP_VOID_BLOCK_MAGIC then Inl (Panic ''DOUBLE FREE'')
             else Inl (Panic ''BAD FREE''))
          else
            let m = heap_block_erase (hmem h) start
            in rbind (heap_add_void start (hd_size m start) (h\<lparr> hmem := m \<rparr>))
                 (heap_void_block_try_merge start))"

definition alligned_malloc :: "u32 \<Rightarrow> u32 \<Rightarrow> heap_t \<Rightarrow> (u32 \<times> heap_t) lres" where
  "alligned_malloc sz alignment h =
    (if sz = 0 \<or> alignment = 0 then Some (Inr (0, h))
     else if alignment AND (alignment - 1) \<noteq> 0 then Some (Inl (Panic ''BAD ALLIGNMENT''))
     else lbind (malloc (sz + alignment - 1) h) (\<lambda>(ptr, h).
       if ptr = 0 then Some (Inr (0, h)) else
       let prev_end = ptr - LEFT_EDGE_SIZE;
           alligned_ptr = (ptr + alignment - 1) AND NOT (alignment - 1);
           curr_start = alligned_ptr - LEFT_EDGE_SIZE;
           m = heap_block_erase (hmem h) prev_end;
           m = create_data_block m curr_start (get_block_end m prev_end - curr_start - SERVICE_FIELDS_SIZE)
       in if end_signature m (prev_end - RIGHT_EDGE_SIZE) \<noteq> HEAP_DATA_BLOCK_MAGIC
          then Some (Inl (Panic ''BAD ALLIGNED_ALLOC''))
          else
            let prev_start = get_block_start m prev_end;
                void_size_left = curr_start - prev_end - SERVICE_FIELDS_SIZE
            in if sint void_size_left \<le> 0 then
                 let old_size = hd_size m prev_start;
                     m = heap_block_erase m prev_start
                 in Some (Inr (alligned_ptr, h\<lparr> hmem := create_data_block m prev_start (old_size + curr_start - prev_end) \<rparr>))
               else
                 Some (rbind (heap_add_void prev_end void_size_left (h\<lparr> hmem := m \<rparr>)) (\<lambda>h. Inr (alligned_ptr, h)))))"

definition realloc :: "u32 \<Rightarrow> u32 \<Rightarrow> heap_t \<Rightarrow> (u32 \<times> heap_t) lres" where
  "realloc ptr sz h =
    (if ptr = 0 then malloc sz h
     else if sz = 0 then Some (rbind (free ptr h) (\<lambda>h. Inr (0, h)))
     else
       let data_block = ptr - LEFT_EDGE_SIZE
       in if hd_signature (hmem h) data_block \<noteq> HEAP_DATA_BLOCK_MAGIC then Some (Inl (Panic ''BAD REALLOC''))
       else if sz \<le> hd_size (hmem h) data_block then Some (Inr (ptr, h))
       else
         let old_size = hd_size (hmem h) data_block;
             next = get_block_end (hmem h) data_block
         in if hd_signature (hmem h) next = HEAP_VOID_BLOCK_MAGIC \<and>
               sz \<le> hd_size (hmem h) next + old_size + SERVICE_FIELDS_SIZE then
              let void_size_left = hd_size (hmem h) next + old_size - sz
              in if sint void_size_left \<le> 0 then
                   let sz = hd_size (hmem h) next + old_size + SERVICE_FIELDS_SIZE
                   in Some (rbind (heap_void_bucket_erase (get_void_block_size_index (hd_size (hmem h) next)) next h) (\<lambda>h.
                        Inr (get_data_ptr data_block, h\<lparr> hmem := create_data_block (hmem h) data_block sz \<rparr>)))
                 else
                   Some (rbind (heap_void_bucket_erase (get_void_block_size_index (hd_size (hmem h) next)) next h) (\<lambda>h.
                     let h = h\<lparr> hmem := create_data_block (hmem h) data_block sz \<rparr>;
                         new = get_block_end (hmem h) data_block
                     in rbind (heap_add_void new void_size_left h) (\<lambda>h. Inr (get_data_ptr data_block, h))))
            else
              lbind (malloc sz h) (\<lambda>(new_ptr, h).
                Some (rbind (free ptr (h\<lparr> hmem := mem_copy (hmem h) new_ptr ptr old_size \<rparr>)) (\<lambda>h. Inr (new_ptr, h)))))"

end
