(* ===== verification/Heap_Blocks.thy ===== *)
theory Heap_Blocks
  imports Heap
begin

text \<open>
  The abstraction of the heap: blocks tiling an interval of the address space, doubly linked
  lists of free blocks, and what each memory primitive of \<open>Heap\<close> does to them.
\<close>

unbundle bit_operations_syntax

section \<open>Blocks\<close>

text \<open>A block is its start, its payload size and whether it is in use; it takes 24 bytes more than its payload.\<close>

type_synonym block = "nat \<times> nat \<times> bool"

definition magic :: "bool \<Rightarrow> u32" where
  "magic u = (if u then HEAP_DATA_BLOCK_MAGIC else HEAP_VOID_BLOCK_MAGIC)"

lemma magic_eq [simp]: "magic u = magic v \<longleftrightarrow> u = v"
  by (simp add: magic_def HEAP_DATA_BLOCK_MAGIC_def HEAP_VOID_BLOCK_MAGIC_def)

lemma magic_simps: "HEAP_DATA_BLOCK_MAGIC = magic True" "HEAP_VOID_BLOCK_MAGIC = magic False"
  by (simp_all add: magic_def)

fun tile :: "nat \<Rightarrow> block list \<Rightarrow> nat \<Rightarrow> bool" where
  "tile lo [] hi = (lo = hi)"
| "tile lo ((s, n, u) # bs) hi = (s = lo \<and> tile (s + 24 + n) bs hi)"

definition bend :: "block \<Rightarrow> nat" where
  "bend b = fst b + 24 + fst (snd b)"

lemma bend_simp [simp]: "bend (s, n, u) = s + 24 + n"
  by (simp add: bend_def)

definition hdrs :: "block \<Rightarrow> nat set" where
  "hdrs = (\<lambda>(s, n, u). {s..<s + 8} \<union> {s + 16 + n..<s + 24 + n})"

fun block_ok :: "mem \<Rightarrow> block \<Rightarrow> bool" where
  "block_ok m (s, n, u) =
    (ld32 m (of_nat s) = magic u \<and> ld32 m (of_nat (s + 4)) = of_nat n \<and>
     ld32 m (of_nat (s + 16 + n)) = of_nat n \<and> ld32 m (of_nat (s + 20 + n)) = magic u)"

lemma tile_append: "tile lo (xs @ ys) hi \<longleftrightarrow> (\<exists>mid. tile lo xs mid \<and> tile mid ys hi)"
  by (induction lo xs hi rule: tile.induct) auto

lemma tile_le: "tile lo bs hi \<Longrightarrow> lo \<le> hi"
  by (induction lo bs hi rule: tile.induct) auto

lemma tile_mem: "tile lo bs hi \<Longrightarrow> (s, n, u) \<in> set bs \<Longrightarrow> lo \<le> s \<and> s + 24 + n \<le> hi"
  by (induction lo bs hi rule: tile.induct) (auto dest: tile_le)

lemma tile_disjoint:
  assumes "tile lo bs hi" "(s, n, u) \<in> set bs" "(s', n', u') \<in> set bs" "s < s'"
  shows "s + 24 + n \<le> s'"
proof -
  obtain xs ys where bs: "bs = xs @ (s, n, u) # ys" using assms(2) by (meson split_list)
  with assms(1) obtain mid where t: "tile lo xs s" "tile (s + 24 + n) ys hi" by (auto simp: tile_append)
  have "(s', n', u') \<notin> set xs" using tile_mem [OF t(1)] assms(4) by fastforce
  with assms(3,4) bs have "(s', n', u') \<in> set ys" by auto
  with tile_mem [OF t(2)] show ?thesis by fastforce
qed

lemma tile_unique:
  assumes "tile lo bs hi" "(s, n, u) \<in> set bs" "(s, n', u') \<in> set bs"
  shows "n = n' \<and> u = u'"
proof -
  obtain xs ys where bs: "bs = xs @ (s, n, u) # ys" using assms(2) by (meson split_list)
  with assms(1) have t: "tile lo xs s" "tile (s + 24 + n) ys hi" by (auto simp: tile_append)
  have "(s, n', u') \<notin> set xs" using tile_mem [OF t(1)] by fastforce
  moreover have "(s, n', u') \<notin> set ys" using tile_mem [OF t(2)] by fastforce
  ultimately show ?thesis using assms(3) bs by auto
qed

lemma tile_snoc: "tile lo (xs @ [(s, n, u)]) hi \<longleftrightarrow> tile lo xs s \<and> hi = s + 24 + n"
  by (auto simp: tile_append)

lemma block_ok_chg:
  assumes "chg S m m'" "\<And>x. x \<in> S \<Longrightarrow> x \<notin> hdrs b" "bend b \<le> 2 ^ 32" "block_ok m b"
  shows "block_ok m' b"
proof -
  obtain s n u where b: "b = (s, n, u)" by (cases b)
  have "ld32 m' (of_nat s) = ld32 m (of_nat s)" "ld32 m' (of_nat (s + 4)) = ld32 m (of_nat (s + 4))"
    "ld32 m' (of_nat (s + 16 + n)) = ld32 m (of_nat (s + 16 + n))"
    "ld32 m' (of_nat (s + 20 + n)) = ld32 m (of_nat (s + 20 + n))"
    using assms(2,3) unfolding b hdrs_def by (fastforce intro!: ld32_same [OF assms(1)] simp del: of_nat_add)+
  with assms(4) show ?thesis by (simp add: b del: of_nat_add)
qed

section \<open>Linked lists of free blocks\<close>

definition hd0 :: "nat list \<Rightarrow> u32 \<Rightarrow> u32" where
  "hd0 xs q = (case xs of [] \<Rightarrow> q | x # _ \<Rightarrow> of_nat x)"

definition last0 :: "u32 \<Rightarrow> nat list \<Rightarrow> u32" where
  "last0 p xs = (if xs = [] then p else of_nat (last xs))"

lemma hd0_simps [simp]: "hd0 [] q = q" "hd0 (x # xs) q = of_nat x"
  by (simp_all add: hd0_def)

lemma last0_simps [simp]: "last0 p [] = p" "last0 p (xs @ [x]) = of_nat x" "last0 p (x # xs) = last0 (of_nat x) xs"
  by (simp_all add: last0_def)

lemma hd0_append: "hd0 (xs @ ys) q = hd0 xs (hd0 ys q)"
  by (cases xs) simp_all

text \<open>\<open>dls m p xs q\<close>: the nodes \<open>xs\<close> linked in this order, the first pointing back to \<open>p\<close> and the last on to \<open>q\<close>.\<close>

fun dls :: "mem \<Rightarrow> u32 \<Rightarrow> nat list \<Rightarrow> u32 \<Rightarrow> bool" where
  "dls m p [] q = True"
| "dls m p (x # xs) q =
    (ld32 m (of_nat (x + 8)) = p \<and> ld32 m (of_nat (x + 12)) = hd0 xs q \<and> dls m (of_nat x) xs q)"

lemma dls_append: "dls m p (xs @ ys) q \<longleftrightarrow> dls m p xs (hd0 ys q) \<and> dls m (last0 p xs) ys q"
  by (induction m p xs q rule: dls.induct) (auto simp: hd0_append)

lemma dls_chg:
  assumes "chg S m m'" "\<And>x y. x \<in> set xs \<Longrightarrow> y \<in> S \<Longrightarrow> y < x + 8 \<or> x + 16 \<le> y"
    "\<And>x. x \<in> set xs \<Longrightarrow> x + 16 \<le> 2 ^ 32" "dls m p xs q"
  shows "dls m' p xs q"
  using assms(2-4)
proof (induction xs arbitrary: p)
  case (Cons x xs)
  have "ld32 m' (of_nat (x + 8)) = ld32 m (of_nat (x + 8))" "ld32 m' (of_nat (x + 12)) = ld32 m (of_nat (x + 12))"
    using Cons.prems(1,2) [of x] by (fastforce intro!: ld32_same [OF assms(1)] simp del: of_nat_add)+
  with Cons show ?case by (simp del: of_nat_add)
qed simp

text \<open>Writing the forward pointer of the last node, or the backward pointer of the first.\<close>

lemma dls_set_tail:
  assumes "dls m p (xs @ [a]) q" "a + 16 \<le> 2 ^ 32" "a \<notin> set xs"
    and "\<And>x. x \<in> set xs \<Longrightarrow> (x + 16 \<le> a \<or> a + 16 \<le> x) \<and> x + 16 \<le> 2 ^ 32"
  shows "dls (st32 m (of_nat (a + 12)) q') p (xs @ [a]) q'"
proof -
  let ?m = "st32 m (of_nat (a + 12)) q'"
  have c: "chg {a + 12..<a + 12 + 4} m ?m" by (rule chg_st32) (use assms(2) in simp_all)
  have "dls ?m p xs (of_nat a)"
    by (rule dls_chg [OF c]) (use assms in \<open>force simp: dls_append\<close>)+
  moreover have "ld32 ?m (of_nat (a + 8)) = ld32 m (of_nat (a + 8))"
    by (rule ld32_same [OF c]) (use assms(2) in auto)
  ultimately show ?thesis using assms(1) by (simp add: dls_append del: of_nat_add)
qed

lemma dls_set_head:
  assumes "dls m p (b # xs) q" "b + 16 \<le> 2 ^ 32"
    and "\<And>x. x \<in> set xs \<Longrightarrow> (x + 16 \<le> b \<or> b + 16 \<le> x) \<and> x + 16 \<le> 2 ^ 32"
  shows "dls (st32 m (of_nat (b + 8)) p') p' (b # xs) q"
proof -
  let ?m = "st32 m (of_nat (b + 8)) p'"
  have c: "chg {b + 8..<b + 8 + 4} m ?m" by (rule chg_st32) (use assms(2) in simp_all)
  have "dls ?m (of_nat b) xs q"
    by (rule dls_chg [OF c]) (use assms in force)+
  moreover have "ld32 ?m (of_nat (b + 12)) = ld32 m (of_nat (b + 12))"
    by (rule ld32_same [OF c]) (use assms(2) in auto)
  ultimately show ?thesis using assms(1) by (simp del: of_nat_add)
qed

section \<open>The memory primitives\<close>

lemma st4:
  assumes "a1 + 4 \<le> 2 ^ 32" "a2 + 4 \<le> 2 ^ 32" "a1 + 4 \<le> a2" "p1 = of_nat a1" "p2 = of_nat a2"
  shows "ld32 (st32 (st32 m p1 v) p2 w) p1 = v"
  by (subst ld32_st32_other [of a2 a1]) (use assms in auto)

lemma create_data_block_ok:
  assumes "s + 24 + n \<le> 2 ^ 32"
  shows "block_ok (create_data_block m (of_nat s) (of_nat n)) (s, n, True)"
    "chg (hdrs (s, n, True)) m (create_data_block m (of_nat s) (of_nat n))"
proof -
  let ?m1 = "st32 m (of_nat s) HEAP_DATA_BLOCK_MAGIC"
  let ?m2 = "st32 ?m1 (of_nat (s + 4)) (of_nat n)"
  let ?m3 = "st32 ?m2 (of_nat (s + 16 + n)) (of_nat n)"
  let ?m4 = "st32 ?m3 (of_nat (s + 20 + n)) HEAP_DATA_BLOCK_MAGIC"
  have m: "create_data_block m (of_nat s) (of_nat n) = ?m4"
    by (simp add: create_data_block_def get_data_ptr_def LEFT_EDGE_SIZE_def Let_def algebra_simps)
  note b = assms
  have c1: "chg {s..<s + 4} m ?m1" by (rule chg_st32) (use b in auto)
  have c2: "chg {s + 4..<s + 4 + 4} ?m1 ?m2" by (rule chg_st32) (use b in auto)
  have c3: "chg {s + 16 + n..<s + 16 + n + 4} ?m2 ?m3" by (rule chg_st32) (use b in auto)
  have c4: "chg {s + 20 + n..<s + 20 + n + 4} ?m3 ?m4" by (rule chg_st32) (use b in auto)
  have 1: "ld32 ?m4 (of_nat s) = HEAP_DATA_BLOCK_MAGIC"
    using ld32_same [OF c4, of s] ld32_same [OF c3, of s] ld32_same [OF c2, of s] b by fastforce
  have 2: "ld32 ?m4 (of_nat (s + 4)) = of_nat n"
    using ld32_same [OF c4, of "s + 4"] ld32_same [OF c3, of "s + 4"] b by fastforce
  have 3: "ld32 ?m4 (of_nat (s + 16 + n)) = of_nat n"
    using ld32_same [OF c4, of "s + 16 + n"] b by fastforce
  show "block_ok (create_data_block m (of_nat s) (of_nat n)) (s, n, True)"
    unfolding m block_ok.simps magic_simps [symmetric] by (intro conjI 1 2 3 ld32_st32)
  show "chg (hdrs (s, n, True)) m (create_data_block m (of_nat s) (of_nat n))"
    unfolding m by (rule chg_mono [OF chg_trans [OF chg_trans [OF c1 c2] chg_trans [OF c3 c4]]]) (auto simp: hdrs_def)
qed

lemma create_void_block_ok:
  assumes "s + 24 + n \<le> 2 ^ 32"
  shows "block_ok (create_void_block_default m (of_nat s) (of_nat n)) (s, n, False)"
    "ld32 (create_void_block_default m (of_nat s) (of_nat n)) (of_nat (s + 8)) = 0"
    "chg (hdrs (s, n, False) \<union> {s + 8..<s + 16}) m (create_void_block_default m (of_nat s) (of_nat n))"
proof -
  let ?m1 = "st32 m (of_nat s) HEAP_VOID_BLOCK_MAGIC"
  let ?m2 = "st32 ?m1 (of_nat (s + 4)) (of_nat n)"
  let ?m3 = "st32 ?m2 (of_nat (s + 8)) 0"
  let ?m4 = "st32 ?m3 (of_nat (s + 12)) 0"
  let ?m5 = "st32 ?m4 (of_nat (s + 16 + n)) (of_nat n)"
  let ?m6 = "st32 ?m5 (of_nat (s + 20 + n)) HEAP_VOID_BLOCK_MAGIC"
  have m: "create_void_block_default m (of_nat s) (of_nat n) = ?m6"
    by (simp add: create_void_block_default_def get_data_ptr_def LEFT_EDGE_SIZE_def Let_def algebra_simps)
  note b = assms
  have c1: "chg {s..<s + 4} m ?m1" by (rule chg_st32) (use b in auto)
  have c2: "chg {s + 4..<s + 4 + 4} ?m1 ?m2" by (rule chg_st32) (use b in auto)
  have c3: "chg {s + 8..<s + 8 + 4} ?m2 ?m3" by (rule chg_st32) (use b in auto)
  have c4: "chg {s + 12..<s + 12 + 4} ?m3 ?m4" by (rule chg_st32) (use b in auto)
  have c5: "chg {s + 16 + n..<s + 16 + n + 4} ?m4 ?m5" by (rule chg_st32) (use b in auto)
  have c6: "chg {s + 20 + n..<s + 20 + n + 4} ?m5 ?m6" by (rule chg_st32) (use b in auto)
  have c36: "chg ({s + 8..<s + 16} \<union> {s + 16 + n..<s + 24 + n}) ?m2 ?m6"
    by (rule chg_mono [OF chg_trans [OF chg_trans [OF c3 c4] chg_trans [OF c5 c6]]]) auto
  have 1: "ld32 ?m6 (of_nat s) = HEAP_VOID_BLOCK_MAGIC"
    using ld32_same [OF c36, of s] ld32_same [OF c2, of s] b by fastforce
  have 2: "ld32 ?m6 (of_nat (s + 4)) = of_nat n"
    using ld32_same [OF c36, of "s + 4"] b by fastforce
  have 3: "ld32 ?m6 (of_nat (s + 16 + n)) = of_nat n"
    using ld32_same [OF c6, of "s + 16 + n"] b by fastforce
  have 4: "ld32 ?m6 (of_nat (s + 8)) = 0"
    using ld32_same [OF c6, of "s + 8"] ld32_same [OF c5, of "s + 8"] ld32_same [OF c4, of "s + 8"] b by fastforce
  show "block_ok (create_void_block_default m (of_nat s) (of_nat n)) (s, n, False)"
    unfolding m block_ok.simps magic_simps [symmetric] by (intro conjI 1 2 3 ld32_st32)
  show "ld32 (create_void_block_default m (of_nat s) (of_nat n)) (of_nat (s + 8)) = 0"
    unfolding m by (rule 4)
  show "chg (hdrs (s, n, False) \<union> {s + 8..<s + 16}) m (create_void_block_default m (of_nat s) (of_nat n))"
    unfolding m by (rule chg_mono [OF chg_trans [OF chg_trans [OF c1 c2] c36]]) (auto simp: hdrs_def)
qed

lemma heap_block_erase_ok:
  assumes "s + 24 + n \<le> 2 ^ 32" "ld32 m (of_nat (s + 4)) = of_nat n"
  shows "chg ({s..<s + 4} \<union> {s + 16 + n..<s + 20 + n}) m (heap_block_erase m (of_nat s))"
proof -
  let ?m1 = "st32 m (of_nat s) 0"
  let ?m2 = "st32 ?m1 (of_nat (s + 16 + n)) 0"
  have c1: "chg {s..<s + 4} m ?m1" by (rule chg_st32) (use assms in auto)
  have c2: "chg {s + 16 + n..<s + 16 + n + 4} ?m1 ?m2" by (rule chg_st32) (use assms in auto)
  have z: "hd_size ?m1 (of_nat s) = of_nat n"
    using ld32_same [OF c1, of "s + 4"] assms by (simp add: hd_size_def)
  have "heap_block_erase m (of_nat s) = ?m2"
    by (simp add: heap_block_erase_def Let_def z LEFT_EDGE_SIZE_def algebra_simps)
  with chg_trans [OF c1 c2] show ?thesis by (auto intro: chg_mono)
qed

definition links :: "nat set \<Rightarrow> nat set" where
  "links X = (\<Union>x \<in> X. {x + 8..<x + 16})"

lemma in_links: "a \<in> links X \<longleftrightarrow> (\<exists>x \<in> X. x + 8 \<le> a \<and> a < x + 16)"
  by (auto simp: links_def)

text \<open>Nodes that may be linked: above \<open>0\<close>, inside the address space and apart from each other.\<close>

definition apart :: "nat set \<Rightarrow> bool" where
  "apart X = (\<forall>x \<in> X. 0 < x \<and> x + 16 \<le> 2 ^ 32 \<and> (\<forall>y \<in> X. x < y \<longrightarrow> x + 16 \<le> y))"

lemma apartD: "apart X \<Longrightarrow> x \<in> X \<Longrightarrow> 0 < x" "apart X \<Longrightarrow> x \<in> X \<Longrightarrow> x + 16 \<le> 2 ^ 32"
  "apart X \<Longrightarrow> x \<in> X \<Longrightarrow> y \<in> X \<Longrightarrow> x \<noteq> y \<Longrightarrow> x + 16 \<le> y \<or> y + 16 \<le> x"
  unfolding apart_def by (blast, blast, metis linorder_neqE_nat)

lemma apart_nonzero: "apart X \<Longrightarrow> x \<in> X \<Longrightarrow> (of_nat x :: u32) \<noteq> 0"
proof -
  assume a: "apart X" "x \<in> X"
  then have "unat (of_nat x :: u32) = x" using apartD(2) [OF a] by (simp add: unat_of_nat)
  with apartD(1) [OF a] show ?thesis by (metis unat_0 less_numeral_extra(3))
qed

lemma hd0_nonzero: "apart (set xs) \<Longrightarrow> hd0 xs 0 = 0 \<longleftrightarrow> xs = []"
  by (cases xs) (use apart_nonzero in auto)

lemma apart_mono: "apart X \<Longrightarrow> Y \<subseteq> X \<Longrightarrow> apart Y"
  unfolding apart_def by blast

text \<open>Taking a node out of its list: the two pointer writes of \<open>heap_void_bucket_erase\<close>.\<close>

lemma unlink_ok:
  assumes d: "dls m 0 (as @ x # bs) 0" and ap: "apart (set (as @ x # bs))" and di: "distinct (as @ x # bs)"
    and l: "left = ld32 m (of_nat (x + 8))" and r: "right = ld32 m (of_nat (x + 12))"
    and m1: "m1 = (if left \<noteq> 0 then st32 m (left + 12) right else m)"
    and m2: "m2 = (if right \<noteq> 0 then st32 m1 (right + 8) left else m1)"
  shows "dls m2 0 (as @ bs) 0" "chg (links (set (as @ bs))) m m2"
    "left = last0 0 as" "right = hd0 bs 0"
proof -
  have D: "dls m 0 as (of_nat x)" "dls m (of_nat x) bs 0" and lr: "left = last0 0 as" "right = hd0 bs 0"
    using d l r by (simp_all add: dls_append)
  then show "left = last0 0 as" "right = hd0 bs 0" by simp_all
  note A = apartD [OF ap]
  have 1: "dls m1 0 as right \<and> dls m1 (of_nat x) bs 0 \<and> chg (links (set as)) m m1"
  proof (cases as rule: rev_cases)
    case Nil
    with D lr m1 show ?thesis by simp
  next
    case (snoc as' a)
    have a: "left = of_nat a" "a \<in> set (as @ x # bs)" using lr(1) snoc by simp_all
    have nz: "left \<noteq> 0" using apart_nonzero [OF ap a(2)] a(1) by simp
    then have e: "m1 = st32 m (of_nat (a + 12)) right" using m1 a(1) by simp
    have c: "chg {a + 12..<a + 12 + 4} m m1" unfolding e by (rule chg_st32) (use A(2) [OF a(2)] in auto)
    have "dls m1 0 (as' @ [a]) right"
      unfolding e by (rule dls_set_tail) (use D(1) snoc di A in auto)
    moreover have "dls m1 (of_nat x) bs 0"
    proof (rule dls_chg [OF c _ _ D(2)])
      fix u y assume u: "u \<in> set bs" "y \<in> {a + 12..<a + 12 + 4}"
      then have "u \<noteq> a" using di snoc by auto
      then show "y < u + 8 \<or> u + 16 \<le> y" using A(3) [of u a] u a(2) by auto
    qed (use A in auto)
    ultimately show ?thesis using c snoc by (auto simp: in_links intro: chg_mono)
  qed
  have "dls m2 0 as right \<and> dls m2 left bs 0 \<and> chg (links (set bs)) m1 m2"
  proof (cases bs)
    case Nil
    with 1 lr m2 show ?thesis by simp
  next
    case (Cons b bs')
    have b: "right = of_nat b" "b \<in> set (as @ x # bs)" using lr(2) Cons by simp_all
    have nz: "right \<noteq> 0" using apart_nonzero [OF ap b(2)] b(1) by simp
    then have e: "m2 = st32 m1 (of_nat (b + 8)) left" using m2 b(1) by simp
    have c: "chg {b + 8..<b + 8 + 4} m1 m2" unfolding e by (rule chg_st32) (use A(2) [OF b(2)] in auto)
    have "dls m2 left (b # bs') 0"
      unfolding e
    proof (rule dls_set_head)
      show "dls m1 (of_nat x) (b # bs') 0" using 1 Cons by simp
    qed (use Cons di A in auto)
    moreover have "dls m2 0 as right"
    proof (rule dls_chg [OF c])
      fix u y assume u: "u \<in> set as" "y \<in> {b + 8..<b + 8 + 4}"
      then have "u \<noteq> b" using di Cons by auto
      then show "y < u + 8 \<or> u + 16 \<le> y" using A(3) [of u b] u b(2) by auto
    qed (use A 1 in auto)
    ultimately show ?thesis using c Cons by (auto simp: in_links intro: chg_mono)
  qed
  with 1 show "dls m2 0 (as @ bs) 0" "chg (links (set (as @ bs))) m m2"
    using lr by (auto simp: dls_append links_def dest: chg_trans)
qed

section \<open>Blocks and buckets in memory\<close>

definition sepd :: "block set \<Rightarrow> bool" where
  "sepd B = ((\<forall>b \<in> B. 0 < fst b \<and> bend b \<le> 2 ^ 32) \<and>
     (\<forall>b \<in> B. \<forall>b' \<in> B. b \<noteq> b' \<longrightarrow> bend b \<le> fst b' \<or> bend b' \<le> fst b))"

definition vidx :: "nat \<Rightarrow> nat" where
  "vidx n = get_void_block_size_index (of_nat n)"

definition voids :: "nat \<Rightarrow> block set \<Rightarrow> nat set" where
  "voids i B = {s. \<exists>n. (s, n, False) \<in> B \<and> vidx n = i}"

definition hcore :: "heap_t \<Rightarrow> (nat \<Rightarrow> nat list) \<Rightarrow> block set \<Rightarrow> bool" where
  "hcore h L B = ((\<forall>b \<in> B. block_ok (hmem h) b) \<and> length (heap_void_bucket_root h) = 30 \<and>
     (\<forall>i < 30. heap_void_bucket_root h ! i = hd0 (L i) 0 \<and> dls (hmem h) 0 (L i) 0 \<and> distinct (L i) \<and>
        set (L i) = voids i B))"

definition payload :: "mem \<Rightarrow> block \<Rightarrow> bytes" where
  "payload m b = mem_bytes m (fst b + 16) (fst (snd b))"

definition keeps :: "block set \<Rightarrow> mem \<Rightarrow> mem \<Rightarrow> bool" where
  "keeps B m m' = (\<forall>b \<in> B. payload m' b = payload m b)"

lemma keeps_refl [simp]: "keeps B m m"
  by (simp add: keeps_def)

lemma keeps_trans: "keeps B m m1 \<Longrightarrow> keeps C m1 m2 \<Longrightarrow> keeps (B \<inter> C) m m2"
  by (simp add: keeps_def)

lemma keeps_mono: "keeps B m m' \<Longrightarrow> C \<subseteq> B \<Longrightarrow> keeps C m m'"
  by (auto simp: keeps_def)

lemma sepdD:
  assumes "sepd B" "(s, n, u) \<in> B"
  shows "0 < s" "s + 24 + n \<le> 2 ^ 32"
    "(s', n', u') \<in> B \<Longrightarrow> (s, n, u) \<noteq> (s', n', u') \<Longrightarrow> s + 24 + n \<le> s' \<or> s' + 24 + n' \<le> s"
  using assms unfolding sepd_def by (fastforce+)

lemma sepd_mono: "sepd B \<Longrightarrow> C \<subseteq> B \<Longrightarrow> sepd C"
  unfolding sepd_def by blast

lemma sepd_start: "sepd B \<Longrightarrow> (s, n, u) \<in> B \<Longrightarrow> (s, n', u') \<in> B \<Longrightarrow> n = n' \<and> u = u'"
  using sepdD(3) [of B s n u s n' u'] by auto

lemma voids_apart: "sepd B \<Longrightarrow> apart (voids i B)"
  unfolding apart_def voids_def
proof (intro ballI conjI impI; clarify)
  fix s n assume B: "sepd B" "(s, n, False) \<in> B"
  from sepdD [OF B] show "0 < s" "s + 16 \<le> 2 ^ 32" by auto
  fix s' n' assume "(s', n', False) \<in> B" "s < s'"
  with sepdD(3) [OF B] show "s + 16 \<le> s'" by fastforce
qed

lemma sepd_links_hdrs:
  assumes "sepd B" "b \<in> B" "x \<in> voids i B" "y \<in> {x + 8..<x + 16}"
  shows "y \<notin> hdrs b" "y \<notin> {fst b + 16..<fst b + 16 + fst (snd b)}"
proof -
  obtain n where x: "(x, n, False) \<in> B" using assms(3) by (auto simp: voids_def)
  obtain s k u where b: "b = (s, k, u)" by (cases b)
  have "x = s \<or> x + 24 + n \<le> s \<or> s + 24 + k \<le> x"
    using sepdD(3) [OF assms(1) x, of s k u] assms(2) b by auto
  then show "y \<notin> hdrs b" "y \<notin> {fst b + 16..<fst b + 16 + fst (snd b)}"
    using assms(4) by (auto simp: b hdrs_def)
qed

lemma sepd_hdrs_links:
  assumes "sepd B" "(s, n, u) \<in> B" "x \<in> voids i B" "y \<in> hdrs (s, n, u)"
  shows "y < x + 8 \<or> x + 16 \<le> y"
  using sepd_links_hdrs(1) [OF assms(1-3), of y] assms(4) by (metis atLeastLessThan_iff linorder_not_less)

lemma sepd_hdrs_hdrs:
  assumes "sepd B" "b \<in> B" "b' \<in> B" "b \<noteq> b'" "y \<in> hdrs b"
  shows "y \<notin> hdrs b'" "y \<notin> {fst b' + 16..<fst b' + 16 + fst (snd b')}"
proof -
  obtain s n u where b: "b = (s, n, u)" by (cases b)
  obtain s' n' u' where b': "b' = (s', n', u')" by (cases b')
  have "s + 24 + n \<le> s' \<or> s' + 24 + n' \<le> s" using sepdD(3) [of B s n u s' n' u'] assms b b' by auto
  then show "y \<notin> hdrs b'" "y \<notin> {fst b' + 16..<fst b' + 16 + fst (snd b')}" using assms(5) by (auto simp: b b' hdrs_def)
qed

lemma keeps_chg:
  assumes "chg S m m'" "\<And>b y. b \<in> B \<Longrightarrow> y \<in> S \<Longrightarrow> y \<notin> {fst b + 16..<fst b + 16 + fst (snd b)}" "sepd B"
  shows "keeps B m m'"
  unfolding keeps_def payload_def
proof
  fix b assume b: "b \<in> B"
  obtain s n u where bb: "b = (s, n, u)" by (cases b)
  show "mem_bytes m' (fst b + 16) (fst (snd b)) = mem_bytes m (fst b + 16) (fst (snd b))"
    by (rule mem_bytes_chg [OF assms(1)]) (use assms(2) [OF b] sepdD(2) [OF assms(3), of s n u] b bb in auto)
qed

lemma voids_remove:
  assumes "sepd B" "(s, n, u) \<in> B"
  shows "voids i (B - {(s, n, u)}) = (if \<not> u \<and> i = vidx n then voids i B - {s} else voids i B)"
proof -
  have a: "n' = n" if "(s, n', False) \<in> B" for n' using sepd_start [OF assms that] by simp
  show ?thesis
  proof (cases u)
    case True
    then show ?thesis by (simp add: voids_def)
  next
    case False
    have "x \<in> voids i (B - {(s, n, u)}) \<longleftrightarrow> x \<in> voids i B \<and> (x \<noteq> s \<or> i \<noteq> vidx n)" for x
    proof (cases "x = s")
      case True
      have "s \<notin> voids i (B - {(s, n, u)})" using a False by (auto simp: voids_def)
      moreover have "s \<in> voids i B \<Longrightarrow> i = vidx n" using a by (auto simp: voids_def)
      ultimately show ?thesis using True by blast
    next
      case neq: False
      then show ?thesis by (simp add: voids_def)
    qed
    with False show ?thesis by auto
  qed
qed

text \<open>Taking a free block out of its bucket.\<close>

lemma bucket_erase_core:
  assumes sep: "sepd B" and c: "hcore h L B" and b: "(s, n, False) \<in> B" and i: "vidx n < 30"
  shows "\<exists>h'. heap_void_bucket_erase (vidx n) (of_nat s) h = Inr h' \<and>
    hcore h' (L(vidx n := remove1 s (L (vidx n)))) (B - {(s, n, False)}) \<and> keeps (B - {(s, n, False)}) (hmem h) (hmem h') \<and>
    hd_size (hmem h') (of_nat s) = of_nat n"
proof -
  let ?i = "vidx n" and ?m = "hmem h" and ?B = "B - {(s, n, False)}"
  have Li: "heap_void_bucket_root h ! ?i = hd0 (L ?i) 0" "dls ?m 0 (L ?i) 0" "distinct (L ?i)" "set (L ?i) = voids ?i B"
    and len: "length (heap_void_bucket_root h) = 30" and ok: "\<forall>b \<in> B. block_ok ?m b"
    using c i by (auto simp: hcore_def)
  have "s \<in> set (L ?i)" using b Li(4) by (auto simp: voids_def)
  then obtain as bs where L: "L ?i = as @ s # bs" by (meson split_list)
  have sn: "s \<notin> set as" "s \<notin> set bs" using Li(3) L by auto
  have rem: "remove1 s (L ?i) = as @ bs" using sn by (simp add: L remove1_append)
  have ap: "apart (set (as @ s # bs))" using voids_apart [OF sep, of ?i] Li(4) L by simp
  let ?left = "ld32 ?m (of_nat (s + 8))" and ?right = "ld32 ?m (of_nat (s + 12))"
  define m1 where "m1 = (if ?left \<noteq> 0 then st32 ?m (?left + 12) ?right else ?m)"
  define m2 where "m2 = (if ?right \<noteq> 0 then st32 m1 (?right + 8) ?left else m1)"
  note u = unlink_ok [OF Li(2) [unfolded L] ap Li(3) [unfolded L] refl refl m1_def m2_def]
  have u2: "y \<in> links (set (as @ bs)) \<Longrightarrow> \<exists>x. x \<in> voids ?i B \<and> x \<noteq> s \<and> y \<in> {x + 8..<x + 16}" for y
    using Li(3,4) L by (auto simp: in_links)
  let ?S = "links (set (as @ bs)) \<union> ({s..<s + 4} \<union> {s + 16 + n..<s + 20 + n})"
  have sz: "ld32 m2 (of_nat (s + 4)) = of_nat n"
  proof -
    have "ld32 m2 (of_nat (s + 4)) = ld32 ?m (of_nat (s + 4))"
      using sepdD(2) [OF sep b] u2 sepd_links_hdrs(1) [OF sep b]
      by (intro ld32_same [OF u(2)]) (fastforce simp: hdrs_def)+
    then show ?thesis using ok b by fastforce
  qed
  define m3 where "m3 = heap_block_erase m2 (of_nat s)"
  have ch: "chg ?S ?m m3"
    unfolding m3_def by (rule chg_trans [OF u(2) heap_block_erase_ok [OF sepdD(2) [OF sep b] sz]])
  have Sh: "y \<in> ?S \<Longrightarrow> (\<exists>x. x \<in> voids ?i B \<and> x \<noteq> s \<and> y \<in> {x + 8..<x + 16}) \<or> y \<in> hdrs (s, n, False)" for y
    using u2 by (auto simp: hdrs_def)
  have keep: "keeps ?B ?m m3"
  proof (rule keeps_chg [OF ch])
    fix b' y assume b': "b' \<in> ?B" and "y \<in> ?S"
    with Sh show "y \<notin> {fst b' + 16..<fst b' + 16 + fst (snd b')}"
      using sepd_links_hdrs(2) [OF sep, of b'] sepd_hdrs_hdrs(2) [OF sep b, of b'] by blast
  qed (rule sepd_mono [OF sep], blast)
  have blocks: "block_ok m3 b'" if "b' \<in> ?B" for b'
  proof (rule block_ok_chg [OF ch])
    fix y assume "y \<in> ?S"
    with Sh show "y \<notin> hdrs b'"
      using sepd_links_hdrs(1) [OF sep, of b'] sepd_hdrs_hdrs(1) [OF sep b, of b'] that by blast
  qed (use that ok sep in \<open>auto simp: sepd_def\<close>)
  define roots where "roots = (if heap_void_bucket_root h ! ?i = of_nat s
     then (heap_void_bucket_root h)[?i := hd_right ?m (heap_void_bucket_root h ! ?i)] else heap_void_bucket_root h)"
  have run: "heap_void_bucket_erase ?i (of_nat s) h = Inr \<lparr> hmem = m3, heap_void_bucket_root = roots \<rparr>"
    using i len unfolding heap_void_bucket_erase_def Let_def m3_def m2_def m1_def roots_def
    by (simp add: hd_right_def hd_left_def)
  have ri: "roots ! ?i = hd0 (as @ bs) 0"
  proof (cases as)
    case Nil
    then show ?thesis using Li(1) L i len u(4) by (simp add: roots_def hd_right_def)
  next
    case (Cons a as')
    have "a < 2 ^ 32" "s < 2 ^ 32" using apartD(2) [OF ap, of a] apartD(2) [OF ap, of s] Cons by auto
    then have "heap_void_bucket_root h ! ?i \<noteq> of_nat s" using Li(1) L sn Cons by (simp add: of_nat_u32_inj)
    then show ?thesis using Li(1) L Cons by (simp add: roots_def)
  qed
  have ro: "j \<noteq> ?i \<Longrightarrow> roots ! j = heap_void_bucket_root h ! j" for j by (simp add: roots_def)
  have sub: "voids j ?B \<subseteq> voids j B" for j by (auto simp: voids_def)
  have lists: "dls m3 0 ((L(?i := as @ bs)) j) 0" if j: "j < 30" for j
  proof (cases "j = ?i")
    case True
    have "dls m3 0 (as @ bs) 0"
    proof (rule dls_chg [OF heap_block_erase_ok [OF sepdD(2) [OF sep b] sz, folded m3_def] _ _ u(1)])
      fix x y assume x: "x \<in> set (as @ bs)" and y: "y \<in> {s..<s + 4} \<union> {s + 16 + n..<s + 20 + n}"
      have "x \<in> voids ?i B" using x Li(4) L by auto
      moreover have "y \<in> hdrs (s, n, False)" using y by (auto simp: hdrs_def)
      ultimately show "y < x + 8 \<or> x + 16 \<le> y" by (rule sepd_hdrs_links [OF sep b])
    qed (use apartD(2) [OF ap] in auto)
    with True show ?thesis by simp
  next
    case False
    have Lj: "dls ?m 0 (L j) 0" "set (L j) = voids j B" using c j by (auto simp: hcore_def)
    have "dls m3 0 (L j) 0"
    proof (rule dls_chg [OF ch _ _ Lj(1)])
      fix x y assume x: "x \<in> set (L j)" and y: "y \<in> ?S"
      from x Lj(2) have xv: "x \<in> voids j B" by simp
      then obtain k where k: "(x, k, False) \<in> B" "vidx k = j" by (auto simp: voids_def)
      consider z where "z \<in> voids ?i B" "y \<in> {z + 8..<z + 16}" | "y \<in> hdrs (s, n, False)" using Sh [OF y] by blast
      then show "y < x + 8 \<or> x + 16 \<le> y"
      proof cases
        case 1
        then obtain l where l: "(z, l, False) \<in> B" "vidx l = ?i" by (auto simp: voids_def)
        then have "z \<noteq> x" using sepd_start [OF sep l(1), of k] k False by auto
        then show ?thesis using sepdD(3) [OF sep l(1) k(1)] 1 by auto
      next
        case 2
        then show ?thesis by (rule sepd_hdrs_links [OF sep b xv])
      qed
    qed (use Lj(2) apartD(2) [OF voids_apart [OF sep]] in blast)
    with False show ?thesis by simp
  qed
  have "hcore \<lparr> hmem = m3, heap_void_bucket_root = roots \<rparr> (L(?i := as @ bs)) ?B"
    unfolding hcore_def
  proof (intro conjI allI impI)
    fix j assume j: "j < (30 :: nat)"
    have cj: "heap_void_bucket_root h ! j = hd0 (L j) 0" "distinct (L j)" "set (L j) = voids j B"
      using c j by (auto simp: hcore_def)
    show "dls (hmem \<lparr> hmem = m3, heap_void_bucket_root = roots \<rparr>) 0 ((L(?i := as @ bs)) j) 0" using lists [OF j] by simp
    show "heap_void_bucket_root \<lparr> hmem = m3, heap_void_bucket_root = roots \<rparr> ! j = hd0 ((L(?i := as @ bs)) j) 0"
      using ri ro cj by simp
    show "distinct ((L(?i := as @ bs)) j)" using cj Li(3) L by auto
    show "set ((L(?i := as @ bs)) j) = voids j ?B"
      using cj(3) Li(3,4) L unfolding voids_remove [OF sep b] by auto
  qed (use blocks len in \<open>auto simp: roots_def\<close>)
  moreover have "hd_size m3 (of_nat s) = of_nat n"
  proof -
    have "ld32 m3 (of_nat (s + 4)) = ld32 m2 (of_nat (s + 4))"
      unfolding m3_def using sepdD(2) [OF sep b]
      by (intro ld32_same [OF heap_block_erase_ok [OF sepdD(2) [OF sep b] sz]]) auto
    then show ?thesis using sz by (simp add: hd_size_def)
  qed
  ultimately show ?thesis using run keep rem by auto
qed

text \<open>Writes outside every block, and used blocks going out of or into the account.\<close>

lemma hcore_outside:
  assumes sep: "sepd B" and c: "hcore h L B" and ch: "chg S (hmem h) m'"
    and out: "\<And>b y. b \<in> B \<Longrightarrow> y \<in> S \<Longrightarrow> y < fst b \<or> bend b \<le> y"
  shows "hcore (h\<lparr> hmem := m' \<rparr>) L B" "keeps B (hmem h) m'"
proof -
  have blocks: "block_ok m' b" if b: "b \<in> B" for b
  proof (rule block_ok_chg [OF ch])
    fix y assume "y \<in> S"
    then show "y \<notin> hdrs b" using out [OF b] by (cases b) (force simp: hdrs_def)
  qed (use b c sep in \<open>auto simp: hcore_def sepd_def\<close>)
  have "dls m' 0 (L i) 0" if i: "i < 30" for i
  proof (rule dls_chg [OF ch])
    have Li: "set (L i) = voids i B" using c i by (simp add: hcore_def)
    fix x assume x: "x \<in> set (L i)"
    then obtain n where n: "(x, n, False) \<in> B" using Li by (auto simp: voids_def)
    then show "y < x + 8 \<or> x + 16 \<le> y" if "y \<in> S" for y using out [OF n that] by auto
    show "x + 16 \<le> 2 ^ 32" using sepdD(2) [OF sep n] by simp
  qed (use c i in \<open>simp add: hcore_def\<close>)
  then show "hcore (h\<lparr> hmem := m' \<rparr>) L B" using c blocks by (simp add: hcore_def)
  show "keeps B (hmem h) m'"
  proof (rule keeps_chg [OF ch _ sep])
    fix b y assume "b \<in> B" "y \<in> S"
    then show "y \<notin> {fst b + 16..<fst b + 16 + fst (snd b)}" using out [of b y] by (auto simp: bend_def)
  qed
qed

lemma voids_used: "voids i (insert (s, n, True) B) = voids i B" "voids i (B - {(s, n, True)}) = voids i B"
  by (auto simp: voids_def)

lemma hcore_forget: "hcore h L B \<Longrightarrow> hcore h L (B - {(s, n, True)})"
  by (simp add: hcore_def voids_used)

lemma hcore_used: "hcore h L B \<Longrightarrow> block_ok (hmem h) (s, n, True) \<Longrightarrow> hcore h L (insert (s, n, True) B)"
  by (simp add: hcore_def voids_used del: block_ok.simps)

lemma sepd_out:
  assumes "sepd (insert b B)" "b \<notin> B" "b' \<in> B" "fst b \<le> y" "y < bend b"
  shows "y < fst b' \<or> bend b' \<le> y"
proof -
  have "bend b \<le> fst b' \<or> bend b' \<le> fst b" using assms(1-3) by (auto simp: sepd_def)
  with assms(4,5) show ?thesis by linarith
qed

lemma hdrs_bounds: "y \<in> hdrs (s, n, u) \<Longrightarrow> s \<le> y \<and> y < s + 24 + n"
  by (auto simp: hdrs_def)

text \<open>A new used block in free space.\<close>

lemma create_data_core:
  assumes sep: "sepd (insert (s, n, True) B)" and c: "hcore h L B" and nb: "(s, n, True) \<notin> B"
  shows "hcore (h\<lparr> hmem := create_data_block (hmem h) (of_nat s) (of_nat n) \<rparr>) L (insert (s, n, True) B)"
    "keeps B (hmem h) (create_data_block (hmem h) (of_nat s) (of_nat n))"
proof -
  have b: "s + 24 + n \<le> 2 ^ 32" using sepdD(2) [OF sep, of s n True] by simp
  note ok = create_data_block_ok [OF b, of "hmem h"]
  have sB: "sepd B" by (rule sepd_mono [OF sep]) blast
  have out: "y < fst b' \<or> bend b' \<le> y" if "b' \<in> B" "y \<in> hdrs (s, n, True)" for b' y
    by (rule sepd_out [OF sep nb that(1)]) (use hdrs_bounds [OF that(2)] in simp_all)
  from hcore_outside [OF sB c ok(2) out] ok(1)
  show "hcore (h\<lparr> hmem := create_data_block (hmem h) (of_nat s) (of_nat n) \<rparr>) L (insert (s, n, True) B)"
    "keeps B (hmem h) (create_data_block (hmem h) (of_nat s) (of_nat n))"
    by (auto intro!: hcore_used simp del: block_ok.simps)
qed

text \<open>The signatures of a used block are wiped.\<close>

lemma erase_used_core:
  assumes sep: "sepd B" and c: "hcore h L B" and b: "(s, n, True) \<in> B"
  shows "hcore (h\<lparr> hmem := heap_block_erase (hmem h) (of_nat s) \<rparr>) L (B - {(s, n, True)})"
    "keeps (B - {(s, n, True)}) (hmem h) (heap_block_erase (hmem h) (of_nat s))"
    "hd_size (heap_block_erase (hmem h) (of_nat s)) (of_nat s) = of_nat n"
proof -
  let ?B = "B - {(s, n, True)}"
  have sz: "ld32 (hmem h) (of_nat (s + 4)) = of_nat n" using c b by (fastforce simp: hcore_def)
  note ch = heap_block_erase_ok [OF sepdD(2) [OF sep b] sz]
  have sB: "sepd ?B" by (rule sepd_mono [OF sep]) blast
  have out: "y < fst b' \<or> bend b' \<le> y" if "b' \<in> ?B" "y \<in> {s..<s + 4} \<union> {s + 16 + n..<s + 20 + n}" for b' y
    by (rule sepd_out [of "(s, n, True)" ?B]) (use that b sep in \<open>auto simp: insert_absorb\<close>)
  from hcore_outside [OF sB hcore_forget [OF c] ch out]
  show "hcore (h\<lparr> hmem := heap_block_erase (hmem h) (of_nat s) \<rparr>) L ?B"
    "keeps ?B (hmem h) (heap_block_erase (hmem h) (of_nat s))" by simp_all
  have "ld32 (heap_block_erase (hmem h) (of_nat s)) (of_nat (s + 4)) = ld32 (hmem h) (of_nat (s + 4))"
    by (rule ld32_same [OF ch]) (use sepdD(2) [OF sep b] in auto)
  then show "hd_size (heap_block_erase (hmem h) (of_nat s)) (of_nat s) = of_nat n"
    using sz by (simp add: hd_size_def)
qed

lemma add_begin_core:
  assumes sep: "sepd (insert (s, n, False) B)" and nb: "(s, n, False) \<notin> B" and c: "hcore h L B"
    and ok: "block_ok (hmem h) (s, n, False)" and l0: "ld32 (hmem h) (of_nat (s + 8)) = 0" and i: "vidx n < 30"
  shows "\<exists>h'. heap_void_bucket_add_begin (vidx n) (of_nat s) h = Inr h' \<and>
    hcore h' (L(vidx n := s # L (vidx n))) (insert (s, n, False) B) \<and> keeps (insert (s, n, False) B) (hmem h) (hmem h')"
proof -
  let ?i = "vidx n" and ?m = "hmem h" and ?B = "insert (s, n, False) B"
  have Li: "heap_void_bucket_root h ! ?i = hd0 (L ?i) 0" "dls ?m 0 (L ?i) 0" "distinct (L ?i)" "set (L ?i) = voids ?i B"
    and len: "length (heap_void_bucket_root h) = 30" and okB: "\<forall>b \<in> B. block_ok ?m b"
    using c i by (auto simp: hcore_def)
  have vs: "voids j ?B = (if j = ?i then insert s (voids j B) else voids j B)" for j
    by (auto simp: voids_def)
  have ap: "apart (set (s # L ?i))" using voids_apart [OF sep, of ?i] Li(4) vs by simp
  have sn: "s \<notin> set (L ?i)"
  proof
    assume "s \<in> set (L ?i)"
    then obtain k where "(s, k, False) \<in> B" using Li(4) by (auto simp: voids_def)
    with sepd_start [OF sep, of s n False k False] nb show False by auto
  qed
  note A = apartD [OF ap]
  have sb: "s + 16 \<le> 2 ^ 32" using A(2) [of s] by simp
  define m1 where "m1 = st32 ?m (of_nat (s + 12)) (hd0 (L ?i) 0)"
  have c1: "chg {s + 12..<s + 12 + 4} ?m m1" unfolding m1_def by (rule chg_st32) (use sb in auto)
  have r: "ld32 m1 (of_nat (s + 12)) = hd0 (L ?i) 0" unfolding m1_def by (rule ld32_st32)
  define m2 where "m2 = (if ld32 m1 (of_nat (s + 12)) \<noteq> 0 then st32 m1 (ld32 m1 (of_nat (s + 12)) + 8) (of_nat s) else m1)"
  have d1: "dls m1 0 (L ?i) 0"
    by (rule dls_chg [OF c1 _ _ Li(2)]) (use A(2,3) sn in \<open>fastforce+\<close>)
  have 2: "chg (links (set (L ?i))) m1 m2 \<and> dls m2 (of_nat s) (L ?i) 0"
  proof (cases "L ?i")
    case Nil
    then show ?thesis using r by (simp add: m2_def)
  next
    case (Cons x xs)
    have "of_nat x \<noteq> (0 :: u32)" using apart_nonzero [OF ap, of x] Cons by simp
    then have e: "m2 = st32 m1 (of_nat (x + 8)) (of_nat s)" using r Cons by (simp add: m2_def)
    have "chg {x + 8..<x + 8 + 4} m1 m2" unfolding e by (rule chg_st32) (use A(2) [of x] Cons in auto)
    moreover have "dls m2 (of_nat s) (x # xs) 0"
      unfolding e by (rule dls_set_head) (use d1 Cons A Li(3) in auto)
    ultimately show ?thesis using Cons by (auto simp: in_links intro: chg_mono)
  qed
  have ch: "chg (links (set (s # L ?i))) ?m m2"
    by (rule chg_mono [OF chg_trans [OF c1 conjunct1 [OF 2]]]) (auto simp: links_def)
  have Sh: "y \<in> links (set (s # L ?i)) \<Longrightarrow> \<exists>x. x \<in> voids ?i ?B \<and> y \<in> {x + 8..<x + 16}" for y
    using Li(4) vs by (auto simp: in_links)
  have keep: "keeps ?B ?m m2"
  proof (rule keeps_chg [OF ch _ sep])
    fix b' y assume b': "b' \<in> ?B" "y \<in> links (set (s # L ?i))"
    with Sh show "y \<notin> {fst b' + 16..<fst b' + 16 + fst (snd b')}" using sepd_links_hdrs(2) [OF sep b'(1)] by blast
  qed
  have blocks: "block_ok m2 b" if b: "b \<in> ?B" for b
  proof (rule block_ok_chg [OF ch])
    fix y assume "y \<in> links (set (s # L ?i))"
    with Sh show "y \<notin> hdrs b" using sepd_links_hdrs(1) [OF sep b] by blast
  qed (use b okB ok sep in \<open>auto simp: sepd_def simp del: block_ok.simps\<close>)
  let ?roots = "(heap_void_bucket_root h)[?i := of_nat s]"
  have run: "heap_void_bucket_add_begin ?i (of_nat s) h = Inr \<lparr> hmem = m2, heap_void_bucket_root = ?roots \<rparr>"
    using i len Li(1) unfolding heap_void_bucket_add_begin_def Let_def m2_def m1_def by (simp add: hd_right_def)
  have di: "dls m2 0 (s # L ?i) 0"
  proof -
    have S2: "y < s + 8 \<or> s + 16 \<le> y" if "y \<in> links (set (L ?i))" for y
      using that A(3) [of _ s] sn by (fastforce simp: in_links)
    have 1: "ld32 m2 (of_nat (s + 8)) = ld32 m1 (of_nat (s + 8))" "ld32 m2 (of_nat (s + 12)) = ld32 m1 (of_nat (s + 12))"
      using S2 sb by (fastforce intro!: ld32_same [OF conjunct1 [OF 2]] simp del: of_nat_add)+
    have "ld32 m1 (of_nat (s + 8)) = ld32 ?m (of_nat (s + 8))" by (rule ld32_same [OF c1]) (use sb in auto)
    with 1 r l0 2 show ?thesis by (simp del: of_nat_add)
  qed
  have dj: "dls m2 0 (L j) 0" if j: "j < 30" "j \<noteq> ?i" for j
  proof -
    have Lj: "dls ?m 0 (L j) 0" "set (L j) = voids j B" using c j by (auto simp: hcore_def)
    show ?thesis
    proof (rule dls_chg [OF ch _ _ Lj(1)])
      fix x y assume x: "x \<in> set (L j)" and y: "y \<in> links (set (s # L ?i))"
      from x Lj(2) obtain k where k: "(x, k, False) \<in> ?B" "vidx k = j" by (auto simp: voids_def)
      obtain z where z: "z \<in> voids ?i ?B" "y \<in> {z + 8..<z + 16}" using Sh [OF y] by blast
      then obtain l where l: "(z, l, False) \<in> ?B" "vidx l = ?i" by (auto simp: voids_def)
      then have "z \<noteq> x" using sepd_start [OF sep l(1), of k] k j by auto
      then show "y < x + 8 \<or> x + 16 \<le> y" using sepdD(3) [OF sep l(1) k(1)] z by auto
    next
      fix x assume "x \<in> set (L j)"
      then have "x \<in> voids j ?B" using Lj(2) vs j by simp
      then show "x + 16 \<le> 2 ^ 32" by (rule apartD(2) [OF voids_apart [OF sep]])
    qed
  qed
  have "hcore \<lparr> hmem = m2, heap_void_bucket_root = ?roots \<rparr> (L(?i := s # L ?i)) ?B"
    unfolding hcore_def
  proof (intro conjI allI impI)
    fix j assume j: "j < (30 :: nat)"
    have cj: "heap_void_bucket_root h ! j = hd0 (L j) 0" "distinct (L j)" "set (L j) = voids j B"
      using c j by (auto simp: hcore_def)
    show "dls (hmem \<lparr> hmem = m2, heap_void_bucket_root = ?roots \<rparr>) 0 ((L(?i := s # L ?i)) j) 0"
      using di dj [OF j] by simp
    show "heap_void_bucket_root \<lparr> hmem = m2, heap_void_bucket_root = ?roots \<rparr> ! j = hd0 ((L(?i := s # L ?i)) j) 0"
      using cj len i by simp
    show "distinct ((L(?i := s # L ?i)) j)" using cj sn Li(3) by auto
    show "set ((L(?i := s # L ?i)) j) = voids j ?B" using cj(3) vs Li(4) by auto
  qed (use blocks len in auto)
  then show ?thesis using run keep by auto
qed

lemma add_void_core:
  assumes sep: "sepd (insert (s, n, False) B)" and nb: "(s, n, False) \<notin> B" and c: "hcore h L B" and i: "vidx n < 30"
  shows "\<exists>h'. heap_add_void (of_nat s) (of_nat n) h = Inr h' \<and>
    hcore h' (L(vidx n := s # L (vidx n))) (insert (s, n, False) B) \<and> keeps B (hmem h) (hmem h')"
proof -
  have b: "s + 24 + n \<le> 2 ^ 32" using sepdD(2) [OF sep, of s n False] by simp
  let ?m = "create_void_block_default (hmem h) (of_nat s) (of_nat n)"
  note ok = create_void_block_ok [OF b, of "hmem h"]
  have sB: "sepd B" by (rule sepd_mono [OF sep]) blast
  have out: "y < fst b' \<or> bend b' \<le> y" if "b' \<in> B" "y \<in> hdrs (s, n, False) \<union> {s + 8..<s + 16}" for b' y
    by (rule sepd_out [OF sep nb that(1)]) (use that(2) hdrs_bounds in \<open>force+\<close>)
  note o = hcore_outside [OF sB c ok(3) out]
  obtain h' where h': "heap_void_bucket_add_begin (vidx n) (of_nat s) (h\<lparr> hmem := ?m \<rparr>) = Inr h'"
    "hcore h' (L(vidx n := s # L (vidx n))) (insert (s, n, False) B)" "keeps (insert (s, n, False) B) ?m (hmem h')"
    using add_begin_core [OF sep nb o(1) _ _ i] ok(1,2) by (auto simp del: block_ok.simps of_nat_add)
  have "hd_size ?m (of_nat s) = of_nat n" using ok(1) by (simp add: hd_size_def)
  then have "heap_add_void (of_nat s) (of_nat n) h = Inr h'"
    using h'(1) by (simp add: heap_add_void_def Let_def vidx_def)
  moreover have "keeps B (hmem h) (hmem h')"
    by (rule keeps_mono [OF keeps_trans [OF _ h'(3)]]) (use o(2) in auto)
  ultimately show ?thesis using h'(2) by blast
qed

end
