(* ===== verification/Heap_Correct.thy ===== *)
theory Heap_Correct
  imports Heap_Blocks
begin

text \<open>
  Correctness of the allocator: the heap invariant (blocks tile the heap, the bucket lists hold
  exactly the free blocks of their sizes, no two free blocks are neighbours) is kept by every entry
  point, an allocation is disjoint from every live one and large enough, live contents survive, and
  an allocation fails only when no free block is large enough.
\<close>

unbundle bit_operations_syntax

section \<open>Bucket indices\<close>

lemma clz32_upper: "unat w < 2 ^ (32 - clz32 w)"
proof -
  have "\<not> bit w j" if "j < 32" "32 - clz32 w \<le> j" for j
  proof -
    have j: "31 - j < clz32 w" "31 - (31 - j) = j" using that by auto
    have "[0..<32] ! (31 - j) \<in> set (takeWhile (\<lambda>i. \<not> bit w (31 - i)) [0..<32])"
      using nth_mem [OF j(1) [unfolded clz32_def]] by (simp add: takeWhile_nth j(1) [unfolded clz32_def])
    then have "\<not> bit w (31 - ([0..<32] ! (31 - j)))" by (rule set_takeWhileD [THEN conjunct2])
    moreover have "[0..<32] ! (31 - j) = 31 - j" using that(1) by (simp add: nth_upt)
    ultimately show ?thesis using j(2) by metis
  qed
  then have "take_bit (32 - clz32 w) w = w"
    by (intro bit_word_eqI) (auto simp: bit_take_bit_iff linorder_not_less [symmetric])
  then have "unat w = take_bit (32 - clz32 w) (unat w)" by (metis unsigned_take_bit_eq)
  then show ?thesis by (metis take_bit_nat_less_exp)
qed

lemma clz32_lower: "w \<noteq> 0 \<Longrightarrow> clz32 w < 32 \<and> 2 ^ (31 - clz32 w) \<le> unat w"
proof -
  assume w: "w \<noteq> 0"
  let ?l = "takeWhile (\<lambda>i. \<not> bit w (31 - i)) [0..<32]"
  obtain n where n: "bit w n" using w by (auto simp: bit_eq_iff)
  then have "n < 32" using bit_imp_le_length by fastforce
  with n have "\<not> (\<forall>x \<in> set [0..<32]. \<not> bit w (31 - x))" by (auto intro!: bexI [of _ "31 - n"])
  then have lt: "length ?l < length [0..<32::nat]" by (rule length_takeWhile_less')
  from nth_length_takeWhile [OF lt] lt have "bit w (31 - clz32 w)" by (simp add: clz32_def)
  then have b: "bit (unat w) (31 - clz32 w)" by (simp add: bit_unsigned_iff)
  have "2 ^ (31 - clz32 w) \<le> unat w"
  proof (rule ccontr)
    assume "\<not> 2 ^ (31 - clz32 w) \<le> unat w"
    then have "unat w div 2 ^ (31 - clz32 w) = 0" by simp
    with b show False by (simp add: bit_iff_odd)
  qed
  with lt show ?thesis by (simp add: clz32_def)
qed

lemma clz32_antimono: "v \<noteq> 0 \<Longrightarrow> v \<le> w \<Longrightarrow> clz32 w \<le> clz32 v"
proof (rule ccontr)
  assume v: "v \<noteq> 0" "v \<le> w" and "\<not> clz32 w \<le> clz32 v"
  then have "32 - clz32 w \<le> 31 - clz32 v" by simp
  then have "(2 :: nat) ^ (32 - clz32 w) \<le> 2 ^ (31 - clz32 v)" by (rule power_increasing) simp
  with clz32_lower [OF v(1)] clz32_upper [of w] v(2) show False by (simp add: word_le_nat_alt)
qed

lemma index_mono: "a \<le> b \<Longrightarrow> get_void_block_size_index a \<le> get_void_block_size_index b"
proof -
  assume ab: "a \<le> b"
  show ?thesis
  proof (cases "a \<le> 1")
    case True
    then show ?thesis by (simp add: get_void_block_size_index_def)
  next
    case False
    then have a: "1 < unat a" "unat a \<le> unat b" using ab by (simp_all add: word_le_nat_alt not_le)
    have "unat (a - 1) = unat a - 1" "unat (b - 1) = unat b - 1"
      using a by (simp_all add: unat_sub word_le_nat_alt)
    then have "a - 1 \<noteq> 0" "a - 1 \<le> b - 1" using a by (auto simp: word_le_nat_alt unat_eq_0 [symmetric] simp del: unat_eq_0)
    then have "clz32 (b - 1) \<le> clz32 (a - 1)" by (rule clz32_antimono)
    moreover have "\<not> b \<le> 1" using a by (auto simp: word_le_nat_alt)
    ultimately show ?thesis using False by (simp add: get_void_block_size_index_def diff_le_mono2)
  qed
qed

lemma index_bound: "unat a \<le> 2 ^ k \<Longrightarrow> k < 32 \<Longrightarrow> get_void_block_size_index a \<le> k"
proof (cases "a \<le> 1")
  case False
  assume k: "unat a \<le> 2 ^ k" "k < 32"
  have a: "1 < unat a" using False by (simp add: word_le_nat_alt not_le)
  then have u: "unat (a - 1) = unat a - 1" by (simp add: unat_sub word_le_nat_alt)
  with a have "a - 1 \<noteq> 0" by (metis unat_0 zero_less_diff less_numeral_extra(3))
  from clz32_lower [OF this] have "2 ^ (31 - clz32 (a - 1)) \<le> unat a - 1" unfolding u by simp
  with k(1) a have "2 ^ (31 - clz32 (a - 1)) < (2 :: nat) ^ k" by linarith
  then have "31 - clz32 (a - 1) < k" by (rule power_less_imp_less_exp [rotated]) simp
  then show ?thesis using False by (simp add: get_void_block_size_index_def)
qed (simp add: get_void_block_size_index_def)

lemma vidx_mono: "unat z \<le> n \<Longrightarrow> n < 2 ^ 32 \<Longrightarrow> get_void_block_size_index z \<le> vidx n"
  unfolding vidx_def by (rule index_mono) (simp add: word_le_nat_alt unat_of_nat)

lemma vidx_bound: "n \<le> 2 ^ 26 \<Longrightarrow> vidx n < 30"
proof -
  assume "n \<le> 2 ^ 26"
  then have "get_void_block_size_index (of_nat n) \<le> 26" by (intro index_bound) (simp_all add: unat_of_nat)
  then show ?thesis by (simp add: vidx_def)
qed

section \<open>The heap with a hole\<close>

definition KS :: nat where "KS = unat KHEAP_START"
definition KE :: nat where "KE = unat KHEAP_END"

lemma KS_KE: "0 < KS" "KE \<le> 2 ^ 32" "KE \<le> KS + 2 ^ 26" "KS = 0xC0400000" "KE = 0xC4000000"
  by (simp_all add: KS_def KE_def KHEAP_START_def KHEAP_END_def RAM_VIRTUAL_START_def)

text \<open>Blocks \<open>xs\<close> tile the heap up to \<open>lo\<close> and \<open>ys\<close> from \<open>hi\<close> on; the memory between is free for use.\<close>

definition hrel :: "heap_t \<Rightarrow> (nat \<Rightarrow> nat list) \<Rightarrow> block list \<Rightarrow> nat \<Rightarrow> nat \<Rightarrow> block list \<Rightarrow> bool" where
  "hrel h L xs lo hi ys = (tile KS xs lo \<and> lo \<le> hi \<and> tile hi ys KE \<and> hcore h L (set xs \<union> set ys))"

lemma hrelD: "hrel h L xs lo hi ys \<Longrightarrow> tile KS xs lo" "hrel h L xs lo hi ys \<Longrightarrow> lo \<le> hi"
  "hrel h L xs lo hi ys \<Longrightarrow> tile hi ys KE" "hrel h L xs lo hi ys \<Longrightarrow> hcore h L (set xs \<union> set ys)"
  by (simp_all add: hrel_def)

lemma gap_sepd:
  assumes "tile KS xs lo" "lo \<le> hi" "tile hi ys KE"
  shows "sepd (set xs \<union> set ys)"
  unfolding sepd_def
proof (intro conjI ballI impI)
  fix b assume b: "b \<in> set xs \<union> set ys"
  obtain s n u where bb: "b = (s, n, u)" by (cases b)
  have "KS \<le> s \<and> s + 24 + n \<le> KE"
    using b tile_mem [OF assms(1), of s n u] tile_mem [OF assms(3), of s n u] tile_le [OF assms(3)] tile_le [OF assms(1)] assms(2)
    unfolding bb by auto
  then show "0 < fst b" "bend b \<le> 2 ^ 32" using KS_KE by (simp_all add: bb)
  fix b' assume b': "b' \<in> set xs \<union> set ys" "b \<noteq> b'"
  obtain s' n' u' where bb': "b' = (s', n', u')" by (cases b')
  have one: "s + 24 + n \<le> s' \<or> s' + 24 + n' \<le> s"
    if "tile l zs r" "(s, n, u) \<in> set zs" "(s', n', u') \<in> set zs" for l zs r
  proof -
    have "s \<noteq> s'" using tile_unique [OF that(1,2), of n' u'] that(3) b'(2) bb bb' by auto
    then show ?thesis
      using tile_disjoint [OF that(1,2,3)] tile_disjoint [OF that(1,3,2)] by (metis linorder_neqE_nat)
  qed
  show "bend b \<le> fst b' \<or> bend b' \<le> fst b"
    using b b'(1) one [OF assms(1)] one [OF assms(3)] tile_mem [OF assms(1)] tile_mem [OF assms(3)] assms(2)
    unfolding bb bb' by (fastforce simp del: tile.simps)
qed

lemma gap_insert:
  assumes "tile KS xs lo" "lo \<le> s" "s + 24 + n \<le> hi" "tile hi ys KE"
  shows "sepd (insert (s, n, u) (set xs \<union> set ys))" "(s, n, u) \<notin> set xs \<union> set ys"
proof -
  have t: "tile s ((s, n, u) # []) (s + 24 + n)" by simp
  have b: "0 < s \<and> s + 24 + n \<le> 2 ^ 32"
    using tile_le [OF assms(1)] tile_le [OF assms(4)] assms(2,3) KS_KE by linarith
  show "(s, n, u) \<notin> set xs \<union> set ys"
    using tile_mem [OF assms(1), of s n u] tile_mem [OF assms(4), of s n u] assms(2,3) by fastforce
  have o: "bend (s, n, u) \<le> fst b' \<or> bend b' \<le> fst (s, n, u)" if "b' \<in> set xs \<union> set ys" for b'
    using that tile_mem [OF assms(1), of "fst b'" "fst (snd b')" "snd (snd b')"]
      tile_mem [OF assms(4), of "fst b'" "fst (snd b')" "snd (snd b')"] assms(2,3) by (auto simp: bend_def)
  have "lo \<le> hi" using assms(2,3) by linarith
  from gap_sepd [OF assms(1) this assms(4)] b o show "sepd (insert (s, n, u) (set xs \<union> set ys))"
    unfolding sepd_def by (auto simp: disj_commute)
qed

lemma hrel_sepd: "hrel h L xs lo hi ys \<Longrightarrow> sepd (set xs \<union> set ys)"
  by (rule gap_sepd) (auto simp: hrel_def)

lemma hrel_not_in:
  assumes "hrel h L xs lo hi (b # ys)"
  shows "set xs \<union> set (b # ys) - {b} = set xs \<union> set ys" "fst b = hi" "bend b \<le> KE"
proof -
  obtain s n u where b: "b = (s, n, u)" by (cases b)
  have t: "s = hi" "tile KS xs lo" "tile (s + 24 + n) ys KE" "lo \<le> hi" using assms by (auto simp: hrel_def b)
  have "b \<notin> set xs \<union> set ys" using gap_insert(2) [OF t(2) _ _ t(3), of s n u] t(1,4) b by simp
  then show "set xs \<union> set (b # ys) - {b} = set xs \<union> set ys" by auto
  show "fst b = hi" "bend b \<le> KE" using t tile_le [OF t(3)] by (simp_all add: b)
qed

lemma hrel_shift: "hrel h L xs lo lo (b # ys) \<longleftrightarrow> hrel h L (xs @ [b]) (bend b) (bend b) ys \<and> fst b = lo"
  by (cases b) (auto simp: hrel_def tile_snoc insert_commute)

lemma hrel_append: "hrel h L xs lo lo (ys @ zs) \<Longrightarrow> \<exists>mid. hrel h L (xs @ ys) mid mid zs"
proof (induction ys arbitrary: xs lo)
  case (Cons b ys)
  then have "hrel h L (xs @ [b]) (bend b) (bend b) (ys @ zs)" using hrel_shift by simp
  from Cons.IH [OF this] show ?case by simp
qed auto

lemma hrel_append_left: "hrel h L (xs @ ys) lo lo zs \<Longrightarrow> \<exists>mid. hrel h L xs mid mid (ys @ zs)"
proof (induction ys arbitrary: lo zs rule: rev_induct)
  case (snoc b ys)
  obtain s n u where b: "b = (s, n, u)" by (cases b)
  have "hrel h L (xs @ ys) s s (b # zs)" using snoc.prems by (auto simp: hrel_def tile_snoc b insert_commute
      simp flip: append_assoc)
  from snoc.IH [OF this] show ?case by simp
qed auto

text \<open>Opening and filling the hole.\<close>

lemma open_void:
  assumes "hrel h L xs lo hi ((s, n, False) # ys)"
  shows "\<exists>h' L'. heap_void_bucket_erase (vidx n) (of_nat s) h = Inr h' \<and>
    hrel h' L' xs lo (s + 24 + n) ys \<and> keeps (set xs \<union> set ys) (hmem h) (hmem h')"
proof -
  note d = hrelD [OF assms] and ni = hrel_not_in [OF assms]
  have "n \<le> 2 ^ 26" using ni(2,3) d(2) tile_le [OF d(1)] KS_KE by simp
  from bucket_erase_core [OF hrel_sepd [OF assms] d(4) _ vidx_bound [OF this], of s]
  obtain h' where "heap_void_bucket_erase (vidx n) (of_nat s) h = Inr h'"
    "hcore h' (L(vidx n := remove1 s (L (vidx n)))) (set xs \<union> set ys)" "keeps (set xs \<union> set ys) (hmem h) (hmem h')"
    unfolding ni(1) by auto
  moreover have "tile (s + 24 + n) ys KE" "lo \<le> s" using d by auto
  ultimately show ?thesis using d by (auto simp: hrel_def)
qed

lemma open_void_left:
  assumes "hrel h L (xs @ [(s, n, False)]) lo hi ys"
  shows "\<exists>h' L'. heap_void_bucket_erase (vidx n) (of_nat s) h = Inr h' \<and>
    hrel h' L' xs s hi ys \<and> keeps (set xs \<union> set ys) (hmem h) (hmem h')"
proof -
  note d = hrelD [OF assms]
  have t: "tile KS xs s" "lo = s + 24 + n" using d(1) by (auto simp: tile_snoc)
  have nb: "(s, n, False) \<notin> set xs \<union> set ys" by (rule gap_insert(2) [OF t(1) _ _ d(3)]) (use t d in auto)
  have "n \<le> 2 ^ 26" using t d(2) tile_le [OF t(1)] tile_le [OF d(3)] KS_KE by simp
  from bucket_erase_core [OF hrel_sepd [OF assms] d(4) _ vidx_bound [OF this], of s]
  obtain h' where "heap_void_bucket_erase (vidx n) (of_nat s) h = Inr h'"
    "hcore h' (L(vidx n := remove1 s (L (vidx n)))) (set xs \<union> set ys)" "keeps (set xs \<union> set ys) (hmem h) (hmem h')"
    using nb by (auto simp: Un_insert_left)
  then show ?thesis using d t by (auto simp: hrel_def)
qed

lemma open_used:
  assumes "hrel h L xs lo hi ((s, n, True) # ys)"
  shows "hrel (h\<lparr> hmem := heap_block_erase (hmem h) (of_nat s) \<rparr>) L xs lo (s + 24 + n) ys"
    "keeps (set xs \<union> set ys) (hmem h) (heap_block_erase (hmem h) (of_nat s))"
    "hd_size (heap_block_erase (hmem h) (of_nat s)) (of_nat s) = of_nat n"
proof -
  note d = hrelD [OF assms] and ni = hrel_not_in [OF assms]
  from erase_used_core [OF hrel_sepd [OF assms] d(4), of s n] d
  show "hrel (h\<lparr> hmem := heap_block_erase (hmem h) (of_nat s) \<rparr>) L xs lo (s + 24 + n) ys"
    "keeps (set xs \<union> set ys) (hmem h) (heap_block_erase (hmem h) (of_nat s))"
    "hd_size (heap_block_erase (hmem h) (of_nat s)) (of_nat s) = of_nat n"
    unfolding ni(1) by (auto simp: hrel_def)
qed

lemma forget_left:
  assumes "hrel h L (xs @ [(s, n, True)]) lo hi ys"
  shows "hrel h L xs s hi ys"
proof -
  note d = hrelD [OF assms]
  have t: "tile KS xs s" "lo = s + 24 + n" using d(1) by (auto simp: tile_snoc)
  have nb: "(s, n, True) \<notin> set xs \<union> set ys" by (rule gap_insert(2) [OF t(1) _ _ d(3)]) (use t d in auto)
  from hcore_forget [OF d(4), of s n] nb d t show ?thesis by (auto simp: hrel_def)
qed

lemma fill_data_core:
  assumes "hrel h L xs lo hi ys" "lo \<le> s" "s + 24 + n \<le> hi"
  shows "hcore (h\<lparr> hmem := create_data_block (hmem h) (of_nat s) (of_nat n) \<rparr>) L (insert (s, n, True) (set xs \<union> set ys))"
    "keeps (set xs \<union> set ys) (hmem h) (create_data_block (hmem h) (of_nat s) (of_nat n))"
  using create_data_core [OF gap_insert(1) [OF hrelD(1) [OF assms(1)] assms(2,3) hrelD(3) [OF assms(1)]]
      hrelD(4) [OF assms(1)] gap_insert(2) [OF hrelD(1) [OF assms(1)] assms(2,3) hrelD(3) [OF assms(1)]]] by auto

lemma fill_data:
  assumes "hrel h L xs s hi ys" "s + 24 + n \<le> hi"
  shows "hrel (h\<lparr> hmem := create_data_block (hmem h) (of_nat s) (of_nat n) \<rparr>) L (xs @ [(s, n, True)]) (s + 24 + n) hi ys"
    "keeps (set xs \<union> set ys) (hmem h) (create_data_block (hmem h) (of_nat s) (of_nat n))"
  using fill_data_core [OF assms(1) _ assms(2)] hrelD [OF assms(1)] assms(2) by (auto simp: hrel_def tile_snoc)

lemma fill_data_right:
  assumes "hrel h L xs lo (s + 24 + n) ys" "lo \<le> s"
  shows "hrel (h\<lparr> hmem := create_data_block (hmem h) (of_nat s) (of_nat n) \<rparr>) L xs lo s ((s, n, True) # ys)"
    "keeps (set xs \<union> set ys) (hmem h) (create_data_block (hmem h) (of_nat s) (of_nat n))"
  using fill_data_core [OF assms] hrelD [OF assms(1)] assms(2) by (auto simp: hrel_def)

lemma fill_void:
  assumes "hrel h L xs s hi ys" "s + 24 + n \<le> hi"
  shows "\<exists>h' L'. heap_add_void (of_nat s) (of_nat n) h = Inr h' \<and>
    hrel h' L' (xs @ [(s, n, False)]) (s + 24 + n) hi ys \<and> keeps (set xs \<union> set ys) (hmem h) (hmem h')"
proof -
  note d = hrelD [OF assms(1)]
  have "n \<le> 2 ^ 26" using d(2) tile_le [OF d(1)] tile_le [OF d(3)] assms(2) KS_KE by simp
  from add_void_core [OF gap_insert(1) [OF d(1) order.refl assms(2) d(3)] gap_insert(2) [OF d(1) order.refl assms(2) d(3)] d(4)
      vidx_bound [OF this]]
  obtain h' where "heap_add_void (of_nat s) (of_nat n) h = Inr h'"
    "hcore h' (L(vidx n := s # L (vidx n))) (insert (s, n, False) (set xs \<union> set ys))"
    "keeps (set xs \<union> set ys) (hmem h) (hmem h')" by blast
  then show ?thesis using d assms(2) by (auto simp: hrel_def tile_snoc)
qed

section \<open>The invariant\<close>

definition used :: "block \<Rightarrow> bool" where "used b = snd (snd b)"

lemma used_simp [simp]: "used (s, n, u) = u"
  by (simp add: used_def)

definition live :: "block list \<Rightarrow> block set" where
  "live bs = {b \<in> set bs. used b}"

definition shape :: "block list \<Rightarrow> bool" where
  "shape bs = (successively (\<lambda>b c. used b \<or> used c) bs \<and> bs \<noteq> [] \<and> used (hd bs) \<and> used (last bs))"

definition heap_inv :: "heap_t \<Rightarrow> block list \<Rightarrow> bool" where
  "heap_inv h bs = (shape bs \<and> (\<exists>L. hrel h L bs KE KE []))"

lemma heap_inv_split: "heap_inv h (xs @ ys) \<Longrightarrow> \<exists>L mid. hrel h L xs mid mid ys"
proof -
  assume "heap_inv h (xs @ ys)"
  then obtain L where "hrel h L (xs @ ys) KE KE []" by (auto simp: heap_inv_def)
  from hrel_append_left [OF this] show ?thesis by auto
qed

lemma hrel_whole: "hrel h L xs lo lo ys \<Longrightarrow> hrel h L (xs @ ys) KE KE []"
proof -
  assume "hrel h L xs lo lo ys"
  then have "\<exists>mid. hrel h L (xs @ ys) mid mid []" by (intro hrel_append) simp
  then show ?thesis by (auto simp: hrel_def)
qed

lemma heap_invI: "hrel h L xs lo lo ys \<Longrightarrow> shape (xs @ ys) \<Longrightarrow> heap_inv h (xs @ ys)"
  unfolding heap_inv_def using hrel_whole by blast

lemma shape_middle:
  assumes "shape (xs @ (s, n, False) # ys)"
  shows "xs \<noteq> []" "ys \<noteq> []" "used (last xs)" "used (hd ys)"
proof -
  show x: "xs \<noteq> []" using assms by (auto simp: shape_def)
  show y: "ys \<noteq> []" using assms by (auto simp: shape_def)
  show "used (last xs)" "used (hd ys)"
    using assms x y by (auto simp: shape_def successively_append_iff successively_Cons)
qed

lemma shape_replace:
  assumes "shape (xs @ b # ys)" "successively (\<lambda>b c. used b \<or> used c) zs" "zs \<noteq> []"
    "xs \<noteq> [] \<Longrightarrow> used (last xs) \<or> used (hd zs)" "ys \<noteq> [] \<Longrightarrow> used (hd ys) \<or> used (last zs)"
    "xs = [] \<Longrightarrow> used (hd zs)" "ys = [] \<Longrightarrow> used (last zs)"
  shows "shape (xs @ zs @ ys)"
proof -
  have s: "successively (\<lambda>b c. used b \<or> used c) xs" "successively (\<lambda>b c. used b \<or> used c) ys"
    using assms(1) by (auto simp: shape_def successively_append_iff successively_Cons)
  have e: "ys \<noteq> [] \<Longrightarrow> used (last ys)" "xs \<noteq> [] \<Longrightarrow> used (hd xs)" using assms(1) by (auto simp: shape_def)
  show ?thesis
    using s e assms(2-7) by (cases "xs = []"; cases "ys = []") (auto simp: shape_def successively_append_iff)
qed

section \<open>malloc\<close>

lemma sint_diff: "a < 2 ^ 31 \<Longrightarrow> b < 2 ^ 31 \<Longrightarrow> sint (of_nat a - of_nat b :: u32) = int a - int b"
proof -
  assume ab: "a < 2 ^ 31" "b < 2 ^ 31"
  have "(of_nat a - of_nat b :: u32) = of_int (int a - int b)" by simp
  moreover have "sint (of_int (int a - int b) :: u32) = int a - int b"
    unfolding sint_sbintrunc' by (rule signed_take_bit_int_eq_self) (use ab in auto)
  ultimately show ?thesis by simp
qed

lemma find_in_bucket_list:
  assumes "apart (set xs)" "dls m p xs 0"
  shows "find_in_bucket m (hd0 xs 0) z =
    Some (case find (\<lambda>x. z \<le> hd_size m (of_nat x)) xs of None \<Rightarrow> 0 | Some x \<Rightarrow> of_nat x)"
  using assms
proof (induction xs arbitrary: p)
  case Nil
  then show ?case by (subst find_in_bucket.simps) simp
next
  case (Cons x xs)
  have nz: "(of_nat x :: u32) \<noteq> 0" using apart_nonzero [OF Cons.prems(1), of x] by simp
  have r: "hd_right m (of_nat x) = hd0 xs 0" using Cons.prems(2) by (simp add: hd_right_def)
  have "find_in_bucket m (hd0 xs 0) z =
    Some (case find (\<lambda>x. z \<le> hd_size m (of_nat x)) xs of None \<Rightarrow> 0 | Some x \<Rightarrow> of_nat x)"
    by (rule Cons.IH) (use Cons.prems apart_mono in auto)
  with nz show ?case by (subst find_in_bucket.simps) (simp add: r)
qed

lemma hrel_size:
  assumes "hrel h L xs lo hi ys" "(s, n, u) \<in> set xs \<union> set ys"
  shows "hd_size (hmem h) (of_nat s) = of_nat n" "hd_signature (hmem h) (of_nat s) = magic u"
    "n < 2 ^ 26" "unat (of_nat n :: u32) = n" "unat (of_nat s :: u32) = s" "KS \<le> s" "s + 24 + n \<le> KE"
proof -
  have ok: "block_ok (hmem h) (s, n, u)" using hrelD(4) [OF assms(1)] assms(2) by (auto simp: hcore_def simp del: block_ok.simps)
  then show "hd_size (hmem h) (of_nat s) = of_nat n" "hd_signature (hmem h) (of_nat s) = magic u"
    by (simp_all add: hd_size_def hd_signature_def)
  show b: "KS \<le> s" "s + 24 + n \<le> KE"
    using assms(2) tile_mem [OF hrelD(1) [OF assms(1)], of s n u] tile_mem [OF hrelD(3) [OF assms(1)], of s n u]
      tile_le [OF hrelD(1) [OF assms(1)]] tile_le [OF hrelD(3) [OF assms(1)]] hrelD(2) [OF assms(1)] by auto
  then show "n < 2 ^ 26" "unat (of_nat n :: u32) = n" "unat (of_nat s :: u32) = s"
    using KS_KE by (auto simp: unat_of_nat)
qed

text \<open>What an allocation of \<open>k\<close> bytes makes of a free block of \<open>n\<close> bytes.\<close>

definition carve :: "nat \<Rightarrow> nat \<Rightarrow> nat \<Rightarrow> block list" where
  "carve s n k = (if n \<le> k + 24 then [(s, n, True)] else [(s, k, True), (s + 24 + k, n - k - 24, False)])"

lemma carve_facts:
  "carve s n k \<noteq> []" "hd (carve s n k) = (s, if n \<le> k + 24 then n else k, True)"
  "successively (\<lambda>b c. used b \<or> used c) (carve s n k)"
  "live (carve s n k) = {(s, if n \<le> k + 24 then n else k, True)}"
  by (auto simp: carve_def live_def)

lemma SERVICE_24: "SERVICE_FIELDS_SIZE = 24"
  by (simp add: SERVICE_FIELDS_SIZE_def LEFT_EDGE_SIZE_def RIGHT_EDGE_SIZE_def)

lemma mem_bytes_prefix: "n \<le> k \<Longrightarrow> mem_bytes m' a k = mem_bytes m a k \<Longrightarrow> mem_bytes m' a n = mem_bytes m a n"
  by (auto simp: mem_bytes_def)

lemma carve_big:
  assumes h: "hrel h L xs s (s + 24 + n) ys" and k: "k + 24 < n"
  defines "h2 \<equiv> h\<lparr> hmem := create_data_block (hmem h) (of_nat s) (of_nat k) \<rparr>"
  shows "\<exists>h' L'. heap_add_void (get_block_end (hmem h2) (of_nat s)) (of_nat (n - k - 24)) h2 = Inr h' \<and>
    hrel h' L' (xs @ carve s n k) (s + 24 + n) (s + 24 + n) ys \<and> keeps (set xs \<union> set ys) (hmem h) (hmem h') \<and>
    mem_bytes (hmem h') (s + 16) k = mem_bytes (hmem h2) (s + 16) k"
proof -
  have nk: "s + 24 + k \<le> s + 24 + n" using k by auto
  note f = fill_data [OF h nk]
  have e: "get_block_end (hmem h2) (of_nat s) = of_nat (s + 24 + k)"
    using hrel_size(1) [OF f(1), of s k True] by (simp add: get_block_end_def SERVICE_24 h2_def)
  obtain h3 L3 where h3: "heap_add_void (of_nat (s + 24 + k)) (of_nat (n - k - 24)) h2 = Inr h3"
    "hrel h3 L3 ((xs @ [(s, k, True)]) @ [(s + 24 + k, n - k - 24, False)]) (s + 24 + k + 24 + (n - k - 24)) (s + 24 + n) ys"
    "keeps (set (xs @ [(s, k, True)]) \<union> set ys) (hmem h2) (hmem h3)"
    using fill_void [OF f(1), of "n - k - 24"] k unfolding h2_def by auto
  have "s + 24 + k + 24 + (n - k - 24) = s + 24 + n" using k by simp
  then have "hrel h3 L3 (xs @ carve s n k) (s + 24 + n) (s + 24 + n) ys"
    using h3(2) k by (simp only: carve_def append_assoc append_Cons append_Nil if_False not_le [symmetric] simp_thms)
  moreover have "keeps (set xs \<union> set ys) (hmem h) (hmem h3)"
    by (rule keeps_mono [OF keeps_trans [OF f(2) h3(3) [unfolded h2_def, simplified]]]) auto
  moreover have "mem_bytes (hmem h3) (s + 16) k = mem_bytes (hmem h2) (s + 16) k"
    using h3(3) by (auto simp: keeps_def payload_def)
  ultimately show ?thesis using h3(1) unfolding e by blast
qed

lemma take_void_block_ok:
  assumes h: "hrel h L xs lo lo ((s, n, False) # ys)" and k: "k \<le> n" "i = vidx n"
  shows "\<exists>h' L'. take_void_block (of_nat s) i (of_nat k) h = Inr (of_nat (s + 16), h') \<and>
    hrel h' L' (xs @ carve s n k) (s + 24 + n) (s + 24 + n) ys \<and> keeps (set xs \<union> set ys) (hmem h) (hmem h')"
proof -
  note z = hrel_size [OF h, of s n False, simplified]
  obtain h1 L1 where h1: "heap_void_bucket_erase i (of_nat s) h = Inr h1"
    "hrel h1 L1 xs lo (s + 24 + n) ys" "keeps (set xs \<union> set ys) (hmem h) (hmem h1)"
    using open_void [OF h] k(2) by blast
  have lo: "lo = s" using h by (auto simp: hrel_def)
  have d: "(of_nat n - of_nat k - 24 :: u32) = of_nat n - of_nat (k + 24)" by simp
  have left: "sint (of_nat n - of_nat k - 24 :: u32) = int n - int (k + 24)"
    unfolding d by (rule sint_diff) (use z(3) k in auto)
  have p: "get_data_ptr (of_nat s) = of_nat (s + 16)" by (simp add: get_data_ptr_def LEFT_EDGE_SIZE_def)
  note S = SERVICE_24
  show ?thesis
  proof (cases "n \<le> k + 24")
    case True
    note f = fill_data [OF h1(2) [unfolded lo], of n]
    have "take_void_block (of_nat s) i (of_nat k) h =
        Inr (of_nat (s + 16), h1\<lparr> hmem := create_data_block (hmem h1) (of_nat s) (of_nat n) \<rparr>)"
      using True by (simp add: take_void_block_def z(1) S left h1(1) p)
    moreover have "keeps (set xs \<union> set ys) (hmem h) (create_data_block (hmem h1) (of_nat s) (of_nat n))"
      using keeps_trans [OF h1(3) f(2)] by simp
    ultimately show ?thesis using f(1) True by (auto simp: carve_def)
  next
    case False
    then have kn: "k + 24 < n" by simp
    have v: "(of_nat n - of_nat k - 24 :: u32) = of_nat (n - k - 24)" using False by (simp add: of_nat_diff)
    note c = carve_big [OF h1(2) [unfolded lo] kn]
    let ?h2 = "h1\<lparr> hmem := create_data_block (hmem h1) (of_nat s) (of_nat k) \<rparr>"
    obtain h3 L3 where h3: "heap_add_void (get_block_end (hmem ?h2) (of_nat s)) (of_nat (n - k - 24)) ?h2 = Inr h3"
      "hrel h3 L3 (xs @ carve s n k) (s + 24 + n) (s + 24 + n) ys" "keeps (set xs \<union> set ys) (hmem h1) (hmem h3)"
      using c by blast
    have "take_void_block (of_nat s) i (of_nat k) h = Inr (of_nat (s + 16), h3)"
      unfolding take_void_block_def z(1) S Let_def left using False
      by (simp only: h1(1) rbind.simps v h3(1) p) simp
    moreover have "keeps (set xs \<union> set ys) (hmem h) (hmem h3)" using keeps_trans [OF h1(3) h3(3)] by simp
    ultimately show ?thesis using h3(2) by blast
  qed
qed

definition fits :: "block list \<Rightarrow> nat \<Rightarrow> bool" where
  "fits bs k = (\<exists>s n. (s, n, False) \<in> set bs \<and> k \<le> n)"

definition alloc_result :: "heap_t \<Rightarrow> block list \<Rightarrow> nat \<Rightarrow> u32 \<times> heap_t \<Rightarrow> bool" where
  "alloc_result h bs k = (\<lambda>(p, h'). \<exists>xs s n ys. bs = xs @ (s, n, False) # ys \<and> k \<le> n \<and> p = of_nat (s + 16) \<and>
     heap_inv h' (xs @ carve s n k @ ys) \<and> keeps (set xs \<union> set ys) (hmem h) (hmem h'))"

lemma malloc_scan_ok:
  assumes inv: "heap_inv h bs" and L: "hrel h L bs KE KE []" and k: "unat z = k"
  shows "set ids \<subseteq> {..<30} \<Longrightarrow>
    if \<exists>s n. (s, n, False) \<in> set bs \<and> vidx n \<in> set ids \<and> k \<le> n
    then \<exists>r. malloc_scan ids z h = Some (Inr r) \<and> alloc_result h bs k r
    else malloc_scan ids z h = Some (Inl (Panic ''BAD MALLOC''))"
proof (induction ids)
  case (Cons i ids)
  have i: "i < 30" using Cons.prems by simp
  have c: "heap_void_bucket_root h ! i = hd0 (L i) 0" "dls (hmem h) 0 (L i) 0" "set (L i) = voids i (set bs)"
    using hrelD(4) [OF L] i by (simp_all add: hcore_def)
  have ap: "apart (set (L i))" unfolding c(3) using hrel_sepd [OF L] by (auto intro: voids_apart)
  have zk: "z = of_nat k" using k by auto
  have le: "z \<le> hd_size (hmem h) (of_nat x) \<longleftrightarrow> k \<le> n" if "(x, n, False) \<in> set bs" for x n
    using hrel_size(1,4) [OF L, of x n False] that k by (simp add: word_le_nat_alt)
  show ?case
  proof (cases "find (\<lambda>x. z \<le> hd_size (hmem h) (of_nat x)) (L i)")
    case None
    then have t: "try_malloc_from_bucket (heap_void_bucket_root h ! i) i z h = Some (Inr (0, h))"
      using find_in_bucket_list [OF ap c(2), of z] by (simp add: try_malloc_from_bucket_def c(1))
    have "\<not> k \<le> n" if "(s, n, False) \<in> set bs" "vidx n = i" for s n
    proof -
      have "s \<in> set (L i)" using that c(3) by (auto simp: voids_def)
      with None le [OF that(1)] show ?thesis by (auto simp: find_None_iff)
    qed
    then have "(\<exists>s n. (s, n, False) \<in> set bs \<and> vidx n \<in> set (i # ids) \<and> k \<le> n) =
        (\<exists>s n. (s, n, False) \<in> set bs \<and> vidx n \<in> set ids \<and> k \<le> n)" by auto
    note e = this
    have s: "malloc_scan (i # ids) z h = malloc_scan ids z h" using t by simp
    show ?thesis using Cons.IH Cons.prems unfolding e s by simp
  next
    case (Some x)
    then have x: "x \<in> set (L i)" "z \<le> hd_size (hmem h) (of_nat x)" by (auto simp: find_Some_iff)
    then obtain n where n: "(x, n, False) \<in> set bs" "vidx n = i" using c(3) by (auto simp: voids_def)
    then have kn: "k \<le> n" using le x(2) by simp
    obtain xs ys where bs: "bs = xs @ (x, n, False) # ys" using n(1) by (meson split_list)
    obtain L0 mid where m: "hrel h L0 xs mid mid ((x, n, False) # ys)"
      using heap_inv_split inv unfolding bs by blast
    obtain h' L' where r: "take_void_block (of_nat x) i (of_nat k) h = Inr (of_nat (x + 16), h')"
      "hrel h' L' (xs @ carve x n k) (x + 24 + n) (x + 24 + n) ys" "keeps (set xs \<union> set ys) (hmem h) (hmem h')"
      using take_void_block_ok [OF m kn n(2) [symmetric]] by blast
    have nz: "(of_nat x :: u32) \<noteq> 0" using apart_nonzero [OF ap x(1)] .
    have nz2: "(of_nat (x + 16) :: u32) \<noteq> 0"
    proof -
      have "x + 16 < 2 ^ 32" using hrel_size(7) [OF L, of x n False] n(1) KS_KE by simp
      then have "unat (of_nat (x + 16) :: u32) = x + 16" by (simp only: unat_of_nat) simp
      then show ?thesis by (metis unat_0 add_is_0 zero_neq_numeral)
    qed
    have t: "try_malloc_from_bucket (heap_void_bucket_root h ! i) i z h = Some (Inr (of_nat (x + 16), h'))"
      using find_in_bucket_list [OF ap c(2), of z] Some nz r(1) by (simp add: try_malloc_from_bucket_def c(1) zk)
    have "shape (xs @ carve x n k @ ys)"
    proof (rule shape_replace)
      show "shape (xs @ (x, n, False) # ys)" using inv bs by (simp add: heap_inv_def)
      from shape_middle [OF this] show "xs = [] \<Longrightarrow> used (hd (carve x n k))" "ys = [] \<Longrightarrow> used (last (carve x n k))"
        "ys \<noteq> [] \<Longrightarrow> used (hd ys) \<or> used (last (carve x n k))" by auto
    qed (simp_all add: carve_facts)
    then have "alloc_result h bs k (of_nat (x + 16), h')"
      using bs kn heap_invI [OF r(2)] r(3) by (fastforce simp: alloc_result_def)
    then have "\<exists>r. malloc_scan (i # ids) z h = Some (Inr r) \<and> alloc_result h bs k r"
      using t nz2 by (auto simp del: of_nat_add)
    moreover have "\<exists>s n. (s, n, False) \<in> set bs \<and> vidx n \<in> set (i # ids) \<and> k \<le> n"
      using n kn by auto
    ultimately show ?thesis by simp
  qed
qed simp

lemma malloc_ok:
  assumes inv: "heap_inv h bs" and z: "z \<noteq> 0"
  shows "if fits bs (unat z) then \<exists>r. malloc z h = Some (Inr r) \<and> alloc_result h bs (unat z) r
    else \<exists>msg. malloc z h = Some (Inl (Panic msg))"
proof -
  obtain L where L: "hrel h L bs KE KE []" using inv by (auto simp: heap_inv_def)
  let ?i = "get_void_block_size_index z"
  have vi: "?i \<le> vidx n" "vidx n < 30" if "(s, n, False) \<in> set bs" "unat z \<le> n" for s n
    using that hrel_size(3) [OF L, of s n False] by (auto intro: vidx_mono vidx_bound)
  show ?thesis
  proof (cases "HEAP_VOID_BUCKET_COUNT \<le> ?i")
    case True
    then have "\<not> fits bs (unat z)" using vi by (fastforce simp: fits_def HEAP_VOID_BUCKET_COUNT_def)
    then show ?thesis using True z by (simp add: malloc_def)
  next
    case False
    let ?ids = "[?i..<HEAP_VOID_BUCKET_COUNT] @ (if 0 < ?i then [?i - 1] else [])"
    have ids: "set ?ids \<subseteq> {..<30}" using False by (auto simp: HEAP_VOID_BUCKET_COUNT_def)
    have run: "malloc z h = malloc_scan ?ids z h" using z False by (simp add: malloc_def Let_def)
    have e: "(\<exists>s n. (s, n, False) \<in> set bs \<and> vidx n \<in> set ?ids \<and> unat z \<le> n) = fits bs (unat z)"
    proof -
      have "vidx n \<in> set ?ids" if "(s, n, False) \<in> set bs" "unat z \<le> n" for s n
        using vi [OF that] by (simp add: HEAP_VOID_BUCKET_COUNT_def)
      then show ?thesis by (auto simp: fits_def)
    qed
    show ?thesis using malloc_scan_ok [OF inv L refl [of "unat z"] ids] unfolding e run
      by (cases "fits bs (unat z)") (simp_all only: if_True if_False, blast)
  qed
qed

section \<open>free\<close>

lemma erase_in:
  assumes "hrel h0 L0 xs lo hi ys" "hcore h L B" "B \<subseteq> set xs \<union> set ys" "(s, n, False) \<in> B"
  shows "\<exists>h' L'. heap_void_bucket_erase (vidx n) (of_nat s) h = Inr h' \<and> hcore h' L' (B - {(s, n, False)}) \<and>
    keeps (B - {(s, n, False)}) (hmem h) (hmem h') \<and> hd_size (hmem h') (of_nat s) = of_nat n"
proof -
  have "n < 2 ^ 26" using hrel_size(3) [OF assms(1), of s n False] assms(3,4) by blast
  with bucket_erase_core [OF sepd_mono [OF hrel_sepd [OF assms(1)] assms(3)] assms(2,4)] show ?thesis
    by (meson vidx_bound less_imp_le)
qed

lemma core_size:
  assumes "hcore h L B" "(s, n, u) \<in> B"
  shows "hd_size (hmem h) (of_nat s) = of_nat n" "hd_signature (hmem h) (of_nat s) = magic u"
    "end_size (hmem h) (of_nat (s + 16 + n)) = of_nat n" "end_signature (hmem h) (of_nat (s + 16 + n)) = magic u"
proof -
  have "block_ok (hmem h) (s, n, u)" using assms by (auto simp: hcore_def simp del: block_ok.simps)
  then show "hd_size (hmem h) (of_nat s) = of_nat n" "hd_signature (hmem h) (of_nat s) = magic u"
    "end_size (hmem h) (of_nat (s + 16 + n)) = of_nat n" "end_signature (hmem h) (of_nat (s + 16 + n)) = magic u"
    by (simp_all add: hd_size_def hd_signature_def end_size_def end_signature_def algebra_simps)
qed

lemmas service_defs = SERVICE_FIELDS_SIZE_def LEFT_EDGE_SIZE_def RIGHT_EDGE_SIZE_def

text \<open>What merging makes of the blocks around a freed one.\<close>

definition merged :: "block list \<Rightarrow> nat \<Rightarrow> nat \<Rightarrow> block list \<Rightarrow> block list" where
  "merged xs s n ys =
    (let xs' = (if used (last xs) then xs else butlast xs);
         ys' = (if used (hd ys) then ys else tl ys);
         s0 = (if used (last xs) then s else fst (last xs));
         e1 = (if used (hd ys) then fst (hd ys) else bend (hd ys))
     in xs' @ (s0, e1 - s0 - 24, False) # ys')"

lemma try_merge_ok:
  assumes h: "hrel h L (as @ [(ls, ln, lu)]) s s ((s, n, False) # (rs, rn, ru) # cs)"
  shows "\<exists>h' L' mid. heap_void_block_try_merge (of_nat s) h = Inr h' \<and>
    hrel h' L' (merged (as @ [(ls, ln, lu)]) s n ((rs, rn, ru) # cs)) mid mid [] \<and>
    keeps (live (as @ [(ls, ln, lu)]) \<union> live ((rs, rn, ru) # cs)) (hmem h) (hmem h')"
proof -
  let ?xs = "as @ [(ls, ln, lu)]" and ?b = "(s, n, False)" and ?r = "(rs, rn, ru)"
  note d = hrelD [OF h]
  have t: "tile KS as ls" "s = ls + 24 + ln" "rs = s + 24 + n" "tile (rs + 24 + rn) cs KE"
    using d(1,3) by (auto simp: tile_snoc)
  define xs' where "xs' = (if lu then ?xs else as)"
  define ys' where "ys' = (if ru then ?r # cs else cs)"
  define s0 where "s0 = (if lu then s else ls)"
  define e1 where "e1 = (if ru then rs else rs + 24 + rn)"
  have mg: "merged ?xs s n (?r # cs) = xs' @ (s0, e1 - s0 - 24, False) # ys'"
    by (auto simp: merged_def xs'_def ys'_def s0_def e1_def)
  have t': "tile KS xs' s0" "tile e1 ys' KE" "s0 \<le> s" "rs \<le> e1"
    using t by (auto simp: xs'_def ys'_def s0_def e1_def tile_snoc)
  have lin: "(ls, ln, lu) \<notin> set as \<union> insert ?b (set (?r # cs))"
  proof -
    have "(ls, ln, lu) \<notin> set as \<union> set (?b # ?r # cs)"
      by (rule gap_insert(2) [OF t(1) order.refl _ d(3)]) (use t in simp)
    then show ?thesis by simp
  qed
  have rin: "?r \<notin> set xs' \<union> insert ?b (set cs)"
  proof -
    have "?r \<notin> set (?xs @ [?b]) \<union> set cs"
      by (rule gap_insert(2) [OF _ order.refl _ t(4)]) (use t d(1) in \<open>auto simp: tile_append\<close>)
    then show ?thesis by (auto simp: xs'_def)
  qed
  have bin: "?b \<notin> set xs' \<union> set ys'"
    by (rule gap_insert(2) [OF t'(1,3) _ t'(2)]) (use t t' in auto)
  let ?B0 = "set ?xs \<union> set (?b # ?r # cs)"
  let ?B1 = "set xs' \<union> insert ?b (set (?r # cs))"
  let ?B2 = "set xs' \<union> insert ?b (set ys')"
  let ?B3 = "set xs' \<union> set ys'"
  have sub: "?B1 \<subseteq> ?B0" "?B2 \<subseteq> ?B0" by (auto simp: xs'_def ys'_def)
  have left: "end_signature (hmem h) (of_nat s - RIGHT_EDGE_SIZE) = magic lu"
    "get_block_start (hmem h) (of_nat s) = of_nat ls"
    using core_size(3,4) [OF d(4), of ls ln lu] t(2) by (simp_all add: get_block_start_def service_defs ac_simps)
  obtain h1 L1 where 1: "(if end_signature (hmem h) (of_nat s - RIGHT_EDGE_SIZE) = HEAP_VOID_BLOCK_MAGIC then
          let left_start_addr = get_block_start (hmem h) (of_nat s)
          in rbind (heap_void_bucket_erase (get_void_block_size_index (hd_size (hmem h) left_start_addr)) left_start_addr h)
               (\<lambda>h. Inr (True, left_start_addr, h))
        else Inr (False, of_nat s, h)) = Inr (\<not> lu, of_nat s0, h1)"
    "hcore h1 L1 ?B1" "keeps ?B1 (hmem h) (hmem h1)"
  proof (cases lu)
    case True
    have "hcore h L ?B1" using d(4) True by (simp add: xs'_def Un_insert_right)
    then show thesis using that [of h L] left True by (simp add: s0_def magic_simps)
  next
    case False
    obtain h1 L1 where e: "heap_void_bucket_erase (vidx ln) (of_nat ls) h = Inr h1"
      "hcore h1 L1 (?B0 - {(ls, ln, False)})" "keeps (?B0 - {(ls, ln, False)}) (hmem h) (hmem h1)"
      using erase_in [OF h d(4) order.refl, of ls ln] False by auto
    have "?B0 - {(ls, ln, False)} = ?B1" using lin False by (auto simp: xs'_def)
    moreover have "hd_size (hmem h) (of_nat ls) = of_nat ln" using core_size(1) [OF d(4), of ls ln lu] by simp
    ultimately show thesis using that [of h1 L1] left False e
      by (simp add: s0_def magic_simps vidx_def)
  qed
  have sz: "hd_size (hmem h) (of_nat s) = of_nat n" "hd_size (hmem h1) (of_nat s) = of_nat n"
    using core_size(1) [OF d(4), of s n False] core_size(1) [OF 1(2), of s n False] by auto
  then have be: "get_block_end (hmem h) (of_nat s) = of_nat rs" "get_block_end (hmem h1) (of_nat s) = of_nat rs"
    by (simp_all add: get_block_end_def service_defs t(3))
  have rsig: "hd_signature (hmem h1) (of_nat rs) = magic ru" "hd_size (hmem h1) (of_nat rs) = of_nat rn"
    using core_size(1,2) [OF 1(2), of rs rn ru] by auto
  obtain h2 L2 where 2: "(if hd_signature (hmem h1) (of_nat rs) = HEAP_VOID_BLOCK_MAGIC then
          rbind (heap_void_bucket_erase (get_void_block_size_index (hd_size (hmem h1) (of_nat rs))) (of_nat rs) h1)
            (\<lambda>h. Inr (True, get_block_end (hmem h) (of_nat rs), h))
        else Inr (\<not> lu, of_nat rs, h1)) = Inr (\<not> lu \<or> \<not> ru, of_nat e1, h2)"
    "hcore h2 L2 ?B2" "keeps ?B2 (hmem h1) (hmem h2)"
  proof (cases ru)
    case True
    have "hcore h1 L1 ?B2" using 1(2) True by (simp add: ys'_def)
    then show thesis using that [of h1 L1] rsig True by (simp add: e1_def magic_simps)
  next
    case False
    obtain h2 L2 where e: "heap_void_bucket_erase (vidx rn) (of_nat rs) h1 = Inr h2"
      "hcore h2 L2 (?B1 - {(rs, rn, False)})" "keeps (?B1 - {(rs, rn, False)}) (hmem h1) (hmem h2)"
      "hd_size (hmem h2) (of_nat rs) = of_nat rn"
      using erase_in [OF h 1(2) sub(1), of rs rn] False by auto
    have "?B1 - {(rs, rn, False)} = ?B2" using rin False by (auto simp: ys'_def)
    then show thesis using that [of h2 L2] rsig False e
      by (simp add: e1_def magic_simps vidx_def get_block_end_def service_defs)
  qed
  have keep12: "keeps ?B2 (hmem h) (hmem h2)"
    by (rule keeps_mono [OF keeps_trans [OF 1(3) 2(3)]]) (auto simp: ys'_def)
  have run: "heap_void_block_try_merge (of_nat s) h = (if \<not> lu \<or> \<not> ru then
       rbind (heap_void_bucket_erase (get_void_block_size_index (hd_size (hmem h2) (of_nat s))) (of_nat s) h2)
         (heap_add_void (of_nat s0) (of_nat e1 - of_nat s0 - SERVICE_FIELDS_SIZE)) else Inr h2)"
    unfolding heap_void_block_try_merge_def by (simp only: Let_def 1(1)[unfolded Let_def] rbind.simps prod.case be 2(1))
  have lv: "live ?xs \<union> live (?r # cs) \<subseteq> ?B3"
    by (auto simp: live_def xs'_def ys'_def)
  show ?thesis
  proof (cases "lu \<and> ru")
    case True
    have eq: "?B2 = set (xs' @ [(s0, e1 - s0 - 24, False)]) \<union> set ys'" using True t by (auto simp: s0_def e1_def)
    have "hrel h2 L2 (xs' @ [(s0, e1 - s0 - 24, False)]) e1 e1 ys'"
      using 2(2) t' t True unfolding hrel_def eq by (auto simp: tile_snoc s0_def e1_def)
    then have "\<exists>mid. hrel h2 L2 ((xs' @ [(s0, e1 - s0 - 24, False)]) @ ys') mid mid []" by (intro hrel_append) simp
    moreover have "keeps (live ?xs \<union> live (?r # cs)) (hmem h) (hmem h2)" by (rule keeps_mono [OF keep12]) (use lv in auto)
    ultimately show ?thesis unfolding mg run using True by auto
  next
    case False
    have b2: "hd_size (hmem h2) (of_nat s) = of_nat n" using core_size(1) [OF 2(2), of s n False] by auto
    obtain h3 L3 where 3: "heap_void_bucket_erase (vidx n) (of_nat s) h2 = Inr h3"
      "hcore h3 L3 (?B2 - {?b})" "keeps (?B2 - {?b}) (hmem h2) (hmem h3)"
      using erase_in [OF h 2(2) sub(2), of s n] by auto
    have B3: "?B2 - {?b} = ?B3" using bin by auto
    have "hrel h3 L3 xs' s0 e1 ys'" using 3(2) t' t unfolding B3 hrel_def by auto
    from fill_void [OF this, of "e1 - s0 - 24"] obtain h4 L4 where 4:
      "heap_add_void (of_nat s0) (of_nat (e1 - s0 - 24)) h3 = Inr h4"
      "hrel h4 L4 (xs' @ [(s0, e1 - s0 - 24, False)]) (s0 + 24 + (e1 - s0 - 24)) e1 ys'"
      "keeps ?B3 (hmem h3) (hmem h4)" using t' t by auto
    have len: "s0 + 24 + (e1 - s0 - 24) = e1" using t' t by auto
    have w: "(of_nat e1 - of_nat s0 - SERVICE_FIELDS_SIZE :: u32) = of_nat (e1 - s0 - 24)"
      using t' t by (simp add: service_defs of_nat_diff)
    have "heap_void_block_try_merge (of_nat s) h = Inr h4"
      unfolding run w b2 using False 3(1) 4(1) by (simp add: vidx_def)
    moreover have "\<exists>mid. hrel h4 L4 ((xs' @ [(s0, e1 - s0 - 24, False)]) @ ys') mid mid []"
      by (rule hrel_append [where lo = e1]) (use 4(2) len in simp)
    moreover have "keeps (live ?xs \<union> live (?r # cs)) (hmem h) (hmem h4)"
      by (rule keeps_mono [OF keeps_trans [OF keep12 keeps_trans [OF 3(3) [unfolded B3] 4(3)]]]) (use lv in auto)
    ultimately show ?thesis unfolding mg by auto
  qed
qed

lemma shape_merged:
  assumes "shape (xs @ (s, n, True) # ys)" "xs \<noteq> []" "ys \<noteq> []"
  shows "shape (merged xs s n ys)"
proof -
  have S: "successively (\<lambda>b c. used b \<or> used c) xs" "successively (\<lambda>b c. used b \<or> used c) ys"
    "used (hd xs)" "used (last ys)"
    using assms by (auto simp: shape_def successively_append_iff successively_Cons)
  obtain as l where xs: "xs = as @ [l]" using assms(2) by (cases xs rule: rev_cases) auto
  obtain r cs where ys: "ys = r # cs" using assms(3) by (cases ys) auto
  have l: "as \<noteq> [] \<and> used (last as)" if "\<not> used l"
  proof -
    have "as \<noteq> []" using S(3) that xs by auto
    then show ?thesis using S(1) that xs by (auto simp: successively_append_iff)
  qed
  have r: "cs \<noteq> [] \<and> used (hd cs)" if "\<not> used r"
    using S(2,4) that ys by (cases cs) auto
  show ?thesis
    using S l r unfolding merged_def xs ys Let_def
    by (cases "used l"; cases "used r")
      (auto simp: shape_def successively_append_iff successively_Cons hd_append)
qed

lemma live_merged:
  assumes "xs \<noteq> []" "ys \<noteq> []"
  shows "live (merged xs s n ys) = live xs \<union> live ys"
proof -
  obtain as l where xs: "xs = as @ [l]" using assms(1) by (cases xs rule: rev_cases) auto
  obtain r cs where ys: "ys = r # cs" using assms(2) by (cases ys) auto
  show ?thesis unfolding xs ys by (auto simp: merged_def live_def Let_def)
qed

lemma free_ok:
  assumes inv: "heap_inv h (xs @ (s, n, True) # ys)" and ne: "xs \<noteq> []" "ys \<noteq> []"
  shows "\<exists>h'. free (of_nat (s + 16)) h = Inr h' \<and> heap_inv h' (merged xs s n ys) \<and>
    keeps (live xs \<union> live ys) (hmem h) (hmem h')"
proof -
  obtain L mid where h: "hrel h L xs mid mid ((s, n, True) # ys)" using heap_inv_split [OF inv] by blast
  have mid: "mid = s" using h by (auto simp: hrel_def)
  note z = hrel_size [OF h, of s n True, simplified]
  note o = open_used [OF h [unfolded mid]]
  let ?h1 = "h\<lparr> hmem := heap_block_erase (hmem h) (of_nat s) \<rparr>"
  obtain h2 L2 where 2: "heap_add_void (of_nat s) (of_nat n) ?h1 = Inr h2"
    "hrel h2 L2 (xs @ [(s, n, False)]) (s + 24 + n) (s + 24 + n) ys" "keeps (set xs \<union> set ys) (hmem ?h1) (hmem h2)"
    using fill_void [OF o(1), of n] by auto
  obtain as ls ln lu where xs: "xs = as @ [(ls, ln, lu)]" using ne(1) by (cases xs rule: rev_cases) auto
  obtain rs rn ru cs where ys: "ys = (rs, rn, ru) # cs" using ne(2) by (cases ys) auto
  have h2: "hrel h2 L2 xs s s ((s, n, False) # ys)" using 2(2) by (simp add: hrel_shift)
  obtain h3 L3 m3 where 3: "heap_void_block_try_merge (of_nat s) h2 = Inr h3"
    "hrel h3 L3 (merged xs s n ys) m3 m3 []" "keeps (live xs \<union> live ys) (hmem h2) (hmem h3)"
    using try_merge_ok [OF h2 [unfolded xs ys], folded xs ys] by blast
  have nz: "(of_nat (s + 16) :: u32) \<noteq> 0"
  proof -
    have "s + 16 < 2 ^ 32" using z(7) KS_KE by simp
    then have "unat (of_nat (s + 16) :: u32) = s + 16" by (simp only: unat_of_nat) simp
    then show ?thesis by (metis unat_0 add_is_0 zero_neq_numeral)
  qed
  have p: "(of_nat (s + 16) :: u32) - LEFT_EDGE_SIZE = of_nat s" by (simp add: LEFT_EDGE_SIZE_def)
  have "free (of_nat (s + 16)) h = Inr h3"
    unfolding free_def p Let_def z(2) o(3) using nz 2(1) 3(1) by (simp add: magic_simps)
  moreover have "heap_inv h3 (merged xs s n ys)"
    using shape_merged [of xs s n ys] inv ne 3(2) by (auto simp: heap_inv_def hrel_def)
  moreover have "keeps (live xs \<union> live ys) (hmem h) (hmem h3)"
    by (rule keeps_mono [OF keeps_trans [OF o(2) keeps_trans [OF 2(3) [simplified] 3(3)]]]) (auto simp: live_def)
  ultimately show ?thesis by blast
qed

section \<open>heap_init\<close>

lemma hcore_empty: "length roots = 30 \<Longrightarrow> \<forall>i < 30. roots ! i = 0 \<Longrightarrow>
  hcore \<lparr> hmem = m, heap_void_bucket_root = roots \<rparr> (\<lambda>_. []) {}"
  by (simp add: hcore_def voids_def)

lemma heap_init_ok:
  "\<exists>h. heap_init m = Inr h \<and>
     heap_inv h [(KS, 0, True), (KS + 24, KE - KS - 72, False), (KE - 24, 0, True)]"
proof -
  let ?roots = "replicate 30 0 :: u32 list"
  let ?h0 = "\<lparr> hmem = m, heap_void_bucket_root = ?roots \<rparr>"
  have r0: "hrel ?h0 (\<lambda>_. []) [] KS KE []"
    using hcore_empty [of ?roots m] KS_KE by (simp add: hrel_def)
  let ?h1 = "?h0\<lparr> hmem := create_data_block (hmem ?h0) (of_nat KS) (of_nat 0) \<rparr>"
  have r1: "hrel ?h1 (\<lambda>_. []) [(KS, 0, True)] (KS + 24) KE []"
    using fill_data(1) [OF r0, of 0] KS_KE by simp
  let ?h2 = "?h1\<lparr> hmem := create_data_block (hmem ?h1) (of_nat (KE - 24)) (of_nat 0) \<rparr>"
  have r2: "hrel ?h2 (\<lambda>_. []) [(KS, 0, True)] (KS + 24) (KE - 24) [(KE - 24, 0, True)]"
  proof (rule fill_data_right(1))
    have "KE - 24 + 24 + 0 = KE" using KS_KE by simp
    then show "hrel ?h1 (\<lambda>_. []) [(KS, 0, True)] (KS + 24) (KE - 24 + 24 + 0) []" using r1 by (simp only:)
    show "KS + 24 \<le> KE - 24" using KS_KE by simp
  qed
  have len: "KS + 24 + 24 + (KE - KS - 72) = KE - 24" using KS_KE by simp
  from fill_void [OF r2, of "KE - KS - 72"] len obtain h3 L3 where 3:
    "heap_add_void (of_nat (KS + 24)) (of_nat (KE - KS - 72)) ?h2 = Inr h3"
    "hrel h3 L3 [(KS, 0, True), (KS + 24, KE - KS - 72, False)] (KE - 24) (KE - 24) [(KE - 24, 0, True)]"
    by auto
  have w: "KHEAP_START = of_nat KS" "KHEAP_END - SERVICE_FIELDS_SIZE = of_nat (KE - 24)"
    by (simp_all add: KS_KE service_defs KHEAP_START_def KHEAP_END_def RAM_VIRTUAL_START_def)
  have be: "get_block_end (hmem ?h2) (of_nat KS) = of_nat (KS + 24)"
    using hrel_size(1) [OF r2, of KS 0 True] by (simp add: get_block_end_def service_defs)
  have sz: "(of_nat (KE - 24) - of_nat (KS + 24) - SERVICE_FIELDS_SIZE :: u32) = of_nat (KE - KS - 72)"
    by (simp add: KS_KE service_defs)
  have "heap_init m = Inr h3"
    using 3(1) [unfolded heap_t.simps semiring_1_class.of_nat_0] be [unfolded heap_t.simps semiring_1_class.of_nat_0]
    unfolding heap_init_def w Let_def HEAP_VOID_BUCKET_COUNT_def by (simp only: sz heap_t.simps)
  moreover have "heap_inv h3 ([(KS, 0, True), (KS + 24, KE - KS - 72, False)] @ [(KE - 24, 0, True)])"
    by (rule heap_invI [OF 3(2)]) (simp add: shape_def)
  ultimately show ?thesis by auto
qed

section \<open>realloc\<close>

lemma heap_inv_bounds:
  assumes "heap_inv h (xs @ (s, n, u) # ys)"
  shows "KS < s \<longleftrightarrow> xs \<noteq> []" "s + 24 + n < KE \<longleftrightarrow> ys \<noteq> []"
proof -
  obtain L mid where h: "hrel h L xs mid mid ((s, n, u) # ys)" using heap_inv_split [OF assms] by blast
  then have t: "tile KS xs s" "tile (s + 24 + n) ys KE" by (auto simp: hrel_def)
  show "KS < s \<longleftrightarrow> xs \<noteq> []" using t(1) tile_le by (cases xs) (fastforce dest: tile_le)+
  show "s + 24 + n < KE \<longleftrightarrow> ys \<noteq> []" using t(2) by (cases ys) (fastforce dest: tile_le)+
qed

text \<open>The blocks \<open>malloc\<close> may hand out: used, and not one of the two sentinels.\<close>

definition owned :: "block list \<Rightarrow> nat \<Rightarrow> nat \<Rightarrow> bool" where
  "owned bs s n = ((s, n, True) \<in> set bs \<and> KS < s \<and> s + 24 + n < KE)"

lemma owned_split:
  assumes "heap_inv h bs" "owned bs s n"
  obtains xs ys where "bs = xs @ (s, n, True) # ys" "xs \<noteq> []" "ys \<noteq> []"
proof -
  obtain xs ys where bs: "bs = xs @ (s, n, True) # ys" using assms(2) by (auto simp: owned_def dest: split_list)
  with assms heap_inv_bounds [of h xs s n True ys] that show ?thesis by (auto simp: owned_def)
qed

lemma distinct_middle:
  assumes "heap_inv h (xs @ b # ys)"
  shows "b \<notin> set xs \<union> set ys" "live (xs @ b # ys) - {b} = live xs \<union> live ys"
proof -
  obtain L mid where h: "hrel h L xs mid mid (b # ys)" using heap_inv_split [OF assms] by blast
  obtain s n u where b: "b = (s, n, u)" by (cases b)
  show n: "b \<notin> set xs \<union> set ys" unfolding b
    by (rule gap_insert(2) [OF hrelD(1) [OF h]]) (use h b in \<open>auto simp: hrel_def\<close>)
  then show "live (xs @ b # ys) - {b} = live xs \<union> live ys" by (auto simp: live_def)
qed

lemma hrel_payload_write:
  assumes h: "hrel h L xs lo hi ys" and b: "(s, n, True) \<in> set xs \<union> set ys"
    and ch: "chg S (hmem h) m'" and S: "S \<subseteq> {s + 16..<s + 16 + n}"
  shows "hrel (h\<lparr> hmem := m' \<rparr>) L xs lo hi ys" "keeps (set xs \<union> set ys - {(s, n, True)}) (hmem h) m'"
proof -
  let ?B = "set xs \<union> set ys"
  note d = hrelD [OF h] and sep = hrel_sepd [OF h]
  have sB: "sepd (?B - {(s, n, True)})" by (rule sepd_mono [OF sep]) blast
  have out: "y < fst b' \<or> bend b' \<le> y" if "b' \<in> ?B - {(s, n, True)}" "y \<in> S" for b' y
  proof (rule sepd_out [of "(s, n, True)" "?B - {(s, n, True)}"])
    show "sepd (insert (s, n, True) (?B - {(s, n, True)}))" using sep b by (simp add: insert_absorb)
  qed (use that S in auto)
  have ok: "block_ok m' (s, n, True)"
  proof (rule block_ok_chg [OF ch])
    show "bend (s, n, True) \<le> 2 ^ 32" using hrel_size(7) [OF h b] KS_KE by simp
    show "block_ok (hmem h) (s, n, True)" using d(4) b by (auto simp: hcore_def simp del: block_ok.simps)
  qed (use S in \<open>force simp: hdrs_def\<close>)
  note o = hcore_outside [OF sB hcore_forget [OF d(4)] ch out]
  have ok': "block_ok (hmem (h\<lparr> hmem := m' \<rparr>)) (s, n, True)" using ok by (cases h) (simp del: block_ok.simps)
  have "hcore (h\<lparr> hmem := m' \<rparr>) L (insert (s, n, True) (?B - {(s, n, True)}))"
    by (rule hcore_used [OF o(1) ok'])
  then show "hrel (h\<lparr> hmem := m' \<rparr>) L xs lo hi ys" using d b by (auto simp: hrel_def insert_absorb)
  show "keeps (?B - {(s, n, True)}) (hmem h) m'" by (rule o(2))
qed

text \<open>The result of moving or growing the object in block \<open>(s, n)\<close> to at least \<open>k\<close> bytes.\<close>

definition realloc_result :: "heap_t \<Rightarrow> block list \<Rightarrow> nat \<Rightarrow> nat \<Rightarrow> nat \<Rightarrow> u32 \<times> heap_t \<Rightarrow> bool" where
  "realloc_result h bs s n k = (\<lambda>(p, h'). \<exists>bs' s' n'. heap_inv h' bs' \<and> p = of_nat (s' + 16) \<and> owned bs' s' n' \<and> k \<le> n' \<and> n \<le> n' \<and>
     live bs' = insert (s', n', True) (live bs - {(s, n, True)}) \<and>
     keeps (live bs - {(s, n, True)}) (hmem h) (hmem h') \<and>
     mem_bytes (hmem h') (s' + 16) n = mem_bytes (hmem h) (s + 16) n)"

lemma realloc_resultI:
  "heap_inv h' bs' \<Longrightarrow> owned bs' s' n' \<Longrightarrow> k \<le> n' \<Longrightarrow> n \<le> n' \<Longrightarrow>
   live bs' = insert (s', n', True) (live bs - {(s, n, True)}) \<Longrightarrow>
   keeps (live bs - {(s, n, True)}) (hmem h) (hmem h') \<Longrightarrow>
   mem_bytes (hmem h') (s' + 16) n = mem_bytes (hmem h) (s + 16) n \<Longrightarrow>
   realloc_result h bs s n k (of_nat (s' + 16), h')"
  unfolding realloc_result_def by blast

lemma live_append [simp]: "live (xs @ ys) = live xs \<union> live ys"
  by (auto simp: live_def)

lemma live_Cons: "live (b # ys) = (if used b then insert b (live ys) else live ys)"
  by (auto simp: live_def)

lemma live_sub: "live xs \<subseteq> set xs"
  by (auto simp: live_def)

lemma create_keeps_prefix:
  assumes "n \<le> k" "s + 24 + k \<le> 2 ^ 32"
  shows "mem_bytes (create_data_block m (of_nat s) (of_nat k)) (s + 16) n = mem_bytes m (s + 16) n"
  by (rule mem_bytes_chg [OF create_data_block_ok(2) [OF assms(2)]]) (use assms in \<open>auto simp: hdrs_def\<close>)

lemma hrel_le_KE: "hrel h L xs lo hi ys \<Longrightarrow> hi \<le> KE"
  using tile_le by (auto simp: hrel_def)

text \<open>Growing into a free neighbour.\<close>

lemma realloc_in_place:
  assumes inv: "heap_inv h (xs @ (s, n, True) # (r, m, False) # cs)" and ne: "xs \<noteq> []"
    and z: "n < unat z" "unat z \<le> m + n + 24"
  shows "\<exists>res. realloc (of_nat (s + 16)) z h = Some (Inr res) \<and>
    realloc_result h (xs @ (s, n, True) # (r, m, False) # cs) s n (unat z) res"
proof -
  let ?k = "unat z" and ?N = "m + n + 24" and ?bs = "xs @ (s, n, True) # (r, m, False) # cs"
  obtain L mid where h0: "hrel h L (xs @ [(s, n, True)]) mid mid ((r, m, False) # cs)"
    using heap_inv_split [of h "xs @ [(s, n, True)]" "(r, m, False) # cs"] inv by auto
  have r: "r = s + 24 + n" "mid = r" using h0 by (auto simp: hrel_def tile_snoc)
  note zs = hrel_size [OF h0, of s n True, simplified] and zr = hrel_size [OF h0, of r m False, simplified]
  have cs: "cs \<noteq> []" and hc: "used (hd cs)"
    using shape_middle(2,4) [of "xs @ [(s, n, True)]" r m cs] inv by (auto simp: heap_inv_def)
  obtain h1 L1 where h1: "heap_void_bucket_erase (vidx m) (of_nat r) h = Inr h1"
    "hrel h1 L1 (xs @ [(s, n, True)]) r (r + 24 + m) cs" "keeps (set (xs @ [(s, n, True)]) \<union> set cs) (hmem h) (hmem h1)"
    using open_void [OF h0 [unfolded r(2)]] by blast
  have hN: "hrel h1 L1 xs s (s + 24 + ?N) cs" using forget_left [OF h1(2)] r by (simp add: ac_simps)
  have own1: "mem_bytes (hmem h1) (s + 16) n = mem_bytes (hmem h) (s + 16) n"
    using h1(3) by (auto simp: keeps_def payload_def)
  have bN: "s + 24 + ?N \<le> KE" using hrel_le_KE [OF hN] .
  have p: "(of_nat (s + 16) :: u32) - LEFT_EDGE_SIZE = of_nat s" "get_data_ptr (of_nat s) = of_nat (s + 16)"
    by (simp_all add: LEFT_EDGE_SIZE_def get_data_ptr_def)
  have nz: "(of_nat (s + 16) :: u32) \<noteq> 0"
  proof -
    have "unat (of_nat (s + 16) :: u32) = s + 16" using bN KS_KE by (simp only: unat_of_nat) simp
    then show ?thesis by (metis unat_0 add_is_0 zero_neq_numeral)
  qed
  have z0: "z \<noteq> 0" using z(1) by auto
  have c1: "\<not> z \<le> of_nat n" using z(1) zs(4) by (simp add: word_le_nat_alt)
  have nx: "get_block_end (hmem h) (of_nat s) = of_nat r" using zs(1) by (simp add: get_block_end_def SERVICE_24 r(1))
  have u3: "unat (of_nat m + of_nat n + SERVICE_FIELDS_SIZE :: u32) = ?N"
  proof -
    have "(of_nat m + of_nat n + SERVICE_FIELDS_SIZE :: u32) = of_nat ?N" by (simp add: SERVICE_24)
    then show ?thesis using bN KS_KE by (simp only: unat_of_nat) simp
  qed
  have c2: "z \<le> of_nat m + of_nat n + SERVICE_FIELDS_SIZE" using z(2) u3 by (simp add: word_le_nat_alt)
  have zk: "z = of_nat ?k" by simp
  have left: "sint (of_nat m + of_nat n - z) = int (m + n) - int ?k"
  proof -
    have e: "(of_nat m + of_nat n - z :: u32) = of_nat (m + n) - of_nat ?k" by simp
    have "?k < 2 ^ 31" "m + n < 2 ^ 31" using z(2) zs(3) zr(3) by simp_all
    then show ?thesis unfolding e using sint_diff by blast
  qed
  have sh: "shape (xs @ carve s ?N ?k @ cs)"
  proof -
    have s0: "shape (xs @ [(s, n, True), (r, m, False)] @ cs)" using inv by (simp add: heap_inv_def)
    have "shape (xs @ (s, n, True) # cs)"
      using s0 cs ne hc by (auto simp: shape_def successively_append_iff successively_Cons)
    then show ?thesis
      by (rule shape_replace) (use cs ne hc in \<open>auto simp: carve_facts\<close>)
  qed
  have ins: "live (xs @ carve s ?N ?k @ cs) = insert (s, if ?N \<le> ?k + 24 then ?N else ?k, True) (live ?bs - {(s, n, True)})"
    using distinct_middle(2) [OF inv] by (auto simp: carve_facts live_Cons)
  have ml: "live ?bs - {(s, n, True)} \<subseteq> set xs \<union> set cs"
    using distinct_middle(2) [OF inv] live_sub [of xs] live_sub [of cs] by (auto simp: live_Cons)
  have ow: "owned (xs @ carve s ?N ?k @ cs) s (if ?N \<le> ?k + 24 then ?N else ?k)"
    if "heap_inv h' (xs @ carve s ?N ?k @ cs)" for h'
  proof -
    obtain rest where r: "carve s ?N ?k = (s, if ?N \<le> ?k + 24 then ?N else ?k, True) # rest"
      by (cases "?N \<le> ?k + 24") (auto simp: carve_def)
    from that heap_inv_bounds [of h' xs s _ True "rest @ cs"] cs ne show ?thesis
      by (auto simp: r owned_def)
  qed
  show ?thesis
  proof (cases "?N \<le> ?k + 24")
    case True
    note f = fill_data [OF hN order.refl]
    let ?h2 = "h1\<lparr> hmem := create_data_block (hmem h1) (of_nat s) (of_nat ?N) \<rparr>"
    have w: "(of_nat m + of_nat n + SERVICE_FIELDS_SIZE :: u32) = of_nat ?N" by (simp add: SERVICE_24)
    have "int (m + n) \<le> int ?k" using True by (simp only: of_nat_le_iff)
    then have "sint (of_nat m + of_nat n - z) \<le> 0" unfolding left by linarith
    then have run: "realloc (of_nat (s + 16)) z h = Some (Inr (of_nat (s + 16), ?h2))"
      unfolding realloc_def p Let_def zs(1,2) zr(1,2) nx w using nz z0 c1 c2 [unfolded w] h1(1)
      by (simp add: magic_simps vidx_def p(2) del: of_nat_add)
    have hi: "heap_inv ?h2 (xs @ carve s ?N ?k @ cs)"
      using heap_invI [OF f(1)] sh True by (simp add: carve_def)
    have "keeps (live ?bs - {(s, n, True)}) (hmem h) (create_data_block (hmem h1) (of_nat s) (of_nat ?N))"
      by (rule keeps_mono [OF keeps_trans [OF h1(3) f(2)]]) (use ml in auto)
    then have k2: "keeps (live ?bs - {(s, n, True)}) (hmem h) (hmem ?h2)" by simp
    have "mem_bytes (hmem ?h2) (s + 16) n = mem_bytes (hmem h) (s + 16) n"
      using create_keeps_prefix [of n ?N s "hmem h1"] bN KS_KE own1 by simp
    from realloc_resultI [OF hi ow [OF hi] _ _ ins k2 this, of ?k] have "realloc_result h ?bs s n ?k (of_nat (s + 16), ?h2)"
      using True z by simp
    with run show ?thesis by blast
  next
    case False
    then have kN: "?k + 24 < ?N" by simp
    let ?h2 = "h1\<lparr> hmem := create_data_block (hmem h1) (of_nat s) (of_nat ?k) \<rparr>"
    obtain h3 L3 where h3: "heap_add_void (get_block_end (hmem ?h2) (of_nat s)) (of_nat (?N - ?k - 24)) ?h2 = Inr h3"
      "hrel h3 L3 (xs @ carve s ?N ?k) (s + 24 + ?N) (s + 24 + ?N) cs" "keeps (set xs \<union> set cs) (hmem h1) (hmem h3)"
      "mem_bytes (hmem h3) (s + 16) ?k = mem_bytes (hmem ?h2) (s + 16) ?k"
      using carve_big [OF hN kN] by blast
    have w: "(of_nat m + of_nat n - z :: u32) = of_nat (?N - ?k - 24)"
    proof -
      have "?N - ?k - 24 = m + n - ?k" by simp
      moreover have "(of_nat (m + n - ?k) :: u32) = of_nat (m + n) - of_nat ?k" using kN by (intro of_nat_diff) simp
      ultimately show ?thesis by simp
    qed
    have "\<not> int (m + n) \<le> int ?k" using False by (simp only: of_nat_le_iff)
    then have neg: "\<not> sint (of_nat m + of_nat n - z) \<le> 0" unfolding left by linarith
    have run: "realloc (of_nat (s + 16)) z h = Some (Inr (of_nat (s + 16), h3))"
      unfolding realloc_def p Let_def zs(1,2) zr(1,2) nx using nz z0 c1 c2 h1(1) h3(1) neg
      by (simp add: magic_simps vidx_def p(2) w del: of_nat_add of_nat_diff)
    have hi: "heap_inv h3 (xs @ carve s ?N ?k @ cs)" using heap_invI [OF h3(2)] sh by simp
    have k2: "keeps (live ?bs - {(s, n, True)}) (hmem h) (hmem h3)"
      by (rule keeps_mono [OF keeps_trans [OF h1(3) h3(3)]]) (use ml in auto)
    have "mem_bytes (hmem h3) (s + 16) n = mem_bytes (hmem h) (s + 16) n"
      using mem_bytes_prefix [OF _ h3(4), of n] create_keeps_prefix [of n ?k s "hmem h1"] bN KS_KE own1 z kN by simp
    from realloc_resultI [OF hi ow [OF hi] _ _ ins k2 this, of ?k] have "realloc_result h ?bs s n ?k (of_nat (s + 16), h3)"
      using False z by simp
    with run show ?thesis by blast
  qed
qed

text \<open>Moving: allocate, copy, free.\<close>

lemma realloc_move:
  assumes inv: "heap_inv h bs" and own: "owned bs s n" and z: "n < unat z" and fit: "fits bs (unat z)"
    and nn: "\<not> (\<exists>xs r m cs. bs = xs @ (s, n, True) # (r, m, False) # cs \<and> unat z \<le> m + n + 24)"
  shows "\<exists>res. realloc (of_nat (s + 16)) z h = Some (Inr res) \<and> realloc_result h bs s n (unat z) res"
proof -
  obtain xs0 ys0 where bs0: "bs = xs0 @ (s, n, True) # ys0" "xs0 \<noteq> []" "ys0 \<noteq> []" using owned_split [OF inv own] by blast
  obtain L mid where h0: "hrel h L (xs0 @ [(s, n, True)]) mid mid ys0"
    using heap_inv_split [of h "xs0 @ [(s, n, True)]" ys0] inv bs0 by auto
  note zs = hrel_size [OF h0, of s n True, simplified]
  have z0: "z \<noteq> 0" using z by auto
  obtain p h1 xs1 s1 n1 ys1 where m: "malloc z h = Some (Inr (p, h1))" "bs = xs1 @ (s1, n1, False) # ys1" "unat z \<le> n1"
    "p = of_nat (s1 + 16)" "heap_inv h1 (xs1 @ carve s1 n1 (unat z) @ ys1)" "keeps (set xs1 \<union> set ys1) (hmem h) (hmem h1)"
    using malloc_ok [OF inv z0] fit by (fastforce simp: alloc_result_def)
  let ?bs1 = "xs1 @ carve s1 n1 (unat z) @ ys1"
  let ?k = "if n1 \<le> unat z + 24 then n1 else unat z"
  have k: "unat z \<le> ?k" using m(3) by simp
  have "(s, n, True) \<in> set (xs1 @ (s1, n1, False) # ys1)" using own m(2) by (simp only: owned_def)
  then have inb: "(s, n, True) \<in> set xs1 \<union> set ys1" by auto
  have ss: "s1 \<noteq> s"
  proof
    assume "s1 = s"
    then have "(s, n, True) \<in> set bs" "(s, n1, False) \<in> set bs" using own m(2) by (simp_all add: owned_def)
    moreover have "sepd (set bs)" using inv by (auto simp: heap_inv_def dest: hrel_sepd)
    ultimately show False using sepd_start by blast
  qed
  have l1: "live ?bs1 = insert (s1, ?k, True) (live bs)" by (auto simp: m(2) carve_facts live_Cons)
  have own1: "owned ?bs1 s n" using own inb by (auto simp: owned_def)
  obtain xs2 ys2 where bs2: "?bs1 = xs2 @ (s, n, True) # ys2" "xs2 \<noteq> []" "ys2 \<noteq> []"
    using owned_split [OF m(5) own1] by metis
  obtain L1 where h1: "hrel h1 L1 ?bs1 KE KE []" using m(5) by (auto simp: heap_inv_def)
  have "(s1, ?k, True) \<in> live ?bs1" unfolding l1 by blast
  then have b1: "(s1, ?k, True) \<in> set ?bs1 \<union> set []" unfolding live_def by blast
  note z1 = hrel_size [OF h1 b1]
  let ?m = "mem_copy (hmem h1) (of_nat (s1 + 16)) (of_nat (s + 16)) (of_nat n)"
  have un: "unat (of_nat n :: u32) = n" by (rule zs(4))
  have e1: "s1 + 16 + n \<le> 2 ^ 32" "s + 16 + n \<le> 2 ^ 32" using z1(7) z k zs(7) KS_KE by auto
  have ch: "chg {s1 + 16..<s1 + 16 + n} (hmem h1) ?m"
    using mem_copy_chg [of "s1 + 16" "of_nat n" "hmem h1" "of_nat (s + 16)"] e1 un by simp
  have sub: "{s1 + 16..<s1 + 16 + n} \<subseteq> {s1 + 16..<s1 + 16 + ?k}" using z k by auto
  note w = hrel_payload_write [OF h1 b1 ch sub]
  let ?h2 = "h1\<lparr> hmem := ?m \<rparr>"
  have inv2: "heap_inv ?h2 (xs2 @ (s, n, True) # ys2)"
    using m(5) w(1) unfolding bs2(1) [symmetric] by (auto simp: heap_inv_def)
  obtain h3 where h3: "free (of_nat (s + 16)) ?h2 = Inr h3" "heap_inv h3 (merged xs2 s n ys2)"
    "keeps (live xs2 \<union> live ys2) ?m (hmem h3)"
    using free_ok [OF inv2 bs2(2,3)] by auto
  have lm: "live (merged xs2 s n ys2) = live ?bs1 - {(s, n, True)}"
    using live_merged [OF bs2(2,3)] distinct_middle(2) [OF inv2] unfolding bs2(1) by simp
  then have lf: "live (merged xs2 s n ys2) = insert (s1, ?k, True) (live bs - {(s, n, True)})" using l1 ss by auto
  have l2: "live xs2 \<union> live ys2 = insert (s1, ?k, True) (live bs - {(s, n, True)})"
    using lf live_merged [OF bs2(2,3), of s n] by simp
  have p: "(of_nat (s + 16) :: u32) - LEFT_EDGE_SIZE = of_nat s" by (simp add: LEFT_EDGE_SIZE_def)
  have nz: "(of_nat (s + 16) :: u32) \<noteq> 0"
  proof -
    have "unat (of_nat (s + 16) :: u32) = s + 16" using zs(7) KS_KE by (simp only: unat_of_nat) simp
    then show ?thesis by (metis unat_0 add_is_0 zero_neq_numeral)
  qed
  have c1: "\<not> z \<le> of_nat n" using z zs(4) by (simp add: word_le_nat_alt)
  obtain r m' u cs where ys0: "ys0 = (r, m', u) # cs" using bs0(3) by (cases ys0) auto
  have r: "r = s + 24 + n" "mid = r" using h0 by (auto simp: hrel_def tile_snoc ys0)
  have nx: "get_block_end (hmem h) (of_nat s) = of_nat r" using zs(1) by (simp add: get_block_end_def SERVICE_24 r(1))
  note zr = hrel_size [OF h0, of r m' u, unfolded ys0, simplified]
  have c2: "\<not> (hd_signature (hmem h) (of_nat r) = HEAP_VOID_BLOCK_MAGIC \<and>
      z \<le> hd_size (hmem h) (of_nat r) + of_nat n + SERVICE_FIELDS_SIZE)"
  proof (cases u)
    case False
    then have "\<not> unat z \<le> m' + n + 24" using nn bs0(1) ys0 by auto
    moreover have "unat (of_nat m' + of_nat n + SERVICE_FIELDS_SIZE :: u32) = m' + n + 24"
    proof -
      have "(of_nat m' + of_nat n + SERVICE_FIELDS_SIZE :: u32) = of_nat (m' + n + 24)" by (simp add: SERVICE_24)
      then show ?thesis using zr(3) zs(3) by (simp only: unat_of_nat) simp
    qed
    ultimately show ?thesis unfolding zr(1) by (simp add: word_le_nat_alt)
  qed (simp add: zr(2) magic_simps)
  have run: "realloc (of_nat (s + 16)) z h = Some (Inr (p, h3))"
    unfolding realloc_def p Let_def zs(1,2) nx if_not_P [OF c2] using nz z0 c1 m(1) h3(1)
    by (simp add: magic_simps m(4) del: of_nat_add)
  have kf: "keeps (live bs - {(s, n, True)}) (hmem h) (hmem h3)"
  proof -
    have "live bs - {(s, n, True)} \<subseteq> set xs1 \<union> set ys1" by (auto simp: m(2) live_def)
    moreover have "live bs - {(s, n, True)} \<subseteq> set ?bs1 - {(s1, ?k, True)}"
    proof -
      have "(s1, ?k, True) \<notin> live bs"
      proof
        assume "(s1, ?k, True) \<in> live bs"
        then have "(s1, ?k, True) \<in> set bs" "(s1, n1, False) \<in> set bs" by (auto simp: live_def m(2))
        moreover have "sepd (set bs)" using inv by (auto simp: heap_inv_def dest: hrel_sepd)
        ultimately show False using sepd_start by blast
      qed
      then show ?thesis using l1 live_sub [of ?bs1] by auto
    qed
    ultimately show ?thesis
      by (intro keeps_mono [OF keeps_trans [OF m(6) keeps_trans [OF w(2) h3(3)]]]) (use l2 in auto)
  qed
  have data: "mem_bytes (hmem h3) (s1 + 16) n = mem_bytes (hmem h) (s + 16) n"
  proof -
    have "mem_bytes (hmem h3) (s1 + 16) ?k = mem_bytes ?m (s1 + 16) ?k"
      using h3(3) unfolding l2 by (auto simp: keeps_def payload_def)
    then have "mem_bytes (hmem h3) (s1 + 16) n = mem_bytes ?m (s1 + 16) n"
      by (rule mem_bytes_prefix [rotated]) (use z k in simp)
    also have "\<dots> = mem_bytes (hmem h1) (s + 16) n"
      using mem_copy_bytes [of "s1 + 16" "of_nat n" "s + 16" "hmem h1"] e1 un by simp
    also have "\<dots> = mem_bytes (hmem h) (s + 16) n"
      using bspec [OF m(6) [unfolded keeps_def] inb] by (simp add: payload_def)
    finally show ?thesis .
  qed
  have ow: "owned (merged xs2 s n ys2) s1 ?k"
  proof -
    have e: "owned bs s1 n1'" if "False" for n1' using that by simp
    have x1: "xs1 \<noteq> []" "ys1 \<noteq> []" using shape_middle [of xs1 s1 n1 ys1] inv m(2) by (auto simp: heap_inv_def)
    obtain rest where rest: "carve s1 n1 (unat z) = (s1, ?k, True) # rest"
      by (cases "n1 \<le> unat z + 24") (auto simp: carve_def)
    have b: "KS < s1" "s1 + 24 + ?k < KE"
      using heap_inv_bounds [of h1 xs1 s1 ?k True "rest @ ys1"] m(5) x1 by (simp_all add: rest)
    have "(s1, ?k, True) \<in> live (merged xs2 s n ys2)" unfolding lf by blast
    then have "(s1, ?k, True) \<in> set (merged xs2 s n ys2)" using live_sub by blast
    with b show ?thesis unfolding owned_def by blast
  qed
  have nk: "n \<le> ?k" using z k by simp
  show ?thesis using run realloc_resultI [OF h3(2) ow k nk lf kf data] unfolding m(4) by blast
qed

lemma owned_ptr:
  assumes "heap_inv h bs" "owned bs s n"
  shows "(of_nat (s + 16) :: u32) \<noteq> 0" "(of_nat (s + 16) :: u32) - LEFT_EDGE_SIZE = of_nat s"
    "hd_size (hmem h) (of_nat s) = of_nat n" "hd_signature (hmem h) (of_nat s) = HEAP_DATA_BLOCK_MAGIC"
    "unat (of_nat n :: u32) = n"
proof -
  obtain L where L: "hrel h L bs KE KE []" using assms(1) by (auto simp: heap_inv_def)
  have b: "(s, n, True) \<in> set bs \<union> set []" using assms(2) by (simp add: owned_def)
  note z = hrel_size [OF L b]
  show "hd_size (hmem h) (of_nat s) = of_nat n" "unat (of_nat n :: u32) = n" by (rule z(1), rule z(4))
  show "hd_signature (hmem h) (of_nat s) = HEAP_DATA_BLOCK_MAGIC" by (simp add: z(2) magic_simps)
  show "(of_nat (s + 16) :: u32) - LEFT_EDGE_SIZE = of_nat s" by (simp add: LEFT_EDGE_SIZE_def)
  have "unat (of_nat (s + 16) :: u32) = s + 16" using z(7) KS_KE by (simp only: unat_of_nat) simp
  then show "(of_nat (s + 16) :: u32) \<noteq> 0" by (metis unat_0 add_is_0 zero_neq_numeral)
qed

lemma realloc_ok:
  assumes inv: "heap_inv h bs" and own: "owned bs s n" and z: "z \<noteq> 0" and f: "unat z \<le> n \<or> fits bs (unat z)"
  shows "\<exists>res. realloc (of_nat (s + 16)) z h = Some (Inr res) \<and> realloc_result h bs s n (unat z) res"
proof (cases "unat z \<le> n")
  case True
  note o = owned_ptr [OF inv own]
  have "realloc (of_nat (s + 16)) z h = Some (Inr (of_nat (s + 16), h))"
    unfolding realloc_def o(2-4) Let_def using o(1,5) z True by (simp add: word_le_nat_alt)
  moreover have "live bs = insert (s, n, True) (live bs - {(s, n, True)})" using own by (auto simp: owned_def live_def)
  then have "realloc_result h bs s n (unat z) (of_nat (s + 16), h)"
    using realloc_resultI [OF inv own True order.refl, of bs s h] by simp
  with calculation show ?thesis by blast
next
  case False
  show ?thesis
  proof (cases "\<exists>xs r m cs. bs = xs @ (s, n, True) # (r, m, False) # cs \<and> unat z \<le> m + n + 24")
    case True
    then obtain xs r m cs where b: "bs = xs @ (s, n, True) # (r, m, False) # cs" "unat z \<le> m + n + 24" by blast
    have "xs \<noteq> []"
      using heap_inv_bounds(1) [of h xs s n True "(r, m, False) # cs"] inv own b(1) by (simp add: owned_def)
    with realloc_in_place [of h xs s n r m cs z] inv b False show ?thesis by simp
  next
    case nn: False
    with realloc_move [OF inv own _ _ nn] False f show ?thesis by simp
  qed
qed

section \<open>alligned\_malloc\<close>

lemma align_up:
  assumes a: "pow2w a" and p: "unat p + unat a \<le> 2 ^ 32"
  defines "q \<equiv> (p + a - 1) AND NOT (a - 1)"
  shows "unat a dvd unat q" "unat p \<le> unat q" "unat q < unat p + unat a"
proof -
  obtain k where k: "k < 32" "a = 2 ^ k" using a by (auto simp: pow2w_iff)
  have ua: "unat a = 2 ^ k" using k by (simp add: unat_2p)
  let ?x = "p + a - 1"
  have a0: "0 < unat a" using a by simp
  have x: "unat ?x = unat p + unat a - 1"
  proof -
    have e: "p + a - 1 = of_nat (unat p + unat a - 1)" using a0 by (simp add: of_nat_diff)
    have "unat p + unat a - 1 < 2 ^ 32" using p a0 by linarith
    then show ?thesis unfolding e by (simp only: unat_of_nat) simp
  qed
  have q: "q = push_bit k (drop_bit k ?x)"
    unfolding q_def k(2) by (rule bit_word_eqI) (auto simp: bit_simps mask_eq_decr_exp [symmetric] simp flip: mask_eq_decr_exp)
  have "unat q = unat ?x div 2 ^ k * 2 ^ k"
  proof -
    have "unat ?x div 2 ^ k * 2 ^ k \<le> unat ?x" by simp
    also have "\<dots> < 2 ^ 32" by (rule unat_less_2p32)
    finally show ?thesis unfolding q unat_push unat_drop by simp
  qed
  then have e: "unat q = (unat p + unat a - 1) div unat a * unat a" unfolding x ua .
  show "unat a dvd unat q" unfolding e by simp
  have "unat p + unat a - 1 = (unat p + unat a - 1) div unat a * unat a + (unat p + unat a - 1) mod unat a" by simp
  moreover have "(unat p + unat a - 1) mod unat a < unat a" using a0 by simp
  ultimately show "unat p \<le> unat q" "unat q < unat p + unat a" using e a0 by linarith+
qed

lemma open_used_left:
  assumes "hrel h L (xs @ [(s, n, True)]) lo hi ys"
  shows "hrel (h\<lparr> hmem := heap_block_erase (hmem h) (of_nat s) \<rparr>) L xs s hi ys"
    "keeps (set xs \<union> set ys) (hmem h) (heap_block_erase (hmem h) (of_nat s))"
    "mem_bytes (heap_block_erase (hmem h) (of_nat s)) (s + 16) n = mem_bytes (hmem h) (s + 16) n"
proof -
  note d = hrelD [OF assms]
  have t: "tile KS xs s" "lo = s + 24 + n" using d(1) by (auto simp: tile_snoc)
  have nb: "(s, n, True) \<notin> set xs \<union> set ys" by (rule gap_insert(2) [OF t(1) _ _ d(3)]) (use t d in auto)
  have e: "set (xs @ [(s, n, True)]) \<union> set ys - {(s, n, True)} = set xs \<union> set ys" using nb by auto
  note c = erase_used_core [OF hrel_sepd [OF assms] d(4), of s n, unfolded e]
  show "hrel (h\<lparr> hmem := heap_block_erase (hmem h) (of_nat s) \<rparr>) L xs s hi ys"
    "keeps (set xs \<union> set ys) (hmem h) (heap_block_erase (hmem h) (of_nat s))"
    using c(1,2) d t by (auto simp: hrel_def)
  have b: "(s, n, True) \<in> set (xs @ [(s, n, True)]) \<union> set ys" by simp
  have sz: "ld32 (hmem h) (of_nat (s + 4)) = of_nat n" using hrel_size(1) [OF assms b] by (simp add: hd_size_def)
  have bnd: "s + 24 + n \<le> 2 ^ 32" using hrel_size(7) [OF assms b] KS_KE by simp
  show "mem_bytes (heap_block_erase (hmem h) (of_nat s)) (s + 16) n = mem_bytes (hmem h) (s + 16) n"
    by (rule mem_bytes_chg [OF heap_block_erase_ok [OF bnd sz]]) (use bnd in auto)
qed

text \<open>Every live object of \<open>bs\<close> is still there, at the same place, at least as large and unchanged.\<close>

definition survives :: "block list \<Rightarrow> mem \<Rightarrow> block list \<Rightarrow> mem \<Rightarrow> bool" where
  "survives bs m bs' m' = (\<forall>s n. (s, n, True) \<in> live bs \<longrightarrow>
     (\<exists>n' \<ge> n. (s, n', True) \<in> live bs' \<and> mem_bytes m' (s + 16) n = mem_bytes m (s + 16) n))"

definition aligned_result :: "heap_t \<Rightarrow> block list \<Rightarrow> nat \<Rightarrow> nat \<Rightarrow> u32 \<times> heap_t \<Rightarrow> bool" where
  "aligned_result h bs k a = (\<lambda>(p, h'). \<exists>bs' s n. heap_inv h' bs' \<and> p = of_nat (s + 16) \<and> a dvd s + 16 \<and>
     owned bs' s n \<and> k \<le> n \<and> survives bs (hmem h) bs' (hmem h'))"

lemma survivesI:
  assumes "\<And>s n. (s, n, True) \<in> live bs \<Longrightarrow> \<exists>n' \<ge> n. (s, n', True) \<in> live bs'"
    and "\<And>s n. (s, n, True) \<in> live bs \<Longrightarrow> mem_bytes m' (s + 16) n = mem_bytes m (s + 16) n"
  shows "survives bs m bs' m'"
  using assms by (fastforce simp: survives_def)

lemma aligned_resultI: "heap_inv h' bs' \<Longrightarrow> a dvd s + 16 \<Longrightarrow> owned bs' s n \<Longrightarrow> k \<le> n \<Longrightarrow>
  survives bs (hmem h) bs' (hmem h') \<Longrightarrow> aligned_result h bs k a (of_nat (s + 16), h')"
  unfolding aligned_result_def by blast

lemma keepsD: "keeps B m m' \<Longrightarrow> (s, n, u) \<in> B \<Longrightarrow> mem_bytes m' (s + 16) n = mem_bytes m (s + 16) n"
  by (auto simp: keeps_def payload_def)

lemma alligned_malloc_ok:
  assumes inv: "heap_inv h bs" and z: "z \<noteq> 0" and a: "pow2w a" and ov: "unat z + unat a \<le> 2 ^ 31"
    and fit: "fits bs (unat z + unat a - 1)"
  shows "\<exists>res. alligned_malloc z a h = Some (Inr res) \<and> aligned_result h bs (unat z) (unat a) res"
proof -
  have a0: "0 < unat a" using a by simp
  let ?Z = "z + a - 1"
  have uZ: "unat ?Z = unat z + unat a - 1"
  proof -
    have e: "z + a - 1 = of_nat (unat z + unat a - 1)" using a0 by (simp add: of_nat_diff)
    have "unat z + unat a - 1 < 2 ^ 32" using ov by simp
    then show ?thesis unfolding e by (simp only: unat_of_nat) simp
  qed
  have Z0: "?Z \<noteq> 0" using uZ z a0 by (metis add_diff_assoc add_is_0 less_eq_Suc_le One_nat_def unat_0 unat_eq_0)
  obtain h1 xs s n ys where m: "malloc ?Z h = Some (Inr (of_nat (s + 16), h1))" "bs = xs @ (s, n, False) # ys"
    "unat ?Z \<le> n" "heap_inv h1 (xs @ carve s n (unat ?Z) @ ys)" "keeps (set xs \<union> set ys) (hmem h) (hmem h1)"
  proof -
    obtain r where r: "malloc ?Z h = Some (Inr r)" "alloc_result h bs (unat ?Z) r"
      using malloc_ok [OF inv Z0] fit uZ by auto
    obtain p h1 where p: "r = (p, h1)" by (cases r)
    from r(2)[unfolded p alloc_result_def] show thesis using that r(1) p by auto
  qed
  define k where "k = (if n \<le> unat ?Z + 24 then n else unat ?Z)"
  obtain rest where rest: "carve s n (unat ?Z) = (s, k, True) # rest"
    by (cases "n \<le> unat ?Z + 24") (auto simp: carve_def k_def)
  have lr: "live rest = {}" by (cases "n \<le> unat ?Z + 24") (use rest in \<open>auto simp: carve_def live_def\<close>)
  have kZ: "unat z + unat a - 1 \<le> k" using m(3) uZ by (simp add: k_def)
  let ?ys = "rest @ ys"
  have inv1: "heap_inv h1 (xs @ (s, k, True) # ?ys)" using m(4) rest by simp
  have sm: "xs \<noteq> []" "ys \<noteq> []" "used (last xs)" using shape_middle [of xs s n ys] inv m(2) by (simp_all add: heap_inv_def)
  have bd: "KS < s" "s + 24 + k < KE" using heap_inv_bounds [OF inv1] sm by simp_all
  obtain xs' ps pn where xs: "xs = xs' @ [(ps, pn, True)]"
    using sm(1,3) by (cases xs rule: rev_cases) (auto simp: used_def)
  obtain L1 mid where h1: "hrel h1 L1 xs mid mid ((s, k, True) # ?ys)" using heap_inv_split [OF inv1] by blast
  have mid: "mid = s" "s = ps + 24 + pn" using h1 by (auto simp: hrel_def xs tile_snoc)
  define p where "p = (of_nat (s + 16) :: u32)"
  have up: "unat p = s + 16" unfolding p_def using bd(2) KS_KE by (simp only: unat_of_nat) simp
  have p0: "p \<noteq> 0" using up by (metis unat_0 add_is_0 zero_neq_numeral)
  define q where "q = (p + a - 1) AND NOT (a - 1)"
  have sa: "s + 16 + unat a \<le> KE" using bd(2) kZ z by (simp add: unat_eq_0 [symmetric] del: unat_eq_0)
  have al: "unat a dvd unat q" "unat p \<le> unat q" "unat q < unat p + unat a"
    using align_up [OF a, of p] up sa KS_KE unfolding q_def by auto
  define d where "d = unat q - unat p"
  have qd: "unat q = s + d + 16" "d < unat a" using al up d_def by auto
  have q: "q = of_nat (s + d + 16)" unfolding qd(1) [symmetric] by simp
  have dk: "d \<le> k" "unat z \<le> k - d" using qd(2) kZ by auto
  note o = open_used [OF h1 [unfolded mid(1)]]
  let ?m1 = "heap_block_erase (hmem h1) (of_nat s)"
  let ?h2 = "h1\<lparr> hmem := ?m1 \<rparr>"
  have len: "s + d + 24 + (k - d) = s + 24 + k" using dk by simp
  have o1: "hrel ?h2 L1 xs s (s + d + 24 + (k - d)) ?ys" unfolding len by (rule o(1))
  note f = fill_data_right [OF o1 le_add1]
  let ?m2 = "create_data_block ?m1 (of_nat (s + d)) (of_nat (k - d))"
  let ?h3 = "h1\<lparr> hmem := ?m2 \<rparr>"
  have f1: "hrel ?h3 L1 xs s (s + d) ((s + d, k - d, True) # ?ys)" using f(1) by simp
  have k12: "keeps (set xs \<union> set ?ys) (hmem h1) ?m2" using keeps_trans [OF o(2) f(2)[simplified]] by simp
  have ptr: "p - LEFT_EDGE_SIZE = of_nat s" "q - LEFT_EDGE_SIZE = of_nat (s + d)"
    by (simp_all add: p_def q LEFT_EDGE_SIZE_def)
  have sz2: "get_block_end ?m1 (of_nat s) - of_nat (s + d) - SERVICE_FIELDS_SIZE = of_nat (k - d)"
    using o(3) dk by (simp add: get_block_end_def SERVICE_24 of_nat_diff)
  have pin: "(ps, pn, True) \<in> set xs \<union> set ((s + d, k - d, True) # ?ys)" by (simp add: xs)
  have c3: "hcore ?h3 L1 (set xs \<union> set ((s + d, k - d, True) # ?ys))" by (rule hrelD(4) [OF f1])
  note pc = core_size [OF c3 pin]
  have esig: "end_signature ?m2 (of_nat s - RIGHT_EDGE_SIZE) = HEAP_DATA_BLOCK_MAGIC"
    and bst: "get_block_start ?m2 (of_nat s) = of_nat ps" and psz: "hd_size ?m2 (of_nat ps) = of_nat pn"
    using pc mid(2) by (simp_all add: magic_simps get_block_start_def service_defs ac_simps)
  have dB: "d < 2 ^ 31" using qd(2) ov by simp
  have left: "sint (of_nat (s + d) - of_nat s - SERVICE_FIELDS_SIZE :: u32) = int d - 24"
  proof -
    have "(of_nat (s + d) - of_nat s - SERVICE_FIELDS_SIZE :: u32) = of_nat d - of_nat 24" by (simp add: SERVICE_24)
    then show ?thesis using sint_diff [of d 24] dB by simp
  qed
  have liv1: "live bs = live xs \<union> live ys" by (simp add: m(2) live_Cons)
  have shm: "shape (xs @ [(s + d, k - d, True)] @ ?ys)"
    by (rule shape_replace [of xs "(s, k, True)"]) (use inv1 sm in \<open>auto simp: heap_inv_def\<close>)
  have start: "alligned_malloc z a h = (if sint (of_nat (s + d) - of_nat s - SERVICE_FIELDS_SIZE :: u32) \<le> 0 then
        Some (Inr (q, h1\<lparr> hmem := create_data_block (heap_block_erase ?m2 (of_nat ps)) (of_nat ps)
          (of_nat pn + of_nat (s + d) - of_nat s) \<rparr>))
      else Some (rbind (heap_add_void (of_nat s) (of_nat (s + d) - of_nat s - SERVICE_FIELDS_SIZE) ?h3) (\<lambda>h. Inr (q, h))))"
  proof -
    have A: "a \<noteq> 0" "\<not> a AND (a - 1) \<noteq> 0" using a by (simp_all add: pow2w_def)
    have "\<not> (z = 0 \<or> a = 0)" using z A by simp
    then show ?thesis
      unfolding alligned_malloc_def if_not_P [OF A(2)] m(1) p_def [symmetric] lbind_simps prod.case Let_def
        q_def [symmetric] ptr sz2 esig bst psz using p0 by simp
  qed
  have qs: "q = of_nat ((s + d) + 16)" by (simp add: q)
  have dv: "unat a dvd (s + d) + 16" using al(1) qd(1) by simp
  show ?thesis
  proof (cases "d \<le> 24")
    case True
    note ol = open_used_left [OF f1 [unfolded xs]]
    let ?m4 = "heap_block_erase ?m2 (of_nat ps)"
    let ?bs' = "xs' @ [(ps, pn + d, True)] @ (s + d, k - d, True) # ?ys"
    have fl: "ps + 24 + (pn + d) \<le> s + d" using mid(2) by simp
    note g = fill_data [OF ol(1) fl]
    let ?m5 = "create_data_block ?m4 (of_nat ps) (of_nat (pn + d))"
    have w: "(of_nat pn + of_nat (s + d) - of_nat s :: u32) = of_nat (pn + d)" by simp
    have "int d - 24 \<le> 0" using True by simp
    then have run: "alligned_malloc z a h = Some (Inr (q, h1\<lparr> hmem := ?m5 \<rparr>))" unfolding start left w by simp
    have e: "ps + 24 + (pn + d) = s + d" using mid(2) by simp
    have "hrel (h1\<lparr> hmem := ?m5 \<rparr>) L1 (xs' @ [(ps, pn + d, True)]) (s + d) (s + d) ((s + d, k - d, True) # ?ys)"
      using g(1) unfolding e by simp
    moreover have "shape (xs' @ [(ps, pn + d, True)] @ (s + d, k - d, True) # ?ys)"
      by (rule shape_replace [of xs' "(ps, pn, True)"]) (use shm xs in simp_all)
    ultimately have hi: "heap_inv (h1\<lparr> hmem := ?m5 \<rparr>) ?bs'" using heap_invI by fastforce
    have own: "owned ?bs' (s + d) (k - d)" using bd dk by (simp add: owned_def)
    have olk: "keeps (set xs' \<union> set ((s + d, k - d, True) # ?ys)) ?m2 ?m4" using ol(2) by simp
    have gk: "keeps (set xs' \<union> set ((s + d, k - d, True) # ?ys)) ?m4 ?m5" using g(2) by simp
    have kp: "keeps (set xs' \<union> set ys) (hmem h) ?m5"
      by (rule keeps_mono [OF keeps_trans [OF m(5) keeps_trans [OF k12 keeps_trans [OF olk gk]]]])
        (auto simp: xs)
    have pb: "ps + 24 + (pn + d) \<le> 2 ^ 32" using bd(2) e dk KS_KE by simp
    have prev: "mem_bytes ?m5 (ps + 16) pn = mem_bytes (hmem h) (ps + 16) pn"
    proof -
      have "mem_bytes ?m5 (ps + 16) pn = mem_bytes ?m4 (ps + 16) pn" by (rule create_keeps_prefix) (use pb in auto)
      also have "\<dots> = mem_bytes ?m2 (ps + 16) pn" using ol(3) by simp
      also have "\<dots> = mem_bytes (hmem h1) (ps + 16) pn" using keepsD [OF k12, of ps pn True] by (simp add: xs)
      also have "\<dots> = mem_bytes (hmem h) (ps + 16) pn" using keepsD [OF m(5), of ps pn True] by (simp add: xs)
      finally show ?thesis .
    qed
    have "survives bs (hmem h) ?bs' (hmem (h1\<lparr> hmem := ?m5 \<rparr>))"
    proof (rule survivesI)
      fix t j assume "(t, j, True) \<in> live bs"
      then have t: "(t, j, True) = (ps, pn, True) \<or> (t, j, True) \<in> set xs' \<union> set ys"
        and t': "(t, j, True) = (ps, pn, True) \<or> (t, j, True) \<in> live xs' \<union> live ys"
        unfolding liv1 by (auto simp: xs live_def)
      show "\<exists>n' \<ge> j. (t, n', True) \<in> live ?bs'"
      proof (cases "(t, j, True) = (ps, pn, True)")
        case True
        then show ?thesis by (intro exI [of _ "pn + d"]) (simp add: live_Cons)
      next
        case False
        then show ?thesis using t' by (intro exI [of _ j]) (auto simp: live_Cons)
      qed
      show "mem_bytes (hmem (h1\<lparr> hmem := ?m5 \<rparr>)) (t + 16) j = mem_bytes (hmem h) (t + 16) j"
        using t prev keepsD [OF kp, of t j True] by auto
    qed
    from aligned_resultI [OF hi dv own dk(2) this] run show ?thesis unfolding qs by blast
  next
    case False
    have w: "(of_nat (s + d) - of_nat s - SERVICE_FIELDS_SIZE :: u32) = of_nat (d - 24)"
      using False by (simp add: SERVICE_24 of_nat_diff)
    have "s + 24 + (d - 24) \<le> s + d" using False by simp
    from fill_void [OF f1 this] obtain h4 L4 where h4: "heap_add_void (of_nat s) (of_nat (d - 24)) ?h3 = Inr h4"
      "hrel h4 L4 (xs @ [(s, d - 24, False)]) (s + 24 + (d - 24)) (s + d) ((s + d, k - d, True) # ?ys)"
      "keeps (set xs \<union> set ((s + d, k - d, True) # ?ys)) ?m2 (hmem h4)" by auto
    have e: "s + 24 + (d - 24) = s + d" using False by simp
    let ?bs' = "(xs @ [(s, d - 24, False)]) @ (s + d, k - d, True) # ?ys"
    have "\<not> int d - 24 \<le> 0" using False by simp
    then have run: "alligned_malloc z a h = Some (Inr (q, h4))" unfolding start left unfolding w h4(1) by simp
    have "shape (xs @ [(s, d - 24, False), (s + d, k - d, True)] @ ?ys)"
      by (rule shape_replace [OF shm [simplified]]) (use sm in simp_all)
    then have hi: "heap_inv h4 ?bs'" using heap_invI [OF h4(2) [unfolded e]] by simp
    have own: "owned ?bs' (s + d) (k - d)" using bd dk by (simp add: owned_def)
    have kp: "keeps (set xs \<union> set ys) (hmem h) (hmem h4)"
      by (rule keeps_mono [OF keeps_trans [OF m(5) keeps_trans [OF k12 h4(3)]]]) auto
    have "survives bs (hmem h) ?bs' (hmem h4)"
    proof (rule survivesI)
      fix t j assume t: "(t, j, True) \<in> live bs"
      then have t': "(t, j, True) \<in> set xs \<union> set ys" unfolding liv1 by (auto simp: live_def)
      show "\<exists>n' \<ge> j. (t, n', True) \<in> live ?bs'" using t unfolding liv1 by (auto simp: live_Cons)
      show "mem_bytes (hmem h4) (t + 16) j = mem_bytes (hmem h) (t + 16) j" by (rule keepsD [OF kp t'])
    qed
    from aligned_resultI [OF hi dv own dk(2) this] run show ?thesis unfolding qs by blast
  qed
qed

section \<open>The allocator as an interface\<close>

text \<open>What users of dynamic memory rely on: a state with an invariant, the objects alive in it (address and
  room), their bytes, and the two operations.  The promises are that a new object has the room asked for and
  shares no address with another, and that the operations leave every other object as it is.\<close>

locale allocator =
  fixes inv :: "'s \<Rightarrow> bool"
    and objs :: "'s \<Rightarrow> (nat \<times> nat) set"
    and data :: "'s \<Rightarrow> nat \<Rightarrow> nat \<Rightarrow> bytes"
    and alloc :: "nat \<Rightarrow> 's \<Rightarrow> (nat \<times> 's) option"
    and release :: "nat \<Rightarrow> 's \<Rightarrow> 's option"
  assumes objs_apart: "inv s \<Longrightarrow> (a, n) \<in> objs s \<Longrightarrow> (b, k) \<in> objs s \<Longrightarrow> (a, n) \<noteq> (b, k) \<Longrightarrow> a + n \<le> b \<or> b + k \<le> a"
    and alloc_ok: "inv s \<Longrightarrow> alloc k s = Some (a, s') \<Longrightarrow>
      inv s' \<and> (\<exists>n \<ge> k. (a, n) \<notin> objs s \<and> objs s' = insert (a, n) (objs s))"
    and alloc_data: "inv s \<Longrightarrow> alloc k s = Some (a, s') \<Longrightarrow> (b, n) \<in> objs s \<Longrightarrow> data s' b n = data s b n"
    and release_ok: "inv s \<Longrightarrow> (a, n) \<in> objs s \<Longrightarrow>
      \<exists>s'. release a s = Some s' \<and> inv s' \<and> objs s' = objs s - {(a, n)} \<and>
        (\<forall>(b, k) \<in> objs s - {(a, n)}. data s' b k = data s b k)"
begin

lemma alloc_apart:
  assumes "inv s" "alloc k s = Some (a, s')" "(b, n) \<in> objs s"
  shows "a + k \<le> b \<or> b + n \<le> a"
proof -
  obtain m where m: "k \<le> m" "inv s'" "(a, m) \<notin> objs s" "objs s' = insert (a, m) (objs s)"
    using alloc_ok [OF assms(1,2)] by blast
  then have "a + m \<le> b \<or> b + n \<le> a" using objs_apart [OF m(2), of a m b n] assms(3) by auto
  with m(1) show ?thesis by linarith
qed

text \<open>A series of allocations.\<close>

fun allocs :: "nat list \<Rightarrow> 's \<Rightarrow> ((nat \<times> nat) list \<times> 's) option" where
  "allocs [] s = Some ([], s)"
| "allocs (k # ks) s = (case alloc k s of None \<Rightarrow> None
    | Some (a, s) \<Rightarrow> (case allocs ks s of None \<Rightarrow> None | Some (as, s) \<Rightarrow> Some ((a, k) # as, s)))"

lemma allocs_apart:
  assumes "inv s" "allocs ks s = Some (as, s')" "\<forall>k \<in> set ks. 0 < k"
  shows "inv s' \<and> map snd as = ks \<and>
    (\<forall>i < length as. \<forall>j < i. fst (as ! j) + snd (as ! j) \<le> fst (as ! i) \<or> fst (as ! i) + snd (as ! i) \<le> fst (as ! j)) \<and>
    (\<forall>(a, k) \<in> set as. \<forall>(b, n) \<in> objs s. a + k \<le> b \<or> b + n \<le> a) \<and>
    (\<forall>(b, n) \<in> objs s. (b, n) \<in> objs s' \<and> data s' b n = data s b n)"
  using assms
proof (induction ks arbitrary: s as)
  case (Cons k ks)
  obtain a s1 as1 where a: "alloc k s = Some (a, s1)" "allocs ks s1 = Some (as1, s')" "as = (a, k) # as1"
    using Cons.prems(2) by (auto split: option.splits)
  obtain m where m: "k \<le> m" "inv s1" "(a, m) \<notin> objs s" "objs s1 = insert (a, m) (objs s)"
    using alloc_ok [OF Cons.prems(1) a(1)] by blast
  have pos: "\<forall>k \<in> set ks. 0 < k" using Cons.prems(3) by simp
  note ih = Cons.IH [OF m(2) a(2) pos]
  have am: "b + j \<le> a \<or> a + k \<le> b" if "(b, j) \<in> set as1" for b j
    using ih that m(1,4) by fastforce
  have first: "a + k \<le> b \<or> b + n \<le> a" if "(b, n) \<in> objs s" for b n
    by (rule alloc_apart [OF Cons.prems(1) a(1) that])
  have pairs: "fst (as ! j) + snd (as ! j) \<le> fst (as ! i) \<or> fst (as ! i) + snd (as ! i) \<le> fst (as ! j)"
    if ij: "i < length as" "j < i" for i j
  proof -
    obtain i' where i: "i = Suc i'" "i' < length as1" using ij a(3) by (cases i) auto
    show ?thesis
    proof (cases j)
      case 0
      then show ?thesis using am [of "fst (as1 ! i')" "snd (as1 ! i')"] i a(3) by auto
    next
      case (Suc j')
      then show ?thesis using ih i ij a(3) by simp
    qed
  qed
  have old: "(b, n) \<in> objs s' \<and> data s' b n = data s b n" if b: "(b, n) \<in> objs s" for b n
  proof -
    have "(b, n) \<in> objs s1" using m(4) b by simp
    then have "(b, n) \<in> objs s' \<and> data s' b n = data s1 b n" using ih by blast
    with alloc_data [OF Cons.prems(1) a(1) b] show ?thesis by simp
  qed
  show ?case
  proof (intro conjI)
    show "inv s'" "map snd as = k # ks" using ih a(3) by simp_all
    show "\<forall>(c, l) \<in> set as. \<forall>(b, n) \<in> objs s. c + l \<le> b \<or> b + n \<le> c"
      using ih first m(4) unfolding a(3) by fastforce
  qed (use pairs old in blast)+
qed simp

end

text \<open>The heap provides it.  The block list is a function of the memory.\<close>

lemma tile_determined:
  assumes "tile lo bs hi" "tile lo bs' hi" "\<forall>b \<in> set bs \<union> set bs'. block_ok m b" "hi \<le> 2 ^ 32"
  shows "bs = bs'"
  using assms
proof (induction lo bs hi arbitrary: bs' rule: tile.induct)
  case (1 lo hi)
  then have "lo = hi" "tile lo bs' hi" by simp_all
  then show ?case by (cases bs') (fastforce dest: tile_le)+
next
  case (2 lo s n u bs hi)
  have l: "lo + 24 + n \<le> hi" "s = lo" using 2(2) tile_le by auto
  obtain n' u' cs where b': "bs' = (lo, n', u') # cs" using 2(3) l by (cases bs') auto
  have l': "lo + 24 + n' \<le> hi" using 2(3) tile_le unfolding b' by auto
  have "(of_nat n :: u32) = of_nat n'" "magic u = magic u'"
    using 2(4) unfolding b' l(2) by (metis block_ok.simps list.set_intros(1) UnI1 UnI2)+
  then have "n = n'" "u = u'" using l l' 2(5) by (simp_all add: of_nat_u32_inj)
  moreover have "bs = cs" by (rule 2(1)) (use 2 calculation b' in auto)
  ultimately show ?case using b' l by simp
qed

lemma heap_inv_unique: "heap_inv h bs \<Longrightarrow> heap_inv h bs' \<Longrightarrow> bs = bs'"
  by (rule tile_determined [of KS bs KE bs' "hmem h"]) (auto simp: heap_inv_def hrel_def hcore_def KS_KE simp del: block_ok.simps)

lemma inv_apart:
  assumes "heap_inv h bs" "(s, n, u) \<in> set bs" "(t, k, v) \<in> set bs" "(s, n, u) \<noteq> (t, k, v)"
  shows "s + 24 + n \<le> t \<or> t + 24 + k \<le> s"
proof -
  have "sepd (set bs)" using assms(1) by (auto simp: heap_inv_def dest: hrel_sepd)
  from sepdD(3) [OF this assms(2-4)] show ?thesis .
qed

definition heap_objs :: "heap_t \<Rightarrow> (nat \<times> nat) set" where
  "heap_objs h = {(a, n). \<exists>bs. heap_inv h bs \<and> 16 \<le> a \<and> owned bs (a - 16) n}"

lemma heap_objs_eq: "heap_inv h bs \<Longrightarrow> heap_objs h = {(s + 16, n) | s n. owned bs s n}"
proof -
  assume a: "heap_inv h bs"
  have "(\<exists>bs'. heap_inv h bs' \<and> P bs') \<longleftrightarrow> P bs" for P using heap_inv_unique [OF _ a] a by metis
  then have "heap_objs h = {(a, n). 16 \<le> a \<and> owned bs (a - 16) n}" by (simp add: heap_objs_def)
  then have "(a, n) \<in> heap_objs h \<longleftrightarrow> (\<exists>s. owned bs s n \<and> a = s + 16)" for a n
    by (cases "16 \<le> a") (auto intro: exI [where x = "a - 16"])
  then show ?thesis by auto
qed

definition heap_ok :: "heap_t \<Rightarrow> bool" where
  "heap_ok h = (\<exists>bs. heap_inv h bs)"

definition heap_alloc :: "nat \<Rightarrow> heap_t \<Rightarrow> (nat \<times> heap_t) option" where
  "heap_alloc k h = (if k = 0 \<or> 2 ^ 32 \<le> k then None else
     case malloc (of_nat k) h of Some (Inr (p, h')) \<Rightarrow> Some (unat p, h') | _ \<Rightarrow> None)"

definition heap_release :: "nat \<Rightarrow> heap_t \<Rightarrow> heap_t option" where
  "heap_release a h = (case free (of_nat a) h of Inl e \<Rightarrow> None | Inr h' \<Rightarrow> Some h')"

lemma owned_live: "owned bs s n \<longleftrightarrow> (s, n, True) \<in> live bs \<and> KS < s \<and> s + 24 + n < KE"
  by (auto simp: owned_def live_def)

lemma malloc_result:
  assumes inv: "heap_inv h bs" and z: "z \<noteq> 0"
  shows "if fits bs (unat z) then \<exists>s n h' bs'. malloc z h = Some (Inr (of_nat (s + 16), h')) \<and> heap_inv h' bs' \<and>
      owned bs' s n \<and> unat z \<le> n \<and> (s, n, True) \<notin> live bs \<and> live bs' = insert (s, n, True) (live bs) \<and>
      keeps (live bs) (hmem h) (hmem h')
    else \<exists>msg. malloc z h = Some (Inl (Panic msg))"
proof (cases "fits bs (unat z)")
  case True
  then obtain r where r: "malloc z h = Some (Inr r)" "alloc_result h bs (unat z) r" using malloc_ok [OF inv z] by auto
  obtain p h' where p: "r = (p, h')" by (cases r)
  from r(2) obtain xs s n ys where a: "bs = xs @ (s, n, False) # ys" "unat z \<le> n" "p = of_nat (s + 16)"
    "heap_inv h' (xs @ carve s n (unat z) @ ys)" "keeps (set xs \<union> set ys) (hmem h) (hmem h')"
    unfolding p alloc_result_def by auto
  let ?bs = "xs @ carve s n (unat z) @ ys"
  let ?k = "if n \<le> unat z + 24 then n else unat z"
  obtain rest where rest: "carve s n (unat z) = (s, ?k, True) # rest"
    by (cases "n \<le> unat z + 24") (auto simp: carve_def)
  have ne: "xs \<noteq> []" "ys \<noteq> []" using shape_middle [of xs s n ys] inv a(1) by (auto simp: heap_inv_def)
  have lv: "live ?bs = insert (s, ?k, True) (live bs)" by (auto simp: a(1) carve_facts live_Cons)
  have "owned ?bs s ?k"
    using heap_inv_bounds [of h' xs s ?k True "rest @ ys"] a(4) ne lv by (simp add: owned_live rest)
  moreover have "(s, ?k, True) \<notin> live bs"
  proof
    assume "(s, ?k, True) \<in> live bs"
    then have "(s, ?k, True) \<in> set bs" using live_sub by blast
    moreover have "(s, n, False) \<in> set bs" by (simp add: a(1))
    moreover have "sepd (set bs)" using inv by (auto simp: heap_inv_def dest: hrel_sepd)
    ultimately show False using sepd_start by blast
  qed
  moreover have "keeps (live bs) (hmem h) (hmem h')" by (rule keeps_mono [OF a(5)]) (auto simp: a(1) live_def)
  moreover have "unat z \<le> ?k" using a(2) by simp
  ultimately have "\<exists>s n h' bs'. malloc z h = Some (Inr (of_nat (s + 16), h')) \<and> heap_inv h' bs' \<and>
      owned bs' s n \<and> unat z \<le> n \<and> (s, n, True) \<notin> live bs \<and> live bs' = insert (s, n, True) (live bs) \<and>
      keeps (live bs) (hmem h) (hmem h')"
    using r(1) a(3,4) lv unfolding p by blast
  with True show ?thesis by simp
next
  case False
  then show ?thesis using malloc_ok [OF inv z] by simp
qed

lemma free_result:
  assumes inv: "heap_inv h bs" and own: "owned bs s n"
  shows "\<exists>h' bs'. free (of_nat (s + 16)) h = Inr h' \<and> heap_inv h' bs' \<and> live bs' = live bs - {(s, n, True)} \<and>
    keeps (live bs - {(s, n, True)}) (hmem h) (hmem h')"
proof -
  obtain xs ys where bs: "bs = xs @ (s, n, True) # ys" "xs \<noteq> []" "ys \<noteq> []" using owned_split [OF inv own] by blast
  have l: "live bs - {(s, n, True)} = live xs \<union> live ys" using distinct_middle(2) inv unfolding bs(1) by blast
  show ?thesis using free_ok [of h xs s n ys] inv bs l live_merged [OF bs(2,3), of s n] by auto
qed

lemma heap_alloc_result:
  assumes h: "heap_ok h" and a: "heap_alloc k h = Some (a, h')"
  shows "heap_ok h' \<and> (\<exists>n \<ge> k. (a, n) \<notin> heap_objs h \<and> heap_objs h' = insert (a, n) (heap_objs h))"
    and "(b, m) \<in> heap_objs h \<Longrightarrow> mem_bytes (hmem h') b m = mem_bytes (hmem h) b m"
proof -
  obtain bs where inv: "heap_inv h bs" using h by (auto simp: heap_ok_def)
  have k: "0 < k" "k < 2 ^ 32" "unat (of_nat k :: u32) = k"
    using a by (auto simp: heap_alloc_def unat_of_nat split: if_splits)
  then have z: "(of_nat k :: u32) \<noteq> 0" by (metis unat_0 less_numeral_extra(3))
  obtain p where m: "malloc (of_nat k) h = Some (Inr (p, h'))" "a = unat p"
    using a by (auto simp: heap_alloc_def split: if_splits option.splits sum.splits)
  obtain s n bs' where r: "p = of_nat (s + 16)" "heap_inv h' bs'" "owned bs' s n" "k \<le> n" "(s, n, True) \<notin> live bs"
    "live bs' = insert (s, n, True) (live bs)" "keeps (live bs) (hmem h) (hmem h')"
    using malloc_result [OF inv z] m(1) k(3) by (auto split: if_splits simp del: of_nat_add)
  have "s + 16 < 2 ^ 32" using r(3) KS_KE by (simp add: owned_def)
  then have u: "a = s + 16" unfolding m(2) r(1) by (simp only: unat_of_nat) simp
  have "heap_objs h' = insert (a, n) (heap_objs h)"
    unfolding heap_objs_eq [OF inv] heap_objs_eq [OF r(2)] owned_live r(6) u using r(3) by (auto simp: owned_def)
  moreover have "(a, n) \<notin> heap_objs h" using r(5) by (auto simp: heap_objs_eq [OF inv] owned_live u)
  ultimately show "heap_ok h' \<and> (\<exists>n \<ge> k. (a, n) \<notin> heap_objs h \<and> heap_objs h' = insert (a, n) (heap_objs h))"
    using r(2,4) by (auto simp: heap_ok_def)
  show "(b, m) \<in> heap_objs h \<Longrightarrow> mem_bytes (hmem h') b m = mem_bytes (hmem h) b m"
    using keepsD [OF r(7)] by (auto simp: heap_objs_eq [OF inv] owned_live)
qed

lemma heap_release_result:
  assumes h: "heap_ok h" and a: "(a, n) \<in> heap_objs h"
  shows "\<exists>h'. heap_release a h = Some h' \<and> heap_ok h' \<and> heap_objs h' = heap_objs h - {(a, n)} \<and>
    (\<forall>(b, k) \<in> heap_objs h - {(a, n)}. mem_bytes (hmem h') b k = mem_bytes (hmem h) b k)"
proof -
  obtain bs where inv: "heap_inv h bs" using h by (auto simp: heap_ok_def)
  obtain s where s: "a = s + 16" "owned bs s n" using a by (auto simp: heap_objs_eq [OF inv])
  obtain h' bs' where r: "free (of_nat (s + 16)) h = Inr h'" "heap_inv h' bs'" "live bs' = live bs - {(s, n, True)}"
    "keeps (live bs - {(s, n, True)}) (hmem h) (hmem h')" using free_result [OF inv s(2)] by blast
  have "heap_objs h' = heap_objs h - {(a, n)}"
    unfolding heap_objs_eq [OF inv] heap_objs_eq [OF r(2)] owned_live r(3) s(1) by auto
  moreover have "\<forall>(b, k) \<in> heap_objs h - {(a, n)}. mem_bytes (hmem h') b k = mem_bytes (hmem h) b k"
    using keepsD [OF r(4)] by (fastforce simp: heap_objs_eq [OF inv] owned_live s(1))
  ultimately show ?thesis using r(1,2) by (auto simp: heap_release_def heap_ok_def s(1) simp del: of_nat_add)
qed

lemma heap_objs_apart:
  assumes "heap_ok h" "(a, n) \<in> heap_objs h" "(b, k) \<in> heap_objs h" "(a, n) \<noteq> (b, k)"
  shows "a + n \<le> b \<or> b + k \<le> a"
proof -
  obtain bs where inv: "heap_inv h bs" using assms(1) by (auto simp: heap_ok_def)
  obtain s t where "a = s + 16" "b = t + 16" "(s, n, True) \<in> set bs" "(t, k, True) \<in> set bs"
    using assms(2,3) by (auto simp: heap_objs_eq [OF inv] owned_def)
  with inv_apart [OF inv, of s n True t k True] assms(4) show ?thesis by auto
qed

interpretation kheap: allocator heap_ok heap_objs "\<lambda>h. mem_bytes (hmem h)" heap_alloc heap_release
proof
  fix h h' :: heap_t and a b n k :: nat
  show "heap_ok h \<Longrightarrow> (a, n) \<in> heap_objs h \<Longrightarrow> (b, k) \<in> heap_objs h \<Longrightarrow> (a, n) \<noteq> (b, k) \<Longrightarrow> a + n \<le> b \<or> b + k \<le> a"
    by (rule heap_objs_apart)
  show "heap_ok h \<Longrightarrow> heap_alloc k h = Some (a, h') \<Longrightarrow>
      heap_ok h' \<and> (\<exists>n \<ge> k. (a, n) \<notin> heap_objs h \<and> heap_objs h' = insert (a, n) (heap_objs h))"
    by (rule heap_alloc_result(1))
  show "heap_ok h \<Longrightarrow> heap_alloc k h = Some (a, h') \<Longrightarrow> (b, n) \<in> heap_objs h \<Longrightarrow>
      mem_bytes (hmem h') b n = mem_bytes (hmem h) b n"
    by (rule heap_alloc_result(2))
  show "heap_ok h \<Longrightarrow> (a, n) \<in> heap_objs h \<Longrightarrow> \<exists>s'. heap_release a h = Some s' \<and> heap_ok s' \<and>
      heap_objs s' = heap_objs h - {(a, n)} \<and>
      (\<forall>(b, k) \<in> heap_objs h - {(a, n)}. mem_bytes (hmem s') b k = mem_bytes (hmem h) b k)"
    by (rule heap_release_result)
qed

section \<open>Properties\<close>

definition heap0_blocks :: "block list" where
  "heap0_blocks = [(KS, 0, True), (KS + 24, KE - KS - 72, False), (KE - 24, 0, True)]"

lemma heap0: obtains h where "heap_init (\<lambda>_. 0) = Inr h" "heap_inv h heap0_blocks"
  using heap_init_ok [of "\<lambda>_. 0"] by (auto simp: heap0_blocks_def)

lemma heap0_fits: "k \<le> 62914488 \<Longrightarrow> fits heap0_blocks k"
  by (simp add: fits_def heap0_blocks_def KS_KE)

text \<open>C13: In any state reached with the heap invariant, \<open>malloc\<close> returns exactly when some free block is
  large enough, and otherwise panics.  The object it returns has at least the room asked for, was not in
  use, and becomes the only new object; every live object keeps its place and its bytes, and the invariant
  -- blocks tile the heap, the bucket lists hold exactly the free blocks of their sizes, no two free
  blocks are neighbours -- holds again.\<close>

lemma malloc_correct:
  assumes "heap_inv h bs" and "z \<noteq> 0"
  shows "if fits bs (unat z) then \<exists>s n h' bs'. malloc z h = Some (Inr (of_nat (s + 16), h')) \<and> heap_inv h' bs' \<and>
      owned bs' s n \<and> unat z \<le> n \<and> (s, n, True) \<notin> live bs \<and> live bs' = insert (s, n, True) (live bs) \<and>
      keeps (live bs) (hmem h) (hmem h')
    else \<exists>msg. malloc z h = Some (Inl (Panic msg))"
  by (rule malloc_result [OF assms])

lemma malloc_correct_witness:
  "\<exists>h s n h' bs'. heap_init (\<lambda>_. 0) = Inr h \<and> malloc 100 h = Some (Inr (of_nat (s + 16), h')) \<and> heap_inv h' bs' \<and>
    owned bs' s n \<and> 100 \<le> n"
proof -
  obtain h where h: "heap_init (\<lambda>_. 0) = Inr h" "heap_inv h heap0_blocks" by (rule heap0)
  have f: "fits heap0_blocks (unat (100 :: u32))" by (rule heap0_fits) simp
  have z: "(100 :: u32) \<noteq> 0" by simp
  show ?thesis using malloc_correct [OF h(2) z, unfolded if_P [OF f]] h(1) by force
qed

text \<open>C14: \<open>free\<close> of a live object returns, ends exactly that object, merges its block with the free
  neighbours so that the invariant holds again, and leaves the bytes of every other live object.\<close>

lemma free_correct:
  assumes "heap_inv h bs" and "owned bs s n"
  shows "\<exists>h' bs'. free (of_nat (s + 16)) h = Inr h' \<and> heap_inv h' bs' \<and> live bs' = live bs - {(s, n, True)} \<and>
    keeps (live bs - {(s, n, True)}) (hmem h) (hmem h')"
  by (rule free_result [OF assms])

lemma free_correct_witness:
  "\<exists>h p h' h'' bs''. heap_init (\<lambda>_. 0) = Inr h \<and> malloc 100 h = Some (Inr (p, h')) \<and> free p h' = Inr h'' \<and>
     heap_inv h'' bs'' \<and> live bs'' = live heap0_blocks"
proof -
  obtain h where h: "heap_init (\<lambda>_. 0) = Inr h" "heap_inv h heap0_blocks" by (rule heap0)
  have f: "fits heap0_blocks (unat (100 :: u32))" by (rule heap0_fits) simp
  have z: "(100 :: u32) \<noteq> 0" by simp
  obtain s n h' bs' where m: "malloc 100 h = Some (Inr (of_nat (s + 16), h'))" "heap_inv h' bs'" "owned bs' s n"
    "(s, n, True) \<notin> live heap0_blocks" "live bs' = insert (s, n, True) (live heap0_blocks)"
    using malloc_result [OF h(2) z, unfolded if_P [OF f]] by blast
  obtain h'' bs'' where "free (of_nat (s + 16)) h' = Inr h''" "heap_inv h'' bs''" "live bs'' = live bs' - {(s, n, True)}"
    using free_correct [OF m(2,3)] by blast
  moreover have "live bs' - {(s, n, True)} = live heap0_blocks" using m(4,5) by simp
  ultimately show ?thesis using h(1) m(1) by auto
qed

text \<open>C15: \<open>realloc\<close> of a live object, in place, by growing into the next free block or by moving, returns
  whenever the object already has the room or some free block has it: the new object has at least the room
  asked for and at least the old room, starts with the old bytes and replaces the old object, and nothing
  else changes.\<close>

lemma realloc_correct:
  assumes "heap_inv h bs" and "owned bs s n" and "z \<noteq> 0" and "unat z \<le> n \<or> fits bs (unat z)"
  shows "\<exists>res. realloc (of_nat (s + 16)) z h = Some (Inr res) \<and> realloc_result h bs s n (unat z) res"
  by (rule realloc_ok [OF assms])

lemma realloc_correct_witness:
  "\<exists>h s h' bs' n res. heap_init (\<lambda>_. 0) = Inr h \<and> malloc 8 h = Some (Inr (of_nat (s + 16), h')) \<and>
     realloc (of_nat (s + 16)) 8 h' = Some (Inr res) \<and> realloc_result h' bs' s n 8 res"
proof -
  obtain h where h: "heap_init (\<lambda>_. 0) = Inr h" "heap_inv h heap0_blocks" by (rule heap0)
  have f: "fits heap0_blocks (unat (8 :: u32))" by (rule heap0_fits) simp
  have z: "(8 :: u32) \<noteq> 0" by simp
  obtain s n h' bs' where m: "malloc 8 h = Some (Inr (of_nat (s + 16), h'))" "heap_inv h' bs'" "owned bs' s n" "unat (8 :: u32) \<le> n"
    using malloc_result [OF h(2) z, unfolded if_P [OF f]] by blast
  from realloc_correct [OF m(2,3) z disjI1 [OF m(4)]] obtain res where
    "realloc (of_nat (s + 16)) 8 h' = Some (Inr res)" "realloc_result h' bs' s n (unat (8 :: u32)) res" by blast
  with h(1) m(1) show ?thesis by (intro exI conjI) simp_all
qed

text \<open>\<open>alligned_malloc\<close> with a power of two returns an object at an address that is a multiple of it,
  with the room asked for, whenever a free block has room for size and alignment together; every live
  object survives in place with its bytes (the one before the new object may have been given the gap).\<close>

lemma alligned_malloc_correct:
  assumes "heap_inv h bs" and "z \<noteq> 0" and "pow2w a" and "unat z + unat a \<le> 2 ^ 31"
    and "fits bs (unat z + unat a - 1)"
  shows "\<exists>res. alligned_malloc z a h = Some (Inr res) \<and> aligned_result h bs (unat z) (unat a) res"
  by (rule alligned_malloc_ok [OF assms])

lemma alligned_malloc_correct_witness:
  "\<exists>h res. heap_init (\<lambda>_. 0) = Inr h \<and> alligned_malloc 512 16 h = Some (Inr res) \<and>
     aligned_result h heap0_blocks (unat (512 :: u32)) (unat (16 :: u32)) res"
proof -
  obtain h where h: "heap_init (\<lambda>_. 0) = Inr h" "heap_inv h heap0_blocks" by (rule heap0)
  have "fits heap0_blocks (unat (512 :: u32) + unat (16 :: u32) - 1)" by (rule heap0_fits) simp
  from alligned_malloc_correct [OF h(2) _ _ _ this] h(1) show ?thesis by (auto simp: pow2w_def)
qed

text \<open>However many objects are allocated one after the other, they are pairwise disjoint, disjoint from
  everything that was alive before, and what was alive before is still alive with the same bytes.\<close>

lemma malloc_series_disjoint:
  assumes "heap_ok h" and "kheap.allocs ks h = Some (as, h')" and "\<forall>k \<in> set ks. 0 < k"
  shows "heap_ok h' \<and> map snd as = ks \<and>
    (\<forall>i < length as. \<forall>j < i. fst (as ! j) + snd (as ! j) \<le> fst (as ! i) \<or> fst (as ! i) + snd (as ! i) \<le> fst (as ! j)) \<and>
    (\<forall>(a, k) \<in> set as. \<forall>(b, n) \<in> heap_objs h. a + k \<le> b \<or> b + n \<le> a) \<and>
    (\<forall>(b, n) \<in> heap_objs h. (b, n) \<in> heap_objs h' \<and> mem_bytes (hmem h') b n = mem_bytes (hmem h) b n)"
  by (rule kheap.allocs_apart [OF assms])

lemma malloc_series_disjoint_witness:
  "\<exists>h a h'. heap_init (\<lambda>_. 0) = Inr h \<and> kheap.allocs [100] h = Some ([(a, 100)], h') \<and> heap_ok h'"
proof -
  obtain h where h: "heap_init (\<lambda>_. 0) = Inr h" "heap_inv h heap0_blocks" by (rule heap0)
  have f: "fits heap0_blocks (unat (100 :: u32))" by (rule heap0_fits) simp
  have z: "(100 :: u32) \<noteq> 0" by simp
  obtain s h' where m: "malloc 100 h = Some (Inr (of_nat (s + 16), h'))"
    using malloc_result [OF h(2) z, unfolded if_P [OF f]] by blast
  then have a: "kheap.allocs [100] h = Some ([(unat (of_nat (s + 16) :: u32), 100)], h')"
    by (simp add: heap_alloc_def del: of_nat_add)
  have "heap_ok h" using h(2) by (auto simp: heap_ok_def)
  with malloc_series_disjoint [OF _ a] h(1) a show ?thesis by auto
qed

end
