(* ===== verification/Strings.thy ===== *)
theory Strings
  imports Kernel_Prelude
begin

text \<open>
  The string routines of \<^verbatim>\<open>lib/string.c\<close>, the block routines of \<^verbatim>\<open>kernel/system.c\<close> and the
  generator of \<^verbatim>\<open>lib/random.c\<close>.  A pointer argument is the object it points into, the list of
  its bytes from the pointer on; an access past the end of that list is the fault
  \<open>Out_Of_Bounds\<close>.  An object is shorter than \<open>2 ^ 32\<close> bytes, so the \<open>uint32_t\<close> counters of the
  scans do not wrap.  \<open>char\<close> is signed: comparisons of characters and their promotion to \<open>int\<close>
  extend the sign (\<open>scast\<close>).
\<close>

unbundle bit_operations_syntax

section \<open>Scans\<close>

fun strlen_loop :: "bytes \<Rightarrow> u32 \<Rightarrow> u32 res" where
  "strlen_loop [] len = Inl Out_Of_Bounds"
| "strlen_loop (c # s) len = (if c \<noteq> 0 then strlen_loop s (len + 1) else Inr len)"

definition strlen :: "bytes \<Rightarrow> u32 res" where
  "strlen s = strlen_loop s 0"

fun strcmp :: "bytes \<Rightarrow> bytes \<Rightarrow> i32 res" where
  "strcmp (a # as) (b # bs) =
     (if a = b then (if a = 0 then Inr 0 else strcmp as bs)
      else Inr (if b <s a then 1 else - 1))"
| "strcmp as bs = Inl Out_Of_Bounds"

text \<open>\<open>strncmp\<close> has no \<open>return\<close> after its loop: \<open>n\<close> equal characters give no value.\<close>

fun strncmp_loop :: "bytes \<Rightarrow> bytes \<Rightarrow> nat \<Rightarrow> i32 res" where
  "strncmp_loop as bs 0 = Inl (Undefined ''no return value'')"
| "strncmp_loop (a # as) (b # bs) (Suc n) =
     (if a = b then (if a = 0 then Inr 0 else strncmp_loop as bs n)
      else Inr (if b <s a then 1 else - 1))"
| "strncmp_loop as bs (Suc n) = Inl Out_Of_Bounds"

definition strncmp :: "bytes \<Rightarrow> bytes \<Rightarrow> u32 \<Rightarrow> i32 res" where
  "strncmp a b n = strncmp_loop a b (unat n)"

fun strchr_loop :: "bytes \<Rightarrow> u8 \<Rightarrow> u32 \<Rightarrow> u32 res" where
  "strchr_loop [] chr i = Inl Out_Of_Bounds"
| "strchr_loop (c # s) chr i =
     (if c \<noteq> 0 \<and> c \<noteq> chr then strchr_loop s chr (i + 1)
      else if c = 0 then Inr (- 1) else Inr i)"

definition strchr :: "bytes \<Rightarrow> u8 \<Rightarrow> u32 res" where
  "strchr s chr = strchr_loop s chr 0"

fun strchr_r_loop :: "bytes \<Rightarrow> u8 \<Rightarrow> u32 \<Rightarrow> u32 \<Rightarrow> u32 res" where
  "strchr_r_loop [] chr i result = Inl Out_Of_Bounds"
| "strchr_r_loop (c # s) chr i result =
     (if c \<noteq> 0 then strchr_r_loop s chr (i + 1) (if c = chr then i else result) else Inr result)"

definition strchr_r :: "bytes \<Rightarrow> u8 \<Rightarrow> u32 res" where
  "strchr_r s chr = strchr_r_loop s chr 0 (- 1)"

section \<open>Characters\<close>

definition LOWER :: "i32 \<Rightarrow> i32" where
  "LOWER ch = (if 0x41 \<le>s ch \<and> ch \<le>s 0x5A then ch + (0x61 - 0x41) else ch)"

definition UPPER :: "i32 \<Rightarrow> i32" where
  "UPPER ch = (if 0x61 \<le>s ch \<and> ch \<le>s 0x7A then ch - (0x61 - 0x41) else ch)"

definition DIGIT_BY_INDEX :: "u32 \<Rightarrow> u32" where
  "DIGIT_BY_INDEX n = (if n \<ge> 10 then 0x61 + (n - 10) else 0x30 + n)"

definition INDEX_BY_DIGIT :: "u8 \<Rightarrow> i32" where
  "INDEX_BY_DIGIT c = (if 0x61 \<le>s (scast c :: i32) then scast c - 0x61 + 10 else scast c - 0x30)"

definition toupper :: "i32 \<Rightarrow> i32" where
  "toupper c = UPPER (scast (ucast c :: u8))"

definition tolower :: "i32 \<Rightarrow> i32" where
  "tolower c = LOWER (scast (ucast c :: u8))"

definition isxdigit :: "i32 \<Rightarrow> bool" where
  "isxdigit c = (0x30 \<le>s c \<and> c \<le>s 0x39 \<or> 0x61 \<le>s LOWER c \<and> LOWER c \<le>s 0x66)"

definition isdigit :: "i32 \<Rightarrow> bool" where
  "isdigit c = (0x30 \<le>s c \<and> c \<le>s 0x39)"

definition isspace :: "i32 \<Rightarrow> bool" where
  "isspace c = (c = 0x20 \<or> c = 9 \<or> c = 10 \<or> c = 11 \<or> c = 12 \<or> c = 13)"

definition isprint :: "i32 \<Rightarrow> bool" where
  "isprint c = (0x20 \<le>s c \<and> c \<le>s 0x7E)"

definition isalpha :: "i32 \<Rightarrow> bool" where
  "isalpha c = (0x61 \<le>s LOWER c \<and> LOWER c \<le>s 0x7A)"

fun string_to_lower :: "bytes \<Rightarrow> bytes res" where
  "string_to_lower [] = Inl Out_Of_Bounds"
| "string_to_lower (c # s) =
     (if c \<noteq> 0 then rbind (string_to_lower s) (\<lambda>t. Inr (ucast (LOWER (scast c)) # t)) else Inr (c # s))"

fun string_to_upper :: "bytes \<Rightarrow> bytes res" where
  "string_to_upper [] = Inl Out_Of_Bounds"
| "string_to_upper (c # s) =
     (if c \<noteq> 0 then rbind (string_to_upper s) (\<lambda>t. Inr (ucast (UPPER (scast c)) # t)) else Inr (c # s))"

section \<open>Blocks of memory\<close>

definition memset :: "bytes \<Rightarrow> nat \<Rightarrow> u8 \<Rightarrow> u32 \<Rightarrow> bytes res" where
  "memset ptr off value n = rfor (\<lambda>i b. buf_write b (off + i) [value]) 0 (unat n) ptr"

text \<open>Whole words while they fit, then bytes.\<close>

function memcmp_words :: "bytes \<Rightarrow> bytes \<Rightarrow> nat \<Rightarrow> nat \<Rightarrow> (bool \<times> nat) res" where
  "memcmp_words a b i n =
     (if i + 4 \<le> n then
        rbind (buf_read a i 4) (\<lambda>x. rbind (buf_read b i 4) (\<lambda>y.
        if x \<noteq> y then Inr (False, i) else memcmp_words a b (i + 4) n))
      else Inr (True, i))"
  by pat_completeness auto

termination
  by (relation "measure (\<lambda>(a, b, i, n). n - i)") auto

function memcmp_bytes :: "bytes \<Rightarrow> bytes \<Rightarrow> nat \<Rightarrow> nat \<Rightarrow> bool res" where
  "memcmp_bytes a b i n =
     (if i < n then
        rbind (buf_read a i 1) (\<lambda>x. rbind (buf_read b i 1) (\<lambda>y.
        if x \<noteq> y then Inr False else memcmp_bytes a b (i + 1) n))
      else Inr True)"
  by pat_completeness auto

termination
  by (relation "measure (\<lambda>(a, b, i, n). n - i)") auto

declare memcmp_words.simps [simp del] memcmp_bytes.simps [simp del]

definition memcmp :: "bytes \<Rightarrow> bytes \<Rightarrow> u32 \<Rightarrow> bool res" where
  "memcmp a b n = rbind (memcmp_words a b 0 (unat n)) (\<lambda>(eq, i).
     if eq then memcmp_bytes a b i (unat n) else Inr False)"

text \<open>\<open>memswap\<close> never advances its pointers: each round exchanges the first word, or byte.\<close>

definition swap_first :: "nat \<Rightarrow> bytes \<Rightarrow> bytes \<Rightarrow> (bytes \<times> bytes) res" where
  "swap_first k a b =
     rbind (buf_read a 0 k) (\<lambda>tmp. rbind (buf_read b 0 k) (\<lambda>y.
     rbind (buf_write a 0 y) (\<lambda>a. rbind (buf_write b 0 tmp) (\<lambda>b. Inr (a, b)))))"

definition memswap :: "bytes \<Rightarrow> bytes \<Rightarrow> u32 \<Rightarrow> (bytes \<times> bytes) res" where
  "memswap a b n =
     rbind (rfor (\<lambda>_ (a, b). swap_first 4 a b) 0 (unat n div 4) (a, b)) (\<lambda>(a, b).
     rfor (\<lambda>_ (a, b). swap_first 1 a b) 0 (unat n mod 4) (a, b))"

section \<open>Copies and concatenation\<close>

text \<open>\<open>fresh n\<close> is the content of the block \<open>malloc(n)\<close> returns.\<close>

definition strdup :: "(u32 \<Rightarrow> bytes) \<Rightarrow> bytes \<Rightarrow> bytes res" where
  "strdup fresh src =
     rbind (strlen src) (\<lambda>len.
     let result = fresh (len + 1) in
     rbind (buf_write result (unat len) [0]) (\<lambda>result.
     buf_copy result 0 src 0 (unat len)))"

definition strcat :: "bytes \<Rightarrow> bytes \<Rightarrow> bytes res" where
  "strcat dst src =
     rbind (strlen dst) (\<lambda>len_dst. rbind (strlen src) (\<lambda>len_src.
     rbind (buf_copy dst (unat len_dst) src 0 (unat len_src)) (\<lambda>dst.
     buf_write dst (unat (len_dst + len_src)) [0])))"

definition strncat :: "bytes \<Rightarrow> bytes \<Rightarrow> u32 \<Rightarrow> bytes res" where
  "strncat dst src n =
     rbind (strlen dst) (\<lambda>len_dst. rbind (strlen src) (\<lambda>len_src.
     let cnt = min len_src n in
     rbind (buf_copy dst (unat len_dst) src 0 (unat cnt)) (\<lambda>dst.
     buf_write dst (unat (len_dst + cnt)) [0])))"

definition strcpy :: "bytes \<Rightarrow> bytes \<Rightarrow> bytes res" where
  "strcpy dst src = rbind (strlen src) (\<lambda>len. buf_copy dst 0 src 0 (unat (len + 1)))"

definition strncpy :: "bytes \<Rightarrow> bytes \<Rightarrow> u32 \<Rightarrow> bytes res" where
  "strncpy dst src n =
     rbind (strlen src) (\<lambda>len.
     rbind (buf_copy dst 0 src 0 (unat (min (len + 1) n))) (\<lambda>dst.
     if len + 1 < n then memset dst (unat (len + 1)) 0 (n - (len + 1)) else Inr dst))"

section \<open>UTF-8\<close>

definition utf8_put :: "u16 \<Rightarrow> bytes" where
  "utf8_put c =
     (if c \<le> 0x7F then [ucast c]
      else if c \<le> 0x7FF then
        [ucast (0xC0 OR (drop_bit 6 c AND 0x1F)), ucast (0x80 OR (c AND 0x3F))]
      else
        [ucast (0xE0 OR (drop_bit 12 c AND 0x0F)), ucast (0x80 OR (drop_bit 6 c AND 0x3F)),
         ucast (0x80 OR (c AND 0x3F))])"

fun wide_char_to_utf8_loop :: "bytes \<Rightarrow> u16 list \<Rightarrow> u32 \<Rightarrow> u32 \<Rightarrow> (bytes \<times> u32) res" where
  "wide_char_to_utf8_loop dst [] dst_size j = Inl Out_Of_Bounds"
| "wide_char_to_utf8_loop dst (c # src) dst_size j =
     (if c \<noteq> 0 \<and> j < dst_size - 4 then
        rbind (buf_write dst (unat j) (utf8_put c)) (\<lambda>dst.
        wide_char_to_utf8_loop dst src dst_size (j + of_nat (length (utf8_put c))))
      else Inr (dst, j))"

definition wide_char_to_utf8 :: "bytes \<Rightarrow> u16 list \<Rightarrow> u32 \<Rightarrow> (bytes \<times> u32) res" where
  "wide_char_to_utf8 dst src dst_size =
     rbind (wide_char_to_utf8_loop dst src dst_size 0) (\<lambda>(dst, j).
     rbind (buf_write dst (unat j) [0]) (\<lambda>dst. Inr (dst, j)))"

definition rd8 :: "bytes \<Rightarrow> nat \<Rightarrow> u32 res" where
  "rd8 s i = (if i < length s then Inr (scast (s ! i)) else Inl Out_Of_Bounds)"

definition wr16 :: "u16 list \<Rightarrow> u32 \<Rightarrow> u16 \<Rightarrow> u16 list res" where
  "wr16 d j v = (if unat j < length d then Inr (d[unat j := v]) else Inl Out_Of_Bounds)"

text \<open>One round: the code unit and how many bytes it took.\<close>

definition utf8_get :: "bytes \<Rightarrow> nat \<Rightarrow> (u16 \<times> nat) res" where
  "utf8_get src i =
     rbind (rd8 src i) (\<lambda>c.
     if c AND 0x80 = 0 then Inr (ucast c, 1)
     else if c AND 0xE0 = 0xC0 then
       rbind (rd8 src (i + 1)) (\<lambda>c1.
       Inr (ucast (push_bit 6 (c AND 0x1F) OR (c1 AND 0x3F)), 2))
     else if c AND 0xF0 = 0xE0 then
       rbind (rd8 src (i + 1)) (\<lambda>c1. rbind (rd8 src (i + 2)) (\<lambda>c2.
       Inr (ucast (push_bit 12 (c AND 0x0F) OR push_bit 6 (c1 AND 0x3F) OR (c2 AND 0x3F)), 3)))
     else Inr (0x3F, 1))"

lemma utf8_get_pos: "utf8_get src i = Inr (w, k) \<Longrightarrow> i < length src \<and> 0 < k"
  by (auto simp: utf8_get_def rbind_eq_Inr rd8_def split: if_splits)

function utf8_to_wide_char_loop :: "u16 list \<Rightarrow> bytes \<Rightarrow> u32 \<Rightarrow> nat \<Rightarrow> u32 \<Rightarrow> (u16 list \<times> u32) res" where
  "utf8_to_wide_char_loop dst src dst_size i j =
     (if i < length src then
        if src ! i \<noteq> 0 \<and> j < dst_size then
          case utf8_get src i of
            Inl e \<Rightarrow> Inl e
          | Inr (w, k) \<Rightarrow>
              rbind (wr16 dst j w) (\<lambda>dst. utf8_to_wide_char_loop dst src dst_size (i + k) (j + 1))
        else Inr (dst, j)
      else Inl Out_Of_Bounds)"
  by pat_completeness auto

termination
  by (relation "measure (\<lambda>(dst, src, dst_size, i, j). length src - i)") (auto dest: utf8_get_pos)

declare utf8_to_wide_char_loop.simps [simp del]

definition utf8_to_wide_char :: "u16 list \<Rightarrow> bytes \<Rightarrow> u32 \<Rightarrow> (u16 list \<times> u32) res" where
  "utf8_to_wide_char dst src dst_size =
     rbind (utf8_to_wide_char_loop dst src dst_size 0 0) (\<lambda>(dst, j).
     rbind (wr16 dst j 0) (\<lambda>dst. Inr (dst, j)))"

section \<open>Numbers\<close>

partial_function (option) uint32_digits :: "u32 \<Rightarrow> u8 \<Rightarrow> u16 \<Rightarrow> u16 lres" where
  [code]: "uint32_digits i base len =
     (if i = 0 then Some (Inr len)
      else if base = 0 then Some (Inl (Undefined ''division by zero''))
      else uint32_digits (i div ucast base) base (len + 1))"

partial_function (option) uint32_put_digits :: "u32 \<Rightarrow> bytes \<Rightarrow> u8 \<Rightarrow> u16 \<Rightarrow> bytes lres" where
  [code]: "uint32_put_digits number result base len =
     (if number = 0 then Some (Inr result)
      else if base = 0 then Some (Inl (Undefined ''division by zero''))
      else case buf_write result (unat (len - 1)) [ucast (DIGIT_BY_INDEX (number mod ucast base))] of
             Inl e \<Rightarrow> Some (Inl e)
           | Inr result \<Rightarrow> uint32_put_digits (number div ucast base) result base (len - 1))"

definition uint32_to_string :: "u32 \<Rightarrow> bytes \<Rightarrow> u8 \<Rightarrow> bytes lres" where
  "uint32_to_string number result base =
     lbind (uint32_digits number base 0) (uint32_put_digits number result base)"

text \<open>The number, and how far \<open>*endsym\<close> was moved from \<open>str\<close>.\<close>

fun strtoul_loop :: "bytes \<Rightarrow> u8 \<Rightarrow> u32 \<Rightarrow> u32 \<Rightarrow> (u32 \<times> u32) res" where
  "strtoul_loop [] base result endsym = Inl Out_Of_Bounds"
| "strtoul_loop (c # s) base result endsym =
     (if c = 0 then Inr (result, endsym)
      else if isspace (scast c) then strtoul_loop s base result endsym
      else let index = INDEX_BY_DIGIT c in
           if index \<ge> ucast base then Inr (result, endsym)
           else strtoul_loop s base (result * ucast base + index) (endsym + 1))"

definition strtoul :: "bytes \<Rightarrow> u8 \<Rightarrow> (u32 \<times> u32) res" where
  "strtoul str base = strtoul_loop str base 0 0"

section \<open>Random numbers\<close>

definition srand :: "u32 \<Rightarrow> u32" where
  "srand s = s"

definition rand :: "u32 \<Rightarrow> u32 \<times> u32" where
  "rand seed = (let seed = (seed * 1103515245 + 12345) AND 0x7FFFFFFF in (seed, seed))"

section \<open>Scans and copies of terminated strings\<close>

lemma strlen_loop_ok: "0 \<notin> set s \<Longrightarrow> strlen_loop (s @ 0 # r) n = Inr (n + of_nat (length s))"
  by (induction s arbitrary: n) (auto simp: ac_simps)

lemma strlen_ok [simp]: "0 \<notin> set s \<Longrightarrow> strlen (s @ 0 # r) = Inr (of_nat (length s))"
  by (simp add: strlen_def strlen_loop_ok)

text \<open>\<open>strcmp\<close> compares in the lexicographic order of signed characters, the terminator included.\<close>

lemma strcmp_ok:
  "0 \<notin> set s \<Longrightarrow> 0 \<notin> set t \<Longrightarrow>
   strcmp (s @ 0 # r) (t @ 0 # q) =
     Inr (if s = t then 0
          else if (s @ [0], t @ [0]) \<in> lexord {(x, y). x <s y} then - 1 else 1)"
proof (induction s arbitrary: t)
  case Nil
  then show ?case by (cases t) (auto simp: signed.not_less)
next
  case (Cons a s)
  then show ?case by (cases t) (auto simp: signed.less_le)
qed

lemma strcat_ok:
  assumes "0 \<notin> set s" "0 \<notin> set t" "length s + length t < length dst" "length dst \<le> 2 ^ 32"
    and "take (Suc (length s)) dst = s @ [0]"
  shows "strcat dst (t @ 0 # r) = Inr (s @ t @ 0 # drop (length s + length t + 1) dst)"
proof -
  have d: "dst = s @ 0 # drop (Suc (length s)) dst"
    using append_take_drop_id [of "Suc (length s)" dst] assms(5) by simp
  have l: "strlen dst = Inr (of_nat (length s))" by (subst d) (simp add: assms(1))
  have u: "unat (of_nat (length s) :: u32) = length s" "unat (of_nat (length t) :: u32) = length t"
    "unat (of_nat (length s) + of_nat (length t) :: u32) = length s + length t"
    using assms(3,4) by (simp_all add: unat_of_nat flip: of_nat_add)
  have "take (length s) dst = s" by (subst d) simp
  then show ?thesis using assms(3)
    by (simp add: strcat_def l assms(2) u buf_copy_ok)
qed

section \<open>Comparison and exchange of blocks\<close>

lemma take_step_eq:
  "i + k \<le> length a \<Longrightarrow> i + k \<le> length b \<Longrightarrow>
   take (i + k) a = take (i + k) b \<longleftrightarrow> take i a = take i b \<and> take k (drop i a) = take k (drop i b)"
  by (auto simp: take_add)

lemma memcmp_bytes_ok:
  "n \<le> length a \<Longrightarrow> n \<le> length b \<Longrightarrow> i \<le> n \<Longrightarrow> take i a = take i b \<Longrightarrow>
   memcmp_bytes a b i n = Inr (take n a = take n b)"
proof (induction a b i n rule: memcmp_bytes.induct)
  case (1 a b i n)
  show ?case
  proof (cases "i < n")
    case True
    have "take n a = take n b \<longrightarrow> take (i + 1) a = take (i + 1) b"
      using True by (metis Suc_eq_plus1 Suc_leI min.absorb1 take_take)
    with True 1 show ?thesis
      by (subst memcmp_bytes.simps) (auto simp: take_step_eq simp del: One_nat_def)
  qed (use 1 in \<open>simp add: memcmp_bytes.simps\<close>)
qed

lemma memcmp_words_ok:
  "n \<le> length a \<Longrightarrow> n \<le> length b \<Longrightarrow> i \<le> n \<Longrightarrow> take i a = take i b \<Longrightarrow>
   \<exists>eq j. memcmp_words a b i n = Inr (eq, j) \<and> j \<le> n \<and> (eq \<longrightarrow> take j a = take j b) \<and>
     (\<not> eq \<longrightarrow> take n a \<noteq> take n b)"
proof (induction a b i n rule: memcmp_words.induct)
  case (1 a b i n)
  show ?case
  proof (cases "i + 4 \<le> n")
    case True
    have "take n a = take n b \<longrightarrow> take (i + 4) a = take (i + 4) b"
      using True by (metis min.absorb1 take_take)
    with True 1 show ?thesis
      by (subst memcmp_words.simps) (auto simp: take_step_eq)
  qed (use 1 in \<open>auto simp: memcmp_words.simps\<close>)
qed

lemma memcmp_ok:
  "unat n \<le> length a \<Longrightarrow> unat n \<le> length b \<Longrightarrow>
   memcmp a b n = Inr (take (unat n) a = take (unat n) b)"
  using memcmp_words_ok [of "unat n" a b 0] by (auto simp: memcmp_def memcmp_bytes_ok)

lemma swap_first_ok:
  "k \<le> length a \<Longrightarrow> k \<le> length b \<Longrightarrow>
   swap_first k a b = Inr (take k b @ drop k a, take k a @ drop k b)"
  by (simp add: swap_first_def min_def)

lemma swap_first_even:
  "k \<le> length a \<Longrightarrow> k \<le> length b \<Longrightarrow>
   rfor (\<lambda>_ (a, b). swap_first k a b) lo (2 * m) (a, b) = Inr (a, b)"
proof (induction m arbitrary: lo)
  case (Suc m)
  then show ?case by (simp add: swap_first_ok)
qed simp

text \<open>So an exchange of \<open>8 * m\<close> bytes leaves both blocks as they were.\<close>

lemma memswap_no_effect:
  assumes "unat n = 8 * m" "unat n \<le> length a" "unat n \<le> length b"
  shows "memswap a b n = Inr (a, b)"
proof -
  have n: "unat n div 4 = 2 * m" "unat n mod 4 = 0" using assms(1) by simp_all
  show ?thesis
    by (cases "m = 0") (use assms in \<open>simp_all add: memswap_def n swap_first_even\<close>)
qed

lemma memswap_word:
  assumes "4 \<le> length a" "4 \<le> length b"
  shows "memswap a b 4 = Inr (take 4 b @ drop 4 a, take 4 a @ drop 4 b)"
proof -
  have n: "unat (4 :: u32) div 4 = Suc 0" "unat (4 :: u32) mod 4 = 0" by simp_all
  show ?thesis using assms by (simp only: memswap_def n rfor.simps prod.case swap_first_ok rbind.simps)
qed

section \<open>UTF-8: bits\<close>

lemma byte_masks: "(0x3F :: 'a::len word) = mask 6" "(0x1F :: 'a::len word) = mask 5" "(0x0F :: 'a::len word) = mask 4"
  "(0xC0 :: 'a::len word) = push_bit 6 (mask 2)" "(0xE0 :: 'a::len word) = push_bit 5 (mask 3)" "(0xF0 :: 'a::len word) = push_bit 4 (mask 4)"
  by (simp_all add: mask_eq_exp_minus_1 push_bit_eq_mult)

lemma less_exp_bits: "c < 2 ^ k \<Longrightarrow> k \<le> n \<Longrightarrow> \<not> bit (c :: 'a::len word) n"
  by (metis bit_take_bit_iff linorder_not_le less_mask_eq take_bit_eq_mask)

lemma bit_word_128: "bit (128 :: 'a::len word) n \<longleftrightarrow> n = 7 \<and> 7 < LENGTH('a)"
proof -
  have "(128 :: 'a word) = 2 ^ 7" by simp
  then show ?thesis by (metis bit_exp_iff possible_bit_word)
qed

lemma bit_128_int: "bit (128 :: int) n \<longleftrightarrow> n = 7"
proof -
  have "(128 :: int) = 2 ^ 7" by simp
  then show ?thesis by (metis bit_exp_iff possible_bit_int)
qed

lemma utf8_cont: "(scast (ucast (0x80 OR (c AND 0x3F) :: u16) :: u8) :: u32) AND 0x3F = ucast (c AND 0x3F)"
  unfolding byte_masks by (rule bit_word_eqI) (auto simp: bit_simps bit_word_128 bit_128_int)

lemma utf8_lead2: "(scast (ucast (0xC0 OR (c AND 0x1F) :: u16) :: u8) :: u32) AND 0x1F = ucast (c AND 0x1F)"
  unfolding byte_masks by (rule bit_word_eqI) (auto simp: bit_simps bit_word_128 bit_128_int)

lemma utf8_lead3: "(scast (ucast (0xE0 OR (c AND 0x0F) :: u16) :: u8) :: u32) AND 0x0F = ucast (c AND 0x0F)"
  unfolding byte_masks by (rule bit_word_eqI) (auto simp: bit_simps bit_word_128 bit_128_int)

lemma utf8_tag2: "(scast (ucast (0xC0 OR (c AND 0x1F) :: u16) :: u8) :: u32) AND 0xE0 = 0xC0"
  unfolding byte_masks by (rule bit_word_eqI) (auto simp: bit_simps bit_word_128 bit_128_int)

lemma utf8_tag2_high: "(scast (ucast (0xC0 OR (c AND 0x1F) :: u16) :: u8) :: u32) AND 0x80 = 0x80"
  unfolding byte_masks by (rule bit_word_eqI) (auto simp: bit_simps bit_word_128 bit_128_int)

lemma utf8_tag3: "(scast (ucast (0xE0 OR (c AND 0x0F) :: u16) :: u8) :: u32) AND 0xF0 = 0xE0"
  unfolding byte_masks by (rule bit_word_eqI) (auto simp: bit_simps bit_word_128 bit_128_int)

lemma utf8_tag3_high: "(scast (ucast (0xE0 OR (c AND 0x0F) :: u16) :: u8) :: u32) AND 0x80 = 0x80"
  unfolding byte_masks by (rule bit_word_eqI) (auto simp: bit_simps bit_word_128 bit_128_int)

lemma utf8_tag3_mid: "(scast (ucast (0xE0 OR (c AND 0x0F) :: u16) :: u8) :: u32) AND 0xE0 = 0xE0"
  unfolding byte_masks by (rule bit_word_eqI) (auto simp: bit_simps bit_word_128 bit_128_int)

lemma utf8_ascii_tag: "c < 2 ^ 7 \<Longrightarrow> (scast (ucast (c :: u16) :: u8) :: u32) AND 0x80 = 0"
  using less_exp_bits [of c 7] by (intro bit_word_eqI) (auto simp: bit_simps bit_word_128 bit_128_int)

lemma utf8_ascii: "c < 2 ^ 7 \<Longrightarrow> ucast (scast (ucast (c :: u16) :: u8) :: u32) = c"
  using less_exp_bits [of c 7] by (intro bit_word_eqI) (auto simp: bit_simps bit_word_128 bit_128_int min_def)

lemma utf8_join2: "c < 2 ^ 11 \<Longrightarrow> ucast (push_bit 6 (ucast (drop_bit 6 c AND 0x1F :: u16)) OR ucast (c AND 0x3F) :: u32) = c"
proof (rule bit_word_eqI)
  fix n assume "c < 2 ^ 11" "n < LENGTH(16)"
  then show "bit (ucast (push_bit 6 (ucast (drop_bit 6 c AND 0x1F :: u16)) OR ucast (c AND 0x3F) :: u32) :: u16) n = bit c n"
    using less_exp_bits [of c 11 n] unfolding byte_masks by (cases "n < 6"; cases "n < 11") (auto simp: bit_simps not_less less_diff_conv2)
qed

lemma utf8_join3: "ucast (push_bit 12 (ucast (drop_bit 12 c AND 0x0F :: u16)) OR push_bit 6 (ucast (drop_bit 6 c AND 0x3F)) OR ucast (c AND 0x3F) :: u32) = c"
proof (rule bit_word_eqI)
  fix n assume "n < LENGTH(16)"
  then show "bit (ucast (push_bit 12 (ucast (drop_bit 12 c AND 0x0F :: u16)) OR push_bit 6 (ucast (drop_bit 6 c AND 0x3F)) OR ucast (c AND 0x3F) :: u32) :: u16) n = bit c n"
    unfolding byte_masks by (cases "n < 6"; cases "n < 12") (auto simp: bit_simps not_less less_diff_conv2)
qed

section \<open>UTF-8: both routines on whole strings\<close>

lemma length_utf8_put: "0 < length (utf8_put c)" "length (utf8_put c) \<le> 3"
  by (simp_all add: utf8_put_def)

lemma utf8_put_head: "c \<noteq> 0 \<Longrightarrow> utf8_put c ! 0 \<noteq> 0"
proof -
  assume c: "c \<noteq> 0"
  have "(ucast c :: u8) \<noteq> 0" if "c \<le> 0x7F"
    using utf8_ascii [of c] c that by (auto simp: word_le_nat_alt word_less_nat_alt)
  moreover have "(ucast (0xC0 OR (drop_bit 6 c AND 0x1F) :: u16) :: u8) \<noteq> 0"
    using utf8_tag2 [of "drop_bit 6 c"] by auto
  moreover have "(ucast (0xE0 OR (drop_bit 12 c AND 0x0F) :: u16) :: u8) \<noteq> 0"
    using utf8_tag3 [of "drop_bit 12 c"] by auto
  ultimately show ?thesis by (simp add: utf8_put_def)
qed

lemma rd8_append: "rd8 (pre @ c # rest) (length pre) = Inr (scast c)"
  "rd8 (pre @ c # d # rest) (Suc (length pre)) = Inr (scast d)"
  "rd8 (pre @ c # d # e # rest) (Suc (Suc (length pre))) = Inr (scast e)"
  by (simp_all add: rd8_def nth_append)

lemma utf8_cont_mid: "push_bit 6 (scast (ucast (0x80 OR (c AND 0x3F) :: u16) :: u8) :: u32) AND 4032 =
  push_bit 6 (ucast (c AND 0x3F))"
proof -
  have "push_bit 6 ((scast (ucast (0x80 OR (c AND 0x3F) :: u16) :: u8) :: u32) AND 0x3F) =
    push_bit 6 (ucast (c AND 0x3F))" by (simp only: utf8_cont)
  then show ?thesis by (simp add: push_bit_and)
qed

lemma utf8_get_put: "utf8_get (pre @ utf8_put c @ rest) (length pre) = Inr (c, length (utf8_put c))"
proof -
  have 1: "c < 2 ^ 7" if "c \<le> 0x7F" using that by (simp add: word_le_nat_alt word_less_nat_alt)
  have 2: "c < 2 ^ 11" if "c \<le> 0x7FF" using that by (simp add: word_le_nat_alt word_less_nat_alt)
  show ?thesis
  proof (cases "c \<le> 0x7F")
    case True
    then show ?thesis
      using utf8_ascii_tag [OF 1] utf8_ascii [OF 1] by (simp add: utf8_put_def utf8_get_def rd8_append)
  next
    case F1: False
    show ?thesis
    proof (cases "c \<le> 0x7FF")
      case True
      then show ?thesis using F1 utf8_join2 [OF 2]
        by (simp add: utf8_put_def utf8_get_def rd8_append utf8_tag2 utf8_tag2_high utf8_lead2 utf8_cont)
    next
      case False
      then show ?thesis using F1 utf8_join3 [of c]
        by (simp add: utf8_put_def utf8_get_def rd8_append utf8_tag3 utf8_tag3_high utf8_tag3_mid
            utf8_lead3 utf8_cont utf8_cont_mid)
    qed
  qed
qed

definition utf8_enc :: "u16 list \<Rightarrow> bytes" where
  "utf8_enc ws = concat (map utf8_put ws)"

lemma utf8_enc_simps [simp]: "utf8_enc [] = []" "utf8_enc (c # ws) = utf8_put c @ utf8_enc ws"
  by (simp_all add: utf8_enc_def)

lemma length_utf8_enc: "length (utf8_enc ws) \<le> 3 * length ws"
proof (induction ws)
  case (Cons c ws)
  then show ?case using length_utf8_put(2) [of c] by simp
qed simp

lemma wide_char_to_utf8_loop_ok:
  assumes "0 \<notin> set ws" "unat j + 3 * length ws + 2 \<le> unat n" "unat n \<le> length dst"
  shows "wide_char_to_utf8_loop dst (ws @ 0 # r) n j =
    Inr (take (unat j) dst @ utf8_enc ws @ drop (unat j + length (utf8_enc ws)) dst,
         j + of_nat (length (utf8_enc ws)))"
  using assms
proof (induction ws arbitrary: j dst)
  case (Cons c ws)
  let ?k = "length (utf8_put c)"
  have k: "?k \<le> 3" by (rule length_utf8_put)
  have lt: "j < n - 4"
    using Cons.prems(2) by (simp add: word_less_nat_alt unat_sub_if')
  have "unat j + ?k < 2 ^ 32" using Cons.prems(2) k unat_less_2p32 [of n] by simp
  then have uj: "unat (j + of_nat ?k) = unat j + ?k" by (simp add: unat_word_ariths unat_of_nat)
  have w: "buf_write dst (unat j) (utf8_put c) =
      Inr (take (unat j) dst @ utf8_put c @ drop (unat j + ?k) dst)"
    using Cons.prems(2,3) k by simp
  let ?d = "take (unat j) dst @ utf8_put c @ drop (unat j + ?k) dst"
  have len: "length ?d = length dst" using Cons.prems(2,3) k by simp
  have "wide_char_to_utf8_loop ?d (ws @ 0 # r) n (j + of_nat ?k) =
    Inr (take (unat j + ?k) ?d @ utf8_enc ws @ drop (unat j + ?k + length (utf8_enc ws)) ?d,
         j + of_nat ?k + of_nat (length (utf8_enc ws)))"
    using Cons.IH [of "j + of_nat ?k" ?d] Cons.prems k unfolding uj len by simp
  moreover have "take (unat j + ?k) ?d = take (unat j) dst @ utf8_put c"
    using Cons.prems(2,3) by simp
  moreover have "drop (unat j + ?k + m) ?d = drop (unat j + ?k + m) dst" for m
    using Cons.prems(2,3) by (simp add: ac_simps)
  ultimately show ?case using Cons.prems(1) lt by (simp add: w add.assoc)
qed simp

lemma wide_char_to_utf8_ok:
  assumes "0 \<notin> set ws" "3 * length ws + 2 \<le> unat n" "unat n \<le> length dst"
  shows "wide_char_to_utf8 dst (ws @ 0 # r) n =
    Inr (utf8_enc ws @ 0 # drop (length (utf8_enc ws) + 1) dst, of_nat (length (utf8_enc ws)))"
proof -
  have l: "length (utf8_enc ws) + 2 \<le> unat n" using length_utf8_enc [of ws] assms(2) by linarith
  then have u: "unat (of_nat (length (utf8_enc ws)) :: u32) = length (utf8_enc ws)"
    using unat_less_2p32 [of n] by (simp add: unat_of_nat)
  show ?thesis
    using assms l wide_char_to_utf8_loop_ok [of ws 0 n dst r]
    by (simp add: wide_char_to_utf8_def u)
qed

lemma utf8_to_wide_char_loop_ok:
  assumes "0 \<notin> set ws" "unat j + length ws \<le> unat m" "unat j + length ws < length dst"
  shows "utf8_to_wide_char_loop dst (pre @ utf8_enc ws @ 0 # r) m (length pre) j =
    Inr (take (unat j) dst @ ws @ drop (unat j + length ws) dst, j + of_nat (length ws))"
  using assms
proof (induction ws arbitrary: j dst pre)
  case Nil
  then show ?case by (simp add: utf8_to_wide_char_loop.simps)
next
  case (Cons c ws)
  let ?s = "pre @ utf8_put c @ utf8_enc ws @ 0 # r" and ?d = "dst[unat j := c]"
  have j1: "j < m" "unat j < length dst" using Cons.prems(2,3) by (auto simp: word_less_nat_alt)
  note j = j1 unat_succ_less [OF j1(1)]
  have nz: "?s ! length pre \<noteq> 0"
    using utf8_put_head [of c] Cons.prems(1) length_utf8_put(1) [of c]
    by (simp add: nth_append)
  have "utf8_to_wide_char_loop ?d ((pre @ utf8_put c) @ utf8_enc ws @ 0 # r) m
      (length (pre @ utf8_put c)) (j + 1) =
    Inr (take (unat (j + 1)) ?d @ ws @ drop (unat (j + 1) + length ws) ?d, j + 1 + of_nat (length ws))"
    by (rule Cons.IH) (use Cons.prems j in auto)
  then have ih: "utf8_to_wide_char_loop ?d ?s m (length pre + length (utf8_put c)) (j + 1) =
    Inr (take (unat (j + 1)) ?d @ ws @ drop (unat (j + 1) + length ws) ?d, j + 1 + of_nat (length ws))"
    by simp
  have "take (unat j + 1) ?d = take (unat j) dst @ [c]"
    using j(2) by (simp add: take_Suc_conv_app_nth)
  then show ?case
    using Cons.prems(1) j nz ih
    by (subst utf8_to_wide_char_loop.simps) (simp add: utf8_get_put wr16_def ac_simps)
qed

lemma utf8_to_wide_char_ok:
  assumes "0 \<notin> set ws" "length ws \<le> unat m" "length ws < length dst"
  shows "utf8_to_wide_char dst (utf8_enc ws @ 0 # r) m =
    Inr (ws @ 0 # drop (length ws + 1) dst, of_nat (length ws))"
proof -
  have u: "unat (of_nat (length ws) :: u32) = length ws"
    using assms(2) unat_less_2p32 [of m] by (simp add: unat_of_nat)
  show ?thesis
    using assms utf8_to_wide_char_loop_ok [of ws 0 m dst "[]" r]
    by (simp add: utf8_to_wide_char_def wr16_def u list_update_append upd_conv_take_nth_drop Cons_nth_drop_Suc)
qed

section \<open>Numbers as digits\<close>

fun digs :: "nat \<Rightarrow> nat \<Rightarrow> nat list" where
  "digs b n = (if n = 0 \<or> b < 2 then [] else digs b (n div b) @ [n mod b])"

declare digs.simps [simp del]

lemma digs_0 [simp]: "digs b 0 = []"
  by (simp add: digs.simps)

lemma digs_step: "n \<noteq> 0 \<Longrightarrow> 2 \<le> b \<Longrightarrow> digs b n = digs b (n div b) @ [n mod b]"
  by (simp add: digs.simps)

lemma digs_less: "d \<in> set (digs b n) \<Longrightarrow> d < b"
proof (induction b n rule: digs.induct)
  case (1 b n)
  then show ?case by (cases "n = 0 \<or> b < 2") (auto simp: digs.simps [of b n])
qed

lemma digs_value: "2 \<le> b \<Longrightarrow> foldl (\<lambda>v d. v * b + d) 0 (digs b n) = n"
proof (induction b n rule: digs.induct)
  case (1 b n)
  then show ?case by (cases "n = 0") (auto simp: digs_step)
qed

lemma length_digs: "2 \<le> b \<Longrightarrow> n < 2 ^ k \<Longrightarrow> length (digs b n) \<le> k"
proof (induction b n arbitrary: k rule: digs.induct)
  case (1 b n)
  show ?case
  proof (cases "n = 0")
    case False
    then obtain k' where k: "k = Suc k'" using 1(3) by (cases k) auto
    have "n div b \<le> n div 2" using 1(2) by (simp add: div_le_mono2)
    also have "\<dots> < 2 ^ k'" using 1(3) k by auto
    finally show ?thesis using 1 False k by (simp add: digs_step)
  qed simp
qed

lemma unat_ucast_base: "unat (ucast (base :: u8) :: u32) = unat base"
  using unat_less_exp [of base] by (simp add: unat_ucast)

lemma uint32_digits_ok:
  "2 \<le> unat base \<Longrightarrow> uint32_digits i base len = Some (Inr (len + of_nat (length (digs (unat base) (unat i)))))"
proof (induction "unat i" arbitrary: i len rule: less_induct)
  case less
  show ?case
  proof (cases "i = 0")
    case False
    let ?q = "i div ucast base :: u32"
    have q: "unat ?q = unat i div unat base" by (simp add: unat_div unat_ucast_base)
    have "0 < unat i" using False by (simp add: unat_gt_0)
    then have "unat ?q < unat i" using less.prems unfolding q by (simp add: div_less_dividend)
    from less.hyps [OF this less.prems] show ?thesis
      using False less.prems
      by (subst uint32_digits.simps) (auto simp: q digs_step unat_eq_0 add.assoc)
  qed (simp add: uint32_digits.simps)
qed

definition digit_char :: "nat \<Rightarrow> u8" where
  "digit_char d = ucast (DIGIT_BY_INDEX (of_nat d))"

lemma uint32_put_digits_ok:
  "2 \<le> unat base \<Longrightarrow> unat len = length (digs (unat base) (unat i)) \<Longrightarrow> unat len \<le> length result \<Longrightarrow>
   uint32_put_digits i result base len =
     Some (Inr (map digit_char (digs (unat base) (unat i)) @ drop (unat len) result))"
proof (induction "unat i" arbitrary: i len result rule: less_induct)
  case less
  show ?case
  proof (cases "i = 0")
    case True
    then show ?thesis using less.prems(2) by (simp add: uint32_put_digits.simps)
  next
    case False
    let ?q = "i div ucast base :: u32" and ?ds = "digs (unat base) (unat i div unat base)"
    let ?c = "ucast (DIGIT_BY_INDEX (i mod ucast base)) :: u8"
    have i: "0 < unat i" using False by (simp add: unat_gt_0)
    have q: "unat ?q = unat i div unat base" by (simp add: unat_div unat_ucast_base)
    have ds: "digs (unat base) (unat i) = ?ds @ [unat i mod unat base]"
      by (rule digs_step) (use i less.prems(1) in auto)
    have c: "?c = digit_char (unat i mod unat base)"
      by (simp add: digit_char_def flip: unat_ucast_base unat_mod)
    have len: "unat len = Suc (length ?ds)" using less.prems(2) ds by simp
    then have l1: "unat (len - 1) = length ?ds" by (subst unat_minus_one) auto
    have w: "buf_write result (unat (len - 1)) [?c] =
        Inr (take (length ?ds) result @ ?c # drop (unat len) result)"
      using less.prems(3) len by (simp add: l1)
    have "unat ?q < unat i" using i less.prems(1) unfolding q by (simp add: div_less_dividend)
    then have "uint32_put_digits ?q (take (length ?ds) result @ ?c # drop (unat len) result) base (len - 1) =
       Some (Inr (map digit_char (digs (unat base) (unat ?q)) @
         drop (unat (len - 1)) (take (length ?ds) result @ ?c # drop (unat len) result)))"
      by (rule less.hyps) (use less.prems len in \<open>auto simp: l1 q\<close>)
    moreover have "drop (unat (len - 1)) (take (length ?ds) result @ ?c # drop (unat len) result) =
        ?c # drop (unat len) result"
      using less.prems(3) len by (simp add: l1)
    ultimately show ?thesis
      using False less.prems(1)
      by (subst uint32_put_digits.simps) (auto simp: w [unfolded c] q c ds simp del: buf_write_ok)
  qed
qed

lemma digit_chars:
  "list_all (\<lambda>d. digit_char d \<noteq> 0 \<and> \<not> isspace (scast (digit_char d)) \<and>
     INDEX_BY_DIGIT (digit_char d) = of_nat d) [0..<36]"
  by code_simp

lemma digit_char_ok:
  assumes "d < 36"
  shows "digit_char d \<noteq> 0" "\<not> isspace (scast (digit_char d))" "INDEX_BY_DIGIT (digit_char d) = of_nat d"
  using digit_chars assms by (auto simp: list_all_iff)

lemma strtoul_loop_digits:
  assumes "\<forall>d \<in> set ds. d < unat base" "unat base \<le> 36"
  shows "strtoul_loop (map digit_char ds @ s) base v e =
    strtoul_loop s base (foldl (\<lambda>v d. v * ucast base + of_nat d) v ds) (e + of_nat (length ds))"
  using assms
proof (induction ds arbitrary: v e)
  case (Cons d ds)
  have "d < 36" using Cons.prems by auto
  note dc = digit_char_ok [OF this]
  have "unat (of_nat d :: u32) = d" using \<open>d < 36\<close> by (simp add: unat_of_nat)
  then have "\<not> (of_nat d :: u32) \<ge> ucast base"
    using Cons.prems by (simp add: word_le_nat_alt unat_ucast_base)
  then show ?case using Cons dc by (simp add: Let_def add.assoc)
qed simp

lemma foldl_of_nat:
  "foldl (\<lambda>v d. v * ucast base + of_nat d) (of_nat v) ds =
    (of_nat (foldl (\<lambda>v d. v * unat (base :: u8) + d) v ds) :: u32)"
proof (induction ds arbitrary: v)
  case (Cons d ds)
  have "(ucast base :: u32) = of_nat (unat base)" by simp
  then have "of_nat v * ucast base + of_nat d = (of_nat (v * unat base + d) :: u32)" by simp
  then show ?case using Cons [of "v * unat base + d"] by (simp del: of_nat_add of_nat_mult)
qed simp

lemma uint32_to_string_ok:
  assumes "2 \<le> unat base" "32 \<le> length result"
  shows "uint32_to_string n result base =
    Some (Inr (map digit_char (digs (unat base) (unat n)) @ drop (length (digs (unat base) (unat n))) result))"
proof -
  have l: "length (digs (unat base) (unat n)) \<le> 32"
    by (rule length_digs) (use assms(1) unat_less_2p32 [of n] in auto)
  then have u: "unat (of_nat (length (digs (unat base) (unat n))) :: u16) = length (digs (unat base) (unat n))"
    by (simp add: unat_of_nat)
  show ?thesis
    using uint32_put_digits_ok [of base "of_nat (length (digs (unat base) (unat n)))" n result] assms l
    by (simp add: uint32_to_string_def uint32_digits_ok u)
qed

lemma strtoul_digits:
  assumes "2 \<le> unat base" "unat base \<le> 36"
  shows "strtoul (map digit_char (digs (unat base) (unat n)) @ 0 # r) base =
    Inr (n, of_nat (length (digs (unat base) (unat n))))"
  using strtoul_loop_digits [of "digs (unat base) (unat n)" base "0 # r" 0 0] assms
    foldl_of_nat [of base 0 "digs (unat base) (unat n)"] digs_less [of _ "unat base" "unat n"]
  by (simp add: strtoul_def digs_value)

section \<open>Properties\<close>

text \<open>C17: UTF-8 round trip. A terminated string of nonzero UTF-16 code units, converted by
  \<open>wide_char_to_utf8\<close> into a buffer with room for three bytes per unit and back by
  \<open>utf8_to_wide_char\<close>, is the same string, with its length and its terminator.\<close>

lemma utf8_round_trip:
  assumes "0 \<notin> set ws" "3 * length ws + 2 \<le> unat n" "unat n \<le> length dst"
    and "length ws \<le> unat m" "unat m < length wdst"
  shows "\<exists>enc k back. wide_char_to_utf8 dst (ws @ 0 # r) n = Inr (enc, k) \<and>
    utf8_to_wide_char wdst enc m = Inr (back, of_nat (length ws)) \<and>
    take (length ws + 1) back = ws @ [0]"
  using wide_char_to_utf8_ok [OF assms(1-3)] utf8_to_wide_char_ok [OF assms(1,4) le_less_trans [OF assms(4,5)]] by simp

lemma utf8_round_trip_witness:
  "\<exists>enc k back. wide_char_to_utf8 (replicate 16 0xFF) ([0x41, 0x416, 0x20AC] @ 0 # []) 16 = Inr (enc, k) \<and>
    utf8_to_wide_char (replicate 8 7) enc 7 = Inr (back, of_nat (length [0x41 :: u16, 0x416, 0x20AC])) \<and>
    take (length [0x41 :: u16, 0x416, 0x20AC] + 1) back = [0x41, 0x416, 0x20AC] @ [0]"
  by (rule utf8_round_trip) simp_all

text \<open>numeral round trip. For a base from 2 to 36 and a cleared buffer of at least 33 bytes,
  \<open>uint32_to_string\<close> returns, and \<open>strtoul\<close> reads the number back, having advanced over every
  digit written.\<close>

lemma uint32_string_round_trip:
  assumes "2 \<le> unat base" "unat base \<le> 36" "33 \<le> k"
  shows "\<exists>s. uint32_to_string n (replicate k 0) base = Some (Inr s) \<and>
    strtoul s base = Inr (n, of_nat (length (digs (unat base) (unat n))))"
proof -
  let ?l = "length (digs (unat base) (unat n))"
  have "?l \<le> 32" by (rule length_digs) (use assms(1) unat_less_2p32 [of n] in auto)
  then have "drop ?l (replicate k 0) = (0 :: u8) # replicate (k - ?l - 1) 0"
    using assms(3) by (cases "k - ?l") auto
  then show ?thesis using strtoul_digits [OF assms(1,2)] assms by (simp add: uint32_to_string_ok)
qed

lemma uint32_string_round_trip_witness:
  "\<exists>s. uint32_to_string 48879 (replicate 40 0) 16 = Some (Inr s) \<and>
    strtoul s 16 = Inr (48879, of_nat (length (digs (unat (16 :: u8)) (unat (48879 :: u32)))))"
  by (rule uint32_string_round_trip) simp_all

end
