(* ===== verification/Pattern.thy ===== *)
theory Pattern
  imports Bitmap_Alloc Strings
begin

text \<open>
  The two matching routines of \<^verbatim>\<open>lib/string.c\<close>: \<open>strstr\<close>, a search by the Z-function of the
  needle followed by the haystack, and \<open>is_matching_pattern\<close>, a table of bits filled backwards
  over the string and the pattern, kept in two bitmaps of \<^verbatim>\<open>lib/bitmap.c\<close>.
\<close>

unbundle bit_operations_syntax

section \<open>Substring search\<close>

text \<open>
  \<open>z_extend\<close> is the inner loop that lengthens \<open>z_func[i]\<close>.  \<open>len_united\<close> is the sum of two object
  lengths and bounds every index, so the sums of \<open>uint32_t\<close> do not wrap.
\<close>

function z_extend :: "bytes \<Rightarrow> nat \<Rightarrow> nat \<Rightarrow> nat \<Rightarrow> nat" where
  "z_extend united len i k =
     (if i + k < len \<and> united ! (i + k) = united ! k then z_extend united len i (k + 1) else k)"
  by pat_completeness auto

termination
  by (relation "measure (\<lambda>(united, len, i, k). len - (i + k))") auto

declare z_extend.simps [simp del]

function strstr_loop :: "bytes \<Rightarrow> nat \<Rightarrow> nat \<Rightarrow> nat \<Rightarrow> nat \<Rightarrow> nat list \<Rightarrow> nat option" where
  "strstr_loop united len len_needle i best z =
     (if i < len then
        let z = z[i := 0]; bound = best + z ! best;
            z = (if i < bound then z[i := min (z ! (i - best)) (bound - i)] else z) in
        if i < bound \<and> i + z ! i < bound then strstr_loop united len len_needle (i + 1) best z
        else
          let z = z[i := z_extend united len i (z ! i)] in
          if len_needle \<le> z ! i then Some i
          else strstr_loop united len len_needle (i + 1) i z
      else None)"
  by pat_completeness auto

termination
  by (relation "measure (\<lambda>(united, len, len_needle, i, best, z). len - i)") auto

declare strstr_loop.simps [simp del]

text \<open>
  \<open>fresh\<close> and \<open>fresh_z\<close> are the contents of the two blocks \<open>malloc\<close> returns.  The result is the
  offset of the returned pointer from \<open>haystack\<close>, or \<open>None\<close> for \<open>NULL\<close>; the offset of a match
  that begins inside the needle is negative.
\<close>

definition strstr :: "(nat \<Rightarrow> bytes) \<Rightarrow> (nat \<Rightarrow> nat list) \<Rightarrow> bytes \<Rightarrow> bytes \<Rightarrow> int option res" where
  "strstr fresh fresh_z needle haystack =
     rbind (strlen haystack) (\<lambda>len_haystack. rbind (strlen needle) (\<lambda>len_needle.
     let h = unat len_haystack; n = unat len_needle; len_united = h + n;
         united = fresh (len_united + 1) in
     rbind (buf_copy united 0 needle 0 h) (\<lambda>united.
     rbind (buf_copy united n haystack 0 h) (\<lambda>united.
     rbind (buf_write united len_united [0]) (\<lambda>united.
     if len_united = 0 then Inl Out_Of_Bounds
     else Inr (map_option (\<lambda>i. int i - int n)
                 (strstr_loop united len_united n 1 0 ((fresh_z len_united)[0 := 0]))))))))"

section \<open>Wildcard patterns\<close>

definition byte_at :: "bytes \<Rightarrow> nat \<Rightarrow> u8 res" where
  "byte_at s i = (if i < length s then Inr (s ! i) else Inl Out_Of_Bounds)"

text \<open>One cell: the \<open>switch\<close> on \<open>pattern[j]\<close>, then the maxima of the column to the right.\<close>

definition pm_cell :: "bytes \<Rightarrow> bytes \<Rightarrow> bool \<Rightarrow> u32 \<Rightarrow> nat \<Rightarrow> nat \<Rightarrow>
    bitmap_t \<times> bitmap_t \<Rightarrow> (bitmap_t \<times> bitmap_t) res" where
  "pm_cell str pattern ignore_case x_size i j = (\<lambda>(dp, maxes).
     let at = (\<lambda>a b. x_size * of_nat a + of_nat b);
         right = rbind (bitmap_test_bit dp (at i (j + 1))) (\<lambda>b.
                 if b then Inr True else bitmap_test_bit maxes (at (i + 1) (j + 1))) in
     rbind (byte_at pattern j) (\<lambda>p.
     rbind (if p = 0x3F then bitmap_test_bit dp (at (i + 1) (j + 1))
            else if p = 0x2A then right
            else rbind (byte_at str i) (\<lambda>c.
              if c = p \<or> ignore_case \<and> UPPER (scast c) = UPPER (scast p)
              then bitmap_test_bit dp (at (i + 1) (j + 1)) else Inr False)) (\<lambda>hit.
     rbind (if hit then bitmap_set_bit dp (at i j) else Inr dp) (\<lambda>dp.
     rbind (rbind (bitmap_test_bit dp (at i (j + 1))) (\<lambda>b.
            if b then Inr True else bitmap_test_bit maxes (at (i + 1) (j + 1)))) (\<lambda>m.
     rbind (if m then bitmap_set_bit maxes (at i j + 1) else Inr maxes) (\<lambda>maxes.
     Inr (dp, maxes)))))))"

text \<open>\<open>for (j = x_size - 2; j != -1; j--)\<close> and the same for \<open>i\<close>, by the number of rounds left.\<close>

fun pm_cols :: "(nat \<Rightarrow> 's \<Rightarrow> 's res) \<Rightarrow> nat \<Rightarrow> 's \<Rightarrow> 's res" where
  "pm_cols f 0 s = Inr s"
| "pm_cols f (Suc j) s = rbind (f j s) (pm_cols f j)"

definition is_matching_pattern :: "bool \<Rightarrow> bytes \<Rightarrow> bytes \<Rightarrow> bool \<Rightarrow> bool res" where
  "is_matching_pattern got str pattern ignore_case =
     rbind (strlen str) (\<lambda>ls. rbind (strlen pattern) (\<lambda>lp.
     let y_size = ls + 1; x_size = lp + 1; last = x_size * (y_size - 1) + x_size - 1 in
     rbind (bitmap_init got (x_size * y_size)) (\<lambda>dp.
     rbind (bitmap_set_bit dp last) (\<lambda>dp.
     rbind (bitmap_init got (x_size * y_size)) (\<lambda>maxes.
     rbind (bitmap_set_bit maxes last) (\<lambda>maxes.
     rbind (pm_cols (\<lambda>i. pm_cols (pm_cell str pattern ignore_case x_size i) (unat (x_size - 1)))
              (unat (y_size - 1)) (dp, maxes)) (\<lambda>(dp, maxes).
     bitmap_test_bit dp 0)))))))"

section \<open>The Z-function\<close>

definition zval :: "bytes \<Rightarrow> nat \<Rightarrow> nat \<Rightarrow> nat \<Rightarrow> bool" where
  "zval u len i k = (i + k \<le> len \<and> (\<forall>t < k. u ! (i + t) = u ! t) \<and>
     (i + k < len \<longrightarrow> u ! (i + k) \<noteq> u ! k))"

definition z_occ :: "bytes \<Rightarrow> nat \<Rightarrow> nat \<Rightarrow> nat \<Rightarrow> bool" where
  "z_occ u len n i = (i + n \<le> len \<and> (\<forall>t < n. u ! (i + t) = u ! t))"

lemma zval_occ: "zval u len i k \<Longrightarrow> z_occ u len n i \<longleftrightarrow> n \<le> k"
  unfolding zval_def z_occ_def by (metis add_le_mono le_refl less_le_trans linorder_not_le nat_add_left_cancel_less)

lemma z_extend_zval:
  "i + k \<le> len \<Longrightarrow> (\<forall>t < k. u ! (i + t) = u ! t) \<Longrightarrow> zval u len i (z_extend u len i k)"
proof (induction u len i k rule: z_extend.induct)
  case (1 u len i k)
  show ?case
  proof (cases "i + k < len \<and> u ! (i + k) = u ! k")
    case True
    have "zval u len i (z_extend u len i (k + 1))"
      by (rule "1.IH" [OF True]) (use True 1 in \<open>auto simp: less_Suc_eq\<close>)
    then show ?thesis using True by (subst z_extend.simps) simp
  next
    case False
    then have "z_extend u len i k = k" by (subst z_extend.simps) auto
    then show ?thesis using False 1 by (auto simp: zval_def)
  qed
qed

text \<open>A prefix match that covers position \<open>i\<close> carries the value of the matching position over.\<close>

lemma zval_copy:
  assumes b: "zval u len best zb" and j: "zval u len (i - best) k" and i: "best \<le> i" "i + k < best + zb"
  shows "zval u len i k"
proof -
  have e: "u ! (i + t) = u ! (i - best + t)" if "i + t < best + zb" for t
  proof -
    have "i - best + t < zb" using that i(1) by linarith
    then have "u ! (best + (i - best + t)) = u ! (i - best + t)"
      using b unfolding zval_def by blast
    then show ?thesis using i(1) by (simp add: add.assoc [symmetric])
  qed
  have "i + k < len" using b i by (auto simp: zval_def)
  moreover have "u ! (i + t) = u ! t" if "t < k" for t
    using e [of t] i(2) j that by (simp add: zval_def)
  moreover have "u ! (i - best + k) \<noteq> u ! k" using j \<open>i + k < len\<close> i(1) by (auto simp: zval_def)
  ultimately show ?thesis using e [of k] i(2) by (simp add: zval_def)
qed

lemma zval_prefix:
  assumes b: "zval u len best zb" and j: "zval u len (i - best) k"
    and i: "best \<le> i" "i < best + zb" "t < k" "i + t < best + zb"
  shows "u ! (i + t) = u ! t"
proof -
  have "i - best + t < zb" using i(1,4) by linarith
  then have "u ! (best + (i - best + t)) = u ! (i - best + t)" using b unfolding zval_def by blast
  then have "u ! (i + t) = u ! (i - best + t)" using i(1) by (simp add: add.assoc [symmetric])
  then show ?thesis using j i(3) by (simp add: zval_def)
qed

definition z_inv :: "bytes \<Rightarrow> nat \<Rightarrow> nat \<Rightarrow> nat \<Rightarrow> nat \<Rightarrow> nat list \<Rightarrow> bool" where
  "z_inv u len n i best z =
     (length z = len \<and> 1 \<le> i \<and> best < i \<and> (best = 0 \<longrightarrow> z ! 0 = 0) \<and>
      (\<forall>j. 1 \<le> j \<and> j < i \<and> j < len \<longrightarrow> zval u len j (z ! j) \<and> z ! j < n))"

lemma z_inv_step:
  assumes "z_inv u len n i best z" "i < len" "zval u len i k" "k < n" "b = best \<or> b = i"
  shows "z_inv u len n (i + 1) b (z[i := k])"
  using assms by (auto simp: z_inv_def less_Suc_eq nth_list_update)

definition z_first :: "bytes \<Rightarrow> nat \<Rightarrow> nat \<Rightarrow> nat \<Rightarrow> nat option \<Rightarrow> bool" where
  "z_first u len n i r = (case r of
      Some m \<Rightarrow> i \<le> m \<and> m < len \<and> z_occ u len n m \<and> (\<forall>j. i \<le> j \<and> j < m \<longrightarrow> \<not> z_occ u len n j)
    | None \<Rightarrow> \<forall>j. i \<le> j \<and> j < len \<longrightarrow> \<not> z_occ u len n j)"

lemma z_first_skip: "z_first u len n (i + 1) r \<Longrightarrow> \<not> z_occ u len n i \<Longrightarrow> z_first u len n i r"
  unfolding z_first_def by (cases r) (auto simp: Suc_le_eq, (metis le_neq_implies_less)+)

lemma strstr_loop_first:
  "z_inv u len n i best z \<Longrightarrow> z_first u len n i (strstr_loop u len n i best z)"
proof (induction u len n i best z rule: strstr_loop.induct)
  case (1 u len n i best z)
  note inv = "1.prems"
  show ?case
  proof (cases "i < len")
    case False
    then show ?thesis by (subst strstr_loop.simps) (auto simp: z_first_def)
  next
    case True
    have l: "length z = len" "best < i" using inv by (auto simp: z_inv_def)
    define bound where "bound = best + z ! best"
    define m where "m = (if i < bound then min (z ! (i - best)) (bound - i) else 0)"
    have bnd: "best + z[i := 0] ! best = bound" using l by (simp add: bound_def)
    have best: "1 \<le> best \<and> zval u len best (z ! best) \<and> zval u len (i - best) (z ! (i - best)) \<and> z ! (i - best) < n"
      if "i < bound"
    proof -
      have "best \<noteq> 0"
      proof
        assume "best = 0"
        then show False using inv that by (simp add: z_inv_def bound_def)
      qed
      moreover have "1 \<le> i - best" "i - best < len" using True l(2) by linarith+
      ultimately show ?thesis using inv True by (auto simp: z_inv_def)
    qed
    have upd: "(if i < bound then (z[i := 0])[i := min (z[i := 0] ! (i - best)) (bound - i)] else z[i := 0]) = z[i := m]"
    proof (cases "i < bound")
      case True
      then have "1 \<le> best" using best by simp
      then show ?thesis using True l by (simp add: m_def)
    qed (simp add: m_def)
    have m: "z[i := m] ! i = m" using True l by simp
    show ?thesis
    proof (cases "i < bound \<and> i + m < bound")
      case True': True
      then have mk: "m = z ! (i - best)" by (auto simp: m_def min_def split: if_splits)
      have z: "zval u len i m" unfolding mk
        by (rule zval_copy [of u len best "z ! best"]) (use best True' mk l in \<open>auto simp: bound_def\<close>)
      have "z_inv u len n (i + 1) best (z[i := m])"
        by (rule z_inv_step [OF inv True z]) (use best True' mk in auto)
      then have ih: "z_first u len n (i + 1) (strstr_loop u len n (i + 1) best (z[i := m]))"
        using "1.IH"(1) [OF True refl bnd [symmetric] upd [symmetric]] True' m by simp
      have "strstr_loop u len n i best z = strstr_loop u len n (i + 1) best (z[i := m])"
        by (subst strstr_loop.simps, simp only: Let_def bnd upd m True if_True) (use True' in simp)
      moreover have "\<not> z_occ u len n i" using zval_occ [OF z] best True' mk by auto
      ultimately show ?thesis using z_first_skip [OF ih] by simp
    next
      case False
      have pre: "\<forall>t < m. u ! (i + t) = u ! t" "i + m \<le> len"
      proof -
        show "\<forall>t < m. u ! (i + t) = u ! t"
        proof (intro allI impI)
          fix t assume "t < m"
          then have "i < bound" "t < z ! (i - best)" "i + t < bound" by (auto simp: m_def split: if_splits)
          then show "u ! (i + t) = u ! t"
            using best l by (intro zval_prefix [of u len best "z ! best"]) (auto simp: bound_def)
        qed
        show "i + m \<le> len"
        proof (cases "i < bound")
          case True
          then have "bound \<le> len" using best by (auto simp: zval_def bound_def)
          then show ?thesis using True by (auto simp: m_def min_def)
        qed (use True in \<open>simp add: m_def\<close>)
      qed
      let ?k = "z_extend u len i m"
      have z: "zval u len i ?k" by (rule z_extend_zval [OF pre(2,1)])
      have k: "z[i := m, i := ?k] = z[i := ?k]" "z[i := ?k] ! i = ?k" using True l by simp_all
      show ?thesis
      proof (cases "n \<le> ?k")
        case n: True
        have "strstr_loop u len n i best z = Some i"
          by (subst strstr_loop.simps) (simp only: Let_def bnd upd m k True False n if_True if_False simp_thms)
        then show ?thesis using True zval_occ [OF z] n by (auto simp: z_first_def)
      next
        case n: False
        have "z_inv u len n (i + 1) i (z[i := ?k])"
          by (rule z_inv_step [OF inv True z]) (use n in auto)
        then have ih: "z_first u len n (i + 1) (strstr_loop u len n (i + 1) i (z[i := ?k]))"
          using "1.IH"(2) [OF True refl bnd [symmetric] upd [symmetric] _ refl] False n m k by simp
        have "strstr_loop u len n i best z = strstr_loop u len n (i + 1) i (z[i := ?k])"
          by (subst strstr_loop.simps) (simp only: Let_def bnd upd m k True False n if_True if_False simp_thms)
        moreover have "\<not> z_occ u len n i" using zval_occ [OF z] n by auto
        ultimately show ?thesis using z_first_skip [OF ih] by simp
      qed
    qed
  qed
qed

text \<open>The search as a whole, on a needle object that is at least as long as the haystack.\<close>

lemma z_occ_append:
  assumes "n = length ndl" "len = n + length hay"
  shows "z_occ (ndl @ hay @ x) len n i \<longleftrightarrow> i + n \<le> len \<and> take n (drop i (ndl @ hay)) = ndl"
proof (cases "i + n \<le> len")
  case True
  have "(\<forall>t < n. (ndl @ hay @ x) ! (i + t) = (ndl @ hay @ x) ! t) \<longleftrightarrow>
      (\<forall>t < n. take n (drop i (ndl @ hay)) ! t = ndl ! t)"
  proof -
    have "(ndl @ hay @ x) ! (i + t) = take n (drop i (ndl @ hay)) ! t \<and> (ndl @ hay @ x) ! t = ndl ! t"
      if "t < n" for t
      using that True assms by (auto simp: nth_append simp del: drop_append take_append)
    then show ?thesis by auto
  qed
  then show ?thesis using True assms by (simp add: z_occ_def list_eq_iff_nth_eq)
qed (simp add: z_occ_def)

lemma strstr_ok:
  assumes nz: "0 \<notin> set ndl" "0 \<notin> set hay" and len: "length ndl \<le> length hay" "0 < length hay"
    and obj: "length hay \<le> length (ndl @ 0 # r)" "length (ndl @ hay) < 2 ^ 32"
    and fresh: "\<And>k. length (fresh k) = k" "\<And>k. length (fresh_z k) = k"
  shows "\<exists>res. strstr fresh fresh_z (ndl @ 0 # r) (hay @ 0 # q) = Inr res \<and>
    (case res of
       Some off \<Rightarrow> (let i = nat (off + int (length ndl)) in
         1 \<le> i \<and> off = int i - int (length ndl) \<and> take (length ndl) (drop i (ndl @ hay)) = ndl \<and>
         (\<forall>j. 1 \<le> j \<and> j < i \<longrightarrow> take (length ndl) (drop j (ndl @ hay)) \<noteq> ndl))
     | None \<Rightarrow> \<forall>j. 1 \<le> j \<and> j \<le> length hay \<and> j < length (ndl @ hay) \<longrightarrow>
         take (length ndl) (drop j (ndl @ hay)) \<noteq> ndl)"
proof -
  let ?h = "length hay" and ?n = "length ndl"
  let ?len = "?h + ?n" and ?f = "fresh (?h + ?n + 1)"
  have u: "unat (of_nat ?h :: u32) = ?h" "unat (of_nat ?n :: u32) = ?n"
    using obj(2) by (simp_all add: unat_of_nat)
  let ?u = "ndl @ hay @ [0]"
  define u1 where "u1 = take ?h (ndl @ 0 # r) @ drop ?h ?f"
  have u1: "length u1 = ?len + 1" "take ?n u1 = ndl" using obj(1) len(1) by (auto simp: u1_def fresh)
  have c1: "buf_copy ?f 0 (ndl @ 0 # r) 0 ?h = Inr u1"
    using obj(1) by (simp add: buf_copy_ok fresh u1_def)
  have c2: "buf_copy u1 ?n (hay @ 0 # q) 0 ?h = Inr (ndl @ hay @ drop ?len u1)"
    using u1 by (simp add: buf_copy_ok ac_simps)
  have c3: "buf_write (ndl @ hay @ drop ?len u1) ?len [0] = Inr ?u"
    using u1(1) by simp
  let ?r = "strstr_loop ?u ?len ?n 1 0 ((fresh_z ?len)[0 := 0])"
  have inv: "z_inv ?u ?len ?n 1 0 ((fresh_z ?len)[0 := 0])"
    using len(2) by (auto simp: z_inv_def fresh)
  have run: "strstr fresh fresh_z (ndl @ 0 # r) (hay @ 0 # q) = Inr (map_option (\<lambda>i. int i - int ?n) ?r)"
    unfolding strstr_def strlen_ok [OF nz(1)] strlen_ok [OF nz(2)] rbind.simps Let_def u c1 c2 c3
    using len(2) by simp
  have first: "z_first ?u ?len ?n 1 ?r" by (rule strstr_loop_first [OF inv])
  have occ: "z_occ ?u ?len ?n i \<longleftrightarrow> i \<le> ?h \<and> take ?n (drop i (ndl @ hay)) = ndl" for i
    by (subst z_occ_append) auto
  show ?thesis unfolding run using first
    by (cases ?r) (auto simp: z_first_def occ)
qed

text \<open>A haystack longer than the needle's object is read past the needle's end.\<close>

lemma strstr_reads_past_needle:
  assumes "0 \<notin> set ndl" "0 \<notin> set hay" "length hay < 2 ^ 32" "length ndl < 2 ^ 32"
    and "length (ndl @ 0 # r) < length hay"
  shows "strstr fresh fresh_z (ndl @ 0 # r) (hay @ 0 # q) = Inl Out_Of_Bounds"
proof -
  have "unat (of_nat (length hay) :: u32) = length hay" using assms(3) by (simp add: unat_of_nat)
  then show ?thesis using assms by (simp add: strstr_def buf_copy_def buf_read_def Let_def)
qed

section \<open>What the table computes\<close>

text \<open>
  The reference: \<open>?\<close> takes one character, \<open>*\<close> any number of them, any other character itself, up to
  case on request.  Unlike in the usual definition, the empty string matches the empty pattern only.
\<close>

primrec glob :: "bool \<Rightarrow> bytes \<Rightarrow> bytes \<Rightarrow> bool" where
  "glob ic s [] = (s = [])"
| "glob ic s (p # ps) =
     (s \<noteq> [] \<and>
      (if p = 0x2A then \<exists>k \<le> length s. glob ic (drop k s) ps
       else (p = 0x3F \<or> hd s = p \<or> ic \<and> UPPER (scast (hd s)) = UPPER (scast p)) \<and> glob ic (tl s) ps))"

definition bm_table :: "bitmap_t \<Rightarrow> nat \<Rightarrow> (nat \<Rightarrow> bool) \<Rightarrow> bool" where
  "bm_table b N f = (N \<le> 32 * length (bm_buff b) \<and> (\<forall>k < N. bm_bit b k = f k))"

lemma bm_table_test: "bm_table b N f \<Longrightarrow> unat i < N \<Longrightarrow> bitmap_test_bit b i = Inr (f (unat i))"
  by (auto simp: bm_table_def bitmap_test_bit_eq)

lemma bm_table_set:
  "bm_table b N f \<Longrightarrow> unat i < N \<Longrightarrow>
   \<exists>b'. bitmap_set_bit b i = Inr b' \<and> bm_table b' N (f(unat i := True))"
proof -
  assume a: "bm_table b N f" "unat i < N"
  then have "unat i div 32 < length (bm_buff b)" by (auto simp: bm_table_def)
  then show ?thesis using a by (auto simp: bm_table_def bitmap_set_bit_eq bm_bit_put)
qed

lemma bm_table_if_set:
  "bm_table b N f \<Longrightarrow> unat i < N \<Longrightarrow> g = (\<lambda>k. if c \<and> k = unat i then True else f k) \<Longrightarrow>
   \<exists>b'. (if c then bitmap_set_bit b i else Inr b) = Inr b' \<and> bm_table b' N g"
  using bm_table_set [of b N f i] by (cases c) (auto simp: bm_table_def)

lemma bm_table_cong: "bm_table b N f \<Longrightarrow> (\<And>k. k < N \<Longrightarrow> f k = g k) \<Longrightarrow> bm_table b N g"
  by (simp add: bm_table_def)

text \<open>The two tables, cell \<open>(i, j)\<close> being the next above or to the left of the finished part.\<close>

definition pm_dp :: "(nat \<Rightarrow> nat \<Rightarrow> bool) \<Rightarrow> nat \<Rightarrow> nat \<Rightarrow> nat \<Rightarrow> nat \<Rightarrow> bool" where
  "pm_dp G x i j k = ((i < k div x \<or> i = k div x \<and> j \<le> k mod x) \<and> G (k div x) (k mod x))"

definition pm_mx :: "(nat \<Rightarrow> nat \<Rightarrow> bool) \<Rightarrow> nat \<Rightarrow> nat \<Rightarrow> nat \<Rightarrow> nat \<Rightarrow> nat \<Rightarrow> bool" where
  "pm_mx G x n i j k =
     (if k mod x = 0 then x = 1 \<and> k div x = n
      else (i < k div x \<or> i = k div x \<and> j < k mod x) \<and> (\<exists>a \<le> n. k div x \<le> a \<and> G a (k mod x)))"

lemma cell_div_mod:
  assumes "b < x"
  shows "(x * a + b) div x = a" "(x * a + b) mod x = (b :: nat)"
  using assms by (simp_all add: mult.commute)

lemma cell_eq: "b < x \<Longrightarrow> k = x * a + b \<longleftrightarrow> k div x = a \<and> k mod x = (b :: nat)"
  by (metis cell_div_mod mult_div_mod_eq)

lemma cell_less: "a \<le> n \<Longrightarrow> b < x \<Longrightarrow> x * a + b < x * (n + 1 :: nat)"
proof -
  assume "a \<le> n" "b < x"
  then have "x * a + b < x * (a + 1)" by simp
  also have "\<dots> \<le> x * (n + 1)" using \<open>a \<le> n\<close> by (intro mult_le_mono2) simp
  finally show ?thesis .
qed

definition glob_at :: "bool \<Rightarrow> bytes \<Rightarrow> bytes \<Rightarrow> nat \<Rightarrow> nat \<Rightarrow> bool" where
  "glob_at ic s p a b = glob ic (drop a s) (drop b p)"

lemma glob_at_end:
  "a \<le> length s \<Longrightarrow> b \<le> length p \<Longrightarrow> a = length s \<or> b = length p \<Longrightarrow>
   glob_at ic s p a b \<longleftrightarrow> a = length s \<and> b = length p"
  by (cases "drop b p") (auto simp: glob_at_def)

lemma glob_at_step:
  assumes "i < length s" "j < length p"
  shows "glob_at ic s p i j \<longleftrightarrow>
    (if p ! j = 0x2A then \<exists>a \<le> length s. i \<le> a \<and> glob_at ic s p a (j + 1)
     else (p ! j = 0x3F \<or> s ! i = p ! j \<or> ic \<and> UPPER (scast (s ! i)) = UPPER (scast (p ! j))) \<and>
       glob_at ic s p (i + 1) (j + 1))"
proof -
  have s: "drop i s = s ! i # drop (i + 1) s" and p: "drop j p = p ! j # drop (j + 1) p"
    using assms by (simp_all add: Cons_nth_drop_Suc)
  have "(\<exists>k \<le> length (drop i s). glob ic (drop k (drop i s)) (drop (j + 1) p)) \<longleftrightarrow>
      (\<exists>a \<le> length s. i \<le> a \<and> glob_at ic s p a (j + 1))" (is "?L = ?R")
  proof
    assume ?L
    then obtain k where "k \<le> length s - i" "glob ic (drop (k + i) s) (drop (j + 1) p)" by auto
    then show ?R using assms(1) by (intro exI [of _ "k + i"]) (auto simp: glob_at_def)
  next
    assume ?R
    then obtain a where "a \<le> length s" "i \<le> a" "glob ic (drop a s) (drop (j + 1) p)"
      by (auto simp: glob_at_def)
    then show ?L by (intro exI [of _ "a - i"]) auto
  qed
  moreover have "glob_at ic s p i j \<longleftrightarrow>
    (if p ! j = 0x2A then \<exists>k \<le> length (drop i s). glob ic (drop k (drop i s)) (drop (j + 1) p)
     else (p ! j = 0x3F \<or> s ! i = p ! j \<or> ic \<and> UPPER (scast (s ! i)) = UPPER (scast (p ! j))) \<and>
       glob_at ic s p (i + 1) (j + 1))"
    unfolding glob_at_def p by (simp only: glob.simps) (use s in \<open>simp add: drop_Suc tl_drop\<close>)
  ultimately show ?thesis by simp
qed

lemma pm_cell_ok:
  fixes s p :: bytes and ic :: bool
  defines "n \<equiv> length s" and "x \<equiv> length p + 1" and "G \<equiv> glob_at ic s p"
  assumes ij: "i < n" "j < length p" and N: "N = x * (n + 1)" "N < 2 ^ 32"
    and dp: "bm_table dp N (pm_dp G x i (j + 1))" and mx: "bm_table mx N (pm_mx G x n i (j + 1))"
  shows "\<exists>st. pm_cell (s @ 0 # r) (p @ 0 # q) ic (of_nat x) i j (dp, mx) = Inr st \<and>
    bm_table (fst st) N (pm_dp G x i j) \<and> bm_table (snd st) N (pm_mx G x n i j)"
proof -
  define at where "at = (\<lambda>a b. of_nat x * of_nat a + of_nat b :: u32)"
  have at: "unat (at a b) = x * a + b" "x * a + b < N" if "a \<le> n" "b < x" for a b
  proof -
    show "x * a + b < N" unfolding N(1) by (rule cell_less) (use that in auto)
    then show "unat (at a b) = x * a + b" using N(2)
      by (simp add: at_def unat_of_nat flip: of_nat_mult of_nat_add)
  qed
  have b: "j < x" "j + 1 < x" "i \<le> n" "i + 1 \<le> n" using ij by (simp_all add: x_def)
  have at1: "at i j + 1 = at i (j + 1)" by (simp add: at_def)
  have t1: "bitmap_test_bit dp (at (i + 1) (j + 1)) = Inr (G (i + 1) (j + 1))"
    using bm_table_test [OF dp, of "at (i + 1) (j + 1)"] at [OF b(4,2)] cell_div_mod [OF b(2), of "i + 1"]
    by (simp add: pm_dp_def)
  have t2: "bitmap_test_bit dp (at i (j + 1)) = Inr (G i (j + 1))"
    using bm_table_test [OF dp, of "at i (j + 1)"] at [OF b(3,2)] cell_div_mod [OF b(2), of i]
    by (simp add: pm_dp_def)
  have t3: "bitmap_test_bit mx (at (i + 1) (j + 1)) = Inr (\<exists>a \<le> n. i + 1 \<le> a \<and> G a (j + 1))"
    using bm_table_test [OF mx, of "at (i + 1) (j + 1)"] at [OF b(4,2)] cell_div_mod [OF b(2), of "i + 1"]
    by (simp add: pm_mx_def)
  define R where "R = (\<exists>a \<le> n. i \<le> a \<and> G a (j + 1))"
  have R: "R \<longleftrightarrow> G i (j + 1) \<or> (\<exists>a \<le> n. i + 1 \<le> a \<and> G a (j + 1))"
    unfolding R_def using b(3) by (metis Suc_eq_plus1 Suc_leI le_neq_implies_less le_refl Suc_leD)
  have right: "(if G i (j + 1) then Inr True else Inr (\<exists>a \<le> n. i + 1 \<le> a \<and> G a (j + 1))) = (Inr R :: bool res)"
    by (simp add: R)
  have step: "G i j \<longleftrightarrow> (if p ! j = 0x2A then R
     else (p ! j = 0x3F \<or> s ! i = p ! j \<or> ic \<and> UPPER (scast (s ! i)) = UPPER (scast (p ! j))) \<and>
       G (i + 1) (j + 1))"
    unfolding R_def G_def n_def by (rule glob_at_step) (use ij in \<open>auto simp: n_def\<close>)
  have rd: "byte_at (p @ 0 # q) j = Inr (p ! j)" "byte_at (s @ 0 # r) i = Inr (s ! i)"
    using ij by (simp_all add: byte_at_def nth_append n_def)
  have hit: "(if p ! j = 0x3F then Inr (G (i + 1) (j + 1)) else if p ! j = 0x2A then Inr R
       else if s ! i = p ! j \<or> ic \<and> UPPER (scast (s ! i)) = UPPER (scast (p ! j))
            then Inr (G (i + 1) (j + 1)) else Inr False) = (Inr (G i j) :: bool res)"
    using step by auto
  have "pm_dp G x i j = (\<lambda>k. if G i j \<and> k = unat (at i j) then True else pm_dp G x i (j + 1) k)"
    unfolding at(1) [OF b(3,1)] cell_eq [OF b(1)] by (intro ext) (auto simp: pm_dp_def le_less Suc_le_eq)
  from bm_table_if_set [OF dp _ this] at [OF b(3,1)]
  obtain dp' where dp': "(if G i j then bitmap_set_bit dp (at i j) else Inr dp) = Inr dp'"
    "bm_table dp' N (pm_dp G x i j)" by auto
  have t2': "bitmap_test_bit dp' (at i (j + 1)) = Inr (G i (j + 1))"
    using bm_table_test [OF dp'(2), of "at i (j + 1)"] at [OF b(3,2)] cell_div_mod [OF b(2), of i]
    by (simp add: pm_dp_def)
  have j1: "j < m \<longleftrightarrow> m = j + 1 \<or> j + 1 < m" for m by auto
  have "pm_mx G x n i j = (\<lambda>k. if R \<and> k = unat (at i (j + 1)) then True else pm_mx G x n i (j + 1) k)"
    unfolding at(1) [OF b(3,2)] cell_eq [OF b(2)] R_def
    by (intro ext) (auto simp: pm_mx_def j1)
  from bm_table_if_set [OF mx _ this] at [OF b(3,2)]
  obtain mx' where mx': "(if R then bitmap_set_bit mx (at i (j + 1)) else Inr mx) = Inr mx'"
    "bm_table mx' N (pm_mx G x n i j)" by auto
  have "pm_cell (s @ 0 # r) (p @ 0 # q) ic (of_nat x) i j (dp, mx) = Inr (dp', mx')"
    unfolding pm_cell_def prod.case Let_def at_def [THEN fun_cong, THEN fun_cong, symmetric]
      t1 t2 t3 right rd rbind.simps hit dp'(1) t2' at1 mx'(1) by (rule refl)
  then show ?thesis using dp'(2) mx'(2) by simp
qed

lemma pm_cols_inv:
  assumes "P k s" "\<And>j t. j < k \<Longrightarrow> P (j + 1) t \<Longrightarrow> \<exists>t'. f j t = Inr t' \<and> P j t'"
  shows "\<exists>t. pm_cols f k s = Inr t \<and> P 0 t"
  using assms
proof (induction k arbitrary: s)
  case (Suc k)
  then obtain s1 where s1: "f k s = Inr s1" "P k s1" by (metis Suc_eq_plus1 lessI)
  have "\<exists>t. pm_cols f k s1 = Inr t \<and> P 0 t"
    by (rule Suc.IH [OF s1(2)]) (use Suc.prems(2) in auto)
  then show ?case by (simp add: s1)
qed simp

lemma is_matching_pattern_ok:
  assumes nz: "0 \<notin> set s" "0 \<notin> set p"
    and size: "(length p + 1) * (length s + 1) + 31 < 2 ^ 32"
  shows "is_matching_pattern True (s @ 0 # r) (p @ 0 # q) ic = Inr (glob ic s p)"
proof -
  define n x N where "n = length s" and "x = length p + 1" and "N = x * (n + 1)"
  define G where "G = glob_at ic s p"
  have N: "N + 31 < 2 ^ 32" "N < 2 ^ 32" using size by (simp_all add: N_def n_def x_def)
  have x0: "0 < x" "0 < N" by (simp_all add: x_def N_def)
  have "n + 1 \<le> N" "x \<le> N" by (simp_all add: N_def x_def)
  then have small: "n + 1 < 2 ^ 32" "x < 2 ^ 32" using N(2) by linarith+
  have w: "of_nat (length s) + 1 = (of_nat (n + 1) :: u32)" "of_nat (length p) + 1 = (of_nat x :: u32)"
    by (simp_all add: n_def x_def)
  have wN: "of_nat x * of_nat (n + 1) = (of_nat N :: u32)" by (simp add: N_def algebra_simps)
  have uN: "unat (of_nat N :: u32) = N" using N(2) by (simp add: unat_of_nat)
  have "of_nat x - 1 = (of_nat (length p) :: u32)" by (simp add: x_def)
  then have ux: "unat (of_nat x - 1 :: u32) = x - 1" using small(2) by (simp add: x_def unat_of_nat)
  have un: "unat (of_nat (n + 1) - 1 :: u32) = n" using small(1) by (simp add: unat_of_nat)
  have "of_nat x * (of_nat (n + 1) - 1) + of_nat x - 1 = (of_nat (N - 1) :: u32)"
    using x0 by (simp add: N_def algebra_simps of_nat_diff)
  then have last: "of_nat x * (of_nat (n + 1) - 1) + of_nat x - 1 = (of_nat (N - 1) :: u32)" .
  have ul: "unat (of_nat (N - 1) :: u32) = N - 1" using N(2) by (simp add: unat_of_nat)
  obtain b where b: "bitmap_init True (of_nat N) = Inr b" "bm_inv b" "bm_bits b = of_nat N"
    "\<forall>i < N. \<not> bm_bit b i"
    using bitmap_init_ok [of True "of_nat N"] N(1) unfolding uN by auto
  have b0: "bm_table b N (\<lambda>k. False)" using b uN by (simp add: bm_table_def bm_inv_def)
  obtain b1 where b1: "bitmap_set_bit b (of_nat (N - 1)) = Inr b1" "bm_table b1 N ((\<lambda>k. False)(N - 1 := True))"
    using bm_table_set [OF b0, of "of_nat (N - 1)"] x0(2) unfolding ul by auto
  have pos: "k = N - 1 \<longleftrightarrow> k div x = n \<and> k mod x = x - 1" for k
  proof -
    have "N - 1 = x * n + (x - 1)" using x0 by (simp add: N_def algebra_simps)
    then show ?thesis using cell_eq [of "x - 1" x k n] x0 by simp
  qed
  have low: "k div x \<le> n \<and> k mod x \<le> length p" if "k < N" for k
  proof -
    have "k div x < n + 1" using that x0(1) by (simp add: N_def less_mult_imp_div_less mult.commute)
    moreover have "k mod x < x" using x0(1) by simp
    ultimately show ?thesis by (simp add: x_def)
  qed
  have Gend: "G a b \<longleftrightarrow> a = n \<and> b = x - 1" if "a \<le> n" "b \<le> length p" "a = n \<or> b = length p" for a b
    using glob_at_end [of a s b p ic] that by (auto simp: G_def n_def x_def)
  let ?P = "\<lambda>i j st. bm_table (fst st) N (pm_dp G x i j) \<and> bm_table (snd st) N (pm_mx G x n i j)"
  have start: "?P n 0 (b1, b1)"
  proof -
    have "((\<lambda>k. False)(N - 1 := True)) k = pm_dp G x n 0 k" if "k < N" for k
      using low [OF that] Gend [of "k div x" "k mod x"] by (auto simp: pm_dp_def pos [unfolded One_nat_def])
    moreover have "((\<lambda>k. False)(N - 1 := True)) k = pm_mx G x n n 0 k" if "k < N" for k
      using low [OF that] Gend [of n "k mod x"] x0(1) by (auto simp: pm_mx_def pos [unfolded One_nat_def])
    ultimately show ?thesis using b1(2) by (auto intro: bm_table_cong)
  qed
  have row: "\<exists>st'. pm_cols (pm_cell (s @ 0 # r) (p @ 0 # q) ic (of_nat x) i) (x - 1) st = Inr st' \<and> ?P i 0 st'"
    if i: "i < n" and P: "?P (i + 1) 0 st" for i st
  proof (rule pm_cols_inv)
    have "pm_dp G x (i + 1) 0 k = pm_dp G x i (x - 1) k" if "k < N" for k
      using low [OF that] Gend [of i "x - 1"] i by (auto simp: pm_dp_def x_def dest!: le_antisym)
    moreover have "pm_mx G x n (i + 1) 0 k = pm_mx G x n i (x - 1) k" if "k < N" for k
    proof -
      have "x - 1 = length p" by (simp add: x_def)
      then show ?thesis using low [OF that] by (auto simp: pm_mx_def)
    qed
    ultimately show "?P i (x - 1) st" using P by (auto elim: bm_table_cong)
  next
    fix j t assume "j < x - 1" "?P i (j + 1) t"
    then show "\<exists>t'. pm_cell (s @ 0 # r) (p @ 0 # q) ic (of_nat x) i j t = Inr t' \<and> ?P i j t'"
      using pm_cell_ok [of i s j p N "fst t" ic "snd t" r q] i N(2)
      by (simp add: n_def x_def N_def G_def)
  qed
  let ?f = "\<lambda>i. pm_cols (pm_cell (s @ 0 # r) (p @ 0 # q) ic (of_nat x) i) (x - 1)"
  have "\<exists>st. pm_cols ?f n (b1, b1) = Inr st \<and> ?P 0 0 st"
    by (rule pm_cols_inv [where P = "\<lambda>i. ?P i 0", OF start row])
  then obtain st where st: "pm_cols ?f n (b1, b1) = Inr st" "?P 0 0 st" by blast
  define dp mx where "dp = fst st" and "mx = snd st"
  have run: "pm_cols ?f n (b1, b1) = Inr (dp, mx)" "?P 0 0 (dp, mx)"
    using st by (simp_all add: dp_def mx_def)
  have res: "bitmap_test_bit dp 0 = Inr (glob ic s p)"
    using bm_table_test [of dp N "pm_dp G x 0 0" 0] run(2) x0 by (simp add: pm_dp_def G_def glob_at_def)
  show ?thesis
    unfolding is_matching_pattern_def strlen_ok [OF nz(1)] strlen_ok [OF nz(2)] rbind.simps Let_def
      w wN b(1) last b1(1) ux un run(1) prod.case res by (rule refl)
qed

section \<open>Properties\<close>

text \<open>\<open>strstr\<close>, which searches with the Z-function, reports the least position from 1 on at which
  the needle occurs in the needle followed by the haystack, as an offset from the haystack (so a
  match that starts inside the needle has a negative offset), and \<open>NULL\<close> only when there is none;
  the needle's object is at least as long as the haystack.\<close>

lemma strstr_first_occurrence:
  assumes "0 \<notin> set ndl" "0 \<notin> set hay" "length ndl \<le> length hay" "0 < length hay"
    and "length hay \<le> length (ndl @ 0 # r)" "length (ndl @ hay) < 2 ^ 32"
    and "\<And>k. length (fresh k) = k" "\<And>k. length (fresh_z k) = k"
  shows "\<exists>res. strstr fresh fresh_z (ndl @ 0 # r) (hay @ 0 # q) = Inr res \<and>
    (case res of
       Some off \<Rightarrow> (let i = nat (off + int (length ndl)) in
         1 \<le> i \<and> off = int i - int (length ndl) \<and> take (length ndl) (drop i (ndl @ hay)) = ndl \<and>
         (\<forall>j. 1 \<le> j \<and> j < i \<longrightarrow> take (length ndl) (drop j (ndl @ hay)) \<noteq> ndl))
     | None \<Rightarrow> \<forall>j. 1 \<le> j \<and> j \<le> length hay \<and> j < length (ndl @ hay) \<longrightarrow>
         take (length ndl) (drop j (ndl @ hay)) \<noteq> ndl)"
  by (rule strstr_ok [OF assms])

lemma strstr_first_occurrence_witness:
  "\<exists>res. strstr (\<lambda>k. replicate k 7) (\<lambda>k. replicate k 9) ([0x61, 0x61] @ 0 # [1, 2]) ([0x62, 0x61, 0x61] @ 0 # []) = Inr res \<and>
    (case res of
       Some off \<Rightarrow> (let i = nat (off + int (length [0x61 :: u8, 0x61])) in
         1 \<le> i \<and> off = int i - int (length [0x61 :: u8, 0x61]) \<and>
         take (length [0x61 :: u8, 0x61]) (drop i ([0x61, 0x61] @ [0x62, 0x61, 0x61])) = [0x61 :: u8, 0x61] \<and>
         (\<forall>j. 1 \<le> j \<and> j < i \<longrightarrow>
           take (length [0x61 :: u8, 0x61]) (drop j ([0x61, 0x61] @ [0x62, 0x61, 0x61])) \<noteq> [0x61 :: u8, 0x61]))
     | None \<Rightarrow> \<forall>j. 1 \<le> j \<and> j \<le> length [0x62 :: u8, 0x61, 0x61] \<and>
         j < length ([0x61 :: u8, 0x61] @ [0x62, 0x61, 0x61]) \<longrightarrow>
         take (length [0x61 :: u8, 0x61]) (drop j ([0x61, 0x61] @ [0x62, 0x61, 0x61])) \<noteq> [0x61 :: u8, 0x61])"
  by (rule strstr_first_occurrence) simp_all

text \<open>C16: the backwards table of \<open>is_matching_pattern\<close> decides \<open>glob\<close>, without a fault, whenever the
  table's cells can be counted in 32 bits.\<close>

lemma pattern_table_decides_glob:
  assumes "0 \<notin> set s" "0 \<notin> set p" "(length p + 1) * (length s + 1) + 31 < 2 ^ 32"
  shows "is_matching_pattern True (s @ 0 # r) (p @ 0 # q) ic = Inr (glob ic s p)"
  by (rule is_matching_pattern_ok [OF assms])

lemma pattern_table_decides_glob_witness:
  "is_matching_pattern True ([0x61, 0x62, 0x63] @ 0 # []) ([0x2A, 0x3F, 0x43] @ 0 # []) True =
   Inr (glob True [0x61, 0x62, 0x63] [0x2A, 0x3F, 0x43])"
  by (rule pattern_table_decides_glob) simp_all

text \<open>A trailing \<open>*\<close> needs at least one character: \<open>a*\<close> does not match \<open>a\<close>.\<close>

lemma trailing_star_needs_a_character:
  "is_matching_pattern True ([0x61] @ 0 # []) ([0x61, 0x2A] @ 0 # []) ic = Inr False"
  by (subst is_matching_pattern_ok) simp_all

end
