(* ===== verification/Dynamic_Array.thy ===== *)
theory Dynamic_Array
  imports Strings
begin

text \<open>
  The dynamic array of \<^verbatim>\<open>lib/dynamic_array.c\<close>: a double-ended queue in a circular buffer of
  \<open>size\<close> slots, a power of two.  \<open>start\<close> is the slot before the first element and \<open>end\<close> the
  slot after the last.  The buffer is the allocated object; \<open>junk\<close> is what \<open>malloc\<close> and
  \<open>realloc\<close> leave in new memory.
\<close>

unbundle bit_operations_syntax

section \<open>State and operations\<close>

record dynamic_array_t =
  da_buffer :: bytes
  da_size :: u32
  da_count :: u32
  da_es :: u32
  da_start :: u32
  da_end :: u32

text \<open>
  \<open>realloc\<close> of \<^verbatim>\<open>kernel/heap.c\<close>: a request of no bytes frees the object, a request that fits
  returns it as it is, any other moves or grows it.
\<close>

definition realloc_buf :: "(nat \<Rightarrow> bytes) \<Rightarrow> bytes \<Rightarrow> u32 \<Rightarrow> bytes" where
  "realloc_buf junk b n =
     (if n = 0 then [] else if unat n \<le> length b then b else b @ junk (unat n - length b))"

definition dynamic_array_create :: "(nat \<Rightarrow> bytes) \<Rightarrow> u32 \<Rightarrow> dynamic_array_t" where
  "dynamic_array_create junk size_of_element =
     \<lparr> da_buffer = junk (unat size_of_element), da_size = 1, da_count = 0, da_es = size_of_element,
       da_start = 0, da_end = 0 \<rparr>"

definition array_expand :: "(nat \<Rightarrow> bytes) \<Rightarrow> dynamic_array_t \<Rightarrow> dynamic_array_t res" where
  "array_expand junk a =
     (if da_size a \<noteq> da_count a then Inr a
      else
        let a = a\<lparr> da_buffer := realloc_buf junk (da_buffer a) (2 * da_size a * da_es a) \<rparr> in
        rbind
          (if da_size a = 1 then Inr (a\<lparr> da_start := 1, da_end := 1 \<rparr>)
           else if da_start a < da_end a then
             let right_elements_count = da_size a - da_start a - 1 in
             rbind (buf_copy (da_buffer a) (unat ((2 * da_size a - right_elements_count) * da_es a))
                     (da_buffer a) (unat ((da_start a + 1) * da_es a))
                     (unat (right_elements_count * da_es a))) (\<lambda>buffer.
             Inr (a\<lparr> da_buffer := buffer, da_start := 2 * da_size a - right_elements_count - 1 \<rparr>))
           else Inr (a\<lparr> da_start := 2 * da_size a - 1, da_end := da_count a \<rparr>))
          (\<lambda>a. Inr (a\<lparr> da_size := da_size a * 2 \<rparr>)))"

text \<open>The shrinking \<open>realloc\<close> leaves the pointer, whose result the code ignores, unchanged.\<close>

definition array_shrink :: "dynamic_array_t \<Rightarrow> dynamic_array_t res" where
  "array_shrink a =
     (if da_count a = 0 \<and> da_size a \<noteq> 1 then
        Inr (a\<lparr> da_size := 1, da_start := 0, da_end := 0 \<rparr>)
      else if da_count a - 1 = 0 then Inl (Undefined ''clz of 0'')
      else if clz32 (da_count a - 1) = 0 then Inl (Undefined ''shift by 32'')
      else
        let new_size = push_bit (32 - clz32 (da_count a - 1)) 1 in
        if new_size = da_size a then Inr a
        else rbind
          (if da_start a < da_end a \<or> da_end a = 0 then
             rbind (buf_copy (da_buffer a) 0
                     (da_buffer a) (unat ((da_start a + 1) * da_es a))
                     (unat (da_count a * da_es a))) (\<lambda>buffer.
             Inr (a\<lparr> da_buffer := buffer, da_start := new_size - 1,
                     da_end := da_count a AND (new_size - 1) \<rparr>))
           else if da_start a > da_end a then
             let right_elements_count = da_size a - da_start a - 1 in
             rbind (buf_copy (da_buffer a) (unat ((new_size - right_elements_count) * da_es a))
                     (da_buffer a) (unat ((da_start a + 1) * da_es a))
                     (unat (right_elements_count * da_es a))) (\<lambda>buffer.
             Inr (a\<lparr> da_buffer := buffer, da_start := new_size - right_elements_count - 1 \<rparr>))
           else Inr a)
          (\<lambda>a. Inr (a\<lparr> da_size := new_size \<rparr>)))"

definition dynamic_array_push_back :: "(nat \<Rightarrow> bytes) \<Rightarrow> dynamic_array_t \<Rightarrow> bytes \<Rightarrow> dynamic_array_t res" where
  "dynamic_array_push_back junk a element =
     rbind (buf_copy (da_buffer a) (unat (da_end a * da_es a)) element 0 (unat (da_es a))) (\<lambda>buffer.
     let a = a\<lparr> da_buffer := buffer, da_count := da_count a + 1,
                da_end := (da_end a + 1) AND (da_size a - 1) \<rparr> in
     if da_count a = da_size a then array_expand junk a else Inr a)"

definition dynamic_array_push_front :: "(nat \<Rightarrow> bytes) \<Rightarrow> dynamic_array_t \<Rightarrow> bytes \<Rightarrow> dynamic_array_t res" where
  "dynamic_array_push_front junk a element =
     rbind (buf_copy (da_buffer a) (unat (da_start a * da_es a)) element 0 (unat (da_es a))) (\<lambda>buffer.
     let a = a\<lparr> da_buffer := buffer, da_count := da_count a + 1,
                da_start := (da_start a - 1) AND (da_size a - 1) \<rparr> in
     if da_count a = da_size a then array_expand junk a else Inr a)"

definition dynamic_array_pop_back :: "dynamic_array_t \<Rightarrow> dynamic_array_t res" where
  "dynamic_array_pop_back a =
     (if da_count a = 0 then Inr a
      else
        let a = a\<lparr> da_end := (da_end a - 1) AND (da_size a - 1), da_count := da_count a - 1 \<rparr> in
        if da_size a > 1 \<and> da_count a * 4 < da_size a then array_shrink a else Inr a)"

definition dynamic_array_pop_front :: "dynamic_array_t \<Rightarrow> dynamic_array_t res" where
  "dynamic_array_pop_front a =
     (if da_count a = 0 then Inr a
      else
        let a = a\<lparr> da_start := (da_start a + 1) AND (da_size a - 1), da_count := da_count a - 1 \<rparr> in
        if da_size a > 1 \<and> da_count a * 4 < da_size a then array_shrink a else Inr a)"

definition dynamic_array_clear :: "(nat \<Rightarrow> bytes) \<Rightarrow> dynamic_array_t \<Rightarrow> dynamic_array_t" where
  "dynamic_array_clear junk a =
     (if da_count a = 0 then a
      else a\<lparr> da_start := 0, da_end := 0, da_count := 0, da_size := 1,
              da_buffer := realloc_buf junk (da_buffer a) (da_es a) \<rparr>)"

text \<open>The address of an element, as its offset in the buffer, and the element read from it.\<close>

definition dynamic_array_get_by_index :: "dynamic_array_t \<Rightarrow> u32 \<Rightarrow> u32 res" where
  "dynamic_array_get_by_index a index =
     (if index < da_count a
      then Inr (((da_start a + index + 1) AND (da_size a - 1)) * da_es a)
      else Inl (Assertion ''index < array->elements_count''))"

definition dynamic_array_set_by_index :: "dynamic_array_t \<Rightarrow> u32 \<Rightarrow> bytes \<Rightarrow> dynamic_array_t res" where
  "dynamic_array_set_by_index a index v =
     rbind (dynamic_array_get_by_index a index) (\<lambda>off.
     rbind (buf_copy (da_buffer a) (unat off) v 0 (unat (da_es a))) (\<lambda>buffer.
     Inr (a\<lparr> da_buffer := buffer \<rparr>)))"

definition dynamic_array_get_bottom :: "dynamic_array_t \<Rightarrow> u32 res" where
  "dynamic_array_get_bottom a = dynamic_array_get_by_index a 0"

definition dynamic_array_get_top :: "dynamic_array_t \<Rightarrow> u32 res" where
  "dynamic_array_get_top a =
     (if da_count a > 0 then Inr (((da_end a - 1) AND (da_size a - 1)) * da_es a)
      else Inl (Assertion ''array->elements_count > 0''))"

definition dynamic_array_copy :: "(nat \<Rightarrow> bytes) \<Rightarrow> dynamic_array_t \<Rightarrow> dynamic_array_t \<Rightarrow> dynamic_array_t res" where
  "dynamic_array_copy junk dst src =
     (let n = da_size src * da_es src in
      rbind (buf_copy (realloc_buf junk (da_buffer dst) n) 0 (da_buffer src) 0 (unat n)) (\<lambda>buffer.
      Inr (src\<lparr> da_buffer := buffer \<rparr>)))"

function da_find_loop :: "dynamic_array_t \<Rightarrow> bytes \<Rightarrow> u32 \<Rightarrow> u32 res" where
  "da_find_loop a v ix =
     (if ix < da_count a then
        case dynamic_array_get_by_index a ix of
          Inl e \<Rightarrow> Inl e
        | Inr off \<Rightarrow>
            rbind (memcmp v (drop (unat off) (da_buffer a)) (da_es a)) (\<lambda>eq.
            if eq then Inr ix else da_find_loop a v (ix + 1))
      else Inr (da_count a))"
  by pat_completeness auto

termination
  by (relation "measure (\<lambda>(a, v, ix). unat (da_count a) - unat ix)")
     (auto simp: unat_succ_less word_less_nat_alt)

declare da_find_loop.simps [simp del]

definition dynamic_array_find_first_eq :: "dynamic_array_t \<Rightarrow> bytes \<Rightarrow> u32 res" where
  "dynamic_array_find_first_eq a v = da_find_loop a v 0"

section \<open>Contents and invariant\<close>

text \<open>The elements, first to last.\<close>

definition da_slots :: "dynamic_array_t \<Rightarrow> bytes list" where
  "da_slots a = slots (unat (da_es a)) (unat (da_size a)) (da_buffer a)"

definition da_list :: "dynamic_array_t \<Rightarrow> bytes list" where
  "da_list a = cyc (da_slots a) (unat (da_start a) + 1) (unat (da_count a))"

text \<open>
  There is always a free slot, and except in the smallest array at least a quarter of the slots is
  in use.
\<close>

definition da_shape :: "dynamic_array_t \<Rightarrow> bool" where
  "da_shape a = (pow2w (da_size a) \<and> da_es a \<noteq> 0 \<and>
     unat (da_start a) < unat (da_size a) \<and>
     unat (da_end a) = (unat (da_start a) + 1 + unat (da_count a)) mod unat (da_size a) \<and>
     unat (da_size a) * unat (da_es a) \<le> length (da_buffer a) \<and> length (da_buffer a) < 2 ^ 32)"

definition da_inv :: "dynamic_array_t \<Rightarrow> bool" where
  "da_inv a = (da_shape a \<and> unat (da_count a) < unat (da_size a) \<and>
     (da_size a = 1 \<or> unat (da_size a) \<le> 4 * unat (da_count a)))"

lemma length_da_slots [simp]: "length (da_slots a) = unat (da_size a)"
  by (simp add: da_slots_def)

lemma length_da_list [simp]: "length (da_list a) = unat (da_count a)"
  by (simp add: da_list_def)

lemma da_off:
  assumes "da_shape a" "unat i < unat (da_size a)"
  shows "unat (i * da_es a) = unat i * unat (da_es a)"
    "unat i * unat (da_es a) + unat (da_es a) \<le> length (da_buffer a)"
proof -
  show le: "unat i * unat (da_es a) + unat (da_es a) \<le> length (da_buffer a)"
    by (rule slot_fits [OF assms(2)]) (use assms(1) in \<open>simp add: da_shape_def\<close>)
  then show "unat (i * da_es a) = unat i * unat (da_es a)"
    using assms(1) by (simp add: da_shape_def unat_word_ariths)
qed

lemma nth_da_list:
  "k < unat (da_count a) \<Longrightarrow> 0 < unat (da_size a) \<Longrightarrow>
   da_list a ! k = slot (unat (da_es a)) (da_buffer a) ((unat (da_start a) + 1 + k) mod unat (da_size a))"
  by (simp add: da_list_def da_slots_def)

lemma da_shapeD:
  assumes "da_shape a"
  shows "pow2w (da_size a)" "0 < unat (da_es a)" "unat (da_start a) < unat (da_size a)"
    "unat (da_end a) < unat (da_size a)" "0 < unat (da_size a)"
    "unat (da_end a) = (unat (da_start a) + 1 + unat (da_count a)) mod unat (da_size a)"
    "unat (da_size a) * unat (da_es a) \<le> length (da_buffer a)" "length (da_buffer a) < 2 ^ 32"
    "unat (da_size a) < 2 ^ 32"
proof -
  show s: "0 < unat (da_size a)" using assms by (simp add: da_shape_def)
  show "unat (da_end a) < unat (da_size a)" using assms s by (simp add: da_shape_def del: unat_gt_0)
  show "unat (da_size a) < 2 ^ 32" by (rule unat_less_2p32)
qed (use assms in \<open>simp_all add: da_shape_def unat_gt_0\<close>)

lemma da_write:
  assumes "da_shape a" "unat i < unat (da_size a)" "length e = unat (da_es a)"
  shows "\<exists>b. buf_copy (da_buffer a) (unat (i * da_es a)) e 0 (unat (da_es a)) = Inr b \<and>
    length b = length (da_buffer a) \<and>
    slots (unat (da_es a)) (unat (da_size a)) b = (da_slots a)[unat i := e]"
  using da_off [OF assms(1,2)] assms(3) da_shapeD(7) [OF assms(1)]
    slots_write [OF assms(2), of "unat (da_es a)" "da_buffer a" e]
  by (simp add: buf_copy_ok da_slots_def)

section \<open>Blocks of slots moved inside the buffer\<close>

lemma nth_slot: "t < es \<Longrightarrow> i * es + es \<le> length b \<Longrightarrow> slot es b i ! t = b ! (i * es + t)"
  by (simp add: slot_def)

lemma slots_move:
  assumes "(dst + r) * es \<le> length b" "(src + r) * es \<le> length b"
  shows "\<exists>b'. buf_copy b (dst * es) b (src * es) (r * es) = Inr b' \<and> length b' = length b \<and>
    (\<forall>i. i * es + es \<le> length b \<longrightarrow>
      slot es b' i = (if dst \<le> i \<and> i < dst + r then slot es b (src + (i - dst)) else slot es b i))"
proof -
  let ?b = "take (dst * es) b @ take (r * es) (drop (src * es) b) @ drop (dst * es + r * es) b"
  have fits: "dst * es + r * es \<le> length b" "src * es + r * es \<le> length b"
    using assms by (simp_all add: add_mult_distrib)
  have len: "length ?b = length b" using fits by simp
  have nth: "?b ! k = (if dst * es \<le> k \<and> k < dst * es + r * es then b ! (k - dst * es + src * es) else b ! k)"
    if "k < length b" for k
  proof -
    define mid where "mid = take (r * es) (drop (src * es) b)"
    have mid: "length mid = r * es" "\<And>t. t < r * es \<Longrightarrow> mid ! t = b ! (src * es + t)"
      using fits(2) by (simp_all add: mid_def)
    show ?thesis unfolding mid_def [symmetric]
      using that fits(1) mid by (auto simp: nth_append add.commute)
  qed
  define b' where "b' = ?b"
  note len = len [folded b'_def] and nth = nth [folded b'_def]
  have "slot es b' i = (if dst \<le> i \<and> i < dst + r then slot es b (src + (i - dst)) else slot es b i)"
    if i: "i * es + es \<le> length b" for i
  proof (cases "dst \<le> i \<and> i < dst + r")
    case True
    then have "(i - dst + 1) * es \<le> r * es" by (intro mult_le_mono1) linarith
    moreover have "i * es = dst * es + (i - dst) * es" using True by (simp add: add_mult_distrib [symmetric])
    ultimately have le: "(src + (i - dst)) * es + es \<le> length b" "dst * es \<le> i * es"
      "i * es + es \<le> dst * es + r * es" "i * es - dst * es = (i - dst) * es"
      using fits(2) by (simp_all add: add_mult_distrib)
    show ?thesis
    proof (rule nth_equalityI)
      fix t assume "t < length (slot es b' i)"
      then have t: "t < es" by (simp add: slot_def)
      then have "slot es b' i ! t = b' ! (i * es + t)" using i len by (intro nth_slot) auto
      also have "\<dots> = b ! (i * es + t - dst * es + src * es)"
      proof -
        have "dst * es \<le> i * es + t" "i * es + t < dst * es + r * es" "i * es + t < length b"
          using t i le(2,3) by linarith+
        then show ?thesis by (subst nth) (simp_all only: simp_thms if_True)
      qed
      also have "i * es + t - dst * es + src * es = (src + (i - dst)) * es + t"
      proof -
        have "i * es + t - dst * es = (i - dst) * es + t" using le(2,4) by linarith
        then show ?thesis by (simp add: add_mult_distrib)
      qed
      finally show "slot es b' i ! t = (if dst \<le> i \<and> i < dst + r then slot es b (src + (i - dst)) else slot es b i) ! t"
        using True t le(1) by (simp add: nth_slot)
    qed (use True i le(1) len in \<open>simp add: slot_def\<close>)
  next
    case False
    then have out: "i * es + es \<le> dst * es \<or> dst * es + r * es \<le> i * es"
      using mult_le_mono1 [of "Suc i" dst es] mult_le_mono1 [of "dst + r" i es]
      by (auto simp: add_mult_distrib not_le not_less Suc_le_eq)
    show ?thesis
    proof (rule nth_equalityI)
      fix t assume "t < length (slot es b' i)"
      then have t: "t < es" by (simp add: slot_def)
      then have "slot es b' i ! t = b' ! (i * es + t)" using i len by (intro nth_slot) auto
      then show "slot es b' i ! t = (if dst \<le> i \<and> i < dst + r then slot es b (src + (i - dst)) else slot es b i) ! t"
        using False nth [of "i * es + t"] t i out by (auto simp: nth_slot)
    qed (use False i len in \<open>auto simp: slot_def\<close>)
  qed
  then show ?thesis using fits len by (intro exI [of _ b']) (simp add: buf_copy_ok b'_def)
qed

section \<open>Growing\<close>

lemma pow2w_double:
  assumes "pow2w s" "2 * unat s < 2 ^ 32"
  shows "pow2w (s * 2)" "unat (s * 2) = 2 * unat s" "unat (2 * s) = 2 * unat s"
proof -
  obtain k where k: "k < 32" "s = 2 ^ k" using assms(1) by (auto simp: pow2w_iff)
  then have "2 ^ Suc k < (2 :: nat) ^ 32" using assms(2) by (simp add: unat_2p)
  then have "Suc k < 32" by (subst (asm) power_strict_increasing_iff) simp_all
  moreover have "s * 2 = 2 ^ Suc k" using k(2) by simp
  ultimately show "pow2w (s * 2)" unfolding pow2w_iff by blast
  show "unat (s * 2) = 2 * unat s" "unat (2 * s) = 2 * unat s"
    using assms(2) by (simp_all add: unat_word_ariths mult.commute)
qed

lemma realloc_buf_grow:
  assumes "\<And>k. length (junk k) = k" "0 < unat n"
  shows "length (realloc_buf junk b n) = max (length b) (unat n)"
    "i * es + es \<le> length b \<Longrightarrow> slot es (realloc_buf junk b n) i = slot es b i"
  using assms by (auto simp: realloc_buf_def slot_def unat_gt_0)

lemma da_list_cong:
  assumes "da_count a' = da_count a" "0 < unat (da_size a)" "0 < unat (da_size a')" "da_es a' = da_es a"
    and "\<And>k. k < unat (da_count a) \<Longrightarrow>
      slot (unat (da_es a)) (da_buffer a') ((unat (da_start a') + 1 + k) mod unat (da_size a')) =
      slot (unat (da_es a)) (da_buffer a) ((unat (da_start a) + 1 + k) mod unat (da_size a))"
  shows "da_list a' = da_list a"
  by (rule nth_equalityI) (use assms in \<open>simp_all add: nth_da_list del: unat_gt_0\<close>)

lemma mult_es:
  "unat i \<le> n \<Longrightarrow> n * unat es < 2 ^ 32 \<Longrightarrow> unat (i * es :: u32) = unat i * unat es"
proof -
  assume "unat i \<le> n" "n * unat es < 2 ^ 32"
  then have "unat i * unat es < 2 ^ 32" using mult_le_mono1 [of "unat i" n "unat es"] by linarith
  then show ?thesis by (simp add: unat_word_ariths)
qed

lemma array_expand_ok:
  assumes a: "da_shape a" "unat (da_count a) = unat (da_size a)"
    and room: "2 * unat (da_size a) * unat (da_es a) < 2 ^ 32" and junk: "\<And>k. length (junk k) = k"
  shows "\<exists>a'. array_expand junk a = Inr a' \<and> da_inv a' \<and> da_list a' = da_list a \<and> da_es a' = da_es a"
proof -
  note d = da_shapeD [OF a(1)]
  define S es st where "S = unat (da_size a)" and "es = unat (da_es a)" and "st = unat (da_start a)"
  have S: "0 < S" "0 < es" "st < S" using d by (simp_all add: S_def es_def st_def)
  have "2 * S * 1 \<le> 2 * S * es" using S(2) by (intro mult_le_mono2) simp
  then have S32: "2 * S < 2 ^ 32" using room unfolding S_def es_def by linarith
  note dbl = pow2w_double [OF d(1) S32 [unfolded S_def], folded S_def]
  let ?n = "2 * da_size a * da_es a"
  have n: "unat ?n = 2 * S * es" using room dbl(3) by (simp add: S_def es_def unat_word_ariths)
  define b1 where "b1 = realloc_buf junk (da_buffer a) ?n"
  have lb: "length b1 = max (length (da_buffer a)) (2 * S * es)"
    unfolding b1_def using realloc_buf_grow(1) [OF junk, where n = ?n] n S by simp
  then have lb': "2 * S * es \<le> length b1" "length b1 < 2 ^ 32"
    using d(8) room by (simp_all add: S_def es_def)
  have slot1: "slot es b1 i = slot es (da_buffer a) i" if "i < S" for i
    unfolding b1_def
    by (rule realloc_buf_grow(2) [OF junk]) (use that n S d(7) slot_fits [of i S es] in \<open>simp_all add: S_def es_def\<close>)
  have ceq: "da_count a = da_size a" using a(2) by (simp add: word_unat_eq_iff)
  have end': "unat (da_end a) = (st + 1) mod S" 
    unfolding S_def st_def d(6) a(2) by (rule mod_add_self2)
  have fin: ?thesis
    if run: "array_expand junk a = Inr (a\<lparr> da_buffer := b2, da_start := s2, da_end := e2, da_size := da_size a * 2 \<rparr>)"
      and s2: "unat s2 < 2 * S" "unat e2 = (unat s2 + 1 + S) mod (2 * S)" and b2: "length b2 = length b1"
      and sl: "\<And>k. k < S \<Longrightarrow> slot es b2 ((unat s2 + 1 + k) mod (2 * S)) = slot es (da_buffer a) ((st + 1 + k) mod S)"
    for b2 s2 e2
  proof -
    let ?a = "a\<lparr> da_buffer := b2, da_start := s2, da_end := e2, da_size := da_size a * 2 \<rparr>"
    have "da_inv ?a" using dbl s2 b2 lb' S a by (simp add: da_inv_def da_shape_def S_def es_def)
    moreover have "da_list ?a = da_list a"
      by (rule da_list_cong) (use dbl(2) S sl in \<open>simp_all add: S_def es_def st_def ceq del: unat_gt_0\<close>)
    ultimately show ?thesis using run by simp
  qed
  have D: "da_size a = 1 \<longleftrightarrow> S = 1" unfolding S_def by (metis unat_1 word_unat_eq_iff)
  consider "S = 1" | "S \<noteq> 1" "st + 1 < S" | "S \<noteq> 1" "st + 1 = S" using S(3) by linarith
  then show ?thesis
  proof cases
    case 1
    then have "array_expand junk a = Inr (a\<lparr> da_buffer := b1, da_start := 1, da_end := 1, da_size := da_size a * 2 \<rparr>)"
      using D by (simp add: array_expand_def ceq b1_def)
    then show ?thesis by (rule fin) (use 1 S slot1 in simp_all)
  next
    case 2
    define r where "r = da_size a - da_start a - 1"
    have lt: "da_start a < da_end a" using end' 2 by (simp add: word_less_nat_alt st_def)
    have r1: "unat (da_size a - da_start a) = S - st"
      using S(3) by (simp add: unat_sub_if' S_def st_def)
    then have r: "unat r = S - st - 1" unfolding r_def using 2 by (subst unat_minus_one) auto
    have dst: "unat (2 * da_size a - r) = S + st + 1"
      using r dbl(3) 2 by (subst unat_sub) (simp_all add: word_le_nat_alt)
    have dst1: "unat (2 * da_size a - r - 1) = S + st"
      by (subst unat_minus_one) (use dst in auto)
    have src: "unat (da_start a + 1) = st + 1"
      using S(3) S32 by (simp add: unat_word_ariths st_def)
    have es32: "2 * S * unat (da_es a) < 2 ^ 32" using room by (simp add: S_def)
    have offs: "unat ((2 * da_size a - r) * da_es a) = (S + st + 1) * es"
      "unat ((da_start a + 1) * da_es a) = (st + 1) * es" "unat (r * da_es a) = (S - st - 1) * es"
      using mult_es [OF _ es32, of "2 * da_size a - r"] mult_es [OF _ es32, of "da_start a + 1"]
        mult_es [OF _ es32, of r] dst src r 2 unfolding es_def by simp_all
    have "(S + st + 1 + (S - st - 1)) * es \<le> length b1" "(st + 1 + (S - st - 1)) * es \<le> length b1"
    proof -
      have e: "S + st + 1 + (S - st - 1) = 2 * S" "st + 1 + (S - st - 1) = S" using 2 by linarith+
      show "(S + st + 1 + (S - st - 1)) * es \<le> length b1" "(st + 1 + (S - st - 1)) * es \<le> length b1"
        unfolding e using lb'(1) mult_le_mono1 [of S "2 * S" es] by linarith+
    qed
    from slots_move [OF this] obtain b2 where b2:
      "buf_copy b1 ((S + st + 1) * es) b1 ((st + 1) * es) ((S - st - 1) * es) = Inr b2" "length b2 = length b1"
      "\<And>i. i * es + es \<le> length b1 \<Longrightarrow> slot es b2 i =
        (if S + st + 1 \<le> i \<and> i < S + st + 1 + (S - st - 1) then slot es b1 (st + 1 + (i - (S + st + 1))) else slot es b1 i)"
      by blast
    have "array_expand junk a = Inr (a\<lparr> da_buffer := b2, da_start := 2 * da_size a - r - 1, da_end := da_end a,
        da_size := da_size a * 2 \<rparr>)"
      using D 2(1) lt b2(1) 
      unfolding array_expand_def Let_def b1_def [symmetric] by (simp add: ceq offs flip: r_def)
    then show ?thesis
    proof (rule fin)
      fix k assume k: "k < S"
      show "slot es b2 ((unat (2 * da_size a - r - 1) + 1 + k) mod (2 * S)) = slot es (da_buffer a) ((st + 1 + k) mod S)"
      proof (cases "st + 1 + k < S")
        case True
        then have i: "(unat (2 * da_size a - r - 1) + 1 + k) mod (2 * S) = S + st + 1 + k" using dst1 by simp
        have fit: "(S + st + 1 + k) * es + es \<le> length b1" by (rule slot_fits [OF _ lb'(1)]) (use True in simp)
        show ?thesis unfolding i b2(3) [OF fit] using True slot1 by simp
      next
        case False
        have "S + st + 1 + k - 2 * S = st + 1 + k - S" "st + 1 + k - S < S" using False k 2 by linarith+
        then have i: "(unat (2 * da_size a - r - 1) + 1 + k) mod (2 * S) = st + 1 + k - S"
          using dst1 False k 2 by (simp add: mod_if)
        have j: "(st + 1 + k) mod S = st + 1 + k - S" using False k 2 by (simp add: mod_if)
        have fit: "(st + 1 + k - S) * es + es \<le> length b1" by (rule slot_fits [OF _ lb'(1)]) (use k 2 in simp)
        have "\<not> S + st + 1 \<le> st + 1 + k - S" "st + 1 + k - S < S" using k 2 by linarith+
        then show ?thesis unfolding i j b2(3) [OF fit] using slot1 by simp
      qed
    qed (use dst1 2 S end' b2(2) in \<open>simp_all add: mod_if\<close>)
  next
    case 3
    have s: "unat (2 * da_size a - 1) = 2 * S - 1" by (subst unat_minus_one) (use dbl(3) S in auto)
    have nlt: "\<not> da_start a < da_end a" using end' 3 by (simp add: word_less_nat_alt st_def)
    have "array_expand junk a = Inr (a\<lparr> da_buffer := b1, da_start := 2 * da_size a - 1, da_end := da_count a,
        da_size := da_size a * 2 \<rparr>)"
      using D 3(1) nlt unfolding array_expand_def Let_def b1_def [symmetric] by (simp add: ceq)
    then show ?thesis
    proof (rule fin)
      fix k assume k: "k < S"
      have "(unat (2 * da_size a - 1) + 1 + k) mod (2 * S) = k" using s k S(1) by (simp add: mod_if)
      moreover have "(st + 1 + k) mod S = k" using 3(2) k by (simp add: mod_if)
      ultimately show "slot es b1 ((unat (2 * da_size a - 1) + 1 + k) mod (2 * S)) = slot es (da_buffer a) ((st + 1 + k) mod S)"
        using slot1 [OF k] by simp
    qed (use s S in \<open>simp_all add: ceq S_def mod_if\<close>)
  qed
qed

lemma unat_pred_and_pow2:
  assumes "pow2w s"
  shows "unat ((x - 1) AND (s - 1)) = (unat x + (unat s - 1)) mod unat s"
proof -
  obtain m where m: "2 ^ 32 = unat s * m" using unat_pow2_dvd [OF assms] by (elim dvdE)
  have "0 < unat s" using assms by simp
  moreover have "0 < m" using m by (cases m) auto
  ultimately have e: "unat x + (2 ^ 32 - 1) = unat x + (unat s - 1) + unat s * (m - 1)"
    unfolding m by (cases m) simp_all
  have "unat (x - 1) = (unat x + (2 ^ 32 - 1)) mod 2 ^ 32" using unat_diff_wrap [of x 1] by simp
  then have "unat ((x - 1) AND (s - 1)) = (unat x + (2 ^ 32 - 1)) mod 2 ^ 32 mod unat s"
    by (simp only: unat_and_pow2 [OF assms])
  also have "\<dots> = (unat x + (2 ^ 32 - 1)) mod unat s"
    by (rule mod_mod_cancel [OF unat_pow2_dvd [OF assms]])
  finally show ?thesis unfolding e by simp
qed

section \<open>Insertion at both ends\<close>

definition da_room :: "dynamic_array_t \<Rightarrow> bool" where
  "da_room a = (2 * unat (da_size a) * unat (da_es a) < 2 ^ 32)"

lemma push_finish:
  assumes a: "da_shape a" "unat (da_count a) \<le> unat (da_size a)" "0 < unat (da_count a)"
    and q: "da_size a = 1 \<or> unat (da_size a) \<le> 4 * unat (da_count a)"
    and r: "da_room a" "\<And>k. length (junk k) = k"
  shows "\<exists>a'. (if da_count a = da_size a then array_expand junk a else Inr a) = Inr a' \<and> da_inv a' \<and>
    da_list a' = da_list a \<and> da_es a' = da_es a"
proof (cases "da_count a = da_size a")
  case True
  then show ?thesis using array_expand_ok [of a junk] a r by (simp add: da_room_def)
next
  case False
  then have "unat (da_count a) < unat (da_size a)" using a(2) by (simp add: le_less word_unat_eq_iff)
  then show ?thesis using False a q by (simp add: da_inv_def)
qed

lemma da_count_succ: "da_inv a \<Longrightarrow> unat (da_count a + 1) = Suc (unat (da_count a))"
  using da_shapeD(9) [of a] by (simp add: da_inv_def unat_word_ariths)

lemma dynamic_array_push_back_ok:
  assumes a: "da_inv a" "da_room a" and e: "length e = unat (da_es a)" and junk: "\<And>k. length (junk k) = k"
  shows "\<exists>a'. dynamic_array_push_back junk a e = Inr a' \<and> da_inv a' \<and> da_es a' = da_es a \<and>
    da_list a' = da_list a @ [e]"
proof -
  have sh: "da_shape a" and C: "unat (da_count a) < unat (da_size a)" using a(1) by (auto simp: da_inv_def)
  note d = da_shapeD [OF sh]
  obtain b where b: "buf_copy (da_buffer a) (unat (da_end a * da_es a)) e 0 (unat (da_es a)) = Inr b"
    "length b = length (da_buffer a)" "slots (unat (da_es a)) (unat (da_size a)) b = (da_slots a)[unat (da_end a) := e]"
    using da_write [OF sh d(4) e] by blast
  define a1 where "a1 = a\<lparr> da_buffer := b, da_count := da_count a + 1, da_end := (da_end a + 1) AND (da_size a - 1) \<rparr>"
  note cs = da_count_succ [OF a(1)]
  have "unat ((da_end a + 1) AND (da_size a - 1)) = Suc (unat (da_end a)) mod unat (da_size a)"
    by (rule unat_succ_and_pow2 [OF d(1)])
  then have sh1: "da_shape a1" using sh b(2) cs d(6) by (simp add: da_shape_def a1_def mod_Suc_eq)
  have "da_slots a1 = (da_slots a)[(unat (da_start a) + 1 + unat (da_count a)) mod length (da_slots a) := e]"
    unfolding da_slots_def [of a1] using b(3) by (simp add: a1_def d(6))
  then have "da_list a1 = cyc ((da_slots a)[(unat (da_start a) + 1 + unat (da_count a)) mod length (da_slots a) := e])
      (unat (da_start a) + 1) (Suc (unat (da_count a)))"
    unfolding da_list_def by (simp add: a1_def cs)
  then have l1: "da_list a1 = da_list a @ [e]"
    using cyc_push [of "unat (da_count a)" "da_slots a" "unat (da_start a) + 1" e] C
    by (simp add: da_list_def)
  have "\<exists>a'. (if da_count a1 = da_size a1 then array_expand junk a1 else Inr a1) = Inr a' \<and> da_inv a' \<and>
      da_list a' = da_list a1 \<and> da_es a' = da_es a1"
    by (rule push_finish [OF sh1 _ _ _ _ junk]) (use a C cs in \<open>auto simp: a1_def da_inv_def da_room_def\<close>)
  moreover have "dynamic_array_push_back junk a e = (if da_count a1 = da_size a1 then array_expand junk a1 else Inr a1)"
    unfolding dynamic_array_push_back_def b(1) rbind.simps Let_def a1_def by (rule refl)
  moreover have "da_es a1 = da_es a" by (simp add: a1_def)
  ultimately show ?thesis using l1 by (metis (no_types, lifting))
qed

lemma dynamic_array_push_front_ok:
  assumes a: "da_inv a" "da_room a" and e: "length e = unat (da_es a)" and junk: "\<And>k. length (junk k) = k"
  shows "\<exists>a'. dynamic_array_push_front junk a e = Inr a' \<and> da_inv a' \<and> da_es a' = da_es a \<and>
    da_list a' = e # da_list a"
proof -
  have sh: "da_shape a" and C: "unat (da_count a) < unat (da_size a)" using a(1) by (auto simp: da_inv_def)
  note d = da_shapeD [OF sh]
  define S where "S = unat (da_size a)"
  define s' where "s' = (da_start a - 1) AND (da_size a - 1)"
  have s': "unat s' = (unat (da_start a) + (S - 1)) mod S"
    using unat_pred_and_pow2 [OF d(1), of "da_start a"] by (simp add: s'_def S_def)
  have S1: "unat (da_start a) + (S - 1) + 1 = unat (da_start a) + S" using d(5) by (simp add: S_def)
  have "(unat s' + 1) mod S = (unat (da_start a) + (S - 1) + 1) mod S" unfolding s' by (rule mod_add_left_eq)
  then have wrapped: "(unat s' + 1) mod S = unat (da_start a)" using d(3) unfolding S1 S_def by simp
  obtain b where b: "buf_copy (da_buffer a) (unat (da_start a * da_es a)) e 0 (unat (da_es a)) = Inr b"
    "length b = length (da_buffer a)" "slots (unat (da_es a)) S b = (da_slots a)[unat (da_start a) := e]"
    using da_write [OF sh d(3) e] by (auto simp: S_def)
  define a1 where "a1 = a\<lparr> da_buffer := b, da_count := da_count a + 1, da_start := s' \<rparr>"
  note cs = da_count_succ [OF a(1)]
  have "unat (da_end a) = (unat s' + 1 + (1 + unat (da_count a))) mod S"
  proof -
    have "(unat s' + 1 + (1 + unat (da_count a))) mod S = ((unat s' + 1) mod S + (1 + unat (da_count a))) mod S"
      by (simp only: mod_add_left_eq)
    also have "\<dots> = unat (da_end a)" unfolding wrapped d(6) by (simp add: S_def)
    finally show ?thesis by simp
  qed
  moreover have "unat s' < S" using s' d(5) by (simp add: S_def)
  ultimately have sh1: "da_shape a1" using sh b(2) cs by (simp add: da_shape_def a1_def S_def)
  have upd: "cyc ((da_slots a)[unat (da_start a) := e]) (unat (da_start a) + 1) (unat (da_count a)) = da_list a"
  proof -
    have "(unat (da_start a) + 1 + (S - 1)) mod length (da_slots a) = unat (da_start a)"
      using d(3,5) by (simp add: S_def)
    then show ?thesis
      using cyc_update_outside [of "unat (da_count a)" "S - 1" "da_slots a" "unat (da_start a) + 1" e] C
      by (simp add: da_list_def S_def)
  qed
  have l1: "da_list a1 = e # da_list a"
  proof -
    let ?xs = "(da_slots a)[unat (da_start a) := e]"
    have lx: "length ?xs = S" by (simp add: S_def)
    have "da_slots a1 = ?xs" unfolding da_slots_def [of a1] using b(3) by (simp add: a1_def S_def)
    then have "da_list a1 = cyc ?xs (unat s' + 1) (Suc (unat (da_count a)))"
      unfolding da_list_def by (simp add: a1_def cs)
    also have "\<dots> = cyc ?xs ((unat s' + 1) mod S) (Suc (unat (da_count a)))"
      using cyc_mod [of ?xs "unat s' + 1"] unfolding lx by simp
    also have "\<dots> = e # da_list a" unfolding wrapped cyc_Suc using upd d(3) by simp
    finally show ?thesis .
  qed
  have "\<exists>a'. (if da_count a1 = da_size a1 then array_expand junk a1 else Inr a1) = Inr a' \<and> da_inv a' \<and>
      da_list a' = da_list a1 \<and> da_es a' = da_es a1"
    by (rule push_finish [OF sh1 _ _ _ _ junk]) (use a C cs in \<open>auto simp: a1_def da_inv_def da_room_def\<close>)
  moreover have "dynamic_array_push_front junk a e = (if da_count a1 = da_size a1 then array_expand junk a1 else Inr a1)"
    unfolding dynamic_array_push_front_def b(1) rbind.simps Let_def a1_def s'_def by (rule refl)
  moreover have "da_es a1 = da_es a" by (simp add: a1_def)
  ultimately show ?thesis using l1 by (metis (no_types, lifting))
qed

section \<open>Shrinking\<close>

lemma clz32_eq:
  assumes "2 ^ n \<le> unat w" "unat w < 2 ^ Suc n" "n < 32"
  shows "clz32 w = 31 - n"
proof -
  have b: "bit w i \<longleftrightarrow> odd (unat w div 2 ^ i)" for i 
  proof -
    have "bit w i = bit (unat w) i" by (simp add: bit_unsigned_iff)
    then show ?thesis by (simp only: bit_iff_odd)
  qed
  have lo: "bit w n"
  proof -
    have "unat w div 2 ^ n = 1" using assms(1,2) by (intro div_nat_eqI) auto
    then show ?thesis by (simp add: b)
  qed
  have hi: "\<not> bit w i" if "n < i" for i
  proof -
    have "(2 :: nat) ^ Suc n \<le> 2 ^ i" using that by (intro power_increasing) auto
    then show ?thesis using assms(2) by (simp add: b)
  qed
  have "takeWhile (\<lambda>i. \<not> bit w (31 - i)) [0..<32] = take (31 - n) [0..<32]"
    by (rule takeWhile_eq_take_P_nth) (use assms(3) lo hi in auto)
  then show ?thesis using assms(3) by (simp add: clz32_def)
qed

lemma shrink_size:
  assumes "pow2w s" "4 * unat c < unat s" "unat s \<le> 4 * (unat c + 1)" "2 \<le> unat c"
  shows "unat s = 4 * (unat c + 1)" "clz32 (c - 1) \<noteq> 0" "pow2w (push_bit (32 - clz32 (c - 1)) 1)"
    "unat (push_bit (32 - clz32 (c - 1)) 1 :: u32) = unat c + 1"
proof -
  obtain m where m: "m < 32" "s = 2 ^ m" using assms(1) by (auto simp: pow2w_iff)
  then have us: "unat s = 2 ^ m" by (simp add: unat_2p)
  have "2 ^ 3 < (2 :: nat) ^ m" using assms(2,4) us by simp
  then have "3 < m" by (rule power_less_imp_less_exp [rotated]) simp
  then obtain k where k: "m = k + 4" using that [of "m - 4"] by simp
  have s4: "unat s = 4 * 2 ^ (k + 2)" using us k by (simp add: power_add)
  then have c: "unat c + 1 = 2 ^ (k + 2)" 
  proof -
    have "unat c < 2 ^ (k + 2)" using assms(2) unfolding s4 by (simp only: mult_less_cancel1)
    moreover have "2 ^ (k + 2) \<le> unat c + 1" using assms(3) unfolding s4 by (simp only: mult_le_cancel1)
    ultimately show ?thesis by linarith
  qed
  then show "unat s = 4 * (unat c + 1)" using s4 by simp
  have c1: "unat (c - 1) = 2 ^ (k + 2) - 2" using c assms(4) by (subst unat_minus_one) auto
  have "(1 :: nat) \<le> 2 ^ k" "2 ^ (k + 1) = 2 * (2 :: nat) ^ k" "2 ^ (k + 2) = 4 * (2 :: nat) ^ k"
    "2 ^ Suc (k + 1) = 4 * (2 :: nat) ^ k" by simp_all
  then have "2 ^ (k + 1) \<le> unat (c - 1)" "unat (c - 1) < 2 ^ Suc (k + 1)" unfolding c1 by linarith+
  then have z: "clz32 (c - 1) = 31 - (k + 1)" by (rule clz32_eq) (use m k in simp)
  have k28: "k < 28" using m k by simp
  then have sh: "32 - clz32 (c - 1) = k + 2" unfolding z by simp
  show "clz32 (c - 1) \<noteq> 0" unfolding z using k28 by simp
  have p: "push_bit (32 - clz32 (c - 1)) 1 = (2 ^ (k + 2) :: u32)" unfolding sh by (simp add: push_bit_eq_mult)
  show "pow2w (push_bit (32 - clz32 (c - 1)) 1)" unfolding p pow2w_iff using k28 by (intro exI [of _ "k + 2"]) simp
  show "unat (push_bit (32 - clz32 (c - 1)) 1 :: u32) = unat c + 1" unfolding p c using k28 by (intro unat_2p) simp
qed

lemma array_shrink_ok:
  assumes a: "da_shape a" "unat (da_count a) < unat (da_size a)" "1 < unat (da_size a)"
    and low: "4 * unat (da_count a) < unat (da_size a)" "unat (da_size a) \<le> 4 * (unat (da_count a) + 1)"
    and n1: "unat (da_count a) \<noteq> 1"
  shows "\<exists>a'. array_shrink a = Inr a' \<and> da_inv a' \<and> da_list a' = da_list a \<and> da_es a' = da_es a"
proof -
  note d = da_shapeD [OF a(1)]
  define S C es st b where "S = unat (da_size a)" and "C = unat (da_count a)" and "es = unat (da_es a)"
    and "st = unat (da_start a)" and "b = da_buffer a"
  have S: "1 < S" "0 < es" "st < S" "C < S" "S * es < 2 ^ 32" "S * es \<le> length b" "length b < 2 ^ 32"
    using d a(2,3) by (simp_all add: S_def C_def es_def st_def b_def)
  have s1: "da_size a \<noteq> 1" using S(1) unfolding S_def by auto
  show ?thesis
  proof (cases "C = 0")
    case True
    then have c0: "da_count a = 0" by (simp add: C_def unat_eq_0)
    let ?a = "a\<lparr> da_size := 1, da_start := 0, da_end := 0 \<rparr>"
    have "1 * es \<le> S * es" using S(1) by (intro mult_le_mono1) simp
    then have "es \<le> length b" using S(6) by linarith
    then have "da_inv ?a" using S a(1) c0
      by (simp add: da_inv_def da_shape_def es_def b_def pow2w_def)
    moreover have "da_list ?a = da_list a" using c0 by (simp add: da_list_def)
    ultimately show ?thesis using c0 s1 by (simp add: array_shrink_def)
  next
    case False
    then have C2: "2 \<le> unat (da_count a)" using n1 by (simp add: C_def)
    define N where "N = C + 1"
    define nw where "nw = (push_bit (32 - clz32 (da_count a - 1)) 1 :: u32)"
    note sh = shrink_size [OF d(1) low C2]
    have N: "S = 4 * N" "unat nw = N" "pow2w nw" "2 \<le> C"
      using sh C2 by (simp_all add: S_def N_def C_def nw_def)
    have cne: "da_count a \<noteq> 0" "da_count a - 1 \<noteq> 0" using C2 by (auto simp: unat_eq_0)
    have nw: "nw \<noteq> da_size a" using N(1,2) S(1) unfolding S_def by auto
    have NS: "N \<le> S" using N(1) by simp
    have Nes: "N * es \<le> length b" using mult_le_mono1 [OF NS, of es] S(6) by linarith
    have es32: "S * unat (da_es a) < 2 ^ 32" using S(5) by (simp add: es_def)
    have slot_in: "i * es + es \<le> length b" if "i < S" for i by (rule slot_fits [OF that S(6)])
    have fin: "\<exists>a'. Inr (a\<lparr> da_buffer := b2, da_start := s2, da_end := e2, da_size := nw \<rparr>) = (Inr a' :: dynamic_array_t res) \<and>
        da_inv a' \<and> da_list a' = da_list a \<and> da_es a' = da_es a"
      if "unat s2 < N" "unat e2 = (unat s2 + 1 + C) mod N" "length b2 = length b"
        and sl: "\<And>k. k < C \<Longrightarrow> slot es b2 ((unat s2 + 1 + k) mod N) = slot es b ((st + 1 + k) mod S)"
      for b2 s2 e2
    proof -
      let ?a = "a\<lparr> da_buffer := b2, da_start := s2, da_end := e2, da_size := nw \<rparr>"
      have "da_inv ?a" using that(1-3) N S Nes a(1)
        by (simp add: da_inv_def da_shape_def C_def es_def b_def N_def)
      moreover have "da_list ?a = da_list a"
        by (rule da_list_cong) (use N S sl in \<open>simp_all add: S_def C_def es_def st_def b_def del: unat_gt_0\<close>)
      ultimately show ?thesis by simp
    qed
    have run: "array_shrink a = rbind
          (if da_start a < da_end a \<or> da_end a = 0 then
             rbind (buf_copy b 0 b (unat ((da_start a + 1) * da_es a)) (unat (da_count a * da_es a))) (\<lambda>buffer.
             Inr (a\<lparr> da_buffer := buffer, da_start := nw - 1, da_end := da_count a AND (nw - 1) \<rparr>))
           else if da_start a > da_end a then
             let right_elements_count = da_size a - da_start a - 1 in
             rbind (buf_copy b (unat ((nw - right_elements_count) * da_es a)) b (unat ((da_start a + 1) * da_es a))
                     (unat (right_elements_count * da_es a))) (\<lambda>buffer.
             Inr (a\<lparr> da_buffer := buffer, da_start := nw - right_elements_count - 1 \<rparr>))
           else Inr a)
          (\<lambda>a. Inr (a\<lparr> da_size := nw \<rparr>))"
      using cne sh(2) nw unfolding array_shrink_def nw_def b_def Let_def by simp
    have en: "unat (da_end a) = (st + 1 + C) mod S" using d(6) by (simp add: st_def C_def S_def)
    have src: "unat (da_start a + 1) = st + 1"
      using S(3) d(9) by (simp add: unat_word_ariths st_def S_def)
    have srco: "unat ((da_start a + 1) * da_es a) = (st + 1) * es"
      using mult_es [OF _ es32, of "da_start a + 1"] src S(3) by (simp add: es_def)
    have cnto: "unat (da_count a * da_es a) = C * es"
      using mult_es [OF _ es32, of "da_count a"] S(4) by (simp add: es_def C_def)
    have nw1: "unat (nw - 1) = N - 1" using N(2) by (subst unat_minus_one) (auto simp: N_def)
    have e0: "da_end a = 0 \<longleftrightarrow> unat (da_end a) = 0" by (simp add: unat_eq_0)
    show ?thesis
    proof (cases "st + 1 + C \<le> S")
      case True
      then have br: "da_start a < da_end a \<or> da_end a = 0"
        unfolding e0 en word_less_nat_alt st_def [symmetric] using N(4) by (cases "st + 1 + C = S") auto
      have "(0 + C) * es \<le> length b" using mult_le_mono1 [of C N es] Nes by (simp add: N_def)
      moreover have "(st + 1 + C) * es \<le> length b" using mult_le_mono1 [OF True, of es] S(6) by linarith
      ultimately obtain b2 where b2: "buf_copy b (0 * es) b ((st + 1) * es) (C * es) = Inr b2" "length b2 = length b"
        "\<And>i. i * es + es \<le> length b \<Longrightarrow>
          slot es b2 i = (if 0 \<le> i \<and> i < 0 + C then slot es b (st + 1 + (i - 0)) else slot es b i)"
        using slots_move [of 0 C es b "st + 1"] by blast
      have "array_shrink a = Inr (a\<lparr> da_buffer := b2, da_start := nw - 1, da_end := da_count a AND (nw - 1), da_size := nw \<rparr>)"
        unfolding run if_P [OF br] srco cnto using b2(1) by simp
      moreover have "\<exists>a'. Inr (a\<lparr> da_buffer := b2, da_start := nw - 1, da_end := da_count a AND (nw - 1), da_size := nw \<rparr>) =
        (Inr a' :: dynamic_array_t res) \<and> da_inv a' \<and> da_list a' = da_list a \<and> da_es a' = da_es a"
      proof (rule fin)
        have "unat (nw - 1) + 1 + C = N + C" using nw1 by (simp add: N_def)
        then show "unat (da_count a AND (nw - 1)) = (unat (nw - 1) + 1 + C) mod N"
          using unat_and_pow2 [OF N(3), of "da_count a"] N(2) by (simp add: C_def)
        fix k assume k: "k < C"
        have sum: "unat (nw - 1) + 1 + k = N + k" using nw1 by (simp add: N_def)
        have i: "(unat (nw - 1) + 1 + k) mod N = k" unfolding sum mod_add_self1 using k by (simp add: N_def)
        have j: "(st + 1 + k) mod S = st + 1 + k" using True k by simp
        have fit: "k * es + es \<le> length b" by (rule slot_in) (use k S(4) in simp)
        show "slot es b2 ((unat (nw - 1) + 1 + k) mod N) = slot es b ((st + 1 + k) mod S)"
          unfolding i j b2(3) [OF fit] using k by simp
      qed (use nw1 b2(2) in \<open>auto simp: N_def\<close>)
      ultimately show ?thesis by simp
    next
      case False
      define r where "r = da_size a - da_start a - 1"
      define R where "R = S - st - 1"
      have wrap: "(st + 1 + C) mod S = st + 1 + C - S" "st + 1 + C - S < st" "0 < st + 1 + C - S" "R + (st + 1 + C - S) = C"
      proof -
        have "st + 1 + C < 2 * S" using S(3,4) by linarith
        moreover have "C + 1 < S" using N(1) by (simp add: N_def)
        ultimately show "(st + 1 + C) mod S = st + 1 + C - S" "st + 1 + C - S < st" "0 < st + 1 + C - S"
          "R + (st + 1 + C - S) = C" using False S(3) by (simp_all add: mod_if R_def)
      qed
      have br: "\<not> (da_start a < da_end a \<or> da_end a = 0)" "da_end a < da_start a"
        unfolding e0 en word_less_nat_alt st_def [symmetric] using wrap by simp_all
      have r1: "unat (da_size a - da_start a) = S - st" using S(3) by (simp add: unat_sub_if' S_def st_def)
      have r: "unat r = R"
      proof -
        have "da_size a - da_start a \<noteq> 0" using r1 S(3) by auto
        then show ?thesis unfolding r_def R_def using r1 by (simp add: unat_minus_one)
      qed
      have RC: "R < C" using wrap(3,4) by linarith
      then have RN: "R < N" "R < N - 1" by (simp_all add: N_def)
      have dst: "unat (nw - r) = N - R" using r N(2) RN by (simp add: unat_sub_if')
      have dst1: "unat (nw - r - 1) = N - R - 1" using dst RN by (subst unat_minus_one) auto
      have offs: "unat ((nw - r) * da_es a) = (N - R) * es" "unat (r * da_es a) = R * es"
        using mult_es [OF _ es32, of "nw - r"] mult_es [OF _ es32, of r] dst r NS RN by (simp_all add: es_def)
      have "(N - R + R) * es \<le> length b" using Nes RN by simp
      moreover have "(st + 1 + R) * es \<le> length b" using S(3,6) by (simp add: R_def)
      ultimately obtain b2 where b2: "buf_copy b ((N - R) * es) b ((st + 1) * es) (R * es) = Inr b2" "length b2 = length b"
        "\<And>i. i * es + es \<le> length b \<Longrightarrow>
          slot es b2 i = (if N - R \<le> i \<and> i < N - R + R then slot es b (st + 1 + (i - (N - R))) else slot es b i)"
        using slots_move [of "N - R" R es b "st + 1"] by blast
      have "array_shrink a = Inr (a\<lparr> da_buffer := b2, da_start := nw - r - 1, da_end := da_end a, da_size := nw \<rparr>)"
        unfolding run if_not_P [OF br(1)] if_P [OF br(2)] Let_def r_def [symmetric] srco offs using b2(1) by simp
      moreover have "\<exists>a'. Inr (a\<lparr> da_buffer := b2, da_start := nw - r - 1, da_end := da_end a, da_size := nw \<rparr>) =
        (Inr a' :: dynamic_array_t res) \<and> da_inv a' \<and> da_list a' = da_list a \<and> da_es a' = da_es a"
      proof (rule fin)
        have sum: "unat (nw - r - 1) + 1 + C = N + (C - R)" using dst1 RN RC by linarith
        have "C - R < N" "unat (da_end a) = C - R" using en wrap(1,4) by (auto simp: N_def)
        then show "unat (da_end a) = (unat (nw - r - 1) + 1 + C) mod N"
          unfolding sum mod_add_self1 by simp
        fix k assume k: "k < C"
        show "slot es b2 ((unat (nw - r - 1) + 1 + k) mod N) = slot es b ((st + 1 + k) mod S)"
        proof (cases "k < R")
          case True
          have sum: "unat (nw - r - 1) + 1 + k = N - R + k" using dst1 RN by linarith
          have i: "(unat (nw - r - 1) + 1 + k) mod N = N - R + k" unfolding sum using True RN by simp
          have j: "(st + 1 + k) mod S = st + 1 + k" using True by (simp add: R_def)
          have fit: "(N - R + k) * es + es \<le> length b" by (rule slot_in) (use True RN NS in linarith)
          show ?thesis unfolding i j b2(3) [OF fit] using True by simp
        next
          case ge: False
          have sum: "unat (nw - r - 1) + 1 + k = N + (k - R)" using dst1 RN ge by linarith
          have i: "(unat (nw - r - 1) + 1 + k) mod N = k - R"
            unfolding sum mod_add_self1 using k by (simp add: N_def)
          have "st + 1 + k = S + (k - R)" using ge S(3) unfolding R_def by linarith
          then have j: "(st + 1 + k) mod S = k - R" using k S(4) by simp
          have fit: "(k - R) * es + es \<le> length b" by (rule slot_in) (use k S(4) in linarith)
          have "k - R < N - R" using k ge RN by (simp add: N_def)
          then show ?thesis unfolding i j b2(3) [OF fit] by simp
        qed
      qed (use dst1 b2(2) RN in auto)
      ultimately show ?thesis by simp
    qed
  qed
qed

lemma array_shrink_undefined:
  "da_count a = 1 \<Longrightarrow> array_shrink a = Inl (Undefined ''clz of 0'')"
  by (simp add: array_shrink_def)

section \<open>Removal at both ends\<close>

text \<open>The one removal that fails: from two elements in an array of eight slots.\<close>

definition da_bad_pop :: "dynamic_array_t \<Rightarrow> bool" where
  "da_bad_pop a = (unat (da_size a) = 8 \<and> unat (da_count a) = 2)"

lemma shrink_test:
  "unat s \<le> 2 ^ 30 \<Longrightarrow> unat c < unat s \<Longrightarrow> c * 4 < s \<longleftrightarrow> 4 * unat c < unat (s :: u32)"
  by (simp add: word_less_nat_alt unat_word_ariths mult.commute)

lemma pow2w_below_8: "pow2w s \<Longrightarrow> 4 < unat s \<Longrightarrow> unat s \<le> 8 \<Longrightarrow> unat s = 8"
proof -
  assume a: "pow2w s" "4 < unat s" "unat s \<le> 8"
  then obtain k where k: "k < 32" "s = 2 ^ k" by (auto simp: pow2w_iff)
  then have us: "unat s = 2 ^ k" by (simp add: unat_2p)
  then have "2 ^ 2 < (2 :: nat) ^ k" "(2 :: nat) ^ k \<le> 2 ^ 3" using a(2,3) by simp_all
  then have "2 < k" "k \<le> 3" by (metis power_less_imp_less_exp one_less_numeral_iff semiring_norm(76),
      metis power_le_imp_le_exp one_less_numeral_iff semiring_norm(76))
  then have "k = 3" by simp
  then show ?thesis using us by simp
qed

lemma pop_finish:
  assumes a: "da_shape a" "unat (da_count a) < unat (da_size a)" "unat (da_size a) \<le> 2 ^ 30"
    and q: "da_size a = 1 \<or> unat (da_size a) \<le> 4 * (unat (da_count a) + 1)"
  defines "fin \<equiv> if da_size a > 1 \<and> da_count a * 4 < da_size a then array_shrink a else Inr a"
  shows "unat (da_size a) = 8 \<and> unat (da_count a) = 1 \<Longrightarrow> fin = Inl (Undefined ''clz of 0'')"
    "\<not> (unat (da_size a) = 8 \<and> unat (da_count a) = 1) \<Longrightarrow>
      \<exists>a'. fin = Inr a' \<and> da_inv a' \<and> da_list a' = da_list a \<and> da_es a' = da_es a"
proof -
  note tst = shrink_test [OF a(3,2)]
  assume n: "unat (da_size a) = 8 \<and> unat (da_count a) = 1"
  then have "da_count a = 1" by (metis unat_1 word_unat_eq_iff)
  then show "fin = Inl (Undefined ''clz of 0'')"
    using n tst by (simp add: fin_def array_shrink_undefined word_less_nat_alt)
next
  note tst = shrink_test [OF a(3,2)]
  assume n: "\<not> (unat (da_size a) = 8 \<and> unat (da_count a) = 1)"
  show "\<exists>a'. fin = Inr a' \<and> da_inv a' \<and> da_list a' = da_list a \<and> da_es a' = da_es a"
  proof (cases "da_size a > 1 \<and> da_count a * 4 < da_size a")
    case True
    then have l: "1 < unat (da_size a)" "4 * unat (da_count a) < unat (da_size a)"
      using tst by (simp_all add: word_less_nat_alt)
    then have q': "unat (da_size a) \<le> 4 * (unat (da_count a) + 1)" using q by auto
    have "unat (da_count a) \<noteq> 1"
      using n l(2) q' pow2w_below_8 [OF da_shapeD(1) [OF a(1)]] by auto
    then show ?thesis using array_shrink_ok [OF a(1,2) l q'] True by (simp add: fin_def)
  next
    case False
    then have "da_size a = 1 \<or> unat (da_size a) \<le> 4 * unat (da_count a)"
      using tst da_shapeD(5) [OF a(1)] by (auto simp: word_less_nat_alt not_less le_Suc_eq word_unat_eq_iff)
    then show ?thesis using False a by (auto simp: fin_def da_inv_def)
  qed
qed

lemma cyc_butlast: "cyc xs s n = butlast (cyc xs s (Suc n))"
  by (simp add: cyc_Suc_snoc)

lemma cyc_tl: "cyc xs (Suc s) n = tl (cyc xs s (Suc n))"
  by (simp add: cyc_Suc)

lemma dynamic_array_pop_back_ok:
  assumes a: "da_inv a" "unat (da_size a) \<le> 2 ^ 30"
  shows "da_bad_pop a \<Longrightarrow> dynamic_array_pop_back a = Inl (Undefined ''clz of 0'')"
    "\<not> da_bad_pop a \<Longrightarrow> \<exists>a'. dynamic_array_pop_back a = Inr a' \<and> da_inv a' \<and> da_es a' = da_es a \<and>
      da_list a' = butlast (da_list a)"
proof -
  have sh: "da_shape a" and C: "unat (da_count a) < unat (da_size a)" using a(1) by (auto simp: da_inv_def)
  note d = da_shapeD [OF sh]
  define a1 where "a1 = a\<lparr> da_end := (da_end a - 1) AND (da_size a - 1), da_count := da_count a - 1 \<rparr>"
  have main: "da_shape a1 \<and> unat (da_count a1) + 1 = unat (da_count a) \<and> da_list a1 = butlast (da_list a)"
    if nz: "da_count a \<noteq> 0"
  proof -
    have c1: "Suc (unat (da_count a - 1)) = unat (da_count a)"
      using nz by (simp add: unat_minus_one unat_eq_0 [symmetric])
    have "unat ((da_end a - 1) AND (da_size a - 1)) = (unat (da_end a) + (unat (da_size a) - 1)) mod unat (da_size a)"
      by (rule unat_pred_and_pow2 [OF d(1)])
    also have "\<dots> = (unat (da_start a) + 1 + unat (da_count a) + (unat (da_size a) - 1)) mod unat (da_size a)"
      unfolding d(6) by (rule mod_add_left_eq)
    also have "unat (da_start a) + 1 + unat (da_count a) + (unat (da_size a) - 1) =
        unat (da_start a) + 1 + unat (da_count a - 1) + unat (da_size a)" using c1 d(5) by linarith
    finally have e1: "unat ((da_end a - 1) AND (da_size a - 1)) =
        (unat (da_start a) + 1 + unat (da_count a - 1)) mod unat (da_size a)" by (simp only: mod_add_self2)
    have "da_list a1 = butlast (da_list a)"
      unfolding da_list_def using cyc_butlast [of _ _ "unat (da_count a - 1)"] c1
      by (simp add: a1_def da_slots_def)
    moreover have "da_shape a1" using sh e1 by (simp add: da_shape_def a1_def)
    ultimately show ?thesis using c1 by (simp add: a1_def)
  qed
  have run: "dynamic_array_pop_back a = (if da_size a1 > 1 \<and> da_count a1 * 4 < da_size a1 then array_shrink a1 else Inr a1)"
    if "da_count a \<noteq> 0"
    unfolding dynamic_array_pop_back_def if_not_P [OF that] Let_def a1_def by (rule refl)
  have s1: "da_size a1 = da_size a" "da_es a1 = da_es a" by (simp_all add: a1_def)
  have fin: "unat (da_count a1) < unat (da_size a1)" "unat (da_size a1) \<le> 2 ^ 30"
    "da_size a1 = 1 \<or> unat (da_size a1) \<le> 4 * (unat (da_count a1) + 1)" if "da_count a \<noteq> 0"
    using main [OF that] a C s1 unfolding da_inv_def by auto
  show "dynamic_array_pop_back a = Inl (Undefined ''clz of 0'')" if "da_bad_pop a"
  proof -
    have nz: "da_count a \<noteq> 0" using that by (auto simp: da_bad_pop_def)
    show ?thesis unfolding run [OF nz]
      by (rule pop_finish(1) [OF _ fin [OF nz]]) (use main [OF nz] that s1 in \<open>auto simp: da_bad_pop_def\<close>)
  qed
  show "\<exists>a'. dynamic_array_pop_back a = Inr a' \<and> da_inv a' \<and> da_es a' = da_es a \<and>
      da_list a' = butlast (da_list a)" if "\<not> da_bad_pop a"
  proof (cases "da_count a = 0")
    case True
    then show ?thesis using a by (simp add: dynamic_array_pop_back_def da_list_def)
  next
    case False
    have "\<not> (unat (da_size a1) = 8 \<and> unat (da_count a1) = 1)"
      using main [OF False] that s1 by (auto simp: da_bad_pop_def)
    from pop_finish(2) [OF _ fin [OF False] this] main [OF False] show ?thesis
      unfolding run [OF False] using s1 by auto
  qed
qed

lemma dynamic_array_pop_front_ok:
  assumes a: "da_inv a" "unat (da_size a) \<le> 2 ^ 30"
  shows "da_bad_pop a \<Longrightarrow> dynamic_array_pop_front a = Inl (Undefined ''clz of 0'')"
    "\<not> da_bad_pop a \<Longrightarrow> \<exists>a'. dynamic_array_pop_front a = Inr a' \<and> da_inv a' \<and> da_es a' = da_es a \<and>
      da_list a' = tl (da_list a)"
proof -
  have sh: "da_shape a" and C: "unat (da_count a) < unat (da_size a)" using a(1) by (auto simp: da_inv_def)
  note d = da_shapeD [OF sh]
  define a1 where "a1 = a\<lparr> da_start := (da_start a + 1) AND (da_size a - 1), da_count := da_count a - 1 \<rparr>"
  have main: "da_shape a1 \<and> unat (da_count a1) + 1 = unat (da_count a) \<and> da_list a1 = tl (da_list a)"
    if nz: "da_count a \<noteq> 0"
  proof -
    have c1: "Suc (unat (da_count a - 1)) = unat (da_count a)"
      using nz by (simp add: unat_minus_one unat_eq_0 [symmetric])
    have st: "unat ((da_start a + 1) AND (da_size a - 1)) = (unat (da_start a) + 1) mod unat (da_size a)"
      using unat_succ_and_pow2 [OF d(1), of "da_start a"] by simp
    have "((unat (da_start a) + 1) mod unat (da_size a) + (1 + unat (da_count a - 1))) mod unat (da_size a) =
        (unat (da_start a) + 1 + (1 + unat (da_count a - 1))) mod unat (da_size a)" by (rule mod_add_left_eq)
    also have "\<dots> = unat (da_end a)" unfolding d(6) using c1 by simp
    finally have e1: "unat (da_end a) = ((unat (da_start a) + 1) mod unat (da_size a) + 1 + unat (da_count a - 1)) mod unat (da_size a)"
      by (simp add: add.assoc)
    have "da_list a1 = cyc (da_slots a) ((unat (da_start a) + 1) mod length (da_slots a) + 1) (unat (da_count a - 1))"
      unfolding da_list_def by (simp add: a1_def da_slots_def st)
    also have "\<dots> = cyc (da_slots a) (unat (da_start a) + 1 + 1) (unat (da_count a - 1))"
      using cyc_mod [of "da_slots a" "(unat (da_start a) + 1) mod length (da_slots a) + 1"]
        cyc_mod [of "da_slots a" "unat (da_start a) + 1 + 1"] by (simp only: mod_add_left_eq)
    also have "\<dots> = tl (da_list a)" unfolding da_list_def using cyc_tl [of "da_slots a" "unat (da_start a) + 1"] c1 by simp
    finally have "da_list a1 = tl (da_list a)" .
    moreover have "da_shape a1" using sh e1 st d(5) by (simp add: da_shape_def a1_def)
    ultimately show ?thesis using c1 by (simp add: a1_def)
  qed
  have run: "dynamic_array_pop_front a = (if da_size a1 > 1 \<and> da_count a1 * 4 < da_size a1 then array_shrink a1 else Inr a1)"
    if "da_count a \<noteq> 0"
    unfolding dynamic_array_pop_front_def if_not_P [OF that] Let_def a1_def by (rule refl)
  have s1: "da_size a1 = da_size a" "da_es a1 = da_es a" by (simp_all add: a1_def)
  have fin: "unat (da_count a1) < unat (da_size a1)" "unat (da_size a1) \<le> 2 ^ 30"
    "da_size a1 = 1 \<or> unat (da_size a1) \<le> 4 * (unat (da_count a1) + 1)" if "da_count a \<noteq> 0"
    using main [OF that] a C s1 unfolding da_inv_def by auto
  show "dynamic_array_pop_front a = Inl (Undefined ''clz of 0'')" if "da_bad_pop a"
  proof -
    have nz: "da_count a \<noteq> 0" using that by (auto simp: da_bad_pop_def)
    show ?thesis unfolding run [OF nz]
      by (rule pop_finish(1) [OF _ fin [OF nz]]) (use main [OF nz] that s1 in \<open>auto simp: da_bad_pop_def\<close>)
  qed
  show "\<exists>a'. dynamic_array_pop_front a = Inr a' \<and> da_inv a' \<and> da_es a' = da_es a \<and>
      da_list a' = tl (da_list a)" if "\<not> da_bad_pop a"
  proof (cases "da_count a = 0")
    case True
    then show ?thesis using a by (simp add: dynamic_array_pop_front_def da_list_def)
  next
    case False
    have "\<not> (unat (da_size a1) = 8 \<and> unat (da_count a1) = 1)"
      using main [OF False] that s1 by (auto simp: da_bad_pop_def)
    from pop_finish(2) [OF _ fin [OF False] this] main [OF False] show ?thesis
      unfolding run [OF False] using s1 by auto
  qed
qed

section \<open>Creation, access and search\<close>

lemma dynamic_array_create_ok:
  assumes "es \<noteq> 0" "\<And>k. length (junk k) = k"
  shows "da_inv (dynamic_array_create junk es)" "da_list (dynamic_array_create junk es) = []"
  using assms unat_less_2p32 [of es]
  by (simp_all add: dynamic_array_create_def da_inv_def da_shape_def da_list_def pow2w_def)

lemma dynamic_array_clear_ok:
  assumes "da_inv a" "\<And>k. length (junk k) = k"
  shows "da_inv (dynamic_array_clear junk a)" "da_list (dynamic_array_clear junk a) = []"
proof -
  have sh: "da_shape a" using assms(1) by (simp add: da_inv_def)
  note d = da_shapeD [OF sh]
  have "1 * unat (da_es a) \<le> unat (da_size a) * unat (da_es a)" using d(5) by (intro mult_le_mono1) simp
  then have "unat (da_es a) \<le> length (da_buffer a)" using d(7) by linarith
  then have "realloc_buf junk (da_buffer a) (da_es a) = da_buffer a"
    using d(2) by (simp add: realloc_buf_def unat_gt_0)
  then show "da_inv (dynamic_array_clear junk a)"
    using assms(1) d(2,8) \<open>unat (da_es a) \<le> _\<close>
    by (auto simp: dynamic_array_clear_def da_inv_def da_shape_def pow2w_def unat_gt_0)
  show "da_list (dynamic_array_clear junk a) = []"
    by (simp add: dynamic_array_clear_def da_list_def)
qed

lemma dynamic_array_get_by_index_ok:
  assumes "da_inv a" "i < da_count a"
  shows "\<exists>off. dynamic_array_get_by_index a i = Inr off \<and>
    unat off + unat (da_es a) \<le> length (da_buffer a) \<and>
    take (unat (da_es a)) (drop (unat off) (da_buffer a)) = da_list a ! unat i"
proof -
  have sh: "da_shape a" using assms(1) by (simp add: da_inv_def)
  note d = da_shapeD [OF sh]
  let ?i = "(da_start a + i + 1) AND (da_size a - 1)" and ?k = "(unat (da_start a) + 1 + unat i) mod unat (da_size a)"
  have "unat ?i = unat (da_start a + i + 1) mod unat (da_size a)" by (rule unat_and_pow2 [OF d(1)])
  also have "unat (da_start a + i + 1) = (unat (da_start a) + 1 + unat i) mod 2 ^ 32"
    by (simp add: unat_word_ariths mod_simps)
  finally have k: "unat ?i = ?k" using unat_pow2_dvd [OF d(1)] by (simp only: mod_mod_cancel)
  then have lt: "unat ?i < unat (da_size a)" using d(5) by simp
  have "unat i < unat (da_count a)" using assms(2) by (simp add: word_less_nat_alt)
  then show ?thesis
    using assms(2) da_off [OF sh lt] d(5)
    by (simp add: dynamic_array_get_by_index_def nth_da_list slot_def k)
qed

lemma dynamic_array_get_by_index_error:
  "\<not> i < da_count a \<Longrightarrow>
   dynamic_array_get_by_index a i = Inl (Assertion ''index < array->elements_count'')"
  by (simp add: dynamic_array_get_by_index_def)

lemma da_find_loop_ok:
  assumes "da_inv a" "length v = unat (da_es a)"
  shows "\<exists>r. da_find_loop a v i = Inr r \<and> (i \<le> da_count a \<longrightarrow> i \<le> r \<and> r \<le> da_count a \<and>
    (r < da_count a \<longrightarrow> da_list a ! unat r = v) \<and>
    (\<forall>j. unat i \<le> j \<and> j < unat r \<longrightarrow> da_list a ! j \<noteq> v))"
  using assms
proof (induction a v i rule: da_find_loop.induct)
  case (1 a v i)
  show ?case
  proof (cases "i < da_count a")
    case True
    obtain off where off: "dynamic_array_get_by_index a i = Inr off"
      "unat off + unat (da_es a) \<le> length (da_buffer a)"
      "take (unat (da_es a)) (drop (unat off) (da_buffer a)) = da_list a ! unat i"
      using dynamic_array_get_by_index_ok [OF 1(2) True] by blast
    have cmp: "memcmp v (drop (unat off) (da_buffer a)) (da_es a) = Inr (v = da_list a ! unat i)"
      using memcmp_ok [of "da_es a" v "drop (unat off) (da_buffer a)"] off(2,3) 1(3) by simp
    show ?thesis
    proof (cases "v = da_list a ! unat i")
      case eq: True
      have "da_find_loop a v i = Inr i"
        by (subst da_find_loop.simps) (use True off(1) cmp eq in simp)
      then show ?thesis using eq True by auto
    next
      case ne: False
      have step: "da_find_loop a v i = da_find_loop a v (i + 1)"
        by (subst da_find_loop.simps) (use True off(1) cmp ne in simp)
      have s: "unat (i + 1) = Suc (unat i)" by (rule unat_succ_less [OF True])
      have le: "i + 1 \<le> da_count a" using True by (simp add: word_less_nat_alt word_le_nat_alt s)
      obtain r where r: "da_find_loop a v (i + 1) = Inr r" "i + 1 \<le> r" "r \<le> da_count a"
        "r < da_count a \<longrightarrow> da_list a ! unat r = v" "\<forall>j. unat (i + 1) \<le> j \<and> j < unat r \<longrightarrow> da_list a ! j \<noteq> v"
        using 1(1) [OF True off(1) _ 1(2,3)] ne le by blast
      have "i \<le> r" using r(2) by (simp add: word_le_nat_alt s)
      moreover have "\<forall>j. unat i \<le> j \<and> j < unat r \<longrightarrow> da_list a ! j \<noteq> v"
        using r(5) ne unfolding s by (metis le_neq_implies_less Suc_leI)
      ultimately show ?thesis unfolding step using r by blast
    qed
  next
    case False
    have "da_find_loop a v i = Inr (da_count a)" by (subst da_find_loop.simps) (use False in simp)
    then show ?thesis using False by (auto simp: not_less)
  qed
qed

lemma dynamic_array_find_first_eq_ok:
  assumes "da_inv a" "length v = unat (da_es a)"
  shows "\<exists>r. dynamic_array_find_first_eq a v = Inr r \<and> r \<le> da_count a \<and>
    (r < da_count a \<longrightarrow> da_list a ! unat r = v) \<and> (\<forall>j < unat r. da_list a ! j \<noteq> v)"
  using da_find_loop_ok [OF assms, of 0] by (auto simp: dynamic_array_find_first_eq_def)

section \<open>Properties\<close>

definition da_ex :: dynamic_array_t where
  "da_ex = \<lparr> da_buffer = [9, 8, 7, 6, 5, 4, 3, 2, 0, 0], da_size = 4, da_count = 3, da_es = 2,
     da_start = 1, da_end = 1 \<rparr>"

definition da_bad :: dynamic_array_t where
  "da_bad = \<lparr> da_buffer = [1, 2, 3, 4, 5, 6, 7, 8], da_size = 8, da_count = 2, da_es = 1,
     da_start = 7, da_end = 2 \<rparr>"

lemma da_ex_inv: "da_inv da_ex" "da_inv da_bad"
  by (simp_all add: da_ex_def da_bad_def da_inv_def da_shape_def pow2w_def)

text \<open>C18: insertion into the dynamic array. \<open>dynamic_array_push_back\<close> and
  \<open>dynamic_array_push_front\<close> add the element at their end of the sequence and change no other,
  the buffer growing in place around the wrap, and keep the invariant.\<close>

lemma dynamic_array_push_deque:
  assumes "da_inv a" "da_room a" "length e = unat (da_es a)" "\<And>k. length (junk k) = k"
  shows "\<exists>b f. dynamic_array_push_back junk a e = Inr b \<and> da_inv b \<and> da_list b = da_list a @ [e] \<and>
    dynamic_array_push_front junk a e = Inr f \<and> da_inv f \<and> da_list f = e # da_list a"
  using dynamic_array_push_back_ok [OF assms] dynamic_array_push_front_ok [OF assms] by blast

lemma dynamic_array_push_deque_witness:
  "\<exists>b f. dynamic_array_push_back (\<lambda>k. replicate k 0) da_ex [1, 2] = Inr b \<and> da_inv b \<and>
    da_list b = da_list da_ex @ [[1, 2]] \<and>
    dynamic_array_push_front (\<lambda>k. replicate k 0) da_ex [1, 2] = Inr f \<and> da_inv f \<and>
    da_list f = [1, 2] # da_list da_ex"
  by (rule dynamic_array_push_deque) (simp_all add: da_ex_inv, simp_all add: da_ex_def da_room_def)

text \<open>removal from the dynamic array. \<open>dynamic_array_pop_back\<close> and \<open>dynamic_array_pop_front\<close>
  drop the last and the first element, the buffer shrinking around the wrap, and keep the invariant;
  from two elements in eight slots, and only then, both run into \<open>__builtin_clz(0)\<close>.\<close>

lemma dynamic_array_pop_deque:
  assumes "da_inv a" "unat (da_size a) \<le> 2 ^ 30"
  shows "if da_bad_pop a
    then dynamic_array_pop_back a = Inl (Undefined ''clz of 0'') \<and>
         dynamic_array_pop_front a = Inl (Undefined ''clz of 0'')
    else \<exists>b f. dynamic_array_pop_back a = Inr b \<and> da_inv b \<and> da_list b = butlast (da_list a) \<and>
         dynamic_array_pop_front a = Inr f \<and> da_inv f \<and> da_list f = tl (da_list a)"
  using dynamic_array_pop_back_ok [OF assms] dynamic_array_pop_front_ok [OF assms] by auto

lemma dynamic_array_pop_deque_witness:
  "(\<exists>b f. dynamic_array_pop_back da_ex = Inr b \<and> da_inv b \<and> da_list b = butlast (da_list da_ex) \<and>
      dynamic_array_pop_front da_ex = Inr f \<and> da_inv f \<and> da_list f = tl (da_list da_ex)) \<and>
   dynamic_array_pop_back da_bad = Inl (Undefined ''clz of 0'')"
proof -
  have "unat (da_size da_ex) \<le> 2 ^ 30" "unat (da_size da_bad) \<le> 2 ^ 30" "\<not> da_bad_pop da_ex" "da_bad_pop da_bad"
    by (simp_all add: da_ex_def da_bad_def da_bad_pop_def)
  then show ?thesis
    using dynamic_array_pop_deque [OF da_ex_inv(1)] dynamic_array_pop_deque [OF da_ex_inv(2)] by simp
qed

text \<open>The failing state is reached from an empty array by four insertions and two removals.\<close>

lemma dynamic_array_bad_pop_reachable:
  "case rbind (dynamic_array_push_back (\<lambda>k. replicate k 0) (dynamic_array_create (\<lambda>k. replicate k 0) 1) [1]) (\<lambda>a.
     rbind (dynamic_array_push_back (\<lambda>k. replicate k 0) a [2]) (\<lambda>a.
     rbind (dynamic_array_push_back (\<lambda>k. replicate k 0) a [3]) (\<lambda>a.
     rbind (dynamic_array_push_back (\<lambda>k. replicate k 0) a [4]) (\<lambda>a.
     rbind (dynamic_array_pop_front a) dynamic_array_pop_front)))) of
     Inr a \<Rightarrow> da_size a = 8 \<and> da_count a = 2 \<and> dynamic_array_pop_front a = Inl (Undefined ''clz of 0'')
   | Inl e \<Rightarrow> False"
  by code_simp

end
