(* ===== verification/Array_Sort.thy ===== *)
theory Array_Sort
  imports Dynamic_Array "HOL-Library.Multiset"
begin

text \<open>
  \<^verbatim>\<open>dynamic_array_quicksort\<close> of \<^verbatim>\<open>lib/dynamic_array.c\<close>: Hoare's partition around a random element, on
  signed indices.  The comparison is the callback the caller passes; the locale \<open>sort_order\<close> states
  the contract it must keep, \<^verbatim>\<open>uint32_less\<close> of \<^verbatim>\<open>kernel/system.c\<close> is the interpretation.
\<close>

unbundle bit_operations_syntax

section \<open>Definitions\<close>

text \<open>The macro on a signed index, with both of its assertions, and the element it points to.\<close>

definition da_index :: "dynamic_array_t \<Rightarrow> i32 \<Rightarrow> u32 res" where
  "da_index a index =
     (if 0 \<le>s index then dynamic_array_get_by_index a index else Inl (Assertion ''index >= 0''))"

definition da_elem :: "dynamic_array_t \<Rightarrow> i32 \<Rightarrow> bytes res" where
  "da_elem a index =
     rbind (da_index a index) (\<lambda>off. buf_read (da_buffer a) (unat off) (unat (da_es a)))"

partial_function (option) sort_left :: "(bytes \<Rightarrow> bytes \<Rightarrow> bool) \<Rightarrow> dynamic_array_t \<Rightarrow> bytes \<Rightarrow> i32 \<Rightarrow> i32 lres" where
  [code]: "sort_left cmp a mid l =
     lbind (Some (da_elem a l)) (\<lambda>x. if cmp x mid then sort_left cmp a mid (l + 1) else Some (Inr l))"

partial_function (option) sort_right :: "(bytes \<Rightarrow> bytes \<Rightarrow> bool) \<Rightarrow> dynamic_array_t \<Rightarrow> bytes \<Rightarrow> i32 \<Rightarrow> i32 lres" where
  [code]: "sort_right cmp a mid r =
     lbind (Some (da_elem a r)) (\<lambda>x. if cmp mid x then sort_right cmp a mid (r - 1) else Some (Inr r))"

definition sort_swap :: "dynamic_array_t \<Rightarrow> i32 \<Rightarrow> i32 \<Rightarrow> dynamic_array_t res" where
  "sort_swap a l r =
     rbind (da_index a l) (\<lambda>p. rbind (da_index a r) (\<lambda>q.
     rbind (buf_read (da_buffer a) (unat p) (unat (da_es a))) (\<lambda>x.
     rbind (buf_read (da_buffer a) (unat q) (unat (da_es a))) (\<lambda>y.
     rbind (memswap x y (da_es a)) (\<lambda>(x, y).
     rbind (buf_write (da_buffer a) (unat p) x) (\<lambda>b.
     rbind (buf_write b (unat q) y) (\<lambda>b.
     Inr (a\<lparr> da_buffer := b \<rparr>))))))))"

partial_function (option) sort_partition ::
    "(bytes \<Rightarrow> bytes \<Rightarrow> bool) \<Rightarrow> bytes \<Rightarrow> dynamic_array_t \<Rightarrow> i32 \<Rightarrow> i32 \<Rightarrow> (dynamic_array_t \<times> i32 \<times> i32) lres" where
  [code]: "sort_partition cmp mid a l r =
     (if l \<le>s r then
        lbind (sort_left cmp a mid l) (\<lambda>l.
        lbind (sort_right cmp a mid r) (\<lambda>r.
        if l \<le>s r then
          lbind (Some (if l <s r then sort_swap a l r else Inr a)) (\<lambda>a.
          sort_partition cmp mid a (l + 1) (r - 1))
        else sort_partition cmp mid a l r))
      else Some (Inr (a, l, r)))"

text \<open>The state of the random numbers is passed along.\<close>

partial_function (option) dynamic_array_quicksort ::
    "(bytes \<Rightarrow> bytes \<Rightarrow> bool) \<Rightarrow> dynamic_array_t \<Rightarrow> i32 \<Rightarrow> i32 \<Rightarrow> u32 \<Rightarrow> (dynamic_array_t \<times> u32) lres" where
  [code]: "dynamic_array_quicksort cmp a l_index r_index seed =
     (if r_index \<le>s l_index then Some (Inr (a, seed))
      else
        let (rnd, seed) = rand seed in
        lbind (Some (rbind (dynamic_array_get_by_index a (l_index + rnd mod (r_index - l_index + 1))) (\<lambda>off.
                     buf_read (da_buffer a) (unat off) (unat (da_es a))))) (\<lambda>mid_value.
        lbind (sort_partition cmp mid_value a l_index r_index) (\<lambda>(a, l, r).
        lbind (dynamic_array_quicksort cmp a l_index r seed) (\<lambda>(a, seed).
        dynamic_array_quicksort cmp a l r_index seed))))"

definition uint32_less :: "bytes \<Rightarrow> bytes \<Rightarrow> bool" where
  "uint32_less a b \<longleftrightarrow> get32 a 0 < get32 b 0"

section \<open>Indices\<close>

lemma sint_nat: "i < 2 ^ 31 \<Longrightarrow> sint (of_nat i :: i32) = int i"
  by (simp add: signed_of_nat signed_take_bit_int_eq_self)

lemma sint_pred: "i < 2 ^ 31 \<Longrightarrow> sint (of_nat i - 1 :: i32) = int i - 1"
proof -
  assume "i < 2 ^ 31"
  moreover have "sint (of_int (int i - 1) :: i32) = signed_take_bit 31 (int i - 1)" by (subst signed_of_int) simp
  ultimately show ?thesis by (simp add: signed_take_bit_int_eq_self)
qed

lemma less_eq_nat: "i < 2 ^ 31 \<Longrightarrow> h < 2 ^ 31 \<Longrightarrow> (of_nat i :: i32) \<le>s of_nat h - 1 \<longleftrightarrow> i < h"
  by (simp add: word_sle_eq sint_nat sint_pred)

lemma less_nat: "i < 2 ^ 31 \<Longrightarrow> h < 2 ^ 31 \<Longrightarrow> (of_nat i :: i32) <s of_nat h - 1 \<longleftrightarrow> Suc i < h"
  by (auto simp: word_sless_alt sint_nat sint_pred)

section \<open>Elements\<close>

definition da_same :: "dynamic_array_t \<Rightarrow> dynamic_array_t \<Rightarrow> bool" where
  "da_same a a' \<longleftrightarrow> da_size a' = da_size a \<and> da_count a' = da_count a \<and> da_es a' = da_es a \<and>
     da_start a' = da_start a \<and> da_end a' = da_end a \<and> length (da_buffer a') = length (da_buffer a)"

lemma da_same_refl [simp]: "da_same a a"
  by (simp add: da_same_def)

lemma da_same_trans: "da_same a b \<Longrightarrow> da_same b c \<Longrightarrow> da_same a c"
  by (simp add: da_same_def)

lemma da_same_inv: "da_same a a' \<Longrightarrow> da_inv a \<Longrightarrow> da_inv a'"
  by (simp add: da_inv_def da_shape_def da_same_def)

lemma da_index_ok:
  assumes "da_inv a" "i < unat (da_count a)" "i < 2 ^ 31"
  shows "\<exists>off. da_index a (of_nat i) = Inr off \<and> dynamic_array_get_by_index a (of_nat i) = Inr off \<and>
    unat off = ((unat (da_start a) + 1 + i) mod unat (da_size a)) * unat (da_es a) \<and>
    unat off + unat (da_es a) \<le> length (da_buffer a) \<and>
    take (unat (da_es a)) (drop (unat off) (da_buffer a)) = da_list a ! i"
proof -
  have sh: "da_shape a" using assms(1) by (simp add: da_inv_def)
  note d = da_shapeD [OF sh]
  have u: "unat (of_nat i :: u32) = i" using assms(3) by (simp add: unat_of_nat)
  have lt: "of_nat i < da_count a" using assms(2) by (simp add: word_less_nat_alt u)
  obtain off where off: "dynamic_array_get_by_index a (of_nat i) = Inr off" "unat off + unat (da_es a) \<le> length (da_buffer a)"
    "take (unat (da_es a)) (drop (unat off) (da_buffer a)) = da_list a ! i"
    using dynamic_array_get_by_index_ok [OF assms(1) lt] u by auto
  let ?i = "(da_start a + of_nat i + 1) AND (da_size a - 1)"
  have "unat ?i = unat (da_start a + of_nat i + 1) mod unat (da_size a)" by (rule unat_and_pow2 [OF d(1)])
  also have "unat (da_start a + of_nat i + 1) = (unat (da_start a) + 1 + i) mod 2 ^ 32"
    by (simp add: unat_word_ariths u mod_simps)
  finally have k: "unat ?i = (unat (da_start a) + 1 + i) mod unat (da_size a)" using unat_pow2_dvd [OF d(1)] by (simp only: mod_mod_cancel)
  then have "unat ?i < unat (da_size a)" using d(5) by simp
  then have "unat off = ((unat (da_start a) + 1 + i) mod unat (da_size a)) * unat (da_es a)"
    using off(1) lt da_off(1) [OF sh, of ?i] k by (auto simp: dynamic_array_get_by_index_def split: if_splits)
  moreover have "0 \<le>s (of_nat i :: i32)" using assms(3) by (simp add: word_sle_eq sint_nat)
  ultimately show ?thesis using off by (intro exI [of _ off]) (simp add: da_index_def)
qed

lemma da_elem_ok:
  "da_inv a \<Longrightarrow> i < unat (da_count a) \<Longrightarrow> i < 2 ^ 31 \<Longrightarrow> da_elem a (of_nat i) = Inr (da_list a ! i)"
  using da_index_ok [of a i] by (auto simp: da_elem_def)

text \<open>Writing one element.\<close>

lemma cyc_list_update:
  assumes "i < n" "n \<le> length xs"
  shows "cyc (xs[(s + i) mod length xs := x]) s n = (cyc xs s n)[i := x]"
proof (rule nth_equalityI)
  fix j assume "j < length (cyc (xs[(s + i) mod length xs := x]) s n)"
  then have j: "j < n" by simp
  have "(s + i) mod length xs = (s + j) mod length xs \<longleftrightarrow> i = j"
    using mod_add_neq [of i j "length xs" s] mod_add_neq [of j i "length xs" s] assms j by (cases i j rule: linorder_cases) auto
  then show "cyc (xs[(s + i) mod length xs := x]) s n ! j = (cyc xs s n)[i := x] ! j"
  proof -
    have "0 < length xs" using assms j by linarith
    then have "(s + j) mod length xs < length xs" by simp
    with \<open>(s + i) mod length xs = (s + j) mod length xs \<longleftrightarrow> i = j\<close> show ?thesis
      using assms j by (auto simp: nth_list_update)
  qed
qed (use assms in simp)

lemma da_put_ok:
  assumes "da_inv a" "i < unat (da_count a)" "i < 2 ^ 31" "length x = unat (da_es a)"
    "unat off = ((unat (da_start a) + 1 + i) mod unat (da_size a)) * unat (da_es a)"
  shows "\<exists>b. buf_write (da_buffer a) (unat off) x = Inr b \<and> da_same a (a\<lparr> da_buffer := b \<rparr>) \<and>
    da_list (a\<lparr> da_buffer := b \<rparr>) = (da_list a)[i := x]"
proof -
  let ?k = "(unat (da_start a) + 1 + i) mod unat (da_size a)" and ?es = "unat (da_es a)"
  have sh: "da_shape a" "unat (da_count a) < unat (da_size a)" using assms(1) by (simp_all add: da_inv_def)
  note d = da_shapeD [OF sh(1)]
  have k: "?k < unat (da_size a)" using d(5) by simp
  note fit = slot_fits [OF k d(7)]
  let ?b = "take (?k * ?es) (da_buffer a) @ x @ drop (?k * ?es + ?es) (da_buffer a)"
  have "buf_write (da_buffer a) (unat off) x = Inr ?b" using fit assms(4,5) by simp
  moreover have "length ?b = length (da_buffer a)" using fit assms(4) by simp
  moreover have "da_list (a\<lparr> da_buffer := ?b \<rparr>) = (da_list a)[i := x]"
  proof -
    have "slots ?es (unat (da_size a)) ?b = (da_slots a)[?k := x]"
      using slots_write [OF k d(7) assms(4)] by (simp add: da_slots_def)
    moreover have "cyc ((da_slots a)[?k := x]) (unat (da_start a) + 1) (unat (da_count a)) = (da_list a)[i := x]"
      using cyc_list_update [of i "unat (da_count a)" "da_slots a" "unat (da_start a) + 1" x] assms(2) sh(2)
      by (simp add: da_list_def)
    ultimately show ?thesis by (simp add: da_list_def da_slots_def)
  qed
  ultimately show ?thesis by (intro exI [of _ ?b]) (simp add: da_same_def)
qed

lemma length_da_elem:
  assumes "da_inv a" "i < unat (da_count a)"
  shows "length (da_list a ! i) = unat (da_es a)"
proof -
  have sh: "da_shape a" using assms(1) by (simp add: da_inv_def)
  note d = da_shapeD [OF sh]
  show ?thesis using assms(2) d(5,7) by (simp add: nth_da_list length_slot [where n = "unat (da_size a)"])
qed

lemma sort_swap_ok:
  assumes "da_inv a" "da_es a = 4" "l < unat (da_count a)" "r < unat (da_count a)" "l < 2 ^ 31" "r < 2 ^ 31"
  shows "\<exists>a'. sort_swap a (of_nat l) (of_nat r) = Inr a' \<and> da_same a a' \<and>
    da_list a' = (da_list a)[l := da_list a ! r, r := da_list a ! l]"
proof -
  let ?x = "da_list a ! l" and ?y = "da_list a ! r"
  obtain p where p: "da_index a (of_nat l) = Inr p" "unat p = ((unat (da_start a) + 1 + l) mod unat (da_size a)) * unat (da_es a)"
    "unat p + unat (da_es a) \<le> length (da_buffer a)" "take (unat (da_es a)) (drop (unat p) (da_buffer a)) = ?x"
    using da_index_ok [OF assms(1,3,5)] by blast
  obtain q where q: "da_index a (of_nat r) = Inr q" "unat q = ((unat (da_start a) + 1 + r) mod unat (da_size a)) * unat (da_es a)"
    "unat q + unat (da_es a) \<le> length (da_buffer a)" "take (unat (da_es a)) (drop (unat q) (da_buffer a)) = ?y"
    using da_index_ok [OF assms(1,4,6)] by blast
  have l: "length ?x = 4" "length ?y = 4" using length_da_elem [OF assms(1)] assms(2-4) by simp_all
  have ms: "memswap ?x ?y (da_es a) = Inr (?y, ?x)" using memswap_word [of ?x ?y] l assms(2) by simp
  have ly: "length ?y = unat (da_es a)" "length ?x = unat (da_es a)" using l assms(2) by simp_all
  obtain b1 where b1: "buf_write (da_buffer a) (unat p) ?y = Inr b1" "da_same a (a\<lparr> da_buffer := b1 \<rparr>)"
    "da_list (a\<lparr> da_buffer := b1 \<rparr>) = (da_list a)[l := ?y]"
    using da_put_ok [OF assms(1,3,5) ly(1) p(2)] by blast
  let ?a1 = "a\<lparr> da_buffer := b1 \<rparr>"
  obtain b2 where b2: "buf_write b1 (unat q) ?x = Inr b2" "da_same ?a1 (?a1\<lparr> da_buffer := b2 \<rparr>)"
    "da_list (?a1\<lparr> da_buffer := b2 \<rparr>) = (da_list ?a1)[r := ?x]"
    using da_put_ok [OF da_same_inv [OF b1(2) assms(1)], of r ?x q] assms(4,6) ly(2) q(2) by auto
  have "sort_swap a (of_nat l) (of_nat r) = Inr (a\<lparr> da_buffer := b2 \<rparr>)"
    using p q ms b1(1) b2(1) by (simp add: sort_swap_def)
  then show ?thesis using b1(3) b2(3) da_same_trans [OF b1(2) b2(2)] by (intro exI [of _ "a\<lparr> da_buffer := b2 \<rparr>"]) simp
qed

section \<open>Rearrangements of a part of a list\<close>

definition rearr :: "nat \<Rightarrow> nat \<Rightarrow> 'a list \<Rightarrow> 'a list \<Rightarrow> bool" where
  "rearr lo hi xs ys \<longleftrightarrow> mset ys = mset xs \<and> (\<forall>k. k < lo \<or> hi \<le> k \<longrightarrow> k < length xs \<longrightarrow> ys ! k = xs ! k)"

lemma rearr_refl [simp]: "rearr lo hi xs xs"
  by (simp add: rearr_def)

lemma rearr_length: "rearr lo hi xs ys \<Longrightarrow> length ys = length xs"
  unfolding rearr_def by (metis size_mset)

lemma rearr_trans: "rearr lo hi xs ys \<Longrightarrow> rearr lo hi ys zs \<Longrightarrow> rearr lo hi xs zs"
  using rearr_length [of lo hi xs ys] by (simp add: rearr_def)

lemma rearr_widen: "rearr lo' hi' xs ys \<Longrightarrow> lo \<le> lo' \<Longrightarrow> hi' \<le> hi \<Longrightarrow> rearr lo hi xs ys"
  by (simp add: rearr_def)

lemma rearr_outside: "rearr lo hi xs ys \<Longrightarrow> k < lo \<or> hi \<le> k \<Longrightarrow> k < length xs \<Longrightarrow> ys ! k = xs ! k"
  unfolding rearr_def by blast

lemma rearr_swap:
  assumes "lo \<le> l" "l < hi" "lo \<le> r" "r < hi" "hi \<le> length xs"
  shows "rearr lo hi xs (xs[l := xs ! r, r := xs ! l])"
  using assms mset_swap [of r xs l] by (auto simp: rearr_def)

lemma rearr_from:
  assumes "rearr lo hi xs ys" "hi \<le> length xs" "lo \<le> k" "k < hi"
  shows "\<exists>j. lo \<le> j \<and> j < hi \<and> ys ! k = xs ! j"
proof -
  let ?s = "\<lambda>zs. take (hi - lo) (drop lo zs)"
  note len = rearr_length [OF assms(1)]
  have p: "zs = take lo zs @ ?s zs @ drop hi zs" for zs :: "'a list"
    by (metis append_take_drop_id drop_drop le_add_diff_inverse2 assms(3,4) le_less_trans less_imp_le)
  have t: "take lo ys = take lo xs" "drop hi ys = drop hi xs"
    using rearr_outside [OF assms(1)] len by (auto intro!: nth_equalityI)
  have "mset (take lo ys @ ?s ys @ drop hi ys) = mset (take lo xs @ ?s xs @ drop hi xs)"
    using assms(1) unfolding p [symmetric] by (simp add: rearr_def)
  then have "mset (?s ys) = mset (?s xs)" by (simp add: t)
  then have "set (?s ys) = set (?s xs)" by (rule mset_eq_setD)
  moreover have "?s ys ! (k - lo) = ys ! k" "k - lo < length (?s ys)" using assms(2-4) len by simp_all
  ultimately have "ys ! k \<in> set (?s xs)" by (metis nth_mem)
  then obtain i where "i < length (?s xs)" "ys ! k = ?s xs ! i" by (auto simp: in_set_conv_nth)
  then show ?thesis using assms(2) by (intro exI [of _ "lo + i"]) auto
qed

section \<open>The contract of a comparison\<close>

locale sort_order =
  fixes cmp :: "bytes \<Rightarrow> bytes \<Rightarrow> bool" and key :: "bytes \<Rightarrow> nat"
  assumes cmp_key: "cmp x y \<longleftrightarrow> key x < key y"
begin

text \<open>The scans stop at the first element from their side that is not on the wrong side of the pivot.\<close>

lemma scan_left:
  assumes "da_inv a" "unat (da_count a) < 2 ^ 31" "l \<le> k" "k < unat (da_count a)" "key mid \<le> key (da_list a ! k)"
  shows "\<exists>l'. sort_left cmp a mid (of_nat l) = Some (Inr (of_nat l')) \<and> l \<le> l' \<and> l' \<le> k \<and>
    key mid \<le> key (da_list a ! l') \<and> (\<forall>j. l \<le> j \<and> j < l' \<longrightarrow> key (da_list a ! j) < key mid)"
  using assms(3)
proof (induction "k - l" arbitrary: l rule: less_induct)
  case less
  have e: "da_elem a (of_nat l) = Inr (da_list a ! l)" by (rule da_elem_ok [OF assms(1)]) (use less.prems assms(2,4) in linarith)+
  show ?case
  proof (cases "key (da_list a ! l) < key mid")
    case True
    then have "l \<noteq> k" using assms(5) by auto
    then have "k - Suc l < k - l" "Suc l \<le> k" using less.prems by simp_all
    from less.hyps [OF this] obtain l' where "sort_left cmp a mid (of_nat (Suc l)) = Some (Inr (of_nat l'))" "Suc l \<le> l'" "l' \<le> k"
      "key mid \<le> key (da_list a ! l')" "\<forall>j. Suc l \<le> j \<and> j < l' \<longrightarrow> key (da_list a ! j) < key mid"
      by blast
    moreover from this(5) True have "\<forall>j. l \<le> j \<and> j < l' \<longrightarrow> key (da_list a ! j) < key mid"
      by (metis Suc_leI le_neq_implies_less)
    moreover have "sort_left cmp a mid (of_nat l) = sort_left cmp a mid (of_nat (Suc l))"
      using True by (subst sort_left.simps) (simp add: e cmp_key add.commute)
    ultimately show ?thesis by (intro exI [of _ l']) simp
  next
    case False
    then have "sort_left cmp a mid (of_nat l) = Some (Inr (of_nat l))" by (subst sort_left.simps) (simp add: e cmp_key)
    then show ?thesis using False less.prems by (intro exI [of _ l]) auto
  qed
qed

lemma scan_right:
  assumes "da_inv a" "unat (da_count a) < 2 ^ 31" "k < h" "h \<le> unat (da_count a)" "key (da_list a ! k) \<le> key mid"
  shows "\<exists>h'. sort_right cmp a mid (of_nat h - 1) = Some (Inr (of_nat h' - 1)) \<and> k < h' \<and> h' \<le> h \<and>
    key (da_list a ! (h' - 1)) \<le> key mid \<and> (\<forall>j. h' \<le> j \<and> j < h \<longrightarrow> key mid < key (da_list a ! j))"
  using assms(3,4)
proof (induction "h - k" arbitrary: h rule: less_induct)
  case less
  define i where "i = h - 1"
  have h: "h = Suc i" using less.prems by (simp add: i_def)
  have e: "da_elem a (of_nat i) = Inr (da_list a ! i)" by (rule da_elem_ok [OF assms(1)]) (use less.prems assms(2) h in linarith)+
  show ?case
  proof (cases "key mid < key (da_list a ! i)")
    case True
    then have "k \<noteq> i" using assms(5) by auto
    then have "i - k < h - k" "k < i" "i \<le> unat (da_count a)" using less.prems h by simp_all
    from less.hyps [OF this] obtain h' where "sort_right cmp a mid (of_nat i - 1) = Some (Inr (of_nat h' - 1))" "k < h'" "h' \<le> i"
      "key (da_list a ! (h' - 1)) \<le> key mid" "\<forall>j. h' \<le> j \<and> j < i \<longrightarrow> key mid < key (da_list a ! j)"
      by blast
    moreover from this(5) True have "\<forall>j. h' \<le> j \<and> j < h \<longrightarrow> key mid < key (da_list a ! j)"
      by (metis h less_Suc_eq)
    moreover have "sort_right cmp a mid (of_nat h - 1) = sort_right cmp a mid (of_nat i - 1)"
      using True by (subst sort_right.simps) (simp add: e cmp_key h)
    ultimately show ?thesis by (intro exI [of _ h']) (simp add: h)
  next
    case False
    then have "sort_right cmp a mid (of_nat h - 1) = Some (Inr (of_nat h - 1))"
      by (subst sort_right.simps) (simp add: e cmp_key h)
    then show ?thesis using False less.prems by (intro exI [of _ h]) (auto simp: h)
  qed
qed

definition split_at :: "bytes list \<Rightarrow> nat \<Rightarrow> nat \<Rightarrow> nat \<Rightarrow> nat \<Rightarrow> nat \<Rightarrow> bool" where
  "split_at xs lo hi l h p \<longleftrightarrow> lo \<le> h \<and> l \<le> hi \<and> (\<forall>j. lo \<le> j \<and> j < l \<longrightarrow> key (xs ! j) \<le> p) \<and> (\<forall>j. h \<le> j \<and> j < hi \<longrightarrow> p \<le> key (xs ! j))"

lemma partition_ok:
  assumes "da_inv a" "da_es a = 4" "unat (da_count a) < 2 ^ 31" "lo \<le> l" "h \<le> hi" "hi \<le> unat (da_count a)"
    "split_at (da_list a) lo hi l h (key mid)"
    "l < h \<Longrightarrow> \<exists>k. l \<le> k \<and> k < hi \<and> key mid \<le> key (da_list a ! k)"
    "l < h \<Longrightarrow> \<exists>k. lo \<le> k \<and> k < h \<and> key (da_list a ! k) \<le> key mid"
  shows "\<exists>a' l' h'. sort_partition cmp mid a (of_nat l) (of_nat h - 1) = Some (Inr (a', of_nat l', of_nat h' - 1)) \<and>
    da_same a a' \<and> rearr lo hi (da_list a) (da_list a') \<and> h' \<le> l' \<and> l \<le> l' \<and> h' \<le> h \<and> split_at (da_list a') lo hi l' h' (key mid) \<and>
    ((\<exists>k. l \<le> k \<and> k < h \<and> key (da_list a ! k) = key mid) \<longrightarrow> l < l' \<and> h' < h)"
  using assms
proof (induction "h - l" arbitrary: a l h rule: less_induct)
  case less
  note inv = less.prems(1-3)
  have lb: "l < 2 ^ 31" "h < 2 ^ 31" using less.prems(3,5-7) by (auto simp: split_at_def)
  show ?case
  proof (cases "l < h")
    case False
    then have "sort_partition cmp mid a (of_nat l) (of_nat h - 1) = Some (Inr (a, of_nat l, of_nat h - 1))"
      by (subst sort_partition.simps) (simp add: less_eq_nat [OF lb])
    then show ?thesis using False less.prems(7) by (intro exI [of _ a] exI [of _ l] exI [of _ h]) auto
  next
    case True
    obtain k1 where k1: "l \<le> k1" "k1 < hi" "key mid \<le> key (da_list a ! k1)" using less.prems(8) True by blast
    obtain k2 where k2: "lo \<le> k2" "k2 < h" "key (da_list a ! k2) \<le> key mid" using less.prems(9) True by blast
    have k1c: "k1 < unat (da_count a)" "h \<le> unat (da_count a)" using k1(2) less.prems(5,6) by simp_all
    obtain i where i: "sort_left cmp a mid (of_nat l) = Some (Inr (of_nat i))" "l \<le> i" "i \<le> k1" "key mid \<le> key (da_list a ! i)"
      "\<forall>j. l \<le> j \<and> j < i \<longrightarrow> key (da_list a ! j) < key mid"
      using scan_left [OF inv(1,3) k1(1) k1c(1) k1(3)] by blast
    obtain g where g: "sort_right cmp a mid (of_nat h - 1) = Some (Inr (of_nat g - 1))" "k2 < g" "g \<le> h"
      "key (da_list a ! (g - 1)) \<le> key mid" "\<forall>j. g \<le> j \<and> j < h \<longrightarrow> key mid < key (da_list a ! j)"
      using scan_right [OF inv(1,3) k2(2) k1c(2) k2(3)] by blast
    have bounds: "i < hi" "lo \<le> i" "0 < g" "lo < g" "i < 2 ^ 31" "g < 2 ^ 31"
      using i(2,3) k1(2) less.prems(4) g(2,3) k2(1) lb inv(3) less.prems(6) by auto
    have low: "\<forall>j. lo \<le> j \<and> j < i \<longrightarrow> key (da_list a ! j) \<le> key mid"
      using less.prems(7) i(5) unfolding split_at_def by (metis less_imp_le not_le)
    have high: "\<forall>j. g \<le> j \<and> j < hi \<longrightarrow> key mid \<le> key (da_list a ! j)"
      using less.prems(7) g(5) unfolding split_at_def by (metis less_imp_le not_le)
    have unf: "sort_partition cmp mid a (of_nat l) (of_nat h - 1) =
        (if i < g then lbind (Some (if Suc i < g then sort_swap a (of_nat i) (of_nat g - 1) else Inr a)) (\<lambda>a.
           sort_partition cmp mid a (of_nat (Suc i)) (of_nat (g - 1) - 1))
         else sort_partition cmp mid a (of_nat i) (of_nat g - 1))"
    proof -
      have g1: "(of_nat (g - 1) :: i32) = of_nat g - 1" and s: "(of_nat (Suc i) :: i32) = of_nat i + 1"
        using bounds(3) by (simp_all add: of_nat_diff)
      have "(of_nat l :: i32) \<le>s of_nat h - 1" using True by (simp only: less_eq_nat [OF lb])
      then show ?thesis
        unfolding sort_partition.simps [of cmp mid a "of_nat l" "of_nat h - 1"] g1 s
        by (simp only: if_True i(1) g(1) lbind_simps less_eq_nat [OF bounds(5,6)] less_nat [OF bounds(5,6)])
    qed
    show ?thesis
    proof (cases "i < g")
      case False
      have "split_at (da_list a) lo hi i g (key mid)" using bounds low high by (simp add: split_at_def)
      moreover have "sort_partition cmp mid a (of_nat i) (of_nat g - 1) = Some (Inr (a, of_nat i, of_nat g - 1))"
        using False by (subst sort_partition.simps) (simp add: less_eq_nat [OF bounds(5,6)])
      then have "sort_partition cmp mid a (of_nat l) (of_nat h - 1) = Some (Inr (a, of_nat i, of_nat g - 1))"
        unfolding unf using False by simp
      moreover have False if "l \<le> k" "k < h" "key (da_list a ! k) = key mid" for k
        using i(5) g(5) that \<open>\<not> i < g\<close> by (metis less_irrefl not_le order_less_le_trans)
      ultimately show ?thesis using False i(2) g(3)
        by (intro exI [of _ a] exI [of _ i] exI [of _ g]) auto
    next
      case ig: True
      let ?ys = "(da_list a)[i := da_list a ! (g - 1), g - 1 := da_list a ! i]"
      have len: "length (da_list a) = unat (da_count a)" by simp
      have gi: "g - 1 < hi" "lo \<le> g - 1" "i \<le> g - 1" using ig bounds g(3) less.prems(5) by simp_all
      have "\<exists>a1. (if Suc i < g then sort_swap a (of_nat i) (of_nat g - 1) else Inr a) = Inr a1 \<and> da_same a a1 \<and> da_list a1 = ?ys"
      proof (cases "Suc i < g")
        case sw: True
        have "(of_nat g :: i32) - 1 = of_nat (g - 1)" using bounds(3) by (simp add: of_nat_diff)
        then show ?thesis using sw sort_swap_ok [OF inv(1,2), of i "g - 1"] bounds gi less.prems(6) by auto
      next
        case False
        then have "g - 1 = i" using ig by simp
        then show ?thesis using False by simp
      qed
      then obtain a1 where a1: "(if Suc i < g then sort_swap a (of_nat i) (of_nat g - 1) else Inr a) = Inr a1" "da_same a a1" "da_list a1 = ?ys"
        by blast
      have inv1: "da_inv a1" "da_es a1 = 4" "unat (da_count a1) < 2 ^ 31" "hi \<le> unat (da_count a1)"
        using da_same_inv [OF a1(2) inv(1)] a1(2) inv less.prems(6) by (simp_all add: da_same_def)
      have nth: "?ys ! j = (if j = g - 1 then da_list a ! i else if j = i then da_list a ! (g - 1) else da_list a ! j)" if "j < hi" for j
        using that less.prems(6) gi bounds by (auto simp: nth_list_update)
      have ra: "rearr lo hi (da_list a) (da_list a1)"
        unfolding a1(3) by (rule rearr_swap) (use gi bounds less.prems(6) in simp_all)
      have sp: "split_at (da_list a1) lo hi (Suc i) (g - 1) (key mid)"
        unfolding split_at_def a1(3)
      proof (intro conjI allI impI)
        fix j assume j: "lo \<le> j \<and> j < Suc i"
        then consider "j = i" | "j < i" by linarith
        then show "key (?ys ! j) \<le> key mid"
        proof cases
          case 1
          then show ?thesis using nth [of i] bounds(1) g(4) by (simp split: if_splits)
        next
          case 2
          then have "?ys ! j = da_list a ! j" using nth [of j] gi bounds(1) by simp
          then show ?thesis using low j 2 by simp
        qed
      next
        fix j assume j: "g - 1 \<le> j \<and> j < hi"
        then consider "j = g - 1" | "g \<le> j" by linarith
        then show "key mid \<le> key (?ys ! j)"
        proof cases
          case 1
          then show ?thesis using nth [of j] j i(4) by simp
        next
          case 2
          then have "?ys ! j = da_list a ! j" using nth [of j] j gi bounds(3) by simp
          then show ?thesis using high j 2 by simp
        qed
      qed (use gi bounds in simp_all)
      have ex1: "\<exists>k. Suc i \<le> k \<and> k < hi \<and> key mid \<le> key (da_list a1 ! k)" if "Suc i < g - 1"
      proof -
        have "?ys ! (g - 1) = da_list a ! i" using nth [of "g - 1"] gi by simp
        then show ?thesis unfolding a1(3) using that gi i(4) by (intro exI [of _ "g - 1"]) simp
      qed
      have ex2: "\<exists>k. lo \<le> k \<and> k < g - 1 \<and> key (da_list a1 ! k) \<le> key mid" if "Suc i < g - 1"
      proof -
        have "?ys ! i = da_list a ! (g - 1)" using nth [of i] bounds(1) that by simp
        then show ?thesis unfolding a1(3) using that bounds(2) g(4) by (intro exI [of _ i]) simp
      qed
      have lt: "g - 1 - Suc i < h - l" using ig i(2) g(3) by simp
      have pre: "lo \<le> Suc i" "g - 1 \<le> hi" using bounds gi by simp_all
      obtain a' l' h' where r: "sort_partition cmp mid a1 (of_nat (Suc i)) (of_nat (g - 1) - 1) = Some (Inr (a', of_nat l', of_nat h' - 1))"
        "da_same a1 a'" "rearr lo hi (da_list a1) (da_list a')" "h' \<le> l'" "Suc i \<le> l'" "h' \<le> g - 1" "split_at (da_list a') lo hi l' h' (key mid)"
        using less.hyps [OF lt inv1(1-3) pre inv1(4) sp ex1 ex2] by blast
      have "sort_partition cmp mid a (of_nat l) (of_nat h - 1) = Some (Inr (a', of_nat l', of_nat h' - 1))"
        unfolding unf a1(1) using ig r(1) by simp
      then show ?thesis using r da_same_trans [OF a1(2) r(2)] rearr_trans [OF ra r(3)] i(2) g(3) bounds(3)
        by (intro exI [of _ a'] exI [of _ l'] exI [of _ h']) auto
    qed
  qed
qed

definition key_sorted :: "nat \<Rightarrow> nat \<Rightarrow> bytes list \<Rightarrow> bool" where
  "key_sorted lo hi xs \<longleftrightarrow> (\<forall>i j. lo \<le> i \<and> i \<le> j \<and> j < hi \<longrightarrow> key (xs ! i) \<le> key (xs ! j))"

text \<open>Sorting both sides of a partition sorts the whole.\<close>

lemma sort_sides:
  assumes "split_at xs lo hi l h p" "h \<le> l" "hi \<le> length xs" "rearr lo h xs ys" "rearr l hi ys zs" "key_sorted lo h ys" "key_sorted l hi zs"
    "lo \<le> l" "h \<le> hi"
  shows "key_sorted lo hi zs" "rearr lo hi xs zs"
proof -
  have b: "lo \<le> h" "l \<le> hi" using assms(1) by (simp_all add: split_at_def)
  note len = rearr_length [OF assms(4)]
  show "rearr lo hi xs zs"
    using rearr_trans [OF rearr_widen [OF assms(4)] rearr_widen [OF assms(5)]] assms(8,9) by blast
  have left: "zs ! j = ys ! j" if "j < l" for j
    by (rule rearr_outside [OF assms(5)]) (use that assms(3) b(2) len in auto)
  have right: "ys ! j = xs ! j" if "h \<le> j" "j < hi" for j
    by (rule rearr_outside [OF assms(4)]) (use that assms(3) in auto)
  have low: "key (zs ! j) \<le> p" if lj: "lo \<le> j" "j < l" for j
  proof (cases "j < h")
    case True
    then obtain i where "lo \<le> i" "i < h" "ys ! j = xs ! i" using rearr_from [OF assms(4), of j] lj assms(3,9) by auto
    then show ?thesis using left [OF lj(2)] assms(1,2) by (simp add: split_at_def)
  next
    case False
    then show ?thesis using left [OF lj(2)] right [of j] lj b(2) assms(1) by (simp add: split_at_def)
  qed
  have high: "p \<le> key (zs ! j)" if lj: "h \<le> j" "j < hi" for j
  proof (cases "j < l")
    case True
    then show ?thesis using left [OF True] right [OF lj] lj assms(1) by (simp add: split_at_def)
  next
    case False
    then obtain i where "l \<le> i" "i < hi" "zs ! j = ys ! i" using rearr_from [OF assms(5), of j] assms(3) len lj by auto
    then show ?thesis using right [of i] assms(1,2) by (simp add: split_at_def)
  qed
  show "key_sorted lo hi zs"
    unfolding key_sorted_def
  proof (intro allI impI)
    fix i j assume ij: "lo \<le> i \<and> i \<le> j \<and> j < hi"
    consider "j < h" | "i < l" "h \<le> j" | "l \<le> i" using assms(2) by linarith
    then show "key (zs ! i) \<le> key (zs ! j)"
    proof cases
      case 1
      then show ?thesis using assms(2,6) ij left by (simp add: key_sorted_def)
    next
      case 2
      then show ?thesis using low [of i] high [of j] ij by simp
    next
      case 3
      then show ?thesis using assms(7) ij by (simp add: key_sorted_def)
    qed
  qed
qed

lemma quicksort_ok:
  assumes "da_inv a" "da_es a = 4" "unat (da_count a) < 2 ^ 31" "lo \<le> hi" "hi \<le> unat (da_count a)"
  shows "\<exists>a' seed'. dynamic_array_quicksort cmp a (of_nat lo) (of_nat hi - 1) seed = Some (Inr (a', seed')) \<and>
    da_same a a' \<and> rearr lo hi (da_list a) (da_list a') \<and> key_sorted lo hi (da_list a')"
  using assms
proof (induction "hi - lo" arbitrary: a lo hi seed rule: less_induct)
  case less
  note inv = less.prems(1-3)
  have b: "lo < 2 ^ 31" "hi < 2 ^ 31" using less.prems(3-5) by simp_all
  have cond: "(of_nat hi - 1 :: i32) \<le>s of_nat lo \<longleftrightarrow> hi \<le> Suc lo"
    by (auto simp: word_sle_eq sint_nat [OF b(1)] sint_pred [OF b(2)])
  show ?case
  proof (cases "hi \<le> Suc lo")
    case True
    then have "dynamic_array_quicksort cmp a (of_nat lo) (of_nat hi - 1) seed = Some (Inr (a, seed))"
      by (subst dynamic_array_quicksort.simps) (simp add: cond)
    moreover have "key_sorted lo hi (da_list a)" using True by (auto simp: key_sorted_def dest: le_neq_implies_less)
    ultimately show ?thesis by (intro exI [of _ a] exI [of _ seed]) simp
  next
    case False
    obtain rnd seed1 where rs: "rand seed = (rnd, seed1)" by (cases "rand seed") auto
    define m where "m = lo + unat rnd mod (hi - lo)"
    have "unat rnd mod (hi - lo) < hi - lo" using False by simp
    then have m: "lo \<le> m" "m < hi" "m < 2 ^ 31" using b(2) by (simp_all add: m_def)
    have idx: "(of_nat lo + rnd mod (of_nat hi - 1 - of_nat lo + 1) :: u32) = of_nat m"
    proof -
      have d: "(of_nat hi - 1 - of_nat lo + 1 :: u32) = of_nat (hi - lo)" using less.prems(4) by (simp add: of_nat_diff)
      have "hi - lo < 2 ^ 32" using b(2) by simp
      then have "unat (of_nat (hi - lo) :: u32) = hi - lo" by (simp add: unat_of_nat)
      then have "unat (rnd mod of_nat (hi - lo)) = unat rnd mod (hi - lo)" by (simp only: unat_mod)
      moreover have "of_nat (unat (rnd mod of_nat (hi - lo))) = rnd mod of_nat (hi - lo)" by simp
      ultimately show ?thesis unfolding d m_def by simp
    qed
    have mc: "m < unat (da_count a)" using m(2) less.prems(5) by simp
    obtain off where off: "dynamic_array_get_by_index a (of_nat m) = Inr off" "unat off + unat (da_es a) \<le> length (da_buffer a)"
      "take (unat (da_es a)) (drop (unat off) (da_buffer a)) = da_list a ! m"
      using da_index_ok [OF inv(1) mc m(3)] by blast
    let ?mid = "da_list a ! m"
    have sp: "split_at (da_list a) lo hi lo hi (key ?mid)" using less.prems(4) by (simp add: split_at_def)
    obtain a1 l h where 1: "sort_partition cmp ?mid a (of_nat lo) (of_nat hi - 1) = Some (Inr (a1, of_nat l, of_nat h - 1))"
      "da_same a a1" "rearr lo hi (da_list a) (da_list a1)" "h \<le> l" "split_at (da_list a1) lo hi l h (key ?mid)" "lo < l" "h < hi"
      using partition_ok [OF inv le_refl le_refl less.prems(5) sp] m by blast
    have bd: "lo \<le> h" "l \<le> hi" using 1(5) by (simp_all add: split_at_def)
    have i1: "da_inv a1" "da_es a1 = 4" "unat (da_count a1) < 2 ^ 31" "h \<le> unat (da_count a1)"
      using da_same_inv [OF 1(2) inv(1)] 1(2,7) inv less.prems(5) by (simp_all add: da_same_def)
    have "h - lo < hi - lo" using 1(7) bd(1) by simp
    from less.hyps [OF this i1(1-3) bd(1) i1(4), of seed1] obtain a2 seed2 where
      2: "dynamic_array_quicksort cmp a1 (of_nat lo) (of_nat h - 1) seed1 = Some (Inr (a2, seed2))" "da_same a1 a2"
      "rearr lo h (da_list a1) (da_list a2)" "key_sorted lo h (da_list a2)"
      by blast
    have i2: "da_inv a2" "da_es a2 = 4" "unat (da_count a2) < 2 ^ 31" "hi \<le> unat (da_count a2)"
      using da_same_inv [OF 2(2) i1(1)] 1(2) 2(2) inv less.prems(5) by (simp_all add: da_same_def)
    have "hi - l < hi - lo" using 1(6) bd(2) by simp
    from less.hyps [OF this i2(1-3) bd(2) i2(4), of seed2] obtain a3 seed3 where
      3: "dynamic_array_quicksort cmp a2 (of_nat l) (of_nat hi - 1) seed2 = Some (Inr (a3, seed3))" "da_same a2 a3"
      "rearr l hi (da_list a2) (da_list a3)" "key_sorted l hi (da_list a3)"
      by blast
    have "hi \<le> length (da_list a1)" using 1(2) less.prems(5) by (simp add: da_same_def)
    note s = sort_sides [OF 1(5,4) this 2(3) 3(3) 2(4) 3(4) less_imp_le [OF 1(6)] less_imp_le [OF 1(7)]]
    have "dynamic_array_quicksort cmp a (of_nat lo) (of_nat hi - 1) seed = Some (Inr (a3, seed3))"
    proof -
      have "\<not> (of_nat hi - 1 :: i32) \<le>s of_nat lo" using False cond by blast
      then show ?thesis
        unfolding dynamic_array_quicksort.simps [of cmp a "of_nat lo" "of_nat hi - 1"] rs
        by (simp only: if_False Let_def prod.case idx off(1) rbind.simps buf_read_ok [OF off(2)] off(3) lbind_simps 1(1) 2(1) 3(1))
    qed
    moreover have "da_same a a3" using da_same_trans [OF 1(2) da_same_trans [OF 2(2) 3(2)]] .
    ultimately show ?thesis using s(1) rearr_trans [OF 1(3) s(2)] by blast
  qed
qed

end

section \<open>Sorting numbers\<close>

interpretation u32_order: sort_order uint32_less "\<lambda>b. unat (get32 b 0)"
  by unfold_locales (simp add: uint32_less_def word_less_nat_alt)

lemma quicksort_numbers:
  assumes "da_inv a" "da_es a = 4" "unat (da_count a) < 2 ^ 31"
  shows "\<exists>a' seed'. dynamic_array_quicksort uint32_less a 0 (da_count a - 1) seed = Some (Inr (a', seed')) \<and>
    da_inv a' \<and> da_es a' = 4 \<and> da_count a' = da_count a \<and> mset (da_list a') = mset (da_list a) \<and>
    sorted (map (\<lambda>b. unat (get32 b 0)) (da_list a'))"
proof -
  have "\<exists>a' seed'. dynamic_array_quicksort uint32_less a (of_nat 0) (of_nat (unat (da_count a)) - 1) seed = Some (Inr (a', seed')) \<and>
    da_same a a' \<and> rearr 0 (unat (da_count a)) (da_list a) (da_list a') \<and> u32_order.key_sorted 0 (unat (da_count a)) (da_list a')"
    by (rule u32_order.quicksort_ok [OF assms]) simp_all
  then obtain a' seed' where r: "dynamic_array_quicksort uint32_less a 0 (da_count a - 1) seed = Some (Inr (a', seed'))"
    "da_same a a'" "rearr 0 (unat (da_count a)) (da_list a) (da_list a')" "u32_order.key_sorted 0 (unat (da_count a)) (da_list a')"
    by auto
  have "da_count a' = da_count a" "da_es a' = 4" using r(2) assms(2) by (simp_all add: da_same_def)
  moreover from this r(4) have "sorted (map (\<lambda>b. unat (get32 b 0)) (da_list a'))"
    by (auto simp: sorted_iff_nth_mono u32_order.key_sorted_def)
  ultimately show ?thesis using r(1,3) da_same_inv [OF r(2) assms(1)] by (auto simp: rearr_def)
qed

text \<open>Four slots with the numbers 9, 2, 7, wrapped around the end of the buffer.\<close>

definition ex_numbers :: dynamic_array_t where
  "ex_numbers = \<lparr> da_buffer = put32 2 @ put32 7 @ put32 0 @ put32 9, da_size = 4, da_count = 3, da_es = 4, da_start = 2, da_end = 2 \<rparr>"

lemma ex_numbers_inv: "da_inv ex_numbers"
  by (simp add: da_inv_def da_shape_def pow2w_def ex_numbers_def)

text \<open>Sorting an array of fewer than \<open>2 ^ 31\<close> numbers returns without a failing assertion, whatever the random
  numbers are, and leaves the same numbers in ascending order.\<close>

lemma quicksort_sorts:
  assumes "da_inv a" "da_es a = 4" "unat (da_count a) < 2 ^ 31"
  shows "\<exists>a' seed'. dynamic_array_quicksort uint32_less a 0 (da_count a - 1) seed = Some (Inr (a', seed')) \<and>
    da_inv a' \<and> mset (da_list a') = mset (da_list a) \<and> sorted (map (\<lambda>b. unat (get32 b 0)) (da_list a'))"
  using quicksort_numbers [OF assms] by blast

lemma quicksort_sorts_witness:
  "\<exists>a' seed'. dynamic_array_quicksort uint32_less ex_numbers 0 2 5 = Some (Inr (a', seed')) \<and>
    da_inv a' \<and> mset (da_list a') = mset (da_list ex_numbers) \<and> sorted (map (\<lambda>b. unat (get32 b 0)) (da_list a'))"
proof -
  have e: "da_es ex_numbers = 4" "unat (da_count ex_numbers) < 2 ^ 31" "da_count ex_numbers - 1 = 2" by (simp_all add: ex_numbers_def)
  show ?thesis using quicksort_sorts [OF ex_numbers_inv e(1,2), of 5] unfolding e(3) .
qed

end
