(* ===== verification/Linked_Lists.thy ===== *)
theory Linked_Lists
  imports Kernel_Prelude
begin

text \<open>
  The two linked lists: the intrusive one of \<^verbatim>\<open>lib/list.h\<close>, whose nodes live inside other
  objects, and the one of \<^verbatim>\<open>lib/linked_list.c\<close>, whose nodes are allocated and own a value.
  Node addresses are numbers, \<open>None\<close> is \<open>NULL\<close>, and the memory holding the nodes is a function
  that the operations update field by field, in the order of the code's assignments.
\<close>

section \<open>Links in memory\<close>

record list_node_t =
  lleft :: "nat option"
  lright :: "nat option"

type_synonym node_links = "nat \<Rightarrow> list_node_t"

definition set_left :: "node_links \<Rightarrow> nat \<Rightarrow> nat option \<Rightarrow> node_links" where
  "set_left st n p = st(n := (st n)\<lparr> lleft := p \<rparr>)"

definition set_right :: "node_links \<Rightarrow> nat \<Rightarrow> nat option \<Rightarrow> node_links" where
  "set_right st n p = st(n := (st n)\<lparr> lright := p \<rparr>)"

text \<open>\<open>if (p) p->left = v\<close> and \<open>if (p) p->right = v\<close>.\<close>

definition set_left_if :: "node_links \<Rightarrow> nat option \<Rightarrow> nat option \<Rightarrow> node_links" where
  "set_left_if st p v = (case p of None \<Rightarrow> st | Some n \<Rightarrow> set_left st n v)"

definition set_right_if :: "node_links \<Rightarrow> nat option \<Rightarrow> nat option \<Rightarrow> node_links" where
  "set_right_if st p v = (case p of None \<Rightarrow> st | Some n \<Rightarrow> set_right st n v)"

section \<open>The intrusive list\<close>

definition list_init_root_cycle :: "node_links \<Rightarrow> nat \<Rightarrow> node_links" where
  "list_init_root_cycle st root = set_right (set_left st root (Some root)) root (Some root)"

definition list_node_init :: "node_links \<Rightarrow> nat \<Rightarrow> node_links" where
  "list_node_init st root = set_right (set_left st root None) root None"

text \<open>The operations that move the root return it with the memory.\<close>

definition list_erase :: "node_links \<Rightarrow> nat option \<Rightarrow> nat \<Rightarrow> nat option \<times> node_links" where
  "list_erase st root node =
     (let l = lleft (st node); r = lright (st node);
          (root, l, r) =
            (if root = Some node then
               if lleft (st node) = root then (None, None, None)
               else (lright (st node), l, r)
             else (root, l, r));
          st = set_right_if st l r;
          st = set_left_if st r l;
          st = set_left st node None;
          st = set_right st node None
      in (root, st))"

definition list_erase_cycle :: "node_links \<Rightarrow> nat \<Rightarrow> node_links" where
  "list_erase_cycle st node =
     (let st = set_right_if st (lleft (st node)) (lright (st node));
          st = set_left_if st (lright (st node)) (lleft (st node));
          st = set_left st node None
      in set_right st node None)"

definition list_erase_move_root_left :: "node_links \<Rightarrow> nat option \<Rightarrow> nat \<Rightarrow> nat option \<times> node_links" where
  "list_erase_move_root_left st root node =
     (let l = lleft (st node); r = lright (st node);
          (root, l, r) =
            (if root = Some node then
               if lleft (st node) = root then (None, None, None)
               else (lleft (st node), l, r)
             else (root, l, r));
          st = set_right_if st l r;
          st = set_left_if st r l;
          st = set_left st node None;
          st = set_right st node None
      in (root, st))"

definition list_add :: "node_links \<Rightarrow> nat \<Rightarrow> nat \<Rightarrow> node_links" where
  "list_add st left node =
     (let st = list_node_init st node;
          r = lright (st left);
          st = set_right st left (Some node);
          st = set_left st node (Some left);
          st = set_right st node r
      in set_left_if st r (Some node))"

definition list_add_begin :: "node_links \<Rightarrow> nat option \<Rightarrow> nat \<Rightarrow> nat option \<times> node_links" where
  "list_add_begin st root node =
     (let st = list_node_init st node;
          st = set_right st node root;
          st = (case root of
                  None \<Rightarrow> st
                | Some r \<Rightarrow>
                    let st = set_left st node (lleft (st r));
                        st = set_right_if st (lleft (st r)) (Some node)
                    in set_left st r (Some node))
      in (Some node, st))"

section \<open>The list with values\<close>

text \<open>\<open>ll_value\<close> gives the value of the allocated nodes; a freed node has none.\<close>

record linked_list_heap =
  ll_links :: node_links
  ll_value :: "nat \<Rightarrow> bytes option"

text \<open>\<open>new\<close> is the address \<open>malloc\<close> returns for the node.\<close>

definition linked_list_create_node :: "linked_list_heap \<Rightarrow> nat \<Rightarrow> bytes \<Rightarrow> linked_list_heap" where
  "linked_list_create_node h new v =
     h\<lparr> ll_links := set_left (set_right (ll_links h) new None) new None,
        ll_value := (ll_value h)(new := Some v) \<rparr>"

definition linked_list_create_root :: "linked_list_heap \<Rightarrow> nat \<Rightarrow> bytes \<Rightarrow> linked_list_heap" where
  "linked_list_create_root h new v = linked_list_create_node h new v"

definition linked_list_create_root_cycle :: "linked_list_heap \<Rightarrow> nat \<Rightarrow> bytes \<Rightarrow> linked_list_heap" where
  "linked_list_create_root_cycle h new v =
     (let h = linked_list_create_node h new v
      in h\<lparr> ll_links := set_left (set_right (ll_links h) new (Some new)) new (Some new) \<rparr>)"

definition linked_list_add :: "linked_list_heap \<Rightarrow> nat \<Rightarrow> nat \<Rightarrow> bytes \<Rightarrow> linked_list_heap" where
  "linked_list_add h left new v =
     (let right = lright (ll_links h left);
          h = linked_list_create_node h new v;
          st = set_right (ll_links h) left (Some new);
          st = set_left st new (Some left);
          st = set_right st new right
      in h\<lparr> ll_links := set_left_if st right (Some new) \<rparr>)"

definition linked_list_add_begin ::
    "linked_list_heap \<Rightarrow> nat option \<Rightarrow> nat \<Rightarrow> bytes \<Rightarrow> nat option \<times> linked_list_heap" where
  "linked_list_add_begin h root new v =
     (let h = linked_list_create_node h new v;
          st = set_right (ll_links h) new root;
          st = (case root of
                  None \<Rightarrow> st
                | Some r \<Rightarrow>
                    let st = set_left st new (lleft (st r));
                        st = set_right_if st (lleft (st r)) (Some new)
                    in set_left st r (Some new))
      in (Some new, h\<lparr> ll_links := st \<rparr>))"

definition linked_list_erase_end ::
    "linked_list_heap \<Rightarrow> nat option \<Rightarrow> nat option \<Rightarrow> nat \<Rightarrow> linked_list_heap" where
  "linked_list_erase_end h left right cur =
     h\<lparr> ll_links := set_left_if (set_right_if (ll_links h) left right) right left,
        ll_value := (ll_value h)(cur := None) \<rparr>"

definition linked_list_erase :: "linked_list_heap \<Rightarrow> nat option \<Rightarrow> nat \<Rightarrow> nat option \<times> linked_list_heap" where
  "linked_list_erase h root cur =
     (let st = ll_links h; left = lleft (st cur); right = lright (st cur);
          (root, left, right) =
            (if root = Some cur then
               if lright (st cur) = root then (None, None, None)
               else (lright (st cur), left, right)
             else (root, left, right))
      in (root, linked_list_erase_end h left right cur))"

definition linked_list_erase_move_root_left ::
    "linked_list_heap \<Rightarrow> nat option \<Rightarrow> nat \<Rightarrow> nat option \<times> linked_list_heap" where
  "linked_list_erase_move_root_left h root cur =
     (let st = ll_links h; left = lleft (st cur); right = lright (st cur);
          (root, left, right) =
            (if root = Some cur then
               if lleft (st cur) = root then (None, None, None)
               else (lleft (st cur), left, right)
             else (root, left, right))
      in (root, linked_list_erase_end h left right cur))"

text \<open>\<open>None\<close> is the loop that does not end.\<close>

partial_function (option) linked_list_destroy ::
    "linked_list_heap \<Rightarrow> nat option \<Rightarrow> linked_list_heap option" where
  [code]: "linked_list_destroy h root =
     (case root of
        None \<Rightarrow> Some h
      | Some r \<Rightarrow> (let (root, h) = linked_list_erase h root r in linked_list_destroy h root))"

section \<open>Sequences of nodes\<close>

text \<open>
  \<open>seg st p xs q\<close>: the nodes \<open>xs\<close> are linked in this order, the first one to \<open>p\<close> on its left and
  the last one to \<open>q\<close> on its right.  A chain ends in \<open>NULL\<close> at both ends, a ring in itself.
\<close>

fun seg :: "node_links \<Rightarrow> nat option \<Rightarrow> nat list \<Rightarrow> nat option \<Rightarrow> bool" where
  "seg st p [] q = True"
| "seg st p (x # xs) q =
     (st x = \<lparr> lleft = p, lright = (if xs = [] then q else Some (hd xs)) \<rparr> \<and> seg st (Some x) xs q)"

definition chain :: "node_links \<Rightarrow> nat option \<Rightarrow> nat list \<Rightarrow> bool" where
  "chain st root xs = (distinct xs \<and> seg st None xs None \<and> root = (if xs = [] then None else Some (hd xs)))"

definition ring :: "node_links \<Rightarrow> nat list \<Rightarrow> bool" where
  "ring st xs = (distinct xs \<and> xs \<noteq> [] \<and> seg st (Some (last xs)) xs (Some (hd xs)))"

lemma seg_append:
  "seg st p (xs @ ys) q \<longleftrightarrow>
     seg st p xs (if ys = [] then q else Some (hd ys)) \<and>
     seg st (if xs = [] then p else Some (last xs)) ys q"
  by (induction xs arbitrary: p) auto

lemma seg_other [simp]: "x \<notin> set xs \<Longrightarrow> seg (st(x := n)) p xs q = seg st p xs q"
  by (induction xs arbitrary: p) auto

lemma set_other [simp]:
  "x \<notin> set xs \<Longrightarrow> seg (set_left st x v) p xs q = seg st p xs q"
  "x \<notin> set xs \<Longrightarrow> seg (set_right st x v) p xs q = seg st p xs q"
  by (simp_all add: set_left_def set_right_def)

lemma set_at [simp]:
  "set_left st x v y = (if x = y then (st y)\<lparr> lleft := v \<rparr> else st y)"
  "set_right st x v y = (if x = y then (st y)\<lparr> lright := v \<rparr> else st y)"
  by (auto simp: set_left_def set_right_def)

lemma seg_set_left:
  "distinct (x # xs) \<Longrightarrow> seg st p (x # xs) q \<Longrightarrow> seg (set_left st x p') p' (x # xs) q"
  by auto

lemma seg_set_right:
  "distinct (xs @ [x]) \<Longrightarrow> seg st p (xs @ [x]) q \<Longrightarrow> seg (set_right st x q') p (xs @ [x]) q'"
  by (simp add: seg_append)

lemma seg_cong: "(\<And>x. x \<in> set xs \<Longrightarrow> st' x = st x) \<Longrightarrow> seg st' p xs q = seg st p xs q"
  by (induction xs arbitrary: p) auto

text \<open>A ring may be read from any of its nodes.\<close>

lemma ring_rotate: "ring st (xs @ ys) \<longleftrightarrow> ring st (ys @ xs)"
  by (cases "xs = []"; cases "ys = []") (auto simp: ring_def seg_append)

lemma ring_at: "x \<in> set xs \<Longrightarrow> ring st xs \<Longrightarrow> \<exists>ys. ring st (x # ys) \<and> set (x # ys) = set xs \<and> length (x # ys) = length xs"
proof -
  assume "x \<in> set xs" "ring st xs"
  then obtain as bs where s: "xs = as @ x # bs" by (meson split_list)
  then have "ring st ((x # bs) @ as)" using \<open>ring st xs\<close> ring_rotate [of st as "x # bs"] by simp
  then show ?thesis using s by (intro exI [of _ "bs @ as"]) auto
qed

section \<open>The intrusive list on rings\<close>

lemma list_init_root_cycle_ring: "ring (list_init_root_cycle st root) [root]"
  by (simp add: ring_def list_init_root_cycle_def)

lemma ring_Cons_iff:
  "ring st (x # ys) \<longleftrightarrow> distinct (x # ys) \<and>
    (if ys = [] then st x = \<lparr> lleft = Some x, lright = Some x \<rparr>
     else st x = \<lparr> lleft = Some (last ys), lright = Some (hd ys) \<rparr> \<and> seg st (Some x) ys (Some x))"
  by (auto simp: ring_def)

lemma list_add_ring:
  assumes "ring st (l # ys)" "n \<notin> set (l # ys)"
  shows "ring (list_add st l n) (l # n # ys)"
proof (cases ys)
  case Nil
  then show ?thesis using assms
    by (simp add: ring_Cons_iff list_add_def list_node_init_def set_left_if_def Let_def)
next
  case (Cons y zs)
  then show ?thesis using assms
    by (auto simp: ring_Cons_iff list_add_def list_node_init_def set_left_if_def Let_def)
qed

lemma list_add_begin_ring:
  assumes "ring st (r # ys)" "n \<notin> set (r # ys)"
  shows "list_add_begin st (Some r) n = (Some n, snd (list_add_begin st (Some r) n))"
    "ring (snd (list_add_begin st (Some r) n)) (n # r # ys)"
proof -
  show "list_add_begin st (Some r) n = (Some n, snd (list_add_begin st (Some r) n))"
    by (simp add: list_add_begin_def Let_def)
  show "ring (snd (list_add_begin st (Some r) n)) (n # r # ys)"
  proof (cases ys rule: rev_cases)
    case Nil
    then show ?thesis using assms
      by (simp add: ring_Cons_iff list_add_begin_def list_node_init_def set_right_if_def Let_def)
  next
    case (snoc zs z)
    then show ?thesis using assms
      by (cases zs) (auto simp: ring_Cons_iff list_add_begin_def list_node_init_def set_right_if_def Let_def seg_append)
  qed
qed

definition unlinked :: "node_links \<Rightarrow> nat \<Rightarrow> bool" where
  "unlinked st n = (st n = \<lparr> lleft = None, lright = None \<rparr>)"

text \<open>Taking a node out of a ring of two or more leaves the ring of the others.\<close>

lemma ring_unlink:
  assumes "ring st (n # y # zs)"
  shows "ring (set_left_if (set_right_if st (lleft (st n)) (lright (st n))) (lright (st n)) (lleft (st n))) (y # zs)"
proof (cases zs rule: rev_cases)
  case Nil
  then show ?thesis using assms by (simp add: ring_Cons_iff set_right_if_def set_left_if_def)
next
  case (snoc ws w)
  then show ?thesis using assms
    by (cases ws) (auto simp: ring_Cons_iff set_right_if_def set_left_if_def seg_append)
qed

lemma ring_other: "n \<notin> set xs \<Longrightarrow> ring (set_right (set_left st n p) n q) xs = ring st xs"
  by (simp add: ring_def)

lemma ring_single: "ring st [n] \<longleftrightarrow> st n = \<lparr> lleft = Some n, lright = Some n \<rparr>"
  by (simp add: ring_def)

lemma list_erase_ring:
  assumes "ring st (n # y # zs)" "root \<in> Some ` set (n # y # zs)"
  shows "\<exists>st'. list_erase st root n = (if root = Some n then Some y else root, st') \<and> ring st' (y # zs) \<and> unlinked st' n"
proof -
  let ?u = "set_left_if (set_right_if st (lleft (st n)) (lright (st n))) (lright (st n)) (lleft (st n))"
  have d: "distinct (n # y # zs)" "lright (st n) = Some y" "lleft (st n) = Some (last (y # zs))"
    using assms(1) by (auto simp: ring_def)
  then have ne: "lleft (st n) \<noteq> Some n" by (metis distinct.simps(2) last_in_set list.distinct(1) option.inject)
  have e: "list_erase st root n = (if root = Some n then Some y else root, set_right (set_left ?u n None) n None)"
    using d ne by (auto simp: list_erase_def Let_def)
  have "ring (set_right (set_left ?u n None) n None) (y # zs)"
    using ring_unlink [OF assms(1)] d(1) by (subst ring_other) auto
  then show ?thesis unfolding e by (auto simp: unlinked_def)
qed

lemma list_erase_ring_last:
  "ring st [n] \<Longrightarrow> list_erase st (Some n) n = (None, list_node_init st n)"
  by (simp add: ring_single list_erase_def list_node_init_def set_left_if_def set_right_if_def Let_def)

lemma list_erase_cycle_ring:
  assumes "ring st (n # y # zs)"
  shows "ring (list_erase_cycle st n) (y # zs)" "unlinked (list_erase_cycle st n) n"
proof -
  let ?u = "set_left_if (set_right_if st (lleft (st n)) (lright (st n))) (lright (st n)) (lleft (st n))"
  have d: "distinct (n # y # zs)" "lright (st n) = Some y" "lleft (st n) = Some (last (y # zs))"
    using assms by (auto simp: ring_def)
  then have ne: "last (y # zs) \<noteq> n" by (metis distinct.simps(2) last_in_set list.distinct(1))
  have e: "list_erase_cycle st n = set_right (set_left ?u n None) n None"
    using d ne by (simp add: list_erase_cycle_def Let_def set_right_if_def)
  show "ring (list_erase_cycle st n) (y # zs)"
    unfolding e using ring_unlink [OF assms] d(1) by (subst ring_other) auto
  show "unlinked (list_erase_cycle st n) n" unfolding e by (simp add: unlinked_def)
qed

lemma list_erase_move_root_left_ring:
  assumes "ring st (n # y # zs)" "root \<in> Some ` set (n # y # zs)"
  shows "\<exists>st'. list_erase_move_root_left st root n = (if root = Some n then Some (last (y # zs)) else root, st') \<and>
    ring st' (y # zs) \<and> unlinked st' n"
proof -
  let ?u = "set_left_if (set_right_if st (lleft (st n)) (lright (st n))) (lright (st n)) (lleft (st n))"
  have d: "distinct (n # y # zs)" "lright (st n) = Some y" "lleft (st n) = Some (last (y # zs))"
    using assms(1) by (auto simp: ring_def)
  then have ne: "lleft (st n) \<noteq> Some n" by (metis distinct.simps(2) last_in_set list.distinct(1) option.inject)
  have e: "list_erase_move_root_left st root n =
      (if root = Some n then Some (last (y # zs)) else root, set_right (set_left ?u n None) n None)"
    using d ne by (auto simp: list_erase_move_root_left_def Let_def)
  have "ring (set_right (set_left ?u n None) n None) (y # zs)"
    using ring_unlink [OF assms(1)] d(1) by (subst ring_other) auto
  then show ?thesis unfolding e by (auto simp: unlinked_def)
qed

section \<open>The list with values on chains\<close>

text \<open>A chain with its values: what the lists of waiting tasks are.\<close>

definition vchain :: "linked_list_heap \<Rightarrow> nat option \<Rightarrow> nat list \<Rightarrow> bytes list \<Rightarrow> bool" where
  "vchain h root xs vs = (chain (ll_links h) root xs \<and> map (ll_value h) xs = map Some vs)"

lemma linked_list_add_begin_chain:
  assumes "vchain h root xs vs" "n \<notin> set xs"
  shows "\<exists>h'. linked_list_add_begin h root n v = (Some n, h') \<and> vchain h' (Some n) (n # xs) (v # vs)"
proof -
  have "map (\<lambda>a. if a = n then Some v else ll_value h a) xs = map (ll_value h) xs"
    using assms(2) by auto
  then show ?thesis using assms
    by (cases xs) (auto simp: vchain_def chain_def linked_list_add_begin_def linked_list_create_node_def
        set_right_if_def Let_def fun_upd_def cong: map_cong)
qed

lemma chain_unlink:
  assumes "chain st root (as @ n # bs)"
  shows "chain (set_left_if (set_right_if st (lleft (st n)) (lright (st n))) (lright (st n)) (lleft (st n)))
    (if root = Some n then lright (st n) else root) (as @ bs)"
proof (cases as rule: rev_cases)
  case Nil
  then show ?thesis using assms
    by (cases bs) (auto simp: chain_def set_right_if_def set_left_if_def)
next
  case (snoc ws w)
  then show ?thesis using assms
    by (cases bs; cases ws) (auto simp: chain_def set_right_if_def set_left_if_def seg_append hd_append)
qed

lemma linked_list_erase_chain:
  assumes "vchain h root (as @ n # bs) (us @ v # ws)" "length us = length as"
  shows "\<exists>root' h'. linked_list_erase h root n = (root', h') \<and> vchain h' root' (as @ bs) (us @ ws) \<and>
    ll_value h' n = None"
proof -
  let ?st = "ll_links h"
  have c: "chain ?st root (as @ n # bs)" and d: "distinct (as @ n # bs)" and m: "map (ll_value h) (as @ n # bs) = map Some (us @ v # ws)"
    using assms(1) by (auto simp: vchain_def chain_def)
  have r: "lright (?st n) = (if bs = [] then None else Some (hd bs))"
    using c by (auto simp: chain_def seg_append)
  then have ne: "lright (?st n) \<noteq> Some n" using d by (cases bs) auto
  have e: "linked_list_erase h root n = (if root = Some n then lright (?st n) else root,
      linked_list_erase_end h (lleft (?st n)) (lright (?st n)) n)"
    using ne by (auto simp: linked_list_erase_def Let_def)
  have "map (ll_value h) as = map Some us \<and> map (ll_value h) bs = map Some ws"
    using m assms(2) by (simp add: append_eq_append_conv)
  then have "map ((ll_value h)(n := None)) (as @ bs) = map Some (us @ ws)"
    using d by simp
  then show ?thesis unfolding e using chain_unlink [OF c]
    by (simp add: vchain_def linked_list_erase_end_def)
qed

lemma linked_list_destroy_chain:
  "vchain h root xs vs \<Longrightarrow> \<exists>h'. linked_list_destroy h root = Some h' \<and> (\<forall>x \<in> set xs. ll_value h' x = None) \<and>
     (\<forall>x. x \<notin> set xs \<longrightarrow> ll_value h' x = ll_value h x)"
proof (induction xs arbitrary: h root vs)
  case Nil
  then show ?case by (subst linked_list_destroy.simps) (simp add: vchain_def chain_def)
next
  case (Cons x xs)
  then obtain v ws where vs: "vs = v # ws" by (cases vs) (auto simp: vchain_def)
  have root: "root = Some x" using Cons.prems by (simp add: vchain_def chain_def)
  obtain root' h1 where h1: "linked_list_erase h root x = (root', h1)" "vchain h1 root' xs ws" "ll_value h1 x = None"
    using linked_list_erase_chain [of h root "[]" x xs "[]" v ws] Cons.prems vs by auto
  have fr: "ll_value h1 y = ll_value h y" if "y \<noteq> x" for y
    using h1(1) that by (auto simp: linked_list_erase_def linked_list_erase_end_def Let_def split: if_splits)
  obtain h2 where h2: "linked_list_destroy h1 root' = Some h2" "\<forall>y \<in> set xs. ll_value h2 y = None"
    "\<forall>y. y \<notin> set xs \<longrightarrow> ll_value h2 y = ll_value h1 y"
    using Cons.IH [OF h1(2)] by blast
  have "linked_list_destroy h root = Some h2"
    by (subst linked_list_destroy.simps) (use root h1(1) h2(1) in simp)
  then show ?case using h2 h1(3) fr by (intro exI [of _ h2]) auto
qed

section \<open>The contract the scheduler relies on\<close>

text \<open>
  A ring of nodes that are inserted next to a known node and removed without knowing a root.
\<close>

locale node_ring =
  fixes rep :: "'s \<Rightarrow> nat list \<Rightarrow> bool"
    and init :: "'s \<Rightarrow> nat \<Rightarrow> 's"
    and add :: "'s \<Rightarrow> nat \<Rightarrow> nat \<Rightarrow> 's"
    and del :: "'s \<Rightarrow> nat \<Rightarrow> 's"
  assumes init_rep: "rep (init s n) [n]"
    and add_rep: "rep s (l # ys) \<Longrightarrow> n \<notin> set (l # ys) \<Longrightarrow> rep (add s l n) (l # n # ys)"
    and del_rep: "rep s (n # y # zs) \<Longrightarrow> rep (del s n) (y # zs)"
    and rotate: "rep s (xs @ ys) \<Longrightarrow> rep s (ys @ xs)"
    and distinct_rep: "rep s xs \<Longrightarrow> distinct xs"
begin

text \<open>Inserting after the left neighbour of a node puts the new node last in its round.\<close>

lemma add_before:
  assumes "rep s (c # ys)" "n \<notin> set (c # ys)"
  shows "rep (add s (last (c # ys)) n) (c # ys @ [n])"
proof -
  let ?b = "butlast (c # ys)" and ?l = "last (c # ys)"
  have e: "?b @ [?l] = c # ys" by (rule append_butlast_last_id) simp
  have r: "rep s (?l # ?b)" using rotate [of s ?b "[?l]"] assms(1) unfolding e by simp
  have m: "set (?l # ?b) = set (c # ys)" using arg_cong [OF e, of set] by auto
  have "rep (add s ?l n) (?l # n # ?b)"
    by (rule add_rep [OF r]) (simp only: m assms(2) not_False_eq_True)
  then have "rep (add s ?l n) ((n # ?b) @ [?l])" using rotate [of "add s ?l n" "[?l]" "n # ?b"] by simp
  then have "rep (add s ?l n) ([n] @ c # ys)" using e by (metis append_Cons append_Nil)
  then show ?thesis using rotate [of "add s ?l n" "[n]" "c # ys"] by simp
qed

lemma at_front: "rep s xs \<Longrightarrow> x \<in> set xs \<Longrightarrow> \<exists>ys. rep s (x # ys) \<and> set (x # ys) = set xs \<and> length (x # ys) = length xs"
proof -
  assume r: "rep s xs" "x \<in> set xs"
  then obtain as bs where xs: "xs = as @ x # bs" by (meson split_list)
  then have "rep s ((x # bs) @ as)" using rotate r(1) by metis
  then show ?thesis using xs by (intro exI [of _ "bs @ as"]) auto
qed

text \<open>Removing a node that is not alone leaves exactly the others.\<close>

lemma del_any:
  assumes "rep s xs" "n \<in> set xs" "xs \<noteq> [n]"
  shows "\<exists>ys. rep (del s n) ys \<and> set ys = set xs - {n} \<and> length ys + 1 = length xs \<and> ys \<noteq> []"
proof -
  obtain zs where zs: "rep s (n # zs)" "set (n # zs) = set xs" "length (n # zs) = length xs"
    using at_front [OF assms(1,2)] by blast
  have d: "distinct (n # zs)" by (rule distinct_rep [OF zs(1)])
  have "zs \<noteq> []"
  proof
    assume "zs = []"
    then have "length xs = 1" "set xs = {n}" using zs by auto
    then show False using assms(3) by (cases xs) auto
  qed
  then obtain y ws where "zs = y # ws" by (cases zs) auto
  then have "rep (del s n) zs" using del_rep zs(1) by simp
  moreover have "set zs = set xs - {n}" using zs(2) d by auto
  moreover have "length zs + 1 = length xs" using zs(3) by simp
  ultimately show ?thesis using \<open>zs \<noteq> []\<close> by blast
qed

end

interpretation tq: node_ring ring list_init_root_cycle list_add list_erase_cycle
proof
  show "ring (list_init_root_cycle s n) [n]" for s n by (rule list_init_root_cycle_ring)
  show "ring (list_add s l n) (l # n # ys)" if "ring s (l # ys)" "n \<notin> set (l # ys)" for s l n ys
    using that by (rule list_add_ring)
  show "ring (list_erase_cycle s n) (y # zs)" if "ring s (n # y # zs)" for s n y zs
    using that by (rule list_erase_cycle_ring)
  show "ring s (ys @ xs)" if "ring s (xs @ ys)" for s xs ys using that ring_rotate by blast
  show "distinct xs" if "ring s xs" for s xs using that by (simp add: ring_def)
qed

end
