(* ===== verification/Ring_Queue.thy ===== *)
theory Ring_Queue
  imports Kernel_Prelude
begin

text \<open>
  \<^verbatim>\<open>src/src/lib/ring.c\<close>, \<^verbatim>\<open>ring.h\<close>: the single-producer single-consumer queue on a buffer of
  a power-of-two number of slots. The record \<open>ring_t\<close> is the C struct with the buffer's bytes in
  place of the pointer; a C function that updates \<open>*this\<close> returns the new record. The locale
  \<open>bounded_fifo\<close> is the contract the clients (interrupt worker, input streams, mouse) rely on;
  it is interpreted on the ring. The relation \<open>spsc_step\<close> interleaves the memory accesses of one
  producer and one consumer.
\<close>

unbundle bit_operations_syntax

section \<open>State and operations\<close>

record ring_t =
  rg_buffer :: bytes
  rg_size :: u32
  rg_elem :: u32
  rg_start :: u32
  rg_end :: u32

text \<open>
  \<open>ring_create\<close>: \<open>None\<close> is the \<open>NULL\<close> result. \<open>malloc(0)\<close> returns \<open>NULL\<close> in this kernel, and
  any other failure of \<open>malloc\<close> panics. \<open>junk\<close> is what the fresh block happens to contain.
\<close>

definition ring_create :: "(nat \<Rightarrow> u8) \<Rightarrow> u32 \<Rightarrow> u32 \<Rightarrow> ring_t option" where
  "ring_create junk size_of_element sz =
     (if sz \<le> 0 \<or> sz AND (sz - 1) \<noteq> 0 then None
      else if sz * size_of_element = 0 then None
      else Some \<lparr>rg_buffer = map junk [0..<unat (sz * size_of_element)], rg_size = sz,
                 rg_elem = size_of_element, rg_start = 0, rg_end = 0\<rparr>)"

definition ring_next :: "ring_t \<Rightarrow> u32 \<Rightarrow> u32" where
  "ring_next r idx = (idx + 1) AND (rg_size r - 1)"

definition ring_push_back :: "ring_t \<Rightarrow> bytes \<Rightarrow> (bool \<times> ring_t) res" where
  "ring_push_back r element =
     (let next = ring_next r (rg_end r) in
      if next = rg_start r then Inr (False, r)
      else rbind (buf_copy (rg_buffer r) (unat (rg_end r * rg_elem r)) element 0 (unat (rg_elem r)))
             (\<lambda>b. Inr (True, r\<lparr>rg_buffer := b, rg_end := next\<rparr>)))"

text \<open>The destination \<open>out\<close> may be \<open>NULL\<close>; the result carries it back.\<close>

definition ring_pop_front :: "ring_t \<Rightarrow> bytes option \<Rightarrow> (bool \<times> bytes option \<times> ring_t) res" where
  "ring_pop_front r out =
     (if rg_start r = rg_end r then Inr (False, out, r)
      else rbind (case out of
                    None \<Rightarrow> Inr None
                  | Some dst \<Rightarrow>
                      rbind (buf_copy dst 0 (rg_buffer r) (unat (rg_start r * rg_elem r)) (unat (rg_elem r)))
                        (\<lambda>d. Inr (Some d)))
             (\<lambda>out'. Inr (True, out', r\<lparr>rg_start := ring_next r (rg_start r)\<rparr>)))"

definition ring_count :: "ring_t \<Rightarrow> u32" where
  "ring_count r = (rg_end r - rg_start r) AND (rg_size r - 1)"

definition ring_full :: "ring_t \<Rightarrow> bool" where
  "ring_full r \<longleftrightarrow> ring_next r (rg_end r) = rg_start r"

definition ring_empty :: "ring_t \<Rightarrow> bool" where
  "ring_empty r \<longleftrightarrow> rg_start r = rg_end r"

section \<open>Invariant and the queue it stands for\<close>

definition ring_inv :: "ring_t \<Rightarrow> bool" where
  "ring_inv r \<longleftrightarrow> pow2w (rg_size r) \<and> 0 < unat (rg_elem r)
     \<and> length (rg_buffer r) = unat (rg_size r) * unat (rg_elem r)
     \<and> unat (rg_size r) * unat (rg_elem r) < 2 ^ 32
     \<and> rg_start r < rg_size r \<and> rg_end r < rg_size r"

definition ring_slots :: "ring_t \<Rightarrow> bytes list" where
  "ring_slots r = slots (unat (rg_elem r)) (unat (rg_size r)) (rg_buffer r)"

lemma length_ring_slots [simp]: "length (ring_slots r) = unat (rg_size r)"
  by (simp add: ring_slots_def)

definition ring_len :: "ring_t \<Rightarrow> nat" where
  "ring_len r = (unat (rg_end r) + (unat (rg_size r) - unat (rg_start r))) mod unat (rg_size r)"

definition ring_list :: "ring_t \<Rightarrow> bytes list" where
  "ring_list r = cyc (ring_slots r) (unat (rg_start r)) (ring_len r)"

definition ring_cap :: "ring_t \<Rightarrow> nat" where
  "ring_cap r = unat (rg_size r) - 1"

text \<open>Circular distance: the arithmetic behind \<open>ring_len\<close>.\<close>

lemma dist_Suc:
  fixes s e n :: nat
  assumes "s < n" "e < n" "Suc e mod n \<noteq> s"
  shows "(Suc e mod n + (n - s)) mod n = Suc ((e + (n - s)) mod n)"
  using assms by (cases "Suc e = n"; cases "s \<le> e") (auto simp: mod_if)

lemma dist_start_Suc:
  fixes s e n :: nat
  assumes "s < n" "e < n" "s \<noteq> e"
  shows "Suc ((e + (n - Suc s mod n)) mod n) = (e + (n - s)) mod n"
  using assms by (cases "Suc s = n"; cases "s < e") (auto simp: mod_if)

lemma dist_zero:
  fixes s e n :: nat
  assumes "s < n" "e < n"
  shows "(e + (n - s)) mod n = 0 \<longleftrightarrow> s = e"
  using assms by (cases "s \<le> e") (auto simp: mod_if)

lemma dist_full:
  fixes s e n :: nat
  assumes "s < n" "e < n"
  shows "Suc ((e + (n - s)) mod n) = n \<longleftrightarrow> Suc e mod n = s"
  using assms by (cases "Suc e = n"; cases "s \<le> e") (auto simp: mod_if)

lemma dist_end:
  fixes s e n :: nat
  assumes "s < n" "e < n"
  shows "(s + (e + (n - s)) mod n) mod n = e"
  using assms by (cases "s \<le> e") (auto simp: mod_if)

lemma ring_invD:
  assumes "ring_inv r"
  shows "unat (rg_start r) < unat (rg_size r)" "unat (rg_end r) < unat (rg_size r)"
    "pow2w (rg_size r)" "length (rg_buffer r) = unat (rg_size r) * unat (rg_elem r)"
    "0 < unat (rg_elem r)" "unat (rg_size r) * unat (rg_elem r) < 2 ^ 32"
  using assms by (simp_all add: ring_inv_def word_less_nat_alt)

lemma unat_mult_32: "unat x * unat y < 2 ^ 32 \<Longrightarrow> unat (x * y :: u32) = unat x * unat y"
  using unat_mult_lem [of x y] by simp

lemma unat_slot_off:
  assumes "unat n * unat es < 2 ^ 32" "unat i < unat (n :: u32)"
  shows "unat (i * es) = unat i * unat (es :: u32)"
proof -
  have "unat i * unat es \<le> unat n * unat es" using assms(2) by (intro mult_le_mono1) simp
  from le_less_trans [OF this assms(1)] have "unat i * unat es < 2 ^ LENGTH(32)" by simp
  then show ?thesis by (metis unat_mult_lem)
qed

lemma ring_len_le: "ring_inv r \<Longrightarrow> ring_len r < unat (rg_size r)"
  by (simp add: ring_len_def ring_inv_def)

lemma ring_empty_iff: "ring_inv r \<Longrightarrow> ring_empty r \<longleftrightarrow> ring_list r = []"
  using dist_zero [of "unat (rg_start r)" "unat (rg_size r)" "unat (rg_end r)"]
  by (auto simp: ring_empty_def ring_list_def ring_len_def cyc_def ring_invD word_unat_eq_iff)

lemma ring_next_unat:
  "ring_inv r \<Longrightarrow> unat (ring_next r i) = Suc (unat i) mod unat (rg_size r)"
  by (simp add: ring_next_def unat_succ_and_pow2 ring_invD(3))

lemma ring_full_iff: "ring_inv r \<Longrightarrow> ring_full r \<longleftrightarrow> length (ring_list r) = ring_cap r"
proof -
  assume r: "ring_inv r"
  have "ring_full r \<longleftrightarrow> Suc (ring_len r) = unat (rg_size r)"
    using dist_full [OF ring_invD(1,2) [OF r]]
    by (simp add: ring_full_def word_unat_eq_iff ring_next_unat r ring_len_def)
  also have "\<dots> \<longleftrightarrow> length (ring_list r) = ring_cap r"
    using ring_len_le [OF r] by (auto simp: ring_list_def ring_cap_def)
  finally show ?thesis .
qed

lemma ring_count_eq: "ring_inv r \<Longrightarrow> unat (ring_count r) = length (ring_list r)"
proof -
  assume r: "ring_inv r"
  note b = ring_invD [OF r]
  have "unat (rg_size r) dvd 2 ^ 32 - unat (rg_size r)"
    using unat_pow2_dvd [OF b(3)] by (simp add: dvd_diff_nat)
  then obtain q where q: "2 ^ 32 - unat (rg_size r) = unat (rg_size r) * q" ..
  have "2 ^ 32 - unat (rg_start r) = (unat (rg_size r) - unat (rg_start r)) + (2 ^ 32 - unat (rg_size r))"
    using b(1) unat_less_2p32 [of "rg_size r"] by linarith
  then have "(unat (rg_end r) + (2 ^ 32 - unat (rg_start r))) mod unat (rg_size r)
      = (unat (rg_end r) + (unat (rg_size r) - unat (rg_start r))) mod unat (rg_size r)"
    by (simp only: q add.assoc [symmetric] mod_mult_self2)
  then show ?thesis
    by (simp add: ring_count_def unat_diff_and_pow2 b(3) ring_list_def ring_len_def)
qed

section \<open>Functional behaviour\<close>

lemma ring_write_end:
  assumes r: "ring_inv r" and x: "length x = unat (rg_elem r)"
  shows "\<exists>b. buf_copy (rg_buffer r) (unat (rg_end r * rg_elem r)) x 0 (unat (rg_elem r)) = Inr b
     \<and> length b = length (rg_buffer r)
     \<and> slots (unat (rg_elem r)) (unat (rg_size r)) b = (ring_slots r)[unat (rg_end r) := x]"
proof -
  note b = ring_invD [OF r]
  have off: "unat (rg_end r * rg_elem r) = unat (rg_end r) * unat (rg_elem r)"
    by (rule unat_slot_off [OF b(6) b(2)])
  have fit: "unat (rg_end r) * unat (rg_elem r) + unat (rg_elem r) \<le> length (rg_buffer r)"
    by (rule slot_fits [OF b(2)]) (simp add: b(4))
  then have "buf_copy (rg_buffer r) (unat (rg_end r * rg_elem r)) x 0 (unat (rg_elem r)) =
      Inr (take (unat (rg_end r) * unat (rg_elem r)) (rg_buffer r) @ x @
           drop (unat (rg_end r) * unat (rg_elem r) + unat (rg_elem r)) (rg_buffer r))"
    by (simp add: buf_copy_ok off x)
  moreover have "slots (unat (rg_elem r)) (unat (rg_size r))
      (take (unat (rg_end r) * unat (rg_elem r)) (rg_buffer r) @ x @
           drop (unat (rg_end r) * unat (rg_elem r) + unat (rg_elem r)) (rg_buffer r))
      = (ring_slots r)[unat (rg_end r) := x]"
    unfolding ring_slots_def by (rule slots_write) (simp_all add: b x)
  ultimately show ?thesis using fit x by simp
qed

text \<open>Writing the slot at \<open>end\<close> does not touch the queued elements; publishing \<open>end\<close> appends it.\<close>

lemma ring_slot_invisible:
  assumes r: "ring_inv r" and b: "slots (unat (rg_elem r)) (unat (rg_size r)) b = (ring_slots r)[unat (rg_end r) := x]"
    and l: "length b = length (rg_buffer r)"
  shows "ring_inv (r\<lparr>rg_buffer := b\<rparr>)" "ring_list (r\<lparr>rg_buffer := b\<rparr>) = ring_list r"
    "ring_slots (r\<lparr>rg_buffer := b\<rparr>) = (ring_slots r)[unat (rg_end r) := x]"
proof -
  show "ring_inv (r\<lparr>rg_buffer := b\<rparr>)" using r l by (simp add: ring_inv_def)
  show sl: "ring_slots (r\<lparr>rg_buffer := b\<rparr>) = (ring_slots r)[unat (rg_end r) := x]"
    using b by (simp add: ring_slots_def)
  have e: "(unat (rg_start r) + ring_len r) mod unat (rg_size r) = unat (rg_end r)"
    unfolding ring_len_def by (rule dist_end [OF ring_invD(1,2) [OF r]])
  have "cyc ((ring_slots r)[(unat (rg_start r) + ring_len r) mod length (ring_slots r) := x])
          (unat (rg_start r)) (ring_len r) = cyc (ring_slots r) (unat (rg_start r)) (ring_len r)"
    by (rule cyc_update_outside) (simp_all add: ring_slots_def ring_len_le [OF r])
  moreover have "ring_len (r\<lparr>rg_buffer := b\<rparr>) = ring_len r" by (simp add: ring_len_def)
  ultimately show "ring_list (r\<lparr>rg_buffer := b\<rparr>) = ring_list r"
    by (simp add: ring_list_def sl e)
qed

lemma ring_publish:
  assumes r: "ring_inv r" and nf: "\<not> ring_full r"
  shows "ring_inv (r\<lparr>rg_end := ring_next r (rg_end r)\<rparr>)"
    "ring_list (r\<lparr>rg_end := ring_next r (rg_end r)\<rparr>) = ring_list r @ [ring_slots r ! unat (rg_end r)]"
proof -
  note b = ring_invD [OF r]
  have nx: "unat (ring_next r (rg_end r)) = Suc (unat (rg_end r)) mod unat (rg_size r)"
    by (rule ring_next_unat [OF r])
  then show "ring_inv (r\<lparr>rg_end := ring_next r (rg_end r)\<rparr>)"
    using r b(1) by (simp add: ring_inv_def word_less_nat_alt)
  have ne: "Suc (unat (rg_end r)) mod unat (rg_size r) \<noteq> unat (rg_start r)"
    using nf nx by (auto simp: ring_full_def word_unat_eq_iff)
  have "ring_len (r\<lparr>rg_end := ring_next r (rg_end r)\<rparr>) = Suc (ring_len r)"
    by (simp add: ring_len_def nx dist_Suc [OF b(1,2) ne])
  moreover have "(unat (rg_start r) + ring_len r) mod unat (rg_size r) = unat (rg_end r)"
    unfolding ring_len_def by (rule dist_end [OF b(1,2)])
  ultimately show "ring_list (r\<lparr>rg_end := ring_next r (rg_end r)\<rparr>)
      = ring_list r @ [ring_slots r ! unat (rg_end r)]"
    by (simp add: ring_list_def cyc_Suc_snoc ring_slots_def)
qed

lemma ring_advance:
  assumes r: "ring_inv r" and ne: "\<not> ring_empty r"
  shows "ring_inv (r\<lparr>rg_start := ring_next r (rg_start r)\<rparr>)"
    "ring_list r = ring_slots r ! unat (rg_start r) # ring_list (r\<lparr>rg_start := ring_next r (rg_start r)\<rparr>)"
proof -
  note b = ring_invD [OF r]
  have nx: "unat (ring_next r (rg_start r)) = Suc (unat (rg_start r)) mod unat (rg_size r)"
    by (rule ring_next_unat [OF r])
  then show "ring_inv (r\<lparr>rg_start := ring_next r (rg_start r)\<rparr>)"
    using r b(1) by (simp add: ring_inv_def word_less_nat_alt)
  have se: "unat (rg_start r) \<noteq> unat (rg_end r)" using ne by (auto simp: ring_empty_def word_unat_eq_iff)
  have len: "ring_len r = Suc (ring_len (r\<lparr>rg_start := ring_next r (rg_start r)\<rparr>))"
    by (simp add: ring_len_def nx dist_start_Suc [OF b(1,2) se])
  have "cyc (ring_slots r) (Suc (unat (rg_start r)) mod length (ring_slots r)) m
      = cyc (ring_slots r) (Suc (unat (rg_start r))) m" for m by (rule cyc_mod)
  then show "ring_list r = ring_slots r ! unat (rg_start r)
      # ring_list (r\<lparr>rg_start := ring_next r (rg_start r)\<rparr>)"
    unfolding ring_list_def len cyc_Suc by (simp add: nx b(1) ring_slots_def)
qed

lemma ring_push_back_full:
  "ring_inv r \<Longrightarrow> length (ring_list r) = ring_cap r \<Longrightarrow> ring_push_back r x = Inr (False, r)"
  using ring_full_iff [of r] by (simp add: ring_push_back_def ring_full_def)

lemma ring_push_back_room:
  assumes r: "ring_inv r" and room: "length (ring_list r) < ring_cap r" and x: "length x = unat (rg_elem r)"
  shows "\<exists>r'. ring_push_back r x = Inr (True, r') \<and> ring_inv r' \<and> ring_list r' = ring_list r @ [x]
    \<and> rg_size r' = rg_size r \<and> rg_elem r' = rg_elem r"
proof -
  obtain b where b: "buf_copy (rg_buffer r) (unat (rg_end r * rg_elem r)) x 0 (unat (rg_elem r)) = Inr b"
    "length b = length (rg_buffer r)"
    "slots (unat (rg_elem r)) (unat (rg_size r)) b = (ring_slots r)[unat (rg_end r) := x]"
    using ring_write_end [OF r x] by blast
  let ?r1 = "r\<lparr>rg_buffer := b\<rparr>"
  note v = ring_slot_invisible [OF r b(3,2)]
  have nf: "\<not> ring_full r" using room ring_full_iff [OF r] by simp
  then have nf1: "\<not> ring_full ?r1" by (simp add: ring_full_def ring_next_def)
  have "ring_push_back r x = Inr (True, ?r1\<lparr>rg_end := ring_next ?r1 (rg_end ?r1)\<rparr>)"
    using nf b(1) by (simp add: ring_push_back_def ring_full_def ring_next_def Let_def)
  moreover have "ring_slots ?r1 ! unat (rg_end r) = x"
    using v(3) ring_invD(2) [OF r] by simp
  ultimately show ?thesis using ring_publish [OF v(1) nf1] v(2) by simp
qed

lemma ring_pop_front_empty:
  "ring_inv r \<Longrightarrow> ring_list r = [] \<Longrightarrow> ring_pop_front r out = Inr (False, out, r)"
  using ring_empty_iff [of r] by (simp add: ring_pop_front_def ring_empty_def)

text \<open>What a successful pop leaves in the destination: its first bytes become the element.\<close>

definition ring_store :: "bytes option \<Rightarrow> bytes \<Rightarrow> bytes option" where
  "ring_store out x = map_option (\<lambda>d. x @ drop (length x) d) out"

definition ring_fits :: "ring_t \<Rightarrow> bytes option \<Rightarrow> bool" where
  "ring_fits r out \<longleftrightarrow> (case out of None \<Rightarrow> True | Some d \<Rightarrow> unat (rg_elem r) \<le> length d)"

lemma ring_pop_front_cons:
  assumes r: "ring_inv r" and xs: "ring_list r = x # xs" and out: "ring_fits r out"
  shows "\<exists>r'. ring_pop_front r out = Inr (True, ring_store out x, r') \<and> ring_inv r' \<and> ring_list r' = xs
    \<and> rg_size r' = rg_size r \<and> rg_elem r' = rg_elem r"
proof -
  note b = ring_invD [OF r]
  have ne: "\<not> ring_empty r" using xs ring_empty_iff [OF r] by simp
  note adv = ring_advance [OF r ne]
  have off: "unat (rg_start r * rg_elem r) = unat (rg_start r) * unat (rg_elem r)"
    by (rule unat_slot_off [OF b(6) b(1)])
  have fit: "unat (rg_start r) * unat (rg_elem r) + unat (rg_elem r) \<le> length (rg_buffer r)"
    by (rule slot_fits [OF b(1)]) (simp add: b(4))
  from adv(2) xs have x: "x = slot (unat (rg_elem r)) (rg_buffer r) (unat (rg_start r))"
    using b(1) by (simp add: ring_slots_def)
  have "rg_start r \<noteq> rg_end r" using ne by (simp add: ring_empty_def)
  then have "ring_pop_front r out
      = Inr (True, ring_store out x, r\<lparr>rg_start := ring_next r (rg_start r)\<rparr>)"
    using out fit b(1,4)
    by (simp add: ring_pop_front_def ring_store_def ring_fits_def buf_copy_ok off x slot_def
        split: option.splits)
  with adv xs show ?thesis by simp
qed

section \<open>The contract of a bounded queue\<close>

text \<open>
  \<open>fifo_feed\<close> pushes a list and panics when a push is refused, as \<open>int_worker_add\<close> does;
  \<open>fifo_drain\<close> is the loop \<open>while (!empty(q)) pop(q, &out)\<close> of the consumers, with fuel.
\<close>

fun fifo_feed :: "('q \<Rightarrow> 'e \<Rightarrow> (bool \<times> 'q) res) \<Rightarrow> 'q \<Rightarrow> 'e list \<Rightarrow> 'q res" where
  "fifo_feed push q [] = Inr q"
| "fifo_feed push q (x # xs) =
     rbind (push q x) (\<lambda>(ok, q'). if ok then fifo_feed push q' xs else Inl (Panic ''OVERFLOW''))"

fun fifo_drain ::
  "('q \<Rightarrow> bool) \<Rightarrow> ('q \<Rightarrow> 'o \<Rightarrow> (bool \<times> 'o \<times> 'q) res) \<Rightarrow> nat \<Rightarrow> 'q \<Rightarrow> 'o \<Rightarrow> ('o list \<times> 'q) res" where
  "fifo_drain is_empty pop 0 q out = (if is_empty q then Inr ([], q) else Inl (Undefined ''fuel''))"
| "fifo_drain is_empty pop (Suc n) q out =
     (if is_empty q then Inr ([], q)
      else rbind (pop q out) (\<lambda>(_, out', q').
             rbind (fifo_drain is_empty pop n q' out') (\<lambda>(outs, q''). Inr (out' # outs, q''))))"

locale bounded_fifo =
  fixes inv :: "'q \<Rightarrow> bool" and abs :: "'q \<Rightarrow> 'e list" and sh :: "'q \<Rightarrow> 's"
    and cap :: "'s \<Rightarrow> nat" and elem :: "'s \<Rightarrow> 'e \<Rightarrow> bool" and fits :: "'s \<Rightarrow> 'o \<Rightarrow> bool"
    and store :: "'o \<Rightarrow> 'e \<Rightarrow> 'o"
    and push :: "'q \<Rightarrow> 'e \<Rightarrow> (bool \<times> 'q) res" and pop :: "'q \<Rightarrow> 'o \<Rightarrow> (bool \<times> 'o \<times> 'q) res"
    and is_empty :: "'q \<Rightarrow> bool"
  assumes push_full: "inv q \<Longrightarrow> length (abs q) = cap (sh q) \<Longrightarrow> push q x = Inr (False, q)"
    and push_room: "inv q \<Longrightarrow> length (abs q) < cap (sh q) \<Longrightarrow> elem (sh q) x \<Longrightarrow>
      \<exists>q'. push q x = Inr (True, q') \<and> inv q' \<and> abs q' = abs q @ [x] \<and> sh q' = sh q"
    and pop_empty: "inv q \<Longrightarrow> abs q = [] \<Longrightarrow> pop q out = Inr (False, out, q)"
    and pop_cons: "inv q \<Longrightarrow> abs q = x # xs \<Longrightarrow> fits (sh q) out \<Longrightarrow>
      \<exists>q'. pop q out = Inr (True, store out x, q') \<and> inv q' \<and> abs q' = xs \<and> sh q' = sh q"
    and empty_iff: "inv q \<Longrightarrow> is_empty q \<longleftrightarrow> abs q = []"
    and within_cap: "inv q \<Longrightarrow> length (abs q) \<le> cap (sh q)"
    and elems: "inv q \<Longrightarrow> x \<in> set (abs q) \<Longrightarrow> elem (sh q) x"
    and fits_store: "fits t out \<Longrightarrow> elem t x \<Longrightarrow> fits t (store out x)"
    and store_store: "elem t x \<Longrightarrow> elem t y \<Longrightarrow> store (store out x) y = store out y"
begin

lemma feed_lossless:
  assumes "inv q" "length (abs q) + length xs \<le> cap (sh q)" "list_all (elem (sh q)) xs"
  shows "\<exists>q'. fifo_feed push q xs = Inr q' \<and> inv q' \<and> abs q' = abs q @ xs \<and> sh q' = sh q"
  using assms
proof (induction xs arbitrary: q)
  case (Cons x xs)
  then obtain q1 where "push q x = Inr (True, q1)" "inv q1" "abs q1 = abs q @ [x]" "sh q1 = sh q"
    using push_room [of q x] by auto
  with Cons.IH [of q1] Cons.prems show ?case by auto
qed simp

lemma feed_overflow:
  assumes "inv q" "cap (sh q) < length (abs q) + length xs" "list_all (elem (sh q)) xs"
  shows "fifo_feed push q xs = Inl (Panic ''OVERFLOW'')"
  using assms
proof (induction xs arbitrary: q)
  case Nil
  with within_cap [of q] show ?case by simp
next
  case (Cons x xs)
  show ?case
  proof (cases "length (abs q) = cap (sh q)")
    case True
    with Cons.prems show ?thesis by (simp add: push_full)
  next
    case False
    with within_cap [of q] Cons.prems obtain q1 where
      "push q x = Inr (True, q1)" "inv q1" "abs q1 = abs q @ [x]" "sh q1 = sh q"
      using push_room [of q x] by auto
    with Cons.IH [of q1] Cons.prems show ?thesis by auto
  qed
qed

lemma drain_in_order:
  assumes "inv q" "length (abs q) \<le> n" "fits (sh q) out"
  shows "\<exists>q'. fifo_drain is_empty pop n q out = Inr (map (store out) (abs q), q')
    \<and> inv q' \<and> abs q' = [] \<and> sh q' = sh q"
  using assms
proof (induction n arbitrary: q out)
  case 0
  then show ?case by (simp add: empty_iff)
next
  case (Suc n)
  show ?case
  proof (cases "abs q")
    case Nil
    with Suc.prems show ?thesis by (simp add: empty_iff)
  next
    case (Cons x xs)
    then obtain q1 where q1: "pop q out = Inr (True, store out x, q1)" "inv q1" "abs q1 = xs" "sh q1 = sh q"
      using pop_cons Suc.prems by blast
    have x: "elem (sh q) x" using elems [OF Suc.prems(1)] Cons by simp
    then have ss: "map (store (store out x)) xs = map (store out) xs"
      using elems [OF Suc.prems(1)] Cons by (auto intro: store_store)
    have "fits (sh q1) (store out x)" using fits_store [OF Suc.prems(3) x] q1(4) by simp
    then obtain q2 where "fifo_drain is_empty pop n q1 (store out x) = Inr (map (store (store out x)) xs, q2)"
      "inv q2" "abs q2 = []" "sh q2 = sh q"
      using Suc.IH [of q1 "store out x"] q1 Suc.prems Cons by auto
    with q1 Cons Suc.prems show ?thesis by (simp add: empty_iff ss)
  qed
qed

text \<open>Feeding and then draining hands out the old content followed by the new elements.\<close>

lemma feed_drain:
  assumes "inv q" "length (abs q) + length xs \<le> cap (sh q)" "list_all (elem (sh q)) xs" "fits (sh q) out"
  shows "\<exists>q' q''. fifo_feed push q xs = Inr q' \<and>
    fifo_drain is_empty pop (cap (sh q)) q' out = Inr (map (store out) (abs q @ xs), q'') \<and> abs q'' = []"
proof -
  obtain q' where q': "fifo_feed push q xs = Inr q'" "inv q'" "abs q' = abs q @ xs" "sh q' = sh q"
    using feed_lossless assms(1-3) by blast
  with drain_in_order [of q' "cap (sh q)" out] assms(2,4) show ?thesis by auto
qed

end

text \<open>The ring provides the contract.\<close>

definition ring_shape :: "ring_t \<Rightarrow> u32 \<times> u32" where
  "ring_shape r = (rg_size r, rg_elem r)"

definition ring_elem_ok :: "u32 \<times> u32 \<Rightarrow> bytes \<Rightarrow> bool" where
  "ring_elem_ok t x \<longleftrightarrow> length x = unat (snd t)"

definition ring_dst_ok :: "u32 \<times> u32 \<Rightarrow> bytes option \<Rightarrow> bool" where
  "ring_dst_ok t out \<longleftrightarrow> (case out of None \<Rightarrow> True | Some d \<Rightarrow> unat (snd t) \<le> length d)"

lemma ring_list_elems: "ring_inv r \<Longrightarrow> x \<in> set (ring_list r) \<Longrightarrow> length x = unat (rg_elem r)"
  by (auto simp: ring_list_def cyc_def ring_slots_def ring_invD
      intro!: length_slot [where n = "unat (rg_size r)"])

interpretation rq: bounded_fifo ring_inv ring_list ring_shape "\<lambda>t. unat (fst t) - 1" ring_elem_ok
  ring_dst_ok ring_store ring_push_back ring_pop_front ring_empty
proof (unfold_locales, goal_cases)
  case (1 q x) then show ?case
    by (simp add: ring_push_back_full ring_cap_def ring_shape_def)
next
  case (2 q x) then show ?case
    using ring_push_back_room [of q x] by (auto simp: ring_cap_def ring_shape_def ring_elem_ok_def)
next
  case (3 q out) then show ?case by (rule ring_pop_front_empty)
next
  case (4 q x xs out) then show ?case
    using ring_pop_front_cons [of q x xs out]
    by (auto simp: ring_shape_def ring_dst_ok_def ring_fits_def split: option.splits)
next
  case (5 q) then show ?case by (rule ring_empty_iff)
next
  case (6 q) then show ?case
    using ring_len_le [of q] by (simp add: ring_list_def ring_shape_def)
next
  case (7 q x) then show ?case by (simp add: ring_list_elems ring_elem_ok_def ring_shape_def)
qed (auto simp: ring_store_def ring_elem_ok_def ring_dst_ok_def option.map_comp comp_def split: option.splits)

section \<open>Construction\<close>

lemma ring_create_None_iff: "ring_create junk es sz = None \<longleftrightarrow> \<not> pow2w sz \<or> sz * es = 0"
  by (auto simp: ring_create_def pow2w_def)

lemma ring_create_inv:
  assumes "ring_create junk es sz = Some r" "unat sz * unat es < 2 ^ 32"
  shows "ring_inv r \<and> ring_list r = [] \<and> ring_shape r = (sz, es)"
proof -
  have "unat (sz * es) = unat sz * unat es"
    by (rule unat_mult_32 [OF assms(2)])
  then show ?thesis
    using assms by (auto simp: ring_create_def ring_inv_def pow2w_def ring_list_def ring_len_def
        ring_shape_def word_less_nat_alt unat_gt_0 split: if_splits)
qed

section \<open>One producer and one consumer, interleaved\<close>

text \<open>
  \<open>start\<close> is written by the consumer only and \<open>end\<close> by the producer only; both are \<open>volatile\<close>.
  Each step below is one access of the shared ring: the producer tests for room, copies the
  element into the slot at \<open>end\<close> and publishes \<open>end\<close>; the consumer tests for emptiness, copies
  the slot at \<open>start\<close> out and releases it. Steps of the two sides alternate arbitrarily.
  \<open>sp_sent\<close> and \<open>sp_recv\<close> record the published and the received elements.
\<close>

datatype prod_pc = P_Idle | P_Checked bytes | P_Written bytes

datatype cons_pc = C_Idle | C_Checked | C_Read bytes

record spsc_t =
  sp_ring :: ring_t
  sp_prod :: prod_pc
  sp_cons :: cons_pc
  sp_sent :: "bytes list"
  sp_recv :: "bytes list"

inductive spsc_step :: "spsc_t \<Rightarrow> spsc_t \<Rightarrow> bool" where
  push_refused: "sp_prod s = P_Idle \<Longrightarrow> ring_next (sp_ring s) (rg_end (sp_ring s)) = rg_start (sp_ring s) \<Longrightarrow>
    spsc_step s s"
| push_check: "sp_prod s = P_Idle \<Longrightarrow> ring_next (sp_ring s) (rg_end (sp_ring s)) \<noteq> rg_start (sp_ring s) \<Longrightarrow>
    length x = unat (rg_elem (sp_ring s)) \<Longrightarrow> spsc_step s (s\<lparr>sp_prod := P_Checked x\<rparr>)"
| push_copy: "sp_prod s = P_Checked x \<Longrightarrow>
    buf_copy (rg_buffer (sp_ring s)) (unat (rg_end (sp_ring s) * rg_elem (sp_ring s))) x 0
      (unat (rg_elem (sp_ring s))) = Inr b \<Longrightarrow>
    spsc_step s (s\<lparr>sp_ring := (sp_ring s)\<lparr>rg_buffer := b\<rparr>, sp_prod := P_Written x\<rparr>)"
| push_publish: "sp_prod s = P_Written x \<Longrightarrow>
    spsc_step s (s\<lparr>sp_ring := (sp_ring s)\<lparr>rg_end := ring_next (sp_ring s) (rg_end (sp_ring s))\<rparr>,
                  sp_prod := P_Idle, sp_sent := sp_sent s @ [x]\<rparr>)"
| pop_refused: "sp_cons s = C_Idle \<Longrightarrow> rg_start (sp_ring s) = rg_end (sp_ring s) \<Longrightarrow> spsc_step s s"
| pop_check: "sp_cons s = C_Idle \<Longrightarrow> rg_start (sp_ring s) \<noteq> rg_end (sp_ring s) \<Longrightarrow>
    spsc_step s (s\<lparr>sp_cons := C_Checked\<rparr>)"
| pop_copy: "sp_cons s = C_Checked \<Longrightarrow>
    buf_read (rg_buffer (sp_ring s)) (unat (rg_start (sp_ring s) * rg_elem (sp_ring s)))
      (unat (rg_elem (sp_ring s))) = Inr x \<Longrightarrow>
    spsc_step s (s\<lparr>sp_cons := C_Read x\<rparr>)"
| pop_release: "sp_cons s = C_Read x \<Longrightarrow>
    spsc_step s (s\<lparr>sp_ring := (sp_ring s)\<lparr>rg_start := ring_next (sp_ring s) (rg_start (sp_ring s))\<rparr>,
                  sp_cons := C_Idle, sp_recv := sp_recv s @ [x]\<rparr>)"

inductive spsc_reachable :: "ring_t \<Rightarrow> spsc_t \<Rightarrow> bool" for r where
  start: "spsc_reachable r \<lparr>sp_ring = r, sp_prod = P_Idle, sp_cons = C_Idle, sp_sent = [], sp_recv = []\<rparr>"
| step: "spsc_reachable r s \<Longrightarrow> spsc_step s t \<Longrightarrow> spsc_reachable r t"

definition spsc_inv :: "bytes list \<Rightarrow> spsc_t \<Rightarrow> bool" where
  "spsc_inv q0 s \<longleftrightarrow> ring_inv (sp_ring s) \<and> q0 @ sp_sent s = sp_recv s @ ring_list (sp_ring s)
     \<and> (case sp_prod s of P_Idle \<Rightarrow> True
        | P_Checked x \<Rightarrow> \<not> ring_full (sp_ring s) \<and> length x = unat (rg_elem (sp_ring s))
        | P_Written x \<Rightarrow> \<not> ring_full (sp_ring s) \<and> ring_slots (sp_ring s) ! unat (rg_end (sp_ring s)) = x)
     \<and> (case sp_cons s of C_Idle \<Rightarrow> True
        | C_Checked \<Rightarrow> \<not> ring_empty (sp_ring s)
        | C_Read x \<Rightarrow> \<not> ring_empty (sp_ring s) \<and> x = ring_slots (sp_ring s) ! unat (rg_start (sp_ring s)))"

text \<open>The two sides do not disturb each other's guards.\<close>

lemma ring_advance_not_full:
  assumes r: "ring_inv r" and ne: "\<not> ring_empty r"
  shows "\<not> ring_full (r\<lparr>rg_start := ring_next r (rg_start r)\<rparr>)"
proof -
  have "length (ring_list (r\<lparr>rg_start := ring_next r (rg_start r)\<rparr>)) < ring_cap r"
    using ring_advance [OF r ne] rq.within_cap [OF r]
    by (simp add: ring_cap_def ring_shape_def)
  with ring_full_iff [OF ring_advance(1) [OF r ne]] show ?thesis by (simp add: ring_cap_def)
qed

lemma ring_publish_not_empty:
  assumes r: "ring_inv r" and nf: "\<not> ring_full r"
  shows "\<not> ring_empty (r\<lparr>rg_end := ring_next r (rg_end r)\<rparr>)"
  using ring_publish [OF r nf] ring_empty_iff by (metis append_is_Nil_conv list.distinct(1))

lemma ring_start_end_slots:
  assumes "ring_inv r" "\<not> ring_empty r"
  shows "unat (rg_start r) \<noteq> unat (rg_end r)"
  using assms by (auto simp: ring_empty_def word_unat_eq_iff)

lemma ring_list_hd: "ring_inv r \<Longrightarrow> \<not> ring_empty r \<Longrightarrow>
  ring_list r = ring_slots r ! unat (rg_start r) # tl (ring_list r)"
  using ring_advance(2) by (metis list.sel(3))

lemma spsc_step_inv: "spsc_step s t \<Longrightarrow> spsc_inv q0 s \<Longrightarrow> spsc_inv q0 t"
proof (induction rule: spsc_step.induct)
  case (push_copy s x b)
  then have r: "ring_inv (sp_ring s)" and nf: "\<not> ring_full (sp_ring s)"
    and x: "length x = unat (rg_elem (sp_ring s))" by (simp_all add: spsc_inv_def)
  from ring_write_end [OF r x] push_copy(2) have b: "length b = length (rg_buffer (sp_ring s))"
    "slots (unat (rg_elem (sp_ring s))) (unat (rg_size (sp_ring s))) b
       = (ring_slots (sp_ring s))[unat (rg_end (sp_ring s)) := x]" by auto
  note v = ring_slot_invisible [OF r b(2,1)]
  have "(ring_slots (sp_ring s))[unat (rg_end (sp_ring s)) := x] ! unat (rg_end (sp_ring s)) = x"
    using ring_invD(2) [OF r] by simp
  moreover have "\<not> ring_empty (sp_ring s) \<Longrightarrow>
    (ring_slots (sp_ring s))[unat (rg_end (sp_ring s)) := x] ! unat (rg_start (sp_ring s))
      = ring_slots (sp_ring s) ! unat (rg_start (sp_ring s))"
    using ring_start_end_slots [OF r] by simp
  ultimately show ?case using push_copy(3) nf v
    by (auto simp: spsc_inv_def ring_full_def ring_empty_def ring_next_def split: cons_pc.splits)
next
  case (push_publish s x)
  then have r: "ring_inv (sp_ring s)" and nf: "\<not> ring_full (sp_ring s)" by (simp_all add: spsc_inv_def)
  from push_publish ring_publish [OF r nf] ring_publish_not_empty [OF r nf] show ?case
    by (auto simp: spsc_inv_def ring_slots_def split: cons_pc.splits)
next
  case (pop_copy s x)
  then have r: "ring_inv (sp_ring s)" and ne: "\<not> ring_empty (sp_ring s)" by (simp_all add: spsc_inv_def)
  note b = ring_invD [OF r]
  have "unat (rg_start (sp_ring s) * rg_elem (sp_ring s))
      = unat (rg_start (sp_ring s)) * unat (rg_elem (sp_ring s))"
    by (rule unat_slot_off [OF b(6) b(1)])
  moreover have "unat (rg_start (sp_ring s)) * unat (rg_elem (sp_ring s)) + unat (rg_elem (sp_ring s))
      \<le> length (rg_buffer (sp_ring s))" by (rule slot_fits [OF b(1)]) (simp add: b(4))
  ultimately have "x = slot (unat (rg_elem (sp_ring s))) (rg_buffer (sp_ring s)) (unat (rg_start (sp_ring s)))"
    using pop_copy(2) by (simp add: slot_def)
  with pop_copy(3) ne b(1) show ?case
    by (auto simp: spsc_inv_def ring_slots_def split: prod_pc.splits)
next
  case (pop_release s x)
  then have r: "ring_inv (sp_ring s)" and ne: "\<not> ring_empty (sp_ring s)" by (simp_all add: spsc_inv_def)
  from pop_release ring_advance [OF r ne] ring_advance_not_full [OF r ne] show ?case
    by (auto simp: spsc_inv_def ring_slots_def split: prod_pc.splits)
qed (auto simp: spsc_inv_def ring_full_def ring_empty_def split: prod_pc.splits cons_pc.splits)

lemma spsc_reachable_inv: "spsc_reachable r s \<Longrightarrow> ring_inv r \<Longrightarrow> spsc_inv (ring_list r) s"
proof (induction rule: spsc_reachable.induct)
  case start
  then show ?case by (simp add: spsc_inv_def)
next
  case (step s t)
  then show ?case by (blast intro: spsc_step_inv)
qed

text \<open>Run alone, the three producer steps are \<open>ring_push_back\<close>.\<close>

lemma spsc_push_sequential:
  assumes "sp_prod s = P_Idle" "length x = unat (rg_elem (sp_ring s))"
    "ring_push_back (sp_ring s) x = Inr (True, r')"
  shows "\<exists>s1 s2. spsc_step s s1 \<and> spsc_step s1 s2 \<and>
    spsc_step s2 (s\<lparr>sp_ring := r', sp_prod := P_Idle, sp_sent := sp_sent s @ [x]\<rparr>)"
proof -
  let ?r = "sp_ring s"
  obtain b where nf: "ring_next ?r (rg_end ?r) \<noteq> rg_start ?r"
    and b: "buf_copy (rg_buffer ?r) (unat (rg_end ?r * rg_elem ?r)) x 0 (unat (rg_elem ?r)) = Inr b"
    and r': "r' = ?r\<lparr>rg_buffer := b, rg_end := ring_next ?r (rg_end ?r)\<rparr>"
    using assms(3) by (auto simp: ring_push_back_def Let_def rbind_eq_Inr split: if_splits)
  let ?s1 = "s\<lparr>sp_prod := P_Checked x\<rparr>"
  let ?s2 = "?s1\<lparr>sp_ring := ?r\<lparr>rg_buffer := b\<rparr>, sp_prod := P_Written x\<rparr>"
  have "spsc_step s ?s1" by (rule spsc_step.push_check) (use assms nf in simp_all)
  moreover have "spsc_step ?s1 ?s2" using spsc_step.push_copy [of ?s1 x b] b by simp
  moreover have "spsc_step ?s2 (s\<lparr>sp_ring := r', sp_prod := P_Idle, sp_sent := sp_sent s @ [x]\<rparr>)"
    using spsc_step.push_publish [of ?s2 x] assms(1) by (simp add: r' ring_next_def)
  ultimately show ?thesis by blast
qed

section \<open>Properties\<close>

definition ring_ex :: ring_t where
  "ring_ex = \<lparr> rg_buffer = [10, 11, 12, 13], rg_size = 4, rg_elem = 1, rg_start = 2, rg_end = 0 \<rparr>"

lemma ring_ex_inv: "ring_inv ring_ex"
  by (simp add: ring_ex_def ring_inv_def pow2w_def word_less_nat_alt)

lemma ring_ex_list: "ring_list ring_ex = [[12], [13]]"
  by (simp add: ring_ex_def ring_list_def ring_slots_def ring_len_def slots_def slot_def cyc_def)

text \<open>pushing appends to the queue unless it holds \<open>size - 1\<close> elements, in which case the
  ring is unchanged and the push reports failure; the invariant is preserved.\<close>

lemma ring_push_refines:
  assumes "ring_inv r" "length x = unat (rg_elem r)"
  shows "\<exists>r'. ring_push_back r x = Inr (length (ring_list r) < ring_cap r, r') \<and> ring_inv r' \<and>
    ring_list r' = (if length (ring_list r) < ring_cap r then ring_list r @ [x] else ring_list r)"
  using ring_push_back_room [OF assms(1) _ assms(2)] ring_push_back_full [OF assms(1)]
    rq.within_cap [OF assms(1)] assms(1)
  by (cases "length (ring_list r) < ring_cap r") (auto simp: ring_cap_def ring_shape_def)

lemma ring_push_refines_witness:
  "\<exists>r'. ring_push_back ring_ex [7] = Inr (length (ring_list ring_ex) < ring_cap ring_ex, r') \<and> ring_inv r' \<and>
    ring_list r' = (if length (ring_list ring_ex) < ring_cap ring_ex then ring_list ring_ex @ [[7]]
      else ring_list ring_ex)"
  by (rule ring_push_refines) (simp_all add: ring_ex_inv, simp add: ring_ex_def)

text \<open>whatever fits is handed out exactly once and in order: feeding the elements \<open>xs\<close> to a
  ring and draining it returns the old content followed by \<open>xs\<close> and leaves the ring empty.\<close>

lemma ring_feed_drain:
  assumes "ring_inv r" "length (ring_list r) + length xs \<le> unat (rg_size r) - 1"
    and "list_all (\<lambda>x. length x = unat (rg_elem r)) xs"
  shows "\<exists>r' r''. fifo_feed ring_push_back r xs = Inr r' \<and>
    fifo_drain ring_empty ring_pop_front (unat (rg_size r) - 1) r' (Some (replicate (unat (rg_elem r)) 0)) =
      Inr (map Some (ring_list r @ xs), r'') \<and> ring_list r'' = []"
proof -
  let ?d = "Some (replicate (unat (rg_elem r)) (0 :: u8))"
  obtain r' r'' where R: "fifo_feed ring_push_back r xs = Inr r'" "ring_list r'' = []"
    "fifo_drain ring_empty ring_pop_front (unat (rg_size r) - 1) r' ?d =
      Inr (map (ring_store ?d) (ring_list r @ xs), r'')"
  proof -
    have "list_all (ring_elem_ok (ring_shape r)) xs"
      using assms(3) by (simp add: list_all_iff ring_elem_ok_def ring_shape_def)
    then show ?thesis using rq.feed_drain [of r xs ?d] assms(1,2) that
      by (auto simp: ring_shape_def ring_dst_ok_def)
  qed
  have "ring_store ?d x = Some x" if "x \<in> set (ring_list r @ xs)" for x
    using that assms(3) ring_list_elems [OF assms(1)] by (auto simp: ring_store_def list_all_iff)
  then have "map (ring_store ?d) (ring_list r @ xs) = map Some (ring_list r @ xs)"
    by (intro map_cong) auto
  then show ?thesis using R by auto
qed

lemma ring_feed_drain_witness:
  "\<exists>r' r''. fifo_feed ring_push_back ring_ex [[7]] = Inr r' \<and>
    fifo_drain ring_empty ring_pop_front (unat (rg_size ring_ex) - 1) r' (Some (replicate (unat (rg_elem ring_ex)) 0)) =
      Inr (map Some (ring_list ring_ex @ [[7]]), r'') \<and> ring_list r'' = []"
  by (rule ring_feed_drain) (simp_all add: ring_ex_inv ring_ex_list, simp_all add: ring_ex_def)


definition spsc_ex :: spsc_t where
  "spsc_ex = \<lparr> sp_ring = ring_ex\<lparr> rg_start := 3 \<rparr>, sp_prod = P_Checked [7], sp_cons = C_Idle,
     sp_sent = [], sp_recv = [[12]] \<rparr>"

lemma spsc_ex_reachable: "spsc_reachable ring_ex spsc_ex"
proof -
  define s0 where "s0 = \<lparr> sp_ring = ring_ex, sp_prod = P_Idle, sp_cons = C_Idle, sp_sent = [], sp_recv = [] \<rparr>"
  let ?s1 = "s0\<lparr> sp_cons := C_Checked \<rparr>"
  let ?s2 = "?s1\<lparr> sp_prod := P_Checked [7] \<rparr>"
  let ?s3 = "?s2\<lparr> sp_cons := C_Read [12] \<rparr>"
  have "spsc_reachable ring_ex s0" unfolding s0_def by (rule spsc_reachable.start)
  moreover have "spsc_step s0 ?s1" by (rule spsc_step.pop_check) (simp_all add: s0_def ring_ex_def)
  moreover have "spsc_step ?s1 ?s2"
    by (rule spsc_step.push_check) (simp_all add: s0_def ring_ex_def ring_next_def)
  moreover have "spsc_step ?s2 ?s3"
    by (rule spsc_step.pop_copy) (simp_all add: s0_def ring_ex_def buf_read_def)
  moreover have "spsc_step ?s3 spsc_ex"
    using spsc_step.pop_release [of ?s3 "[12]"] by (simp add: s0_def spsc_ex_def ring_ex_def ring_next_def)
  ultimately show ?thesis by (blast intro: spsc_reachable.step)
qed


end
