(* ===== verification/Task_State.thy ===== *)
theory Task_State
  imports Bitmap_Alloc Linked_Lists Ring_Queue
begin

text \<open>
  The state shared by \<^verbatim>\<open>kernel/sched\<close> and \<^verbatim>\<open>kernel/input_manager.c\<close>, the scheduler
  \<^verbatim>\<open>sched.c\<close>, and the task switching part of \<^verbatim>\<open>task.c\<close>.  A \<open>task_t *\<close> is the index of the task
  in \<open>tasks\<close>, \<open>None\<close> is \<open>NULL\<close>; the scheduler's list nodes have the indices as their addresses.
  The results of \<open>timer_get_time\<close> (\<open>now\<close>) and the stack pointer an interrupt saves (\<open>esp\<close>) are
  arguments; calls into other components are recorded in a log.
\<close>

unbundle bit_operations_syntax

section \<open>State\<close>

datatype task_state_t =
  TASK_TERMINATED | TASK_RUNNING | TASK_READY | TASK_SLEEPING | TASK_WAITING

text \<open>\<open>t_frame\<close> is what creation writes to the top of the kernel stack, from \<open>esp\<close> upwards.\<close>

record task_t =
  t_pid :: u32
  t_esp :: u32
  t_ebp :: u32
  t_eip :: u32
  t_stack_start :: u32
  t_stack_size :: u32
  t_page_dict :: nat
  t_state :: task_state_t
  t_activation :: u32
  t_input_sids :: "nat \<Rightarrow> u32"
  t_fpu :: nat
  t_brk_start :: u32
  t_brk :: u32
  t_brk_end :: u32
  t_mmap_next :: u32
  t_frame :: "u32 list"

record input_stream_t =
  is_queue :: "ring_t option"
  is_event :: "nat option"
  is_ref :: u32
  is_flags :: u32

datatype kcall =
    Switch_Page_Dict nat nat
  | Destroy_Page_Dict nat
  | Free_Stack u32
  | Free_Fpu nat
  | Fpu_Save nat
  | Fpu_Restore nat
  | Input_Ring_Full nat nat u32

text \<open>
  \<open>ks_events\<close>: the allocated \<open>task_event_t\<close> objects and their \<open>front\<close>; \<open>ks_ll\<close>: the nodes of
  their lists, whose values are process ids.
\<close>

record kstate =
  ks_tasks :: "nat \<Rightarrow> task_t"
  ks_links :: node_links
  ks_used :: bitmap_t
  ks_pr_id :: u32
  ks_count :: u32
  ks_current :: "nat option"
  ks_kernel :: "nat option"
  ks_lazy :: "nat option"
  ks_skipped :: bool
  ks_locked :: u32
  ks_resched :: u32
  ks_destroy :: "nat option"
  ks_prev_time :: u32
  ks_esp0 :: u32
  ks_ll :: linked_list_heap
  ks_events :: "nat \<Rightarrow> nat option option"
  ks_elem :: "nat \<Rightarrow> u32"
  ks_streams :: "nat \<Rightarrow> nat \<Rightarrow> input_stream_t"
  ks_last_warn :: u32
  ks_dropped :: u32
  ks_log :: "kcall list"

definition deref :: "nat option \<Rightarrow> nat res" where
  "deref p = (case p of None \<Rightarrow> Inl (Undefined ''NULL dereference'') | Some t \<Rightarrow> Inr t)"

definition klog :: "kcall \<Rightarrow> kstate \<Rightarrow> kstate" where
  "klog c s = s\<lparr> ks_log := ks_log s @ [c] \<rparr>"

definition upd_task :: "nat \<Rightarrow> (task_t \<Rightarrow> task_t) \<Rightarrow> kstate \<Rightarrow> kstate" where
  "upd_task t f s = s\<lparr> ks_tasks := (ks_tasks s)(t := f (ks_tasks s t)) \<rparr>"

section \<open>\<^verbatim>\<open>sched.c\<close>\<close>

definition sched_task_set_state :: "nat \<Rightarrow> task_state_t \<Rightarrow> kstate \<Rightarrow> kstate" where
  "sched_task_set_state t st s = upd_task t (\<lambda>x. x\<lparr> t_state := st \<rparr>) s"

definition sched_task_get_state :: "nat \<Rightarrow> kstate \<Rightarrow> task_state_t" where
  "sched_task_get_state t s = t_state (ks_tasks s t)"

definition tasks_erase :: "u32 \<Rightarrow> kstate \<Rightarrow> kstate res" where
  "tasks_erase pid s = rbind (bitmap_clear_bit (ks_used s) pid) (\<lambda>b. Inr (s\<lparr> ks_used := b \<rparr>))"

definition tasks_erase_task :: "nat \<Rightarrow> kstate \<Rightarrow> kstate res" where
  "tasks_erase_task t s = tasks_erase (t_pid (ks_tasks s t)) s"

definition proc_task_state :: "nat \<Rightarrow> u32 \<Rightarrow> kstate \<Rightarrow> kstate res" where
  "proc_task_state t time_milisec s =
     (if Some t = ks_lazy s then Inr (sched_task_set_state t TASK_WAITING s)
      else case sched_task_get_state t s of
        TASK_SLEEPING \<Rightarrow>
          Inr (if time_milisec \<ge> t_activation (ks_tasks s t) then sched_task_set_state t TASK_READY s else s)
      | TASK_TERMINATED \<Rightarrow> tasks_erase_task t s
      | _ \<Rightarrow> Inr s)"

text \<open>The \<open>do\<close> loop; \<open>None\<close> is a walk that never comes back to \<open>curr_task\<close>.\<close>

partial_function (option) sched_next_loop :: "u32 \<Rightarrow> nat \<Rightarrow> nat \<Rightarrow> kstate \<Rightarrow> (nat option \<times> kstate) lres" where
  [code]: "sched_next_loop now cur n s =
     (case lright (ks_links s n) of
        None \<Rightarrow> Some (Inl (Undefined ''NULL dereference''))
      | Some t \<Rightarrow>
          (case proc_task_state t now s of
             Inl e \<Rightarrow> Some (Inl e)
           | Inr s \<Rightarrow>
               if sched_task_get_state t s = TASK_READY \<or> sched_task_get_state t s = TASK_RUNNING
               then Some (Inr (Some t, s))
               else if t \<noteq> cur then sched_next_loop now cur t s
               else Some (Inr (ks_lazy s, s))))"

definition sched_task_get_next :: "u32 \<Rightarrow> nat \<Rightarrow> kstate \<Rightarrow> (nat option \<times> kstate) lres" where
  "sched_task_get_next now cur s = sched_next_loop now cur cur s"

definition sched_task_erase :: "nat \<Rightarrow> kstate \<Rightarrow> kstate" where
  "sched_task_erase t s = s\<lparr> ks_links := list_erase_cycle (ks_links s) t \<rparr>"

definition sched_task_add_first :: "nat \<Rightarrow> kstate \<Rightarrow> kstate" where
  "sched_task_add_first t s = s\<lparr> ks_links := list_init_root_cycle (ks_links s) t \<rparr>"

definition sched_task_add_new :: "nat \<Rightarrow> kstate \<Rightarrow> kstate res" where
  "sched_task_add_new t s =
     rbind (deref (ks_current s)) (\<lambda>c. rbind (deref (lleft (ks_links s c))) (\<lambda>l.
     Inr (s\<lparr> ks_links := list_add (ks_links s) l t \<rparr>)))"

section \<open>Switching\<close>

definition STACK_TOP :: "task_t \<Rightarrow> u32" where
  "STACK_TOP t = t_stack_start t + t_stack_size t"

definition task_set_current :: "nat \<Rightarrow> kstate \<Rightarrow> kstate" where
  "task_set_current t s = s\<lparr> ks_current := Some t \<rparr>"

definition task_switch_prepare_state :: "nat \<Rightarrow> nat \<Rightarrow> kstate \<Rightarrow> kstate" where
  "task_switch_prepare_state prev next s =
     sched_task_set_state next TASK_RUNNING
       (if sched_task_get_state prev s = TASK_RUNNING then sched_task_set_state prev TASK_READY s else s)"

definition task_switch_prepare :: "u32 \<Rightarrow> kstate \<Rightarrow> kstate lres" where
  "task_switch_prepare now s =
     lbind (Some (deref (ks_current s))) (\<lambda>cur.
     lbind (sched_task_get_next now cur s) (\<lambda>(next, s).
     lbind (Some (deref next)) (\<lambda>next.
     let s = klog (Switch_Page_Dict (t_page_dict (ks_tasks s cur)) (t_page_dict (ks_tasks s next))) s;
         s = s\<lparr> ks_esp0 := STACK_TOP (ks_tasks s next) \<rparr>;
         s = klog (Fpu_Save (t_fpu (ks_tasks s cur))) s;
         s = task_switch_prepare_state cur next s
     in Some (Inr (task_set_current next s)))))"

definition task_switch_finish :: "kstate \<Rightarrow> kstate res" where
  "task_switch_finish s =
     rbind (deref (ks_current s)) (\<lambda>c. Inr (klog (Fpu_Restore (t_fpu (ks_tasks s c))) s))"

text \<open>\<open>int $0x30\<close>: the handler saves the stack pointer, then switches.\<close>

definition task_yield :: "u32 \<Rightarrow> u32 \<Rightarrow> kstate \<Rightarrow> kstate lres" where
  "task_yield esp now s =
     lbind (Some (deref (ks_current s))) (\<lambda>c.
     lbind (task_switch_prepare now (upd_task c (\<lambda>x. x\<lparr> t_esp := esp \<rparr>) s)) (\<lambda>s.
     Some (task_switch_finish s)))"

definition task_sleep :: "u32 \<Rightarrow> u32 \<Rightarrow> u32 \<Rightarrow> kstate \<Rightarrow> kstate lres" where
  "task_sleep esp now time_milisec s =
     lbind (Some (deref (ks_current s))) (\<lambda>c.
     let s = sched_task_set_state c TASK_SLEEPING s;
         s = upd_task c (\<lambda>x. x\<lparr> t_activation := now + time_milisec \<rparr>) s
     in task_yield esp now s)"

section \<open>The task lock and the tick\<close>

definition task_lock :: "kstate \<Rightarrow> kstate" where
  "task_lock s = s\<lparr> ks_locked := ks_locked s + 1 \<rparr>"

definition task_unlock :: "u32 \<Rightarrow> u32 \<Rightarrow> kstate \<Rightarrow> kstate lres" where
  "task_unlock esp now s =
     (let s = s\<lparr> ks_locked := ks_locked s - 1 \<rparr> in
      if ks_locked s = 0 \<and> ks_skipped s then task_yield esp now s else Some (Inr s))"

text \<open>\<open>TASK_LOCKED_FUNCTION\<close>: the lock is released when the function returns.\<close>

definition TASK_LOCKED :: "u32 \<Rightarrow> u32 \<Rightarrow> (kstate \<Rightarrow> ('a \<times> kstate) lres) \<Rightarrow> kstate \<Rightarrow> ('a \<times> kstate) lres" where
  "TASK_LOCKED esp now f s =
     lbind (f (task_lock s)) (\<lambda>(r, s). lbind (task_unlock esp now s) (\<lambda>s. Some (Inr (r, s))))"

definition TASK_AUTO_SWITCH_FREQ :: u32 where "TASK_AUTO_SWITCH_FREQ = 100"

definition tasks_tick :: "u32 \<Rightarrow> u32 \<Rightarrow> kstate \<Rightarrow> kstate lres" where
  "tasks_tick now time_milisec s =
     (if (time_milisec - ks_prev_time s) * TASK_AUTO_SWITCH_FREQ div 1000 = 0 then Some (Inr s)
      else
        let s = s\<lparr> ks_prev_time := time_milisec \<rparr> in
        if ks_locked s \<noteq> 0 then Some (Inr (s\<lparr> ks_skipped := True \<rparr>))
        else
          lbind (Some (deref (ks_current s))) (\<lambda>cur.
          lbind (sched_task_get_next now cur s) (\<lambda>(next, s).
          Some (Inr (if next \<noteq> Some cur then s\<lparr> ks_resched := 1 \<rparr> else s)))))"

definition task_set_state_waiting :: "u32 \<Rightarrow> kstate \<Rightarrow> kstate" where
  "task_set_state_waiting pid s = sched_task_set_state (unat pid) TASK_WAITING s"

definition task_set_state_ready :: "u32 \<Rightarrow> kstate \<Rightarrow> kstate" where
  "task_set_state_ready pid s = sched_task_set_state (unat pid) TASK_READY s"

end
