(* ===== verification/Task_Event.thy ===== *)
theory Task_Event
  imports Task_State
begin

text \<open>
  \<^verbatim>\<open>kernel/sched/task_event.c\<close> and \<^verbatim>\<open>kernel/input_manager.c\<close>: the lists of tasks waiting for
  an event, and the input streams, each a ring of input elements with such an event.  \<open>new\<close> is the
  address a call of \<open>malloc\<close> returns, \<open>junk\<close> the content of the ring's new buffer.
\<close>

unbundle bit_operations_syntax

section \<open>Events\<close>

definition task_event_create :: "nat \<Rightarrow> kstate \<Rightarrow> kstate" where
  "task_event_create new s = s\<lparr> ks_events := (ks_events s)(new := Some None) \<rparr>"

definition event_front :: "nat \<Rightarrow> kstate \<Rightarrow> nat option res" where
  "event_front ev s = (case ks_events s ev of
     None \<Rightarrow> Inl (Undefined ''use after free'') | Some front \<Rightarrow> Inr front)"

definition set_event :: "nat \<Rightarrow> nat option \<times> linked_list_heap \<Rightarrow> kstate \<Rightarrow> kstate" where
  "set_event ev = (\<lambda>(front, h) s. s\<lparr> ks_events := (ks_events s)(ev := Some front), ks_ll := h \<rparr>)"

text \<open>\<open>*(uint32_t * )node->value\<close>\<close>

definition node_pid :: "nat \<Rightarrow> kstate \<Rightarrow> u32 res" where
  "node_pid n s = (case ll_value (ks_ll s) n of
     None \<Rightarrow> Inl (Undefined ''use after free'')
   | Some v \<Rightarrow> if 4 \<le> length v then Inr (get32 v 0) else Inl Out_Of_Bounds)"

definition task_event_add :: "u32 \<Rightarrow> u32 \<Rightarrow> nat \<Rightarrow> nat \<Rightarrow> u32 \<Rightarrow> kstate \<Rightarrow> (unit \<times> kstate) lres" where
  "task_event_add esp now new ev pid = TASK_LOCKED esp now (\<lambda>s.
     let s = sched_task_set_state (unat pid) TASK_WAITING s in
     lbind (Some (event_front ev s)) (\<lambda>front.
     Some (Inr ((), set_event ev (linked_list_add_begin (ks_ll s) front new (put32 pid)) s))))"

partial_function (option) event_flush_loop :: "nat \<Rightarrow> kstate \<Rightarrow> (unit \<times> kstate) lres" where
  [code]: "event_flush_loop ev s =
     (case event_front ev s of
        Inl e \<Rightarrow> Some (Inl e)
      | Inr None \<Rightarrow> Some (Inr ((), s))
      | Inr (Some n) \<Rightarrow>
          (case node_pid n s of
             Inl e \<Rightarrow> Some (Inl e)
           | Inr pid \<Rightarrow>
               let s = sched_task_set_state (unat pid) TASK_READY s
               in event_flush_loop ev (set_event ev (linked_list_erase (ks_ll s) (Some n) n) s)))"

definition task_event_flush :: "u32 \<Rightarrow> u32 \<Rightarrow> nat \<Rightarrow> kstate \<Rightarrow> (unit \<times> kstate) lres" where
  "task_event_flush esp now ev = TASK_LOCKED esp now (event_flush_loop ev)"

definition task_event_destroy :: "u32 \<Rightarrow> u32 \<Rightarrow> nat \<Rightarrow> kstate \<Rightarrow> (unit \<times> kstate) lres" where
  "task_event_destroy esp now ev = TASK_LOCKED esp now (\<lambda>s.
     lbind (Some (event_front ev s)) (\<lambda>front.
     case linked_list_destroy (ks_ll s) front of
       None \<Rightarrow> None
     | Some h \<Rightarrow> Some (Inr ((), s\<lparr> ks_ll := h, ks_events := (ks_events s)(ev := None) \<rparr>))))"

partial_function (option) event_erase_loop :: "nat \<Rightarrow> u32 \<Rightarrow> nat option \<Rightarrow> kstate \<Rightarrow> (unit \<times> kstate) lres" where
  [code]: "event_erase_loop ev pid cur s =
     (case cur of
        None \<Rightarrow> Some (Inr ((), s))
      | Some n \<Rightarrow>
          (case node_pid n s of
             Inl e \<Rightarrow> Some (Inl e)
           | Inr p \<Rightarrow>
               if p = pid then
                 lbind (Some (event_front ev s)) (\<lambda>front.
                 Some (Inr ((), set_event ev (linked_list_erase (ks_ll s) front n) s)))
               else event_erase_loop ev pid (lright (ll_links (ks_ll s) n)) s))"

definition task_event_erase :: "u32 \<Rightarrow> u32 \<Rightarrow> nat \<Rightarrow> u32 \<Rightarrow> kstate \<Rightarrow> (unit \<times> kstate) lres" where
  "task_event_erase esp now ev pid = TASK_LOCKED esp now (\<lambda>s.
     lbind (Some (event_front ev s)) (\<lambda>front. event_erase_loop ev pid front s))"

section \<open>Input streams\<close>

definition INPUT_STREAMS :: nat where "INPUT_STREAMS = 32"
definition INPUT_CHANNELS :: nat where "INPUT_CHANNELS = 4"
definition INPUT_QUEUE_SIZE :: u32 where "INPUT_QUEUE_SIZE = 64"
definition IS_FLAG_ACTIVE :: u32 where "IS_FLAG_ACTIVE = 1"

definition upd_stream :: "nat \<Rightarrow> nat \<Rightarrow> (input_stream_t \<Rightarrow> input_stream_t) \<Rightarrow> kstate \<Rightarrow> kstate" where
  "upd_stream ch sid f s = s\<lparr> ks_streams := (ks_streams s)(ch := (ks_streams s ch)(sid := f (ks_streams s ch sid))) \<rparr>"

definition stream_active :: "nat \<Rightarrow> nat \<Rightarrow> kstate \<Rightarrow> bool" where
  "stream_active ch sid s = (is_flags (ks_streams s ch sid) AND IS_FLAG_ACTIVE \<noteq> 0)"

text \<open>\<open>-1\<close> is \<open>None\<close>.\<close>

definition find_free_stream :: "nat \<Rightarrow> kstate \<Rightarrow> nat option" where
  "find_free_stream ch s = find (\<lambda>i. \<not> stream_active ch i s) [0..<INPUT_STREAMS]"

definition input_stream_destroy :: "u32 \<Rightarrow> u32 \<Rightarrow> nat \<Rightarrow> nat \<Rightarrow> kstate \<Rightarrow> (unit \<times> kstate) lres" where
  "input_stream_destroy esp now ch sid s =
     (let s = upd_stream ch sid (\<lambda>x. x\<lparr> is_queue := None \<rparr>) s in
      lbind (case is_event (ks_streams s ch sid) of
               None \<Rightarrow> Some (Inr ((), s))
             | Some ev \<Rightarrow>
                 lbind (task_event_destroy esp now ev s) (\<lambda>(_, s).
                 Some (Inr ((), upd_stream ch sid (\<lambda>x. x\<lparr> is_event := None \<rparr>) s)))) (\<lambda>(_, s).
      Some (Inr ((), upd_stream ch sid (\<lambda>x. x\<lparr> is_flags := 0, is_ref := 0 \<rparr>) s))))"

definition input_stream_init_default ::
    "(nat \<Rightarrow> u8) \<Rightarrow> u32 \<Rightarrow> u32 \<Rightarrow> nat \<Rightarrow> nat \<Rightarrow> nat \<Rightarrow> kstate \<Rightarrow> (unit \<times> kstate) lres" where
  "input_stream_init_default junk esp now new ch sid s =
     lbind (if stream_active ch sid s then input_stream_destroy esp now ch sid s else Some (Inr ((), s))) (\<lambda>(_, s).
     let s = upd_stream ch sid (\<lambda>x. x\<lparr> is_queue := ring_create junk (ks_elem s ch) INPUT_QUEUE_SIZE \<rparr>) s;
         s = task_event_create new s
     in Some (Inr ((), upd_stream ch sid (\<lambda>x. x\<lparr> is_event := Some new, is_ref := 0, is_flags := IS_FLAG_ACTIVE \<rparr>) s)))"

definition input_stream_get_or_create ::
    "(nat \<Rightarrow> u8) \<Rightarrow> u32 \<Rightarrow> u32 \<Rightarrow> nat \<Rightarrow> nat \<Rightarrow> nat \<Rightarrow> kstate \<Rightarrow> (unit \<times> kstate) lres" where
  "input_stream_get_or_create junk esp now new ch sid s =
     (if \<not> stream_active ch sid s then input_stream_init_default junk esp now new ch sid s
      else Some (Inr ((), s)))"

text \<open>\<open>sizes\<close> is the table of element sizes, zero for the two channels it does not name.\<close>

definition input_manager_init :: "(nat \<Rightarrow> u32) \<Rightarrow> kstate \<Rightarrow> kstate" where
  "input_manager_init sizes s = s\<lparr> ks_elem := sizes,
     ks_streams := (\<lambda>_ _. \<lparr> is_queue = None, is_event = None, is_ref = 0, is_flags = 0 \<rparr>) \<rparr>"

definition input_manager_register_to_stream ::
    "(nat \<Rightarrow> u8) \<Rightarrow> u32 \<Rightarrow> u32 \<Rightarrow> nat \<Rightarrow> nat \<Rightarrow> nat \<Rightarrow> kstate \<Rightarrow> (unit \<times> kstate) lres" where
  "input_manager_register_to_stream junk esp now new ch sid = TASK_LOCKED esp now (\<lambda>s.
     lbind (input_stream_get_or_create junk esp now new ch sid s) (\<lambda>(_, s).
     Some (Inr ((), upd_stream ch sid (\<lambda>x. x\<lparr> is_ref := is_ref x + 1 \<rparr>) s))))"

definition input_manager_register_to_new_stream ::
    "(nat \<Rightarrow> u8) \<Rightarrow> u32 \<Rightarrow> u32 \<Rightarrow> nat \<Rightarrow> nat \<Rightarrow> kstate \<Rightarrow> (u32 \<times> kstate) lres" where
  "input_manager_register_to_new_stream junk esp now new ch = TASK_LOCKED esp now (\<lambda>s.
     case find_free_stream ch s of
       None \<Rightarrow> Some (Inr (- 1, s))
     | Some sid \<Rightarrow>
         lbind (input_stream_init_default junk esp now new ch sid s) (\<lambda>(_, s).
         lbind (input_manager_register_to_stream junk esp now new ch sid s) (\<lambda>(_, s).
         Some (Inr (of_nat sid, s)))))"

definition input_manager_unregister_from_stream ::
    "u32 \<Rightarrow> u32 \<Rightarrow> nat \<Rightarrow> nat \<Rightarrow> u32 \<Rightarrow> kstate \<Rightarrow> (unit \<times> kstate) lres" where
  "input_manager_unregister_from_stream esp now ch sid pid = TASK_LOCKED esp now (\<lambda>s.
     if \<not> stream_active ch sid s then Some (Inr ((), s))
     else
       let s = upd_stream ch sid (\<lambda>x. x\<lparr> is_ref := is_ref x - 1 \<rparr>) s in
       lbind (Some (deref (is_event (ks_streams s ch sid)))) (\<lambda>ev.
       lbind (task_event_erase esp now ev pid s) (\<lambda>(_, s).
       if is_ref (ks_streams s ch sid) = 0 then
         input_stream_destroy esp now ch sid
           (upd_stream ch sid (\<lambda>x. x\<lparr> is_flags := is_flags x AND NOT IS_FLAG_ACTIVE \<rparr>) s)
       else Some (Inr ((), s)))))"

text \<open>One stream: the element is dropped, and counted, when the ring is full.\<close>

definition input_stream_add :: "u32 \<Rightarrow> u32 \<Rightarrow> nat \<Rightarrow> bytes \<Rightarrow> nat \<Rightarrow> kstate \<Rightarrow> (unit \<times> kstate) lres" where
  "input_stream_add esp now ch input_el i s =
     (if stream_active ch i s then
        (case is_queue (ks_streams s ch i) of
           None \<Rightarrow> Some (Inl (Undefined ''NULL dereference''))
         | Some q \<Rightarrow>
             lbind (Some (ring_push_back q input_el)) (\<lambda>(ok, q).
             let s = upd_stream ch i (\<lambda>x. x\<lparr> is_queue := Some q \<rparr>) s;
                 s = (if ok then s
                      else
                        let s = s\<lparr> ks_dropped := ks_dropped s + 1 \<rparr> in
                        if now - ks_last_warn s > 1000
                        then (klog (Input_Ring_Full ch i (ks_dropped s)) s)\<lparr> ks_last_warn := now, ks_dropped := 0 \<rparr>
                        else s)
             in lbind (Some (deref (is_event (ks_streams s ch i)))) (\<lambda>ev. task_event_flush esp now ev s)))
      else Some (Inr ((), s)))"

fun input_streams_add :: "u32 \<Rightarrow> u32 \<Rightarrow> nat \<Rightarrow> bytes \<Rightarrow> nat list \<Rightarrow> kstate \<Rightarrow> (unit \<times> kstate) lres" where
  "input_streams_add esp now ch el [] s = Some (Inr ((), s))"
| "input_streams_add esp now ch el (i # is) s =
     lbind (input_stream_add esp now ch el i s) (\<lambda>(_, s). input_streams_add esp now ch el is s)"

definition input_manager_add_input_el :: "u32 \<Rightarrow> u32 \<Rightarrow> nat \<Rightarrow> bytes \<Rightarrow> kstate \<Rightarrow> (unit \<times> kstate) lres" where
  "input_manager_add_input_el esp now ch input_el =
     TASK_LOCKED esp now (input_streams_add esp now ch input_el [0..<INPUT_STREAMS])"

definition input_manager_get_event :: "nat \<Rightarrow> nat \<Rightarrow> kstate \<Rightarrow> nat option" where
  "input_manager_get_event ch sid s =
     (if stream_active ch sid s then is_event (ks_streams s ch sid) else None)"

definition input_manager_get_input_el ::
    "nat \<Rightarrow> nat \<Rightarrow> bytes option \<Rightarrow> kstate \<Rightarrow> (bool \<times> bytes option \<times> kstate) res" where
  "input_manager_get_input_el ch sid out s =
     (if out = None then Inr (False, out, s)
      else if stream_active ch sid s then
        (case is_queue (ks_streams s ch sid) of
           None \<Rightarrow> Inl (Undefined ''NULL dereference'')
         | Some q \<Rightarrow>
             rbind (ring_pop_front q out) (\<lambda>(ok, out, q).
             Inr (ok, out, upd_stream ch sid (\<lambda>x. x\<lparr> is_queue := Some q \<rparr>) s)))
      else Inr (False, out, s))"

definition input_manager_queue_empty :: "nat \<Rightarrow> u32 \<Rightarrow> kstate \<Rightarrow> bool" where
  "input_manager_queue_empty ch sid s =
     (if unat sid \<ge> INPUT_STREAMS then True
      else if \<not> stream_active ch (unat sid) s then True
      else case is_queue (ks_streams s ch (unat sid)) of None \<Rightarrow> True | Some q \<Rightarrow> ring_empty q)"

end
