(* ===== verification/Sched_Correct.thy ===== *)
theory Sched_Correct
  imports Task_State
begin

text \<open>
  What the scheduler does: one walk over the ring of tasks from the current one, which wakes due
  sleepers on its way, stops at the first runnable task and otherwise yields the lazy task; and the
  consequence that a runnable task is never passed over.
\<close>

section \<open>The effect of visiting tasks\<close>

definition sched_runnable :: "u32 \<Rightarrow> kstate \<Rightarrow> nat \<Rightarrow> bool" where
  "sched_runnable now s t = (ks_lazy s \<noteq> Some t \<and>
     (case t_state (ks_tasks s t) of
        TASK_READY \<Rightarrow> True | TASK_RUNNING \<Rightarrow> True
      | TASK_SLEEPING \<Rightarrow> t_activation (ks_tasks s t) \<le> now | _ \<Rightarrow> False))"

definition sched_woken :: "u32 \<Rightarrow> kstate \<Rightarrow> nat \<Rightarrow> task_state_t" where
  "sched_woken now s t =
     (if ks_lazy s = Some t then TASK_WAITING
      else if t_state (ks_tasks s t) = TASK_SLEEPING \<and> t_activation (ks_tasks s t) \<le> now then TASK_READY
      else t_state (ks_tasks s t))"

definition sched_dead :: "kstate \<Rightarrow> nat \<Rightarrow> bool" where
  "sched_dead s t = (ks_lazy s \<noteq> Some t \<and> t_state (ks_tasks s t) = TASK_TERMINATED)"

text \<open>\<open>s'\<close> is \<open>s\<close> after the tasks \<open>V\<close> were visited.\<close>

definition sched_visit :: "u32 \<Rightarrow> kstate \<Rightarrow> nat set \<Rightarrow> kstate \<Rightarrow> bool" where
  "sched_visit now s V s' = (\<exists>us ub. s' = s\<lparr> ks_tasks := us, ks_used := ub \<rparr> \<and>
     (\<forall>t. us t = (if t \<in> V then (ks_tasks s t)\<lparr> t_state := sched_woken now s t \<rparr> else ks_tasks s t)) \<and>
     length (bm_buff ub) = length (bm_buff (ks_used s)) \<and> bm_bits ub = bm_bits (ks_used s) \<and>
     (\<forall>p. bm_bit ub p = (bm_bit (ks_used s) p \<and>
        \<not> (\<exists>t \<in> V. sched_dead s t \<and> unat (t_pid (ks_tasks s t)) = p))))"

definition pids_fit :: "kstate \<Rightarrow> nat set \<Rightarrow> bool" where
  "pids_fit s V = (\<forall>t \<in> V. unat (t_pid (ks_tasks s t)) div 32 < length (bm_buff (ks_used s)))"

lemma sched_visit_none: "sched_visit now s {} s"
  unfolding sched_visit_def by (intro exI [of _ "ks_tasks s"] exI [of _ "ks_used s"]) simp

lemma sched_visitD:
  assumes "sched_visit now s V s'"
  shows "ks_links s' = ks_links s" "ks_lazy s' = ks_lazy s" "ks_current s' = ks_current s"
    "ks_tasks s' t = (if t \<in> V then (ks_tasks s t)\<lparr> t_state := sched_woken now s t \<rparr> else ks_tasks s t)"
    "pids_fit s' W = pids_fit s W"
proof -
  show "ks_links s' = ks_links s" "ks_lazy s' = ks_lazy s" "ks_current s' = ks_current s"
    and ts: "ks_tasks s' t = (if t \<in> V then (ks_tasks s t)\<lparr> t_state := sched_woken now s t \<rparr> else ks_tasks s t)" for t
    using assms by (auto simp: sched_visit_def)
  have "t_pid (ks_tasks s' t) = t_pid (ks_tasks s t)" for t unfolding ts by simp
  moreover have "length (bm_buff (ks_used s')) = length (bm_buff (ks_used s))"
    using assms by (auto simp: sched_visit_def)
  ultimately show "pids_fit s' W = pids_fit s W" by (simp add: pids_fit_def)
qed

lemma sched_visit_outside:
  assumes "sched_visit now s V s'" "t \<notin> V"
  shows "sched_runnable now s' t = sched_runnable now s t" "sched_woken now s' t = sched_woken now s t"
    "sched_dead s' t = sched_dead s t"
proof -
  have e: "ks_tasks s' t = ks_tasks s t" "ks_lazy s' = ks_lazy s" using sched_visitD [OF assms(1)] assms(2) by simp_all
  show "sched_runnable now s' t = sched_runnable now s t" "sched_woken now s' t = sched_woken now s t"
    "sched_dead s' t = sched_dead s t"
    unfolding sched_runnable_def sched_woken_def sched_dead_def e by (rule refl)+
qed

lemma sched_visit_trans:
  assumes v: "sched_visit now s V s1" "sched_visit now s1 W s2" and d: "V \<inter> W = {}"
  shows "sched_visit now s (V \<union> W) s2"
proof -
  obtain us ub where 1: "s1 = s\<lparr> ks_tasks := us, ks_used := ub \<rparr>"
    "\<And>t. us t = (if t \<in> V then (ks_tasks s t)\<lparr> t_state := sched_woken now s t \<rparr> else ks_tasks s t)"
    "length (bm_buff ub) = length (bm_buff (ks_used s))" "bm_bits ub = bm_bits (ks_used s)"
    "\<And>p. bm_bit ub p = (bm_bit (ks_used s) p \<and> \<not> (\<exists>t \<in> V. sched_dead s t \<and> unat (t_pid (ks_tasks s t)) = p))"
    using v(1) unfolding sched_visit_def by blast
  obtain us' ub' where 2: "s2 = s1\<lparr> ks_tasks := us', ks_used := ub' \<rparr>"
    "\<And>t. us' t = (if t \<in> W then (ks_tasks s1 t)\<lparr> t_state := sched_woken now s1 t \<rparr> else ks_tasks s1 t)"
    "length (bm_buff ub') = length (bm_buff (ks_used s1))" "bm_bits ub' = bm_bits (ks_used s1)"
    "\<And>p. bm_bit ub' p = (bm_bit (ks_used s1) p \<and> \<not> (\<exists>t \<in> W. sched_dead s1 t \<and> unat (t_pid (ks_tasks s1 t)) = p))"
    using v(2) unfolding sched_visit_def by blast
  have W: "sched_woken now s1 t = sched_woken now s t" "sched_dead s1 t = sched_dead s t" "ks_tasks s1 t = ks_tasks s t"
    if "t \<in> W" for t
    using sched_visit_outside [OF v(1), of t] sched_visitD(4) [OF v(1), of t] that d by auto
  show ?thesis unfolding sched_visit_def
  proof (intro exI conjI allI)
    show "s2 = s\<lparr> ks_tasks := us', ks_used := ub' \<rparr>" using 1(1) 2(1) by simp
    show "us' t = (if t \<in> V \<union> W then (ks_tasks s t)\<lparr> t_state := sched_woken now s t \<rparr> else ks_tasks s t)" for t
      using 2(2) [of t] 1(1,2) W d by auto
    show "length (bm_buff ub') = length (bm_buff (ks_used s))" "bm_bits ub' = bm_bits (ks_used s)"
      using 1 2 by simp_all
    show "bm_bit ub' p = (bm_bit (ks_used s) p \<and>
        \<not> (\<exists>t \<in> V \<union> W. sched_dead s t \<and> unat (t_pid (ks_tasks s t)) = p))" for p
      using 2(5) [of p] 1(1) 1(5) [of p] W by auto
  qed
qed

lemma sched_visit_used:
  assumes "length (bm_buff ub) = length (bm_buff (ks_used s))" "bm_bits ub = bm_bits (ks_used s)"
    and "\<And>p. bm_bit ub p = (bm_bit (ks_used s) p \<and> \<not> (sched_dead s t \<and> unat (t_pid (ks_tasks s t)) = p))"
    and "sched_woken now s t = t_state (ks_tasks s t)"
  shows "sched_visit now s {t} (s\<lparr> ks_used := ub \<rparr>)"
  unfolding sched_visit_def
  by (rule exI [of _ "ks_tasks s"], rule exI [of _ ub]) (use assms in auto)

lemma sched_visit_state:
  assumes "\<not> sched_dead s t"
  shows "sched_visit now s {t} (upd_task t (\<lambda>x. x\<lparr> t_state := sched_woken now s t \<rparr>) s)"
  unfolding sched_visit_def
  by (rule exI [of _ "ks_tasks (upd_task t (\<lambda>x. x\<lparr> t_state := sched_woken now s t \<rparr>) s)"], rule exI [of _ "ks_used s"])
     (use assms in \<open>auto simp: upd_task_def\<close>)

lemma proc_task_state_ok:
  assumes "pids_fit s {t}"
  shows "\<exists>s'. proc_task_state t now s = Inr s' \<and> sched_visit now s {t} s'"
proof (cases "sched_dead s t")
  case True
  then have e: "proc_task_state t now s = Inr (s\<lparr> ks_used := bm_put False (ks_used s) (unat (t_pid (ks_tasks s t))) \<rparr>)"
    using assms by (auto simp: proc_task_state_def sched_dead_def sched_task_get_state_def tasks_erase_task_def
        tasks_erase_def bitmap_clear_bit_eq pids_fit_def)
  have "sched_woken now s t = t_state (ks_tasks s t)"
    using True by (simp add: sched_woken_def sched_dead_def)
  then have "sched_visit now s {t} (s\<lparr> ks_used := bm_put False (ks_used s) (unat (t_pid (ks_tasks s t))) \<rparr>)"
    using True assms by (intro sched_visit_used) (auto simp: bm_bit_put pids_fit_def)
  then show ?thesis unfolding e by blast
next
  case False
  have e: "proc_task_state t now s = Inr (upd_task t (\<lambda>x. x\<lparr> t_state := sched_woken now s t \<rparr>) s)"
  proof (cases "ks_lazy s = Some t")
    case True
    then show ?thesis by (simp add: proc_task_state_def sched_woken_def sched_task_set_state_def)
  next
    case nl: False
    have id: "upd_task t (\<lambda>x. x\<lparr> t_state := t_state (ks_tasks s t) \<rparr>) s = s" by (simp add: upd_task_def)
    show ?thesis
      using nl False id
      by (cases "t_state (ks_tasks s t)")
         (auto simp: proc_task_state_def sched_woken_def sched_task_set_state_def sched_task_get_state_def sched_dead_def)
  qed
  show ?thesis unfolding e using sched_visit_state [OF False] by blast
qed

section \<open>The walk\<close>

fun walk :: "node_links \<Rightarrow> nat \<Rightarrow> nat list \<Rightarrow> bool" where
  "walk st n [] = True"
| "walk st n (t # ts) = (lright (st n) = Some t \<and> walk st t ts)"

lemma seg_walk: "seg st p (n # xs) (Some q) \<Longrightarrow> walk st n (xs @ [q])"
  by (induction xs arbitrary: p n) auto

lemma ring_walk: "ring st (c # ys) \<Longrightarrow> walk st c (ys @ [c])"
  using seg_walk [of st _ c ys c] by (auto simp: ring_def)

text \<open>The tasks a search through \<open>ts\<close> visits.\<close>

definition visited :: "u32 \<Rightarrow> kstate \<Rightarrow> nat list \<Rightarrow> nat set" where
  "visited now s ts = set (takeWhile (\<lambda>t. \<not> sched_runnable now s t) ts) \<union> set_option (find (sched_runnable now s) ts)"

lemma visited_Cons: "visited now s (t # ts) = insert t (if sched_runnable now s t then {} else visited now s ts)"
  by (auto simp: visited_def)

lemma visited_subset: "visited now s ts \<subseteq> set ts"
  by (induction ts) (auto simp: visited_Cons, simp add: visited_def)

lemma find_cong': "(\<And>x. x \<in> set xs \<Longrightarrow> P x = Q x) \<Longrightarrow> find P xs = find Q xs"
  by (induction xs) auto

lemma visited_cong:
  "(\<And>t. t \<in> set ts \<Longrightarrow> sched_runnable now s' t = sched_runnable now s t) \<Longrightarrow> visited now s' ts = visited now s ts"
  by (induction ts) (auto simp: visited_Cons, simp_all add: visited_def)

lemma runnable_after_visit:
  assumes "sched_visit now s {t} s'"
  shows "sched_task_get_state t s' = TASK_READY \<or> sched_task_get_state t s' = TASK_RUNNING \<longleftrightarrow> sched_runnable now s t"
  using sched_visitD(4) [OF assms, of t]
  by (auto simp: sched_task_get_state_def sched_woken_def sched_runnable_def split: task_state_t.splits)

lemma sched_next_loop_ok:
  assumes "walk (ks_links s) n (ts @ [cur])" "distinct (ts @ [cur])" "pids_fit s (set (ts @ [cur]))"
  shows "\<exists>s'. sched_next_loop now cur n s = Some (Inr (case find (sched_runnable now s) (ts @ [cur]) of
        Some t \<Rightarrow> Some t | None \<Rightarrow> ks_lazy s, s')) \<and>
     sched_visit now s (visited now s (ts @ [cur])) s'"
  using assms
proof (induction ts arbitrary: n s)
  case Nil
  obtain s1 where s1: "proc_task_state cur now s = Inr s1" "sched_visit now s {cur} s1"
    using proc_task_state_ok [of s cur now] Nil.prems(3) by auto
  have l: "lright (ks_links s n) = Some cur" using Nil.prems(1) by simp
  have v: "visited now s [cur] = {cur}" by (simp add: visited_Cons) (simp add: visited_def)
  show ?case
    by (subst sched_next_loop.simps)
       (use s1 l v runnable_after_visit [OF s1(2)] sched_visitD(2) [OF s1(2)] in auto)
next
  case (Cons t ts)
  have fit: "pids_fit s {t}" using Cons.prems(3) by (simp add: pids_fit_def)
  obtain s1 where s1: "proc_task_state t now s = Inr s1" "sched_visit now s {t} s1"
    using proc_task_state_ok [OF fit] by blast
  note run = runnable_after_visit [OF s1(2)]
  have l: "lright (ks_links s n) = Some t" and w: "walk (ks_links s) t (ts @ [cur])" using Cons.prems(1) by simp_all
  show ?case
  proof (cases "sched_runnable now s t")
    case True
    have "sched_next_loop now cur n s = Some (Inr (Some t, s1))"
      by (subst sched_next_loop.simps) (use l s1(1) run True in simp)
    then show ?thesis using True s1(2) by (simp add: visited_Cons)
  next
    case False
    have ne: "t \<noteq> cur" using Cons.prems(2) by auto
    have nt: "u \<noteq> t" if "u \<in> set (ts @ [cur])" for u using Cons.prems(2) that by auto
    have same: "sched_runnable now s1 u = sched_runnable now s u" if "u \<in> set (ts @ [cur])" for u
      using sched_visit_outside(1) [OF s1(2)] nt [OF that] by simp
    have step: "sched_next_loop now cur n s = sched_next_loop now cur t s1"
      by (subst sched_next_loop.simps) (use l s1(1) run False ne in simp)
    have p1: "pids_fit s1 (set (ts @ [cur]))"
      unfolding sched_visitD(5) [OF s1(2)] using Cons.prems(3) by (simp add: pids_fit_def)
    have w1: "walk (ks_links s1) t (ts @ [cur])" using w sched_visitD(1) [OF s1(2)] by simp
    have d1: "distinct (ts @ [cur])" using Cons.prems(2) by simp
    obtain s2 where s2: "sched_next_loop now cur t s1 =
        Some (Inr (case find (sched_runnable now s1) (ts @ [cur]) of Some t \<Rightarrow> Some t | None \<Rightarrow> ks_lazy s1, s2))"
      "sched_visit now s1 (visited now s1 (ts @ [cur])) s2"
      using Cons.IH [OF w1 d1 p1] by blast
    have f: "find (sched_runnable now s1) (ts @ [cur]) = find (sched_runnable now s) (ts @ [cur])"
      by (rule find_cong') (rule same)
    have v: "visited now s1 (ts @ [cur]) = visited now s (ts @ [cur])" by (rule visited_cong) (rule same)
    have "sched_visit now s ({t} \<union> visited now s (ts @ [cur])) s2"
      by (rule sched_visit_trans [OF s1(2) s2(2) [unfolded v]]) (use visited_subset [of now s "ts @ [cur]"] nt in auto)
    then show ?thesis using False step s2(1) unfolding sched_visitD(2) [OF s1(2)]
      by (simp add: visited_Cons f)
  qed
qed

lemma sched_task_get_next_ok:
  assumes "ring (ks_links s) (cur # ys)" "pids_fit s (set (cur # ys))"
  shows "\<exists>s'. sched_task_get_next now cur s = Some (Inr (case find (sched_runnable now s) (ys @ [cur]) of
        Some t \<Rightarrow> Some t | None \<Rightarrow> ks_lazy s, s')) \<and>
     sched_visit now s (visited now s (ys @ [cur])) s'"
  unfolding sched_task_get_next_def
  by (rule sched_next_loop_ok) (use assms ring_walk [OF assms(1)] in \<open>auto simp: ring_def pids_fit_def\<close>)

section \<open>A switch\<close>

definition sched_choice :: "u32 \<Rightarrow> kstate \<Rightarrow> nat list \<Rightarrow> nat option" where
  "sched_choice now s ts = (case find (sched_runnable now s) ts of Some t \<Rightarrow> Some t | None \<Rightarrow> ks_lazy s)"

lemma task_switch_prepare_ok:
  assumes "ring (ks_links s) (cur # ys)" "pids_fit s (set (cur # ys))" "ks_current s = Some cur"
    and "sched_choice now s (ys @ [cur]) = Some nxt"
  shows "\<exists>s'. task_switch_prepare now s = Some (Inr s') \<and> ks_current s' = Some nxt \<and>
    ks_links s' = ks_links s \<and> ks_lazy s' = ks_lazy s \<and> t_state (ks_tasks s' nxt) = TASK_RUNNING \<and>
    ks_esp0 s' = STACK_TOP (ks_tasks s nxt) \<and>
    (\<forall>t. t_pid (ks_tasks s' t) = t_pid (ks_tasks s t) \<and> t_activation (ks_tasks s' t) = t_activation (ks_tasks s t) \<and>
      (t \<noteq> nxt \<longrightarrow> t_state (ks_tasks s' t) =
        (let st = (if t \<in> visited now s (ys @ [cur]) then sched_woken now s t else t_state (ks_tasks s t))
         in if t = cur \<and> st = TASK_RUNNING then TASK_READY else st)))"
proof -
  obtain s1 where s1: "sched_task_get_next now cur s = Some (Inr (Some nxt, s1))"
    "sched_visit now s (visited now s (ys @ [cur])) s1"
    using sched_task_get_next_ok [OF assms(1,2), of now] assms(4) by (auto simp: sched_choice_def)
  note v = sched_visitD [OF s1(2)]
  show ?thesis
    using assms(3) s1(1) v(1-4)
    by (auto simp: task_switch_prepare_def deref_def klog_def task_switch_prepare_state_def sched_task_set_state_def
        sched_task_get_state_def upd_task_def task_set_current_def STACK_TOP_def Let_def)
qed

section \<open>No starvation\<close>

text \<open>
  \<open>after st V c t k\<close>: \<open>k\<close> tasks stand between \<open>c\<close> and \<open>t\<close> in the round of the tasks \<open>V\<close> that starts
  after \<open>c\<close>.
\<close>

definition after :: "node_links \<Rightarrow> nat set \<Rightarrow> nat \<Rightarrow> nat \<Rightarrow> nat \<Rightarrow> bool" where
  "after st V c t k = (\<exists>ys. ring st (c # ys) \<and> set (c # ys) = V \<and> k < length (ys @ [c]) \<and> (ys @ [c]) ! k = t)"

lemma after_exists: "ring st xs \<Longrightarrow> c \<in> set xs \<Longrightarrow> t \<in> set xs \<Longrightarrow> \<exists>k < length xs. after st (set xs) c t k"
proof -
  assume r: "ring st xs" "c \<in> set xs" "t \<in> set xs"
  then obtain ys where ys: "ring st (c # ys)" "set (c # ys) = set xs" "length (c # ys) = length xs"
    using tq.at_front by blast
  then have "t \<in> set (ys @ [c])" using r(3) by auto
  then obtain k where "k < length (ys @ [c])" "(ys @ [c]) ! k = t" by (meson in_set_conv_nth)
  then have "after st (set xs) c t k" using ys(1,2) unfolding after_def by blast
  moreover have "k < length xs" using \<open>k < _\<close> ys(3) by simp
  ultimately show ?thesis by blast
qed

lemma find_split: "find P xs = Some u \<Longrightarrow> \<exists>as bs. xs = as @ u # bs \<and> P u \<and> (\<forall>x \<in> set as. \<not> P x)"
proof (induction xs)
  case (Cons x xs)
  show ?case
  proof (cases "P x")
    case True
    then show ?thesis using Cons.prems by (intro exI [of _ "[]"] exI [of _ xs]) auto
  next
    case False
    then obtain as bs where "xs = as @ u # bs" "P u" "\<forall>x \<in> set as. \<not> P x" using Cons by auto
    then show ?thesis using False by (intro exI [of _ "x # as"] exI [of _ bs]) auto
  qed
qed simp

lemma choice_nearer:
  assumes r: "ring (ks_links s) (c # ys)" and k: "k < length (ys @ [c])" "(ys @ [c]) ! k = t"
    and t: "sched_runnable now s t"
  shows "\<exists>u. sched_choice now s (ys @ [c]) = Some u \<and> (u = t \<or> (\<exists>k' < k. after (ks_links s) (set (c # ys)) u t k'))"
proof -
  have "t \<in> set (ys @ [c])" using k nth_mem by blast
  then have "find (sched_runnable now s) (ys @ [c]) \<noteq> None" using t unfolding find_None_iff by blast
  then obtain u where u: "find (sched_runnable now s) (ys @ [c]) = Some u" by blast
  obtain as bs where ab: "ys @ [c] = as @ u # bs" "\<forall>x \<in> set as. \<not> sched_runnable now s x"
    using find_split [OF u] by blast
  have "\<not> k < length as"
  proof
    assume "k < length as"
    then have "t \<in> set as" using k(2) unfolding ab(1) by (auto simp: nth_append)
    then show False using ab(2) t by blast
  qed
  then obtain j where j: "k = length as + j" using le_Suc_ex not_less by blast
  have "ring (ks_links s) (ys @ [c])" using r tq.rotate [of "ks_links s" "[c]" ys] by simp
  then have ru: "ring (ks_links s) (u # bs @ as)"
    unfolding ab(1) using tq.rotate [of "ks_links s" as "u # bs"] by simp
  have m: "set (u # bs @ as) = set (c # ys)" using arg_cong [OF ab(1), of set] by auto
  have "u = t \<or> (\<exists>k' < k. after (ks_links s) (set (c # ys)) u t k')"
  proof (cases j)
    case 0
    then show ?thesis using k(2) unfolding ab(1) j by (simp add: nth_append)
  next
    case (Suc i)
    have i: "i < length bs" using k(1) unfolding ab(1) j Suc by simp
    have "bs ! i = t" using k(2) unfolding ab(1) j Suc by (simp add: nth_append)
    then have "after (ks_links s) (set (c # ys)) u t i"
      unfolding after_def using ru i m by (intro exI [of _ "bs @ as"]) (simp add: nth_append)
    then show ?thesis using j Suc by auto
  qed
  then show ?thesis using u by (simp add: sched_choice_def)
qed

text \<open>
  A run: switch \<open>i\<close> takes the state \<open>s i\<close>; whatever happens until the next switch keeps the ring,
  the current task and the lazy task.
\<close>

lemma sched_reaches:
  assumes "after st V (cu 0) t k"
    and step: "\<And>i. i \<le> k \<Longrightarrow> ks_links (s i) = st \<and> ks_current (s i) = Some (cu i) \<and> sched_runnable (now i) (s i) t \<and>
      pids_fit (s i) V"
    and nxt: "\<And>i s'. i \<le> k \<Longrightarrow> task_switch_prepare (now i) (s i) = Some (Inr s') \<Longrightarrow> ks_current s' = Some (cu (Suc i))"
  shows "\<exists>i \<le> k. cu (Suc i) = t"
  using assms
proof (induction k arbitrary: cu s now rule: less_induct)
  case (less k)
  obtain ys where ys: "ring st (cu 0 # ys)" "set (cu 0 # ys) = V" "k < length (ys @ [cu 0])" "(ys @ [cu 0]) ! k = t"
    using less.prems(1) by (auto simp: after_def)
  have s0: "ks_links (s 0) = st" "ks_current (s 0) = Some (cu 0)" "sched_runnable (now 0) (s 0) t"
    "pids_fit (s 0) (set (cu 0 # ys))"
    using less.prems(2) [of 0] unfolding ys(2) by blast+
  obtain u where u: "sched_choice (now 0) (s 0) (ys @ [cu 0]) = Some u" "u = t \<or> (\<exists>k' < k. after st V u t k')"
    using choice_nearer [of "s 0" "cu 0" ys k t "now 0"] ys s0(1,3) unfolding ys(2) by auto
  obtain s' where "task_switch_prepare (now 0) (s 0) = Some (Inr s')" "ks_current s' = Some u"
    using task_switch_prepare_ok [of "s 0" "cu 0" ys "now 0" u] ys(1) s0 u(1) by auto
  then have cu1: "cu (Suc 0) = u" using less.prems(3) [of 0 s'] by simp
  show ?case
  proof (cases "u = t")
    case True
    then show ?thesis using cu1 by (intro exI [of _ 0]) simp
  next
    case False
    then obtain k' where k': "k' < k" "after st V u t k'" using u(2) by blast
    have "\<exists>i \<le> k'. cu (Suc (Suc i)) = t"
      using less.IH [OF k'(1), of "\<lambda>i. cu (Suc i)" "\<lambda>i. s (Suc i)" "\<lambda>i. now (Suc i)"]
        k' cu1 less.prems(2,3) by auto
    then obtain i where "i \<le> k'" "cu (Suc (Suc i)) = t" by blast
    then show ?thesis using k'(1) by (intro exI [of _ "Suc i"]) simp
  qed
qed

section \<open>Properties\<close>

definition task_ex :: "nat \<Rightarrow> task_t" where
  "task_ex t = \<lparr> t_pid = of_nat t, t_esp = 0, t_ebp = 0, t_eip = 0, t_stack_start = 0x1000, t_stack_size = 0x400,
     t_page_dict = t, t_state = (if t = 0 then TASK_WAITING else if t = 1 then TASK_RUNNING else TASK_READY),
     t_activation = 0, t_input_sids = (\<lambda>_. - 2), t_fpu = t, t_brk_start = 0, t_brk = 0, t_brk_end = 0,
     t_mmap_next = 0, t_frame = [] \<rparr>"

text \<open>Three tasks: the lazy one, the current one \<open>c\<close> and another.\<close>

definition ks_ex :: "nat \<Rightarrow> kstate" where
  "ks_ex c = \<lparr> ks_tasks = task_ex,
     ks_links = (\<lambda>n. if n = 0 then \<lparr> lleft = Some 2, lright = Some 1 \<rparr>
                     else if n = 1 then \<lparr> lleft = Some 0, lright = Some 2 \<rparr>
                     else \<lparr> lleft = Some 1, lright = Some 0 \<rparr>),
     ks_used = \<lparr> bm_buff = [7], bm_bits = 32, bm_blocks = 1 \<rparr>, ks_pr_id = 2, ks_count = 3,
     ks_current = Some c, ks_kernel = Some 1, ks_lazy = Some 0, ks_skipped = False, ks_locked = 0,
     ks_resched = 0, ks_destroy = None, ks_prev_time = 0, ks_esp0 = 0,
     ks_ll = \<lparr> ll_links = (\<lambda>_. \<lparr> lleft = None, lright = None \<rparr>), ll_value = (\<lambda>_. None) \<rparr>,
     ks_events = (\<lambda>_. None), ks_elem = (\<lambda>_. 4),
     ks_streams = (\<lambda>_ _. \<lparr> is_queue = None, is_event = None, is_ref = 0, is_flags = 0 \<rparr>),
     ks_last_warn = 0, ks_dropped = 0, ks_log = [] \<rparr>"

lemma ks_ex_ring: "ring (ks_links (ks_ex c)) [0, 1, 2]" "ring (ks_links (ks_ex c)) [1, 2, 0]" "ring (ks_links (ks_ex c)) [2, 0, 1]"
  by (simp_all add: ring_def ks_ex_def)

lemma ks_ex_fit: "pids_fit (ks_ex c) {0, 1, 2}"
  by (simp add: pids_fit_def ks_ex_def task_ex_def)

text \<open>C19: a task switch takes the first runnable task of the round that starts after the current one,
  the current one last and the lazy task only when there is none; the tasks passed over are woken
  when their time has come, a preempted task becomes ready again and no other task changes.\<close>

lemma sched_round_robin:
  assumes "ring (ks_links s) (cur # ys)" "pids_fit s (set (cur # ys))" "ks_current s = Some cur" "ks_lazy s = Some l"
  shows "\<exists>s' nxt. task_switch_prepare now s = Some (Inr s') \<and>
    nxt = (case find (sched_runnable now s) (ys @ [cur]) of Some t \<Rightarrow> t | None \<Rightarrow> l) \<and>
    ks_current s' = Some nxt \<and> t_state (ks_tasks s' nxt) = TASK_RUNNING \<and>
    ks_links s' = ks_links s \<and> ks_esp0 s' = STACK_TOP (ks_tasks s nxt) \<and>
    (\<forall>t. t \<noteq> nxt \<longrightarrow> t_state (ks_tasks s' t) =
        (let st = (if t \<in> visited now s (ys @ [cur]) then sched_woken now s t else t_state (ks_tasks s t))
         in if t = cur \<and> st = TASK_RUNNING then TASK_READY else st))"
proof -
  define nxt where "nxt = (case find (sched_runnable now s) (ys @ [cur]) of Some t \<Rightarrow> t | None \<Rightarrow> l)"
  have "sched_choice now s (ys @ [cur]) = Some nxt"
    using assms(4) by (simp add: sched_choice_def nxt_def split: option.split)
  from task_switch_prepare_ok [OF assms(1-3) this] show ?thesis
    unfolding nxt_def [symmetric] by blast
qed

lemma sched_round_robin_witness:
  "\<exists>s' nxt. task_switch_prepare 5 (ks_ex 1) = Some (Inr s') \<and>
    nxt = (case find (sched_runnable 5 (ks_ex 1)) ([2, 0] @ [1]) of Some t \<Rightarrow> t | None \<Rightarrow> 0) \<and>
    ks_current s' = Some nxt \<and> t_state (ks_tasks s' nxt) = TASK_RUNNING \<and>
    ks_links s' = ks_links (ks_ex 1) \<and> ks_esp0 s' = STACK_TOP (ks_tasks (ks_ex 1) nxt) \<and>
    (\<forall>t. t \<noteq> nxt \<longrightarrow> t_state (ks_tasks s' t) =
        (let st = (if t \<in> visited 5 (ks_ex 1) ([2, 0] @ [1]) then sched_woken 5 (ks_ex 1) t else t_state (ks_tasks (ks_ex 1) t))
         in if t = 1 \<and> st = TASK_RUNNING then TASK_READY else st))"
proof (rule sched_round_robin)
  show "pids_fit (ks_ex 1) (set [1, 2, 0])" using ks_ex_fit [of 1] by (simp add: insert_commute)
qed (use ks_ex_ring(2) in simp, simp_all add: ks_ex_def)

text \<open>C20: no starvation. In a run of task switches between which the ring and the current task stay as
  they are, a task of the ring that is runnable at each switch becomes the current one after at most
  as many switches as the ring has tasks.\<close>

lemma sched_no_starvation:
  assumes "ring st xs" "cu 0 \<in> set xs" "t \<in> set xs"
    and "\<And>i. i < length xs \<Longrightarrow> ks_links (s i) = st \<and> ks_current (s i) = Some (cu i) \<and>
      sched_runnable (now i) (s i) t \<and> pids_fit (s i) (set xs)"
    and "\<And>i s'. i < length xs \<Longrightarrow> task_switch_prepare (now i) (s i) = Some (Inr s') \<Longrightarrow> ks_current s' = Some (cu (Suc i))"
  shows "\<exists>i < length xs. cu (Suc i) = t"
proof -
  obtain k where k: "k < length xs" "after st (set xs) (cu 0) t k" using after_exists [OF assms(1-3)] by blast
  have "\<exists>i \<le> k. cu (Suc i) = t"
  proof (rule sched_reaches [where st = st and V = "set xs" and cu = cu and s = s and now = now])
    show "after st (set xs) (cu 0) t k" by (rule k(2))
    fix i assume "i \<le> k"
    then have i: "i < length xs" using k(1) by simp
    show "ks_links (s i) = st \<and> ks_current (s i) = Some (cu i) \<and> sched_runnable (now i) (s i) t \<and> pids_fit (s i) (set xs)"
      by (rule assms(4) [OF i])
    show "ks_current s' = Some (cu (Suc i))" if "task_switch_prepare (now i) (s i) = Some (Inr s')" for s'
      by (rule assms(5) [OF i that])
  qed
  then obtain i where "i \<le> k" "cu (Suc i) = t" by blast
  then show ?thesis using k(1) by (intro exI [of _ i]) simp
qed

lemma ks_ex_choice: "sched_choice 0 (ks_ex 1) ([2, 0] @ [1]) = Some 2" "sched_choice 0 (ks_ex 2) ([0, 1] @ [2]) = Some 1"
  by (simp_all add: sched_choice_def sched_runnable_def ks_ex_def task_ex_def)

lemma ks_ex_next:
  "task_switch_prepare 0 (ks_ex 1) = Some (Inr s') \<Longrightarrow> ks_current s' = Some 2"
  "task_switch_prepare 0 (ks_ex 2) = Some (Inr s') \<Longrightarrow> ks_current s' = Some 1"
proof -
  have f: "pids_fit (ks_ex 1) (set [1, 2, 0])" "pids_fit (ks_ex 2) (set [2, 0, 1])"
    using ks_ex_fit [of 1] ks_ex_fit [of 2] by (simp_all add: insert_commute)
  have c: "ks_current (ks_ex 1) = Some 1" "ks_current (ks_ex 2) = Some 2" by (simp_all add: ks_ex_def)
  show "ks_current s' = Some 2" if "task_switch_prepare 0 (ks_ex 1) = Some (Inr s')"
    using task_switch_prepare_ok [OF ks_ex_ring(2) f(1) c(1) ks_ex_choice(1)] that by auto
  show "ks_current s' = Some 1" if "task_switch_prepare 0 (ks_ex 2) = Some (Inr s')"
    using task_switch_prepare_ok [OF ks_ex_ring(3) f(2) c(2) ks_ex_choice(2)] that by auto
qed

lemma sched_no_starvation_witness:
  "\<exists>i < length [0, 1, 2 :: nat]. (if even (Suc i) then 1 else 2 :: nat) = 2"
proof (rule sched_no_starvation [where cu = "\<lambda>i. if even i then 1 else 2" and now = "\<lambda>_. 0"
      and s = "\<lambda>i. ks_ex (if even i then 1 else 2)"])
  show "ring (ks_links (ks_ex 1)) [0, 1, 2]" by (rule ks_ex_ring)
  show "ks_links (ks_ex (if even i then 1 else 2)) = ks_links (ks_ex 1) \<and>
      ks_current (ks_ex (if even i then 1 else 2)) = Some (if even i then 1 else 2) \<and>
      sched_runnable 0 (ks_ex (if even i then 1 else 2)) 2 \<and>
      pids_fit (ks_ex (if even i then 1 else 2)) (set [0, 1, 2])" for i
    using ks_ex_fit by (simp add: ks_ex_def sched_runnable_def task_ex_def)
  show "ks_current s' = Some (if even (Suc i) then 1 else 2)"
    if "task_switch_prepare 0 (ks_ex (if even i then 1 else 2)) = Some (Inr s')" for i s'
    using that ks_ex_next by (cases "even i") auto
qed simp_all

end
