(* ===== verification/Task_Life.thy ===== *)
theory Task_Life
  imports Task_Event Sched_Correct
begin

text \<open>
  The rest of \<^verbatim>\<open>kernel/sched/task.c\<close>: creation of tasks, their initial stacks, exit and
  destruction, and the waiting and input calls.  What other components return at a creation (the
  stack \<open>alligned_malloc\<close> gives, the addresses of other allocations) is the record \<open>create_env\<close>;
  what destruction releases is recorded in the log.
\<close>

unbundle bit_operations_syntax

definition MAX_TASKS :: u32 where "MAX_TASKS = 32"
definition TASK_INPUT_NEW :: u32 where "TASK_INPUT_NEW = - 1"
definition TASK_INPUT_NONE :: u32 where "TASK_INPUT_NONE = - 2"
definition INT_WORKER_TASK_PID :: nat where "INT_WORKER_TASK_PID = 2"
definition INPUT_CHANNEL_KEYBOARD :: nat where "INPUT_CHANNEL_KEYBOARD = 0"
definition INPUT_CHANNEL_MOUSE :: nat where "INPUT_CHANNEL_MOUSE = 1"

text \<open>The directory of the kernel among the page directories.\<close>

definition kernel_page_dict_id :: nat where "kernel_page_dict_id = 0"

record create_env =
  ce_esp :: u32
  ce_now :: u32
  ce_junk :: "nat \<Rightarrow> u8"
  ce_new :: "nat \<Rightarrow> nat"
  ce_stack :: u32
  ce_fpu :: nat

section \<open>Process ids\<close>

definition tasks_get_free_id :: "kstate \<Rightarrow> (u32 \<times> kstate) res" where
  "tasks_get_free_id s =
     rbind (bitmap_alloc_interval (ks_used s) (ks_pr_id s) 1) (\<lambda>(b, r).
     let s = s\<lparr> ks_used := b, ks_pr_id := r \<rparr> in
     if r \<noteq> bm_bits (ks_used s) then Inr (r, s)
     else
       rbind (bitmap_alloc_interval (ks_used s) 0 1) (\<lambda>(b, r).
       let s = s\<lparr> ks_used := b, ks_pr_id := r \<rparr> in
       if r \<noteq> bm_bits (ks_used s) then Inr (r, s)
       else Inl (Assertion ''tasks_pr_id != tasks_used_bitmap->bits_count'')))"

section \<open>Creation\<close>

definition set_sid :: "nat \<Rightarrow> nat \<Rightarrow> u32 \<Rightarrow> kstate \<Rightarrow> kstate" where
  "set_sid t ch sid s = upd_task t (\<lambda>x. x\<lparr> t_input_sids := (t_input_sids x)(ch := sid) \<rparr>) s"

text \<open>One round of the loop over the channels.\<close>

definition task_input_init :: "create_env \<Rightarrow> nat \<Rightarrow> (nat \<Rightarrow> u32) \<Rightarrow> nat \<Rightarrow> kstate \<Rightarrow> kstate lres" where
  "task_input_init e t input_sids ch s =
     (if input_sids ch = TASK_INPUT_NONE then Some (Inr (set_sid t ch TASK_INPUT_NONE s))
      else if input_sids ch = TASK_INPUT_NEW then
        lbind (input_manager_register_to_new_stream (ce_junk e) (ce_esp e) (ce_now e) (ce_new e ch) ch s) (\<lambda>(sid, s).
        Some (Inr (set_sid t ch (if sid = - 1 then TASK_INPUT_NONE else sid) s)))
      else
        let s = set_sid t ch (input_sids ch) s in
        lbind (input_manager_register_to_stream (ce_junk e) (ce_esp e) (ce_now e) (ce_new e ch) ch
                 (unat (input_sids ch)) s) (\<lambda>(_, s).
        Some (Inr s)))"

fun task_inputs_init :: "create_env \<Rightarrow> nat \<Rightarrow> (nat \<Rightarrow> u32) \<Rightarrow> nat list \<Rightarrow> kstate \<Rightarrow> kstate lres" where
  "task_inputs_init e t input_sids [] s = Some (Inr s)"
| "task_inputs_init e t input_sids (ch # chs) s =
     lbind (task_input_init e t input_sids ch s) (task_inputs_init e t input_sids chs)"

definition task_init_prefix ::
    "create_env \<Rightarrow> u32 \<Rightarrow> nat \<Rightarrow> (nat \<Rightarrow> u32) \<Rightarrow> kstate \<Rightarrow> (nat \<times> kstate) lres" where
  "task_init_prefix e stack_size page_dict input_sids s =
     (if \<not> ks_count s < MAX_TASKS then Some (Inl (Assertion ''task_count < MAX_TASKS''))
      else
        lbind (Some (tasks_get_free_id s)) (\<lambda>(pid, s).
        let t = unat pid;
            s = upd_task t (\<lambda>x. x\<lparr> t_pid := pid \<rparr>) s;
            s = sched_task_set_state t TASK_READY s;
            s = s\<lparr> ks_count := ks_count s + 1 \<rparr>;
            s = upd_task t (\<lambda>x. x\<lparr> t_stack_start := ce_stack e, t_stack_size := stack_size,
                                   t_page_dict := page_dict, t_ebp := 0 \<rparr>) s
        in lbind (task_inputs_init e t input_sids [0..<INPUT_CHANNELS] s) (\<lambda>s.
           Some (Inr (t, upd_task t (\<lambda>x. x\<lparr> t_fpu := ce_fpu e \<rparr>) s)))))"

text \<open>The words pushed, in order, onto the empty kernel stack.\<close>

definition push_frame :: "u32 list \<Rightarrow> task_t \<Rightarrow> task_t" where
  "push_frame ws t = t\<lparr> t_esp := STACK_TOP t - 4 * of_nat (length ws), t_frame := rev ws \<rparr>"

definition task_init_kernel ::
    "create_env \<Rightarrow> u32 \<Rightarrow> u32 \<Rightarrow> u32 \<Rightarrow> u32 \<Rightarrow> (nat \<Rightarrow> u32) \<Rightarrow> kstate \<Rightarrow> (nat \<times> kstate) lres" where
  "task_init_kernel e task_exit entry arg stack_size input_sids s =
     lbind (task_init_prefix e stack_size kernel_page_dict_id input_sids s) (\<lambda>(t, s).
     Some (Inr (t, upd_task t (push_frame
       [arg, task_exit, 0x202, 0x08, entry, 0, 0, 0, 0, 0, 0, 0, 0, 0, 0, 0x10]) s)))"

definition task_init_user ::
    "create_env \<Rightarrow> u32 \<Rightarrow> u32 \<Rightarrow> nat \<Rightarrow> u32 \<Rightarrow> (nat \<Rightarrow> u32) \<Rightarrow> u32 \<Rightarrow> kstate \<Rightarrow> (nat \<times> kstate) lres" where
  "task_init_user e user_entry kernel_stack_size page_dict user_stack_top input_sids brk_start s =
     lbind (task_init_prefix e kernel_stack_size page_dict input_sids s) (\<lambda>(t, s).
     let s = upd_task t (\<lambda>x. x\<lparr> t_brk_start := brk_start, t_brk := brk_start, t_brk_end := brk_start,
                                t_mmap_next := 0 \<rparr>) s
     in Some (Inr (t, upd_task t (push_frame
       [0x23, user_stack_top, 0x202, 0x1B, user_entry, 0, 0, 0, 0, 0, 0, 0, 0, 0, 0, 0x23]) s)))"

definition task_create_kthread ::
    "create_env \<Rightarrow> u32 \<Rightarrow> u32 \<Rightarrow> u32 \<Rightarrow> u32 \<Rightarrow> (nat \<Rightarrow> u32) \<Rightarrow> kstate \<Rightarrow> kstate lres" where
  "task_create_kthread e task_exit entry arg stack_size input_sids s =
     lbind (task_init_kernel e task_exit entry arg stack_size input_sids s) (\<lambda>(t, s).
     Some (sched_task_add_new t s))"

definition task_create_user_process ::
    "create_env \<Rightarrow> u32 \<Rightarrow> u32 \<Rightarrow> nat \<Rightarrow> u32 \<Rightarrow> (nat \<Rightarrow> u32) \<Rightarrow> u32 \<Rightarrow> kstate \<Rightarrow> kstate lres" where
  "task_create_user_process e user_entry kernel_stack_size page_dict user_stack_top input_sids brk_start s =
     lbind (task_init_user e user_entry kernel_stack_size page_dict user_stack_top input_sids brk_start s) (\<lambda>(t, s).
     Some (sched_task_add_new t s))"

text \<open>
  \<open>loaded\<close> is the result of \<open>elf_user_load\<close>: entry point, end of the image and page directory;
  \<open>user_stack_top\<close> that of \<open>vmm_user_stack_create\<close>.
\<close>

definition task_create_user_process_from_elf ::
    "create_env \<Rightarrow> (u32 \<times> u32 \<times> nat) option \<Rightarrow> u32 \<Rightarrow> u32 \<Rightarrow> (nat \<Rightarrow> u32) \<Rightarrow> kstate \<Rightarrow> (bool \<times> kstate) lres" where
  "task_create_user_process_from_elf e loaded user_stack_top kernel_stack_size input_sids s =
     (case loaded of
        None \<Rightarrow> Some (Inr (False, s))
      | Some (entry, end, page_dict) \<Rightarrow>
          lbind (task_create_user_process e entry kernel_stack_size page_dict user_stack_top input_sids
                   ((end + 7) AND NOT 8) s) (\<lambda>s.
          Some (Inr (True, s))))"

text \<open>The tables of input streams for new tasks.\<close>

definition task_sids_none :: "nat \<Rightarrow> u32" where
  "task_sids_none ch = TASK_INPUT_NONE"

definition task_sids_keyboard_mouse_only :: "nat \<Rightarrow> u32" where
  "task_sids_keyboard_mouse_only =
     (\<lambda>_. TASK_INPUT_NONE)(INPUT_CHANNEL_MOUSE := TASK_INPUT_NEW, INPUT_CHANNEL_KEYBOARD := TASK_INPUT_NEW)"

definition task_sids_keyboard_only :: "nat \<Rightarrow> u32" where
  "task_sids_keyboard_only = (\<lambda>_. TASK_INPUT_NONE)(INPUT_CHANNEL_KEYBOARD := TASK_INPUT_NEW)"

text \<open>The environments and entry points are those of the lazy task, the kernel task and the worker.\<close>

definition tasks_init ::
    "bool \<Rightarrow> create_env \<times> u32 \<Rightarrow> create_env \<times> u32 \<Rightarrow> create_env \<times> u32 \<Rightarrow> u32 \<Rightarrow> u32 \<Rightarrow> u32 \<Rightarrow> u32 \<Rightarrow>
     kstate \<Rightarrow> kstate lres" where
  "tasks_init got lazy kern worker task_exit arg stack_size stack_size_large s =
     lbind (Some (bitmap_init got MAX_TASKS)) (\<lambda>b.
     lbind (task_init_kernel (fst lazy) task_exit (snd lazy) 0 stack_size_large task_sids_none
              (s\<lparr> ks_used := b \<rparr>)) (\<lambda>(l, s).
     let s = task_set_current l (sched_task_add_first l s);
         s = s\<lparr> ks_lazy := Some l \<rparr> in
     lbind (task_create_kthread (fst kern) task_exit (snd kern) arg stack_size task_sids_keyboard_only s) (\<lambda>s.
     let s = task_set_current 1 (s\<lparr> ks_kernel := Some 1 \<rparr>) in
     task_create_kthread (fst worker) task_exit (snd worker) 0 stack_size_large task_sids_none s)))"

section \<open>Exit and destruction\<close>

definition task_input_unregister :: "u32 \<Rightarrow> u32 \<Rightarrow> nat \<Rightarrow> nat \<Rightarrow> kstate \<Rightarrow> (unit \<times> kstate) lres" where
  "task_input_unregister esp now t ch s =
     (let sid = t_input_sids (ks_tasks s t) ch in
      if sid = TASK_INPUT_NONE \<or> sid = TASK_INPUT_NEW then Some (Inr ((), s))
      else input_manager_unregister_from_stream esp now ch (unat sid) (t_pid (ks_tasks s t)) s)"

fun task_inputs_unregister :: "u32 \<Rightarrow> u32 \<Rightarrow> nat \<Rightarrow> nat list \<Rightarrow> kstate \<Rightarrow> kstate lres" where
  "task_inputs_unregister esp now t [] s = Some (Inr s)"
| "task_inputs_unregister esp now t (ch # chs) s =
     lbind (task_input_unregister esp now t ch s) (\<lambda>(_, s). task_inputs_unregister esp now t chs s)"

definition task_destroy_from_accumulator :: "u32 \<Rightarrow> u32 \<Rightarrow> kstate \<Rightarrow> kstate lres" where
  "task_destroy_from_accumulator esp now s =
     lbind (Some (deref (ks_destroy s))) (\<lambda>acc.
     lbind (Some (deref (ks_current s))) (\<lambda>cur.
     let s = klog (Switch_Page_Dict (t_page_dict (ks_tasks s acc)) (t_page_dict (ks_tasks s cur))) s;
         s = (if t_page_dict (ks_tasks s acc) \<noteq> kernel_page_dict_id
              then klog (Destroy_Page_Dict (t_page_dict (ks_tasks s acc))) s else s);
         s = klog (Free_Stack (t_stack_start (ks_tasks s acc))) s in
     lbind (task_inputs_unregister esp now acc [0..<INPUT_CHANNELS] s) (\<lambda>s.
     let s = klog (Free_Fpu (t_fpu (ks_tasks s acc))) s in
     lbind (Some (tasks_erase (t_pid (ks_tasks s acc)) s)) (\<lambda>s.
     let s = s\<lparr> ks_count := ks_count s - 1 \<rparr>;
         s = sched_task_erase acc s
     in Some (Inr (s\<lparr> ks_destroy := None \<rparr>))))))"

text \<open>The assembly routine that enters the current task, and destroys the one that exited.\<close>

definition goto_current_task :: "u32 \<Rightarrow> u32 \<Rightarrow> kstate \<Rightarrow> kstate lres" where
  "goto_current_task esp now s =
     lbind (Some (task_switch_finish s)) (\<lambda>s.
     if ks_destroy s \<noteq> None then task_destroy_from_accumulator esp now s else Some (Inr s))"

definition task_exit :: "u32 \<Rightarrow> u32 \<Rightarrow> kstate \<Rightarrow> kstate lres" where
  "task_exit esp now s =
     lbind (Some (deref (ks_current s))) (\<lambda>cur.
     if t_pid (ks_tasks s cur) = 0 then Some (Inl (Assertion ''current_task->pid != 0''))
     else if t_pid (ks_tasks s cur) = 1 then Some (Inl (Assertion ''current_task->pid != 1''))
     else
       let s = s\<lparr> ks_destroy := Some cur \<rparr>;
           s = sched_task_set_state cur TASK_TERMINATED s in
       lbind (sched_task_get_next now cur s) (\<lambda>(next, s).
       lbind (Some (deref next)) (\<lambda>next.
       let s = s\<lparr> ks_esp0 := STACK_TOP (ks_tasks s next) \<rparr>;
           s = task_set_current next s;
           s = sched_task_set_state next TASK_RUNNING s
       in goto_current_task esp now s)))"

definition tasks_start :: "u32 \<Rightarrow> u32 \<Rightarrow> kstate \<Rightarrow> kstate lres" where
  "tasks_start esp now s = goto_current_task esp now s"

section \<open>Waiting and input\<close>

definition task_wait_until :: "u32 \<Rightarrow> u32 \<Rightarrow> nat \<Rightarrow> nat \<Rightarrow> kstate \<Rightarrow> kstate lres" where
  "task_wait_until esp now new ev s =
     lbind (Some (deref (ks_current s))) (\<lambda>cur.
     lbind (task_event_add esp now new ev (t_pid (ks_tasks s cur)) s) (\<lambda>(_, s).
     task_yield esp now s))"

definition task_wait_for_input :: "u32 \<Rightarrow> u32 \<Rightarrow> nat \<Rightarrow> nat \<Rightarrow> kstate \<Rightarrow> kstate lres" where
  "task_wait_for_input esp now new channel s =
     lbind (Some (deref (ks_current s))) (\<lambda>cur.
     let sid = t_input_sids (ks_tasks s cur) channel in
     if sid = TASK_INPUT_NONE \<or> sid = TASK_INPUT_NEW then Some (Inr s)
     else case input_manager_get_event channel (unat sid) s of
            None \<Rightarrow> Some (Inr s)
          | Some ev \<Rightarrow> task_wait_until esp now new ev s)"

definition task_input_get :: "nat \<Rightarrow> bytes option \<Rightarrow> kstate \<Rightarrow> (bool \<times> bytes option \<times> kstate) res" where
  "task_input_get channel out s =
     rbind (deref (ks_current s)) (\<lambda>cur.
     let sid = t_input_sids (ks_tasks s cur) channel in
     if sid = TASK_INPUT_NONE \<or> sid = TASK_INPUT_NEW then Inr (False, out, s)
     else input_manager_get_input_el channel (unat sid) out s)"

definition task_input_queue_empty :: "nat \<Rightarrow> kstate \<Rightarrow> bool res" where
  "task_input_queue_empty channel s =
     rbind (deref (ks_current s)) (\<lambda>cur.
     let sid = t_input_sids (ks_tasks s cur) channel in
     if sid = TASK_INPUT_NONE \<or> sid = TASK_INPUT_NEW then Inr True
     else Inr (input_manager_queue_empty channel sid s))"

end
