(* ===== verification/Task_Correct.thy ===== *)
theory Task_Correct
  imports Task_Life
begin

text \<open>
  The life of a task: creation adds exactly one ready task with a free id, last in its round, and
  exit removes exactly the current one and releases what it held.
\<close>

section \<open>The invariant of the task table\<close>

text \<open>The tasks in the scheduler's ring are the ones whose ids are in use.\<close>

definition task_inv :: "kstate \<Rightarrow> nat list \<Rightarrow> bool" where
  "task_inv s xs = (ring (ks_links s) xs \<and> set xs \<subseteq> {..<32} \<and>
     bm_bits (ks_used s) = 32 \<and> bm_inv (ks_used s) \<and> (\<forall>t < 32. bm_bit (ks_used s) t \<longleftrightarrow> t \<in> set xs) \<and>
     unat (ks_count s) = length xs \<and>
     (\<forall>t \<in> set xs. unat (t_pid (ks_tasks s t)) = t \<and> t_state (ks_tasks s t) \<noteq> TASK_TERMINATED) \<and>
     ks_lazy s = Some 0 \<and> 0 \<in> set xs)"

lemma task_inv_fit: "task_inv s xs \<Longrightarrow> pids_fit s (set xs)"
proof -
  assume a: "task_inv s xs"
  then have "32 \<le> 32 * length (bm_buff (ks_used s))" by (auto simp: task_inv_def bm_inv_def)
  then have "0 < length (bm_buff (ks_used s))" by linarith
  then show ?thesis using a by (auto simp: pids_fit_def task_inv_def)
qed

lemma task_inv_len: "task_inv s xs \<Longrightarrow> length xs \<le> 32"
proof -
  assume a: "task_inv s xs"
  then have "distinct xs" "set xs \<subseteq> {..<32}" by (auto simp: task_inv_def ring_def)
  then have "card (set xs) \<le> card {..<32::nat}" by (intro card_mono) auto
  then show ?thesis using \<open>distinct xs\<close> by (simp add: distinct_card)
qed

lemma bm_alloc_one:
  assumes "bm_inv b" "bm_bits b = 32"
  shows "\<exists>b' r. bitmap_alloc_interval b p 1 = Inr (b', r) \<and>
    (if r = 32 then b' = b \<and> (\<forall>t < 32. unat p \<le> t \<longrightarrow> bm_bit b t)
     else unat r < 32 \<and> \<not> bm_bit b (unat r) \<and> bm_inv b' \<and> bm_bits b' = 32 \<and>
       (\<forall>t. bm_bit b' t \<longleftrightarrow> t = unat r \<or> bm_bit b t))"
proof -
  obtain b' r where r: "bitmap_alloc_interval b p 1 = Inr (b', r)" "bm_first_fit b (unat p) 1 b' (unat r)"
    using bitmap_alloc_interval_ok [OF assms(1), of 1 p] by auto
  have none: "bm_none True b i (Suc i) \<longleftrightarrow> \<not> bm_bit b i" for i by (auto simp: bm_none_def less_Suc_eq)
  have r32: "r = 32 \<longleftrightarrow> unat r = 32" by (simp add: word_unat_eq_iff)
  show ?thesis
  proof (intro exI conjI)
    show "bitmap_alloc_interval b p 1 = Inr (b', r)" by (rule r(1))
    show "if r = 32 then b' = b \<and> (\<forall>t < 32. unat p \<le> t \<longrightarrow> bm_bit b t)
     else unat r < 32 \<and> \<not> bm_bit b (unat r) \<and> bm_inv b' \<and> bm_bits b' = 32 \<and>
       (\<forall>t. bm_bit b' t \<longleftrightarrow> t = unat r \<or> bm_bit b t)"
    proof (cases "unat r < 32")
      case True
      then have "r \<noteq> 32" using r32 by auto
      then show ?thesis using r(2) assms True
        by (auto simp: bm_first_fit_def none bm_filled_def bm_inv_def)
    next
      case False
      then show ?thesis using r(2) assms r32 by (auto simp: bm_first_fit_def none)
    qed
  qed
qed

lemma tasks_get_free_id_ok:
  assumes inv: "task_inv s xs" and room: "length xs < 32"
  shows "\<exists>r b. tasks_get_free_id s = Inr (r, s\<lparr> ks_used := b, ks_pr_id := r \<rparr>) \<and> unat r < 32 \<and> unat r \<notin> set xs \<and>
    bm_bits b = 32 \<and> bm_inv b \<and> (\<forall>t < 32. bm_bit b t \<longleftrightarrow> t = unat r \<or> t \<in> set xs)"
proof -
  have b: "bm_inv (ks_used s)" "bm_bits (ks_used s) = 32" and bits: "\<forall>t < 32. bm_bit (ks_used s) t \<longleftrightarrow> t \<in> set xs"
    using inv by (auto simp: task_inv_def)
  have free: "\<exists>t < 32. \<not> bm_bit (ks_used s) t"
  proof (rule ccontr)
    assume "\<not> (\<exists>t < 32. \<not> bm_bit (ks_used s) t)"
    then have "{..<32} \<subseteq> set xs" using bits by auto
    then have "card {..<32::nat} \<le> card (set xs)" by (intro card_mono) auto
    then show False using room card_length [of xs] by simp
  qed
  obtain b1 r1 where 1: "bitmap_alloc_interval (ks_used s) (ks_pr_id s) 1 = Inr (b1, r1)"
    "if r1 = 32 then b1 = ks_used s \<and> (\<forall>t < 32. unat (ks_pr_id s) \<le> t \<longrightarrow> bm_bit (ks_used s) t)
     else unat r1 < 32 \<and> \<not> bm_bit (ks_used s) (unat r1) \<and> bm_inv b1 \<and> bm_bits b1 = 32 \<and>
       (\<forall>t. bm_bit b1 t \<longleftrightarrow> t = unat r1 \<or> bm_bit (ks_used s) t)"
    using bm_alloc_one [OF b, of "ks_pr_id s"] by blast
  show ?thesis
  proof (cases "r1 = 32")
    case False
    then have "unat r1 \<notin> set xs" using 1(2) bits by auto
    then show ?thesis using 1 bits False
      by (intro exI [of _ r1] exI [of _ b1]) (simp add: tasks_get_free_id_def Let_def)
  next
    case True
    obtain b2 r2 where 2: "bitmap_alloc_interval (ks_used s) 0 1 = Inr (b2, r2)"
      "if r2 = 32 then b2 = ks_used s \<and> (\<forall>t < 32. unat (0 :: u32) \<le> t \<longrightarrow> bm_bit (ks_used s) t)
       else unat r2 < 32 \<and> \<not> bm_bit (ks_used s) (unat r2) \<and> bm_inv b2 \<and> bm_bits b2 = 32 \<and>
         (\<forall>t. bm_bit b2 t \<longleftrightarrow> t = unat r2 \<or> bm_bit (ks_used s) t)"
      using bm_alloc_one [OF b, of 0] by blast
    have "r2 \<noteq> 32" using 2(2) free by (auto split: if_splits)
    moreover from this have "unat r2 \<notin> set xs" using 2(2) bits by auto
    ultimately show ?thesis using 1 2 True b(2) bits
      by (intro exI [of _ r2] exI [of _ b2]) (simp add: tasks_get_free_id_def Let_def)
  qed
qed

section \<open>Registration of input streams\<close>

text \<open>With no tick skipped the lock is released without a switch.\<close>

lemma task_locked_ok:
  assumes "f (task_lock s) = Some (Inr (r, s1))" "ks_locked s1 = ks_locked s + 1" "\<not> ks_skipped s1"
  shows "TASK_LOCKED esp now f s = Some (Inr (r, s1\<lparr> ks_locked := ks_locked s \<rparr>))"
  using assms by (simp add: TASK_LOCKED_def task_unlock_def Let_def)

lemma register_to_stream_ok:
  assumes "\<not> ks_skipped s"
  shows "\<exists>ev st. input_manager_register_to_stream junk esp now new ch sid s =
    Some (Inr ((), s\<lparr> ks_events := ev, ks_streams := st \<rparr>))"
proof -
  let ?f = "\<lambda>s. lbind (input_stream_get_or_create junk esp now new ch sid s) (\<lambda>(_, s).
     Some (Inr ((), upd_stream ch sid (\<lambda>x. x\<lparr> is_ref := is_ref x + 1 \<rparr>) s)))"
  have "\<exists>ev st. ?f (task_lock s) = Some (Inr ((), (task_lock s)\<lparr> ks_events := ev, ks_streams := st \<rparr>))"
  proof (cases "stream_active ch sid (task_lock s)")
    case True
    let ?s = "task_lock s" and ?g = "\<lambda>x. x\<lparr> is_ref := is_ref x + 1 \<rparr>"
    show ?thesis using True
      by (intro exI [of _ "ks_events ?s"] exI [of _ "ks_streams (upd_stream ch sid ?g ?s)"])
         (simp add: input_stream_get_or_create_def upd_stream_def)
  next
    case False
    then show ?thesis
      by (auto simp: input_stream_get_or_create_def input_stream_init_default_def upd_stream_def task_event_create_def Let_def)
  qed
  then obtain ev st where e: "?f (task_lock s) = Some (Inr ((), (task_lock s)\<lparr> ks_events := ev, ks_streams := st \<rparr>))"
    by blast
  have "input_manager_register_to_stream junk esp now new ch sid s =
      Some (Inr ((), (task_lock s)\<lparr> ks_events := ev, ks_streams := st, ks_locked := ks_locked s \<rparr>))"
    unfolding input_manager_register_to_stream_def
    by (subst task_locked_ok [where f = ?f, OF e]) (use assms in \<open>simp_all add: task_lock_def\<close>)
  then show ?thesis by (auto simp: task_lock_def)
qed

lemma register_to_new_stream_ok:
  assumes "\<not> ks_skipped s"
  shows "\<exists>ev st sid. input_manager_register_to_new_stream junk esp now new ch s =
    Some (Inr (sid, s\<lparr> ks_events := ev, ks_streams := st \<rparr>))"
proof -
  let ?f = "\<lambda>s. (case find_free_stream ch s of
       None \<Rightarrow> Some (Inr (- 1, s))
     | Some sid \<Rightarrow>
         lbind (input_stream_init_default junk esp now new ch sid s) (\<lambda>(_, s).
         lbind (input_manager_register_to_stream junk esp now new ch sid s) (\<lambda>(_, s).
         Some (Inr (of_nat sid, s))))) :: (u32 \<times> kstate) lres"
  have "\<exists>ev st sid. ?f (task_lock s) = Some (Inr (sid, (task_lock s)\<lparr> ks_events := ev, ks_streams := st \<rparr>))"
  proof (cases "find_free_stream ch (task_lock s)")
    case None
    then show ?thesis
      by (intro exI [of _ "ks_events s"] exI [of _ "ks_streams s"] exI [of _ "- 1"]) (simp add: task_lock_def)
  next
    case (Some sid)
    then have na: "\<not> stream_active ch sid (task_lock s)"
      unfolding find_free_stream_def by (metis (no_types, lifting) find_Some_iff)
    obtain ev st where i: "input_stream_init_default junk esp now new ch sid (task_lock s) =
        Some (Inr ((), (task_lock s)\<lparr> ks_events := ev, ks_streams := st \<rparr>))"
      using na by (auto simp: input_stream_init_default_def upd_stream_def task_event_create_def Let_def)
    have "\<not> ks_skipped ((task_lock s)\<lparr> ks_events := ev, ks_streams := st \<rparr>)" using assms by (simp add: task_lock_def)
    from register_to_stream_ok [OF this, of junk esp now new ch sid] obtain ev2 st2 where
      "input_manager_register_to_stream junk esp now new ch sid ((task_lock s)\<lparr> ks_events := ev, ks_streams := st \<rparr>) =
        Some (Inr ((), (task_lock s)\<lparr> ks_events := ev, ks_streams := st, ks_events := ev2, ks_streams := st2 \<rparr>))" by blast
    then show ?thesis using Some i by (intro exI [of _ ev2] exI [of _ st2] exI [of _ "of_nat sid"]) simp
  qed
  then obtain ev st sid where e: "?f (task_lock s) = Some (Inr (sid, (task_lock s)\<lparr> ks_events := ev, ks_streams := st \<rparr>))"
    by blast
  have "input_manager_register_to_new_stream junk esp now new ch s =
      Some (Inr (sid, (task_lock s)\<lparr> ks_events := ev, ks_streams := st, ks_locked := ks_locked s \<rparr>))"
    unfolding input_manager_register_to_new_stream_def
    by (subst task_locked_ok [where f = ?f, OF e]) (use assms in \<open>simp_all add: task_lock_def\<close>)
  then show ?thesis by (auto simp: task_lock_def)
qed

text \<open>\<open>s'\<close> differs from \<open>s\<close> in the input streams and in the stream table of task \<open>t\<close> only.\<close>

definition inputs_differ :: "nat \<Rightarrow> kstate \<Rightarrow> kstate \<Rightarrow> bool" where
  "inputs_differ t s s' = (\<exists>ev st f. s' = s\<lparr> ks_events := ev, ks_streams := st,
     ks_tasks := (ks_tasks s)(t := (ks_tasks s t)\<lparr> t_input_sids := f \<rparr>) \<rparr>)"

lemma inputs_differI:
  "inputs_differ t s (s\<lparr> ks_events := ev, ks_streams := st,
     ks_tasks := (ks_tasks s)(t := (ks_tasks s t)\<lparr> t_input_sids := f \<rparr>) \<rparr>)"
  by (auto simp: inputs_differ_def)

lemma inputs_differ_refl: "inputs_differ t s s"
  unfolding inputs_differ_def
  by (intro exI [of _ "ks_events s"] exI [of _ "ks_streams s"] exI [of _ "t_input_sids (ks_tasks s t)"]) simp

lemma inputs_differ_trans: "inputs_differ t s s1 \<Longrightarrow> inputs_differ t s1 s2 \<Longrightarrow> inputs_differ t s s2"
proof -
  assume "inputs_differ t s s1" "inputs_differ t s1 s2"
  then obtain ev st f where "s2 = s\<lparr> ks_events := ev, ks_streams := st,
     ks_tasks := (ks_tasks s)(t := (ks_tasks s t)\<lparr> t_input_sids := f \<rparr>) \<rparr>" unfolding inputs_differ_def by force
  then show ?thesis using inputs_differI by simp
qed

lemma inputs_differ_skipped: "inputs_differ t s s1 \<Longrightarrow> ks_skipped s1 = ks_skipped s"
  by (auto simp: inputs_differ_def)

lemma task_input_init_ok:
  assumes "\<not> ks_skipped s"
  shows "\<exists>s'. task_input_init e t sids ch s = Some (Inr s') \<and> inputs_differ t s s'"
proof -
  have same: "s\<lparr> ks_events := ks_events s, ks_streams := ks_streams s, ks_tasks := us \<rparr> = s\<lparr> ks_tasks := us \<rparr>" for us
    by simp
  consider "sids ch = TASK_INPUT_NONE" | "sids ch = TASK_INPUT_NEW"
    | "sids ch \<noteq> TASK_INPUT_NONE" "sids ch \<noteq> TASK_INPUT_NEW" by blast
  then show ?thesis
  proof cases
    case 1
    then have "task_input_init e t sids ch s = Some (Inr (s\<lparr> ks_events := ks_events s, ks_streams := ks_streams s,
       ks_tasks := (ks_tasks s)(t := (ks_tasks s t)\<lparr> t_input_sids := (t_input_sids (ks_tasks s t))(ch := TASK_INPUT_NONE) \<rparr>) \<rparr>))"
      by (simp add: task_input_init_def set_sid_def upd_task_def)
    then show ?thesis using inputs_differI by blast
  next
    case 2
    obtain ev st sid where r: "input_manager_register_to_new_stream (ce_junk e) (ce_esp e) (ce_now e) (ce_new e ch) ch s =
        Some (Inr (sid, s\<lparr> ks_events := ev, ks_streams := st \<rparr>))"
      using register_to_new_stream_ok [OF assms] by blast
    have "TASK_INPUT_NEW \<noteq> TASK_INPUT_NONE" by (simp add: TASK_INPUT_NEW_def TASK_INPUT_NONE_def)
    then have "task_input_init e t sids ch s = Some (Inr (s\<lparr> ks_events := ev, ks_streams := st,
       ks_tasks := (ks_tasks s)(t := (ks_tasks s t)\<lparr> t_input_sids :=
         (t_input_sids (ks_tasks s t))(ch := (if sid = - 1 then TASK_INPUT_NONE else sid)) \<rparr>) \<rparr>))"
      using 2 r by (simp add: task_input_init_def set_sid_def upd_task_def)
    then show ?thesis using inputs_differI by blast
  next
    case 3
    obtain ev st where r: "input_manager_register_to_stream (ce_junk e) (ce_esp e) (ce_now e) (ce_new e ch) ch
          (unat (sids ch)) (set_sid t ch (sids ch) s) =
        Some (Inr ((), (set_sid t ch (sids ch) s)\<lparr> ks_events := ev, ks_streams := st \<rparr>))"
      using register_to_stream_ok [of "set_sid t ch (sids ch) s" "ce_junk e" "ce_esp e" "ce_now e" "ce_new e ch" ch "unat (sids ch)"]
        assms by (auto simp: set_sid_def upd_task_def)
    have "task_input_init e t sids ch s = Some (Inr (s\<lparr> ks_events := ev, ks_streams := st,
       ks_tasks := (ks_tasks s)(t := (ks_tasks s t)\<lparr> t_input_sids := (t_input_sids (ks_tasks s t))(ch := sids ch) \<rparr>) \<rparr>))"
      using 3 r by (simp add: task_input_init_def) (simp add: set_sid_def upd_task_def)
    then show ?thesis using inputs_differI by blast
  qed
qed

lemma task_inputs_init_ok:
  "\<not> ks_skipped s \<Longrightarrow> \<exists>s'. task_inputs_init e t sids chs s = Some (Inr s') \<and> inputs_differ t s s'"
proof (induction chs arbitrary: s)
  case Nil
  then show ?case using inputs_differ_refl by auto
next
  case (Cons ch chs)
  obtain s1 where s1: "task_input_init e t sids ch s = Some (Inr s1)" "inputs_differ t s s1"
    using task_input_init_ok [OF Cons.prems] by blast
  obtain s2 where "task_inputs_init e t sids chs s1 = Some (Inr s2)" "inputs_differ t s1 s2"
    using Cons.IH [of s1] inputs_differ_skipped [OF s1(2)] Cons.prems by blast
  then show ?case using s1 inputs_differ_trans by fastforce
qed

section \<open>Creation\<close>

text \<open>The state in which the new task is complete but not yet in the ring.\<close>

lemma task_init_prefix_ok:
  assumes inv: "task_inv s xs" and room: "length xs < 32" and sk: "\<not> ks_skipped s"
  shows "\<exists>t s'. task_init_prefix e sz pd sids s = Some (Inr (t, s')) \<and> t < 32 \<and> t \<notin> set xs \<and>
    ks_links s' = ks_links s \<and> ks_current s' = ks_current s \<and> ks_lazy s' = ks_lazy s \<and> ks_log s' = ks_log s \<and>
    ks_skipped s' = ks_skipped s \<and>
    bm_bits (ks_used s') = 32 \<and> bm_inv (ks_used s') \<and> (\<forall>u < 32. bm_bit (ks_used s') u \<longleftrightarrow> u = t \<or> u \<in> set xs) \<and>
    unat (ks_count s') = Suc (length xs) \<and> (\<forall>u. u \<noteq> t \<longrightarrow> ks_tasks s' u = ks_tasks s u) \<and>
    unat (t_pid (ks_tasks s' t)) = t \<and> t_state (ks_tasks s' t) = TASK_READY \<and>
    t_stack_start (ks_tasks s' t) = ce_stack e \<and> t_stack_size (ks_tasks s' t) = sz \<and>
    t_page_dict (ks_tasks s' t) = pd \<and> t_fpu (ks_tasks s' t) = ce_fpu e"
proof -
  have cnt: "unat (ks_count s) = length xs" using inv by (simp add: task_inv_def)
  then have lt: "ks_count s < MAX_TASKS" using room by (simp add: MAX_TASKS_def word_less_nat_alt)
  have cnt1: "unat (ks_count s + 1) = Suc (length xs)" using cnt room by (simp add: unat_word_ariths)
  obtain r b where id: "tasks_get_free_id s = Inr (r, s\<lparr> ks_used := b, ks_pr_id := r \<rparr>)" "unat r < 32" "unat r \<notin> set xs"
    "bm_bits b = 32" "bm_inv b" "\<forall>t < 32. bm_bit b t \<longleftrightarrow> t = unat r \<or> t \<in> set xs"
    using tasks_get_free_id_ok [OF inv room] by blast
  let ?t = "unat r"
  define s1 where "s1 = (let s = s\<lparr> ks_used := b, ks_pr_id := r \<rparr>; s = upd_task ?t (\<lambda>x. x\<lparr> t_pid := r \<rparr>) s;
            s = sched_task_set_state ?t TASK_READY s; s = s\<lparr> ks_count := ks_count s + 1 \<rparr>
        in upd_task ?t (\<lambda>x. x\<lparr> t_stack_start := ce_stack e, t_stack_size := sz, t_page_dict := pd, t_ebp := 0 \<rparr>) s)"
  have "\<not> ks_skipped s1" using sk by (simp add: s1_def upd_task_def sched_task_set_state_def Let_def)
  from task_inputs_init_ok [OF this, of e ?t sids "[0..<INPUT_CHANNELS]"] obtain s2 where
    s2: "task_inputs_init e ?t sids [0..<INPUT_CHANNELS] s1 = Some (Inr s2)" "inputs_differ ?t s1 s2" by blast
  have run: "task_init_prefix e sz pd sids s = Some (Inr (?t, upd_task ?t (\<lambda>x. x\<lparr> t_fpu := ce_fpu e \<rparr>) s2))"
    using lt id(1) s2(1) by (simp add: task_init_prefix_def s1_def Let_def)
  obtain ev st f where f: "s2 = s1\<lparr> ks_events := ev, ks_streams := st,
     ks_tasks := (ks_tasks s1)(?t := (ks_tasks s1 ?t)\<lparr> t_input_sids := f \<rparr>) \<rparr>"
    using s2(2) unfolding inputs_differ_def by blast
  show ?thesis unfolding run
    by (intro exI [of _ ?t] exI [of _ "upd_task ?t (\<lambda>x. x\<lparr> t_fpu := ce_fpu e \<rparr>) s2"])
       (use id cnt1 in \<open>simp add: f s1_def upd_task_def sched_task_set_state_def Let_def\<close>)
qed

text \<open>Adding a complete task to the ring, whatever its stack and user heap.\<close>

lemma task_add_new_ok:
  assumes inv: "task_inv s (c # ys)" and cur: "ks_current s = Some c"
    and t: "t < 32" "t \<notin> set (c # ys)"
    and s1: "ks_links s1 = ks_links s" "ks_current s1 = ks_current s" "ks_lazy s1 = ks_lazy s"
      "bm_bits (ks_used s1) = 32" "bm_inv (ks_used s1)" "\<forall>u < 32. bm_bit (ks_used s1) u \<longleftrightarrow> u = t \<or> u \<in> set (c # ys)"
      "unat (ks_count s1) = Suc (length (c # ys))" "\<forall>u. u \<noteq> t \<longrightarrow> ks_tasks s1 u = ks_tasks s u"
      "unat (t_pid (ks_tasks s1 t)) = t" "t_state (ks_tasks s1 t) = TASK_READY"
  shows "\<exists>lk. sched_task_add_new t s1 = Inr (s1\<lparr> ks_links := lk \<rparr>) \<and>
    task_inv (s1\<lparr> ks_links := lk \<rparr>) (c # ys @ [t])"
proof -
  have r: "ring (ks_links s) (c # ys)" using inv by (simp add: task_inv_def)
  have l: "lleft (ks_links s1 c) = Some (last (c # ys))" using r s1(1) by (simp add: ring_def)
  let ?lk = "list_add (ks_links s1) (last (c # ys)) t"
  have "ring ?lk (c # ys @ [t])" using tq.add_before [OF r t(2)] s1(1) by simp
  moreover have "sched_task_add_new t s1 = Inr (s1\<lparr> ks_links := ?lk \<rparr>)"
    using l cur s1(2) by (simp add: sched_task_add_new_def deref_def)
  ultimately show ?thesis using inv t s1 by (intro exI [of _ ?lk]) (auto simp: task_inv_def)
qed

lemma task_create_kthread_ok:
  assumes inv: "task_inv s (c # ys)" and cur: "ks_current s = Some c"
    and room: "length (c # ys) < 32" and sk: "\<not> ks_skipped s"
  shows "\<exists>t s'. task_create_kthread e ex entry arg sz sids s = Some (Inr s') \<and> t \<notin> set (c # ys) \<and>
    task_inv s' (c # ys @ [t]) \<and> ks_current s' = Some c \<and> ks_log s' = ks_log s \<and>
    (\<forall>u. u \<noteq> t \<longrightarrow> ks_tasks s' u = ks_tasks s u) \<and> t_state (ks_tasks s' t) = TASK_READY \<and>
    t_page_dict (ks_tasks s' t) = kernel_page_dict_id \<and>
    t_esp (ks_tasks s' t) = ce_stack e + sz - 64 \<and>
    t_frame (ks_tasks s' t) = [0x10] @ replicate 10 0 @ [entry, 0x08, 0x202, ex, arg]"
proof -
  obtain t s1 where s1: "task_init_prefix e sz kernel_page_dict_id sids s = Some (Inr (t, s1))" "t < 32" "t \<notin> set (c # ys)"
    "ks_links s1 = ks_links s" "ks_current s1 = ks_current s" "ks_lazy s1 = ks_lazy s" "ks_log s1 = ks_log s"
    "bm_bits (ks_used s1) = 32" "bm_inv (ks_used s1)" "\<forall>u < 32. bm_bit (ks_used s1) u \<longleftrightarrow> u = t \<or> u \<in> set (c # ys)"
    "unat (ks_count s1) = Suc (length (c # ys))" "\<forall>u. u \<noteq> t \<longrightarrow> ks_tasks s1 u = ks_tasks s u"
    "unat (t_pid (ks_tasks s1 t)) = t" "t_state (ks_tasks s1 t) = TASK_READY"
    "t_stack_start (ks_tasks s1 t) = ce_stack e" "t_stack_size (ks_tasks s1 t) = sz" "t_page_dict (ks_tasks s1 t) = kernel_page_dict_id"
    using task_init_prefix_ok [OF inv room sk, of e sz kernel_page_dict_id sids] by blast
  let ?f = "push_frame [arg, ex, 0x202, 0x08, entry, 0, 0, 0, 0, 0, 0, 0, 0, 0, 0, 0x10]"
  let ?s2 = "upd_task t ?f s1"
  obtain lk where lk: "sched_task_add_new t ?s2 = Inr (?s2\<lparr> ks_links := lk \<rparr>)"
    "task_inv (?s2\<lparr> ks_links := lk \<rparr>) (c # ys @ [t])"
    using task_add_new_ok [OF inv cur s1(2,3), of ?s2] s1 by (auto simp: upd_task_def push_frame_def)
  have "task_create_kthread e ex entry arg sz sids s = Some (Inr (?s2\<lparr> ks_links := lk \<rparr>))"
    using s1(1) lk(1) by (simp add: task_create_kthread_def task_init_kernel_def)
  then show ?thesis
    by (intro exI [of _ t] exI [of _ "?s2\<lparr> ks_links := lk \<rparr>"])
       (use s1 lk(2) cur in \<open>simp add: upd_task_def push_frame_def STACK_TOP_def eval_nat_numeral\<close>)
qed

lemma task_create_full:
  assumes "task_inv s xs" "length xs = 32"
  shows "task_create_kthread e ex entry arg sz sids s = Some (Inl (Assertion ''task_count < MAX_TASKS''))"
proof -
  have "\<not> ks_count s < MAX_TASKS" using assms by (simp add: task_inv_def MAX_TASKS_def word_less_nat_alt)
  then show ?thesis by (simp add: task_create_kthread_def task_init_kernel_def task_init_prefix_def)
qed

lemma task_create_user_process_ok:
  assumes inv: "task_inv s (c # ys)" and cur: "ks_current s = Some c"
    and room: "length (c # ys) < 32" and sk: "\<not> ks_skipped s"
  shows "\<exists>t s'. task_create_user_process e entry sz pd ust sids brk s = Some (Inr s') \<and> t \<notin> set (c # ys) \<and>
    task_inv s' (c # ys @ [t]) \<and> ks_current s' = Some c \<and>
    (\<forall>u. u \<noteq> t \<longrightarrow> ks_tasks s' u = ks_tasks s u) \<and> t_page_dict (ks_tasks s' t) = pd \<and>
    t_brk (ks_tasks s' t) = brk \<and> t_brk_start (ks_tasks s' t) = brk \<and> t_brk_end (ks_tasks s' t) = brk \<and>
    t_frame (ks_tasks s' t) = [0x23] @ replicate 10 0 @ [entry, 0x1B, 0x202, ust, 0x23]"
proof -
  obtain t s1 where s1: "task_init_prefix e sz pd sids s = Some (Inr (t, s1))" "t < 32" "t \<notin> set (c # ys)"
    "ks_links s1 = ks_links s" "ks_current s1 = ks_current s" "ks_lazy s1 = ks_lazy s"
    "bm_bits (ks_used s1) = 32" "bm_inv (ks_used s1)" "\<forall>u < 32. bm_bit (ks_used s1) u \<longleftrightarrow> u = t \<or> u \<in> set (c # ys)"
    "unat (ks_count s1) = Suc (length (c # ys))" "\<forall>u. u \<noteq> t \<longrightarrow> ks_tasks s1 u = ks_tasks s u"
    "unat (t_pid (ks_tasks s1 t)) = t" "t_state (ks_tasks s1 t) = TASK_READY" "t_page_dict (ks_tasks s1 t) = pd"
    using task_init_prefix_ok [OF inv room sk, of e sz pd sids] by blast
  let ?g = "\<lambda>x. x\<lparr> t_brk_start := brk, t_brk := brk, t_brk_end := brk, t_mmap_next := 0 \<rparr>"
  let ?f = "push_frame [0x23, ust, 0x202, 0x1B, entry, 0, 0, 0, 0, 0, 0, 0, 0, 0, 0, 0x23]"
  let ?s2 = "upd_task t ?f (upd_task t ?g s1)"
  obtain lk where lk: "sched_task_add_new t ?s2 = Inr (?s2\<lparr> ks_links := lk \<rparr>)"
    "task_inv (?s2\<lparr> ks_links := lk \<rparr>) (c # ys @ [t])"
    using task_add_new_ok [OF inv cur s1(2,3), of ?s2] s1 by (auto simp: upd_task_def push_frame_def)
  have "task_create_user_process e entry sz pd ust sids brk s = Some (Inr (?s2\<lparr> ks_links := lk \<rparr>))"
    using s1(1) lk(1) by (simp add: task_create_user_process_def task_init_user_def)
  then show ?thesis
    by (intro exI [of _ t] exI [of _ "?s2\<lparr> ks_links := lk \<rparr>"])
       (use s1 lk(2) cur in \<open>simp add: upd_task_def push_frame_def eval_nat_numeral\<close>)
qed

section \<open>Exit\<close>

definition no_inputs :: "task_t \<Rightarrow> bool" where
  "no_inputs x = (\<forall>ch < INPUT_CHANNELS. t_input_sids x ch = TASK_INPUT_NONE \<or> t_input_sids x ch = TASK_INPUT_NEW)"

lemma task_inputs_unregister_none:
  "(\<forall>ch \<in> set chs. t_input_sids (ks_tasks s t) ch = TASK_INPUT_NONE \<or> t_input_sids (ks_tasks s t) ch = TASK_INPUT_NEW) \<Longrightarrow>
   task_inputs_unregister esp now t chs s = Some (Inr s)"
  by (induction chs) (auto simp: task_input_unregister_def Let_def)

text \<open>What the current task releases when it is destroyed, in this order.\<close>

definition exit_log :: "task_t \<Rightarrow> task_t \<Rightarrow> kcall list" where
  "exit_log dead nxt = [Fpu_Restore (t_fpu nxt), Switch_Page_Dict (t_page_dict dead) (t_page_dict nxt)] @
     (if t_page_dict dead \<noteq> kernel_page_dict_id then [Destroy_Page_Dict (t_page_dict dead)] else []) @
     [Free_Stack (t_stack_start dead), Free_Fpu (t_fpu dead)]"

lemma task_exit_ok:
  assumes inv: "task_inv s (c # ys)" and cur: "ks_current s = Some c"
    and c: "c \<noteq> 0" "c \<noteq> 1" and ni: "no_inputs (ks_tasks s c)"
  shows "\<exists>n s' zs. task_exit esp now s = Some (Inr s') \<and> ks_current s' = Some n \<and>
    n = (case find (sched_runnable now s) ys of Some t \<Rightarrow> t | None \<Rightarrow> 0) \<and> n \<in> set ys \<and>
    task_inv s' zs \<and> set zs = set ys \<and> ks_destroy s' = None \<and>
    ks_log s' = ks_log s @ exit_log (ks_tasks s c) (ks_tasks s n)"
proof -
  define s1 where "s1 = sched_task_set_state c TASK_TERMINATED (s\<lparr> ks_destroy := Some c \<rparr>)"
  have r: "ring (ks_links s) (c # ys)" and d: "c \<notin> set ys" "distinct ys" and zero: "0 \<in> set ys"
    using inv c(1) by (auto simp: task_inv_def ring_def)
  have pid: "unat (t_pid (ks_tasks s c)) = c" using inv by (simp add: task_inv_def)
  then have pidne: "t_pid (ks_tasks s c) \<noteq> 0" "t_pid (ks_tasks s c) \<noteq> 1" using c by auto
  have s1: "ks_links s1 = ks_links s" "ks_current s1 = Some c" "ks_lazy s1 = Some 0" "ks_used s1 = ks_used s"
    "ks_destroy s1 = Some c" "ks_log s1 = ks_log s" "ks_count s1 = ks_count s"
    "ks_tasks s1 = (ks_tasks s)(c := (ks_tasks s c)\<lparr> t_state := TASK_TERMINATED \<rparr>)"
    using inv cur by (simp_all add: s1_def sched_task_set_state_def upd_task_def task_inv_def)
  have fit: "pids_fit s1 (set (c # ys))" using task_inv_fit [OF inv] s1 by (simp add: pids_fit_def)
  have run_other: "sched_runnable now s1 t = sched_runnable now s t" if "t \<noteq> c" for t
  proof -
    have e: "ks_tasks s1 t = ks_tasks s t" "ks_lazy s1 = ks_lazy s" using that s1 inv by (simp_all add: task_inv_def)
    show ?thesis unfolding sched_runnable_def e by (rule refl)
  qed
  have dead: "sched_dead s1 t \<longleftrightarrow> t = c" if "t \<in> set (c # ys)" for t
    using that s1 inv c(1) by (auto simp: sched_dead_def task_inv_def)
  have run_c: "\<not> sched_runnable now s1 c" using s1 by (simp add: sched_runnable_def)
  define n where "n = (case find (sched_runnable now s) ys of Some t \<Rightarrow> t | None \<Rightarrow> 0)"
  have f: "find (sched_runnable now s1) (ys @ [c]) = find (sched_runnable now s) ys"
  proof -
    have "find (sched_runnable now s1) (xs @ [c]) = find (sched_runnable now s) xs" if "c \<notin> set xs" for xs
      using that run_c by (induction xs) (auto simp: run_other)
    then show ?thesis using d(1) by blast
  qed
  have n: "n \<in> set ys"
  proof (cases "find (sched_runnable now s) ys")
    case (Some t)
    then show ?thesis using find_split [OF Some] by (auto simp: n_def)
  qed (use zero in \<open>simp add: n_def\<close>)
  have nc: "n \<noteq> c" using n d(1) by blast
  let ?V = "visited now s1 (ys @ [c])"
  obtain s2 where s2: "sched_task_get_next now c s1 = Some (Inr (Some n, s2))" "sched_visit now s1 ?V s2"
    using sched_task_get_next_ok [of s1 c ys now] r fit s1(1,3) unfolding f
    by (cases "find (sched_runnable now s) ys") (auto simp: n_def)
  obtain us ub where u: "s2 = s1\<lparr> ks_tasks := us, ks_used := ub \<rparr>"
    "\<And>t. us t = (if t \<in> ?V then (ks_tasks s1 t)\<lparr> t_state := sched_woken now s1 t \<rparr> else ks_tasks s1 t)"
    "length (bm_buff ub) = length (bm_buff (ks_used s))" "bm_bits ub = bm_bits (ks_used s)"
    "\<And>p. bm_bit ub p = (bm_bit (ks_used s) p \<and> \<not> (\<exists>t \<in> ?V. sched_dead s1 t \<and> unat (t_pid (ks_tasks s1 t)) = p))"
    using s2(2) unfolding sched_visit_def s1(4) by blast
  have V: "?V \<subseteq> set (c # ys)" using visited_subset [of now s1 "ys @ [c]"] by auto
  have keep: "t_pid (us t) = t_pid (ks_tasks s t)" "t_page_dict (us t) = t_page_dict (ks_tasks s t)"
    "t_fpu (us t) = t_fpu (ks_tasks s t)" "t_stack_start (us t) = t_stack_start (ks_tasks s t)"
    "t_input_sids (us t) = t_input_sids (ks_tasks s t)" for t
    unfolding u(2) s1(8) by simp_all
  have alive: "t_state (us t) \<noteq> TASK_TERMINATED" if "t \<in> set ys" for t
  proof -
    have "t \<noteq> c" "t_state (ks_tasks s t) \<noteq> TASK_TERMINATED" using that d(1) inv by (auto simp: task_inv_def)
    then show ?thesis unfolding u(2) s1(8) by (simp add: sched_woken_def s1(8))
  qed
  define s3 where "s3 = sched_task_set_state n TASK_RUNNING (task_set_current n (s2\<lparr> ks_esp0 := STACK_TOP (ks_tasks s2 n) \<rparr>))"
  define us3 where "us3 = us(n := (us n)\<lparr> t_state := TASK_RUNNING \<rparr>)"
  have s3: "ks_tasks s3 = us3" "ks_used s3 = ub" "ks_links s3 = ks_links s" "ks_current s3 = Some n" "ks_lazy s3 = Some 0"
    "ks_destroy s3 = Some c" "ks_log s3 = ks_log s" "ks_count s3 = ks_count s"
    using u(1) s1 by (simp_all add: s3_def us3_def sched_task_set_state_def task_set_current_def upd_task_def)
  have keep3: "t_pid (us3 t) = t_pid (ks_tasks s t)" "t_page_dict (us3 t) = t_page_dict (ks_tasks s t)"
    "t_fpu (us3 t) = t_fpu (ks_tasks s t)" "t_stack_start (us3 t) = t_stack_start (ks_tasks s t)"
    "t_input_sids (us3 t) = t_input_sids (ks_tasks s t)" for t
    using keep by (simp_all add: us3_def)
  define lg where "lg = exit_log (ks_tasks s c) (ks_tasks s n)"
  have exit: "task_exit esp now s = goto_current_task esp now s3"
    using cur pidne s2(1) by (simp add: task_exit_def deref_def s1_def [symmetric] s3_def Let_def)
  have len: "unat (t_pid (ks_tasks s c)) div 32 < length (bm_buff ub)"
    using fit s1 u(3) by (simp add: pids_fit_def)
  define ub' where "ub' = bm_put False ub c"
  let ?s4 = "s3\<lparr> ks_log := ks_log s @ lg, ks_used := ub', ks_count := ks_count s - 1,
      ks_links := list_erase_cycle (ks_links s) c, ks_destroy := None \<rparr>"
  have un: "task_inputs_unregister esp now c [0..<INPUT_CHANNELS] s' = Some (Inr s')" if "ks_tasks s' = us3" for s'
    by (rule task_inputs_unregister_none) (use ni keep3(5) that in \<open>auto simp: no_inputs_def\<close>)
  have clear: "bitmap_clear_bit ub (t_pid (ks_tasks s c)) = Inr ub'"
    using len by (simp add: bitmap_clear_bit_eq pid ub'_def)
  have destroy: "goto_current_task esp now s3 = Some (Inr ?s4)"
  proof (cases "t_page_dict (ks_tasks s c) = kernel_page_dict_id")
    case True
    then show ?thesis
      by (simp add: goto_current_task_def task_switch_finish_def task_destroy_from_accumulator_def deref_def s3 klog_def
          keep3 un tasks_erase_def clear sched_task_erase_def Let_def lg_def exit_log_def)
  next
    case False
    then show ?thesis
      by (simp add: goto_current_task_def task_switch_finish_def task_destroy_from_accumulator_def deref_def s3 klog_def
          keep3 un tasks_erase_def clear sched_task_erase_def Let_def lg_def exit_log_def)
  qed
  obtain zs where zs: "ring (list_erase_cycle (ks_links s) c) zs" "set zs = set (c # ys) - {c}" "length zs + 1 = length (c # ys)"
  proof -
    have "c \<in> set (c # ys)" "c # ys \<noteq> [c]" using n by auto
    then show ?thesis using tq.del_any [OF r] that by blast
  qed
  have ez: "set zs = set ys" "length zs = length ys" using zs(2,3) d(1) by auto
  have bits: "bm_bit ub' t \<longleftrightarrow> t \<in> set ys" if "t < 32" for t
  proof -
    have "c div 32 < length (bm_buff ub)" using len pid by simp
    then have "bm_bit ub' t \<longleftrightarrow> t \<noteq> c \<and> bm_bit ub t" by (simp add: ub'_def bm_bit_put)
    also have "bm_bit ub t \<longleftrightarrow> bm_bit (ks_used s) t \<and> \<not> (c \<in> ?V \<and> t = c)"
    proof -
      have "(\<exists>v \<in> ?V. sched_dead s1 v \<and> unat (t_pid (ks_tasks s1 v)) = t) \<longleftrightarrow> c \<in> ?V \<and> t = c"
        using dead V pid s1(8) by auto
      then show ?thesis unfolding u(5) by simp
    qed
    finally show ?thesis using inv that d(1) by (auto simp: task_inv_def)
  qed
  have cnt: "unat (ks_count s - 1) = length ys"
  proof -
    have "unat (ks_count s) = Suc (length ys)" using inv by (simp add: task_inv_def)
    then show ?thesis by (subst unat_minus_one) auto
  qed
  have "task_inv ?s4 zs"
    unfolding task_inv_def
  proof (intro conjI)
    show "set zs \<subseteq> {..<32}" using inv ez by (simp add: task_inv_def)
    show "bm_bits (ks_used ?s4) = 32" "bm_inv (ks_used ?s4)"
      using inv u(3,4) by (auto simp: task_inv_def bm_inv_def ub'_def)
    show "\<forall>t < 32. bm_bit (ks_used ?s4) t \<longleftrightarrow> t \<in> set zs" using bits ez by simp
    show "\<forall>t \<in> set zs. unat (t_pid (ks_tasks ?s4 t)) = t \<and> t_state (ks_tasks ?s4 t) \<noteq> TASK_TERMINATED"
      using inv ez keep3(1) alive by (auto simp: task_inv_def s3 us3_def)
  qed (use zs ez cnt zero s3 in simp_all)
  then show ?thesis unfolding exit destroy n_def [symmetric]
    by (intro exI [of _ n] exI [of _ ?s4] exI [of _ zs]) (use n ez s3 in \<open>simp add: lg_def\<close>)
qed

lemma task_exit_protected:
  assumes "ks_current s = Some c" "unat (t_pid (ks_tasks s c)) < 2"
  shows "\<exists>e. task_exit esp now s = Some (Inl (Assertion e))"
proof -
  have "t_pid (ks_tasks s c) = 0 \<or> t_pid (ks_tasks s c) = 1"
    using assms(2) by (auto simp: less_2_cases_iff word_unat_eq_iff)
  then show ?thesis using assms(1) by (auto simp: task_exit_def deref_def)
qed

section \<open>Properties\<close>

lemma ks_ex_inv: "task_inv (ks_ex 1) [1, 2, 0]" "task_inv (ks_ex 2) [2, 0, 1]"
proof -
  have m: "(7 :: u32) = mask 3" by (simp add: mask_eq_exp_minus_1)
  have "bm_bit \<lparr> bm_buff = [7], bm_bits = 32, bm_blocks = 1 \<rparr> t \<longleftrightarrow> t \<in> {0, 1, 2}" if "t < 32" for t
  proof -
    have "bm_bit \<lparr> bm_buff = [7], bm_bits = 32, bm_blocks = 1 \<rparr> t = bit (7 :: u32) t" using that by (simp add: bm_bit_def)
    also have "\<dots> \<longleftrightarrow> t < 3" using that unfolding m by (simp only: bit_mask_iff) auto
    finally show ?thesis by auto
  qed
  then show "task_inv (ks_ex 1) [1, 2, 0]" "task_inv (ks_ex 2) [2, 0, 1]"
    using ks_ex_ring by (auto simp: task_inv_def bm_inv_def ks_ex_def task_ex_def)
qed



text \<open>C22: exit of a task. \<open>task_exit\<close> of a task without input streams enters the first runnable other
  task, takes exactly the exiting task out of the ring and out of use, and releases its page
  directory (unless it is the kernel's), its stack and its floating-point context, once each and
  after the switch to the next task's directory.\<close>

lemma task_exit_removes_task:
  assumes "task_inv s (c # ys)" "ks_current s = Some c" "c \<noteq> 0" "c \<noteq> 1" "no_inputs (ks_tasks s c)"
  shows "\<exists>n s' zs. task_exit esp now s = Some (Inr s') \<and> ks_current s' = Some n \<and>
    n = (case find (sched_runnable now s) ys of Some t \<Rightarrow> t | None \<Rightarrow> 0) \<and> n \<in> set ys \<and>
    task_inv s' zs \<and> set zs = set ys \<and> ks_destroy s' = None \<and>
    ks_log s' = ks_log s @ exit_log (ks_tasks s c) (ks_tasks s n)"
  by (rule task_exit_ok [OF assms])

lemma task_exit_removes_task_witness:
  "\<exists>n s' zs. task_exit 0 5 (ks_ex 2) = Some (Inr s') \<and> ks_current s' = Some n \<and>
    n = (case find (sched_runnable 5 (ks_ex 2)) [0, 1] of Some t \<Rightarrow> t | None \<Rightarrow> 0) \<and> n \<in> set [0, 1] \<and>
    task_inv s' zs \<and> set zs = set [0, 1] \<and> ks_destroy s' = None \<and>
    ks_log s' = ks_log (ks_ex 2) @ exit_log (ks_tasks (ks_ex 2) 2) (ks_tasks (ks_ex 2) n)"
  by (rule task_exit_removes_task [OF ks_ex_inv(2)])
     (simp_all add: ks_ex_def no_inputs_def task_ex_def TASK_INPUT_NONE_def)

end
