(* ===== verification/Disk_Cache.thy ===== *)
theory Disk_Cache
  imports Strings
begin

text \<open>
  \<^verbatim>\<open>fs/disk.c\<close> and \<^verbatim>\<open>fs/mbr.c\<close>: sectors of a disk through a write-back cache.  The linked list of a
  cache is the list of its records, in order; the drives behind the two drivers are part of the
  state, with the faults they will show: the transfer number \<open>n\<close> moves all its sectors, or stops
  after the number of sectors \<open>hw_fault n\<close> gives and reports an error.
\<close>

unbundle bit_operations_syntax

section \<open>State\<close>

definition DISK_CACHE_SECTORS_COUNT :: u32 where "DISK_CACHE_SECTORS_COUNT = 65536"
definition DISK_MAX_CACHE_BLOCK :: u32 where "DISK_MAX_CACHE_BLOCK = 4096"

record disk_cache_record_t =
  rec_start :: u32
  rec_count :: u32
  rec_data :: bytes

text \<open>The four fields on previous requests, which nothing uses, are left out.\<close>

record disk_cache_t =
  dc_capacity :: u32
  dc_cache :: "disk_cache_record_t list"

record disk_state =
  ds_cache :: "u8 \<Rightarrow> disk_cache_t"
  ds_use_ahci :: bool
  ds_boot_id :: u8
  ds_shutdown :: bool
  hw_sectors :: "bool \<Rightarrow> u8 \<Rightarrow> u32 \<Rightarrow> bytes"
  hw_ports :: "bool \<Rightarrow> u8 list"
  hw_fault :: "nat \<Rightarrow> nat option"
  hw_transfers :: nat

section \<open>Transfers\<close>

definition disk_hardware_transfer_sync ::
    "u8 \<Rightarrow> u32 \<Rightarrow> u32 \<Rightarrow> bytes \<Rightarrow> bool \<Rightarrow> disk_state \<Rightarrow> (bool \<times> bytes \<times> disk_state) res" where
  "disk_hardware_transfer_sync disk_id start_sector sectors_count buffer write s =
     (let fault = hw_fault s (hw_transfers s);
          n = (case fault of None \<Rightarrow> unat sectors_count | Some k \<Rightarrow> min k (unat sectors_count));
          old = hw_sectors s (ds_use_ahci s) disk_id;
          s = s\<lparr> hw_transfers := Suc (hw_transfers s) \<rparr> in
      if write then
        rbind (buf_read buffer 0 (n * 512)) (\<lambda>data.
        let new = (\<lambda>x. if unat (x - start_sector) < n then slot 512 data (unat (x - start_sector)) else old x);
            hw = (hw_sectors s)(ds_use_ahci s := (hw_sectors s (ds_use_ahci s))(disk_id := new))
        in Inr (fault = None, buffer, s\<lparr> hw_sectors := hw \<rparr>))
      else
        rbind (buf_write buffer 0 (concat (map (\<lambda>i. old (start_sector + of_nat i)) [0..<n]))) (\<lambda>buffer.
        Inr (fault = None, buffer, s)))"

text \<open>\<open>caches + disk_id\<close>\<close>

definition disk_cache_of :: "u8 \<Rightarrow> disk_state \<Rightarrow> disk_cache_t res" where
  "disk_cache_of disk_id s = (if disk_id < 32 then Inr (ds_cache s disk_id) else Inl Out_Of_Bounds)"

definition set_cache :: "u8 \<Rightarrow> disk_cache_t \<Rightarrow> disk_state \<Rightarrow> disk_state" where
  "set_cache disk_id c s = s\<lparr> ds_cache := (ds_cache s)(disk_id := c) \<rparr>"

fun covering_record :: "u32 \<Rightarrow> u32 \<Rightarrow> disk_cache_record_t list \<Rightarrow> nat \<Rightarrow> nat option" where
  "covering_record start_sector sectors_count [] k = None"
| "covering_record start_sector sectors_count (r # rs) k =
     (if rec_start r \<le> start_sector \<and> start_sector + sectors_count \<le> rec_start r + rec_count r then Some k
      else covering_record start_sector sectors_count rs (Suc k))"

text \<open>The record is the index of its node in the list.\<close>

definition disk_get_covering :: "u8 \<Rightarrow> u32 \<Rightarrow> u32 \<Rightarrow> disk_state \<Rightarrow> nat option res" where
  "disk_get_covering disk_id start_sector sectors_count s =
     rbind (disk_cache_of disk_id s) (\<lambda>c. Inr (covering_record start_sector sectors_count (dc_cache c) 0))"

fun flush_records :: "u8 \<Rightarrow> disk_cache_record_t list \<Rightarrow> disk_state \<Rightarrow> (bool \<times> disk_state) res" where
  "flush_records disk_id [] s = Inr (True, s)"
| "flush_records disk_id (r # rs) s =
     rbind (disk_hardware_transfer_sync disk_id (rec_start r) (rec_count r) (rec_data r) True s) (\<lambda>(ok, _, s).
     if ok then flush_records disk_id rs s else Inr (False, s))"

definition disk_flush_cache_sync :: "u8 \<Rightarrow> disk_state \<Rightarrow> (bool \<times> disk_state) res" where
  "disk_flush_cache_sync disk_id s =
     rbind (disk_cache_of disk_id s) (\<lambda>c. flush_records disk_id (dc_cache c) s)"

text \<open>The loop that makes room, from the front of the list.\<close>

fun disk_evict :: "u32 \<Rightarrow> u32 \<Rightarrow> disk_cache_record_t list \<Rightarrow> (u32 \<times> disk_cache_record_t list) res" where
  "disk_evict sectors_count capacity [] =
     (if capacity + sectors_count > DISK_CACHE_SECTORS_COUNT then Inl (Undefined ''NULL dereference'')
      else Inr (capacity, []))"
| "disk_evict sectors_count capacity (r # rs) =
     (if capacity + sectors_count > DISK_CACHE_SECTORS_COUNT
      then disk_evict sectors_count (capacity - rec_count r) rs
      else Inr (capacity, r # rs))"

text \<open>
  The loop that erases overlapping records.  \<open>node\<close> (\<^verbatim>\<open>top\<close>) is the node the new record goes behind: none, the
  node at an index of the records kept so far, or what the code reads as the left neighbour of a
  node after it has freed that node.
\<close>

datatype cache_top = Top_Null | Top_Node nat | Top_Freed

fun drop_overlapping ::
    "u32 \<Rightarrow> u32 \<Rightarrow> disk_cache_record_t list \<Rightarrow> disk_cache_record_t list \<Rightarrow> cache_top \<Rightarrow>
     disk_cache_record_t list \<times> cache_top" where
  "drop_overlapping start_sector sectors_count kept [] node = (kept, node)"
| "drop_overlapping start_sector sectors_count kept (r # rs) node =
     (if rec_start r < start_sector + sectors_count \<and> start_sector < rec_start r + rec_count r
      then drop_overlapping start_sector sectors_count kept rs Top_Freed
      else drop_overlapping start_sector sectors_count (kept @ [r]) rs (Top_Node (length kept)))"

fun insert_record :: "disk_cache_record_t \<Rightarrow> disk_cache_record_t list \<Rightarrow> cache_top \<Rightarrow> disk_cache_record_t list res" where
  "insert_record new rs Top_Null = Inr (new # rs)"
| "insert_record new rs (Top_Node k) = Inr (take (Suc k) rs @ new # drop (Suc k) rs)"
| "insert_record new rs Top_Freed = Inl (Undefined ''node used after free'')"

definition disk_add_cache_record_sync :: "u8 \<Rightarrow> u32 \<Rightarrow> u32 \<Rightarrow> bytes \<Rightarrow> disk_state \<Rightarrow> disk_state res" where
  "disk_add_cache_record_sync disk_id start_sector sectors_count data s =
     (if sectors_count > DISK_MAX_CACHE_BLOCK then Inr s
      else
        rbind (disk_flush_cache_sync disk_id s) (\<lambda>(_, s).
        rbind (disk_cache_of disk_id s) (\<lambda>c.
        rbind (disk_evict sectors_count (dc_capacity c) (dc_cache c)) (\<lambda>(capacity, rs).
        rbind (buf_read data 0 (unat (sectors_count * 512))) (\<lambda>d.
        let (rs, node) = drop_overlapping start_sector sectors_count [] rs Top_Null;
            new = \<lparr> rec_start = start_sector, rec_count = sectors_count, rec_data = d \<rparr> in
        rbind (insert_record new rs node) (\<lambda>rs.
        Inr (set_cache disk_id \<lparr> dc_capacity = capacity, dc_cache = rs \<rparr> s)))))))"

definition disk_read_sync ::
    "u8 \<Rightarrow> u32 \<Rightarrow> u32 \<Rightarrow> bytes \<Rightarrow> disk_state \<Rightarrow> (bool \<times> bytes \<times> disk_state) res" where
  "disk_read_sync disk_id start_sector sectors_count buffer s =
     rbind (disk_get_covering disk_id start_sector sectors_count s) (\<lambda>record.
     case record of
       None \<Rightarrow>
         rbind (disk_hardware_transfer_sync disk_id start_sector sectors_count buffer False s) (\<lambda>(ok, buffer, s).
         if \<not> ok then Inr (False, buffer, s)
         else rbind (disk_add_cache_record_sync disk_id start_sector sectors_count buffer s) (\<lambda>s.
              Inr (True, buffer, s)))
     | Some k \<Rightarrow>
         let r = dc_cache (ds_cache s disk_id) ! k in
         rbind (buf_copy buffer 0 (rec_data r) (unat ((start_sector - rec_start r) * 512)) (unat (sectors_count * 512))) (\<lambda>buffer.
         Inr (True, buffer, s)))"

definition disk_write_sync ::
    "u8 \<Rightarrow> u32 \<Rightarrow> u32 \<Rightarrow> bytes \<Rightarrow> disk_state \<Rightarrow> (bool \<times> disk_state) res" where
  "disk_write_sync disk_id start_sector sectors_count buffer s =
     rbind (disk_get_covering disk_id start_sector sectors_count s) (\<lambda>record.
     case record of
       None \<Rightarrow>
         rbind (disk_hardware_transfer_sync disk_id start_sector sectors_count buffer True s) (\<lambda>(ok, _, s).
         if \<not> ok then Inr (False, s)
         else rbind (disk_add_cache_record_sync disk_id start_sector sectors_count buffer s) (\<lambda>s.
              Inr (True, s)))
     | Some k \<Rightarrow>
         let c = ds_cache s disk_id;
             r = dc_cache c ! k in
         rbind (buf_copy (rec_data r) (unat ((start_sector - rec_start r) * 512)) buffer 0 (unat (sectors_count * 512))) (\<lambda>d.
         Inr (True, set_cache disk_id (c\<lparr> dc_cache := (dc_cache c)[k := r\<lparr> rec_data := d \<rparr>] \<rparr>) s)))"

section \<open>Disks\<close>

definition disk_enumerate_disks :: "disk_state \<Rightarrow> u8 list" where
  "disk_enumerate_disks s = hw_ports s (ds_use_ahci s)"

text \<open>\<open>buffer\<close> starts as what the stack holds; the result of the read is not looked at.\<close>

fun search_ports :: "bytes \<Rightarrow> u8 list \<Rightarrow> bytes \<Rightarrow> disk_state \<Rightarrow> disk_state res" where
  "search_ports signature [] buffer s = Inr (s\<lparr> ds_boot_id := - 1 \<rparr>)"
| "search_ports signature (port # ports) buffer s =
     rbind (disk_read_sync port 0 1 buffer s) (\<lambda>(_, buffer, s).
     rbind (memcmp (drop 440 buffer) signature 6) (\<lambda>same.
     if same then Inr (s\<lparr> ds_boot_id := port \<rparr>) else search_ports signature ports buffer s))"

definition disk_search_boot_disk :: "bytes \<Rightarrow> bytes \<Rightarrow> disk_state \<Rightarrow> disk_state res" where
  "disk_search_boot_disk signature buffer s = search_ports signature (disk_enumerate_disks s) buffer s"

definition disk_get_boot_disk_id :: "disk_state \<Rightarrow> u8" where
  "disk_get_boot_disk_id s = ds_boot_id s"

fun flush_ports :: "u8 list \<Rightarrow> disk_state \<Rightarrow> disk_state res" where
  "flush_ports [] s = Inr s"
| "flush_ports (port # ports) s = rbind (disk_flush_cache_sync port s) (\<lambda>(_, s). flush_ports ports s)"

definition disk_flush_all_caches :: "disk_state \<Rightarrow> disk_state res" where
  "disk_flush_all_caches s = flush_ports (disk_enumerate_disks s) s"

text \<open>The messages are left out; \<open>ds_shutdown\<close>: the flush is registered for the shutdown.\<close>

definition disk_init :: "bool \<Rightarrow> bytes \<Rightarrow> bytes \<Rightarrow> disk_state \<Rightarrow> disk_state res" where
  "disk_init ahci_supported signature buffer s =
     (let s = (if ahci_supported then s\<lparr> ds_use_ahci := True \<rparr> else s) in
      rbind (disk_search_boot_disk signature buffer s) (\<lambda>s.
      if ds_boot_id s = 0xFF then
        if ds_use_ahci s then disk_search_boot_disk signature buffer (s\<lparr> ds_use_ahci := False \<rparr>)
        else Inr s
      else Inr (s\<lparr> ds_shutdown := True \<rparr>)))"

section \<open>Master boot record\<close>

definition mbr_read_sync :: "u8 \<Rightarrow> bytes \<Rightarrow> disk_state \<Rightarrow> (bool \<times> bytes \<times> disk_state) res" where
  "mbr_read_sync disk_id result s = disk_read_sync disk_id 0 1 result s"

definition mbr_write_sync :: "u8 \<Rightarrow> bytes \<Rightarrow> disk_state \<Rightarrow> (bool \<times> disk_state) res" where
  "mbr_write_sync disk_id result s =
     rbind (disk_write_sync disk_id 0 1 result s) (\<lambda>(ok, s).
     if ok then disk_flush_cache_sync disk_id s else Inr (False, s))"

text \<open>Entry \<open>i\<close> of the partition table: \<open>boot_indicator\<close> at offset 0, \<open>start_lba\<close> at offset 8.\<close>

fun bootable_entry :: "bytes \<Rightarrow> nat list \<Rightarrow> u32" where
  "bootable_entry mbr [] = - 1"
| "bootable_entry mbr (i # is) =
     (if mbr ! (446 + 16 * i) = 0x80 then get32 mbr (446 + 16 * i + 8) else bootable_entry mbr is)"

definition mbr_get_bootable_partition :: "bytes \<Rightarrow> u8 \<Rightarrow> disk_state \<Rightarrow> (u32 \<times> disk_state) res" where
  "mbr_get_bootable_partition mbr disk_id s =
     rbind (mbr_read_sync disk_id mbr s) (\<lambda>(ok, mbr, s).
     Inr (if ok then bootable_entry mbr [0..<4] else - 1, s))"

end
