(* ===== verification/Fat32.thy ===== *)
theory Fat32
  imports Disk_Cache Date_Time
begin

text \<open>
  \<^verbatim>\<open>fs/fat32/fat32.c\<close>, the part below the directories: the file system's geometry, the allocation
  table, chains of clusters, reading, writing and erasing files.  A loop along a chain may run
  forever; then the result is \<open>None\<close>.  What a buffer holds before the code has written it
  (\<open>malloc\<close>ed memory and the stack) is \<open>fs_uninit\<close>, and \<open>fs_seed\<close> is the state of the random numbers.
\<close>

unbundle bit_operations_syntax

section \<open>Data\<close>

definition FAT32_BAD_CLUSTER :: u32 where "FAT32_BAD_CLUSTER = 0x0FFFFFF7"
definition FAT32_EMPTY_CLUSTER :: u32 where "FAT32_EMPTY_CLUSTER = 0"
definition FAT32_LAST_CLUSTER :: u32 where "FAT32_LAST_CLUSTER = 0x0FFFFFFF"
definition FAT32_ATTRIBUTE_SYSTEM :: u8 where "FAT32_ATTRIBUTE_SYSTEM = 0x04"
definition FAT32_ATTRIBUTE_DIRECTORY :: u8 where "FAT32_ATTRIBUTE_DIRECTORY = 0x10"

record fat32_info_t =
  fi_disk :: u8
  fi_spc :: u8
  fi_fsinfo :: u16
  fi_root :: u32
  fi_partition :: u32
  fi_fat :: u32
  fi_fat_size :: u32
  fi_data :: u32
  fi_fat_count :: u8

record fat32_position_t =
  pos_fat :: u32
  pos_cluster :: u32

record fat32_basic_file_info_t =
  ff_filename :: bytes
  ff_dos_filename :: bytes
  ff_dos_extension :: bytes
  ff_attributes :: u8
  ff_creation :: datetime_fat_t
  ff_modify :: datetime_fat_t
  ff_size :: u32
  ff_cluster :: u32
  ff_entry_cluster :: u32
  ff_entry_index :: u16
  ff_first_entry_cluster :: u32
  ff_first_entry_index :: u16

record fat_state =
  fs_disk :: disk_state
  fs_io :: io_t
  fs_uninit :: "nat \<Rightarrow> u8"
  fs_seed :: u32

definition uninit :: "nat \<Rightarrow> fat_state \<Rightarrow> bytes" where
  "uninit n s = map (fs_uninit s) [0..<n]"

definition HAS_READING_ERROR :: "fat32_position_t \<Rightarrow> bool" where
  "HAS_READING_ERROR p \<longleftrightarrow> pos_fat p = FAT32_BAD_CLUSTER \<or> pos_fat p = FAT32_EMPTY_CLUSTER"

definition IS_LAST_CLUSTER :: "fat32_position_t \<Rightarrow> bool" where
  "IS_LAST_CLUSTER p \<longleftrightarrow> pos_fat p > FAT32_BAD_CLUSTER"

section \<open>Sectors\<close>

text \<open>The calls of the disk layer on the state of the file system.\<close>

definition fat_disk_read :: "fat32_info_t \<Rightarrow> u32 \<Rightarrow> u32 \<Rightarrow> bytes \<Rightarrow> fat_state \<Rightarrow> (bool \<times> bytes \<times> fat_state) res" where
  "fat_disk_read info start count buffer s =
     rbind (disk_read_sync (fi_disk info) start count buffer (fs_disk s)) (\<lambda>(ok, buffer, d).
     Inr (ok, buffer, s\<lparr> fs_disk := d \<rparr>))"

definition fat_disk_write :: "fat32_info_t \<Rightarrow> u32 \<Rightarrow> u32 \<Rightarrow> bytes \<Rightarrow> fat_state \<Rightarrow> (bool \<times> fat_state) res" where
  "fat_disk_write info start count buffer s =
     rbind (disk_write_sync (fi_disk info) start count buffer (fs_disk s)) (\<lambda>(ok, d).
     Inr (ok, s\<lparr> fs_disk := d \<rparr>))"

definition fat_disk_flush :: "fat32_info_t \<Rightarrow> fat_state \<Rightarrow> (bool \<times> fat_state) res" where
  "fat_disk_flush info s =
     rbind (disk_flush_cache_sync (fi_disk info) (fs_disk s)) (\<lambda>(ok, d). Inr (ok, s\<lparr> fs_disk := d \<rparr>))"

definition fat32_read_initial_sector_sync :: "fat32_info_t \<Rightarrow> bytes \<Rightarrow> fat_state \<Rightarrow> (bool \<times> bytes \<times> fat_state) res" where
  "fat32_read_initial_sector_sync info init_sector s = fat_disk_read info (fi_partition info) 1 init_sector s"

definition fat32_write_initial_sector_sync :: "fat32_info_t \<Rightarrow> bytes \<Rightarrow> fat_state \<Rightarrow> (bool \<times> fat_state) res" where
  "fat32_write_initial_sector_sync info init_sector s =
     rbind (fat_disk_write info (fi_partition info) 1 init_sector s) (\<lambda>(ok, s).
     if ok then fat_disk_flush info s else Inr (False, s))"

text \<open>The fields of the first sector by their offsets in the packed structure.\<close>

definition fat32_get_info_sync :: "fat32_info_t \<Rightarrow> fat_state \<Rightarrow> (bool \<times> fat32_info_t \<times> fat_state) res" where
  "fat32_get_info_sync info s =
     rbind (fat32_read_initial_sector_sync info (uninit 512 s) s) (\<lambda>(ok, b, s).
     if ok then
       let info = info\<lparr> fi_fat := fi_partition info + ucast (get16 b 14), fi_fat_size := get32 b 36, fi_fat_count := b ! 16 \<rparr>;
           info = info\<lparr> fi_data := fi_fat info + fi_fat_size info * ucast (fi_fat_count info) \<rparr>;
           info = info\<lparr> fi_spc := b ! 13, fi_fsinfo := get16 b 48, fi_root := get32 b 44 \<rparr>
       in Inr (True, info, s)
     else Inr (False, info, s))"

definition fat32_get_bootable_partition_info_sync :: "fat32_info_t \<Rightarrow> fat_state \<Rightarrow> (bool \<times> fat32_info_t \<times> fat_state) res" where
  "fat32_get_bootable_partition_info_sync info s =
     (let info = info\<lparr> fi_disk := disk_get_boot_disk_id (fs_disk s) \<rparr> in
      if fi_disk info = 0xFF then Inr (False, info, s)
      else
        rbind (mbr_get_bootable_partition (uninit 512 s) (fi_disk info) (fs_disk s)) (\<lambda>(start, d).
        fat32_get_info_sync (info\<lparr> fi_partition := start \<rparr>) (s\<lparr> fs_disk := d \<rparr>)))"

section \<open>The allocation table\<close>

definition fat32_fat_at_sync :: "fat32_info_t \<Rightarrow> u32 \<Rightarrow> fat_state \<Rightarrow> (u32 \<times> fat_state) res" where
  "fat32_fat_at_sync info fat_index s =
     (let sector_offset = fat_index div 128;
          record_offset = unat (fat_index mod 128) in
      rbind (fat_disk_read info (fi_fat info + sector_offset) 1 (uninit 512 s) s) (\<lambda>(ok, fat_sector, s).
      if \<not> ok then Inr (0x0FFFFFF7, s)
      else Inr (get32 fat_sector (4 * record_offset) AND 0x0FFFFFFF, s)))"

definition fat32_fat_write_sync :: "fat32_info_t \<Rightarrow> u32 \<Rightarrow> u32 \<Rightarrow> fat_state \<Rightarrow> (bool \<times> fat_state) res" where
  "fat32_fat_write_sync info fat_index val s =
     (let sector_offset = fat_index div 128;
          record_offset = unat (fat_index mod 128) in
      rbind (fat_disk_read info (fi_fat info + sector_offset) 1 (uninit 512 s) s) (\<lambda>(ok, fat_sector, s).
      if \<not> ok then Inr (False, s)
      else
        rbind (buf_write fat_sector (4 * record_offset) (put32 val)) (\<lambda>fat_sector.
        rbind (fat_disk_write info (fi_fat info + sector_offset) 1 fat_sector s) (\<lambda>(ok, s).
        if \<not> ok then Inr (False, s)
        else if fi_fat_count info = 2 then
          rbind (fat_disk_write info (fi_fat info + fi_fat_size info + sector_offset) 1 fat_sector s) (\<lambda>(ok, s).
          Inr (ok, s))
        else Inr (True, s)))))"

definition cluster_start :: "fat32_info_t \<Rightarrow> u32 \<Rightarrow> u32" where
  "cluster_start info cluster_num = fi_data info + (cluster_num - 2) * ucast (fi_spc info)"

definition fat32_read_cluster_sync :: "fat32_info_t \<Rightarrow> u32 \<Rightarrow> bytes \<Rightarrow> fat_state \<Rightarrow> (bool \<times> bytes \<times> fat_state) res" where
  "fat32_read_cluster_sync info cluster_num buffer s =
     fat_disk_read info (cluster_start info cluster_num) (ucast (fi_spc info)) buffer s"

definition fat32_write_cluster_sync :: "fat32_info_t \<Rightarrow> u32 \<Rightarrow> bytes \<Rightarrow> fat_state \<Rightarrow> (bool \<times> fat_state) res" where
  "fat32_write_cluster_sync info cluster_num buffer s =
     fat_disk_write info (cluster_start info cluster_num) (ucast (fi_spc info)) buffer s"

definition fat32_next_cluster_sync :: "fat32_info_t \<Rightarrow> fat32_position_t \<Rightarrow> fat_state \<Rightarrow> (fat32_position_t \<times> fat_state) res" where
  "fat32_next_cluster_sync info p s =
     (let p = p\<lparr> pos_cluster := pos_fat p \<rparr> in
      rbind (fat32_fat_at_sync info (pos_cluster p) s) (\<lambda>(v, s). Inr (p\<lparr> pos_fat := v \<rparr>, s)))"

text \<open>The two lines that start every walk along a chain.\<close>

definition chain_start :: "fat32_info_t \<Rightarrow> u32 \<Rightarrow> fat_state \<Rightarrow> (fat32_position_t \<times> fat_state) res" where
  "chain_start info cluster s =
     rbind (fat32_fat_at_sync info cluster s) (\<lambda>(v, s). Inr (\<lparr> pos_fat = v, pos_cluster = cluster \<rparr>, s))"

section \<open>Allocation\<close>

definition fat32_read_fsinfo_sync :: "fat32_info_t \<Rightarrow> bytes \<Rightarrow> fat_state \<Rightarrow> (bool \<times> bytes \<times> fat_state) res" where
  "fat32_read_fsinfo_sync info fsinfo s =
     (if fi_fsinfo info = 0 then Inr (False, fsinfo, s)
      else fat_disk_read info (fi_partition info + ucast (fi_fsinfo info)) 1 fsinfo s)"

definition fat32_write_fsinfo_sync :: "fat32_info_t \<Rightarrow> bytes \<Rightarrow> fat_state \<Rightarrow> (bool \<times> fat_state) res" where
  "fat32_write_fsinfo_sync info fsinfo s =
     (if fi_fsinfo info = 0 then Inr (False, s)
      else
        rbind (fat_disk_write info (fi_partition info + ucast (fi_fsinfo info)) 1 fsinfo s) (\<lambda>(ok, s).
        if ok then fat_disk_flush info s else Inr (False, s)))"

text \<open>The search: it goes on until it has seen two free entries.\<close>

partial_function (option) take_scan ::
    "fat32_info_t \<Rightarrow> u32 \<Rightarrow> u32 \<Rightarrow> bytes \<Rightarrow> fat_state \<Rightarrow> (u32 \<times> u32 \<times> fat_state) lres" where
  [code]: "take_scan info current taken fat_sector s =
     lbind (Some (if current mod 128 = 0
                  then rbind (fat_disk_read info (fi_fat info + current div 128) 1 fat_sector s) (\<lambda>(_, b, s). Inr (b, s))
                  else Inr (fat_sector, s))) (\<lambda>(fat_sector, s).
     if get32 fat_sector (4 * unat (current mod 128)) AND 0x0FFFFFFF = FAT32_EMPTY_CLUSTER then
       if taken \<noteq> 0 then Some (Inr (current, taken, s))
       else take_scan info (current + 1) current fat_sector s
     else take_scan info (current + 1) taken fat_sector s)"

definition fat32_take_new_cluster_sync :: "fat32_info_t \<Rightarrow> u32 \<Rightarrow> fat_state \<Rightarrow> (u32 \<times> fat_state) lres" where
  "fat32_take_new_cluster_sync info prev_cluster s =
     lbind (Some (if fi_fsinfo info \<noteq> 0
                  then rbind (fat32_read_fsinfo_sync info (uninit 512 s) s) (\<lambda>(_, fsinfo, s). Inr (get32 fsinfo 492, fsinfo, s))
                  else Inr (fi_root info, [], s))) (\<lambda>(current, fsinfo, s).
     lbind (Some (fat_disk_read info (fi_fat info + current div 128) 1 (uninit 512 s) s)) (\<lambda>(_, fat_sector, s).
     lbind (take_scan info current 0 fat_sector s) (\<lambda>(current, taken, s).
     lbind (Some (if prev_cluster \<noteq> 0
                  then rbind (fat32_fat_write_sync info prev_cluster taken s) (\<lambda>(_, s). Inr s)
                  else Inr s)) (\<lambda>s.
     lbind (Some (fat32_fat_write_sync info taken FAT32_LAST_CLUSTER s)) (\<lambda>(_, s).
     lbind (Some (if fi_fsinfo info \<noteq> 0
                  then rbind (buf_write fsinfo 488 (put32 (get32 fsinfo 488 - 1))) (\<lambda>fsinfo.
                       rbind (buf_write fsinfo 492 (put32 current)) (\<lambda>fsinfo.
                       rbind (fat32_write_fsinfo_sync info fsinfo s) (\<lambda>(_, s). Inr s)))
                  else Inr s)) (\<lambda>s.
     Some (Inr (taken, s))))))))"

text \<open>\<open>min_cluster\<close> is computed and then never used.\<close>

partial_function (option) release_loop ::
    "fat32_info_t \<Rightarrow> fat32_position_t \<Rightarrow> u32 \<Rightarrow> fat_state \<Rightarrow> (fat32_position_t \<times> u32 \<times> fat_state) lres" where
  [code]: "release_loop info position min_cluster s =
     (if HAS_READING_ERROR position then Some (Inr (position, min_cluster, s))
      else
        let min_cluster = (if pos_cluster position < min_cluster then pos_cluster position else min_cluster) in
        lbind (Some (fat32_fat_write_sync info (pos_cluster position) FAT32_EMPTY_CLUSTER s)) (\<lambda>(_, s).
        if IS_LAST_CLUSTER position then Some (Inr (position, min_cluster, s))
        else lbind (Some (fat32_next_cluster_sync info position s)) (\<lambda>(position, s).
             release_loop info position min_cluster s)))"

definition fat32_release_clusters_sync :: "fat32_info_t \<Rightarrow> u32 \<Rightarrow> fat_state \<Rightarrow> (bool \<times> fat_state) lres" where
  "fat32_release_clusters_sync info start_cluster s =
     lbind (Some (if fi_fsinfo info \<noteq> 0
                  then rbind (fat32_read_fsinfo_sync info (uninit 512 s) s) (\<lambda>(_, fsinfo, s). Inr (get32 fsinfo 492, s))
                  else Inr (0xFFFFFFFF, s))) (\<lambda>(min_cluster, s).
     lbind (Some (chain_start info start_cluster s)) (\<lambda>(position, s).
     lbind (release_loop info position min_cluster s) (\<lambda>(position, _, s).
     Some (Inr (\<not> HAS_READING_ERROR position, s)))))"

section \<open>Files\<close>

definition fat32_cluster_size :: "fat32_info_t \<Rightarrow> u32" where
  "fat32_cluster_size info = ucast (fi_spc info) * 512"

partial_function (option) read_skip ::
    "fat32_info_t \<Rightarrow> u32 \<Rightarrow> fat32_position_t \<Rightarrow> fat_state \<Rightarrow> ((fat32_position_t \<times> u32) option \<times> fat_state) lres" where
  [code]: "read_skip info start_position position s =
     (if start_position \<ge> fat32_cluster_size info then
        if IS_LAST_CLUSTER position \<or> HAS_READING_ERROR position then Some (Inr (None, s))
        else lbind (Some (fat32_next_cluster_sync info position s)) (\<lambda>(position, s).
             read_skip info (start_position - fat32_cluster_size info) position s)
      else Some (Inr (Some (position, start_position), s)))"

text \<open>
  One round copies from the cluster to \<open>buffer\<close> at \<open>buffer_index\<close>; the result is \<open>None\<close> for the return
  of false in the loop.
\<close>

partial_function (option) read_loop ::
    "fat32_info_t \<Rightarrow> u32 \<Rightarrow> u32 \<Rightarrow> u32 \<Rightarrow> fat32_position_t \<Rightarrow> bytes \<Rightarrow> bytes \<Rightarrow> fat_state \<Rightarrow>
     (fat32_position_t option \<times> bytes \<times> fat_state) lres" where
  [code]: "read_loop info start_position buffer_index free_buffer_size position temp_buffer buffer s =
     (if HAS_READING_ERROR position then Some (Inr (Some position, buffer, s))
      else
        lbind (Some (fat32_read_cluster_sync info (pos_cluster position) temp_buffer s)) (\<lambda>(ok, temp_buffer, s).
        if \<not> ok then Some (Inr (None, buffer, s))
        else
          let bytes_to_read = min (fat32_cluster_size info - start_position) free_buffer_size in
          lbind (Some (buf_copy buffer (unat buffer_index) temp_buffer (unat start_position) (unat bytes_to_read))) (\<lambda>buffer.
          let buffer_index = buffer_index + bytes_to_read;
              free_buffer_size = free_buffer_size - bytes_to_read in
          if free_buffer_size = 0 then Some (Inr (Some position, buffer, s))
          else if IS_LAST_CLUSTER position then Some (Inr (Some position, buffer, s))
          else lbind (Some (fat32_next_cluster_sync info position s)) (\<lambda>(position, s).
               read_loop info 0 buffer_index free_buffer_size position temp_buffer buffer s))))"

definition fat32_read_file ::
    "fat32_info_t \<Rightarrow> fat32_basic_file_info_t \<Rightarrow> u32 \<Rightarrow> bytes \<Rightarrow> u32 \<Rightarrow> fat_state \<Rightarrow> (bool \<times> bytes \<times> fat_state) lres" where
  "fat32_read_file info file_info start_position buffer buffer_size s =
     lbind (Some (chain_start info (ff_cluster file_info) s)) (\<lambda>(position, s).
     lbind (read_skip info start_position position s) (\<lambda>(r, s).
     case r of
       None \<Rightarrow> Some (Inr (False, buffer, s))
     | Some (position, start_position) \<Rightarrow>
         lbind (read_loop info start_position 0 (min buffer_size (ff_size file_info)) position
                  (uninit (unat (fat32_cluster_size info)) s) buffer s) (\<lambda>(r, buffer, s).
         Some (Inr (case r of None \<Rightarrow> False | Some position \<Rightarrow> \<not> HAS_READING_ERROR position, buffer, s)))))"

definition fat32_mount :: "(u32 \<Rightarrow> bytes) \<Rightarrow> fat32_info_t \<Rightarrow> bytes \<Rightarrow> fat32_basic_file_info_t \<Rightarrow> fat32_basic_file_info_t res" where
  "fat32_mount alloc info dir_name result =
     rbind (strdup alloc dir_name) (\<lambda>name.
     Inr (result\<lparr> ff_attributes := FAT32_ATTRIBUTE_DIRECTORY OR FAT32_ATTRIBUTE_SYSTEM, ff_cluster := fi_root info,
                  ff_size := 0, ff_filename := name \<rparr>))"

text \<open>The fields of an entry of 32 bytes by their offsets in the packed structure.\<close>

definition update_entry :: "fat32_basic_file_info_t \<Rightarrow> datetime_fat_t \<Rightarrow> nat \<Rightarrow> bytes \<Rightarrow> bytes res" where
  "update_entry f m off b =
     rbind (buf_write b (off + 11) [ff_attributes f]) (\<lambda>b.
     rbind (buf_write b (off + 28) (put32 (ff_size f))) (\<lambda>b.
     rbind (buf_write b (off + 26) (put16 (ucast (ff_cluster f AND 0xFFFF)))) (\<lambda>b.
     rbind (buf_write b (off + 20) (put16 (ucast (drop_bit 16 (ff_cluster f))))) (\<lambda>b.
     rbind (buf_write b (off + 16) (put16 (date (ff_creation f)))) (\<lambda>b.
     rbind (buf_write b (off + 14) (put16 (time (ff_creation f)))) (\<lambda>b.
     rbind (buf_write b (off + 24) (put16 (date m))) (\<lambda>b.
     rbind (buf_write b (off + 22) (put16 (time m))) (\<lambda>b.
     buf_write b (off + 18) (put16 (date m))))))))))"

definition fat32_update_directory_entry :: "fat32_info_t \<Rightarrow> fat32_basic_file_info_t \<Rightarrow> fat_state \<Rightarrow> (bool \<times> fat_state) res" where
  "fat32_update_directory_entry info f s =
     (let entry_sector = fi_data info + (ff_entry_cluster f - 2) * ucast (fi_spc info) + ucast (ff_entry_index f div 16);
          entry_index = unat (ff_entry_index f mod 16) in
      rbind (fat_disk_read info entry_sector 1 (uninit 512 s) s) (\<lambda>(ok, entries, s).
      if \<not> ok then Inr (False, s)
      else
        rbind (datetime_get (fs_io s)) (\<lambda>(modified_dt, io).
        let s = s\<lparr> fs_io := io \<rparr> in
        rbind (update_entry f (datetime_fat_from_datetime modified_dt) (32 * entry_index) entries) (\<lambda>entries.
        rbind (fat_disk_write info entry_sector 1 entries s) (\<lambda>(ok, s).
        Inr (ok, s))))))"

text \<open>The step to the next cluster, the same in both loops of a write.\<close>

definition write_advance :: "fat32_info_t \<Rightarrow> fat32_position_t \<Rightarrow> fat_state \<Rightarrow> (fat32_position_t \<times> fat_state) lres" where
  "write_advance info position s =
     (if IS_LAST_CLUSTER position
      then lbind (fat32_take_new_cluster_sync info (pos_cluster position) s) (\<lambda>(c, s).
           Some (Inr (position\<lparr> pos_cluster := c \<rparr>, s)))
      else Some (fat32_next_cluster_sync info position s))"

partial_function (option) write_skip ::
    "fat32_info_t \<Rightarrow> u32 \<Rightarrow> fat32_position_t \<Rightarrow> fat_state \<Rightarrow> ((fat32_position_t \<times> u32) option \<times> fat_state) lres" where
  [code]: "write_skip info current_position position s =
     (if current_position \<ge> fat32_cluster_size info then
        if HAS_READING_ERROR position then Some (Inr (None, s))
        else
          lbind (write_advance info position s) (\<lambda>(position, s).
          write_skip info (current_position - fat32_cluster_size info) position s)
      else Some (Inr (Some (position, current_position), s)))"

partial_function (option) write_loop ::
    "fat32_info_t \<Rightarrow> u32 \<Rightarrow> u32 \<Rightarrow> u32 \<Rightarrow> fat32_position_t \<Rightarrow> bytes \<Rightarrow> bytes \<Rightarrow> fat_state \<Rightarrow>
     (fat32_position_t option \<times> fat_state) lres" where
  [code]: "write_loop info current_position buffer_index non_writed position temp_buffer buffer s =
     (if HAS_READING_ERROR position then Some (Inr (Some position, s))
      else
        lbind (Some (fat32_read_cluster_sync info (pos_cluster position) temp_buffer s)) (\<lambda>(ok, temp_buffer, s).
        if \<not> ok then Some (Inr (None, s))
        else
          let bytes_to_write = min (fat32_cluster_size info - current_position) non_writed in
          lbind (Some (buf_copy temp_buffer (unat current_position) buffer (unat buffer_index) (unat bytes_to_write))) (\<lambda>temp_buffer.
          lbind (Some (fat32_write_cluster_sync info (pos_cluster position) temp_buffer s)) (\<lambda>(ok, s).
          if \<not> ok then Some (Inr (None, s))
          else
            let buffer_index = buffer_index + bytes_to_write;
                non_writed = non_writed - bytes_to_write in
            if non_writed = 0 then Some (Inr (Some position, s))
            else
              lbind (write_advance info position s) (\<lambda>(position, s).
              write_loop info 0 buffer_index non_writed position temp_buffer buffer s)))))"

definition fat32_write_file_sync ::
    "fat32_info_t \<Rightarrow> fat32_basic_file_info_t \<Rightarrow> u32 \<Rightarrow> bytes \<Rightarrow> u32 \<Rightarrow> fat_state \<Rightarrow>
     (bool \<times> fat32_basic_file_info_t \<times> fat_state) lres" where
  "fat32_write_file_sync info file_info start_position buffer buffer_size s =
     (if buffer_size = 0 then Some (Inr (True, file_info, s))
      else
        lbind (if ff_cluster file_info \<noteq> 0
               then lbind (Some (chain_start info (ff_cluster file_info) s)) (\<lambda>(p, s). Some (Inr (p, file_info, s)))
               else lbind (fat32_take_new_cluster_sync info 0 s) (\<lambda>(c, s).
                    Some (Inr (\<lparr> pos_fat = FAT32_LAST_CLUSTER, pos_cluster = c \<rparr>, file_info\<lparr> ff_cluster := c \<rparr>, s)))) (\<lambda>(position, new_file_info, s).
        lbind (write_skip info start_position position s) (\<lambda>(r, s).
        case r of
          None \<Rightarrow> Some (Inr (False, file_info, s))
        | Some (position, current_position) \<Rightarrow>
            if HAS_READING_ERROR position then Some (Inr (False, file_info, s))
            else
              lbind (write_loop info current_position 0 buffer_size position
                       (uninit (unat (fat32_cluster_size info * 512)) s) buffer s) (\<lambda>(r, s).
              case r of
                None \<Rightarrow> Some (Inr (False, file_info, s))
              | Some position \<Rightarrow>
                  if HAS_READING_ERROR position then Some (Inr (False, file_info, s))
                  else
                    let new_file_info =
                          (if ff_attributes new_file_info AND FAT32_ATTRIBUTE_DIRECTORY = 0
                           then new_file_info\<lparr> ff_size := max (ff_size file_info) (start_position + buffer_size) \<rparr>
                           else new_file_info)
                    in lbind (Some (fat32_update_directory_entry info new_file_info s)) (\<lambda>(ok, s).
                       Some (Inr (ok, new_file_info, s)))))))"

definition fat32_erase_file_sync ::
    "fat32_info_t \<Rightarrow> fat32_basic_file_info_t \<Rightarrow> fat_state \<Rightarrow> (bool \<times> fat32_basic_file_info_t \<times> fat_state) lres" where
  "fat32_erase_file_sync info file_info s =
     (let new_file_info = file_info\<lparr> ff_size := 0, ff_cluster := 0 \<rparr> in
      lbind (if ff_cluster file_info \<noteq> 0 then fat32_release_clusters_sync info (ff_cluster file_info) s
             else Some (Inr (True, s))) (\<lambda>(ok, s).
      if \<not> ok then Some (Inr (False, file_info, s))
      else lbind (Some (fat32_update_directory_entry info new_file_info s)) (\<lambda>(ok, s).
           Some (Inr (ok, new_file_info, s)))))"

end
