(* ===== verification/Fat_Dir.thy ===== *)
theory Fat_Dir
  imports Fat32 Array_Sort Pattern
begin

text \<open>
  \<^verbatim>\<open>fs/fat32/fat32.c\<close>, the directories: listing a directory, finding, creating and removing entries.
  The arrays of long-name records and of numbers are dynamic arrays of \<^verbatim>\<open>Dynamic_Array\<close>, with their
  allocations and assertions; the array of files, which only grows at its end and is indexed
  within its bounds, is the list of its elements, since a file record holds a pointer to its name.
\<close>

unbundle bit_operations_syntax

section \<open>Listing a directory\<close>

definition FAT32_ATTRIBUTE_LFN :: u8 where "FAT32_ATTRIBUTE_LFN = 0x0F"
definition FAT32_ATTRIBUTE_DELETED :: u8 where "FAT32_ATTRIBUTE_DELETED = 0xE5"

definition entries_per_cluster :: "fat32_info_t \<Rightarrow> u32" where
  "entries_per_cluster info = 16 * ucast (fi_spc info)"

definition dir_entry :: "bytes \<Rightarrow> nat \<Rightarrow> bytes" where
  "dir_entry buffer i = take 32 (drop (32 * i) buffer)"

record dir_acc =
  dir_files :: "fat32_basic_file_info_t list"
  dir_lfn :: dynamic_array_t
  dir_lfn_cluster :: u32
  dir_lfn_index :: u16

text \<open>The three parts of the name in a long-name record, and their copy into the wide string.\<close>

definition lfn_chars :: "bytes \<Rightarrow> u16 list" where
  "lfn_chars e = map (get16 e) [1, 3, 5, 7, 9] @ map (get16 e) [14, 16, 18, 20, 22, 24] @ map (get16 e) [28, 30]"

definition wide_write :: "u16 list \<Rightarrow> nat \<Rightarrow> u16 list \<Rightarrow> u16 list res" where
  "wide_write wide off cs =
     (if off + length cs \<le> length wide then Inr (take off wide @ cs @ drop (off + length cs) wide) else Inl Out_Of_Bounds)"

text \<open>The loop variable has eight bits.\<close>

partial_function (option) lfn_collect :: "dynamic_array_t \<Rightarrow> u8 \<Rightarrow> u16 list \<Rightarrow> u16 list lres" where
  [code]: "lfn_collect lfn i wide =
     (if ucast i < da_count lfn then
        lbind (Some (rbind (dynamic_array_get_by_index lfn (ucast i)) (\<lambda>off.
                     rbind (buf_read (da_buffer lfn) (unat off) 32) (\<lambda>e.
                     wide_write wide (unat i * 13) (lfn_chars e))))) (\<lambda>wide.
        lfn_collect lfn (i + 1) wide)
      else Some (Inr wide))"

definition long_name :: "(nat \<Rightarrow> bytes) \<Rightarrow> dynamic_array_t \<Rightarrow> bytes lres" where
  "long_name junk lfn =
     (let wide_filename_size = 2 * (13 * da_count lfn + 1) in
      lbind (lfn_collect lfn 0 (replicate (unat wide_filename_size div 2) 0)) (\<lambda>wide.
      lbind (Some (wide_char_to_utf8 (junk (unat wide_filename_size)) wide wide_filename_size)) (\<lambda>(name, len).
      Some (Inr (realloc_buf junk name (len + 1))))))"

fun trim_spaces :: "bytes \<Rightarrow> nat \<Rightarrow> nat" where
  "trim_spaces b 0 = 0"
| "trim_spaces b (Suc n) = (if b ! n = 0x20 then trim_spaces b n else Suc n)"

definition short_name :: "bytes \<Rightarrow> bytes" where
  "short_name e =
     (let dos_filename_size = trim_spaces (take 8 e) 8;
          dos_extension_size = trim_spaces (take 3 (drop 8 e)) 3;
          dot = dos_filename_size \<noteq> 0 \<and> dos_extension_size \<noteq> 0
      in take dos_filename_size e @ (if dot then [0x2E] else []) @ take dos_extension_size (drop 8 e) @ [0])"

definition file_of_entry :: "bytes \<Rightarrow> u32 \<Rightarrow> u16 \<Rightarrow> bytes \<Rightarrow> u32 \<Rightarrow> u16 \<Rightarrow> fat32_basic_file_info_t" where
  "file_of_entry e cluster i name first_cluster first_index =
     \<lparr> ff_filename = name, ff_dos_filename = take 8 e, ff_dos_extension = take 3 (drop 8 e), ff_attributes = e ! 11,
       ff_creation = \<lparr> date = get16 e 16, time = get16 e 14 \<rparr>, ff_modify = \<lparr> date = get16 e 24, time = get16 e 22 \<rparr>,
       ff_size = get32 e 28, ff_cluster = push_bit 16 (ucast (get16 e 20)) + ucast (get16 e 26),
       ff_entry_cluster = cluster, ff_entry_index = i, ff_first_entry_cluster = first_cluster, ff_first_entry_index = first_index \<rparr>"

text \<open>The entries of one cluster; the first one that was never used ends the loop.\<close>

fun dir_entries :: "(nat \<Rightarrow> bytes) \<Rightarrow> u32 \<Rightarrow> bytes \<Rightarrow> nat list \<Rightarrow> dir_acc \<Rightarrow> dir_acc lres" where
  "dir_entries junk cluster buffer [] acc = Some (Inr acc)"
| "dir_entries junk cluster buffer (i # is) acc =
     (let e = dir_entry buffer i in
      if e ! 0 = 0 then Some (Inr acc)
      else if e ! 11 = 0xE5 then dir_entries junk cluster buffer is acc
      else if e ! 11 = 0x0F then
        let acc = (if dir_lfn_cluster acc = 0 then acc\<lparr> dir_lfn_cluster := cluster, dir_lfn_index := of_nat i \<rparr> else acc) in
        lbind (Some (dynamic_array_push_front junk (dir_lfn acc) e)) (\<lambda>lfn.
        dir_entries junk cluster buffer is (acc\<lparr> dir_lfn := lfn \<rparr>))
      else
        lbind (if da_count (dir_lfn acc) \<noteq> 0
               then lbind (long_name junk (dir_lfn acc)) (\<lambda>name.
                    Some (Inr (file_of_entry e cluster (of_nat i) name (dir_lfn_cluster acc) (dir_lfn_index acc),
                      acc\<lparr> dir_lfn := dynamic_array_clear junk (dir_lfn acc), dir_lfn_cluster := 0 \<rparr>)))
               else Some (Inr (file_of_entry e cluster (of_nat i) (short_name e) cluster (of_nat i), acc))) (\<lambda>(file_info, acc).
        dir_entries junk cluster buffer is (acc\<lparr> dir_files := dir_files acc @ [file_info] \<rparr>)))"

partial_function (option) dir_loop ::
    "fat32_info_t \<Rightarrow> fat32_position_t \<Rightarrow> bytes \<Rightarrow> dir_acc \<Rightarrow> fat_state \<Rightarrow> (fat32_position_t option \<times> dir_acc \<times> fat_state) lres" where
  [code]: "dir_loop info position buffer acc s =
     (if HAS_READING_ERROR position then Some (Inr (Some position, acc, s))
      else
        lbind (Some (fat32_read_cluster_sync info (pos_cluster position) buffer s)) (\<lambda>(ok, buffer, s).
        if \<not> ok then Some (Inr (None, acc, s))
        else
          lbind (dir_entries (\<lambda>n. uninit n s) (pos_cluster position) buffer [0..<unat (entries_per_cluster info)] acc) (\<lambda>acc.
          if IS_LAST_CLUSTER position then Some (Inr (Some position, acc, s))
          else lbind (Some (fat32_next_cluster_sync info position s)) (\<lambda>(position, s).
               dir_loop info position buffer acc s))))"

text \<open>\<open>None\<close> is the null pointer.\<close>

definition fat32_read_directory ::
    "fat32_info_t \<Rightarrow> fat32_basic_file_info_t \<Rightarrow> fat_state \<Rightarrow> (fat32_basic_file_info_t list option \<times> fat_state) lres" where
  "fat32_read_directory info dir_info s =
     lbind (Some (chain_start info (ff_cluster dir_info) s)) (\<lambda>(position, s).
     lbind (dir_loop info position (uninit (unat (32 * entries_per_cluster info)) s)
              \<lparr> dir_files = [], dir_lfn = dynamic_array_create (\<lambda>n. uninit n s) 32, dir_lfn_cluster = 0, dir_lfn_index = 0 \<rparr> s) (\<lambda>(r, acc, s).
     Some (Inr (case r of
         None \<Rightarrow> None
       | Some position \<Rightarrow> if HAS_READING_ERROR position then None else Some (dir_files acc), s))))"

text \<open>\<open>got\<close>: the two bitmaps of the pattern matcher are allocated.\<close>

fun filter_files :: "bool \<Rightarrow> bytes \<Rightarrow> bool \<Rightarrow> fat32_basic_file_info_t list \<Rightarrow> fat32_basic_file_info_t list res" where
  "filter_files got pattern ignore_case [] = Inr []"
| "filter_files got pattern ignore_case (f # fs) =
     rbind (is_matching_pattern got (ff_filename f) pattern ignore_case) (\<lambda>hit.
     rbind (filter_files got pattern ignore_case fs) (\<lambda>fs. Inr (if hit then f # fs else fs)))"

definition fat32_find_files ::
    "bool \<Rightarrow> fat32_info_t \<Rightarrow> fat32_basic_file_info_t \<Rightarrow> bytes option \<Rightarrow> bool \<Rightarrow> fat_state \<Rightarrow>
     (fat32_basic_file_info_t list option \<times> fat_state) lres" where
  "fat32_find_files got info dir_info pattern ignore_case s =
     lbind (fat32_read_directory info dir_info s) (\<lambda>(files, s).
     case files of
       None \<Rightarrow> Some (Inr (None, s))
     | Some fs \<Rightarrow> (case pattern of
         None \<Rightarrow> Some (Inr (Some fs, s))
       | Some p \<Rightarrow> lbind (Some (filter_files got p ignore_case fs)) (\<lambda>fs. Some (Inr (Some fs, s)))))"

section \<open>Names\<close>

text \<open>A long-name record by the offsets of its fields.\<close>

definition lfn_record :: "u8 \<Rightarrow> u8 \<Rightarrow> u16 list \<Rightarrow> bytes" where
  "lfn_record order checksum w =
     [order] @ concat (map put16 (take 5 w)) @ [FAT32_ATTRIBUTE_LFN, 0, checksum] @
     concat (map put16 (take 6 (drop 5 w))) @ [0, 0] @ concat (map put16 (take 2 (drop 11 w)))"

partial_function (option) split_loop ::
    "(nat \<Rightarrow> bytes) \<Rightarrow> bytes \<Rightarrow> u32 \<Rightarrow> u32 \<Rightarrow> u32 \<Rightarrow> dynamic_array_t \<Rightarrow> dynamic_array_t lres" where
  [code]: "split_loop junk filename checksum len i result =
     (if i < len then
        lbind (Some (rbind (buf_copy (replicate 14 0) 0 filename (unat i) (unat (min (len - i) 13))) (\<lambda>temp_utf8.
                     rbind (utf8_to_wide_char (replicate 27 0) temp_utf8 27) (\<lambda>(temp_wchar, _).
                     let order = (if i + 13 \<ge> len then 0x45 else ucast (i div 13 + 1)) in
                     dynamic_array_push_front junk result (lfn_record order (ucast checksum) temp_wchar))))) (\<lambda>result.
        split_loop junk filename checksum len (i + 13) result)
      else Some (Inr result))"

definition fat32_split_filename_to_lfn :: "(nat \<Rightarrow> bytes) \<Rightarrow> bytes \<Rightarrow> u32 \<Rightarrow> dynamic_array_t lres" where
  "fat32_split_filename_to_lfn junk filename checksum =
     lbind (Some (strlen filename)) (\<lambda>len.
     split_loop junk filename checksum len 0 (dynamic_array_create junk 32))"

record fat32_dos_filename_t =
  dn_name :: bytes
  dn_extension :: bytes

definition checksum_step :: "u8 \<Rightarrow> u8 \<Rightarrow> u8" where
  "checksum_step result c = push_bit 7 (result AND 1) + drop_bit 1 result + c"

definition fat32_get_lfn_checksum :: "fat32_dos_filename_t \<Rightarrow> u8" where
  "fat32_get_lfn_checksum d = foldl checksum_step (foldl checksum_step 0 (dn_name d)) (dn_extension d)"

fun dos_name_taken :: "fat32_dos_filename_t \<Rightarrow> fat32_basic_file_info_t list \<Rightarrow> bool res" where
  "dos_name_taken d [] = Inr False"
| "dos_name_taken d (f # fs) =
     rbind (memcmp (ff_dos_filename f) (dn_name d) 8) (\<lambda>same.
     rbind (if same then memcmp (ff_dos_extension f) (dn_extension d) 3 else Inr False) (\<lambda>same.
     if same then Inr True else dos_name_taken d fs))"

text \<open>What follows \<open>dos_filename\<close> in the structure, up to the padding behind \<open>entry_index\<close>.\<close>

definition dos_filename_bytes :: "fat32_basic_file_info_t \<Rightarrow> bytes" where
  "dos_filename_bytes f =
     ff_dos_filename f @ ff_dos_extension f @ [ff_attributes f] @
     put16 (date (ff_creation f)) @ put16 (time (ff_creation f)) @ put16 (date (ff_modify f)) @ put16 (time (ff_modify f)) @
     put32 (ff_size f) @ put32 (ff_cluster f) @ put32 (ff_entry_cluster f) @ put16 (ff_entry_index f)"

fun dos_conflicts ::
    "(nat \<Rightarrow> bytes) \<Rightarrow> bytes \<Rightarrow> bytes \<Rightarrow> fat32_basic_file_info_t list \<Rightarrow> dynamic_array_t \<Rightarrow> dynamic_array_t res" where
  "dos_conflicts junk filename_copy extension [] conflicts = Inr conflicts"
| "dos_conflicts junk filename_copy extension (f # fs) conflicts =
     rbind (strchr_r (dos_filename_bytes f) 0x7E) (\<lambda>p.
     let tilde = (ucast p :: u8) in
     if tilde = 0xFF then dos_conflicts junk filename_copy extension fs conflicts
     else
       rbind (buf_write (ff_dos_filename f) (unat tilde) [0]) (\<lambda>copy.
       rbind (memcmp filename_copy copy (ucast tilde)) (\<lambda>same.
       rbind (if same then memcmp extension (ff_dos_extension f) 3 else Inr False) (\<lambda>same.
       if same then
         rbind (strtoul (drop (unat tilde + 1) copy) 10) (\<lambda>(index, _).
         rbind (dynamic_array_push_back junk conflicts (put32 index)) (dos_conflicts junk filename_copy extension fs))
       else dos_conflicts junk filename_copy extension fs conflicts))))"

fun mex_loop :: "dynamic_array_t \<Rightarrow> nat list \<Rightarrow> u32 \<Rightarrow> u32 res" where
  "mex_loop conflicts [] mex = Inr mex"
| "mex_loop conflicts (i # is) mex =
     rbind (dynamic_array_get_by_index conflicts (of_nat i)) (\<lambda>off.
     rbind (buf_read (da_buffer conflicts) (unat off) 4) (\<lambda>x.
     if mex \<noteq> get32 x 0 then Inr mex else mex_loop conflicts is (mex + 1)))"

text \<open>The number behind the tilde, and the name with it.\<close>

definition dos_abbreviate ::
    "(nat \<Rightarrow> bytes) \<Rightarrow> bytes \<Rightarrow> fat32_dos_filename_t \<Rightarrow> fat32_basic_file_info_t list \<Rightarrow> u32 \<Rightarrow> (fat32_dos_filename_t \<times> u32) lres" where
  "dos_abbreviate junk filename_copy d files seed =
     lbind (Some (dos_conflicts junk filename_copy (dn_extension d) files (dynamic_array_create junk 4))) (\<lambda>conflicts.
     lbind (dynamic_array_quicksort uint32_less conflicts 0 (da_count conflicts - 1) seed) (\<lambda>(conflicts, seed).
     lbind (Some (mex_loop conflicts [0..<unat (da_count conflicts)] 1)) (\<lambda>mex.
     lbind (uint32_to_string mex (replicate 12 0) 10) (\<lambda>str_mex.
     lbind (Some (strlen str_mex)) (\<lambda>len.
     let mex_length = unat (ucast len :: u8) in
     if 8 < mex_length + 1 then Some (Inl Out_Of_Bounds)
     else
       lbind (Some (rbind (buf_write (dn_name d) (8 - mex_length - 1) [0x7E]) (\<lambda>name.
                    buf_copy name (8 - mex_length) str_mex 0 mex_length))) (\<lambda>name.
       Some (Inr (d\<lparr> dn_name := name \<rparr>, seed))))))))"

definition fat32_get_dos_filename ::
    "(nat \<Rightarrow> bytes) \<Rightarrow> fat32_basic_file_info_t list \<Rightarrow> bytes \<Rightarrow> u32 \<Rightarrow> (fat32_dos_filename_t \<times> u32) lres" where
  "fat32_get_dos_filename junk directory_files filename seed =
     lbind (Some (strlen filename)) (\<lambda>len.
     lbind (Some (rbind (strdup (\<lambda>n. junk (unat n)) filename) string_to_upper)) (\<lambda>filename_copy.
     lbind (Some (strchr_r filename 0x2E)) (\<lambda>dot.
     lbind (Some (if dot \<noteq> - 1
                  then rbind (buf_write filename_copy (unat dot) [0]) (\<lambda>c. Inr (c, unat dot + 1))
                  else Inr (filename_copy, unat len))) (\<lambda>(filename_copy, off).
     let extension = drop off filename_copy in
     lbind (Some (strlen filename_copy)) (\<lambda>name_len.
     lbind (Some (strlen extension)) (\<lambda>ext_len.
     lbind (Some (buf_copy (replicate 8 0x20) 0 filename_copy 0 (unat (min name_len 8)))) (\<lambda>dname.
     lbind (Some (buf_copy (replicate 3 0x20) 0 extension 0 (unat (min ext_len 3)))) (\<lambda>dext.
     let d = \<lparr> dn_name = dname, dn_extension = dext \<rparr> in
     lbind (Some (if name_len \<le> 8 \<and> ext_len \<le> 3 then dos_name_taken d directory_files else Inr False)) (\<lambda>have_such_file.
     if name_len > 8 \<or> ext_len > 3 \<or> have_such_file
     then dos_abbreviate junk filename_copy d directory_files seed
     else Some (Inr (d, seed)))))))))))"

end
