(* ===== verification/Fat_Create.thy ===== *)
theory Fat_Create
  imports Fat_Dir
begin

text \<open>\<^verbatim>\<open>fs/fat32/fat32.c\<close>: creating and removing files and directories.\<close>

unbundle bit_operations_syntax

section \<open>The place of a new entry\<close>

text \<open>
  The run of free entries seen last, as its length, cluster and index.  A length of \<open>- 1\<close> stands for
  the rest of the directory behind an entry that was never used.
\<close>

record free_run =
  fr_length :: u16
  fr_cluster :: u32
  fr_index :: u16

definition scan_entry :: "u32 \<Rightarrow> nat \<Rightarrow> bytes \<Rightarrow> free_run \<Rightarrow> free_run" where
  "scan_entry cluster i e r =
     (let r = (if e ! 0 = 0 \<or> e ! 11 = FAT32_ATTRIBUTE_DELETED then
                 let r = (if fr_length r = 0 then r\<lparr> fr_cluster := cluster, fr_index := of_nat i \<rparr> else r)
                 in r\<lparr> fr_length := fr_length r + 1 \<rparr>
               else r\<lparr> fr_length := 0 \<rparr>)
      in if e ! 0 = 0 then r\<lparr> fr_length := - 1 \<rparr> else r)"

fun scan_cluster :: "u16 \<Rightarrow> u32 \<Rightarrow> bytes \<Rightarrow> nat list \<Rightarrow> free_run \<Rightarrow> free_run" where
  "scan_cluster need cluster buffer [] r = r"
| "scan_cluster need cluster buffer (i # is) r =
     (let r = scan_entry cluster i (dir_entry buffer i) r in
      if fr_length r \<ge> need then r else scan_cluster need cluster buffer is r)"

partial_function (option) scan_loop ::
    "fat32_info_t \<Rightarrow> u16 \<Rightarrow> fat32_position_t \<Rightarrow> bytes \<Rightarrow> free_run \<Rightarrow> fat_state \<Rightarrow>
     (fat32_position_t option \<times> free_run \<times> bytes \<times> fat_state) lres" where
  [code]: "scan_loop info need position buffer r s =
     (if HAS_READING_ERROR position then Some (Inr (Some position, r, buffer, s))
      else
        lbind (Some (fat32_read_cluster_sync info (pos_cluster position) buffer s)) (\<lambda>(ok, buffer, s).
        if \<not> ok then Some (Inr (None, r, buffer, s))
        else
          let r = scan_cluster need (pos_cluster position) buffer [0..<unat (entries_per_cluster info)] r in
          if fr_length r \<ge> need then Some (Inr (Some position, r, buffer, s))
          else if IS_LAST_CLUSTER position then
            lbind (if fr_length r = 0
                   then lbind (fat32_take_new_cluster_sync info (pos_cluster position) s) (\<lambda>(c, s).
                        Some (Inr (r\<lparr> fr_cluster := c, fr_index := 0 \<rparr>, s)))
                   else Some (Inr (r, s))) (\<lambda>(r, s).
            lbind (fat32_take_new_cluster_sync info (pos_cluster position) s) (\<lambda>(_, s).
            Some (Inr (Some position, r, buffer, s))))
          else lbind (Some (fat32_next_cluster_sync info position s)) (\<lambda>(position, s).
               scan_loop info need position buffer r s)))"

section \<open>Writing the entries\<close>

text \<open>The entries of one cluster from \<open>start_index\<close> on; the entry itself comes behind its long-name records.\<close>

fun place_entries :: "bytes \<Rightarrow> nat list \<Rightarrow> bytes \<Rightarrow> dynamic_array_t \<Rightarrow> u16 \<Rightarrow> u16 \<Rightarrow> (bytes \<times> dynamic_array_t \<times> u16 \<times> u16) res" where
  "place_entries record [] buffer lfn left entry_index = Inr (buffer, lfn, left, entry_index)"
| "place_entries record (i # is) buffer lfn left entry_index =
     rbind (if da_count lfn \<noteq> 0
            then rbind (dynamic_array_get_bottom lfn) (\<lambda>off.
                 rbind (buf_copy buffer (32 * i) (da_buffer lfn) (unat off) 32) (\<lambda>buffer.
                 rbind (dynamic_array_pop_front lfn) (\<lambda>lfn. Inr (buffer, lfn, entry_index))))
            else rbind (buf_write buffer (32 * i) record) (\<lambda>buffer. Inr (buffer, lfn, of_nat i))) (\<lambda>(buffer, lfn, entry_index).
     let left = left - 1 in
     if left = 0 then Inr (buffer, lfn, left, entry_index)
     else place_entries record is buffer lfn left entry_index)"

partial_function (option) place_loop ::
    "fat32_info_t \<Rightarrow> bytes \<Rightarrow> fat32_position_t \<Rightarrow> u16 \<Rightarrow> bytes \<Rightarrow> dynamic_array_t \<Rightarrow> u16 \<Rightarrow> u16 \<Rightarrow> fat_state \<Rightarrow>
     (fat32_position_t option \<times> u16 \<times> fat_state) lres" where
  [code]: "place_loop info record position start_index buffer lfn left entry_index s =
     (if HAS_READING_ERROR position then Some (Inr (Some position, entry_index, s))
      else
        lbind (Some (fat32_read_cluster_sync info (pos_cluster position) buffer s)) (\<lambda>(ok, buffer, s).
        if \<not> ok then Some (Inr (None, entry_index, s))
        else
          lbind (Some (place_entries record [unat start_index..<unat (entries_per_cluster info)] buffer lfn left entry_index)) (\<lambda>(buffer, lfn, left, entry_index).
          lbind (Some (fat32_write_cluster_sync info (pos_cluster position) buffer s)) (\<lambda>(ok, s).
          if \<not> ok then Some (Inr (None, entry_index, s))
          else if left = 0 then Some (Inr (Some position, entry_index, s))
          else lbind (Some (fat32_next_cluster_sync info position s)) (\<lambda>(position, s).
               place_loop info record position 0 buffer lfn left entry_index s)))))"

definition file_record :: "fat32_dos_filename_t \<Rightarrow> u8 \<Rightarrow> datetime_fat_t \<Rightarrow> bytes" where
  "file_record d attributes now =
     dn_name d @ dn_extension d @ [attributes, 0, 0] @ put16 (time now) @ put16 (date now) @ put16 (date now) @ put16 0 @
     put16 (time now) @ put16 (date now) @ put16 0 @ put32 0"

section \<open>Creating a file\<close>

text \<open>The result is \<open>None\<close> for false and what is stored in \<open>*result\<close> for true.\<close>

definition fat32_create_file ::
    "bool \<Rightarrow> fat32_info_t \<Rightarrow> fat32_basic_file_info_t \<Rightarrow> bytes \<Rightarrow> u8 \<Rightarrow> fat_state \<Rightarrow> (fat32_basic_file_info_t option \<times> fat_state) lres" where
  "fat32_create_file got info dir_info filename attributes s =
     lbind (Some (buf_read filename 0 1)) (\<lambda>first.
     if first = [0] then Some (Inr (None, s))
     else
       lbind (fat32_find_files got info dir_info (Some filename) False s) (\<lambda>(same_name, s).
       case same_name of
         None \<Rightarrow> Some (Inl (Undefined ''NULL dereference''))
       | Some (_ # _) \<Rightarrow> Some (Inr (None, s))
       | Some [] \<Rightarrow>
         lbind (fat32_read_directory info dir_info s) (\<lambda>(dir_files, s).
         case dir_files of
           None \<Rightarrow> Some (Inl (Undefined ''NULL dereference''))
         | Some files \<Rightarrow>
           lbind (fat32_get_dos_filename (\<lambda>n. uninit n s) files filename (fs_seed s)) (\<lambda>(dos_filename, seed).
           let s = s\<lparr> fs_seed := seed \<rparr> in
           lbind (fat32_split_filename_to_lfn (\<lambda>n. uninit n s) filename (ucast (fat32_get_lfn_checksum dos_filename))) (\<lambda>lfn_entries.
           let new_entries_count = 1 + ucast (da_count lfn_entries) in
           lbind (Some (datetime_get (fs_io s))) (\<lambda>(now_dt, io).
           let s = s\<lparr> fs_io := io \<rparr>;
               now = datetime_fat_from_datetime now_dt;
               record = file_record dos_filename attributes now in
           lbind (Some (chain_start info (ff_cluster dir_info) s)) (\<lambda>(position, s).
           lbind (scan_loop info new_entries_count position (uninit (unat (32 * entries_per_cluster info)) s)
                    \<lparr> fr_length = 0, fr_cluster = 0, fr_index = 0 \<rparr> s) (\<lambda>(r, run, buffer, s).
           case r of
             None \<Rightarrow> Some (Inr (None, s))
           | Some position \<Rightarrow>
             if HAS_READING_ERROR position then Some (Inr (None, s))
             else
               lbind (Some (chain_start info (fr_cluster run) s)) (\<lambda>(position, s).
               lbind (place_loop info record position (fr_index run) buffer lfn_entries new_entries_count (fr_index run) s) (\<lambda>(r, entry_index, s).
               case r of
                 None \<Rightarrow> Some (Inr (None, s))
               | Some position \<Rightarrow>
                 if HAS_READING_ERROR position then Some (Inr (None, s))
                 else
                   lbind (Some (strdup (\<lambda>n. uninit (unat n) s) filename)) (\<lambda>name.
                   Some (Inr (Some
                     \<lparr> ff_filename = name, ff_dos_filename = dn_name dos_filename, ff_dos_extension = dn_extension dos_filename,
                       ff_attributes = attributes, ff_creation = now, ff_modify = now, ff_size = 0, ff_cluster = 0,
                       ff_entry_cluster = pos_cluster position, ff_entry_index = entry_index,
                       ff_first_entry_cluster = fr_cluster run, ff_first_entry_index = fr_index run \<rparr>, s)))))))))))))"

section \<open>Creating a directory\<close>

text \<open>
  The two entries of a new directory.  The code stores the upper half of the parent's cluster in
  the field of the lower half.
\<close>

definition special_records :: "fat32_basic_file_info_t \<Rightarrow> u32 \<Rightarrow> u32 \<Rightarrow> bytes" where
  "special_records new_dir prev_cluster new_cluster =
     (let c = ff_creation new_dir; m = ff_modify new_dir;
          times = [FAT32_ATTRIBUTE_DIRECTORY, 0, 0] @ put16 (time c) @ put16 (date c) @ put16 (date m) in
      replicate 1 0x2E @ replicate 10 0x20 @ times @ put16 (ucast (drop_bit 16 new_cluster)) @ put16 (time m) @ put16 (date m) @
        put16 (ucast (new_cluster AND 0xFFFF)) @ put32 0 @
      replicate 2 0x2E @ replicate 9 0x20 @ times @ put16 0 @ put16 (time m) @ put16 (date m) @
        put16 (ucast (drop_bit 16 prev_cluster)) @ put32 0)"

definition fat32_create_directory ::
    "bool \<Rightarrow> fat32_info_t \<Rightarrow> fat32_basic_file_info_t \<Rightarrow> bytes \<Rightarrow> u8 \<Rightarrow> fat_state \<Rightarrow> (fat32_basic_file_info_t option \<times> fat_state) lres" where
  "fat32_create_directory got info dir_info dirname attributes s =
     lbind (fat32_create_file got info dir_info dirname (attributes OR FAT32_ATTRIBUTE_DIRECTORY) s) (\<lambda>(r, s).
     case r of
       None \<Rightarrow> Some (Inr (None, s))
     | Some new_dir \<Rightarrow>
       let prev_cluster = (if ff_cluster dir_info = fi_root info then 0 else ff_cluster dir_info) in
       lbind (fat32_take_new_cluster_sync info 0 s) (\<lambda>(new_cluster, s).
       let special = special_records new_dir prev_cluster new_cluster;
           new_dir = new_dir\<lparr> ff_cluster := new_cluster \<rparr> in
       lbind (Some (fat32_update_directory_entry info new_dir s)) (\<lambda>(ok, s).
       if \<not> ok then Some (Inr (None, s))
       else
         lbind (fat32_write_file_sync info new_dir 0 special 64 s) (\<lambda>(ok, new_dir, s).
         Some (Inr (if ok then Some new_dir else None, s))))))"

section \<open>Removing\<close>

text \<open>The entries from \<open>start_index\<close> on up to the first one that is no long-name record.\<close>

fun mark_deleted :: "nat list \<Rightarrow> bytes \<Rightarrow> bytes \<times> bool" where
  "mark_deleted [] buffer = (buffer, False)"
| "mark_deleted (i # is) buffer =
     (let non_lfn_entry = buffer ! (32 * i + 11) \<noteq> FAT32_ATTRIBUTE_LFN;
          buffer = buffer[32 * i + 11 := FAT32_ATTRIBUTE_DELETED] in
      if non_lfn_entry then (buffer, True) else mark_deleted is buffer)"

partial_function (option) remove_loop ::
    "fat32_info_t \<Rightarrow> u32 \<Rightarrow> fat32_position_t \<Rightarrow> bytes \<Rightarrow> fat_state \<Rightarrow> (fat32_position_t option \<times> fat_state) lres" where
  [code]: "remove_loop info start_index position buffer s =
     (if HAS_READING_ERROR position then Some (Inr (Some position, s))
      else
        lbind (Some (fat32_read_cluster_sync info (pos_cluster position) buffer s)) (\<lambda>(ok, buffer, s).
        if \<not> ok then Some (Inr (None, s))
        else
          let (buffer, non_lfn_entry) = mark_deleted [unat start_index..<unat (entries_per_cluster info)] buffer in
          lbind (Some (fat32_write_cluster_sync info (pos_cluster position) buffer s)) (\<lambda>(ok, s).
          if \<not> ok then Some (Inr (None, s))
          else if non_lfn_entry then Some (Inr (Some position, s))
          else lbind (Some (fat32_next_cluster_sync info position s)) (\<lambda>(position, s).
               remove_loop info start_index position buffer s))))"

definition fat32_remove_directory_entry ::
    "fat32_info_t \<Rightarrow> fat32_basic_file_info_t \<Rightarrow> fat_state \<Rightarrow> (bool \<times> fat_state) lres" where
  "fat32_remove_directory_entry info file_info s =
     lbind (Some (chain_start info (ff_first_entry_cluster file_info) s)) (\<lambda>(position, s).
     lbind (remove_loop info (ucast (ff_first_entry_index file_info)) position
              (uninit (unat (32 * entries_per_cluster info)) s) s) (\<lambda>(r, s).
     Some (Inr (case r of None \<Rightarrow> False | Some position \<Rightarrow> \<not> HAS_READING_ERROR position, s))))"

definition fat32_remove_file ::
    "fat32_info_t \<Rightarrow> fat32_basic_file_info_t \<Rightarrow> fat_state \<Rightarrow> (bool \<times> fat32_basic_file_info_t \<times> fat_state) lres" where
  "fat32_remove_file info file_info s =
     lbind (fat32_erase_file_sync info file_info s) (\<lambda>(ok, file_info, s).
     if \<not> ok then Some (Inr (False, file_info, s))
     else
       lbind (fat32_remove_directory_entry info file_info s) (\<lambda>(ok, s).
       Some (Inr (ok, file_info, s))))"

end
