(* ===== verification/Disk_Correct.thy ===== *)
theory Disk_Correct
  imports Disk_Cache
begin

text \<open>
  Correctness of the disk layer.  \<open>disk_view\<close> is what a disk holds for its users: a sector of a
  cached record, or else the sector of the drive.  Reads return it and no operation but a write
  changes it, whatever transfers fail, as long as requests do not overlap cached records partly.
\<close>

section \<open>The sectors a disk holds\<close>

definition rec_has :: "disk_cache_record_t \<Rightarrow> u32 \<Rightarrow> bool" where
  "rec_has r x \<longleftrightarrow> unat (rec_start r) \<le> unat x \<and> unat x < unat (rec_start r) + unat (rec_count r)"

definition rec_sector :: "disk_cache_record_t \<Rightarrow> u32 \<Rightarrow> bytes" where
  "rec_sector r x = slot 512 (rec_data r) (unat x - unat (rec_start r))"

definition rec_ok :: "disk_cache_record_t \<Rightarrow> bool" where
  "rec_ok r \<longleftrightarrow> unat (rec_start r) + unat (rec_count r) < 2 ^ 32 \<and> 0 < unat (rec_count r) \<and>
     unat (rec_count r) \<le> 4096 \<and> length (rec_data r) = unat (rec_count r) * 512"

definition apart :: "disk_cache_record_t \<Rightarrow> disk_cache_record_t \<Rightarrow> bool" where
  "apart a b \<longleftrightarrow> (\<forall>x. \<not> (rec_has a x \<and> rec_has b x))"

definition cache_ok :: "disk_cache_record_t list \<Rightarrow> bool" where
  "cache_ok rs \<longleftrightarrow> (\<forall>r \<in> set rs. rec_ok r) \<and> sorted_wrt apart rs"

fun view_in :: "(u32 \<Rightarrow> bytes) \<Rightarrow> disk_cache_record_t list \<Rightarrow> u32 \<Rightarrow> bytes" where
  "view_in hw [] x = hw x"
| "view_in hw (r # rs) x = (if rec_has r x then rec_sector r x else view_in hw rs x)"

definition disk_hw :: "disk_state \<Rightarrow> u8 \<Rightarrow> u32 \<Rightarrow> bytes" where
  "disk_hw s = hw_sectors s (ds_use_ahci s)"

definition disk_view :: "disk_state \<Rightarrow> u8 \<Rightarrow> u32 \<Rightarrow> bytes" where
  "disk_view s disk_id = view_in (disk_hw s disk_id) (dc_cache (ds_cache s disk_id))"

definition disk_ok :: "disk_state \<Rightarrow> bool" where
  "disk_ok s \<longleftrightarrow> (\<forall>i < 32. dc_capacity (ds_cache s i) = 0 \<and> cache_ok (dc_cache (ds_cache s i))) \<and>
     (\<forall>i x. length (disk_hw s i x) = 512)"

definition in_range :: "u32 \<Rightarrow> u32 \<Rightarrow> u32 \<Rightarrow> bool" where
  "in_range a n x \<longleftrightarrow> unat a \<le> unat x \<and> unat x < unat a + unat n"

lemma in_range_slot: "in_range a n x \<Longrightarrow> (unat x - unat a) * 512 + 512 \<le> unat n * 512"
proof -
  assume "in_range a n x"
  then have "Suc (unat x - unat a) \<le> unat n" by (auto simp: in_range_def)
  from mult_le_mono1 [OF this, of 512] show ?thesis by simp
qed

definition rec_covers :: "u32 \<Rightarrow> u32 \<Rightarrow> disk_cache_record_t \<Rightarrow> bool" where
  "rec_covers a n r \<longleftrightarrow> (\<forall>x. in_range a n x \<longrightarrow> rec_has r x)"

definition rec_misses :: "u32 \<Rightarrow> u32 \<Rightarrow> disk_cache_record_t \<Rightarrow> bool" where
  "rec_misses a n r \<longleftrightarrow> (\<forall>x. in_range a n x \<longrightarrow> \<not> rec_has r x)"

definition request_ok :: "disk_state \<Rightarrow> u8 \<Rightarrow> u32 \<Rightarrow> u32 \<Rightarrow> bool" where
  "request_ok s disk_id a n \<longleftrightarrow> disk_id < 32 \<and> unat a + unat n < 2 ^ 32 \<and> 0 < unat n \<and> unat n \<le> 4096 \<and>
     (\<forall>r \<in> set (dc_cache (ds_cache s disk_id)). rec_covers a n r \<or> rec_misses a n r)"

text \<open>The bytes of consecutive sectors.\<close>

definition sectors :: "(u32 \<Rightarrow> bytes) \<Rightarrow> u32 \<Rightarrow> nat \<Rightarrow> bytes" where
  "sectors v a n = concat (map (\<lambda>i. v (a + of_nat i)) [0..<n])"

definition put_sectors :: "u32 \<Rightarrow> nat \<Rightarrow> bytes \<Rightarrow> (u32 \<Rightarrow> bytes) \<Rightarrow> u32 \<Rightarrow> bytes" where
  "put_sectors a n d v x = (if unat (x - a) < n then slot 512 d (unat (x - a)) else v x)"

section \<open>Arithmetic of sector numbers\<close>

lemma unat_minus_less_iff:
  assumes "unat (a :: u32) + n < 2 ^ 32"
  shows "unat (x - a) < n \<longleftrightarrow> unat a \<le> unat x \<and> unat x < unat a + n"
  using assms unat_less_2p32 [of x] unat_less_2p32 [of a]
  by (cases "unat a \<le> unat x") (auto simp: unat_diff_wrap mod_if)

lemma unat_minus_le: "unat (a :: u32) \<le> unat x \<Longrightarrow> unat (x - a) = unat x - unat a"
  by (simp add: unat_sub word_le_nat_alt)

lemma unat_plus_less: "unat (a :: u32) + unat n < 2 ^ 32 \<Longrightarrow> unat (a + n) = unat a + unat n"
  by (simp add: unat_word_ariths)

lemma unat_plus_nat: "unat (a :: u32) + i < 2 ^ 32 \<Longrightarrow> unat (a + of_nat i) = unat a + i"
  by (simp add: unat_word_ariths unat_of_nat)

lemma covers_iff:
  assumes "rec_ok r" "unat a + unat n < 2 ^ 32" "0 < unat n"
  shows "rec_covers a n r \<longleftrightarrow> rec_start r \<le> a \<and> a + n \<le> rec_start r + rec_count r"
proof -
  have e: "unat (a + n) = unat a + unat n" "unat (rec_start r + rec_count r) = unat (rec_start r) + unat (rec_count r)"
    using assms by (simp_all add: unat_plus_less rec_ok_def)
  obtain z :: u32 where l: "unat z = unat a + (unat n - 1)"
    using unat_plus_nat [of a "unat n - 1"] assms by fastforce
  show ?thesis
  proof
    assume c: "rec_covers a n r"
    have "in_range a n a" "in_range a n z"
      using assms(3) l by (auto simp: in_range_def)
    then have "rec_has r a" "rec_has r z" using c unfolding rec_covers_def by blast+
    then show "rec_start r \<le> a \<and> a + n \<le> rec_start r + rec_count r"
      using assms(3) unfolding rec_has_def word_le_nat_alt e l by linarith
  next
    assume "rec_start r \<le> a \<and> a + n \<le> rec_start r + rec_count r"
    then show "rec_covers a n r"
      by (auto simp: rec_covers_def rec_has_def in_range_def word_le_nat_alt e)
  qed
qed

lemma misses_iff:
  assumes "rec_ok r" "unat a + unat n < 2 ^ 32" "0 < unat n"
  shows "rec_misses a n r \<longleftrightarrow> \<not> (rec_start r < a + n \<and> a < rec_start r + rec_count r)"
proof -
  have e: "unat (a + n) = unat a + unat n" "unat (rec_start r + rec_count r) = unat (rec_start r) + unat (rec_count r)"
    using assms by (simp_all add: unat_plus_less rec_ok_def)
  have p: "0 < unat (rec_count r)" using assms(1) by (simp add: rec_ok_def)
  show ?thesis
  proof
    assume m: "rec_misses a n r"
    have "in_range a n a \<longrightarrow> \<not> rec_has r a" "in_range a n (rec_start r) \<longrightarrow> \<not> rec_has r (rec_start r)"
      using m unfolding rec_misses_def by blast+
    then show "\<not> (rec_start r < a + n \<and> a < rec_start r + rec_count r)"
      using assms(3) p by (auto simp: rec_has_def in_range_def word_less_nat_alt e)
  qed (auto simp: rec_misses_def rec_has_def in_range_def word_less_nat_alt e)
qed

lemma length_sectors: "(\<And>x. length (v x) = 512) \<Longrightarrow> length (sectors v a n) = n * 512"
  by (simp add: sectors_def length_concat comp_def sum_list_triv)

lemma slot_sectors:
  assumes "\<And>x. length (v x) = 512" "i < n"
  shows "slot 512 (sectors v a n) i = v (a + of_nat i)"
  using assms
proof (induction n)
  case (Suc n)
  have e: "sectors v a (Suc n) = sectors v a n @ v (a + of_nat n)" by (simp add: sectors_def)
  have l: "length (sectors v a n) = n * 512" using Suc.prems(1) by (rule length_sectors)
  show ?case
  proof (cases "i < n")
    case True
    then have "i * 512 + 512 \<le> n * 512" by simp
    then show ?thesis using Suc True unfolding e by (simp add: slot_def l)
  next
    case False
    then have "i = n" using Suc.prems(2) by simp
    then show ?thesis using Suc.prems(1) unfolding e by (simp add: slot_def l)
  qed
qed simp

lemma sectors_slots:
  assumes "length d = n * 512" "\<And>i. i < n \<Longrightarrow> v (a + of_nat i) = slot 512 d i"
  shows "sectors v a n = d"
  using assms
proof (induction n arbitrary: d)
  case (Suc n)
  have "sectors v a n = take (n * 512) d"
    by (rule Suc.IH) (use Suc.prems in \<open>auto simp: slot_def take_drop min_def\<close>)
  moreover have "v (a + of_nat n) = drop (n * 512) d" using Suc.prems by (simp add: slot_def)
  ultimately show ?case by (simp add: sectors_def)
qed (simp add: sectors_def)

lemma slot_append_left: "k * es + es \<le> length p \<Longrightarrow> slot es (p @ q) k = slot es p k"
  by (simp add: slot_def)

lemma slot_take: "k * es + es \<le> n \<Longrightarrow> slot es (take n xs) k = slot es xs k"
proof -
  assume a: "k * es + es \<le> n"
  then have "take es (drop (k * es) (take n xs)) = take es (take (n - k * es) (drop (k * es) xs))" by (simp add: drop_take)
  also have "\<dots> = take es (drop (k * es) xs)" using a by (simp add: min_def)
  finally show ?thesis by (simp add: slot_def)
qed

section \<open>The drive\<close>

text \<open>The change of a drive by a transfer, with everything else as it was.\<close>

definition drive_upd :: "u8 \<Rightarrow> (u32 \<Rightarrow> bytes) \<Rightarrow> disk_state \<Rightarrow> disk_state \<Rightarrow> bool" where
  "drive_upd i hw s s' \<longleftrightarrow> ds_cache s' = ds_cache s \<and> ds_use_ahci s' = ds_use_ahci s \<and> ds_boot_id s' = ds_boot_id s \<and>
     ds_shutdown s' = ds_shutdown s \<and> hw_ports s' = hw_ports s \<and> hw_fault s' = hw_fault s \<and>
     disk_hw s' = (disk_hw s)(i := hw)"

lemma drive_upd_refl: "drive_upd i (disk_hw s i) s s"
  by (simp add: drive_upd_def)

lemma drive_upd_trans: "drive_upd i hw s s1 \<Longrightarrow> drive_upd i hw' s1 s2 \<Longrightarrow> drive_upd i hw' s s2"
  by (simp add: drive_upd_def)

lemma transfer_read_ok:
  assumes "unat n * 512 \<le> length buffer" "\<And>i x. length (disk_hw s i x) = 512"
  shows "\<exists>ok b s'. disk_hardware_transfer_sync i a n buffer False s = Inr (ok, b, s') \<and> drive_upd i (disk_hw s i) s s' \<and>
    length b = length buffer \<and> (ok \<longrightarrow> b = sectors (disk_hw s i) a (unat n) @ drop (unat n * 512) buffer) \<and> (ok \<longleftrightarrow> hw_fault s (hw_transfers s) = None)"
proof -
  let ?m = "case hw_fault s (hw_transfers s) of None \<Rightarrow> unat n | Some k \<Rightarrow> min k (unat n)"
  have m: "?m \<le> unat n" by (simp split: option.split)
  have l: "length (sectors (disk_hw s i) a ?m) = ?m * 512" by (rule length_sectors) (rule assms(2))
  have "?m * 512 \<le> length buffer" using m assms(1) by simp
  then show ?thesis
    using l assms(1)
    by (auto simp: disk_hardware_transfer_sync_def Let_def sectors_def [symmetric] disk_hw_def drive_upd_def
        simp del: upt_Suc split: option.split)
qed

lemma transfer_write_ok:
  assumes "unat n * 512 \<le> length buffer" "\<And>i x. length (disk_hw s i x) = 512"
  shows "\<exists>ok s' m. disk_hardware_transfer_sync i a n buffer True s = Inr (ok, buffer, s') \<and> m \<le> unat n \<and> (ok \<longrightarrow> m = unat n) \<and>
    drive_upd i (put_sectors a m buffer (disk_hw s i)) s s' \<and> (ok \<longleftrightarrow> hw_fault s (hw_transfers s) = None)"
proof -
  let ?m = "case hw_fault s (hw_transfers s) of None \<Rightarrow> unat n | Some k \<Rightarrow> min k (unat n)"
  have m: "?m \<le> unat n" by (simp split: option.split)
  have b: "?m * 512 \<le> length buffer" using m assms(1) by simp
  define m where "m = ?m"
  define s' where "s' = s\<lparr> hw_transfers := Suc (hw_transfers s),
    hw_sectors := (hw_sectors s)(ds_use_ahci s := (hw_sectors s (ds_use_ahci s))(i := put_sectors a m buffer (disk_hw s i))) \<rparr>"
  have "slot 512 (take (m * 512) buffer) k = slot 512 buffer k" if "k < m" for k
  proof -
    have "512 \<le> m * 512 - k * 512" using that by simp
    then show ?thesis by (simp add: slot_def drop_take min_def)
  qed
  then have p: "(\<lambda>x. if unat (x - a) < m then slot 512 (take (m * 512) buffer) (unat (x - a)) else disk_hw s i x) =
      put_sectors a m buffer (disk_hw s i)"
    by (auto simp: put_sectors_def fun_eq_iff)
  have r: "buf_read buffer 0 (m * 512) = Inr (take (m * 512) buffer)" using b by (simp add: m_def)
  have "disk_hardware_transfer_sync i a n buffer True s = Inr (hw_fault s (hw_transfers s) = None, buffer, s')"
    unfolding disk_hardware_transfer_sync_def Let_def m_def [symmetric]
    by (simp add: r p [unfolded disk_hw_def] s'_def disk_hw_def)
  moreover have "drive_upd i (put_sectors a m buffer (disk_hw s i)) s s'" by (simp add: drive_upd_def s'_def disk_hw_def)
  moreover have "hw_fault s (hw_transfers s) = None \<longrightarrow> m = unat n" by (simp add: m_def)
  ultimately show ?thesis using m unfolding m_def [symmetric]
    by (intro exI [of _ "hw_fault s (hw_transfers s) = None"] exI [of _ s'] exI [of _ m]) simp
qed

section \<open>Views\<close>

lemma view_in_none: "(\<forall>r \<in> set rs. \<not> rec_has r x) \<Longrightarrow> view_in hw rs x = hw x"
  by (induction rs) auto

lemma view_in_some:
  assumes "cache_ok rs" "r \<in> set rs" "rec_has r x"
  shows "view_in hw rs x = rec_sector r x"
  using assms
proof (induction rs)
  case (Cons q rs)
  show ?case
  proof (cases "r = q")
    case False
    then have "r \<in> set rs" "apart q r" "cache_ok rs" using Cons.prems by (auto simp: cache_ok_def)
    with Cons show ?thesis by (auto simp: apart_def)
  qed (use Cons.prems in simp)
qed simp

lemma view_in_cong: "(\<And>x. \<forall>r \<in> set rs. \<not> rec_has r x \<Longrightarrow> hw x = hw' x) \<Longrightarrow> view_in hw rs = view_in hw' rs"
proof (rule ext)
  fix x assume "\<And>x. \<forall>r \<in> set rs. \<not> rec_has r x \<Longrightarrow> hw x = hw' x"
  then have "(\<forall>r \<in> set rs. \<not> rec_has r x) \<longrightarrow> hw x = hw' x" by blast
  then show "view_in hw rs x = view_in hw' rs x" by (induction rs) auto
qed

lemma length_rec_sector: "rec_ok r \<Longrightarrow> rec_has r x \<Longrightarrow> length (rec_sector r x) = 512"
  unfolding rec_sector_def
  by (rule length_slot [where n = "unat (rec_count r)"]) (auto simp: rec_ok_def rec_has_def)

lemma length_view_in:
  "(\<And>x. length (hw x) = 512) \<Longrightarrow> \<forall>r \<in> set rs. rec_ok r \<Longrightarrow> length (view_in hw rs x) = 512"
  by (induction rs) (auto simp: length_rec_sector)

lemma length_disk_view: "disk_ok s \<Longrightarrow> i < 32 \<Longrightarrow> length (disk_view s i x) = 512"
  by (auto simp: disk_ok_def cache_ok_def disk_view_def intro: length_view_in)

section \<open>Flushing\<close>

text \<open>A flush that stops half-way leaves each sector of the drive as it was or as the cache has it.\<close>

lemma put_sectors_record:
  assumes "rec_ok r" "m \<le> unat (rec_count r)"
  shows "put_sectors (rec_start r) m (rec_data r) v x = v x \<or> rec_has r x \<and> put_sectors (rec_start r) m (rec_data r) v x = rec_sector r x"
    and "m = unat (rec_count r) \<Longrightarrow> put_sectors (rec_start r) m (rec_data r) v x = (if rec_has r x then rec_sector r x else v x)"
proof -
  have "unat (x - rec_start r) < m \<longleftrightarrow> unat (rec_start r) \<le> unat x \<and> unat x < unat (rec_start r) + m"
    by (rule unat_minus_less_iff) (use assms in \<open>simp add: rec_ok_def\<close>)
  then show "put_sectors (rec_start r) m (rec_data r) v x = v x \<or> rec_has r x \<and> put_sectors (rec_start r) m (rec_data r) v x = rec_sector r x"
    and "m = unat (rec_count r) \<Longrightarrow> put_sectors (rec_start r) m (rec_data r) v x = (if rec_has r x then rec_sector r x else v x)"
    using assms by (auto simp: put_sectors_def rec_has_def rec_sector_def unat_minus_le)
qed

lemma flush_records_ok:
  assumes "\<forall>r \<in> set rs. rec_ok r" "sorted_wrt apart rs" "\<And>i x. length (disk_hw s i x) = 512"
  shows "\<exists>ok s' hw. flush_records i rs s = Inr (ok, s') \<and> drive_upd i hw s s' \<and>
    (\<forall>x. hw x = disk_hw s i x \<or> hw x = view_in (disk_hw s i) rs x) \<and>
    (ok \<longrightarrow> hw = view_in (disk_hw s i) rs) \<and> ((\<forall>k. hw_fault s k = None) \<longrightarrow> ok)"
  using assms
proof (induction rs arbitrary: s)
  case Nil
  then show ?case by (intro exI [of _ True] exI [of _ s] exI [of _ "disk_hw s i"]) (simp add: drive_upd_refl fun_eq_iff)
next
  case (Cons r rs)
  have r: "rec_ok r" using Cons.prems(1) by simp
  then have l: "length (rec_data r) = unat (rec_count r) * 512" by (simp add: rec_ok_def)
  obtain ok1 s1 m where 1: "disk_hardware_transfer_sync i (rec_start r) (rec_count r) (rec_data r) True s = Inr (ok1, rec_data r, s1)"
    "m \<le> unat (rec_count r)" "ok1 \<longrightarrow> m = unat (rec_count r)"
    "drive_upd i (put_sectors (rec_start r) m (rec_data r) (disk_hw s i)) s s1" "ok1 \<longleftrightarrow> hw_fault s (hw_transfers s) = None"
    using transfer_write_ok [where i = i and s = s and a = "rec_start r", OF eq_refl [OF l [symmetric]] Cons.prems(3)] by (elim exE conjE) (rule that)
  note ps = put_sectors_record [OF r 1(2), of "disk_hw s i"]
  have vr: "view_in (disk_hw s i) (r # rs) x = rec_sector r x" if "rec_has r x" for x using that by simp
  show ?case
  proof (cases ok1)
    case False
    have "\<forall>x. put_sectors (rec_start r) m (rec_data r) (disk_hw s i) x = disk_hw s i x \<or>
        put_sectors (rec_start r) m (rec_data r) (disk_hw s i) x = view_in (disk_hw s i) (r # rs) x"
      using ps(1) vr by metis
    then show ?thesis using False 1 by (intro exI [of _ False] exI [of _ s1] exI) auto
  next
    case True
    let ?hw1 = "\<lambda>x. if rec_has r x then rec_sector r x else disk_hw s i x"
    have h1: "disk_hw s1 i = ?hw1" using 1(3,4) True ps(2) by (auto simp: drive_upd_def fun_eq_iff)
    have len: "length (disk_hw s1 j x) = 512" for j x
      using Cons.prems(3) 1(4) h1 length_rec_sector [OF r] by (auto simp: drive_upd_def fun_upd_def split: if_splits)
    obtain ok2 s2 hw where 2: "flush_records i rs s1 = Inr (ok2, s2)" "drive_upd i hw s1 s2"
      "\<forall>x. hw x = disk_hw s1 i x \<or> hw x = view_in (disk_hw s1 i) rs x" "ok2 \<longrightarrow> hw = view_in (disk_hw s1 i) rs"
      "(\<forall>k. hw_fault s1 k = None) \<longrightarrow> ok2"
      using Cons.IH [of s1] Cons.prems(1,2) len by auto
    have c: "cache_ok (r # rs)" using Cons.prems(1,2) by (simp add: cache_ok_def)
    have v: "view_in (disk_hw s1 i) rs x = view_in (disk_hw s i) (r # rs) x" for x
    proof (cases "\<exists>q \<in> set rs. rec_has q x")
      case True
      then obtain q where q: "q \<in> set rs" "rec_has q x" by blast
      then have "\<not> rec_has r x" using Cons.prems(2) by (auto simp: apart_def)
      then show ?thesis using view_in_some [of rs q x] q c by (simp add: cache_ok_def)
    qed (auto simp: h1 view_in_none)
    have "\<forall>x. hw x = disk_hw s i x \<or> hw x = view_in (disk_hw s i) (r # rs) x"
      using 2(3) v vr unfolding h1 by metis
    moreover have "ok2 \<longrightarrow> hw = view_in (disk_hw s i) (r # rs)" using 2(4) v by (auto simp: fun_eq_iff)
    moreover have "(\<forall>k. hw_fault s k = None) \<longrightarrow> ok2" using 2(5) 1(4) by (simp add: drive_upd_def)
    moreover have "drive_upd i hw s s2" by (rule drive_upd_trans [OF 1(4) 2(2)])
    ultimately show ?thesis using 1(1) 2(1) True by (intro exI [of _ ok2] exI [of _ s2] exI [of _ hw]) simp
  qed
qed

definition disk_frame :: "disk_state \<Rightarrow> disk_state \<Rightarrow> bool" where
  "disk_frame s s' \<longleftrightarrow> ds_use_ahci s' = ds_use_ahci s \<and> ds_boot_id s' = ds_boot_id s \<and>
     ds_shutdown s' = ds_shutdown s \<and> hw_ports s' = hw_ports s \<and> hw_fault s' = hw_fault s"

lemma disk_frame_refl [simp]: "disk_frame s s"
  by (simp add: disk_frame_def)

lemma disk_frame_trans: "disk_frame s s1 \<Longrightarrow> disk_frame s1 s2 \<Longrightarrow> disk_frame s s2"
  by (simp add: disk_frame_def)

lemma drive_upd_frame: "drive_upd i hw s s' \<Longrightarrow> disk_frame s s'"
  by (simp add: drive_upd_def disk_frame_def)

lemma drive_upd_ok:
  assumes "disk_ok s" "drive_upd i hw s s'" "\<And>x. length (hw x) = 512"
  shows "disk_ok s'"
  using assms by (simp add: disk_ok_def drive_upd_def)

lemma drive_upd_view:
  assumes "drive_upd i hw s s'"
  shows "disk_view s' = (disk_view s)(i := view_in hw (dc_cache (ds_cache s i)))"
proof -
  have e: "ds_cache s' = ds_cache s" "disk_hw s' = (disk_hw s)(i := hw)" using assms by (simp_all add: drive_upd_def)
  show ?thesis by (rule ext) (simp add: disk_view_def e)
qed

lemma view_in_written_back:
  assumes "\<And>x. hw' x = hw x \<or> hw' x = view_in hw rs x"
  shows "view_in hw' rs = view_in hw rs"
  by (rule view_in_cong) (metis assms view_in_none)

lemma disk_flush_ok:
  assumes "disk_ok s" "i < 32"
  shows "\<exists>ok s'. disk_flush_cache_sync i s = Inr (ok, s') \<and> disk_ok s' \<and> disk_frame s s' \<and> ds_cache s' = ds_cache s \<and>
    disk_view s' = disk_view s \<and> (ok \<longrightarrow> disk_hw s' i = disk_view s i) \<and> ((\<forall>k. hw_fault s k = None) \<longrightarrow> ok)"
proof -
  let ?rs = "dc_cache (ds_cache s i)"
  have c: "\<forall>r \<in> set ?rs. rec_ok r" "sorted_wrt apart ?rs" "length (disk_hw s j x) = 512" for j x
    using assms by (auto simp: disk_ok_def cache_ok_def)
  obtain ok s' hw where f: "flush_records i ?rs s = Inr (ok, s')" "drive_upd i hw s s'"
    "\<forall>x. hw x = disk_hw s i x \<or> hw x = view_in (disk_hw s i) ?rs x" "ok \<longrightarrow> hw = view_in (disk_hw s i) ?rs"
    "(\<forall>k. hw_fault s k = None) \<longrightarrow> ok"
    using flush_records_ok [OF c] by blast
  have "length (hw x) = 512" for x using f(3) c(3) length_view_in [of "disk_hw s i" ?rs x] c(1) by metis
  then have "disk_ok s'" by (rule drive_upd_ok [OF assms(1) f(2)])
  moreover have "view_in hw ?rs = disk_view s i" using view_in_written_back f(3) by (simp add: disk_view_def)
  then have "disk_view s' = disk_view s" using drive_upd_view [OF f(2)] by (simp add: fun_eq_iff)
  moreover have "ok \<longrightarrow> disk_hw s' i = disk_view s i" using f(2,4) by (simp add: drive_upd_def disk_view_def)
  ultimately show ?thesis using f(1,2,5) assms(2) drive_upd_frame [OF f(2)]
    by (intro exI [of _ ok] exI [of _ s']) (auto simp: disk_flush_cache_sync_def disk_cache_of_def drive_upd_def)
qed

section \<open>Adding a record\<close>

lemma drop_overlapping_none:
  assumes "\<forall>r \<in> set rs. \<not> (rec_start r < a + n \<and> a < rec_start r + rec_count r)"
  shows "drop_overlapping a n kept rs node =
    (kept @ rs, if rs = [] then node else Top_Node (length kept + length rs - 1))"
  using assms by (induction a n kept rs node rule: drop_overlapping.induct) auto

lemma insert_last:
  "insert_record new rs (if rs = [] then Top_Null else Top_Node (length rs - 1)) = Inr (rs @ [new])"
  by (cases rs) auto

lemma view_in_snoc: "view_in hw (rs @ [r]) x =
  (if \<exists>q \<in> set rs. rec_has q x then view_in hw rs x else if rec_has r x then rec_sector r x else hw x)"
  by (induction rs) auto

lemma unat_times_512: "unat (n :: u32) \<le> 4096 \<Longrightarrow> unat (n * 512) = unat n * 512"
  by (simp add: unat_word_ariths)

lemma add_record_ok:
  assumes "disk_ok s" "i < 32" "unat a + unat n < 2 ^ 32" "0 < unat n" "unat n \<le> 4096"
    and "\<forall>r \<in> set (dc_cache (ds_cache s i)). rec_misses a n r"
    and "unat n * 512 \<le> length d" "\<And>x. in_range a n x \<Longrightarrow> slot 512 d (unat x - unat a) = disk_view s i x"
  shows "\<exists>s'. disk_add_cache_record_sync i a n d s = Inr s' \<and> disk_ok s' \<and> disk_frame s s' \<and> disk_view s' = disk_view s \<and>
    ds_cache s' = (ds_cache s)(i := \<lparr> dc_capacity = 0,
      dc_cache = dc_cache (ds_cache s i) @ [\<lparr> rec_start = a, rec_count = n, rec_data = take (unat n * 512) d \<rparr>] \<rparr>)"
proof -
  let ?rs = "dc_cache (ds_cache s i)" and ?new = "\<lparr> rec_start = a, rec_count = n, rec_data = take (unat n * 512) d \<rparr>"
  obtain ok s1 where 1: "disk_flush_cache_sync i s = Inr (ok, s1)" "disk_ok s1" "disk_frame s s1"
    "ds_cache s1 = ds_cache s" "disk_view s1 = disk_view s"
    using disk_flush_ok [OF assms(1,2)] by blast
  have rs: "\<forall>r \<in> set ?rs. rec_ok r" "sorted_wrt apart ?rs" "dc_capacity (ds_cache s i) = 0"
    using assms(1,2) by (auto simp: disk_ok_def cache_ok_def)
  have "\<forall>r \<in> set ?rs. \<not> (rec_start r < a + n \<and> a < rec_start r + rec_count r)"
    using misses_iff [OF _ assms(3,4)] rs(1) assms(6) by blast
  from drop_overlapping_none [OF this, of "[]" Top_Null]
  have drop: "drop_overlapping a n [] ?rs Top_Null = (?rs, if ?rs = [] then Top_Null else Top_Node (length ?rs - 1))" by simp
  have n: "\<not> DISK_MAX_CACHE_BLOCK < n" "\<not> DISK_CACHE_SECTORS_COUNT < 0 + n"
    using assms(5) by (simp_all add: DISK_MAX_CACHE_BLOCK_def DISK_CACHE_SECTORS_COUNT_def word_less_nat_alt)
  then have ev: "disk_evict n 0 ?rs = Inr (0, ?rs)" by (cases ?rs) auto
  define s' where "s' = set_cache i \<lparr> dc_capacity = 0, dc_cache = ?rs @ [?new] \<rparr> s1"
  have add: "disk_add_cache_record_sync i a n d s = Inr s'"
    using assms(2,7) n(1) by (simp add: disk_add_cache_record_sync_def disk_cache_of_def 1(1,4) rs(3) ev drop insert_last
        unat_times_512 [OF assms(5)] s'_def)
  have has: "rec_has ?new x \<longleftrightarrow> in_range a n x" for x by (simp add: rec_has_def in_range_def)
  have "rec_ok ?new" using assms(3-5,7) by (simp add: rec_ok_def)
  moreover have "apart r ?new" if "r \<in> set ?rs" for r using assms(6) that by (auto simp: apart_def has rec_misses_def)
  ultimately have "cache_ok (?rs @ [?new])" using rs(1,2) by (auto simp: cache_ok_def sorted_wrt_append)
  then have ok: "disk_ok s'" using 1(2) by (simp add: disk_ok_def s'_def set_cache_def disk_hw_def)
  have "view_in (disk_hw s1 i) (?rs @ [?new]) x = view_in (disk_hw s1 i) ?rs x" for x
  proof -
    have v: "view_in (disk_hw s1 i) ?rs x = disk_view s i x" by (metis 1(4,5) disk_view_def)
    show ?thesis
    proof (cases "\<exists>q \<in> set ?rs. rec_has q x")
      case False
      then have "view_in (disk_hw s1 i) ?rs x = disk_hw s1 i x" by (auto intro: view_in_none)
      moreover have "in_range a n x \<Longrightarrow> rec_sector ?new x = slot 512 d (unat x - unat a)"
        unfolding rec_sector_def by (simp, rule slot_take, rule in_range_slot)
      ultimately show ?thesis using assms(8) [of x] v False by (simp add: view_in_snoc has)
    qed (simp add: view_in_snoc)
  qed
  then have "disk_view s' = disk_view s1" by (auto simp: disk_view_def fun_eq_iff s'_def set_cache_def disk_hw_def 1(4))
  moreover have "disk_frame s s'" using 1(3) by (simp add: disk_frame_def s'_def set_cache_def)
  moreover have "ds_cache s' = (ds_cache s)(i := \<lparr> dc_capacity = 0, dc_cache = ?rs @ [?new] \<rparr>)"
    by (simp add: s'_def set_cache_def 1(4))
  ultimately show ?thesis using add ok 1(5) by auto
qed

section \<open>Reading and writing\<close>

lemma covering_record_props:
  "covering_record a n rs k = Some j \<Longrightarrow> k \<le> j \<and> j - k < length rs \<and>
     rec_start (rs ! (j - k)) \<le> a \<and> a + n \<le> rec_start (rs ! (j - k)) + rec_count (rs ! (j - k))"
  "covering_record a n rs k = None \<Longrightarrow> \<forall>r \<in> set rs. \<not> (rec_start r \<le> a \<and> a + n \<le> rec_start r + rec_count r)"
proof (induction rs arbitrary: k)
  case (Cons r rs)
  {
    case 1
    show ?case
    proof (cases "rec_start r \<le> a \<and> a + n \<le> rec_start r + rec_count r")
      case False
      then have "covering_record a n rs (Suc k) = Some j" using 1 by auto
      from Cons.IH(1) [OF this] have h: "Suc k \<le> j" "j - Suc k < length rs" "rec_start (rs ! (j - Suc k)) \<le> a"
        "a + n \<le> rec_start (rs ! (j - Suc k)) + rec_count (rs ! (j - Suc k))" by auto
      then have "j - k = Suc (j - Suc k)" by simp
      then show ?thesis using h by simp
    qed (use 1 in auto)
  next
    case 2
    then show ?case using Cons.IH(2) [of "Suc k"] by (auto split: if_splits)
  }
qed simp_all

lemma get_covering_cases:
  assumes "disk_ok s" "request_ok s i a n"
  obtains (hit) k where "disk_get_covering i a n s = Inr (Some k)" "k < length (dc_cache (ds_cache s i))"
      "rec_covers a n (dc_cache (ds_cache s i) ! k)" "rec_ok (dc_cache (ds_cache s i) ! k)"
  | (miss) "disk_get_covering i a n s = Inr None" "\<forall>r \<in> set (dc_cache (ds_cache s i)). rec_misses a n r"
proof -
  let ?rs = "dc_cache (ds_cache s i)"
  have i: "i < 32" and an: "unat a + unat n < 2 ^ 32" "0 < unat n" using assms(2) by (simp_all add: request_ok_def)
  have ok: "\<forall>r \<in> set ?rs. rec_ok r" using assms(1) i by (auto simp: disk_ok_def cache_ok_def)
  have g: "disk_get_covering i a n s = Inr (covering_record a n ?rs 0)"
    using i by (simp add: disk_get_covering_def disk_cache_of_def)
  show ?thesis
  proof (cases "covering_record a n ?rs 0")
    case None
    from covering_record_props(2) [OF None] have "\<forall>r \<in> set ?rs. \<not> rec_covers a n r"
      using covers_iff [OF _ an] ok by blast
    then show ?thesis using miss assms(2) g None by (auto simp: request_ok_def)
  next
    case (Some k)
    from covering_record_props(1) [OF Some]
    have k: "k < length ?rs" "rec_start (?rs ! k) \<le> a" "a + n \<le> rec_start (?rs ! k) + rec_count (?rs ! k)" by auto
    then have "rec_ok (?rs ! k)" using ok by simp
    moreover from this have "rec_covers a n (?rs ! k)" using covers_iff [OF _ an] k by blast
    ultimately show ?thesis using hit [of k] g Some k by simp
  qed
qed

lemma rec_offset:
  assumes "rec_ok r" "rec_covers a n r" "unat a + unat n < 2 ^ 32" "0 < unat n"
  shows "unat ((a - rec_start r) * 512) = (unat a - unat (rec_start r)) * 512" "unat (rec_start r) \<le> unat a"
    "unat a + unat n \<le> unat (rec_start r) + unat (rec_count r)"
proof -
  have c: "rec_start r \<le> a" "a + n \<le> rec_start r + rec_count r" using covers_iff [OF assms(1,3,4)] assms(2) by auto
  then show le: "unat (rec_start r) \<le> unat a" by (simp add: word_le_nat_alt)
  show en: "unat a + unat n \<le> unat (rec_start r) + unat (rec_count r)"
    using c(2) assms(1,3) by (simp add: word_le_nat_alt unat_plus_less rec_ok_def)
  have "unat (a - rec_start r) \<le> 4096" using en le assms(1,4) unfolding unat_minus_le [OF le] rec_ok_def by linarith
  from unat_times_512 [OF this] show "unat ((a - rec_start r) * 512) = (unat a - unat (rec_start r)) * 512"
    unfolding unat_minus_le [OF le] .
qed

lemma rec_slice:
  assumes "rec_ok r" "unat (rec_start r) \<le> unat a" "unat a + n \<le> unat (rec_start r) + unat (rec_count r)"
    "\<And>i. i < n \<Longrightarrow> v (a + of_nat i) = rec_sector r (a + of_nat i)"
  shows "take (n * 512) (drop ((unat a - unat (rec_start r)) * 512) (rec_data r)) = sectors v a n"
proof (rule sectors_slots [symmetric])
  let ?o = "unat a - unat (rec_start r)"
  have l: "length (rec_data r) = unat (rec_count r) * 512" "unat (rec_start r) + unat (rec_count r) < 2 ^ 32"
    using assms(1) by (simp_all add: rec_ok_def)
  have "?o + n \<le> unat (rec_count r)" using assms(2,3) by simp
  then have "(?o + n) * 512 \<le> length (rec_data r)" unfolding l by (rule mult_le_mono1)
  then show "length (take (n * 512) (drop (?o * 512) (rec_data r))) = n * 512" by (simp add: algebra_simps)
  fix i assume i: "i < n"
  have "unat (a + of_nat i) = unat a + i" by (rule unat_plus_nat) (use i assms(3) l in simp)
  then have o: "unat (a + of_nat i) - unat (rec_start r) = ?o + i" using assms(2) by simp
  have "i * 512 + 512 \<le> n * 512" using i by simp
  then show "v (a + of_nat i) = slot 512 (take (n * 512) (drop (?o * 512) (rec_data r))) i"
    unfolding assms(4) [OF i] rec_sector_def o by (simp add: slot_def drop_take min_def algebra_simps)
qed

lemma in_range_offset: "unat a + unat n < 2 ^ 32 \<Longrightarrow> i < unat n \<Longrightarrow> in_range a n (a + of_nat i)"
  by (simp add: in_range_def unat_plus_nat)

lemma disk_read_ok:
  assumes "disk_ok s" "request_ok s i a n" "unat n * 512 \<le> length buf"
  shows "\<exists>ok b s'. disk_read_sync i a n buf s = Inr (ok, b, s') \<and> disk_ok s' \<and> disk_frame s s' \<and> disk_view s' = disk_view s \<and>
    length b = length buf \<and> (ok \<longrightarrow> b = sectors (disk_view s i) a (unat n) @ drop (unat n * 512) buf) \<and> ((\<forall>k. hw_fault s k = None) \<longrightarrow> ok) \<and>
    ds_cache s' = (if \<not> ok \<or> (\<exists>r \<in> set (dc_cache (ds_cache s i)). rec_covers a n r) then ds_cache s
      else (ds_cache s)(i := \<lparr> dc_capacity = 0, dc_cache = dc_cache (ds_cache s i) @ [\<lparr> rec_start = a, rec_count = n, rec_data = take (unat n * 512) b \<rparr>] \<rparr>))"
  using assms(1,2)
proof (cases rule: get_covering_cases)
  case (hit k)
  let ?r = "dc_cache (ds_cache s i) ! k"
  have an: "unat a + unat n < 2 ^ 32" "0 < unat n" "unat n \<le> 4096" "i < 32" using assms(2) by (simp_all add: request_ok_def)
  note o = rec_offset [OF hit(4,3) an(1,2)]
  have r: "?r \<in> set (dc_cache (ds_cache s i))" using hit(2) by simp
  have co: "cache_ok (dc_cache (ds_cache s i))" using assms(1) an(4) by (simp add: disk_ok_def)
  have "disk_view s i (a + of_nat j) = rec_sector ?r (a + of_nat j)" if "j < unat n" for j
    using in_range_offset [OF an(1) that] hit(3) view_in_some [OF co r] by (simp add: rec_covers_def disk_view_def)
  note sl = rec_slice [OF hit(4) o(2,3) this]
  have "(unat a - unat (rec_start ?r) + unat n) * 512 \<le> length (rec_data ?r)"
    using o(2,3) hit(4) by (simp add: rec_ok_def)
  then have "(unat a - unat (rec_start ?r)) * 512 + unat n * 512 \<le> length (rec_data ?r)" by (simp only: add_mult_distrib)
  then have "buf_copy buf 0 (rec_data ?r) ((unat a - unat (rec_start ?r)) * 512) (unat n * 512) = Inr (sectors (disk_view s i) a (unat n) @ drop (unat n * 512) buf)"
    using buf_copy_ok [where doff = 0 and dst = buf and n = "unat n * 512"] assms(3) sl by (simp only: add_0 le_refl) simp
  then have "disk_read_sync i a n buf s = Inr (True, sectors (disk_view s i) a (unat n) @ drop (unat n * 512) buf, s)"
    unfolding disk_read_sync_def hit(1) rbind.simps option.case Let_def o(1) unat_times_512 [OF an(3)] by simp
  then show ?thesis using assms(1,3) hit(3) r length_disk_view [OF assms(1) an(4)]
    by (auto simp: length_sectors)
next
  case miss
  have an: "unat a + unat n < 2 ^ 32" "0 < unat n" "unat n \<le> 4096" "i < 32" using assms(2) by (simp_all add: request_ok_def)
  have nc: "\<not> (\<exists>r \<in> set (dc_cache (ds_cache s i)). rec_covers a n r)"
    using miss(2) in_range_offset [OF an(1), of 0] an(2) unfolding rec_covers_def rec_misses_def by blast
  have l: "length (disk_hw s j x) = 512" for j x using assms(1) by (simp add: disk_ok_def)
  obtain ok b s1 where 1: "disk_hardware_transfer_sync i a n buf False s = Inr (ok, b, s1)" "drive_upd i (disk_hw s i) s s1"
    "length b = length buf" "ok \<longrightarrow> b = sectors (disk_hw s i) a (unat n) @ drop (unat n * 512) buf" "ok \<longleftrightarrow> hw_fault s (hw_transfers s) = None"
    using transfer_read_ok [where i = i and a = a, OF assms(3) l] by (elim exE conjE) (rule that)
  have ok1: "disk_ok s1" using drive_upd_ok [OF assms(1) 1(2)] l by simp
  have v1: "disk_view s1 = disk_view s" using drive_upd_view [OF 1(2)] by (simp add: disk_view_def fun_eq_iff)
  have c1: "ds_cache s1 = ds_cache s" using 1(2) by (simp add: drive_upd_def)
  show ?thesis
  proof (cases ok)
    case False
    then have "disk_read_sync i a n buf s = Inr (False, b, s1)" by (simp add: disk_read_sync_def miss(1) 1(1))
    then show ?thesis using ok1 v1 c1 drive_upd_frame [OF 1(2)] 1(3,5) False
      by (intro exI [of _ False] exI [of _ b] exI [of _ s1]) auto
  next
    case True
    have view: "disk_view s i x = disk_hw s i x" if "in_range a n x" for x
      using that miss(2) view_in_none [of _ x] by (auto simp: disk_view_def rec_misses_def)
    then have b: "b = sectors (disk_view s i) a (unat n) @ drop (unat n * 512) buf"
      using 1(4) True in_range_offset [OF an(1)] by (auto simp: sectors_def intro!: arg_cong [where f = concat])
    have "slot 512 b (unat x - unat a) = disk_view s1 i x" if "in_range a n x" for x
    proof -
      have "unat x - unat a < unat n" "a + of_nat (unat x - unat a) = x"
        using that by (auto simp: in_range_def of_nat_diff)
      moreover have "slot 512 b (unat x - unat a) = slot 512 (sectors (disk_view s i) a (unat n)) (unat x - unat a)"
        unfolding b by (rule slot_append_left) (use in_range_slot [OF that] length_sectors [OF length_disk_view [OF assms(1) an(4)]] in simp)
      ultimately show ?thesis using slot_sectors [of "disk_view s i" "unat x - unat a" "unat n" a] length_disk_view [OF assms(1) an(4)]
        by (simp add: v1)
    qed
    then obtain s2 where 2: "disk_add_cache_record_sync i a n b s1 = Inr s2" "disk_ok s2" "disk_frame s1 s2" "disk_view s2 = disk_view s1"
      "ds_cache s2 = (ds_cache s1)(i := \<lparr> dc_capacity = 0, dc_cache = dc_cache (ds_cache s1 i) @ [\<lparr> rec_start = a, rec_count = n, rec_data = take (unat n * 512) b \<rparr>] \<rparr>)"
      using add_record_ok [OF ok1 an(4,1,2,3), of b] miss(2) 1(3) assms(3) c1 by auto
    have "disk_read_sync i a n buf s = Inr (True, b, s2)" using True by (simp add: disk_read_sync_def miss(1) 1(1) 2(1))
    then show ?thesis using 2 v1 c1 nc b 1(3) disk_frame_trans [OF drive_upd_frame [OF 1(2)] 2(3)]
      by (intro exI [of _ True] exI [of _ b] exI [of _ s2]) simp
  qed
qed

text \<open>A hit changes a cached record in place.\<close>

lemma cache_update:
  assumes "cache_ok rs" "k < length rs" "r = rs ! k" "length d = length (rec_data r)"
  shows "cache_ok (rs[k := r\<lparr> rec_data := d \<rparr>])"
    and "view_in hw (rs[k := r\<lparr> rec_data := d \<rparr>]) x = (if rec_has r x then rec_sector (r\<lparr> rec_data := d \<rparr>) x else view_in hw rs x)"
proof -
  let ?r = "r\<lparr> rec_data := d \<rparr>" and ?rs = "rs[k := r\<lparr> rec_data := d \<rparr>]"
  have ap: "apart ?r q \<longleftrightarrow> apart r q" "apart q ?r \<longleftrightarrow> apart q r" for q by (simp_all add: apart_def rec_has_def)
  have "rec_ok r" using assms(1-3) by (simp add: cache_ok_def)
  then have "rec_ok ?r" using assms(4) by (simp add: rec_ok_def)
  moreover have "sorted_wrt apart ?rs"
    using assms(1-3) by (auto simp: cache_ok_def sorted_wrt_iff_nth_less nth_list_update ap [unfolded assms(3)])
  ultimately show c: "cache_ok ?rs" using assms(1,2) by (auto simp: cache_ok_def dest!: set_update_subset_insert [THEN subsetD])
  show "view_in hw ?rs x = (if rec_has r x then rec_sector ?r x else view_in hw rs x)"
  proof (cases "rec_has r x")
    case True
    then have "rec_has ?r x" "?r \<in> set ?rs" using assms(2) by (simp_all add: rec_has_def set_update_memI)
    then show ?thesis using view_in_some [OF c] True by simp
  next
    case False
    have "view_in hw (rs[k := r\<lparr> rec_data := d \<rparr>]) x = view_in hw rs x"
      using assms(2,3) False by (induction rs arbitrary: k) (auto simp: rec_has_def nth_Cons split: nat.splits)
    then show ?thesis using False by simp
  qed
qed

lemma slot_patched:
  assumes "unat (rec_start r) \<le> unat a" "unat a + unat n \<le> unat (rec_start r) + unat (rec_count r)" "rec_ok r"
    "length b = unat n * 512" "rec_has r x" "off = (unat a - unat (rec_start r)) * 512" "unat a + unat n < 2 ^ 32"
    "d = take off (rec_data r) @ b @ drop (off + unat n * 512) (rec_data r)"
  shows "length d = length (rec_data r)"
    and "rec_sector (r\<lparr> rec_data := d \<rparr>) x = (if in_range a n x then slot 512 b (unat x - unat a) else rec_sector r x)"
proof -
  let ?k = "unat a - unat (rec_start r)" and ?j = "unat x - unat (rec_start r)"
  have l: "length (rec_data r) = unat (rec_count r) * 512" using assms(3) by (simp add: rec_ok_def)
  have "(?k + unat n) * 512 \<le> unat (rec_count r) * 512" by (rule mult_le_mono1) (use assms(1,2) in simp)
  then have fit: "off + unat n * 512 \<le> length (rec_data r)" by (simp only: assms(6) l add_mult_distrib)
  then show "length d = length (rec_data r)" using assms(4) by (simp add: assms(8))
  have x: "unat (rec_start r) \<le> unat x" "unat x < unat (rec_start r) + unat (rec_count r)"
    using assms(5) by (simp_all add: rec_has_def)
  have lo: "length (take off (rec_data r)) = off" using fit by simp
  consider "unat x < unat a" | "unat a \<le> unat x" "unat x < unat a + unat n" | "unat a + unat n \<le> unat x" by linarith
  then have "slot 512 d ?j = (if in_range a n x then slot 512 b (unat x - unat a) else slot 512 (rec_data r) ?j)"
  proof cases
    case 1
    then have "Suc ?j * 512 \<le> ?k * 512" by (intro mult_le_mono1) (use x in simp)
    then have "?j * 512 + 512 \<le> off" by (simp add: assms(6))
    then have "slot 512 d ?j = slot 512 (rec_data r) ?j" using lo by (simp add: assms(8) slot_append_left slot_take)
    then show ?thesis using 1 by (simp add: in_range_def)
  next
    case 2
    have e: "?j * 512 = off + (unat x - unat a) * 512" using 2 assms(1) unfolding assms(6) by (simp add: algebra_simps)
    have "Suc (unat x - unat a) * 512 \<le> unat n * 512" by (rule mult_le_mono1) (use 2 in simp)
    then have "(unat x - unat a) * 512 + 512 \<le> length b" by (simp add: assms(4))
    then show ?thesis using 2 lo unfolding slot_def e by (simp add: assms(8) in_range_def)
  next
    case 3
    then have "(?k + unat n) * 512 \<le> ?j * 512" by (intro mult_le_mono1) (use assms(1) in simp)
    then have "off + unat n * 512 \<le> ?j * 512" by (simp only: assms(6) add_mult_distrib)
    then show ?thesis using 3 lo assms(4) by (simp add: slot_def assms(8) in_range_def)
  qed
  then show "rec_sector (r\<lparr> rec_data := d \<rparr>) x = (if in_range a n x then slot 512 b (unat x - unat a) else rec_sector r x)"
    by (simp add: rec_sector_def)
qed

lemma put_sectors_range:
  assumes "unat a + n < 2 ^ 32"
  shows "put_sectors a n d v x = (if unat a \<le> unat x \<and> unat x < unat a + n then slot 512 d (unat x - unat a) else v x)"
  using unat_minus_less_iff [OF assms, of x] by (auto simp: put_sectors_def unat_minus_le)

lemma disk_write_ok:
  assumes "disk_ok s" "request_ok s i a n" "unat n * 512 \<le> length buf"
  shows "\<exists>ok s' m. disk_write_sync i a n buf s = Inr (ok, s') \<and> disk_ok s' \<and> disk_frame s s' \<and> m \<le> unat n \<and> (ok \<longrightarrow> m = unat n) \<and>
    disk_view s' = (disk_view s)(i := put_sectors a m buf (disk_view s i)) \<and> ((\<forall>k. hw_fault s k = None) \<longrightarrow> ok) \<and>
    map (\<lambda>r. (rec_start r, rec_count r)) (dc_cache (ds_cache s' i)) =
      (let rs = dc_cache (ds_cache s i) in map (\<lambda>r. (rec_start r, rec_count r)) rs @
        (if \<not> ok \<or> (\<exists>r \<in> set rs. rec_covers a n r) then [] else [(a, n)])) \<and>
    (\<forall>j. j \<noteq> i \<longrightarrow> ds_cache s' j = ds_cache s j)"
  using assms(1,2)
proof (cases rule: get_covering_cases)
  case (hit k)
  let ?c = "ds_cache s i"
  let ?rs = "dc_cache ?c"
  let ?r = "?rs ! k" and ?o = "(unat a - unat (rec_start (?rs ! k))) * 512"
  have an: "unat a + unat n < 2 ^ 32" "0 < unat n" "unat n \<le> 4096" "i < 32" using assms(2) by (simp_all add: request_ok_def)
  note o = rec_offset [OF hit(4,3) an(1,2)]
  let ?b = "take (unat n * 512) buf"
  have lb: "length ?b = unat n * 512" using assms(3) by simp
  define d where "d = take ?o (rec_data ?r) @ ?b @ drop (?o + unat n * 512) (rec_data ?r)"
  note sp = slot_patched [OF o(2,3) hit(4) lb _ refl an(1) d_def]
  have "rec_has ?r a" using hit(3) in_range_offset [OF an(1), of 0] an(2) unfolding rec_covers_def by simp
  note len = sp(1) [OF this]
  have co: "cache_ok ?rs" using assms(1) an(4) by (simp add: disk_ok_def)
  note cu = cache_update [OF co hit(2) refl len]
  define s' where "s' = set_cache i (?c\<lparr> dc_cache := ?rs[k := ?r\<lparr> rec_data := d \<rparr>] \<rparr>) s"
  have "?o + unat n * 512 \<le> length (rec_data ?r)"
  proof -
    have "(unat a - unat (rec_start ?r) + unat n) * 512 \<le> unat (rec_count ?r) * 512" by (rule mult_le_mono1) (use o(2,3) in simp)
    then show ?thesis using hit(4) by (simp only: rec_ok_def add_mult_distrib)
  qed
  then have "buf_copy (rec_data ?r) ?o buf 0 (unat n * 512) = Inr d"
    using assms(3) by (subst buf_copy_ok) (simp_all only: d_def drop_0 add_0)
  then have w: "disk_write_sync i a n buf s = Inr (True, s')"
    unfolding disk_write_sync_def hit(1) rbind.simps option.case Let_def o(1) unat_times_512 [OF an(3)] by (simp add: s'_def)
  have v: "disk_view s' = (disk_view s)(i := put_sectors a (unat n) buf (disk_view s i))"
  proof (intro ext)
    fix j x
    show "disk_view s' j x = ((disk_view s)(i := put_sectors a (unat n) buf (disk_view s i))) j x"
    proof (cases "j = i")
      case True
      have "disk_view s' i x = (if rec_has ?r x then rec_sector (?r\<lparr> rec_data := d \<rparr>) x else disk_view s i x)"
        using cu(2) by (simp add: disk_view_def s'_def set_cache_def disk_hw_def)
      moreover have "rec_has ?r x \<Longrightarrow> disk_view s i x = rec_sector ?r x"
        using view_in_some [OF co, of ?r x] hit(2) by (simp add: disk_view_def)
      moreover have "in_range a n x \<Longrightarrow> rec_has ?r x" using hit(3) by (simp add: rec_covers_def)
      moreover have "in_range a n x \<Longrightarrow> slot 512 ?b (unat x - unat a) = slot 512 buf (unat x - unat a)"
        by (rule slot_take, rule in_range_slot)
      ultimately show ?thesis using True sp(2) [of x] unfolding put_sectors_range [OF an(1)] fun_upd_def
        by (auto simp: put_sectors_range [OF an(1)] in_range_def)
    qed (simp add: disk_view_def s'_def set_cache_def disk_hw_def)
  qed
  have "disk_ok s'" using assms(1) cu(1) an(4) by (simp add: disk_ok_def s'_def set_cache_def disk_hw_def)
  moreover have "map (\<lambda>r. (rec_start r, rec_count r)) (?rs[k := ?r\<lparr> rec_data := d \<rparr>]) = map (\<lambda>r. (rec_start r, rec_count r)) ?rs"
    using hit(2) by (simp add: map_update list_update_same_conv)
  moreover have "?r \<in> set ?rs" using hit(2) by simp
  moreover have "disk_frame s s'" by (simp add: disk_frame_def s'_def set_cache_def)
  moreover have "ds_cache s' = (ds_cache s)(i := ?c\<lparr> dc_cache := ?rs[k := ?r\<lparr> rec_data := d \<rparr>] \<rparr>)"
    by (simp add: s'_def set_cache_def)
  moreover have "\<exists>r \<in> set ?rs. rec_covers a n r" using hit(2,3) by auto
  ultimately show ?thesis using w v
    by (intro exI [of _ True] exI [of _ s'] exI [of _ "unat n"]) simp
next
  case miss
  let ?rs = "dc_cache (ds_cache s i)"
  have an: "unat a + unat n < 2 ^ 32" "0 < unat n" "unat n \<le> 4096" "i < 32" using assms(2) by (simp_all add: request_ok_def)
  have nc: "\<not> (\<exists>r \<in> set ?rs. rec_covers a n r)"
    using miss(2) in_range_offset [OF an(1), of 0] an(2) unfolding rec_covers_def rec_misses_def by blast
  have l: "length (disk_hw s j x) = 512" for j x using assms(1) by (simp add: disk_ok_def)
  obtain ok s1 m where 1: "disk_hardware_transfer_sync i a n buf True s = Inr (ok, buf, s1)" "m \<le> unat n" "ok \<longrightarrow> m = unat n"
    "drive_upd i (put_sectors a m buf (disk_hw s i)) s s1" "ok \<longleftrightarrow> hw_fault s (hw_transfers s) = None"
    using transfer_write_ok [where i = i and a = a, OF assms(3) l] by (elim exE conjE) (rule that)
  have am: "unat a + m < 2 ^ 32" using 1(2) an(1) by simp
  have lp: "length (put_sectors a m buf v x) = 512" if "\<And>x. length (v x) = 512" for v x
    using that length_slot [of "unat (x - a)" "unat n" 512 buf] 1(2) assms(3) by (auto simp: put_sectors_def)
  have ok1: "disk_ok s1" by (rule drive_upd_ok [OF assms(1) 1(4)]) (rule lp [OF l])
  have "put_sectors a m buf (view_in (disk_hw s i) ?rs) x = view_in (put_sectors a m buf (disk_hw s i)) ?rs x" for x
  proof (cases "\<exists>q \<in> set ?rs. rec_has q x")
    case True
    then obtain q where q: "q \<in> set ?rs" "rec_has q x" by blast
    then have "\<not> in_range a n x" using miss(2) by (auto simp: rec_misses_def)
    moreover have "cache_ok ?rs" using assms(1) an(4) by (simp add: disk_ok_def)
    ultimately show ?thesis using view_in_some [OF _ q] 1(2) by (auto simp: put_sectors_range [OF am] in_range_def)
  qed (auto simp: view_in_none put_sectors_def)
  then have v1: "disk_view s1 = (disk_view s)(i := put_sectors a m buf (disk_view s i))"
    unfolding drive_upd_view [OF 1(4)] by (simp add: disk_view_def fun_eq_iff)
  have c1: "ds_cache s1 = ds_cache s" using 1(4) by (simp add: drive_upd_def)
  show ?thesis
  proof (cases ok)
    case False
    then have "disk_write_sync i a n buf s = Inr (False, s1)" by (simp add: disk_write_sync_def miss(1) 1(1))
    then show ?thesis using ok1 v1 c1 drive_upd_frame [OF 1(4)] 1(2,5) False
      by (intro exI [of _ False] exI [of _ s1] exI [of _ m]) auto
  next
    case True
    then have m: "m = unat n" using 1(3) by simp
    have "slot 512 buf (unat x - unat a) = disk_view s1 i x" if "in_range a n x" for x
      using that by (simp add: v1 m put_sectors_range [OF an(1)] in_range_def)
    then obtain s2 where 2: "disk_add_cache_record_sync i a n buf s1 = Inr s2" "disk_ok s2" "disk_frame s1 s2" "disk_view s2 = disk_view s1"
      "ds_cache s2 = (ds_cache s1)(i := \<lparr> dc_capacity = 0, dc_cache = dc_cache (ds_cache s1 i) @ [\<lparr> rec_start = a, rec_count = n, rec_data = take (unat n * 512) buf \<rparr>] \<rparr>)"
      using add_record_ok [OF ok1 an(4,1,2,3), of buf] miss(2) assms(3) c1 by auto
    have "disk_write_sync i a n buf s = Inr (True, s2)" using True by (simp add: disk_write_sync_def miss(1) 1(1) 2(1))
    then show ?thesis using 2 v1 c1 nc m disk_frame_trans [OF drive_upd_frame [OF 1(4)] 2(3)]
      by (intro exI [of _ True] exI [of _ s2] exI [of _ m]) auto
  qed
qed

section \<open>Properties\<close>

text \<open>A disk with one cached record that differs from the drive, and a drive that fails on transfer 1.\<close>

definition ex_disk :: disk_state where
  "ex_disk = \<lparr> ds_cache = (\<lambda>i. \<lparr> dc_capacity = 0, dc_cache = (if i = 3 then [\<lparr> rec_start = 8, rec_count = 2, rec_data = replicate 1024 5 \<rparr>] else []) \<rparr>),
     ds_use_ahci = True, ds_boot_id = 3, ds_shutdown = False, hw_sectors = (\<lambda>_ _ _. replicate 512 0),
     hw_ports = (\<lambda>_. [3]), hw_fault = (\<lambda>k. if k = 1 then Some 1 else None), hw_transfers = 0 \<rparr>"

lemma ex_disk_ok: "disk_ok ex_disk" "request_ok ex_disk 3 9 1" "request_ok ex_disk 3 20 2"
proof -
  show "disk_ok ex_disk" by (simp add: disk_ok_def cache_ok_def rec_ok_def disk_hw_def ex_disk_def)
  show "request_ok ex_disk 3 9 1"
    by (auto simp: request_ok_def ex_disk_def rec_covers_def rec_has_def in_range_def)
  show "request_ok ex_disk 3 20 2"
    by (auto simp: request_ok_def ex_disk_def rec_misses_def rec_has_def in_range_def)
qed





text \<open>Flushing the cache of a disk leaves the content seen through the cache as it is, whether or not a
  transfer fails, and after a flush that reports success the drive itself holds this content.\<close>

lemma disk_flush_writes_back:
  assumes "disk_ok s" "i < 32"
  shows "\<exists>ok s'. disk_flush_cache_sync i s = Inr (ok, s') \<and> disk_ok s' \<and> ds_cache s' = ds_cache s \<and> disk_view s' = disk_view s \<and>
    (ok \<longrightarrow> disk_hw s' i = disk_view s i) \<and> ((\<forall>k. hw_fault s k = None) \<longrightarrow> ok)"
  using disk_flush_ok [OF assms] by (elim exE conjE) (intro exI conjI, assumption+)

lemma disk_flush_writes_back_witness:
  "\<exists>ok s'. disk_flush_cache_sync 3 ex_disk = Inr (ok, s') \<and> disk_ok s' \<and> disk_view s' = disk_view ex_disk"
proof -
  have "(3 :: u8) < 32" by simp
  from disk_flush_writes_back [OF ex_disk_ok(1) this] show ?thesis by (elim exE conjE) (intro exI conjI, assumption+)
qed

end
