(* ===== verification/Fat_Table.thy ===== *)
theory Fat_Table
  imports Fat32 Disk_Correct
begin

text \<open>
  Correctness of the sector layer and the allocation table of \<^verbatim>\<open>fat32.c\<close>.  A file system with
  clusters \<open>2, \<dots>, n - 1\<close> is seen as its allocation table \<open>fat_entry\<close> and the contents of its clusters
  \<open>cluster_data\<close>, both read off the sectors the disk layer holds.
\<close>

unbundle bit_operations_syntax

section \<open>Geometry\<close>

definition spc :: "fat32_info_t \<Rightarrow> nat" where
  "spc info = unat (fi_spc info)"

definition fat_geom :: "fat32_info_t \<Rightarrow> nat \<Rightarrow> bool" where
  "fat_geom info n \<longleftrightarrow> fi_disk info < 32 \<and> 0 < spc info \<and> 2 \<le> n \<and> n \<le> 128 * unat (fi_fat_size info) \<and> n \<le> 0x0FFFFFF7 \<and>
     unat (fi_partition info) + unat (fi_fsinfo info) < unat (fi_fat info) \<and>
     unat (fi_fat info) + (if fi_fat_count info = 2 then 2 else 1) * unat (fi_fat_size info) \<le> unat (fi_data info) \<and>
     unat (fi_data info) + (n - 2) * spc info < 2 ^ 32"

definition valid_cluster :: "nat \<Rightarrow> u32 \<Rightarrow> bool" where
  "valid_cluster n c \<longleftrightarrow> 2 \<le> unat c \<and> unat c < n"

definition in_data :: "fat32_info_t \<Rightarrow> nat \<Rightarrow> u32 \<Rightarrow> bool" where
  "in_data info n x \<longleftrightarrow> unat (fi_data info) \<le> unat x \<and> unat x < unat (fi_data info) + (n - 2) * spc info"

text \<open>Cached records are single sectors outside the data area, or whole clusters.\<close>

definition aligned_req :: "fat32_info_t \<Rightarrow> nat \<Rightarrow> u32 \<times> u32 \<Rightarrow> bool" where
  "aligned_req info n p \<longleftrightarrow> snd p = 1 \<and> \<not> in_data info n (fst p) \<and> unat (fst p) < unat (fi_data info) \<or>
     (\<exists>c. valid_cluster n c \<and> p = (cluster_start info c, ucast (fi_spc info)))"

definition cached :: "fat32_info_t \<Rightarrow> fat_state \<Rightarrow> (u32 \<times> u32) list" where
  "cached info s = map (\<lambda>r. (rec_start r, rec_count r)) (dc_cache (ds_cache (fs_disk s) (fi_disk info)))"

definition fview :: "fat32_info_t \<Rightarrow> fat_state \<Rightarrow> u32 \<Rightarrow> bytes" where
  "fview info s = disk_view (fs_disk s) (fi_disk info)"

definition fat_ok :: "fat32_info_t \<Rightarrow> nat \<Rightarrow> fat_state \<Rightarrow> bool" where
  "fat_ok info n s \<longleftrightarrow> disk_ok (fs_disk s) \<and> (\<forall>k. hw_fault (fs_disk s) k = None) \<and>
     (\<forall>p \<in> set (cached info s). aligned_req info n p)"

text \<open>What an operation may change besides sectors: the cache grows.\<close>

definition fstep :: "fat32_info_t \<Rightarrow> nat \<Rightarrow> fat_state \<Rightarrow> fat_state \<Rightarrow> bool" where
  "fstep info n s s' \<longleftrightarrow> fat_ok info n s' \<and> fs_io s' = fs_io s \<and> fs_uninit s' = fs_uninit s \<and> fs_seed s' = fs_seed s \<and>
     set (cached info s) \<subseteq> set (cached info s')"

lemma fstep_refl [simp]: "fat_ok info n s \<Longrightarrow> fstep info n s s"
  by (simp add: fstep_def)

lemma fstep_trans [trans]: "fstep info n s s1 \<Longrightarrow> fstep info n s1 s2 \<Longrightarrow> fstep info n s s2"
  by (auto simp: fstep_def)

lemma fstep_ok: "fstep info n s s' \<Longrightarrow> fat_ok info n s'"
  by (simp add: fstep_def)

lemma fstep_uninit: "fstep info n s s' \<Longrightarrow> uninit k s' = uninit k s"
  by (simp add: fstep_def uninit_def)

lemma length_uninit [simp]: "length (uninit n s) = n"
  by (simp add: uninit_def)

lemma unat_spc [simp]: "unat (fi_spc info) = spc info"
  by (simp add: spc_def)

lemma spc_less: "spc info < 256"
proof -
  have "unat (fi_spc info) < 2 ^ LENGTH(8)" by (rule unat_less_exp)
  then show ?thesis by simp
qed

lemma unat_cluster_start:
  assumes "fat_geom info n" "valid_cluster n c"
  shows "unat (cluster_start info c) = unat (fi_data info) + (unat c - 2) * spc info"
    and "unat (fi_data info) + (unat c - 2) * spc info + spc info \<le> unat (fi_data info) + (n - 2) * spc info"
proof -
  have c: "2 \<le> unat c" "unat c < n" using assms(2) by (simp_all add: valid_cluster_def)
  have "Suc (unat c - 2) * spc info \<le> (n - 2) * spc info" by (rule mult_le_mono1) (use c in simp)
  then show le: "unat (fi_data info) + (unat c - 2) * spc info + spc info \<le> unat (fi_data info) + (n - 2) * spc info" by simp
  have d: "unat (fi_data info) + (n - 2) * spc info < 2 ^ 32" using assms(1) by (simp add: fat_geom_def)
  have m: "unat (c - 2) = unat c - 2" using c(1) by (simp add: unat_minus_le)
  have "(unat c - 2) * spc info < 2 ^ 32" using le d by linarith
  then have p: "unat ((c - 2) * ucast (fi_spc info) :: u32) = (unat c - 2) * spc info"
    by (simp add: unat_word_ariths m)
  have "unat (fi_data info) + unat ((c - 2) * ucast (fi_spc info) :: u32) < 2 ^ 32" using le d unfolding p by linarith
  then show "unat (cluster_start info c) = unat (fi_data info) + (unat c - 2) * spc info"
    unfolding cluster_start_def by (simp only: unat_plus_less p)
qed

lemma cluster_ranges:
  assumes "fat_geom info n" "valid_cluster n c" "valid_cluster n c'" "c \<noteq> c'"
    "in_range (cluster_start info c) (ucast (fi_spc info)) x"
  shows "\<not> in_range (cluster_start info c') (ucast (fi_spc info)) x"
proof -
  have ne: "unat c \<noteq> unat c'" using assms(4) by (simp add: word_unat_eq_iff)
  have v: "2 \<le> unat c" "2 \<le> unat c'" using assms(2,3) by (simp_all add: valid_cluster_def)
  from ne v consider "Suc (unat c - 2) \<le> unat c' - 2" | "Suc (unat c' - 2) \<le> unat c - 2" by linarith
  then show ?thesis
  proof cases
    case 1
    from mult_le_mono1 [OF this, of "spc info"] show ?thesis using assms(5)
      by (simp add: in_range_def unat_cluster_start [OF assms(1)] assms(2,3))
  next
    case 2
    from mult_le_mono1 [OF this, of "spc info"] show ?thesis using assms(5)
      by (simp add: in_range_def unat_cluster_start [OF assms(1)] assms(2,3))
  qed
qed

lemma in_cluster_in_data:
  assumes "fat_geom info n" "valid_cluster n c" "in_range (cluster_start info c) (ucast (fi_spc info)) x"
  shows "in_data info n x"
  using assms(3) unat_cluster_start [OF assms(1,2)] by (simp add: in_range_def in_data_def)

text \<open>Aligned requests cover or miss each other.\<close>

lemma in_range_1: "unat a + 1 < 2 ^ 32 \<Longrightarrow> in_range a 1 x \<longleftrightarrow> x = a"
  by (auto simp: in_range_def word_unat_eq_iff)

lemma aligned_disjoint:
  assumes "fat_geom info n" "aligned_req info n (a, k)" "aligned_req info n (b, l)" "(a, k) \<noteq> (b, l)"
    "in_range a k x"
  shows "\<not> in_range b l x"
proof -
  have small: "unat (fi_data info) < 2 ^ 32 - 1 \<or> unat y < unat (fi_data info) \<longrightarrow> unat y + 1 < 2 ^ 32" if "unat y < unat (fi_data info)" for y :: u32
    using that unat_less_2p32 [of "fi_data info"] by auto
  show ?thesis
    using assms(2)
    unfolding aligned_req_def
  proof (elim disjE)
    assume a: "snd (a, k) = 1 \<and> \<not> in_data info n (fst (a, k)) \<and> unat (fst (a, k)) < unat (fi_data info)"
    then have x: "x = a" "\<not> in_data info n a" using assms(5) in_range_1 [of a x] small by auto
    show ?thesis using assms(3) unfolding aligned_req_def
    proof (elim disjE)
      assume "snd (b, l) = 1 \<and> \<not> in_data info n (fst (b, l)) \<and> unat (fst (b, l)) < unat (fi_data info)"
      then show ?thesis using assms(4) a x in_range_1 [of b x] small by auto
    next
      assume "\<exists>c. valid_cluster n c \<and> (b, l) = (cluster_start info c, ucast (fi_spc info))"
      then show ?thesis using in_cluster_in_data [OF assms(1)] x by auto
    qed
  next
    assume "\<exists>c. valid_cluster n c \<and> (a, k) = (cluster_start info c, ucast (fi_spc info))"
    then obtain c where c: "valid_cluster n c" "a = cluster_start info c" "k = ucast (fi_spc info)" by blast
    then have x: "in_data info n x" using in_cluster_in_data [OF assms(1) c(1)] assms(5) by simp
    show ?thesis using assms(3) unfolding aligned_req_def
    proof (elim disjE)
      assume "snd (b, l) = 1 \<and> \<not> in_data info n (fst (b, l)) \<and> unat (fst (b, l)) < unat (fi_data info)"
      then show ?thesis using x in_range_1 [of b x] small by auto
    next
      assume "\<exists>c. valid_cluster n c \<and> (b, l) = (cluster_start info c, ucast (fi_spc info))"
      then show ?thesis using cluster_ranges [OF assms(1) c(1)] assms(4,5) c by auto
    qed
  qed
qed

lemma aligned_fits:
  assumes "fat_geom info n" "aligned_req info n (a, k)"
  shows "unat a + unat k < 2 ^ 32" "0 < unat k" "unat k \<le> 4096"
proof -
  have g: "0 < spc info" "unat (fi_data info) + (n - 2) * spc info < 2 ^ 32" using assms(1) by (simp_all add: fat_geom_def)
  have "unat a + unat k < 2 ^ 32 \<and> 0 < unat k \<and> unat k \<le> 4096"
    using assms(2) unfolding aligned_req_def
  proof (elim disjE)
    assume "\<exists>c. valid_cluster n c \<and> (a, k) = (cluster_start info c, ucast (fi_spc info))"
    then obtain c where c: "valid_cluster n c" "a = cluster_start info c" "k = ucast (fi_spc info)" by blast
    then show ?thesis using unat_cluster_start [OF assms(1) c(1)] g spc_less [of info] by auto
  qed (use g in auto)
  then show "unat a + unat k < 2 ^ 32" "0 < unat k" "unat k \<le> 4096" by auto
qed

lemma aligned_request_ok:
  assumes "fat_geom info n" "fat_ok info n s" "aligned_req info n (a, k)"
  shows "request_ok (fs_disk s) (fi_disk info) a k"
proof -
  have "rec_covers a k r \<or> rec_misses a k r" if "r \<in> set (dc_cache (ds_cache (fs_disk s) (fi_disk info)))" for r
  proof -
    have al: "aligned_req info n (rec_start r, rec_count r)" using assms(2) that by (auto simp: fat_ok_def cached_def)
    have h: "rec_has r x \<longleftrightarrow> in_range (rec_start r) (rec_count r) x" for x by (simp add: rec_has_def in_range_def)
    show ?thesis
    proof (cases "(a, k) = (rec_start r, rec_count r)")
      case False
      then show ?thesis using aligned_disjoint [OF assms(1,3) al False] by (auto simp: rec_misses_def h)
    qed (auto simp: rec_covers_def h)
  qed
  then show ?thesis using aligned_fits [OF assms(1,3)] assms(1) by (auto simp: request_ok_def fat_geom_def)
qed

text \<open>The requests the file system makes: aligned ones, and single sectors of a cached cluster.\<close>

definition allowed_req :: "fat32_info_t \<Rightarrow> nat \<Rightarrow> fat_state \<Rightarrow> u32 \<times> u32 \<Rightarrow> bool" where
  "allowed_req info n s p \<longleftrightarrow> aligned_req info n p \<or>
     snd p = 1 \<and> (\<exists>c. valid_cluster n c \<and> (cluster_start info c, ucast (fi_spc info)) \<in> set (cached info s) \<and>
       in_range (cluster_start info c) (ucast (fi_spc info)) (fst p))"

lemma allowed_cases:
  assumes "fat_geom info n" "fat_ok info n s" "allowed_req info n s (a, k)"
  shows "request_ok (fs_disk s) (fi_disk info) a k"
    and "aligned_req info n (a, k) \<or> (\<exists>r \<in> set (dc_cache (ds_cache (fs_disk s) (fi_disk info))). rec_covers a k r)"
proof -
  have "request_ok (fs_disk s) (fi_disk info) a k \<and>
    (aligned_req info n (a, k) \<or> (\<exists>r \<in> set (dc_cache (ds_cache (fs_disk s) (fi_disk info))). rec_covers a k r))"
  proof (cases "aligned_req info n (a, k)")
    case False
    then obtain c where c: "k = 1" "valid_cluster n c" "(cluster_start info c, ucast (fi_spc info)) \<in> set (cached info s)"
      "in_range (cluster_start info c) (ucast (fi_spc info)) a"
      using assms(3) by (auto simp: allowed_req_def)
    have al: "aligned_req info n (cluster_start info c, ucast (fi_spc info))" using c(2) by (auto simp: aligned_req_def)
    have d: "unat (fi_data info) + (n - 2) * spc info < 2 ^ 32" using assms(1) by (simp add: fat_geom_def)
    have fits: "unat a + 1 < 2 ^ 32"
      using in_cluster_in_data [OF assms(1) c(2,4)] aligned_fits [OF assms(1) al] c(4) d
        unat_cluster_start [OF assms(1) c(2)] by (auto simp: in_range_def in_data_def)
    have h: "rec_has r x \<longleftrightarrow> in_range (rec_start r) (rec_count r) x" for r x by (simp add: rec_has_def in_range_def)
    have each: "rec_covers a k r \<and> (rec_start r, rec_count r) = (cluster_start info c, ucast (fi_spc info)) \<or>
        rec_misses a k r \<and> (rec_start r, rec_count r) \<noteq> (cluster_start info c, ucast (fi_spc info))"
      if "r \<in> set (dc_cache (ds_cache (fs_disk s) (fi_disk info)))" for r
    proof -
      have ar: "aligned_req info n (rec_start r, rec_count r)" using assms(2) that by (auto simp: fat_ok_def cached_def)
      show ?thesis
      proof (cases "(rec_start r, rec_count r) = (cluster_start info c, ucast (fi_spc info))")
        case True
        then show ?thesis using c(1,4) in_range_1 [OF fits] by (auto simp: rec_covers_def h)
      next
        case False
        then have "\<not> in_range (rec_start r) (rec_count r) a"
          using aligned_disjoint [OF assms(1) al ar _ c(4)] by metis
        then show ?thesis using False c(1) in_range_1 [OF fits] by (auto simp: rec_misses_def h)
      qed
    qed
    have "\<exists>r \<in> set (dc_cache (ds_cache (fs_disk s) (fi_disk info))). rec_covers a k r"
    proof -
      obtain r where r: "r \<in> set (dc_cache (ds_cache (fs_disk s) (fi_disk info)))"
        "(rec_start r, rec_count r) = (cluster_start info c, ucast (fi_spc info))" using c(3) by (auto simp: cached_def)
      then show ?thesis using each [OF r(1)] by blast
    qed
    then show ?thesis using each fits assms(1) c(1) by (auto simp: request_ok_def fat_geom_def)
  qed (simp add: aligned_request_ok [OF assms(1,2)])
  then show "request_ok (fs_disk s) (fi_disk info) a k"
    and "aligned_req info n (a, k) \<or> (\<exists>r \<in> set (dc_cache (ds_cache (fs_disk s) (fi_disk info))). rec_covers a k r)" by blast+
qed

lemma covered_cached:
  assumes "fat_geom info n" "fat_ok info n s" "aligned_req info n (a, k)"
    "r \<in> set (dc_cache (ds_cache (fs_disk s) (fi_disk info)))" "rec_covers a k r"
  shows "(a, k) \<in> set (cached info s)"
proof -
  have al: "aligned_req info n (rec_start r, rec_count r)" using assms(2,4) by (auto simp: fat_ok_def cached_def)
  have "in_range a k a" using aligned_fits [OF assms(1,3)] by (simp add: in_range_def)
  moreover from this have "in_range (rec_start r) (rec_count r) a" using assms(5) by (simp add: rec_covers_def rec_has_def in_range_def)
  ultimately have "(a, k) = (rec_start r, rec_count r)" using aligned_disjoint [OF assms(1,3) al] by blast
  then show ?thesis using assms(4) by (auto simp: cached_def image_iff)
qed

lemma fat_read_long:
  assumes "fat_geom info n" "fat_ok info n s" "allowed_req info n s (a, k)" "unat k * 512 \<le> length buf"
  shows "\<exists>s'. fat_disk_read info a k buf s = Inr (True, sectors (fview info s) a (unat k) @ drop (unat k * 512) buf, s') \<and> fstep info n s s' \<and>
    fview info s' = fview info s \<and> (aligned_req info n (a, k) \<longrightarrow> (a, k) \<in> set (cached info s'))"
proof -
  have ok: "disk_ok (fs_disk s)" "\<forall>j. hw_fault (fs_disk s) j = None" "\<forall>p \<in> set (cached info s). aligned_req info n p"
    using assms(2) by (simp_all add: fat_ok_def)
  note al = allowed_cases [OF assms(1-3)]
  let ?rs = "dc_cache (ds_cache (fs_disk s) (fi_disk info))"
  obtain b d' where d': "disk_read_sync (fi_disk info) a k buf (fs_disk s) = Inr (True, b, d')" "disk_ok d'"
    "disk_frame (fs_disk s) d'" "disk_view d' = disk_view (fs_disk s)"
    "b = sectors (disk_view (fs_disk s) (fi_disk info)) a (unat k) @ drop (unat k * 512) buf"
    "ds_cache d' = (if \<exists>r \<in> set ?rs. rec_covers a k r then ds_cache (fs_disk s)
      else (ds_cache (fs_disk s))(fi_disk info := \<lparr> dc_capacity = 0, dc_cache = ?rs @ [\<lparr> rec_start = a, rec_count = k, rec_data = take (unat k * 512) b \<rparr>] \<rparr>))"
    using disk_read_ok [OF ok(1) al(1) assms(4)] ok(2) by (elim exE conjE) (auto split: if_splits)
  let ?s' = "s\<lparr> fs_disk := d' \<rparr>"
  have c: "cached info ?s' = (if \<exists>r \<in> set ?rs. rec_covers a k r then cached info s else cached info s @ [(a, k)])"
    using d'(6) by (simp add: cached_def)
  have "\<forall>p \<in> set (cached info ?s'). aligned_req info n p" using ok(3) al(2) unfolding c by auto
  then have "fat_ok info n ?s'" using d'(2,3) ok(2) by (simp add: fat_ok_def disk_frame_def)
  then have "fstep info n s ?s'" unfolding fstep_def c by (simp add: subset_insertI)
  moreover have "aligned_req info n (a, k) \<longrightarrow> (a, k) \<in> set (cached info ?s')"
    using covered_cached [OF assms(1,2)] unfolding c by auto
  ultimately show ?thesis using d'(1,4,5) by (intro exI [of _ ?s']) (simp add: fat_disk_read_def fview_def)
qed

lemma fat_read_ok:
  assumes "fat_geom info n" "fat_ok info n s" "allowed_req info n s (a, k)" "length buf = unat k * 512"
  shows "\<exists>s'. fat_disk_read info a k buf s = Inr (True, sectors (fview info s) a (unat k), s') \<and> fstep info n s s' \<and>
    fview info s' = fview info s \<and> (aligned_req info n (a, k) \<longrightarrow> (a, k) \<in> set (cached info s'))"
  using fat_read_long [OF assms(1-3), of buf] assms(4) by simp

lemma fat_write_ok:
  assumes "fat_geom info n" "fat_ok info n s" "allowed_req info n s (a, k)" "unat k * 512 \<le> length buf"
  shows "\<exists>s'. fat_disk_write info a k buf s = Inr (True, s') \<and> fstep info n s s' \<and>
    fview info s' = put_sectors a (unat k) buf (fview info s) \<and> (aligned_req info n (a, k) \<longrightarrow> (a, k) \<in> set (cached info s'))"
proof -
  have ok: "disk_ok (fs_disk s)" "\<forall>j. hw_fault (fs_disk s) j = None" "\<forall>p \<in> set (cached info s). aligned_req info n p"
    using assms(2) by (simp_all add: fat_ok_def)
  note al = allowed_cases [OF assms(1-3)]
  let ?rs = "dc_cache (ds_cache (fs_disk s) (fi_disk info))"
  obtain d' where d': "disk_write_sync (fi_disk info) a k buf (fs_disk s) = Inr (True, d')" "disk_ok d'"
    "disk_frame (fs_disk s) d'" "disk_view d' = (disk_view (fs_disk s))(fi_disk info := put_sectors a (unat k) buf (disk_view (fs_disk s) (fi_disk info)))"
    "map (\<lambda>r. (rec_start r, rec_count r)) (dc_cache (ds_cache d' (fi_disk info))) =
      map (\<lambda>r. (rec_start r, rec_count r)) ?rs @ (if \<exists>r \<in> set ?rs. rec_covers a k r then [] else [(a, k)])"
    using disk_write_ok [OF ok(1) al(1) assms(4)] ok(2) by (elim exE conjE) (auto simp: Let_def)
  let ?s' = "s\<lparr> fs_disk := d' \<rparr>"
  have c: "cached info ?s' = cached info s @ (if \<exists>r \<in> set ?rs. rec_covers a k r then [] else [(a, k)])"
    using d'(5) by (simp add: cached_def)
  have "\<forall>p \<in> set (cached info ?s'). aligned_req info n p" using ok(3) al(2) unfolding c by auto
  then have "fat_ok info n ?s'" using d'(2,3) ok(2) by (simp add: fat_ok_def disk_frame_def)
  then have "fstep info n s ?s'" unfolding fstep_def c by (simp add: subset_insertI)
  moreover have "aligned_req info n (a, k) \<longrightarrow> (a, k) \<in> set (cached info ?s')"
    using covered_cached [OF assms(1,2)] unfolding c by auto
  ultimately show ?thesis using d'(1,4) by (intro exI [of _ ?s']) (simp add: fat_disk_write_def fview_def)
qed

lemma fat_flush_ok:
  assumes "fat_geom info n" "fat_ok info n s"
  shows "\<exists>s'. fat_disk_flush info s = Inr (True, s') \<and> fstep info n s s' \<and> fview info s' = fview info s"
proof -
  have ok: "disk_ok (fs_disk s)" "\<forall>j. hw_fault (fs_disk s) j = None" "\<forall>p \<in> set (cached info s). aligned_req info n p"
    using assms(2) by (simp_all add: fat_ok_def)
  have "fi_disk info < 32" using assms(1) by (simp add: fat_geom_def)
  from disk_flush_ok [OF ok(1) this] ok(2) obtain d' where d': "disk_flush_cache_sync (fi_disk info) (fs_disk s) = Inr (True, d')" "disk_ok d'"
    "disk_frame (fs_disk s) d'" "ds_cache d' = ds_cache (fs_disk s)" "disk_view d' = disk_view (fs_disk s)"
    by (elim exE conjE) auto
  let ?s' = "s\<lparr> fs_disk := d' \<rparr>"
  have c: "cached info ?s' = cached info s" using d'(4) by (simp add: cached_def)
  then have "fat_ok info n ?s'" using d'(2,3) ok(2,3) by (simp add: fat_ok_def disk_frame_def)
  then have "fstep info n s ?s'" unfolding fstep_def c by (simp add: subset_insertI)
  then show ?thesis using d'(1,5) by (intro exI [of _ ?s']) (simp add: fat_disk_flush_def fview_def)
qed

section \<open>Words in sectors\<close>

lemma get32_drop: "k \<le> length b \<Longrightarrow> get32 (drop k b) i = get32 b (k + i)"
  by (simp add: get32_def add.assoc)

lemma get32_patch:
  assumes "4 * p + 4 \<le> length b" "4 * q + 4 \<le> length b"
  shows "get32 (take (4 * p) b @ put32 w @ drop (4 * p + 4) b) (4 * q) = (if q = p then w else get32 b (4 * q))"
proof -
  have l: "length (take (4 * p) b) = 4 * p" using assms(1) by simp
  consider "q < p" | "q = p" | "p < q" by linarith
  then show ?thesis
  proof cases
    case 1
    then have "4 * q + 4 \<le> 4 * p" by simp
    then have "get32 (take (4 * p) b @ put32 w @ drop (4 * p + 4) b) (4 * q) = get32 (take (4 * p) b) (4 * q)"
      by (intro get_append(3)) (use assms(2) in simp)
    also have "\<dots> = get32 (take (4 * p) b @ drop (4 * p) b) (4 * q)"
      by (rule get_append(3) [symmetric]) (use \<open>4 * q + 4 \<le> 4 * p\<close> assms(2) in simp)
    finally show ?thesis using 1 by simp
  next
    case 2
    have "get32 (take (4 * p) b @ put32 w @ drop (4 * p + 4) b) (4 * q) = get32 (put32 w @ drop (4 * p + 4) b) 0"
      using get_append(4) [of "take (4 * p) b" "4 * q"] 2 l by simp
    then show ?thesis using 2 get_append(3) [of 0 "put32 w"] by simp
  next
    case 3
    then have le: "4 * p + 4 \<le> 4 * q" by simp
    have "get32 (take (4 * p) b @ put32 w @ drop (4 * p + 4) b) (4 * q) = get32 (put32 w @ drop (4 * p + 4) b) (4 * q - 4 * p)"
      using get_append(4) [of "take (4 * p) b" "4 * q"] le l by simp
    also have "\<dots> = get32 (drop (4 * p + 4) b) (4 * q - 4 * p - 4)"
      using get_append(4) [of "put32 w" "4 * q - 4 * p"] le by simp
    also have "\<dots> = get32 b (4 * q)" using get32_drop [of "4 * p + 4" b] le assms(1) by simp
    finally show ?thesis using 3 by simp
  qed
qed

lemma sectors_1 [simp]: "sectors v a 1 = v a" "sectors v a (Suc 0) = v a"
  by (simp_all add: sectors_def)

lemma put_sectors_1: "length d = 512 \<Longrightarrow> put_sectors a (Suc 0) d v = v(a := d)"
  by (auto simp: put_sectors_def slot_def fun_eq_iff unat_eq_0)

lemma sectors_cong:
  assumes "\<And>x. in_range a k x \<Longrightarrow> v x = w x" "unat a + unat k < 2 ^ 32"
  shows "sectors v a (unat k) = sectors w a (unat k)"
  using assms(1) in_range_offset [OF assms(2)] by (auto simp: sectors_def intro!: arg_cong [where f = concat])

section \<open>The allocation table\<close>

definition fat_entry :: "fat32_info_t \<Rightarrow> (u32 \<Rightarrow> bytes) \<Rightarrow> u32 \<Rightarrow> u32" where
  "fat_entry info v c = get32 (v (fi_fat info + c div 128)) (4 * unat (c mod 128)) AND 0x0FFFFFFF"

definition cluster_data :: "fat32_info_t \<Rightarrow> (u32 \<Rightarrow> bytes) \<Rightarrow> u32 \<Rightarrow> bytes" where
  "cluster_data info v c = sectors v (cluster_start info c) (spc info)"

text \<open>The sectors after a table entry is written, in one or both copies of the table.\<close>

definition fat_put :: "fat32_info_t \<Rightarrow> u32 \<Rightarrow> u32 \<Rightarrow> (u32 \<Rightarrow> bytes) \<Rightarrow> u32 \<Rightarrow> bytes" where
  "fat_put info c val v =
     (let a = fi_fat info + c div 128; b = v a; p = 4 * unat (c mod 128);
          b = take p b @ put32 val @ drop (p + 4) b;
          v = v(a := b)
      in if fi_fat_count info = 2 then v(fi_fat info + fi_fat_size info + c div 128 := b) else v)"

lemma unat_div_128: "unat (c div 128 :: u32) = unat c div 128" "unat (c mod 128 :: u32) = unat c mod 128"
  by (simp_all add: unat_div unat_mod)

lemma fat_sector:
  assumes "fat_geom info n" "unat c < n"
  shows "unat c div 128 < unat (fi_fat_size info)"
    and "unat (fi_fat info + c div 128) = unat (fi_fat info) + unat c div 128"
    and "aligned_req info n (fi_fat info + c div 128, 1)"
    and "fi_fat_count info = 2 \<Longrightarrow> unat (fi_fat info + fi_fat_size info + c div 128) = unat (fi_fat info) + unat (fi_fat_size info) + unat c div 128"
    and "fi_fat_count info = 2 \<Longrightarrow> aligned_req info n (fi_fat info + fi_fat_size info + c div 128, 1)"
proof -
  have g: "n \<le> 128 * unat (fi_fat_size info)" "unat (fi_fat info) + unat (fi_fat_size info) \<le> unat (fi_data info)"
    "fi_fat_count info = 2 \<Longrightarrow> unat (fi_fat info) + 2 * unat (fi_fat_size info) \<le> unat (fi_data info)"
    using assms(1) by (auto simp: fat_geom_def split: if_splits)
  have d: "unat (fi_data info) < 2 ^ 32" by (rule unat_less_2p32)
  show c: "unat c div 128 < unat (fi_fat_size info)" using assms(2) g(1) by (simp add: less_mult_imp_div_less mult.commute)
  show e: "unat (fi_fat info + c div 128) = unat (fi_fat info) + unat c div 128"
    by (subst unat_plus_less) (use c g d in \<open>simp_all add: unat_div_128\<close>)
  show "aligned_req info n (fi_fat info + c div 128, 1)" using c g e by (simp add: aligned_req_def in_data_def)
  assume two: "fi_fat_count info = 2"
  have e1: "unat (fi_fat info + fi_fat_size info) = unat (fi_fat info) + unat (fi_fat_size info)"
    by (rule unat_plus_less) (use g(3) two d in simp)
  show e2: "unat (fi_fat info + fi_fat_size info + c div 128) = unat (fi_fat info) + unat (fi_fat_size info) + unat c div 128"
    by (subst unat_plus_less) (use c g(3) two d in \<open>simp_all add: unat_div_128 e1\<close>)
  show "aligned_req info n (fi_fat info + fi_fat_size info + c div 128, 1)"
    using c g(3) two e2 by (simp add: aligned_req_def in_data_def)
qed

lemma length_fview: "fat_geom info n \<Longrightarrow> fat_ok info n s \<Longrightarrow> length (fview info s x) = 512"
  by (simp add: fview_def fat_ok_def fat_geom_def length_disk_view)

lemma fat_at_ok:
  assumes "fat_geom info n" "fat_ok info n s" "unat c < n"
  shows "\<exists>s'. fat32_fat_at_sync info c s = Inr (fat_entry info (fview info s) c, s') \<and> fstep info n s s' \<and> fview info s' = fview info s"
proof -
  have "allowed_req info n s (fi_fat info + c div 128, 1)" using fat_sector(3) [OF assms(1,3)] by (simp add: allowed_req_def)
  from fat_read_ok [OF assms(1,2) this, of "uninit 512 s"] show ?thesis
    by (auto simp: fat32_fat_at_sync_def fat_entry_def Let_def)
qed

lemma mod128_bound: "4 * unat (c mod 128 :: u32) + 4 \<le> 512"
  by (simp add: unat_div_128)

lemma fat_put_ok:
  assumes "fat_geom info n" "fat_ok info n s" "unat c < n"
  shows "\<exists>s'. fat32_fat_write_sync info c val s = Inr (True, s') \<and> fstep info n s s' \<and> fview info s' = fat_put info c val (fview info s)"
proof -
  let ?a = "fi_fat info + c div 128" and ?b = "fi_fat info + fi_fat_size info + c div 128" and ?p = "4 * unat (c mod 128)"
  define x where "x = take ?p (fview info s ?a) @ put32 val @ drop (?p + 4) (fview info s ?a)"
  have l: "length (fview info s ?a) = 512" by (rule length_fview [OF assms(1,2)])
  then have w: "buf_write (fview info s ?a) ?p (put32 val) = Inr x" "length x = 512"
    using mod128_bound [of c] by (simp_all add: x_def)
  have al: "allowed_req info n s' (?a, 1)" "fi_fat_count info = 2 \<Longrightarrow> allowed_req info n s' (?b, 1)" for s'
    using fat_sector(3,5) [OF assms(1,3)] by (simp_all add: allowed_req_def)
  obtain s1 where 1: "fat_disk_read info ?a 1 (uninit 512 s) s = Inr (True, fview info s ?a, s1)" "fstep info n s s1" "fview info s1 = fview info s"
    using fat_read_ok [OF assms(1,2) al(1), of "uninit 512 s"] by auto
  obtain s2 where 2: "fat_disk_write info ?a 1 x s1 = Inr (True, s2)" "fstep info n s1 s2" "fview info s2 = (fview info s)(?a := x)"
    using fat_write_ok [OF assms(1) fstep_ok [OF 1(2)] al(1), of x] w(2) 1(3) by (auto simp: put_sectors_1)
  have 12: "fstep info n s s2" by (rule fstep_trans [OF 1(2) 2(2)])
  show ?thesis
  proof (cases "fi_fat_count info = 2")
    case True
    obtain s3 where 3: "fat_disk_write info ?b 1 x s2 = Inr (True, s3)" "fstep info n s2 s3" "fview info s3 = (fview info s2)(?b := x)"
      using fat_write_ok [OF assms(1) fstep_ok [OF 2(2)] al(2) [OF True], of x] w(2) by (auto simp: put_sectors_1)
    have "fat32_fat_write_sync info c val s = Inr (True, s3)"
      by (simp add: fat32_fat_write_sync_def 1(1) w(1) 2(1) 3(1) True)
    moreover have "fview info s3 = fat_put info c val (fview info s)"
      unfolding 3(3) 2(3) fat_put_def Let_def x_def [symmetric] using True by simp
    ultimately show ?thesis using fstep_trans [OF 12 3(2)] by blast
  next
    case False
    have "fat32_fat_write_sync info c val s = Inr (True, s2)"
      by (simp add: fat32_fat_write_sync_def 1(1) w(1) 2(1) False)
    moreover have "fview info s2 = fat_put info c val (fview info s)"
      unfolding 2(3) fat_put_def Let_def x_def [symmetric] using False by simp
    ultimately show ?thesis using 12 by blast
  qed
qed

lemma fat_sector_eq:
  assumes "fat_geom info n" "unat c < n" "unat c' < n"
  shows "fi_fat_count info = 2 \<Longrightarrow> fi_fat info + fi_fat_size info + c div 128 \<noteq> fi_fat info + c' div 128"
    and "fi_fat info + c div 128 = fi_fat info + c' div 128 \<longleftrightarrow> unat c div 128 = unat c' div 128"
proof -
  show "fi_fat info + c div 128 = fi_fat info + c' div 128 \<longleftrightarrow> unat c div 128 = unat c' div 128"
    unfolding add_left_cancel word_unat_eq_iff [of "c div 128"] unat_div_128 by (rule refl)
  assume "fi_fat_count info = 2"
  note f = fat_sector(4) [OF assms(1,2) this] fat_sector(1,2) [OF assms(1,3)]
  show "fi_fat info + fi_fat_size info + c div 128 \<noteq> fi_fat info + c' div 128"
  proof
    assume "fi_fat info + fi_fat_size info + c div 128 = fi_fat info + c' div 128"
    then have "unat (fi_fat info + fi_fat_size info + c div 128) = unat (fi_fat info + c' div 128)" by (rule arg_cong)
    then show False using f by simp
  qed
qed

lemma fat_put_entry:
  assumes "fat_geom info n" "unat c < n" "unat c' < n" "\<And>x. length (v x) = 512"
  shows "fat_entry info (fat_put info c val v) c' = (if c' = c then val AND 0x0FFFFFFF else fat_entry info v c')"
proof -
  let ?a = "fi_fat info + c div 128" and ?a' = "fi_fat info + c' div 128" and ?p = "unat (c mod 128)" and ?q = "unat (c' mod 128)"
  let ?x = "take (4 * ?p) (v ?a) @ put32 val @ drop (4 * ?p + 4) (v ?a)"
  have e: "fat_put info c val v ?a' = (if ?a = ?a' then ?x else v ?a')"
    using fat_sector_eq(1) [OF assms(1-3)] by (auto simp: fat_put_def Let_def fun_upd_def)
  have g: "get32 ?x (4 * ?q) = (if ?q = ?p then val else get32 (v ?a) (4 * ?q))"
    by (rule get32_patch) (use assms(4) mod128_bound in auto)
  have eq: "c' = c \<longleftrightarrow> ?a = ?a' \<and> ?q = ?p"
  proof -
    have "unat c' = unat c \<longleftrightarrow> unat c div 128 = unat c' div 128 \<and> unat c' mod 128 = unat c mod 128"
      by (metis div_mult_mod_eq)
    then show ?thesis unfolding fat_sector_eq(2) [OF assms(1-3)] unat_div_128 word_unat_eq_iff [of c'] .
  qed
  show ?thesis
  proof (cases "?a = ?a'")
    case True
    then have cc: "c' = c \<longleftrightarrow> ?q = ?p" using eq by blast
    show ?thesis unfolding fat_entry_def e unfolding if_P [OF True] g cc unfolding True [symmetric] by (simp only: split: if_split) blast
  next
    case False
    then have "c' \<noteq> c" using eq by blast
    then show ?thesis using False unfolding fat_entry_def e by simp
  qed
qed

lemma fat_put_outside:
  assumes "fat_geom info n" "unat c < n" "unat x < unat (fi_fat info) \<or> unat (fi_data info) \<le> unat x"
  shows "fat_put info c val v x = v x"
proof -
  have g: "unat (fi_fat info) + unat (fi_fat_size info) \<le> unat (fi_data info)"
    "fi_fat_count info = 2 \<Longrightarrow> unat (fi_fat info) + 2 * unat (fi_fat_size info) \<le> unat (fi_data info)"
    using assms(1) by (auto simp: fat_geom_def split: if_splits)
  note f = fat_sector(1,2,4) [OF assms(1,2)]
  have "x \<noteq> fi_fat info + c div 128" using f(1,2) g(1) assms(3) by auto
  moreover have "fi_fat_count info = 2 \<Longrightarrow> x \<noteq> fi_fat info + fi_fat_size info + c div 128"
    using f(1,3) g(2) assms(3) by auto
  ultimately show ?thesis by (auto simp: fat_put_def Let_def)
qed

lemma length_fat_put: "(\<And>x. length (v x) = 512) \<Longrightarrow> length (fat_put info c val v x) = 512"
  using mod128_bound [of c] by (auto simp: fat_put_def Let_def fun_upd_def)

lemma cluster_data_cong:
  assumes "fat_geom info n" "valid_cluster n c" "\<And>x. in_range (cluster_start info c) (ucast (fi_spc info)) x \<Longrightarrow> v x = w x"
  shows "cluster_data info v c = cluster_data info w c"
proof -
  have "aligned_req info n (cluster_start info c, ucast (fi_spc info))" using assms(2) by (auto simp: aligned_req_def)
  from sectors_cong [OF assms(3) aligned_fits(1) [OF assms(1) this]] show ?thesis by (simp add: cluster_data_def)
qed

lemma fat_put_data:
  assumes "fat_geom info n" "unat c < n" "valid_cluster n c'"
  shows "cluster_data info (fat_put info c val v) c' = cluster_data info v c'"
  by (rule cluster_data_cong [OF assms(1,3)], rule fat_put_outside [OF assms(1,2)])
     (use in_cluster_in_data [OF assms(1,3)] in \<open>auto simp: in_data_def\<close>)

lemma entry_mask: "unat (c :: u32) < 0x0FFFFFF7 \<Longrightarrow> c AND 0x0FFFFFFF = c"
proof -
  assume "unat c < 0x0FFFFFF7"
  then have l: "unat c mod 2 ^ 28 = unat c" by simp
  have m: "(0x0FFFFFFF :: u32) = mask 28" by (simp add: mask_eq_exp_minus_1)
  show ?thesis unfolding m word_unat_eq_iff unat_and_mask by (rule l)
qed

section \<open>Taking a cluster\<close>

definition fsinfo_sector :: "fat32_info_t \<Rightarrow> u32" where
  "fsinfo_sector info = fi_partition info + ucast (fi_fsinfo info)"

definition hint :: "fat32_info_t \<Rightarrow> (u32 \<Rightarrow> bytes) \<Rightarrow> u32" where
  "hint info v = (if fi_fsinfo info = 0 then fi_root info else get32 (v (fsinfo_sector info)) 492)"

lemma fsinfo_sector:
  assumes "fat_geom info n"
  shows "unat (fsinfo_sector info) < unat (fi_fat info)" "aligned_req info n (fsinfo_sector info, 1)"
proof -
  have g: "unat (fi_partition info) + unat (fi_fsinfo info) < unat (fi_fat info)" "unat (fi_fat info) \<le> unat (fi_data info)"
    using assms by (auto simp: fat_geom_def)
  have "unat (fi_data info) < 2 ^ 32" by (rule unat_less_2p32)
  then have "unat (fsinfo_sector info) = unat (fi_partition info) + unat (fi_fsinfo info)"
    unfolding fsinfo_sector_def by (subst unat_plus_less) (use g in simp_all)
  then show "unat (fsinfo_sector info) < unat (fi_fat info)" "aligned_req info n (fsinfo_sector info, 1)"
    using g by (simp_all add: aligned_req_def in_data_def)
qed

text \<open>The buffer of the search holds the table sector of the current entry, unless it is read next.\<close>

definition scan_inv :: "fat32_info_t \<Rightarrow> (u32 \<Rightarrow> bytes) \<Rightarrow> u32 \<Rightarrow> bytes \<Rightarrow> bool" where
  "scan_inv info v c b \<longleftrightarrow> length b = 512 \<and> (unat c mod 128 \<noteq> 0 \<longrightarrow> b = v (fi_fat info + c div 128))"

lemma take_scan_step:
  assumes "fat_geom info n" "fat_ok info n s" "unat c < n" "scan_inv info (fview info s) c b"
  shows "\<exists>s'. take_scan info c taken b s =
      (if fat_entry info (fview info s) c = 0 then
         if taken \<noteq> 0 then Some (Inr (c, taken, s'))
         else take_scan info (c + 1) c (fview info s (fi_fat info + c div 128)) s'
       else take_scan info (c + 1) taken (fview info s (fi_fat info + c div 128)) s') \<and>
    fstep info n s s' \<and> fview info s' = fview info s"
proof -
  let ?a = "fi_fat info + c div 128"
  have z: "c mod 128 = 0 \<longleftrightarrow> unat c mod 128 = 0" by (simp add: word_unat_eq_iff unat_div_128)
  have "allowed_req info n s (?a, 1)" using fat_sector(3) [OF assms(1,3)] by (simp add: allowed_req_def)
  from fat_read_ok [OF assms(1,2) this, of b] assms(4) obtain s1 where
    1: "fat_disk_read info ?a 1 b s = Inr (True, fview info s ?a, s1)" "fstep info n s s1" "fview info s1 = fview info s"
    by (auto simp: scan_inv_def)
  define s' where "s' = (if c mod 128 = 0 then s1 else s)"
  have rd: "(if c mod 128 = 0 then rbind (fat_disk_read info ?a 1 b s) (\<lambda>(_, b, s). Inr (b, s)) else Inr (b, s)) = Inr (fview info s ?a, s')"
    using assms(4) 1(1) by (simp add: s'_def scan_inv_def z)
  have "fstep info n s s' \<and> fview info s' = fview info s" using 1(2,3) assms(2) by (simp add: s'_def)
  moreover have "take_scan info c taken b s =
      (if fat_entry info (fview info s) c = 0 then
         if taken \<noteq> 0 then Some (Inr (c, taken, s'))
         else take_scan info (c + 1) c (fview info s ?a) s'
       else take_scan info (c + 1) taken (fview info s ?a) s')"
    by (subst take_scan.simps) (simp only: rd lbind_simps prod.case fat_entry_def FAT32_EMPTY_CLUSTER_def)
  ultimately show ?thesis by blast
qed

lemma scan_inv_next:
  assumes "unat c < 2 ^ 32 - 1" "length (v (fi_fat info + c div 128)) = 512"
  shows "scan_inv info v (c + 1) (v (fi_fat info + c div 128))" "unat (c + 1) = Suc (unat c)"
proof -
  show u: "unat (c + 1) = Suc (unat c)" using assms(1) by (simp add: unat_word_ariths)
  have "(c + 1) div 128 = c div 128" if "Suc (unat c) mod 128 \<noteq> 0"
    using that by (simp add: word_unat_eq_iff unat_div_128 u div_Suc)
  then show "scan_inv info v (c + 1) (v (fi_fat info + c div 128))" using assms(2) by (simp add: scan_inv_def u)
qed

lemma take_scan_skip:
  assumes "fat_geom info n" "fat_ok info n s" "unat c + k < n" "scan_inv info (fview info s) c b"
    "\<And>x. unat c \<le> unat x \<Longrightarrow> unat x < unat c + k \<Longrightarrow> fat_entry info (fview info s) x \<noteq> 0"
  shows "\<exists>b' s'. take_scan info c taken b s = take_scan info (c + of_nat k) taken b' s' \<and>
    fstep info n s s' \<and> fview info s' = fview info s \<and> scan_inv info (fview info s) (c + of_nat k) b'"
  using assms(2-)
proof (induction k arbitrary: c b s)
  case 0
  then show ?case by (intro exI [of _ b] exI [of _ s]) simp
next
  case (Suc k)
  have c: "unat c < n" using Suc.prems(2) by simp
  have n: "n \<le> 0x0FFFFFF7" using assms(1) by (simp add: fat_geom_def)
  have nz: "fat_entry info (fview info s) c \<noteq> 0" by (rule Suc.prems(4)) simp_all
  obtain s1 where 1: "take_scan info c taken b s = take_scan info (c + 1) taken (fview info s (fi_fat info + c div 128)) s1"
    "fstep info n s s1" "fview info s1 = fview info s"
    using take_scan_step [OF assms(1) Suc.prems(1) c Suc.prems(3), of taken] nz by auto
  have nx: "scan_inv info (fview info s) (c + 1) (fview info s (fi_fat info + c div 128))" "unat (c + 1) = Suc (unat c)"
    using scan_inv_next [of c "fview info s" info] c n length_fview [OF assms(1) Suc.prems(1)] by auto
  have "\<exists>b' s'. take_scan info (c + 1) taken (fview info s (fi_fat info + c div 128)) s1 = take_scan info (c + 1 + of_nat k) taken b' s' \<and>
      fstep info n s1 s' \<and> fview info s' = fview info s1 \<and> scan_inv info (fview info s1) (c + 1 + of_nat k) b'"
    by (rule Suc.IH) (use fstep_ok [OF 1(2)] Suc.prems(2,4) nx 1(3) in auto)
  then obtain b' s' where 2: "take_scan info (c + 1) taken (fview info s (fi_fat info + c div 128)) s1 = take_scan info (c + 1 + of_nat k) taken b' s'"
    "fstep info n s1 s'" "fview info s' = fview info s1" "scan_inv info (fview info s1) (c + 1 + of_nat k) b'"
    by (elim exE conjE) (rule that)
  show ?case using 1 2 fstep_trans [OF 1(2) 2(2)] by (intro exI [of _ b'] exI [of _ s']) (simp add: add.assoc)
qed

end
