(* ===== verification/Fat_Alloc.thy ===== *)
theory Fat_Alloc
  imports Fat_Table
begin

text \<open>
  Allocation and release of clusters: \<^verbatim>\<open>fat32_take_new_cluster_sync\<close> takes the first free entry
  from the hint on, as long as there is a second one, and \<^verbatim>\<open>fat32_release_clusters_sync\<close> frees
  exactly the clusters of a chain.
\<close>

unbundle bit_operations_syntax

abbreviation ent :: "fat32_info_t \<Rightarrow> fat_state \<Rightarrow> u32 \<Rightarrow> u32" where
  "ent info s c \<equiv> fat_entry info (fview info s) c"

abbreviation dat :: "fat32_info_t \<Rightarrow> fat_state \<Rightarrow> u32 \<Rightarrow> bytes" where
  "dat info s c \<equiv> cluster_data info (fview info s) c"

definition two_free :: "fat32_info_t \<Rightarrow> nat \<Rightarrow> fat_state \<Rightarrow> u32 \<Rightarrow> u32 \<Rightarrow> bool" where
  "two_free info n s t u \<longleftrightarrow>
     (let h = unat (hint info (fview info s)) in
      2 \<le> h \<and> h \<le> unat t \<and> unat t < unat u \<and> unat u < n \<and> ent info s t = 0 \<and> ent info s u = 0 \<and>
      (\<forall>x. h \<le> unat x \<and> unat x < unat u \<and> x \<noteq> t \<longrightarrow> ent info s x \<noteq> 0))"

lemma take_scan_ok:
  assumes "fat_geom info n" "fat_ok info n s" "two_free info n s t u" "scan_inv info (fview info s) (hint info (fview info s)) b"
  shows "\<exists>s'. take_scan info (hint info (fview info s)) 0 b s = Some (Inr (u, t, s')) \<and>
    fstep info n s s' \<and> fview info s' = fview info s"
proof -
  let ?h = "hint info (fview info s)"
  have f: "2 \<le> unat ?h" "unat ?h \<le> unat t" "unat t < unat u" "unat u < n" "ent info s t = 0" "ent info s u = 0"
    and nz: "\<And>x. unat ?h \<le> unat x \<Longrightarrow> unat x < unat u \<Longrightarrow> x \<noteq> t \<Longrightarrow> ent info s x \<noteq> 0"
    using assms(3) by (auto simp: two_free_def Let_def)
  have n: "n \<le> 0x0FFFFFF7" using assms(1) by (simp add: fat_geom_def)
  have len: "length (fview info s x) = 512" for x by (rule length_fview [OF assms(1,2)])
  have t: "?h + of_nat (unat t - unat ?h) = t" using f(2) by (simp add: of_nat_diff)
  have "\<exists>b' s'. take_scan info ?h 0 b s = take_scan info (?h + of_nat (unat t - unat ?h)) 0 b' s' \<and> fstep info n s s' \<and>
      fview info s' = fview info s \<and> scan_inv info (fview info s) (?h + of_nat (unat t - unat ?h)) b'"
  proof (rule take_scan_skip [OF assms(1,2) _ assms(4)])
    show "ent info s x \<noteq> 0" if "unat ?h \<le> unat x" "unat x < unat ?h + (unat t - unat ?h)" for x
      by (rule nz) (use that f in auto)
  qed (use f in simp)
  then obtain b1 s1 where 1: "take_scan info ?h 0 b s = take_scan info t 0 b1 s1" "fstep info n s s1"
    "fview info s1 = fview info s" "scan_inv info (fview info s) t b1"
    unfolding t by blast
  have tn: "unat t < n" using f by simp
  obtain s2 where 2: "take_scan info t 0 b1 s1 = take_scan info (t + 1) t (fview info s1 (fi_fat info + t div 128)) s2"
    "fstep info n s1 s2" "fview info s2 = fview info s1"
    using take_scan_step [OF assms(1) fstep_ok [OF 1(2)] tn, of b1 0] 1(3,4) f(5) by auto
  have nx: "scan_inv info (fview info s) (t + 1) (fview info s (fi_fat info + t div 128))" "unat (t + 1) = Suc (unat t)"
    using scan_inv_next [of t "fview info s" info] len tn n by auto
  have u: "t + 1 + of_nat (unat u - unat (t + 1)) = u" using f(3) nx(2) by (simp add: of_nat_diff)
  have "\<exists>b' s'. take_scan info (t + 1) t (fview info s1 (fi_fat info + t div 128)) s2 =
        take_scan info (t + 1 + of_nat (unat u - unat (t + 1))) t b' s' \<and> fstep info n s2 s' \<and>
      fview info s' = fview info s2 \<and> scan_inv info (fview info s2) (t + 1 + of_nat (unat u - unat (t + 1))) b'"
  proof (rule take_scan_skip [OF assms(1) fstep_ok [OF 2(2)]])
    show "ent info s2 x \<noteq> 0" if "unat (t + 1) \<le> unat x" "unat x < unat (t + 1) + (unat u - unat (t + 1))" for x
      unfolding 2(3) 1(3) by (rule nz) (use that f nx(2) in auto)
  qed (use f nx 1(3) 2(3) in auto)
  then obtain b3 s3 where 3: "take_scan info (t + 1) t (fview info s1 (fi_fat info + t div 128)) s2 = take_scan info u t b3 s3"
    "fstep info n s2 s3" "fview info s3 = fview info s2" "scan_inv info (fview info s2) u b3"
    unfolding u by blast
  have "t \<noteq> 0" using f by auto
  then obtain s4 where 4: "take_scan info u t b3 s3 = Some (Inr (u, t, s4))" "fstep info n s3 s4" "fview info s4 = fview info s3"
    using take_scan_step [OF assms(1) fstep_ok [OF 3(2)] f(4), of b3 t] 1(3) 2(3) 3(3,4) f(6) by auto
  have "fstep info n s s4" using fstep_trans [OF 1(2) fstep_trans [OF 2(2) fstep_trans [OF 3(2) 4(2)]]] .
  then show ?thesis using 1 2 3 4 by (intro exI [of _ s4]) simp
qed

lemma fsinfo_put:
  assumes "length b = 512" "b' = take 488 b @ put32 x @ drop 492 b" "b'' = take 492 b' @ put32 y @ drop 496 b'"
  shows "buf_write b 488 (put32 x) = Inr b'" "buf_write b' 492 (put32 y) = Inr b''" "length b'' = 512" "get32 b'' 492 = y"
proof -
  have l: "length b' = 512" using assms(1,2) by simp
  show "buf_write b 488 (put32 x) = Inr b'" "buf_write b' 492 (put32 y) = Inr b''" "length b'' = 512"
    using assms l by simp_all
  have "get32 (take (4 * 123) b' @ put32 y @ drop (4 * 123 + 4) b') (4 * 123) = (if (123 :: nat) = 123 then y else get32 b' (4 * 123))"
    by (rule get32_patch) (simp_all add: l)
  then show "get32 b'' 492 = y" by (simp add: assms(3))
qed

lemma take_hint_ok:
  assumes "fat_geom info n" "fat_ok info n s"
  shows "\<exists>s'. (if fi_fsinfo info \<noteq> 0
      then rbind (fat32_read_fsinfo_sync info (uninit 512 s) s) (\<lambda>(_, fsinfo, s). Inr (get32 fsinfo 492, fsinfo, s))
      else Inr (fi_root info, [], s)) =
        Inr (hint info (fview info s), if fi_fsinfo info \<noteq> 0 then fview info s (fsinfo_sector info) else [], s') \<and>
    fstep info n s s' \<and> fview info s' = fview info s"
proof (cases "fi_fsinfo info = 0")
  case True
  then show ?thesis using assms(2) by (intro exI [of _ s]) (simp add: hint_def)
next
  case False
  have "allowed_req info n s (fsinfo_sector info, 1)" using fsinfo_sector(2) [OF assms(1)] by (simp add: allowed_req_def)
  from fat_read_ok [OF assms this, of "uninit 512 s"] False show ?thesis
    by (auto simp: fat32_read_fsinfo_sync_def hint_def fsinfo_sector_def)
qed

lemma take_table_ok:
  assumes "fat_geom info n" "fat_ok info n s" "unat t < n" "prev = 0 \<or> unat prev < n \<and> prev \<noteq> t"
  shows "\<exists>s1 s'. (if prev \<noteq> 0 then rbind (fat32_fat_write_sync info prev t s) (\<lambda>(_, s). Inr s) else Inr s) = Inr s1 \<and>
    fat32_fat_write_sync info t FAT32_LAST_CLUSTER s1 = Inr (True, s') \<and> fstep info n s s' \<and>
    (\<forall>c. unat c < n \<longrightarrow> ent info s' c = (if c = t then FAT32_LAST_CLUSTER else if prev \<noteq> 0 \<and> c = prev then t else ent info s c)) \<and>
    (\<forall>c. valid_cluster n c \<longrightarrow> dat info s' c = dat info s c) \<and> hint info (fview info s') = hint info (fview info s)"
proof -
  have t: "t AND 0x0FFFFFFF = t" using assms(1,3) entry_mask [of t] by (auto simp: fat_geom_def)
  have last: "FAT32_LAST_CLUSTER AND 0x0FFFFFFF = FAT32_LAST_CLUSTER" by (simp add: FAT32_LAST_CLUSTER_def)
  have len: "length (fview info s x) = 512" for x by (rule length_fview [OF assms(1,2)])
  define v1 where "v1 = (if prev \<noteq> 0 then fat_put info prev t (fview info s) else fview info s)"
  have "\<exists>s1. (if prev \<noteq> 0 then rbind (fat32_fat_write_sync info prev t s) (\<lambda>(_, s). Inr s) else Inr s) = Inr s1 \<and>
      fstep info n s s1 \<and> fview info s1 = v1"
    using fat_put_ok [OF assms(1,2), of prev t] assms(2,4) by (auto simp: v1_def)
  then obtain s1 where 1: "(if prev \<noteq> 0 then rbind (fat32_fat_write_sync info prev t s) (\<lambda>(_, s). Inr s) else Inr s) = Inr s1"
      "fstep info n s s1" "fview info s1 = v1" by blast
  obtain s2 where 2: "fat32_fat_write_sync info t FAT32_LAST_CLUSTER s1 = Inr (True, s2)" "fstep info n s1 s2"
    "fview info s2 = fat_put info t FAT32_LAST_CLUSTER v1"
    using fat_put_ok [OF assms(1) fstep_ok [OF 1(2)] assms(3)] 1(3) by auto
  have len1: "length (v1 x) = 512" for x using length_fat_put [OF len] len by (simp add: v1_def)
  have e1: "fat_entry info v1 c = (if prev \<noteq> 0 \<and> c = prev then t else ent info s c)" if "unat c < n" for c
    using fat_put_entry [OF assms(1) _ that len, of prev t] assms(4) t by (auto simp: v1_def)
  have "ent info s2 c = (if c = t then FAT32_LAST_CLUSTER else if prev \<noteq> 0 \<and> c = prev then t else ent info s c)" if "unat c < n" for c
    using fat_put_entry [OF assms(1,3) that len1, of FAT32_LAST_CLUSTER] e1 [OF that] last by (simp add: 2(3))
  moreover have "dat info s2 c = dat info s c" if "valid_cluster n c" for c
    using fat_put_data [OF assms(1) _ that, of prev t] fat_put_data [OF assms(1,3) that, of FAT32_LAST_CLUSTER v1] assms(4)
    by (auto simp: v1_def 2(3))
  moreover have "fview info s2 (fsinfo_sector info) = fview info s (fsinfo_sector info)"
    using fat_put_outside [OF assms(1)] fsinfo_sector(1) [OF assms(1)] assms(3,4) by (auto simp: v1_def 2(3))
  ultimately show ?thesis using 1(1) 2(1) fstep_trans [OF 1(2) 2(2)]
    by (intro exI [of _ s1] exI [of _ s2]) (simp add: hint_def)
qed

text \<open>A write of the information sector changes neither the table nor the clusters.\<close>

lemma take_fsinfo_ok:
  assumes "fat_geom info n" "fat_ok info n s" "fi_fsinfo info \<noteq> 0 \<longrightarrow> length fsi = 512"
  shows "\<exists>s'. (if fi_fsinfo info \<noteq> 0
        then rbind (buf_write fsi 488 (put32 (get32 fsi 488 - 1))) (\<lambda>fsinfo.
             rbind (buf_write fsinfo 492 (put32 u)) (\<lambda>fsinfo.
             rbind (fat32_write_fsinfo_sync info fsinfo s) (\<lambda>(_, s). Inr s)))
        else Inr s) = Inr s' \<and> fstep info n s s' \<and> (\<forall>c. unat c < n \<longrightarrow> ent info s' c = ent info s c) \<and>
      (\<forall>c. valid_cluster n c \<longrightarrow> dat info s' c = dat info s c) \<and>
      hint info (fview info s') = (if fi_fsinfo info = 0 then fi_root info else u)"
proof (cases "fi_fsinfo info = 0")
  case True
  then show ?thesis using assms(2) by (intro exI [of _ s]) (simp add: hint_def)
next
  case False
  let ?fs = "fsinfo_sector info"
  have al: "allowed_req info n s' (?fs, 1)" for s' using fsinfo_sector(2) [OF assms(1)] by (simp add: allowed_req_def)
  have l: "length fsi = 512" using False assms(3) by simp
  obtain b1 b2 where p: "buf_write fsi 488 (put32 (get32 fsi 488 - 1)) = Inr b1" "buf_write b1 492 (put32 u) = Inr b2"
    "length b2 = 512" "get32 b2 492 = u"
    using fsinfo_put [where x = "get32 fsi 488 - 1" and y = u, OF l refl refl] by blast
  obtain s1 where 1: "fat_disk_write info ?fs 1 b2 s = Inr (True, s1)" "fstep info n s s1" "fview info s1 = (fview info s)(?fs := b2)"
    using fat_write_ok [OF assms(1,2) al, of b2] p(3) by (auto simp: put_sectors_1)
  obtain s2 where 2: "fat_disk_flush info s1 = Inr (True, s2)" "fstep info n s1 s2" "fview info s2 = fview info s1"
    using fat_flush_ok [OF assms(1) fstep_ok [OF 1(2)]] by blast
  have "ent info s2 c = ent info s c" if "unat c < n" for c
  proof -
    have "fi_fat info + c div 128 \<noteq> ?fs" using fsinfo_sector(1) [OF assms(1)] fat_sector(2) [OF assms(1) that] by auto
    then show ?thesis by (simp add: fat_entry_def 1(3) 2(3))
  qed
  moreover have "dat info s2 c = dat info s c" if "valid_cluster n c" for c
  proof (rule cluster_data_cong [OF assms(1) that])
    fix x assume "in_range (cluster_start info c) (ucast (fi_spc info)) x"
    then have "unat (fi_data info) \<le> unat x" using in_cluster_in_data [OF assms(1) that] by (simp add: in_data_def)
    moreover have "unat (fi_fat info) \<le> unat (fi_data info)" using assms(1) by (auto simp: fat_geom_def split: if_splits)
    ultimately have "x \<noteq> ?fs" using fsinfo_sector(1) [OF assms(1)] by auto
    then show "fview info s2 x = fview info s x" by (simp add: 1(3) 2(3))
  qed
  moreover have "hint info (fview info s2) = u" using False p(4) by (simp add: hint_def 1(3) 2(3))
  moreover have "fat32_write_fsinfo_sync info b2 s = Inr (True, s2)"
    using False 1(1) 2(1) by (simp add: fat32_write_fsinfo_sync_def fsinfo_sector_def)
  ultimately show ?thesis using False p(1,2) fstep_trans [OF 1(2) 2(2)] by (intro exI [of _ s2]) simp
qed

lemma fat_take_ok:
  assumes "fat_geom info n" "fat_ok info n s" "two_free info n s t u" "prev = 0 \<or> unat prev < n \<and> prev \<noteq> t"
  shows "\<exists>s'. fat32_take_new_cluster_sync info prev s = Some (Inr (t, s')) \<and> fstep info n s s' \<and>
    (\<forall>c. unat c < n \<longrightarrow> ent info s' c = (if c = t then FAT32_LAST_CLUSTER else if prev \<noteq> 0 \<and> c = prev then t else ent info s c)) \<and>
    (\<forall>c. valid_cluster n c \<longrightarrow> dat info s' c = dat info s c) \<and>
    hint info (fview info s') = (if fi_fsinfo info = 0 then fi_root info else u)"
proof -
  let ?h = "hint info (fview info s)" and ?fsi = "if fi_fsinfo info \<noteq> 0 then fview info s (fsinfo_sector info) else []"
  have f: "unat t < n" "unat ?h < n" using assms(3) by (auto simp: two_free_def Let_def)
  have len: "length (fview info s x) = 512" for x by (rule length_fview [OF assms(1,2)])
  from take_hint_ok [OF assms(1,2)] obtain s1 where 1: "(if fi_fsinfo info \<noteq> 0
      then rbind (fat32_read_fsinfo_sync info (uninit 512 s) s) (\<lambda>(_, fsinfo, s). Inr (get32 fsinfo 492, fsinfo, s))
      else Inr (fi_root info, [], s)) = Inr (?h, ?fsi, s1)" "fstep info n s s1" "fview info s1 = fview info s"
    by blast
  let ?b = "fview info s (fi_fat info + ?h div 128)"
  have al: "allowed_req info n s1 (fi_fat info + ?h div 128, 1)" using fat_sector(3) [OF assms(1) f(2)] by (simp add: allowed_req_def)
  obtain s2 where 2: "fat_disk_read info (fi_fat info + ?h div 128) 1 (uninit 512 s1) s1 = Inr (True, ?b, s2)"
    "fstep info n s1 s2" "fview info s2 = fview info s"
    using fat_read_ok [OF assms(1) fstep_ok [OF 1(2)] al, of "uninit 512 s1"] 1(3) by auto
  have si: "scan_inv info (fview info s2) (hint info (fview info s2)) ?b" using len 2(3) by (simp add: scan_inv_def)
  have "two_free info n s2 t u" using assms(3) 2(3) by (simp add: two_free_def)
  from take_scan_ok [OF assms(1) fstep_ok [OF 2(2)] this si] obtain s3 where
    3: "take_scan info ?h 0 ?b s2 = Some (Inr (u, t, s3))" "fstep info n s2 s3" "fview info s3 = fview info s"
    unfolding 2(3) by blast
  from take_table_ok [OF assms(1) fstep_ok [OF 3(2)] f(1) assms(4)] obtain s4 s5 where
    4: "(if prev \<noteq> 0 then rbind (fat32_fat_write_sync info prev t s3) (\<lambda>(_, s). Inr s) else Inr s3) = Inr s4"
    "fat32_fat_write_sync info t FAT32_LAST_CLUSTER s4 = Inr (True, s5)" "fstep info n s3 s5"
    "\<forall>c. unat c < n \<longrightarrow> ent info s5 c = (if c = t then FAT32_LAST_CLUSTER else if prev \<noteq> 0 \<and> c = prev then t else ent info s c)"
    "\<forall>c. valid_cluster n c \<longrightarrow> dat info s5 c = dat info s c"
    unfolding 3(3) by blast
  have "fi_fsinfo info \<noteq> 0 \<longrightarrow> length ?fsi = 512" by (simp add: len)
  from take_fsinfo_ok [OF assms(1) fstep_ok [OF 4(3)] this, of u] obtain s6 where
    6: "(if fi_fsinfo info \<noteq> 0
        then rbind (buf_write ?fsi 488 (put32 (get32 ?fsi 488 - 1))) (\<lambda>fsinfo.
             rbind (buf_write fsinfo 492 (put32 u)) (\<lambda>fsinfo.
             rbind (fat32_write_fsinfo_sync info fsinfo s5) (\<lambda>(_, s). Inr s)))
        else Inr s5) = Inr s6" "fstep info n s5 s6" "\<forall>c. unat c < n \<longrightarrow> ent info s6 c = ent info s5 c"
      "\<forall>c. valid_cluster n c \<longrightarrow> dat info s6 c = dat info s5 c" "hint info (fview info s6) = (if fi_fsinfo info = 0 then fi_root info else u)"
    by blast
  have "fat32_take_new_cluster_sync info prev s = Some (Inr (t, s6))"
    unfolding fat32_take_new_cluster_sync_def 1(1) lbind_simps prod.case 2(1) 3(1) 4(1,2) 6(1) by (rule refl)
  moreover have "fstep info n s s6"
    by (rule fstep_trans [OF 1(2) fstep_trans [OF 2(2) fstep_trans [OF 3(2) fstep_trans [OF 4(3) 6(2)]]]])
  ultimately show ?thesis using 4(4,5) 6(3-5) by (intro exI [of _ s6]) simp
qed

section \<open>Free clusters\<close>

definition free_set :: "fat32_info_t \<Rightarrow> nat \<Rightarrow> fat_state \<Rightarrow> u32 set" where
  "free_set info n s = {c. unat (hint info (fview info s)) \<le> unat c \<and> unat c < n \<and> ent info s c = 0}"

lemma finite_u32 [simp]: "finite (A :: u32 set)"
  by (rule finite_subset [OF subset_UNIV]) simp

lemma two_free_exists:
  assumes "2 \<le> unat (hint info (fview info s))" "2 \<le> card (free_set info n s)"
  shows "\<exists>t u. two_free info n s t u \<and> t \<in> free_set info n s"
proof -
  let ?F = "free_set info n s"
  have "?F \<noteq> {}" using assms(2) by auto
  then obtain t where t: "t \<in> ?F" "\<forall>x. x \<in> ?F \<longrightarrow> unat t \<le> unat x"
    using ex_has_least_nat [of "\<lambda>x. x \<in> ?F" _ unat] by blast
  have "card (?F - {t}) = card ?F - 1" using t(1) by simp
  then have "?F - {t} \<noteq> {}" using assms(2) by (metis card.empty diff_is_0_eq not_less_eq_eq numeral_2_eq_2 le_refl One_nat_def)
  then obtain u where u: "u \<in> ?F - {t}" "\<forall>x. x \<in> ?F - {t} \<longrightarrow> unat u \<le> unat x"
    using ex_has_least_nat [of "\<lambda>x. x \<in> ?F - {t}" _ unat] by blast
  have "unat t \<noteq> unat u" using u(1) by (auto simp: word_unat_eq_iff)
  then have tu: "unat t < unat u" using t(2) u(1) by (metis DiffD1 le_neq_implies_less)
  have "ent info s x \<noteq> 0" if "unat (hint info (fview info s)) \<le> unat x" "unat x < unat u" "x \<noteq> t" for x
  proof
    assume "ent info s x = 0"
    then have "x \<in> ?F - {t}" using that u(1) by (auto simp: free_set_def)
    then show False using u(2) that(2) by auto
  qed
  then have "two_free info n s t u"
    using assms(1) t(1) u(1) tu by (auto simp: two_free_def free_set_def Let_def)
  then show ?thesis using t(1) by blast
qed

lemma take_free_set:
  assumes "two_free info n s t u" "prev = 0 \<or> unat prev < n \<and> ent info s prev \<noteq> 0"
    "\<forall>c. unat c < n \<longrightarrow> ent info s' c = (if c = t then FAT32_LAST_CLUSTER else if prev \<noteq> 0 \<and> c = prev then t else ent info s c)"
    "hint info (fview info s') = (if fi_fsinfo info = 0 then fi_root info else u)"
  shows "free_set info n s' = free_set info n s - {t}" "2 \<le> unat (hint info (fview info s'))"
proof -
  let ?h = "hint info (fview info s)"
  have f: "2 \<le> unat ?h" "unat ?h \<le> unat t" "unat t < unat u" "unat u < n" "ent info s t = 0"
    and nz: "\<And>x. unat ?h \<le> unat x \<Longrightarrow> unat x < unat u \<Longrightarrow> x \<noteq> t \<Longrightarrow> ent info s x \<noteq> 0"
    using assms(1) by (auto simp: two_free_def Let_def)
  have t0: "t \<noteq> 0" using f by auto
  have h: "hint info (fview info s') = (if fi_fsinfo info = 0 then ?h else u)"
    using assms(4) by (simp add: hint_def)
  show "2 \<le> unat (hint info (fview info s'))" using f by (simp add: h)
  have z: "ent info s' c = 0 \<longleftrightarrow> ent info s c = 0 \<and> c \<noteq> t" if "unat c < n" for c
    using assms(2,3) that t0 by (auto simp: FAT32_LAST_CLUSTER_def)
  show "free_set info n s' = free_set info n s - {t}"
  proof (rule set_eqI)
    fix c
    show "c \<in> free_set info n s' \<longleftrightarrow> c \<in> free_set info n s - {t}"
    proof (cases "unat c < n")
      case True
      have "unat u \<le> unat c" if "unat ?h \<le> unat c" "ent info s c = 0" "c \<noteq> t"
        by (rule ccontr) (use nz [of c] that in auto)
      then show ?thesis using f(2,3) True by (auto simp: free_set_def z [OF True] h)
    qed (simp add: free_set_def)
  qed
qed

section \<open>Chains\<close>

fun flinks :: "(u32 \<Rightarrow> u32) \<Rightarrow> u32 list \<Rightarrow> bool" where
  "flinks e [] = True"
| "flinks e [c] = (FAT32_BAD_CLUSTER < e c)"
| "flinks e (c # d # xs) = (e c = d \<and> flinks e (d # xs))"

definition fchain :: "nat \<Rightarrow> (u32 \<Rightarrow> u32) \<Rightarrow> u32 list \<Rightarrow> bool" where
  "fchain n e xs \<longleftrightarrow> xs \<noteq> [] \<and> distinct xs \<and> (\<forall>c \<in> set xs. valid_cluster n c) \<and> flinks e xs"

lemma flinks_cong: "(\<And>c. c \<in> set xs \<Longrightarrow> e c = e' c) \<Longrightarrow> flinks e xs = flinks e' xs"
  by (induction e xs rule: flinks.induct) auto

lemma fchain_tl: "fchain n e (c # d # xs) \<Longrightarrow> fchain n e (d # xs)"
  by (simp add: fchain_def)

lemma flinks_snoc:
  assumes "flinks e xs" "xs \<noteq> []" "t \<notin> set xs" "distinct xs" "\<And>c. c \<in> set xs \<Longrightarrow> e' c = (if c = last xs then t else e c)"
    "FAT32_BAD_CLUSTER < e' t"
  shows "flinks e' (xs @ [t])"
  using assms
proof (induction e xs rule: flinks.induct)
  case (3 e c d xs)
  then have "c \<noteq> last (d # xs)" using last_in_set [of "d # xs"] by auto
  then show ?case using 3 by auto
qed auto

text \<open>The position a walk has on a chain.\<close>

definition pos_at :: "(u32 \<Rightarrow> u32) \<Rightarrow> u32 \<Rightarrow> fat32_position_t" where
  "pos_at e c = \<lparr> pos_fat = e c, pos_cluster = c \<rparr>"

lemma pos_at_last:
  assumes "n \<le> 0x0FFFFFF7" "fchain n e (c # xs)"
  shows "\<not> HAS_READING_ERROR (pos_at e c)" "IS_LAST_CLUSTER (pos_at e c) \<longleftrightarrow> xs = []" "xs \<noteq> [] \<Longrightarrow> e c = hd xs"
proof -
  have "\<not> HAS_READING_ERROR (pos_at e c) \<and> (IS_LAST_CLUSTER (pos_at e c) \<longleftrightarrow> xs = [])"
  proof (cases xs)
    case Nil
    then show ?thesis using assms(2)
      by (auto simp: fchain_def HAS_READING_ERROR_def IS_LAST_CLUSTER_def pos_at_def FAT32_BAD_CLUSTER_def FAT32_EMPTY_CLUSTER_def)
  next
    case (Cons d ys)
    then have "e c = d" "2 \<le> unat d" "unat d < 0x0FFFFFF7" using assms by (auto simp: fchain_def valid_cluster_def)
    then show ?thesis using Cons
      by (auto simp: HAS_READING_ERROR_def IS_LAST_CLUSTER_def pos_at_def FAT32_BAD_CLUSTER_def FAT32_EMPTY_CLUSTER_def word_less_nat_alt)
  qed
  then show "\<not> HAS_READING_ERROR (pos_at e c)" "IS_LAST_CLUSTER (pos_at e c) \<longleftrightarrow> xs = []" by blast+
  show "xs \<noteq> [] \<Longrightarrow> e c = hd xs" using assms(2) by (cases xs) (auto simp: fchain_def)
qed

lemma fat_geom_n: "fat_geom info n \<Longrightarrow> n \<le> 0x0FFFFFF7"
  by (simp add: fat_geom_def)

lemma chain_start_ok:
  assumes "fat_geom info n" "fat_ok info n s" "valid_cluster n c"
  shows "\<exists>s'. chain_start info c s = Inr (pos_at (ent info s) c, s') \<and> fstep info n s s' \<and> fview info s' = fview info s"
  using fat_at_ok [OF assms(1,2), of c] assms(3) by (auto simp: chain_start_def pos_at_def valid_cluster_def)

lemma next_cluster_ok:
  assumes "fat_geom info n" "fat_ok info n s" "fchain n e (c # d # xs)" "pos_fat p = d"
  shows "\<exists>s'. fat32_next_cluster_sync info p s = Inr (pos_at (ent info s) d, s') \<and> fstep info n s s' \<and> fview info s' = fview info s"
proof -
  have "unat d < n" using assms(3) by (simp add: fchain_def valid_cluster_def)
  from fat_at_ok [OF assms(1,2) this] show ?thesis
    using assms(4) by (auto simp: fat32_next_cluster_sync_def pos_at_def Let_def)
qed

section \<open>Release\<close>

lemma fat_write_entry_ok:
  assumes "fat_geom info n" "fat_ok info n s" "unat c < n"
  shows "\<exists>s'. fat32_fat_write_sync info c val s = Inr (True, s') \<and> fstep info n s s' \<and>
    (\<forall>d. unat d < n \<longrightarrow> ent info s' d = (if d = c then val AND 0x0FFFFFFF else ent info s d)) \<and>
    (\<forall>d. valid_cluster n d \<longrightarrow> dat info s' d = dat info s d) \<and> hint info (fview info s') = hint info (fview info s)"
proof -
  obtain s' where s': "fat32_fat_write_sync info c val s = Inr (True, s')" "fstep info n s s'" "fview info s' = fat_put info c val (fview info s)"
    using fat_put_ok [OF assms] by blast
  have "fview info s' (fsinfo_sector info) = fview info s (fsinfo_sector info)"
    using fat_put_outside [OF assms(1,3)] fsinfo_sector(1) [OF assms(1)] by (simp add: s'(3))
  then show ?thesis using s' fat_put_entry [OF assms(1,3) _ length_fview [OF assms(1,2)]] fat_put_data [OF assms(1,3)]
    by (intro exI [of _ s']) (simp add: hint_def)
qed

lemma release_loop_ok:
  assumes "fat_geom info n" "fat_ok info n s" "fchain n e (c # xs)" "\<And>d. d \<in> set (c # xs) \<Longrightarrow> ent info s d = e d"
  shows "\<exists>p' m' s'. release_loop info (pos_at e c) m s = Some (Inr (p', m', s')) \<and> \<not> HAS_READING_ERROR p' \<and> fstep info n s s' \<and>
    (\<forall>d. unat d < n \<longrightarrow> ent info s' d = (if d \<in> set (c # xs) then 0 else ent info s d)) \<and>
    (\<forall>d. valid_cluster n d \<longrightarrow> dat info s' d = dat info s d) \<and> hint info (fview info s') = hint info (fview info s)"
  using assms(2-)
proof (induction xs arbitrary: c m s)
  case Nil
  note p = pos_at_last [OF fat_geom_n [OF assms(1)] Nil(2)]
  have c: "unat c < n" using Nil(2) by (simp add: fchain_def valid_cluster_def)
  obtain s1 where 1: "fat32_fat_write_sync info c FAT32_EMPTY_CLUSTER s = Inr (True, s1)" "fstep info n s s1"
    "\<forall>d. unat d < n \<longrightarrow> ent info s1 d = (if d = c then FAT32_EMPTY_CLUSTER AND 0x0FFFFFFF else ent info s d)"
    "\<forall>d. valid_cluster n d \<longrightarrow> dat info s1 d = dat info s d" "hint info (fview info s1) = hint info (fview info s)"
    using fat_write_entry_ok [OF assms(1) Nil(1) c] by blast
  have w: "fat32_fat_write_sync info (pos_cluster (pos_at e c)) FAT32_EMPTY_CLUSTER s = Inr (True, s1)" using 1(1) by (simp add: pos_at_def)
  have "release_loop info (pos_at e c) m s = Some (Inr (pos_at e c, if pos_cluster (pos_at e c) < m then pos_cluster (pos_at e c) else m, s1))"
    by (subst release_loop.simps) (simp add: p Let_def w)
  then show ?case using p(1) 1(2-) by (intro exI conjI) (assumption | simp add: FAT32_EMPTY_CLUSTER_def)+
next
  case (Cons d xs)
  note p = pos_at_last [OF fat_geom_n [OF assms(1)] Cons.prems(2)]
  have ch: "fchain n e (d # xs)" "c \<notin> set (d # xs)" using Cons.prems(2) by (auto simp: fchain_def)
  have c: "unat c < n" "unat d < n" using Cons.prems(2) by (simp_all add: fchain_def valid_cluster_def)
  obtain s1 where 1: "fat32_fat_write_sync info c FAT32_EMPTY_CLUSTER s = Inr (True, s1)" "fstep info n s s1"
    "\<forall>d. unat d < n \<longrightarrow> ent info s1 d = (if d = c then FAT32_EMPTY_CLUSTER AND 0x0FFFFFFF else ent info s d)"
    "\<forall>d. valid_cluster n d \<longrightarrow> dat info s1 d = dat info s d" "hint info (fview info s1) = hint info (fview info s)"
    using fat_write_entry_ok [OF assms(1) Cons.prems(1) c(1)] by blast
  have w: "fat32_fat_write_sync info (pos_cluster (pos_at e c)) FAT32_EMPTY_CLUSTER s = Inr (True, s1)" using 1(1) by (simp add: pos_at_def)
  have e1: "ent info s1 x = e x" if "x \<in> set (d # xs)" for x
  proof -
    have "unat x < n" "x \<noteq> c" using that ch by (auto simp: fchain_def valid_cluster_def)
    then show ?thesis using 1(3) Cons.prems(3) that by simp
  qed
  have "pos_fat (pos_at e c) = d" using p(3) by (simp add: pos_at_def)
  from next_cluster_ok [OF assms(1) fstep_ok [OF 1(2)] Cons.prems(2) this] obtain s2 where
    2: "fat32_next_cluster_sync info (pos_at e c) s1 = Inr (pos_at e d, s2)" "fstep info n s1 s2" "fview info s2 = fview info s1"
    using e1 [of d] by (auto simp: pos_at_def)
  obtain p' m' s3 where 3: "release_loop info (pos_at e d) (if pos_cluster (pos_at e c) < m then pos_cluster (pos_at e c) else m) s2 = Some (Inr (p', m', s3))"
    "\<not> HAS_READING_ERROR p'" "fstep info n s2 s3"
    "\<forall>x. unat x < n \<longrightarrow> ent info s3 x = (if x \<in> set (d # xs) then 0 else ent info s2 x)"
    "\<forall>x. valid_cluster n x \<longrightarrow> dat info s3 x = dat info s2 x" "hint info (fview info s3) = hint info (fview info s2)"
    using Cons.IH [OF fstep_ok [OF 2(2)] ch(1), of "if pos_cluster (pos_at e c) < m then pos_cluster (pos_at e c) else m"] e1
    unfolding 2(3) by blast
  have "release_loop info (pos_at e c) m s = Some (Inr (p', m', s3))"
    using 3(1) by (subst release_loop.simps) (simp add: p Let_def w 2(1))
  moreover have "fstep info n s s3" by (rule fstep_trans [OF 1(2) fstep_trans [OF 2(2) 3(3)]])
  ultimately show ?case using 3(2,4-) 1(3-) 2(3)
    by (intro exI [of _ p'] exI [of _ m'] exI [of _ s3]) (auto simp: FAT32_EMPTY_CLUSTER_def)
qed

lemma fat_release_ok:
  assumes "fat_geom info n" "fat_ok info n s" "fchain n (ent info s) xs"
  shows "\<exists>s'. fat32_release_clusters_sync info (hd xs) s = Some (Inr (True, s')) \<and> fstep info n s s' \<and>
    (\<forall>d. unat d < n \<longrightarrow> ent info s' d = (if d \<in> set xs then 0 else ent info s d)) \<and>
    (\<forall>d. valid_cluster n d \<longrightarrow> dat info s' d = dat info s d) \<and> hint info (fview info s') = hint info (fview info s)"
proof -
  obtain c ys where xs: "xs = c # ys" using assms(3) by (cases xs) (auto simp: fchain_def)
  have al: "allowed_req info n s (fsinfo_sector info, 1)" using fsinfo_sector(2) [OF assms(1)] by (simp add: allowed_req_def)
  have "\<exists>m s1. (if fi_fsinfo info \<noteq> 0
      then rbind (fat32_read_fsinfo_sync info (uninit 512 s) s) (\<lambda>(_, fsinfo, s). Inr (get32 fsinfo 492, s))
      else Inr (0xFFFFFFFF, s)) = Inr (m, s1) \<and> fstep info n s s1 \<and> fview info s1 = fview info s"
    using fat_read_ok [OF assms(1,2) al, of "uninit 512 s"] assms(2) by (auto simp: fat32_read_fsinfo_sync_def fsinfo_sector_def)
  then obtain m s1 where 1: "(if fi_fsinfo info \<noteq> 0
      then rbind (fat32_read_fsinfo_sync info (uninit 512 s) s) (\<lambda>(_, fsinfo, s). Inr (get32 fsinfo 492, s))
      else Inr (0xFFFFFFFF, s)) = Inr (m, s1)" "fstep info n s s1" "fview info s1 = fview info s" by blast
  have "valid_cluster n c" using assms(3) by (simp add: fchain_def xs)
  from chain_start_ok [OF assms(1) fstep_ok [OF 1(2)] this] obtain s2 where
    2: "chain_start info c s1 = Inr (pos_at (ent info s) c, s2)" "fstep info n s1 s2" "fview info s2 = fview info s"
    unfolding 1(3) by blast
  from release_loop_ok [OF assms(1) fstep_ok [OF 2(2)], of "ent info s" c ys m] assms(3) obtain p' m' s3 where
    3: "release_loop info (pos_at (ent info s) c) m s2 = Some (Inr (p', m', s3))" "\<not> HAS_READING_ERROR p'" "fstep info n s2 s3"
    "\<forall>x. unat x < n \<longrightarrow> ent info s3 x = (if x \<in> set xs then 0 else ent info s2 x)"
    "\<forall>x. valid_cluster n x \<longrightarrow> dat info s3 x = dat info s2 x" "hint info (fview info s3) = hint info (fview info s2)"
    unfolding 2(3) xs by blast
  have "fat32_release_clusters_sync info (hd xs) s = Some (Inr (True, s3))"
    unfolding fat32_release_clusters_sync_def 1(1) lbind_simps prod.case xs list.sel 2(1) 3(1) using 3(2) by simp
  then show ?thesis using 3(4-) 2(3) fstep_trans [OF 1(2) fstep_trans [OF 2(2) 3(3)]] by (intro exI [of _ s3]) simp
qed

end
