(* ===== verification/Fat_Files.thy ===== *)
theory Fat_Files
  imports Fat_Alloc
begin

text \<open>
  Reading and writing files.  The content of a file is the concatenation of the clusters of its
  chain; \<^verbatim>\<open>fat32_read_file\<close> copies a part of it, \<^verbatim>\<open>fat32_write_file_sync\<close> patches it, extending the
  chain as needed, and touches no other cluster but that of the directory entry.
\<close>

unbundle bit_operations_syntax

section \<open>Patching byte lists\<close>

definition patch :: "bytes \<Rightarrow> nat \<Rightarrow> bytes \<Rightarrow> bytes" where
  "patch b off d = take off b @ d @ drop (off + length d) b"

lemma length_patch [simp]: "off + length d \<le> length b \<Longrightarrow> length (patch b off d) = length b"
  by (simp add: patch_def)

lemma patch_Nil [simp]: "patch b off [] = b"
  by (simp add: patch_def)

lemma patch_all: "length d = length b \<Longrightarrow> patch b 0 d = d"
  by (simp add: patch_def)

lemma patch_patch:
  assumes "off + length d + length d' \<le> length b"
  shows "patch (patch b off d) (off + length d) d' = patch b off (d @ d')"
  using assms by (simp add: patch_def ac_simps)

lemma patch_append_left: "off + length d \<le> length a \<Longrightarrow> patch (a @ b) off d = patch a off d @ b"
  by (simp add: patch_def)

lemma patch_append_right: "length a \<le> off \<Longrightarrow> patch (a @ b) off d = a @ patch b (off - length a) d"
  by (simp add: patch_def)

lemma patch_append_split:
  assumes "off \<le> length a" "length a \<le> off + length d"
  shows "patch (a @ b) off d = patch a off (take (length a - off) d) @ patch b 0 (drop (length a - off) d)"
proof -
  have "length a - (off + length (take (length a - off) d)) = 0" "drop (off + length (take (length a - off) d)) a = []"
    using assms by simp_all
  moreover have "off + length d - length a = length (drop (length a - off) d)" using assms by simp
  moreover have "take (length a - off) d @ drop (length a - off) d = d" by (rule append_take_drop_id)
  ultimately show ?thesis using assms by (simp add: patch_def)
qed

lemma buf_copy_patch:
  "soff + n \<le> length src \<Longrightarrow> doff + n \<le> length dst \<Longrightarrow> buf_copy dst doff src soff n = Inr (patch dst doff (take n (drop soff src)))"
  by (simp add: buf_copy_ok patch_def)

section \<open>Clusters\<close>

abbreviation csize :: "fat32_info_t \<Rightarrow> nat" where
  "csize info \<equiv> spc info * 512"

lemma unat_cluster_size: "unat (fat32_cluster_size info) = csize info"
  using spc_less [of info] by (simp add: fat32_cluster_size_def unat_word_ariths)

lemma unat_cluster_size_512: "unat (fat32_cluster_size info * 512) = csize info * 512"
proof -
  have "spc info * 512 * 512 < 2 ^ 32" using spc_less [of info] by simp
  then show ?thesis using unat_cluster_size [of info] by (simp add: unat_word_ariths)
qed

lemma csize_pos: "fat_geom info n \<Longrightarrow> 0 < csize info"
  by (simp add: fat_geom_def)

lemma length_dat: "fat_geom info n \<Longrightarrow> fat_ok info n s \<Longrightarrow> length (dat info s c) = csize info"
  unfolding cluster_data_def by (rule length_sectors) (rule length_fview)

definition cluster_cached :: "fat32_info_t \<Rightarrow> fat_state \<Rightarrow> u32 \<Rightarrow> bool" where
  "cluster_cached info s c \<longleftrightarrow> (cluster_start info c, ucast (fi_spc info)) \<in> set (cached info s)"

lemma fstep_cached: "fstep info n s s' \<Longrightarrow> cluster_cached info s c \<Longrightarrow> cluster_cached info s' c"
  by (auto simp: fstep_def cluster_cached_def)

lemma cluster_aligned: "valid_cluster n c \<Longrightarrow> aligned_req info n (cluster_start info c, ucast (fi_spc info))"
  by (auto simp: aligned_req_def)

lemma read_cluster_ok:
  assumes "fat_geom info n" "fat_ok info n s" "valid_cluster n c" "csize info \<le> length buf"
  shows "\<exists>s'. fat32_read_cluster_sync info c buf s = Inr (True, dat info s c @ drop (csize info) buf, s') \<and>
    fstep info n s s' \<and> fview info s' = fview info s \<and> cluster_cached info s' c"
proof -
  have "allowed_req info n s (cluster_start info c, ucast (fi_spc info))"
    using cluster_aligned [OF assms(3)] by (simp add: allowed_req_def)
  from fat_read_long [OF assms(1,2) this, of buf] assms(4) cluster_aligned [OF assms(3)] show ?thesis
    by (auto simp: fat32_read_cluster_sync_def cluster_data_def cluster_cached_def)
qed

lemma write_cluster_ok:
  assumes "fat_geom info n" "fat_ok info n s" "valid_cluster n c" "csize info \<le> length buf"
  shows "\<exists>s'. fat32_write_cluster_sync info c buf s = Inr (True, s') \<and> fstep info n s s' \<and>
    (\<forall>d. unat d < n \<longrightarrow> ent info s' d = ent info s d) \<and>
    (\<forall>d. valid_cluster n d \<longrightarrow> dat info s' d = (if d = c then take (csize info) buf else dat info s d)) \<and>
    hint info (fview info s') = hint info (fview info s) \<and> cluster_cached info s' c"
proof -
  let ?a = "cluster_start info c" and ?k = "ucast (fi_spc info) :: u32"
  have al: "aligned_req info n (?a, ?k)" by (rule cluster_aligned [OF assms(3)])
  then have "allowed_req info n s (?a, ?k)" by (simp add: allowed_req_def)
  from fat_write_ok [OF assms(1,2) this, of buf] assms(4) al obtain s' where
    1: "fat_disk_write info ?a ?k buf s = Inr (True, s')" "fstep info n s s'"
    "fview info s' = put_sectors ?a (spc info) buf (fview info s)" "cluster_cached info s' c"
    by (auto simp: cluster_cached_def)
  have fits: "unat ?a + spc info < 2 ^ 32" using aligned_fits(1) [OF assms(1) al] by simp
  have out: "fview info s' x = fview info s x" if "\<not> in_range ?a ?k x" for x
    using that by (auto simp: 1(3) put_sectors_range [OF fits] in_range_def)
  have low: "fview info s' x = fview info s x" if "unat x < unat (fi_data info)" for x
    by (rule out) (use in_cluster_in_data [OF assms(1,3), of x] that in \<open>fastforce simp: in_data_def\<close>)
  have gm: "unat (fi_fat info) + unat (fi_fat_size info) \<le> unat (fi_data info)"
    using assms(1) by (auto simp: fat_geom_def split: if_splits)
  have "ent info s' d = ent info s d" if "unat d < n" for d
    using low [of "fi_fat info + d div 128"] fat_sector(1,2) [OF assms(1) that] gm by (simp add: fat_entry_def)
  moreover have "dat info s' d = dat info s d" if "valid_cluster n d" "d \<noteq> c" for d
    by (rule cluster_data_cong [OF assms(1) that(1)], rule out)
       (use cluster_ranges [OF assms(1,3) that(1)] that(2) in blast)
  moreover have "dat info s' c = take (csize info) buf"
    unfolding cluster_data_def
  proof (rule sectors_slots)
    show "length (take (csize info) buf) = spc info * 512" using assms(4) by simp
    fix i assume i: "i < spc info"
    have "unat (?a + of_nat i) = unat ?a + i" by (rule unat_plus_nat) (use i fits in simp)
    moreover have "i * 512 + 512 \<le> csize info" using i by simp
    ultimately show "fview info s' (?a + of_nat i) = slot 512 (take (csize info) buf) i"
      using i by (simp add: 1(3) put_sectors_range [OF fits] slot_take)
  qed
  moreover have "fview info s' (fsinfo_sector info) = fview info s (fsinfo_sector info)"
    using low fsinfo_sector(1) [OF assms(1)] gm by simp
  then have "hint info (fview info s') = hint info (fview info s)" by (simp add: hint_def)
  ultimately show ?thesis using 1(1,2,4) by (intro exI [of _ s']) (simp add: fat32_write_cluster_sync_def)
qed

section \<open>Content of a chain\<close>

definition content :: "fat32_info_t \<Rightarrow> fat_state \<Rightarrow> u32 list \<Rightarrow> bytes" where
  "content info s xs = concat (map (dat info s) xs)"

lemma content_simps [simp]: "content info s [] = []" "content info s (c # xs) = dat info s c @ content info s xs"
  by (simp_all add: content_def)

lemma content_append: "content info s (xs @ ys) = content info s xs @ content info s ys"
  by (simp add: content_def)

lemma length_content: "fat_geom info n \<Longrightarrow> fat_ok info n s \<Longrightarrow> length (content info s xs) = length xs * csize info"
  by (induction xs) (simp_all add: length_dat)

lemma content_cong: "(\<And>c. c \<in> set xs \<Longrightarrow> dat info s c = dat info s' c) \<Longrightarrow> content info s xs = content info s' xs"
  by (induction xs) auto

lemma content_drop:
  assumes "fat_geom info n" "fat_ok info n s"
  shows "content info s (drop i xs) = drop (i * csize info) (content info s xs)"
proof (induction xs arbitrary: i)
  case (Cons c xs)
  then show ?case using length_dat [OF assms, of c] by (cases i) simp_all
qed simp

lemma flinks_drop: "flinks e xs \<Longrightarrow> i < length xs \<Longrightarrow> flinks e (drop i xs)"
proof (induction e xs arbitrary: i rule: flinks.induct)
  case (3 e c d xs)
  then show ?case by (cases i) auto
qed auto

lemma fchain_drop: "fchain n e xs \<Longrightarrow> i < length xs \<Longrightarrow> fchain n e (drop i xs)"
  by (auto simp: fchain_def flinks_drop dest: in_set_dropD)

section \<open>Reading\<close>

lemma read_skip_ok:
  assumes "fat_geom info n" "fat_ok info n s" "fchain n (ent info s) (c # xs)"
  shows "\<exists>s'. read_skip info start (pos_at (ent info s) c) s =
      Some (Inr (if unat start div csize info \<le> length xs
        then Some (pos_at (ent info s) ((c # xs) ! (unat start div csize info)), of_nat (unat start mod csize info)) else None, s')) \<and>
    fstep info n s s' \<and> fview info s' = fview info s"
  using assms(2,3)
proof (induction xs arbitrary: c start s)
  case Nil
  note p = pos_at_last [OF fat_geom_n [OF assms(1)] Nil(2)]
  show ?case
  proof (cases "fat32_cluster_size info \<le> start")
    case True
    then have "csize info \<le> unat start" by (simp add: word_le_nat_alt unat_cluster_size)
    then have "\<not> unat start div csize info \<le> 0" using csize_pos [OF assms(1)] by (simp add: div_greater_zero_iff)
    then show ?thesis using True p Nil(1) by (subst read_skip.simps) auto
  next
    case False
    then have "unat start < csize info" by (simp add: word_le_nat_alt unat_cluster_size not_le)
    then show ?thesis using False Nil(1) by (subst read_skip.simps) auto
  qed
next
  case (Cons d xs)
  note p = pos_at_last [OF fat_geom_n [OF assms(1)] Cons.prems(2)]
  show ?case
  proof (cases "fat32_cluster_size info \<le> start")
    case True
    then have le: "csize info \<le> unat start" by (simp add: word_le_nat_alt unat_cluster_size)
    have u: "unat (start - fat32_cluster_size info) = unat start - csize info"
      using le unat_cluster_size [of info] by (simp add: unat_minus_le)
    have dv: "unat start div csize info = Suc ((unat start - csize info) div csize info)" "unat start mod csize info = (unat start - csize info) mod csize info"
      using le csize_pos [OF assms(1)] by (simp_all add: le_div_geq le_mod_geq)
    have "pos_fat (pos_at (ent info s) c) = d" using p(3) by (simp add: pos_at_def)
    from next_cluster_ok [OF assms(1) Cons.prems this] obtain s1 where
      1: "fat32_next_cluster_sync info (pos_at (ent info s) c) s = Inr (pos_at (ent info s) d, s1)" "fstep info n s s1" "fview info s1 = fview info s"
      by blast
    from Cons.IH [OF fstep_ok [OF 1(2)], of d "start - fat32_cluster_size info"] fchain_tl [OF Cons.prems(2)]
    obtain s2 where 2: "read_skip info (start - fat32_cluster_size info) (pos_at (ent info s) d) s1 =
        Some (Inr (if (unat start - csize info) div csize info \<le> length xs
          then Some (pos_at (ent info s) ((d # xs) ! ((unat start - csize info) div csize info)), of_nat ((unat start - csize info) mod csize info)) else None, s2))"
      "fstep info n s1 s2" "fview info s2 = fview info s1"
      unfolding 1(3) u by blast
    have "read_skip info start (pos_at (ent info s) c) s = read_skip info (start - fat32_cluster_size info) (pos_at (ent info s) d) s1"
      by (subst read_skip.simps) (use True p 1(1) in simp)
    then show ?thesis using 2 1(3) fstep_trans [OF 1(2) 2(2)] by (intro exI [of _ s2]) (simp add: dv)
  next
    case False
    then have "unat start < csize info" by (simp add: word_le_nat_alt unat_cluster_size not_le)
    then show ?thesis using False Cons.prems(1) by (subst read_skip.simps) auto
  qed
qed

text \<open>One round of the loop copies what the cluster at the position has from the start position on.\<close>

lemma read_loop_round:
  assumes "fat_geom info n" "fat_ok info n s" "fchain n (ent info s) (c # xs)"
    "unat st < csize info" "length temp = csize info" "unat bi + unat k \<le> length buf" "unat bi + unat k < 2 ^ 32"
    "m = min (csize info - unat st) (unat k)" "buf' = patch buf (unat bi) (take m (drop (unat st) (dat info s c)))"
  shows "\<exists>s'. read_loop info st bi k (pos_at (ent info s) c) temp buf s =
      (if unat k \<le> m \<or> xs = [] then Some (Inr (Some (pos_at (ent info s) c), buf', s'))
       else lbind (Some (fat32_next_cluster_sync info (pos_at (ent info s) c) s')) (\<lambda>(position, s).
            read_loop info 0 (bi + of_nat m) (k - of_nat m) position (dat info s' c) buf' s)) \<and>
    fstep info n s s' \<and> fview info s' = fview info s"
proof -
  note p = pos_at_last [OF fat_geom_n [OF assms(1)] assms(3)]
  have v: "valid_cluster n c" using assms(3) by (simp add: fchain_def)
  obtain s' where 1: "fat32_read_cluster_sync info c temp s = Inr (True, dat info s c, s')" "fstep info n s s'" "fview info s' = fview info s"
    using read_cluster_ok [OF assms(1,2) v, of temp] assms(5) by auto
  have l: "length (dat info s c) = csize info" by (rule length_dat [OF assms(1,2)])
  have st: "unat (fat32_cluster_size info - st) = csize info - unat st"
    using assms(4) unat_cluster_size [of info] by (simp add: unat_minus_le)
  have m: "min (fat32_cluster_size info - st) k = of_nat m" "unat (of_nat m :: u32) = m"
  proof -
    have "unat (min (fat32_cluster_size info - st) k) = m"
      by (simp add: min_def word_le_nat_alt st assms(8))
    moreover have "of_nat (unat (min (fat32_cluster_size info - st) k)) = min (fat32_cluster_size info - st) k" by simp
    ultimately show "min (fat32_cluster_size info - st) k = of_nat m" by simp
    then show "unat (of_nat m :: u32) = m" using \<open>unat (min (fat32_cluster_size info - st) k) = m\<close> by simp
  qed
  have "buf_copy buf (unat bi) (dat info s c) (unat st) m = Inr buf'"
    unfolding assms(9) by (rule buf_copy_patch) (use assms(4,6,8) l in auto)
  moreover have "k - of_nat m = 0 \<longleftrightarrow> unat k \<le> m"
  proof -
    have "k - of_nat m = 0 \<longleftrightarrow> unat k = unat (of_nat m :: u32)" by (simp add: word_unat_eq_iff [symmetric])
    then show ?thesis using m(2) assms(8) by auto
  qed
  ultimately show ?thesis
    by (intro exI [of _ s'], subst read_loop.simps) (use 1 p m in \<open>simp add: pos_at_def [of _ c, THEN arg_cong [of _ _ pos_cluster]] Let_def\<close>)
qed

lemma read_loop_ok:
  assumes "fat_geom info n" "fat_ok info n s" "fchain n (ent info s) (c # xs)"
    "unat st < csize info" "length temp = csize info" "unat bi + unat k \<le> length buf" "unat bi + unat k < 2 ^ 32"
  shows "\<exists>p' s'. read_loop info st bi k (pos_at (ent info s) c) temp buf s =
      Some (Inr (Some p', patch buf (unat bi) (take (unat k) (drop (unat st) (content info s (c # xs)))), s')) \<and>
    \<not> HAS_READING_ERROR p' \<and> fstep info n s s' \<and> fview info s' = fview info s"
  using assms(2-)
proof (induction xs arbitrary: c st temp bi k buf s)
  case Nil
  note p = pos_at_last [OF fat_geom_n [OF assms(1)] Nil(2)]
  let ?m = "min (csize info - unat st) (unat k)"
  have l: "length (dat info s c) = csize info" by (rule length_dat [OF assms(1) Nil(1)])
  have "take ?m (drop (unat st) (dat info s c)) = take (unat k) (drop (unat st) (dat info s c))"
    using l by (simp add: min_def)
  then show ?case using read_loop_round [OF assms(1) Nil refl refl] p(1) by auto
next
  case (Cons d xs)
  note p = pos_at_last [OF fat_geom_n [OF assms(1)] Cons.prems(2)]
  let ?m = "min (csize info - unat st) (unat k)"
  let ?c = "content info s (d # xs)"
  have l: "length (dat info s c) = csize info" by (rule length_dat [OF assms(1) Cons.prems(1)])
  define buf' where "buf' = patch buf (unat bi) (take ?m (drop (unat st) (dat info s c)))"
  obtain s1 where 1: "read_loop info st bi k (pos_at (ent info s) c) temp buf s =
      (if unat k \<le> ?m then Some (Inr (Some (pos_at (ent info s) c), buf', s1))
       else lbind (Some (fat32_next_cluster_sync info (pos_at (ent info s) c) s1)) (\<lambda>(position, s).
            read_loop info 0 (bi + of_nat ?m) (k - of_nat ?m) position (dat info s1 c) buf' s))"
    "fstep info n s s1" "fview info s1 = fview info s"
    using read_loop_round [OF assms(1) Cons.prems refl buf'_def] by auto
  show ?case
  proof (cases "unat k \<le> ?m")
    case True
    then have m: "?m = unat k" "unat k + unat st \<le> csize info" using Cons.prems(3) by auto
    have "take ?m (drop (unat st) (dat info s c)) = take (unat k) (drop (unat st) (content info s (c # d # xs)))"
      unfolding m(1) using l m(2) by simp
    then have "buf' = patch buf (unat bi) (take (unat k) (drop (unat st) (content info s (c # d # xs))))" by (simp only: buf'_def)
    then show ?thesis using 1 True p(1) by (intro exI [of _ "pos_at (ent info s) c"] exI [of _ s1]) simp
  next
    case False
    then have m: "?m = csize info - unat st" "csize info - unat st < unat k" by auto
    have "pos_fat (pos_at (ent info s) c) = d" using p(3) by (simp add: pos_at_def)
    from next_cluster_ok [OF assms(1) fstep_ok [OF 1(2)] Cons.prems(2) this] obtain s2 where
      2: "fat32_next_cluster_sync info (pos_at (ent info s) c) s1 = Inr (pos_at (ent info s) d, s2)" "fstep info n s1 s2" "fview info s2 = fview info s"
      unfolding 1(3) by blast
    have "?m < 2 ^ 32" using False unat_less_2p32 [of k] by linarith
    then have um: "unat (of_nat ?m :: u32) = ?m" by (rule unat_of_nat_32)
    have u: "unat (k - of_nat ?m) = unat k - ?m" "unat (bi + of_nat ?m) = unat bi + ?m"
    proof -
      show "unat (k - of_nat ?m) = unat k - ?m" using um by (subst unat_minus_le) auto
      show "unat (bi + of_nat ?m) = unat bi + ?m" using um Cons.prems(6) by (subst unat_plus_less) auto
    qed
    have lm: "length (take ?m (drop (unat st) (dat info s c))) = ?m" using l by simp
    have lb: "length buf' = length buf" unfolding buf'_def by (rule length_patch) (use lm Cons.prems(5) in simp)
    have "\<exists>p' s'. read_loop info 0 (bi + of_nat ?m) (k - of_nat ?m) (pos_at (ent info s2) d) (dat info s1 c) buf' s2 =
      Some (Inr (Some p', patch buf' (unat (bi + of_nat ?m)) (take (unat (k - of_nat ?m)) (drop (unat (0::u32)) (content info s2 (d # xs)))), s')) \<and>
      \<not> HAS_READING_ERROR p' \<and> fstep info n s2 s' \<and> fview info s' = fview info s2"
    proof (rule Cons.IH [OF fstep_ok [OF 2(2)]])
      show "fchain n (ent info s2) (d # xs)" using fchain_tl [OF Cons.prems(2)] by (simp add: 2(3))
      show "length (dat info s1 c) = csize info" by (rule length_dat [OF assms(1) fstep_ok [OF 1(2)]])
    qed (use u lb Cons.prems(5,6) m csize_pos [OF assms(1)] in auto)
    then obtain p' s3 where 3: "read_loop info 0 (bi + of_nat ?m) (k - of_nat ?m) (pos_at (ent info s) d) (dat info s1 c) buf' s2 =
      Some (Inr (Some p', patch buf' (unat bi + ?m) (take (unat k - ?m) (content info s2 (d # xs))), s3))"
      "\<not> HAS_READING_ERROR p'" "fstep info n s2 s3" "fview info s3 = fview info s"
      unfolding u 2(3) by auto
    have c2: "content info s2 (d # xs) = ?c" by (rule content_cong) (simp add: 2(3))
    have tk: "take ?m (drop (unat st) (dat info s c)) @ take (unat k - ?m) ?c = take (unat k) (drop (unat st) (content info s (c # d # xs)))"
      using l m Cons.prems(3) by simp
    have "length (take (unat k - ?m) ?c) \<le> unat k - ?m" by (simp only: length_take min.cobounded2)
    then have "unat bi + length (take ?m (drop (unat st) (dat info s c))) + length (take (unat k - ?m) ?c) \<le> length buf"
      unfolding lm using Cons.prems(5) m(2) by (simp only: m(1))
    from patch_patch [OF this]
    have "patch buf' (unat bi + ?m) (take (unat k - ?m) ?c) = patch buf (unat bi) (take (unat k) (drop (unat st) (content info s (c # d # xs))))"
      unfolding buf'_def tk [symmetric] lm .
    note 3(1) [unfolded c2 this]
    then show ?thesis using 1(1) False 2(1) 3(2-) fstep_trans [OF 1(2) fstep_trans [OF 2(2) 3(3)]]
      by (intro exI [of _ p'] exI [of _ s3]) (simp del: content_simps take_append drop_append)
  qed
qed

text \<open>
  Reading copies what the chain holds from the start position on, at most as much as the buffer or
  the file's size allows; a start position beyond the chain is refused.
\<close>

lemma fat_read_file_ok:
  assumes "fat_geom info n" "fat_ok info n s" "fchain n (ent info s) xs" "ff_cluster f = hd xs"
    "k = min (unat bs) (unat (ff_size f))" "k \<le> length buf"
  shows "\<exists>s'. fat32_read_file info f start buf bs s =
      Some (Inr (if unat start < length xs * csize info then (True, patch buf 0 (take k (drop (unat start) (content info s xs))), s')
        else (False, buf, s'))) \<and>
    fstep info n s s' \<and> fview info s' = fview info s"
proof -
  obtain c ys where xs: "xs = c # ys" using assms(3) by (cases xs) (auto simp: fchain_def)
  have "valid_cluster n c" using assms(3) by (simp add: fchain_def xs)
  from chain_start_ok [OF assms(1,2) this] obtain s1 where
    1: "chain_start info (ff_cluster f) s = Inr (pos_at (ent info s) c, s1)" "fstep info n s s1" "fview info s1 = fview info s"
    using assms(4) xs by auto
  let ?q = "unat start div csize info" and ?r = "unat start mod csize info"
  have cs: "0 < csize info" by (rule csize_pos [OF assms(1)])
  have r: "?r < csize info" "unat (of_nat ?r :: u32) = ?r"
  proof -
    show "?r < csize info" using cs by simp
    have "?r < 2 ^ 32" using unat_less_2p32 [of start] by (rule le_less_trans [OF mod_less_eq_dividend])
    then show "unat (of_nat ?r :: u32) = ?r" by (rule unat_of_nat_32)
  qed
  have in_chain: "?q \<le> length ys \<longleftrightarrow> unat start < length xs * csize info"
    using div_less_iff_less_mult [OF cs, of "unat start" "length xs"] by (simp add: xs less_Suc_eq_le)
  have "fchain n (ent info s1) (c # ys)" using assms(3) 1(3) xs by simp
  from read_skip_ok [OF assms(1) fstep_ok [OF 1(2)] this, of start] obtain s2 where
    2: "read_skip info start (pos_at (ent info s) c) s1 =
      Some (Inr (if unat start < length xs * csize info then Some (pos_at (ent info s) (xs ! ?q), of_nat ?r) else None, s2))"
    "fstep info n s1 s2" "fview info s2 = fview info s"
    unfolding 1(3) in_chain xs [symmetric] by blast
  have 12: "fstep info n s s2" by (rule fstep_trans [OF 1(2) 2(2)])
  show ?thesis
  proof (cases "unat start < length xs * csize info")
    case False
    then show ?thesis using 1(1) 2(1,3) 12 by (intro exI [of _ s2]) (simp add: fat32_read_file_def)
  next
    case True
    then have q: "?q < length xs" using in_chain xs by simp
    have "fchain n (ent info s2) (drop ?q xs)" using fchain_drop [OF assms(3) q] 2(3) by simp
    moreover have d: "drop ?q xs = xs ! ?q # drop (Suc ?q) xs" using q by (simp add: Cons_nth_drop_Suc)
    moreover have k: "unat (min bs (ff_size f)) = k" using assms(5) by (simp add: min_def word_le_nat_alt)
    ultimately have "\<exists>p' s'. read_loop info (of_nat ?r) 0 (min bs (ff_size f)) (pos_at (ent info s2) (xs ! ?q)) (uninit (csize info) s2) buf s2 =
      Some (Inr (Some p', patch buf (unat (0::u32)) (take (unat (min bs (ff_size f))) (drop (unat (of_nat ?r :: u32)) (content info s2 (xs ! ?q # drop (Suc ?q) xs)))), s')) \<and>
      \<not> HAS_READING_ERROR p' \<and> fstep info n s2 s' \<and> fview info s' = fview info s2"
      by (intro read_loop_ok [OF assms(1) fstep_ok [OF 12]]) (use r assms(6) unat_less_2p32 [of "min bs (ff_size f)"] in auto)
    then obtain p' s3 where 3: "read_loop info (of_nat ?r) 0 (min bs (ff_size f)) (pos_at (ent info s) (xs ! ?q)) (uninit (csize info) s2) buf s2 =
      Some (Inr (Some p', patch buf 0 (take k (drop ?r (content info s2 (drop ?q xs)))), s3))"
      "\<not> HAS_READING_ERROR p'" "fstep info n s2 s3" "fview info s3 = fview info s"
      unfolding d [symmetric] k r(2) 2(3) by auto
    have "content info s2 (drop ?q xs) = content info s (drop ?q xs)" by (rule content_cong) (simp add: 2(3))
    then have "drop ?r (content info s2 (drop ?q xs)) = drop (unat start) (content info s xs)"
      by (simp only: content_drop [OF assms(1,2)] drop_drop mod_div_mult_eq)
    then show ?thesis using 1(1) 2(1) 3 True fstep_trans [OF 12 3(3)]
      by (intro exI [of _ s3]) (simp add: fat32_read_file_def unat_cluster_size)
  qed
qed

end
