(* ===== verification/Fat_Write.thy ===== *)
theory Fat_Write
  imports Fat_Files
begin

text \<open>
  \<^verbatim>\<open>fat32_write_file_sync\<close> and \<^verbatim>\<open>fat32_erase_file_sync\<close>: the chain of the file is extended by free
  clusters as far as the write needs, its content is patched, the directory entry is rewritten,
  and no other cluster and no other entry of the table changes.
\<close>

unbundle bit_operations_syntax

section \<open>Extending a chain\<close>

definition hint_ok :: "fat32_info_t \<Rightarrow> fat_state \<Rightarrow> bool" where
  "hint_ok info s \<longleftrightarrow> 2 \<le> unat (hint info (fview info s))"

definition extends :: "fat32_info_t \<Rightarrow> nat \<Rightarrow> fat_state \<Rightarrow> u32 list \<Rightarrow> fat_state \<Rightarrow> u32 list \<Rightarrow> bool" where
  "extends info n s xs s' xs' \<longleftrightarrow> fstep info n s s' \<and> fchain n (ent info s') xs' \<and> hint_ok info s' \<and>
     (\<exists>new. xs' = xs @ new \<and> set new \<subseteq> free_set info n s \<and> free_set info n s' = free_set info n s - set new) \<and>
     (\<forall>d. unat d < n \<longrightarrow> d \<notin> set xs' \<longrightarrow> ent info s' d = ent info s d)"

definition data_kept :: "fat32_info_t \<Rightarrow> nat \<Rightarrow> fat_state \<Rightarrow> fat_state \<Rightarrow> bool" where
  "data_kept info n s s' \<longleftrightarrow> (\<forall>d. valid_cluster n d \<longrightarrow> dat info s' d = dat info s d)"

lemma extends_refl: "fat_ok info n s \<Longrightarrow> fchain n (ent info s) xs \<Longrightarrow> hint_ok info s \<Longrightarrow> extends info n s xs s xs"
  by (simp add: extends_def)

lemma extends_view:
  "fstep info n s s' \<Longrightarrow> fview info s' = fview info s \<Longrightarrow> fchain n (ent info s) xs \<Longrightarrow> hint_ok info s \<Longrightarrow> extends info n s xs s' xs"
  by (simp add: extends_def hint_ok_def free_set_def)

lemma extends_trans:
  assumes "extends info n s xs s1 xs1" "extends info n s1 xs1 s2 xs2"
  shows "extends info n s xs s2 xs2"
proof -
  obtain new1 where 1: "xs1 = xs @ new1" "set new1 \<subseteq> free_set info n s" "free_set info n s1 = free_set info n s - set new1"
    using assms(1) by (auto simp: extends_def)
  obtain new2 where 2: "xs2 = xs1 @ new2" "set new2 \<subseteq> free_set info n s1" "free_set info n s2 = free_set info n s1 - set new2"
    using assms(2) by (auto simp: extends_def)
  have "xs2 = xs @ (new1 @ new2)" "set (new1 @ new2) \<subseteq> free_set info n s" "free_set info n s2 = free_set info n s - set (new1 @ new2)"
    using 1 2 by auto
  moreover have "fstep info n s s2" using assms fstep_trans by (auto simp: extends_def)
  moreover have "ent info s2 d = ent info s d" if "unat d < n" "d \<notin> set xs2" for d
    using assms that 2(1) by (auto simp: extends_def)
  ultimately show ?thesis using assms(2) unfolding extends_def by blast
qed

lemma extends_ok: "extends info n s xs s' xs' \<Longrightarrow> fat_ok info n s'"
  by (auto simp: extends_def fstep_def)

lemma extends_chain: "extends info n s xs s' xs' \<Longrightarrow> fchain n (ent info s') xs'"
  by (simp add: extends_def)

lemma extends_card:
  assumes "extends info n s xs s' xs'"
  shows "length xs' + card (free_set info n s') = length xs + card (free_set info n s)"
proof -
  obtain new where new: "xs' = xs @ new" "set new \<subseteq> free_set info n s" "free_set info n s' = free_set info n s - set new"
    using assms by (auto simp: extends_def)
  have "distinct new" using assms by (auto simp: extends_def fchain_def new(1))
  then have "card (set new) = length new" by (rule distinct_card)
  moreover have "card (set new) \<le> card (free_set info n s)" by (rule card_mono [OF _ new(2)]) simp
  ultimately show ?thesis using new by (simp add: card_Diff_subset)
qed

lemma data_kept_refl [simp]: "data_kept info n s s"
  by (simp add: data_kept_def)

lemma data_kept_trans: "data_kept info n s s1 \<Longrightarrow> data_kept info n s1 s2 \<Longrightarrow> data_kept info n s s2"
  by (simp add: data_kept_def)

lemma data_kept_view: "fview info s' = fview info s \<Longrightarrow> data_kept info n s s'"
  by (simp add: data_kept_def)

text \<open>A position on a chain between \<open>pre @ [c]\<close> and \<open>post\<close>.\<close>

definition on_chain :: "fat32_position_t \<Rightarrow> u32 \<Rightarrow> u32 list \<Rightarrow> bool" where
  "on_chain p c post \<longleftrightarrow> pos_cluster p = c \<and> (if post = [] then FAT32_BAD_CLUSTER < pos_fat p else pos_fat p = hd post)"

lemma flinks_mid: "flinks e (pre @ c # post) \<Longrightarrow> (if post = [] then FAT32_BAD_CLUSTER < e c else e c = hd post)"
proof (induction e pre rule: flinks.induct)
  case (1 e)
  then show ?case by (cases post) auto
next
  case (2 e d)
  then show ?case by (cases post) auto
qed auto

lemma on_chain_pos_at: "fchain n e (pre @ c # post) \<Longrightarrow> on_chain (pos_at e c) c post"
  using flinks_mid [of e pre c post] by (simp add: on_chain_def pos_at_def fchain_def)

lemma on_chain_tests:
  assumes "fat_geom info n" "fchain n e (pre @ c # post)" "on_chain p c post"
  shows "\<not> HAS_READING_ERROR p" "IS_LAST_CLUSTER p \<longleftrightarrow> post = []"
proof -
  have n: "n \<le> 0x0FFFFFF7" by (rule fat_geom_n [OF assms(1)])
  have "\<not> HAS_READING_ERROR p \<and> (IS_LAST_CLUSTER p \<longleftrightarrow> post = [])"
  proof (cases post)
    case Nil
    then show ?thesis using assms(3)
      by (auto simp: on_chain_def HAS_READING_ERROR_def IS_LAST_CLUSTER_def FAT32_BAD_CLUSTER_def FAT32_EMPTY_CLUSTER_def)
  next
    case (Cons d ys)
    then have "pos_fat p = d" "2 \<le> unat d" "unat d < 0x0FFFFFF7" using assms n by (auto simp: on_chain_def fchain_def valid_cluster_def)
    then show ?thesis using Cons
      by (auto simp: HAS_READING_ERROR_def IS_LAST_CLUSTER_def FAT32_BAD_CLUSTER_def FAT32_EMPTY_CLUSTER_def word_less_nat_alt)
  qed
  then show "\<not> HAS_READING_ERROR p" "IS_LAST_CLUSTER p \<longleftrightarrow> post = []" by blast+
qed

text \<open>Taking a cluster at the end of a chain, or as the first one of an empty chain.\<close>

lemma take_extends:
  assumes "fat_geom info n" "fat_ok info n s" "hint_ok info s" "2 \<le> card (free_set info n s)"
    "xs = [] \<and> prev = 0 \<or> fchain n (ent info s) xs \<and> prev = last xs"
  shows "\<exists>t s'. fat32_take_new_cluster_sync info prev s = Some (Inr (t, s')) \<and>
    extends info n s xs s' (xs @ [t]) \<and> data_kept info n s s' \<and> t \<in> free_set info n s"
proof -
  obtain t u where tu: "two_free info n s t u" "t \<in> free_set info n s"
    using two_free_exists assms(3,4) unfolding hint_ok_def by blast
  have t: "unat t < n" "ent info s t = 0" "2 \<le> unat t"
    using tu(2) assms(3) by (auto simp: free_set_def hint_ok_def)
  have tx: "t \<notin> set xs"
  proof
    assume tin: "t \<in> set xs"
    then have "fchain n (ent info s) xs" using assms(5) by auto
    moreover obtain pre post where "xs = pre @ t # post" using tin by (meson split_list)
    ultimately have "on_chain (pos_at (ent info s) t) t post" "fchain n (ent info s) (pre @ t # post)" using on_chain_pos_at by auto
    from on_chain_tests(1) [OF assms(1) this(2,1)] show False using t(2)
      by (simp add: HAS_READING_ERROR_def pos_at_def FAT32_EMPTY_CLUSTER_def)
  qed
  have prev: "prev = 0 \<or> unat prev < n \<and> prev \<noteq> t" "prev = 0 \<or> unat prev < n \<and> ent info s prev \<noteq> 0"
    and last_val: "xs \<noteq> [] \<Longrightarrow> prev \<noteq> 0 \<and> prev = last xs"
  proof -
    have "prev \<in> set xs \<and> unat prev < n \<and> ent info s prev \<noteq> 0 \<and> prev \<noteq> 0" if c: "fchain n (ent info s) xs" "prev = last xs"
    proof -
      have x: "xs \<noteq> []" using c(1) by (simp add: fchain_def)
      have "valid_cluster n prev" using c x by (auto simp: fchain_def)
      moreover have "FAT32_BAD_CLUSTER < ent info s prev"
        using flinks_mid [of "ent info s" "butlast xs" "last xs" "[]"] c x by (simp add: fchain_def)
      ultimately show ?thesis using c x by (auto simp: valid_cluster_def)
    qed
    then show "prev = 0 \<or> unat prev < n \<and> prev \<noteq> t" "prev = 0 \<or> unat prev < n \<and> ent info s prev \<noteq> 0"
      "xs \<noteq> [] \<Longrightarrow> prev \<noteq> 0 \<and> prev = last xs"
      using assms(5) tx by auto
  qed
  obtain s' where s': "fat32_take_new_cluster_sync info prev s = Some (Inr (t, s'))" "fstep info n s s'"
    "\<forall>c. unat c < n \<longrightarrow> ent info s' c = (if c = t then FAT32_LAST_CLUSTER else if prev \<noteq> 0 \<and> c = prev then t else ent info s c)"
    "\<forall>c. valid_cluster n c \<longrightarrow> dat info s' c = dat info s c"
    "hint info (fview info s') = (if fi_fsinfo info = 0 then fi_root info else u)"
    using fat_take_ok [OF assms(1,2) tu(1) prev(1)] by blast
  note fs = take_free_set [OF tu(1) prev(2) s'(3,5)]
  have "fchain n (ent info s') (xs @ [t])"
  proof (cases "xs = []")
    case True
    then show ?thesis using t s'(3) by (simp add: fchain_def valid_cluster_def FAT32_BAD_CLUSTER_def FAT32_LAST_CLUSTER_def)
  next
    case False
    then have c: "fchain n (ent info s) xs" using assms(5) by auto
    have "flinks (ent info s') (xs @ [t])"
    proof (rule flinks_snoc [OF _ False tx])
      fix d assume "d \<in> set xs"
      moreover from this have "unat d < n" using c by (auto simp: fchain_def valid_cluster_def)
      ultimately show "ent info s' d = (if d = last xs then t else ent info s d)"
        using s'(3) tx last_val [OF False] by auto
    qed (use c t s'(3) in \<open>simp_all add: fchain_def FAT32_BAD_CLUSTER_def FAT32_LAST_CLUSTER_def\<close>)
    then show ?thesis using c tx t by (auto simp: fchain_def valid_cluster_def)
  qed
  moreover have "ent info s' d = ent info s d" if "unat d < n" "d \<notin> set (xs @ [t])" for d
  proof -
    have "\<not> (prev \<noteq> 0 \<and> d = prev)" using that(2) assms(5) by (auto simp: fchain_def)
    then show ?thesis using s'(3) that by auto
  qed
  ultimately have "extends info n s xs s' (xs @ [t])"
    using s'(2) fs tu(2) by (auto simp: extends_def hint_ok_def)
  then show ?thesis using s'(1,4) tu(2) by (auto simp: data_kept_def)
qed

lemma write_advance_ok:
  assumes "fat_geom info n" "fat_ok info n s" "hint_ok info s" "fchain n (ent info s) (pre @ c # post)" "on_chain p c post"
    "post = [] \<Longrightarrow> 2 \<le> card (free_set info n s)"
  shows "\<exists>p' c' post' s'. write_advance info p s = Some (Inr (p', s')) \<and> on_chain p' c' post' \<and>
    extends info n s (pre @ c # post) s' ((pre @ [c]) @ c' # post') \<and> data_kept info n s s' \<and>
    (if post = [] then post' = [] else c' # post' = post)"
proof (cases post)
  case Nil
  have l: "IS_LAST_CLUSTER p" using on_chain_tests(2) [OF assms(1,4,5)] Nil by simp
  have pc: "pos_cluster p = last (pre @ c # post)" using assms(5) Nil by (simp add: on_chain_def)
  obtain t s' where t: "fat32_take_new_cluster_sync info (pos_cluster p) s = Some (Inr (t, s'))"
    "extends info n s (pre @ c # post) s' ((pre @ c # post) @ [t])" "data_kept info n s s'"
    using take_extends [OF assms(1-3) assms(6) [OF Nil], of "pre @ c # post" "pos_cluster p"] assms(4) pc by blast
  show ?thesis
    by (rule exI [of _ "p\<lparr> pos_cluster := t \<rparr>"], rule exI [of _ t], rule exI [of _ "[]"], rule exI [of _ s'])
      (use l t Nil assms(5) in \<open>simp add: write_advance_def on_chain_def\<close>)
next
  case (Cons d ys)
  have l: "\<not> IS_LAST_CLUSTER p" using on_chain_tests(2) [OF assms(1,4,5)] Cons by simp
  have "unat d < n" using assms(4) Cons by (simp add: fchain_def valid_cluster_def)
  from fat_at_ok [OF assms(1,2) this] obtain s' where
    s': "fat32_fat_at_sync info d s = Inr (ent info s d, s')" "fstep info n s s'" "fview info s' = fview info s"
    by blast
  have "pos_fat p = d" using assms(5) Cons by (simp add: on_chain_def)
  then have "fat32_next_cluster_sync info p s = Inr (pos_at (ent info s) d, s')"
    using s'(1) by (simp add: fat32_next_cluster_sync_def Let_def pos_at_def)
  moreover have "on_chain (pos_at (ent info s) d) d ys"
    by (rule on_chain_pos_at [of n _ "pre @ [c]"]) (use assms(4) Cons in simp)
  ultimately show ?thesis using l Cons extends_view [OF s'(2,3) assms(4,3)] data_kept_view [OF s'(3)]
    by (intro exI [of _ "pos_at (ent info s) d"] exI [of _ d] exI [of _ ys] exI [of _ s']) (simp add: write_advance_def)
qed

section \<open>The loops of a write\<close>

text \<open>
  Skipping whole clusters: as long as there are free clusters, the position ends on the cluster of
  the start position, the chain is just as long as needed, and no data changes.
\<close>

lemma write_skip_ok:
  assumes "fat_geom info n" "fat_ok info n s" "hint_ok info s" "fchain n (ent info s) (pre @ c # post)" "on_chain p c post"
    "unat cp < (Suc (length post) + (card (free_set info n s) - 1)) * csize info"
  shows "\<exists>p' pre' c' post' s'. write_skip info cp p s = Some (Inr (Some (p', of_nat (unat cp mod csize info)), s')) \<and>
    on_chain p' c' post' \<and> extends info n s (pre @ c # post) s' (pre' @ c' # post') \<and> data_kept info n s s' \<and>
    length pre' = length pre + unat cp div csize info \<and>
    length (pre' @ c' # post') = max (length (pre @ c # post)) (Suc (length pre + unat cp div csize info))"
  using assms(2-)
proof (induction "unat cp div csize info" arbitrary: cp pre c post p s)
  case 0
  then have lt: "unat cp < csize info" using csize_pos [OF assms(1)] by (metis div_greater_zero_iff not_less neq0_conv)
  then have "\<not> fat32_cluster_size info \<le> cp" by (simp add: word_le_nat_alt unat_cluster_size)
  then have "write_skip info cp p s = Some (Inr (Some (p, of_nat (unat cp mod csize info)), s))"
    using lt by (subst write_skip.simps) simp
  then show ?case using 0(5) extends_refl [OF 0(2,4,3)] lt
    by (intro exI [of _ p] exI [of _ pre] exI [of _ c] exI [of _ post] exI [of _ s]) simp
next
  case (Suc q)
  note cs = csize_pos [OF assms(1)]
  have le: "csize info \<le> unat cp" using Suc.hyps(2) by (metis div_less nat.distinct(1) not_less)
  then have le': "fat32_cluster_size info \<le> cp" by (simp add: word_le_nat_alt unat_cluster_size)
  have u: "unat (cp - fat32_cluster_size info) = unat cp - csize info"
    using le unat_cluster_size [of info] by (simp add: unat_minus_le)
  have dv: "unat cp div csize info = Suc ((unat cp - csize info) div csize info)" "unat cp mod csize info = (unat cp - csize info) mod csize info"
    using le cs by (simp_all add: le_div_geq le_mod_geq)
  note ts = on_chain_tests [OF assms(1) Suc.prems(3,4)]
  have room: "2 \<le> card (free_set info n s)" if "post = []"
  proof (rule ccontr)
    assume "\<not> 2 \<le> card (free_set info n s)"
    then have "card (free_set info n s) - 1 = 0" by simp
    then show False using Suc.prems(5) le that by simp
  qed
  obtain p1 c1 post1 s1 where 1: "write_advance info p s = Some (Inr (p1, s1))" "on_chain p1 c1 post1"
    "extends info n s (pre @ c # post) s1 ((pre @ [c]) @ c1 # post1)" "data_kept info n s s1"
    "if post = [] then post1 = [] else c1 # post1 = post"
    using write_advance_ok [OF assms(1) Suc.prems(1-4) room] by blast
  have ok1: "fat_ok info n s1" "hint_ok info s1" "fchain n (ent info s1) ((pre @ [c]) @ c1 # post1)"
    using 1(3) extends_ok [OF 1(3)] by (auto simp: extends_def)
  have len: "length ((pre @ [c]) @ c1 # post1) = max (length (pre @ c # post)) (Suc (Suc (length pre)))"
    using 1(5) by (cases post) (auto split: if_splits)
  have cap: "unat (cp - fat32_cluster_size info) < (Suc (length post1) + (card (free_set info n s1) - 1)) * csize info"
  proof -
    have "Suc (length post1) + (card (free_set info n s1) - 1) = length post + (card (free_set info n s) - 1)"
      using extends_card [OF 1(3)] 1(5) room by (cases post) (auto split: if_splits)
    then show ?thesis using Suc.prems(5) le unfolding u by simp
  qed
  from Suc.hyps(1) [OF _ ok1 1(2) cap] Suc.hyps(2) obtain p2 pre2 c2 post2 s2 where
    2: "write_skip info (cp - fat32_cluster_size info) p1 s1 = Some (Inr (Some (p2, of_nat (unat cp mod csize info)), s2))"
    "on_chain p2 c2 post2" "extends info n s1 ((pre @ [c]) @ c1 # post1) s2 (pre2 @ c2 # post2)" "data_kept info n s1 s2"
    "length pre2 = length (pre @ [c]) + (unat cp - csize info) div csize info"
    "length (pre2 @ c2 # post2) = max (length ((pre @ [c]) @ c1 # post1)) (Suc (length (pre @ [c]) + (unat cp - csize info) div csize info))"
    unfolding u dv by (metis diff_Suc_1)
  have "write_skip info cp p s = Some (Inr (Some (p2, of_nat (unat cp mod csize info)), s2))"
    using le' ts 1(1) 2(1) by (subst write_skip.simps) simp
  then show ?case using 2(2,5,6) len extends_trans [OF 1(3) 2(3)] data_kept_trans [OF 1(4) 2(4)]
    by (intro exI [of _ p2] exI [of _ pre2] exI [of _ c2] exI [of _ post2] exI [of _ s2]) (simp add: dv)
qed

text \<open>One round of the second loop patches the cluster at the position.\<close>

lemma write_loop_round:
  assumes "fat_geom info n" "fat_ok info n s" "hint_ok info s" "fchain n (ent info s) (pre @ c # post)" "on_chain p c post"
    "unat cp < csize info" "csize info \<le> length temp" "unat bi + unat nw \<le> length buf"
    "m = min (csize info - unat cp) (unat nw)"
  shows "\<exists>s' temp'. write_loop info cp bi nw p temp buf s =
      (if unat nw \<le> m then Some (Inr (Some p, s'))
       else lbind (write_advance info p s') (\<lambda>(p, s). write_loop info 0 (bi + of_nat m) (nw - of_nat m) p temp' buf s)) \<and>
    length temp' = length temp \<and> extends info n s (pre @ c # post) s' (pre @ c # post) \<and> free_set info n s' = free_set info n s \<and>
    (\<forall>d. valid_cluster n d \<longrightarrow> dat info s' d = (if d = c then patch (dat info s c) (unat cp) (take m (drop (unat bi) buf)) else dat info s d))"
proof -
  note ts = on_chain_tests [OF assms(1,4,5)]
  have v: "valid_cluster n c" using assms(4) by (simp add: fchain_def)
  have pc: "pos_cluster p = c" using assms(5) by (simp add: on_chain_def)
  have l: "length (dat info s c) = csize info" by (rule length_dat [OF assms(1,2)])
  obtain s1 where 1: "fat32_read_cluster_sync info c temp s = Inr (True, dat info s c @ drop (csize info) temp, s1)" "fstep info n s s1" "fview info s1 = fview info s"
    using read_cluster_ok [OF assms(1,2) v assms(7)] by blast
  define data where "data = take m (drop (unat bi) buf)"
  define t2 where "t2 = patch (dat info s c) (unat cp) data @ drop (csize info) temp"
  have dl: "length data = m" "unat cp + m \<le> csize info" using assms(6,8,9) by (auto simp: data_def)
  have lt2: "length t2 = length temp" using l assms(7) dl by (simp add: t2_def)
  have u: "unat (fat32_cluster_size info - cp) = csize info - unat cp"
    using assms(6) unat_cluster_size [of info] by (simp add: unat_minus_le)
  have m: "min (fat32_cluster_size info - cp) nw = of_nat m" "unat (of_nat m :: u32) = m"
  proof -
    have e: "unat (min (fat32_cluster_size info - cp) nw) = m" by (simp add: min_def word_le_nat_alt u assms(9))
    moreover have "of_nat (unat (min (fat32_cluster_size info - cp) nw)) = min (fat32_cluster_size info - cp) nw" by simp
    ultimately show "min (fat32_cluster_size info - cp) nw = of_nat m" by simp
    then show "unat (of_nat m :: u32) = m" using e by simp
  qed
  have cp: "buf_copy (dat info s c @ drop (csize info) temp) (unat cp) buf (unat bi) m = Inr t2"
  proof -
    have "unat bi + m \<le> length buf" using assms(8,9) by simp
    from buf_copy_patch [OF this, of "unat cp" "dat info s c @ drop (csize info) temp"] dl l
    show ?thesis by (simp add: t2_def data_def [symmetric] patch_append_left)
  qed
  obtain s2 where 2: "fat32_write_cluster_sync info c t2 s1 = Inr (True, s2)" "fstep info n s1 s2"
    "\<forall>d. unat d < n \<longrightarrow> ent info s2 d = ent info s1 d"
    "\<forall>d. valid_cluster n d \<longrightarrow> dat info s2 d = (if d = c then take (csize info) t2 else dat info s1 d)"
    "hint info (fview info s2) = hint info (fview info s1)"
    using write_cluster_ok [OF assms(1) fstep_ok [OF 1(2)] v, of t2] lt2 assms(7) by auto
  have z: "nw - of_nat m = 0 \<longleftrightarrow> unat nw \<le> m"
  proof -
    have "nw - of_nat m = 0 \<longleftrightarrow> unat nw = unat (of_nat m :: u32)" by (simp add: word_unat_eq_iff [symmetric])
    then show ?thesis using m(2) assms(9) by auto
  qed
  have "write_loop info cp bi nw p temp buf s = (if unat nw \<le> m then Some (Inr (Some p, s2))
       else lbind (write_advance info p s2) (\<lambda>(p, s). write_loop info 0 (bi + of_nat m) (nw - of_nat m) p t2 buf s))"
    by (subst write_loop.simps) (simp add: ts pc 1(1) m cp 2(1) z [unfolded right_minus_eq] Let_def)
  moreover have fs: "free_set info n s2 = free_set info n s" using 2(3,5) by (auto simp: free_set_def 1(3))
  moreover have "extends info n s (pre @ c # post) s2 (pre @ c # post)"
  proof -
    have "fchain n (ent info s2) (pre @ c # post)"
      using assms(4) flinks_cong [of "pre @ c # post" "ent info s2" "ent info s"] 2(3) unfolding 1(3) by (auto simp: fchain_def valid_cluster_def)
    then show ?thesis using fstep_trans [OF 1(2) 2(2)] assms(3) 2(3,5) fs by (simp add: extends_def hint_ok_def 1(3))
  qed
  moreover have "take (csize info) t2 = patch (dat info s c) (unat cp) data" using l dl by (simp add: t2_def)
  ultimately show ?thesis using lt2 2(4) 1(3) unfolding data_def by (intro exI [of _ s2] exI [of _ t2]) simp
qed

lemma write_loop_ok:
  assumes "fat_geom info n" "fat_ok info n s" "hint_ok info s" "fchain n (ent info s) (pre @ c # post)" "on_chain p c post"
    "unat cp < csize info" "csize info \<le> length temp" "unat bi + unat nw \<le> length buf" "unat bi + unat nw < 2 ^ 32" "0 < unat nw"
    "unat cp + unat nw \<le> (Suc (length post) + (card (free_set info n s) - 1)) * csize info"
  shows "\<exists>p' post' s'. write_loop info cp bi nw p temp buf s = Some (Inr (Some p', s')) \<and> \<not> HAS_READING_ERROR p' \<and>
    extends info n s (pre @ c # post) s' (pre @ c # post') \<and>
    content info s' (c # post') = patch (content info s (c # post')) (unat cp) (take (unat nw) (drop (unat bi) buf)) \<and>
    (\<forall>d. valid_cluster n d \<longrightarrow> d \<notin> set (c # post') \<longrightarrow> dat info s' d = dat info s d) \<and>
    Suc (length post') = max (Suc (length post)) ((unat cp + unat nw + (csize info - 1)) div csize info)"
  using assms(2-)
proof (induction "unat nw" arbitrary: pre c post p cp temp bi nw s rule: less_induct)
  case less
  note cs = csize_pos [OF assms(1)]
  let ?m = "min (csize info - unat cp) (unat nw)"
  let ?d = "take ?m (drop (unat bi) buf)"
  have v: "valid_cluster n c" using less.prems(3) by (simp add: fchain_def)
  have l: "length (dat info s d) = csize info" for d by (rule length_dat [OF assms(1) less.prems(1)])
  have ld: "length ?d = ?m" using less.prems(7) by simp
  obtain s1 temp1 where 1: "write_loop info cp bi nw p temp buf s =
      (if unat nw \<le> ?m then Some (Inr (Some p, s1))
       else lbind (write_advance info p s1) (\<lambda>(p, s). write_loop info 0 (bi + of_nat ?m) (nw - of_nat ?m) p temp1 buf s))"
    "length temp1 = length temp" "extends info n s (pre @ c # post) s1 (pre @ c # post)" "free_set info n s1 = free_set info n s"
    "\<forall>d. valid_cluster n d \<longrightarrow> dat info s1 d = (if d = c then patch (dat info s c) (unat cp) ?d else dat info s d)"
    using write_loop_round [OF assms(1) less.prems(1-7) refl] by blast
  have nc: "dat info s1 x = dat info s x" if "valid_cluster n x" "x \<noteq> c" for x using 1(5) that by simp
  show ?case
  proof (cases "unat nw \<le> ?m")
    case True
    then have m: "?m = unat nw" "unat cp + unat nw \<le> csize info" using less.prems(5) by auto
    have "content info s1 post = content info s post"
      by (rule content_cong) (use less.prems(3) in \<open>auto simp: fchain_def intro!: nc\<close>)
    then have "content info s1 (c # post) = patch (content info s (c # post)) (unat cp) (take (unat nw) (drop (unat bi) buf))"
      using 1(5) v l ld m by (simp add: patch_append_left del: drop_append)
    moreover have "(unat cp + unat nw + (csize info - 1)) div csize info = 1"
    proof -
      have e: "unat cp + unat nw + (csize info - 1) = (unat cp + unat nw - 1) + csize info" using less.prems(9) cs by simp
      have "(unat cp + unat nw - 1) div csize info = 0" using m(2) less.prems(9) by (intro div_less) simp
      then show ?thesis unfolding e using cs by (subst div_add_self2) simp_all
    qed
    ultimately show ?thesis using True 1(1,3) nc on_chain_tests(1) [OF assms(1) less.prems(3,4)]
      by (intro exI [of _ p] exI [of _ post] exI [of _ s1]) auto
  next
    case False
    then have m: "?m = csize info - unat cp" "csize info - unat cp < unat nw" by auto
    have ok1: "fat_ok info n s1" "hint_ok info s1" "fchain n (ent info s1) (pre @ c # post)"
      using 1(3) extends_ok [OF 1(3)] by (auto simp: extends_def)
    have room: "2 \<le> card (free_set info n s1)" if "post = []"
    proof (rule ccontr)
      assume "\<not> 2 \<le> card (free_set info n s1)"
      then have "card (free_set info n s) - 1 = 0" by (simp add: 1(4))
      then show False using less.prems(10) m that by simp
    qed
    obtain p2 c2 post2 s2 where 2: "write_advance info p s1 = Some (Inr (p2, s2))" "on_chain p2 c2 post2"
      "extends info n s1 (pre @ c # post) s2 ((pre @ [c]) @ c2 # post2)" "data_kept info n s1 s2"
      "if post = [] then post2 = [] else c2 # post2 = post"
      using write_advance_ok [OF assms(1) ok1 less.prems(4) room] by blast
    have ok2: "fat_ok info n s2" "hint_ok info s2" "fchain n (ent info s2) ((pre @ [c]) @ c2 # post2)"
      using 2(3) extends_ok [OF 2(3)] by (auto simp: extends_def)
    have "?m < 2 ^ 32" using False unat_less_2p32 [of nw] by linarith
    then have um: "unat (of_nat ?m :: u32) = ?m" by (rule unat_of_nat_32)
    have u: "unat (nw - of_nat ?m) = unat nw - ?m" "unat (bi + of_nat ?m) = unat bi + ?m"
    proof -
      show "unat (nw - of_nat ?m) = unat nw - ?m" using um by (subst unat_minus_le) auto
      show "unat (bi + of_nat ?m) = unat bi + ?m" using um less.prems(8) by (subst unat_plus_less) auto
    qed
    have nw: "unat (0 :: u32) + unat (nw - of_nat ?m) = unat cp + unat nw - csize info" unfolding u using m less.prems(5) by simp
    have "Suc (length post2) + (card (free_set info n s2) - 1) = length post + (card (free_set info n s) - 1)"
      using extends_card [OF 2(3)] 2(5) room 1(4) by (cases post) (auto split: if_splits)
    then have cap: "unat (0 :: u32) + unat (nw - of_nat ?m) \<le> (Suc (length post2) + (card (free_set info n s2) - 1)) * csize info"
      using less.prems(10) unfolding nw by simp
    have dec: "unat (nw - of_nat ?m) < unat nw" unfolding u using m less.prems(5,9) by simp
    have h: "unat (0 :: u32) < csize info" "csize info \<le> length temp1" "unat (bi + of_nat ?m) + unat (nw - of_nat ?m) \<le> length buf"
        "unat (bi + of_nat ?m) + unat (nw - of_nat ?m) < 2 ^ 32" "0 < unat (nw - of_nat ?m)"
      unfolding u using cs 1(2) less.prems(6-8) m by auto
    from less.hyps [OF dec ok2 2(2) h cap] obtain p3 post3 s3 where 3: "write_loop info 0 (bi + of_nat ?m) (nw - of_nat ?m) p2 temp1 buf s2 = Some (Inr (Some p3, s3))"
      "\<not> HAS_READING_ERROR p3" "extends info n s2 ((pre @ [c]) @ c2 # post2) s3 ((pre @ [c]) @ c2 # post3)"
      "content info s3 (c2 # post3) = patch (content info s2 (c2 # post3)) 0 (take (unat nw - ?m) (drop (unat bi + ?m) buf))"
      "\<forall>d. valid_cluster n d \<longrightarrow> d \<notin> set (c2 # post3) \<longrightarrow> dat info s3 d = dat info s2 d"
      "Suc (length post3) = max (Suc (length post2)) ((unat cp + unat nw - csize info + (csize info - 1)) div csize info)"
      unfolding nw unfolding u unat_0 by blast
    have ch3: "fchain n (ent info s3) (pre @ c # c2 # post3)" using extends_chain [OF 3(3)] by simp
    then have v3: "\<And>x. x \<in> set (c2 # post3) \<Longrightarrow> valid_cluster n x \<and> x \<noteq> c" by (auto simp: fchain_def)
    have cnt: "content info s2 (c2 # post3) = content info s (c2 # post3)"
      by (rule content_cong) (use v3 nc 2(4) in \<open>simp add: data_kept_def\<close>)
    have dc: "dat info s3 c = patch (dat info s c) (unat cp) ?d"
    proof -
      have "c \<notin> set (c2 # post3)" using v3 by blast
      then show ?thesis using 3(5) v 2(4) 1(5) by (simp add: data_kept_def)
    qed
    have split: "take (unat nw) (drop (unat bi) buf) = ?d @ take (unat nw - ?m) (drop (unat bi + ?m) buf)"
    proof -
      have "take (?m + (unat nw - ?m)) (drop (unat bi) buf) = ?d @ take (unat nw - ?m) (drop (unat bi + ?m) buf)"
        by (simp only: take_add drop_drop add.commute [of ?m "unat bi"])
      moreover have "?m + (unat nw - ?m) = unat nw" by simp
      ultimately show ?thesis by simp
    qed
    have "content info s3 (c # c2 # post3) = patch (content info s (c # c2 # post3)) (unat cp) (take (unat nw) (drop (unat bi) buf))"
    proof -
      have mm: "?m = length (dat info s c) - unat cp" using m(1) l by simp
      have "patch (dat info s c @ content info s (c2 # post3)) (unat cp) (take (unat nw) (drop (unat bi) buf)) =
          patch (dat info s c) (unat cp) (take ?m (take (unat nw) (drop (unat bi) buf))) @
          patch (content info s (c2 # post3)) 0 (drop ?m (take (unat nw) (drop (unat bi) buf)))"
        unfolding mm by (rule patch_append_split) (use less.prems(5,7) m(2) l in auto)
      also have "\<dots> = dat info s3 c @ content info s3 (c2 # post3)"
        unfolding dc 3(4) cnt unfolding split using ld by (simp del: content_simps)
      finally show ?thesis by simp
    qed
    moreover have "dat info s3 d = dat info s d" if "valid_cluster n d" "d \<notin> set (c # c2 # post3)" for d
      using 3(5) 2(4) nc that by (simp add: data_kept_def)
    moreover have "Suc (length (c2 # post3)) = max (Suc (length post)) ((unat cp + unat nw + (csize info - 1)) div csize info)"
    proof -
      let ?y = "unat cp + unat nw - csize info + (csize info - 1)"
      have e: "unat cp + unat nw + (csize info - 1) = ?y + csize info" using m(2) by simp
      have "(unat cp + unat nw + (csize info - 1)) div csize info = Suc (?y div csize info)"
        unfolding e using cs by (subst div_add_self2) simp_all
      moreover have "0 < ?y div csize info" using m(2) cs by (subst div_greater_zero_iff) simp
      ultimately show ?thesis using 3(6) 2(5) by (cases post) (auto split: if_splits)
    qed
    moreover have "extends info n s (pre @ c # post) s3 (pre @ c # c2 # post3)"
      using extends_trans [OF 1(3) extends_trans [OF 2(3) 3(3)]] by simp
    moreover have "write_loop info cp bi nw p temp buf s = Some (Inr (Some p3, s3))"
      using 1(1) False 2(1) 3(1) by simp
    ultimately show ?thesis using 3(2) by (intro exI [of _ p3] exI [of _ "c2 # post3"] exI [of _ s3]) (simp del: content_simps)
  qed
qed

end
