(* ===== verification/Fat_Correct.thy ===== *)
theory Fat_Correct
  imports Fat_Write
begin

text \<open>
  The directory entry of a file, and the whole of \<^verbatim>\<open>fat32_write_file_sync\<close> and
  \<^verbatim>\<open>fat32_erase_file_sync\<close>.
\<close>

unbundle bit_operations_syntax

section \<open>The directory entry\<close>

definition written_entry :: "fat32_basic_file_info_t \<Rightarrow> datetime_fat_t \<Rightarrow> bytes \<Rightarrow> bytes" where
  "written_entry f m e =
     take 11 e @ [ff_attributes f] @ take 2 (drop 12 e) @ put16 (time (ff_creation f)) @ put16 (date (ff_creation f)) @
     put16 (date m) @ put16 (ucast (drop_bit 16 (ff_cluster f))) @ put16 (time m) @ put16 (date m) @
     put16 (ucast (ff_cluster f AND 0xFFFF)) @ put32 (ff_size f)"

lemma length_written_entry [simp]: "length e = 32 \<Longrightarrow> length (written_entry f m e) = 32"
  by (simp add: written_entry_def)

lemma buf_write_patch: "off + length d \<le> length b \<Longrightarrow> buf_write b off d = Inr (patch b off d)"
  by (simp add: patch_def)

lemma patch_mid: "off + length d \<le> length e \<Longrightarrow> patch (a @ e @ z) (length a + off) d = a @ patch e off d @ z"
  by (simp add: patch_def)

lemma update_entry_mid:
  assumes "length e = 32"
  shows "update_entry f m (length a) (a @ e @ z) = Inr (a @ written_entry f m e @ z)"
proof -
  have w: "buf_write (a @ e @ z) (length a + k) d = Inr (a @ patch e k d @ z)" if "length e = 32" "k + length d \<le> 32" for e k d
    using that patch_mid [of k d e a z] buf_write_patch [of "length a + k" d "a @ e @ z"] by simp
  have l: "length (patch e k d) = 32" if "length e = 32" "k + length d \<le> 32" for e k d
    using that by simp
  obtain e0 e1 e2 e3 e4 e5 e6 e7 e8 e9 e10 e11 e12 e13 e14 e15 e16 e17 e18 e19 e20 e21 e22 e23 e24 e25 e26 e27 e28 e29 e30 e31 where
    e: "e = [e0,e1,e2,e3,e4,e5,e6,e7,e8,e9,e10,e11,e12,e13,e14,e15,e16,e17,e18,e19,e20,e21,e22,e23,e24,e25,e26,e27,e28,e29,e30,e31]"
    using assms by (auto simp: numeral_eq_Suc length_Suc_conv)
  show ?thesis
    unfolding update_entry_def
    by (simp add: w l assms) (simp add: e patch_def written_entry_def put16_def put32_def)
qed

lemma update_entry_ok:
  assumes "off + 32 \<le> length b"
  shows "update_entry f m off b = Inr (patch b off (written_entry f m (take 32 (drop off b))))"
proof -
  have b: "b = take off b @ take 32 (drop off b) @ drop (off + 32) b"
    by (metis append_take_drop_id drop_drop add.commute)
  have l: "length (take off b) = off" "length (take 32 (drop off b)) = 32" using assms by simp_all
  have "update_entry f m off b = update_entry f m (length (take off b)) (take off b @ take 32 (drop off b) @ drop (off + 32) b)"
    using b l(1) by simp
  also have "\<dots> = Inr (patch b off (written_entry f m (take 32 (drop off b))))"
    unfolding update_entry_mid [OF l(2)] using l by (simp add: patch_def)
  finally show ?thesis .
qed

lemma sectors_append: "sectors v a (i + j) = sectors v a i @ sectors v (a + of_nat i) j"
proof (induction j)
  case (Suc j)
  have "sectors v a (Suc (i + j)) = sectors v a (i + j) @ v (a + of_nat (i + j))" by (simp add: sectors_def)
  moreover have "sectors v (a + of_nat i) (Suc j) = sectors v (a + of_nat i) j @ v (a + of_nat i + of_nat j)" by (simp add: sectors_def)
  ultimately show ?case using Suc.IH by (simp add: add.assoc)
qed (simp add: sectors_def)

lemma sectors_upd:
  assumes "\<And>x. length (v x) = 512" "length x = 512" "i < k" "unat a + k < 2 ^ 32"
  shows "sectors (v(a + of_nat i := x)) a k = patch (sectors v a k) (i * 512) x"
proof -
  let ?w = "v(a + of_nat i := x)"
  have ne: "a + of_nat j \<noteq> a + of_nat i" if "j < k" "j \<noteq> i" for j
  proof
    assume "a + of_nat j = a + of_nat i"
    then have "unat (a + of_nat j) = unat (a + of_nat i)" by (rule arg_cong)
    moreover have "unat (a + of_nat j) = unat a + j" "unat (a + of_nat i) = unat a + i"
      by (rule unat_plus_nat, use assms(3,4) that in simp)+
    ultimately show False using that(2) by simp
  qed
  obtain j where k: "k = i + (1 + j)" using assms(3) by (metis add.assoc less_iff_Suc_add add_Suc_right plus_1_eq_Suc)
  have s: "sectors v a k = sectors v a i @ v (a + of_nat i) @ sectors v (a + of_nat i + 1) j" for v
    unfolding k sectors_append by simp
  have l: "sectors ?w a i = sectors v a i"
    unfolding sectors_def by (rule arg_cong [where f = concat], rule map_cong) (use ne assms(3) in auto)
  have r: "sectors ?w (a + of_nat i + 1) j = sectors v (a + of_nat i + 1) j"
    unfolding sectors_def
  proof (rule arg_cong [where f = concat], rule map_cong [OF refl])
    fix m assume "m \<in> set [0..<j]"
    then have "a + of_nat (i + 1 + m) \<noteq> a + of_nat i" by (intro ne) (simp_all add: k)
    then show "?w (a + of_nat i + 1 + of_nat m) = v (a + of_nat i + 1 + of_nat m)" by (simp add: add.assoc)
  qed
  have li: "length (sectors v a i) = i * 512" by (rule length_sectors [OF assms(1)])
  show ?thesis unfolding s l r using li assms(1,2) by (simp add: patch_def)
qed

lemma patch_inner:
  assumes "o1 + o2 + length d \<le> length b" "o2 + length d \<le> k"  "o1 + k \<le> length b"
  shows "patch b o1 (patch (take k (drop o1 b)) o2 d) = patch b (o1 + o2) d"
proof -
  have b: "b = take o1 b @ take k (drop o1 b) @ drop (o1 + k) b"
    by (metis append_take_drop_id drop_drop add.commute)
  define p q r where "p = take o1 b" and "q = take k (drop o1 b)" and "r = drop (o1 + k) b"
  have l: "length p = o1" "length q = k" using assms by (simp_all add: p_def q_def)
  have b': "b = p @ q @ r" using b by (simp only: p_def q_def r_def)
  have "patch b o1 (patch q o2 d) = p @ patch q o2 d @ r"
    using l assms(2) unfolding b' by (simp add: patch_def)
  moreover have "patch b (o1 + o2) d = p @ patch q o2 d @ r"
    using patch_mid [of o2 d q p r] l assms(2) unfolding b' by simp
  ultimately show ?thesis by (simp add: q_def)
qed

definition entry_of :: "bytes \<Rightarrow> u16 \<Rightarrow> bytes" where
  "entry_of b i = take 32 (drop (32 * unat i) b)"

lemma update_directory_entry_ok:
  assumes "fat_geom info n" "fat_ok info n s" "valid_cluster n c" "cluster_cached info s c" "unat (ff_entry_index f) div 16 < spc info"
    "ff_entry_cluster f = c" "datetime_get (fs_io s) = Inr (dt, io)"
  shows "\<exists>s'. fat32_update_directory_entry info f s = Inr (True, s') \<and> fat_ok info n s' \<and> fs_io s' = io \<and> fs_uninit s' = fs_uninit s \<and>
    set (cached info s) \<subseteq> set (cached info s') \<and>
    (\<forall>d. unat d < n \<longrightarrow> ent info s' d = ent info s d) \<and> hint info (fview info s') = hint info (fview info s) \<and>
    (\<forall>d. valid_cluster n d \<longrightarrow> dat info s' d = (if d = c then patch (dat info s c) (32 * unat (ff_entry_index f))
       (written_entry f (datetime_fat_from_datetime dt) (entry_of (dat info s c) (ff_entry_index f))) else dat info s d))"
proof -
  let ?i = "unat (ff_entry_index f) div 16" and ?j = "unat (ff_entry_index f) mod 16"
  let ?a = "cluster_start info c + of_nat ?i"
  let ?m = "datetime_fat_from_datetime dt"
  have al: "aligned_req info n (cluster_start info c, ucast (fi_spc info))" by (rule cluster_aligned [OF assms(3)])
  have fits: "unat (cluster_start info c) + spc info < 2 ^ 32" using aligned_fits(1) [OF assms(1) al] by simp
  have ua: "unat ?a = unat (cluster_start info c) + ?i" by (rule unat_plus_nat) (use fits assms(5) in simp)
  have rng: "in_range (cluster_start info c) (ucast (fi_spc info)) ?a" using assms(5) by (simp add: in_range_def ua)
  have sec: "fi_data info + (ff_entry_cluster f - 2) * ucast (fi_spc info) + ucast (ff_entry_index f div 16) = ?a"
  proof -
    have "(ucast (ff_entry_index f div 16) :: u32) = of_nat (unat (ff_entry_index f div 16))" by simp
    then have "(ucast (ff_entry_index f div 16) :: u32) = of_nat ?i" by (simp only: unat_div) simp
    then show ?thesis by (simp add: cluster_start_def assms(6))
  qed
  have alw: "allowed_req info n s' (?a, 1)" if "cluster_cached info s' c" for s'
    using that assms(3) rng by (auto simp: allowed_req_def cluster_cached_def)
  have len: "length (fview info s x) = 512" for x by (rule length_fview [OF assms(1,2)])
  obtain s1 where 1: "fat_disk_read info ?a 1 (uninit 512 s) s = Inr (True, fview info s ?a, s1)" "fstep info n s s1" "fview info s1 = fview info s"
    using fat_read_ok [OF assms(1,2) alw [OF assms(4)], of "uninit 512 s"] by auto
  define e where "e = written_entry f ?m (take 32 (drop (32 * ?j) (fview info s ?a)))"
  define x where "x = patch (fview info s ?a) (32 * ?j) e"
  have j: "32 * ?j + 32 \<le> 512" by simp
  have le: "length e = 32" using len j by (simp add: e_def)
  have up: "update_entry f ?m (32 * ?j) (fview info s ?a) = Inr x"
    unfolding x_def e_def by (rule update_entry_ok) (use len j in simp)
  have lx: "length x = 512" using len le j by (simp add: x_def)
  define s2 where "s2 = s1\<lparr> fs_io := io \<rparr>"
  have s2: "fat_ok info n s2" "fview info s2 = fview info s" "cached info s2 = cached info s1" "cluster_cached info s2 c"
    using 1(2,3) fstep_cached [OF 1(2) assms(4)] by (simp_all add: s2_def fstep_def fat_ok_def fview_def cached_def cluster_cached_def)
  obtain s3 where 3: "fat_disk_write info ?a 1 x s2 = Inr (True, s3)" "fstep info n s2 s3" "fview info s3 = (fview info s)(?a := x)"
    using fat_write_ok [OF assms(1) s2(1) alw [OF s2(4)], of x] lx s2(2) by (auto simp: put_sectors_1)
  have "fat32_update_directory_entry info f s = Inr (True, s3)"
    using 1(1,2) 3(1) up assms(7) unfolding fat32_update_directory_entry_def sec by (simp add: fstep_def s2_def unat_mod)
  moreover have low: "fview info s3 y = fview info s y" if "unat y < unat (fi_data info)" for y
    using that in_cluster_in_data [OF assms(1,3) rng] by (auto simp: 3(3) in_data_def)
  have gm: "unat (fi_fat info) + unat (fi_fat_size info) \<le> unat (fi_data info)"
    using assms(1) by (auto simp: fat_geom_def split: if_splits)
  have "ent info s3 d = ent info s d" if "unat d < n" for d
    using low [of "fi_fat info + d div 128"] fat_sector(1,2) [OF assms(1) that] gm by (simp add: fat_entry_def)
  moreover have "hint info (fview info s3) = hint info (fview info s)"
    using low [of "fsinfo_sector info"] fsinfo_sector(1) [OF assms(1)] gm by (simp add: hint_def)
  moreover have "dat info s3 d = dat info s d" if "valid_cluster n d" "d \<noteq> c" for d
    by (rule cluster_data_cong [OF assms(1) that(1)])
       (use cluster_ranges [OF assms(1,3) that(1)] that(2) rng in \<open>auto simp: 3(3)\<close>)
  moreover have "dat info s3 c = patch (dat info s c) (32 * unat (ff_entry_index f)) (written_entry f ?m (entry_of (dat info s c) (ff_entry_index f)))"
  proof -
    have lb: "length (dat info s c) = spc info * 512" by (rule length_dat [OF assms(1,2)])
    have "?i * 16 + ?j = unat (ff_entry_index f)" by (rule div_mult_mod_eq)
    then have ij: "?i * 512 + 32 * ?j = 32 * unat (ff_entry_index f)" by linarith
    have b: "?i * 512 + 512 \<le> spc info * 512" using assms(5) by simp
    have sl: "fview info s ?a = take 512 (drop (?i * 512) (dat info s c))"
      using slot_sectors [OF len assms(5), where a = "cluster_start info c"] by (simp add: slot_def cluster_data_def)
    have "take 32 (drop (32 * ?j) (fview info s ?a)) = entry_of (dat info s c) (ff_entry_index f)"
      unfolding sl entry_of_def ij [symmetric] using j by (simp add: drop_take add.commute min_def)
    then have e: "e = written_entry f ?m (entry_of (dat info s c) (ff_entry_index f))" by (simp only: e_def)
    have "dat info s3 c = patch (dat info s c) (?i * 512) x"
      unfolding cluster_data_def 3(3) by (rule sectors_upd [OF len lx assms(5) fits])
    also have "\<dots> = patch (dat info s c) (?i * 512 + 32 * ?j) e"
      unfolding x_def sl by (rule patch_inner) (use lb b j le in auto)
    finally show ?thesis unfolding ij e .
  qed
  ultimately show ?thesis using 1(2) 3(2) s2(3) by (intro exI [of _ s3]) (auto simp: fstep_def s2_def)
qed

section \<open>Writing a file\<close>

definition fat_file :: "fat32_info_t \<Rightarrow> nat \<Rightarrow> fat_state \<Rightarrow> fat32_basic_file_info_t \<Rightarrow> u32 list \<Rightarrow> bool" where
  "fat_file info n s f xs \<longleftrightarrow> (if xs = [] then ff_cluster f = 0 else fchain n (ent info s) xs \<and> ff_cluster f = hd xs)"

text \<open>The entry of the file lies in a cached cluster in use that is not one of the file's.\<close>

definition entry_ok :: "fat32_info_t \<Rightarrow> nat \<Rightarrow> fat_state \<Rightarrow> fat32_basic_file_info_t \<Rightarrow> u32 list \<Rightarrow> bool" where
  "entry_ok info n s f xs \<longleftrightarrow> valid_cluster n (ff_entry_cluster f) \<and> cluster_cached info s (ff_entry_cluster f) \<and>
     ent info s (ff_entry_cluster f) \<noteq> 0 \<and> ff_entry_cluster f \<notin> set xs \<and> unat (ff_entry_index f) div 16 < spc info"

definition entry_written :: "fat32_info_t \<Rightarrow> fat_state \<Rightarrow> fat32_basic_file_info_t \<Rightarrow> datetime_t \<Rightarrow> bytes" where
  "entry_written info s f dt =
     patch (dat info s (ff_entry_cluster f)) (32 * unat (ff_entry_index f))
       (written_entry f (datetime_fat_from_datetime dt) (entry_of (dat info s (ff_entry_cluster f)) (ff_entry_index f)))"

text \<open>The walk starts on the first cluster of the file, which an empty file gets first.\<close>

lemma write_start_ok:
  assumes "fat_geom info n" "fat_ok info n s" "hint_ok info s" "fat_file info n s f xs" "xs = [] \<Longrightarrow> 2 \<le> card (free_set info n s)"
  shows "\<exists>p c post s'. (if ff_cluster f \<noteq> 0
               then lbind (Some (chain_start info (ff_cluster f) s)) (\<lambda>(p, s). Some (Inr (p, f, s)))
               else lbind (fat32_take_new_cluster_sync info 0 s) (\<lambda>(c, s).
                    Some (Inr (\<lparr> pos_fat = FAT32_LAST_CLUSTER, pos_cluster = c \<rparr>, f\<lparr> ff_cluster := c \<rparr>, s)))) =
      Some (Inr (p, f\<lparr> ff_cluster := c \<rparr>, s')) \<and>
    on_chain p c post \<and> extends info n s xs s' (c # post) \<and> data_kept info n s s' \<and> (xs \<noteq> [] \<longrightarrow> c # post = xs) \<and> (xs = [] \<longrightarrow> post = [])"
proof (cases xs)
  case Nil
  then have z: "ff_cluster f = 0" using assms(4) by (simp add: fat_file_def)
  obtain t s' where t: "fat32_take_new_cluster_sync info 0 s = Some (Inr (t, s'))" "extends info n s [] s' ([] @ [t])" "data_kept info n s s'"
    using take_extends [OF assms(1-3) assms(5) [OF Nil], of "[]" 0] by blast
  then show ?thesis using Nil z
    by (intro exI [of _ "\<lparr> pos_fat = FAT32_LAST_CLUSTER, pos_cluster = t \<rparr>"] exI [of _ t] exI [of _ "[]"] exI [of _ s'])
      (simp add: on_chain_def FAT32_LAST_CLUSTER_def FAT32_BAD_CLUSTER_def)
next
  case (Cons c post)
  then have c: "fchain n (ent info s) (c # post)" "ff_cluster f = c" using assms(4) by (auto simp: fat_file_def)
  then have v: "valid_cluster n c" "c \<noteq> 0" by (auto simp: fchain_def valid_cluster_def)
  obtain s' where s': "chain_start info c s = Inr (pos_at (ent info s) c, s')" "fstep info n s s'" "fview info s' = fview info s"
    using chain_start_ok [OF assms(1,2) v(1)] by blast
  have "on_chain (pos_at (ent info s) c) c post" by (rule on_chain_pos_at [of n _ "[]"]) (use c in simp)
  moreover have "f\<lparr> ff_cluster := c \<rparr> = f" using c(2) by simp
  ultimately show ?thesis using s'(1) c v Cons extends_view [OF s'(2,3) c(1) assms(3)] data_kept_view [OF s'(3)]
    by (intro exI [of _ "pos_at (ent info s) c"] exI [of _ c] exI [of _ post] exI [of _ s']) simp
qed

lemma max_lengths: "q + a = max b (Suc q) \<Longrightarrow> c = max a d \<Longrightarrow> 0 < (d :: nat) \<Longrightarrow> q + c = max b (q + d)"
  by arith

lemma write_file_data_ok:
  assumes "fat_geom info n" "fat_ok info n s" "hint_ok info s" "fchain n (ent info s) (c # post)" "on_chain p c post"
    "0 < unat k" "unat k \<le> length buf"
    "unat start + unat k \<le> (Suc (length post) + (card (free_set info n s) - 1)) * csize info"
  shows "\<exists>p1 cp s1 p' xs' s'. write_skip info start p s = Some (Inr (Some (p1, cp), s1)) \<and> \<not> HAS_READING_ERROR p1 \<and>
    write_loop info cp 0 k p1 (uninit (csize info * 512) s1) buf s1 = Some (Inr (Some p', s')) \<and> \<not> HAS_READING_ERROR p' \<and>
    extends info n s (c # post) s' xs' \<and> hd xs' = c \<and>
    length xs' = max (Suc (length post)) ((unat start + unat k + (csize info - 1)) div csize info) \<and>
    content info s' xs' = patch (content info s xs') (unat start) (take (unat k) buf) \<and>
    (\<forall>d. valid_cluster n d \<longrightarrow> d \<notin> set xs' \<longrightarrow> dat info s' d = dat info s d)"
proof -
  note cs = csize_pos [OF assms(1)]
  let ?q = "unat start div csize info" and ?r = "unat start mod csize info"
  have sk: "unat start < (Suc (length post) + (card (free_set info n s) - 1)) * csize info" using assms(6,8) by linarith
  obtain p1 pre1 c1 post1 s1 where 1: "write_skip info start p s = Some (Inr (Some (p1, of_nat ?r), s1))"
    "on_chain p1 c1 post1" "extends info n s (c # post) s1 (pre1 @ c1 # post1)" "data_kept info n s s1" "length pre1 = ?q"
    "length (pre1 @ c1 # post1) = max (Suc (length post)) (Suc ?q)"
    using write_skip_ok [OF assms(1-3), of "[]" c post p start] assms(4,5) sk by auto
  have ok1: "fat_ok info n s1" "hint_ok info s1" "fchain n (ent info s1) (pre1 @ c1 # post1)"
    using 1(3) extends_ok [OF 1(3)] by (auto simp: extends_def)
  have r: "?r < csize info" "unat (of_nat ?r :: u32) = ?r"
  proof -
    show "?r < csize info" using cs by simp
    have "?r < 2 ^ 32" using unat_less_2p32 [of start] by (rule le_less_trans [OF mod_less_eq_dividend])
    then show "unat (of_nat ?r :: u32) = ?r" by (rule unat_of_nat_32)
  qed
  have qr: "?q * csize info + ?r = unat start" by (rule div_mult_mod_eq)
  have cap: "unat (of_nat ?r :: u32) + unat k \<le> (Suc (length post1) + (card (free_set info n s1) - 1)) * csize info"
  proof -
    let ?K = "card (free_set info n s)" and ?K1 = "card (free_set info n s1)"
    have "?q + Suc (length post1) + ?K1 = Suc (length post) + ?K" "Suc (length post) \<le> ?q + Suc (length post1)"
      using extends_card [OF 1(3)] 1(5,6) by simp_all
    then have "Suc (length post) + (?K - 1) \<le> ?q + (Suc (length post1) + (?K1 - 1))" by arith
    from mult_le_mono1 [OF this, of "csize info"] assms(8) qr show ?thesis unfolding r(2) add_mult_distrib by linarith
  qed
  have h: "unat (of_nat ?r :: u32) < csize info" "csize info \<le> length (uninit (csize info * 512) s1)"
    "unat (0 :: u32) + unat k \<le> length buf" "unat (0 :: u32) + unat k < 2 ^ 32" "0 < unat k"
    using r assms(6,7) unat_less_2p32 [of k] by simp_all
  obtain p2 post2 s2 where 2: "write_loop info (of_nat ?r) 0 k p1 (uninit (csize info * 512) s1) buf s1 = Some (Inr (Some p2, s2))"
    "\<not> HAS_READING_ERROR p2" "extends info n s1 (pre1 @ c1 # post1) s2 (pre1 @ c1 # post2)"
    "content info s2 (c1 # post2) = patch (content info s1 (c1 # post2)) ?r (take (unat k) buf)"
    "\<forall>d. valid_cluster n d \<longrightarrow> d \<notin> set (c1 # post2) \<longrightarrow> dat info s2 d = dat info s1 d"
    "Suc (length post2) = max (Suc (length post1)) ((?r + unat k + (csize info - 1)) div csize info)"
    using write_loop_ok [OF assms(1) ok1 1(2) h cap] unfolding r(2) unat_0 drop_0 by blast
  have ext: "extends info n s (c # post) s2 (pre1 @ c1 # post2)" by (rule extends_trans [OF 1(3) 2(3)])
  then have ch: "fchain n (ent info s2) (pre1 @ c1 # post2)" by (rule extends_chain)
  have pre: "content info s2 pre1 = content info s pre1"
    by (rule content_cong) (use ch 1(4) 2(5) in \<open>auto simp: fchain_def data_kept_def\<close>)
  have mid: "content info s1 (c1 # post2) = content info s (c1 # post2)"
    by (rule content_cong) (use ch 1(4) in \<open>auto simp: fchain_def data_kept_def\<close>)
  have lp: "length (content info s pre1) = ?q * csize info" using length_content [OF assms(1,2)] 1(5) by simp
  have "content info s2 (pre1 @ c1 # post2) = patch (content info s (pre1 @ c1 # post2)) (unat start) (take (unat k) buf)"
  proof -
    have "?r = unat start - length (content info s pre1)" "length (content info s pre1) \<le> unat start" using lp qr by linarith+
    then show ?thesis unfolding content_append pre 2(4) mid by (simp only: patch_append_right)
  qed
  moreover have "length (pre1 @ c1 # post2) = max (Suc (length post)) ((unat start + unat k + (csize info - 1)) div csize info)"
  proof -
    let ?d = "(?r + unat k + (csize info - 1)) div csize info"
    have e: "unat start + unat k + (csize info - 1) = (?r + unat k + (csize info - 1)) + ?q * csize info" using qr by linarith
    have tot: "(unat start + unat k + (csize info - 1)) div csize info = ?q + ?d"
      unfolding e using cs by (subst div_mult_self1) simp_all
    have d: "0 < ?d" using assms(6) cs by (subst div_greater_zero_iff) simp
    have len: "length (pre1 @ c1 # post2) = ?q + Suc (length post2)" "?q + Suc (length post1) = max (Suc (length post)) (Suc ?q)"
      using 1(5,6) by simp_all
    show ?thesis unfolding tot len(1) by (rule max_lengths [OF len(2) 2(6) d])
  qed
  moreover have "hd (pre1 @ c1 # post2) = c" using ext by (cases pre1) (auto simp: extends_def)
  moreover have "dat info s2 d = dat info s d" if "valid_cluster n d" "d \<notin> set (pre1 @ c1 # post2)" for d
    using 2(5) 1(4) that by (simp add: data_kept_def)
  ultimately show ?thesis using 1(1) 2(1,2) ext on_chain_tests(1) [OF assms(1) ok1(3) 1(2)] r(2)
    by (intro exI [of _ p1] exI [of _ "of_nat ?r"] exI [of _ s1] exI [of _ p2] exI [of _ "pre1 @ c1 # post2"] exI [of _ s2]) (simp del: content_simps)
qed

definition written_info :: "fat32_basic_file_info_t \<Rightarrow> u32 list \<Rightarrow> u32 \<Rightarrow> u32 \<Rightarrow> fat32_basic_file_info_t" where
  "written_info f xs start k =
     (let f' = f\<lparr> ff_cluster := hd xs \<rparr> in
      if ff_attributes f AND FAT32_ATTRIBUTE_DIRECTORY = 0 then f'\<lparr> ff_size := max (ff_size f) (start + k) \<rparr> else f')"

lemma fat_write_file_ok:
  assumes "fat_geom info n" "fat_ok info n s" "hint_ok info s" "fat_file info n s f xs" "entry_ok info n s f xs"
    "0 < unat k" "unat k \<le> length buf" "datetime_get (fs_io s) = Inr (dt, io)"
    "unat start + unat k \<le> (length xs + (card (free_set info n s) - 1)) * csize info"
  shows "\<exists>xs' s'. fat32_write_file_sync info f start buf k s = Some (Inr (True, written_info f xs' start k, s')) \<and>
    fat_ok info n s' \<and> fs_io s' = io \<and> hint_ok info s' \<and> fchain n (ent info s') xs' \<and>
    (\<exists>new. xs' = xs @ new \<and> set new \<subseteq> free_set info n s \<and> free_set info n s' = free_set info n s - set new) \<and>
    length xs' = max (length xs) ((unat start + unat k + (csize info - 1)) div csize info) \<and>
    content info s' xs' = patch (content info s xs') (unat start) (take (unat k) buf) \<and>
    (\<forall>d. unat d < n \<longrightarrow> d \<notin> set xs' \<longrightarrow> ent info s' d = ent info s d) \<and>
    (\<forall>d. valid_cluster n d \<longrightarrow> d \<notin> set xs' \<longrightarrow>
       dat info s' d = (if d = ff_entry_cluster f then entry_written info s (written_info f xs' start k) dt else dat info s d)) \<and>
    set (cached info s) \<subseteq> set (cached info s')"
proof -
  note cs = csize_pos [OF assms(1)]
  have room: "2 \<le> card (free_set info n s)" if "xs = []"
  proof (rule ccontr)
    assume "\<not> 2 \<le> card (free_set info n s)"
    then have "card (free_set info n s) - 1 = 0" by simp
    then show False using assms(6,9) that by simp
  qed
  obtain p c post s1 where 1: "(if ff_cluster f \<noteq> 0
               then lbind (Some (chain_start info (ff_cluster f) s)) (\<lambda>(p, s). Some (Inr (p, f, s)))
               else lbind (fat32_take_new_cluster_sync info 0 s) (\<lambda>(c, s).
                    Some (Inr (\<lparr> pos_fat = FAT32_LAST_CLUSTER, pos_cluster = c \<rparr>, f\<lparr> ff_cluster := c \<rparr>, s)))) =
      Some (Inr (p, f\<lparr> ff_cluster := c \<rparr>, s1))"
    "on_chain p c post" "extends info n s xs s1 (c # post)" "data_kept info n s s1" "xs \<noteq> [] \<longrightarrow> c # post = xs" "xs = [] \<longrightarrow> post = []"
    using write_start_ok [OF assms(1-4) room] by blast
  have ok1: "fat_ok info n s1" "hint_ok info s1" "fchain n (ent info s1) (c # post)"
    using 1(3) extends_ok [OF 1(3)] by (auto simp: extends_def)
  have "Suc (length post) + (card (free_set info n s1) - 1) = length xs + (card (free_set info n s) - 1)"
    using extends_card [OF 1(3)] 1(5,6) room by (cases "xs = []") auto
  with assms(9) have cap: "unat start + unat k \<le> (Suc (length post) + (card (free_set info n s1) - 1)) * csize info" by simp
  obtain p2 cp s2 p3 xs' s3 where 2: "write_skip info start p s1 = Some (Inr (Some (p2, cp), s2))" "\<not> HAS_READING_ERROR p2"
    "write_loop info cp 0 k p2 (uninit (csize info * 512) s2) buf s2 = Some (Inr (Some p3, s3))" "\<not> HAS_READING_ERROR p3"
    "extends info n s1 (c # post) s3 xs'" "hd xs' = c"
    "length xs' = max (Suc (length post)) ((unat start + unat k + (csize info - 1)) div csize info)"
    "content info s3 xs' = patch (content info s1 xs') (unat start) (take (unat k) buf)"
    "\<forall>d. valid_cluster n d \<longrightarrow> d \<notin> set xs' \<longrightarrow> dat info s3 d = dat info s1 d"
    using write_file_data_ok [OF assms(1) ok1 1(2) assms(6,7) cap] by blast
  have ext: "extends info n s xs s3 xs'" by (rule extends_trans [OF 1(3) 2(5)])
  then obtain new where new: "xs' = xs @ new" "set new \<subseteq> free_set info n s" "free_set info n s3 = free_set info n s - set new"
    by (auto simp: extends_def)
  have st: "fstep info n s s3" "fchain n (ent info s3) xs'" "hint_ok info s3" using ext by (simp_all add: extends_def)
  let ?f = "written_info f xs' start k" and ?e = "ff_entry_cluster f"
  have f: "ff_entry_cluster ?f = ?e" "ff_entry_index ?f = ff_entry_index f" by (simp_all add: written_info_def Let_def)
  have e: "valid_cluster n ?e" "cluster_cached info s ?e" "ent info s ?e \<noteq> 0" "?e \<notin> set xs" "unat (ff_entry_index ?f) div 16 < spc info"
    using assms(5) by (simp_all add: entry_ok_def f)
  have ex: "?e \<notin> set xs'" using new e(3,4) by (auto simp: free_set_def)
  have de: "dat info s3 ?e = dat info s ?e" using 2(9) 1(4) e(1) ex by (simp add: data_kept_def)
  have io: "datetime_get (fs_io s3) = Inr (dt, io)" using assms(8) st(1) by (simp add: fstep_def)
  obtain s4 where 4: "fat32_update_directory_entry info ?f s3 = Inr (True, s4)" "fat_ok info n s4" "fs_io s4 = io"
    "set (cached info s3) \<subseteq> set (cached info s4)" "\<forall>d. unat d < n \<longrightarrow> ent info s4 d = ent info s3 d" "hint info (fview info s4) = hint info (fview info s3)"
    "\<forall>d. valid_cluster n d \<longrightarrow> dat info s4 d = (if d = ?e then entry_written info s ?f dt else dat info s3 d)"
    using update_directory_entry_ok [OF assms(1) fstep_ok [OF st(1)] e(1) fstep_cached [OF st(1) e(2)] e(5) f(1) io]
    unfolding entry_written_def f de by blast
  have c1: "content info s1 xs' = content info s xs'"
    by (rule content_cong) (use st(2) 1(4) in \<open>auto simp: fchain_def data_kept_def\<close>)
  have c4: "content info s4 xs' = content info s3 xs'"
    by (rule content_cong) (use st(2) ex 4(7) in \<open>auto simp: fchain_def\<close>)
  have "fat32_write_file_sync info f start buf k s = Some (Inr (True, ?f, s4))"
  proof -
    have "k \<noteq> 0" using assms(6) by auto
    moreover have "(if ff_attributes (f\<lparr> ff_cluster := c \<rparr>) AND FAT32_ATTRIBUTE_DIRECTORY = 0
        then f\<lparr> ff_cluster := c, ff_size := max (ff_size f) (start + k) \<rparr> else f\<lparr> ff_cluster := c \<rparr>) = ?f"
      by (simp add: written_info_def Let_def 2(6))
    ultimately show ?thesis
      unfolding fat32_write_file_sync_def 1(1) using 2(1-4) 4(1) by (simp add: unat_cluster_size_512 Let_def cong: if_cong)
  qed
  moreover have "free_set info n s4 = free_set info n s3" using 4(5,6) by (auto simp: free_set_def)
  moreover have "fchain n (ent info s4) xs'"
    using st(2) flinks_cong [of xs' "ent info s4" "ent info s3"] 4(5) by (auto simp: fchain_def valid_cluster_def)
  moreover have "length xs' = max (length xs) ((unat start + unat k + (csize info - 1)) div csize info)"
  proof -
    have "0 < (unat start + unat k + (csize info - 1)) div csize info" using assms(6) cs by (subst div_greater_zero_iff) simp
    then show ?thesis using 2(7) 1(5,6) by (cases "xs = []") auto
  qed
  moreover have "ent info s4 d = ent info s d" if "unat d < n" "d \<notin> set xs'" for d
    using 4(5) ext that by (simp add: extends_def)
  moreover have "dat info s4 d = (if d = ?e then entry_written info s ?f dt else dat info s d)" if "valid_cluster n d" "d \<notin> set xs'" for d
    using 4(7) 2(9) 1(4) that by (simp add: data_kept_def)
  ultimately show ?thesis using 4(2-4,6) st(1,3) new 2(8) c1 c4 unfolding hint_ok_def fstep_def
    by (intro exI [of _ xs'] exI [of _ s4]) (simp del: content_simps, blast)
qed

section \<open>Reading back\<close>

lemma patch_take_drop: "off + length d \<le> length b \<Longrightarrow> take (length d) (drop off (patch b off d)) = d"
  by (simp add: patch_def)

lemma fat_write_read_ok:
  assumes "fat_geom info n" "fat_ok info n s" "hint_ok info s" "fat_file info n s f xs" "entry_ok info n s f xs"
    "0 < unat k" "unat k \<le> length buf" "datetime_get (fs_io s) = Inr (dt, io)"
    "unat start + unat k \<le> (length xs + (card (free_set info n s) - 1)) * csize info"
    "unat start + unat k < 2 ^ 32" "ff_attributes f AND FAT32_ATTRIBUTE_DIRECTORY = 0" "unat k \<le> length out"
  shows "\<exists>f' s' s''. fat32_write_file_sync info f start buf k s = Some (Inr (True, f', s')) \<and>
    fat32_read_file info f' start out k s' = Some (Inr (True, take (unat k) buf @ drop (unat k) out, s'')) \<and> fat_ok info n s'' \<and>
    ff_size f' = max (ff_size f) (start + k)"
proof -
  note cs = csize_pos [OF assms(1)]
  obtain xs' s' where 1: "fat32_write_file_sync info f start buf k s = Some (Inr (True, written_info f xs' start k, s'))"
    "fat_ok info n s'" "fchain n (ent info s') xs'" "length xs' = max (length xs) ((unat start + unat k + (csize info - 1)) div csize info)"
    "content info s' xs' = patch (content info s xs') (unat start) (take (unat k) buf)"
    using fat_write_file_ok [OF assms(1-9)] by (elim exE conjE) (rule that)
  let ?f = "written_info f xs' start k"
  have fits: "unat start + unat k \<le> length xs' * csize info"
  proof -
    let ?t = "unat start + unat k"
    have "?t + (csize info - 1) < Suc ((?t + (csize info - 1)) div csize info) * csize info"
      using dividend_less_div_times [OF cs, of "?t + (csize info - 1)"] by simp
    then have "?t \<le> (?t + (csize info - 1)) div csize info * csize info" using cs unfolding mult_Suc by linarith
    also have "\<dots> \<le> length xs' * csize info" by (rule mult_le_mono1) (simp add: 1(4))
    finally show ?thesis .
  qed
  have f: "ff_cluster ?f = hd xs'" "ff_size ?f = max (ff_size f) (start + k)"
    using assms(11) by (simp_all add: written_info_def Let_def)
  have u: "unat (start + k) = unat start + unat k" by (rule unat_plus_less [OF assms(10)])
  then have "start + k \<le> max (ff_size f) (start + k)" by simp
  then have "unat (start + k) \<le> unat (ff_size ?f)" unfolding f(2) by (simp only: word_le_nat_alt)
  then have k: "unat k = min (unat k) (unat (ff_size ?f))" using u by simp
  have "unat start < length xs' * csize info" using fits assms(6) by linarith
  moreover from fat_read_file_ok [OF assms(1) 1(2,3) f(1) k assms(12), of start]
  obtain s'' where 2: "fat32_read_file info ?f start out k s' = Some (Inr (if unat start < length xs' * csize info
        then (True, patch out 0 (take (unat k) (drop (unat start) (content info s' xs'))), s'') else (False, out, s'')))" "fstep info n s' s''"
    by blast
  moreover have "take (unat k) (drop (unat start) (content info s' xs')) = take (unat k) buf"
  proof -
    have l: "length (take (unat k) buf) = unat k" using assms(7) by simp
    have "length (content info s xs') = length xs' * csize info" by (rule length_content [OF assms(1,2)])
    then show ?thesis using patch_take_drop [of "unat start" "take (unat k) buf" "content info s xs'"] fits
      unfolding 1(5) l by simp
  qed
  moreover have "patch out 0 (take (unat k) buf) = take (unat k) buf @ drop (unat k) out" using assms(7) by (simp add: patch_def)
  ultimately show ?thesis using 1(1) fstep_ok [OF 2(2)] f(2)
    by (intro exI [of _ ?f] exI [of _ s'] exI [of _ s'']) simp
qed

section \<open>Erasing a file\<close>

lemma fat_erase_file_ok:
  assumes "fat_geom info n" "fat_ok info n s" "fat_file info n s f xs" "entry_ok info n s f xs" "datetime_get (fs_io s) = Inr (dt, io)"
    "f' = f\<lparr> ff_size := 0, ff_cluster := 0 \<rparr>"
  shows "\<exists>s'. fat32_erase_file_sync info f s = Some (Inr (True, f', s')) \<and> fat_ok info n s' \<and> fs_io s' = io \<and> fat_file info n s' f' [] \<and>
    (\<forall>d. unat d < n \<longrightarrow> ent info s' d = (if d \<in> set xs then 0 else ent info s d)) \<and>
    (\<forall>d. valid_cluster n d \<longrightarrow> dat info s' d = (if d = ff_entry_cluster f then entry_written info s f' dt else dat info s d)) \<and>
    hint info (fview info s') = hint info (fview info s)"
proof -
  have "\<exists>s1. (if ff_cluster f \<noteq> 0 then fat32_release_clusters_sync info (ff_cluster f) s else Some (Inr (True, s))) = Some (Inr (True, s1)) \<and>
      fstep info n s s1 \<and> (\<forall>d. unat d < n \<longrightarrow> ent info s1 d = (if d \<in> set xs then 0 else ent info s d)) \<and>
      (\<forall>d. valid_cluster n d \<longrightarrow> dat info s1 d = dat info s d) \<and> hint info (fview info s1) = hint info (fview info s)"
  proof (cases "xs = []")
    case False
    then have c: "fchain n (ent info s) xs" "ff_cluster f = hd xs" using assms(3) by (simp_all add: fat_file_def)
    have "valid_cluster n (hd xs)" using c(1) False by (simp add: fchain_def)
    then have "ff_cluster f \<noteq> 0" using c(2) by (auto simp: valid_cluster_def)
    then show ?thesis using fat_release_ok [OF assms(1,2) c(1)] c(2) by simp
  qed (use assms(2,3) in \<open>simp add: fat_file_def\<close>)
  then obtain s1 where 1: "(if ff_cluster f \<noteq> 0 then fat32_release_clusters_sync info (ff_cluster f) s else Some (Inr (True, s))) = Some (Inr (True, s1))"
      "fstep info n s s1" "\<forall>d. unat d < n \<longrightarrow> ent info s1 d = (if d \<in> set xs then 0 else ent info s d)"
      "\<forall>d. valid_cluster n d \<longrightarrow> dat info s1 d = dat info s d" "hint info (fview info s1) = hint info (fview info s)"
    by blast
  let ?e = "ff_entry_cluster f"
  have f: "ff_entry_cluster f' = ?e" "ff_entry_index f' = ff_entry_index f" by (simp_all add: assms(6))
  have e: "valid_cluster n ?e" "cluster_cached info s ?e" "unat (ff_entry_index f') div 16 < spc info"
    using assms(4) by (simp_all add: entry_ok_def f)
  have io: "datetime_get (fs_io s1) = Inr (dt, io)" using assms(5) 1(2) by (simp add: fstep_def)
  have de: "dat info s1 ?e = dat info s ?e" using 1(4) e(1) by simp
  obtain s2 where 2: "fat32_update_directory_entry info f' s1 = Inr (True, s2)" "fat_ok info n s2" "fs_io s2 = io"
    "\<forall>d. unat d < n \<longrightarrow> ent info s2 d = ent info s1 d" "hint info (fview info s2) = hint info (fview info s1)"
    "\<forall>d. valid_cluster n d \<longrightarrow> dat info s2 d = (if d = ?e then entry_written info s f' dt else dat info s1 d)"
    using update_directory_entry_ok [OF assms(1) fstep_ok [OF 1(2)] e(1) fstep_cached [OF 1(2) e(2)] e(3) f(1) io]
    unfolding entry_written_def f de by blast
  have "fat32_erase_file_sync info f s = Some (Inr (True, f', s2))"
    unfolding fat32_erase_file_sync_def Let_def 1(1) using 2(1) assms(6) by simp
  then show ?thesis using 1 2 by (intro exI [of _ s2]) (simp add: fat_file_def assms(6))
qed

end
