(* ===== verification/Fat_List.thy ===== *)
theory Fat_List
  imports Fat_Create Fat_Correct
begin

text \<open>
  Listing a directory: \<^verbatim>\<open>fat32_read_directory\<close> computes the reference listing \<open>list_chain\<close> of the
  clusters of the directory, in which the pending long-name records are a plain list.
\<close>

unbundle bit_operations_syntax

section \<open>Names from long-name records\<close>

lemma length_lfn_chars [simp]: "length (lfn_chars e) = 13"
  by (simp add: lfn_chars_def)

definition wide_name :: "bytes list \<Rightarrow> u16 list" where
  "wide_name l = concat (map lfn_chars l) @ [0]"

lemma length_concat_lfn: "length (concat (map lfn_chars l)) = 13 * length l"
  by (induction l) simp_all

lemma lfn_collect_ok:
  assumes "da_inv a" "da_es a = 32" "unat (da_count a) \<le> 255"
    "unat i \<le> unat (da_count a)"
    "wide = concat (map lfn_chars (take (unat i) (da_list a))) @ replicate (13 * (unat (da_count a) - unat i) + 1) 0"
  shows "lfn_collect a i wide = Some (Inr (wide_name (da_list a)))"
  using assms(4,5)
proof (induction "unat (da_count a) - unat i" arbitrary: i wide)
  case 0
  then have e: "unat i = unat (da_count a)" by simp
  then have "\<not> ucast i < da_count a" by (simp add: word_less_nat_alt)
  then show ?case using 0 e by (subst lfn_collect.simps) (simp add: wide_name_def)
next
  case (Suc k)
  let ?pre = "concat (map lfn_chars (take (unat i) (da_list a)))" and ?e = "da_list a ! unat i"
  have lt: "unat i < unat (da_count a)" using Suc.hyps(2) by simp
  then have lt': "ucast i < da_count a" by (simp add: word_less_nat_alt)
  have nx: "unat (i + 1) = Suc (unat i)" using lt assms(3) by (simp add: unat_word_ariths)
  obtain off where off: "dynamic_array_get_by_index a (ucast i) = Inr off" "unat off + 32 \<le> length (da_buffer a)"
    "take 32 (drop (unat off) (da_buffer a)) = ?e"
    using dynamic_array_get_by_index_ok [OF assms(1) lt'] assms(2) by auto
  have lp: "length ?pre = unat i * 13" using length_concat_lfn [of "take (unat i) (da_list a)"] lt by simp
  have m: "unat (da_count a) - unat i = Suc (unat (da_count a) - unat (i + 1))" using lt nx by simp
  have w: "wide_write wide (unat i * 13) (lfn_chars ?e) = Inr (?pre @ lfn_chars ?e @ replicate (13 * (unat (da_count a) - unat (i + 1)) + 1) 0)"
    unfolding Suc.prems(2) m wide_write_def using lp by simp
  have tk: "take (unat (i + 1)) (da_list a) = take (unat i) (da_list a) @ [?e]"
    unfolding nx by (rule take_Suc_conv_app_nth) (use lt in simp)
  have "lfn_collect a (i + 1) (?pre @ lfn_chars ?e @ replicate (13 * (unat (da_count a) - unat (i + 1)) + 1) 0) = Some (Inr (wide_name (da_list a)))"
  proof (rule Suc.hyps(1))
    show "k = unat (da_count a) - unat (i + 1)" using Suc.hyps(2) nx by simp
    show "unat (i + 1) \<le> unat (da_count a)" using nx lt by simp
  qed (simp only: tk map_append concat_append list.map concat.simps append.assoc append_Nil2)
  then show ?case using lt' off(1) w
    by (subst lfn_collect.simps) (simp add: buf_read_ok [OF off(2)] off(3) del: replicate.simps)
qed

lemma wide_char_to_utf8_loop_total:
  assumes "0 \<in> set src" "unat n \<le> length dst" "4 \<le> unat n" "unat j + 1 \<le> unat n"
  shows "\<exists>d k. wide_char_to_utf8_loop dst src n j = Inr (d, k) \<and> length d = length dst \<and> unat k + 1 \<le> unat n"
  using assms
proof (induction dst src n j rule: wide_char_to_utf8_loop.induct)
  case (2 dst c src n j)
  show ?case
  proof (cases "c \<noteq> 0 \<and> j < n - 4")
    case True
    let ?k = "length (utf8_put c)"
    have k: "0 < ?k" "?k \<le> 3" by (rule length_utf8_put)+
    have "unat (n - 4) = unat n - 4" using 2(4) by (simp add: unat_minus_le)
    then have lt: "unat j + 4 < unat n" using conjunct2 [OF True] unfolding word_less_nat_alt by linarith
    then have u: "unat (j + of_nat ?k) = unat j + ?k" using k unat_less_2p32 [of n]
      by (simp add: unat_word_ariths unat_of_nat)
    let ?d = "take (unat j) dst @ utf8_put c @ drop (unat j + ?k) dst"
    have w: "buf_write dst (unat j) (utf8_put c) = Inr ?d" using lt k 2(3) by simp
    have "length ?d = length dst" using lt k 2(3) by simp
    then show ?thesis using 2(1) [OF True, of ?d] 2(2-4) True lt k u w by auto
  qed (use 2 in auto)
qed simp

lemma wide_char_to_utf8_total:
  assumes "0 \<in> set src" "unat n \<le> length dst" "4 \<le> unat n"
  shows "\<exists>d k. wide_char_to_utf8 dst src n = Inr (d, k)"
proof -
  obtain d k where "wide_char_to_utf8_loop dst src n 0 = Inr (d, k)" "length d = length dst" "unat k + 1 \<le> unat n"
    using wide_char_to_utf8_loop_total [OF assms, of 0] assms(3) by auto
  then show ?thesis using assms(2) by (simp add: wide_char_to_utf8_def)
qed

text \<open>The name made of a list of records; \<open>junk\<close> is the content of new memory.\<close>

definition name_size :: "bytes list \<Rightarrow> u32" where
  "name_size l = 2 * (13 * of_nat (length l) + 1)"

definition list_name :: "(nat \<Rightarrow> bytes) \<Rightarrow> bytes list \<Rightarrow> bytes" where
  "list_name junk l =
     (case wide_char_to_utf8 (junk (unat (name_size l))) (wide_name l) (name_size l) of
        Inl e \<Rightarrow> [] | Inr (b, k) \<Rightarrow> realloc_buf junk b (k + 1))"

lemma unat_name_size: "length l \<le> 255 \<Longrightarrow> unat (name_size l) = 2 * (13 * length l + 1)"
  by (simp add: name_size_def unat_word_ariths unat_of_nat)

lemma long_name_ok:
  assumes "da_inv a" "da_es a = 32" "unat (da_count a) \<le> 255" "da_count a \<noteq> 0" "\<And>k. length (junk k) = k"
  shows "long_name junk a = Some (Inr (list_name junk (da_list a)))"
proof -
  have c: "of_nat (length (da_list a)) = da_count a" by simp
  have sz: "2 * (13 * da_count a + 1) = name_size (da_list a)" by (simp add: name_size_def)
  have u: "unat (name_size (da_list a)) = 2 * (13 * unat (da_count a) + 1)" using unat_name_size [of "da_list a"] assms(3) by simp
  have "lfn_collect a 0 (replicate (unat (name_size (da_list a)) div 2) 0) = Some (Inr (wide_name (da_list a)))"
    by (rule lfn_collect_ok [OF assms(1-3)]) (simp_all add: u)
  moreover have "0 < unat (da_count a)" using assms(4) by (simp add: unat_gt_0)
  then have "4 \<le> unat (name_size (da_list a))" unfolding u by simp
  then obtain d k where "wide_char_to_utf8 (junk (unat (name_size (da_list a)))) (wide_name (da_list a)) (name_size (da_list a)) = Inr (d, k)"
    using wide_char_to_utf8_total [of "wide_name (da_list a)" "name_size (da_list a)" "junk (unat (name_size (da_list a)))"] assms(5)
    by (auto simp: wide_name_def)
  ultimately show ?thesis unfolding long_name_def Let_def sz by (simp only: lbind_simps list_name_def prod.case sum.case)
qed

section \<open>The reference listing\<close>

record list_state =
  ls_files :: "fat32_basic_file_info_t list"
  ls_lfn :: "bytes list"
  ls_first :: "u32 \<times> u16"

definition list_start :: list_state where
  "list_start = \<lparr> ls_files = [], ls_lfn = [], ls_first = (0, 0) \<rparr>"

text \<open>One entry: a long-name record is put in front of the pending ones, any other entry in use is a file.\<close>

definition list_entry :: "(nat \<Rightarrow> bytes) \<Rightarrow> u32 \<Rightarrow> nat \<Rightarrow> bytes \<Rightarrow> list_state \<Rightarrow> list_state" where
  "list_entry junk cluster i e r =
     (if e ! 11 = FAT32_ATTRIBUTE_DELETED then r
      else if e ! 11 = FAT32_ATTRIBUTE_LFN then
        r\<lparr> ls_lfn := e # ls_lfn r, ls_first := if fst (ls_first r) = 0 then (cluster, of_nat i) else ls_first r \<rparr>
      else if ls_lfn r = [] then
        r\<lparr> ls_files := ls_files r @ [file_of_entry e cluster (of_nat i) (short_name e) cluster (of_nat i)] \<rparr>
      else
        r\<lparr> ls_files := ls_files r @ [file_of_entry e cluster (of_nat i) (list_name junk (ls_lfn r)) (fst (ls_first r)) (snd (ls_first r))],
           ls_lfn := [], ls_first := (0, snd (ls_first r)) \<rparr>)"

fun list_cluster :: "(nat \<Rightarrow> bytes) \<Rightarrow> u32 \<Rightarrow> bytes \<Rightarrow> nat list \<Rightarrow> list_state \<Rightarrow> list_state" where
  "list_cluster junk cluster buffer [] r = r"
| "list_cluster junk cluster buffer (i # is) r =
     (let e = dir_entry buffer i in
      if e ! 0 = 0 then r else list_cluster junk cluster buffer is (list_entry junk cluster i e r))"

definition list_chain :: "fat32_info_t \<Rightarrow> fat_state \<Rightarrow> u32 list \<Rightarrow> list_state \<Rightarrow> list_state" where
  "list_chain info s xs r =
     foldl (\<lambda>r c. list_cluster (\<lambda>n. uninit n s) c (dat info s c) [0..<unat (entries_per_cluster info)] r) r xs"

definition dir_list :: "fat32_info_t \<Rightarrow> fat_state \<Rightarrow> u32 list \<Rightarrow> fat32_basic_file_info_t list" where
  "dir_list info s xs = ls_files (list_chain info s xs list_start)"

text \<open>No name has more than 255 records.\<close>

fun runs_ok :: "bytes \<Rightarrow> nat list \<Rightarrow> nat \<Rightarrow> bool" where
  "runs_ok buffer [] k \<longleftrightarrow> k \<le> 255"
| "runs_ok buffer (i # is) k \<longleftrightarrow> k \<le> 255 \<and>
     (let e = dir_entry buffer i in
      e ! 0 = 0 \<or>
      runs_ok buffer is (if e ! 11 = FAT32_ATTRIBUTE_DELETED then k else if e ! 11 = FAT32_ATTRIBUTE_LFN then Suc k else 0))"

definition acc_rel :: "dir_acc \<Rightarrow> list_state \<Rightarrow> bool" where
  "acc_rel acc r \<longleftrightarrow> dir_files acc = ls_files r \<and> da_inv (dir_lfn acc) \<and> da_es (dir_lfn acc) = 32 \<and>
     da_list (dir_lfn acc) = ls_lfn r \<and> ls_first r = (dir_lfn_cluster acc, dir_lfn_index acc)"

section \<open>The code computes it\<close>

lemma length_dir_entry: "32 * i + 32 \<le> length b \<Longrightarrow> length (dir_entry b i) = 32"
  by (simp add: dir_entry_def)

lemma acc_rel_room:
  assumes "acc_rel acc r" "length (ls_lfn r) \<le> 255"
  shows "da_room (dir_lfn acc)" "unat (da_count (dir_lfn acc)) \<le> 255"
proof -
  have l: "unat (da_count (dir_lfn acc)) = length (ls_lfn r)" using assms(1) length_da_list [of "dir_lfn acc"] by (simp add: acc_rel_def)
  then show "unat (da_count (dir_lfn acc)) \<le> 255" using assms(2) by simp
  moreover have "da_size (dir_lfn acc) = 1 \<or> unat (da_size (dir_lfn acc)) \<le> 4 * unat (da_count (dir_lfn acc))"
    using assms(1) by (simp add: acc_rel_def da_inv_def)
  ultimately have "unat (da_size (dir_lfn acc)) \<le> 1020" by auto
  then show "da_room (dir_lfn acc)" using assms(1) by (simp add: da_room_def acc_rel_def)
qed

lemma acc_rel_count: "acc_rel acc r \<Longrightarrow> da_count (dir_lfn acc) = 0 \<longleftrightarrow> ls_lfn r = []"
  using length_da_list [of "dir_lfn acc"] by (auto simp: acc_rel_def unat_eq_0 [symmetric])

lemma acc_rel_push:
  assumes "acc_rel acc r" "length (ls_lfn r) \<le> 255" "length e = 32" "\<And>k. length (junk k) = k" "e ! 11 = FAT32_ATTRIBUTE_LFN"
  shows "\<exists>l. dynamic_array_push_front junk (dir_lfn acc) e = Inr l \<and>
    acc_rel ((if dir_lfn_cluster acc = 0 then acc\<lparr> dir_lfn_cluster := c, dir_lfn_index := of_nat i \<rparr> else acc)\<lparr> dir_lfn := l \<rparr>)
      (list_entry junk c i e r)"
  using dynamic_array_push_front_ok [of "dir_lfn acc" e junk] acc_rel_room [OF assms(1,2)] assms
  by (auto simp: acc_rel_def list_entry_def FAT32_ATTRIBUTE_LFN_def FAT32_ATTRIBUTE_DELETED_def)

lemma dynamic_array_clear_es [simp]: "da_es (dynamic_array_clear junk a) = da_es a"
  by (simp add: dynamic_array_clear_def)

lemma acc_rel_file:
  assumes "acc_rel acc r" "length (ls_lfn r) \<le> 255" "\<And>k. length (junk k) = k"
    "e ! 11 \<noteq> FAT32_ATTRIBUTE_LFN" "e ! 11 \<noteq> FAT32_ATTRIBUTE_DELETED"
  shows "\<exists>f acc'. (if da_count (dir_lfn acc) \<noteq> 0
               then lbind (long_name junk (dir_lfn acc)) (\<lambda>name.
                    Some (Inr (file_of_entry e c (of_nat i) name (dir_lfn_cluster acc) (dir_lfn_index acc),
                      acc\<lparr> dir_lfn := dynamic_array_clear junk (dir_lfn acc), dir_lfn_cluster := 0 \<rparr>)))
               else Some (Inr (file_of_entry e c (of_nat i) (short_name e) c (of_nat i), acc))) = Some (Inr (f, acc')) \<and>
    acc_rel (acc'\<lparr> dir_files := dir_files acc' @ [f] \<rparr>) (list_entry junk c i e r)"
proof (cases "ls_lfn r = []")
  case True
  then show ?thesis using assms acc_rel_count [OF assms(1)] by (auto simp: acc_rel_def list_entry_def)
next
  case False
  note z = acc_rel_count [OF assms(1)] and m = acc_rel_room(2) [OF assms(1,2)]
  have i: "da_inv (dir_lfn acc)" "da_es (dir_lfn acc) = 32" "da_list (dir_lfn acc) = ls_lfn r" using assms(1) by (simp_all add: acc_rel_def)
  have "long_name junk (dir_lfn acc) = Some (Inr (list_name junk (ls_lfn r)))"
    using long_name_ok [OF i(1,2) m _ assms(3)] z False i(3) by simp
  then show ?thesis using False z assms(1,4,5) dynamic_array_clear_ok [OF i(1) assms(3)]
    by (auto simp: acc_rel_def list_entry_def)
qed

lemma length_list_entry_lfn:
  "length (ls_lfn (list_entry junk c i e r)) =
     (if e ! 11 = FAT32_ATTRIBUTE_DELETED then length (ls_lfn r) else if e ! 11 = FAT32_ATTRIBUTE_LFN then Suc (length (ls_lfn r)) else 0)"
  by (simp add: list_entry_def)

lemma runs_ok_le: "runs_ok b js k \<Longrightarrow> k \<le> 255"
  by (cases js) simp_all

lemma dir_entries_ok:
  assumes "\<And>k. length (junk k) = k" "acc_rel acc r" "runs_ok buffer js (length (ls_lfn r))"
    "\<forall>i \<in> set js. 32 * i + 32 \<le> length buffer"
  shows "\<exists>acc'. dir_entries junk c buffer js acc = Some (Inr acc') \<and> acc_rel acc' (list_cluster junk c buffer js r)"
  using assms(2-)
proof (induction js arbitrary: acc r)
  case (Cons i js)
  let ?e = "dir_entry buffer i"
  note A = FAT32_ATTRIBUTE_DELETED_def FAT32_ATTRIBUTE_LFN_def
  have le: "length (ls_lfn r) \<le> 255" by (rule runs_ok_le [OF Cons.prems(2)])
  have l: "length ?e = 32" by (rule length_dir_entry) (use Cons.prems(3) in simp)
  show ?case
  proof (cases "?e ! 0 = 0")
    case True
    then show ?thesis using Cons.prems(1) by (simp add: Let_def)
  next
    case nz: False
    have step: "\<exists>acc'. dir_entries junk c buffer (i # js) acc = dir_entries junk c buffer js acc' \<and> acc_rel acc' (list_entry junk c i ?e r)"
    proof -
      consider (del) "?e ! 11 = FAT32_ATTRIBUTE_DELETED" | (lfn) "?e ! 11 = FAT32_ATTRIBUTE_LFN"
        | (plain) "?e ! 11 \<noteq> FAT32_ATTRIBUTE_LFN" "?e ! 11 \<noteq> FAT32_ATTRIBUTE_DELETED" by blast
      then show ?thesis
      proof cases
        case del
        then show ?thesis using nz Cons.prems(1) by (intro exI [of _ acc]) (simp add: Let_def A list_entry_def)
      next
        case lfn
        from acc_rel_push [where c = c and i = i and e = ?e and junk = junk, OF Cons.prems(1) le l assms(1) lfn] obtain a where a:
          "dynamic_array_push_front junk (dir_lfn acc) ?e = Inr a"
          "acc_rel ((if dir_lfn_cluster acc = 0 then acc\<lparr> dir_lfn_cluster := c, dir_lfn_index := of_nat i \<rparr> else acc)\<lparr> dir_lfn := a \<rparr>)
            (list_entry junk c i ?e r)" by blast
        have "?e ! 11 \<noteq> 0xE5" "?e ! 11 = 0x0F" using lfn by (simp_all add: A)
        moreover have "dir_lfn (if dir_lfn_cluster acc = 0 then acc\<lparr> dir_lfn_cluster := c, dir_lfn_index := of_nat i \<rparr> else acc) = dir_lfn acc" by simp
        ultimately have "dir_entries junk c buffer (i # js) acc = dir_entries junk c buffer js
            ((if dir_lfn_cluster acc = 0 then acc\<lparr> dir_lfn_cluster := c, dir_lfn_index := of_nat i \<rparr> else acc)\<lparr> dir_lfn := a \<rparr>)"
          using nz by (simp add: Let_def a(1))
        then show ?thesis using a(2) by blast
      next
        case plain
        from acc_rel_file [where c = c and i = i and e = ?e and junk = junk, OF Cons.prems(1) le assms(1) plain]
        obtain f acc' where a: "(if da_count (dir_lfn acc) \<noteq> 0
               then lbind (long_name junk (dir_lfn acc)) (\<lambda>name.
                    Some (Inr (file_of_entry ?e c (of_nat i) name (dir_lfn_cluster acc) (dir_lfn_index acc),
                      acc\<lparr> dir_lfn := dynamic_array_clear junk (dir_lfn acc), dir_lfn_cluster := 0 \<rparr>)))
               else Some (Inr (file_of_entry ?e c (of_nat i) (short_name ?e) c (of_nat i), acc))) = Some (Inr (f, acc'))"
          "acc_rel (acc'\<lparr> dir_files := dir_files acc' @ [f] \<rparr>) (list_entry junk c i ?e r)" by blast
        have "?e ! 11 \<noteq> 0xE5" "?e ! 11 \<noteq> 0x0F" using plain by (simp_all add: A)
        then have "dir_entries junk c buffer (i # js) acc = dir_entries junk c buffer js (acc'\<lparr> dir_files := dir_files acc' @ [f] \<rparr>)"
          using nz by (simp only: dir_entries.simps Let_def if_False a(1) lbind_simps prod.case)
        then show ?thesis using a(2) by blast
      qed
    qed
    then obtain acc' where 1: "dir_entries junk c buffer (i # js) acc = dir_entries junk c buffer js acc'" "acc_rel acc' (list_entry junk c i ?e r)"
      by blast
    have "runs_ok buffer js (length (ls_lfn (list_entry junk c i ?e r)))"
      unfolding length_list_entry_lfn using Cons.prems(2) nz by (simp add: Let_def)
    from Cons.IH [OF 1(2) this] Cons.prems(3) show ?thesis unfolding 1(1) using nz by (simp add: Let_def)
  qed
qed simp

text \<open>The clusters of the directory.\<close>

fun runs_chain :: "fat32_info_t \<Rightarrow> fat_state \<Rightarrow> u32 list \<Rightarrow> list_state \<Rightarrow> bool" where
  "runs_chain info s [] r \<longleftrightarrow> True"
| "runs_chain info s (c # xs) r \<longleftrightarrow> runs_ok (dat info s c) [0..<unat (entries_per_cluster info)] (length (ls_lfn r)) \<and>
     runs_chain info s xs (list_cluster (\<lambda>n. uninit n s) c (dat info s c) [0..<unat (entries_per_cluster info)] r)"

lemma unat_entries_per_cluster: "unat (entries_per_cluster info) = 16 * spc info" "32 * (16 * spc info) = csize info"
  using spc_less [of info] by (simp_all add: entries_per_cluster_def unat_word_ariths)

lemma list_chain_simps:
  "list_chain info s [] r = r"
  "list_chain info s (c # xs) r =
     list_chain info s xs (list_cluster (\<lambda>n. uninit n s) c (dat info s c) [0..<unat (entries_per_cluster info)] r)"
  by (simp_all add: list_chain_def)

lemma uninit_fun: "fstep info n s s' \<Longrightarrow> (\<lambda>k. uninit k s') = (\<lambda>k. uninit k s)"
  by (rule ext) (rule fstep_uninit)

lemma list_chain_step:
  assumes "fstep info n s s'" "fview info s' = fview info s"
  shows "list_chain info s' xs r = list_chain info s xs r" "runs_chain info s' xs r = runs_chain info s xs r"
proof -
  show "list_chain info s' xs r = list_chain info s xs r" unfolding list_chain_def assms(2) uninit_fun [OF assms(1)] ..
  show "runs_chain info s' xs r = runs_chain info s xs r"
    by (induction xs arbitrary: r) (simp_all add: assms(2) uninit_fun [OF assms(1)])
qed

lemma dir_loop_round:
  assumes "fat_geom info n" "fat_ok info n s" "fchain n (ent info s) (c # xs)" "length buf = csize info"
    "acc_rel acc r" "runs_chain info s (c # xs) r"
  shows "\<exists>acc' s'. dir_loop info (pos_at (ent info s) c) buf acc s =
      (if xs = [] then Some (Inr (Some (pos_at (ent info s) c), acc', s'))
       else lbind (Some (fat32_next_cluster_sync info (pos_at (ent info s) c) s')) (\<lambda>(position, s).
            dir_loop info position (dat info s' c) acc' s)) \<and>
    acc_rel acc' (list_cluster (\<lambda>n. uninit n s) c (dat info s c) [0..<unat (entries_per_cluster info)] r) \<and>
    fstep info n s s' \<and> fview info s' = fview info s"
proof -
  note p = pos_at_last [OF fat_geom_n [OF assms(1)] assms(3)]
  have v: "valid_cluster n c" using assms(3) by (simp add: fchain_def)
  obtain s' where 1: "fat32_read_cluster_sync info c buf s = Inr (True, dat info s c, s')" "fstep info n s s'" "fview info s' = fview info s"
    using read_cluster_ok [OF assms(1,2) v, of buf] assms(4) by auto
  have u: "(\<lambda>k. uninit k s') = (\<lambda>k. uninit k s)" by (rule uninit_fun [OF 1(2)])
  have "\<forall>i \<in> set [0..<unat (entries_per_cluster info)]. 32 * i + 32 \<le> length (dat info s c)"
    unfolding length_dat [OF assms(1,2)] unat_entries_per_cluster(2) [symmetric] unat_entries_per_cluster(1) by auto
  moreover have "runs_ok (dat info s c) [0..<unat (entries_per_cluster info)] (length (ls_lfn r))" using assms(6) by simp
  ultimately obtain acc' where 2: "dir_entries (\<lambda>k. uninit k s) c (dat info s c) [0..<unat (entries_per_cluster info)] acc = Some (Inr acc')"
    "acc_rel acc' (list_cluster (\<lambda>k. uninit k s) c (dat info s c) [0..<unat (entries_per_cluster info)] r)"
    using dir_entries_ok [where junk = "\<lambda>k. uninit k s", OF length_uninit assms(5)] by blast
  have c: "pos_cluster (pos_at (ent info s) c) = c" by (simp add: pos_at_def)
  show ?thesis
    by (intro exI [of _ acc'] exI [of _ s'] conjI 1(2,3) 2(2), subst dir_loop.simps)
       (simp only: p(1,2) c if_False 1(1) lbind_simps prod.case not_True_eq_False u 2(1) 1(3))
qed

lemma dir_loop_ok:
  assumes "fat_geom info n" "fat_ok info n s" "fchain n (ent info s) (c # xs)" "length buf = csize info"
    "acc_rel acc r" "runs_chain info s (c # xs) r"
  shows "\<exists>p acc' s'. dir_loop info (pos_at (ent info s) c) buf acc s = Some (Inr (Some p, acc', s')) \<and> \<not> HAS_READING_ERROR p \<and>
    acc_rel acc' (list_chain info s (c # xs) r) \<and> fstep info n s s' \<and> fview info s' = fview info s"
  using assms(2-)
proof (induction xs arbitrary: c buf acc r s)
  case Nil
  then show ?case using dir_loop_round [OF assms(1) Nil] pos_at_last(1) [OF fat_geom_n [OF assms(1)] Nil(2)]
    by (auto simp: list_chain_simps)
next
  case (Cons d xs)
  note p = pos_at_last [OF fat_geom_n [OF assms(1)] Cons.prems(2)]
  let ?r = "list_cluster (\<lambda>n. uninit n s) c (dat info s c) [0..<unat (entries_per_cluster info)] r"
  obtain acc' s1 where 1: "dir_loop info (pos_at (ent info s) c) buf acc s =
      lbind (Some (fat32_next_cluster_sync info (pos_at (ent info s) c) s1)) (\<lambda>(position, s).
            dir_loop info position (dat info s1 c) acc' s)"
    "acc_rel acc' ?r" "fstep info n s s1" "fview info s1 = fview info s"
    using dir_loop_round [OF assms(1) Cons.prems] by auto
  have "pos_fat (pos_at (ent info s) c) = d" using p(3) by (simp add: pos_at_def)
  from next_cluster_ok [OF assms(1) fstep_ok [OF 1(3)] Cons.prems(2) this] obtain s2 where
    2: "fat32_next_cluster_sync info (pos_at (ent info s) c) s1 = Inr (pos_at (ent info s) d, s2)" "fstep info n s1 s2" "fview info s2 = fview info s"
    unfolding 1(4) by blast
  have 12: "fstep info n s s2" by (rule fstep_trans [OF 1(3) 2(2)])
  have "\<exists>p acc'' s'. dir_loop info (pos_at (ent info s2) d) (dat info s1 c) acc' s2 = Some (Inr (Some p, acc'', s')) \<and> \<not> HAS_READING_ERROR p \<and>
    acc_rel acc'' (list_chain info s2 (d # xs) ?r) \<and> fstep info n s2 s' \<and> fview info s' = fview info s2"
  proof (rule Cons.IH [OF fstep_ok [OF 12] _ _ 1(2)])
    show "fchain n (ent info s2) (d # xs)" using fchain_tl [OF Cons.prems(2)] by (simp add: 2(3))
    show "length (dat info s1 c) = csize info" by (rule length_dat [OF assms(1) fstep_ok [OF 1(3)]])
    show "runs_chain info s2 (d # xs) ?r" unfolding list_chain_step(2) [OF 12 2(3)] using Cons.prems(5) by simp
  qed
  then obtain p' acc'' s3 where 3: "dir_loop info (pos_at (ent info s) d) (dat info s1 c) acc' s2 = Some (Inr (Some p', acc'', s3))"
    "\<not> HAS_READING_ERROR p'" "acc_rel acc'' (list_chain info s (c # d # xs) r)" "fstep info n s2 s3" "fview info s3 = fview info s"
    unfolding list_chain_step [OF 12 2(3)] 2(3) list_chain_simps(2) [of info s c] by blast
  show ?case using 1(1) 2(1) 3 fstep_trans [OF 12 3(4)] by (intro exI [of _ p'] exI [of _ acc''] exI [of _ s3]) simp
qed

text \<open>Listing a directory yields the reference listing of its clusters, and only fills the cache.\<close>

lemma fat_read_directory_ok:
  assumes "fat_geom info n" "fat_ok info n s" "fchain n (ent info s) xs" "ff_cluster d = hd xs" "runs_chain info s xs list_start"
  shows "\<exists>s'. fat32_read_directory info d s = Some (Inr (Some (dir_list info s xs), s')) \<and>
    fstep info n s s' \<and> fview info s' = fview info s"
proof -
  obtain c ys where xs: "xs = c # ys" using assms(3) by (cases xs) (auto simp: fchain_def)
  have "valid_cluster n c" using assms(3) by (simp add: fchain_def xs)
  from chain_start_ok [OF assms(1,2) this] obtain s1 where
    1: "chain_start info (ff_cluster d) s = Inr (pos_at (ent info s) c, s1)" "fstep info n s s1" "fview info s1 = fview info s"
    using assms(4) xs by auto
  let ?acc = "\<lparr> dir_files = [], dir_lfn = dynamic_array_create (\<lambda>n. uninit n s1) 32, dir_lfn_cluster = 0, dir_lfn_index = 0 \<rparr>"
  have a: "acc_rel ?acc list_start"
    using dynamic_array_create_ok [of 32 "\<lambda>n. uninit n s1"] by (simp add: acc_rel_def list_start_def) (simp add: dynamic_array_create_def)
  have sz: "unat (32 * entries_per_cluster info) = csize info"
    using unat_entries_per_cluster [of info] spc_less [of info] by (simp add: unat_word_ariths)
  have "fchain n (ent info s1) (c # ys)" "runs_chain info s1 (c # ys) list_start"
    using assms(3,5) list_chain_step(2) [OF 1(2,3)] unfolding xs 1(3) by blast+
  from dir_loop_ok [OF assms(1) fstep_ok [OF 1(2)] this(1) _ a this(2), of "uninit (csize info) s1"]
  obtain p acc' s2 where 2: "dir_loop info (pos_at (ent info s) c) (uninit (csize info) s1) ?acc s1 = Some (Inr (Some p, acc', s2))"
    "\<not> HAS_READING_ERROR p" "acc_rel acc' (list_chain info s xs list_start)" "fstep info n s1 s2" "fview info s2 = fview info s"
    unfolding 1(3) list_chain_step(1) [OF 1(2,3)] xs by auto
  show ?thesis using 1(1) 2 fstep_trans [OF 1(2) 2(4)]
    by (intro exI [of _ s2]) (simp add: fat32_read_directory_def sz dir_list_def acc_rel_def)
qed

end
