(* ===== verification/Fat_Remove.thy ===== *)
theory Fat_Remove
  imports Fat_List
begin

text \<open>
  Removing an entry: \<^verbatim>\<open>fat32_remove_directory_entry\<close> takes exactly one file out of the listing of its
  directory, when the records of its name and its entry lie in one cluster.
\<close>

unbundle bit_operations_syntax

section \<open>Marking the entries\<close>

definition deleted_entry :: "bytes \<Rightarrow> bytes" where
  "deleted_entry e = e[11 := FAT32_ATTRIBUTE_DELETED]"

lemma deleted_entry_nth:
  "length e = 32 \<Longrightarrow> deleted_entry e ! 11 = FAT32_ATTRIBUTE_DELETED" "deleted_entry e ! 0 = e ! 0"
  by (simp_all add: deleted_entry_def)

lemma dir_entry_nth: "32 * i + 32 \<le> length b \<Longrightarrow> k < 32 \<Longrightarrow> dir_entry b i ! k = b ! (32 * i + k)"
  by (simp add: dir_entry_def)

lemma dir_entry_update:
  assumes "32 * i + 32 \<le> length b" "k < 32"
  shows "dir_entry (b[32 * i + k := x]) j = (if j = i then (dir_entry b i)[k := x] else dir_entry b j)"
proof -
  consider "32 \<le> 32 * i + k - 32 * j" "j \<noteq> i" "32 * j \<le> 32 * i + k" | "j = i" | "i < j" by linarith
  then show ?thesis using assms
    by cases (simp_all add: dir_entry_def drop_update_swap take_update_swap drop_update_cancel list_update_beyond)
qed

lemma mark_deleted_ok:
  assumes "a \<le> b" "b < m" "32 * m \<le> length buf" "\<forall>i. a \<le> i \<and> i < b \<longrightarrow> dir_entry buf i ! 11 = FAT32_ATTRIBUTE_LFN"
    "dir_entry buf b ! 11 \<noteq> FAT32_ATTRIBUTE_LFN"
  shows "\<exists>buf'. mark_deleted [a..<m] buf = (buf', True) \<and> length buf' = length buf \<and>
    (\<forall>i. dir_entry buf' i = (if a \<le> i \<and> i \<le> b then deleted_entry (dir_entry buf i) else dir_entry buf i))"
  using assms
proof (induction "b - a" arbitrary: a buf)
  case 0
  then have ab: "a = b" by simp
  have u: "[a..<m] = a # [Suc a..<m]" using 0 by (simp add: upt_rec)
  have l: "32 * a + 32 \<le> length buf" using 0 ab by simp
  have "buf ! (32 * a + 11) \<noteq> FAT32_ATTRIBUTE_LFN" using 0 dir_entry_nth [OF l, of 11] ab by simp
  then show ?case unfolding u using dir_entry_update [OF l, of 11] ab
    by (auto simp: Let_def deleted_entry_def)
next
  case (Suc k)
  then have ab: "a < b" by simp
  have u: "[a..<m] = a # [Suc a..<m]" using Suc.prems by (simp add: upt_rec)
  have l: "32 * a + 32 \<le> length buf" using Suc.prems ab by simp
  define b1 where "b1 = buf[32 * a + 11 := FAT32_ATTRIBUTE_DELETED]"
  have e: "dir_entry b1 i = (if i = a then deleted_entry (dir_entry buf a) else dir_entry buf i)" for i
    unfolding b1_def deleted_entry_def by (rule dir_entry_update [OF l]) simp
  have "\<exists>buf'. mark_deleted [Suc a..<m] b1 = (buf', True) \<and> length buf' = length b1 \<and>
    (\<forall>i. dir_entry buf' i = (if Suc a \<le> i \<and> i \<le> b then deleted_entry (dir_entry b1 i) else dir_entry b1 i))"
  proof (rule Suc.hyps(1))
    show "k = b - Suc a" using Suc.hyps(2) by simp
    show "32 * m \<le> length b1" using Suc.prems(3) by (simp add: b1_def)
    show "\<forall>i. Suc a \<le> i \<and> i < b \<longrightarrow> dir_entry b1 i ! 11 = FAT32_ATTRIBUTE_LFN" using Suc.prems(4) by (simp add: e)
    show "dir_entry b1 b ! 11 \<noteq> FAT32_ATTRIBUTE_LFN" using Suc.prems(5) ab by (simp add: e)
  qed (use ab Suc.prems(2) in simp_all)
  then obtain buf' where 1: "mark_deleted [Suc a..<m] b1 = (buf', True)" "length buf' = length buf"
    "\<forall>i. dir_entry buf' i = (if Suc a \<le> i \<and> i \<le> b then deleted_entry (dir_entry b1 i) else dir_entry b1 i)"
    by (auto simp: b1_def)
  have "buf ! (32 * a + 11) = FAT32_ATTRIBUTE_LFN" using Suc.prems(4) dir_entry_nth [OF l, of 11] ab by simp
  then have "mark_deleted [a..<m] buf = (buf', True)" unfolding u by (simp add: Let_def b1_def [symmetric] 1(1))
  moreover have "dir_entry buf' i = (if a \<le> i \<and> i \<le> b then deleted_entry (dir_entry buf i) else dir_entry buf i)" for i
    using 1(3) ab by (auto simp: e)
  ultimately show ?case using 1(2) by (intro exI [of _ buf']) simp
qed

section \<open>Listings that differ in the files found so far\<close>

definition list_wf :: "list_state \<Rightarrow> bool" where
  "list_wf r \<longleftrightarrow> (ls_lfn r = [] \<longleftrightarrow> fst (ls_first r) = 0)"

definition list_sim :: "fat32_basic_file_info_t list \<Rightarrow> fat32_basic_file_info_t list \<Rightarrow> list_state \<Rightarrow> list_state \<Rightarrow> bool" where
  "list_sim A B r q \<longleftrightarrow> (\<exists>X. ls_files r = A @ X \<and> ls_files q = B @ X) \<and> ls_lfn r = ls_lfn q \<and> list_wf r \<and> list_wf q \<and>
     (ls_lfn q \<noteq> [] \<longrightarrow> ls_first r = ls_first q)"

lemma list_entry_wf: "list_wf r \<Longrightarrow> c \<noteq> 0 \<Longrightarrow> list_wf (list_entry junk c i e r)"
  by (auto simp: list_wf_def list_entry_def)

lemma list_entry_sim:
  assumes "list_sim A B r q" "c \<noteq> 0"
  shows "list_sim A B (list_entry junk c i e r) (list_entry junk c i e q)"
proof -
  have "list_wf r" "list_wf q" using assms(1) by (simp_all add: list_sim_def)
  note w = list_entry_wf [OF this(1) assms(2)] list_entry_wf [OF this(2) assms(2)]
  obtain X where X: "ls_files r = A @ X" "ls_files q = B @ X" using assms(1) by (auto simp: list_sim_def)
  have f: "\<exists>X. ls_files (list_entry junk c i e r) = A @ X \<and> ls_files (list_entry junk c i e q) = B @ X"
    using assms(1) X by (auto simp: list_sim_def list_entry_def)
  show ?thesis using f w assms by (auto simp: list_sim_def list_entry_def list_wf_def)
qed

lemma list_cluster_sim:
  "list_sim A B r q \<Longrightarrow> c \<noteq> 0 \<Longrightarrow> list_sim A B (list_cluster junk c b js r) (list_cluster junk c b js q)"
  by (induction js arbitrary: r q) (simp_all add: Let_def list_entry_sim)

lemma list_cluster_wf: "list_wf r \<Longrightarrow> c \<noteq> 0 \<Longrightarrow> list_wf (list_cluster junk c b js r)"
  by (induction js arbitrary: r) (simp_all add: Let_def list_entry_wf)

lemma list_chain_sim: "list_sim A B r q \<Longrightarrow> 0 \<notin> set xs \<Longrightarrow> list_sim A B (list_chain info s xs r) (list_chain info s xs q)"
  by (induction xs arbitrary: r q) (simp_all add: list_chain_simps list_cluster_sim)

lemma list_chain_wf: "list_wf r \<Longrightarrow> 0 \<notin> set xs \<Longrightarrow> list_wf (list_chain info s xs r)"
  by (induction xs arbitrary: r) (simp_all add: list_chain_simps list_cluster_wf)

lemma list_cluster_append:
  "\<forall>i \<in> set is. dir_entry b i ! 0 \<noteq> 0 \<Longrightarrow>
   list_cluster junk c b (is @ js) r = list_cluster junk c b js (list_cluster junk c b is r)"
  by (induction "is" arbitrary: r) (simp_all add: Let_def)

lemma list_cluster_cong:
  "\<forall>i \<in> set is. dir_entry b i = dir_entry b' i \<Longrightarrow> list_cluster junk c b is r = list_cluster junk c b' is r"
  by (induction "is" arbitrary: r) (simp_all add: Let_def)

lemma list_cluster_deleted:
  "\<forall>i \<in> set is. dir_entry b i ! 11 = FAT32_ATTRIBUTE_DELETED \<Longrightarrow> list_cluster junk c b is r = r"
  by (induction "is" arbitrary: r) (simp_all add: Let_def list_entry_def)

text \<open>A run of long-name records, and the entry behind it.\<close>

lemma list_cluster_run:
  assumes "ls_lfn r = []" "list_wf r" "c \<noteq> 0" "a \<le> b"
    "\<forall>i. a \<le> i \<and> i < b \<longrightarrow> dir_entry buf i ! 0 \<noteq> 0 \<and> dir_entry buf i ! 11 = FAT32_ATTRIBUTE_LFN"
  shows "ls_files (list_cluster junk c buf [a..<b] r) = ls_files r \<and>
    ls_lfn (list_cluster junk c buf [a..<b] r) = rev (map (dir_entry buf) [a..<b]) \<and>
    (a < b \<longrightarrow> ls_first (list_cluster junk c buf [a..<b] r) = (c, of_nat a))"
  using assms(4,5)
proof (induction b)
  case (Suc b)
  show ?case
  proof (cases "a \<le> b")
    case True
    have nz: "\<forall>i \<in> set [a..<b]. dir_entry buf i ! 0 \<noteq> 0" "dir_entry buf b ! 0 \<noteq> 0" using Suc.prems(2) True by simp_all
    have at: "dir_entry buf b ! 11 = FAT32_ATTRIBUTE_LFN" using Suc.prems(2) True by simp
    let ?q = "list_cluster junk c buf [a..<b] r"
    have e: "list_cluster junk c buf [a..<Suc b] r = list_entry junk c b (dir_entry buf b) ?q"
      using True nz(2) by (simp add: list_cluster_append [OF nz(1)] Let_def)
    have q: "ls_files ?q = ls_files r" "ls_lfn ?q = rev (map (dir_entry buf) [a..<b])" "a < b \<longrightarrow> ls_first ?q = (c, of_nat a)"
      using Suc.IH [OF True] Suc.prems(2) by auto
    have z: "a = b \<longrightarrow> fst (ls_first ?q) = 0" using assms(1,2) by (simp add: list_wf_def)
    show ?thesis unfolding e using q z True assms(3) at
      by (auto simp: list_entry_def FAT32_ATTRIBUTE_LFN_def FAT32_ATTRIBUTE_DELETED_def)
  qed (use Suc.prems assms in simp)
qed (use assms in simp)

section \<open>The directory before and after\<close>

text \<open>Entries \<open>a, \<dots>, b\<close> of a cluster are the records of a long name and the entry they belong to.\<close>

definition name_run :: "bytes \<Rightarrow> nat \<Rightarrow> nat \<Rightarrow> bool" where
  "name_run buf a b \<longleftrightarrow> a \<le> b \<and> (\<forall>i \<in> {0..b}. dir_entry buf i ! 0 \<noteq> 0) \<and>
     (\<forall>i \<in> {a..<b}. dir_entry buf i ! 11 = FAT32_ATTRIBUTE_LFN) \<and>
     dir_entry buf b ! 11 \<noteq> FAT32_ATTRIBUTE_LFN \<and> dir_entry buf b ! 11 \<noteq> FAT32_ATTRIBUTE_DELETED"

definition run_deleted :: "bytes \<Rightarrow> nat \<Rightarrow> nat \<Rightarrow> bytes \<Rightarrow> bool" where
  "run_deleted buf a b buf' \<longleftrightarrow>
     (\<forall>i. dir_entry buf' i = (if a \<le> i \<and> i \<le> b then deleted_entry (dir_entry buf i) else dir_entry buf i))"

lemma upt_split3: "a \<le> b \<Longrightarrow> b < m \<Longrightarrow> [0..<m] = [0..<a] @ [a..<b] @ [b] @ [Suc b..<m]"
  using upt_add_eq_append [of 0 a "m - a"] upt_add_eq_append [of a b "m - b"] by (simp add: upt_conv_Cons)

lemma list_run:
  assumes "name_run buf a b" "b < m" "ls_lfn (list_cluster junk c buf [0..<a] r) = []" "list_wf r" "c \<noteq> 0"
  shows "\<exists>q name. list_cluster junk c buf [0..<m] r = list_cluster junk c buf [Suc b..<m] q \<and>
    list_sim (ls_files (list_cluster junk c buf [0..<a] r))
      (ls_files (list_cluster junk c buf [0..<a] r) @ [file_of_entry (dir_entry buf b) c (of_nat b) name c (of_nat a)])
      (list_cluster junk c buf [0..<a] r) q"
proof -
  have n: "a \<le> b" "\<forall>i \<in> set [0..<a]. dir_entry buf i ! 0 \<noteq> 0" "\<forall>i \<in> set [a..<b]. dir_entry buf i ! 0 \<noteq> 0"
    "dir_entry buf b ! 0 \<noteq> 0" "dir_entry buf b ! 11 \<noteq> FAT32_ATTRIBUTE_LFN" "dir_entry buf b ! 11 \<noteq> FAT32_ATTRIBUTE_DELETED"
    "\<forall>i. a \<le> i \<and> i < b \<longrightarrow> dir_entry buf i ! 0 \<noteq> 0 \<and> dir_entry buf i ! 11 = FAT32_ATTRIBUTE_LFN"
    using assms(1) by (auto simp: name_run_def)
  let ?r1 = "list_cluster junk c buf [0..<a] r"
  let ?r2 = "list_cluster junk c buf [a..<b] ?r1"
  let ?q = "list_entry junk c b (dir_entry buf b) ?r2"
  have w1: "list_wf ?r1" by (rule list_cluster_wf [OF assms(4,5)])
  have wq: "list_wf ?q" by (intro list_entry_wf list_cluster_wf w1 assms(5))
  have e: "list_cluster junk c buf [0..<m] r = list_cluster junk c buf [Suc b..<m] ?q"
    unfolding upt_split3 [OF n(1) assms(2)] using n(4) by (simp add: list_cluster_append n(2,3) Let_def)
  have 2: "ls_files ?r2 = ls_files ?r1" "ls_lfn ?r2 = rev (map (dir_entry buf) [a..<b])" "a < b \<longrightarrow> ls_first ?r2 = (c, of_nat a)"
    using list_cluster_run [OF assms(3) w1 assms(5) n(1,7)] by auto
  have l: "ls_lfn ?q = []" using n(5,6) 2(2) by (simp add: list_entry_def)
  have "\<exists>name. ls_files ?q = ls_files ?r1 @ [file_of_entry (dir_entry buf b) c (of_nat b) name c (of_nat a)]"
  proof (cases "a = b")
    case True
    then show ?thesis using n(5,6) 2 by (auto simp: list_entry_def)
  next
    case False
    then have "a < b" using n(1) by simp
    then show ?thesis using n(5,6) 2 by (auto simp: list_entry_def)
  qed
  then show ?thesis using e l assms(3) w1 wq unfolding list_sim_def by (intro exI [of _ ?q]) auto
qed

lemma list_run_deleted:
  assumes "name_run buf a b" "b < m" "run_deleted buf a b buf'" "\<forall>i \<le> b. length (dir_entry buf i) = 32"
  shows "list_cluster junk c buf' [0..<m] r = list_cluster junk c buf [Suc b..<m] (list_cluster junk c buf [0..<a] r)"
proof -
  have n: "a \<le> b" "\<forall>i \<in> {0..b}. dir_entry buf i ! 0 \<noteq> 0" using assms(1) by (auto simp: name_run_def)
  have e: "dir_entry buf' i = (if a \<le> i \<and> i \<le> b then deleted_entry (dir_entry buf i) else dir_entry buf i)" for i
    using assms(3) by (simp add: run_deleted_def)
  have nz: "\<forall>i \<in> set [0..<a]. dir_entry buf' i ! 0 \<noteq> 0" "\<forall>i \<in> set ([a..<b] @ [b]). dir_entry buf' i ! 0 \<noteq> 0"
    using n by (auto simp: e deleted_entry_nth)
  have d: "\<forall>i \<in> set ([a..<b] @ [b]). dir_entry buf' i ! 11 = FAT32_ATTRIBUTE_DELETED"
    using n(1) assms(4) by (auto simp: e deleted_entry_nth)
  have c1: "list_cluster junk c buf' [0..<a] r = list_cluster junk c buf [0..<a] r" for r
    by (rule list_cluster_cong) (simp add: e)
  have c2: "list_cluster junk c buf' [Suc b..<m] r = list_cluster junk c buf [Suc b..<m] r" for r
    by (rule list_cluster_cong) (simp add: e)
  have "[0..<m] = [0..<a] @ ([a..<b] @ [b]) @ [Suc b..<m]" using upt_split3 [OF n(1) assms(2)] by simp
  then have "list_cluster junk c buf' [0..<m] r =
      list_cluster junk c buf' [Suc b..<m] (list_cluster junk c buf' ([a..<b] @ [b]) (list_cluster junk c buf' [0..<a] r))"
    by (simp only: list_cluster_append [OF nz(1)] list_cluster_append [OF nz(2)])
  then show ?thesis by (simp only: list_cluster_deleted [OF d] c1 c2)
qed

text \<open>The length of a name needs no care after a removal.\<close>

lemma runs_ok_append:
  "\<forall>i \<in> set is. dir_entry b i ! 0 \<noteq> 0 \<Longrightarrow> runs_ok b (is @ js) (length (ls_lfn r)) \<longleftrightarrow>
   runs_ok b is (length (ls_lfn r)) \<and> runs_ok b js (length (ls_lfn (list_cluster junk c b is r)))"
proof (induction "is" arbitrary: r)
  case Nil
  show ?case by (cases js) auto
next
  case (Cons i "is")
  then show ?case using Cons.IH [of "list_entry junk c i (dir_entry b i) r"]
    by (auto simp: Let_def length_list_entry_lfn)
qed

lemma runs_ok_cong: "\<forall>i \<in> set is. dir_entry b i = dir_entry b' i \<Longrightarrow> runs_ok b is k = runs_ok b' is k"
  by (induction "is" arbitrary: k) (simp_all add: Let_def)

lemma runs_ok_deleted: "\<forall>i \<in> set is. dir_entry b i ! 11 = FAT32_ATTRIBUTE_DELETED \<Longrightarrow> runs_ok b is k \<longleftrightarrow> k \<le> 255"
  by (induction "is") (auto simp: Let_def)

lemma runs_chain_sim: "list_sim A B r q \<Longrightarrow> 0 \<notin> set xs \<Longrightarrow> runs_chain info s xs r = runs_chain info s xs q"
proof (induction xs arbitrary: r q)
  case (Cons c xs)
  have "ls_lfn r = ls_lfn q" using Cons.prems(1) by (simp add: list_sim_def)
  then show ?case using Cons.IH [OF list_cluster_sim [OF Cons.prems(1)]] Cons.prems(2) by simp
qed simp

lemma runs_deleted:
  assumes "name_run buf a b" "b < m" "run_deleted buf a b buf'" "\<forall>i \<le> b. length (dir_entry buf i) = 32"
    "ls_lfn (list_cluster junk c buf [0..<a] r) = []" "list_wf r" "c \<noteq> 0" "runs_ok buf [0..<m] (length (ls_lfn r))"
  shows "runs_ok buf' [0..<m] (length (ls_lfn r))"
proof -
  have n: "a \<le> b" "\<forall>i \<in> {0..b}. dir_entry buf i ! 0 \<noteq> 0" using assms(1) by (auto simp: name_run_def)
  have e: "dir_entry buf' i = (if a \<le> i \<and> i \<le> b then deleted_entry (dir_entry buf i) else dir_entry buf i)" for i
    using assms(3) by (simp add: run_deleted_def)
  have nz: "\<forall>i \<in> set [0..<a]. dir_entry buf i ! 0 \<noteq> 0" "\<forall>i \<in> set ([0..<a] @ [a..<b] @ [b]). dir_entry buf i ! 0 \<noteq> 0"
    "\<forall>i \<in> set [0..<a]. dir_entry buf' i ! 0 \<noteq> 0" "\<forall>i \<in> set ([a..<b] @ [b]). dir_entry buf' i ! 0 \<noteq> 0"
    using n by (auto simp: e deleted_entry_nth)
  have d: "\<forall>i \<in> set ([a..<b] @ [b]). dir_entry buf' i ! 11 = FAT32_ATTRIBUTE_DELETED"
    using n(1) assms(4) by (auto simp: e deleted_entry_nth)
  have u: "[0..<m] = ([0..<a] @ [a..<b] @ [b]) @ [Suc b..<m]" using upt_split3 [OF n(1) assms(2)] by simp
  have c1: "list_cluster junk c buf' [0..<a] r = list_cluster junk c buf [0..<a] r"
    by (rule list_cluster_cong) (simp add: e)
  have "runs_ok buf ([0..<a] @ [a..<b] @ [b]) (length (ls_lfn r))"
    and tail: "runs_ok buf [Suc b..<m] (length (ls_lfn (list_cluster junk c buf ([0..<a] @ [a..<b] @ [b]) r)))"
    using assms(8) unfolding u runs_ok_append [where junk = junk and c = c, OF nz(2)] by blast+
  then have head: "runs_ok buf [0..<a] (length (ls_lfn r))"
    unfolding runs_ok_append [where junk = junk and c = c, OF nz(1)] by blast
  have "ls_lfn (list_cluster junk c buf ([0..<a] @ [a..<b] @ [b]) r) = []"
  proof -
    have "dir_entry buf b ! 11 \<noteq> FAT32_ATTRIBUTE_LFN" "dir_entry buf b ! 11 \<noteq> FAT32_ATTRIBUTE_DELETED" "dir_entry buf b ! 0 \<noteq> 0"
      using assms(1) by (simp_all add: name_run_def)
    moreover have "\<forall>i \<in> set ([0..<a] @ [a..<b]). dir_entry buf i ! 0 \<noteq> 0" using n by auto
    ultimately show ?thesis using list_cluster_append [of "[0..<a] @ [a..<b]" buf junk c "[b]" r] by (simp add: Let_def list_entry_def)
  qed
  then have tail: "runs_ok buf' [Suc b..<m] 0"
    using tail runs_ok_cong [of "[Suc b..<m]" buf' buf 0] by (simp add: e)
  have "runs_ok buf' [0..<a] (length (ls_lfn r))" using head runs_ok_cong [of "[0..<a]" buf' buf] by (simp add: e)
  moreover have "runs_ok buf' ([a..<b] @ [b]) 0" unfolding runs_ok_deleted [OF d] by simp
  moreover have "[0..<m] = [0..<a] @ ([a..<b] @ [b]) @ [Suc b..<m]" using u by simp
  moreover have "runs_ok buf' (([a..<b] @ [b]) @ [Suc b..<m]) (length (ls_lfn (list_cluster junk c buf' [0..<a] r)))"
    unfolding c1 runs_ok_append [where junk = junk and c = c, OF nz(4)] list_cluster_deleted [OF d]
    using assms(5) tail calculation(2) by simp
  ultimately show ?thesis by (simp only: runs_ok_append [where junk = junk and c = c, OF nz(3)])
qed

text \<open>The whole directory, when one of its clusters has the run of a file deleted.\<close>

lemma list_chain_append: "list_chain info s (xs @ ys) r = list_chain info s ys (list_chain info s xs r)"
  by (simp add: list_chain_def)

lemma runs_chain_append:
  "runs_chain info s (xs @ ys) r \<longleftrightarrow> runs_chain info s xs r \<and> runs_chain info s ys (list_chain info s xs r)"
  by (induction xs arbitrary: r) (simp_all add: list_chain_simps)

lemma list_chain_same:
  assumes "\<And>k. uninit k s' = uninit k s" "\<forall>x \<in> set xs. dat info s' x = dat info s x"
  shows "list_chain info s' xs r = list_chain info s xs r" "runs_chain info s' xs r = runs_chain info s xs r"
proof -
  have u: "(\<lambda>k. uninit k s') = (\<lambda>k. uninit k s)" using assms(1) by (rule ext)
  show "list_chain info s' xs r = list_chain info s xs r"
    using assms(2) by (induction xs arbitrary: r) (simp_all add: list_chain_simps u)
  show "runs_chain info s' xs r = runs_chain info s xs r"
    using assms(2) by (induction xs arbitrary: r) (simp_all add: u)
qed

definition run_in_dir :: "fat32_info_t \<Rightarrow> fat_state \<Rightarrow> u32 list \<Rightarrow> u32 \<Rightarrow> nat \<Rightarrow> nat \<Rightarrow> bool" where
  "run_in_dir info s pre c a b \<longleftrightarrow> name_run (dat info s c) a b \<and> b < 16 * spc info \<and>
     ls_lfn (list_cluster (\<lambda>n. uninit n s) c (dat info s c) [0..<a] (list_chain info s pre list_start)) = []"

lemma dir_list_remove:
  assumes "run_in_dir info s pre c a b" "run_deleted (dat info s c) a b (dat info s' c)"
    "\<And>k. uninit k s' = uninit k s" "\<forall>x \<in> set (pre @ post). dat info s' x = dat info s x"
    "length (dat info s c) = csize info" "0 \<notin> set (pre @ c # post)"
  shows "\<exists>A X name. dir_list info s (pre @ c # post) =
      A @ file_of_entry (dir_entry (dat info s c) b) c (of_nat b) name c (of_nat a) # X \<and>
    dir_list info s' (pre @ c # post) = A @ X"
    and "runs_chain info s (pre @ c # post) list_start \<Longrightarrow> runs_chain info s' (pre @ c # post) list_start"
proof -
  let ?buf = "dat info s c" and ?buf' = "dat info s' c" and ?m = "16 * spc info" and ?junk = "\<lambda>n. uninit n s"
  have d: "name_run ?buf a b" "b < ?m" "ls_lfn (list_cluster ?junk c ?buf [0..<a] (list_chain info s pre list_start)) = []"
    using assms(1) by (simp_all add: run_in_dir_def)
  have c: "c \<noteq> 0" "0 \<notin> set pre" "0 \<notin> set post" using assms(6) by auto
  let ?r0 = "list_chain info s pre list_start"
  let ?r1 = "list_cluster ?junk c ?buf [0..<a] ?r0"
  have w: "list_wf ?r0" by (rule list_chain_wf [OF _ c(2)]) (simp add: list_wf_def list_start_def)
  have len: "\<forall>i \<le> b. length (dir_entry ?buf i) = 32"
    using d(2) unat_entries_per_cluster(2) [of info] by (intro allI impI length_dir_entry) (simp add: assms(5))
  have u: "(\<lambda>k. uninit k s') = (\<lambda>k. uninit k s)" using assms(3) by (rule ext)
  have pre: "list_chain info s' pre r = list_chain info s pre r" "runs_chain info s' pre r = runs_chain info s pre r"
    and post: "list_chain info s' post r = list_chain info s post r" "runs_chain info s' post r = runs_chain info s post r" for r
    by (rule list_chain_same [OF assms(3)]; use assms(4) in simp)+
  obtain q name where q: "list_cluster ?junk c ?buf [0..<?m] ?r0 = list_cluster ?junk c ?buf [Suc b..<?m] q"
    "list_sim (ls_files ?r1) (ls_files ?r1 @ [file_of_entry (dir_entry ?buf b) c (of_nat b) name c (of_nat a)]) ?r1 q"
    using list_run [OF d(1-3) w c(1)] by blast
  have q': "list_cluster ?junk c ?buf' [0..<?m] ?r0 = list_cluster ?junk c ?buf [Suc b..<?m] ?r1"
    by (rule list_run_deleted [OF d(1,2) assms(2) len])
  note sim = list_cluster_sim [OF q(2) c(1), of ?junk ?buf "[Suc b..<?m]", folded q(1) q']
  have "list_sim (ls_files ?r1) (ls_files ?r1 @ [file_of_entry (dir_entry ?buf b) c (of_nat b) name c (of_nat a)])
      (list_chain info s' (pre @ c # post) list_start) (list_chain info s (pre @ c # post) list_start)"
    using list_chain_sim [OF sim c(3), of info s]
    by (simp add: list_chain_append list_chain_simps pre post u unat_entries_per_cluster(1))
  then show "\<exists>A X name. dir_list info s (pre @ c # post) =
      A @ file_of_entry (dir_entry ?buf b) c (of_nat b) name c (of_nat a) # X \<and> dir_list info s' (pre @ c # post) = A @ X"
    by (auto simp: list_sim_def dir_list_def)
  show "runs_chain info s' (pre @ c # post) list_start" if "runs_chain info s (pre @ c # post) list_start"
    using that runs_deleted [OF d(1,2) assms(2) len d(3) w c(1)] runs_chain_sim [OF sim c(3), of info s]
    by (simp add: runs_chain_append pre post u unat_entries_per_cluster(1))
qed

section \<open>The code\<close>

lemma fchain_same: "fchain n e xs \<Longrightarrow> \<forall>d \<in> set xs. e' d = e d \<Longrightarrow> fchain n e' xs"
  using flinks_cong [of xs e' e] by (simp add: fchain_def)

lemma fat_remove_entry_ok:
  assumes "fat_geom info n" "fat_ok info n s" "fchain n (ent info s) (pre @ c # post)" "run_in_dir info s pre c a b"
    "ff_first_entry_cluster f = c" "ff_first_entry_index f = of_nat a"
  shows "\<exists>s'. fat32_remove_directory_entry info f s = Some (Inr (True, s')) \<and> fstep info n s s' \<and>
    run_deleted (dat info s c) a b (dat info s' c) \<and>
    (\<forall>d. unat d < n \<longrightarrow> ent info s' d = ent info s d) \<and> (\<forall>d. valid_cluster n d \<longrightarrow> d \<noteq> c \<longrightarrow> dat info s' d = dat info s d)"
proof -
  have v: "valid_cluster n c" using assms(3) by (simp add: fchain_def)
  have d: "name_run (dat info s c) a b" "b < 16 * spc info" using assms(4) by (simp_all add: run_in_dir_def)
  have ab: "a \<le> b" "dir_entry (dat info s c) b ! 11 \<noteq> FAT32_ATTRIBUTE_LFN" "\<forall>i. a \<le> i \<and> i < b \<longrightarrow> dir_entry (dat info s c) i ! 11 = FAT32_ATTRIBUTE_LFN"
    using d(1) by (simp_all add: name_run_def)
  have "a < 2 ^ 16" using ab(1) d(2) spc_less [of info] by simp
  then have ua: "unat (ucast (of_nat a :: u16) :: u32) = a" by (simp add: unat_of_nat take_bit_nat_eq_self)
  from chain_start_ok [OF assms(1,2) v] obtain s1 where
    1: "chain_start info c s = Inr (pos_at (ent info s) c, s1)" "fstep info n s s1" "fview info s1 = fview info s" by blast
  let ?buf = "uninit (csize info) s1"
  from read_cluster_ok [OF assms(1) fstep_ok [OF 1(2)] v, of ?buf] obtain s2 where
    2: "fat32_read_cluster_sync info c ?buf s1 = Inr (True, dat info s c, s2)" "fstep info n s1 s2" "fview info s2 = fview info s"
    unfolding 1(3) by auto
  have l: "length (dat info s c) = csize info" by (rule length_dat [OF assms(1,2)])
  obtain b' where b': "mark_deleted [a..<16 * spc info] (dat info s c) = (b', True)" "length b' = csize info"
    "run_deleted (dat info s c) a b b'"
    using mark_deleted_ok [OF ab(1) d(2) _ ab(3,2)] l unat_entries_per_cluster(2) [of info] by (auto simp: run_deleted_def)
  from write_cluster_ok [OF assms(1) fstep_ok [OF 2(2)] v, of b'] obtain s3 where
    3: "fat32_write_cluster_sync info c b' s2 = Inr (True, s3)" "fstep info n s2 s3"
    "\<forall>d. unat d < n \<longrightarrow> ent info s3 d = ent info s2 d"
    "\<forall>d. valid_cluster n d \<longrightarrow> dat info s3 d = (if d = c then take (csize info) b' else dat info s2 d)"
    using b'(2) by auto
  have sz: "unat (32 * entries_per_cluster info) = csize info"
    using unat_entries_per_cluster [of info] spc_less [of info] by (simp add: unat_word_ariths)
  note p = on_chain_tests(1) [OF assms(1,3) on_chain_pos_at [OF assms(3)]]
  have pc: "pos_cluster (pos_at (ent info s) c) = c" by (simp add: pos_at_def)
  have "remove_loop info (ucast (of_nat a :: u16)) (pos_at (ent info s) c) ?buf s1 = Some (Inr (Some (pos_at (ent info s) c), s3))"
    by (subst remove_loop.simps)
       (simp only: p pc if_False if_True 2(1) lbind_simps prod.case not_True_eq_False ua unat_entries_per_cluster(1) b'(1) 3(1) Let_def)
  then have "fat32_remove_directory_entry info f s = Some (Inr (True, s3))"
    unfolding fat32_remove_directory_entry_def assms(5,6) 1(1) sz using p sz by simp
  moreover have "dat info s3 c = b'" using 3(4) v b'(2) by simp
  ultimately show ?thesis using 3(2-) b'(3) 2(3) fstep_trans [OF 1(2) fstep_trans [OF 2(2) 3(2)]]
    by (intro exI [of _ s3]) simp
qed

end
