(* ===== verification/Fat_Names.thy ===== *)
theory Fat_Names
  imports Fat_Remove
begin

text \<open>
  Long names: splitting a name into long-name records and collecting the records gives the name back,
  for names of ASCII characters.
\<close>

unbundle bit_operations_syntax

section \<open>A record and its characters\<close>

lemma list_13:
  assumes "length w = 13"
  shows "\<exists>a b c d e f g h i j k l m. w = [a, b, c, d, e, f, g, h, i, j, k, l, m]"
  using assms by (auto simp: numeral_eq_Suc length_Suc_conv)

lemma get16_Cons: "0 < i \<Longrightarrow> get16 (x # b) i = get16 b (i - 1)"
  using get_append(2) [of "[x]" i b] by simp

lemma lfn_record_round_trip:
  assumes "13 \<le> length w"
  shows "lfn_chars (lfn_record order checksum w) = take 13 w" "length (lfn_record order checksum w) = 32"
    "lfn_record order checksum w ! 11 = FAT32_ATTRIBUTE_LFN" "lfn_record order checksum w ! 0 = order"
proof -
  obtain a b c d e f g h i j k l m where t: "take 13 w = [a, b, c, d, e, f, g, h, i, j, k, l, m]"
    using list_13 [of "take 13 w"] assms by auto
  then have w: "w = a # b # c # d # e # f # g # h # i # j # k # l # m # drop 13 w"
    by (metis append_Cons append_Nil append_take_drop_id)
  have r: "lfn_record order checksum w =
      [order] @ put16 a @ put16 b @ put16 c @ put16 d @ put16 e @ [FAT32_ATTRIBUTE_LFN, 0, checksum] @
      put16 f @ put16 g @ put16 h @ put16 i @ put16 j @ put16 k @ [0, 0] @ put16 l @ put16 m"
    by (subst w) (simp add: lfn_record_def)
  show "lfn_chars (lfn_record order checksum w) = take 13 w" unfolding r t
    by (simp add: lfn_chars_def get_append get16_Cons)
  show "length (lfn_record order checksum w) = 32" "lfn_record order checksum w ! 11 = FAT32_ATTRIBUTE_LFN"
    "lfn_record order checksum w ! 0 = order" unfolding r by (simp_all add: put16_def)
qed

section \<open>ASCII names\<close>

definition ascii :: "bytes \<Rightarrow> bool" where
  "ascii cs \<longleftrightarrow> (\<forall>c \<in> set cs. c \<noteq> 0 \<and> c < 0x80)"

definition wide_of :: "bytes \<Rightarrow> u16 list" where
  "wide_of cs = map ucast cs"

lemma ascii_enc:
  assumes "ascii cs"
  shows "utf8_enc (wide_of cs) = cs" "0 \<notin> set (wide_of cs)"
proof -
  have c: "utf8_put (ucast c) = [c] \<and> (ucast c :: u16) \<noteq> 0" if "c \<noteq> 0" "c < 0x80" for c :: u8
  proof -
    have "unat c < 128" using that(2) by (simp add: word_less_nat_alt)
    moreover have u: "unat (ucast c :: u16) = unat c"
      using \<open>unat c < 128\<close> by (simp add: unsigned_ucast_eq take_bit_nat_eq_self)
    ultimately have "(ucast c :: u16) \<le> 0x7F" by (simp add: word_le_nat_alt)
    moreover have "ucast (ucast c :: u16) = c"
      using u unat_less_exp [of c] by (simp add: word_unat_eq_iff unsigned_ucast_eq [of "ucast c :: u16"] take_bit_nat_eq_self)
    moreover have "(ucast c :: u16) \<noteq> 0" using that(1) u by (simp add: word_unat_eq_iff)
    ultimately show ?thesis by (simp add: utf8_put_def)
  qed
  show "utf8_enc (wide_of cs) = cs" using assms c by (induction cs) (auto simp: ascii_def wide_of_def)
  show "0 \<notin> set (wide_of cs)" using assms c by (force simp: ascii_def wide_of_def)
qed

lemma ascii_take_drop: "ascii cs \<Longrightarrow> ascii (take n (drop k cs))"
  by (auto simp: ascii_def dest!: in_set_takeD in_set_dropD)

text \<open>The conversion into a buffer that leaves four bytes behind the text.\<close>

lemma wide_char_to_utf8_loop_enc:
  assumes "0 \<notin> set ws" "unat j + length (utf8_enc ws) + 4 \<le> unat n" "unat n \<le> length dst"
  shows "wide_char_to_utf8_loop dst (ws @ 0 # r) n j =
    Inr (take (unat j) dst @ utf8_enc ws @ drop (unat j + length (utf8_enc ws)) dst, j + of_nat (length (utf8_enc ws)))"
  using assms
proof (induction ws arbitrary: j dst)
  case (Cons c ws)
  let ?k = "length (utf8_put c)" and ?m = "length (utf8_enc ws)"
  have k: "0 < ?k" "?k \<le> 3" by (rule length_utf8_put)+
  have "unat (n - 4) = unat n - 4" using Cons.prems(2) by (subst unat_minus_le) simp_all
  moreover have "unat j < unat n - 4" using Cons.prems(2) k(1) by (simp only: utf8_enc_simps length_append)
  ultimately have lt: "j < n - 4" by (simp add: word_less_nat_alt)
  have "unat j + ?k < 2 ^ 32" using Cons.prems(2) unat_less_2p32 [of n] by simp
  then have uj: "unat (j + of_nat ?k) = unat j + ?k" by (simp add: unat_word_ariths unat_of_nat)
  let ?d = "take (unat j) dst @ utf8_put c @ drop (unat j + ?k) dst"
  have w: "buf_write dst (unat j) (utf8_put c) = Inr ?d" using Cons.prems(2,3) by simp
  have len: "length ?d = length dst" using Cons.prems(2,3) by simp
  have "wide_char_to_utf8_loop ?d (ws @ 0 # r) n (j + of_nat ?k) =
    Inr (take (unat j + ?k) ?d @ utf8_enc ws @ drop (unat j + ?k + ?m) ?d, j + of_nat ?k + of_nat ?m)"
    using Cons.IH [of "j + of_nat ?k" ?d] Cons.prems unfolding uj len by simp
  moreover have "take (unat j + ?k) ?d = take (unat j) dst @ utf8_put c" "drop (unat j + ?k + ?m) ?d = drop (unat j + ?k + ?m) dst"
    using Cons.prems(2,3) by (simp_all add: ac_simps)
  ultimately show ?case using Cons.prems(1) lt by (simp add: w add.assoc)
qed simp

lemma wide_char_to_utf8_enc:
  assumes "0 \<notin> set ws" "length (utf8_enc ws) + 4 \<le> unat n" "unat n \<le> length dst"
  shows "wide_char_to_utf8 dst (ws @ 0 # r) n =
    Inr (utf8_enc ws @ 0 # drop (length (utf8_enc ws) + 1) dst, of_nat (length (utf8_enc ws)))"
proof -
  have "unat (of_nat (length (utf8_enc ws)) :: u32) = length (utf8_enc ws)"
    using assms(2) unat_less_2p32 [of n] by (simp add: unat_of_nat)
  then show ?thesis using assms wide_char_to_utf8_loop_enc [of ws 0 n dst r] by (simp add: wide_char_to_utf8_def)
qed

section \<open>Splitting\<close>

definition chunk :: "bytes \<Rightarrow> nat \<Rightarrow> bytes" where
  "chunk cs k = take 13 (drop (13 * k) cs)"

text \<open>The characters of a record: the text, a terminator and zeros.\<close>

definition chunk_chars :: "bytes \<Rightarrow> nat \<Rightarrow> u16 list" where
  "chunk_chars cs k = wide_of (chunk cs k) @ replicate (13 - length (chunk cs k)) 0"

definition chunk_order :: "nat \<Rightarrow> nat \<Rightarrow> u8" where
  "chunk_order len k = (if 13 * k + 13 \<ge> len then 0x45 else of_nat (k + 1))"

definition name_records :: "bytes \<Rightarrow> u8 \<Rightarrow> nat \<Rightarrow> bytes list" where
  "name_records cs checksum m = map (\<lambda>k. lfn_record (chunk_order (length cs) k) checksum (chunk_chars cs k)) [0..<m]"

lemma length_chunk_chars: "length (chunk_chars cs k) = 13"
  by (simp add: chunk_chars_def chunk_def wide_of_def)

lemma lfn_record_take: "lfn_record order checksum w = lfn_record order checksum (take 13 w)"
  by (simp add: lfn_record_def min_def drop_take)

lemma chunk_record:
  assumes "ascii cs"
  shows "utf8_to_wide_char (replicate 27 0) (chunk cs k @ replicate (14 - length (chunk cs k)) 0) 27 =
      Inr (wide_of (chunk cs k) @ replicate (27 - length (chunk cs k)) 0, of_nat (length (chunk cs k)))"
proof -
  let ?c = "chunk cs k"
  have l: "length ?c \<le> 13" by (simp add: chunk_def)
  have a: "ascii ?c" using assms ascii_take_drop by (simp add: chunk_def)
  have lw: "length (wide_of ?c) = length ?c" by (simp add: wide_of_def)
  have e: "?c @ replicate (14 - length ?c) 0 = utf8_enc (wide_of ?c) @ 0 # replicate (13 - length ?c) 0"
    using l ascii_enc(1) [OF a] by (simp add: replicate_Suc [symmetric] Suc_diff_le del: replicate_Suc)
  have "utf8_to_wide_char (replicate 27 0) (utf8_enc (wide_of ?c) @ 0 # replicate (13 - length ?c) 0) 27 =
      Inr (wide_of ?c @ 0 # drop (length (wide_of ?c) + 1) (replicate 27 0), of_nat (length (wide_of ?c)))"
    by (rule utf8_to_wide_char_ok [OF ascii_enc(2) [OF a]]) (use l lw in simp_all)
  also have "0 # drop (length (wide_of ?c) + 1) (replicate 27 0) = replicate (27 - length ?c) (0 :: u16)"
    using l lw by (simp add: replicate_Suc [symmetric] Suc_diff_Suc del: replicate_Suc)
  finally show ?thesis using e lw by simp
qed

lemma chunk_copy:
  assumes "13 * k \<le> length cs" "length cs \<le> 3315"
  shows "buf_copy (replicate 14 0) 0 (cs @ 0 # rest) (13 * k) (unat (min (of_nat (length cs) - of_nat (13 * k)) 13 :: u32)) =
    Inr (chunk cs k @ replicate (14 - length (chunk cs k)) 0)"
proof -
  have u: "unat (of_nat (length cs) :: u32) = length cs" "unat (of_nat (13 * k) :: u32) = 13 * k"
    using assms by (simp_all add: unat_of_nat_32 del: of_nat_mult)
  then have "unat (of_nat (length cs) - of_nat (13 * k) :: u32) = length cs - 13 * k" using assms(1) by (subst unat_minus_le) simp_all
  then have m: "unat (min (of_nat (length cs) - of_nat (13 * k)) 13 :: u32) = min (length cs - 13 * k) 13"
    by (simp add: min_def word_le_nat_alt)
  show ?thesis unfolding m using assms(1)
    by (simp add: buf_copy_ok chunk_def min_def)
qed

lemma da_room_small: "da_inv a \<Longrightarrow> da_es a = 32 \<Longrightarrow> unat (da_count a) \<le> 255 \<Longrightarrow> da_room a"
  by (auto simp: da_inv_def da_room_def)

definition record_count :: "bytes \<Rightarrow> nat" where
  "record_count cs = (length cs + 12) div 13"

lemma split_loop_ok:
  assumes "ascii cs" "length cs \<le> 3315" "\<And>k. length (junk k) = k" "k \<le> record_count cs"
    "da_inv a" "da_es a = 32" "da_list a = rev (name_records cs (ucast ck) k)"
  shows "\<exists>a'. split_loop junk (cs @ 0 # rest) ck (of_nat (length cs)) (of_nat (13 * k)) a = Some (Inr a') \<and>
    da_inv a' \<and> da_es a' = 32 \<and> da_list a' = rev (name_records cs (ucast ck) (record_count cs))"
  using assms(4-)
proof (induction "record_count cs - k" arbitrary: k a)
  case 0
  then have k: "k = record_count cs" by simp
  then have "length cs \<le> 13 * k" "13 * k < 2 ^ 32" using assms(2) by (auto simp: record_count_def)
  then have "\<not> (of_nat (13 * k) :: u32) < of_nat (length cs)"
    using unat_of_nat_32 [of "13 * k"] unat_of_nat_32 [of "length cs"] by (simp add: word_less_nat_alt del: of_nat_mult)
  then show ?case using 0 k by (subst split_loop.simps) (simp del: of_nat_mult)
next
  case (Suc m)
  then have k: "13 * k < length cs" "k < 255" "13 * k < 2 ^ 32" using assms(2) by (auto simp: record_count_def)
  have u: "unat (of_nat (length cs) :: u32) = length cs" "unat (of_nat (13 * k) :: u32) = 13 * k"
    using assms(2) k by (simp_all add: unat_of_nat_32 del: of_nat_mult)
  have lt: "(of_nat (13 * k) :: u32) < of_nat (length cs)" using u k(1) by (simp add: word_less_nat_alt del: of_nat_mult)
  have o1: "(of_nat (13 * k) + 13 \<ge> (of_nat (length cs) :: u32)) = (13 * k + 13 \<ge> length cs)"
    using u k by (simp add: word_le_nat_alt unat_plus_less del: of_nat_mult)
  have o2: "(ucast ((of_nat (13 * k) :: u32) div 13 + 1) :: u8) = of_nat (k + 1)"
  proof -
    have "unat ((of_nat (13 * k) :: u32) div 13) = k" by (simp only: unat_div u) simp
    then have "(of_nat (13 * k) :: u32) div 13 = of_nat k" using k(2) by (simp add: word_unat_eq_iff unat_of_nat_32 del: of_nat_mult)
    then show ?thesis using k(2) by (simp add: word_unat_eq_iff unsigned_ucast_eq unat_of_nat unat_word_ariths take_bit_eq_mod del: of_nat_mult)
  qed
  define r where "r = lfn_record (chunk_order (length cs) k) (ucast ck) (chunk_chars cs k)"
  have r: "lfn_record (if of_nat (13 * k) + 13 \<ge> (of_nat (length cs) :: u32) then 0x45 else ucast ((of_nat (13 * k) :: u32) div 13 + 1)) (ucast ck)
      (wide_of (chunk cs k) @ replicate (27 - length (chunk cs k)) 0) = r"
  proof -
    have "length (chunk cs k) \<le> 13" by (simp add: chunk_def)
    then have "take 13 (wide_of (chunk cs k) @ replicate (27 - length (chunk cs k)) 0) = chunk_chars cs k"
      by (simp add: chunk_chars_def wide_of_def min_def)
    then show ?thesis unfolding o1 o2 r_def chunk_order_def
      using lfn_record_take [of _ _ "wide_of (chunk cs k) @ replicate (27 - length (chunk cs k)) 0"] by simp
  qed
  have "length (da_list a) = k" using Suc.prems(4) by (simp add: name_records_def)
  then have "da_room a" using da_room_small [OF Suc.prems(2,3)] k(2) by simp
  moreover have "length r = unat (da_es a)" unfolding r_def
    using lfn_record_round_trip(2) [of "chunk_chars cs k"] by (simp add: length_chunk_chars Suc.prems(3))
  ultimately obtain a1 where a1: "dynamic_array_push_front junk a r = Inr a1" "da_inv a1" "da_es a1 = 32" "da_list a1 = r # da_list a"
    using dynamic_array_push_front_ok [OF Suc.prems(2) _ _ assms(3)] Suc.prems(3) by metis
  have nx: "of_nat (13 * k) + 13 = (of_nat (13 * Suc k) :: u32)" by simp
  have "split_loop junk (cs @ 0 # rest) ck (of_nat (length cs)) (of_nat (13 * k)) a =
      split_loop junk (cs @ 0 # rest) ck (of_nat (length cs)) (of_nat (13 * k) + 13) a1"
    by (subst split_loop.simps)
       (simp only: lt if_True u(2) chunk_copy [OF less_imp_le [OF k(1)] assms(2)] chunk_record [OF assms(1)] rbind.simps prod.case Let_def r a1(1) lbind_simps)
  moreover have "\<exists>a'. split_loop junk (cs @ 0 # rest) ck (of_nat (length cs)) (of_nat (13 * Suc k)) a1 = Some (Inr a') \<and>
    da_inv a' \<and> da_es a' = 32 \<and> da_list a' = rev (name_records cs (ucast ck) (record_count cs))"
  proof (rule Suc.hyps(1))
    show "m = record_count cs - Suc k" "Suc k \<le> record_count cs" using Suc.hyps(2) by simp_all
    show "da_list a1 = rev (name_records cs (ucast ck) (Suc k))"
      using a1(4) Suc.prems(4) by (simp add: name_records_def r_def)
  qed (rule a1)+
  ultimately show ?case unfolding nx by simp
qed

section \<open>The round trip\<close>

lemma chunks_concat: "concat (map (chunk cs) [0..<m]) = take (13 * m) cs"
proof (induction m)
  case (Suc m)
  then show ?case by (simp add: chunk_def take_add [symmetric] add.commute)
qed simp

lemma name_records_chars:
  assumes "m = record_count cs"
  shows "concat (map lfn_chars (name_records cs ck m)) = wide_of cs @ replicate (13 * m - length cs) 0"
proof -
  have c: "map lfn_chars (name_records cs ck m) = map (chunk_chars cs) [0..<m]"
    using lfn_record_round_trip(1) [of "chunk_chars cs k" for k] by (simp add: name_records_def length_chunk_chars comp_def)
  have full: "concat (map (chunk_chars cs) [0..<k]) = wide_of (take (13 * k) cs)" if "13 * k \<le> length cs" for k
  proof -
    have e: "map (chunk_chars cs) [0..<k] = map (map ucast) (map (chunk cs) [0..<k])"
      using that by (auto simp: chunk_chars_def chunk_def wide_of_def)
    show ?thesis by (simp only: e map_concat [symmetric] chunks_concat wide_of_def)
  qed
  show ?thesis
  proof (cases m)
    case 0
    then have "cs = []" using assms by (simp add: record_count_def div_eq_0_iff)
    then show ?thesis using 0 by (simp add: name_records_def wide_of_def)
  next
    case (Suc k)
    then have k: "13 * k \<le> length cs" "length cs \<le> 13 * m" using assms by (auto simp: record_count_def)
    have "concat (map (chunk_chars cs) [0..<m]) = wide_of (take (13 * k) cs) @ chunk_chars cs k"
      using full [OF k(1)] by (simp add: Suc)
    also have "chunk cs k = drop (13 * k) cs" using k(2) Suc by (simp add: chunk_def)
    then have "chunk_chars cs k = wide_of (drop (13 * k) cs) @ replicate (13 * m - length cs) 0"
      using k Suc by (simp add: chunk_chars_def)
    finally show ?thesis unfolding c by (simp add: wide_of_def flip: map_append)
  qed
qed

lemma list_name_ok:
  assumes "ascii cs" "0 < length cs" "length cs \<le> 3315" "\<And>k. length (junk k) = k"
  shows "\<exists>tail. list_name junk (name_records cs ck (record_count cs)) = cs @ 0 # tail"
proof -
  let ?m = "record_count cs" and ?l = "name_records cs ck (record_count cs)"
  have "13 \<le> length cs + 12" using assms(2) by linarith
  then have "0 < ?m" by (simp add: record_count_def div_greater_zero_iff)
  then have m: "length ?l = ?m" "?m \<le> 255" "length cs \<le> 13 * ?m" "0 < ?m"
    using assms(3) by (auto simp: name_records_def record_count_def)
  have sz: "unat (name_size ?l) = 26 * ?m + 2" using unat_name_size [of ?l] m by simp
  have w: "wide_name ?l = wide_of cs @ 0 # replicate (13 * ?m - length cs) 0"
    by (simp add: wide_name_def name_records_chars replicate_app_Cons_same)
  have e: "utf8_enc (wide_of cs) = cs" by (rule ascii_enc(1) [OF assms(1)])
  have "wide_char_to_utf8 (junk (unat (name_size ?l))) (wide_name ?l) (name_size ?l) =
    Inr (cs @ 0 # drop (length cs + 1) (junk (unat (name_size ?l))), of_nat (length cs))"
    using wide_char_to_utf8_enc [OF ascii_enc(2) [OF assms(1)], of "name_size ?l" "junk (unat (name_size ?l))"] m sz assms(4)
    unfolding w e by simp
  moreover have "unat (of_nat (length cs) + 1 :: u32) = length cs + 1"
    using assms(3) by (simp add: unat_of_nat unat_word_ariths)
  moreover have "(of_nat (length cs) + 1 :: u32) \<noteq> 0" using calculation(2) by (auto simp: unat_eq_0 [symmetric])
  ultimately show ?thesis using m sz assms(4) by (simp add: list_name_def realloc_buf_def)
qed

lemma split_name_ok:
  assumes "ascii cs" "length cs \<le> 3315" "\<And>k. length (junk k) = k"
  shows "\<exists>a. fat32_split_filename_to_lfn junk (cs @ 0 # rest) ck = Some (Inr a) \<and> da_inv a \<and> da_es a = 32 \<and>
    da_list a = rev (name_records cs (ucast ck) (record_count cs))"
proof -
  have "da_inv (dynamic_array_create junk 32)" "da_list (dynamic_array_create junk 32) = []" "da_es (dynamic_array_create junk 32) = 32"
    using dynamic_array_create_ok [of 32 junk] assms(3) by (simp_all add: dynamic_array_create_def)
  from split_loop_ok [OF assms le0 this(1,3), of ck rest] this(2) obtain a where
    "split_loop junk (cs @ 0 # rest) ck (of_nat (length cs)) 0 (dynamic_array_create junk 32) = Some (Inr a)" "da_inv a" "da_es a = 32"
    "da_list a = rev (name_records cs (ucast ck) (record_count cs))"
    by (auto simp: name_records_def)
  moreover have "0 \<notin> set cs" using assms(1) by (auto simp: ascii_def)
  ultimately show ?thesis by (simp add: fat32_split_filename_to_lfn_def)
qed

end
