(* ===== verification/Fat_Props.thy ===== *)
theory Fat_Props
  imports Fat_Correct
begin

text \<open>
  The properties of the file system, with a small file system of eight clusters on which their
  hypotheses hold: the root directory in cluster 2, a file in clusters 3 and 4, the rest free.
\<close>

unbundle bit_operations_syntax

section \<open>Termination of reads\<close>

text \<open>Whatever the table says, a read of a file system with a nonzero cluster size returns.\<close>

lemma read_skip_total:
  assumes "0 < spc info"
  shows "\<exists>r. read_skip info start p s = Some r \<and>
    (\<forall>p' st s'. r = Inr (Some (p', st), s') \<longrightarrow> unat st < csize info)"
proof (induction "unat start" arbitrary: start p s rule: less_induct)
  case less
  show ?case
  proof (cases "fat32_cluster_size info \<le> start")
    case False
    then have "unat start < csize info" by (simp add: word_le_nat_alt unat_cluster_size not_le)
    then show ?thesis using False by (subst read_skip.simps) simp
  next
    case True
    then have le: "csize info \<le> unat start" by (simp add: word_le_nat_alt unat_cluster_size)
    have u: "unat (start - fat32_cluster_size info) < unat start"
      using le assms unat_cluster_size [of info] by (subst unat_minus_le) simp_all
    show ?thesis
    proof (cases "IS_LAST_CLUSTER p \<or> HAS_READING_ERROR p")
      case False
      then have e: "read_skip info start p s = lbind (Some (fat32_next_cluster_sync info p s)) (\<lambda>(p, s).
          read_skip info (start - fat32_cluster_size info) p s)"
        using True by (subst read_skip.simps) simp
      show ?thesis
      proof (cases "fat32_next_cluster_sync info p s")
        case (Inr ps)
        then show ?thesis unfolding e using less.hyps [OF u] by (cases ps) simp
      qed (simp add: e)
    qed (use True in \<open>subst read_skip.simps, auto\<close>)
  qed
qed

lemma read_loop_total:
  assumes "0 < spc info" "unat st < csize info"
  shows "\<exists>r. read_loop info st bi k p temp buf s = Some r"
  using assms(2)
proof (induction "unat k" arbitrary: st bi k p temp buf s rule: less_induct)
  case less
  let ?m = "min (fat32_cluster_size info - st) k"
  have z: "unat (0 :: u32) < csize info" using assms(1) by simp
  have u: "unat (fat32_cluster_size info - st) = csize info - unat st"
    using less.prems unat_cluster_size [of info] by (simp add: unat_minus_le)
  have dec: "unat (k - ?m) < unat k" if "k - ?m \<noteq> 0"
  proof -
    have "?m \<noteq> k" using that by auto
    then have "?m = fat32_cluster_size info - st" "fat32_cluster_size info - st \<le> k" by (auto simp: min_def split: if_splits)
    then show ?thesis using u less.prems by (simp add: unat_minus_le word_le_nat_alt)
  qed
  show ?case
  proof (cases "HAS_READING_ERROR p")
    case True
    then show ?thesis by (subst read_loop.simps) simp
  next
    case False
    note unf = read_loop.simps [of info st bi k p temp buf s, unfolded if_not_P [OF False]]
    show ?thesis
    proof (cases "fat32_read_cluster_sync info (pos_cluster p) temp s")
      case (Inl e)
      then show ?thesis unfolding unf by simp
    next
      case (Inr r)
      then obtain ok t s1 where r: "fat32_read_cluster_sync info (pos_cluster p) temp s = Inr (ok, t, s1)" by (cases r) auto
      show ?thesis
      proof (cases "buf_copy buf (unat bi) t (unat st) (unat ?m)")
        case (Inl e)
        then show ?thesis unfolding unf r by (cases ok) simp_all
      next
        case c: (Inr b)
        show ?thesis
        proof (cases "ok \<and> k - ?m \<noteq> 0 \<and> \<not> IS_LAST_CLUSTER p")
          case False
          then show ?thesis unfolding unf r by (auto simp: c Let_def)
        next
          case True
          show ?thesis
          proof (cases "fat32_next_cluster_sync info p s1")
            case (Inl e)
            then show ?thesis unfolding unf r using True by (auto simp: c Let_def)
          next
            case (Inr ps)
            then obtain p2 s2 where n: "fat32_next_cluster_sync info p s1 = Inr (p2, s2)" by (cases ps) auto
            have "k - ?m \<noteq> 0" using True by blast
            from less.hyps [OF dec [OF this] z] show ?thesis
              unfolding unf r using True by (simp add: c n Let_def)
          qed
        qed
      qed
    qed
  qed
qed

lemma read_file_total:
  assumes "0 < spc info"
  shows "fat32_read_file info f start buf k s \<noteq> None"
proof (cases "chain_start info (ff_cluster f) s")
  case (Inr r)
  then obtain p s1 where 1: "chain_start info (ff_cluster f) s = Inr (p, s1)" by (cases r) auto
  obtain q where q: "read_skip info start p s1 = Some q" "\<forall>p' st s'. q = Inr (Some (p', st), s') \<longrightarrow> unat st < csize info"
    using read_skip_total [OF assms] by blast
  show ?thesis
  proof (cases q)
    case (Inr y)
    then obtain r2 s2 where y: "q = Inr (r2, s2)" by (cases y) auto
    show ?thesis
    proof (cases r2)
      case (Some z)
      then obtain p' st where z: "r2 = Some (p', st)" by (cases z) auto
      have "unat st < csize info" using q(2) y z by blast
      then obtain w where "read_loop info st 0 (min k (ff_size f)) p' (uninit (unat (fat32_cluster_size info)) s2) buf s2 = Some w"
        using read_loop_total [OF assms] by blast
      then show ?thesis using 1 q(1) y z by (cases w) (auto simp: fat32_read_file_def)
    qed (use 1 q(1) y in \<open>simp add: fat32_read_file_def\<close>)
  qed (use 1 q(1) in \<open>simp add: fat32_read_file_def\<close>)
qed (simp add: fat32_read_file_def)

section \<open>A small file system\<close>

definition ex_info :: fat32_info_t where
  "ex_info = \<lparr> fi_disk = 0, fi_spc = 1, fi_fsinfo = 0, fi_root = 2, fi_partition = 0, fi_fat = 1, fi_fat_size = 1,
     fi_data = 2, fi_fat_count = 1 \<rparr>"

definition ex_table :: bytes where
  "ex_table = concat (map put32 [0x0FFFFFF8, 0x0FFFFFFF, 0x0FFFFFFF, 4, 0x0FFFFFFF, 0, 0, 0]) @ replicate 480 0"

definition ex_state :: fat_state where
  "ex_state = \<lparr> fs_disk = \<lparr>
       ds_cache = (\<lambda>i. \<lparr> dc_capacity = 0, dc_cache = (if i = 0 then [\<lparr> rec_start = 2, rec_count = 1, rec_data = replicate 512 0 \<rparr>] else []) \<rparr>),
       ds_use_ahci = False, ds_boot_id = 0, ds_shutdown = False,
       hw_sectors = (\<lambda>_ _ x. if x = 1 then ex_table else replicate 512 7),
       hw_ports = (\<lambda>_. [0]), hw_fault = (\<lambda>_. None), hw_transfers = 0 \<rparr>,
     fs_io = \<lparr> io_in = clock_input [0x80] 0x26 [7, 30, 23, 9, 11, 25], io_log = [] \<rparr>, fs_uninit = (\<lambda>_. 0xCC), fs_seed = 1 \<rparr>"

definition ex_file :: fat32_basic_file_info_t where
  "ex_file = \<lparr> ff_filename = [], ff_dos_filename = [], ff_dos_extension = [], ff_attributes = 0x20,
     ff_creation = \<lparr> date = 0, time = 0 \<rparr>, ff_modify = \<lparr> date = 0, time = 0 \<rparr>, ff_size = 700, ff_cluster = 3,
     ff_entry_cluster = 2, ff_entry_index = 3, ff_first_entry_cluster = 2, ff_first_entry_index = 2 \<rparr>"

lemma ex_geom: "fat_geom ex_info 8"
  by (simp add: fat_geom_def ex_info_def spc_def)

lemma length_ex_table: "length ex_table = 512"
  by (simp add: ex_table_def)

lemma ex_ok: "fat_ok ex_info 8 ex_state"
proof -
  have "cluster_start ex_info 2 = 2" by (simp add: cluster_start_def ex_info_def)
  then have "aligned_req ex_info 8 (2, 1)"
    unfolding aligned_req_def by (intro disjI2 exI [of _ 2]) (simp add: valid_cluster_def ex_info_def)
  then show ?thesis
    by (simp add: fat_ok_def disk_ok_def cache_ok_def rec_ok_def cached_def disk_hw_def ex_state_def ex_info_def length_ex_table)
qed

lemma ex_entry: "i < 8 \<Longrightarrow> ent ex_info ex_state (of_nat i) = [0x0FFFFFF8, 0x0FFFFFFF, 0x0FFFFFFF, 4, 0x0FFFFFFF, 0, 0, 0] ! i"
proof -
  have v: "fview ex_info ex_state 1 = ex_table"
    by (simp add: fview_def disk_view_def disk_hw_def ex_state_def ex_info_def rec_has_def)
  have e: "ent ex_info ex_state c = get32 ex_table (4 * unat c) AND 0x0FFFFFFF" if "unat c < 8" for c
  proof -
    have "c div 128 = 0" "unat (c mod 128) = unat c" using that by (simp_all add: word_unat_eq_iff unat_div_128)
    moreover have "fi_fat ex_info = 1" by (simp add: ex_info_def)
    ultimately show ?thesis by (simp add: fat_entry_def v)
  qed
  assume i: "i < 8"
  then have "i \<in> {0,1,2,3,4,5,6,7}" by auto
  then show ?thesis
    by (elim insertE) (simp_all add: e, simp_all add: ex_table_def get32_def put32_def)
qed

lemma ex_entries:
  "ent ex_info ex_state 2 = 0x0FFFFFFF" "ent ex_info ex_state 3 = 4" "ent ex_info ex_state 4 = 0x0FFFFFFF"
  "ent ex_info ex_state 5 = 0" "ent ex_info ex_state 6 = 0" "ent ex_info ex_state 7 = 0"
  using ex_entry [of 2] ex_entry [of 3] ex_entry [of 4] ex_entry [of 5] ex_entry [of 6] ex_entry [of 7] by simp_all

lemma ex_chain: "fchain 8 (ent ex_info ex_state) [3, 4]"
  by (simp add: fchain_def valid_cluster_def ex_entries FAT32_BAD_CLUSTER_def)

lemma ex_hint: "hint ex_info (fview ex_info ex_state) = 2"
  by (simp add: hint_def ex_info_def)

lemma ex_free: "free_set ex_info 8 ex_state = {5, 6, 7}"
proof (rule set_eqI)
  fix c
  show "c \<in> free_set ex_info 8 ex_state \<longleftrightarrow> c \<in> {5, 6, 7}"
  proof (cases "2 \<le> unat c \<and> unat c < 8")
    case True
    then have "unat c \<in> {2, 3, 4, 5, 6, 7}" by auto
    moreover have "c = of_nat (unat c)" by simp
    ultimately have "c \<in> {2, 3, 4, 5, 6, 7}" by (elim insertE) (simp_all add: word_unat_eq_iff)
    then show ?thesis by (elim insertE) (simp_all add: free_set_def ex_hint ex_entries)
  next
    case False
    then show ?thesis by (auto simp: free_set_def ex_hint)
  qed
qed

lemma ex_file_ok:
  "hint_ok ex_info ex_state" "fat_file ex_info 8 ex_state ex_file [3, 4]" "entry_ok ex_info 8 ex_state ex_file [3, 4]"
  "card (free_set ex_info 8 ex_state) = 3" "csize ex_info = 512"
proof -
  show "hint_ok ex_info ex_state" by (simp add: hint_ok_def ex_hint)
  show "fat_file ex_info 8 ex_state ex_file [3, 4]" using ex_chain by (simp add: fat_file_def ex_file_def)
  show "entry_ok ex_info 8 ex_state ex_file [3, 4]"
  proof -
    have "cluster_cached ex_info ex_state 2"
      by (simp add: cluster_cached_def cached_def cluster_start_def ex_state_def ex_info_def)
    moreover have "0 < spc ex_info" by (simp add: ex_info_def spc_def)
    ultimately show ?thesis by (simp add: entry_ok_def ex_file_def valid_cluster_def ex_entries)
  qed
  show "card (free_set ex_info 8 ex_state) = 3" by (simp add: ex_free)
  show "csize ex_info = 512" by (simp add: spc_def ex_info_def)
qed

lemma ex_clock: "\<exists>io. datetime_get (fs_io ex_state) =
  Inr (\<lparr> year = 2025, month = 11, day = 9, hour = 23, minute = 30, second = 7 \<rparr>, io)"
  using datetime_get_polls [of "[0x80]" "0x26" "fs_io ex_state" 7 30 23 9 11 25 "[]"] by (auto simp: ex_state_def)

section \<open>Properties\<close>

text \<open>C25: Whatever the table and the drive hold, \<^verbatim>\<open>fat32_read_file\<close> on a file system with a nonzero cluster size
  comes to an end, for every file, start position and buffer size, also along a cyclic chain.\<close>

lemma fat_read_terminates:
  assumes "0 < unat (fi_spc info)"
  shows "fat32_read_file info f start buf k s \<noteq> None"
  using assms by (intro read_file_total) simp

lemma fat_read_terminates_witness: "fat32_read_file ex_info ex_file 5000 [] 7 ex_state \<noteq> None"
  by (rule fat_read_terminates) (simp add: ex_info_def)

text \<open>Reading a file copies into the buffer what the clusters of its chain hold from the start position
  on, at most the buffer size and the file's size, changes nothing on the disk, and is refused exactly when the
  start position lies beyond the clusters.\<close>

lemma fat_read_file_correct:
  assumes "fat_geom info n" "fat_ok info n s" "fchain n (ent info s) xs" "ff_cluster f = hd xs"
    "k = min (unat bs) (unat (ff_size f))" "k \<le> length buf"
  shows "\<exists>s'. fat32_read_file info f start buf bs s =
      Some (Inr (if unat start < length xs * csize info then (True, patch buf 0 (take k (drop (unat start) (content info s xs))), s')
        else (False, buf, s'))) \<and>
    fat_ok info n s' \<and> fview info s' = fview info s"
  using fat_read_file_ok [OF assms, of start] by (auto simp: fstep_def)

lemma fat_read_file_correct_witness:
  "\<exists>s'. fat32_read_file ex_info ex_file 1000 (replicate 30 1) 30 ex_state =
      Some (Inr (if unat (1000 :: u32) < length [3 :: u32, 4] * csize ex_info
        then (True, patch (replicate 30 1) 0 (take 30 (drop (unat (1000 :: u32)) (content ex_info ex_state [3, 4]))), s')
        else (False, replicate 30 1, s'))) \<and>
    fat_ok ex_info 8 s' \<and> fview ex_info s' = fview ex_info ex_state"
  by (rule fat_read_file_correct [OF ex_geom ex_ok ex_chain]) (simp_all add: ex_file_def)

text \<open>C23: A write to a file, with a clock that answers and enough free clusters, succeeds: the chain keeps its
  clusters and grows by free ones to just the length the write needs, the content is patched by the buffer at the
  start position, the directory entry is rewritten, and all other entries of the table and all other clusters
  keep their values.\<close>

lemma fat_write_file_correct:
  assumes "fat_geom info n" "fat_ok info n s" "hint_ok info s" "fat_file info n s f xs" "entry_ok info n s f xs"
    "0 < unat k" "unat k \<le> length buf" "datetime_get (fs_io s) = Inr (dt, io)"
    "unat start + unat k \<le> (length xs + (card (free_set info n s) - 1)) * csize info"
  shows "\<exists>xs' s' new. fat32_write_file_sync info f start buf k s = Some (Inr (True, written_info f xs' start k, s')) \<and>
    fat_ok info n s' \<and> fs_io s' = io \<and> hint_ok info s' \<and> fchain n (ent info s') xs' \<and>
    xs' = xs @ new \<and> set new \<subseteq> free_set info n s \<and> free_set info n s' = free_set info n s - set new \<and>
    length xs' = max (length xs) ((unat start + unat k + (csize info - 1)) div csize info) \<and>
    content info s' xs' = patch (content info s xs') (unat start) (take (unat k) buf) \<and>
    (\<forall>d. unat d < n \<longrightarrow> d \<notin> set xs' \<longrightarrow> ent info s' d = ent info s d) \<and>
    (\<forall>d. valid_cluster n d \<longrightarrow> d \<notin> set xs' \<longrightarrow>
       dat info s' d = (if d = ff_entry_cluster f then entry_written info s (written_info f xs' start k) dt else dat info s d))"
  using fat_write_file_ok [OF assms] by (elim exE conjE) (intro exI conjI, assumption+)

lemma fat_write_file_correct_witness:
  "\<exists>xs' s' new. fat32_write_file_sync ex_info ex_file 1000 (replicate 600 9) 600 ex_state =
      Some (Inr (True, written_info ex_file xs' 1000 600, s')) \<and>
    xs' = [3, 4] @ new \<and> set new \<subseteq> {5, 6, 7} \<and> length xs' = 4 \<and>
    content ex_info s' xs' = patch (content ex_info ex_state xs') 1000 (replicate 600 9)"
proof -
  obtain io where io: "datetime_get (fs_io ex_state) =
      Inr (\<lparr> year = 2025, month = 11, day = 9, hour = 23, minute = 30, second = 7 \<rparr>, io)" using ex_clock by blast
  have h: "0 < unat (600 :: u32)" "unat (600 :: u32) \<le> length (replicate 600 (9 :: u8))"
    "unat (1000 :: u32) + unat (600 :: u32) \<le> (length [3 :: u32, 4] + (card (free_set ex_info 8 ex_state) - 1)) * csize ex_info"
    unfolding ex_file_ok(4,5) by simp_all
  from fat_write_file_correct [OF ex_geom ex_ok ex_file_ok(1-3) h(1,2) io h(3)] show ?thesis
    unfolding ex_file_ok(5) ex_free by (elim exE conjE) (intro exI conjI, assumption+, simp_all)
qed

text \<open>What is written to a regular file is read back from it: after a successful write, a read at the same
  position and of the same size returns the bytes written.\<close>

lemma fat_write_then_read:
  assumes "fat_geom info n" "fat_ok info n s" "hint_ok info s" "fat_file info n s f xs" "entry_ok info n s f xs"
    "0 < unat k" "unat k \<le> length buf" "datetime_get (fs_io s) = Inr (dt, io)"
    "unat start + unat k \<le> (length xs + (card (free_set info n s) - 1)) * csize info"
    "unat start + unat k < 2 ^ 32" "ff_attributes f AND FAT32_ATTRIBUTE_DIRECTORY = 0" "unat k \<le> length out"
  shows "\<exists>f' s' s''. fat32_write_file_sync info f start buf k s = Some (Inr (True, f', s')) \<and>
    fat32_read_file info f' start out k s' = Some (Inr (True, take (unat k) buf @ drop (unat k) out, s''))"
  using fat_write_read_ok [OF assms] by blast

lemma fat_write_then_read_witness:
  "\<exists>f' s' s''. fat32_write_file_sync ex_info ex_file 1000 (replicate 600 9) 600 ex_state = Some (Inr (True, f', s')) \<and>
    fat32_read_file ex_info f' 1000 (replicate 600 0) 600 s' =
      Some (Inr (True, take (unat (600 :: u32)) (replicate 600 9) @ drop (unat (600 :: u32)) (replicate 600 0), s''))"
proof -
  obtain io where io: "datetime_get (fs_io ex_state) =
      Inr (\<lparr> year = 2025, month = 11, day = 9, hour = 23, minute = 30, second = 7 \<rparr>, io)" using ex_clock by blast
  have h: "0 < unat (600 :: u32)" "unat (600 :: u32) \<le> length (replicate 600 (9 :: u8))"
    "unat (1000 :: u32) + unat (600 :: u32) \<le> (length [3 :: u32, 4] + (card (free_set ex_info 8 ex_state) - 1)) * csize ex_info"
    "unat (1000 :: u32) + unat (600 :: u32) < 2 ^ 32" "ff_attributes ex_file AND FAT32_ATTRIBUTE_DIRECTORY = 0"
    "unat (600 :: u32) \<le> length (replicate 600 (0 :: u8))"
    unfolding ex_file_ok(4,5) by (simp_all add: ex_file_def FAT32_ATTRIBUTE_DIRECTORY_def)
  show ?thesis by (rule fat_write_then_read [OF ex_geom ex_ok ex_file_ok(1-3) h(1,2) io h(3-6)])
qed

text \<open>C24: Erasing a file frees the clusters of its chain and no others, rewrites its directory entry with no
  cluster and size zero, and leaves every other cluster as it was.\<close>

lemma fat_erase_file_correct:
  assumes "fat_geom info n" "fat_ok info n s" "fat_file info n s f xs" "entry_ok info n s f xs" "datetime_get (fs_io s) = Inr (dt, io)"
    "f' = f\<lparr> ff_size := 0, ff_cluster := 0 \<rparr>"
  shows "\<exists>s'. fat32_erase_file_sync info f s = Some (Inr (True, f', s')) \<and> fat_ok info n s' \<and> fat_file info n s' f' [] \<and>
    (\<forall>d. unat d < n \<longrightarrow> ent info s' d = (if d \<in> set xs then 0 else ent info s d)) \<and>
    (\<forall>d. valid_cluster n d \<longrightarrow> dat info s' d = (if d = ff_entry_cluster f then entry_written info s f' dt else dat info s d))"
  using fat_erase_file_ok [OF assms] by blast

lemma fat_erase_file_correct_witness:
  "\<exists>s'. fat32_erase_file_sync ex_info ex_file ex_state = Some (Inr (True, ex_file\<lparr> ff_size := 0, ff_cluster := 0 \<rparr>, s')) \<and>
    ent ex_info s' 3 = 0 \<and> ent ex_info s' 4 = 0 \<and> ent ex_info s' 2 = 0x0FFFFFFF"
proof -
  obtain io where io: "datetime_get (fs_io ex_state) =
      Inr (\<lparr> year = 2025, month = 11, day = 9, hour = 23, minute = 30, second = 7 \<rparr>, io)" using ex_clock by blast
  from fat_erase_file_correct [OF ex_geom ex_ok ex_file_ok(2,3) io refl] show ?thesis
    by (elim exE conjE) (intro exI conjI, assumption, simp_all add: ex_entries)
qed

end
