(* ===== verification/Fat_Dir_Props.thy ===== *)
theory Fat_Dir_Props
  imports Fat_Names Fat_Props
begin

text \<open>
  The properties of directories, on a small file system whose root directory has a file with a long
  name and one with a short name.
\<close>

unbundle bit_operations_syntax

section \<open>Names in a directory\<close>

lemma chunk_order_nz: "13 * k < n \<Longrightarrow> n \<le> 3315 \<Longrightarrow> chunk_order n k \<noteq> 0"
proof -
  assume a: "13 * k < n" "n \<le> 3315"
  show "chunk_order n k \<noteq> 0"
  proof (cases "13 * k + 13 \<ge> n")
    case False
    then have "k + 1 < 256" using a by linarith
    then have "unat (of_nat (k + 1) :: u8) = k + 1" by (simp add: unat_of_nat del: of_nat_Suc)
    then have "(of_nat (k + 1) :: u8) \<noteq> 0" by (metis Suc_eq_plus1 nat.distinct(1) unsigned_0)
    then show ?thesis using False by (simp add: chunk_order_def)
  qed (simp add: chunk_order_def)
qed

lemma name_record_fields:
  assumes "e \<in> set (name_records cs ck (record_count cs))" "length cs \<le> 3315"
  shows "e ! 0 \<noteq> 0" "e ! 11 = FAT32_ATTRIBUTE_LFN"
proof -
  obtain k where k: "k < record_count cs" "e = lfn_record (chunk_order (length cs) k) ck (chunk_chars cs k)"
    using assms(1) by (auto simp: name_records_def)
  have "13 * k < length cs" using k(1) by (simp add: record_count_def)
  then show "e ! 0 \<noteq> 0" "e ! 11 = FAT32_ATTRIBUTE_LFN"
    unfolding k(2) using lfn_record_round_trip(3,4) [of "chunk_chars cs k"] chunk_order_nz [of k "length cs"] assms(2)
    by (simp_all add: length_chunk_chars)
qed

lemma listed_name_ok:
  assumes "ascii cs" "0 < length cs" "length cs \<le> 3315" "\<And>k. length (junk k) = k"
    "\<forall>j < record_count cs. dir_entry buf (i + j) = rev (name_records cs ck (record_count cs)) ! j"
    "b = i + record_count cs" "dir_entry buf b ! 0 \<noteq> 0" "dir_entry buf b ! 11 \<noteq> FAT32_ATTRIBUTE_LFN"
    "dir_entry buf b ! 11 \<noteq> FAT32_ATTRIBUTE_DELETED" "ls_lfn r = []" "list_wf r" "c \<noteq> 0"
  shows "\<exists>tail. ls_files (list_cluster junk c buf [i..<Suc b] r) =
      ls_files r @ [file_of_entry (dir_entry buf b) c (of_nat b) (cs @ 0 # tail) c (of_nat i)] \<and>
    ls_lfn (list_cluster junk c buf [i..<Suc b] r) = []"
proof -
  let ?m = "record_count cs" and ?l = "name_records cs ck (record_count cs)"
  have l: "length ?l = ?m" by (simp add: name_records_def)
  have "13 \<le> length cs + 12" using assms(2) by linarith
  then have m: "0 < ?m" by (simp add: record_count_def div_greater_zero_iff)
  then have ib: "i < b" "i \<le> b" using assms(6) by simp_all
  have mp: "map (dir_entry buf) [i..<b] = rev ?l"
    by (rule nth_equalityI) (use assms(5,6) l in auto)
  have e: "\<forall>k. i \<le> k \<and> k < b \<longrightarrow> dir_entry buf k ! 0 \<noteq> 0 \<and> dir_entry buf k ! 11 = FAT32_ATTRIBUTE_LFN"
  proof (intro allI impI)
    fix k assume "i \<le> k \<and> k < b"
    then have "dir_entry buf k \<in> set (map (dir_entry buf) [i..<b])" by auto
    then have "dir_entry buf k \<in> set ?l" unfolding mp by simp
    from name_record_fields [OF this assms(3)] show "dir_entry buf k ! 0 \<noteq> 0 \<and> dir_entry buf k ! 11 = FAT32_ATTRIBUTE_LFN" by blast
  qed
  let ?q = "list_cluster junk c buf [i..<b] r"
  from list_cluster_run [OF assms(10-12) ib(2) e]
  have q: "ls_files ?q = ls_files r" "ls_lfn ?q = ?l" "ls_first ?q = (c, of_nat i)" using ib(1) by (simp_all add: mp)
  obtain tail where t: "list_name junk ?l = cs @ 0 # tail" using list_name_ok [OF assms(1-4)] by blast
  have nz: "\<forall>k \<in> set [i..<b]. dir_entry buf k ! 0 \<noteq> 0" using e by simp
  have s: "list_cluster junk c buf [i..<Suc b] r = list_entry junk c b (dir_entry buf b) ?q"
    using ib(2) assms(7) by (simp add: list_cluster_append [OF nz] Let_def)
  have "?l \<noteq> []" using l m by auto
  then show ?thesis unfolding s using assms(8,9) q t by (auto simp: list_entry_def)
qed

section \<open>Removing a listed file\<close>

lemma list_remove_list_ok:
  assumes "fat_geom info n" "fat_ok info n s" "fchain n (ent info s) (pre @ c # post)" "ff_cluster d = hd (pre @ c # post)"
    "runs_chain info s (pre @ c # post) list_start" "run_in_dir info s pre c a b"
  shows "\<exists>A f X s1 s2 s3. fat32_read_directory info d s = Some (Inr (Some (A @ f # X), s1)) \<and>
    (\<exists>name. f = file_of_entry (dir_entry (dat info s c) b) c (of_nat b) name c (of_nat a)) \<and>
    fat32_remove_directory_entry info f s1 = Some (Inr (True, s2)) \<and>
    fat32_read_directory info d s2 = Some (Inr (Some (A @ X), s3)) \<and>
    (\<forall>x. unat x < n \<longrightarrow> ent info s2 x = ent info s x) \<and> (\<forall>x. valid_cluster n x \<longrightarrow> x \<noteq> c \<longrightarrow> dat info s2 x = dat info s x)"
proof -
  let ?xs = "pre @ c # post"
  have valid: "\<forall>x \<in> set ?xs. valid_cluster n x" "c \<notin> set (pre @ post)" using assms(3) by (auto simp: fchain_def)
  have "\<not> valid_cluster n 0" by (simp add: valid_cluster_def)
  then have z: "0 \<notin> set ?xs" using valid(1) by blast
  obtain s1 where 1: "fat32_read_directory info d s = Some (Inr (Some (dir_list info s ?xs), s1))" "fstep info n s s1" "fview info s1 = fview info s"
    using fat_read_directory_ok [OF assms(1-5)] by blast
  have rd: "run_in_dir info s1 pre c a b"
    using assms(6) unfolding run_in_dir_def list_chain_step(1) [OF 1(2,3)] uninit_fun [OF 1(2)] 1(3) .
  have ch: "fchain n (ent info s1) ?xs" using assms(3) by (simp add: 1(3))
  let ?f = "\<lambda>name. file_of_entry (dir_entry (dat info s c) b) c (of_nat b) name c (of_nat a)"
  have "\<exists>A X name. dir_list info s ?xs = A @ ?f name # X"
  proof -
    from fat_remove_entry_ok [OF assms(1-3,6), of "?f []"] obtain s' where
      s': "run_deleted (dat info s c) a b (dat info s' c)" "fstep info n s s'" "\<forall>d. valid_cluster n d \<longrightarrow> d \<noteq> c \<longrightarrow> dat info s' d = dat info s d"
      by (auto simp: file_of_entry_def)
    have u: "uninit k s' = uninit k s" for k by (rule fstep_uninit [OF s'(2)])
    have "\<forall>x \<in> set (pre @ post). dat info s' x = dat info s x" using s'(3) valid by auto
    from dir_list_remove(1) [OF assms(6) s'(1) u this length_dat [OF assms(1,2)] z] show ?thesis by blast
  qed
  then obtain name where "\<exists>A X. dir_list info s ?xs = A @ ?f name # X" by blast
  define f where "f = ?f name"
  have ff: "ff_first_entry_cluster f = c" "ff_first_entry_index f = of_nat a" by (simp_all add: f_def file_of_entry_def)
  from fat_remove_entry_ok [OF assms(1) fstep_ok [OF 1(2)] ch rd ff] obtain s2 where
    2: "fat32_remove_directory_entry info f s1 = Some (Inr (True, s2))" "fstep info n s1 s2"
    "run_deleted (dat info s c) a b (dat info s2 c)" "\<forall>d. unat d < n \<longrightarrow> ent info s2 d = ent info s d"
    "\<forall>d. valid_cluster n d \<longrightarrow> d \<noteq> c \<longrightarrow> dat info s2 d = dat info s d"
    unfolding 1(3) by blast
  have u2: "uninit k s2 = uninit k s" for k using fstep_uninit [OF fstep_trans [OF 1(2) 2(2)]] .
  have d2: "\<forall>x \<in> set (pre @ post). dat info s2 x = dat info s x" using 2(5) valid by auto
  note rm = dir_list_remove [OF assms(6) 2(3) u2 d2 length_dat [OF assms(1,2)] z]
  obtain A X name' where ax: "dir_list info s ?xs = A @ ?f name' # X" "dir_list info s2 ?xs = A @ X" using rm(1) by blast
  have ch2: "fchain n (ent info s2) ?xs"
    by (rule fchain_same [OF assms(3)]) (use 2(4) valid(1) in \<open>auto simp: valid_cluster_def\<close>)
  obtain s3 where 3: "fat32_read_directory info d s2 = Some (Inr (Some (A @ X), s3))"
    using fat_read_directory_ok [OF assms(1) fstep_ok [OF 2(2)] ch2 assms(4) rm(2) [OF assms(5)]] ax(2) by auto
  have "fat32_remove_directory_entry info (?f name') s1 = fat32_remove_directory_entry info f s1"
    by (simp add: fat32_remove_directory_entry_def f_def file_of_entry_def)
  then show ?thesis using 1(1) 2(1,4,5) 3 ax(1)
    by (intro exI [of _ A] exI [of _ "?f name'"] exI [of _ X] exI [of _ s1] exI [of _ s2] exI [of _ s3]) auto
qed

section \<open>A small directory\<close>

definition ex_dir :: bytes where
  "ex_dir =
     lfn_record 0x45 0 ([0x4E, 0x6F, 0x74, 0x65, 0x73, 0, 0, 0, 0, 0, 0, 0, 0]) @
     file_record \<lparr> dn_name = [0x4E, 0x4F, 0x54, 0x45, 0x53, 0x20, 0x20, 0x20], dn_extension = [0x20, 0x20, 0x20] \<rparr> 0x20 \<lparr> date = 0, time = 0 \<rparr> @
     file_record \<lparr> dn_name = [0x42, 0x20, 0x20, 0x20, 0x20, 0x20, 0x20, 0x20], dn_extension = [0x43, 0x20, 0x20] \<rparr> 0x20 \<lparr> date = 0, time = 0 \<rparr> @
     replicate 416 0"

definition ex_dir_state :: fat_state where
  "ex_dir_state = ex_state\<lparr> fs_disk := (fs_disk ex_state)\<lparr>
     ds_cache := (\<lambda>i. \<lparr> dc_capacity = 0, dc_cache = (if i = 0 then [\<lparr> rec_start = 2, rec_count = 1, rec_data = ex_dir \<rparr>] else []) \<rparr>) \<rparr> \<rparr>"

definition ex_root :: fat32_basic_file_info_t where
  "ex_root = ex_file\<lparr> ff_attributes := 0x10, ff_size := 0, ff_cluster := 2 \<rparr>"

lemma length_ex_dir: "length ex_dir = 512"
  by (simp add: ex_dir_def lfn_record_def file_record_def)

lemma ex_dir_ok: "fat_ok ex_info 8 ex_dir_state"
proof -
  have "cluster_start ex_info 2 = 2" by (simp add: cluster_start_def ex_info_def)
  then have "aligned_req ex_info 8 (2, 1)"
    unfolding aligned_req_def by (intro disjI2 exI [of _ 2]) (simp add: valid_cluster_def ex_info_def)
  then show ?thesis
    by (simp add: fat_ok_def disk_ok_def cache_ok_def rec_ok_def cached_def disk_hw_def ex_dir_state_def ex_state_def ex_info_def length_ex_table length_ex_dir)
qed

lemma ex_dir_view: "fview ex_info ex_dir_state 1 = fview ex_info ex_state 1" "fview ex_info ex_dir_state 2 = ex_dir"
  by (simp_all add: fview_def disk_view_def disk_hw_def ex_dir_state_def ex_state_def ex_info_def rec_has_def rec_sector_def slot_def length_ex_dir)

lemma ex_dir_chain: "fchain 8 (ent ex_info ex_dir_state) [2]"
proof -
  have "ent ex_info ex_dir_state 2 = ent ex_info ex_state 2"
    using ex_dir_view(1) by (simp add: fat_entry_def ex_info_def word_unat_eq_iff unat_div_128)
  then show ?thesis by (simp add: fchain_def valid_cluster_def ex_entries FAT32_BAD_CLUSTER_def)
qed

lemma ex_dir_data: "dat ex_info ex_dir_state 2 = ex_dir"
  using ex_dir_view(2) by (simp add: cluster_data_def spc_def cluster_start_def ex_info_def sectors_def)

lemma ex_dir_runs: "runs_ok ex_dir [0..<16] 0" "name_run ex_dir 0 1"
  by code_simp+

lemma ex_dir_run: "runs_chain ex_info ex_dir_state [2] list_start" "run_in_dir ex_info ex_dir_state [] 2 0 1"
proof -
  have "spc ex_info = 1" by (simp add: spc_def ex_info_def)
  then show "runs_chain ex_info ex_dir_state [2] list_start" "run_in_dir ex_info ex_dir_state [] 2 0 1"
    using ex_dir_runs by (simp_all add: ex_dir_data list_start_def unat_entries_per_cluster(1) run_in_dir_def list_chain_simps)
qed

section \<open>Properties\<close>

text \<open>C28: Listing a directory: on a chain of clusters in which no name has more than 255 records, the listing
  code, with its dynamic array of pending name records, its conversions and allocations, returns exactly the
  reference listing of the clusters, and changes nothing on the disk.\<close>

lemma fat_read_directory_correct:
  assumes "fat_geom info n" "fat_ok info n s" "fchain n (ent info s) xs" "ff_cluster d = hd xs" "runs_chain info s xs list_start"
  shows "\<exists>s'. fat32_read_directory info d s = Some (Inr (Some (dir_list info s xs), s')) \<and>
    fat_ok info n s' \<and> fview info s' = fview info s"
  using fat_read_directory_ok [OF assms] by (auto simp: fstep_def)

lemma fat_read_directory_correct_witness:
  "\<exists>s'. fat32_read_directory ex_info ex_root ex_dir_state = Some (Inr (Some (dir_list ex_info ex_dir_state [2]), s')) \<and>
    fat_ok ex_info 8 s' \<and> fview ex_info s' = fview ex_info ex_dir_state"
  by (rule fat_read_directory_correct [OF ex_geom ex_dir_ok ex_dir_chain _ ex_dir_run(1)]) (simp add: ex_root_def)

text \<open>C29: A file whose name records and entry lie in one cluster is listed; removing its directory entry takes
  this file and no other out of the listing, and leaves the allocation table and all other clusters alone.\<close>

lemma fat_remove_listed_file:
  assumes "fat_geom info n" "fat_ok info n s" "fchain n (ent info s) (pre @ c # post)" "ff_cluster d = hd (pre @ c # post)"
    "runs_chain info s (pre @ c # post) list_start" "run_in_dir info s pre c a b"
  shows "\<exists>A f X s1 s2 s3. fat32_read_directory info d s = Some (Inr (Some (A @ f # X), s1)) \<and>
    (\<exists>name. f = file_of_entry (dir_entry (dat info s c) b) c (of_nat b) name c (of_nat a)) \<and>
    fat32_remove_directory_entry info f s1 = Some (Inr (True, s2)) \<and>
    fat32_read_directory info d s2 = Some (Inr (Some (A @ X), s3)) \<and>
    (\<forall>x. unat x < n \<longrightarrow> ent info s2 x = ent info s x) \<and> (\<forall>x. valid_cluster n x \<longrightarrow> x \<noteq> c \<longrightarrow> dat info s2 x = dat info s x)"
  by (rule list_remove_list_ok [OF assms])

lemma fat_remove_listed_file_witness:
  "\<exists>A f X s1 s2 s3. fat32_read_directory ex_info ex_root ex_dir_state = Some (Inr (Some (A @ f # X), s1)) \<and>
    ff_dos_filename f = take 8 (dir_entry ex_dir 1) \<and>
    fat32_remove_directory_entry ex_info f s1 = Some (Inr (True, s2)) \<and>
    fat32_read_directory ex_info ex_root s2 = Some (Inr (Some (A @ X), s3))"
proof -
  have h: "fchain 8 (ent ex_info ex_dir_state) ([] @ 2 # [])" "ff_cluster ex_root = hd ([] @ 2 # [])"
    "runs_chain ex_info ex_dir_state ([] @ 2 # []) list_start"
    using ex_dir_chain ex_dir_run(1) by (simp_all add: ex_root_def)
  from fat_remove_listed_file [OF ex_geom ex_dir_ok h ex_dir_run(2)] show ?thesis
    unfolding ex_dir_data by (elim exE conjE) (intro exI conjI, assumption, simp add: file_of_entry_def, assumption+)
qed

text \<open>C30: Long names survive the directory: the records an ASCII name is split into, found in this order before an
  entry in use, give a listed file with exactly this name.\<close>

lemma lfn_name_round_trip:
  assumes "ascii cs" "0 < length cs" "length cs \<le> 3315" "\<And>k. length (junk k) = k"
    "fat32_split_filename_to_lfn junk (cs @ 0 # rest) checksum = Some (Inr a)"
    "\<forall>j < length (da_list a). dir_entry buf (i + j) = da_list a ! j" "b = i + length (da_list a)"
    "dir_entry buf b ! 0 \<noteq> 0" "dir_entry buf b ! 11 \<noteq> FAT32_ATTRIBUTE_LFN" "dir_entry buf b ! 11 \<noteq> FAT32_ATTRIBUTE_DELETED"
    "ls_lfn r = []" "fst (ls_first r) = 0" "c \<noteq> 0"
  shows "\<exists>tail. ls_files (list_cluster junk c buf [i..<Suc b] r) =
      ls_files r @ [file_of_entry (dir_entry buf b) c (of_nat b) (cs @ 0 # tail) c (of_nat i)]"
proof -
  have "da_list a = rev (name_records cs (ucast checksum) (record_count cs))"
    using split_name_ok [OF assms(1,3,4), of rest checksum] assms(5) by auto
  then have "\<forall>j < record_count cs. dir_entry buf (i + j) = rev (name_records cs (ucast checksum) (record_count cs)) ! j"
    "b = i + record_count cs"
    using assms(6,7) by (simp_all add: name_records_def)
  from listed_name_ok [OF assms(1-4) this assms(8-11) _ assms(13)] show ?thesis
    using assms(11,12) by (auto simp: list_wf_def)
qed

lemma lfn_name_round_trip_witness:
  "\<exists>a tail. fat32_split_filename_to_lfn (\<lambda>k. replicate k 0) [0x4E, 0x6F, 0x74, 0x65, 0x73, 0] 0 = Some (Inr a) \<and>
    ls_files (list_cluster (\<lambda>k. replicate k 0) 2 ex_dir [0..<Suc 1] list_start) =
      [file_of_entry (dir_entry ex_dir 1) 2 (of_nat 1) ([0x4E, 0x6F, 0x74, 0x65, 0x73] @ 0 # tail) 2 (of_nat 0)]"
proof -
  let ?cs = "[0x4E, 0x6F, 0x74, 0x65, 0x73] :: bytes" and ?junk = "\<lambda>k. replicate k (0 :: u8)"
  have h: "ascii ?cs" "0 < length ?cs" "length ?cs \<le> 3315" "length (?junk k) = k" for k by (simp_all add: ascii_def)
  obtain a where a: "fat32_split_filename_to_lfn ?junk (?cs @ 0 # []) 0 = Some (Inr a)" "da_list a = rev (name_records ?cs (ucast (0 :: u32)) (record_count ?cs))"
    using split_name_ok [of ?cs ?junk "[]" 0] h by blast
  have r: "rev (name_records ?cs (ucast (0 :: u32)) (record_count ?cs)) = [dir_entry ex_dir 0]" by code_simp
  have d: "dir_entry ex_dir 1 ! 0 \<noteq> 0" "dir_entry ex_dir 1 ! 11 \<noteq> FAT32_ATTRIBUTE_LFN" "dir_entry ex_dir 1 ! 11 \<noteq> FAT32_ATTRIBUTE_DELETED"
    by code_simp+
  have s: "\<forall>j < length (da_list a). dir_entry ex_dir (0 + j) = da_list a ! j" "1 = 0 + length (da_list a)"
    unfolding a(2) r by simp_all
  have l: "ls_lfn list_start = []" "fst (ls_first list_start) = 0" "(2 :: u32) \<noteq> 0" "ls_files list_start = []"
    by (simp_all add: list_start_def)
  from lfn_name_round_trip [OF h a(1) s d l(1-3)] show ?thesis using a(1) l(4) by auto
qed

end
