(* ===== verification/Hash_Table.thy ===== *)
theory Hash_Table
  imports Strings
begin

text \<open>
  \<^verbatim>\<open>lib/hash_table.c\<close>: a hash table with chained buckets that grows and shrinks along a table of
  primes.  A bucket is a pair of linked lists in the same order, one of keys and one of values; a key
  is the bytes the caller passes with their size, a value the object whose copy the node owns.
  The locale \<open>key_map\<close> is the contract of a finite map; the table is its interpretation.
\<close>

section \<open>The code\<close>

definition primes :: "u32 list" where
  "primes = [0, 2, 5, 11, 37, 67, 131, 257, 521, 1031, 2053, 4099, 8209,
     16411, 32771, 65537, 131101, 262147, 524309, 1048583, 2097169, 4194319, 8388617,
     16777259, 33554467, 67108879, 134217757, 268435459, 536870923, 1073741827, 2147483659, 0]"

definition prime_at :: "u32 \<Rightarrow> u32 res" where
  "prime_at i = (if unat i < 32 then Inr (primes ! unat i) else Inl Out_Of_Bounds)"

record 'v hash_table_t =
  elements_count :: u32
  buff_count_index :: u32
  key_buff_root :: "bytes list list"
  val_buff_root :: "'v list list"

definition hash_bytes :: "bytes \<Rightarrow> u32" where
  "hash_bytes key = foldl (\<lambda>hash b. hash * 1073741827 + ucast b) 0 key"

definition get_hash :: "bytes \<Rightarrow> u32 \<Rightarrow> u32 res" where
  "get_hash key buff_count =
     (if buff_count = 0 then Inl (Undefined ''division by zero'') else Inr (hash_bytes key mod buff_count))"

text \<open>The size of the buffer in bytes is a product of 32 bits.\<close>

definition init_buff :: "u32 \<Rightarrow> 'a list list res" where
  "init_buff buff_count_index_new =
     rbind (prime_at buff_count_index_new) (\<lambda>p. Inr (replicate (unat (p * 4) div 4) []))"

fun find_key :: "bytes \<Rightarrow> bytes list \<Rightarrow> nat \<Rightarrow> nat option res" where
  "find_key key [] i = Inr None"
| "find_key key (k # ks) i =
     rbind (if length key = length k then memcmp key k (of_nat (length key)) else Inr False) (\<lambda>same.
     if same then Inr (Some i) else find_key key ks (Suc i))"

text \<open>The bucket of a key, and the place of its node in the bucket.\<close>

definition find_node :: "'v hash_table_t \<Rightarrow> bytes \<Rightarrow> (nat \<times> nat option) res" where
  "find_node h key =
     rbind (prime_at (buff_count_index h)) (\<lambda>p.
     rbind (get_hash key p) (\<lambda>hash.
     if unat hash < length (key_buff_root h) \<and> unat hash < length (val_buff_root h)
     then rbind (find_key key (key_buff_root h ! unat hash) 0) (\<lambda>i. Inr (unat hash, i))
     else Inl Out_Of_Bounds))"

definition hash_table_get :: "'v hash_table_t \<Rightarrow> bytes \<Rightarrow> 'v option res" where
  "hash_table_get h key =
     rbind (find_node h key) (\<lambda>(hash, i).
     case i of
       None \<Rightarrow> Inr None
     | Some i \<Rightarrow> if i < length (val_buff_root h ! hash) then Inr (Some (val_buff_root h ! hash ! i))
                 else Inl (Undefined ''NULL dereference''))"

definition remove_at :: "nat \<Rightarrow> 'a list \<Rightarrow> 'a list" where
  "remove_at i xs = take i xs @ drop (Suc i) xs"

text \<open>The part of an erasure before a rebuild: was the key there, and the index to shrink to.\<close>

definition erase_step :: "'v hash_table_t \<Rightarrow> bytes \<Rightarrow> ('v hash_table_t \<times> bool \<times> u32 option) res" where
  "erase_step h key =
     rbind (find_node h key) (\<lambda>(hash, i).
     case i of
       None \<Rightarrow> Inr (h, False, None)
     | Some i \<Rightarrow>
       if i < length (val_buff_root h ! hash) then
         let h = h\<lparr> key_buff_root := (key_buff_root h)[hash := remove_at i (key_buff_root h ! hash)],
                    val_buff_root := (val_buff_root h)[hash := remove_at i (val_buff_root h ! hash)],
                    elements_count := elements_count h - 1 \<rparr> in
         if buff_count_index h > 2 then
           rbind (prime_at (buff_count_index h - 2)) (\<lambda>p.
           Inr (h, True, if elements_count h \<le> p then Some (buff_count_index h - 2) else None))
         else Inr (h, True, None)
       else Inl (Undefined ''NULL dereference''))"

text \<open>The part of an insertion between the erasure of the old element and a rebuild.\<close>

definition insert_step :: "'v hash_table_t \<Rightarrow> bytes \<Rightarrow> 'v \<Rightarrow> ('v hash_table_t \<times> u32 option) res" where
  "insert_step h key v =
     rbind (prime_at (buff_count_index h)) (\<lambda>p.
     rbind (get_hash key p) (\<lambda>hash.
     if unat hash < length (key_buff_root h) \<and> unat hash < length (val_buff_root h) then
       let h = h\<lparr> key_buff_root := (key_buff_root h)[unat hash := key # key_buff_root h ! unat hash],
                  val_buff_root := (val_buff_root h)[unat hash := v # val_buff_root h ! unat hash],
                  elements_count := elements_count h + 1 \<rparr>
       in Inr (h, if elements_count h \<ge> p div 2 then Some (buff_count_index h + 1) else None)
     else Inl Out_Of_Bounds))"

text \<open>The elements of the old buckets in order, and the empty table of the new size.\<close>

definition rehash :: "'v hash_table_t \<Rightarrow> u32 \<Rightarrow> ((bytes \<times> 'v) list \<times> 'v hash_table_t) res" where
  "rehash h buff_count_index_new =
     rbind (init_buff buff_count_index_new) (\<lambda>key_buff.
     rbind (init_buff buff_count_index_new) (\<lambda>val_buff.
     rbind (prime_at (buff_count_index h)) (\<lambda>p.
     if unat p \<le> length (key_buff_root h) \<and> unat p \<le> length (val_buff_root h) \<and>
       (\<forall>i < unat p. length (key_buff_root h ! i) \<le> length (val_buff_root h ! i))
     then Inr (concat (map (\<lambda>i. zip (key_buff_root h ! i) (val_buff_root h ! i)) [0..<unat p]),
            \<lparr> elements_count = 0, buff_count_index = buff_count_index_new, key_buff_root = key_buff, val_buff_root = val_buff \<rparr>)
     else Inl Out_Of_Bounds)))"

text \<open>
  \<^verbatim>\<open>hash_table_insert\<close>, \<^verbatim>\<open>hash_table_erase\<close> and \<^verbatim>\<open>hash_table_rebuild\<close> call each other.  The recursion is
  that of inserting elements one by one: a rebuild inserts all elements of the old buckets.
\<close>

partial_function (option) insert_all :: "(bytes \<times> 'v) list \<Rightarrow> 'v hash_table_t \<Rightarrow> 'v hash_table_t lres" where
  [code]: "insert_all ps h =
     (case ps of
        [] \<Rightarrow> Some (Inr h)
      | (key, v) # ps \<Rightarrow>
          lbind (Some (erase_step h key)) (\<lambda>(h, _, r).
          lbind (case r of
                   None \<Rightarrow> Some (Inr h)
                 | Some i \<Rightarrow> lbind (Some (rehash h i)) (\<lambda>(olds, h). insert_all olds h)) (\<lambda>h.
          lbind (Some (insert_step h key v)) (\<lambda>(h, r).
          lbind (case r of
                   None \<Rightarrow> Some (Inr h)
                 | Some i \<Rightarrow> lbind (Some (rehash h i)) (\<lambda>(olds, h). insert_all olds h)) (\<lambda>h.
          insert_all ps h)))))"

definition hash_table_rebuild :: "'v hash_table_t \<Rightarrow> u32 \<Rightarrow> 'v hash_table_t lres" where
  "hash_table_rebuild h i = lbind (Some (rehash h i)) (\<lambda>(olds, h). insert_all olds h)"

definition hash_table_insert :: "'v hash_table_t \<Rightarrow> bytes \<Rightarrow> 'v \<Rightarrow> 'v hash_table_t lres" where
  "hash_table_insert h key v = insert_all [(key, v)] h"

definition hash_table_erase :: "'v hash_table_t \<Rightarrow> bytes \<Rightarrow> (bool \<times> 'v hash_table_t) lres" where
  "hash_table_erase h key =
     lbind (Some (erase_step h key)) (\<lambda>(h, found, r).
     lbind (case r of None \<Rightarrow> Some (Inr h) | Some i \<Rightarrow> hash_table_rebuild h i) (\<lambda>h. Some (Inr (found, h))))"

definition hash_table_create :: "'v hash_table_t res" where
  "hash_table_create =
     rbind (init_buff 1) (\<lambda>key_buff. rbind (init_buff 1) (\<lambda>val_buff.
     Inr \<lparr> elements_count = 0, buff_count_index = 1, key_buff_root = key_buff, val_buff_root = val_buff \<rparr>))"

fun reserve_loop :: "nat list \<Rightarrow> u32 \<Rightarrow> u32 option" where
  "reserve_loop [] buff_count = None"
| "reserve_loop (i # is) buff_count = (if primes ! i \<ge> buff_count then Some (of_nat i) else reserve_loop is buff_count)"

definition hash_table_reserve :: "'v hash_table_t \<Rightarrow> u32 \<Rightarrow> 'v hash_table_t lres" where
  "hash_table_reserve h buff_count =
     (case reserve_loop [0..<32] buff_count of None \<Rightarrow> Some (Inr h) | Some i \<Rightarrow> hash_table_rebuild h i)"

section \<open>Primes and hashes\<close>

lemma length_primes [simp]: "length primes = 32"
  by (simp add: primes_def)

abbreviation prime :: "nat \<Rightarrow> nat" where
  "prime i \<equiv> unat (primes ! i)"

lemma prime_table:
  "sorted_wrt (<) (map unat (take 26 (drop 1 primes)))" "\<forall>p \<in> set (take 26 (drop 1 primes)). 2 \<le> unat p \<and> unat p < 2 ^ 28"
  "2 ^ 26 < prime 26 div 2"
  by (simp_all add: primes_def)

lemma prime_facts:
  "1 \<le> i \<Longrightarrow> i < 26 \<Longrightarrow> prime i < prime (Suc i)" "1 \<le> i \<Longrightarrow> i \<le> 26 \<Longrightarrow> 2 \<le> prime i" "1 \<le> i \<Longrightarrow> i \<le> 26 \<Longrightarrow> prime i < 2 ^ 28"
proof -
  have n: "take 26 (drop 1 primes) ! (i - 1) = primes ! i" "i - 1 < length (take 26 (drop 1 primes))" if "1 \<le> i" "i \<le> 26" for i
    using that by simp_all
  show "2 \<le> prime i" "prime i < 2 ^ 28" if "1 \<le> i" "i \<le> 26"
    using prime_table(2) n [OF that] nth_mem by metis+
  show "prime i < prime (Suc i)" if "1 \<le> i" "i < 26"
    using sorted_wrt_nth_less [OF prime_table(1), of "i - 1" i] n(1) [of i] n(1) [of "Suc i"] that by simp
qed

lemma prime_at_ok: "unat i \<le> 26 \<Longrightarrow> prime_at i = Inr (primes ! unat i)"
  by (simp add: prime_at_def)

text \<open>The bucket of a key in a table of \<open>p\<close> buckets.\<close>

definition bucket_of :: "nat \<Rightarrow> bytes \<Rightarrow> nat" where
  "bucket_of p key = unat (hash_bytes key) mod p"

lemma bucket_of_less: "0 < p \<Longrightarrow> bucket_of p key < p"
  by (simp add: bucket_of_def)

lemma get_hash_ok: "p \<noteq> 0 \<Longrightarrow> \<exists>hash. get_hash key p = Inr hash \<and> unat hash = bucket_of (unat p) key"
  by (simp add: get_hash_def bucket_of_def unat_mod)

lemma init_buff_ok:
  assumes "1 \<le> unat i" "unat i \<le> 26"
  shows "init_buff i = Inr (replicate (prime (unat i)) [])"
proof -
  have "unat (primes ! unat i * 4) = prime (unat i) * 4" using prime_facts(3) [OF assms] by (simp add: unat_word_ariths)
  then show ?thesis by (simp add: init_buff_def prime_at_ok [OF assms(2)])
qed

section \<open>The table as a map\<close>

definition key_ok :: "bytes \<Rightarrow> bool" where
  "key_ok key \<longleftrightarrow> length key < 2 ^ 32"

definition buckets :: "'v hash_table_t \<Rightarrow> (bytes \<times> 'v) list list" where
  "buckets h = map2 zip (key_buff_root h) (val_buff_root h)"

definition ht_map :: "'v hash_table_t \<Rightarrow> bytes \<Rightarrow> 'v option" where
  "ht_map h = map_of (concat (buckets h))"

text \<open>The shape of a table, apart from its number of elements.\<close>

definition ht_shape :: "'v hash_table_t \<Rightarrow> bool" where
  "ht_shape h \<longleftrightarrow> (let i = unat (buff_count_index h); p = prime i in
     1 \<le> i \<and> i \<le> 26 \<and> length (key_buff_root h) = p \<and> length (val_buff_root h) = p \<and>
     (\<forall>b < p. length (key_buff_root h ! b) = length (val_buff_root h ! b) \<and> distinct (key_buff_root h ! b) \<and>
        (\<forall>k \<in> set (key_buff_root h ! b). key_ok k \<and> bucket_of p k = b)) \<and>
     unat (elements_count h) = length (concat (buckets h)))"

definition ht_inv :: "'v hash_table_t \<Rightarrow> bool" where
  "ht_inv h \<longleftrightarrow> ht_shape h \<and> unat (elements_count h) < prime (unat (buff_count_index h)) div 2"

lemma ht_shapeD:
  assumes "ht_shape h" "p = prime (unat (buff_count_index h))"
  shows "1 \<le> unat (buff_count_index h)" "unat (buff_count_index h) \<le> 26" "length (key_buff_root h) = p" "length (val_buff_root h) = p"
    "2 \<le> p" "p < 2 ^ 28" "unat (elements_count h) = length (concat (buckets h))"
    "prime_at (buff_count_index h) = Inr (primes ! unat (buff_count_index h))"
    "\<And>b. b < p \<Longrightarrow> length (key_buff_root h ! b) = length (val_buff_root h ! b)"
    "\<And>b. b < p \<Longrightarrow> distinct (key_buff_root h ! b)"
    "\<And>b k. b < p \<Longrightarrow> k \<in> set (key_buff_root h ! b) \<Longrightarrow> key_ok k \<and> bucket_of p k = b"
  using assms prime_facts(2,3) [of "unat (buff_count_index h)"] by (auto simp: ht_shape_def Let_def prime_at_ok)

text \<open>Lists of buckets.\<close>

lemma map_of_buckets:
  assumes "\<And>b k. b < length B \<Longrightarrow> k \<in> fst ` set (B ! b) \<Longrightarrow> f k = b"
  shows "map_of (concat B) k = (if f k < length B then map_of (B ! f k) k else None)"
  using assms
proof (induction B rule: rev_induct)
  case (snoc x B)
  have B: "\<And>b k. b < length B \<Longrightarrow> k \<in> fst ` set (B ! b) \<Longrightarrow> f k = b"
  proof -
    fix b k assume "b < length B" "k \<in> fst ` set (B ! b)"
    then show "f k = b" using snoc.prems [of b k] by (simp add: nth_append)
  qed
  have x: "\<And>k. k \<in> fst ` set x \<Longrightarrow> f k = length B" using snoc.prems [of "length B"] by simp
  show ?case
  proof (cases "f k = length B")
    case True
    then show ?thesis using snoc.IH [OF B] by (simp add: map_add_def split: option.split)
  next
    case False
    then have "map_of x k = None" using x by (auto simp: map_of_eq_None_iff)
    then show ?thesis using snoc.IH [OF B] False by (simp add: map_add_def nth_append split: option.split)
  qed
qed simp

lemma length_concat_update:
  "b < length B \<Longrightarrow> length (concat (B[b := x])) + length (B ! b) = length (concat B) + length x"
  by (induction B arbitrary: b) (auto simp: nth_Cons split: nat.split)

lemma length_buckets: "ht_shape h \<Longrightarrow> length (buckets h) = prime (unat (buff_count_index h))"
  by (simp add: buckets_def ht_shapeD)

lemma nth_buckets:
  "ht_shape h \<Longrightarrow> b < prime (unat (buff_count_index h)) \<Longrightarrow> buckets h ! b = zip (key_buff_root h ! b) (val_buff_root h ! b)"
  by (simp add: buckets_def ht_shapeD)

lemma ht_map_bucket:
  assumes "ht_shape h" "b = bucket_of (prime (unat (buff_count_index h))) key"
  shows "ht_map h key = map_of (zip (key_buff_root h ! b) (val_buff_root h ! b)) key"
proof -
  note d = ht_shapeD [OF assms(1) refl]
  let ?p = "prime (unat (buff_count_index h))"
  have b: "b < ?p" unfolding assms(2) by (rule bucket_of_less) (use d(5) in simp)
  have "bucket_of ?p k = i" if "i < length (buckets h)" "k \<in> fst ` set (buckets h ! i)" for i k
    using that d(11) [of i k] d(9) [of i] by (auto simp: length_buckets [OF assms(1)] nth_buckets [OF assms(1)] dest: set_zip_leftD)
  from map_of_buckets [where k = key and B = "buckets h" and f = "bucket_of ?p", OF this] show ?thesis
    using b nth_buckets [OF assms(1) b] by (simp add: ht_map_def length_buckets [OF assms(1)] assms(2))
qed

lemma find_key_ok:
  assumes "key_ok key"
  shows "\<exists>r. find_key key ks i = Inr r \<and>
    (case r of None \<Rightarrow> key \<notin> set ks | Some j \<Rightarrow> i \<le> j \<and> j - i < length ks \<and> ks ! (j - i) = key)"
proof (induction ks arbitrary: i)
  case (Cons k ks)
  have same: "(if length key = length k then memcmp key k (of_nat (length key)) else Inr False) = Inr (key = k)"
    using assms memcmp_ok [of "of_nat (length key)" key k] by (auto simp: key_ok_def unat_of_nat_32)
  show ?case
  proof (cases "key = k")
    case True
    then show ?thesis using same by simp
  next
    case False
    obtain r where r: "find_key key ks (Suc i) = Inr r"
      "case r of None \<Rightarrow> key \<notin> set ks | Some j \<Rightarrow> Suc i \<le> j \<and> j - Suc i < length ks \<and> ks ! (j - Suc i) = key"
      using Cons.IH [of "Suc i"] by blast
    have "(k # ks) ! (j - i) = ks ! (j - Suc i)" if "Suc i \<le> j" for j
      using that Suc_diff_Suc [of i j] by simp
    then show ?thesis using r False same by (intro exI [of _ r]) (auto split: option.splits)
  qed
qed simp

lemma find_node_ok:
  assumes "ht_shape h" "key_ok key" "b = bucket_of (prime (unat (buff_count_index h))) key"
  shows "\<exists>r. find_node h key = Inr (b, r) \<and>
    (case r of None \<Rightarrow> ht_map h key = None
     | Some j \<Rightarrow> j < length (key_buff_root h ! b) \<and> key_buff_root h ! b ! j = key \<and> ht_map h key = Some (val_buff_root h ! b ! j))"
proof -
  let ?p = "primes ! unat (buff_count_index h)"
  note d = ht_shapeD [OF assms(1) refl]
  have "?p \<noteq> 0" using d(5) by auto
  then obtain hash where hash: "get_hash key ?p = Inr hash" "unat hash = b" using get_hash_ok assms(3) by blast
  have b: "b < unat ?p" unfolding assms(3) by (rule bucket_of_less) (use d(5) in simp)
  obtain r where r: "find_key key (key_buff_root h ! b) 0 = Inr r"
    "case r of None \<Rightarrow> key \<notin> set (key_buff_root h ! b) | Some j \<Rightarrow> j < length (key_buff_root h ! b) \<and> key_buff_root h ! b ! j = key"
    using find_key_ok [OF assms(2), of "key_buff_root h ! b" 0] by (elim exE conjE) (rule that, assumption, auto split: option.splits)
  note mb = ht_map_bucket [OF assms(1,3)]
  have "case r of None \<Rightarrow> ht_map h key = None
     | Some j \<Rightarrow> j < length (key_buff_root h ! b) \<and> key_buff_root h ! b ! j = key \<and> ht_map h key = Some (val_buff_root h ! b ! j)"
  proof (cases r)
    case None
    then show ?thesis using r(2) mb d(9) [OF b] by (auto simp: map_of_eq_None_iff dest: set_zip_leftD)
  next
    case (Some j)
    then show ?thesis using r(2) mb map_of_zip_nth [OF d(9) [OF b] d(10) [OF b], of j] d(9) [OF b] by auto
  qed
  then show ?thesis using hash b d(3,4,8) r(1) by (simp add: find_node_def)
qed

lemma hash_table_get_ok:
  assumes "ht_shape h" "key_ok key"
  shows "hash_table_get h key = Inr (ht_map h key)"
proof -
  obtain b where b: "b = bucket_of (prime (unat (buff_count_index h))) key" by blast
  obtain r where r: "find_node h key = Inr (b, r)"
    "case r of None \<Rightarrow> ht_map h key = None
     | Some j \<Rightarrow> j < length (key_buff_root h ! b) \<and> key_buff_root h ! b ! j = key \<and> ht_map h key = Some (val_buff_root h ! b ! j)"
    using find_node_ok [OF assms b] by blast
  have "b < prime (unat (buff_count_index h))"
    unfolding b by (rule bucket_of_less) (use ht_shapeD(5) [OF assms(1) refl] in simp)
  then have "length (key_buff_root h ! b) = length (val_buff_root h ! b)" using ht_shapeD(9) [OF assms(1) refl] by blast
  then show ?thesis using r by (auto simp: hash_table_get_def split: option.splits)
qed

text \<open>A change of one bucket.\<close>

lemma ht_update:
  assumes "ht_shape h" "b < prime (unat (buff_count_index h))" "length ks = length vs" "distinct ks"
    "\<forall>k \<in> set ks. key_ok k \<and> bucket_of (prime (unat (buff_count_index h))) k = b"
    "unat n + length (key_buff_root h ! b) = unat (elements_count h) + length ks"
    "h' = h\<lparr> key_buff_root := (key_buff_root h)[b := ks], val_buff_root := (val_buff_root h)[b := vs], elements_count := n \<rparr>"
  shows "ht_shape h'"
    "ht_map h' k = (if bucket_of (prime (unat (buff_count_index h))) k = b then map_of (zip ks vs) k else ht_map h k)"
proof -
  note d = ht_shapeD [OF assms(1) refl]
  let ?p = "prime (unat (buff_count_index h))"
  have B: "buckets h' = (buckets h)[b := zip ks vs]"
    by (simp add: buckets_def assms(7) zip_update map_update)
  have "length (buckets h ! b) = length (key_buff_root h ! b)" using nth_buckets [OF assms(1,2)] d(9) [OF assms(2)] by simp
  then have "length (concat (buckets h')) = unat n"
    using length_concat_update [of b "buckets h" "zip ks vs"] assms(2,3,6) d(7) length_buckets [OF assms(1)] unfolding B by simp
  then show sh: "ht_shape h'" using assms(1-5,7) by (auto simp: ht_shape_def Let_def nth_list_update)
  have i: "buff_count_index h' = buff_count_index h" by (simp add: assms(7))
  have "bucket_of ?p k < ?p" by (rule bucket_of_less) (use d(5) in simp)
  then show "ht_map h' k = (if bucket_of ?p k = b then map_of (zip ks vs) k else ht_map h k)"
    unfolding ht_map_bucket [OF sh refl] ht_map_bucket [OF assms(1) refl] i using d(3,4) by (auto simp: assms(7) nth_list_update)
qed

lemma set_remove_at: "distinct xs \<Longrightarrow> i < length xs \<Longrightarrow> set (remove_at i xs) = set xs - {xs ! i}"
proof -
  assume "distinct xs" "i < length xs"
  moreover from this have "xs = take i xs @ xs ! i # drop (Suc i) xs" by (simp add: id_take_nth_drop)
  ultimately show ?thesis unfolding remove_at_def by (metis Diff_insert_absorb Un_iff append_Cons distinct_append
      distinct.simps(2) insert_is_Un not_distinct_conv_prefix set_append list.simps(15) Un_insert_right disjoint_insert(1))
qed

lemma remove_at_facts:
  "i < length xs \<Longrightarrow> length (remove_at i xs) = length xs - 1" "distinct xs \<Longrightarrow> distinct (remove_at i xs)"
  "length xs = length ys \<Longrightarrow> zip (remove_at i xs) (remove_at i ys) = remove_at i (zip xs ys)"
  by (auto simp: remove_at_def take_zip drop_zip dest: in_set_takeD in_set_dropD)
     (auto simp: distinct_conv_nth in_set_conv_nth)

lemma map_of_remove_at:
  assumes "length ks = length vs" "distinct ks" "i < length ks"
  shows "map_of (zip (remove_at i ks) (remove_at i vs)) = (map_of (zip ks vs))(ks ! i := None)"
proof
  fix k
  have s: "zip ks vs = take i (zip ks vs) @ (ks ! i, vs ! i) # drop (Suc i) (zip ks vs)"
    using assms(1,3) id_take_nth_drop [of i "zip ks vs"] by simp
  have fs: "map_of zs k = None" if "k \<notin> fst ` set zs" for zs :: "('a \<times> 'b) list" and k
    using that by (simp add: map_of_eq_None_iff)
  have "ks ! i \<notin> set (remove_at i ks)" using set_remove_at [OF assms(2,3)] by simp
  then have n: "map_of (zip (remove_at i ks) (remove_at i vs)) (ks ! i) = None"
    by (intro fs) (auto dest: set_zip_leftD)
  have "map_of (zip (remove_at i ks) (remove_at i vs)) k = map_of (zip ks vs) k" if "k \<noteq> ks ! i"
    unfolding remove_at_facts(3) [OF assms(1)] by (subst (2) s) (use that in \<open>simp add: remove_at_def map_add_def split: option.split\<close>)
  then show "map_of (zip (remove_at i ks) (remove_at i vs)) k = ((map_of (zip ks vs))(ks ! i := None)) k"
    using n by simp
qed

lemma erase_step_ok:
  assumes "ht_shape h" "key_ok key"
  shows "\<exists>h' r. erase_step h key = Inr (h', ht_map h key \<noteq> None, r) \<and> ht_shape h' \<and> buff_count_index h' = buff_count_index h \<and>
    ht_map h' = (ht_map h)(key := None) \<and>
    unat (elements_count h') = unat (elements_count h) - (if ht_map h key = None then 0 else 1) \<and>
    (ht_map h key \<noteq> None \<longrightarrow> 0 < unat (elements_count h)) \<and>
    (ht_map h key = None \<longrightarrow> h' = h \<and> r = None) \<and>
    (\<forall>i. r = Some i \<longrightarrow> 1 \<le> unat i \<and> unat i \<le> 26)"
proof -
  note d = ht_shapeD [OF assms(1) refl]
  let ?p = "prime (unat (buff_count_index h))"
  obtain b where b: "b = bucket_of ?p key" by blast
  have bp: "b < ?p" unfolding b by (rule bucket_of_less) (use d(5) in simp)
  obtain r where r: "find_node h key = Inr (b, r)"
    "case r of None \<Rightarrow> ht_map h key = None
     | Some j \<Rightarrow> j < length (key_buff_root h ! b) \<and> key_buff_root h ! b ! j = key \<and> ht_map h key = Some (val_buff_root h ! b ! j)"
    using find_node_ok [OF assms b] by blast
  show ?thesis
  proof (cases r)
    case None
    then show ?thesis using r assms(1) by (auto simp: erase_step_def fun_upd_idem)
  next
    case (Some j)
    let ?ks = "key_buff_root h ! b" and ?vs = "val_buff_root h ! b"
    have j: "j < length ?ks" "?ks ! j = key" "ht_map h key \<noteq> None" "j < length ?vs" using r(2) Some d(9) [OF bp] by simp_all
    have le: "length ?ks \<le> unat (elements_count h)"
    proof -
      have "?ks = map fst (buckets h ! b)" using nth_buckets [OF assms(1) bp] d(9) [OF bp] by simp
      then show ?thesis using length_concat_update [of b "buckets h" "[]"] bp length_buckets [OF assms(1)] d(7) by simp
    qed
    then have pos: "0 < unat (elements_count h)" using j(1) by linarith
    then have cnt: "unat (elements_count h - 1) = unat (elements_count h) - 1" by (simp add: unat_minus_one unat_gt_0)
    define h' where "h' = h\<lparr> key_buff_root := (key_buff_root h)[b := remove_at j ?ks],
        val_buff_root := (val_buff_root h)[b := remove_at j ?vs], elements_count := elements_count h - 1 \<rparr>"
    have f: "length (remove_at j ?ks) = length (remove_at j ?vs)" "distinct (remove_at j ?ks)"
      "unat (elements_count h - 1) + length ?ks = unat (elements_count h) + length (remove_at j ?ks)"
      using remove_at_facts(1) [OF j(1)] remove_at_facts(1) [OF j(4)] remove_at_facts(2) d(9,10) [OF bp] cnt pos j(1) by simp_all
    have ks: "\<forall>k \<in> set (remove_at j ?ks). key_ok k \<and> bucket_of ?p k = b"
      using set_remove_at [OF d(10) [OF bp] j(1)] d(11) [OF bp] by auto
    note u = ht_update [OF assms(1) bp f(1,2) ks f(3) h'_def]
    have "ht_map h' = (ht_map h)(key := None)"
    proof
      fix k
      show "ht_map h' k = ((ht_map h)(key := None)) k"
        unfolding u(2) using map_of_remove_at [OF d(9) [OF bp] d(10) [OF bp] j(1)] j(2) ht_map_bucket [OF assms(1) refl, of k] b by auto
    qed
    moreover have "buff_count_index h' = buff_count_index h" "unat (elements_count h') = unat (elements_count h) - 1"
      using cnt by (simp_all add: h'_def)
    moreover have "\<exists>r'. erase_step h key = Inr (h', True, r') \<and> (\<forall>i. r' = Some i \<longrightarrow> 1 \<le> unat i \<and> unat i \<le> 26)"
    proof (cases "buff_count_index h > 2")
      case True
      then have i: "2 < unat (buff_count_index h)" by (simp add: word_less_nat_alt)
      then have "unat (buff_count_index h - 2) = unat (buff_count_index h) - 2" by (simp add: unat_sub_if')
      then have "1 \<le> unat (buff_count_index h - 2)" "unat (buff_count_index h - 2) \<le> 26" using i d(2) by simp_all
      then show ?thesis using r(1) Some j(4) True
        by (simp add: erase_step_def Let_def h'_def prime_at_ok)
    qed (use r(1) Some j(4) in \<open>simp add: erase_step_def Let_def h'_def\<close>)
    ultimately show ?thesis using u(1) j(3) pos by auto
  qed
qed

lemma insert_step_ok:
  assumes "ht_inv h" "key_ok key" "ht_map h key = None" "unat (elements_count h) < 2 ^ 26"
  shows "\<exists>h' r. insert_step h key v = Inr (h', r) \<and> ht_shape h' \<and> buff_count_index h' = buff_count_index h \<and>
    ht_map h' = (ht_map h)(key \<mapsto> v) \<and> unat (elements_count h') = Suc (unat (elements_count h)) \<and>
    (r = None \<and> ht_inv h' \<or> r = Some (buff_count_index h + 1) \<and> unat (buff_count_index h + 1) = Suc (unat (buff_count_index h)) \<and>
       unat (buff_count_index h) < 26)"
proof -
  have sh: "ht_shape h" using assms(1) by (simp add: ht_inv_def)
  note d = ht_shapeD [OF sh refl]
  let ?p = "prime (unat (buff_count_index h))"
  have "primes ! unat (buff_count_index h) \<noteq> 0" using d(5) by auto
  then obtain hash where hash: "get_hash key (primes ! unat (buff_count_index h)) = Inr hash" "unat hash = bucket_of ?p key"
    using get_hash_ok by blast
  obtain b where b: "b = bucket_of ?p key" by blast
  have bp: "b < ?p" unfolding b by (rule bucket_of_less) (use d(5) in simp)
  let ?ks = "key_buff_root h ! b" and ?vs = "val_buff_root h ! b"
  have cnt: "unat (elements_count h + 1) = Suc (unat (elements_count h))" using assms(4) by (simp add: unat_word_ariths)
  define h' where "h' = h\<lparr> key_buff_root := (key_buff_root h)[b := key # ?ks],
      val_buff_root := (val_buff_root h)[b := v # ?vs], elements_count := elements_count h + 1 \<rparr>"
  have new: "key \<notin> set ?ks" using trans [OF ht_map_bucket [OF sh b, symmetric] assms(3)] map_of_zip_is_None [OF d(9) [OF bp]] by blast
  have f: "length (key # ?ks) = length (v # ?vs)" "distinct (key # ?ks)"
    "unat (elements_count h + 1) + length ?ks = unat (elements_count h) + length (key # ?ks)"
    using d(9,10) [OF bp] new cnt by simp_all
  have ks: "\<forall>k \<in> set (key # ?ks). key_ok k \<and> bucket_of ?p k = b"
    using d(11) [OF bp] assms(2) b by auto
  note u = ht_update [OF sh bp f(1,2) ks f(3) h'_def]
  have mp: "ht_map h' = (ht_map h)(key \<mapsto> v)"
  proof
    fix k
    show "ht_map h' k = ((ht_map h)(key \<mapsto> v)) k"
      unfolding u(2) using ht_map_bucket [OF sh refl, of k] b by auto
  qed
  define r where "r = (if elements_count h' \<ge> primes ! unat (buff_count_index h) div 2 then Some (buff_count_index h + 1) else None)"
  have st: "insert_step h key v = Inr (h', r)"
    using hash(1) bp d(3,4,8) by (simp add: insert_step_def hash(2) b [symmetric] Let_def h'_def r_def)
  have i: "buff_count_index h' = buff_count_index h" "unat (elements_count h') = Suc (unat (elements_count h))"
    using cnt by (simp_all add: h'_def)
  have "r = None \<and> ht_inv h' \<or> r = Some (buff_count_index h + 1) \<and> unat (buff_count_index h + 1) = Suc (unat (buff_count_index h)) \<and>
       unat (buff_count_index h) < 26"
  proof (cases "elements_count h' \<ge> primes ! unat (buff_count_index h) div 2")
    case True
    then have "?p div 2 \<le> Suc (unat (elements_count h))" using i(2) by (simp add: word_le_nat_alt unat_div)
    have "unat (buff_count_index h) \<noteq> 26"
    proof
      assume "unat (buff_count_index h) = 26"
      then have "2 ^ 26 < ?p div 2" using prime_table(3) by simp
      then show False using \<open>?p div 2 \<le> Suc (unat (elements_count h))\<close> assms(4) by linarith
    qed
    then have "unat (buff_count_index h) < 26" using d(2) by simp
    moreover from this have "unat (buff_count_index h + 1) = Suc (unat (buff_count_index h))" by (simp add: unat_word_ariths)
    ultimately show ?thesis using True by (simp add: r_def)
  next
    case False
    then show ?thesis using u(1) i by (simp add: r_def ht_inv_def word_le_nat_alt unat_div not_le)
  qed
  then show ?thesis using st u(1) i mp by blast
qed

text \<open>The elements for a rebuild.\<close>

lemma rehash_ok:
  assumes "ht_shape h" "1 \<le> unat i" "unat i \<le> 26"
  shows "\<exists>h0. rehash h i = Inr (concat (buckets h), h0) \<and> ht_inv h0 \<and> buff_count_index h0 = i \<and> ht_map h0 = Map.empty \<and>
    unat (elements_count h0) = 0"
proof -
  note d = ht_shapeD [OF assms(1) refl]
  let ?h0 = "\<lparr> elements_count = 0, buff_count_index = i, key_buff_root = replicate (prime (unat i)) [], val_buff_root = replicate (prime (unat i)) [] \<rparr> :: 'a hash_table_t"
  have "map (\<lambda>i. zip (key_buff_root h ! i) (val_buff_root h ! i)) [0..<prime (unat (buff_count_index h))] = buckets h"
    by (rule nth_equalityI) (simp_all add: length_buckets [OF assms(1)] nth_buckets [OF assms(1)])
  then have "rehash h i = Inr (concat (buckets h), ?h0)"
    using d(3,4,8,9) by (simp add: rehash_def init_buff_ok [OF assms(2,3)])
  moreover have "buckets ?h0 = replicate (prime (unat i)) []"
    by (simp add: buckets_def zip_replicate)
  moreover from this have "concat (buckets ?h0) = []" by simp
  moreover have "2 \<le> prime (unat i)" by (rule prime_facts(2) [OF assms(2,3)])
  ultimately show ?thesis using assms(2,3)
    by (intro exI [of _ ?h0]) (auto simp: ht_inv_def ht_shape_def Let_def ht_map_def)
qed

lemma distinct_concat_buckets:
  assumes "\<And>b. b < length K \<Longrightarrow> distinct (K ! b) \<and> (\<forall>k \<in> set (K ! b). f k = b)"
  shows "distinct (concat K)"
  using assms
proof (induction K rule: rev_induct)
  case (snoc x K)
  have K: "distinct (K ! b) \<and> (\<forall>k \<in> set (K ! b). f k = b)" if "b < length K" for b
    using snoc.prems [of b] that by (simp add: nth_append)
  have "f k < length K" if kc: "k \<in> set (concat K)" for k
  proof -
    obtain x where x: "x \<in> set K" "k \<in> set x" using kc by auto
    obtain b where "b < length K" "K ! b = x" using x(1) by (auto simp: in_set_conv_nth)
    then show ?thesis using K [of b] x(2) by auto
  qed
  then have "set (concat K) \<inter> set x = {}" using snoc.prems [of "length K"] by fastforce
  then show ?case using snoc.IH [OF K] snoc.prems [of "length K"] by simp
qed simp

lemma buckets_keys:
  assumes "ht_shape h"
  shows "distinct (map fst (concat (buckets h)))" "\<forall>k \<in> set (map fst (concat (buckets h))). key_ok k"
proof -
  note d = ht_shapeD [OF assms refl]
  have "map (map fst) (buckets h) = key_buff_root h"
    by (rule nth_equalityI) (simp_all add: length_buckets [OF assms] nth_buckets [OF assms] d(3,9))
  then have e: "map fst (concat (buckets h)) = concat (key_buff_root h)" by (simp add: map_concat)
  show "distinct (map fst (concat (buckets h)))" unfolding e
    by (rule distinct_concat_buckets [of _ "bucket_of (prime (unat (buff_count_index h)))"]) (use d(3,10,11) in auto)
  show "\<forall>k \<in> set (map fst (concat (buckets h))). key_ok k" unfolding e
  proof
    fix k assume "k \<in> set (concat (key_buff_root h))"
    then obtain x where x: "x \<in> set (key_buff_root h)" "k \<in> set x" by auto
    obtain b where "b < length (key_buff_root h)" "key_buff_root h ! b = x" using x(1) by (auto simp: in_set_conv_nth)
    then show "key_ok k" using d(3) d(11) [of b k] x(2) by simp
  qed
qed

lemma ht_map_dom: "ht_shape h \<Longrightarrow> card (dom (ht_map h)) = unat (elements_count h)"
proof -
  assume s: "ht_shape h"
  have "card (set (map fst (concat (buckets h)))) = length (map fst (concat (buckets h)))"
    by (rule distinct_card [OF buckets_keys(1) [OF s]])
  moreover have "dom (ht_map h) = set (map fst (concat (buckets h)))" by (simp only: ht_map_def dom_map_of_conv_image_fst set_map)
  ultimately show ?thesis using ht_shapeD(7) [OF s refl] by simp
qed

lemma insert_all_ok:
  assumes "ht_inv h" "distinct (map fst ps)" "\<forall>k \<in> set (map fst ps). key_ok k \<and> ht_map h k = None"
    "unat (elements_count h) + length ps \<le> 2 ^ 26"
  shows "\<exists>h'. insert_all ps h = Some (Inr h') \<and> ht_inv h' \<and> ht_map h' = ht_map h ++ map_of ps \<and>
    unat (elements_count h') = unat (elements_count h) + length ps \<and> unat (buff_count_index h) \<le> unat (buff_count_index h')"
  using assms
proof (induction "(26 - unat (buff_count_index h), length ps)" arbitrary: h ps rule: wf_induct_rule [OF wf_lex_prod [OF wf_less_than wf_less_than]])
  case 1
  note IH = 1(1)
  show ?case
  proof (cases ps)
    case Nil
    then show ?thesis using 1(2) by (subst insert_all.simps) simp
  next
    case (Cons kv qs)
    obtain key v where kv: "kv = (key, v)" by (cases kv) auto
    have k: "key_ok key" "ht_map h key = None" "unat (elements_count h) < 2 ^ 26" "key \<notin> fst ` set qs" "distinct (map fst qs)"
      using 1(3-5) Cons kv by auto
    have sh: "ht_shape h" using 1(2) by (simp add: ht_inv_def)
    have e: "erase_step h key = Inr (h, False, None)" using erase_step_ok [OF sh k(1)] k(2) by auto
    from insert_step_ok [OF 1(2) k(1-3)] obtain h1 r where
      s: "insert_step h key v = Inr (h1, r)" "ht_shape h1" "buff_count_index h1 = buff_count_index h" "ht_map h1 = (ht_map h)(key \<mapsto> v)"
      "unat (elements_count h1) = Suc (unat (elements_count h))"
      "r = None \<and> ht_inv h1 \<or> r = Some (buff_count_index h + 1) \<and> unat (buff_count_index h + 1) = Suc (unat (buff_count_index h)) \<and>
         unat (buff_count_index h) < 26" by blast
    have "\<exists>h2. (case r of None \<Rightarrow> Some (Inr h1) | Some i \<Rightarrow> lbind (Some (rehash h1 i)) (\<lambda>(olds, h). insert_all olds h)) = Some (Inr h2) \<and>
      ht_inv h2 \<and> ht_map h2 = ht_map h1 \<and> unat (elements_count h2) = unat (elements_count h1) \<and>
      unat (buff_count_index h) \<le> unat (buff_count_index h2)"
      using s(6)
    proof
      assume "r = None \<and> ht_inv h1"
      then show ?thesis using s(3) by simp
    next
      assume g: "r = Some (buff_count_index h + 1) \<and> unat (buff_count_index h + 1) = Suc (unat (buff_count_index h)) \<and> unat (buff_count_index h) < 26"
      then have i: "1 \<le> unat (buff_count_index h + 1)" "unat (buff_count_index h + 1) \<le> 26" by simp_all
      obtain h0 where h0: "rehash h1 (buff_count_index h + 1) = Inr (concat (buckets h1), h0)" "ht_inv h0"
        "buff_count_index h0 = buff_count_index h + 1" "ht_map h0 = Map.empty" "unat (elements_count h0) = 0"
        using rehash_ok [OF s(2) i] by blast
      have len: "length (concat (buckets h1)) = unat (elements_count h1)" using ht_shapeD(7) [OF s(2) refl] by simp
      have "\<exists>h'. insert_all (concat (buckets h1)) h0 = Some (Inr h') \<and> ht_inv h' \<and> ht_map h' = ht_map h0 ++ map_of (concat (buckets h1)) \<and>
        unat (elements_count h') = unat (elements_count h0) + length (concat (buckets h1)) \<and> unat (buff_count_index h0) \<le> unat (buff_count_index h')"
      proof (rule IH)
        show "((26 - unat (buff_count_index h0), length (concat (buckets h1))), (26 - unat (buff_count_index h), length ps))
            \<in> less_than <*lex*> less_than" using g h0(3) by (auto intro: diff_less_mono2)
        show "\<forall>k \<in> set (map fst (concat (buckets h1))). key_ok k \<and> ht_map h0 k = None" using buckets_keys(2) [OF s(2)] h0(4) by simp
        show "unat (elements_count h0) + length (concat (buckets h1)) \<le> 2 ^ 26" using len h0(5) s(5) 1(5) Cons by simp
      qed (rule h0(2), rule buckets_keys(1) [OF s(2)])
      then show ?thesis using g h0 len by (auto simp: ht_map_def [of h1])
    qed
    then obtain h2 where h2: "(case r of None \<Rightarrow> Some (Inr h1) | Some i \<Rightarrow> lbind (Some (rehash h1 i)) (\<lambda>(olds, h). insert_all olds h)) = Some (Inr h2)"
      "ht_inv h2" "ht_map h2 = ht_map h1" "unat (elements_count h2) = unat (elements_count h1)"
      "unat (buff_count_index h) \<le> unat (buff_count_index h2)" by blast
    have "\<exists>h'. insert_all qs h2 = Some (Inr h') \<and> ht_inv h' \<and> ht_map h' = ht_map h2 ++ map_of qs \<and>
        unat (elements_count h') = unat (elements_count h2) + length qs \<and> unat (buff_count_index h2) \<le> unat (buff_count_index h')"
    proof (rule IH)
      show "((26 - unat (buff_count_index h2), length qs), (26 - unat (buff_count_index h), length ps)) \<in> less_than <*lex*> less_than"
        using h2(5) Cons by auto
      show "\<forall>k \<in> set (map fst qs). key_ok k \<and> ht_map h2 k = None" using 1(4) Cons kv k(4) h2(3) s(4) by auto
      show "unat (elements_count h2) + length qs \<le> 2 ^ 26" using h2(4) s(5) 1(5) Cons by simp
    qed (rule h2(2), rule k(5))
    then obtain h3 where h3: "insert_all qs h2 = Some (Inr h3)" "ht_inv h3" "ht_map h3 = ht_map h2 ++ map_of qs"
      "unat (elements_count h3) = unat (elements_count h2) + length qs" "unat (buff_count_index h2) \<le> unat (buff_count_index h3)" by blast
    have "insert_all ps h = Some (Inr h3)"
      by (subst insert_all.simps) (simp add: Cons kv e s(1) h2(1) h3(1))
    moreover have "ht_map h3 = ht_map h ++ map_of ps"
      using k(4) by (simp add: h3(3) h2(3) s(4) Cons kv map_add_upd_left map_add_upd dom_map_of_conv_image_fst)
    ultimately show ?thesis using h3 h2(4,5) s(5) Cons by auto
  qed
qed

section \<open>The operations\<close>

lemma hash_table_rebuild_ok:
  assumes "ht_shape h" "1 \<le> unat i" "unat i \<le> 26" "unat (elements_count h) \<le> 2 ^ 26"
  shows "\<exists>h'. hash_table_rebuild h i = Some (Inr h') \<and> ht_inv h' \<and> ht_map h' = ht_map h \<and> elements_count h' = elements_count h"
proof -
  obtain h0 where h0: "rehash h i = Inr (concat (buckets h), h0)" "ht_inv h0" "ht_map h0 = Map.empty" "unat (elements_count h0) = 0"
    using rehash_ok [OF assms(1-3)] by blast
  have len: "length (concat (buckets h)) = unat (elements_count h)" using ht_shapeD(7) [OF assms(1) refl] by simp
  have "\<forall>k \<in> set (map fst (concat (buckets h))). key_ok k \<and> ht_map h0 k = None" using buckets_keys(2) [OF assms(1)] h0(3) by simp
  from insert_all_ok [OF h0(2) buckets_keys(1) [OF assms(1)] this] obtain h' where
    "insert_all (concat (buckets h)) h0 = Some (Inr h')" "ht_inv h'" "ht_map h' = map_of (concat (buckets h))"
    "unat (elements_count h') = unat (elements_count h)"
    using len assms(4) h0(3,4) by auto
  then show ?thesis using h0(1) by (simp add: hash_table_rebuild_def ht_map_def word_unat_eq_iff)
qed

lemma ht_inv_shape: "ht_inv h \<Longrightarrow> ht_shape h"
  by (simp add: ht_inv_def)

text \<open>An erasure leaves room: after it the table is rebuilt when it is too large.\<close>

lemma erase_ok:
  assumes "ht_inv h" "key_ok key" "card (dom (ht_map h)) \<le> 2 ^ 26"
  shows "\<exists>h1 h' r. erase_step h key = Inr (h1, ht_map h key \<noteq> None, r) \<and>
    (case r of None \<Rightarrow> Some (Inr h1) | Some i \<Rightarrow> hash_table_rebuild h1 i) = Some (Inr h') \<and>
    ht_inv h' \<and> ht_map h' = (ht_map h)(key := None)"
proof -
  from erase_step_ok [OF ht_inv_shape [OF assms(1)] assms(2)] obtain h1 r where
    1: "erase_step h key = Inr (h1, ht_map h key \<noteq> None, r)" "ht_shape h1" "buff_count_index h1 = buff_count_index h"
    "ht_map h1 = (ht_map h)(key := None)" "unat (elements_count h1) \<le> unat (elements_count h)"
    "\<forall>i. r = Some i \<longrightarrow> 1 \<le> unat i \<and> unat i \<le> 26" by auto
  show ?thesis
  proof (cases r)
    case None
    have "ht_inv h1" using 1(2,3,5) assms(1) by (simp add: ht_inv_def)
    then show ?thesis using 1 None by auto
  next
    case (Some i)
    then have i: "1 \<le> unat i" "unat i \<le> 26" using 1(6) by auto
    have "unat (elements_count h1) \<le> 2 ^ 26" using ht_map_dom [OF ht_inv_shape [OF assms(1)]] assms(3) 1(5) by simp
    from hash_table_rebuild_ok [OF 1(2) i this] show ?thesis using 1(1,4) Some by auto
  qed
qed

lemma hash_table_erase_ok:
  assumes "ht_inv h" "key_ok key" "card (dom (ht_map h)) \<le> 2 ^ 26"
  shows "\<exists>h'. hash_table_erase h key = Some (Inr (ht_map h key \<noteq> None, h')) \<and> ht_inv h' \<and> ht_map h' = (ht_map h)(key := None)"
  using erase_ok [OF assms] by (auto simp: hash_table_erase_def)

lemma hash_table_insert_ok:
  assumes "ht_inv h" "key_ok key" "card (dom (ht_map h)) < 2 ^ 26"
  shows "\<exists>h'. hash_table_insert h key v = Some (Inr h') \<and> ht_inv h' \<and> ht_map h' = (ht_map h)(key \<mapsto> v)"
proof -
  obtain h1 h2 r where 1: "erase_step h key = Inr (h1, ht_map h key \<noteq> None, r)"
    "(case r of None \<Rightarrow> Some (Inr h1) | Some i \<Rightarrow> hash_table_rebuild h1 i) = Some (Inr h2)"
    "ht_inv h2" "ht_map h2 = (ht_map h)(key := None)"
    using erase_ok [OF assms(1,2)] assms(3) by auto
  have "finite (dom (ht_map h))" by (simp add: ht_map_def finite_dom_map_of)
  then have "card (dom (ht_map h2)) \<le> card (dom (ht_map h))" unfolding 1(4) by (intro card_mono) auto
  then have c: "unat (elements_count h2) + length [(key, v)] \<le> 2 ^ 26"
    using ht_map_dom [OF ht_inv_shape [OF 1(3)]] assms(3) by simp
  have n: "ht_map h2 key = None" using 1(4) by simp
  have e2: "erase_step h2 key = Inr (h2, False, None)"
    using erase_step_ok [OF ht_inv_shape [OF 1(3)] assms(2)] n by auto
  from insert_all_ok [OF 1(3), of "[(key, v)]"] n assms(2) c obtain h' where
    h': "insert_all [(key, v)] h2 = Some (Inr h')" "ht_inv h'" "ht_map h' = (ht_map h2)(key \<mapsto> v)" by auto
  have "insert_all [(key, v)] h = insert_all [(key, v)] h2"
    using 1(1) 1(2) [unfolded hash_table_rebuild_def] e2 by (subst (1 2) insert_all.simps) simp
  then show ?thesis using h' 1(4) by (simp add: hash_table_insert_def)
qed

lemma hash_table_create_ok:
  "\<exists>h :: 'v hash_table_t. hash_table_create = Inr h \<and> ht_inv h \<and> ht_map h = Map.empty"
proof -
  let ?h = "\<lparr> elements_count = 0, buff_count_index = 1, key_buff_root = replicate (prime 1) [], val_buff_root = replicate (prime 1) [] \<rparr> :: 'v hash_table_t"
  have "hash_table_create = Inr ?h" by (simp add: hash_table_create_def init_buff_ok)
  moreover have "prime 1 = 2" by (simp add: primes_def)
  moreover have "concat (buckets ?h) = []" by (simp add: buckets_def zip_replicate)
  ultimately show ?thesis by (intro exI [of _ ?h]) (auto simp: ht_inv_def ht_shape_def Let_def ht_map_def)
qed

section \<open>The interface of a finite map\<close>

locale key_map =
  fixes lookup :: "'m \<Rightarrow> bytes \<Rightarrow> 'v option res"
    and put :: "'m \<Rightarrow> bytes \<Rightarrow> 'v \<Rightarrow> 'm lres"
    and del :: "'m \<Rightarrow> bytes \<Rightarrow> (bool \<times> 'm) lres"
    and inv :: "'m \<Rightarrow> bool"
    and abs :: "'m \<Rightarrow> bytes \<Rightarrow> 'v option"
    and room :: nat
  assumes fin: "inv m \<Longrightarrow> finite (dom (abs m))"
    and lookup: "inv m \<Longrightarrow> key_ok k \<Longrightarrow> lookup m k = Inr (abs m k)"
    and put: "inv m \<Longrightarrow> key_ok k \<Longrightarrow> card (dom (abs m)) < room \<Longrightarrow>
      \<exists>m'. put m k v = Some (Inr m') \<and> inv m' \<and> abs m' = (abs m)(k \<mapsto> v)"
    and del: "inv m \<Longrightarrow> key_ok k \<Longrightarrow> card (dom (abs m)) \<le> room \<Longrightarrow>
      \<exists>m'. del m k = Some (Inr (abs m k \<noteq> None, m')) \<and> inv m' \<and> abs m' = (abs m)(k := None)"

datatype 'v table_op = Put bytes 'v | Del bytes

fun op_key :: "'v table_op \<Rightarrow> bytes" where
  "op_key (Put k v) = k"
| "op_key (Del k) = k"

fun map_ops :: "'v table_op list \<Rightarrow> (bytes \<Rightarrow> 'v option) \<Rightarrow> bytes \<Rightarrow> 'v option" where
  "map_ops [] f = f"
| "map_ops (Put k v # ops) f = map_ops ops (f(k \<mapsto> v))"
| "map_ops (Del k # ops) f = map_ops ops (f(k := None))"

fun run_ops :: "('m \<Rightarrow> bytes \<Rightarrow> 'v \<Rightarrow> 'm lres) \<Rightarrow> ('m \<Rightarrow> bytes \<Rightarrow> (bool \<times> 'm) lres) \<Rightarrow> 'v table_op list \<Rightarrow> 'm \<Rightarrow> 'm lres" where
  "run_ops put del [] m = Some (Inr m)"
| "run_ops put del (Put k v # ops) m = lbind (put m k v) (run_ops put del ops)"
| "run_ops put del (Del k # ops) m = lbind (del m k) (\<lambda>(_, m). run_ops put del ops m)"

context key_map
begin

lemma card_put: "inv m \<Longrightarrow> card (dom ((abs m)(k \<mapsto> v))) \<le> Suc (card (dom (abs m)))"
  using fin [of m] by (simp add: card_insert_if)

lemma card_del: "inv m \<Longrightarrow> card (dom ((abs m)(k := None))) \<le> card (dom (abs m))"
  using fin [of m] by (simp add: card_Diff1_le)

lemma runs:
  assumes "inv m" "\<forall>x \<in> set ops. key_ok (op_key x)" "card (dom (abs m)) + length ops \<le> room"
  shows "\<exists>m'. run_ops put del ops m = Some (Inr m') \<and> inv m' \<and> abs m' = map_ops ops (abs m)"
  using assms
proof (induction ops arbitrary: m)
  case (Cons x ops)
  show ?case
  proof (cases x)
    case (Put k v)
    obtain m1 where m1: "put m k v = Some (Inr m1)" "inv m1" "abs m1 = (abs m)(k \<mapsto> v)"
      using put [of m k v] Cons.prems Put by auto
    have "card (dom (abs m1)) + length ops \<le> room" using card_put [OF Cons.prems(1), of k v] Cons.prems(3) unfolding m1(3) by simp
    from Cons.IH [OF m1(2) _ this] Cons.prems(2) show ?thesis using Put m1(1) by (simp add: m1(3) [symmetric])
  next
    case (Del k)
    obtain m1 where m1: "del m k = Some (Inr (abs m k \<noteq> None, m1))" "inv m1" "abs m1 = (abs m)(k := None)"
      using del [of m k] Cons.prems Del by auto
    have "card (dom (abs m1)) + length ops \<le> room" using card_del [OF Cons.prems(1), of k] Cons.prems(3) unfolding m1(3) by simp
    from Cons.IH [OF m1(2) _ this] Cons.prems(2) show ?thesis using Del m1(1) by (simp add: m1(3) [symmetric])
  qed
qed simp

end

interpretation ht: key_map hash_table_get hash_table_insert hash_table_erase ht_inv ht_map "2 ^ 26"
proof unfold_locales
  show "finite (dom (ht_map m))" for m :: "'v hash_table_t" by (simp add: ht_map_def finite_dom_map_of)
qed (rule hash_table_get_ok [OF ht_inv_shape] hash_table_insert_ok hash_table_erase_ok, assumption+)+

text \<open>A table made by \<^verbatim>\<open>hash_table_create\<close> and any sequence of insertions and erasures.\<close>

definition run_table :: "'v table_op list \<Rightarrow> 'v hash_table_t lres" where
  "run_table ops = lbind (Some hash_table_create) (run_ops hash_table_insert hash_table_erase ops)"

lemma run_table_ok:
  fixes ops :: "'v table_op list"
  assumes "length ops \<le> 2 ^ 26" "\<forall>x \<in> set ops. key_ok (op_key x)"
  shows "\<exists>h. run_table ops = Some (Inr h) \<and> ht_inv h \<and> ht_map h = map_ops ops Map.empty"
proof -
  obtain h0 :: "'v hash_table_t" where h0: "hash_table_create = Inr h0" "ht_inv h0" "ht_map h0 = Map.empty" using hash_table_create_ok by blast
  have "card (dom (ht_map h0)) + length ops \<le> 2 ^ 26" using assms(1) h0(3) by simp
  from ht.runs [OF h0(2) assms(2) this] show ?thesis unfolding run_table_def h0(1,3) lbind_simps .
qed

section \<open>Properties\<close>

text \<open>C31: The hash table is a finite map: after any sequence of insertions and erasures on a new table, with all
  growing, shrinking and rehashing on the way, which comes to an end, every lookup gives what the map has.\<close>

lemma hash_table_refines_map:
  assumes "length ops \<le> 2 ^ 26" "\<forall>x \<in> set ops. key_ok (op_key x)"
  shows "\<exists>h. run_table ops = Some (Inr h) \<and> (\<forall>k. key_ok k \<longrightarrow> hash_table_get h k = Inr (map_ops ops Map.empty k)) \<and>
    unat (elements_count h) = card (dom (map_ops ops Map.empty))"
proof -
  obtain h where h: "run_table ops = Some (Inr h)" "ht_inv h" "ht_map h = map_ops ops Map.empty" using run_table_ok [OF assms] by blast
  then show ?thesis using ht.lookup [OF h(2)] ht_map_dom [OF ht_inv_shape [OF h(2)]] by auto
qed

lemma hash_table_refines_map_witness:
  "\<exists>h. run_table [Put [1] (7 :: nat), Put [2, 3] 8, Put [1] 9, Del [2, 3]] = Some (Inr h) \<and>
    hash_table_get h [1] = Inr (Some 9) \<and> hash_table_get h [2, 3] = Inr None \<and> unat (elements_count h) = 1"
proof -
  have m: "map_ops [Put [1] (7 :: nat), Put [2, 3] 8, Put [1] 9, Del [2, 3]] Map.empty = [[1] \<mapsto> 9]" by (auto simp: fun_eq_iff)
  show ?thesis using hash_table_refines_map [of "[Put [1] (7 :: nat), Put [2, 3] 8, Put [1] 9, Del [2, 3]]"]
    by (auto simp: m key_ok_def)
qed

end
