(* ===== verification/Refcount.thy ===== *)
theory Refcount
  imports Kernel_Prelude
begin

text \<open>
  \<^verbatim>\<open>lib/refcount.h\<close>: reference counts with a lock value.  First the functions as they run without
  interruption; then their atomic steps, interleaved in any order, with the number of references held.
\<close>

section \<open>The functions\<close>

definition RC_LOCK :: u32 where "RC_LOCK = 0xFFFFFFFF"

text \<open>\<open>rc_freed\<close> counts the calls of the destructor.\<close>

record rc_header_t =
  rc_refcount :: u32
  rc_destroyed :: bool
  rc_freed :: nat

definition rc_incref :: "rc_header_t \<Rightarrow> bool \<times> rc_header_t" where
  "rc_incref h = (if rc_refcount h = RC_LOCK then (False, h) else (True, h\<lparr> rc_refcount := rc_refcount h + 1 \<rparr>))"

definition rc_decref :: "rc_header_t \<Rightarrow> bool \<times> rc_header_t" where
  "rc_decref h =
     (let old = rc_refcount h; h = h\<lparr> rc_refcount := rc_refcount h - 1 \<rparr> in
      if old = 1 then (False, h\<lparr> rc_freed := Suc (rc_freed h) \<rparr>) else (True, h))"

definition rc_destroy :: "rc_header_t \<Rightarrow> rc_header_t" where
  "rc_destroy h = h\<lparr> rc_destroyed := True \<rparr>"

definition rc_take :: "rc_header_t \<Rightarrow> bool \<times> rc_header_t" where
  "rc_take h =
     (let (ok, h) = rc_incref h in
      if \<not> ok then (False, h)
      else if rc_destroyed h then (False, snd (rc_decref h))
      else (True, h))"

definition rc_init :: rc_header_t where
  "rc_init = \<lparr> rc_refcount = 0, rc_destroyed = False, rc_freed = 0 \<rparr>"

definition rc_count :: "rc_header_t \<Rightarrow> u32" where
  "rc_count h = rc_refcount h"

definition rc_destroy_if_less :: "u32 \<Rightarrow> rc_header_t \<Rightarrow> bool \<times> rc_header_t" where
  "rc_destroy_if_less v h = (if v \<le> rc_refcount h then (False, h) else (True, rc_destroy h))"

section \<open>The steps\<close>

text \<open>
  Where a thread stands: in a call of \<^verbatim>\<open>rc_take\<close> before a load, before its compare-and-swap, after it,
  before the decrement that undoes it; holding a reference; in a call of \<^verbatim>\<open>rc_destroy_if_less\<close> before a
  load, before its compare-and-swap, and, with the count locked, before each of the two stores.
\<close>

datatype rc_pc =
    Idle
  | Take_Load | Take_Cas u32 | Take_Check | Take_Undo
  | Holding
  | Destroy_Load u32 | Destroy_Cas u32 u32 | Destroy_Mark u32 | Destroy_Restore u32

fun is_ref :: "rc_pc \<Rightarrow> bool" where
  "is_ref Take_Check = True"
| "is_ref Take_Undo = True"
| "is_ref Holding = True"
| "is_ref _ = False"

fun is_lock :: "rc_pc \<Rightarrow> bool" where
  "is_lock (Destroy_Mark old) = True"
| "is_lock (Destroy_Restore old) = True"
| "is_lock _ = False"

text \<open>\<open>calm\<close>: whether a reference may be given back now.\<close>

inductive rc_thread :: "bool \<Rightarrow> rc_header_t \<Rightarrow> rc_pc \<Rightarrow> rc_header_t \<Rightarrow> rc_pc \<Rightarrow> bool" for calm where
  take_call: "rc_thread calm h Idle h Take_Load"
| take_locked: "rc_refcount h = RC_LOCK \<Longrightarrow> rc_thread calm h Take_Load h Idle"
| take_load: "rc_refcount h \<noteq> RC_LOCK \<Longrightarrow> rc_thread calm h Take_Load h (Take_Cas (rc_refcount h))"
| take_cas: "rc_refcount h = old \<Longrightarrow> rc_thread calm h (Take_Cas old) (h\<lparr> rc_refcount := old + 1 \<rparr>) Take_Check"
| take_retry: "rc_refcount h \<noteq> old \<Longrightarrow> rc_thread calm h (Take_Cas old) h Take_Load"
| take_dead: "rc_destroyed h \<Longrightarrow> rc_thread calm h Take_Check h Take_Undo"
| take_done: "\<not> rc_destroyed h \<Longrightarrow> rc_thread calm h Take_Check h Holding"
| take_undo: "calm \<Longrightarrow> rc_thread calm h Take_Undo (snd (rc_decref h)) Idle"
| release: "calm \<Longrightarrow> rc_thread calm h Holding (snd (rc_decref h)) Idle"
| destroy_call: "rc_thread calm h Idle h (Destroy_Load v)"
| destroy_refused: "v \<le> rc_refcount h \<Longrightarrow> rc_thread calm h (Destroy_Load v) h Idle"
| destroy_load: "rc_refcount h < v \<Longrightarrow> rc_thread calm h (Destroy_Load v) h (Destroy_Cas v (rc_refcount h))"
| destroy_cas: "rc_refcount h = old \<Longrightarrow> rc_thread calm h (Destroy_Cas v old) (h\<lparr> rc_refcount := RC_LOCK \<rparr>) (Destroy_Mark old)"
| destroy_retry: "rc_refcount h \<noteq> old \<Longrightarrow> rc_thread calm h (Destroy_Cas v old) h (Destroy_Load v)"
| destroy_mark: "rc_thread calm h (Destroy_Mark old) (rc_destroy h) (Destroy_Restore old)"
| destroy_restore: "rc_thread calm h (Destroy_Restore old) (h\<lparr> rc_refcount := old \<rparr>) Idle"

inductive_cases rc_threadE: "rc_thread calm h pc h' pc'"

text \<open>With \<open>strict\<close>, references are only given back while no thread has the count locked.\<close>

inductive rc_reach :: "bool \<Rightarrow> nat \<Rightarrow> rc_header_t \<Rightarrow> rc_pc list \<Rightarrow> bool" for strict n where
  start: "rc_reach strict n rc_init (replicate n Idle)"
| step: "rc_reach strict n h pcs \<Longrightarrow> i < length pcs \<Longrightarrow>
    rc_thread (strict \<longrightarrow> \<not> list_ex is_lock pcs) h (pcs ! i) h' pc' \<Longrightarrow> rc_reach strict n h' (pcs[i := pc'])"

definition refs :: "rc_pc list \<Rightarrow> nat" where
  "refs pcs = length (filter is_ref pcs)"

definition locks :: "rc_pc list \<Rightarrow> nat" where
  "locks pcs = length (filter is_lock pcs)"

fun ok_pc :: "nat \<Rightarrow> rc_pc \<Rightarrow> bool" where
  "ok_pc n (Take_Cas old) = (old \<noteq> RC_LOCK)"
| "ok_pc n (Destroy_Cas v old) = (old \<noteq> RC_LOCK)"
| "ok_pc n (Destroy_Mark old) = (unat old = n)"
| "ok_pc n (Destroy_Restore old) = (unat old = n)"
| "ok_pc n _ = True"

definition rc_inv :: "rc_header_t \<Rightarrow> rc_pc list \<Rightarrow> bool" where
  "rc_inv h pcs \<longleftrightarrow> (\<forall>pc \<in> set pcs. ok_pc (refs pcs) pc) \<and> locks pcs \<le> 1 \<and>
     (if locks pcs = 0 then unat (rc_refcount h) = refs pcs else rc_refcount h = RC_LOCK)"

lemma length_filter_update:
  "i < length xs \<Longrightarrow> length (filter P (xs[i := y])) + (if P (xs ! i) then 1 else 0) = length (filter P xs) + (if P y then 1 else 0)"
proof (induction xs arbitrary: i)
  case (Cons a xs)
  show ?case
  proof (cases i)
    case (Suc j)
    then show ?thesis using Cons.IH [of j] Cons.prems by simp
  qed simp
qed simp

lemma count_update:
  assumes "i < length pcs"
  shows "refs (pcs[i := pc]) + (if is_ref (pcs ! i) then 1 else 0) = refs pcs + (if is_ref pc then 1 else 0)"
    "locks (pcs[i := pc]) + (if is_lock (pcs ! i) then 1 else 0) = locks pcs + (if is_lock pc then 1 else 0)"
  unfolding refs_def locks_def by (rule length_filter_update [OF assms])+

lemma refs_le: "refs pcs \<le> length pcs"
  by (simp add: refs_def)

lemma no_lock: "locks pcs = 0 \<longleftrightarrow> \<not> list_ex is_lock pcs"
  by (auto simp: locks_def list_ex_iff filter_empty_conv)

lemma ok_pc_free: "ok_pc n pc \<Longrightarrow> \<not> is_lock pc \<Longrightarrow> ok_pc m pc"
  by (cases pc) auto

text \<open>A step that changes no reference and no lock, and one with no lock before and after it.\<close>

lemma rc_inv_same:
  assumes "rc_inv h pcs" "i < length pcs" "is_ref pc' = is_ref (pcs ! i)" "is_lock pc' = is_lock (pcs ! i)"
    "rc_refcount h' = rc_refcount h" "ok_pc (refs pcs) pc'"
  shows "rc_inv h' (pcs[i := pc'])"
proof -
  have c: "refs (pcs[i := pc']) = refs pcs" "locks (pcs[i := pc']) = locks pcs"
    using count_update [OF assms(2), of pc'] assms(3,4) by auto
  show ?thesis using assms(1,5,6) set_update_subset_insert [of pcs i pc'] unfolding rc_inv_def c by auto
qed

lemma rc_inv_free:
  assumes "rc_inv h pcs" "i < length pcs" "locks pcs = 0" "\<not> is_lock pc'" "ok_pc 0 pc'"
    "unat (rc_refcount h') + (if is_ref (pcs ! i) then 1 else 0) = refs pcs + (if is_ref pc' then 1 else 0)"
  shows "rc_inv h' (pcs[i := pc'])"
proof -
  have nl: "\<forall>pc \<in> set pcs. \<not> is_lock pc" using assms(3) by (simp add: locks_def filter_empty_conv)
  have c: "locks (pcs[i := pc']) = 0" "unat (rc_refcount h') = refs (pcs[i := pc'])"
    using count_update [OF assms(2), of pc'] assms(3,4,6) by auto
  have "\<forall>pc \<in> set (pcs[i := pc']). ok_pc (refs (pcs[i := pc'])) pc"
  proof
    fix pc assume "pc \<in> set (pcs[i := pc'])"
    then have "pc = pc' \<or> pc \<in> set pcs" using set_update_subset_insert [of pcs i pc'] by auto
    then show "ok_pc (refs (pcs[i := pc'])) pc"
      using assms(1,4) nl ok_pc_free [OF assms(5)] ok_pc_free [of "refs pcs" pc] by (auto simp: rc_inv_def)
  qed
  then show ?thesis using c by (simp add: rc_inv_def)
qed

lemma rc_decref_count: "rc_refcount (snd (rc_decref h)) = rc_refcount h - 1"
  by (simp add: rc_decref_def Let_def)

lemma RC_LOCK_max: "\<not> RC_LOCK < v"
proof -
  have "unat v < 2 ^ 32" by (rule unat_less_2p32)
  then show ?thesis by (simp add: RC_LOCK_def word_less_nat_alt)
qed

lemma rc_thread_inv:
  assumes "rc_thread (\<not> list_ex is_lock pcs) h (pcs ! i) h' pc'" "rc_inv h pcs" "i < length pcs" "length pcs < 2 ^ 32 - 1"
  shows "rc_inv h' (pcs[i := pc'])"
proof -
  have ok: "ok_pc (refs pcs) (pcs ! i)" using assms(2,3) by (auto simp: rc_inv_def)
  have free: "locks pcs = 0 \<and> unat (rc_refcount h) = refs pcs" if "rc_refcount h \<noteq> RC_LOCK"
    using that assms(2) by (auto simp: rc_inv_def split: if_splits)
  have drop: "rc_inv (snd (rc_decref h)) (pcs[i := Idle])" if "\<not> list_ex is_lock pcs" "is_ref (pcs ! i)"
  proof -
    have l: "locks pcs = 0" using that(1) no_lock by blast
    then have n: "unat (rc_refcount h) = refs pcs" using assms(2) by (simp add: rc_inv_def)
    have "0 < refs pcs" using that(2) assms(3) by (auto simp: refs_def filter_empty_conv)
    moreover from this have "rc_refcount h \<noteq> 0" using n by auto
    ultimately have "unat (rc_refcount h - 1) = refs pcs - 1" using n by (simp add: unat_minus_one)
    then show ?thesis using l that(2) n \<open>rc_refcount h \<noteq> 0\<close> \<open>0 < refs pcs\<close> by (intro rc_inv_free [OF assms(2,3)]) (simp_all add: rc_decref_count)
  qed
  from assms(1) show ?thesis
  proof cases
    case (take_cas old)
    then have f: "locks pcs = 0" "unat old = refs pcs" using free ok by auto
    have "unat (old + 1) = Suc (unat old)" using f(2) refs_le [of pcs] assms(4) by (simp add: unat_word_ariths)
    then show ?thesis unfolding take_cas(2,3) using f take_cas(1) by (intro rc_inv_free [OF assms(2,3)]) auto
  next
    case (destroy_cas old v)
    then have f: "locks pcs = 0" "unat old = refs pcs" using free ok by auto
    then have nl: "\<forall>pc \<in> set pcs. \<not> is_lock pc" by (simp add: locks_def filter_empty_conv)
    have c: "refs (pcs[i := Destroy_Mark old]) = refs pcs" "locks (pcs[i := Destroy_Mark old]) = 1"
      using count_update [OF assms(3), of "Destroy_Mark old"] destroy_cas(1) f(1) by auto
    show ?thesis unfolding destroy_cas(2,3) rc_inv_def c
      using assms(2) set_update_subset_insert [of pcs i "Destroy_Mark old"] f(2) by (auto simp: rc_inv_def)
  next
    case (destroy_restore old)
    then have "is_lock (pcs ! i)" by simp
    then have "0 < locks pcs" using assms(3) by (auto simp: locks_def filter_empty_conv)
    then have l: "locks pcs = 1" using assms(2) by (simp add: rc_inv_def)
    have c: "refs (pcs[i := Idle]) = refs pcs" "locks (pcs[i := Idle]) = 0"
      using count_update [OF assms(3), of Idle] destroy_restore(1) l by auto
    have "unat old = refs pcs" using ok destroy_restore(1) by simp
    then show ?thesis unfolding destroy_restore(2,3) rc_inv_def c
      using assms(2) set_update_subset_insert [of pcs i Idle] by (auto simp: rc_inv_def)
  next
    case destroy_mark
    then show ?thesis using ok by (intro rc_inv_same [OF assms(2,3)]) (auto simp: rc_destroy_def)
  qed (use drop RC_LOCK_max in \<open>auto intro!: rc_inv_same [OF assms(2,3)]\<close>)
qed

lemma rc_reach_inv: "rc_reach True n h pcs \<Longrightarrow> n < 2 ^ 32 - 1 \<Longrightarrow> rc_inv h pcs \<and> length pcs = n"
proof (induction rule: rc_reach.induct)
  case start
  then show ?case by (auto simp: rc_inv_def rc_init_def refs_def locks_def filter_empty_conv)
next
  case (step h pcs i h' pc')
  then show ?case using rc_thread_inv [of pcs h i h' pc'] by simp
qed

section \<open>A release that is lost\<close>

text \<open>A reference given back while the count is locked: the lock restores the count from before.\<close>

lemma rc_reach_Cons:
  "rc_reach strict n h pcs \<Longrightarrow> i < length pcs \<Longrightarrow> rc_thread (strict \<longrightarrow> \<not> list_ex is_lock pcs) h (pcs ! i) h' pc' \<Longrightarrow>
   q = pcs[i := pc'] \<Longrightarrow> rc_reach strict n h' q"
  by (simp add: rc_reach.step)

lemma release_lost:
  "\<exists>h. rc_reach False 2 h [Idle, Idle] \<and> rc_refcount h = 1 \<and> rc_freed h = 0 \<and> rc_destroyed h"
proof -
  let ?h = "\<lambda>c d. \<lparr> rc_refcount = c, rc_destroyed = d, rc_freed = 0 \<rparr>"
  note go = rc_reach_Cons [where strict = False and n = 2]
  have s0: "rc_reach False 2 (?h 0 False) [Idle, Idle]"
    using rc_reach.start [of False 2] by (simp add: rc_init_def numeral_2_eq_2)
  have s1: "rc_reach False 2 (?h 0 False) [Take_Load, Idle]" by (rule go [OF s0, of 0]) (auto intro: rc_thread.intros)
  have s2: "rc_reach False 2 (?h 0 False) [Take_Cas 0, Idle]"
    by (rule go [OF s1, of 0]) (use rc_thread.take_load [of "?h 0 False"] in \<open>auto simp: RC_LOCK_def\<close>)
  have s3: "rc_reach False 2 (?h 1 False) [Take_Check, Idle]"
    by (rule go [OF s2, of 0]) (use rc_thread.take_cas [of "?h 0 False" 0] in auto)
  have s4: "rc_reach False 2 (?h 1 False) [Holding, Idle]" by (rule go [OF s3, of 0]) (auto intro: rc_thread.intros)
  have s5: "rc_reach False 2 (?h 1 False) [Holding, Destroy_Load 3]" by (rule go [OF s4, of 1]) (auto intro: rc_thread.intros)
  have s6: "rc_reach False 2 (?h 1 False) [Holding, Destroy_Cas 3 1]"
    by (rule go [OF s5, of 1]) (use rc_thread.destroy_load [of "?h 1 False" 3] in auto)
  have s7: "rc_reach False 2 (?h RC_LOCK False) [Holding, Destroy_Mark 1]"
    by (rule go [OF s6, of 1]) (use rc_thread.destroy_cas [of "?h 1 False" 1] in auto)
  have s8: "rc_reach False 2 (?h (RC_LOCK - 1) False) [Idle, Destroy_Mark 1]"
    by (rule go [OF s7, of 0]) (use rc_thread.release [of "True" "?h RC_LOCK False"] in \<open>auto simp: rc_decref_def RC_LOCK_def\<close>)
  have s9: "rc_reach False 2 (?h (RC_LOCK - 1) True) [Idle, Destroy_Restore 1]"
    by (rule go [OF s8, of 1]) (use rc_thread.destroy_mark [of "True" "?h (RC_LOCK - 1) False" 1] in \<open>auto simp: rc_destroy_def\<close>)
  have "rc_reach False 2 (?h 1 True) [Idle, Idle]"
    by (rule go [OF s9, of 1]) (use rc_thread.destroy_restore [of "True" "?h (RC_LOCK - 1) True" 1] in auto)
  then show ?thesis by (intro exI [of _ "?h 1 True"]) simp
qed

section \<open>Properties\<close>

text \<open>C32: In every interleaving of takes, releases and conditional destructions by any number of threads in which
  no reference is given back while the count is locked, the count is the number of references held whenever it
  is not locked.\<close>

lemma rc_count_exact:
  assumes "rc_reach True n h pcs" "n < 2 ^ 32 - 1" "\<not> list_ex is_lock pcs"
  shows "unat (rc_refcount h) = length (filter is_ref pcs)"
  using rc_reach_inv [OF assms(1,2)] assms(3) no_lock by (auto simp: rc_inv_def refs_def)

lemma rc_count_exact_witness:
  "rc_reach True 2 rc_init [Idle, Take_Load] \<and> unat (rc_refcount rc_init) = length (filter is_ref [Idle, Take_Load])"
proof -
  have r: "rc_reach True 2 rc_init [Idle, Take_Load]"
    using rc_reach.step [OF rc_reach.start [of True 2], of 1 rc_init Take_Load] by (auto simp: numeral_2_eq_2 intro: rc_thread.intros)
  have l: "(2 :: nat) < 2 ^ 32 - 1" "\<not> list_ex is_lock [Idle, Take_Load]" by simp_all
  show ?thesis using r rc_count_exact [OF r l] by blast
qed

text \<open>Without this restriction the count can stay above the number of references: in some interleaving both
  threads are done, no reference is held, and yet the count is one and the destructor was never called.\<close>

lemma rc_release_lost:
  "\<exists>h. rc_reach False 2 h [Idle, Idle] \<and> rc_refcount h = 1 \<and> rc_freed h = 0 \<and> rc_destroyed h"
  by (rule release_lost)

end
