(* ===== verification/Vfs.thy ===== *)
theory Vfs
  imports Hash_Table Refcount Fat_Create
begin

text \<open>
  \<^verbatim>\<open>fs/vfs.c\<close>: mount points, the search for files by a path of patterns, and streams.  The information on
  a mounted partition is shared by all its files: it lives in a memory of its own, is counted by its
  header, and a use after its destructor has freed it is a fault.  A file's name belongs to the file
  and is stored twice, in the file and in its FAT32 part.
\<close>

unbundle bit_operations_syntax

section \<open>Data\<close>

definition VFS_FS_FAT32 :: u8 where "VFS_FS_FAT32 = 0"
definition VFS_FLAG_READ :: u8 where "VFS_FLAG_READ = 1"
definition VFS_FLAG_WRITE :: u8 where "VFS_FLAG_WRITE = 2"
definition VFS_FLAG_OVERWRITE :: u8 where "VFS_FLAG_OVERWRITE = 4"
definition VFS_FLAG_APPEND :: u8 where "VFS_FLAG_APPEND = 8"
definition VFS_ATTRIBUTE_DIRECTORY :: u32 where "VFS_ATTRIBUTE_DIRECTORY = 0x10"
definition MBR_PARTITION_FAT32_LBA :: u8 where "MBR_PARTITION_FAT32_LBA = 0x0C"

record vfs_info_t =
  vi_rc :: rc_header_t
  vi_fat32 :: fat32_info_t
  vi_disk_id :: u8
  vi_partition_id :: u8
  vi_filesystem :: u8

record vfs_file_t =
  vf_fat32 :: fat32_basic_file_info_t
  vf_filename :: bytes
  vf_size :: u32
  vf_creation :: datetime_t
  vf_modify :: datetime_t
  vf_attributes :: u32
  vf_info :: nat

record vfs_stream_t =
  st_file :: vfs_file_t
  st_position :: u32
  st_flags :: u8

record vfs_state =
  vs_fat :: fat_state
  vs_infos :: "nat \<Rightarrow> vfs_info_t option"
  vs_next :: nat
  vs_mountpoints :: "vfs_file_t hash_table_t"
  vs_mountpoints_rev :: "bytes hash_table_t"

section \<open>File objects\<close>

definition info_at :: "vfs_state \<Rightarrow> nat \<Rightarrow> vfs_info_t res" where
  "info_at s p = (case vs_infos s p of None \<Rightarrow> Inl (Undefined ''use after free'') | Some i \<Rightarrow> Inr i)"

text \<open>An operation on the header, and the destructor when it calls it.\<close>

definition on_header :: "(rc_header_t \<Rightarrow> bool \<times> rc_header_t) \<Rightarrow> nat \<Rightarrow> vfs_state \<Rightarrow> (bool \<times> vfs_state) res" where
  "on_header f p s =
     rbind (info_at s p) (\<lambda>i.
     let (ok, rc) = f (vi_rc i) in
     Inr (ok, s\<lparr> vs_infos := (vs_infos s)(p := if rc_freed rc \<noteq> rc_freed (vi_rc i) then None else Some (i\<lparr> vi_rc := rc \<rparr>)) \<rparr>))"

definition vfs_convert_attributes_from_fat32 :: "u8 \<Rightarrow> u32" where
  "vfs_convert_attributes_from_fat32 fat_attributes = ucast fat_attributes"

definition vfs_fields :: "vfs_file_t \<Rightarrow> vfs_file_t" where
  "vfs_fields file = file\<lparr>
     vf_filename := ff_filename (vf_fat32 file), vf_size := ff_size (vf_fat32 file),
     vf_creation := datetime_datetime_from_fat (ff_creation (vf_fat32 file)),
     vf_modify := datetime_datetime_from_fat (ff_modify (vf_fat32 file)),
     vf_attributes := vfs_convert_attributes_from_fat32 (ff_attributes (vf_fat32 file)) \<rparr>"

definition vfs_fill_file_obj_from_fat32 :: "vfs_file_t \<Rightarrow> vfs_state \<Rightarrow> (bool \<times> vfs_file_t \<times> vfs_state) res" where
  "vfs_fill_file_obj_from_fat32 file s =
     rbind (on_header rc_take (vf_info file) s) (\<lambda>(ok, s). Inr (ok, vfs_fields file, s))"

definition vfs_update_file_obj :: "vfs_file_t \<Rightarrow> vfs_state \<Rightarrow> vfs_file_t res" where
  "vfs_update_file_obj file s =
     rbind (info_at s (vf_info file)) (\<lambda>i. Inr (if vi_filesystem i = VFS_FS_FAT32 then vfs_fields file else file))"

definition vfs_cleanup_file_obj :: "vfs_file_t \<Rightarrow> vfs_state \<Rightarrow> vfs_state res" where
  "vfs_cleanup_file_obj file s = rbind (on_header rc_decref (vf_info file) s) (\<lambda>(_, s). Inr s)"

definition vfs_copy_file_obj :: "vfs_file_t \<Rightarrow> vfs_file_t \<Rightarrow> vfs_state \<Rightarrow> (bool \<times> vfs_file_t \<times> vfs_state) res" where
  "vfs_copy_file_obj dst src s =
     rbind (info_at s (vf_info src)) (\<lambda>i.
     rbind (if vi_filesystem i = VFS_FS_FAT32
            then rbind (strdup (\<lambda>n. uninit (unat n) (vs_fat s)) (vf_filename src)) (\<lambda>name.
                 Inr (src\<lparr> vf_filename := name, vf_fat32 := (vf_fat32 src)\<lparr> ff_filename := name \<rparr> \<rparr>))
            else Inr dst) (\<lambda>dst.
     rbind (on_header rc_take (vf_info src) s) (\<lambda>(ok, s). Inr (ok, dst, s))))"

fun vfs_destroy_files_array :: "vfs_file_t list \<Rightarrow> vfs_state \<Rightarrow> vfs_state res" where
  "vfs_destroy_files_array [] s = Inr s"
| "vfs_destroy_files_array (f # fs) s = rbind (vfs_cleanup_file_obj f s) (vfs_destroy_files_array fs)"

section \<open>Mount points\<close>

definition partition_key :: "u8 \<Rightarrow> u8 \<Rightarrow> bytes" where
  "partition_key disk_id partition_id = put16 (push_bit 8 (ucast disk_id) OR ucast partition_id)"

text \<open>The key of a name: its bytes with the terminator.\<close>

definition name_key :: "bytes \<Rightarrow> bytes res" where
  "name_key name = rbind (strlen name) (\<lambda>len. buf_read name 0 (unat (len + 1)))"

text \<open>What \<^verbatim>\<open>malloc\<close> gives for a file before its fields are set.\<close>

definition raw_file :: "fat32_basic_file_info_t \<Rightarrow> nat \<Rightarrow> vfs_file_t" where
  "raw_file f p = \<lparr> vf_fat32 = f, vf_filename = [], vf_size = 0, vf_creation = datetime_datetime_from_fat (ff_creation f),
     vf_modify = datetime_datetime_from_fat (ff_modify f), vf_attributes = 0, vf_info = p \<rparr>"

text \<open>
  \<open>junk\<close> and \<open>raw_info\<close> are the contents of the allocated file and partition information; \<open>None\<close> is
  the null pointer.
\<close>

definition vfs_mount_partition ::
    "fat32_basic_file_info_t \<Rightarrow> fat32_info_t \<Rightarrow> u8 \<Rightarrow> u8 \<Rightarrow> bytes \<Rightarrow> vfs_state \<Rightarrow> (vfs_file_t option \<times> vfs_state) lres" where
  "vfs_mount_partition junk raw_info disk_id partition_id mountpoint s =
     (let key = partition_key disk_id partition_id in
      if partition_id > 4 then Some (Inr (None, s))
      else
        lbind (Some (name_key mountpoint)) (\<lambda>name.
        lbind (Some (hash_table_get (vs_mountpoints s) name)) (\<lambda>mp.
        if mp \<noteq> None then Some (Inr (None, s))
        else
          lbind (Some (hash_table_get (vs_mountpoints_rev s) key)) (\<lambda>rev.
          if rev \<noteq> None then Some (Inr (None, s))
          else
            lbind (Some (mbr_read_sync disk_id (uninit 512 (vs_fat s)) (fs_disk (vs_fat s)))) (\<lambda>(ok, mbr, d).
            let s = s\<lparr> vs_fat := (vs_fat s)\<lparr> fs_disk := d \<rparr> \<rparr> in
            if \<not> ok then Some (Inr (None, s))
            else
              lbind (Some (buf_read mbr (446 + 16 * unat partition_id) 16)) (\<lambda>e.
              if e ! 4 \<noteq> MBR_PARTITION_FAT32_LBA then Some (Inr (None, s))
              else
                let info = raw_info\<lparr> fi_disk := disk_id, fi_partition := get32 e 8 \<rparr> in
                lbind (Some (fat32_get_info_sync info (vs_fat s))) (\<lambda>(_, info, fs).
                lbind (Some (fat32_mount (\<lambda>n. uninit (unat n) fs) info mountpoint junk)) (\<lambda>f.
                let p = vs_next s;
                    s = s\<lparr> vs_fat := fs, vs_next := Suc p, vs_infos := (vs_infos s)(p \<mapsto>
                          \<lparr> vi_rc = rc_init, vi_fat32 = info, vi_disk_id = disk_id, vi_partition_id = partition_id,
                            vi_filesystem = VFS_FS_FAT32 \<rparr>) \<rparr> in
                lbind (Some (vfs_fill_file_obj_from_fat32 (raw_file f p) s)) (\<lambda>(_, result, s).
                lbind (hash_table_insert (vs_mountpoints s) name result) (\<lambda>mps.
                lbind (hash_table_insert (vs_mountpoints_rev s) key name) (\<lambda>revs.
                Some (Inr (Some result, s\<lparr> vs_mountpoints := mps, vs_mountpoints_rev := revs \<rparr>)))))))))))))"

definition vfs_unmount_partition :: "u8 \<Rightarrow> u8 \<Rightarrow> u32 \<Rightarrow> vfs_state \<Rightarrow> (bool \<times> vfs_state) lres" where
  "vfs_unmount_partition disk_id partition_id threshold s =
     (let key = partition_key disk_id partition_id in
      lbind (Some (hash_table_get (vs_mountpoints_rev s) key)) (\<lambda>mountpoint.
      case mountpoint of
        None \<Rightarrow> Some (Inr (False, s))
      | Some mountpoint \<Rightarrow>
        lbind (Some (name_key mountpoint)) (\<lambda>name.
        lbind (Some (hash_table_get (vs_mountpoints s) name)) (\<lambda>mp.
        case mp of
          None \<Rightarrow> Some (Inl (Undefined ''NULL dereference''))
        | Some mp \<Rightarrow>
          lbind (Some (on_header (rc_destroy_if_less threshold) (vf_info mp) s)) (\<lambda>(ok, s).
          if \<not> ok then Some (Inr (False, s))
          else
            lbind (Some (disk_flush_cache_sync disk_id (fs_disk (vs_fat s)))) (\<lambda>(_, d).
            let s = s\<lparr> vs_fat := (vs_fat s)\<lparr> fs_disk := d \<rparr> \<rparr> in
            lbind (Some (vfs_cleanup_file_obj mp s)) (\<lambda>s.
            lbind (hash_table_erase (vs_mountpoints s) name) (\<lambda>(_, mps).
            lbind (hash_table_erase (vs_mountpoints_rev s) key) (\<lambda>(_, revs).
            Some (Inr (True, s\<lparr> vs_mountpoints := mps, vs_mountpoints_rev := revs \<rparr>)))))))))))"

section \<open>Searching\<close>

text \<open>\<open>got\<close>: the two bitmaps of the pattern matcher are allocated.  The results are the list of the files found.\<close>

fun search_keys ::
    "bool \<Rightarrow> bytes \<Rightarrow> bool \<Rightarrow> bytes list \<Rightarrow> vfs_file_t list \<Rightarrow> vfs_state \<Rightarrow> (vfs_file_t list \<times> vfs_state) res" where
  "search_keys got pattern ignore_case [] results s = Inr (results, s)"
| "search_keys got pattern ignore_case (key # keys) results s =
     rbind (is_matching_pattern got key pattern ignore_case) (\<lambda>hit.
     rbind (if hit
            then rbind (hash_table_get (vs_mountpoints s) key) (\<lambda>mp.
                 case mp of
                   None \<Rightarrow> Inl (Undefined ''NULL dereference'')
                 | Some mp \<Rightarrow>
                     rbind (vfs_copy_file_obj mp mp s) (\<lambda>(ok, mp, s). Inr (if ok then results @ [mp] else results, s)))
            else Inr (results, s)) (\<lambda>(results, s).
     search_keys got pattern ignore_case keys results s))"

definition vfs_search_mountpoints :: "bool \<Rightarrow> bytes \<Rightarrow> bool \<Rightarrow> vfs_state \<Rightarrow> (vfs_file_t list \<times> vfs_state) res" where
  "vfs_search_mountpoints got pattern ignore_case s =
     rbind (prime_at (buff_count_index (vs_mountpoints s))) (\<lambda>p.
     if unat p \<le> length (key_buff_root (vs_mountpoints s))
     then search_keys got pattern ignore_case (concat (take (unat p) (key_buff_root (vs_mountpoints s)))) [] s
     else Inl Out_Of_Bounds)"

fun unmount_loop :: "vfs_file_t list \<Rightarrow> vfs_state \<Rightarrow> vfs_state lres" where
  "unmount_loop [] s = Some (Inr s)"
| "unmount_loop (mp # mps) s =
     lbind (Some (info_at s (vf_info mp))) (\<lambda>i.
     lbind (vfs_unmount_partition (vi_disk_id i) (vi_partition_id i) 3 s) (\<lambda>(_, s).
     unmount_loop mps s))"

definition vfs_unmount_partitions_by_name :: "bool \<Rightarrow> bytes \<Rightarrow> bool \<Rightarrow> vfs_state \<Rightarrow> vfs_state lres" where
  "vfs_unmount_partitions_by_name got mountpoint ignore_case s =
     lbind (Some (vfs_search_mountpoints got mountpoint ignore_case s)) (\<lambda>(partitions, s).
     lbind (unmount_loop partitions s) (\<lambda>s.
     Some (vfs_destroy_files_array partitions s)))"

text \<open>The components of a pattern, as strings.\<close>

fun split_slash :: "bytes \<Rightarrow> bytes \<Rightarrow> bytes list" where
  "split_slash [] cur = [cur @ [0]]"
| "split_slash (c # cs) cur = (if c = 0x2F then (cur @ [0]) # split_slash cs [] else split_slash cs (cur @ [c]))"

definition pattern_path :: "bytes \<Rightarrow> bytes list res" where
  "pattern_path pattern =
     rbind (strlen pattern) (\<lambda>len.
     if len = 0 then Inl Out_Of_Bounds
     else
       let text = take (unat len) pattern in
       Inr (split_slash (if text ! (unat len - 1) = 0x2F then butlast text else text) []))"

text \<open>The entries of a directory that match, as files of the partition \<open>p\<close>.\<close>

fun push_matches ::
    "bool \<Rightarrow> bytes \<Rightarrow> bool \<Rightarrow> nat \<Rightarrow> fat32_basic_file_info_t list \<Rightarrow> vfs_file_t list \<Rightarrow> vfs_state \<Rightarrow> (vfs_file_t list \<times> vfs_state) res" where
  "push_matches got pattern ignore_case p [] queue s = Inr (queue, s)"
| "push_matches got pattern ignore_case p (f # fs) queue s =
     rbind (is_matching_pattern got (ff_filename f) pattern ignore_case) (\<lambda>hit.
     if hit then
       rbind (vfs_fill_file_obj_from_fat32 (raw_file f p) s) (\<lambda>(ok, new_file, s).
       if ok then
         let new_file = (if vf_attributes new_file AND VFS_ATTRIBUTE_DIRECTORY \<noteq> 0 \<and> ff_cluster (vf_fat32 new_file) = 0
                         then new_file\<lparr> vf_fat32 := (vf_fat32 new_file)\<lparr> ff_cluster := 2 \<rparr> \<rparr> else new_file)
         in push_matches got pattern ignore_case p fs (queue @ [new_file]) s
       else push_matches got pattern ignore_case p fs queue s)
     else push_matches got pattern ignore_case p fs queue s)"

text \<open>\<open>path\<close> holds the patterns of the layers still to be searched, \<open>layer_length\<close> the directories left in this one.\<close>

partial_function (option) find_loop ::
    "bool \<Rightarrow> bool \<Rightarrow> nat \<Rightarrow> bytes list \<Rightarrow> vfs_file_t list \<Rightarrow> u32 \<Rightarrow> vfs_state \<Rightarrow> (vfs_file_t list option \<times> vfs_state) lres" where
  [code]: "find_loop got ignore_case p path queue layer_length s =
     (case path of
        [] \<Rightarrow> Some (Inr (Some queue, s))
      | pattern # path' \<Rightarrow>
        (case queue of
           [] \<Rightarrow> Some (Inr (Some [], s))
         | current_dir # _ \<Rightarrow>
           lbind (if vf_attributes current_dir AND VFS_ATTRIBUTE_DIRECTORY \<noteq> 0
                  then lbind (Some (info_at s p)) (\<lambda>i.
                       if vi_filesystem i = VFS_FS_FAT32 then
                         lbind (fat32_read_directory (vi_fat32 i) (vf_fat32 current_dir) (vs_fat s)) (\<lambda>(all_files, fs).
                         let s = s\<lparr> vs_fat := fs \<rparr> in
                         case all_files of
                           None \<Rightarrow> Some (Inr (None, s))
                         | Some files \<Rightarrow> lbind (Some (push_matches got pattern ignore_case p files queue s)) (\<lambda>(queue, s).
                                          Some (Inr (Some queue, s))))
                       else Some (Inr (Some queue, s)))
                  else Some (Inr (Some queue, s))) (\<lambda>(r, s).
           case r of
             None \<Rightarrow> lbind (Some (vfs_destroy_files_array queue s)) (\<lambda>s. Some (Inr (None, s)))
           | Some queue \<Rightarrow>
             let queue = tl queue; layer_length = layer_length - 1 in
             if layer_length = 0
             then find_loop got ignore_case p path' queue (of_nat (length queue)) s
             else find_loop got ignore_case p path queue layer_length s)))"

definition vfs_find_files_in_directory ::
    "bool \<Rightarrow> vfs_file_t option \<Rightarrow> bytes option \<Rightarrow> bool \<Rightarrow> vfs_state \<Rightarrow> (vfs_file_t list option \<times> vfs_state) lres" where
  "vfs_find_files_in_directory got directory pattern ignore_case s =
     (case directory of
        None \<Rightarrow> Some (Inr (Some [], s))
      | Some directory \<Rightarrow>
        lbind (Some (pattern_path (case pattern of None \<Rightarrow> [0x2A, 0] | Some p \<Rightarrow> p))) (\<lambda>path.
        find_loop got ignore_case (vf_info directory) path [directory] 1 s))"

text \<open>The larger of two result lists comes first.\<close>

definition merge_results :: "'a list \<Rightarrow> 'a list \<Rightarrow> 'a list" where
  "merge_results result search_results =
     (if length result < length search_results then search_results @ result else result @ search_results)"

fun find_in_mountpoints ::
    "bool \<Rightarrow> bytes \<Rightarrow> bool \<Rightarrow> bool \<Rightarrow> vfs_file_t list \<Rightarrow> vfs_file_t list \<Rightarrow> vfs_state \<Rightarrow> (vfs_file_t list \<times> vfs_state) lres" where
  "find_in_mountpoints got pattern return_mountpoints ignore_case [] result s = Some (Inr (result, s))"
| "find_in_mountpoints got pattern return_mountpoints ignore_case (mp # mps) result s =
     lbind (if return_mountpoints
            then lbind (Some (vfs_copy_file_obj mp mp s)) (\<lambda>(_, mp, s). Some (Inr (result @ [mp], s)))
            else lbind (vfs_find_files_in_directory got (Some mp) (Some pattern) ignore_case s) (\<lambda>(r, s).
                 case r of
                   None \<Rightarrow> Some (Inl (Undefined ''NULL dereference''))
                 | Some search_results \<Rightarrow> Some (Inr (merge_results result search_results, s)))) (\<lambda>(result, s).
     find_in_mountpoints got pattern return_mountpoints ignore_case mps result s)"

definition vfs_find_files ::
    "bool \<Rightarrow> vfs_file_t option \<Rightarrow> bytes option \<Rightarrow> bool \<Rightarrow> vfs_state \<Rightarrow> (vfs_file_t list option \<times> vfs_state) lres" where
  "vfs_find_files got directory pattern ignore_case s =
     (case pattern of
        None \<Rightarrow> vfs_find_files_in_directory got directory None ignore_case s
      | Some pattern \<Rightarrow>
        lbind (Some (buf_read pattern 0 1)) (\<lambda>c.
        if c \<noteq> [0x2F] then vfs_find_files_in_directory got directory (Some pattern) ignore_case s
        else
          let start = tl pattern in
          lbind (Some (strchr start 0x2F)) (\<lambda>slash.
          let return_mountpoints = (slash = - 1);
              root_name = (if return_mountpoints then start else take (unat slash) start @ [0]);
              rest = (if return_mountpoints then start else drop (unat slash + 1) start) in
          lbind (Some (vfs_search_mountpoints got root_name ignore_case s)) (\<lambda>(mountpoints_found, s).
          lbind (find_in_mountpoints got rest return_mountpoints ignore_case mountpoints_found [] s) (\<lambda>(result, s).
          lbind (Some (vfs_destroy_files_array mountpoints_found s)) (\<lambda>s.
          Some (Inr (Some result, s))))))))"

section \<open>Files and directories\<close>

fun allowed_loop :: "bytes \<Rightarrow> bool res" where
  "allowed_loop [] = Inl Out_Of_Bounds"
| "allowed_loop (c # cs) =
     (if c = 0 then Inr True else if c = 0x3F \<or> c = 0x2A \<or> c = 0x2F then Inr False else allowed_loop cs)"

definition vfs_is_filename_allowed :: "bytes \<Rightarrow> bool res" where
  "vfs_is_filename_allowed filename =
     rbind (buf_read filename 0 1) (\<lambda>c. if c = [0] then Inr False else allowed_loop filename)"

definition vfs_erase :: "vfs_file_t \<Rightarrow> vfs_state \<Rightarrow> (bool \<times> vfs_file_t \<times> vfs_state) lres" where
  "vfs_erase file s =
     lbind (Some (info_at s (vf_info file))) (\<lambda>i.
     if vi_filesystem i = VFS_FS_FAT32 then
       lbind (fat32_erase_file_sync (vi_fat32 i) (vf_fat32 file) (vs_fat s)) (\<lambda>(ok, f, fs).
       let file = file\<lparr> vf_fat32 := f \<rparr>; s = s\<lparr> vs_fat := fs \<rparr> in
       if \<not> ok then Some (Inr (False, file, s))
       else lbind (Some (vfs_update_file_obj file s)) (\<lambda>file. Some (Inr (True, file, s))))
     else Some (Inr (True, file, s)))"

text \<open>
  \<open>create\<close> is the function of the file system that creates the entry, \<open>file\<close> the object to be filled, if
  one is asked for: it is the second component of the result when the first is true.
\<close>

definition vfs_new ::
    "(fat32_info_t \<Rightarrow> fat32_basic_file_info_t \<Rightarrow> bytes \<Rightarrow> u8 \<Rightarrow> fat_state \<Rightarrow> (fat32_basic_file_info_t option \<times> fat_state) lres) \<Rightarrow>
     vfs_file_t \<Rightarrow> bytes \<Rightarrow> u32 \<Rightarrow> vfs_file_t option \<Rightarrow> vfs_state \<Rightarrow> (bool \<times> vfs_file_t option \<times> vfs_state) lres" where
  "vfs_new create dir filename attributes file s =
     lbind (Some (vfs_is_filename_allowed filename)) (\<lambda>allowed.
     if \<not> allowed then Some (Inr (False, file, s))
     else
       lbind (Some (info_at s (vf_info dir))) (\<lambda>i.
       if vi_filesystem i = VFS_FS_FAT32 then
         lbind (create (vi_fat32 i) (vf_fat32 dir) filename (ucast attributes) (vs_fat s)) (\<lambda>(r, fs).
         let s = s\<lparr> vs_fat := fs \<rparr> in
         case r of
           None \<Rightarrow> Some (Inr (False, file, s))
         | Some f \<Rightarrow>
           (case file of
              None \<Rightarrow> Some (Inr (True, None, s))
            | Some file \<Rightarrow>
              lbind (Some (vfs_fill_file_obj_from_fat32 (file\<lparr> vf_fat32 := f, vf_info := vf_info dir \<rparr>) s)) (\<lambda>(ok, file, s).
              Some (Inr (ok, Some file, s)))))
       else Some (Inr (True, file, s))))"

definition vfs_newfile ::
    "bool \<Rightarrow> vfs_file_t \<Rightarrow> bytes \<Rightarrow> u32 \<Rightarrow> vfs_file_t option \<Rightarrow> vfs_state \<Rightarrow> (bool \<times> vfs_file_t option \<times> vfs_state) lres" where
  "vfs_newfile got dir filename attributes file s = vfs_new (fat32_create_file got) dir filename attributes file s"

definition vfs_newdir ::
    "bool \<Rightarrow> vfs_file_t \<Rightarrow> bytes \<Rightarrow> u32 \<Rightarrow> vfs_file_t option \<Rightarrow> vfs_state \<Rightarrow> (bool \<times> vfs_file_t option \<times> vfs_state) lres" where
  "vfs_newdir got dir dirname attributes new_dir s = vfs_new (fat32_create_directory got) dir dirname attributes new_dir s"

definition vfs_remove :: "vfs_file_t \<Rightarrow> vfs_state \<Rightarrow> (bool \<times> vfs_file_t \<times> vfs_state) lres" where
  "vfs_remove file s =
     lbind (Some (info_at s (vf_info file))) (\<lambda>i.
     if vi_filesystem i = VFS_FS_FAT32 then
       lbind (fat32_remove_file (vi_fat32 i) (vf_fat32 file) (vs_fat s)) (\<lambda>(ok, f, fs).
       Some (Inr (ok, file\<lparr> vf_fat32 := f \<rparr>, s\<lparr> vs_fat := fs \<rparr>)))
     else Some (Inr (True, file, s)))"

section \<open>Streams\<close>

text \<open>The expressions of the guard as they are written: \<^verbatim>\<open>&\<close> between the values of two tests.\<close>

definition flags_forbidden :: "u8 \<Rightarrow> bool" where
  "flags_forbidden flags \<longleftrightarrow>
     (flags AND VFS_FLAG_READ) AND (flags AND VFS_FLAG_OVERWRITE) \<noteq> 0 \<or>
     (flags AND VFS_FLAG_READ) AND (flags AND VFS_FLAG_APPEND) \<noteq> 0 \<or>
     (flags AND VFS_FLAG_OVERWRITE) AND (flags AND VFS_FLAG_APPEND) \<noteq> 0"

definition vfs_open :: "vfs_file_t \<Rightarrow> u8 \<Rightarrow> vfs_state \<Rightarrow> (vfs_stream_t option \<times> vfs_state) lres" where
  "vfs_open file flags s =
     (if flags_forbidden flags then Some (Inr (None, s))
      else
        lbind (Some (info_at s (vf_info file))) (\<lambda>i.
        if vi_filesystem i = VFS_FS_FAT32 then
          lbind (Some (vfs_copy_file_obj file file s)) (\<lambda>(_, copy, s).
          let result = \<lparr> st_file = copy, st_position = 0, st_flags = flags \<rparr> in
          if flags AND VFS_FLAG_APPEND \<noteq> 0
          then Some (Inr (Some (result\<lparr> st_position := ff_size (vf_fat32 copy) \<rparr>), s))
          else if flags AND VFS_FLAG_OVERWRITE \<noteq> 0
          then lbind (vfs_erase copy s) (\<lambda>(_, copy, s). Some (Inr (Some (result\<lparr> st_file := copy \<rparr>), s)))
          else Some (Inr (Some result, s)))
        else Some (Inr (None, s))))"

definition vfs_tell :: "vfs_stream_t \<Rightarrow> u32" where
  "vfs_tell stream = st_position stream"

definition VFS_SEEK_MODE_START :: u8 where "VFS_SEEK_MODE_START = 0"
definition VFS_SEEK_MODE_END :: u8 where "VFS_SEEK_MODE_END = 1"
definition VFS_SEEK_MODE_CURRENT :: u8 where "VFS_SEEK_MODE_CURRENT = 2"

definition vfs_seek :: "vfs_stream_t \<Rightarrow> i32 \<Rightarrow> u8 \<Rightarrow> vfs_stream_t" where
  "vfs_seek stream offset mode =
     (if mode = VFS_SEEK_MODE_START then stream\<lparr> st_position := offset \<rparr>
      else if mode = VFS_SEEK_MODE_END then stream\<lparr> st_position := vf_size (st_file stream) - offset \<rparr>
      else if mode = VFS_SEEK_MODE_CURRENT then stream\<lparr> st_position := st_position stream + offset \<rparr>
      else stream)"

definition vfs_close :: "vfs_stream_t \<Rightarrow> vfs_state \<Rightarrow> vfs_state res" where
  "vfs_close stream s =
     rbind (info_at s (vf_info (st_file stream))) (\<lambda>i.
     rbind (disk_flush_cache_sync (vi_disk_id i) (fs_disk (vs_fat s))) (\<lambda>(_, d).
     vfs_cleanup_file_obj (st_file stream) (s\<lparr> vs_fat := (vs_fat s)\<lparr> fs_disk := d \<rparr> \<rparr>)))"

definition vfs_read :: "vfs_stream_t \<Rightarrow> bytes \<Rightarrow> u32 \<Rightarrow> vfs_state \<Rightarrow> (bool \<times> bytes \<times> vfs_stream_t \<times> vfs_state) lres" where
  "vfs_read stream buffer n s =
     (if st_flags stream AND VFS_FLAG_READ = 0 then Some (Inr (False, buffer, stream, s))
      else
        lbind (Some (info_at s (vf_info (st_file stream)))) (\<lambda>i.
        if vi_filesystem i = VFS_FS_FAT32 then
          lbind (fat32_read_file (vi_fat32 i) (vf_fat32 (st_file stream)) (st_position stream) buffer
                   (min n (vf_size (st_file stream) - st_position stream)) (vs_fat s)) (\<lambda>(ok, buffer, fs).
          let s = s\<lparr> vs_fat := fs \<rparr> in
          if \<not> ok then Some (Inr (False, buffer, stream, s))
          else Some (Inr (True, buffer, stream\<lparr> st_position := st_position stream + n \<rparr>, s)))
        else Some (Inr (False, buffer, stream, s))))"

definition vfs_write :: "vfs_stream_t \<Rightarrow> bytes \<Rightarrow> u32 \<Rightarrow> vfs_state \<Rightarrow> (bool \<times> vfs_stream_t \<times> vfs_state) lres" where
  "vfs_write stream buffer n s =
     (if st_flags stream AND VFS_FLAG_WRITE = 0 then Some (Inr (False, stream, s))
      else
        lbind (Some (info_at s (vf_info (st_file stream)))) (\<lambda>i.
        if vi_filesystem i = VFS_FS_FAT32 then
          lbind (fat32_write_file_sync (vi_fat32 i) (vf_fat32 (st_file stream)) (st_position stream) buffer n (vs_fat s)) (\<lambda>(ok, f, fs).
          let s = s\<lparr> vs_fat := fs \<rparr>;
              stream = stream\<lparr> st_file := (st_file stream)\<lparr> vf_fat32 := f \<rparr> \<rparr> in
          if \<not> ok then Some (Inr (False, stream, s))
          else
            lbind (Some (vfs_update_file_obj (st_file stream) s)) (\<lambda>file.
            Some (Inr (True, stream\<lparr> st_file := file, st_position := st_position stream + n \<rparr>, s))))
        else Some (Inr (False, stream, s))))"

definition vfs_init :: "fat_state \<Rightarrow> vfs_state res" where
  "vfs_init fs =
     rbind hash_table_create (\<lambda>mps.
     rbind hash_table_create (\<lambda>revs.
     Inr \<lparr> vs_fat = fs, vs_infos = Map.empty, vs_next = 0, vs_mountpoints = mps, vs_mountpoints_rev = revs \<rparr>))"

end
