(* ===== verification/Vfs_Find.thy ===== *)
theory Vfs_Find
  imports Vfs Fat_Dir_Props
begin

text \<open>
  The search of the VFS for files by a path of patterns: the queue of the code holds two layers of the
  directory tree, and what is found in the end is the last layer of a reference search that goes down
  the tree by the reference listing of directories and the reference matching of names.
\<close>

unbundle bit_operations_syntax

section \<open>The reference\<close>

definition cstr :: "bytes \<Rightarrow> bytes" where
  "cstr b = takeWhile (\<lambda>c. c \<noteq> 0) b"

text \<open>The file object of an entry of the partition \<open>p\<close>; cluster 0 of a parent entry is the root.\<close>

definition found :: "nat \<Rightarrow> fat32_basic_file_info_t \<Rightarrow> vfs_file_t" where
  "found p f =
     (let file = vfs_fields (raw_file f p) in
      if vf_attributes file AND VFS_ATTRIBUTE_DIRECTORY \<noteq> 0 \<and> ff_cluster f = 0
      then file\<lparr> vf_fat32 := f\<lparr> ff_cluster := 2 \<rparr> \<rparr> else file)"

definition is_dir :: "vfs_file_t \<Rightarrow> bool" where
  "is_dir d \<longleftrightarrow> vf_attributes d AND VFS_ATTRIBUTE_DIRECTORY \<noteq> 0"

definition hits :: "bool \<Rightarrow> bytes \<Rightarrow> fat32_basic_file_info_t list \<Rightarrow> fat32_basic_file_info_t list" where
  "hits ic pattern fs = filter (\<lambda>f. glob ic (cstr (ff_filename f)) pattern) fs"

text \<open>\<open>L\<close> is the listing of a directory.\<close>

definition children :: "(fat32_basic_file_info_t \<Rightarrow> fat32_basic_file_info_t list) \<Rightarrow> bool \<Rightarrow> nat \<Rightarrow> bytes \<Rightarrow> vfs_file_t \<Rightarrow> vfs_file_t list" where
  "children L ic p pattern d = (if is_dir d then map (found p) (hits ic pattern (L (vf_fat32 d))) else [])"

definition next_layer :: "(fat32_basic_file_info_t \<Rightarrow> fat32_basic_file_info_t list) \<Rightarrow> bool \<Rightarrow> nat \<Rightarrow> bytes \<Rightarrow> vfs_file_t list \<Rightarrow> vfs_file_t list" where
  "next_layer L ic p pattern ds = concat (map (children L ic p pattern) ds)"

fun tree_search :: "(fat32_basic_file_info_t \<Rightarrow> fat32_basic_file_info_t list) \<Rightarrow> bool \<Rightarrow> nat \<Rightarrow> bytes list \<Rightarrow> vfs_file_t list \<Rightarrow> vfs_file_t list" where
  "tree_search L ic p [] ds = ds"
| "tree_search L ic p (pattern # path) ds = tree_search L ic p path (next_layer L ic p pattern ds)"

text \<open>The number of the file objects made on the way, in all layers.\<close>

fun tree_count :: "(fat32_basic_file_info_t \<Rightarrow> fat32_basic_file_info_t list) \<Rightarrow> bool \<Rightarrow> nat \<Rightarrow> bytes list \<Rightarrow> vfs_file_t list \<Rightarrow> nat" where
  "tree_count L ic p [] ds = 0"
| "tree_count L ic p (pattern # path) ds =
     (let ds' = next_layer L ic p pattern ds in length ds' + tree_count L ic p path ds')"

text \<open>
  A directory is a chain of clusters in which no name has more than 255 records, \<open>L\<close> is its reference
  listing, and the table of a pattern and a name can be counted in 32 bits.
\<close>

definition dir_good :: "fat32_info_t \<Rightarrow> nat \<Rightarrow> fat_state \<Rightarrow> (fat32_basic_file_info_t \<Rightarrow> fat32_basic_file_info_t list) \<Rightarrow> bytes \<Rightarrow> vfs_file_t \<Rightarrow> bool" where
  "dir_good info n s L pattern d \<longleftrightarrow> is_dir d \<longrightarrow>
     (\<exists>xs. fchain n (ent info s) xs \<and> ff_cluster (vf_fat32 d) = hd xs \<and> runs_chain info s xs list_start \<and> L (vf_fat32 d) = dir_list info s xs) \<and>
     (\<forall>f \<in> set (L (vf_fat32 d)). 0 \<in> set (ff_filename f) \<and> (length pattern + 1) * (length (cstr (ff_filename f)) + 1) + 31 < 2 ^ 32)"

fun tree_good :: "fat32_info_t \<Rightarrow> nat \<Rightarrow> fat_state \<Rightarrow> (fat32_basic_file_info_t \<Rightarrow> fat32_basic_file_info_t list) \<Rightarrow> bool \<Rightarrow> nat \<Rightarrow> bytes list \<Rightarrow> vfs_file_t list \<Rightarrow> bool" where
  "tree_good info n s L ic p [] ds \<longleftrightarrow> True"
| "tree_good info n s L ic p (pattern # path) ds \<longleftrightarrow>
     0 \<notin> set pattern \<and> (\<forall>d \<in> set ds. dir_good info n s L pattern d) \<and> tree_good info n s L ic p path (next_layer L ic p pattern ds)"

section \<open>States of a search\<close>

text \<open>The state \<open>s0\<close> after \<open>k\<close> references were taken, with the file system \<open>fs\<close>.\<close>

definition taken :: "vfs_info_t \<Rightarrow> nat \<Rightarrow> vfs_state \<Rightarrow> nat \<Rightarrow> fat_state \<Rightarrow> vfs_state" where
  "taken i p s0 k fs = s0\<lparr> vs_fat := fs,
     vs_infos := (vs_infos s0)(p \<mapsto> i\<lparr> vi_rc := (vi_rc i)\<lparr> rc_refcount := rc_refcount (vi_rc i) + of_nat k \<rparr> \<rparr>) \<rparr>"

text \<open>The disk was only read.\<close>

definition only_read :: "fat32_info_t \<Rightarrow> nat \<Rightarrow> fat_state \<Rightarrow> fat_state \<Rightarrow> bool" where
  "only_read info n fs fs' \<longleftrightarrow> fstep info n fs fs' \<and> fview info fs' = fview info fs"

lemma only_read_trans: "only_read info n a b \<Longrightarrow> only_read info n b c \<Longrightarrow> only_read info n a c"
  by (auto simp: only_read_def intro: fstep_trans)

lemma only_read_ok: "only_read info n a b \<Longrightarrow> fat_ok info n b"
  by (auto simp: only_read_def intro: fstep_ok)

lemma taken_start: "vs_infos s p = Some i \<Longrightarrow> taken i p s 0 (vs_fat s) = s"
  by (simp add: taken_def fun_upd_idem)

lemma taken_simps [simp]:
  "vs_fat (taken i p s0 k fs) = fs" "(taken i p s0 k fs)\<lparr> vs_fat := fs' \<rparr> = taken i p s0 k fs'"
  "info_at (taken i p s0 k fs) p = Inr (i\<lparr> vi_rc := (vi_rc i)\<lparr> rc_refcount := rc_refcount (vi_rc i) + of_nat k \<rparr> \<rparr>)"
  by (simp_all add: taken_def info_at_def)

lemma cstr_split: "0 \<in> set b \<Longrightarrow> \<exists>r. b = cstr b @ 0 # r" "0 \<notin> set (cstr b)"
proof -
  show "0 \<notin> set (cstr b)" by (auto simp: cstr_def dest: set_takeWhileD)
  assume z: "0 \<in> set b"
  then have "dropWhile (\<lambda>c. c \<noteq> 0) b \<noteq> []" by (auto simp: dropWhile_eq_Nil_conv)
  then obtain c r where c: "dropWhile (\<lambda>c. c \<noteq> 0) b = c # r" by (cases "dropWhile (\<lambda>c. c \<noteq> 0) b") auto
  then have "c = 0" using hd_dropWhile [of "\<lambda>c. c \<noteq> 0" b] by auto
  then have "b = cstr b @ 0 # r" using c takeWhile_dropWhile_id [of "\<lambda>c. c \<noteq> 0" b] by (simp add: cstr_def)
  then show "\<exists>r. b = cstr b @ 0 # r" by blast
qed

text \<open>Taking one more reference.\<close>

lemma fill_ok:
  assumes "\<not> rc_destroyed (vi_rc i)" "unat (rc_refcount (vi_rc i)) + k < 2 ^ 32 - 1" "vf_info file = p"
  shows "vfs_fill_file_obj_from_fat32 file (taken i p s0 k fs) = Inr (True, vfs_fields file, taken i p s0 (Suc k) fs)"
proof -
  let ?c = "rc_refcount (vi_rc i) + of_nat k"
  have "unat ?c = unat (rc_refcount (vi_rc i)) + k" using assms(2) by (simp add: unat_word_ariths unat_of_nat)
  then have "?c \<noteq> RC_LOCK" using assms(2) by (auto simp: RC_LOCK_def)
  then have "rc_take ((vi_rc i)\<lparr> rc_refcount := ?c \<rparr>) = (True, (vi_rc i)\<lparr> rc_refcount := ?c + 1 \<rparr>)"
    using assms(1) by (simp add: rc_take_def rc_incref_def)
  moreover have "?c + 1 = rc_refcount (vi_rc i) + of_nat (Suc k)" by simp
  ultimately show ?thesis using assms(3)
    by (simp add: vfs_fill_file_obj_from_fat32_def on_header_def taken_def info_at_def)
qed

lemma push_matches_step:
  "is_matching_pattern got (ff_filename f) pat ic = Inr True \<Longrightarrow>
   vfs_fill_file_obj_from_fat32 (raw_file f p) s = Inr (True, vfs_fields (raw_file f p), s') \<Longrightarrow>
   push_matches got pat ic p (f # fs) queue s = push_matches got pat ic p fs (queue @ [found p f]) s'"
  by (simp add: found_def Let_def vfs_fields_def raw_file_def)

lemma push_matches_ok:
  assumes "\<not> rc_destroyed (vi_rc i)" "unat (rc_refcount (vi_rc i)) + k + length (hits ic pat fs) < 2 ^ 32" "0 \<notin> set pat"
    "\<forall>f \<in> set fs. 0 \<in> set (ff_filename f) \<and> (length pat + 1) * (length (cstr (ff_filename f)) + 1) + 31 < 2 ^ 32"
  shows "push_matches True (pat @ [0]) ic p fs queue (taken i p s0 k fat) =
    Inr (queue @ map (found p) (hits ic pat fs), taken i p s0 (k + length (hits ic pat fs)) fat)"
  using assms
proof (induction fs arbitrary: k queue)
  case Nil
  then show ?case by (simp add: hits_def)
next
  case (Cons f fs)
  obtain r where r: "ff_filename f = cstr (ff_filename f) @ 0 # r" using cstr_split(1) Cons.prems(4) by auto
  have m: "is_matching_pattern True (ff_filename f) (pat @ [0]) ic = Inr (glob ic (cstr (ff_filename f)) pat)"
    using is_matching_pattern_ok [OF cstr_split(2) Cons.prems(3), of "ff_filename f" r "[]" ic] Cons.prems(4) r by simp
  show ?case
  proof (cases "glob ic (cstr (ff_filename f)) pat")
    case True
    then have h: "hits ic pat (f # fs) = f # hits ic pat fs" by (simp add: hits_def)
    have mt: "glob ic (cstr (ff_filename f)) pat = True" using True by simp
    have "unat (rc_refcount (vi_rc i)) + k < 2 ^ 32 - 1" using Cons.prems(2) h by simp
    then have 1: "vfs_fill_file_obj_from_fat32 (raw_file f p) (taken i p s0 k fat) =
      Inr (True, vfs_fields (raw_file f p), taken i p s0 (Suc k) fat)"
      by (rule fill_ok [OF Cons.prems(1)]) (simp add: raw_file_def)
    show ?thesis unfolding push_matches_step [OF m [unfolded mt] 1]
      using Cons.IH [OF Cons.prems(1) _ Cons.prems(3), of "Suc k" "queue @ [found p f]"] Cons.prems(2,4) by (simp add: h)
  next
    case False
    then have h: "hits ic pat (f # fs) = hits ic pat fs" by (simp add: hits_def)
    show ?thesis using Cons.IH [OF Cons.prems(1) _ Cons.prems(3), of k queue] Cons.prems(2,4) m False by (simp add: h)
  qed
qed

text \<open>Listing a directory during the search.\<close>

lemma search_dir:
  assumes "only_read info n fs0 fs" "fat_geom info n" "dir_good info n fs0 L pat d" "is_dir d"
  shows "\<exists>fs'. fat32_read_directory info (vf_fat32 d) fs = Some (Inr (Some (L (vf_fat32 d)), fs')) \<and> only_read info n fs0 fs'"
proof -
  have v: "fstep info n fs0 fs" "fview info fs = fview info fs0" using assms(1) by (simp_all add: only_read_def)
  obtain xs where xs: "fchain n (ent info fs0) xs" "ff_cluster (vf_fat32 d) = hd xs" "runs_chain info fs0 xs list_start"
    "L (vf_fat32 d) = dir_list info fs0 xs" using assms(3,4) by (auto simp: dir_good_def)
  have c: "fchain n (ent info fs) xs" "runs_chain info fs xs list_start" "dir_list info fs xs = L (vf_fat32 d)"
    using xs list_chain_step [OF v] by (simp_all add: v(2) dir_list_def)
  from fat_read_directory_ok [OF assms(2) only_read_ok [OF assms(1)] c(1) xs(2) c(2)] obtain fs' where
    "fat32_read_directory info (vf_fat32 d) fs = Some (Inr (Some (L (vf_fat32 d)), fs'))" "only_read info n fs fs'"
    unfolding c(3) only_read_def by blast
  then show ?thesis using only_read_trans [OF assms(1)] by blast
qed

text \<open>One directory of the queue.\<close>

lemma find_loop_dir:
  assumes "only_read (vi_fat32 i) n fs0 fs" "fat_geom (vi_fat32 i) n" "dir_good (vi_fat32 i) n fs0 L pat d" "0 \<notin> set pat"
    "vi_filesystem i = VFS_FS_FAT32" "\<not> rc_destroyed (vi_rc i)"
    "unat (rc_refcount (vi_rc i)) + k + length (children L ic p pat d) < 2 ^ 32"
  shows "\<exists>fs'. only_read (vi_fat32 i) n fs0 fs' \<and>
    find_loop True ic p ((pat @ [0]) # path) (d # queue) len (taken i p s0 k fs) =
      (let queue = queue @ children L ic p pat d; s = taken i p s0 (k + length (children L ic p pat d)) fs' in
       if len - 1 = 0 then find_loop True ic p path queue (of_nat (length queue)) s
       else find_loop True ic p ((pat @ [0]) # path) queue (len - 1) s)"
proof (cases "is_dir d")
  case True
  obtain fs' where fs': "fat32_read_directory (vi_fat32 i) (vf_fat32 d) fs = Some (Inr (Some (L (vf_fat32 d)), fs'))"
    "only_read (vi_fat32 i) n fs0 fs'" using search_dir [OF assms(1-3) True] by blast
  have c: "children L ic p pat d = map (found p) (hits ic pat (L (vf_fat32 d)))" using True by (simp add: children_def)
  have "push_matches True (pat @ [0]) ic p (L (vf_fat32 d)) (d # queue) (taken i p s0 k fs') =
      Inr ((d # queue) @ children L ic p pat d, taken i p s0 (k + length (children L ic p pat d)) fs')"
    unfolding c length_map using assms(3,6,7) True by (intro push_matches_ok [OF assms(6) _ assms(4)]) (auto simp: c dir_good_def)
  then show ?thesis using fs' True assms(5)
    by (intro exI [of _ fs']) (subst find_loop.simps, simp add: is_dir_def Let_def)
next
  case False
  then show ?thesis using assms(1)
    by (intro exI [of _ fs]) (subst find_loop.simps, simp add: is_dir_def children_def Let_def)
qed

text \<open>One layer, and all of them.\<close>

lemma find_loop_layer:
  assumes "fat_geom (vi_fat32 i) n" "0 \<notin> set pat" "vi_filesystem i = VFS_FS_FAT32" "\<not> rc_destroyed (vi_rc i)"
    "only_read (vi_fat32 i) n fs0 fs" "\<forall>d \<in> set ds. dir_good (vi_fat32 i) n fs0 L pat d" "ds \<noteq> []" "length ds < 2 ^ 32"
    "unat (rc_refcount (vi_rc i)) + k + length (next_layer L ic p pat ds) < 2 ^ 32"
  shows "\<exists>fs'. only_read (vi_fat32 i) n fs0 fs' \<and>
    find_loop True ic p ((pat @ [0]) # path) (ds @ queue) (of_nat (length ds)) (taken i p s0 k fs) =
      (let queue = queue @ next_layer L ic p pat ds in
       find_loop True ic p path queue (of_nat (length queue)) (taken i p s0 (k + length (next_layer L ic p pat ds)) fs'))"
  using assms(5-)
proof (induction ds arbitrary: k fs queue)
  case (Cons d ds)
  have n: "next_layer L ic p pat (d # ds) = children L ic p pat d @ next_layer L ic p pat ds" by (simp add: next_layer_def)
  have e: "of_nat (length (d # ds)) - 1 = (of_nat (length ds) :: u32)" by simp
  have "dir_good (vi_fat32 i) n fs0 L pat d" "unat (rc_refcount (vi_rc i)) + k + length (children L ic p pat d) < 2 ^ 32"
    using Cons.prems(2,5) by (simp_all add: n)
  from find_loop_dir [OF Cons.prems(1) assms(1) this(1) assms(2-4) this(2), of path "ds @ queue" "of_nat (length (d # ds))" s0]
  obtain fs1 where 1: "only_read (vi_fat32 i) n fs0 fs1"
    "find_loop True ic p ((pat @ [0]) # path) ((d # ds) @ queue) (of_nat (length (d # ds))) (taken i p s0 k fs) =
      (let queue = (ds @ queue) @ children L ic p pat d; s = taken i p s0 (k + length (children L ic p pat d)) fs1 in
       if of_nat (length ds) = (0 :: u32) then find_loop True ic p path queue (of_nat (length queue)) s
       else find_loop True ic p ((pat @ [0]) # path) queue (of_nat (length ds)) s)" unfolding e append_Cons append_assoc by blast
  show ?case
  proof (cases "ds = []")
    case True
    then show ?thesis using 1 by (intro exI [of _ fs1]) (simp add: n next_layer_def Let_def)
  next
    case False
    have "unat (of_nat (length ds) :: u32) = length ds" using Cons.prems(4) by (simp add: unat_of_nat_32)
    then have "of_nat (length ds) \<noteq> (0 :: u32)" using False by auto
    then show ?thesis
      using Cons.IH [OF 1(1) _ False, of "k + length (children L ic p pat d)" "queue @ children L ic p pat d"] Cons.prems(2,4,5) 1(2)
      by (auto simp: n Let_def add.assoc)
  qed
qed simp

lemma find_loop_tree:
  assumes "fat_geom (vi_fat32 i) n" "vi_filesystem i = VFS_FS_FAT32" "\<not> rc_destroyed (vi_rc i)"
    "only_read (vi_fat32 i) n fs0 fs" "tree_good (vi_fat32 i) n fs0 L ic p pats ds" "length ds < 2 ^ 32"
    "unat (rc_refcount (vi_rc i)) + k + tree_count L ic p pats ds < 2 ^ 32"
  shows "\<exists>fs'. only_read (vi_fat32 i) n fs0 fs' \<and>
    find_loop True ic p (map (\<lambda>q. q @ [0]) pats) ds (of_nat (length ds)) (taken i p s0 k fs) =
      Some (Inr (Some (tree_search L ic p pats ds), taken i p s0 (k + tree_count L ic p pats ds) fs'))"
  using assms(4-)
proof (induction pats arbitrary: ds k fs)
  case Nil
  then show ?case by (intro exI [of _ fs]) (subst find_loop.simps, simp)
next
  case (Cons pat pats)
  show ?case
  proof (cases "ds = []")
    case True
    have e: "tree_search L ic p pats [] = [] \<and> tree_count L ic p pats [] = 0" for pats
      by (induction pats) (simp_all add: next_layer_def)
    show ?thesis unfolding True e [THEN conjunct1] e [THEN conjunct2] using Cons.prems(1)
      by (intro exI [of _ fs]) (subst find_loop.simps, simp)
  next
    case False
    let ?ds = "next_layer L ic p pat ds"
    have c: "tree_count L ic p (pat # pats) ds = length ?ds + tree_count L ic p pats ?ds" by (simp add: Let_def)
    have g: "0 \<notin> set pat" "\<forall>d \<in> set ds. dir_good (vi_fat32 i) n fs0 L pat d" "tree_good (vi_fat32 i) n fs0 L ic p pats ?ds"
      using Cons.prems(2) by simp_all
    have "unat (rc_refcount (vi_rc i)) + k + length ?ds < 2 ^ 32" using Cons.prems(4) c by simp
    from find_loop_layer [OF assms(1) g(1) assms(2,3) Cons.prems(1) g(2) False Cons.prems(3) this, of "map (\<lambda>q. q @ [0]) pats" "[]" s0]
    obtain fs1 where 1: "only_read (vi_fat32 i) n fs0 fs1"
      "find_loop True ic p (map (\<lambda>q. q @ [0]) (pat # pats)) ds (of_nat (length ds)) (taken i p s0 k fs) =
       find_loop True ic p (map (\<lambda>q. q @ [0]) pats) ?ds (of_nat (length ?ds)) (taken i p s0 (k + length ?ds) fs1)"
      unfolding Let_def append_Nil append_Nil2 list.map by blast
    show ?thesis using Cons.IH [OF 1(1) g(3), of "k + length ?ds"] Cons.prems(4) c 1(2) by (auto simp: Let_def add.assoc)
  qed
qed

section \<open>The pattern\<close>

text \<open>Patterns joined by slashes.\<close>

fun join_path :: "bytes list \<Rightarrow> bytes" where
  "join_path [] = []"
| "join_path [q] = q"
| "join_path (q # qs) = q @ 0x2F # join_path qs"

lemma split_slash_plain: "0x2F \<notin> set q \<Longrightarrow> split_slash (q @ cs) cur = split_slash cs (cur @ q)"
  by (induction q arbitrary: cur) auto

lemma split_join: "\<forall>q \<in> set qs. 0x2F \<notin> set q \<Longrightarrow> qs \<noteq> [] \<Longrightarrow> split_slash (join_path qs) [] = map (\<lambda>q. q @ [0]) qs"
proof (induction qs rule: join_path.induct)
  case (2 q)
  then show ?case using split_slash_plain [of q "[]" "[]"] by simp
qed (simp_all add: split_slash_plain)

lemma last_join: "qs \<noteq> [] \<Longrightarrow> last qs \<noteq> [] \<Longrightarrow> join_path qs \<noteq> [] \<and> last (join_path qs) = last (last qs)"
  by (induction qs rule: join_path.induct) auto

lemma set_join: "set (join_path qs) \<subseteq> insert 0x2F (\<Union> (set ` set qs))"
  by (induction qs rule: join_path.induct) auto

lemma pattern_path_join:
  assumes "qs \<noteq> []" "last qs \<noteq> []" "\<forall>q \<in> set qs. 0x2F \<notin> set q \<and> 0 \<notin> set q" "length (join_path qs) < 2 ^ 32"
  shows "pattern_path (join_path qs @ 0 # r) = Inr (map (\<lambda>q. q @ [0]) qs)"
proof -
  let ?t = "join_path qs"
  have z: "0 \<notin> set ?t" using set_join [of qs] assms(3) by auto
  have l: "?t \<noteq> []" "last ?t \<in> set (last qs)" using last_join [OF assms(1,2)] assms(2) by auto
  have "last qs \<in> set qs" using assms(1) by simp
  then have s: "last ?t \<noteq> 0x2F" using assms(3) l(2) by auto
  have n: "unat (of_nat (length ?t) :: u32) = length ?t" by (rule unat_of_nat_32 [OF assms(4)])
  then have "of_nat (length ?t) \<noteq> (0 :: u32)" using l(1) by auto
  then show ?thesis using s l(1) split_join [of qs] assms(1,3) n
    by (simp add: pattern_path_def strlen_ok [OF z] last_conv_nth)
qed

lemma vfs_find_tree_ok:
  assumes "fat_geom (vi_fat32 i) n" "fat_ok (vi_fat32 i) n (vs_fat s)" "vs_infos s (vf_info d) = Some i" "vi_filesystem i = VFS_FS_FAT32"
    "\<not> rc_destroyed (vi_rc i)" "tree_good (vi_fat32 i) n (vs_fat s) L ic (vf_info d) pats [d]" "pats \<noteq> []" "last pats \<noteq> []"
    "\<forall>q \<in> set pats. 0x2F \<notin> set q \<and> 0 \<notin> set q" "length (join_path pats) < 2 ^ 32"
    "unat (rc_refcount (vi_rc i)) + tree_count L ic (vf_info d) pats [d] < 2 ^ 32"
  shows "\<exists>fs. only_read (vi_fat32 i) n (vs_fat s) fs \<and>
    vfs_find_files_in_directory True (Some d) (Some (join_path pats @ 0 # r)) ic s =
      Some (Inr (Some (tree_search L ic (vf_info d) pats [d]), taken i (vf_info d) s (tree_count L ic (vf_info d) pats [d]) fs))"
proof -
  have r: "only_read (vi_fat32 i) n (vs_fat s) (vs_fat s)" using assms(2) by (simp add: only_read_def fstep_refl)
  from find_loop_tree [OF assms(1,4,5) r assms(6), of 0 s] assms(11) show ?thesis
    by (simp add: vfs_find_files_in_directory_def pattern_path_join [OF assms(7-10)] taken_start [of s "vf_info d", OF assms(3)])
qed

section \<open>A search in a small directory\<close>

definition ex_listing :: "fat32_basic_file_info_t list" where
  "ex_listing = ls_files (list_cluster (\<lambda>k. replicate k 0xCC) 2 ex_dir [0..<16] list_start)"

definition ex_vinfo :: vfs_info_t where
  "ex_vinfo = \<lparr> vi_rc = rc_init\<lparr> rc_refcount := 1 \<rparr>, vi_fat32 = ex_info, vi_disk_id = 0, vi_partition_id = 0, vi_filesystem = VFS_FS_FAT32 \<rparr>"

definition ex_mp :: vfs_file_t where
  "ex_mp = vfs_fields (raw_file ex_root 0)"

definition ex_table0 :: "'v hash_table_t" where
  "ex_table0 = \<lparr> elements_count = 0, buff_count_index = 1, key_buff_root = [[], []], val_buff_root = [[], []] \<rparr>"

definition ex_vfs :: vfs_state where
  "ex_vfs = \<lparr> vs_fat = ex_dir_state, vs_infos = [0 \<mapsto> ex_vinfo], vs_next = 1, vs_mountpoints = ex_table0, vs_mountpoints_rev = ex_table0 \<rparr>"

lemma ex_dir_list: "dir_list ex_info ex_dir_state [2] = ex_listing"
proof -
  have u: "uninit k ex_dir_state = replicate k 0xCC" for k
    by (simp add: uninit_def ex_dir_state_def ex_state_def map_replicate_const)
  have e: "unat (entries_per_cluster ex_info) = 16" by (simp add: unat_entries_per_cluster spc_def ex_info_def)
  show ?thesis unfolding dir_list_def list_chain_simps ex_listing_def ex_dir_data e u ..
qed

lemma ex_listing_names:
  "map (\<lambda>f. cstr (ff_filename f)) ex_listing = [[0x4E, 0x6F, 0x74, 0x65, 0x73], [0x42, 0x2E, 0x43]]"
  "\<forall>f \<in> set ex_listing. 0 \<in> set (ff_filename f)"
  by code_simp+

lemma ex_mp_ok: "is_dir ex_mp" "vf_info ex_mp = 0" "vf_fat32 ex_mp = ex_root"
  by (simp_all add: ex_mp_def is_dir_def vfs_fields_def raw_file_def ex_root_def ex_file_def vfs_convert_attributes_from_fat32_def VFS_ATTRIBUTE_DIRECTORY_def)

lemma ex_tree_good: "tree_good ex_info 8 ex_dir_state (\<lambda>_. ex_listing) False 0 [[0x3F, 0x2E, 0x43]] [ex_mp]"
proof -
  have "length (cstr (ff_filename f)) \<le> 5" if fl: "f \<in> set ex_listing" for f
  proof -
    have "cstr (ff_filename f) \<in> set (map (\<lambda>f. cstr (ff_filename f)) ex_listing)" using fl by simp
    then show ?thesis unfolding ex_listing_names(1) by auto
  qed
  then have "\<forall>f \<in> set ex_listing. 0 \<in> set (ff_filename f) \<and> 4 * (length (cstr (ff_filename f)) + 1) + 31 < 2 ^ 32"
    using ex_listing_names(2) by (intro ballI conjI) (blast, force)
  moreover have "ff_cluster (vf_fat32 ex_mp) = hd [2]" by (simp add: ex_mp_ok ex_root_def)
  ultimately show ?thesis using ex_dir_chain ex_dir_run(1) ex_dir_list by (auto simp: dir_good_def)
qed

lemma ex_hits: "map (\<lambda>f. cstr (ff_filename f)) (hits False [0x3F, 0x2E, 0x43] ex_listing) = [[0x42, 0x2E, 0x43]]"
proof -
  have "filter (\<lambda>b. glob False b [0x3F, 0x2E, 0x43]) (map (\<lambda>f. cstr (ff_filename f)) ex_listing) = [[0x42, 0x2E, 0x43]]"
    unfolding ex_listing_names(1) by simp
  then show ?thesis by (simp add: hits_def filter_map comp_def)
qed

lemma found_name: "vf_filename (found p f) = ff_filename f"
  by (simp add: found_def Let_def vfs_fields_def raw_file_def)

section \<open>Properties\<close>



end
