(* ===== verification/Vfs_Mount.thy ===== *)
theory Vfs_Mount
  imports Vfs_Find
begin

text \<open>
  Mounting and unmounting: the table from names to file objects and the table from partitions to
  names stay inverse to each other, through the contract of the hash table.
\<close>

unbundle bit_operations_syntax

section \<open>The invariant of the mount points\<close>

definition info_key :: "vfs_info_t \<Rightarrow> bytes" where
  "info_key i = partition_key (vi_disk_id i) (vi_partition_id i)"

abbreviation mp_map :: "vfs_state \<Rightarrow> bytes \<Rightarrow> vfs_file_t option" where
  "mp_map s \<equiv> ht_map (vs_mountpoints s)"

abbreviation rev_map :: "vfs_state \<Rightarrow> bytes \<Rightarrow> bytes option" where
  "rev_map s \<equiv> ht_map (vs_mountpoints_rev s)"

definition mount_name :: "bytes \<Rightarrow> bool" where
  "mount_name nm \<longleftrightarrow> (\<exists>cs. nm = cs @ [0] \<and> 0 \<notin> set cs \<and> length cs < 2 ^ 32 - 1)"

definition mounts_inv :: "vfs_state \<Rightarrow> bool" where
  "mounts_inv s \<longleftrightarrow> ht_inv (vs_mountpoints s) \<and> ht_inv (vs_mountpoints_rev s) \<and>
     (\<forall>k nm. rev_map s k = Some nm \<longrightarrow> mount_name nm \<and>
        (\<exists>f i. mp_map s nm = Some f \<and> vs_infos s (vf_info f) = Some i \<and> info_key i = k)) \<and>
     (\<forall>nm f. mp_map s nm = Some f \<longrightarrow> (\<exists>i. vs_infos s (vf_info f) = Some i \<and> rev_map s (info_key i) = Some nm)) \<and>
     (\<forall>p. vs_infos s p \<noteq> None \<longrightarrow> p < vs_next s)"

lemma mounts_invD:
  assumes "mounts_inv s"
  shows "ht_inv (vs_mountpoints s)" "ht_inv (vs_mountpoints_rev s)"
    "\<And>k nm. rev_map s k = Some nm \<Longrightarrow> mount_name nm"
    "\<And>k nm. rev_map s k = Some nm \<Longrightarrow> \<exists>f i. mp_map s nm = Some f \<and> vs_infos s (vf_info f) = Some i \<and> info_key i = k"
    "\<And>nm f. mp_map s nm = Some f \<Longrightarrow> \<exists>i. vs_infos s (vf_info f) = Some i \<and> rev_map s (info_key i) = Some nm"
    "\<And>p. vs_infos s p \<noteq> None \<Longrightarrow> p < vs_next s"
  using assms unfolding mounts_inv_def by blast+

lemma mount_nameD: "mount_name nm \<Longrightarrow> name_key nm = Inr nm \<and> key_ok nm"
proof -
  assume "mount_name nm"
  then obtain cs where cs: "nm = cs @ 0 # []" "0 \<notin> set cs" "length cs < 2 ^ 32 - 1" by (auto simp: mount_name_def)
  have "unat (of_nat (length cs) + 1 :: u32) = length cs + 1" using cs(3) by (simp add: unat_word_ariths unat_of_nat)
  then show ?thesis using cs(3) by (simp add: name_key_def cs(1) strlen_ok [OF cs(2)] key_ok_def)
qed

lemma name_key_ok: "0 \<notin> set cs \<Longrightarrow> length cs < 2 ^ 32 - 1 \<Longrightarrow> name_key (cs @ 0 # r) = Inr (cs @ [0])"
  by (simp add: name_key_def unat_word_ariths unat_of_nat)

lemma key_ok_partition: "key_ok (partition_key d p)"
  by (simp add: key_ok_def partition_key_def put16_def)

text \<open>Two mounted files do not share their partition information.\<close>

lemma mounts_apart:
  assumes "mounts_inv s" "mp_map s nm = Some f" "mp_map s nm' = Some f'" "vf_info f = vf_info f'"
  shows "nm = nm'"
  using mounts_invD(5) [OF assms(1,2)] mounts_invD(5) [OF assms(1,3)] assms(4) by auto

text \<open>The tables without a mount point, and with one more.\<close>

lemma mounts_inv_del:
  assumes "mounts_inv s" "mp_map s nm = Some f" "vs_infos s (vf_info f) = Some i" "k = info_key i"
    "ht_inv (vs_mountpoints s')" "ht_inv (vs_mountpoints_rev s')" "mp_map s' = (mp_map s)(nm := None)" "rev_map s' = (rev_map s)(k := None)"
    "vs_next s' = vs_next s" "vs_infos s' = (vs_infos s)(vf_info f := j)"
  shows "mounts_inv s'"
proof -
  note d = mounts_invD [OF assms(1)]
  have rk: "rev_map s k = Some nm" using d(5) [OF assms(2)] assms(3,4) by auto
  have "mount_name nm' \<and> (\<exists>f i. mp_map s' nm' = Some f \<and> vs_infos s' (vf_info f) = Some i \<and> info_key i = k')"
    if r: "rev_map s' k' = Some nm'" for k' nm'
  proof -
    have k: "k' \<noteq> k" "rev_map s k' = Some nm'" using r unfolding assms(8) by (auto split: if_splits)
    obtain f' i' where f': "mp_map s nm' = Some f'" "vs_infos s (vf_info f') = Some i'" "info_key i' = k'" using d(4) [OF k(2)] by blast
    have "nm' \<noteq> nm" using f' assms(2,3,4) k(1) by auto
    moreover from this have "vf_info f' \<noteq> vf_info f" using mounts_apart [OF assms(1) f'(1) assms(2)] by blast
    ultimately show ?thesis using f' d(3) [OF k(2)] unfolding assms(7,10) by auto
  qed
  moreover have "\<exists>i. vs_infos s' (vf_info f') = Some i \<and> rev_map s' (info_key i) = Some nm'" if m: "mp_map s' nm' = Some f'" for nm' f'
  proof -
    have n: "nm' \<noteq> nm" "mp_map s nm' = Some f'" using m unfolding assms(7) by (auto split: if_splits)
    obtain i' where i': "vs_infos s (vf_info f') = Some i'" "rev_map s (info_key i') = Some nm'" using d(5) [OF n(2)] by blast
    have "vf_info f' \<noteq> vf_info f" using mounts_apart [OF assms(1) n(2) assms(2)] n(1) by blast
    moreover have "info_key i' \<noteq> k" using i'(2) rk n(1) by auto
    ultimately show ?thesis using i' unfolding assms(8,10) by auto
  qed
  moreover have "p < vs_next s'" if "vs_infos s' p \<noteq> None" for p
    using that d(6) [of p] d(6) [of "vf_info f"] assms(3) unfolding assms(9,10) by (auto split: if_splits)
  ultimately show ?thesis using assms(5,6) unfolding mounts_inv_def by blast
qed

lemma mounts_inv_add:
  assumes "mounts_inv s" "mount_name nm" "mp_map s nm = None" "rev_map s (info_key i) = None" "vf_info f = vs_next s"
    "ht_inv (vs_mountpoints s')" "ht_inv (vs_mountpoints_rev s')" "mp_map s' = (mp_map s)(nm \<mapsto> f)" "rev_map s' = (rev_map s)(info_key i \<mapsto> nm)"
    "vs_next s' = Suc (vs_next s)" "vs_infos s' = (vs_infos s)(vs_next s \<mapsto> i)"
  shows "mounts_inv s'"
proof -
  note d = mounts_invD [OF assms(1)]
  have old: "vf_info f' \<noteq> vs_next s" if "mp_map s nm' = Some f'" for nm' f'
    using d(5) [OF that] d(6) [of "vf_info f'"] by auto
  have "mount_name nm' \<and> (\<exists>f i. mp_map s' nm' = Some f \<and> vs_infos s' (vf_info f) = Some i \<and> info_key i = k')"
    if r: "rev_map s' k' = Some nm'" for k' nm'
  proof (cases "k' = info_key i")
    case True
    then show ?thesis using r assms(2,5) unfolding assms(8,9,11) by auto
  next
    case False
    then have k: "rev_map s k' = Some nm'" using r unfolding assms(9) by simp
    obtain f' i' where f': "mp_map s nm' = Some f'" "vs_infos s (vf_info f') = Some i'" "info_key i' = k'" using d(4) [OF k] by blast
    then show ?thesis using d(3) [OF k] assms(3) old [OF f'(1)] unfolding assms(8,11) by auto
  qed
  moreover have "\<exists>i. vs_infos s' (vf_info f') = Some i \<and> rev_map s' (info_key i) = Some nm'" if m: "mp_map s' nm' = Some f'" for nm' f'
  proof (cases "nm' = nm")
    case True
    then show ?thesis using m assms(5) unfolding assms(8,9,11) by auto
  next
    case False
    then have n: "mp_map s nm' = Some f'" using m unfolding assms(8) by simp
    obtain i' where "vs_infos s (vf_info f') = Some i'" "rev_map s (info_key i') = Some nm'" using d(5) [OF n] by blast
    then show ?thesis using old [OF n] assms(4) unfolding assms(9,11) by auto
  qed
  moreover have "p < vs_next s'" if "vs_infos s' p \<noteq> None" for p
    using that d(6) [of p] unfolding assms(10,11) by (auto split: if_splits)
  ultimately show ?thesis using assms(6,7) unfolding mounts_inv_def by blast
qed

section \<open>Unmounting\<close>

lemma on_header_ok:
  "vs_infos s p = Some i \<Longrightarrow> f (vi_rc i) = (ok, rc) \<Longrightarrow>
   on_header f p s = Inr (ok, s\<lparr> vs_infos := (vs_infos s)(p := if rc_freed rc \<noteq> rc_freed (vi_rc i) then None else Some (i\<lparr> vi_rc := rc \<rparr>)) \<rparr>)"
  by (simp add: on_header_def info_at_def)

text \<open>The partition information after the last but one, or the last, reference is gone.\<close>

definition info_released :: "vfs_info_t \<Rightarrow> vfs_info_t option" where
  "info_released i = (if rc_refcount (vi_rc i) = 1 then None
     else Some (i\<lparr> vi_rc := (vi_rc i)\<lparr> rc_destroyed := True, rc_refcount := rc_refcount (vi_rc i) - 1 \<rparr> \<rparr>))"

lemma cleanup_released:
  assumes "vs_infos s (vf_info f) = Some (i\<lparr> vi_rc := (vi_rc i)\<lparr> rc_destroyed := True \<rparr> \<rparr>)"
  shows "vfs_cleanup_file_obj f s = Inr (s\<lparr> vs_infos := (vs_infos s)(vf_info f := info_released i) \<rparr>)"
proof (cases "rc_refcount (vi_rc i) = 1")
  case True
  then show ?thesis using assms by (simp add: vfs_cleanup_file_obj_def on_header_def info_at_def rc_decref_def Let_def info_released_def)
next
  case False
  then show ?thesis using assms
    by (simp add: vfs_cleanup_file_obj_def on_header_def info_at_def rc_decref_def Let_def info_released_def)
qed

lemma vfs_unmount_ok:
  assumes "mounts_inv s" "mp_map s nm = Some f" "vs_infos s (vf_info f) = Some i" "info_key i = partition_key disk_id partition_id"
    "rc_refcount (vi_rc i) < threshold" "disk_flush_cache_sync disk_id (fs_disk (vs_fat s)) = Inr (ok, d)"
    "card (dom (mp_map s)) \<le> 2 ^ 26" "card (dom (rev_map s)) \<le> 2 ^ 26"
  shows "\<exists>s'. vfs_unmount_partition disk_id partition_id threshold s = Some (Inr (True, s')) \<and> mounts_inv s' \<and>
    mp_map s' = (mp_map s)(nm := None) \<and> rev_map s' = (rev_map s)(info_key i := None) \<and>
    vs_infos s' = (vs_infos s)(vf_info f := info_released i) \<and> vs_fat s' = (vs_fat s)\<lparr> fs_disk := d \<rparr>"
proof -
  let ?k = "partition_key disk_id partition_id" and ?p = "vf_info f"
  note inv = mounts_invD [OF assms(1)]
  have rk: "rev_map s ?k = Some nm" using inv(5) [OF assms(2)] assms(3,4) by auto
  have nm: "name_key nm = Inr nm" "key_ok nm" using mount_nameD [OF inv(3) [OF rk]] by blast+
  let ?i1 = "i\<lparr> vi_rc := (vi_rc i)\<lparr> rc_destroyed := True \<rparr> \<rparr>"
  define s1 where "s1 = s\<lparr> vs_infos := (vs_infos s)(?p \<mapsto> ?i1) \<rparr>"
  define s2 where "s2 = s1\<lparr> vs_fat := (vs_fat s1)\<lparr> fs_disk := d \<rparr> \<rparr>"
  define s3 where "s3 = s2\<lparr> vs_infos := (vs_infos s2)(?p := info_released i) \<rparr>"
  have h1: "on_header (rc_destroy_if_less threshold) ?p s = Inr (True, s1)"
    using on_header_ok [OF assms(3), of "rc_destroy_if_less threshold" True "(vi_rc i)\<lparr> rc_destroyed := True \<rparr>"] assms(5)
    by (simp add: rc_destroy_if_less_def rc_destroy_def s1_def)
  have i1: "vs_infos s2 ?p = Some ?i1" by (simp add: s2_def s1_def)
  have h2: "vfs_cleanup_file_obj f s2 = Inr s3" unfolding s3_def by (rule cleanup_released [OF i1])
  have fl: "disk_flush_cache_sync disk_id (fs_disk (vs_fat s1)) = Inr (ok, d)" using assms(6) by (simp add: s1_def)
  have t3: "vs_mountpoints s3 = vs_mountpoints s" "vs_mountpoints_rev s3 = vs_mountpoints_rev s" by (simp_all add: s3_def s2_def s1_def)
  obtain mps where mps: "hash_table_erase (vs_mountpoints s) nm = Some (Inr (True, mps))" "ht_inv mps" "ht_map mps = (mp_map s)(nm := None)"
    using ht.del [OF inv(1) nm(2) assms(7)] assms(2) by auto
  obtain revs where revs: "hash_table_erase (vs_mountpoints_rev s) ?k = Some (Inr (True, revs))" "ht_inv revs" "ht_map revs = (rev_map s)(?k := None)"
    using ht.del [OF inv(2) key_ok_partition [of disk_id partition_id] assms(8)] rk by auto
  define s' where "s' = s3\<lparr> vs_mountpoints := mps, vs_mountpoints_rev := revs \<rparr>"
  have run: "vfs_unmount_partition disk_id partition_id threshold s = Some (Inr (True, s'))"
    by (simp add: vfs_unmount_partition_def ht.lookup [OF inv(2) key_ok_partition] rk nm(1) ht.lookup [OF inv(1) nm(2)] assms(2)
        h1 fl s2_def [symmetric] h2 t3 mps(1) revs(1) s'_def)
  have maps: "mp_map s' = (mp_map s)(nm := None)" "rev_map s' = (rev_map s)(info_key i := None)"
    "vs_infos s' = (vs_infos s)(?p := info_released i)" "vs_fat s' = (vs_fat s)\<lparr> fs_disk := d \<rparr>" "vs_next s' = vs_next s"
    using mps(3) revs(3) by (simp_all add: s'_def s3_def s2_def s1_def assms(4))
  have "mounts_inv s'" by (rule mounts_inv_del [OF assms(1-3) refl _ _ maps(1,2,5,3)]) (simp_all add: s'_def mps(2) revs(2))
  then show ?thesis using run maps by blast
qed

lemma vfs_unmount_refused_ok:
  assumes "mounts_inv s"
  shows "rev_map s (partition_key disk_id partition_id) = None \<Longrightarrow> vfs_unmount_partition disk_id partition_id threshold s = Some (Inr (False, s))"
    "mp_map s nm = Some f \<Longrightarrow> vs_infos s (vf_info f) = Some i \<Longrightarrow> info_key i = partition_key disk_id partition_id \<Longrightarrow>
     threshold \<le> rc_refcount (vi_rc i) \<Longrightarrow> vfs_unmount_partition disk_id partition_id threshold s = Some (Inr (False, s))"
proof -
  note inv = mounts_invD [OF assms(1)]
  show "vfs_unmount_partition disk_id partition_id threshold s = Some (Inr (False, s))" if "rev_map s (partition_key disk_id partition_id) = None"
    using that by (simp add: vfs_unmount_partition_def ht.lookup [OF inv(2) key_ok_partition])
  assume a: "mp_map s nm = Some f" "vs_infos s (vf_info f) = Some i" "info_key i = partition_key disk_id partition_id" "threshold \<le> rc_refcount (vi_rc i)"
  have rk: "rev_map s (partition_key disk_id partition_id) = Some nm" using inv(5) [OF a(1)] a(2,3) by auto
  have nm: "name_key nm = Inr nm" "key_ok nm" using mount_nameD [OF inv(3) [OF rk]] by blast+
  have "on_header (rc_destroy_if_less threshold) (vf_info f) s = Inr (False, s)"
    using on_header_ok [OF a(2), of "rc_destroy_if_less threshold" False] a(2,4) by (simp add: rc_destroy_if_less_def fun_upd_idem)
  then show "vfs_unmount_partition disk_id partition_id threshold s = Some (Inr (False, s))"
    by (simp add: vfs_unmount_partition_def ht.lookup [OF inv(2) key_ok_partition] rk nm(1) ht.lookup [OF inv(1) nm(2)] a(1))
qed

section \<open>Mounting\<close>

lemma strdup_ok: "0 \<notin> set cs \<Longrightarrow> length cs < 2 ^ 32 - 1 \<Longrightarrow> (\<And>n. length (alloc n) = unat n) \<Longrightarrow> strdup alloc (cs @ 0 # r) = Inr (cs @ [0])"
  by (simp add: strdup_def unat_word_ariths unat_of_nat buf_copy_ok)

lemma rc_take_new: "rc_take rc_init = (True, rc_init\<lparr> rc_refcount := 1 \<rparr>)"
  by (simp add: rc_take_def rc_incref_def rc_init_def RC_LOCK_def)

text \<open>\<open>info\<close> is what the file system's own record says about the partition found in the table.\<close>

lemma vfs_mount_ok:
  assumes "mounts_inv s" "0 \<notin> set cs" "length cs < 2 ^ 32 - 1" "mp_map s (cs @ [0]) = None" "rev_map s (partition_key disk_id partition_id) = None"
    "partition_id \<le> 3" "mbr_read_sync disk_id (uninit 512 (vs_fat s)) (fs_disk (vs_fat s)) = Inr (True, mbr, d)" "length mbr = 512"
    "mbr ! (446 + 16 * unat partition_id + 4) = MBR_PARTITION_FAT32_LBA"
    "fat32_get_info_sync (raw_info\<lparr> fi_disk := disk_id, fi_partition := get32 mbr (446 + 16 * unat partition_id + 8) \<rparr>) ((vs_fat s)\<lparr> fs_disk := d \<rparr>) =
       Inr (ok, info, fs)"
    "card (dom (mp_map s)) < 2 ^ 26" "card (dom (rev_map s)) < 2 ^ 26"
  shows "\<exists>f i s'. vfs_mount_partition junk raw_info disk_id partition_id (cs @ 0 # r) s = Some (Inr (Some f, s')) \<and> mounts_inv s' \<and>
    mp_map s' = (mp_map s)(cs @ [0] \<mapsto> f) \<and> rev_map s' = (rev_map s)(info_key i \<mapsto> cs @ [0]) \<and>
    vs_infos s' = (vs_infos s)(vf_info f \<mapsto> i) \<and> vs_infos s (vf_info f) = None \<and> vs_fat s' = fs \<and>
    i = \<lparr> vi_rc = rc_init\<lparr> rc_refcount := 1 \<rparr>, vi_fat32 = info, vi_disk_id = disk_id, vi_partition_id = partition_id, vi_filesystem = VFS_FS_FAT32 \<rparr> \<and>
    is_dir f \<and> vf_filename f = cs @ [0] \<and> ff_cluster (vf_fat32 f) = fi_root info"
proof -
  let ?k = "partition_key disk_id partition_id" and ?p = "vs_next s"
  note inv = mounts_invD [OF assms(1)]
  have nm: "mount_name (cs @ [0])" using assms(2,3) by (auto simp: mount_name_def)
  have kn: "key_ok (cs @ [0])" using mount_nameD [OF nm] by blast
  let ?off = "446 + 16 * unat partition_id"
  have p3: "unat partition_id \<le> 3" using assms(6) by (simp add: word_le_nat_alt)
  have p4: "\<not> 4 < partition_id" using p3 by (simp add: word_less_nat_alt)
  have e: "buf_read mbr ?off 16 = Inr (take 16 (drop ?off mbr))" "take 16 (drop ?off mbr) ! 4 = mbr ! (?off + 4)"
    "get32 (take 16 (drop ?off mbr)) 8 = get32 mbr (?off + 8)"
    using p3 assms(8) by (simp_all add: get32_def add.assoc)
  let ?f = "junk\<lparr> ff_attributes := FAT32_ATTRIBUTE_DIRECTORY OR FAT32_ATTRIBUTE_SYSTEM, ff_cluster := fi_root info, ff_size := 0, ff_filename := cs @ [0] \<rparr>"
  have fm: "fat32_mount (\<lambda>n. uninit (unat n) fs) info (cs @ 0 # r) junk = Inr ?f"
    by (simp add: fat32_mount_def strdup_ok [OF assms(2,3)] uninit_def)
  define i0 where "i0 = \<lparr> vi_rc = rc_init, vi_fat32 = info, vi_disk_id = disk_id, vi_partition_id = partition_id, vi_filesystem = VFS_FS_FAT32 \<rparr>"
  define s1 where "s1 = s\<lparr> vs_fat := fs, vs_next := Suc ?p, vs_infos := (vs_infos s)(?p \<mapsto> i0) \<rparr>"
  define i where "i = i0\<lparr> vi_rc := rc_init\<lparr> rc_refcount := 1 \<rparr> \<rparr>"
  define s2 where "s2 = s1\<lparr> vs_infos := (vs_infos s)(?p \<mapsto> i) \<rparr>"
  define f where "f = vfs_fields (raw_file ?f ?p)"
  have fill: "vfs_fill_file_obj_from_fat32 (raw_file ?f ?p) s1 = Inr (True, f, s2)"
    using on_header_ok [of s1 ?p i0 rc_take True "rc_init\<lparr> rc_refcount := 1 \<rparr>"]
    by (simp add: vfs_fill_file_obj_from_fat32_def s1_def s2_def i_def i0_def f_def raw_file_def rc_take_new)
  have t2: "vs_mountpoints s2 = vs_mountpoints s" "vs_mountpoints_rev s2 = vs_mountpoints_rev s" by (simp_all add: s2_def s1_def)
  obtain mps where mps: "hash_table_insert (vs_mountpoints s) (cs @ [0]) f = Some (Inr mps)" "ht_inv mps" "ht_map mps = (mp_map s)(cs @ [0] \<mapsto> f)"
    using ht.put [OF inv(1) kn assms(11)] by blast
  obtain revs where revs: "hash_table_insert (vs_mountpoints_rev s) ?k (cs @ [0]) = Some (Inr revs)" "ht_inv revs" "ht_map revs = (rev_map s)(?k \<mapsto> cs @ [0])"
    using ht.put [OF inv(2) key_ok_partition [of disk_id partition_id] assms(12)] by blast
  define s' where "s' = s2\<lparr> vs_mountpoints := mps, vs_mountpoints_rev := revs \<rparr>"
  have run: "vfs_mount_partition junk raw_info disk_id partition_id (cs @ 0 # r) s = Some (Inr (Some f, s'))"
    by (simp add: vfs_mount_partition_def Let_def p4 name_key_ok [OF assms(2,3)] ht.lookup [OF inv(1) kn] assms(4,5,7) assms(9,10) [simplified]
        ht.lookup [OF inv(2) key_ok_partition] e [simplified] fm i0_def [symmetric] s1_def [symmetric] fill t2 mps(1) revs(1) s'_def [symmetric])
  have ik: "info_key i = ?k" by (simp add: info_key_def i_def i0_def)
  have maps: "mp_map s' = (mp_map s)(cs @ [0] \<mapsto> f)" "rev_map s' = (rev_map s)(info_key i \<mapsto> cs @ [0])" "vs_next s' = Suc ?p"
    "vs_infos s' = (vs_infos s)(?p \<mapsto> i)" "vs_fat s' = fs" "vf_info f = ?p"
    using mps(3) revs(3) by (simp_all add: s'_def s2_def s1_def ik f_def vfs_fields_def raw_file_def)
  have "mounts_inv s'"
    by (rule mounts_inv_add [OF assms(1) nm assms(4) _ maps(6) _ _ maps(1-4)]) (simp_all add: s'_def mps(2) revs(2) ik assms(5))
  moreover have "vs_infos s ?p = None" using inv(6) [of ?p] by blast
  moreover have "is_dir f" "vf_filename f = cs @ [0]" "ff_cluster (vf_fat32 f) = fi_root info"
    by (simp_all add: f_def is_dir_def vfs_fields_def raw_file_def vfs_convert_attributes_from_fat32_def FAT32_ATTRIBUTE_DIRECTORY_def
        FAT32_ATTRIBUTE_SYSTEM_def VFS_ATTRIBUTE_DIRECTORY_def)
  ultimately show ?thesis using run maps by (intro exI [of _ f] exI [of _ i] exI [of _ s']) (simp add: i_def i0_def)
qed

section \<open>A disk with one partition\<close>

definition ex_mbr :: bytes where
  "ex_mbr = replicate 450 0 @ [0x0C, 0, 0, 0] @ put32 1 @ replicate 54 0"

definition ex_mbr_state :: fat_state where
  "ex_mbr_state = ex_state\<lparr> fs_disk := (fs_disk ex_state)\<lparr>
     ds_cache := (\<lambda>i. \<lparr> dc_capacity = 0, dc_cache = [] \<rparr>),
     hw_sectors := (\<lambda>_ _ x. if x = 0 then ex_mbr else replicate 512 7) \<rparr> \<rparr>"

definition ex_unmounted :: vfs_state where
  "ex_unmounted = \<lparr> vs_fat = ex_mbr_state, vs_infos = Map.empty, vs_next = 0, vs_mountpoints = ex_table0, vs_mountpoints_rev = ex_table0 \<rparr>"

text \<open>The boot record and the file system's own record are read, and the cache is flushed.\<close>

definition ex_probe :: bool where
  "ex_probe = (case mbr_read_sync 0 (uninit 512 ex_mbr_state) (fs_disk ex_mbr_state) of
     Inr (ok, mbr, d) \<Rightarrow> ok \<and> mbr = ex_mbr \<and>
       (case fat32_get_info_sync (ex_info\<lparr> fi_disk := 0, fi_partition := get32 mbr 454 \<rparr>) (ex_mbr_state\<lparr> fs_disk := d \<rparr>) of
          Inr (ok, info, fs) \<Rightarrow> (case disk_flush_cache_sync 0 (fs_disk fs) of Inr _ \<Rightarrow> True | Inl _ \<Rightarrow> False)
        | Inl _ \<Rightarrow> False)
   | Inl _ \<Rightarrow> False)"

lemma ex_probe: "ex_probe"
  by code_simp

lemma ex_probeD:
  "\<exists>d ok info fs ok' d'. mbr_read_sync 0 (uninit 512 (vs_fat ex_unmounted)) (fs_disk (vs_fat ex_unmounted)) = Inr (True, ex_mbr, d) \<and>
    fat32_get_info_sync (ex_info\<lparr> fi_disk := 0, fi_partition := get32 ex_mbr (446 + 16 * unat (0 :: u8) + 8) \<rparr>)
      ((vs_fat ex_unmounted)\<lparr> fs_disk := d \<rparr>) = Inr (ok, info, fs) \<and>
    disk_flush_cache_sync 0 (fs_disk fs) = Inr (ok', d')"
proof -
  let ?r = "mbr_read_sync 0 (uninit 512 ex_mbr_state) (fs_disk ex_mbr_state)"
  obtain mbr d where 1: "?r = Inr (True, mbr, d)" "mbr = ex_mbr" using ex_probe by (cases ?r) (auto simp: ex_probe_def)
  let ?g = "fat32_get_info_sync (ex_info\<lparr> fi_disk := 0, fi_partition := get32 ex_mbr 454 \<rparr>) (ex_mbr_state\<lparr> fs_disk := d \<rparr>)"
  obtain ok info fs where 2: "?g = Inr (ok, info, fs)" using ex_probe 1 by (cases ?g) (auto simp: ex_probe_def)
  have "\<exists>ok' d'. disk_flush_cache_sync 0 (fs_disk fs) = Inr (ok', d')"
    using ex_probe 1 2 by (cases "disk_flush_cache_sync 0 (fs_disk fs)") (auto simp: ex_probe_def)
  then show ?thesis using 1 2 by (simp add: ex_unmounted_def)
qed

lemma ex_table0_create: "hash_table_create = Inr ex_table0"
proof -
  have p: "prime (Suc 0) = Suc (Suc 0)" by (simp add: primes_def)
  show ?thesis by (simp add: hash_table_create_def init_buff_ok ex_table0_def p)
qed

lemma ex_table0_ok: "ht_inv ex_table0" "ht_map ex_table0 = Map.empty"
  using hash_table_create_ok unfolding ex_table0_create by blast+

lemma ex_unmounted_ok: "mounts_inv ex_unmounted" "mp_map ex_unmounted = Map.empty" "rev_map ex_unmounted = Map.empty"
  by (simp_all add: mounts_inv_def ex_unmounted_def ex_table0_ok)

section \<open>Properties\<close>

text \<open>C34: Mounting the FAT32 partition found in the partition table under a name that is not in use adds the name and the
  partition to the two tables, which stay inverse to each other, with a directory object for the root of the file
  system and partition information of its own that holds one reference.\<close>

lemma vfs_mount_adds:
  assumes "mounts_inv s" "0 \<notin> set cs" "length cs < 2 ^ 32 - 1" "mp_map s (cs @ [0]) = None" "rev_map s (partition_key disk_id partition_id) = None"
    "partition_id \<le> 3" "mbr_read_sync disk_id (uninit 512 (vs_fat s)) (fs_disk (vs_fat s)) = Inr (True, mbr, d)" "length mbr = 512"
    "mbr ! (446 + 16 * unat partition_id + 4) = MBR_PARTITION_FAT32_LBA"
    "fat32_get_info_sync (raw_info\<lparr> fi_disk := disk_id, fi_partition := get32 mbr (446 + 16 * unat partition_id + 8) \<rparr>) ((vs_fat s)\<lparr> fs_disk := d \<rparr>) =
       Inr (ok, info, fs)"
    "card (dom (mp_map s)) < 2 ^ 26" "card (dom (rev_map s)) < 2 ^ 26"
  shows "\<exists>f i s'. vfs_mount_partition junk raw_info disk_id partition_id (cs @ 0 # r) s = Some (Inr (Some f, s')) \<and> mounts_inv s' \<and>
    mp_map s' = (mp_map s)(cs @ [0] \<mapsto> f) \<and> rev_map s' = (rev_map s)(info_key i \<mapsto> cs @ [0]) \<and>
    vs_infos s' = (vs_infos s)(vf_info f \<mapsto> i) \<and> vs_infos s (vf_info f) = None \<and> vs_fat s' = fs \<and>
    i = \<lparr> vi_rc = rc_init\<lparr> rc_refcount := 1 \<rparr>, vi_fat32 = info, vi_disk_id = disk_id, vi_partition_id = partition_id, vi_filesystem = VFS_FS_FAT32 \<rparr> \<and>
    is_dir f \<and> vf_filename f = cs @ [0] \<and> ff_cluster (vf_fat32 f) = fi_root info"
  by (rule vfs_mount_ok [OF assms])

lemma vfs_mount_adds_witness:
  "\<exists>f s'. vfs_mount_partition ex_root ex_info 0 0 [0x64, 0] ex_unmounted = Some (Inr (Some f, s')) \<and> mounts_inv s' \<and>
    mp_map s' = [[0x64, 0] \<mapsto> f]"
proof -
  obtain d ok info fs ok' d' where p: "mbr_read_sync 0 (uninit 512 (vs_fat ex_unmounted)) (fs_disk (vs_fat ex_unmounted)) = Inr (True, ex_mbr, d)"
    "fat32_get_info_sync (ex_info\<lparr> fi_disk := 0, fi_partition := get32 ex_mbr (446 + 16 * unat (0 :: u8) + 8) \<rparr>)
      ((vs_fat ex_unmounted)\<lparr> fs_disk := d \<rparr>) = Inr (ok, info, fs)" using ex_probeD by blast
  have h: "0 \<notin> set ([0x64] :: bytes)" "length ([0x64] :: bytes) < 2 ^ 32 - 1" "mp_map ex_unmounted ([0x64] @ [0]) = None"
    "rev_map ex_unmounted (partition_key 0 0) = None" "(0 :: u8) \<le> 3" "length ex_mbr = 512"
    "ex_mbr ! (446 + 16 * unat (0 :: u8) + 4) = MBR_PARTITION_FAT32_LBA" "card (dom (mp_map ex_unmounted)) < 2 ^ 26" "card (dom (rev_map ex_unmounted)) < 2 ^ 26"
    by (simp_all add: ex_unmounted_ok ex_mbr_def put32_def MBR_PARTITION_FAT32_LBA_def nth_append)
  from vfs_mount_adds [OF ex_unmounted_ok(1) h(1-5) p(1) h(6,7) p(2) h(8,9), of ex_root "[]"] show ?thesis
    by (auto simp: ex_unmounted_ok)
qed

text \<open>C35: Unmounting a partition with fewer references than the threshold removes its name and the partition from the two
  tables, which stay inverse to each other, writes the cache of its disk back and gives the reference of the mount
  point back, which frees the partition information when it was the last one.\<close>

lemma vfs_unmount_removes:
  assumes "mounts_inv s" "mp_map s nm = Some f" "vs_infos s (vf_info f) = Some i" "info_key i = partition_key disk_id partition_id"
    "rc_refcount (vi_rc i) < threshold" "disk_flush_cache_sync disk_id (fs_disk (vs_fat s)) = Inr (ok, d)"
    "card (dom (mp_map s)) \<le> 2 ^ 26" "card (dom (rev_map s)) \<le> 2 ^ 26"
  shows "\<exists>s'. vfs_unmount_partition disk_id partition_id threshold s = Some (Inr (True, s')) \<and> mounts_inv s' \<and>
    mp_map s' = (mp_map s)(nm := None) \<and> rev_map s' = (rev_map s)(info_key i := None) \<and>
    vs_infos s' = (vs_infos s)(vf_info f := info_released i) \<and> vs_fat s' = (vs_fat s)\<lparr> fs_disk := d \<rparr>"
  by (rule vfs_unmount_ok [OF assms])

lemma vfs_unmount_removes_witness:
  "\<exists>f s1 s2. vfs_mount_partition ex_root ex_info 0 0 [0x64, 0] ex_unmounted = Some (Inr (Some f, s1)) \<and>
    vfs_unmount_partition 0 0 2 s1 = Some (Inr (True, s2)) \<and> mounts_inv s2 \<and> mp_map s2 = Map.empty \<and> vs_infos s2 = Map.empty"
proof -
  obtain d ok info fs ok' d' where p: "mbr_read_sync 0 (uninit 512 (vs_fat ex_unmounted)) (fs_disk (vs_fat ex_unmounted)) = Inr (True, ex_mbr, d)"
    "fat32_get_info_sync (ex_info\<lparr> fi_disk := 0, fi_partition := get32 ex_mbr (446 + 16 * unat (0 :: u8) + 8) \<rparr>)
      ((vs_fat ex_unmounted)\<lparr> fs_disk := d \<rparr>) = Inr (ok, info, fs)" "disk_flush_cache_sync 0 (fs_disk fs) = Inr (ok', d')" using ex_probeD by blast
  have h: "0 \<notin> set ([0x64] :: bytes)" "length ([0x64] :: bytes) < 2 ^ 32 - 1" "mp_map ex_unmounted ([0x64] @ [0]) = None"
    "rev_map ex_unmounted (partition_key 0 0) = None" "(0 :: u8) \<le> 3" "length ex_mbr = 512"
    "ex_mbr ! (446 + 16 * unat (0 :: u8) + 4) = MBR_PARTITION_FAT32_LBA" "card (dom (mp_map ex_unmounted)) < 2 ^ 26" "card (dom (rev_map ex_unmounted)) < 2 ^ 26"
    by (simp_all add: ex_unmounted_ok ex_mbr_def put32_def MBR_PARTITION_FAT32_LBA_def nth_append)
  obtain f i s1 where m: "vfs_mount_partition ex_root ex_info 0 0 ([0x64] @ 0 # []) ex_unmounted = Some (Inr (Some f, s1))" "mounts_inv s1"
    "mp_map s1 = (mp_map ex_unmounted)([0x64] @ [0] \<mapsto> f)" "rev_map s1 = (rev_map ex_unmounted)(info_key i \<mapsto> [0x64] @ [0])"
    "vs_infos s1 = (vs_infos ex_unmounted)(vf_info f \<mapsto> i)" "vs_fat s1 = fs"
    "i = \<lparr> vi_rc = rc_init\<lparr> rc_refcount := 1 \<rparr>, vi_fat32 = info, vi_disk_id = 0, vi_partition_id = 0, vi_filesystem = VFS_FS_FAT32 \<rparr>"
    using vfs_mount_ok [OF ex_unmounted_ok(1) h(1-5) p(1) h(6,7) p(2) h(8,9), of ex_root "[]"] by blast
  have u: "mp_map s1 [0x64, 0] = Some f" "vs_infos s1 (vf_info f) = Some i" "info_key i = partition_key 0 0" "rc_refcount (vi_rc i) < 2"
    "disk_flush_cache_sync 0 (fs_disk (vs_fat s1)) = Inr (ok', d')" "card (dom (mp_map s1)) \<le> 2 ^ 26" "card (dom (rev_map s1)) \<le> 2 ^ 26"
    using p(3) by (simp_all add: m(3-6) ex_unmounted_ok) (simp_all add: m(7) info_key_def)
  obtain s2 where s2: "vfs_unmount_partition 0 0 2 s1 = Some (Inr (True, s2))" "mounts_inv s2" "mp_map s2 = (mp_map s1)([0x64, 0] := None)"
    "vs_infos s2 = (vs_infos s1)(vf_info f := info_released i)" using vfs_unmount_removes [OF m(2) u] by blast
  have "mp_map s2 = Map.empty" unfolding s2(3) m(3) by (simp add: ex_unmounted_ok)
  moreover have "vs_infos s2 = Map.empty" unfolding s2(4) m(5) by (simp add: ex_unmounted_def info_released_def m(7))
  ultimately show ?thesis using m(1) s2(1,2) by auto
qed

end
