(* ===== verification/Vfs_Stream.thy ===== *)
theory Vfs_Stream
  imports Vfs Fat_Props
begin

text \<open>
  Streams: opening a file with any flags, and the round trip of what is written to a stream.
\<close>

unbundle bit_operations_syntax

section \<open>Opening\<close>

text \<open>The guard of \<^verbatim>\<open>vfs_open\<close> refuses nothing: it compares two different bits.\<close>

lemma never_forbidden: "\<not> flags_forbidden flags"
proof -
  have "flags AND (VFS_FLAG_READ AND VFS_FLAG_OVERWRITE) = 0" "flags AND (VFS_FLAG_READ AND VFS_FLAG_APPEND) = 0"
    "flags AND (VFS_FLAG_OVERWRITE AND VFS_FLAG_APPEND) = 0"
    by (simp_all add: VFS_FLAG_READ_def VFS_FLAG_OVERWRITE_def VFS_FLAG_APPEND_def)
  then show ?thesis by (simp add: flags_forbidden_def and.assoc and.left_commute)
qed

text \<open>Reading and appending at once is accepted, though it is one of the combinations meant to be refused.\<close>

lemma vfs_open_accepts_forbidden:
  assumes "info_at s (vf_info file) = Inr i" "vi_filesystem i = VFS_FS_FAT32" "vfs_copy_file_obj file file s = Inr (ok, copy, s')"
  shows "vfs_open file (VFS_FLAG_READ OR VFS_FLAG_APPEND) s =
    Some (Inr (Some \<lparr> st_file = copy, st_position = ff_size (vf_fat32 copy), st_flags = VFS_FLAG_READ OR VFS_FLAG_APPEND \<rparr>, s'))"
  using assms by (simp add: vfs_open_def never_forbidden VFS_FLAG_READ_def VFS_FLAG_APPEND_def)

section \<open>Writing and reading back\<close>

lemma vfs_write_read_ok:
  fixes st s i
  defines "info \<equiv> vi_fat32 i" and "f \<equiv> vf_fat32 (st_file st)" and "start \<equiv> st_position st"
  assumes "vs_infos s (vf_info (st_file st)) = Some i" "vi_filesystem i = VFS_FS_FAT32"
    "st_flags st AND VFS_FLAG_READ \<noteq> 0" "st_flags st AND VFS_FLAG_WRITE \<noteq> 0"
    "fat_geom info n" "fat_ok info n (vs_fat s)" "hint_ok info (vs_fat s)" "fat_file info n (vs_fat s) f xs" "entry_ok info n (vs_fat s) f xs"
    "0 < unat k" "unat k \<le> length buf" "datetime_get (fs_io (vs_fat s)) = Inr (dt, io)"
    "unat start + unat k \<le> (length xs + (card (free_set info n (vs_fat s)) - 1)) * csize info"
    "unat start + unat k < 2 ^ 32" "ff_attributes f AND FAT32_ATTRIBUTE_DIRECTORY = 0" "unat k \<le> length out"
  shows "\<exists>st' s' st'' s''. vfs_write st buf k s = Some (Inr (True, st', s')) \<and> vfs_tell st' = start + k \<and>
    vf_size (st_file st') = max (ff_size f) (start + k) \<and>
    vfs_read (vfs_seek st' start VFS_SEEK_MODE_START) out k s' = Some (Inr (True, take (unat k) buf @ drop (unat k) out, st'', s'')) \<and>
    vfs_tell st'' = start + k"
proof -
  obtain f' fs' fs'' where 1: "fat32_write_file_sync info f start buf k (vs_fat s) = Some (Inr (True, f', fs'))"
    "fat32_read_file info f' start out k fs' = Some (Inr (True, take (unat k) buf @ drop (unat k) out, fs''))"
    "ff_size f' = max (ff_size f) (start + k)"
    using fat_write_read_ok [OF assms(8-19)] by blast
  let ?file = "vfs_fields ((st_file st)\<lparr> vf_fat32 := f' \<rparr>)"
  let ?st = "st\<lparr> st_file := ?file, st_position := start + k \<rparr>"
  let ?s = "s\<lparr> vs_fat := fs' \<rparr>"
  have w: "vfs_write st buf k s = Some (Inr (True, ?st, ?s))"
    using 1(1) assms(4,5,7) by (simp add: vfs_write_def info_at_def info_def f_def start_def vfs_update_file_obj_def)
  have fl: "vf_fat32 ?file = f'" "vf_size ?file = ff_size f'" "vf_info ?file = vf_info (st_file st)" by (simp_all add: vfs_fields_def)
  have u: "unat (start + k) = unat start + unat k" by (rule unat_plus_less [OF assms(17)])
  have "start + k \<le> ff_size f'" unfolding 1(3) by simp
  then have "unat start + unat k \<le> unat (ff_size f')" using u by (simp add: word_le_nat_alt)
  then have "unat k \<le> unat (ff_size f' - start)" by (simp add: unat_sub word_le_nat_alt)
  then have "min k (ff_size f' - start) = k" by (simp add: min_def word_le_nat_alt)
  then have "vfs_read (vfs_seek ?st start VFS_SEEK_MODE_START) out k ?s =
      Some (Inr (True, take (unat k) buf @ drop (unat k) out, ?st, ?s\<lparr> vs_fat := fs'' \<rparr>))"
    using 1(2) assms(4,5,6) by (simp add: vfs_read_def vfs_seek_def info_at_def info_def [symmetric] fl)
  then show ?thesis using w 1(3) fl(2) by (auto simp: vfs_tell_def)
qed

section \<open>A stream on a small file system\<close>

definition ex_stream_info :: vfs_info_t where
  "ex_stream_info = \<lparr> vi_rc = rc_init\<lparr> rc_refcount := 2 \<rparr>, vi_fat32 = ex_info, vi_disk_id = 0, vi_partition_id = 0, vi_filesystem = VFS_FS_FAT32 \<rparr>"

definition ex_streams :: vfs_state where
  "ex_streams = (let t = \<lparr> elements_count = 0, buff_count_index = 1, key_buff_root = [[], []], val_buff_root = [[], []] \<rparr>;
                     r = \<lparr> elements_count = 0, buff_count_index = 1, key_buff_root = [[], []], val_buff_root = [[], []] \<rparr> in
     \<lparr> vs_fat = ex_state, vs_infos = [0 \<mapsto> ex_stream_info], vs_next = 1, vs_mountpoints = t, vs_mountpoints_rev = r \<rparr>)"

definition ex_stream :: vfs_stream_t where
  "ex_stream = \<lparr> st_file = vfs_fields (raw_file ex_file 0), st_position = 1000, st_flags = VFS_FLAG_READ OR VFS_FLAG_WRITE \<rparr>"

section \<open>Properties\<close>

text \<open>C36: What is written to a stream on a regular file is read back from it after seeking to where the write began: the
  write advances the position by its size and grows the file to hold it, and the read returns the bytes written.\<close>

lemma vfs_write_then_read:
  assumes "info = vi_fat32 i" "f = vf_fat32 (st_file st)" "start = st_position st"
    "vs_infos s (vf_info (st_file st)) = Some i" "vi_filesystem i = VFS_FS_FAT32"
    "st_flags st AND VFS_FLAG_READ \<noteq> 0" "st_flags st AND VFS_FLAG_WRITE \<noteq> 0"
    "fat_geom info n" "fat_ok info n (vs_fat s)" "hint_ok info (vs_fat s)" "fat_file info n (vs_fat s) f xs" "entry_ok info n (vs_fat s) f xs"
    "0 < unat k" "unat k \<le> length buf" "datetime_get (fs_io (vs_fat s)) = Inr (dt, io)"
    "unat start + unat k \<le> (length xs + (card (free_set info n (vs_fat s)) - 1)) * csize info"
    "unat start + unat k < 2 ^ 32" "ff_attributes f AND FAT32_ATTRIBUTE_DIRECTORY = 0" "unat k \<le> length out"
  shows "\<exists>st' s' st'' s''. vfs_write st buf k s = Some (Inr (True, st', s')) \<and> vfs_tell st' = start + k \<and>
    vf_size (st_file st') = max (ff_size f) (start + k) \<and>
    vfs_read (vfs_seek st' start VFS_SEEK_MODE_START) out k s' = Some (Inr (True, take (unat k) buf @ drop (unat k) out, st'', s'')) \<and>
    vfs_tell st'' = start + k"
  unfolding assms(2,3) by (rule vfs_write_read_ok [OF assms(4-19) [unfolded assms(1-3)]])

lemma vfs_write_then_read_witness:
  "\<exists>st' s' st'' s''. vfs_write ex_stream (replicate 600 9) 600 ex_streams = Some (Inr (True, st', s')) \<and> vf_size (st_file st') = 1600 \<and>
    vfs_read (vfs_seek st' 1000 VFS_SEEK_MODE_START) (replicate 600 0) 600 s' = Some (Inr (True, replicate 600 9, st'', s''))"
proof -
  obtain io where io: "datetime_get (fs_io (vs_fat ex_streams)) =
      Inr (\<lparr> year = 2025, month = 11, day = 9, hour = 23, minute = 30, second = 7 \<rparr>, io)" using ex_clock by (auto simp: ex_streams_def)
  have fs: "vs_fat ex_streams = ex_state" by (simp add: ex_streams_def)
  have st: "vs_infos ex_streams (vf_info (st_file ex_stream)) = Some ex_stream_info" "vi_filesystem ex_stream_info = VFS_FS_FAT32"
    "st_flags ex_stream AND VFS_FLAG_READ \<noteq> 0" "st_flags ex_stream AND VFS_FLAG_WRITE \<noteq> 0" "ex_info = vi_fat32 ex_stream_info"
    "ex_file = vf_fat32 (st_file ex_stream)" "1000 = st_position ex_stream"
    by (simp_all add: ex_streams_def ex_stream_def ex_stream_info_def vfs_fields_def raw_file_def VFS_FLAG_READ_def VFS_FLAG_WRITE_def)
  have f: "fat_ok ex_info 8 (vs_fat ex_streams)" "hint_ok ex_info (vs_fat ex_streams)" "fat_file ex_info 8 (vs_fat ex_streams) ex_file [3, 4]"
    "entry_ok ex_info 8 (vs_fat ex_streams) ex_file [3, 4]" "card (free_set ex_info 8 (vs_fat ex_streams)) = 3"
    unfolding fs using ex_ok ex_file_ok by blast+
  have h: "0 < unat (600 :: u32)" "unat (600 :: u32) \<le> length (replicate 600 (9 :: u8))"
    "unat (1000 :: u32) + unat (600 :: u32) \<le> (length [3 :: u32, 4] + (card (free_set ex_info 8 (vs_fat ex_streams)) - 1)) * csize ex_info"
    "unat (1000 :: u32) + unat (600 :: u32) < 2 ^ 32" "ff_attributes ex_file AND FAT32_ATTRIBUTE_DIRECTORY = 0"
    "unat (600 :: u32) \<le> length (replicate 600 (0 :: u8))"
    unfolding f(5) ex_file_ok(5) by (simp_all add: ex_file_def FAT32_ATTRIBUTE_DIRECTORY_def)
  have sz: "max (ff_size ex_file) (1000 + 600) = 1600" by (simp add: ex_file_def)
  from vfs_write_then_read [OF st(5-7,1-4) ex_geom f(1-4) h(1,2) io h(3-6), unfolded sz] show ?thesis
    by (elim exE conjE) (intro exI conjI, assumption, assumption, simp)
qed

end
