(* ===== verification/Printf.thy ===== *)
theory Printf
  imports Strings
begin

text \<open>
  The formatted output of \<^verbatim>\<open>gui/konsole.c\<close>.  A function here yields the characters it passes to
  \<^verbatim>\<open>konsole_putch\<close>, in order.  The variable arguments are the 32-bit words behind the format on the
  stack; a 64-bit argument is two of them, the lower half first.  \<open>strs\<close> gives the bytes from an
  address on.  C's \<^verbatim>\<open>int\<close> is an integer here; a result out of its range is a fault.
\<close>

unbundle bit_operations_syntax

lemma rbind_cong [fundef_cong]: "m = n \<Longrightarrow> (\<And>x. n = Inr x \<Longrightarrow> f x = g x) \<Longrightarrow> rbind m f = rbind n g"
  by (cases n) auto

section \<open>Integers\<close>

definition nibble_char :: "bool \<Rightarrow> nat \<Rightarrow> u8" where
  "nibble_char uppercase d =
     (if uppercase then [0x30, 0x31, 0x32, 0x33, 0x34, 0x35, 0x36, 0x37, 0x38, 0x39, 0x41, 0x42, 0x43, 0x44, 0x45, 0x46]
      else [0x30, 0x31, 0x32, 0x33, 0x34, 0x35, 0x36, 0x37, 0x38, 0x39, 0x61, 0x62, 0x63, 0x64, 0x65, 0x66]) ! d"

text \<open>\<^verbatim>\<open>buffer[len++] = c\<close> in a buffer of \<open>room\<close> characters.\<close>

definition put_digit :: "nat \<Rightarrow> u8 \<Rightarrow> bytes \<Rightarrow> bytes res" where
  "put_digit room c buffer = (if length buffer < room then Inr (buffer @ [c]) else Inl Out_Of_Bounds)"

function uint_digits :: "u32 \<Rightarrow> u32 \<Rightarrow> bool \<Rightarrow> bytes \<Rightarrow> bytes res" where
  "uint_digits value base uppercase buffer =
     (if base < 2 then Inl (Undefined ''base'')
      else if 16 < base then Inl Out_Of_Bounds
      else
        rbind (put_digit 32 (nibble_char uppercase (unat (value mod base))) buffer) (\<lambda>buffer.
        let value = value div base in
        if value \<noteq> 0 then uint_digits value base uppercase buffer else Inr buffer))"
  by pat_completeness auto

termination
proof (relation "measure (\<lambda>(n, _). unat n)", goal_cases)
  case (2 n b u buf buf' m)
  then have "2 \<le> unat b" by (simp add: word_le_nat_alt not_less)
  moreover have "n \<noteq> 0" using 2(4,5) by auto
  then have "0 < unat n" by (simp add: unat_gt_0)
  ultimately show ?case unfolding 2(4) by (simp add: unat_div)
qed simp

declare uint_digits.simps [simp del]

text \<open>\<^verbatim>\<open>while (len < precision)\<close>.\<close>

function pad_zeros :: "nat \<Rightarrow> int \<Rightarrow> bytes \<Rightarrow> bytes res" where
  "pad_zeros room precision buffer =
     (if int (length buffer) < precision then rbind (put_digit room 0x30 buffer) (pad_zeros room precision) else Inr buffer)"
  by pat_completeness auto

termination
  by (relation "measure (\<lambda>(room, precision, buffer). nat (precision - int (length buffer)))") (auto simp: put_digit_def split: if_splits)

declare pad_zeros.simps [simp del]

text \<open>\<^verbatim>\<open>for (int i = from; i < width; i++) konsole_putch(c)\<close>.\<close>

definition fill :: "int \<Rightarrow> int \<Rightarrow> u8 \<Rightarrow> bytes" where
  "fill from width c = replicate (nat (width - from)) c"

definition konsole_put_uint32 ::
    "u32 \<Rightarrow> u32 \<Rightarrow> bool \<Rightarrow> int \<Rightarrow> int \<Rightarrow> bool \<Rightarrow> bool \<Rightarrow> bool \<Rightarrow> u8 \<Rightarrow> bytes res" where
  "konsole_put_uint32 value base uppercase width precision left zero_pad alternate sign =
     rbind (if value = 0 \<and> precision = 0 then Inr [] else uint_digits value base uppercase []) (\<lambda>buffer.
     rbind (pad_zeros 32 precision buffer) (\<lambda>buffer.
     let len = int (length buffer);
         prefix_len = (if alternate \<and> len > 0 then if base = 16 then 2 else if base = 8 then 1 else 0 else 0);
         sign_len = (if sign \<noteq> 0 then 1 else 0);
         total = sign_len + prefix_len + len;
         use_zero = (zero_pad \<and> \<not> left \<and> precision < 0);
         sign_out = (if sign \<noteq> 0 then [sign] else []);
         prefix_out = (if prefix_len \<noteq> 0 then if base = 16 then [0x30, if uppercase then 0x58 else 0x78] else if base = 8 then [0x30] else [] else [])
     in
       if use_zero then Inr (sign_out @ prefix_out @ fill total width 0x30 @ rev buffer)
       else Inr ((if \<not> left then fill total width 0x20 else []) @ sign_out @ prefix_out @ rev buffer @
                 (if left then fill total width 0x20 else []))))"

definition konsole_put_int32 :: "i32 \<Rightarrow> int \<Rightarrow> int \<Rightarrow> bool \<Rightarrow> bool \<Rightarrow> bool \<Rightarrow> bool \<Rightarrow> bytes res" where
  "konsole_put_int32 value width precision left zero_pad plus_sign space =
     (let (sign, magnitude) =
        (if value <s 0 then (0x2D, - (value + 1) + 1) else (if plus_sign then 0x2B else if space then 0x20 else 0, value))
      in konsole_put_uint32 magnitude 10 False width precision left zero_pad False sign)"

section \<open>Strings and 64-bit numbers\<close>

fun string_length :: "bytes \<Rightarrow> int \<Rightarrow> int \<Rightarrow> int res" where
  "string_length [] precision len = Inl Out_Of_Bounds"
| "string_length (c # cs) precision len =
     (if c = 0 then Inr len else if 0 \<le> precision \<and> precision \<le> len then Inr len else string_length cs precision (len + 1))"

definition konsole_put_string :: "bytes option \<Rightarrow> int \<Rightarrow> int \<Rightarrow> bool \<Rightarrow> bytes res" where
  "konsole_put_string str width precision left =
     (let str = (case str of None \<Rightarrow> [0x28, 0x6E, 0x75, 0x6C, 0x6C, 0x29, 0] | Some s \<Rightarrow> s) in
      rbind (string_length str precision 0) (\<lambda>len.
      Inr ((if \<not> left then fill len width 0x20 else []) @ take (nat len) str @ (if left then fill len width 0x20 else []))))"

function hex_digits :: "u32 \<Rightarrow> bool \<Rightarrow> bytes \<Rightarrow> bytes res" where
  "hex_digits value uppercase buffer =
     (if value \<noteq> 0 then
        rbind (put_digit 16 (nibble_char uppercase (unat (value AND 0xF))) buffer) (hex_digits (drop_bit 4 value) uppercase)
      else Inr buffer)"
  by pat_completeness auto

termination
  by (relation "measure (\<lambda>(value, _). unat value)") (auto simp: drop_bit_eq_div unat_div unat_gt_0)

declare hex_digits.simps [simp del]

definition konsole_put_hex64 :: "u32 \<Rightarrow> u32 \<Rightarrow> bool \<Rightarrow> int \<Rightarrow> int \<Rightarrow> bool \<Rightarrow> bool \<Rightarrow> bytes res" where
  "konsole_put_hex64 high low uppercase width precision left alternate =
     rbind (hex_digits low uppercase []) (\<lambda>buffer.
     rbind (hex_digits high uppercase buffer) (\<lambda>buffer.
     rbind (if buffer = [] \<and> precision \<noteq> 0 then put_digit 16 0x30 buffer else Inr buffer) (\<lambda>buffer.
     rbind (pad_zeros 16 precision buffer) (\<lambda>buffer.
     let len = int (length buffer);
         prefix_len = (if alternate \<and> len > 0 then 2 else 0);
         total = len + prefix_len
     in Inr ((if \<not> left then fill total width 0x20 else []) @
             (if prefix_len \<noteq> 0 then [0x30, if uppercase then 0x58 else 0x78] else []) @ rev buffer @
             (if left then fill total width 0x20 else []))))))"

section \<open>The format\<close>

record fmt_flags =
  fl_left :: bool
  fl_plus :: bool
  fl_space :: bool
  fl_zero :: bool
  fl_alternate :: bool

fun flags_loop :: "bytes \<Rightarrow> fmt_flags \<Rightarrow> (fmt_flags \<times> bytes) res" where
  "flags_loop [] fl = Inl Out_Of_Bounds"
| "flags_loop (c # cs) fl =
     (if c = 0x2D then flags_loop cs (fl\<lparr> fl_left := True \<rparr>)
      else if c = 0x2B then flags_loop cs (fl\<lparr> fl_plus := True \<rparr>)
      else if c = 0x20 then flags_loop cs (fl\<lparr> fl_space := True \<rparr>)
      else if c = 0x30 then flags_loop cs (fl\<lparr> fl_zero := True \<rparr>)
      else if c = 0x23 then flags_loop cs (fl\<lparr> fl_alternate := True \<rparr>)
      else Inr (fl, c # cs))"

fun number_loop :: "bytes \<Rightarrow> int \<Rightarrow> (int \<times> bytes) res" where
  "number_loop [] n = Inl Out_Of_Bounds"
| "number_loop (c # cs) n =
     (if 0x30 \<le> c \<and> c \<le> 0x39 then
        let n = n * 10 + (uint c - 0x30) in
        if n < 2 ^ 31 then number_loop cs n else Inl (Undefined ''signed overflow'')
      else Inr (n, c # cs))"

definition va_word :: "u32 list \<Rightarrow> (u32 \<times> u32 list) res" where
  "va_word args = (case args of [] \<Rightarrow> Inl (Undefined ''va_arg'') | w # ws \<Rightarrow> Inr (w, ws))"

text \<open>The lower half and the upper half.\<close>

definition va_long_long :: "u32 list \<Rightarrow> (u32 \<times> u32 \<times> u32 list) res" where
  "va_long_long args = rbind (va_word args) (\<lambda>(low, args). rbind (va_word args) (\<lambda>(high, args). Inr (low, high, args)))"

definition peek :: "bytes \<Rightarrow> u8 res" where
  "peek fmt = (case fmt of [] \<Rightarrow> Inl Out_Of_Bounds | c # _ \<Rightarrow> Inr c)"

definition parse_width :: "bytes \<Rightarrow> fmt_flags \<Rightarrow> u32 list \<Rightarrow> (int \<times> fmt_flags \<times> bytes \<times> u32 list) res" where
  "parse_width fmt fl args =
     rbind (peek fmt) (\<lambda>c.
     if c = 0x2A then
       rbind (va_word args) (\<lambda>(w, args).
       let width = sint w in
       if width < 0 then
         if width = - (2 ^ 31) then Inl (Undefined ''signed overflow'')
         else Inr (- width, fl\<lparr> fl_left := True \<rparr>, tl fmt, args)
       else Inr (width, fl, tl fmt, args))
     else rbind (number_loop fmt 0) (\<lambda>(width, fmt). Inr (width, fl, fmt, args)))"

definition parse_precision :: "bytes \<Rightarrow> fmt_flags \<Rightarrow> u32 list \<Rightarrow> (int \<times> fmt_flags \<times> bytes \<times> u32 list) res" where
  "parse_precision fmt fl args =
     rbind (peek fmt) (\<lambda>c.
     if c = 0x2E then
       rbind (peek (tl fmt)) (\<lambda>c.
       if c = 0x2A then
         rbind (va_word args) (\<lambda>(w, args).
         Inr (if sint w < 0 then - 1 else sint w, fl\<lparr> fl_zero := False \<rparr>, tl (tl fmt), args))
       else rbind (number_loop (tl fmt) 0) (\<lambda>(precision, fmt). Inr (precision, fl\<lparr> fl_zero := False \<rparr>, fmt, args)))
     else Inr (- 1, fl, fmt, args))"

datatype fmt_length = LENGTH_NONE | LENGTH_HH | LENGTH_H | LENGTH_L | LENGTH_LL | LENGTH_Z | LENGTH_J | LENGTH_T

definition parse_length :: "bytes \<Rightarrow> (fmt_length \<times> bytes) res" where
  "parse_length fmt =
     rbind (peek fmt) (\<lambda>c.
     if c = 0x68 then
       rbind (peek (tl fmt)) (\<lambda>d. Inr (if d = 0x68 then (LENGTH_HH, tl (tl fmt)) else (LENGTH_H, tl fmt)))
     else if c = 0x6C then
       rbind (peek (tl fmt)) (\<lambda>d. Inr (if d = 0x6C then (LENGTH_LL, tl (tl fmt)) else (LENGTH_L, tl fmt)))
     else if c = 0x7A then Inr (LENGTH_Z, tl fmt)
     else if c = 0x6A then Inr (LENGTH_J, tl fmt)
     else if c = 0x74 then Inr (LENGTH_T, tl fmt)
     else Inr (LENGTH_NONE, fmt))"

text \<open>\<^verbatim>\<open>[%lld unsupported]\<close> and \<^verbatim>\<open>[%llu unsupported]\<close>.\<close>

definition unsupported :: "u8 \<Rightarrow> bytes" where
  "unsupported c =
     [0x5B, 0x25, 0x6C, 0x6C, c, 0x20, 0x75, 0x6E, 0x73, 0x75, 0x70, 0x70, 0x6F, 0x72, 0x74, 0x65, 0x64, 0x5D, 0]"

definition conversion ::
    "(u32 \<Rightarrow> bytes) \<Rightarrow> u8 \<Rightarrow> fmt_flags \<Rightarrow> int \<Rightarrow> int \<Rightarrow> fmt_length \<Rightarrow> u32 list \<Rightarrow> (bytes \<times> u32 list) res" where
  "conversion strs c fl width precision len args =
     (if c = 0x64 \<or> c = 0x69 then
        if len = LENGTH_LL then
          rbind (va_long_long args) (\<lambda>(_, _, args).
          rbind (konsole_put_string (Some (unsupported 0x64)) 0 (- 1) False) (\<lambda>text. Inr (text, args)))
        else
          rbind (va_word args) (\<lambda>(w, args).
          rbind (konsole_put_int32 w width precision (fl_left fl) (fl_zero fl) (fl_plus fl) (fl_space fl)) (\<lambda>text. Inr (text, args)))
      else if c = 0x75 then
        if len = LENGTH_LL then
          rbind (va_long_long args) (\<lambda>(_, _, args).
          rbind (konsole_put_string (Some (unsupported 0x75)) 0 (- 1) False) (\<lambda>text. Inr (text, args)))
        else
          rbind (va_word args) (\<lambda>(w, args).
          rbind (konsole_put_uint32 w 10 False width precision (fl_left fl) (fl_zero fl) False 0) (\<lambda>text. Inr (text, args)))
      else if c = 0x78 \<or> c = 0x58 then
        if len = LENGTH_LL then
          rbind (va_long_long args) (\<lambda>(low, high, args).
          rbind (konsole_put_hex64 high low (c = 0x58) width precision (fl_left fl) (fl_alternate fl)) (\<lambda>text. Inr (text, args)))
        else
          rbind (va_word args) (\<lambda>(w, args).
          rbind (konsole_put_uint32 w 16 (c = 0x58) width precision (fl_left fl) (fl_zero fl) (fl_alternate fl) 0) (\<lambda>text. Inr (text, args)))
      else if c = 0x6F then
        rbind (va_word args) (\<lambda>(w, args).
        rbind (konsole_put_uint32 w 8 False width precision (fl_left fl) (fl_zero fl) (fl_alternate fl) 0) (\<lambda>text. Inr (text, args)))
      else if c = 0x63 then
        rbind (va_word args) (\<lambda>(w, args).
        Inr ((if \<not> fl_left fl then fill 1 width 0x20 else []) @ [ucast w] @ (if fl_left fl then fill 1 width 0x20 else []), args))
      else if c = 0x73 then
        rbind (va_word args) (\<lambda>(w, args).
        rbind (konsole_put_string (if w = 0 then None else Some (strs w)) width precision (fl_left fl)) (\<lambda>text. Inr (text, args)))
      else if c = 0x70 then
        rbind (va_word args) (\<lambda>(w, args).
        rbind (konsole_put_uint32 w 16 False 8 8 False True False 0) (\<lambda>text. Inr ([0x30, 0x78] @ text, args)))
      else Inr (0x25 # (if c \<noteq> 0 then [c] else []), args))"

text \<open>The part of a format behind \<^verbatim>\<open>%\<close>: the output, the arguments left and the format left.\<close>

definition directive :: "(u32 \<Rightarrow> bytes) \<Rightarrow> bytes \<Rightarrow> u32 list \<Rightarrow> (bytes \<times> u32 list \<times> bytes) res" where
  "directive strs fmt args =
     rbind (peek fmt) (\<lambda>c.
     if c = 0x25 then Inr ([0x25], args, tl fmt)
     else
       rbind (flags_loop fmt \<lparr> fl_left = False, fl_plus = False, fl_space = False, fl_zero = False, fl_alternate = False \<rparr>) (\<lambda>(fl, fmt).
       rbind (parse_width fmt fl args) (\<lambda>(width, fl, fmt, args).
       rbind (parse_precision fmt fl args) (\<lambda>(precision, fl, fmt, args).
       rbind (parse_length fmt) (\<lambda>(len, fmt).
       rbind (peek fmt) (\<lambda>c.
       rbind (conversion strs c fl width precision len args) (\<lambda>(text, args).
       Inr (text, args, if c \<noteq> 0 then tl fmt else fmt))))))))"

section \<open>The parser takes characters off the format\<close>

lemma flags_loop_length: "flags_loop fmt fl = Inr (fl', fmt') \<Longrightarrow> length fmt' \<le> length fmt"
  by (induction fmt fl rule: flags_loop.induct) (auto split: if_splits)

lemma number_loop_length: "number_loop fmt n = Inr (n', fmt') \<Longrightarrow> length fmt' \<le> length fmt"
  by (induction fmt n rule: number_loop.induct) (auto simp: Let_def split: if_splits)

lemma parse_width_length: "parse_width fmt fl args = Inr (w, fl', fmt', args') \<Longrightarrow> length fmt' \<le> length fmt"
  by (auto simp: parse_width_def rbind_eq_Inr Let_def dest: number_loop_length split: if_splits)

lemma parse_precision_length: "parse_precision fmt fl args = Inr (w, fl', fmt', args') \<Longrightarrow> length fmt' \<le> length fmt"
  by (auto simp: parse_precision_def rbind_eq_Inr Let_def dest: number_loop_length split: if_splits)

lemma parse_length_length: "parse_length fmt = Inr (l, fmt') \<Longrightarrow> length fmt' \<le> length fmt"
  by (auto simp: parse_length_def rbind_eq_Inr split: if_splits)

lemma directive_length: "directive strs fmt args = Inr (text, args', fmt') \<Longrightarrow> length fmt' \<le> length fmt"
  by (auto simp: directive_def rbind_eq_Inr split: if_splits
      dest!: flags_loop_length parse_width_length parse_precision_length parse_length_length)

function konsole_vprintf :: "(u32 \<Rightarrow> bytes) \<Rightarrow> bytes \<Rightarrow> u32 list \<Rightarrow> bytes res" where
  "konsole_vprintf strs [] args = Inl Out_Of_Bounds"
| "konsole_vprintf strs (c # cs) args =
     (if c = 0 then Inr []
      else if c \<noteq> 0x25 then rbind (konsole_vprintf strs cs args) (\<lambda>text. Inr (c # text))
      else
        rbind (directive strs cs args) (\<lambda>(out, args, cs).
        rbind (konsole_vprintf strs cs args) (\<lambda>text. Inr (out @ text))))"
  by pat_completeness auto

termination
  by (relation "measure (\<lambda>(_, fmt, _). length fmt)") (auto dest: directive_length)

definition konsole_printf :: "(u32 \<Rightarrow> bytes) \<Rightarrow> bytes \<Rightarrow> u32 list \<Rightarrow> bytes res" where
  "konsole_printf strs fmt args = konsole_vprintf strs fmt args"

end
