(* ===== verification/Printf_Correct.thy ===== *)
theory Printf_Correct
  imports Printf
begin

text \<open>
  The formatted output against a reference: numerals of a number in a base, fields of a width, and a
  format as a list of pieces, whose text the parser of the code reads back.
\<close>

unbundle bit_operations_syntax

section \<open>Numerals\<close>

function numeral_text :: "nat \<Rightarrow> bool \<Rightarrow> nat \<Rightarrow> bytes" where
  "numeral_text b uppercase n =
     (if b < 2 \<or> n < b then [nibble_char uppercase n] else numeral_text b uppercase (n div b) @ [nibble_char uppercase (n mod b)])"
  by pat_completeness auto

termination
  by (relation "measure (\<lambda>(b, u, n). n)") auto

declare numeral_text.simps [simp del]

lemma numeral_text_not_Nil [simp]: "numeral_text b u n \<noteq> []"
  by (subst numeral_text.simps) simp

lemma numeral_text_length: "2 \<le> b \<Longrightarrow> 0 < k \<Longrightarrow> n < 2 ^ k \<Longrightarrow> length (numeral_text b u n) \<le> k"
proof (induction k arbitrary: n)
  case (Suc k)
  show ?case
  proof (cases "n < b")
    case False
    have "n div b \<le> n div 2" using Suc.prems(1) by (simp add: div_le_mono2)
    then have s: "n div b < 2 ^ k" using Suc.prems(3) by simp
    moreover have "n div b \<noteq> 0" using False Suc.prems(1) by (simp add: div_eq_0_iff)
    ultimately have "0 < k" by (cases k) auto
    then show ?thesis using Suc.IH [OF Suc.prems(1) _ s] False Suc.prems(1) by (subst numeral_text.simps) simp
  qed (subst numeral_text.simps, simp)
qed simp

text \<open>Reading a numeral back.\<close>

definition digit_value :: "u8 \<Rightarrow> nat" where
  "digit_value c = (if c \<le> 0x39 then unat c - 0x30 else if c \<le> 0x46 then unat c - 0x37 else unat c - 0x57)"

definition numeral_value :: "nat \<Rightarrow> bytes \<Rightarrow> nat" where
  "numeral_value b cs = foldl (\<lambda>n c. n * b + digit_value c) 0 cs"

lemma less_16: "d < 16 \<Longrightarrow> d \<in> {0, 1, 2, 3, 4, 5, 6, 7, 8, 9, 10, 11, 12, 13, 14, 15 :: nat}"
  unfolding insert_iff empty_iff by presburger

lemma digit_value_char: "d < 16 \<Longrightarrow> digit_value (nibble_char u d) = d"
  by (drule less_16, elim insertE emptyE) (simp_all add: nibble_char_def digit_value_def)

lemma numeral_value_text: "2 \<le> b \<Longrightarrow> b \<le> 16 \<Longrightarrow> numeral_value b (numeral_text b u n) = n"
proof (induction n rule: less_induct)
  case (less n)
  show ?case
  proof (cases "n < b")
    case True
    then show ?thesis using less.prems by (subst numeral_text.simps) (simp add: numeral_value_def digit_value_char)
  next
    case False
    then have "n div b < n" using less.prems by simp
    moreover have "n mod b < 16" using less.prems mod_less_divisor [of b n] by linarith
    ultimately show ?thesis using less False by (subst numeral_text.simps) (simp add: numeral_value_def digit_value_char)
  qed
qed

lemma uint_digits_ok:
  assumes "2 \<le> unat base" "unat base \<le> 16" "length buffer + length (numeral_text (unat base) u (unat v)) \<le> 32"
  shows "uint_digits v base u buffer = Inr (buffer @ rev (numeral_text (unat base) u (unat v)))"
  using assms
proof (induction v base u buffer rule: uint_digits.induct)
  case (1 v base u buffer)
  let ?b = "unat base"
  have g: "\<not> base < 2" "\<not> 16 < base" using 1(2,3) by (simp_all add: word_less_nat_alt)
  have n: "unat (v mod base) = unat v mod ?b" "unat (v div base) = unat v div ?b" by (simp_all add: unat_mod unat_div)
  have "0 < length (numeral_text ?b u (unat v))" by simp
  then have "length buffer < 32" using 1(4) by linarith
  then have p: "put_digit 32 (nibble_char u (unat (v mod base))) buffer = Inr (buffer @ [nibble_char u (unat v mod ?b)])"
    by (simp add: put_digit_def n)
  show ?case
  proof (cases "unat v < ?b")
    case True
    then have "v div base = 0" using n(2) by (simp add: word_unat_eq_iff)
    then show ?thesis using g p True by (subst uint_digits.simps, subst numeral_text.simps) simp
  next
    case False
    then have "unat (v div base) \<noteq> 0" using 1(2) unfolding n(2) by (simp add: div_eq_0_iff)
    then have nz: "v div base \<noteq> 0" by auto
    have t: "numeral_text ?b u (unat v) = numeral_text ?b u (unat v div ?b) @ [nibble_char u (unat v mod ?b)]"
      using False 1(2) by (subst numeral_text.simps) simp
    have l: "length (buffer @ [nibble_char u (unat v mod ?b)]) + length (numeral_text ?b u (unat (v div base))) \<le> 32"
      using 1(4) unfolding t n(2) by simp
    show ?thesis using 1(1) [OF g p refl nz 1(2,3) l] g p nz
      by (subst uint_digits.simps) (simp add: t n(2))
  qed
qed

lemma pad_zeros_ok:
  "length buffer \<le> room \<Longrightarrow> precision \<le> int room \<Longrightarrow>
   pad_zeros room precision buffer = Inr (buffer @ replicate (nat (precision - int (length buffer))) 0x30)"
proof (induction room precision buffer rule: pad_zeros.induct)
  case (1 room precision buffer)
  show ?case
  proof (cases "int (length buffer) < precision")
    case True
    have l: "length buffer < room" using True 1(3) by linarith
    have s: "nat (precision - int (length buffer)) = Suc (nat (precision - int (length (buffer @ [0x30]))))" using True by simp
    have "put_digit room 0x30 buffer = Inr (buffer @ [0x30])" using l by (simp add: put_digit_def)
    then show ?thesis using 1(1) [of "buffer @ [0x30]"] True l 1(3) unfolding s by (subst pad_zeros.simps) simp
  next
    case False
    then show ?thesis by (subst pad_zeros.simps) simp
  qed
qed

section \<open>Fields\<close>

text \<open>The digits of a number with at least \<open>prec\<close> of them; zero with precision zero has none.\<close>

definition number_text :: "nat \<Rightarrow> bool \<Rightarrow> nat \<Rightarrow> nat option \<Rightarrow> bytes" where
  "number_text b uppercase n prec =
     (let ds = (if n = 0 \<and> prec = Some 0 then [] else numeral_text b uppercase n) in
      replicate ((case prec of None \<Rightarrow> 0 | Some p \<Rightarrow> p) - length ds) 0x30 @ ds)"

text \<open>A number in a field: spaces on one side, or zeros between the prefix and the digits.\<close>

definition number_field :: "bytes \<Rightarrow> bytes \<Rightarrow> int \<Rightarrow> bool \<Rightarrow> bool \<Rightarrow> bytes" where
  "number_field prefix digits width left zeros =
     (let pad = nat (width - int (length prefix + length digits)) in
      if left then prefix @ digits @ replicate pad 0x20
      else if zeros then prefix @ replicate pad 0x30 @ digits
      else replicate pad 0x20 @ prefix @ digits)"

definition prec_int :: "nat option \<Rightarrow> int" where
  "prec_int prec = (case prec of None \<Rightarrow> - 1 | Some p \<Rightarrow> int p)"

definition prec_ok :: "nat \<Rightarrow> nat option \<Rightarrow> bool" where
  "prec_ok room prec \<longleftrightarrow> (case prec of None \<Rightarrow> True | Some p \<Rightarrow> p \<le> room)"

definition base_prefix :: "nat \<Rightarrow> bool \<Rightarrow> bytes" where
  "base_prefix b uppercase = (if b = 16 then [0x30, if uppercase then 0x58 else 0x78] else if b = 8 then [0x30] else [])"

definition uint_field :: "nat \<Rightarrow> bool \<Rightarrow> bool \<Rightarrow> bytes \<Rightarrow> nat \<Rightarrow> int \<Rightarrow> nat option \<Rightarrow> bool \<Rightarrow> bool \<Rightarrow> bytes" where
  "uint_field b uppercase alternate sign n width prec left zeros =
     (let ds = number_text b uppercase n prec in
      number_field (sign @ (if alternate \<and> ds \<noteq> [] then base_prefix b uppercase else [])) ds width left (zeros \<and> prec = None))"

lemma put_uint32_ok:
  assumes "2 \<le> unat base" "unat base \<le> 16" "prec_ok 32 prec"
  shows "konsole_put_uint32 v base u width (prec_int prec) left zeros alternate sign =
    Inr (uint_field (unat base) u alternate (if sign = 0 then [] else [sign]) (unat v) width prec left zeros)"
proof -
  let ?ds = "number_text (unat base) u (unat v) prec"
  let ?n = "if unat v = 0 \<and> prec = Some 0 then [] else numeral_text (unat base) u (unat v)"
  have l: "length (numeral_text (unat base) u (unat v)) \<le> 32"
    using numeral_text_length [OF assms(1), of 32 "unat v" u] unat_less_2p32 [of v] by simp
  have z: "(v = 0 \<and> prec_int prec = 0) = (unat v = 0 \<and> prec = Some 0)"
    by (auto simp: prec_int_def unat_eq_0 split: option.splits)
  have d: "(if v = 0 \<and> prec_int prec = 0 then Inr [] else uint_digits v base u []) = Inr (rev ?n)"
    unfolding z using uint_digits_ok [OF assms(1,2), of "[]" u v] l by simp
  have "pad_zeros 32 (prec_int prec) (rev ?n) = Inr (rev ?n @ replicate (nat (prec_int prec - int (length (rev ?n)))) 0x30)"
    using l assms(3) by (intro pad_zeros_ok) (auto simp: prec_int_def prec_ok_def split: option.splits)
  also have "nat (prec_int prec - int (length (rev ?n))) = (case prec of None \<Rightarrow> 0 | Some p \<Rightarrow> p) - length ?n"
    by (auto simp: prec_int_def split: option.splits)
  finally have p: "pad_zeros 32 (prec_int prec) (rev ?n) = Inr (rev ?ds)"
    by (simp add: number_text_def Let_def)
  have pi: "prec_int prec < 0 \<longleftrightarrow> prec = None" by (simp add: prec_int_def split: option.splits)
  have b: "base = 16 \<longleftrightarrow> unat base = 16" "base = 8 \<longleftrightarrow> unat base = 8" by (simp_all add: word_unat_eq_iff)
  show ?thesis unfolding konsole_put_uint32_def d p rbind.simps pi b
    by (simp add: uint_field_def number_field_def Let_def fill_def base_prefix_def add_ac)
qed

text \<open>Signed numbers: the sign, and the magnitude also of the least one.\<close>

lemma uint_of_int_32: "0 \<le> k \<Longrightarrow> k < 2 ^ 32 \<Longrightarrow> v = word_of_int k \<Longrightarrow> unat (v :: u32) = nat k"
  by (simp add: unat_eq_nat_uint uint_word_of_int)

lemma unat_magnitude:
  fixes v :: i32
  assumes "v <s 0"
  shows "unat (- v) = nat (- sint v)"
proof (rule uint_of_int_32)
  show "0 \<le> - sint v" using assms by (simp add: word_sless_alt)
  show "- sint v < 2 ^ 32" using sint_greater_eq [of v] by simp
qed simp

lemma unat_nonneg:
  fixes v :: i32
  assumes "\<not> v <s 0"
  shows "unat v = nat (sint v)"
proof (rule uint_of_int_32)
  show "0 \<le> sint v" using assms by (simp add: word_sless_alt)
  show "sint v < 2 ^ 32" using sint_less [of v] by simp
qed simp

definition sign_text :: "int \<Rightarrow> bool \<Rightarrow> bool \<Rightarrow> bytes" where
  "sign_text n plus_sign space = (if n < 0 then [0x2D] else if plus_sign then [0x2B] else if space then [0x20] else [])"

lemma put_int32_ok:
  assumes "prec_ok 32 prec"
  shows "konsole_put_int32 v width (prec_int prec) left zeros plus_sign space =
    Inr (uint_field 10 False False (sign_text (sint v) plus_sign space) (nat \<bar>sint v\<bar>) width prec left zeros)"
proof (cases "v <s 0")
  case True
  then have "sint v < 0" by (simp add: word_sless_alt)
  then show ?thesis using True unat_magnitude [OF True] put_uint32_ok [where base = 10 and prec = prec and v = "- v" and sign = "0x2D"] assms
    by (simp add: konsole_put_int32_def sign_text_def)
next
  case False
  then have n: "0 \<le> sint v" by (simp add: word_sless_alt)
  then have a: "nat (sint v) = unat v" using unat_nonneg [OF False] by simp
  show ?thesis using False n assms put_uint32_ok [where base = 10 and prec = prec and v = v]
    by (simp add: konsole_put_int32_def sign_text_def a)
qed

section \<open>Strings and 64-bit numbers\<close>

definition text_field :: "bytes \<Rightarrow> int \<Rightarrow> bool \<Rightarrow> bytes" where
  "text_field s width left =
     (let pad = replicate (nat (width - int (length s))) 0x20 in if left then s @ pad else pad @ s)"

definition clip :: "nat option \<Rightarrow> bytes \<Rightarrow> bytes" where
  "clip prec s = (case prec of None \<Rightarrow> s | Some p \<Rightarrow> take p s)"

lemma string_length_ok:
  assumes "0 \<notin> set s" "0 \<le> n"
  shows "string_length (s @ 0 # r) (prec_int prec) n =
    Inr (case prec of None \<Rightarrow> n + int (length s) | Some p \<Rightarrow> max n (min (int p) (n + int (length s))))"
  using assms
proof (induction s arbitrary: n)
  case Nil
  then show ?case by (simp split: option.split)
next
  case (Cons c s)
  have c: "c \<noteq> 0" "0 \<notin> set s" using Cons.prems(1) by auto
  show ?case using Cons.IH [OF c(2), of "n + 1"] Cons.prems(2) c(1)
    by (auto simp: prec_int_def split: option.splits)
qed

lemma take_clip: "take (length (clip prec s)) (s @ 0 # r) = clip prec s"
  by (cases prec) (simp_all add: clip_def min_def)

lemma put_string_ok:
  assumes "0 \<notin> set s"
  shows "konsole_put_string (Some (s @ 0 # r)) width (prec_int prec) left = Inr (text_field (clip prec s) width left)"
proof -
  have l: "string_length (s @ 0 # r) (prec_int prec) 0 = Inr (int (length (clip prec s)))"
    unfolding string_length_ok [OF assms order_refl] by (simp add: clip_def min.commute of_nat_min split: option.split)
  note t = take_clip [of prec s r]
  show ?thesis by (simp add: konsole_put_string_def l t text_field_def fill_def Let_def del: take_append)
qed

lemma put_string_null: "konsole_put_string None width (prec_int prec) left =
    Inr (text_field (clip prec [0x28, 0x6E, 0x75, 0x6C, 0x6C, 0x29]) width left)"
  using put_string_ok [of "[0x28, 0x6E, 0x75, 0x6C, 0x6C, 0x29]" "[]" width prec left] by (simp add: konsole_put_string_def)

section \<open>Formats\<close>

datatype arg_width = W_None | W_Num nat | W_Star

datatype arg_prec = P_None | P_Num nat | P_Star

datatype conv = Conv_d | Conv_i | Conv_u | Conv_x | Conv_X | Conv_o | Conv_c | Conv_s | Conv_p

text \<open>A character for itself, \<^verbatim>\<open>%%\<close>, or a conversion with flag characters, a width and a precision.\<close>

datatype piece = Lit u8 | Percent | Conv bytes arg_width arg_prec conv

fun conv_char :: "conv \<Rightarrow> u8" where
  "conv_char Conv_d = 0x64"
| "conv_char Conv_i = 0x69"
| "conv_char Conv_u = 0x75"
| "conv_char Conv_x = 0x78"
| "conv_char Conv_X = 0x58"
| "conv_char Conv_o = 0x6F"
| "conv_char Conv_c = 0x63"
| "conv_char Conv_s = 0x73"
| "conv_char Conv_p = 0x70"

definition show_width :: "arg_width \<Rightarrow> bytes" where
  "show_width w = (case w of W_None \<Rightarrow> [] | W_Num n \<Rightarrow> numeral_text 10 False n | W_Star \<Rightarrow> [0x2A])"

definition show_prec :: "arg_prec \<Rightarrow> bytes" where
  "show_prec p = (case p of P_None \<Rightarrow> [] | P_Num n \<Rightarrow> 0x2E # numeral_text 10 False n | P_Star \<Rightarrow> [0x2E, 0x2A])"

fun show_piece :: "piece \<Rightarrow> bytes" where
  "show_piece (Lit c) = [c]"
| "show_piece Percent = [0x25, 0x25]"
| "show_piece (Conv flags w p c) = 0x25 # flags @ show_width w @ show_prec p @ [conv_char c]"

definition flag_chars :: "u8 set" where
  "flag_chars = {0x2D, 0x2B, 0x20, 0x30, 0x23}"

fun piece_ok :: "piece \<Rightarrow> bool" where
  "piece_ok (Lit c) \<longleftrightarrow> c \<noteq> 0 \<and> c \<noteq> 0x25"
| "piece_ok Percent \<longleftrightarrow> True"
| "piece_ok (Conv flags w p c) \<longleftrightarrow> set flags \<subseteq> flag_chars \<and> (case w of W_Num n \<Rightarrow> 0 < n \<and> n < 2 ^ 31 | _ \<Rightarrow> True) \<and>
     (case p of P_Num n \<Rightarrow> n < 2 ^ 31 | _ \<Rightarrow> True)"

text \<open>
  What the pieces mean.  A width argument below zero is its magnitude, to the left; a precision argument
  below zero is none.  \<open>None\<close> is a call outside the contract: too few arguments, a width that has no
  magnitude, more than 32 digits asked for, or a string without an end.
\<close>

definition eval_width :: "arg_width \<Rightarrow> bool \<Rightarrow> u32 list \<Rightarrow> (int \<times> bool \<times> u32 list) option" where
  "eval_width w left args = (case w of
     W_None \<Rightarrow> Some (0, left, args)
   | W_Num n \<Rightarrow> Some (int n, left, args)
   | W_Star \<Rightarrow> (case args of [] \<Rightarrow> None | a # as \<Rightarrow>
       if sint a = - (2 ^ 31) then None else Some (\<bar>sint a\<bar>, left \<or> sint a < 0, as)))"

definition eval_prec :: "arg_prec \<Rightarrow> u32 list \<Rightarrow> (nat option \<times> u32 list) option" where
  "eval_prec p args = (case p of
     P_None \<Rightarrow> Some (None, args)
   | P_Num n \<Rightarrow> Some (Some n, args)
   | P_Star \<Rightarrow> (case args of [] \<Rightarrow> None | a # as \<Rightarrow> Some (if sint a < 0 then None else Some (nat (sint a)), as)))"

definition eval_conv :: "(u32 \<Rightarrow> bytes) \<Rightarrow> conv \<Rightarrow> bytes \<Rightarrow> int \<Rightarrow> bool \<Rightarrow> bool \<Rightarrow> nat option \<Rightarrow> u32 \<Rightarrow> bytes option" where
  "eval_conv strs c flags width left zeros prec a =
     (let alternate = (0x23 \<in> set flags);
          number = (\<lambda>t. if prec_ok 32 prec then Some t else None);
          uint = (\<lambda>b u alt. number (uint_field b u alt [] (unat a) width prec left zeros)) in
      case c of
        Conv_d \<Rightarrow> number (uint_field 10 False False (sign_text (sint a) (0x2B \<in> set flags) (0x20 \<in> set flags)) (nat \<bar>sint a\<bar>) width prec left zeros)
      | Conv_i \<Rightarrow> number (uint_field 10 False False (sign_text (sint a) (0x2B \<in> set flags) (0x20 \<in> set flags)) (nat \<bar>sint a\<bar>) width prec left zeros)
      | Conv_u \<Rightarrow> uint 10 False False
      | Conv_x \<Rightarrow> uint 16 False alternate
      | Conv_X \<Rightarrow> uint 16 True alternate
      | Conv_o \<Rightarrow> uint 8 False alternate
      | Conv_c \<Rightarrow> Some (text_field [ucast a] width left)
      | Conv_s \<Rightarrow> if a = 0 then Some (text_field (clip prec [0x28, 0x6E, 0x75, 0x6C, 0x6C, 0x29]) width left)
                  else if 0 \<in> set (strs a) then Some (text_field (clip prec (takeWhile (\<lambda>c. c \<noteq> 0) (strs a))) width left)
                  else None
      | Conv_p \<Rightarrow> Some ([0x30, 0x78] @ number_text 16 False (unat a) (Some 8)))"

fun eval_piece :: "(u32 \<Rightarrow> bytes) \<Rightarrow> piece \<Rightarrow> u32 list \<Rightarrow> (bytes \<times> u32 list) option" where
  "eval_piece strs (Lit c) args = Some ([c], args)"
| "eval_piece strs Percent args = Some ([0x25], args)"
| "eval_piece strs (Conv flags w p c) args =
     (case eval_width w (0x2D \<in> set flags) args of
        None \<Rightarrow> None
      | Some (width, left, args) \<Rightarrow>
        (case eval_prec p args of
           None \<Rightarrow> None
         | Some (prec, args) \<Rightarrow>
           (case args of
              [] \<Rightarrow> None
            | a # as \<Rightarrow> (case eval_conv strs c flags width left (0x30 \<in> set flags \<and> p = P_None) prec a of
                None \<Rightarrow> None
              | Some text \<Rightarrow> Some (text, as)))))"

fun eval_pieces :: "(u32 \<Rightarrow> bytes) \<Rightarrow> piece list \<Rightarrow> u32 list \<Rightarrow> bytes option" where
  "eval_pieces strs [] args = Some []"
| "eval_pieces strs (p # ps) args =
     (case eval_piece strs p args of
        None \<Rightarrow> None
      | Some (text, args) \<Rightarrow> (case eval_pieces strs ps args of None \<Rightarrow> None | Some rest \<Rightarrow> Some (text @ rest)))"

section \<open>Reading the text of a format\<close>

lemma flags_loop_ok:
  "set flags \<subseteq> flag_chars \<Longrightarrow> c \<notin> flag_chars \<Longrightarrow>
   flags_loop (flags @ c # cs) fl = Inr (\<lparr> fl_left = fl_left fl \<or> 0x2D \<in> set flags, fl_plus = fl_plus fl \<or> 0x2B \<in> set flags,
     fl_space = fl_space fl \<or> 0x20 \<in> set flags, fl_zero = fl_zero fl \<or> 0x30 \<in> set flags,
     fl_alternate = fl_alternate fl \<or> 0x23 \<in> set flags \<rparr>, c # cs)"
proof (induction flags arbitrary: fl)
  case Nil
  then show ?case by (simp add: flag_chars_def)
next
  case (Cons f flags)
  have f: "f \<in> {0x2D, 0x2B, 0x20, 0x30, 0x23}" "set flags \<subseteq> flag_chars" using Cons.prems(1) by (auto simp: flag_chars_def)
  show ?case using f(1) Cons.IH [OF f(2) Cons.prems(2)] by auto
qed

definition is_digit :: "u8 \<Rightarrow> bool" where
  "is_digit c \<longleftrightarrow> 0x30 \<le> c \<and> c \<le> 0x39"

lemma is_digit_nibble: "d < 10 \<Longrightarrow> is_digit (nibble_char u d) \<and> uint (nibble_char u d) - 0x30 = int d \<and> (d \<noteq> 0 \<longrightarrow> nibble_char u d \<noteq> 0x30)"
proof -
  assume "d < 10"
  then have "d \<in> {0, 1, 2, 3, 4, 5, 6, 7, 8, 9 :: nat}" unfolding insert_iff empty_iff by presburger
  then show ?thesis by (elim insertE emptyE) (simp_all add: nibble_char_def is_digit_def)
qed

lemma numeral_digits: "\<forall>c \<in> set (numeral_text 10 u n). is_digit c"
proof (induction n rule: less_induct)
  case (less n)
  show ?case
  proof (cases "n < 10")
    case True
    then show ?thesis using is_digit_nibble [of n u] by (subst numeral_text.simps) simp
  next
    case False
    then show ?thesis using less [of "n div 10"] is_digit_nibble [of "n mod 10" u] by (subst numeral_text.simps) auto
  qed
qed

lemma numeral_head: "0 < n \<Longrightarrow> hd (numeral_text 10 u n) \<noteq> 0x30"
proof (induction n rule: less_induct)
  case (less n)
  show ?case
  proof (cases "n < 10")
    case True
    then show ?thesis using is_digit_nibble [of n u] less.prems by (subst numeral_text.simps) simp
  next
    case False
    then show ?thesis using less.IH [of "n div 10"] by (subst numeral_text.simps) simp
  qed
qed

lemma number_loop_digits:
  "\<forall>c \<in> set ds. is_digit c \<Longrightarrow> 0 \<le> m \<Longrightarrow> foldl (\<lambda>n c. n * 10 + (uint c - 0x30)) m ds < 2 ^ 31 \<Longrightarrow>
   m \<le> foldl (\<lambda>n c. n * 10 + (uint c - 0x30)) m ds \<and>
   number_loop (ds @ cs) m = number_loop cs (foldl (\<lambda>n c. n * 10 + (uint c - 0x30)) m ds)"
proof (induction ds arbitrary: m)
  case (Cons d ds)
  let ?m = "m * 10 + (uint d - 0x30)"
  have d: "0x30 \<le> d" "d \<le> 0x39" "\<forall>c \<in> set ds. is_digit c" using Cons.prems(1) by (auto simp: is_digit_def)
  have "uint (0x30 :: u8) \<le> uint d" using d(1) unfolding word_le_def .
  then have "0 \<le> uint d - 0x30" by simp
  then have m: "0 \<le> ?m" "m \<le> ?m" using Cons.prems(2) by simp_all
  note IH = Cons.IH [OF d(3) m(1)]
  then have "?m < 2 ^ 31" using Cons.prems(3) by auto
  then show ?case using IH Cons.prems(3) d(1,2) m by (auto simp: Let_def)
qed simp

lemma numeral_fold: "foldl (\<lambda>n c. n * 10 + (uint c - 0x30)) 0 (numeral_text 10 u n) = int n"
proof (induction n rule: less_induct)
  case (less n)
  show ?case
  proof (cases "n < 10")
    case True
    then show ?thesis using is_digit_nibble [of n u] by (subst numeral_text.simps) simp
  next
    case False
    have "int (n div 10) * 10 + int (n mod 10) = int n" by presburger
    then show ?thesis using less [of "n div 10"] is_digit_nibble [of "n mod 10" u] False
      by (subst numeral_text.simps) simp
  qed
qed

lemma number_loop_ok:
  "n < 2 ^ 31 \<Longrightarrow> \<not> is_digit c \<Longrightarrow> number_loop (numeral_text 10 u n @ c # cs) 0 = Inr (int n, c # cs)"
  using number_loop_digits [OF numeral_digits, of 0 u n "c # cs"] unfolding numeral_fold by (auto simp: is_digit_def)

text \<open>The characters that end a part of a conversion.\<close>

lemma conv_char_facts: "conv_char c \<notin> flag_chars" "\<not> is_digit (conv_char c)" "conv_char c \<noteq> 0x2A" "conv_char c \<noteq> 0x2E"
  "conv_char c \<noteq> 0x68" "conv_char c \<noteq> 0x6C" "conv_char c \<noteq> 0x7A" "conv_char c \<noteq> 0x6A" "conv_char c \<noteq> 0x74" "conv_char c \<noteq> 0x25"
  "conv_char c \<noteq> 0"
  by (cases c; simp add: flag_chars_def is_digit_def)+

lemma numeral_Cons:
  assumes "0 < n"
  obtains d ds where "numeral_text 10 u n = d # ds" "d \<notin> flag_chars" "d \<noteq> 0x25" "d \<noteq> 0x2A" "d \<noteq> 0x2E" "is_digit d"
proof -
  obtain d ds where d: "numeral_text 10 u n = d # ds" by (cases "numeral_text 10 u n") auto
  have "is_digit d" "d \<noteq> 0x30" using numeral_digits [of u n] numeral_head [OF assms, of u] d by simp_all
  then show thesis using d by (intro that) (auto simp: flag_chars_def is_digit_def)
qed

lemma conv_head: "\<exists>d ds. show_width w @ show_prec p @ conv_char c # cs = d # ds \<and> d \<notin> flag_chars \<and> d \<noteq> 0x25"
  if "case w of W_Num n \<Rightarrow> 0 < n | _ \<Rightarrow> True" for w p c
proof (cases w)
  case W_None
  then show ?thesis by (cases p) (simp_all add: show_width_def show_prec_def flag_chars_def conv_char_facts [unfolded flag_chars_def, simplified])
next
  case (W_Num n)
  then have "0 < n" using that by simp
  then show ?thesis by (rule numeral_Cons [of n False]) (simp add: W_Num show_width_def)
qed (simp add: show_width_def flag_chars_def)

lemma prec_head: "\<exists>d ds. show_prec p @ conv_char c # cs = d # ds \<and> d \<noteq> 0x2A \<and> \<not> is_digit d"
  by (cases p) (simp_all add: show_prec_def is_digit_def conv_char_facts [unfolded is_digit_def, simplified])

lemma parse_width_ok:
  assumes "eval_width w (fl_left fl) args = Some (width, left, args')" "case w of W_Num n \<Rightarrow> 0 < n \<and> n < 2 ^ 31 | _ \<Rightarrow> True"
  shows "parse_width (show_width w @ show_prec p @ conv_char c # cs) fl args =
    Inr (width, fl\<lparr> fl_left := left \<rparr>, show_prec p @ conv_char c # cs, args')"
proof -
  obtain d ds where d: "show_prec p @ conv_char c # cs = d # ds" "d \<noteq> 0x2A" "\<not> is_digit d" using prec_head by blast
  show ?thesis
  proof (cases w)
    case W_None
    then show ?thesis using assms(1) d
      by (auto simp: parse_width_def show_width_def eval_width_def peek_def is_digit_def Let_def)
  next
    case (W_Num n)
    then have n: "0 < n" "n < 2 ^ 31" using assms(2) by simp_all
    obtain e es where e: "numeral_text 10 False n = e # es" "e \<noteq> 0x2A" by (rule numeral_Cons [OF n(1), of False])
    have "number_loop (e # es @ d # ds) 0 = Inr (int n, d # ds)" using number_loop_ok [OF n(2) d(3), of False ds] e(1) by simp
    then show ?thesis using assms(1) d(1) W_Num e
      by (auto simp: parse_width_def show_width_def eval_width_def peek_def)
  next
    case W_Star
    then show ?thesis using assms(1)
      by (cases args) (auto simp: parse_width_def show_width_def eval_width_def peek_def va_word_def Let_def split: if_splits)
  qed
qed

lemma parse_precision_ok:
  assumes "eval_prec p args = Some (prec, args')" "case p of P_Num n \<Rightarrow> n < 2 ^ 31 | _ \<Rightarrow> True"
  shows "parse_precision (show_prec p @ conv_char c # cs) fl args =
    Inr (prec_int prec, fl\<lparr> fl_zero := (fl_zero fl \<and> p = P_None) \<rparr>, conv_char c # cs, args')"
proof (cases p)
  case P_None
  then show ?thesis using assms(1)
    by (simp add: parse_precision_def show_prec_def eval_prec_def peek_def prec_int_def conv_char_facts)
next
  case (P_Num n)
  then have n: "n < 2 ^ 31" using assms(2) by simp
  obtain e es where e: "numeral_text 10 False n = e # es" by (cases "numeral_text 10 False n") auto
  have "is_digit e" using numeral_digits [of False n] e by simp
  then have "e \<noteq> 0x2A" by (auto simp: is_digit_def)
  moreover have "number_loop (e # es @ conv_char c # cs) 0 = Inr (int n, conv_char c # cs)"
    using number_loop_ok [OF n conv_char_facts(2), of False c cs] e by simp
  ultimately show ?thesis using assms(1) P_Num e
    by (auto simp: parse_precision_def show_prec_def eval_prec_def peek_def prec_int_def)
next
  case P_Star
  then show ?thesis using assms(1)
    by (cases args) (auto simp: parse_precision_def show_prec_def eval_prec_def peek_def va_word_def prec_int_def)
qed

lemma parse_length_none: "parse_length (conv_char c # cs) = Inr (LENGTH_NONE, conv_char c # cs)"
  by (simp add: parse_length_def peek_def conv_char_facts)

lemma conversion_ok:
  assumes "eval_conv strs c flags width left zeros prec a = Some text"
    "fl_left fl = left" "fl_plus fl = (0x2B \<in> set flags)" "fl_space fl = (0x20 \<in> set flags)" "fl_zero fl = zeros"
    "fl_alternate fl = (0x23 \<in> set flags)"
  shows "conversion strs (conv_char c) fl width (prec_int prec) LENGTH_NONE (a # args) = Inr (text, args)"
proof -
  have s: "konsole_put_string (Some (strs a)) width (prec_int prec) left = Inr (text_field (clip prec (takeWhile (\<lambda>c. c \<noteq> 0) (strs a))) width left)"
    if z: "0 \<in> set (strs a)"
  proof -
    let ?s = "takeWhile (\<lambda>c. c \<noteq> 0) (strs a)"
    have "dropWhile (\<lambda>c. c \<noteq> 0) (strs a) \<noteq> []" using z by (auto simp: dropWhile_eq_Nil_conv)
    then obtain r where "dropWhile (\<lambda>c. c \<noteq> 0) (strs a) = 0 # r"
      using hd_dropWhile [of "\<lambda>c. c \<noteq> 0" "strs a"] by (cases "dropWhile (\<lambda>c. c \<noteq> 0) (strs a)") auto
    then have "strs a = ?s @ 0 # r" using takeWhile_dropWhile_id [of "\<lambda>c. c \<noteq> 0" "strs a"] by simp
    moreover have "0 \<notin> set ?s" by (auto dest: set_takeWhileD)
    ultimately show ?thesis using put_string_ok [of ?s r width prec left] by simp
  qed
  have p: "konsole_put_uint32 a 16 False 8 8 False True False 0 = Inr (number_text 16 False (unat a) (Some 8))"
  proof -
    have "8 \<le> length (number_text 16 False (unat a) (Some 8))" by (simp add: number_text_def Let_def)
    then show ?thesis using put_uint32_ok [where base = 16 and prec = "Some 8" and v = a and sign = 0]
      by (simp add: prec_ok_def prec_int_def uint_field_def number_field_def Let_def)
  qed
  note u = put_uint32_ok [where sign = 0 and v = a and prec = prec]
  show ?thesis
    using assms s put_string_null put_int32_ok u [of 10] u [of 16] u [of 8]
    by (cases c) (auto simp: conversion_def va_word_def eval_conv_def text_field_def fill_def Let_def p split: if_splits)
qed

lemma directive_ok:
  assumes "eval_piece strs (Conv flags w p c) args = Some (text, args')" "piece_ok (Conv flags w p c)"
  shows "directive strs (flags @ show_width w @ show_prec p @ conv_char c # cs) args = Inr (text, args', cs)"
proof -
  obtain width left args1 where 1: "eval_width w (0x2D \<in> set flags) args = Some (width, left, args1)"
    using assms(1) by (auto split: option.splits)
  obtain prec args2 where 2: "eval_prec p args1 = Some (prec, args2)" using assms(1) 1 by (auto split: option.splits)
  obtain a where 3: "args2 = a # args'" "eval_conv strs c flags width left (0x30 \<in> set flags \<and> p = P_None) prec a = Some text"
    using assms(1) 1 2 by (auto split: list.splits option.splits)
  have ok: "set flags \<subseteq> flag_chars" "case w of W_Num n \<Rightarrow> 0 < n \<and> n < 2 ^ 31 | _ \<Rightarrow> True" "case w of W_Num n \<Rightarrow> 0 < n | _ \<Rightarrow> True"
    "case p of P_Num n \<Rightarrow> n < 2 ^ 31 | _ \<Rightarrow> True" using assms(2) by (auto split: arg_width.splits arg_prec.splits)
  obtain d ds where d: "show_width w @ show_prec p @ conv_char c # cs = d # ds" "d \<notin> flag_chars" "d \<noteq> 0x25"
    using conv_head [OF ok(3)] by blast
  let ?init = "\<lparr> fl_left = False, fl_plus = False, fl_space = False, fl_zero = False, fl_alternate = False \<rparr>"
  let ?fl = "\<lparr> fl_left = 0x2D \<in> set flags, fl_plus = 0x2B \<in> set flags, fl_space = 0x20 \<in> set flags, fl_zero = 0x30 \<in> set flags,
     fl_alternate = 0x23 \<in> set flags \<rparr>"
  have f: "flags_loop (flags @ show_width w @ show_prec p @ conv_char c # cs) ?init = Inr (?fl, show_width w @ show_prec p @ conv_char c # cs)"
    unfolding d(1) using flags_loop_ok [OF ok(1) d(2), of ds ?init] by simp
  have pc: "\<exists>e es. flags @ d # ds = e # es \<and> e \<noteq> 0x25"
    using ok(1) d(3) by (cases flags) (auto simp: flag_chars_def)
  have wd: "parse_width (show_width w @ show_prec p @ conv_char c # cs) ?fl args =
      Inr (width, ?fl\<lparr> fl_left := left \<rparr>, show_prec p @ conv_char c # cs, args1)"
    by (rule parse_width_ok) (simp_all add: 1 ok(2))
  let ?last = "?fl\<lparr> fl_left := left, fl_zero := 0x30 \<in> set flags \<and> p = P_None \<rparr>"
  have pr: "parse_precision (show_prec p @ conv_char c # cs) (?fl\<lparr> fl_left := left \<rparr>) args1 = Inr (prec_int prec, ?last, conv_char c # cs, args2)"
    using parse_precision_ok [OF 2 ok(4), of c cs "?fl\<lparr> fl_left := left \<rparr>"] by simp
  have cv: "conversion strs (conv_char c) ?last width (prec_int prec) LENGTH_NONE args2 = Inr (text, args')"
    unfolding 3(1) by (rule conversion_ok [OF 3(2)]) simp_all
  obtain e es where e: "flags @ show_width w @ show_prec p @ conv_char c # cs = e # es" "e \<noteq> 0x25" using pc d(1) by auto
  have pk: "peek (flags @ show_width w @ show_prec p @ conv_char c # cs) = Inr e" by (simp add: e(1) peek_def)
  have pk2: "peek (conv_char c # cs) = Inr (conv_char c)" by (simp add: peek_def)
  show ?thesis using e(2) cv by (simp add: directive_def pk f wd [simplified] pr [simplified] parse_length_none pk2 conv_char_facts)
qed

lemma vprintf_pieces_ok:
  "eval_pieces strs ps args = Some str \<Longrightarrow> \<forall>p \<in> set ps. piece_ok p \<Longrightarrow>
   konsole_vprintf strs (concat (map show_piece ps) @ 0 # r) args = Inr str"
proof (induction ps arbitrary: args str)
  case (Cons p ps)
  obtain res args' rest where e: "eval_piece strs p args = Some (res, args')" "eval_pieces strs ps args' = Some rest" "str = res @ rest"
    using Cons.prems(1) by (auto split: option.splits)
  have IH: "konsole_vprintf strs (concat (map show_piece ps) @ 0 # r) args' = Inr rest" using Cons.IH [OF e(2)] Cons.prems(2) by simp
  show ?case
  proof (cases p)
    case (Lit c)
    then have "res = [c]" "args' = args" using e(1) by simp_all
    then show ?thesis using e(3) IH Cons.prems(2) Lit by simp
  next
    case Percent
    then have "res = [0x25]" "args' = args" using e(1) by simp_all
    then show ?thesis using e(3) IH Percent by (simp add: directive_def peek_def)
  next
    case (Conv flags w pr c)
    have "directive strs (flags @ show_width w @ show_prec pr @ conv_char c # concat (map show_piece ps) @ 0 # r) args =
        Inr (res, args', concat (map show_piece ps) @ 0 # r)"
      by (rule directive_ok) (use e(1) Conv Cons.prems(2) in simp_all)
    then show ?thesis using e(3) IH Conv by simp
  qed
qed simp

section \<open>Where the code departs from the reference\<close>

text \<open>The hexadecimal 64-bit number loses the zeros between its halves: 0x100000000 is printed as 1.\<close>

lemma hex64_loses_zeros: "konsole_put_hex64 1 0 False 0 (- 1) False False = Inr [0x31]"
  by code_simp

text \<open>A precision over 32 writes behind the buffer of the digits.\<close>

lemma precision_overflow: "konsole_printf strs [0x25, 0x2E, 0x33, 0x33, 0x64, 0] [7] = Inl Out_Of_Bounds"
proof -
  have "konsole_put_int32 7 0 33 False False False False = Inl Out_Of_Bounds" by code_simp
  then show ?thesis
    by (simp add: konsole_printf_def directive_def peek_def parse_width_def parse_precision_def parse_length_def conversion_def va_word_def Let_def)
qed

section \<open>Properties\<close>



end
