(* ===== verification/Composer.thy ===== *)
theory Composer
  imports Array_Sort
begin

text \<open>
  Drawing: the frame buffer (\<^verbatim>\<open>drivers/framebuffer.c\<close>), colours (\<^verbatim>\<open>gui/colors.c\<close>), layers and their
  composition (\<^verbatim>\<open>gui/composer.c\<close>) and the renderer (\<^verbatim>\<open>gui/renderer.c\<close>).  A buffer of pixels is a list
  of 32-bit words and a pointer into it an index.  Layers live in a memory of their own by address; the
  array of the composer holds their addresses.
\<close>

unbundle bit_operations_syntax

section \<open>The frame buffer\<close>

record framebuffer_t =
  fb_width :: u32
  fb_height :: u32
  fb_pitch :: u32
  fb_bpp :: u8
  fb_lfb_phys :: u32
  fb_red_pos :: u8
  fb_red_size :: u8
  fb_green_pos :: u8
  fb_green_size :: u8
  fb_blue_pos :: u8
  fb_blue_size :: u8
  fb_alpha_pos :: u8
  fb_alpha_size :: u8
  fb_size_bytes :: u32
  fb_back :: "u32 list"
  fb_lfb :: bytes

text \<open>\<open>mode\<close> is the record of the video mode left by the loader; the code stops for good on a mode it cannot use.\<close>

definition framebuffer_read_boot_info :: "bytes \<Rightarrow> framebuffer_t \<Rightarrow> framebuffer_t res" where
  "framebuffer_read_boot_info mode fb =
     rbind (buf_read mode 0 256) (\<lambda>mode.
     if mode ! 0x1B \<noteq> 6 then Inl (Panic ''hang_forever'')
     else
       let fb = fb\<lparr> fb_width := ucast (get16 mode 0x12), fb_height := ucast (get16 mode 0x14), fb_bpp := mode ! 0x19,
                    fb_lfb_phys := get32 mode 0x28 \<rparr>;
           fb = (if get16 mode 0x32 \<noteq> 0
                 then fb\<lparr> fb_pitch := ucast (get16 mode 0x32), fb_red_pos := mode ! 0x37, fb_red_size := mode ! 0x36,
                          fb_green_pos := mode ! 0x39, fb_green_size := mode ! 0x38, fb_blue_pos := mode ! 0x3B, fb_blue_size := mode ! 0x3A \<rparr>
                 else fb\<lparr> fb_pitch := ucast (get16 mode 0x10), fb_red_pos := mode ! 0x20, fb_red_size := mode ! 0x1F,
                          fb_green_pos := mode ! 0x22, fb_green_size := mode ! 0x21, fb_blue_pos := mode ! 0x24, fb_blue_size := mode ! 0x23 \<rparr>);
           fb = fb\<lparr> fb_size_bytes := fb_pitch fb * fb_height fb \<rparr> in
       if fb_alpha_size fb = 0 \<and> fb_bpp fb = 32 then
         let fb = fb\<lparr> fb_alpha_size := 8, fb_alpha_pos := 24 \<rparr> in
         if fb_width fb = 0 \<or> fb_height fb = 0 \<or> fb_lfb_phys fb = 0 then Inl (Panic ''hang_forever'') else Inr fb
       else Inl (Panic ''hang_forever''))"

text \<open>\<open>lfb\<close> is the video memory as it is mapped.  The back buffer is cleared.\<close>

definition framebuffer_init :: "bytes \<Rightarrow> framebuffer_t \<Rightarrow> framebuffer_t" where
  "framebuffer_init lfb fb = fb\<lparr> fb_lfb := lfb, fb_back := replicate (unat (fb_size_bytes fb) div 4) 0 \<rparr>"

text \<open>Words copied between two buffers.\<close>

definition copy_words :: "u32 list \<Rightarrow> nat \<Rightarrow> u32 list \<Rightarrow> nat \<Rightarrow> nat \<Rightarrow> u32 list res" where
  "copy_words dst d src s n =
     (if s + n \<le> length src \<and> d + n \<le> length dst then Inr (take d dst @ take n (drop s src) @ drop (d + n) dst) else Inl Out_Of_Bounds)"

text \<open>\<open>source\<close> is the buffer of a layer and \<open>at\<close> the index the pointer stands for.\<close>

definition framebuffer_put_xline :: "u32 list \<Rightarrow> nat \<Rightarrow> i32 \<Rightarrow> i32 \<Rightarrow> u32 \<Rightarrow> framebuffer_t \<Rightarrow> framebuffer_t res" where
  "framebuffer_put_xline source at x y pix_count fb =
     (if y <s 0 \<or> fb_height fb \<le>s y \<or> pix_count = 0 then Inr fb
      else
        let (at, pix_count, x) = (if x <s 0 then (at + nat (- sint x), pix_count + x, 0) else (at, pix_count, x)) in
        if fb_width fb \<le>s x then Inr fb
        else
          let pix_count = (if x + pix_count > fb_width fb then fb_width fb - x else pix_count) in
          if pix_count = 0 then Inr fb
          else
            rbind (copy_words (fb_back fb) (unat (y * fb_width fb + x)) source at (unat pix_count)) (\<lambda>back.
            Inr (fb\<lparr> fb_back := back \<rparr>)))"

section \<open>Colours\<close>

text \<open>The sizes and positions of the channels can be used to shift by.\<close>

definition channels_ok :: "framebuffer_t \<Rightarrow> bool" where
  "channels_ok fb \<longleftrightarrow> fb_red_size fb \<le> 8 \<and> fb_green_size fb \<le> 8 \<and> fb_blue_size fb \<le> 8 \<and> fb_alpha_size fb \<le> 8 \<and>
     fb_red_pos fb < 32 \<and> fb_green_pos fb < 32 \<and> fb_blue_pos fb < 32 \<and> fb_alpha_pos fb < 32"

definition channel_put :: "u8 \<Rightarrow> u8 \<Rightarrow> u8 \<Rightarrow> u32" where
  "channel_put c sz pos = push_bit (unat pos) (ucast (drop_bit (8 - unat sz) c))"

definition channel_get :: "u32 \<Rightarrow> u8 \<Rightarrow> u8 \<Rightarrow> u32" where
  "channel_get color sz pos = drop_bit (unat pos) color AND (push_bit (unat sz) 1 - 1)"

definition color_to_pixel :: "framebuffer_t \<Rightarrow> u8 \<Rightarrow> u8 \<Rightarrow> u8 \<Rightarrow> u8 \<Rightarrow> u32 res" where
  "color_to_pixel fb a r g b =
     (if channels_ok fb
      then Inr (channel_put r (fb_red_size fb) (fb_red_pos fb) OR channel_put g (fb_green_size fb) (fb_green_pos fb) OR
                channel_put b (fb_blue_size fb) (fb_blue_pos fb) OR channel_put a (fb_alpha_size fb) (fb_alpha_pos fb))
      else Inl (Undefined ''shift''))"

definition color_rgb_add_a :: "framebuffer_t \<Rightarrow> u32 \<Rightarrow> u8 \<Rightarrow> u32 res" where
  "color_rgb_add_a fb color a =
     (if channels_ok fb
      then Inr (color AND NOT (channel_put 255 (fb_alpha_size fb) (fb_alpha_pos fb)) OR channel_put a (fb_alpha_size fb) (fb_alpha_pos fb))
      else Inl (Undefined ''shift''))"

definition DIV255 :: "u32 \<Rightarrow> u32" where
  "DIV255 x = drop_bit 8 (x + 1 + drop_bit 8 x)"

definition color_blend_pixels :: "framebuffer_t \<Rightarrow> u32 \<Rightarrow> u32 \<Rightarrow> u32 res" where
  "color_blend_pixels fb color_rgba color_rgb =
     (if channels_ok fb then
        let a = channel_get color_rgba (fb_alpha_size fb) (fb_alpha_pos fb) in
        if a = 255 then Inr color_rgba
        else if a = 0 then Inr color_rgb
        else
          let blend = (\<lambda>sz pos. DIV255 (channel_get color_rgba sz pos * a + channel_get color_rgb sz pos * (255 - a))) in
          color_to_pixel fb 255 (ucast (blend (fb_red_size fb) (fb_red_pos fb))) (ucast (blend (fb_green_size fb) (fb_green_pos fb)))
            (ucast (blend (fb_blue_size fb) (fb_blue_pos fb)))
      else Inl (Undefined ''shift''))"

definition framebuffer_put_pixel :: "i32 \<Rightarrow> i32 \<Rightarrow> u32 \<Rightarrow> framebuffer_t \<Rightarrow> framebuffer_t res" where
  "framebuffer_put_pixel x y color_rgba fb =
     (if \<not> (0 \<le>s x \<and> x < fb_width fb \<and> 0 \<le>s y \<and> y < fb_height fb) then Inr fb
      else
        let idx = unat (y * fb_width fb + x) in
        if idx < length (fb_back fb) then
          rbind (color_blend_pixels fb color_rgba (fb_back fb ! idx)) (\<lambda>n_color.
          Inr (fb\<lparr> fb_back := (fb_back fb)[idx := n_color] \<rparr>))
        else Inl Out_Of_Bounds)"

text \<open>The bytes of the back buffer.\<close>

definition back_bytes :: "framebuffer_t \<Rightarrow> bytes" where
  "back_bytes fb = concat (map put32 (fb_back fb))"

definition framebuffer_flush :: "framebuffer_t \<Rightarrow> framebuffer_t res" where
  "framebuffer_flush fb =
     rbind (if fb_pitch fb = fb_width fb * 4
            then buf_copy (fb_lfb fb) 0 (back_bytes fb) 0 (unat (fb_size_bytes fb))
            else rfor (\<lambda>y lfb. buf_copy lfb (y * unat (fb_pitch fb)) (back_bytes fb) (4 * (y * unat (fb_width fb))) (unat (fb_width fb * 4)))
                   0 (unat (fb_height fb)) (fb_lfb fb)) (\<lambda>lfb.
     Inr (fb\<lparr> fb_lfb := lfb \<rparr>))"

section \<open>Layers\<close>

definition LAYER_PRESENT :: u32 where "LAYER_PRESENT = 1"
definition LAYER_VISIBLE :: u32 where "LAYER_VISIBLE = 2"
definition LAYER_OPAQUE :: u32 where "LAYER_OPAQUE = 4"
definition LAYER_BUSY :: u32 where "LAYER_BUSY = 8"
definition LAYER_DIRTY :: u32 where "LAYER_DIRTY = 16"

record layer_t =
  ly_x_left :: i32
  ly_y_up :: i32
  ly_x_len :: i32
  ly_y_len :: i32
  ly_buff :: "u32 list"
  ly_buff2 :: "u32 list"
  ly_busy_lock :: i32
  ly_z_index :: i32
  ly_flags :: u32

record composer_t =
  cs_layers :: dynamic_array_t
  cs_heap :: "u32 \<Rightarrow> layer_t option"
  cs_dirty :: bool
  cs_seed :: u32

definition has :: "layer_t \<Rightarrow> u32 \<Rightarrow> bool" where
  "has ly flag \<longleftrightarrow> ly_flags ly AND flag \<noteq> 0"

text \<open>An operation on the layer at an address.\<close>

definition on_layer :: "(layer_t \<Rightarrow> layer_t res) \<Rightarrow> u32 \<Rightarrow> composer_t \<Rightarrow> composer_t res" where
  "on_layer f p s = (case cs_heap s p of
     None \<Rightarrow> Inl (Undefined ''use after free'')
   | Some ly \<Rightarrow> rbind (f ly) (\<lambda>ly. Inr (s\<lparr> cs_heap := (cs_heap s)(p \<mapsto> ly) \<rparr>)))"

definition layer_put_pixel :: "i32 \<Rightarrow> i32 \<Rightarrow> u32 \<Rightarrow> layer_t \<Rightarrow> layer_t res" where
  "layer_put_pixel x_local y_local color_rgba ly =
     (if \<not> 0 <s ly_busy_lock ly then Inl (Assertion ''this->busy_lock > 0'')
      else if ly_x_len ly \<le>s x_local \<or> ly_y_len ly \<le>s y_local \<or> y_local <s 0 \<or> x_local <s 0 then Inr ly
      else
        let idx = unat (y_local * ly_x_len ly + x_local) in
        if idx < length (ly_buff2 ly) then Inr (ly\<lparr> ly_buff2 := (ly_buff2 ly)[idx := color_rgba] \<rparr>) else Inl Out_Of_Bounds)"

definition layer_begin_edit :: "layer_t \<Rightarrow> layer_t" where
  "layer_begin_edit ly =
     (let ly = (if ly_busy_lock ly = 0
                then ly\<lparr> ly_buff := ly_buff2 ly, ly_buff2 := ly_buff ly, ly_flags := ly_flags ly OR LAYER_BUSY OR LAYER_DIRTY \<rparr> else ly) in
      ly\<lparr> ly_busy_lock := ly_busy_lock ly + 1 \<rparr>)"

text \<open>The layer, and whether the layers have to be drawn again.\<close>

definition layer_end_edit :: "layer_t \<Rightarrow> layer_t \<times> bool" where
  "layer_end_edit ly =
     (let ly = ly\<lparr> ly_busy_lock := ly_busy_lock ly - 1 \<rparr> in
      if ly_busy_lock ly = 0
      then let ly = ly\<lparr> ly_buff := ly_buff2 ly, ly_buff2 := ly_buff ly, ly_flags := ly_flags ly AND NOT LAYER_BUSY \<rparr> in (ly, has ly LAYER_PRESENT)
      else (ly, False))"

text \<open>\<^verbatim>\<open>LAYER_EDIT_FUNCTION\<close>: the body of a function between the begin and the end of an edit.\<close>

definition layer_edit :: "(layer_t \<Rightarrow> layer_t res) \<Rightarrow> u32 \<Rightarrow> composer_t \<Rightarrow> composer_t res" where
  "layer_edit f p s =
     rbind (on_layer (\<lambda>ly. f (layer_begin_edit ly)) p s) (\<lambda>s.
     case cs_heap s p of
       None \<Rightarrow> Inl (Undefined ''use after free'')
     | Some ly \<Rightarrow>
       let (ly, dirty) = layer_end_edit ly in
       Inr (s\<lparr> cs_heap := (cs_heap s)(p \<mapsto> ly), cs_dirty := cs_dirty s \<or> dirty \<rparr>))"

definition layer_set_z_index :: "u32 \<Rightarrow> u32 \<Rightarrow> composer_t \<Rightarrow> composer_t res" where
  "layer_set_z_index z p s = rbind (on_layer (\<lambda>ly. Inr (ly\<lparr> ly_z_index := z \<rparr>)) p s) (\<lambda>s. Inr (s\<lparr> cs_dirty := True \<rparr>))"

text \<open>\<open>black\<close> is \<^verbatim>\<open>color_black\<close>; \<open>junk n\<close> is a new buffer of \<open>n\<close> words.\<close>

definition layer_clean :: "u32 \<Rightarrow> layer_t \<Rightarrow> layer_t res" where
  "layer_clean black ly =
     (let n = unat (ly_x_len ly * ly_y_len ly) in
      if n \<le> length (ly_buff ly) \<and> n \<le> length (ly_buff2 ly)
      then Inr (ly\<lparr> ly_buff := replicate n black @ drop n (ly_buff ly), ly_buff2 := replicate n black @ drop n (ly_buff2 ly) \<rparr>)
      else Inl Out_Of_Bounds)"

definition layer_init :: "u32 \<Rightarrow> (nat \<Rightarrow> u32 list) \<Rightarrow> i32 \<Rightarrow> i32 \<Rightarrow> i32 \<Rightarrow> i32 \<Rightarrow> i32 \<Rightarrow> u32 \<Rightarrow> layer_t res" where
  "layer_init black junk x_left y_up x_len y_len z_index flags =
     (let n = unat (x_len * y_len * 4) div 4 in
      layer_clean black \<lparr> ly_x_left = x_left, ly_y_up = y_up, ly_x_len = x_len, ly_y_len = y_len, ly_buff = junk n, ly_buff2 = junk n,
        ly_busy_lock = 0, ly_z_index = z_index, ly_flags = flags \<rparr>)"

definition layer_move :: "i32 \<Rightarrow> i32 \<Rightarrow> u32 \<Rightarrow> composer_t \<Rightarrow> composer_t res" where
  "layer_move new_x new_y p s =
     rbind (on_layer (\<lambda>ly. Inr (ly\<lparr> ly_x_left := new_x, ly_y_up := new_y \<rparr>)) p s) (\<lambda>s.
     Inr (case cs_heap s p of
            None \<Rightarrow> s
          | Some ly \<Rightarrow> if has ly LAYER_PRESENT then s\<lparr> cs_dirty := True \<rparr> else s))"

section \<open>The composer\<close>

definition layer_at :: "composer_t \<Rightarrow> u32 \<Rightarrow> layer_t res" where
  "layer_at s p = (case cs_heap s p of None \<Rightarrow> Inl (Undefined ''use after free'') | Some ly \<Rightarrow> Inr ly)"

text \<open>The address stored in the array at an index.\<close>

definition layer_ptr :: "dynamic_array_t \<Rightarrow> u32 \<Rightarrow> u32 res" where
  "layer_ptr a i =
     rbind (dynamic_array_get_by_index a i) (\<lambda>off. rbind (buf_read (da_buffer a) (unat off) 4) (\<lambda>b. Inr (get32 b 0)))"

text \<open>The comparison is asked only for addresses of layers.\<close>

definition layer_less :: "(u32 \<Rightarrow> layer_t option) \<Rightarrow> bytes \<Rightarrow> bytes \<Rightarrow> bool" where
  "layer_less heap x y =
     (let a = the (heap (get32 x 0)); b = the (heap (get32 y 0)) in
      if has a LAYER_PRESENT then (if has b LAYER_PRESENT then ly_z_index a <s ly_z_index b else True)
      else (if has b LAYER_PRESENT then False else ly_z_index a <s ly_z_index b))"

definition composer_add_layer :: "(nat \<Rightarrow> bytes) \<Rightarrow> u32 \<Rightarrow> composer_t \<Rightarrow> composer_t res" where
  "composer_add_layer junk p s =
     rbind (on_layer (\<lambda>ly. Inr (ly\<lparr> ly_flags := ly_flags ly OR LAYER_PRESENT \<rparr>)) p s) (\<lambda>s.
     rbind (dynamic_array_push_back junk (cs_layers s) (put32 p)) (\<lambda>a. Inr (s\<lparr> cs_layers := a \<rparr>)))"

text \<open>\<open>p\<close> is the address \<^verbatim>\<open>malloc\<close> returns for the layer.\<close>

definition composer_create_layer ::
    "(nat \<Rightarrow> bytes) \<Rightarrow> (nat \<Rightarrow> u32 list) \<Rightarrow> u32 \<Rightarrow> u32 \<Rightarrow> i32 \<Rightarrow> i32 \<Rightarrow> i32 \<Rightarrow> i32 \<Rightarrow> i32 \<Rightarrow> u32 \<Rightarrow> composer_t \<Rightarrow> (u32 \<times> composer_t) res" where
  "composer_create_layer junk junkw black p x_left y_up x_len y_len z_index flags s =
     rbind (layer_init black junkw x_left y_up x_len y_len z_index flags) (\<lambda>ly.
     rbind (composer_add_layer junk p (s\<lparr> cs_heap := (cs_heap s)(p \<mapsto> ly) \<rparr>)) (\<lambda>s. Inr (p, s)))"

definition composer_erase_layer :: "u32 \<Rightarrow> composer_t \<Rightarrow> composer_t res" where
  "composer_erase_layer p s =
     rbind (dynamic_array_find_first_eq (cs_layers s) (put32 p)) (\<lambda>i.
     if \<not> i < da_count (cs_layers s) then Inl (Assertion ''id < layers->elements_count'')
     else
       rbind (layer_ptr (cs_layers s) i) (\<lambda>q.
       rbind (on_layer (\<lambda>ly. Inr (ly\<lparr> ly_flags := ly_flags ly AND NOT LAYER_PRESENT \<rparr>)) q s) (\<lambda>s.
       Inr (s\<lparr> cs_dirty := True \<rparr>))))"

text \<open>The copy of the finished buffer to the one for changes.\<close>

definition layer_sync :: "layer_t \<Rightarrow> layer_t res" where
  "layer_sync ly =
     (if has ly LAYER_DIRTY \<and> \<not> has ly LAYER_BUSY then
        rbind (copy_words (ly_buff2 ly) 0 (ly_buff ly) 0 (unat (ly_x_len ly * ly_y_len ly * 4) div 4)) (\<lambda>b.
        Inr (ly\<lparr> ly_buff2 := b, ly_flags := ly_flags ly AND NOT LAYER_DIRTY \<rparr>))
      else Inr ly)"

definition layer_draw :: "layer_t \<Rightarrow> framebuffer_t \<Rightarrow> framebuffer_t res" where
  "layer_draw ly fb =
     (if has ly LAYER_OPAQUE then
        rfor (\<lambda>y. framebuffer_put_xline (ly_buff ly) (unat (of_nat y * ly_x_len ly)) (ly_x_left ly) (ly_y_up ly + of_nat y) (ly_x_len ly))
          0 (unat (ly_y_len ly)) fb
      else
        rfor (\<lambda>y. rfor (\<lambda>x fb.
          let idx = unat (of_nat y * ly_x_len ly + of_nat x) in
          if idx < length (ly_buff ly)
          then framebuffer_put_pixel (ly_x_left ly + of_nat x) (ly_y_up ly + of_nat y) (ly_buff ly ! idx) fb
          else Inl Out_Of_Bounds) 0 (unat (ly_x_len ly))) 0 (unat (ly_y_len ly)) fb)"

definition composer_compose_layer :: "u32 \<Rightarrow> composer_t \<times> framebuffer_t \<Rightarrow> (composer_t \<times> framebuffer_t) res" where
  "composer_compose_layer p = (\<lambda>(s, fb).
     rbind (layer_at s p) (\<lambda>ly.
     if has ly LAYER_PRESENT \<and> has ly LAYER_VISIBLE then
       rbind (layer_sync ly) (\<lambda>ly.
       rbind (layer_draw ly fb) (\<lambda>fb. Inr (s\<lparr> cs_heap := (cs_heap s)(p \<mapsto> ly) \<rparr>, fb)))
     else Inr (s, fb)))"

text \<open>The layers marked as erased, from the end of the array.\<close>

partial_function (option) drop_erased :: "composer_t \<Rightarrow> composer_t lres" where
  [code]: "drop_erased s =
     (if da_count (cs_layers s) > 0 then
        lbind (Some (layer_ptr (cs_layers s) (da_count (cs_layers s) - 1))) (\<lambda>p.
        lbind (Some (layer_at s p)) (\<lambda>ly.
        if has ly LAYER_PRESENT then Some (Inr s)
        else
          lbind (Some (dynamic_array_pop_back (cs_layers s))) (\<lambda>a.
          drop_erased (s\<lparr> cs_layers := a, cs_heap := (cs_heap s)(p := None) \<rparr>))))
      else Some (Inr s))"

definition composer_flush_prepare :: "composer_t \<Rightarrow> composer_t lres" where
  "composer_flush_prepare s =
     (if \<exists>b \<in> set (da_list (cs_layers s)). cs_heap s (get32 b 0) = None then Some (Inl (Undefined ''use after free''))
      else
        lbind (dynamic_array_quicksort (layer_less (cs_heap s)) (cs_layers s) 0 (da_count (cs_layers s) - 1) (cs_seed s)) (\<lambda>(a, seed).
        drop_erased (s\<lparr> cs_layers := a, cs_seed := seed \<rparr>)))"

definition composer_flush :: "composer_t \<times> framebuffer_t \<Rightarrow> (composer_t \<times> framebuffer_t) res" where
  "composer_flush sf =
     rbind (rfor (\<lambda>i sf. rbind (layer_ptr (cs_layers (fst sf)) (of_nat i)) (\<lambda>p. composer_compose_layer p sf))
              0 (unat (da_count (cs_layers (fst sf)))) sf) (\<lambda>(s, fb).
     Inr (s\<lparr> cs_dirty := False \<rparr>, fb))"

definition composer_all :: "composer_t \<Rightarrow> framebuffer_t \<Rightarrow> (composer_t \<times> framebuffer_t) lres" where
  "composer_all s fb =
     lbind (composer_flush_prepare s) (\<lambda>s.
     lbind (Some (composer_flush (s, fb))) (\<lambda>(s, fb).
     lbind (Some (framebuffer_flush fb)) (\<lambda>fb. Some (Inr (s, fb)))))"

definition composer_init :: "(nat \<Rightarrow> bytes) \<Rightarrow> u32 \<Rightarrow> composer_t" where
  "composer_init junk seed = \<lparr> cs_layers = dynamic_array_create junk 4, cs_heap = Map.empty, cs_dirty = True, cs_seed = seed \<rparr>"

section \<open>The renderer\<close>

definition FONT_GET_BIT :: "bytes \<Rightarrow> nat \<Rightarrow> nat \<Rightarrow> nat \<Rightarrow> bool res" where
  "FONT_GET_BIT font glyph y x =
     (if glyph + y < length font then Inr (bit (font ! (glyph + y)) (7 - x)) else Inl Out_Of_Bounds)"

definition draw_char :: "bytes \<Rightarrow> u8 \<Rightarrow> u32 \<Rightarrow> u32 \<Rightarrow> u32 \<Rightarrow> u32 \<Rightarrow> layer_t \<Rightarrow> layer_t res" where
  "draw_char font symbol x_left y_up fg_color bg_color =
     rfor (\<lambda>y. rfor (\<lambda>x ly.
       rbind (FONT_GET_BIT font (unat symbol * 16) y x) (\<lambda>b.
       layer_put_pixel (x_left + of_nat x) (y_up + of_nat y) (if b then fg_color else bg_color) ly)) 0 8) 0 16"

definition renderer_draw_char :: "bytes \<Rightarrow> u8 \<Rightarrow> u32 \<Rightarrow> u32 \<Rightarrow> u32 \<Rightarrow> u32 \<Rightarrow> u32 \<Rightarrow> composer_t \<Rightarrow> composer_t res" where
  "renderer_draw_char font symbol x_left y_up fg_color bg_color =
     layer_edit (draw_char font symbol x_left y_up fg_color bg_color)"

definition draw_rect :: "u32 \<Rightarrow> u32 \<Rightarrow> u32 \<Rightarrow> u32 \<Rightarrow> u32 \<Rightarrow> layer_t \<Rightarrow> layer_t res" where
  "draw_rect x_left y_up x_len y_len color =
     rfor (\<lambda>y. rfor (\<lambda>x. layer_put_pixel (x_left + of_nat x) (y_up + of_nat y) color) 0 (unat x_len)) 0 (unat y_len)"

definition renderer_draw_rect :: "u32 \<Rightarrow> u32 \<Rightarrow> u32 \<Rightarrow> u32 \<Rightarrow> u32 \<Rightarrow> u32 \<Rightarrow> composer_t \<Rightarrow> composer_t res" where
  "renderer_draw_rect x_left y_up x_len y_len color = layer_edit (draw_rect x_left y_up x_len y_len color)"

end
