(* ===== verification/Konsole.thy ===== *)
theory Konsole
  imports Composer Printf "HOL-Library.Signed_Division"
begin

text \<open>
  The console of \<^verbatim>\<open>gui/konsole.c\<close> and the colours of \<^verbatim>\<open>gui/colors.c\<close>.  The global variables of the file
  are the fields of \<open>konsole_t\<close>; the history is the dynamic array of 12-byte symbols.  Drawing goes to the
  layer of the console.  Each function runs under the task lock, so it is one step.  Scrolling to the end
  may never stop on a console of no columns: \<open>None\<close>.
\<close>

unbundle bit_operations_syntax

section \<open>Colours\<close>

record colors_t =
  color_light_gray :: u32
  color_black :: u32
  color_light_green :: u32
  color_yellow :: u32
  color_red :: u32
  color_light_red :: u32
  color_white :: u32
  color_light_blue :: u32
  color_green :: u32
  color_blue :: u32

definition RGB :: "framebuffer_t \<Rightarrow> u8 \<Rightarrow> u8 \<Rightarrow> u8 \<Rightarrow> u32 res" where
  "RGB fb r g b = color_to_pixel fb 255 r g b"

definition colors_init :: "framebuffer_t \<Rightarrow> colors_t res" where
  "colors_init fb =
     rbind (RGB fb 170 170 170) (\<lambda>light_gray. rbind (RGB fb 0 0 0) (\<lambda>black. rbind (RGB fb 0 255 0) (\<lambda>light_green.
     rbind (RGB fb 255 255 0) (\<lambda>yellow. rbind (RGB fb 170 0 0) (\<lambda>red. rbind (RGB fb 255 85 85) (\<lambda>light_red.
     rbind (RGB fb 255 255 255) (\<lambda>white. rbind (RGB fb 85 85 255) (\<lambda>light_blue. rbind (RGB fb 0 255 0) (\<lambda>green.
     rbind (RGB fb 0 0 255) (\<lambda>blue.
     Inr \<lparr> color_light_gray = light_gray, color_black = black, color_light_green = light_green, color_yellow = yellow,
           color_red = red, color_light_red = light_red, color_white = white, color_light_blue = light_blue,
           color_green = green, color_blue = blue \<rparr>))))))))))"

section \<open>State\<close>

record konsole_symbol_t =
  sy_symbol :: u8
  sy_fg_color :: u32
  sy_bg_color :: u32

text \<open>The bytes of a symbol: three bytes of padding follow the first.\<close>

definition put_symbol :: "konsole_symbol_t \<Rightarrow> bytes" where
  "put_symbol v = [sy_symbol v, 0, 0, 0] @ put32 (sy_fg_color v) @ put32 (sy_bg_color v)"

definition get_symbol :: "bytes \<Rightarrow> konsole_symbol_t" where
  "get_symbol b = \<lparr> sy_symbol = b ! 0, sy_fg_color = get32 b 4, sy_bg_color = get32 b 8 \<rparr>"

record konsole_t =
  k_w :: i32
  k_h :: i32
  k_x :: i32
  k_y :: i32
  k_fg_color :: u32
  k_bg_color :: u32
  k_history :: dynamic_array_t
  k_start :: u32
  k_empty :: konsole_symbol_t
  k_font :: bytes
  k_layer :: u32
  k_composer :: composer_t
  k_ready :: bool

section \<open>Drawing and the history\<close>

definition konsole_draw_symbol :: "u32 \<Rightarrow> u32 \<Rightarrow> konsole_symbol_t \<Rightarrow> konsole_t \<Rightarrow> konsole_t res" where
  "konsole_draw_symbol x y v k =
     (let screen_x = x * 8; screen_y = y * 16 in
      if \<not> k_ready k then Inr k
      else rbind (renderer_draw_char (k_font k) (sy_symbol v) screen_x screen_y (sy_fg_color v) (sy_bg_color v) (k_layer k) (k_composer k)) (\<lambda>s.
           Inr (k\<lparr> k_composer := s \<rparr>)))"

definition konsole_set_value :: "u32 \<Rightarrow> u32 \<Rightarrow> konsole_symbol_t \<Rightarrow> konsole_t \<Rightarrow> konsole_t res" where
  "konsole_set_value x y v k =
     rbind (konsole_draw_symbol x y v k) (\<lambda>k.
     let index = y * k_w k + x in
     rbind (dynamic_array_set_by_index (k_history k) (k_start k + index) (put_symbol v)) (\<lambda>a.
     Inr (k\<lparr> k_history := a \<rparr>)))"

definition konsole_redraw_from_history :: "konsole_t \<Rightarrow> konsole_t res" where
  "konsole_redraw_from_history k =
     rfor (\<lambda>y. rfor (\<lambda>x k.
       let index = k_start k + of_nat y * k_w k + of_nat x in
       rbind (dynamic_array_get_by_index (k_history k) index) (\<lambda>off.
       rbind (buf_read (da_buffer (k_history k)) (unat off) 12) (\<lambda>b.
       konsole_draw_symbol (of_nat x) (of_nat y) (get_symbol b) k))) 0 (nat (sint (k_w k)))) 0 (nat (sint (k_h k))) k"

definition konsole_view_scroll_up :: "konsole_t \<Rightarrow> (bool \<times> konsole_t) res" where
  "konsole_view_scroll_up k =
     (if k_w k \<le> k_start k
      then rbind (konsole_redraw_from_history (k\<lparr> k_start := k_start k - k_w k \<rparr>)) (\<lambda>k. Inr (True, k))
      else Inr (False, k))"

definition konsole_view_scroll_down :: "konsole_t \<Rightarrow> (bool \<times> konsole_t) res" where
  "konsole_view_scroll_down k =
     (if k_start k + k_h k * k_w k + k_w k \<le> da_count (k_history k)
      then rbind (konsole_redraw_from_history (k\<lparr> k_start := k_start k + k_w k \<rparr>)) (\<lambda>k. Inr (True, k))
      else Inr (False, k))"

definition konsole_scroll_down :: "(nat \<Rightarrow> bytes) \<Rightarrow> konsole_t \<Rightarrow> konsole_t res" where
  "konsole_scroll_down junk k =
     rbind (rfor (\<lambda>x a. dynamic_array_push_back junk a (put_symbol (k_empty k))) 0 (unat (k_w k)) (k_history k)) (\<lambda>a.
     rbind (konsole_redraw_from_history (k\<lparr> k_history := a, k_start := k_start k + k_w k \<rparr>)) (\<lambda>k.
     Inr (k\<lparr> k_y := k_h k - 1 \<rparr>)))"

definition konsole_pos_shift :: "(nat \<Rightarrow> bytes) \<Rightarrow> i32 \<Rightarrow> konsole_t \<Rightarrow> konsole_t res" where
  "konsole_pos_shift junk delta_x k =
     (if k_w k = 0 then Inl (Undefined ''division by 0'')
      else
        let w = sint (k_w k);
            k = k\<lparr> k_y := k_y k + word_of_int (sint delta_x sdiv w) \<rparr>;
            k = k\<lparr> k_x := k_x k + word_of_int (sint delta_x smod w) \<rparr>;
            k = k\<lparr> k_y := k_y k + word_of_int (sint (k_x k) sdiv w) \<rparr>;
            k = k\<lparr> k_x := word_of_int (sint (k_x k) smod w) \<rparr> in
        if k_h k \<le>s k_y k then konsole_scroll_down junk k else Inr k)"

lemma array_shrink_count: "array_shrink a = Inr a' \<Longrightarrow> da_count a' = da_count a"
  by (auto simp: array_shrink_def Let_def rbind_eq_Inr split: if_splits)

lemma pop_front_count:
  assumes "dynamic_array_pop_front a = Inr a'" "0 < da_count a"
  shows "unat (da_count a') < unat (da_count a)"
proof -
  have "da_count a' = da_count a - 1"
    using assms by (auto simp: dynamic_array_pop_front_def Let_def split: if_splits dest!: array_shrink_count)
  then show ?thesis using assms(2) by (simp add: unat_minus_one unat_gt_0)
qed

text \<open>\<^verbatim>\<open>while (elements_count > konsole_w * konsole_h)\<close>.\<close>

function trim_history :: "u32 \<Rightarrow> dynamic_array_t \<Rightarrow> dynamic_array_t res" where
  "trim_history n a = (if n < da_count a then rbind (dynamic_array_pop_front a) (trim_history n) else Inr a)"
  by pat_completeness auto

termination
proof (relation "measure (\<lambda>(n, a). unat (da_count a))", goal_cases)
  case (2 n a a')
  have "0 < da_count a" by (rule le_less_trans [OF word_zero_le 2(1)])
  then show ?case using pop_front_count [OF 2(2)] by simp
qed simp

declare trim_history.simps [simp del]

definition konsole_clear :: "konsole_t \<Rightarrow> konsole_t res" where
  "konsole_clear k =
     (let k = k\<lparr> k_start := 0 \<rparr> in
      rbind (trim_history (k_w k * k_h k) (k_history k)) (\<lambda>a.
      rbind (rfor (\<lambda>y. rfor (\<lambda>x k.
               konsole_set_value (of_nat x) (of_nat y) \<lparr> sy_symbol = 0x20, sy_fg_color = k_fg_color k, sy_bg_color = k_bg_color k \<rparr> k)
               0 (nat (sint (k_w k)))) 0 (nat (sint (k_h k))) (k\<lparr> k_history := a \<rparr>)) (\<lambda>k.
      Inr (k\<lparr> k_x := 0, k_y := 0 \<rparr>))))"

section \<open>Characters\<close>

partial_function (option) scroll_to_end :: "konsole_t \<Rightarrow> konsole_t lres" where
  [code]: "scroll_to_end k = lbind (Some (konsole_view_scroll_down k)) (\<lambda>(scrolled, k). if scrolled then scroll_to_end k else Some (Inr k))"

definition konsole_putch :: "(nat \<Rightarrow> bytes) \<Rightarrow> u8 \<Rightarrow> konsole_t \<Rightarrow> konsole_t lres" where
  "konsole_putch junk ch k =
     (if ch = 0 then Some (Inr k)
      else
        lbind (scroll_to_end k) (\<lambda>k. Some (
        if ch = 0x0A then
          let k = k\<lparr> k_x := 0, k_y := k_y k + 1 \<rparr> in
          if k_h k \<le>s k_y k then konsole_scroll_down junk k else Inr k
        else if ch = 0x08 then
          if 0 <s k_x k then
            rbind (konsole_pos_shift junk (- 1) k) (\<lambda>k.
            konsole_set_value (k_x k) (k_y k) \<lparr> sy_symbol = 0, sy_fg_color = k_fg_color k, sy_bg_color = k_bg_color k \<rparr> k)
          else Inr k
        else
          rbind (konsole_set_value (k_x k) (k_y k) \<lparr> sy_symbol = ch, sy_fg_color = k_fg_color k, sy_bg_color = k_bg_color k \<rparr> k) (\<lambda>k.
          konsole_pos_shift junk 1 k))))"

fun konsole_print :: "(nat \<Rightarrow> bytes) \<Rightarrow> bytes \<Rightarrow> konsole_t \<Rightarrow> konsole_t lres" where
  "konsole_print junk [] k = Some (Inl Out_Of_Bounds)"
| "konsole_print junk (c # cs) k = (if c = 0 then Some (Inr k) else lbind (konsole_putch junk c k) (konsole_print junk cs))"

definition konsole_println :: "(nat \<Rightarrow> bytes) \<Rightarrow> bytes \<Rightarrow> konsole_t \<Rightarrow> konsole_t lres" where
  "konsole_println junk text k = lbind (konsole_print junk text k) (konsole_print junk [0x0A, 0])"

text \<open>The characters of formatted output, in order.\<close>

fun put_chars :: "(nat \<Rightarrow> bytes) \<Rightarrow> bytes \<Rightarrow> konsole_t \<Rightarrow> konsole_t lres" where
  "put_chars junk [] k = Some (Inr k)"
| "put_chars junk (c # cs) k = lbind (konsole_putch junk c k) (put_chars junk cs)"

definition konsole_print_format :: "(nat \<Rightarrow> bytes) \<Rightarrow> (u32 \<Rightarrow> bytes) \<Rightarrow> bytes \<Rightarrow> u32 list \<Rightarrow> konsole_t \<Rightarrow> konsole_t lres" where
  "konsole_print_format junk strs format args k = lbind (Some (konsole_printf strs format args)) (\<lambda>text. put_chars junk text k)"

section \<open>Colours of the text\<close>

definition konsole_set_color :: "u32 \<Rightarrow> u32 \<Rightarrow> konsole_t \<Rightarrow> konsole_t" where
  "konsole_set_color fg bg k = k\<lparr> k_bg_color := bg, k_fg_color := fg \<rparr>"

definition konsole_set_preambula_color :: "colors_t \<Rightarrow> konsole_t \<Rightarrow> konsole_t" where
  "konsole_set_preambula_color c = konsole_set_color (color_light_gray c) (color_black c)"

definition konsole_set_good_result_color :: "colors_t \<Rightarrow> konsole_t \<Rightarrow> konsole_t" where
  "konsole_set_good_result_color c = konsole_set_color (color_light_green c) (color_black c)"

definition konsole_set_warning_color :: "colors_t \<Rightarrow> konsole_t \<Rightarrow> konsole_t" where
  "konsole_set_warning_color c = konsole_set_color (color_yellow c) (color_black c)"

definition konsole_set_bad_result_color :: "colors_t \<Rightarrow> konsole_t \<Rightarrow> konsole_t" where
  "konsole_set_bad_result_color c = konsole_set_color (color_red c) (color_black c)"

definition konsole_set_panic_color :: "colors_t \<Rightarrow> konsole_t \<Rightarrow> konsole_t" where
  "konsole_set_panic_color c = konsole_set_color (color_light_red c) (color_black c)"

definition konsole_set_base_color :: "colors_t \<Rightarrow> konsole_t \<Rightarrow> konsole_t" where
  "konsole_set_base_color c = konsole_set_color (color_white c) (color_black c)"

definition konsole_set_info_color :: "colors_t \<Rightarrow> konsole_t \<Rightarrow> konsole_t" where
  "konsole_set_info_color c = konsole_set_color (color_light_blue c) (color_black c)"

text \<open>
  \<open>black\<close> is \<^verbatim>\<open>color_black\<close> before the call and \<open>layer\<close> the address of the new layer; \<open>s\<close> and \<open>fb\<close> are the
  composer and the frame buffer.
\<close>

definition konsole_init ::
    "(nat \<Rightarrow> bytes) \<Rightarrow> (nat \<Rightarrow> u32 list) \<Rightarrow> bytes \<Rightarrow> u32 \<Rightarrow> u32 \<Rightarrow> framebuffer_t \<Rightarrow> composer_t \<Rightarrow> konsole_t \<Rightarrow> konsole_t res" where
  "konsole_init junk junkw font8x16_vga black layer fb s k =
     (let k = k\<lparr> k_empty := \<lparr> sy_symbol = 0x20, sy_fg_color = black, sy_bg_color = black \<rparr>,
                 k_w := fb_width fb div 8, k_h := fb_height fb div 16, k_font := font8x16_vga, k_x := 0, k_y := 0 \<rparr> in
      rbind (rfor (\<lambda>i a. dynamic_array_push_back junk a (put_symbol (k_empty k))) 0 (unat (k_w k * k_h k)) (dynamic_array_create junk 12)) (\<lambda>a.
      rbind (colors_init fb) (\<lambda>c.
      let k = konsole_set_base_color c (k\<lparr> k_history := a, k_start := 0 \<rparr>) in
      rbind (composer_create_layer junk junkw (color_black c) layer 0 0 (fb_width fb) (fb_height fb) 10 (LAYER_OPAQUE OR LAYER_VISIBLE) s) (\<lambda>(p, s).
      Inr (k\<lparr> k_layer := p, k_composer := s \<rparr>)))))"

end
