(* ===== verification/Konsole_Correct.thy ===== *)
theory Konsole_Correct
  imports Konsole
begin

text \<open>
  Drawing and scrolling of the console of \<^verbatim>\<open>gui/konsole.c\<close>: after each operation the pixels of the layer
  are those of the symbols of the history in the part that is in view.
\<close>

unbundle bit_operations_syntax

section \<open>Pixels\<close>

definition pix :: "nat \<Rightarrow> u32 list \<Rightarrow> nat \<Rightarrow> nat \<Rightarrow> u32" where
  "pix W b Y X = b ! (Y * W + X)"

lemma pix_index: "(X :: nat) < W \<Longrightarrow> Y < H \<Longrightarrow> Y * W + X < W * H"
proof -
  assume "X < W" "Y < H"
  then have "Y * W + X < Suc Y * W" by simp
  also have "Suc Y * W \<le> H * W" using \<open>Y < H\<close> by (intro mult_le_mono1) simp
  finally show ?thesis by (simp add: mult.commute)
qed

lemma pix_eq: "(X :: nat) < W \<Longrightarrow> X' < W \<Longrightarrow> Y * W + X = Y' * W + X' \<longleftrightarrow> Y = Y' \<and> X = X'"
proof
  assume X: "X < W" "X' < W" and e: "Y * W + X = Y' * W + X'"
  have "(Y * W + X) div W = Y" "(Y' * W + X') div W = Y'" using X by simp_all
  then show "Y = Y' \<and> X = X'" using e by simp
qed simp

lemma pix_upd:
  "X < W \<Longrightarrow> X' < W \<Longrightarrow> Y < H \<Longrightarrow> Y' < H \<Longrightarrow> length b = W * H \<Longrightarrow>
   pix W (b[Y * W + X := c]) Y' X' = (if Y' = Y \<and> X' = X then c else pix W b Y' X')"
  using pix_eq [of X W X' Y Y'] pix_index [of X W Y H] by (auto simp: pix_def)

definition layer_dims :: "nat \<Rightarrow> nat \<Rightarrow> layer_t \<Rightarrow> bool" where
  "layer_dims W H ly \<longleftrightarrow> ly_x_len ly = of_nat W \<and> ly_y_len ly = of_nat H \<and> W < 2 ^ 31 \<and> H < 2 ^ 31 \<and> W * H < 2 ^ 32 \<and>
     length (ly_buff ly) = W * H \<and> length (ly_buff2 ly) = W * H"

lemma layer_put_pixel_ok:
  assumes "layer_dims W H ly" "0 <s ly_busy_lock ly" "X < W" "Y < H"
  shows "layer_put_pixel (of_nat X) (of_nat Y) c ly = Inr (ly\<lparr> ly_buff2 := (ly_buff2 ly)[Y * W + X := c] \<rparr>)"
proof -
  note d = assms(1) [unfolded layer_dims_def]
  have b: "W < 2 ^ 31" "H < 2 ^ 31" "X < 2 ^ 31" "Y < 2 ^ 31" using d assms(3,4) by auto
  have i: "Y * W + X < W * H" by (rule pix_index [OF assms(3,4)])
  then have lt: "Y * W + X < 2 ^ 32" using d by linarith
  have "of_nat Y * ly_x_len ly + of_nat X = (of_nat (Y * W + X) :: u32)" using d by simp
  then have u: "unat (of_nat Y * ly_x_len ly + of_nat X) = Y * W + X" using unat_of_nat_32 [OF lt] by simp
  have "\<not> (ly_x_len ly \<le>s of_nat X \<or> ly_y_len ly \<le>s of_nat Y \<or> (of_nat Y :: i32) <s 0 \<or> (of_nat X :: i32) <s 0)"
    using d assms(3,4) by (simp add: word_sle_eq word_sless_alt sint_nat [OF b(1)] sint_nat [OF b(2)] sint_nat [OF b(3)] sint_nat [OF b(4)])
  then show ?thesis using assms(2) u i d by (simp add: layer_put_pixel_def Let_def)
qed

text \<open>The colour of a pixel of a character cell.\<close>

definition glyph :: "bytes \<Rightarrow> u8 \<Rightarrow> u32 \<Rightarrow> u32 \<Rightarrow> nat \<Rightarrow> nat \<Rightarrow> u32" where
  "glyph font c fg bg j i = (if bit (font ! (unat c * 16 + j)) (7 - i) then fg else bg)"

definition char_row :: "bytes \<Rightarrow> u8 \<Rightarrow> u32 \<Rightarrow> u32 \<Rightarrow> u32 \<Rightarrow> u32 \<Rightarrow> nat \<Rightarrow> nat \<Rightarrow> layer_t \<Rightarrow> layer_t res" where
  "char_row font c x_left y_up fg bg y = rfor (\<lambda>x ly.
     rbind (FONT_GET_BIT font (unat c * 16) y x) (\<lambda>b. layer_put_pixel (x_left + of_nat x) (y_up + of_nat y) (if b then fg else bg) ly)) 0"

lemma glyph_row_fits: "length font = 4096 \<Longrightarrow> j < 16 \<Longrightarrow> unat (c :: u8) * 16 + j < length font"
proof -
  have "unat c < 2 ^ LENGTH(8)" by (rule unsigned_less)
  then show "length font = 4096 \<Longrightarrow> j < 16 \<Longrightarrow> unat c * 16 + j < length font" by simp
qed

lemma char_row_ok:
  assumes "layer_dims W H ly" "0 <s ly_busy_lock ly" "x0 + 8 \<le> W" "y0 + 16 \<le> H" "length font = 4096" "j < 16"
  shows "\<exists>b. char_row font c (of_nat x0) (of_nat y0) fg bg j 8 ly = Inr (ly\<lparr> ly_buff2 := b \<rparr>) \<and> length b = W * H \<and>
    (\<forall>Y<H. \<forall>X<W. pix W b Y X = (if Y = y0 + j \<and> x0 \<le> X \<and> X < x0 + 8 then glyph font c fg bg j (X - x0) else pix W (ly_buff2 ly) Y X))"
proof -
  let ?P = "\<lambda>i t. \<exists>b. t = ly\<lparr> ly_buff2 := b \<rparr> \<and> length b = W * H \<and>
    (\<forall>Y<H. \<forall>X<W. pix W b Y X = (if Y = y0 + j \<and> x0 \<le> X \<and> X < x0 + i then glyph font c fg bg j (X - x0) else pix W (ly_buff2 ly) Y X))"
  let ?f = "\<lambda>x ly. rbind (FONT_GET_BIT font (unat c * 16) j x)
    (\<lambda>b. layer_put_pixel (of_nat x0 + of_nat x) (of_nat y0 + of_nat j) (if b then fg else bg) ly)"
  have "\<exists>t. rfor ?f 0 8 ly = Inr t \<and> ?P 8 t"
  proof (rule rfor_inv [where P = ?P and lo = 0 and hi = 8])
    show "?P 0 ly" using assms(1) by (intro exI [of _ "ly_buff2 ly"]) (auto simp: layer_dims_def)
  next
    fix i t assume i: "i < 8" and "?P i t"
    then obtain b where b: "t = ly\<lparr> ly_buff2 := b \<rparr>" "length b = W * H"
      "\<And>Y X. Y < H \<Longrightarrow> X < W \<Longrightarrow> pix W b Y X = (if Y = y0 + j \<and> x0 \<le> X \<and> X < x0 + i then glyph font c fg bg j (X - x0) else pix W (ly_buff2 ly) Y X)"
      by blast
    have lt: "x0 + i < W" "y0 + j < H" using i assms(3,4,6) by simp_all
    have d: "layer_dims W H t" "0 <s ly_busy_lock t" using assms(1,2) b(1,2) by (simp_all add: layer_dims_def)
    have "?f i t = Inr (t\<lparr> ly_buff2 := (ly_buff2 t)[(y0 + j) * W + (x0 + i) := glyph font c fg bg j i] \<rparr>)"
      using layer_put_pixel_ok [OF d lt] glyph_row_fits [OF assms(5,6), of c] by (simp add: FONT_GET_BIT_def glyph_def)
    moreover have "?P (Suc i) (t\<lparr> ly_buff2 := (ly_buff2 t)[(y0 + j) * W + (x0 + i) := glyph font c fg bg j i] \<rparr>)"
      using b lt by (intro exI [of _ "b[(y0 + j) * W + (x0 + i) := glyph font c fg bg j i]"]) (auto simp: pix_upd [where H = H])
    ultimately show "\<exists>t'. ?f i t = Inr t' \<and> ?P (Suc i) t'" by blast
  qed simp
  then show ?thesis unfolding char_row_def by blast
qed

lemma draw_char_rows:
  "draw_char font c x_left y_up fg bg = rfor (\<lambda>y. char_row font c x_left y_up fg bg y 8) 0 16"
  by (simp add: draw_char_def char_row_def [abs_def])

text \<open>The cell of a pixel is that of its character: the box of a character at a cell.\<close>

lemma draw_char_ok:
  assumes "layer_dims W H ly" "0 <s ly_busy_lock ly" "x0 + 8 \<le> W" "y0 + 16 \<le> H" "length font = 4096"
  shows "\<exists>b. draw_char font c (of_nat x0) (of_nat y0) fg bg ly = Inr (ly\<lparr> ly_buff2 := b \<rparr>) \<and> length b = W * H \<and>
    (\<forall>Y<H. \<forall>X<W. pix W b Y X =
      (if y0 \<le> Y \<and> Y < y0 + 16 \<and> x0 \<le> X \<and> X < x0 + 8 then glyph font c fg bg (Y - y0) (X - x0) else pix W (ly_buff2 ly) Y X))"
proof -
  let ?P = "\<lambda>j t. \<exists>b. t = ly\<lparr> ly_buff2 := b \<rparr> \<and> length b = W * H \<and>
    (\<forall>Y<H. \<forall>X<W. pix W b Y X =
      (if y0 \<le> Y \<and> Y < y0 + j \<and> x0 \<le> X \<and> X < x0 + 8 then glyph font c fg bg (Y - y0) (X - x0) else pix W (ly_buff2 ly) Y X))"
  have "\<exists>t. rfor (\<lambda>y. char_row font c (of_nat x0) (of_nat y0) fg bg y 8) 0 16 ly = Inr t \<and> ?P 16 t"
  proof (rule rfor_inv [where P = ?P and lo = 0 and hi = 16])
    show "?P 0 ly" using assms(1) by (intro exI [of _ "ly_buff2 ly"]) (auto simp: layer_dims_def)
  next
    fix j t assume j: "j < 16" and "?P j t"
    then obtain b where b: "t = ly\<lparr> ly_buff2 := b \<rparr>" "length b = W * H"
      "\<And>Y X. Y < H \<Longrightarrow> X < W \<Longrightarrow> pix W b Y X = (if y0 \<le> Y \<and> Y < y0 + j \<and> x0 \<le> X \<and> X < x0 + 8
         then glyph font c fg bg (Y - y0) (X - x0) else pix W (ly_buff2 ly) Y X)"
      by blast
    have d: "layer_dims W H t" "0 <s ly_busy_lock t" using assms(1,2) b(1,2) by (simp_all add: layer_dims_def)
    obtain b' where b': "char_row font c (of_nat x0) (of_nat y0) fg bg j 8 t = Inr (t\<lparr> ly_buff2 := b' \<rparr>)" "length b' = W * H"
      "\<And>Y X. Y < H \<Longrightarrow> X < W \<Longrightarrow> pix W b' Y X =
         (if Y = y0 + j \<and> x0 \<le> X \<and> X < x0 + 8 then glyph font c fg bg j (X - x0) else pix W (ly_buff2 t) Y X)"
      using char_row_ok [OF d assms(3,4,5) j, of c fg bg] by blast
    have "?P (Suc j) (t\<lparr> ly_buff2 := b' \<rparr>)"
      using b(1) b'(2) by (intro exI [of _ b']) (auto simp: b' b)
    then show "\<exists>t'. char_row font c (of_nat x0) (of_nat y0) fg bg j 8 t = Inr t' \<and> ?P (Suc j) t'" using b'(1) by blast
  qed simp
  then show ?thesis unfolding draw_char_rows by blast
qed

section \<open>The layer of the console\<close>

definition kon_layer :: "nat \<Rightarrow> nat \<Rightarrow> konsole_t \<Rightarrow> bool" where
  "kon_layer W H k \<longleftrightarrow> (\<exists>ly. cs_heap (k_composer k) (k_layer k) = Some ly \<and> layer_dims W H ly \<and> ly_busy_lock ly = 0)"

text \<open>The pixel of the finished buffer of the layer.\<close>

definition screen :: "konsole_t \<Rightarrow> nat \<Rightarrow> nat \<Rightarrow> u32" where
  "screen k Y X = (case cs_heap (k_composer k) (k_layer k) of None \<Rightarrow> 0 | Some ly \<Rightarrow> pix (unat (ly_x_len ly)) (ly_buff ly) Y X)"

definition cell_pixel :: "bytes \<Rightarrow> konsole_symbol_t \<Rightarrow> nat \<Rightarrow> nat \<Rightarrow> u32" where
  "cell_pixel font v = glyph font (sy_symbol v) (sy_fg_color v) (sy_bg_color v)"

lemma in_cell: "(y * 16 \<le> Y \<and> Y < y * 16 + 16) = (Y div 16 = (y::nat))" "(x * 8 \<le> X \<and> X < x * 8 + 8) = (X div 8 = (x::nat))"
  by auto

lemma in_cell_mod: "Y div 16 = (y::nat) \<Longrightarrow> Y - y * 16 = Y mod 16" "X div 8 = (x::nat) \<Longrightarrow> X - x * 8 = X mod 8"
  by (auto simp: minus_div_mult_eq_mod [symmetric])

lemma draw_symbol_ok:
  assumes "kon_layer W H k" "k_ready k" "length (k_font k) = 4096" "(x + 1) * 8 \<le> W" "(y + 1) * 16 \<le> H"
  shows "\<exists>s. konsole_draw_symbol (of_nat x) (of_nat y) v k = Inr (k\<lparr> k_composer := s \<rparr>) \<and> kon_layer W H (k\<lparr> k_composer := s \<rparr>) \<and>
    (\<forall>Y<H. \<forall>X<W. screen (k\<lparr> k_composer := s \<rparr>) Y X =
      (if Y div 16 = y \<and> X div 8 = x then cell_pixel (k_font k) v (Y mod 16) (X mod 8) else screen k Y X))"
proof -
  obtain ly where ly: "cs_heap (k_composer k) (k_layer k) = Some ly" "layer_dims W H ly" "ly_busy_lock ly = 0"
    using assms(1) by (auto simp: kon_layer_def)
  let ?b = "layer_begin_edit ly"
  have b: "?b = ly\<lparr> ly_buff := ly_buff2 ly, ly_buff2 := ly_buff ly, ly_flags := ly_flags ly OR LAYER_BUSY OR LAYER_DIRTY, ly_busy_lock := 1 \<rparr>"
    using ly(3) by (simp add: layer_begin_edit_def Let_def)
  have d: "layer_dims W H ?b" "0 <s ly_busy_lock ?b" using ly(2) by (simp_all add: b layer_dims_def word_sless_alt)
  have box: "x * 8 + 8 \<le> W" "y * 16 + 16 \<le> H" using assms(4,5) by simp_all
  obtain p where p: "draw_char (k_font k) (sy_symbol v) (of_nat (x * 8)) (of_nat (y * 16)) (sy_fg_color v) (sy_bg_color v) ?b = Inr (?b\<lparr> ly_buff2 := p \<rparr>)"
    "length p = W * H"
    "\<And>Y X. Y < H \<Longrightarrow> X < W \<Longrightarrow> pix W p Y X = (if y * 16 \<le> Y \<and> Y < y * 16 + 16 \<and> x * 8 \<le> X \<and> X < x * 8 + 8
      then glyph (k_font k) (sy_symbol v) (sy_fg_color v) (sy_bg_color v) (Y - y * 16) (X - x * 8) else pix W (ly_buff2 ?b) Y X)"
    using draw_char_ok [OF d box assms(3), of "sy_symbol v" "sy_fg_color v" "sy_bg_color v"] by blast
  let ?e = "fst (layer_end_edit (?b\<lparr> ly_buff2 := p \<rparr>))"
  let ?s = "(k_composer k)\<lparr> cs_heap := (cs_heap (k_composer k))(k_layer k \<mapsto> ?e),
    cs_dirty := cs_dirty (k_composer k) \<or> snd (layer_end_edit (?b\<lparr> ly_buff2 := p \<rparr>)) \<rparr>"
  have e: "ly_buff ?e = p" "ly_buff2 ?e = ly_buff2 ly" "ly_x_len ?e = ly_x_len ly" "ly_y_len ?e = ly_y_len ly" "ly_busy_lock ?e = 0"
    by (simp_all add: layer_end_edit_def Let_def b)
  have u: "unat (of_nat W :: u32) = W" using ly(2) by (intro unat_of_nat_32) (simp add: layer_dims_def)
  have run: "konsole_draw_symbol (of_nat x) (of_nat y) v k = Inr (k\<lparr> k_composer := ?s \<rparr>)"
    using assms(2) p(1) by (simp add: konsole_draw_symbol_def renderer_draw_char_def layer_edit_def on_layer_def ly(1) Let_def case_prod_beta)
  have "kon_layer W H (k\<lparr> k_composer := ?s \<rparr>)"
    using ly(2) p(2) by (simp add: kon_layer_def layer_dims_def e)
  moreover have "screen (k\<lparr> k_composer := ?s \<rparr>) Y X =
      (if Y div 16 = y \<and> X div 8 = x then cell_pixel (k_font k) v (Y mod 16) (X mod 8) else screen k Y X)" if "Y < H" "X < W" for Y X
  proof -
    have l: "unat (ly_x_len ly) = W" using ly(2) u by (simp add: layer_dims_def)
    have "screen (k\<lparr> k_composer := ?s \<rparr>) Y X = pix W p Y X" by (simp add: screen_def e l)
    moreover have "screen k Y X = pix W (ly_buff2 ?b) Y X" by (simp add: screen_def ly(1) l b)
    ultimately show ?thesis
      using p(3) [OF that] in_cell(1) [of y Y] in_cell(2) [of x X] in_cell_mod(1) [of Y y] in_cell_mod(2) [of X x]
      by (auto simp: cell_pixel_def)
  qed
  ultimately show ?thesis using run by blast
qed

section \<open>The history\<close>

lemma length_put_symbol [simp]: "length (put_symbol v) = 12"
  by (simp add: put_symbol_def)

lemma get_put_symbol [simp]: "get_symbol (put_symbol v) = v"
proof -
  have "get32 (put_symbol v) 4 = get32 (put32 (sy_fg_color v) @ put32 (sy_bg_color v)) 0"
    unfolding put_symbol_def by (subst get_append(4)) simp_all
  moreover have "get32 (put32 (sy_fg_color v) @ put32 (sy_bg_color v)) 0 = sy_fg_color v" by (subst get_append(3)) simp_all
  moreover have "get32 (put_symbol v) 8 = sy_bg_color v"
    unfolding put_symbol_def append_assoc [symmetric] by (subst get_append(4)) simp_all
  ultimately show ?thesis by (simp add: get_symbol_def) (simp add: put_symbol_def)
qed

definition k_cells :: "konsole_t \<Rightarrow> konsole_symbol_t list" where
  "k_cells k = map get_symbol (da_list (k_history k))"

lemma length_k_cells [simp]: "length (k_cells k) = unat (da_count (k_history k))"
  by (simp add: k_cells_def)

lemma da_count_bound: "da_inv a \<Longrightarrow> unat (da_count a) * unat (da_es a) < 2 ^ 32"
proof -
  assume a: "da_inv a"
  then have "da_shape a" by (simp add: da_inv_def)
  note d = da_shapeD [OF this]
  have "unat (da_count a) * unat (da_es a) \<le> unat (da_size a) * unat (da_es a)"
    using a by (intro mult_le_mono1) (simp add: da_inv_def)
  then show ?thesis using d(7,8) by linarith
qed

lemma dynamic_array_set_by_index_ok:
  assumes "da_inv a" "unat i < unat (da_count a)" "length v = unat (da_es a)"
  shows "\<exists>a'. dynamic_array_set_by_index a i v = Inr a' \<and> da_inv a' \<and> da_es a' = da_es a \<and> da_count a' = da_count a \<and>
    da_list a' = (da_list a)[unat i := v]"
proof -
  have sh: "da_shape a" and C: "unat (da_count a) < unat (da_size a)" using assms(1) by (auto simp: da_inv_def)
  note d = da_shapeD [OF sh]
  let ?i = "(da_start a + i + 1) AND (da_size a - 1)"
  have "unat ?i = unat (da_start a + i + 1) mod unat (da_size a)" by (rule unat_and_pow2 [OF d(1)])
  also have "unat (da_start a + i + 1) = (unat (da_start a) + 1 + unat i) mod 2 ^ 32" by (simp add: unat_word_ariths mod_simps)
  finally have k: "unat ?i = (unat (da_start a) + 1 + unat i) mod unat (da_size a)" using unat_pow2_dvd [OF d(1)] by (simp only: mod_mod_cancel)
  then have lt: "unat ?i < unat (da_size a)" using d(5) by simp
  obtain b where b: "buf_copy (da_buffer a) (unat (?i * da_es a)) v 0 (unat (da_es a)) = Inr b" "length b = length (da_buffer a)"
    "slots (unat (da_es a)) (unat (da_size a)) b = (da_slots a)[unat ?i := v]"
    using da_write [OF sh lt assms(3)] by blast
  have "i < da_count a" using assms(2) by (simp add: word_less_nat_alt)
  then have run: "dynamic_array_set_by_index a i v = Inr (a\<lparr> da_buffer := b \<rparr>)"
    using b(1) by (simp add: dynamic_array_set_by_index_def dynamic_array_get_by_index_def)
  have "da_list (a\<lparr> da_buffer := b \<rparr>) = (da_list a)[unat i := v]"
    using b(3) cyc_list_update [of "unat i" "unat (da_count a)" "da_slots a" "unat (da_start a) + 1" v] assms(2) C k
    by (simp add: da_list_def da_slots_def [of "a\<lparr> da_buffer := b \<rparr>"])
  moreover have "da_inv (a\<lparr> da_buffer := b \<rparr>)" using assms(1) b(2) by (simp add: da_inv_def da_shape_def)
  ultimately show ?thesis using run by simp
qed

lemma get_cell_ok:
  assumes "da_inv a" "da_es a = 12" "unat i < unat (da_count a)"
  shows "\<exists>off. dynamic_array_get_by_index a i = Inr off \<and> unat off + 12 \<le> length (da_buffer a) \<and>
    take 12 (drop (unat off) (da_buffer a)) = da_list a ! unat i"
  using dynamic_array_get_by_index_ok [OF assms(1), of i] assms(2,3) by (simp add: word_less_nat_alt)

section \<open>What is on the screen\<close>

text \<open>The shape of a console on a layer of \<open>W\<close> by \<open>H\<close> pixels, \<open>w\<close> columns and \<open>h\<close> rows.\<close>

definition kon_base :: "nat \<Rightarrow> nat \<Rightarrow> nat \<Rightarrow> nat \<Rightarrow> konsole_t \<Rightarrow> bool" where
  "kon_base W H w h k \<longleftrightarrow> kon_layer W H k \<and> k_ready k \<and> length (k_font k) = 4096 \<and> da_inv (k_history k) \<and> da_es (k_history k) = 12 \<and>
     k_w k = of_nat w \<and> k_h k = of_nat h \<and> 0 < w \<and> 0 < h \<and> w * 8 \<le> W \<and> h * 16 \<le> H \<and>
     unat (k_start k) + h * w \<le> unat (da_count (k_history k))"

definition shows_cells :: "nat \<Rightarrow> nat \<Rightarrow> konsole_t \<Rightarrow> bool" where
  "shows_cells w h k \<longleftrightarrow> (\<forall>Y < h * 16. \<forall>X < w * 8.
     screen k Y X = cell_pixel (k_font k) (k_cells k ! (unat (k_start k) + Y div 16 * w + X div 8)) (Y mod 16) (X mod 8))"

text \<open>The same for the cells in \<open>A\<close> only.\<close>

definition shows_on :: "(nat \<times> nat) set \<Rightarrow> nat \<Rightarrow> nat \<Rightarrow> konsole_t \<Rightarrow> bool" where
  "shows_on A w h k \<longleftrightarrow> (\<forall>Y < h * 16. \<forall>X < w * 8. (Y div 16, X div 8) \<in> A \<longrightarrow>
     screen k Y X = cell_pixel (k_font k) (k_cells k ! (unat (k_start k) + Y div 16 * w + X div 8)) (Y mod 16) (X mod 8))"

lemma shows_on_simps [simp]: "shows_on {} w h k" "shows_on UNIV w h k = shows_cells w h k"
  by (simp_all add: shows_on_def shows_cells_def)

lemma shows_on_all: "shows_on ({..<h} \<times> {..<w}) w h k \<Longrightarrow> shows_cells w h k"
  by (auto simp: shows_on_def shows_cells_def less_mult_imp_div_less)

lemma kon_baseD:
  assumes "kon_base W H w h k"
  shows "w < 2 ^ 28" "h < 2 ^ 27" "unat (da_count (k_history k)) < 2 ^ 29" "unat (k_w k) = w" "unat (k_h k) = h"
    "sint (k_w k) = int w" "sint (k_h k) = int h" "0 < w" "0 < h" "k_w k = of_nat w" "k_h k = of_nat h"
    "da_inv (k_history k)" "da_es (k_history k) = 12" "unat (k_start k) + h * w \<le> unat (da_count (k_history k))"
    "w * 8 \<le> W" "h * 16 \<le> H"
proof -
  note b = assms [unfolded kon_base_def]
  have d: "W < 2 ^ 31" "H < 2 ^ 31" using b by (auto simp: kon_layer_def layer_dims_def)
  show w: "w < 2 ^ 28" and h: "h < 2 ^ 27" using b d by auto
  have "unat (da_count (k_history k)) * 12 < 2 ^ 32" using da_count_bound [of "k_history k"] b by simp
  then show "unat (da_count (k_history k)) < 2 ^ 29" by simp
  show "unat (k_w k) = w" "unat (k_h k) = h" using b w h unat_of_nat_32 [of w] unat_of_nat_32 [of h] by simp_all
  show "sint (k_w k) = int w" "sint (k_h k) = int h" using b w h sint_nat [of w] sint_nat [of h] by simp_all
qed (use assms in \<open>simp_all add: kon_base_def\<close>)

lemma cell_index: "x < w \<Longrightarrow> y < h \<Longrightarrow> y * w + x < h * (w :: nat)"
  using pix_index [of x w y h] by (simp add: mult.commute)

lemma unat_cell:
  assumes "kon_base W H w h k" "x < w" "y < h"
  shows "unat (k_start k + (of_nat y * k_w k + of_nat x)) = unat (k_start k) + (y * w + x)"
    "unat (k_start k) + (y * w + x) < unat (da_count (k_history k))"
proof -
  note d = kon_baseD [OF assms(1)]
  show lt: "unat (k_start k) + (y * w + x) < unat (da_count (k_history k))"
    using cell_index [OF assms(2,3)] d(14) by linarith
  have "k_start k + (of_nat y * k_w k + of_nat x) = of_nat (unat (k_start k) + (y * w + x))" by (simp add: d(10))
  moreover have "unat (k_start k) + (y * w + x) < 2 ^ 32" using lt d(3) by simp
  ultimately show "unat (k_start k + (of_nat y * k_w k + of_nat x)) = unat (k_start k) + (y * w + x)"
    using unat_of_nat_32 by metis
qed

lemma cell_fits: "(x :: nat) < w \<Longrightarrow> w * n \<le> W \<Longrightarrow> (x + 1) * n \<le> W"
  using mult_le_mono1 [of "x + 1" w n] by simp

definition draw_cell :: "nat \<Rightarrow> nat \<Rightarrow> konsole_t \<Rightarrow> konsole_t res" where
  "draw_cell y x k =
     (let index = k_start k + of_nat y * k_w k + of_nat x in
      rbind (dynamic_array_get_by_index (k_history k) index) (\<lambda>off.
      rbind (buf_read (da_buffer (k_history k)) (unat off) 12) (\<lambda>b.
      konsole_draw_symbol (of_nat x) (of_nat y) (get_symbol b) k)))"

lemma draw_cell_ok:
  assumes "kon_base W H w h k" "x < w" "y < h"
  shows "\<exists>s. draw_cell y x k = Inr (k\<lparr> k_composer := s \<rparr>) \<and> kon_base W H w h (k\<lparr> k_composer := s \<rparr>) \<and>
    (\<forall>Y<H. \<forall>X<W. screen (k\<lparr> k_composer := s \<rparr>) Y X =
      (if Y div 16 = y \<and> X div 8 = x then cell_pixel (k_font k) (k_cells k ! (unat (k_start k) + y * w + x)) (Y mod 16) (X mod 8)
       else screen k Y X))"
proof -
  note d = kon_baseD [OF assms(1)] and u = unat_cell [OF assms]
  note b = assms(1) [unfolded kon_base_def]
  obtain off where off: "dynamic_array_get_by_index (k_history k) (k_start k + (of_nat y * k_w k + of_nat x)) = Inr off"
    "unat off + 12 \<le> length (da_buffer (k_history k))"
    "take 12 (drop (unat off) (da_buffer (k_history k))) = da_list (k_history k) ! (unat (k_start k) + (y * w + x))"
    using get_cell_ok [OF d(12,13)] u by metis
  have c: "get_symbol (da_list (k_history k) ! (unat (k_start k) + (y * w + x))) = k_cells k ! (unat (k_start k) + y * w + x)"
    using u(2) by (simp add: k_cells_def add.assoc)
  have run: "draw_cell y x k = konsole_draw_symbol (of_nat x) (of_nat y) (k_cells k ! (unat (k_start k) + y * w + x)) k"
    using off c by (simp add: draw_cell_def Let_def add.assoc)
  have "kon_layer W H k" "k_ready k" "length (k_font k) = 4096" using b by simp_all
  from draw_symbol_ok [OF this cell_fits [OF assms(2) d(15)] cell_fits [OF assms(3) d(16)], of "k_cells k ! (unat (k_start k) + y * w + x)"]
  obtain s where s: "konsole_draw_symbol (of_nat x) (of_nat y) (k_cells k ! (unat (k_start k) + y * w + x)) k = Inr (k\<lparr> k_composer := s \<rparr>)"
    "kon_layer W H (k\<lparr> k_composer := s \<rparr>)"
    "\<forall>Y<H. \<forall>X<W. screen (k\<lparr> k_composer := s \<rparr>) Y X =
      (if Y div 16 = y \<and> X div 8 = x then cell_pixel (k_font k) (k_cells k ! (unat (k_start k) + y * w + x)) (Y mod 16) (X mod 8) else screen k Y X)"
    by blast
  have "kon_base W H w h (k\<lparr> k_composer := s \<rparr>)" using b s(2) by (simp add: kon_base_def)
  then show ?thesis using run s by auto
qed

text \<open>The pixel the cells in view ask for.\<close>

definition wanted :: "nat \<Rightarrow> konsole_t \<Rightarrow> nat \<Rightarrow> nat \<Rightarrow> u32" where
  "wanted w k Y X = cell_pixel (k_font k) (k_cells k ! (unat (k_start k) + Y div 16 * w + X div 8)) (Y mod 16) (X mod 8)"

text \<open>Another picture with the pixels of the cells in \<open>A\<close> as they are wanted.\<close>

definition repaints :: "nat \<Rightarrow> nat \<Rightarrow> nat \<Rightarrow> nat \<Rightarrow> (nat \<times> nat) set \<Rightarrow> konsole_t \<Rightarrow> konsole_t \<Rightarrow> bool" where
  "repaints W H w h A k t \<longleftrightarrow> (\<exists>s. t = k\<lparr> k_composer := s \<rparr>) \<and> kon_base W H w h t \<and>
     (\<forall>Y<H. \<forall>X<W. screen t Y X = (if (Y div 16, X div 8) \<in> A then wanted w k Y X else screen k Y X))"

lemma repaints_refl: "kon_base W H w h k \<Longrightarrow> repaints W H w h {} k k"
  by (auto simp: repaints_def intro: exI [of _ "k_composer k"])

lemma wanted_composer [simp]: "wanted w (k\<lparr> k_composer := s \<rparr>) = wanted w k"
  by (simp add: wanted_def [abs_def] k_cells_def)

lemma repaints_trans: "repaints W H w h A k t \<Longrightarrow> repaints W H w h B t u \<Longrightarrow> repaints W H w h (A \<union> B) k u"
  by (auto simp: repaints_def)

lemma draw_cell_repaints:
  assumes "repaints W H w h A k t" "x < w" "y < h"
  shows "\<exists>u. draw_cell y x t = Inr u \<and> repaints W H w h (insert (y, x) A) k u"
proof -
  have t: "kon_base W H w h t" using assms(1) by (simp add: repaints_def)
  obtain s where s: "draw_cell y x t = Inr (t\<lparr> k_composer := s \<rparr>)" "kon_base W H w h (t\<lparr> k_composer := s \<rparr>)"
    "\<forall>Y<H. \<forall>X<W. screen (t\<lparr> k_composer := s \<rparr>) Y X =
      (if Y div 16 = y \<and> X div 8 = x then cell_pixel (k_font t) (k_cells t ! (unat (k_start t) + y * w + x)) (Y mod 16) (X mod 8) else screen t Y X)"
    using draw_cell_ok [OF t assms(2,3)] by blast
  have "repaints W H w h {(y, x)} t (t\<lparr> k_composer := s \<rparr>)"
    using s(2,3) by (auto simp: repaints_def wanted_def)
  then show ?thesis using s(1) repaints_trans [OF assms(1)] by (metis Un_insert_right sup_bot_right)
qed

lemma draw_row_repaints:
  assumes "repaints W H w h ({..<y} \<times> {..<w}) k t" "y < h"
  shows "\<exists>u. rfor (draw_cell y) 0 w t = Inr u \<and> repaints W H w h ({..<Suc y} \<times> {..<w}) k u"
proof -
  have "\<exists>u. rfor (draw_cell y) 0 w t = Inr u \<and> repaints W H w h ({..<y} \<times> {..<w} \<union> {y} \<times> {..<w}) k u"
  proof (rule rfor_inv [where P = "\<lambda>x. repaints W H w h ({..<y} \<times> {..<w} \<union> {y} \<times> {..<x}) k" and lo = 0 and hi = w])
    fix x u assume x: "x < w" and u: "repaints W H w h ({..<y} \<times> {..<w} \<union> {y} \<times> {..<x}) k u"
    have "insert (y, x) ({..<y} \<times> {..<w} \<union> {y} \<times> {..<x}) = {..<y} \<times> {..<w} \<union> {y} \<times> {..<Suc x}"
      by (auto simp: less_Suc_eq)
    then show "\<exists>v. draw_cell y x u = Inr v \<and> repaints W H w h ({..<y} \<times> {..<w} \<union> {y} \<times> {..<Suc x}) k v"
      using draw_cell_repaints [OF u x assms(2)] by simp
  qed (use assms(1) in simp_all)
  moreover have "{..<y} \<times> {..<w} \<union> {y} \<times> {..<w} = {..<Suc y} \<times> {..<w}" by (auto simp: less_Suc_eq)
  ultimately show ?thesis by simp
qed

lemma redraw_ok:
  assumes "kon_base W H w h k"
  shows "\<exists>s. konsole_redraw_from_history k = Inr (k\<lparr> k_composer := s \<rparr>) \<and> kon_base W H w h (k\<lparr> k_composer := s \<rparr>) \<and>
    shows_cells w h (k\<lparr> k_composer := s \<rparr>)"
proof -
  note d = kon_baseD [OF assms]
  have "\<exists>u. rfor (\<lambda>y. rfor (draw_cell y) 0 w) 0 h k = Inr u \<and> repaints W H w h ({..<h} \<times> {..<w}) k u"
  proof (rule rfor_inv [where P = "\<lambda>y. repaints W H w h ({..<y} \<times> {..<w}) k" and lo = 0 and hi = h])
    show "repaints W H w h ({..<0} \<times> {..<w}) k k" using repaints_refl [OF assms] by simp
  qed (auto intro: draw_row_repaints)
  moreover have "konsole_redraw_from_history k = rfor (\<lambda>y. rfor (draw_cell y) 0 w) 0 h k"
    by (simp add: konsole_redraw_from_history_def draw_cell_def [abs_def] d(6,7))
  ultimately obtain u where u: "konsole_redraw_from_history k = Inr u" "repaints W H w h ({..<h} \<times> {..<w}) k u" by auto
  then obtain s where s: "u = k\<lparr> k_composer := s \<rparr>" by (auto simp: repaints_def)
  have "shows_cells w h u"
    unfolding shows_cells_def
  proof (intro allI impI)
    fix Y X assume "Y < h * 16" "X < w * 8"
    then have "Y < H" "X < W" "Y div 16 < h" "X div 8 < w" using d(15,16) by (auto simp: less_mult_imp_div_less)
    then show "screen u Y X = cell_pixel (k_font u) (k_cells u ! (unat (k_start u) + Y div 16 * w + X div 8)) (Y mod 16) (X mod 8)"
      using u(2) by (auto simp: repaints_def wanted_def k_cells_def s)
  qed
  then show ?thesis using u s by (auto simp: repaints_def)
qed

section \<open>Setting a cell and scrolling\<close>

lemma cell_place_eq: "(x :: nat) < w \<Longrightarrow> x' < w \<Longrightarrow> s + y * w + x = s + y' * w + x' \<longleftrightarrow> y = y' \<and> x = x'"
  using pix_eq [of x w x' y y'] by (simp add: add.assoc)

lemma set_cell_ok:
  assumes "kon_base W H w h k" "shows_on A w h k" "x < w" "y < h"
  shows "\<exists>s a. konsole_set_value (of_nat x) (of_nat y) v k = Inr (k\<lparr> k_composer := s, k_history := a \<rparr>) \<and>
    kon_base W H w h (k\<lparr> k_composer := s, k_history := a \<rparr>) \<and> shows_on (insert (y, x) A) w h (k\<lparr> k_composer := s, k_history := a \<rparr>) \<and>
    da_count a = da_count (k_history k) \<and>
    k_cells (k\<lparr> k_composer := s, k_history := a \<rparr>) = (k_cells k)[unat (k_start k) + y * w + x := v]"
proof -
  note d = kon_baseD [OF assms(1)] and u = unat_cell [OF assms(1,3,4)]
  note b = assms(1) [unfolded kon_base_def]
  have "kon_layer W H k" "k_ready k" "length (k_font k) = 4096" using b by simp_all
  from draw_symbol_ok [OF this cell_fits [OF assms(3) d(15)] cell_fits [OF assms(4) d(16)], of v]
  obtain s where s: "konsole_draw_symbol (of_nat x) (of_nat y) v k = Inr (k\<lparr> k_composer := s \<rparr>)" "kon_layer W H (k\<lparr> k_composer := s \<rparr>)"
    "\<And>Y X. Y < H \<Longrightarrow> X < W \<Longrightarrow> screen (k\<lparr> k_composer := s \<rparr>) Y X =
      (if Y div 16 = y \<and> X div 8 = x then cell_pixel (k_font k) v (Y mod 16) (X mod 8) else screen k Y X)" by blast
  obtain a where a: "dynamic_array_set_by_index (k_history k) (k_start k + (of_nat y * k_w k + of_nat x)) (put_symbol v) = Inr a"
    "da_inv a" "da_es a = 12" "da_count a = da_count (k_history k)" "da_list a = (da_list (k_history k))[unat (k_start k) + (y * w + x) := put_symbol v]"
    using dynamic_array_set_by_index_ok [OF d(12), of "k_start k + (of_nat y * k_w k + of_nat x)" "put_symbol v"] u d(13) by auto
  let ?k = "k\<lparr> k_composer := s, k_history := a \<rparr>"
  have run: "konsole_set_value (of_nat x) (of_nat y) v k = Inr ?k" using s(1) a(1) by (simp add: konsole_set_value_def Let_def)
  have base: "kon_base W H w h ?k" using b s(2) a by (simp add: kon_base_def kon_layer_def)
  have cells: "k_cells ?k = (k_cells k)[unat (k_start k) + y * w + x := v]" by (simp add: k_cells_def a(5) map_update add.assoc)
  have "shows_on (insert (y, x) A) w h ?k"
    unfolding shows_on_def
  proof (intro allI impI)
    fix Y X assume Y: "Y < h * 16" "X < w * 8" and A: "(Y div 16, X div 8) \<in> insert (y, x) A"
    then have lt: "Y < H" "X < W" "Y div 16 < h" "X div 8 < w" using d(15,16) by (auto simp: less_mult_imp_div_less)
    have "screen ?k Y X = screen (k\<lparr> k_composer := s \<rparr>) Y X" by (simp add: screen_def)
    moreover have "screen k Y X = cell_pixel (k_font k) (k_cells k ! (unat (k_start k) + Y div 16 * w + X div 8)) (Y mod 16) (X mod 8)"
      if "\<not> (Y div 16 = y \<and> X div 8 = x)" using assms(2) Y A that by (auto simp: shows_on_def)
    ultimately show "screen ?k Y X = cell_pixel (k_font ?k) (k_cells ?k ! (unat (k_start ?k) + Y div 16 * w + X div 8)) (Y mod 16) (X mod 8)"
      using s(3) [OF lt(1,2)] cell_place_eq [OF assms(3) lt(4), of "unat (k_start k)" y "Y div 16"] u(2)
      unfolding cells by (auto simp: nth_list_update add.assoc)
  qed
  then show ?thesis using run base cells a(4) by blast
qed

lemma set_value_ok:
  assumes "kon_base W H w h k" "shows_cells w h k" "x < w" "y < h"
  shows "\<exists>s a. konsole_set_value (of_nat x) (of_nat y) v k = Inr (k\<lparr> k_composer := s, k_history := a \<rparr>) \<and>
    kon_base W H w h (k\<lparr> k_composer := s, k_history := a \<rparr>) \<and> shows_cells w h (k\<lparr> k_composer := s, k_history := a \<rparr>) \<and>
    da_count a = da_count (k_history k) \<and>
    k_cells (k\<lparr> k_composer := s, k_history := a \<rparr>) = (k_cells k)[unat (k_start k) + y * w + x := v]"
  using set_cell_ok [OF assms(1) _ assms(3,4), of UNIV] assms(2) by simp

lemma view_ok:
  assumes "kon_base W H w h k" "unat start + h * w \<le> unat (da_count (k_history k))"
  shows "\<exists>s. konsole_redraw_from_history (k\<lparr> k_start := start \<rparr>) = Inr (k\<lparr> k_start := start, k_composer := s \<rparr>) \<and>
    kon_base W H w h (k\<lparr> k_start := start, k_composer := s \<rparr>) \<and> shows_cells w h (k\<lparr> k_start := start, k_composer := s \<rparr>)"
proof -
  have "kon_base W H w h (k\<lparr> k_start := start \<rparr>)" using assms by (simp add: kon_base_def kon_layer_def)
  from redraw_ok [OF this] show ?thesis by simp
qed

lemma scroll_down_test:
  assumes "kon_base W H w h k"
  shows "k_start k + k_h k * k_w k + k_w k \<le> da_count (k_history k) \<longleftrightarrow> unat (k_start k) + h * w + w \<le> unat (da_count (k_history k))"
    "unat (k_start k + k_w k) = unat (k_start k) + w"
proof -
  note d = kon_baseD [OF assms]
  have lt: "unat (k_start k) + h * w + w < 2 ^ 32" using d(1,3,14) by simp
  have "k_start k + k_h k * k_w k + k_w k = of_nat (unat (k_start k) + h * w + w)" by (simp add: d(10,11))
  then have "unat (k_start k + k_h k * k_w k + k_w k) = unat (k_start k) + h * w + w" using unat_of_nat_32 [OF lt] by metis
  then show "k_start k + k_h k * k_w k + k_w k \<le> da_count (k_history k) \<longleftrightarrow> unat (k_start k) + h * w + w \<le> unat (da_count (k_history k))"
    by (simp add: word_le_nat_alt)
  have lt: "unat (k_start k) + w < 2 ^ 32" using lt by linarith
  have "k_start k + k_w k = of_nat (unat (k_start k) + w)" by (simp add: d(10))
  then show "unat (k_start k + k_w k) = unat (k_start k) + w" using unat_of_nat_32 [OF lt] by metis
qed

lemma view_scroll_up_ok:
  assumes "kon_base W H w h k" "shows_cells w h k"
  shows "\<exists>b start s. konsole_view_scroll_up k = Inr (b, k\<lparr> k_start := start, k_composer := s \<rparr>) \<and> (b \<longleftrightarrow> w \<le> unat (k_start k)) \<and>
    unat start = (if b then unat (k_start k) - w else unat (k_start k)) \<and>
    kon_base W H w h (k\<lparr> k_start := start, k_composer := s \<rparr>) \<and> shows_cells w h (k\<lparr> k_start := start, k_composer := s \<rparr>)"
proof (cases "k_w k \<le> k_start k")
  case True
  note d = kon_baseD [OF assms(1)]
  have u: "unat (k_start k - k_w k) = unat (k_start k) - w" using True d(4) by (simp add: unat_sub)
  then have le: "unat (k_start k - k_w k) + h * w \<le> unat (da_count (k_history k))" using d(14) by linarith
  obtain s where "konsole_redraw_from_history (k\<lparr> k_start := k_start k - k_w k \<rparr>) = Inr (k\<lparr> k_start := k_start k - k_w k, k_composer := s \<rparr>)"
    "kon_base W H w h (k\<lparr> k_start := k_start k - k_w k, k_composer := s \<rparr>)" "shows_cells w h (k\<lparr> k_start := k_start k - k_w k, k_composer := s \<rparr>)"
    using view_ok [OF assms(1) le] by blast
  then show ?thesis using True u d(4)
    by (intro exI [of _ True] exI [of _ "k_start k - k_w k"] exI [of _ s]) (simp add: konsole_view_scroll_up_def word_le_nat_alt)
next
  case False
  then show ?thesis using assms kon_baseD(4) [OF assms(1)]
    by (intro exI [of _ False] exI [of _ "k_start k"] exI [of _ "k_composer k"]) (simp add: konsole_view_scroll_up_def word_le_nat_alt)
qed

lemma view_scroll_down_ok:
  assumes "kon_base W H w h k" "shows_cells w h k"
  shows "\<exists>b start s. konsole_view_scroll_down k = Inr (b, k\<lparr> k_start := start, k_composer := s \<rparr>) \<and>
    (b \<longleftrightarrow> unat (k_start k) + h * w + w \<le> unat (da_count (k_history k))) \<and>
    unat start = (if b then unat (k_start k) + w else unat (k_start k)) \<and>
    kon_base W H w h (k\<lparr> k_start := start, k_composer := s \<rparr>) \<and> shows_cells w h (k\<lparr> k_start := start, k_composer := s \<rparr>)"
proof (cases "unat (k_start k) + h * w + w \<le> unat (da_count (k_history k))")
  case True
  note t = scroll_down_test [OF assms(1)]
  have le: "unat (k_start k + k_w k) + h * w \<le> unat (da_count (k_history k))" using True t(2) by linarith
  obtain s where "konsole_redraw_from_history (k\<lparr> k_start := k_start k + k_w k \<rparr>) = Inr (k\<lparr> k_start := k_start k + k_w k, k_composer := s \<rparr>)"
    "kon_base W H w h (k\<lparr> k_start := k_start k + k_w k, k_composer := s \<rparr>)" "shows_cells w h (k\<lparr> k_start := k_start k + k_w k, k_composer := s \<rparr>)"
    using view_ok [OF assms(1) le] by blast
  then show ?thesis using True t
    by (intro exI [of _ True] exI [of _ "k_start k + k_w k"] exI [of _ s]) (simp add: konsole_view_scroll_down_def)
next
  case False
  then show ?thesis using assms scroll_down_test(1) [OF assms(1)]
    by (intro exI [of _ False] exI [of _ "k_start k"] exI [of _ "k_composer k"]) (simp add: konsole_view_scroll_down_def)
qed

lemma scroll_to_end_ok:
  assumes "kon_base W H w h k" "shows_cells w h k" "w dvd unat (k_start k)" "w dvd unat (da_count (k_history k))"
  shows "\<exists>start s. scroll_to_end k = Some (Inr (k\<lparr> k_start := start, k_composer := s \<rparr>)) \<and>
    unat start + h * w = unat (da_count (k_history k)) \<and>
    kon_base W H w h (k\<lparr> k_start := start, k_composer := s \<rparr>) \<and> shows_cells w h (k\<lparr> k_start := start, k_composer := s \<rparr>)"
  using assms
proof (induction "unat (da_count (k_history k)) - unat (k_start k)" arbitrary: k rule: less_induct)
  case less
  note d = kon_baseD [OF less.prems(1)]
  obtain b start s where v: "konsole_view_scroll_down k = Inr (b, k\<lparr> k_start := start, k_composer := s \<rparr>)"
    "b \<longleftrightarrow> unat (k_start k) + h * w + w \<le> unat (da_count (k_history k))"
    "unat start = (if b then unat (k_start k) + w else unat (k_start k))"
    "kon_base W H w h (k\<lparr> k_start := start, k_composer := s \<rparr>)" "shows_cells w h (k\<lparr> k_start := start, k_composer := s \<rparr>)"
    using view_scroll_down_ok [OF less.prems(1,2)] by blast
  show ?case
  proof (cases b)
    case True
    let ?k = "k\<lparr> k_start := start, k_composer := s \<rparr>"
    have "\<exists>start' s'. scroll_to_end ?k = Some (Inr (?k\<lparr> k_start := start', k_composer := s' \<rparr>)) \<and>
      unat start' + h * w = unat (da_count (k_history ?k)) \<and>
      kon_base W H w h (?k\<lparr> k_start := start', k_composer := s' \<rparr>) \<and> shows_cells w h (?k\<lparr> k_start := start', k_composer := s' \<rparr>)"
      by (rule less.hyps) (use True v less.prems d(8) in auto)
    then show ?thesis using True v(1) by (subst scroll_to_end.simps) auto
  next
    case False
    have "w dvd unat (da_count (k_history k)) - (unat (k_start k) + h * w)" using less.prems(3,4) by (intro dvd_diff_nat dvd_add) simp_all
    moreover have "unat (da_count (k_history k)) - (unat (k_start k) + h * w) < w" using False v(2) d(14) by linarith
    ultimately have "unat (da_count (k_history k)) - (unat (k_start k) + h * w) = 0" using nat_dvd_not_less by blast
    then have "unat (k_start k) + h * w = unat (da_count (k_history k))" using d(14) by linarith
    then show ?thesis using False v by (intro exI [of _ start] exI [of _ s]) (subst scroll_to_end.simps, simp)
  qed
qed

lemma push_room: "da_inv a \<Longrightarrow> da_es a = 12 \<Longrightarrow> 96 * unat (da_count a) < 2 ^ 32 \<Longrightarrow> da_room a"
  by (auto simp: da_inv_def da_room_def)

lemma push_blanks_ok:
  assumes "da_inv a" "da_es a = 12" "96 * (unat (da_count a) + n) < 2 ^ 32" "\<And>k. length (junk k) = k" "length e = 12"
  shows "\<exists>a'. rfor (\<lambda>x a. dynamic_array_push_back junk a e) lo n a = Inr a' \<and> da_inv a' \<and> da_es a' = 12 \<and> da_list a' = da_list a @ replicate n e"
  using assms(1,2,3)
proof (induction n arbitrary: a lo)
  case (Suc n)
  have "da_room a" by (rule push_room) (use Suc.prems in simp_all)
  then obtain a1 where a1: "dynamic_array_push_back junk a e = Inr a1" "da_inv a1" "da_es a1 = 12" "da_list a1 = da_list a @ [e]"
    using dynamic_array_push_back_ok [OF Suc.prems(1) _ _ assms(4), of e] assms(5) Suc.prems(2) by auto
  have "unat (da_count a1) = Suc (unat (da_count a))" using arg_cong [OF a1(4), of length] by simp
  then obtain a' where "rfor (\<lambda>x a. dynamic_array_push_back junk a e) (Suc lo) n a1 = Inr a'" "da_inv a'" "da_es a' = 12"
    "da_list a' = da_list a1 @ replicate n e" using Suc.IH [OF a1(2,3), of "Suc lo"] Suc.prems(3) by auto
  then show ?case using a1 by simp
qed simp

lemma scroll_down_ok:
  assumes "kon_base W H w h k" "unat (k_start k) + h * w = unat (da_count (k_history k))" "96 * (unat (da_count (k_history k)) + w) < 2 ^ 32"
    "\<And>n. length (junk n) = n"
  shows "\<exists>a start s. konsole_scroll_down junk k = Inr (k\<lparr> k_history := a, k_start := start, k_composer := s, k_y := of_nat (h - 1) \<rparr>) \<and>
    unat start = unat (k_start k) + w \<and>
    kon_base W H w h (k\<lparr> k_history := a, k_start := start, k_composer := s, k_y := of_nat (h - 1) \<rparr>) \<and>
    shows_cells w h (k\<lparr> k_history := a, k_start := start, k_composer := s, k_y := of_nat (h - 1) \<rparr>) \<and>
    map get_symbol (da_list a) = k_cells k @ replicate w (k_empty k)"
proof -
  note d = kon_baseD [OF assms(1)]
  obtain a where a: "rfor (\<lambda>x a. dynamic_array_push_back junk a (put_symbol (k_empty k))) 0 w (k_history k) = Inr a" "da_inv a" "da_es a = 12"
    "da_list a = da_list (k_history k) @ replicate w (put_symbol (k_empty k))"
    using push_blanks_ok [OF d(12,13) assms(3,4), of "put_symbol (k_empty k)" 0] by auto
  have n: "unat (da_count a) = unat (da_count (k_history k)) + w" using arg_cong [OF a(4), of length] by simp
  note u = scroll_down_test(2) [OF assms(1)]
  have "kon_base W H w h (k\<lparr> k_history := a, k_start := k_start k + k_w k \<rparr>)"
    using assms(1,2) a n u by (simp add: kon_base_def kon_layer_def)
  from redraw_ok [OF this] obtain s where s:
    "konsole_redraw_from_history (k\<lparr> k_history := a, k_start := k_start k + k_w k \<rparr>) = Inr (k\<lparr> k_history := a, k_start := k_start k + k_w k, k_composer := s \<rparr>)"
    "kon_base W H w h (k\<lparr> k_history := a, k_start := k_start k + k_w k, k_composer := s \<rparr>)"
    "shows_cells w h (k\<lparr> k_history := a, k_start := k_start k + k_w k, k_composer := s \<rparr>)" by auto
  have y: "k_h k - 1 = of_nat (h - 1)" using d(9,11) by simp
  let ?t = "k\<lparr> k_history := a, k_start := k_start k + k_w k, k_composer := s, k_y := of_nat (h - 1) \<rparr>"
  have "kon_base W H w h ?t" using s(2) unfolding kon_base_def kon_layer_def by (simp cong: conj_cong)
  moreover have "shows_cells w h ?t" using s(3) by (simp add: shows_cells_def screen_def k_cells_def)
  moreover have "konsole_scroll_down junk k = Inr ?t" using a(1) s(1) y d(4) by (simp add: konsole_scroll_down_def)
  moreover have "map get_symbol (da_list a) = k_cells k @ replicate w (k_empty k)" by (simp add: a(4) k_cells_def)
  ultimately show ?thesis using u by blast
qed

end
