(* ===== verification/Konsole_Terminal.thy ===== *)
theory Konsole_Terminal
  imports Konsole_Correct
begin

text \<open>
  The console of \<^verbatim>\<open>gui/konsole.c\<close> against a terminal of lines and a cursor: what is printed changes the
  terminal character by character, whatever the view was, and the screen shows the end of its lines.
\<close>

unbundle bit_operations_syntax

section \<open>A terminal\<close>

text \<open>Lines of cells and the cell of the cursor.  There is no view and no scrolling.\<close>

record terminal =
  tm_lines :: "konsole_symbol_t list list"
  tm_row :: nat
  tm_col :: nat

definition tm_set :: "nat \<Rightarrow> nat \<Rightarrow> konsole_symbol_t \<Rightarrow> terminal \<Rightarrow> terminal" where
  "tm_set r c v T = T\<lparr> tm_lines := (tm_lines T)[r := (tm_lines T ! r)[c := v]] \<rparr>"

definition tm_newline :: "konsole_symbol_t list \<Rightarrow> terminal \<Rightarrow> terminal" where
  "tm_newline blank_line T =
     T\<lparr> tm_lines := (if Suc (tm_row T) < length (tm_lines T) then tm_lines T else tm_lines T @ [blank_line]),
        tm_row := Suc (tm_row T), tm_col := 0 \<rparr>"

definition tm_putch :: "u32 \<Rightarrow> u32 \<Rightarrow> konsole_symbol_t list \<Rightarrow> u8 \<Rightarrow> terminal \<Rightarrow> terminal" where
  "tm_putch fg bg blank_line ch T =
     (if ch = 0x0A then tm_newline blank_line T
      else if ch = 0x08 then
        if tm_col T = 0 then T
        else tm_set (tm_row T) (tm_col T - 1) \<lparr> sy_symbol = 0, sy_fg_color = fg, sy_bg_color = bg \<rparr> (T\<lparr> tm_col := tm_col T - 1 \<rparr>)
      else
        let T = tm_set (tm_row T) (tm_col T) \<lparr> sy_symbol = ch, sy_fg_color = fg, sy_bg_color = bg \<rparr> T in
        if Suc (tm_col T) < length blank_line then T\<lparr> tm_col := Suc (tm_col T) \<rparr> else tm_newline blank_line T)"

text \<open>
  The console and the terminal: the history is the lines one after the other, the cursor is counted from the
  last \<open>h\<close> lines, and the screen shows the \<open>h\<close> lines the view is at.
\<close>

definition kon_rel :: "nat \<Rightarrow> nat \<Rightarrow> nat \<Rightarrow> nat \<Rightarrow> konsole_t \<Rightarrow> terminal \<Rightarrow> bool" where
  "kon_rel W H w h k T \<longleftrightarrow> kon_base W H w h k \<and> shows_cells w h k \<and> k_cells k = concat (tm_lines T) \<and>
     (\<forall>l \<in> set (tm_lines T). length l = w) \<and> h \<le> length (tm_lines T) \<and> w dvd unat (k_start k) \<and>
     k_x k = of_nat (tm_col T) \<and> tm_col T < w \<and>
     (\<exists>y < h. k_y k = of_nat y \<and> tm_row T + h = length (tm_lines T) + y)"

lemma length_concat_lines: "\<forall>l \<in> set ls. length l = w \<Longrightarrow> length (concat ls) = length ls * w"
  by (induction ls) auto

lemma concat_set_cell:
  "\<forall>l \<in> set ls. length l = w \<Longrightarrow> r < length ls \<Longrightarrow> c < w \<Longrightarrow>
   concat (ls[r := (ls ! r)[c := v]]) = (concat ls)[r * w + c := v]"
proof (induction ls arbitrary: r)
  case (Cons l ls)
  show ?case
  proof (cases r)
    case 0
    then show ?thesis using Cons.prems by (simp add: list_update_append)
  next
    case (Suc r')
    then show ?thesis using Cons.IH [of r'] Cons.prems by (simp add: list_update_append add.assoc)
  qed
qed simp

lemma count_lines:
  assumes "kon_rel W H w h k T"
  shows "unat (da_count (k_history k)) = length (tm_lines T) * w"
proof -
  have "k_cells k = concat (tm_lines T)" "\<forall>l \<in> set (tm_lines T). length l = w" using assms by (simp_all add: kon_rel_def)
  then show ?thesis using length_concat_lines [of "tm_lines T" w] length_k_cells [of k] by simp
qed

text \<open>The console when the view is at the end of the history.\<close>

lemma at_end_start:
  assumes "kon_rel W H w h k T" "unat (k_start k) + h * w = unat (da_count (k_history k))"
  shows "unat (k_start k) = (length (tm_lines T) - h) * w"
proof -
  have "h \<le> length (tm_lines T)" using assms(1) by (simp add: kon_rel_def)
  then show ?thesis using assms(2) count_lines [OF assms(1)] by (simp add: diff_mult_distrib)
qed

lemma rel_scroll_to_end:
  assumes "kon_rel W H w h k T"
  shows "\<exists>k'. scroll_to_end k = Some (Inr k') \<and> kon_rel W H w h k' T \<and> unat (k_start k') + h * w = unat (da_count (k_history k')) \<and>
    k_empty k' = k_empty k \<and> k_fg_color k' = k_fg_color k \<and> k_bg_color k' = k_bg_color k"
proof -
  have r: "kon_base W H w h k" "shows_cells w h k" "w dvd unat (k_start k)" "w dvd unat (da_count (k_history k))"
    using assms count_lines [OF assms] by (simp_all add: kon_rel_def)
  obtain start s where s: "scroll_to_end k = Some (Inr (k\<lparr> k_start := start, k_composer := s \<rparr>))"
    "unat start + h * w = unat (da_count (k_history k))"
    "kon_base W H w h (k\<lparr> k_start := start, k_composer := s \<rparr>)" "shows_cells w h (k\<lparr> k_start := start, k_composer := s \<rparr>)"
    using scroll_to_end_ok [OF r] by blast
  have "w dvd unat start" using s(2) r(4) by (metis dvd_add_left_iff dvd_triv_right)
  then have "kon_rel W H w h (k\<lparr> k_start := start, k_composer := s \<rparr>) T"
    using assms s(3,4) by (simp add: kon_rel_def k_cells_def)
  then show ?thesis using s(1,2) by auto
qed

lemma rel_set_value:
  assumes "kon_rel W H w h k T" "unat (k_start k) + h * w = unat (da_count (k_history k))" "c < w"
  shows "\<exists>k'. konsole_set_value (of_nat c) (k_y k) v k = Inr k' \<and> kon_rel W H w h k' (tm_set (tm_row T) c v T) \<and>
    unat (k_start k') + h * w = unat (da_count (k_history k')) \<and>
    k_empty k' = k_empty k \<and> k_fg_color k' = k_fg_color k \<and> k_bg_color k' = k_bg_color k \<and> k_x k' = k_x k \<and> k_y k' = k_y k \<and>
    da_count (k_history k') = da_count (k_history k)"
proof -
  note r = assms(1) [unfolded kon_rel_def]
  obtain y where y: "y < h" "k_y k = of_nat y" "tm_row T + h = length (tm_lines T) + y" using r by blast
  have b: "kon_base W H w h k" "shows_cells w h k" using r by simp_all
  obtain s a where s: "konsole_set_value (of_nat c) (of_nat y) v k = Inr (k\<lparr> k_composer := s, k_history := a \<rparr>)"
    "kon_base W H w h (k\<lparr> k_composer := s, k_history := a \<rparr>)" "shows_cells w h (k\<lparr> k_composer := s, k_history := a \<rparr>)"
    "da_count a = da_count (k_history k)"
    "k_cells (k\<lparr> k_composer := s, k_history := a \<rparr>) = (k_cells k)[unat (k_start k) + y * w + c := v]"
    using set_value_ok [OF b assms(3) y(1), of v] by blast
  have row: "tm_row T < length (tm_lines T)" using y r by linarith
  have "tm_row T = length (tm_lines T) - h + y" using y(3) r by linarith
  then have "unat (k_start k) + y * w + c = tm_row T * w + c"
    using at_end_start [OF assms(1,2)] by (simp add: add_mult_distrib)
  then have cells: "k_cells (k\<lparr> k_composer := s, k_history := a \<rparr>) = concat (tm_lines (tm_set (tm_row T) c v T))"
    using s(5) concat_set_cell [OF _ row assms(3), of v] r by (simp add: tm_set_def)
  have ll: "\<forall>l \<in> set (tm_lines T). length l = w" using r by simp
  then have len: "length (tm_lines T ! tm_row T) = w" using row by simp
  have "kon_rel W H w h (k\<lparr> k_composer := s, k_history := a \<rparr>) (tm_set (tm_row T) c v T)"
    unfolding kon_rel_def
  proof (intro conjI)
    show "\<forall>l \<in> set (tm_lines (tm_set (tm_row T) c v T)). length l = w"
    proof
      fix l assume "l \<in> set (tm_lines (tm_set (tm_row T) c v T))"
      then have "l \<in> insert ((tm_lines T ! tm_row T)[c := v]) (set (tm_lines T))"
        using set_update_subset_insert [of "tm_lines T" "tm_row T" "(tm_lines T ! tm_row T)[c := v]"] by (auto simp: tm_set_def)
      then show "length l = w" using ll len by auto
    qed
    show "\<exists>y < h. k_y (k\<lparr> k_composer := s, k_history := a \<rparr>) = of_nat y \<and>
      tm_row (tm_set (tm_row T) c v T) + h = length (tm_lines (tm_set (tm_row T) c v T)) + y"
      using y by (intro exI [of _ y]) (simp add: tm_set_def)
    show "k_cells (k\<lparr> k_composer := s, k_history := a \<rparr>) = concat (tm_lines (tm_set (tm_row T) c v T))" by (rule cells)
  qed (use r s(2,3) in \<open>simp_all add: tm_set_def\<close>)
  then show ?thesis using s(1,4) assms(2) y(2) by auto
qed

lemma tm_set_simps [simp]: "tm_row (tm_set r c v T) = tm_row T" "tm_col (tm_set r c v T) = tm_col T"
  "length (tm_lines (tm_set r c v T)) = length (tm_lines T)"
  by (simp_all add: tm_set_def)

definition at_end :: "nat \<Rightarrow> nat \<Rightarrow> konsole_t \<Rightarrow> bool" where
  "at_end w h k \<longleftrightarrow> unat (k_start k) + h * w = unat (da_count (k_history k))"

definition same_pens :: "konsole_t \<Rightarrow> konsole_t \<Rightarrow> bool" where
  "same_pens k k' \<longleftrightarrow> k_empty k' = k_empty k \<and> k_fg_color k' = k_fg_color k \<and> k_bg_color k' = k_bg_color k"

lemma same_pens_trans: "same_pens a b \<Longrightarrow> same_pens b c \<Longrightarrow> same_pens a c"
  by (simp add: same_pens_def)

text \<open>The end of a line: down, and a new line if it was the last.\<close>

lemma rel_newline:
  assumes "kon_rel W H w h k T" "at_end w h k" "96 * (unat (da_count (k_history k)) + w) < 2 ^ 32" "\<And>n. length (junk n) = n"
    and k1: "k1 = k\<lparr> k_x := 0, k_y := k_y k + 1 \<rparr>"
  shows "\<exists>k'. (if k_h k1 \<le>s k_y k1 then konsole_scroll_down junk k1 else Inr k1) = Inr k' \<and>
    kon_rel W H w h k' (tm_newline (replicate w (k_empty k)) T) \<and> at_end w h k' \<and> same_pens k k'"
proof -
  note r = assms(1) [unfolded kon_rel_def]
  obtain y where y: "y < h" "k_y k = of_nat y" "tm_row T + h = length (tm_lines T) + y" using r by blast
  have b: "kon_base W H w h k" "shows_cells w h k" and ll: "\<forall>l \<in> set (tm_lines T). length l = w" and cells: "k_cells k = concat (tm_lines T)"
    and hl: "h \<le> length (tm_lines T)" and dv: "w dvd unat (k_start k)" using r by simp_all
  note d = kon_baseD [OF b(1)]
  have y1: "k_y k1 = of_nat (Suc y)" by (simp add: k1 y(2))
  have "sint (of_nat (Suc y) :: i32) = int (Suc y)" by (rule sint_nat) (use y(1) d(2) in simp)
  then have test: "k_h k1 \<le>s k_y k1 \<longleftrightarrow> Suc y = h" using y(1) d(7) unfolding y1 by (auto simp: word_sle_eq k1)
  have b1: "kon_base W H w h k1" using b(1) by (simp add: k1 kon_base_def kon_layer_def)
  show ?thesis
  proof (cases "Suc y = h")
    case True
    have "unat (k_start k1) + h * w = unat (da_count (k_history k1))" "96 * (unat (da_count (k_history k1)) + w) < 2 ^ 32"
      using assms(2,3) by (simp_all add: k1 at_end_def)
    from scroll_down_ok [OF b1 this assms(4)] obtain a start s where s:
      "konsole_scroll_down junk k1 = Inr (k1\<lparr> k_history := a, k_start := start, k_composer := s, k_y := of_nat (h - 1) \<rparr>)"
      "unat start = unat (k_start k1) + w" "kon_base W H w h (k1\<lparr> k_history := a, k_start := start, k_composer := s, k_y := of_nat (h - 1) \<rparr>)"
      "shows_cells w h (k1\<lparr> k_history := a, k_start := start, k_composer := s, k_y := of_nat (h - 1) \<rparr>)"
      "map get_symbol (da_list a) = k_cells k1 @ replicate w (k_empty k1)" by blast
    let ?k = "k1\<lparr> k_history := a, k_start := start, k_composer := s, k_y := of_nat (h - 1) \<rparr>"
    have c1: "k_cells ?k = concat (tm_lines T) @ replicate w (k_empty k)" using s(5) cells by (simp add: k_cells_def k1)
    have row: "Suc (tm_row T) = length (tm_lines T)" using y(3) True by linarith
    have nl: "tm_newline (replicate w (k_empty k)) T = T\<lparr> tm_lines := tm_lines T @ [replicate w (k_empty k)], tm_row := Suc (tm_row T), tm_col := 0 \<rparr>"
      using row by (simp add: tm_newline_def)
    have "kon_rel W H w h ?k (tm_newline (replicate w (k_empty k)) T)"
      unfolding kon_rel_def
    proof (intro conjI)
      show "w dvd unat (k_start ?k)" using s(2) dv by (simp add: k1)
      show "\<exists>y < h. k_y ?k = of_nat y \<and>
        tm_row (tm_newline (replicate w (k_empty k)) T) + h = length (tm_lines (tm_newline (replicate w (k_empty k)) T)) + y"
        using row True by (intro exI [of _ "h - 1"]) (auto simp: nl)
    qed (use s(3,4) c1 ll hl d(8) in \<open>auto simp: nl k1\<close>)
    moreover have "at_end w h ?k"
      using s(2) assms(2) arg_cong [OF s(5), of length] by (simp add: at_end_def k1)
    moreover have "same_pens k ?k" by (simp add: same_pens_def k1)
    ultimately show ?thesis using s(1) test True by auto
  next
    case False
    have row: "Suc (tm_row T) < length (tm_lines T)" using y(1,3) False by linarith
    then have nl: "tm_newline (replicate w (k_empty k)) T = T\<lparr> tm_row := Suc (tm_row T), tm_col := 0 \<rparr>" by (simp add: tm_newline_def)
    have sc: "shows_cells w h k1" using b(2) by (simp add: shows_cells_def screen_def k_cells_def k1)
    have "kon_rel W H w h k1 (tm_newline (replicate w (k_empty k)) T)"
      unfolding kon_rel_def
    proof (intro conjI)
      show "\<exists>y < h. k_y k1 = of_nat y \<and>
        tm_row (tm_newline (replicate w (k_empty k)) T) + h = length (tm_lines (tm_newline (replicate w (k_empty k)) T)) + y"
        using y False y1 by (intro exI [of _ "Suc y"]) (auto simp: nl)
    qed (use b1 sc cells ll hl dv d(8) in \<open>simp_all add: nl k1 k_cells_def\<close>)
    then show ?thesis using test False assms(2) by (auto simp: at_end_def same_pens_def k1)
  qed
qed

text \<open>One step to the right and one to the left.\<close>

lemma rel_step_right:
  assumes "kon_rel W H w h k T" "at_end w h k" "96 * (unat (da_count (k_history k)) + w) < 2 ^ 32" "\<And>n. length (junk n) = n"
  shows "\<exists>k'. konsole_pos_shift junk 1 k = Inr k' \<and> at_end w h k' \<and> same_pens k k' \<and>
    kon_rel W H w h k' (if Suc (tm_col T) < w then T\<lparr> tm_col := Suc (tm_col T) \<rparr> else tm_newline (replicate w (k_empty k)) T)"
proof -
  note r = assms(1) [unfolded kon_rel_def]
  obtain y where y: "y < h" "k_y k = of_nat y" "tm_row T + h = length (tm_lines T) + y" using r by blast
  have b: "kon_base W H w h k" and x: "k_x k = of_nat (tm_col T)" "tm_col T < w" using r by simp_all
  note d = kon_baseD [OF b]
  have w0: "k_w k \<noteq> 0" using d(4,8) by auto
  have sx: "sint (of_nat (Suc (tm_col T)) :: i32) = int (Suc (tm_col T))" by (rule sint_nat) (use x(2) d(1) in simp)
  have sw: "k\<lparr> k_y := a, k_x := b \<rparr> = k\<lparr> k_x := b, k_y := a \<rparr>" for a b by simp
  have k1: "konsole_pos_shift junk 1 k = (if Suc (tm_col T) < w then Inr (k\<lparr> k_x := of_nat (Suc (tm_col T)) \<rparr>)
      else let k1 = k\<lparr> k_x := 0, k_y := k_y k + 1 \<rparr> in if k_h k1 \<le>s k_y k1 then konsole_scroll_down junk k1 else Inr k1)"
  proof (cases "w = 1")
    case True
    have "tm_col T = 0" using x(2) True by simp
    then show ?thesis using w0 d(6) True x(1) by (simp add: konsole_pos_shift_def Let_def signed_divide_int_def signed_modulo_int_def sw)
  next
    case False
    then have w: "1 < int w" using d(8) by simp
    have "1 sdiv int w = 0" "1 smod int w = 1" using w by (simp_all add: signed_divide_int_def signed_modulo_int_def)
    moreover have "int (Suc (tm_col T)) sdiv int w = (if Suc (tm_col T) < w then 0 else 1)"
      "int (Suc (tm_col T)) smod int w = (if Suc (tm_col T) < w then int (Suc (tm_col T)) else 0)"
    proof -
      have nx: "int (Suc (tm_col T)) = int w" if "\<not> Suc (tm_col T) < w" using that x(2) by simp
      have pos: "sgn (int (Suc (tm_col T))) = 1" by simp
      show "int (Suc (tm_col T)) sdiv int w = (if Suc (tm_col T) < w then 0 else 1)"
        "int (Suc (tm_col T)) smod int w = (if Suc (tm_col T) < w then int (Suc (tm_col T)) else 0)"
        by (cases "Suc (tm_col T) < w"; use nx pos w in \<open>simp add: signed_divide_int_def signed_modulo_int_def del: of_nat_Suc\<close>)+
    qed
    moreover have "k_x k + 1 = of_nat (Suc (tm_col T))" by (simp add: x(1) add.commute)
    moreover have "\<not> k_h k \<le>s k_y k"
    proof -
      have "sint (of_nat y :: i32) = int y" by (rule sint_nat) (use y(1) d(2) in simp)
      then show ?thesis using y(1,2) d(7) by (simp add: word_sle_eq)
    qed
    ultimately show ?thesis using w0 d(6) sx by (simp add: konsole_pos_shift_def Let_def sw del: of_nat_Suc)
  qed
  show ?thesis
  proof (cases "Suc (tm_col T) < w")
    case True
    have "kon_rel W H w h (k\<lparr> k_x := of_nat (Suc (tm_col T)) \<rparr>) (T\<lparr> tm_col := Suc (tm_col T) \<rparr>)"
      using r True by (auto simp: kon_rel_def kon_base_def kon_layer_def shows_cells_def screen_def k_cells_def)
    then show ?thesis using k1 True assms(2) by (auto simp: at_end_def same_pens_def)
  next
    case False
    then show ?thesis using k1 rel_newline [OF assms refl] by (auto simp: Let_def)
  qed
qed

lemma rel_step_left:
  assumes "kon_rel W H w h k T" "at_end w h k" "0 < tm_col T"
  shows "\<exists>k'. konsole_pos_shift junk (- 1) k = Inr k' \<and> at_end w h k' \<and> same_pens k k' \<and> da_count (k_history k') = da_count (k_history k) \<and>
    kon_rel W H w h k' (T\<lparr> tm_col := tm_col T - 1 \<rparr>)"
proof -
  note r = assms(1) [unfolded kon_rel_def]
  obtain y where y: "y < h" "k_y k = of_nat y" "tm_row T + h = length (tm_lines T) + y" using r by blast
  have b: "kon_base W H w h k" and x: "k_x k = of_nat (tm_col T)" "tm_col T < w" using r by simp_all
  note d = kon_baseD [OF b]
  have w0: "k_w k \<noteq> 0" using d(4,8) by auto
  have w: "1 < int w" using assms(3) x(2) by simp
  have x1: "k_x k + (- 1) = of_nat (tm_col T - 1)" using assms(3) x(1) by simp
  have sx: "sint (of_nat (tm_col T - 1) :: i32) = int (tm_col T - 1)" by (rule sint_nat) (use x(2) d(1) in simp)
  have "- 1 sdiv int w = 0" "- 1 smod int w = - 1" using w by (simp_all add: signed_divide_int_def signed_modulo_int_def)
  moreover have "int (tm_col T - 1) sdiv int w = 0" "int (tm_col T - 1) smod int w = int (tm_col T - 1)"
    using x(2) w by (auto simp: signed_divide_int_def signed_modulo_int_def)
  moreover have "\<not> k_h k \<le>s k_y k"
  proof -
    have "sint (of_nat y :: i32) = int y" by (rule sint_nat) (use y(1) d(2) in simp)
    then show ?thesis using y(1,2) d(7) by (simp add: word_sle_eq)
  qed
  ultimately have run: "konsole_pos_shift junk (- 1) k = Inr (k\<lparr> k_x := of_nat (tm_col T - 1) \<rparr>)"
    using w0 d(6) sx x1 by (simp add: konsole_pos_shift_def Let_def)
  have "kon_rel W H w h (k\<lparr> k_x := of_nat (tm_col T - 1) \<rparr>) (T\<lparr> tm_col := tm_col T - 1 \<rparr>)"
    using r by (auto simp: kon_rel_def kon_base_def kon_layer_def shows_cells_def screen_def k_cells_def)
  then show ?thesis using run assms(2) by (auto simp: at_end_def same_pens_def)
qed

section \<open>Characters and text\<close>

lemma rel_putch:
  assumes "kon_rel W H w h k T" "96 * (unat (da_count (k_history k)) + w) < 2 ^ 32" "\<And>n. length (junk n) = n" "ch \<noteq> 0"
  shows "\<exists>k'. konsole_putch junk ch k = Some (Inr k') \<and> same_pens k k' \<and> at_end w h k' \<and>
    kon_rel W H w h k' (tm_putch (k_fg_color k) (k_bg_color k) (replicate w (k_empty k)) ch T)"
proof -
  obtain k1 where e: "scroll_to_end k = Some (Inr k1)" "kon_rel W H w h k1 T" "at_end w h k1" "same_pens k k1"
    using rel_scroll_to_end [OF assms(1)] by (auto simp: at_end_def same_pens_def)
  have cnt: "unat (da_count (k_history k1)) = unat (da_count (k_history k))" using count_lines [OF e(2)] count_lines [OF assms(1)] by simp
  have room: "96 * (unat (da_count (k_history k1)) + w) < 2 ^ 32" using assms(2) cnt by simp
  have pens: "k_empty k1 = k_empty k" "k_fg_color k1 = k_fg_color k" "k_bg_color k1 = k_bg_color k" using e(4) by (simp_all add: same_pens_def)
  have x: "k_x k1 = of_nat (tm_col T)" "tm_col T < w" and b: "kon_base W H w h k1" using e(2) by (simp_all add: kon_rel_def)
  note d = kon_baseD [OF b]
  have sx: "sint (of_nat (tm_col T) :: i32) = int (tm_col T)" by (rule sint_nat) (use x(2) d(1) in simp)
  consider "ch = 0x0A" | "ch = 0x08" "tm_col T = 0" | "ch = 0x08" "0 < tm_col T" | "ch \<noteq> 0x0A" "ch \<noteq> 0x08" by blast
  then show ?thesis
  proof cases
    case 1
    from rel_newline [OF e(2,3) room assms(3) refl] show ?thesis
      using e(1,4) 1 pens same_pens_trans by (auto simp: konsole_putch_def tm_putch_def Let_def)
  next
    case 2
    then have "\<not> 0 <s k_x k1" by (simp add: x(1))
    then show ?thesis using e 2 by (auto simp: konsole_putch_def tm_putch_def)
  next
    case 3
    have pos: "0 <s k_x k1" using 3(2) sx by (simp add: x(1) word_sless_alt)
    obtain k2 where k2: "konsole_pos_shift junk (- 1) k1 = Inr k2" "at_end w h k2" "same_pens k1 k2"
      "kon_rel W H w h k2 (T\<lparr> tm_col := tm_col T - 1 \<rparr>)" using rel_step_left [OF e(2,3) 3(2)] by blast
    have x2: "k_x k2 = of_nat (tm_col T - 1)" "tm_col T - 1 < w" using k2(4) by (simp_all add: kon_rel_def)
    let ?v = "\<lparr> sy_symbol = 0, sy_fg_color = k_fg_color k, sy_bg_color = k_bg_color k \<rparr>"
    obtain k3 where k3: "konsole_set_value (of_nat (tm_col T - 1)) (k_y k2) ?v k2 = Inr k3"
      "kon_rel W H w h k3 (tm_set (tm_row T) (tm_col T - 1) ?v (T\<lparr> tm_col := tm_col T - 1 \<rparr>))" "at_end w h k3" "same_pens k2 k3"
      using rel_set_value [OF k2(4) k2(2) [unfolded at_end_def] x2(2), of ?v] by (auto simp: at_end_def same_pens_def)
    have p2: "k_fg_color k2 = k_fg_color k" "k_bg_color k2 = k_bg_color k" using k2(3) pens by (simp_all add: same_pens_def)
    have "konsole_putch junk ch k = Some (Inr k3)"
      using assms(4) e(1) 3 pos k2(1) k3(1) x2(1) p2 by (simp add: konsole_putch_def)
    then show ?thesis using k3(2,3) 3 same_pens_trans [OF e(4) same_pens_trans [OF k2(3) k3(4)]] by (auto simp: tm_putch_def)
  next
    case 4
    let ?v = "\<lparr> sy_symbol = ch, sy_fg_color = k_fg_color k, sy_bg_color = k_bg_color k \<rparr>"
    let ?T = "tm_set (tm_row T) (tm_col T) ?v T"
    obtain k2 where k2: "konsole_set_value (of_nat (tm_col T)) (k_y k1) ?v k1 = Inr k2"
      "kon_rel W H w h k2 ?T" "at_end w h k2" "same_pens k1 k2" "da_count (k_history k2) = da_count (k_history k1)"
      using rel_set_value [OF e(2) e(3) [unfolded at_end_def] x(2), of ?v] by (auto simp: at_end_def same_pens_def)
    have room2: "96 * (unat (da_count (k_history k2)) + w) < 2 ^ 32" using room k2(5) by simp
    obtain k3 where k3: "konsole_pos_shift junk 1 k2 = Inr k3" "at_end w h k3" "same_pens k2 k3"
      "kon_rel W H w h k3 (if Suc (tm_col ?T) < w then ?T\<lparr> tm_col := Suc (tm_col ?T) \<rparr> else tm_newline (replicate w (k_empty k2)) ?T)"
      using rel_step_right [OF k2(2,3) room2 assms(3)] by blast
    have p2: "k_empty k2 = k_empty k" using k2(4) pens by (simp add: same_pens_def)
    have "konsole_putch junk ch k = Some (Inr k3)"
      using assms(4) e(1) 4 k2(1) k3(1) x(1) pens by (simp add: konsole_putch_def)
    moreover have "tm_putch (k_fg_color k) (k_bg_color k) (replicate w (k_empty k)) ch T =
        (if Suc (tm_col ?T) < w then ?T\<lparr> tm_col := Suc (tm_col ?T) \<rparr> else tm_newline (replicate w (k_empty k2)) ?T)"
      using 4 p2 by (simp add: tm_putch_def)
    ultimately show ?thesis using k3 same_pens_trans [OF e(4) same_pens_trans [OF k2(4) k3(3)]] by auto
  qed
qed

lemma tm_putch_lines: "length (tm_lines (tm_putch fg bg bl ch T)) \<le> Suc (length (tm_lines T))"
  by (simp add: tm_putch_def tm_newline_def Let_def)

lemma rel_print:
  assumes "kon_rel W H w h k T" "96 * (unat (da_count (k_history k)) + w * length str) < 2 ^ 32" "\<And>n. length (junk n) = n" "0 \<notin> set str"
  shows "\<exists>k'. konsole_print junk (str @ 0 # r) k = Some (Inr k') \<and> same_pens k k' \<and>
    kon_rel W H w h k' (fold (tm_putch (k_fg_color k) (k_bg_color k) (replicate w (k_empty k))) str T)"
  using assms(1,2,4)
proof (induction str arbitrary: k T)
  case Nil
  then show ?case by (auto simp: same_pens_def)
next
  case (Cons c str)
  have "96 * (unat (da_count (k_history k)) + w) < 2 ^ 32" using Cons.prems(2) by simp
  then obtain k1 where k1: "konsole_putch junk c k = Some (Inr k1)" "same_pens k k1"
    "kon_rel W H w h k1 (tm_putch (k_fg_color k) (k_bg_color k) (replicate w (k_empty k)) c T)"
    using rel_putch [OF Cons.prems(1) _ assms(3), of c] Cons.prems(3) by auto
  have "unat (da_count (k_history k1)) \<le> Suc (length (tm_lines T)) * w"
    using count_lines [OF k1(3)] tm_putch_lines by (metis mult_le_mono1)
  then have "96 * (unat (da_count (k_history k1)) + w * length str) < 2 ^ 32"
    using Cons.prems(2) count_lines [OF Cons.prems(1)] by (simp add: algebra_simps)
  then obtain k2 where "konsole_print junk (str @ 0 # r) k1 = Some (Inr k2)" "same_pens k1 k2"
    "kon_rel W H w h k2 (fold (tm_putch (k_fg_color k1) (k_bg_color k1) (replicate w (k_empty k1))) str
       (tm_putch (k_fg_color k) (k_bg_color k) (replicate w (k_empty k)) c T))"
    using Cons.IH [OF k1(3)] Cons.prems(3) by auto
  then show ?case using k1 Cons.prems(3) same_pens_trans [OF k1(2)] by (auto simp: same_pens_def)
qed

text \<open>Formatted output: a null character is not printed.\<close>

lemma rel_put_chars:
  assumes "kon_rel W H w h k T" "96 * (unat (da_count (k_history k)) + w * length str) < 2 ^ 32" "\<And>n. length (junk n) = n"
  shows "\<exists>k'. put_chars junk str k = Some (Inr k') \<and> same_pens k k' \<and>
    kon_rel W H w h k' (fold (tm_putch (k_fg_color k) (k_bg_color k) (replicate w (k_empty k))) (filter (\<lambda>c. c \<noteq> 0) str) T)"
  using assms(1,2)
proof (induction str arbitrary: k T)
  case Nil
  then show ?case by (auto simp: same_pens_def)
next
  case (Cons c str)
  show ?case
  proof (cases "c = 0")
    case True
    have "konsole_putch junk 0 k = Some (Inr k)" by (simp add: konsole_putch_def)
    then show ?thesis using Cons True by simp
  next
    case False
    have "96 * (unat (da_count (k_history k)) + w) < 2 ^ 32" using Cons.prems(2) by simp
    then obtain k1 where k1: "konsole_putch junk c k = Some (Inr k1)" "same_pens k k1"
      "kon_rel W H w h k1 (tm_putch (k_fg_color k) (k_bg_color k) (replicate w (k_empty k)) c T)"
      using rel_putch [OF Cons.prems(1) _ assms(3) False] by auto
    have "unat (da_count (k_history k1)) \<le> Suc (length (tm_lines T)) * w"
      using count_lines [OF k1(3)] tm_putch_lines by (metis mult_le_mono1)
    then have "96 * (unat (da_count (k_history k1)) + w * length str) < 2 ^ 32"
      using Cons.prems(2) count_lines [OF Cons.prems(1)] by (simp add: algebra_simps)
    then obtain k2 where "put_chars junk str k1 = Some (Inr k2)" "same_pens k1 k2"
      "kon_rel W H w h k2 (fold (tm_putch (k_fg_color k1) (k_bg_color k1) (replicate w (k_empty k1))) (filter (\<lambda>c. c \<noteq> 0) str)
         (tm_putch (k_fg_color k) (k_bg_color k) (replicate w (k_empty k)) c T))"
      using Cons.IH [OF k1(3)] by auto
    then show ?thesis using k1 False same_pens_trans [OF k1(2)] by (auto simp: same_pens_def)
  qed
qed

section \<open>The view, the colours and an empty console\<close>

lemma dvd_step: "w dvd (a :: nat) \<Longrightarrow> w dvd b \<Longrightarrow> w dvd (if c then a - b else a)" "w dvd (a :: nat) \<Longrightarrow> w dvd b \<Longrightarrow> w dvd (if c then a + b else a)"
  by (simp_all add: dvd_diff_nat)

lemma rel_view:
  assumes "kon_rel W H w h k T"
  shows "\<exists>b k'. konsole_view_scroll_up k = Inr (b, k') \<and> kon_rel W H w h k' T"
    "\<exists>b k'. konsole_view_scroll_down k = Inr (b, k') \<and> kon_rel W H w h k' T"
proof -
  have r: "kon_base W H w h k" "shows_cells w h k" and dv: "w dvd unat (k_start k)" using assms by (simp_all add: kon_rel_def)
  have keep: "kon_rel W H w h (k\<lparr> k_start := start, k_composer := s \<rparr>) T"
    if "kon_base W H w h (k\<lparr> k_start := start, k_composer := s \<rparr>)" "shows_cells w h (k\<lparr> k_start := start, k_composer := s \<rparr>)" "w dvd unat start" for start s
    using that assms by (simp add: kon_rel_def k_cells_def)
  obtain b start s where u: "konsole_view_scroll_up k = Inr (b, k\<lparr> k_start := start, k_composer := s \<rparr>)"
    "unat start = (if b then unat (k_start k) - w else unat (k_start k))"
    "kon_base W H w h (k\<lparr> k_start := start, k_composer := s \<rparr>)" "shows_cells w h (k\<lparr> k_start := start, k_composer := s \<rparr>)"
    using view_scroll_up_ok [OF r] by blast
  show "\<exists>b k'. konsole_view_scroll_up k = Inr (b, k') \<and> kon_rel W H w h k' T"
    using u(1) keep [OF u(3,4)] dvd_step(1) [OF dv dvd_refl] u(2) by metis
  obtain b start s where u: "konsole_view_scroll_down k = Inr (b, k\<lparr> k_start := start, k_composer := s \<rparr>)"
    "unat start = (if b then unat (k_start k) + w else unat (k_start k))"
    "kon_base W H w h (k\<lparr> k_start := start, k_composer := s \<rparr>)" "shows_cells w h (k\<lparr> k_start := start, k_composer := s \<rparr>)"
    using view_scroll_down_ok [OF r] by blast
  show "\<exists>b k'. konsole_view_scroll_down k = Inr (b, k') \<and> kon_rel W H w h k' T"
    using u(1) keep [OF u(3,4)] dvd_step(2) [OF dv dvd_refl] u(2) by metis
qed

lemma rel_set_color: "kon_rel W H w h k T \<Longrightarrow> kon_rel W H w h (konsole_set_color fg bg k) T"
  by (simp add: konsole_set_color_def kon_rel_def kon_base_def kon_layer_def shows_cells_def screen_def k_cells_def)

lemma trim_ok:
  assumes "da_inv a" "da_es a = 12" "1 < n" "n \<le> unat (da_count a)"
  shows "\<exists>a'. trim_history (of_nat n) a = Inr a' \<and> da_inv a' \<and> da_es a' = 12 \<and> da_list a' = drop (unat (da_count a) - n) (da_list a)"
  using assms(1,2,4)
proof (induction "unat (da_count a)" arbitrary: a rule: less_induct)
  case less
  have c: "unat (da_count a) < 2 ^ 32" by (rule unat_less_2p32)
  then have u: "unat (of_nat n :: u32) = n" using less.prems(3) by (intro unat_of_nat_32) simp
  show ?case
  proof (cases "n < unat (da_count a)")
    case True
    have sh: "da_shape a" using less.prems(1) by (simp add: da_inv_def)
    have s: "unat (da_size a) \<le> 2 ^ 30" using da_shapeD(7,8) [OF sh] less.prems(2) by simp
    have "\<not> da_bad_pop a" using True assms(3) by (simp add: da_bad_pop_def)
    then obtain a1 where a1: "dynamic_array_pop_front a = Inr a1" "da_inv a1" "da_es a1 = 12" "da_list a1 = tl (da_list a)"
      using dynamic_array_pop_front_ok(2) [OF less.prems(1) s] less.prems(2) by auto
    have n1: "unat (da_count a1) = unat (da_count a) - 1" using arg_cong [OF a1(4), of length] by simp
    have lt: "unat (da_count a1) < unat (da_count a)" "n \<le> unat (da_count a1)" using n1 True by simp_all
    obtain a' where a': "trim_history (of_nat n) a1 = Inr a'" "da_inv a'" "da_es a' = 12" "da_list a' = drop (unat (da_count a1) - n) (da_list a1)"
      using less.hyps [OF lt(1) a1(2,3) lt(2)] by blast
    have "of_nat n < da_count a" using True u by (simp add: word_less_nat_alt)
    then have "trim_history (of_nat n) a = Inr a'" using a1(1) a'(1) by (subst trim_history.simps) simp
    moreover have "Suc (unat (da_count a) - 1 - n) = unat (da_count a) - n" using True by simp
    ultimately show ?thesis using a' a1(4) n1 by (auto simp: drop_Suc [symmetric])
  next
    case False
    then have "\<not> of_nat n < da_count a" "n = unat (da_count a)" using u less.prems(3) by (simp_all add: word_less_nat_alt)
    then show ?thesis using less.prems by (subst trim_history.simps) simp
  qed
qed

lemma list_update_blank: "i < length xs \<Longrightarrow> (replicate i b @ drop i xs)[i := b] = replicate (Suc i) b @ drop (Suc i) xs"
  by (simp add: list_update_append Cons_nth_drop_Suc [symmetric] replicate_app_Cons_same)

text \<open>A blank of the current colours.\<close>

definition blank :: "konsole_t \<Rightarrow> konsole_symbol_t" where
  "blank k = \<lparr> sy_symbol = 0x20, sy_fg_color = k_fg_color k, sy_bg_color = k_bg_color k \<rparr>"

definition blanked :: "nat \<Rightarrow> nat \<Rightarrow> nat \<Rightarrow> nat \<Rightarrow> nat \<Rightarrow> (nat \<times> nat) set \<Rightarrow> konsole_t \<Rightarrow> konsole_t \<Rightarrow> bool" where
  "blanked W H w h n A k t \<longleftrightarrow> (\<exists>s a. t = k\<lparr> k_composer := s, k_history := a \<rparr>) \<and> kon_base W H w h t \<and> shows_on A w h t \<and>
     k_cells t = replicate n (blank k) @ drop n (k_cells k)"

lemma blank_cell:
  assumes "blanked W H w h (y * w + x) A k t" "k_start k = 0" "x < w" "y < h"
  shows "\<exists>u. konsole_set_value (of_nat x) (of_nat y) \<lparr> sy_symbol = 0x20, sy_fg_color = k_fg_color t, sy_bg_color = k_bg_color t \<rparr> t = Inr u \<and>
    blanked W H w h (y * w + Suc x) (insert (y, x) A) k u"
proof -
  have t: "kon_base W H w h t" "shows_on A w h t" and c: "k_cells t = replicate (y * w + x) (blank k) @ drop (y * w + x) (k_cells k)"
    using assms(1) by (simp_all add: blanked_def)
  obtain s0 a0 where t0: "t = k\<lparr> k_composer := s0, k_history := a0 \<rparr>" using assms(1) by (auto simp: blanked_def)
  have b: "\<lparr> sy_symbol = 0x20, sy_fg_color = k_fg_color t, sy_bg_color = k_bg_color t \<rparr> = blank k" by (simp add: blank_def t0)
  obtain s a where s: "konsole_set_value (of_nat x) (of_nat y) (blank k) t = Inr (t\<lparr> k_composer := s, k_history := a \<rparr>)"
    "kon_base W H w h (t\<lparr> k_composer := s, k_history := a \<rparr>)" "shows_on (insert (y, x) A) w h (t\<lparr> k_composer := s, k_history := a \<rparr>)"
    "k_cells (t\<lparr> k_composer := s, k_history := a \<rparr>) = (k_cells t)[unat (k_start t) + y * w + x := blank k]"
    using set_cell_ok [OF t assms(3,4)] by blast
  have "y * w + x < length (k_cells t)" using unat_cell(2) [OF t(1) assms(3,4)] by simp
  then have lt: "y * w + x < length (k_cells k)" unfolding c by auto
  have "k_start t = 0" using assms(2) by (simp add: t0)
  then have "k_cells (t\<lparr> k_composer := s, k_history := a \<rparr>) = replicate (y * w + Suc x) (blank k) @ drop (y * w + Suc x) (k_cells k)"
    using s(4) list_update_blank [OF lt, of "blank k"] c by simp
  then show ?thesis unfolding b using s(1,2,3) by (auto simp: blanked_def t0)
qed

definition clear_cell :: "nat \<Rightarrow> nat \<Rightarrow> konsole_t \<Rightarrow> konsole_t res" where
  "clear_cell y x k = konsole_set_value (of_nat x) (of_nat y) \<lparr> sy_symbol = 0x20, sy_fg_color = k_fg_color k, sy_bg_color = k_bg_color k \<rparr> k"

lemma clear_row_ok:
  assumes "blanked W H w h (y * w) ({..<y} \<times> {..<w}) k t" "k_start k = 0" "y < h"
  shows "\<exists>u. rfor (clear_cell y) 0 w t = Inr u \<and> blanked W H w h (Suc y * w) ({..<Suc y} \<times> {..<w}) k u"
proof -
  have "\<exists>u. rfor (clear_cell y) 0 w t = Inr u \<and> blanked W H w h (y * w + w) ({..<y} \<times> {..<w} \<union> {y} \<times> {..<w}) k u"
  proof (rule rfor_inv [where P = "\<lambda>x. blanked W H w h (y * w + x) ({..<y} \<times> {..<w} \<union> {y} \<times> {..<x}) k" and lo = 0 and hi = w])
    fix x u assume x: "x < w" and u: "blanked W H w h (y * w + x) ({..<y} \<times> {..<w} \<union> {y} \<times> {..<x}) k u"
    have "insert (y, x) ({..<y} \<times> {..<w} \<union> {y} \<times> {..<x}) = {..<y} \<times> {..<w} \<union> {y} \<times> {..<Suc x}" by (auto simp: less_Suc_eq)
    then show "\<exists>v. clear_cell y x u = Inr v \<and> blanked W H w h (y * w + Suc x) ({..<y} \<times> {..<w} \<union> {y} \<times> {..<Suc x}) k v"
      using blank_cell [OF u assms(2) x assms(3)] by (simp add: clear_cell_def)
  qed (use assms(1) in simp_all)
  moreover have "{..<y} \<times> {..<w} \<union> {y} \<times> {..<w} = {..<Suc y} \<times> {..<w}" by (auto simp: less_Suc_eq)
  ultimately show ?thesis by (simp add: add.commute)
qed

lemma concat_blank_lines: "concat (replicate h (replicate w e)) = replicate (h * w) e"
  by (induction h) (simp_all add: replicate_add [symmetric] add.commute)

lemma rel_clear:
  assumes "kon_rel W H w h k T" "1 < h * w"
  shows "\<exists>k'. konsole_clear k = Inr k' \<and> same_pens k k' \<and>
    kon_rel W H w h k' \<lparr> tm_lines = replicate h (replicate w (blank k)), tm_row = 0, tm_col = 0 \<rparr>"
proof -
  have b: "kon_base W H w h k" using assms(1) by (simp add: kon_rel_def)
  note d = kon_baseD [OF b]
  have n: "h * w \<le> unat (da_count (k_history k))" using d(14) by linarith
  obtain a where a: "trim_history (of_nat (h * w)) (k_history k) = Inr a" "da_inv a" "da_es a = 12"
    "da_list a = drop (unat (da_count (k_history k)) - h * w) (da_list (k_history k))"
    using trim_ok [OF d(12,13) assms(2) n] by blast
  have na: "unat (da_count a) = h * w" using arg_cong [OF a(4), of length] n by simp
  let ?k = "k\<lparr> k_start := 0, k_history := a \<rparr>"
  have bk: "kon_base W H w h ?k" using b a na by (simp add: kon_base_def kon_layer_def)
  have start: "blanked W H w h 0 ({..<0} \<times> {..<w}) ?k ?k"
    using bk by (auto simp: blanked_def intro!: exI [of _ "k_composer k"] exI [of _ a])
  have "\<exists>u. rfor (\<lambda>y. rfor (clear_cell y) 0 w) 0 h ?k = Inr u \<and> blanked W H w h (h * w) ({..<h} \<times> {..<w}) ?k u"
  proof (rule rfor_inv [where P = "\<lambda>y. blanked W H w h (y * w) ({..<y} \<times> {..<w}) ?k" and lo = 0 and hi = h])
    show "blanked W H w h (0 * w) ({..<0} \<times> {..<w}) ?k ?k" using start by simp
  qed (auto dest: clear_row_ok simp del: mult_Suc)
  then obtain u where u: "rfor (\<lambda>y. rfor (clear_cell y) 0 w) 0 h ?k = Inr u" "blanked W H w h (h * w) ({..<h} \<times> {..<w}) ?k u" by blast
  have m: "k_w k * k_h k = of_nat (h * w)" by (simp add: d(10,11) mult.commute)
  have run: "konsole_clear k = Inr (u\<lparr> k_x := 0, k_y := 0 \<rparr>)"
    using a(1) u(1) by (simp add: konsole_clear_def m clear_cell_def [abs_def] d(6,7) del: of_nat_mult)
  obtain s a' where u': "u = ?k\<lparr> k_composer := s, k_history := a' \<rparr>" using u(2) by (auto simp: blanked_def)
  have cu: "k_cells u = replicate (h * w) (blank k)"
    using u(2) na by (simp add: blanked_def blank_def)
  have bu: "kon_base W H w h u" and su: "shows_cells w h u" using u(2) shows_on_all by (auto simp: blanked_def)
  have "kon_rel W H w h (u\<lparr> k_x := 0, k_y := 0 \<rparr>) \<lparr> tm_lines = replicate h (replicate w (blank k)), tm_row = 0, tm_col = 0 \<rparr>"
    unfolding kon_rel_def
  proof (intro conjI)
    show "kon_base W H w h (u\<lparr> k_x := 0, k_y := 0 \<rparr>)" using bu by (simp add: kon_base_def kon_layer_def)
    show "shows_cells w h (u\<lparr> k_x := 0, k_y := 0 \<rparr>)" using su by (simp add: shows_cells_def screen_def k_cells_def)
    show "k_cells (u\<lparr> k_x := 0, k_y := 0 \<rparr>) = concat (tm_lines \<lparr> tm_lines = replicate h (replicate w (blank k)), tm_row = 0, tm_col = 0 \<rparr>)"
      using cu by (simp add: k_cells_def concat_blank_lines)
  qed (use d(8,9) in \<open>auto simp: u'\<close>)
  then show ?thesis using run by (auto simp: same_pens_def u')
qed

section \<open>The start\<close>

lemma color_to_pixel_some: "channels_ok fb \<Longrightarrow> \<exists>p. color_to_pixel fb a r g b = Inr p"
  by (simp add: color_to_pixel_def)

lemma colors_init_ok: "channels_ok fb \<Longrightarrow> \<exists>c. colors_init fb = Inr c"
  by (simp add: colors_init_def RGB_def color_to_pixel_def)

lemma cell_pixel_plain: "sy_fg_color v = c \<Longrightarrow> sy_bg_color v = c \<Longrightarrow> cell_pixel font v j i = c"
  by (simp add: cell_pixel_def glyph_def)

text \<open>A console on a frame buffer: the first line is empty and the cursor is at its start.\<close>

lemma konsole_init_ok:
  assumes "channels_ok fb" "colors_init fb = Inr c" "length font = 4096" "\<And>n. length (junk n) = n" "\<And>n. length (junkw n) = n"
    "da_inv (cs_layers s)" "da_es (cs_layers s) = 4" "da_room (cs_layers s)" "k_ready k"
    and W: "W = unat (fb_width fb)" "H = unat (fb_height fb)" "8 \<le> W" "16 \<le> H" "W < 2 ^ 31" "H < 2 ^ 31" "W * H * 4 < 2 ^ 32"
  shows "\<exists>k'. konsole_init junk junkw font (color_black c) layer fb s k = Inr k' \<and>
    kon_rel W H (W div 8) (H div 16) k'
      \<lparr> tm_lines = replicate (H div 16) (replicate (W div 8) \<lparr> sy_symbol = 0x20, sy_fg_color = color_black c, sy_bg_color = color_black c \<rparr>),
        tm_row = 0, tm_col = 0 \<rparr>"
proof -
  let ?w = "W div 8" and ?h = "H div 16" and ?e = "\<lparr> sy_symbol = 0x20, sy_fg_color = color_black c, sy_bg_color = color_black c \<rparr>"
  have wh: "0 < ?w" "0 < ?h" "?w * 8 \<le> W" "?h * 16 \<le> H" using W(3,4) by (simp_all add: div_greater_zero_iff)
  have "(?w * 8) * (?h * 16) \<le> W * H" using wh(3,4) by (rule mult_le_mono)
  then have area: "128 * (?h * ?w) \<le> W * H" by (simp add: mult.commute mult.left_commute)
  have ws: "fb_width fb = of_nat W" "fb_height fb = of_nat H" by (simp_all add: W(1,2))
  have kw: "fb_width fb div 8 = of_nat ?w" "fb_height fb div 16 = of_nat ?h"
    by (rule word_unat_eq_iff [THEN iffD2]; use W(5,6) unat_of_nat_32 [of ?w] unat_of_nat_32 [of ?h] in \<open>simp add: unat_div W(1,2)\<close>)+
  have n: "unat (fb_width fb div 8 * (fb_height fb div 16)) = ?h * ?w"
  proof -
    have "fb_width fb div 8 * (fb_height fb div 16) = of_nat (?h * ?w)" by (simp add: kw mult.commute)
    moreover have "?h * ?w < 2 ^ 32" using area W(7) by linarith
    ultimately show ?thesis using unat_of_nat_32 by metis
  qed
  have es: "da_es (dynamic_array_create junk 12) = 12" "unat (da_count (dynamic_array_create junk 12)) = 0" by (simp_all add: dynamic_array_create_def)
  have rm: "96 * (unat (da_count (dynamic_array_create junk 12)) + ?h * ?w) < 2 ^ 32" 
  proof -
    have "128 * A \<le> P \<Longrightarrow> P * 4 < 2 ^ 32 \<Longrightarrow> 96 * (0 + A) < 2 ^ 32" for A P :: nat by simp
    from this [OF area W(7)] show ?thesis unfolding es .
  qed
  obtain a where a: "rfor (\<lambda>x a. dynamic_array_push_back junk a (put_symbol ?e)) 0 (?h * ?w) (dynamic_array_create junk 12) = Inr a"
    "da_inv a" "da_es a = 12" "da_list a = replicate (?h * ?w) (put_symbol ?e)"
    using push_blanks_ok [OF _ es(1) rm assms(4), of "put_symbol ?e" 0] dynamic_array_create_ok [of 12 junk] assms(4) by auto
  have na: "unat (da_count a) = ?h * ?w" using arg_cong [OF a(4), of length] by simp
  let ?ly = "\<lparr> ly_x_left = 0, ly_y_up = 0, ly_x_len = fb_width fb, ly_y_len = fb_height fb, ly_buff = replicate (W * H) (color_black c),
    ly_buff2 = replicate (W * H) (color_black c), ly_busy_lock = 0, ly_z_index = 10, ly_flags = LAYER_OPAQUE OR LAYER_VISIBLE \<rparr>"
  have m: "unat (fb_width fb * fb_height fb) = W * H"
  proof -
    have "fb_width fb * fb_height fb = of_nat (W * H)" by (simp add: ws)
    moreover have "W * H < 2 ^ 32" using W(7) by linarith
    ultimately show ?thesis using unat_of_nat_32 by metis
  qed
  have m4: "unat (fb_width fb * fb_height fb * 4) div 4 = W * H"
  proof -
    have "fb_width fb * fb_height fb * 4 = of_nat (W * H * 4)" by (simp add: ws)
    then have "unat (fb_width fb * fb_height fb * 4) = W * H * 4" using unat_of_nat_32 [OF W(7)] by metis
    then show ?thesis by simp
  qed
  have ly: "layer_init (color_black c) junkw 0 0 (fb_width fb) (fb_height fb) 10 (LAYER_OPAQUE OR LAYER_VISIBLE) = Inr ?ly"
    unfolding layer_init_def Let_def m4 layer_clean_def by (simp add: m assms(5))
  let ?ly' = "?ly\<lparr> ly_flags := (LAYER_OPAQUE OR LAYER_VISIBLE) OR LAYER_PRESENT \<rparr>"
  obtain la where la: "dynamic_array_push_back junk (cs_layers s) (put32 layer) = Inr la"
    using dynamic_array_push_back_ok [OF assms(6,8), of "put32 layer" junk] assms(4,7) by auto
  let ?s = "s\<lparr> cs_heap := (cs_heap s)(layer \<mapsto> ?ly'), cs_layers := la \<rparr>"
  have cl: "composer_create_layer junk junkw (color_black c) layer 0 0 (fb_width fb) (fb_height fb) 10 (LAYER_OPAQUE OR LAYER_VISIBLE) s = Inr (layer, ?s)"
    by (simp add: composer_create_layer_def composer_add_layer_def on_layer_def ly la)
  let ?k = "k\<lparr> k_empty := ?e, k_w := fb_width fb div 8, k_h := fb_height fb div 16, k_font := font, k_x := 0, k_y := 0, k_history := a, k_start := 0,
    k_bg_color := color_black c, k_fg_color := color_white c, k_layer := layer, k_composer := ?s \<rparr>"
  have run: "konsole_init junk junkw font (color_black c) layer fb s k = Inr ?k"
    using a(1) by (simp add: konsole_init_def Let_def n assms(2) cl konsole_set_base_color_def konsole_set_color_def)
  have lk: "kon_layer W H ?k" 
  proof -
    have "W * H < 2 ^ 32" using W(7) by linarith
    then show ?thesis using W(5,6) unfolding kon_layer_def layer_dims_def by (intro exI [of _ ?ly']) (simp add: ws)
  qed
  have cells: "k_cells ?k = replicate (?h * ?w) ?e" by (simp add: k_cells_def a(4))
  have base: "kon_base W H ?w ?h ?k"
    using lk assms(3,9) a(2,3) na wh kw by (simp add: kon_base_def)
  have uW: "unat (fb_width fb) = W" using W(1) by simp
  have shows_it: "shows_cells ?w ?h ?k"
    unfolding shows_cells_def cells
  proof (intro allI impI)
    fix Y X assume Y: "Y < ?h * 16" "X < ?w * 8"
    then have lt: "Y < H" "X < W" "Y div 16 < ?h" "X div 8 < ?w" using wh(3,4) by (auto simp: less_mult_imp_div_less)
    have "screen ?k Y X = color_black c" using pix_index [OF lt(2,1)] by (simp add: screen_def pix_def uW)
    moreover have "replicate (?h * ?w) ?e ! (unat (k_start ?k) + Y div 16 * ?w + X div 8) = ?e"
      using cell_index [OF lt(4,3)] by simp
    ultimately show "screen ?k Y X = cell_pixel (k_font ?k) (replicate (?h * ?w) ?e ! (unat (k_start ?k) + Y div 16 * ?w + X div 8)) (Y mod 16) (X mod 8)"
      by (simp add: cell_pixel_plain)
  qed
  have "kon_rel W H ?w ?h ?k \<lparr> tm_lines = replicate ?h (replicate ?w ?e), tm_row = 0, tm_col = 0 \<rparr>"
    unfolding kon_rel_def
  proof (intro conjI)
    show "k_cells ?k = concat (tm_lines \<lparr> tm_lines = replicate ?h (replicate ?w ?e), tm_row = 0, tm_col = 0 \<rparr>)"
      using cells by (simp add: concat_blank_lines)
  qed (use base shows_it wh in auto)
  then show ?thesis using run by blast
qed

section \<open>Properties\<close>

text \<open>A frame buffer of 16 by 16 pixels: a console of two columns and one row.\<close>

definition ex_fb :: framebuffer_t where
  "ex_fb = \<lparr> fb_width = 16, fb_height = 16, fb_pitch = 64, fb_bpp = 32, fb_lfb_phys = 0xE0000000, fb_red_pos = 16, fb_red_size = 8,
     fb_green_pos = 8, fb_green_size = 8, fb_blue_pos = 0, fb_blue_size = 8, fb_alpha_pos = 24, fb_alpha_size = 8, fb_size_bytes = 1024,
     fb_back = replicate 256 0, fb_lfb = replicate 1024 0 \<rparr>"

definition ex_black :: konsole_symbol_t where
  "ex_black = \<lparr> sy_symbol = 0x20, sy_fg_color = 0xFF000000, sy_bg_color = 0xFF000000 \<rparr>"

definition ex_zeros :: "nat \<Rightarrow> bytes" where
  "ex_zeros n = replicate n 0"

lemma ex_konsole:
  "\<exists>k. kon_rel 16 16 2 1 k \<lparr> tm_lines = [[ex_black, ex_black]], tm_row = 0, tm_col = 0 \<rparr> \<and> k_empty k = ex_black \<and>
     k_fg_color k = 0xFFFFFFFF \<and> k_bg_color k = 0xFF000000"
proof -
  have ok: "channels_ok ex_fb" by (simp add: channels_ok_def ex_fb_def)
  then obtain c where c: "colors_init ex_fb = Inr c" using colors_init_ok by blast
  have "color_to_pixel ex_fb 255 0 0 0 = Inr 0xFF000000" "color_to_pixel ex_fb 255 255 255 255 = Inr 0xFFFFFFFF" by code_simp+
  then have col: "color_black c = 0xFF000000" "color_white c = 0xFFFFFFFF"
    using c by (auto simp: colors_init_def RGB_def rbind_eq_Inr)
  let ?s = "composer_init ex_zeros 0"
  have s: "da_inv (cs_layers ?s)" "da_es (cs_layers ?s) = 4" "da_room (cs_layers ?s)"
    using dynamic_array_create_ok [of 4 ex_zeros] by (simp_all add: composer_init_def ex_zeros_def da_room_def) (simp_all add: dynamic_array_create_def)
  obtain k0 :: konsole_t where k0: "k_ready k0" by (metis (no_types) konsole_t.select_convs(13))
  have "\<exists>k'. konsole_init ex_zeros (\<lambda>n. replicate n 0) (replicate 4096 0) (color_black c) 0x1000 ex_fb ?s k0 = Inr k' \<and>
    kon_rel 16 16 (16 div 8) (16 div 16) k'
      \<lparr> tm_lines = replicate (16 div 16) (replicate (16 div 8) \<lparr> sy_symbol = 0x20, sy_fg_color = color_black c, sy_bg_color = color_black c \<rparr>),
        tm_row = 0, tm_col = 0 \<rparr>"
    by (rule konsole_init_ok [OF ok c]) (use s k0 in \<open>simp_all add: ex_zeros_def ex_fb_def\<close>)
  then obtain k' where k': "konsole_init ex_zeros (\<lambda>n. replicate n 0) (replicate 4096 0) (color_black c) 0x1000 ex_fb ?s k0 = Inr k'"
    "kon_rel 16 16 2 1 k' \<lparr> tm_lines = [[ex_black, ex_black]], tm_row = 0, tm_col = 0 \<rparr>"
    by (auto simp: ex_black_def col numeral_2_eq_2)
  have "k_empty k' = ex_black \<and> k_fg_color k' = 0xFFFFFFFF \<and> k_bg_color k' = 0xFF000000"
    using k'(1) by (auto simp: konsole_init_def Let_def rbind_eq_Inr konsole_set_base_color_def konsole_set_color_def c ex_black_def col)
  then show ?thesis using k'(2) by blast
qed



end
