(* ===== verification/Composer_Correct.thy ===== *)
theory Composer_Correct
  imports Konsole_Terminal
begin

text \<open>
  The composer of \<^verbatim>\<open>gui/composer.c\<close>: what its preparation does to the array of the layers, and the picture
  it draws, as the layers laid one over the other.
\<close>

unbundle bit_operations_syntax

section \<open>The order of the layers\<close>

definition layer_key :: "(u32 \<Rightarrow> layer_t option) \<Rightarrow> bytes \<Rightarrow> nat" where
  "layer_key heap b = (let ly = the (heap (get32 b 0)) in
     nat (sint (ly_z_index ly) + 2 ^ 31) + (if has ly LAYER_PRESENT then 0 else 2 ^ 32))"

lemma z_range: "0 \<le> sint (z :: i32) + 2 ^ 31" "sint (z :: i32) + 2 ^ 31 < 2 ^ 32"
proof -
  have "- (2 ^ (LENGTH(32) - 1)) \<le> sint z" "sint z < 2 ^ (LENGTH(32) - 1)" by (rule sint_ge, rule sint_lt)
  then show "0 \<le> sint z + 2 ^ 31" "sint z + 2 ^ 31 < 2 ^ 32" by simp_all
qed

interpretation layer_order: sort_order "layer_less heap" "layer_key heap" for heap
proof
  fix x y
  let ?a = "the (heap (get32 x 0))" and ?b = "the (heap (get32 y 0))"
  have "nat (sint (ly_z_index ?a) + 2 ^ 31) < 2 ^ 32" "nat (sint (ly_z_index ?b) + 2 ^ 31) < 2 ^ 32"
    using z_range by (simp_all add: nat_less_iff)
  then show "layer_less heap x y \<longleftrightarrow> layer_key heap x < layer_key heap y"
    using z_range(1) [of "ly_z_index ?a"] z_range(1) [of "ly_z_index ?b"]
    by (auto simp: layer_less_def layer_key_def Let_def word_sless_alt)
qed

text \<open>The addresses in the array.\<close>

definition ptrs :: "composer_t \<Rightarrow> u32 list" where
  "ptrs s = map (\<lambda>b. get32 b 0) (da_list (cs_layers s))"

lemma length_ptrs [simp]: "length (ptrs s) = unat (da_count (cs_layers s))"
  by (simp add: ptrs_def)

lemma layer_ptr_ok:
  assumes "da_inv (cs_layers s)" "da_es (cs_layers s) = 4" "unat i < length (ptrs s)"
  shows "layer_ptr (cs_layers s) i = Inr (ptrs s ! unat i)"
proof -
  have "i < da_count (cs_layers s)" using assms(3) by (simp add: word_less_nat_alt)
  then obtain off where "dynamic_array_get_by_index (cs_layers s) i = Inr off" "unat off + 4 \<le> length (da_buffer (cs_layers s))"
    "take 4 (drop (unat off) (da_buffer (cs_layers s))) = da_list (cs_layers s) ! unat i"
    using dynamic_array_get_by_index_ok [OF assms(1)] assms(2) by auto
  then show ?thesis using assms(3) by (simp add: layer_ptr_def ptrs_def)
qed

definition present :: "composer_t \<Rightarrow> u32 \<Rightarrow> bool" where
  "present s p \<longleftrightarrow> has (the (cs_heap s p)) LAYER_PRESENT"

definition layers_ok :: "composer_t \<Rightarrow> bool" where
  "layers_ok s \<longleftrightarrow> da_inv (cs_layers s) \<and> da_es (cs_layers s) = 4 \<and> distinct (ptrs s) \<and> (\<forall>p \<in> set (ptrs s). cs_heap s p \<noteq> None)"

lemma ptrs_upd [simp]: "ptrs (s\<lparr> cs_heap := h \<rparr>) = ptrs s" "ptrs (s\<lparr> cs_seed := e \<rparr>) = ptrs s"
  by (simp_all add: ptrs_def)

lemma drop_erased_ok:
  assumes "layers_ok s" "ptrs s = P @ E" "2 \<le> length P" "\<forall>p \<in> set P. present s p" "\<forall>p \<in> set E. \<not> present s p"
  shows "\<exists>a. drop_erased s = Some (Inr (s\<lparr> cs_layers := a, cs_heap := (\<lambda>p. if p \<in> set E then None else cs_heap s p) \<rparr>)) \<and>
    da_inv a \<and> da_es a = 4 \<and> map (\<lambda>b. get32 b 0) (da_list a) = P"
  using assms
proof (induction E arbitrary: s rule: rev_induct)
  case Nil
  have n: "0 < da_count (cs_layers s)" "unat (da_count (cs_layers s)) = length P"
    using Nil.prems(2,3) length_ptrs [of s] by (simp_all add: word_less_nat_alt)
  have "unat (da_count (cs_layers s) - 1) = length P - 1" using n by (simp add: unat_minus_one)
  have ne: "P \<noteq> []" using Nil.prems(3) by auto
  have p: "layer_ptr (cs_layers s) (da_count (cs_layers s) - 1) = Inr (last P)"
    using \<open>unat (da_count (cs_layers s) - 1) = length P - 1\<close> layer_ptr_ok [of s "da_count (cs_layers s) - 1"] Nil.prems(1,2,3) n(2) by (simp add: layers_ok_def last_conv_nth [OF ne])
  have "last P \<in> set P" using Nil.prems(3) by (cases P) auto
  then have "cs_heap s (last P) \<noteq> None" "present s (last P)" using Nil.prems by (auto simp: layers_ok_def)
  then have "drop_erased s = Some (Inr s)"
    using n p by (subst drop_erased.simps) (auto simp: layer_at_def present_def)
  moreover have "s\<lparr> cs_layers := cs_layers s, cs_heap := (\<lambda>p. if p \<in> set [] then None else cs_heap s p) \<rparr> = s" by simp
  ultimately show ?case using Nil.prems by (intro exI [of _ "cs_layers s"]) (simp add: layers_ok_def ptrs_def)
next
  case (snoc e E)
  note ok = snoc.prems(1) [unfolded layers_ok_def]
  have n: "0 < da_count (cs_layers s)" "unat (da_count (cs_layers s)) = length P + length E + 1"
    using snoc.prems(2) length_ptrs [of s] by (simp_all add: word_less_nat_alt)
  have "unat (da_count (cs_layers s) - 1) = length P + length E" using n by (simp add: unat_minus_one)
  then have p: "layer_ptr (cs_layers s) (da_count (cs_layers s) - 1) = Inr e"
    using layer_ptr_ok [of s "da_count (cs_layers s) - 1"] ok snoc.prems(2) n(2) by (simp add: nth_append)
  obtain ly where ly: "cs_heap s e = Some ly" using ok snoc.prems(2) by auto
  have "\<not> has ly LAYER_PRESENT" using snoc.prems(5) ly by (simp add: present_def)
  have sh: "da_shape (cs_layers s)" using ok by (simp add: da_inv_def)
  have "unat (da_size (cs_layers s)) \<le> 2 ^ 30" using da_shapeD(7,8) [OF sh] ok by simp
  moreover have "\<not> da_bad_pop (cs_layers s)" using n(2) snoc.prems(3) by (simp add: da_bad_pop_def)
  ultimately obtain a where a: "dynamic_array_pop_back (cs_layers s) = Inr a" "da_inv a" "da_es a = 4" "da_list a = butlast (da_list (cs_layers s))"
    using dynamic_array_pop_back_ok(2) [of "cs_layers s"] ok by auto
  let ?s = "s\<lparr> cs_layers := a, cs_heap := (cs_heap s)(e := None) \<rparr>"
  have ps: "ptrs ?s = P @ E"
    using snoc.prems(2) a(4) by (simp add: ptrs_def map_butlast butlast_append)
  have new: "e \<notin> set P" "e \<notin> set E" using ok snoc.prems(2) by auto
  have "layers_ok ?s" using ok a(2,3) ps snoc.prems(2) new by (auto simp: layers_ok_def)
  moreover have "\<forall>p \<in> set P. present ?s p" "\<forall>p \<in> set E. \<not> present ?s p" using snoc.prems(4,5) new by (auto simp: present_def)
  ultimately obtain a' where a': "drop_erased ?s = Some (Inr (?s\<lparr> cs_layers := a', cs_heap := (\<lambda>p. if p \<in> set E then None else cs_heap ?s p) \<rparr>))"
    "da_inv a'" "da_es a' = 4" "map (\<lambda>b. get32 b 0) (da_list a') = P"
    using snoc.IH [OF _ ps snoc.prems(3)] by blast
  have "drop_erased s = drop_erased ?s"
    using n p a(1) ly \<open>\<not> has ly LAYER_PRESENT\<close> by (subst drop_erased.simps) (simp add: layer_at_def)
  moreover have "(\<lambda>p. if p \<in> set E then None else cs_heap ?s p) = (\<lambda>p. if p \<in> set (E @ [e]) then None else cs_heap s p)"
    by auto
  ultimately show ?case using a' by (intro exI [of _ a']) (simp only: fun_upd_apply, simp)
qed

lemma sorted_split:
  assumes "sorted (map f xs)" "\<And>x. x \<in> set xs \<Longrightarrow> (P x \<longleftrightarrow> f x < (n :: nat))"
  shows "xs = filter P xs @ filter (\<lambda>x. \<not> P x) xs"
  using assms
proof (induction xs)
  case (Cons x xs)
  show ?case
  proof (cases "P x")
    case False
    then have "n \<le> f x" using Cons.prems(2) [of x] by simp
    then have "\<not> P y" if "y \<in> set xs" for y using Cons.prems that by (force simp: not_less)
    then have "filter P xs = []" "filter (\<lambda>x. \<not> P x) xs = xs" by (auto simp: filter_empty_conv filter_id_conv)
    then show ?thesis using False by simp
  qed (use Cons in auto)
qed simp

lemma sorted_unkey:
  fixes z :: "'a \<Rightarrow> int"
  assumes "sorted (map (\<lambda>p. nat (z p + 2 ^ 31) + g p) ps)" "\<And>p. p \<in> set ps \<Longrightarrow> g p = 0" "\<And>p. 0 \<le> z p + 2 ^ 31"
  shows "sorted (map z ps)"
  using assms(1,2)
proof (induction ps)
  case (Cons p ps)
  have "z p \<le> z q" if "q \<in> set ps" for q
  proof -
    have "nat (z p + 2 ^ 31) \<le> nat (z q + 2 ^ 31)" using Cons.prems that by fastforce
    then show ?thesis using assms(3) [of q] assms(3) [of p] by (simp add: nat_le_eq_zle)
  qed
  then show ?case using Cons by auto
qed simp

lemma flush_prepare_ok:
  assumes "layers_ok s" "length (ptrs s) < 2 ^ 31" "2 \<le> length (filter (present s) (ptrs s))"
  shows "\<exists>s'. composer_flush_prepare s = Some (Inr s') \<and> layers_ok s' \<and> mset (ptrs s') = mset (filter (present s) (ptrs s)) \<and>
    sorted (map (\<lambda>p. sint (ly_z_index (the (cs_heap s p)))) (ptrs s')) \<and> cs_dirty s' = cs_dirty s \<and>
    cs_heap s' = (\<lambda>p. if p \<in> set (ptrs s) \<and> \<not> present s p then None else cs_heap s p)"
proof -
  note ok = assms(1) [unfolded layers_ok_def]
  let ?n = "length (ptrs s)" and ?k = "layer_key (cs_heap s)"
  have n: "da_count (cs_layers s) = of_nat ?n" by simp
  have "\<exists>a seed. dynamic_array_quicksort (layer_less (cs_heap s)) (cs_layers s) (of_nat 0) (of_nat ?n - 1) (cs_seed s) = Some (Inr (a, seed)) \<and>
    da_same (cs_layers s) a \<and> rearr 0 ?n (da_list (cs_layers s)) (da_list a) \<and> layer_order.key_sorted (cs_heap s) 0 ?n (da_list a)"
    by (rule layer_order.quicksort_ok) (use ok assms(2) in simp_all)
  then obtain a seed where q: "dynamic_array_quicksort (layer_less (cs_heap s)) (cs_layers s) 0 (da_count (cs_layers s) - 1) (cs_seed s) = Some (Inr (a, seed))"
    "da_same (cs_layers s) a" "mset (da_list a) = mset (da_list (cs_layers s))" "layer_order.key_sorted (cs_heap s) 0 ?n (da_list a)"
    by (auto simp: rearr_def)
  let ?s = "s\<lparr> cs_layers := a, cs_seed := seed \<rparr>"
  have mp: "mset (ptrs ?s) = mset (ptrs s)" using arg_cong [OF q(3), of "image_mset (\<lambda>b. get32 b 0)"] by (simp add: ptrs_def)
  have sp: "set (ptrs ?s) = set (ptrs s)" and dp: "distinct (ptrs ?s)"
    using mset_eq_setD [OF mp] mset_eq_imp_distinct_iff [OF mp] ok by simp_all
  let ?f = "\<lambda>p. nat (sint (ly_z_index (the (cs_heap s p))) + 2 ^ 31) + (if present s p then 0 else 2 ^ 32)"
  have "length (da_list a) = ?n" using arg_cong [OF q(3), of size] by simp
  then have so: "sorted (map ?k (da_list a))" using q(4) by (auto simp: sorted_iff_nth_mono layer_order.key_sorted_def)
  have "map ?k (da_list a) = map ?f (ptrs ?s)" by (simp add: ptrs_def layer_key_def present_def Let_def)
  then have so: "sorted (map ?f (ptrs ?s))" using so by simp
  have cut: "present s p \<longleftrightarrow> ?f p < 2 ^ 32" for p using z_range [of "ly_z_index (the (cs_heap s p))"] by (simp add: nat_less_iff)
  let ?P = "filter (present s) (ptrs ?s)" and ?E = "filter (\<lambda>p. \<not> present s p) (ptrs ?s)"
  have split: "ptrs ?s = ?P @ ?E" by (rule sorted_split [OF so cut])
  have mP: "mset ?P = mset (filter (present s) (ptrs s))" using mp by (simp add: mset_filter)
  then have lP: "2 \<le> length ?P" using assms(3) by (metis size_mset)
  have ls: "layers_ok ?s" using ok q(2) da_same_inv [OF q(2)] dp sp by (auto simp: layers_ok_def da_same_def)
  have pe: "\<forall>p \<in> set ?P. present ?s p" "\<forall>p \<in> set ?E. \<not> present ?s p" by (auto simp: present_def)
  obtain a' where a': "drop_erased ?s = Some (Inr (?s\<lparr> cs_layers := a', cs_heap := (\<lambda>p. if p \<in> set ?E then None else cs_heap ?s p) \<rparr>))"
    "da_inv a'" "da_es a' = 4" "map (\<lambda>b. get32 b 0) (da_list a') = ?P"
    using drop_erased_ok [OF ls split lP pe] by blast
  let ?r = "?s\<lparr> cs_layers := a', cs_heap := (\<lambda>p. if p \<in> set ?E then None else cs_heap ?s p) \<rparr>"
  have pr: "ptrs ?r = ?P" using a'(4) by (simp add: ptrs_def)
  have h: "cs_heap ?r = (\<lambda>p. if p \<in> set (ptrs s) \<and> \<not> present s p then None else cs_heap s p)" using sp by auto
  have "\<forall>b \<in> set (da_list (cs_layers s)). cs_heap s (get32 b 0) \<noteq> None" using ok by (auto simp: ptrs_def)
  then have "composer_flush_prepare s = Some (Inr ?r)"
    using q(1) a'(1) by (auto simp: composer_flush_prepare_def)
  moreover have "layers_ok ?r" using a'(2,3) dp ls unfolding layers_ok_def pr h by (auto simp: sp)
  moreover have "sorted (map (\<lambda>p. sint (ly_z_index (the (cs_heap s p)))) ?P)"
  proof -
    have "sorted (map ?f (?P @ ?E))" using so by (simp only: split [symmetric])
    then have "sorted (map ?f ?P)" unfolding map_append sorted_append by blast
    then show ?thesis by (rule sorted_unkey) (use z_range in auto)
  qed
  ultimately show ?thesis using mP h pr by (intro exI [of _ ?r]) auto
qed

section \<open>Drawing on the frame buffer\<close>

definition fb_fine :: "nat \<Rightarrow> nat \<Rightarrow> framebuffer_t \<Rightarrow> bool" where
  "fb_fine W H fb \<longleftrightarrow> fb_width fb = of_nat W \<and> fb_height fb = of_nat H \<and> W < 2 ^ 30 \<and> H < 2 ^ 30 \<and> W * H < 2 ^ 32 \<and>
     length (fb_back fb) = W * H \<and> channels_ok fb"

lemma fb_fine_back: "fb_fine W H fb \<Longrightarrow> length b = W * H \<Longrightarrow> fb_fine W H (fb\<lparr> fb_back := b \<rparr>)"
  by (simp add: fb_fine_def channels_ok_def)

lemma fb_fineD:
  assumes "fb_fine W H fb"
  shows "unat (fb_width fb) = W" "unat (fb_height fb) = H" "sint (fb_width fb) = int W" "sint (fb_height fb) = int H" "W < 2 ^ 30" "H < 2 ^ 30"
  using assms unat_of_nat_32 [of W] unat_of_nat_32 [of H] sint_nat [of W] sint_nat [of H] by (simp_all add: fb_fine_def)

lemma unat_of_sint:
  assumes "0 \<le> sint (x :: i32)"
  shows "int (unat x) = sint x"
proof -
  have "sint x < 2 ^ (LENGTH(32) - 1)" by (rule sint_lt)
  then have "take_bit 32 (sint x) = sint x" using assms by (simp add: take_bit_int_eq_self)
  then show ?thesis using uint_sint [of x] by simp
qed

lemma sint_of_int_32: "- (2 ^ 31) \<le> n \<Longrightarrow> n < 2 ^ 31 \<Longrightarrow> sint (of_int n :: i32) = n"
  by (subst signed_of_int) (simp add: signed_take_bit_int_eq_self)

lemma sint_add_nat:
  assumes "- (2 ^ 31) \<le> sint (x :: i32) + int i" "sint x + int i < 2 ^ 31"
  shows "sint (x + of_nat i) = sint x + int i"
proof -
  have "x + of_nat i = of_int (sint x + int i)" by simp
  then show ?thesis using sint_of_int_32 [OF assms] by metis
qed

text \<open>A copy of words between buffers.\<close>

lemma copy_words_ok:
  assumes "s + n \<le> length src" "d + n \<le> length dst"
  shows "\<exists>b. copy_words dst d src s n = Inr b \<and> length b = length dst \<and>
    (\<forall>i < length dst. b ! i = (if d \<le> i \<and> i < d + n then src ! (s + (i - d)) else dst ! i))"
  using assms by (auto simp: copy_words_def nth_append min_absorb2 intro!: exI)

lemma row_span:
  assumes "x + n \<le> (W :: nat)" "X < W"
  shows "y * W + x \<le> Y * W + X \<and> Y * W + X < y * W + x + n \<longleftrightarrow> Y = y \<and> x \<le> X \<and> X < x + n"
proof (cases "Y = y")
  case False
  then consider "Suc Y \<le> y" | "Suc y \<le> Y" by linarith
  then show ?thesis
  proof cases
    case 1
    then have "Suc Y * W \<le> y * W" by (rule mult_le_mono1)
    then show ?thesis using False assms by simp
  next
    case 2
    then have "Suc y * W \<le> Y * W" by (rule mult_le_mono1)
    then show ?thesis using False assms by simp
  qed
qed auto

lemma put_xline_ok:
  assumes fb: "fb_fine W H fb" and n: "0 < n" "n < 2 ^ 30" "c = of_nat n" and x: "- int n < sint x" "sint x < 2 ^ 30"
    and src: "at + n \<le> length src"
  shows "\<exists>b. framebuffer_put_xline src at x y c fb = Inr (fb\<lparr> fb_back := b \<rparr>) \<and> length b = W * H \<and>
    (\<forall>Y<H. \<forall>X<W. pix W b Y X =
      (if int Y = sint y \<and> sint x \<le> int X \<and> int X < sint x + int n then src ! (at + nat (int X - sint x)) else pix W (fb_back fb) Y X))"
proof -
  note d = fb_fineD [OF fb]
  have lb: "length (fb_back fb) = W * H" using fb by (simp add: fb_fine_def)
  have c0: "c \<noteq> 0" using n unat_of_nat_32 [of n] by auto
  have keep: ?thesis if "framebuffer_put_xline src at x y c fb = Inr fb"
    "\<And>X Y. Y < H \<Longrightarrow> X < W \<Longrightarrow> \<not> (int Y = sint y \<and> sint x \<le> int X \<and> int X < sint x + int n)"
    using that lb by (intro exI [of _ "fb_back fb"]) auto
  show ?thesis
  proof (cases "y <s 0 \<or> fb_height fb \<le>s y")
    case True
    then show ?thesis by (intro keep) (auto simp: framebuffer_put_xline_def word_sless_alt word_sle_eq d)
  next
    case yr: False
    then have y0: "0 \<le> sint y" "sint y < int H" using d by (auto simp: word_sless_alt word_sle_eq)
    define yn where "yn = unat y"
    have y1: "int yn = sint y" unfolding yn_def by (rule unat_of_sint [OF y0(1)])
    define skip where "skip = nat (- sint x)"
    define x' where "x' = nat (sint x)"
    have sk: "skip < n" "x' < 2 ^ 30" "sint x = int x' - int skip" "skip = 0 \<or> x' = 0"
      using x n by (auto simp: skip_def x'_def)
    have clip: "(if x <s 0 then (at + nat (- sint x), c + x, 0) else (at, c, x)) = (at + skip, of_nat (n - skip), of_nat x')"
    proof (cases "sint x < 0")
      case True
      have "c + x = of_int (int n + sint x)" by (simp add: n(3))
      also have "int n + sint x = int (n - skip)" using True x(1) by (simp add: skip_def of_nat_diff)
      finally show ?thesis using True by (simp add: word_sless_alt skip_def x'_def)
    next
      case False
      then have "x' = unat x" unfolding x'_def by (metis nat_int not_less unat_of_sint)
      then have "x = of_nat x'" by simp
      then show ?thesis using False by (simp add: word_sless_alt skip_def n(3))
    qed
    show ?thesis
    proof (cases "W \<le> x'")
      case True
      have "fb_width fb \<le>s of_nat x'" using True sk(2) sint_nat [of x'] d by (simp add: word_sle_eq)
      then have "framebuffer_put_xline src at x y c fb = Inr fb"
        using yr c0 unfolding framebuffer_put_xline_def clip by simp
      then show ?thesis using True sk by (intro keep) auto
    next
      case False
      define m where "m = min (n - skip) (W - x')"
      have m: "0 < m" "x' + m \<le> W" "m \<le> n - skip" using False sk(1) by (auto simp: m_def)
      have s1: "\<not> fb_width fb \<le>s of_nat x'" using False sk(2) sint_nat [of x'] d by (simp add: word_sle_eq)
      have add: "of_nat x' + of_nat (n - skip) = (of_nat (x' + (n - skip)) :: u32)" by simp
      have ua: "unat (of_nat (x' + (n - skip)) :: u32) = x' + (n - skip)" by (rule unat_of_nat_32) (use sk n in simp)
      have pc: "(if of_nat x' + of_nat (n - skip) > fb_width fb then fb_width fb - of_nat x' else of_nat (n - skip)) = (of_nat m :: u32)"
      proof (cases "W < x' + (n - skip)")
        case True
        have "fb_width fb - of_nat x' = (of_nat (W - x') :: u32)" using fb False by (simp add: fb_fine_def)
        then show ?thesis using True ua d by (simp add: word_less_nat_alt m_def min_def)
      next
        case False
        then show ?thesis using ua d by (simp add: word_less_nat_alt m_def min_def)
      qed
      have um: "unat (of_nat m :: u32) = m" by (rule unat_of_nat_32) (use m(2) d(5) in simp)
      have idx: "yn * W + x' < W * H" using pix_index [of x' W yn H] False y0 y1 by simp
      have ui: "unat (y * fb_width fb + of_nat x') = yn * W + x'"
      proof -
        have "y * fb_width fb + of_nat x' = of_nat (yn * W + x')" using fb by (simp add: fb_fine_def yn_def)
        moreover have "yn * W + x' < 2 ^ 32" using idx fb by (simp add: fb_fine_def)
        ultimately show ?thesis using unat_of_nat_32 by metis
      qed
      have "yn + 1 \<le> H" using y0 y1 by linarith
      then have "(yn + 1) * W \<le> H * W" by (rule mult_le_mono1)
      then have fit: "yn * W + x' + m \<le> length (fb_back fb)" using m(2) lb by (simp add: mult.commute)
      have sf: "at + skip + m \<le> length src" using src m(3) sk(1) by simp
      obtain b where b: "copy_words (fb_back fb) (yn * W + x') src (at + skip) m = Inr b" "length b = W * H"
        "\<And>i. i < W * H \<Longrightarrow> b ! i = (if yn * W + x' \<le> i \<and> i < yn * W + x' + m then src ! (at + skip + (i - (yn * W + x'))) else fb_back fb ! i)"
        using copy_words_ok [OF sf fit] lb by auto
      have m0: "of_nat m \<noteq> (0 :: u32)" using um m(1) by auto
      have run: "framebuffer_put_xline src at x y c fb = Inr (fb\<lparr> fb_back := b \<rparr>)"
        using yr c0 s1 m0 b(1) unfolding framebuffer_put_xline_def clip by (simp add: pc um ui)
      have "pix W b Y X = (if int Y = sint y \<and> sint x \<le> int X \<and> int X < sint x + int n
          then src ! (at + nat (int X - sint x)) else pix W (fb_back fb) Y X)" if "Y < H" "X < W" for Y X
      proof -
        have i: "Y * W + X < W * H" using pix_index that by blast
        have e: "int Y = sint y \<and> sint x \<le> int X \<and> int X < sint x + int n \<longleftrightarrow> Y = yn \<and> x' \<le> X \<and> X < x' + m"
          using y1 sk that(2) by (auto simp: m_def)
        have "at + skip + (Y * W + X - (yn * W + x')) = at + nat (int X - sint x)" if "Y = yn" "x' \<le> X"
          using that sk by auto
        then show ?thesis using b(3) [OF i] row_span [OF m(2) that(2), of yn Y] e by (auto simp: pix_def)
      qed
      then show ?thesis using run b(2) by blast
    qed
  qed
qed

definition blended :: "framebuffer_t \<Rightarrow> u32 \<Rightarrow> u32 \<Rightarrow> u32" where
  "blended fb p q = (case color_blend_pixels fb p q of Inl _ \<Rightarrow> 0 | Inr c \<Rightarrow> c)"

lemma color_blend_ok: "channels_ok fb \<Longrightarrow> color_blend_pixels fb p q = Inr (blended fb p q)"
  by (auto simp: blended_def color_blend_pixels_def color_to_pixel_def Let_def)

lemma blended_back [simp]: "blended (fb\<lparr> fb_back := b \<rparr>) = blended fb"
  by (simp add: blended_def [abs_def] color_blend_pixels_def color_to_pixel_def channels_ok_def Let_def cong: if_cong)

lemma put_pixel_ok:
  assumes fb: "fb_fine W H fb"
  shows "\<exists>b. framebuffer_put_pixel x y p fb = Inr (fb\<lparr> fb_back := b \<rparr>) \<and> length b = W * H \<and>
    (\<forall>Y<H. \<forall>X<W. pix W b Y X =
      (if int Y = sint y \<and> int X = sint x then blended fb p (pix W (fb_back fb) Y X) else pix W (fb_back fb) Y X))"
proof (cases "0 \<le> sint x \<and> sint x < int W \<and> 0 \<le> sint y \<and> sint y < int H")
  case True
  note d = fb_fineD [OF fb]
  have lb: "length (fb_back fb) = W * H" and ch: "channels_ok fb" using fb by (simp_all add: fb_fine_def)
  define xn yn where "xn = unat x" and "yn = unat y"
  have e: "int xn = sint x" "int yn = sint y" unfolding xn_def yn_def using True unat_of_sint by blast+
  then have lt: "xn < W" "yn < H" using True by linarith+
  have i: "yn * W + xn < W * H" by (rule pix_index [OF lt])
  have "y * fb_width fb + x = of_nat (yn * W + xn)" using fb by (simp add: fb_fine_def xn_def yn_def)
  moreover have "yn * W + xn < 2 ^ 32" using i fb by (simp add: fb_fine_def)
  ultimately have u: "unat (y * fb_width fb + x) = yn * W + xn" using unat_of_nat_32 by metis
  have test: "0 \<le>s x \<and> x < fb_width fb \<and> 0 \<le>s y \<and> y < fb_height fb"
    using True lt d(1,2) by (simp add: word_sle_eq word_less_nat_alt xn_def yn_def)
  let ?q = "blended fb p (fb_back fb ! (yn * W + xn))"
  have "framebuffer_put_pixel x y p fb = Inr (fb\<lparr> fb_back := (fb_back fb)[yn * W + xn := ?q] \<rparr>)"
    using test i lb by (simp add: framebuffer_put_pixel_def Let_def u color_blend_ok [OF ch])
  moreover have "pix W ((fb_back fb)[yn * W + xn := ?q]) Y X =
      (if int Y = sint y \<and> int X = sint x then blended fb p (pix W (fb_back fb) Y X) else pix W (fb_back fb) Y X)" if "Y < H" "X < W" for Y X
    using pix_upd [OF lt(1) that(2) lt(2) that(1) lb] unfolding e [symmetric] by (auto simp: pix_def)
  ultimately show ?thesis using lb by (intro exI [of _ "(fb_back fb)[yn * W + xn := ?q]"]) simp
next
  case False
  note d = fb_fineD [OF fb]
  have "\<not> (0 \<le>s x \<and> x < fb_width fb \<and> 0 \<le>s y \<and> y < fb_height fb)"
  proof
    assume a: "0 \<le>s x \<and> x < fb_width fb \<and> 0 \<le>s y \<and> y < fb_height fb"
    then have "0 \<le> sint x" "0 \<le> sint y" by (simp_all add: word_sle_eq)
    moreover from this have "int (unat x) = sint x" "int (unat y) = sint y" using unat_of_sint by blast+
    moreover have "unat x < W" "unat y < H" using a d(1,2) by (simp_all add: word_less_nat_alt)
    ultimately show False using False by linarith
  qed
  then have "framebuffer_put_pixel x y p fb = Inr fb" by (simp add: framebuffer_put_pixel_def)
  then show ?thesis using fb False by (intro exI [of _ "fb_back fb"]) (auto simp: fb_fine_def)
qed

section \<open>A layer over a picture\<close>

definition covers :: "layer_t \<Rightarrow> nat \<Rightarrow> nat \<Rightarrow> bool" where
  "covers ly Y X \<longleftrightarrow> sint (ly_x_left ly) \<le> int X \<and> int X < sint (ly_x_left ly) + sint (ly_x_len ly) \<and>
     sint (ly_y_up ly) \<le> int Y \<and> int Y < sint (ly_y_up ly) + sint (ly_y_len ly)"

definition layer_pixel :: "layer_t \<Rightarrow> nat \<Rightarrow> nat \<Rightarrow> u32" where
  "layer_pixel ly Y X = pix (unat (ly_x_len ly)) (ly_buff ly) (nat (int Y - sint (ly_y_up ly))) (nat (int X - sint (ly_x_left ly)))"

text \<open>The pixel that a layer leaves over the pixel \<open>q\<close>.\<close>

definition over :: "framebuffer_t \<Rightarrow> layer_t \<Rightarrow> nat \<Rightarrow> nat \<Rightarrow> u32 \<Rightarrow> u32" where
  "over fb ly Y X q =
     (if has ly LAYER_PRESENT \<and> has ly LAYER_VISIBLE \<and> covers ly Y X
      then if has ly LAYER_OPAQUE then layer_pixel ly Y X else blended fb (layer_pixel ly Y X) q else q)"

text \<open>
  A layer whose sizes and position are far from the ends of the integers, and which, if it is opaque, is not wholly
  left of the screen.
\<close>

definition layer_fine :: "nat \<Rightarrow> nat \<Rightarrow> layer_t \<Rightarrow> bool" where
  "layer_fine L M ly \<longleftrightarrow> layer_dims L M ly \<and> 0 < L \<and> L < 2 ^ 30 \<and> M < 2 ^ 30 \<and> L * M * 4 < 2 ^ 32 \<and>
     - (2 ^ 30) \<le> sint (ly_x_left ly) \<and> sint (ly_x_left ly) < 2 ^ 30 \<and> - (2 ^ 30) \<le> sint (ly_y_up ly) \<and> sint (ly_y_up ly) < 2 ^ 30 \<and>
     (has ly LAYER_OPAQUE \<longrightarrow> 0 < sint (ly_x_left ly) + int L)"

lemma layer_fineD:
  assumes "layer_fine L M ly"
  shows "unat (ly_x_len ly) = L" "unat (ly_y_len ly) = M" "sint (ly_x_len ly) = int L" "sint (ly_y_len ly) = int M"
    "length (ly_buff ly) = L * M" "length (ly_buff2 ly) = L * M" "ly_x_len ly = of_nat L"
  using assms unat_of_nat_32 [of L] unat_of_nat_32 [of M] sint_nat [of L] sint_nat [of M] by (simp_all add: layer_fine_def layer_dims_def)

text \<open>The places of the layer drawn so far are those of \<open>A\<close>, a set of rows and columns of the layer.\<close>

definition laid :: "nat \<Rightarrow> nat \<Rightarrow> layer_t \<Rightarrow> framebuffer_t \<Rightarrow> (nat \<times> nat) set \<Rightarrow> framebuffer_t \<Rightarrow> bool" where
  "laid W H ly fb A t \<longleftrightarrow> (\<exists>b. t = fb\<lparr> fb_back := b \<rparr> \<and> length b = W * H \<and> (\<forall>Y<H. \<forall>X<W. pix W b Y X =
     (if covers ly Y X \<and> (nat (int Y - sint (ly_y_up ly)), nat (int X - sint (ly_x_left ly))) \<in> A
      then if has ly LAYER_OPAQUE then layer_pixel ly Y X else blended fb (layer_pixel ly Y X) (pix W (fb_back fb) Y X)
      else pix W (fb_back fb) Y X)))"

lemma laid_start: "fb_fine W H fb \<Longrightarrow> laid W H ly fb {} fb"
  by (auto simp: laid_def fb_fine_def intro!: exI [of _ "fb_back fb"])

lemma row_start: "layer_fine L M ly \<Longrightarrow> y < M \<Longrightarrow> x < L \<Longrightarrow> unat (of_nat y * ly_x_len ly + of_nat x) = y * L + x"
proof -
  assume a: "layer_fine L M ly" "y < M" "x < L"
  have "y * L + x < L * M" by (rule pix_index [OF a(3,2)])
  then have "y * L + x < 2 ^ 32" using a(1) by (simp add: layer_fine_def)
  moreover have "of_nat y * ly_x_len ly + of_nat x = (of_nat (y * L + x) :: u32)" using layer_fineD(7) [OF a(1)] by simp
  ultimately show ?thesis using unat_of_nat_32 by metis
qed

lemma opaque_row:
  assumes "layer_fine L M ly" "has ly LAYER_OPAQUE" "fb_fine W H fb" "laid W H ly fb ({..<y} \<times> {..<L}) t" "y < M"
  shows "\<exists>u. framebuffer_put_xline (ly_buff ly) (unat (of_nat y * ly_x_len ly)) (ly_x_left ly) (ly_y_up ly + of_nat y) (ly_x_len ly) t = Inr u \<and>
    laid W H ly fb ({..<Suc y} \<times> {..<L}) u"
proof -
  note d = layer_fineD [OF assms(1)] and f = assms(1) [unfolded layer_fine_def]
  obtain b where b: "t = fb\<lparr> fb_back := b \<rparr>" "length b = W * H" "\<And>Y X. Y < H \<Longrightarrow> X < W \<Longrightarrow> pix W b Y X =
     (if covers ly Y X \<and> (nat (int Y - sint (ly_y_up ly)), nat (int X - sint (ly_x_left ly))) \<in> {..<y} \<times> {..<L}
      then layer_pixel ly Y X else pix W (fb_back fb) Y X)" using assms(2,4) by (auto simp: laid_def)
  have t: "fb_fine W H t" unfolding b(1) by (rule fb_fine_back [OF assms(3) b(2)])
  have at: "unat (of_nat y * ly_x_len ly) = y * L" using row_start [OF assms(1,5), of 0] f by simp
  have "(y + 1) * L \<le> M * L" using assms(5) by (intro mult_le_mono1) simp
  then have src: "y * L + L \<le> length (ly_buff ly)" using d(5) by (simp add: mult.commute)
  have sy: "sint (ly_y_up ly + of_nat y) = sint (ly_y_up ly) + int y" by (rule sint_add_nat) (use f assms(5) in auto)
  have x: "- int L < sint (ly_x_left ly)" "sint (ly_x_left ly) < 2 ^ 30" using f assms(2) by auto
  obtain b' where b': "framebuffer_put_xline (ly_buff ly) (y * L) (ly_x_left ly) (ly_y_up ly + of_nat y) (ly_x_len ly) t = Inr (t\<lparr> fb_back := b' \<rparr>)"
    "length b' = W * H" "\<And>Y X. Y < H \<Longrightarrow> X < W \<Longrightarrow> pix W b' Y X =
      (if int Y = sint (ly_y_up ly) + int y \<and> sint (ly_x_left ly) \<le> int X \<and> int X < sint (ly_x_left ly) + int L
       then ly_buff ly ! (y * L + nat (int X - sint (ly_x_left ly))) else pix W (fb_back t) Y X)"
    using put_xline_ok [OF t _ _ d(7) x src, of "ly_y_up ly + of_nat y"] f sy by auto
  have "pix W b' Y X = (if covers ly Y X \<and> (nat (int Y - sint (ly_y_up ly)), nat (int X - sint (ly_x_left ly))) \<in> {..<Suc y} \<times> {..<L}
      then layer_pixel ly Y X else pix W (fb_back fb) Y X)" if "Y < H" "X < W" for Y X
  proof (cases "int Y = sint (ly_y_up ly) + int y \<and> sint (ly_x_left ly) \<le> int X \<and> int X < sint (ly_x_left ly) + int L")
    case True
    then have "covers ly Y X" "nat (int Y - sint (ly_y_up ly)) = y" "nat (int X - sint (ly_x_left ly)) < L"
      using assms(5) d(3,4) by (auto simp: covers_def)
    then show ?thesis using b'(3) [OF that] True d(1) by (simp add: layer_pixel_def pix_def)
  next
    case False
    have "covers ly Y X \<Longrightarrow> nat (int Y - sint (ly_y_up ly)) \<noteq> y" using False d(3) by (auto simp: covers_def)
    then show ?thesis using b'(3) [OF that] False b(3) [OF that] b(1) by (auto simp: less_Suc_eq)
  qed
  then have "laid W H ly fb ({..<Suc y} \<times> {..<L}) (t\<lparr> fb_back := b' \<rparr>)"
    using assms(2) b(1) b'(2) by (auto simp: laid_def intro!: exI [of _ b'])
  then show ?thesis using b'(1) at by simp
qed

lemma blend_place:
  assumes "layer_fine L M ly" "\<not> has ly LAYER_OPAQUE" "fb_fine W H fb" "laid W H ly fb A t" "y < M" "x < L" "(y, x) \<notin> A"
  shows "\<exists>u. framebuffer_put_pixel (ly_x_left ly + of_nat x) (ly_y_up ly + of_nat y) (ly_buff ly ! (y * L + x)) t = Inr u \<and>
    laid W H ly fb (insert (y, x) A) u"
proof -
  note d = layer_fineD [OF assms(1)] and f = assms(1) [unfolded layer_fine_def]
  obtain b where b: "t = fb\<lparr> fb_back := b \<rparr>" "length b = W * H" "\<And>Y X. Y < H \<Longrightarrow> X < W \<Longrightarrow> pix W b Y X =
     (if covers ly Y X \<and> (nat (int Y - sint (ly_y_up ly)), nat (int X - sint (ly_x_left ly))) \<in> A
      then blended fb (layer_pixel ly Y X) (pix W (fb_back fb) Y X) else pix W (fb_back fb) Y X)" using assms(2,4) by (auto simp: laid_def)
  have t: "fb_fine W H t" unfolding b(1) by (rule fb_fine_back [OF assms(3) b(2)])
  have sy: "sint (ly_y_up ly + of_nat y) = sint (ly_y_up ly) + int y" by (rule sint_add_nat) (use f assms(5) in auto)
  have sx: "sint (ly_x_left ly + of_nat x) = sint (ly_x_left ly) + int x" by (rule sint_add_nat) (use f assms(6) in auto)
  obtain b' where b': "framebuffer_put_pixel (ly_x_left ly + of_nat x) (ly_y_up ly + of_nat y) (ly_buff ly ! (y * L + x)) t = Inr (t\<lparr> fb_back := b' \<rparr>)"
    "length b' = W * H" "\<And>Y X. Y < H \<Longrightarrow> X < W \<Longrightarrow> pix W b' Y X =
      (if int Y = sint (ly_y_up ly) + int y \<and> int X = sint (ly_x_left ly) + int x then blended t (ly_buff ly ! (y * L + x)) (pix W (fb_back t) Y X)
       else pix W (fb_back t) Y X)"
    using put_pixel_ok [OF t, of "ly_x_left ly + of_nat x" "ly_y_up ly + of_nat y" "ly_buff ly ! (y * L + x)"] unfolding sx sy by blast
  have "pix W b' Y X = (if covers ly Y X \<and> (nat (int Y - sint (ly_y_up ly)), nat (int X - sint (ly_x_left ly))) \<in> insert (y, x) A
      then blended fb (layer_pixel ly Y X) (pix W (fb_back fb) Y X) else pix W (fb_back fb) Y X)" if "Y < H" "X < W" for Y X
  proof (cases "int Y = sint (ly_y_up ly) + int y \<and> int X = sint (ly_x_left ly) + int x")
    case True
    then have "covers ly Y X" "nat (int Y - sint (ly_y_up ly)) = y" "nat (int X - sint (ly_x_left ly)) = x"
      using assms(5,6) d(3,4) by (auto simp: covers_def)
    then show ?thesis using b'(3) [OF that] True d(1) b(1) b(3) [OF that] assms(7) by (simp add: layer_pixel_def pix_def)
  next
    case False
    have "covers ly Y X \<Longrightarrow> (nat (int Y - sint (ly_y_up ly)), nat (int X - sint (ly_x_left ly))) \<noteq> (y, x)" using False by (auto simp: covers_def)
    then show ?thesis using b'(3) [OF that] False b(3) [OF that] b(1) by auto
  qed
  then have "laid W H ly fb (insert (y, x) A) (t\<lparr> fb_back := b' \<rparr>)"
    using assms(2) b(1) b'(2) by (auto simp: laid_def intro!: exI [of _ b'])
  then show ?thesis using b'(1) by blast
qed

lemma laid_upt: "laid W H ly fb ({..<y} \<times> {..<L} \<union> {y} \<times> {..<L}) t \<Longrightarrow> laid W H ly fb ({..<Suc y} \<times> {..<L}) t"
proof -
  have "{..<y} \<times> {..<L} \<union> {y} \<times> {..<L} = {..<Suc y} \<times> {..<L}" by (auto simp: less_Suc_eq)
  then show "laid W H ly fb ({..<y} \<times> {..<L} \<union> {y} \<times> {..<L}) t \<Longrightarrow> laid W H ly fb ({..<Suc y} \<times> {..<L}) t" by simp
qed

definition blend_at :: "layer_t \<Rightarrow> nat \<Rightarrow> nat \<Rightarrow> framebuffer_t \<Rightarrow> framebuffer_t res" where
  "blend_at ly y x fb =
     (let idx = unat (of_nat y * ly_x_len ly + of_nat x) in
      if idx < length (ly_buff ly)
      then framebuffer_put_pixel (ly_x_left ly + of_nat x) (ly_y_up ly + of_nat y) (ly_buff ly ! idx) fb
      else Inl Out_Of_Bounds)"

lemma blend_row:
  assumes "layer_fine L M ly" "\<not> has ly LAYER_OPAQUE" "fb_fine W H fb" "laid W H ly fb ({..<y} \<times> {..<L}) t" "y < M"
  shows "\<exists>u. rfor (blend_at ly y) 0 L t = Inr u \<and> laid W H ly fb ({..<Suc y} \<times> {..<L}) u"
proof -
  have "\<exists>u. rfor (blend_at ly y) 0 L t = Inr u \<and> laid W H ly fb ({..<y} \<times> {..<L} \<union> {y} \<times> {..<L}) u"
  proof (rule rfor_inv [where P = "\<lambda>x. laid W H ly fb ({..<y} \<times> {..<L} \<union> {y} \<times> {..<x})" and lo = 0 and hi = L])
    fix x u assume x: "x < L" and u: "laid W H ly fb ({..<y} \<times> {..<L} \<union> {y} \<times> {..<x}) u"
    have i: "y * L + x < length (ly_buff ly)" using pix_index [OF x assms(5)] layer_fineD(5) [OF assms(1)] by simp
    have "insert (y, x) ({..<y} \<times> {..<L} \<union> {y} \<times> {..<x}) = {..<y} \<times> {..<L} \<union> {y} \<times> {..<Suc x}" by (auto simp: less_Suc_eq)
    then show "\<exists>v. blend_at ly y x u = Inr v \<and> laid W H ly fb ({..<y} \<times> {..<L} \<union> {y} \<times> {..<Suc x}) v"
      using blend_place [OF assms(1,2,3) u assms(5) x] i by (simp add: blend_at_def Let_def row_start [OF assms(1,5) x])
  qed (use assms(4) in simp_all)
  then show ?thesis using laid_upt by blast
qed

lemma layer_draw_ok:
  assumes "layer_fine L M ly" "fb_fine W H fb"
  shows "\<exists>t. layer_draw ly fb = Inr t \<and> laid W H ly fb ({..<M} \<times> {..<L}) t"
proof -
  note d = layer_fineD [OF assms(1)]
  have st: "laid W H ly fb ({..<0} \<times> {..<L}) fb" using laid_start [OF assms(2)] by simp
  show ?thesis
  proof (cases "has ly LAYER_OPAQUE")
    case True
    have "\<exists>t. rfor (\<lambda>y. framebuffer_put_xline (ly_buff ly) (unat (of_nat y * ly_x_len ly)) (ly_x_left ly) (ly_y_up ly + of_nat y) (ly_x_len ly)) 0 M fb = Inr t \<and>
      laid W H ly fb ({..<M} \<times> {..<L}) t"
      by (rule rfor_inv [where P = "\<lambda>y. laid W H ly fb ({..<y} \<times> {..<L})" and lo = 0 and hi = M])
         (use st opaque_row [OF assms(1) True assms(2)] in simp_all)
    then show ?thesis using True d(2) by (simp add: layer_draw_def)
  next
    case False
    have "\<exists>t. rfor (\<lambda>y. rfor (blend_at ly y) 0 L) 0 M fb = Inr t \<and> laid W H ly fb ({..<M} \<times> {..<L}) t"
      by (rule rfor_inv [where P = "\<lambda>y. laid W H ly fb ({..<y} \<times> {..<L})" and lo = 0 and hi = M])
         (use st blend_row [OF assms(1) False assms(2)] in simp_all)
    moreover have "layer_draw ly fb = rfor (\<lambda>y. rfor (blend_at ly y) 0 L) 0 M fb"
      using False d(1,2) by (simp add: layer_draw_def blend_at_def [abs_def])
    ultimately show ?thesis by simp
  qed
qed

text \<open>A picture with a layer over it, everything but the pixels as before.\<close>

definition pictures :: "nat \<Rightarrow> nat \<Rightarrow> (nat \<Rightarrow> nat \<Rightarrow> u32) \<Rightarrow> framebuffer_t \<Rightarrow> framebuffer_t \<Rightarrow> bool" where
  "pictures W H f fb t \<longleftrightarrow> (\<exists>b. t = fb\<lparr> fb_back := b \<rparr> \<and> length b = W * H \<and> (\<forall>Y<H. \<forall>X<W. pix W b Y X = f Y X))"

lemma layer_sync_ok:
  assumes "layer_fine L M ly"
  shows "\<exists>b fl. layer_sync ly = Inr (ly\<lparr> ly_buff2 := b, ly_flags := fl \<rparr>) \<and> layer_fine L M (ly\<lparr> ly_buff2 := b, ly_flags := fl \<rparr>) \<and>
    (\<forall>f. f \<noteq> LAYER_DIRTY \<longrightarrow> f \<in> {LAYER_PRESENT, LAYER_VISIBLE, LAYER_OPAQUE, LAYER_BUSY} \<longrightarrow> has (ly\<lparr> ly_buff2 := b, ly_flags := fl \<rparr>) f = has ly f)"
proof (cases "has ly LAYER_DIRTY \<and> \<not> has ly LAYER_BUSY")
  case True
  note d = layer_fineD [OF assms] and f = assms [unfolded layer_fine_def layer_dims_def]
  have "ly_x_len ly * ly_y_len ly * 4 = of_nat (L * M * 4)" using f by simp
  moreover have "L * M * 4 < 2 ^ 32" using f by simp
  ultimately have "unat (ly_x_len ly * ly_y_len ly * 4) = L * M * 4" using unat_of_nat_32 by metis
  then have n: "unat (ly_x_len ly * ly_y_len ly * 4) div 4 = L * M" by simp
  have c: "copy_words (ly_buff2 ly) 0 (ly_buff ly) 0 (L * M) = Inr (ly_buff ly)" using d by (simp add: copy_words_def)
  let ?fl = "ly_flags ly AND NOT LAYER_DIRTY"
  have fl: "has (ly\<lparr> ly_buff2 := ly_buff ly, ly_flags := ?fl \<rparr>) f = has ly f"
    if "f \<in> {LAYER_PRESENT, LAYER_VISIBLE, LAYER_OPAQUE, LAYER_BUSY}" for f
  proof -
    have "NOT LAYER_DIRTY AND f = f" using that by (auto simp: LAYER_DIRTY_def LAYER_PRESENT_def LAYER_VISIBLE_def LAYER_OPAQUE_def LAYER_BUSY_def)
    then show ?thesis by (simp add: has_def and.assoc)
  qed
  have "layer_sync ly = Inr (ly\<lparr> ly_buff2 := ly_buff ly, ly_flags := ?fl \<rparr>)" using True by (simp add: layer_sync_def n c)
  moreover have "layer_fine L M (ly\<lparr> ly_buff2 := ly_buff ly, ly_flags := ?fl \<rparr>)"
    using assms fl [of LAYER_OPAQUE] by (simp add: layer_fine_def layer_dims_def)
  ultimately show ?thesis using fl by blast
next
  case False
  then show ?thesis using assms by (intro exI [of _ "ly_buff2 ly"] exI [of _ "ly_flags ly"]) (auto simp: layer_sync_def)
qed

section \<open>The composition\<close>

text \<open>What a picture shows of a layer is not changed by the copy to its second buffer.\<close>

definition same_look :: "layer_t \<Rightarrow> layer_t \<Rightarrow> bool" where
  "same_look ly ly' \<longleftrightarrow> (\<forall>fb. over fb ly' = over fb ly) \<and> (\<exists>L M. layer_fine L M ly')"

lemma compose_layer_ok:
  assumes "cs_heap s p = Some ly" "layer_fine L M ly" "fb_fine W H fb" "pictures W H f fb t"
  shows "\<exists>h u. composer_compose_layer p (s, t) = Inr (s\<lparr> cs_heap := h \<rparr>, u) \<and> pictures W H (\<lambda>Y X. over fb ly Y X (f Y X)) fb u \<and>
    (\<exists>ly'. h = (cs_heap s)(p \<mapsto> ly') \<and> same_look ly ly')"
proof (cases "has ly LAYER_PRESENT \<and> has ly LAYER_VISIBLE")
  case False
  then have "over fb ly = (\<lambda>Y X q. q)" for fb by (intro ext) (auto simp: over_def)
  then show ?thesis using False assms
    by (intro exI [of _ "cs_heap s"] exI [of _ t]) (auto simp: composer_compose_layer_def layer_at_def same_look_def intro!: exI [of _ ly])
next
  case True
  obtain b2 fl where l: "layer_sync ly = Inr (ly\<lparr> ly_buff2 := b2, ly_flags := fl \<rparr>)" "layer_fine L M (ly\<lparr> ly_buff2 := b2, ly_flags := fl \<rparr>)"
    "\<And>f. f \<noteq> LAYER_DIRTY \<Longrightarrow> f \<in> {LAYER_PRESENT, LAYER_VISIBLE, LAYER_OPAQUE, LAYER_BUSY} \<Longrightarrow> has (ly\<lparr> ly_buff2 := b2, ly_flags := fl \<rparr>) f = has ly f"
    using layer_sync_ok [OF assms(2)] by blast
  let ?ly = "ly\<lparr> ly_buff2 := b2, ly_flags := fl \<rparr>"
  have h: "has ?ly LAYER_PRESENT" "has ?ly LAYER_VISIBLE" "has ?ly LAYER_OPAQUE = has ly LAYER_OPAQUE"
    using l(3) True by (auto simp: LAYER_DIRTY_def LAYER_PRESENT_def LAYER_VISIBLE_def LAYER_OPAQUE_def)
  have same: "covers ?ly = covers ly" "layer_pixel ?ly = layer_pixel ly" by (intro ext, simp add: covers_def layer_pixel_def)+
  have look: "over fb ?ly = over fb ly" for fb using h True by (intro ext) (simp add: over_def same)
  obtain b where b: "t = fb\<lparr> fb_back := b \<rparr>" "length b = W * H" "\<And>Y X. Y < H \<Longrightarrow> X < W \<Longrightarrow> pix W b Y X = f Y X"
    using assms(4) by (auto simp: pictures_def)
  have t: "fb_fine W H t" unfolding b(1) by (rule fb_fine_back [OF assms(3) b(2)])
  obtain u where u: "layer_draw ?ly t = Inr u" "laid W H ?ly t ({..<M} \<times> {..<L}) u" using layer_draw_ok [OF l(2) t] by blast
  obtain b' where b': "u = t\<lparr> fb_back := b' \<rparr>" "length b' = W * H" "\<And>Y X. Y < H \<Longrightarrow> X < W \<Longrightarrow> pix W b' Y X =
     (if covers ?ly Y X \<and> (nat (int Y - sint (ly_y_up ?ly)), nat (int X - sint (ly_x_left ?ly))) \<in> {..<M} \<times> {..<L}
      then if has ?ly LAYER_OPAQUE then layer_pixel ?ly Y X else blended t (layer_pixel ?ly Y X) (pix W (fb_back t) Y X)
      else pix W (fb_back t) Y X)" using u(2) by (auto simp: laid_def)
  have "pix W b' Y X = over fb ly Y X (f Y X)" if "Y < H" "X < W" for Y X
  proof -
    have "covers ?ly Y X \<Longrightarrow> (nat (int Y - sint (ly_y_up ?ly)), nat (int X - sint (ly_x_left ?ly))) \<in> {..<M} \<times> {..<L}"
      using layer_fineD(3,4) [OF l(2)] by (auto simp: covers_def)
    then show ?thesis using b'(3) [OF that] b(1) b(3) [OF that] h True unfolding look [symmetric] by (auto simp: over_def)
  qed
  then have pic: "pictures W H (\<lambda>Y X. over fb ly Y X (f Y X)) fb u" using b'(1,2) b(1) by (auto simp: pictures_def intro!: exI [of _ b'])
  have "composer_compose_layer p (s, t) = Inr (s\<lparr> cs_heap := (cs_heap s)(p \<mapsto> ?ly) \<rparr>, u)"
    using True l(1) u(1) assms(1) by (simp add: composer_compose_layer_def layer_at_def)
  moreover have "same_look ly ?ly" using look l(2) by (auto simp: same_look_def)
  ultimately show ?thesis using pic by blast
qed

lemma composer_flush_ok:
  assumes "layers_ok s" "\<forall>p \<in> set (ptrs s). \<exists>L M. layer_fine L M (the (cs_heap s p))" "fb_fine W H fb"
  shows "\<exists>h b. composer_flush (s, fb) = Inr (s\<lparr> cs_heap := h, cs_dirty := False \<rparr>, fb\<lparr> fb_back := b \<rparr>) \<and> length b = W * H \<and>
    (\<forall>Y<H. \<forall>X<W. pix W b Y X = fold (\<lambda>p. over fb (the (cs_heap s p)) Y X) (ptrs s) (pix W (fb_back fb) Y X)) \<and>
    (\<forall>p. h p = None \<longleftrightarrow> cs_heap s p = None)"
proof -
  let ?pic = "\<lambda>i Y X. fold (\<lambda>p. over fb (the (cs_heap s p)) Y X) (take i (ptrs s)) (pix W (fb_back fb) Y X)"
  let ?n = "length (ptrs s)"
  let ?P = "\<lambda>i sf. \<exists>h. fst sf = s\<lparr> cs_heap := h \<rparr> \<and> pictures W H (?pic i) fb (snd sf) \<and> (\<forall>p. h p = None \<longleftrightarrow> cs_heap s p = None) \<and>
    (\<forall>p \<in> set (ptrs s). same_look (the (cs_heap s p)) (the (h p)))"
  let ?f = "\<lambda>i sf. rbind (layer_ptr (cs_layers (fst sf)) (of_nat i)) (\<lambda>p. composer_compose_layer p sf)"
  note ok = assms(1) [unfolded layers_ok_def]
  have "\<exists>sf. rfor ?f 0 ?n (s, fb) = Inr sf \<and> ?P ?n sf"
  proof (rule rfor_inv [where P = ?P and lo = 0 and hi = ?n])
    show "?P 0 (s, fb)" using assms(2,3)
      by (intro exI [of _ "cs_heap s"]) (auto simp: pictures_def same_look_def fb_fine_def intro!: exI [of _ "fb_back fb"])
  next
    fix i sf assume i: "i < ?n" and "?P i sf"
    then obtain h where h: "fst sf = s\<lparr> cs_heap := h \<rparr>" "pictures W H (?pic i) fb (snd sf)" "\<And>p. h p = None \<longleftrightarrow> cs_heap s p = None"
      "\<And>p. p \<in> set (ptrs s) \<Longrightarrow> same_look (the (cs_heap s p)) (the (h p))" by blast
    let ?p = "ptrs s ! i"
    have mem: "?p \<in> set (ptrs s)" using i by simp
    then have "h ?p \<noteq> None" using ok h(3) by simp
    then obtain ly where ly: "h ?p = Some ly" by blast
    have sl: "same_look (the (cs_heap s ?p)) ly" using h(4) [OF mem] ly by simp
    then obtain L M where fine: "layer_fine L M ly" by (auto simp: same_look_def)
    have lk: "over fb ly = over fb (the (cs_heap s ?p))" using sl by (simp add: same_look_def)
    have "cs_heap (fst sf) ?p = Some ly" by (simp add: h(1) ly)
    from compose_layer_ok [OF this fine assms(3) h(2)] obtain h' u where u:
      "composer_compose_layer ?p (fst sf, snd sf) = Inr ((fst sf)\<lparr> cs_heap := h' \<rparr>, u)"
      "pictures W H (\<lambda>Y X. over fb ly Y X (?pic i Y X)) fb u" "\<exists>ly'. h' = (cs_heap (fst sf))(?p \<mapsto> ly') \<and> same_look ly ly'" by blast
    obtain ly' where ly': "h' = h(?p \<mapsto> ly')" "same_look ly ly'" using u(3) h(1) by auto
    have "i < 2 ^ 32" using i unat_less_2p32 [of "da_count (cs_layers s)"] by simp
    then have ui: "unat (of_nat i :: u32) = i" by (rule unat_of_nat_32)
    have "layer_ptr (cs_layers (fst sf)) (of_nat i) = Inr ?p"
      using layer_ptr_ok [of s "of_nat i"] ok i ui h(1) by simp
    then have "?f i sf = Inr (s\<lparr> cs_heap := h' \<rparr>, u)" using u(1) [unfolded prod.collapse] h(1) by simp
    moreover have "pictures W H (?pic (Suc i)) fb u"
      using u(2) i by (simp add: take_Suc_conv_app_nth lk)
    moreover have "same_look (the (cs_heap s p)) (the (h' p))" if "p \<in> set (ptrs s)" for p
      using h(4) [OF that] ly' sl by (auto simp: same_look_def)
    moreover have "h' p = None \<longleftrightarrow> cs_heap s p = None" for p
      using h(3) [of p] h(3) [of ?p] ly'(1) ly by (cases "p = ?p") simp_all
    ultimately show "\<exists>sf'. ?f i sf = Inr sf' \<and> ?P (Suc i) sf'" by (intro exI [of _ "(s\<lparr> cs_heap := h' \<rparr>, u)"]) auto
  qed simp
  then obtain sf where sf: "rfor ?f 0 ?n (s, fb) = Inr sf" "?P ?n sf" by blast
  then obtain h b where hb: "sf = (s\<lparr> cs_heap := h \<rparr>, fb\<lparr> fb_back := b \<rparr>)" "length b = W * H"
    "\<forall>Y<H. \<forall>X<W. pix W b Y X = ?pic ?n Y X" "\<forall>p. h p = None \<longleftrightarrow> cs_heap s p = None"
    by (cases sf) (auto simp: pictures_def)
  have "composer_flush (s, fb) = Inr (s\<lparr> cs_heap := h, cs_dirty := False \<rparr>, fb\<lparr> fb_back := b \<rparr>)"
    using sf(1) unfolding hb(1) by (simp add: composer_flush_def)
  then show ?thesis using hb(2,3,4) by auto
qed

section \<open>Properties\<close>

text \<open>
  A line wholly left of the screen is not dropped: the count of its pixels wraps, and what lies behind the line of
  the layer is drawn over the whole width.
\<close>

lemma put_xline_left_of_screen:
  "fb_width fb = 2 \<Longrightarrow> fb_height fb = 1 \<Longrightarrow> length (fb_back fb) = 2 \<Longrightarrow>
   framebuffer_put_xline [1, 1, 8, 9, 10] 0 (- 3) 0 2 fb = Inr (fb\<lparr> fb_back := [9, 10] \<rparr>)"
  by (simp add: framebuffer_put_xline_def copy_words_def word_sless_alt word_sle_eq)

text \<open>Three layers, in the order of the array: of depth 5, one marked as erased, and one of depth 1.\<close>

definition ex_layer :: "i32 \<Rightarrow> i32 \<Rightarrow> u32 list \<Rightarrow> u32 \<Rightarrow> layer_t" where
  "ex_layer x z line flags = \<lparr> ly_x_left = x, ly_y_up = 0, ly_x_len = of_nat (length line), ly_y_len = 1, ly_buff = line, ly_buff2 = line,
     ly_busy_lock = 0, ly_z_index = z, ly_flags = flags \<rparr>"

definition ex_composer :: composer_t where
  "ex_composer = \<lparr> cs_layers = \<lparr> da_buffer = [0x10, 0, 0, 0, 0x20, 0, 0, 0, 0x30, 0, 0, 0, 0, 0, 0, 0], da_size = 4, da_count = 3, da_es = 4,
       da_start = 3, da_end = 3 \<rparr>,
     cs_heap = [0x10 \<mapsto> ex_layer 0 5 [5, 6] 7, 0x20 \<mapsto> ex_layer 0 0 [0, 0] 6, 0x30 \<mapsto> ex_layer 1 1 [7] 7], cs_dirty = True, cs_seed = 1 \<rparr>"

lemma ex_composer_ok:
  "layers_ok ex_composer" "ptrs ex_composer = [0x10, 0x20, 0x30]" "filter (present ex_composer) (ptrs ex_composer) = [0x10, 0x30]"
proof -
  have inv: "da_inv (cs_layers ex_composer)" by (simp add: ex_composer_def da_inv_def da_shape_def pow2w_def)
  show p: "ptrs ex_composer = [0x10, 0x20, 0x30]" by code_simp
  have "\<forall>p \<in> set [0x10, 0x20, 0x30]. cs_heap ex_composer p \<noteq> None" by (simp add: ex_composer_def)
  then show "layers_ok ex_composer" using inv unfolding layers_ok_def p by (simp add: ex_composer_def)
  have "present ex_composer 0x10" "\<not> present ex_composer 0x20" "present ex_composer 0x30"
    by (simp_all add: present_def ex_composer_def ex_layer_def has_def LAYER_PRESENT_def)
  then show "filter (present ex_composer) (ptrs ex_composer) = [0x10, 0x30]" unfolding p by simp
qed



text \<open>C40: The picture: drawing returns, and each pixel of the back buffer is the old one with the pixels of the visible layers that
  cover it laid over it in the order of the array, an opaque layer replacing it and any other blended by its alpha; parts
  of layers outside the screen are cut off.\<close>

lemma composer_flush_paints:
  assumes "layers_ok s" "\<forall>p \<in> set (ptrs s). \<exists>L M. layer_fine L M (the (cs_heap s p))" "fb_fine W H fb"
  shows "\<exists>s' b. composer_flush (s, fb) = Inr (s', fb\<lparr> fb_back := b \<rparr>) \<and> \<not> cs_dirty s' \<and> length b = W * H \<and>
    (\<forall>Y<H. \<forall>X<W. pix W b Y X = fold (\<lambda>p. over fb (the (cs_heap s p)) Y X) (ptrs s) (pix W (fb_back fb) Y X))"
proof -
  obtain h b where "composer_flush (s, fb) = Inr (s\<lparr> cs_heap := h, cs_dirty := False \<rparr>, fb\<lparr> fb_back := b \<rparr>)" "length b = W * H"
    "\<forall>Y<H. \<forall>X<W. pix W b Y X = fold (\<lambda>p. over fb (the (cs_heap s p)) Y X) (ptrs s) (pix W (fb_back fb) Y X)"
    using composer_flush_ok [OF assms] by blast
  then show ?thesis by (intro exI [of _ "s\<lparr> cs_heap := h, cs_dirty := False \<rparr>"] exI [of _ b]) simp
qed

text \<open>A screen of two pixels: the first layer covers both, the last the second one.\<close>

lemma composer_flush_paints_witness:
  "\<exists>s' fb'. composer_flush (ex_composer, ex_fb\<lparr> fb_width := 2, fb_height := 1, fb_back := [0, 0] \<rparr>) = Inr (s', fb') \<and> fb_back fb' = [5, 7]"
proof -
  let ?fb = "ex_fb\<lparr> fb_width := 2, fb_height := 1, fb_back := [0, 0] \<rparr>"
  have fb: "fb_fine 2 1 ?fb" by (simp add: fb_fine_def ex_fb_def channels_ok_def)
  have heap: "cs_heap ex_composer 0x10 = Some (ex_layer 0 5 [5, 6] 7)" "cs_heap ex_composer 0x20 = Some (ex_layer 0 0 [0, 0] 6)"
    "cs_heap ex_composer 0x30 = Some (ex_layer 1 1 [7] 7)" by (simp_all add: ex_composer_def)
  have "layer_fine 2 1 (ex_layer 0 5 [5, 6] 7)" "layer_fine 2 1 (ex_layer 0 0 [0, 0] 6)" "layer_fine 1 1 (ex_layer 1 1 [7] 7)"
    by (simp_all add: layer_fine_def layer_dims_def ex_layer_def)
  then have fine: "\<forall>p \<in> set (ptrs ex_composer). \<exists>L M. layer_fine L M (the (cs_heap ex_composer p))"
    unfolding ex_composer_ok(2) by (auto simp: heap)
  obtain s' b where b: "composer_flush (ex_composer, ?fb) = Inr (s', ?fb\<lparr> fb_back := b \<rparr>)" "length b = 2 * 1"
    "\<forall>Y<1. \<forall>X<2. pix 2 b Y X = fold (\<lambda>p. over ?fb (the (cs_heap ex_composer p)) Y X) (ptrs ex_composer) (pix 2 (fb_back ?fb) Y X)"
    using composer_flush_paints [OF ex_composer_ok(1) fine fb] by blast
  have "b ! 0 = 5" "b ! 1 = 7"
    using b(3) [rule_format, of 0 0] b(3) [rule_format, of 0 1] unfolding ex_composer_ok(2)
    by (simp_all add: heap pix_def over_def covers_def layer_pixel_def ex_layer_def has_def LAYER_PRESENT_def LAYER_VISIBLE_def LAYER_OPAQUE_def)
  then have "b = [5, 7]" using b(2) by (auto simp: length_Suc_conv numeral_2_eq_2)
  then show ?thesis using b(1) by auto
qed

end
