(* ===== verification/Spec2Isabelle.thy ===== *)
theory Spec2Isabelle
  imports Vmm Date_Time Interrupts Heap_Correct Pattern Array_Sort Task_Correct Fat_Dir_Props Vfs_Mount Vfs_Stream
    Printf_Correct Composer_Correct
begin

text \<open>
  A verification of the kernel of velosiped_os, a 32-bit x86 operating system in C (the directory \<^verbatim>\<open>src/src\<close>).
  File names below are relative to it.

  The parts of the program and how they meet.  \<^verbatim>\<open>arch\<close> holds the physical frames (\<^verbatim>\<open>pmm.c\<close>), the page tables over
  them (\<^verbatim>\<open>paging.c\<close>), the address spaces and the memory system calls over those (\<^verbatim>\<open>vmm.c\<close>, \<^verbatim>\<open>syscall/sys_mem.c\<close>),
  and the processor and interrupt tables.  \<^verbatim>\<open>lib\<close> holds the containers everything else is built from.  \<^verbatim>\<open>kernel\<close> holds
  the heap and, under \<^verbatim>\<open>sched\<close>, tasks, the scheduler and the events tasks wait for, which the input streams
  of \<^verbatim>\<open>input_manager.c\<close> wake.  \<^verbatim>\<open>fs\<close> is a stack: the VFS finds files by paths in FAT32 directories, FAT32 reads and
  writes sectors through the cache of \<^verbatim>\<open>disk.c\<close>, and that calls the driver.  \<^verbatim>\<open>gui\<close> is another: the console prints
  characters into its history and draws them on a layer, the composer lays the layers over each other on
  the back buffer of \<^verbatim>\<open>drivers/framebuffer.c\<close>.
\<close>

section \<open>How the code is modelled\<close>

text \<open>
  A struct is a record with the fields of the struct, an operation a function from the state to the result
  and the new state, with the guards and early returns of the C function in their order.  Integers are words of
  their C width (\<open>u8\<close>, \<open>u16\<close>, \<open>u32\<close>, \<open>i32\<close>), so arithmetic wraps as it does in C; signed comparisons are
  written as such.  An allocated object is the list of its bytes (or words, or records, where nothing looks at
  its bytes); an access outside it is the fault \<open>Out_Of_Bounds\<close>.  \<open>fault\<close> also has the panics, the failed assertions, what C
  leaves undefined, and a poll of a device that never answers, so every way in which kernel code
  stops is a value: \<open>'a res\<close> is a fault or a result.  A loop is a structural recursion, \<open>rfor\<close>, or a function with a
  termination proof; one that may run forever is a \<open>partial_function\<close> into \<open>'a lres\<close>, where
  \<open>None\<close> is no return, and the theorems about it say that it returns.  The one use of fuel is the drain
  of a queue in \<open>Ring_Queue\<close>, where the number of elements is enough.  A function that
  holds the task lock for its whole body is one step; the code that runs without a lock (the queue of
  \<^verbatim>\<open>ring.c\<close>, the reference counts of \<^verbatim>\<open>refcount.h\<close>) is also modelled access by access, in every interleaving.

  What is outside the code is an argument: the values read from ports, the sectors the driver transfers, the
  memory \<^verbatim>\<open>malloc\<close> returns (where a component does not depend on the heap's layout: \<open>junk\<close> for its content and an
  address), the font, the clock.  Hypotheses on them (a driver that transfers what it is asked for,
  buffers of the length asked for) are premises of the theorems that use them.
\<close>

section \<open>The theories\<close>

text \<open>
  \<open>Kernel_Prelude\<close>: the integer types, faults and results, loops, byte buffers, circular lists, masks and powers of two.
  \<open>Kernel_Mem\<close>: memory as bytes, for the heap.  \<open>Port_Io\<close>: ports (\<^verbatim>\<open>kernel/system.c\<close>).

  Memory.
  \<open>Bitmap_Alloc\<close> (\<^verbatim>\<open>lib/bitmap.c\<close>): searching, setting and clearing intervals; the allocator is first fit.
  \<open>Pmm\<close> (\<^verbatim>\<open>arch/pmm.c\<close>): frames with reference counts; the bitmap and the counters agree.
  \<open>Paging\<close> (\<^verbatim>\<open>arch/paging.c\<close>): directories and tables in frames; \<open>vm_walk\<close> is the translation of the processor, and the
  invariant \<open>vm_balanced\<close> says that each frame is counted once for every entry that refers to it.  Mapping, unmapping, copying and
  destroying keep it, and change the translation where they should only.
  \<open>Vmm\<close> (\<^verbatim>\<open>arch/vmm.c\<close>, \<^verbatim>\<open>syscall/sys_mem.c\<close>): the user stack, \<^verbatim>\<open>brk\<close>, \<^verbatim>\<open>mmap2\<close>, \<^verbatim>\<open>munmap\<close> and the kernel's mappings.
  \<open>Heap\<close>, \<open>Heap_Blocks\<close>, \<open>Heap_Correct\<close> (\<^verbatim>\<open>kernel/heap.c\<close>): the allocator on raw memory, its abstraction to blocks that tile an
  interval and lists of free blocks, and the invariant.

  Containers and text.
  \<open>Ring_Queue\<close> (\<^verbatim>\<open>lib/ring.c\<close>): the queue, and producer and consumer running at once.
  \<open>Dynamic_Array\<close>, \<open>Array_Sort\<close> (\<^verbatim>\<open>lib/dynamic_array.c\<close>): the circular double-ended array and its
  quicksort; the locale \<open>sort_order\<close> states what the comparison must satisfy.
  \<open>Linked_Lists\<close> (\<^verbatim>\<open>lib/list.h\<close>, \<^verbatim>\<open>lib/linked_list.c\<close>), \<open>Hash_Table\<close> (\<^verbatim>\<open>lib/hash_table.c\<close>), \<open>Refcount\<close>
  (\<^verbatim>\<open>lib/refcount.h\<close>): the table refines a map, through every growth and shrinking.
  \<open>Strings\<close>, \<open>Pattern\<close> (\<^verbatim>\<open>lib/string.c\<close>, \<^verbatim>\<open>lib/random.c\<close>, \<^verbatim>\<open>kernel/system.c\<close>): the string routines, numerals, UTF-8, and the two matching
  routines against their specifications.
  \<open>Date_Time\<close> (\<^verbatim>\<open>lib/datetime.c\<close>): the CMOS clock, packed dates and time stamps.

  Tasks and interrupts.
  \<open>Interrupts\<close> (\<^verbatim>\<open>arch/gdt_initialiser.c\<close>, \<^verbatim>\<open>idt_initialiser.c\<close>, \<^verbatim>\<open>isr.c\<close> and the smaller files beside them): the tables bit by bit, and the
  dispatch with its acknowledgements.
  \<open>Task_State\<close>, \<open>Sched_Correct\<close>, \<open>Task_Event\<close>, \<open>Task_Life\<close>, \<open>Task_Correct\<close> (\<^verbatim>\<open>kernel/sched\<close>, \<^verbatim>\<open>kernel/input_manager.c\<close>): the ring of tasks, the choice of the
  next one, waiting and waking, creation and exit.

  Files.
  \<open>Disk_Cache\<close>, \<open>Disk_Correct\<close> (\<^verbatim>\<open>fs/disk.c\<close>, \<^verbatim>\<open>fs/mbr.c\<close>): \<open>disk_view\<close> is the disk without its cache.
  \<open>Fat32\<close>, \<open>Fat_Dir\<close>, \<open>Fat_Create\<close> hold the definitions of \<^verbatim>\<open>fs/fat32/fat32.c\<close>; \<open>Fat_Table\<close>, \<open>Fat_Alloc\<close>, \<open>Fat_Files\<close>, \<open>Fat_Write\<close>, \<open>Fat_Correct\<close> the allocation
  table, chains of clusters and the content of files; \<open>Fat_List\<close>, \<open>Fat_Remove\<close>, \<open>Fat_Names\<close> the listing of directories, the removal
  of entries and long names; \<open>Fat_Props\<close> and \<open>Fat_Dir_Props\<close> the properties, on small file systems.
  \<open>Vfs\<close>, \<open>Vfs_Find\<close>, \<open>Vfs_Mount\<close>, \<open>Vfs_Stream\<close> (\<^verbatim>\<open>fs/vfs.c\<close>): the search by paths against a search down the
  directory tree, the two mount tables, and streams.

  Display.
  \<open>Printf\<close>, \<open>Printf_Correct\<close> (\<^verbatim>\<open>gui/konsole.c\<close>): formatted output against a reference semantics of formats.
  \<open>Composer\<close>, \<open>Composer_Correct\<close> (\<^verbatim>\<open>drivers/framebuffer.c\<close>, \<^verbatim>\<open>gui/composer.c\<close>, \<^verbatim>\<open>gui/renderer.c\<close>, \<^verbatim>\<open>gui/colors.h\<close>): layers, their order and the
  picture they make; \<open>layer_order\<close> is an interpretation of \<open>sort_order\<close>.
  \<open>Konsole\<close>, \<open>Konsole_Correct\<close>, \<open>Konsole_Terminal\<close> (\<^verbatim>\<open>gui/konsole.c\<close>, \<^verbatim>\<open>gui/colors.c\<close>): the console against a terminal of lines and a
  cursor; \<open>shows_cells\<close> says that the pixels of the layer are those of the symbols in view.
\<close>

section \<open>Bounds\<close>

text \<open>
  Sizes in the theorems are those at which the C code itself stays inside its integers: arrays and buffers
  below \<open>2 ^ 32\<close> bytes (\<open>da_room\<close> says that a dynamic array may still double), sorted arrays below \<open>2 ^ 31\<close> elements because their
  indices are signed, a history of the console of which the 12-byte symbols, with room for the next doubling,
  fit 32 bits (\<open>96 * (count + new) < 2 ^ 32\<close>), layers and screens below \<open>2 ^ 30\<close> in each direction so that sums of
  coordinates do not overflow.  Where the code fails inside such bounds the theorem has the failing case as a
  hypothesis or as its conclusion (a \<^verbatim>\<open>brk\<close> above \<open>0xFFFFF000\<close>, two layers left in an array of eight slots, a layer wholly left of the
  screen), and a lemma beside it shows the failure.
\<close>

section \<open>Not modelled\<close>

text \<open>
  Code that only talks to a device: \<^verbatim>\<open>drivers/ahci.c\<close>, \<^verbatim>\<open>pio.c\<close>, \<^verbatim>\<open>ata.c\<close> (the driver below the disk cache is an argument there),
  \<^verbatim>\<open>keyboard.c\<close> and \<^verbatim>\<open>mouse.c\<close> (which feed the input streams), \<^verbatim>\<open>timer.c\<close>, \<^verbatim>\<open>pci.c\<close>, \<^verbatim>\<open>power.c\<close>.
  The ELF loader, the argument parser, the semaphores and the worker of \<^verbatim>\<open>kernel\<close>, the interactive shell of \<^verbatim>\<open>terminal.c\<close>, the
  start-up sequence of \<^verbatim>\<open>kernel.c\<close>, and the system calls other than those of memory (most return -1 or pass
  their arguments on).  The glyphs of \<^verbatim>\<open>gui/font.c\<close> are data.  Assembly: the boot code, the interrupt stubs,
  the switch of registers and \<^verbatim>\<open>memcpy_xl\<close>, taken as a copy.  The programs of \<^verbatim>\<open>userspace\<close>, ACPICA and picolibc are other software.
  Of the processor tables the FPU contexts (\<^verbatim>\<open>fxsave\<close>) are left out.  Weak memory orders are not modelled: the
  interleavings are those of single accesses, as on one x86 processor.
\<close>

end
